(* ===== verification/Prelude.thy ===== *)
theory Prelude
  imports Main "HOL-Library.Char_ord" "HOL-Library.List_Lexorder"
begin

text \<open>
  Shared ground of the development: the statements of SQL the two stores use, as functions on
  lists of rows; JavaScript's truthiness; and the lemmas on them that carry the component proofs.

  A table is the list of its rows in insertion order. A \<open>SELECT\<close> that takes one row is
  \<open>get_row\<close>, an \<open>UPDATE ... WHERE\<close> is \<open>update_where\<close>, a
  \<open>DELETE ... WHERE\<close> is \<open>delete_where\<close>, an \<open>INSERT ... ON CONFLICT DO UPDATE\<close> is
  \<open>upsert\<close>, and an \<open>INSERT OR IGNORE\<close> (or \<open>ON CONFLICT DO NOTHING\<close>) is
  \<open>insert_ignore\<close>. The lemmas on them are in the collections \<open>table_simps\<close>
  (rewriting) and \<open>table_intros\<close>.
\<close>

named_theorems table_simps "rewriting of the table operations"
named_theorems table_intros "preservation of row predicates by the table operations"

section \<open>Rows\<close>

definition get_row :: "('r \<Rightarrow> bool) \<Rightarrow> 'r list \<Rightarrow> 'r option" where
  "get_row p rows = find p rows"

definition has_row :: "('r \<Rightarrow> bool) \<Rightarrow> 'r list \<Rightarrow> bool" where
  "has_row p rows = list_ex p rows"

definition update_where :: "('r \<Rightarrow> bool) \<Rightarrow> ('r \<Rightarrow> 'r) \<Rightarrow> 'r list \<Rightarrow> 'r list" where
  "update_where p f rows = map (\<lambda>r. if p r then f r else r) rows"

definition delete_where :: "('r \<Rightarrow> bool) \<Rightarrow> 'r list \<Rightarrow> 'r list" where
  "delete_where p rows = filter (\<lambda>r. \<not> p r) rows"

definition upsert :: "('r \<Rightarrow> bool) \<Rightarrow> 'r \<Rightarrow> ('r \<Rightarrow> 'r) \<Rightarrow> 'r list \<Rightarrow> 'r list" where
  "upsert p new f rows = (if has_row p rows then update_where p f rows else rows @ [new])"

definition insert_ignore :: "('r \<Rightarrow> bool) \<Rightarrow> 'r \<Rightarrow> 'r list \<Rightarrow> 'r list" where
  "insert_ignore p new rows = (if has_row p rows then rows else rows @ [new])"

text \<open>\<open>INSERT\<close> with the uniqueness of a key: \<open>None\<close> is the constraint failure.\<close>

definition insert_row :: "('r \<Rightarrow> bool) \<Rightarrow> 'r \<Rightarrow> 'r list \<Rightarrow> 'r list option" where
  "insert_row clash new rows = (if has_row clash rows then None else Some (rows @ [new]))"

lemma has_row_iff [table_simps]: "has_row p rows \<longleftrightarrow> (\<exists>r\<in>set rows. p r)"
  by (simp add: has_row_def list_ex_iff)

lemma has_row_get_row: "has_row p rows \<longleftrightarrow> get_row p rows \<noteq> None"
  by (auto simp: has_row_iff get_row_def find_None_iff)

lemma get_row_SomeD: "get_row p rows = Some r \<Longrightarrow> r \<in> set rows \<and> p r"
  by (auto simp: get_row_def find_Some_iff)

lemma get_row_None_iff [table_simps]: "get_row p rows = None \<longleftrightarrow> (\<forall>r\<in>set rows. \<not> p r)"
  by (auto simp: get_row_def find_None_iff)

lemma get_row_Nil [simp]: "get_row p [] = None"
  by (simp add: get_row_def)

lemma get_row_Cons [simp]: "get_row p (r # rows) = (if p r then Some r else get_row p rows)"
  by (simp add: get_row_def)

lemma get_row_append [table_simps]:
  "get_row p (xs @ ys) = (case get_row p xs of None \<Rightarrow> get_row p ys | Some r \<Rightarrow> Some r)"
  by (induction xs) auto

lemma get_row_update_where:
  assumes "\<And>r. q (if p r then f r else r) = q r"
  shows "get_row q (update_where p f rows) = map_option (\<lambda>r. if p r then f r else r) (get_row q rows)"
  using assms by (induction rows) (auto simp: update_where_def)

lemma has_row_update_where:
  assumes "\<And>r. q (if p r then f r else r) = q r"
  shows "has_row q (update_where p f rows) = has_row q rows"
  using get_row_update_where [of q p f rows] assms by (simp add: has_row_get_row)

text \<open>An update after which no row of a kind is left.\<close>

lemma update_where_clears:
  assumes "\<And>r. p r \<Longrightarrow> \<not> q (f r)" and "\<And>r. \<not> p r \<Longrightarrow> \<not> q r"
  shows "\<not> has_row q (update_where p f rows)"
  using assms by (auto simp: has_row_def list_ex_iff update_where_def)

lemma get_row_update_same:
  assumes "\<And>r. p r \<Longrightarrow> p (f r)"
  shows "get_row p (update_where p f rows) = map_option f (get_row p rows)"
  using assms by (induction rows) (auto simp: update_where_def)

lemma get_row_update_other:
  assumes "\<And>r. p r \<Longrightarrow> \<not> q r \<and> \<not> q (f r)"
  shows "get_row q (update_where p f rows) = get_row q rows"
  using assms by (induction rows) (auto simp: update_where_def)

lemma get_row_delete_same [simp]: "get_row p (delete_where p rows) = None"
  by (auto simp: delete_where_def table_simps)

lemma get_row_delete_other:
  assumes "\<And>r. p r \<Longrightarrow> \<not> q r"
  shows "get_row q (delete_where p rows) = get_row q rows"
  using assms by (induction rows) (auto simp: delete_where_def)

lemma get_row_upsert_same:
  assumes "p new" and "\<And>r. p r \<Longrightarrow> p (f r)"
  shows "get_row p (upsert p new f rows) =
    Some (case get_row p rows of None \<Rightarrow> new | Some r \<Rightarrow> f r)"
proof (cases "get_row p rows")
  case None
  then have "\<not> has_row p rows" by (simp add: has_row_get_row)
  with None assms(1) show ?thesis by (simp add: upsert_def get_row_append)
next
  case (Some r)
  then have "has_row p rows" by (simp add: has_row_get_row)
  with Some assms(2) show ?thesis by (simp add: upsert_def get_row_update_same)
qed

lemma get_row_upsert_other:
  assumes "\<not> q new" and "\<And>r. p r \<Longrightarrow> \<not> q r \<and> \<not> q (f r)"
  shows "get_row q (upsert p new f rows) = get_row q rows"
  using assms by (auto simp: upsert_def get_row_append get_row_update_other split: option.split)

lemma get_row_insert_ignore_same:
  assumes "p new"
  shows "get_row p (insert_ignore p new rows) =
    Some (case get_row p rows of None \<Rightarrow> new | Some r \<Rightarrow> r)"
  using assms by (auto simp: insert_ignore_def has_row_get_row get_row_append split: option.split)

lemma get_row_insert_ignore_other:
  assumes "\<not> q new"
  shows "get_row q (insert_ignore p new rows) = get_row q rows"
  using assms by (auto simp: insert_ignore_def get_row_append split: option.split)

lemma set_update_where [table_simps]:
  "set (update_where p f rows) = (\<lambda>r. if p r then f r else r) ` set rows"
  by (simp add: update_where_def)

lemma set_delete_where [table_simps]: "set (delete_where p rows) = {r \<in> set rows. \<not> p r}"
  by (auto simp: delete_where_def)

lemma length_update_where [simp]: "length (update_where p f rows) = length rows"
  by (simp add: update_where_def)

lemma update_where_Nil [simp]: "update_where p f [] = []"
  by (simp add: update_where_def)

lemma update_where_Cons: "update_where p f (r # rows) = (if p r then f r else r) # update_where p f rows"
  by (simp add: update_where_def)

lemma update_where_id: "(\<And>r. r \<in> set rows \<Longrightarrow> \<not> p r) \<Longrightarrow> update_where p f rows = rows"
  by (simp add: update_where_def map_idI)

lemma map_update_where:
  assumes "\<And>r. g (f r) = g r"
  shows "map g (update_where p f rows) = map g rows"
  using assms by (simp add: update_where_def)

lemma filter_update_where:
  assumes "\<And>r. q (if p r then f r else r) = q r"
  shows "filter q (update_where p f rows) = update_where p f (filter q rows)"
  using assms by (induction rows) (auto simp: update_where_def)

lemma distinct_map_update_where:
  assumes "\<And>r. g (f r) = g r" and "distinct (map g rows)"
  shows "distinct (map g (update_where p f rows))"
  using assms by (simp add: map_update_where)

lemma distinct_map_delete_where:
  "distinct (map g rows) \<Longrightarrow> distinct (map g (delete_where p rows))"
  by (simp add: delete_where_def distinct_map_filter)

lemma distinct_map_upsert:
  assumes "distinct (map g rows)" and "\<And>r. g (f r) = g r"
    and "\<And>r. g r = g new \<Longrightarrow> p r"
  shows "distinct (map g (upsert p new f rows))"
  using assms by (auto simp: upsert_def has_row_iff map_update_where)

lemma distinct_map_insert_ignore:
  assumes "distinct (map g rows)" and "\<And>r. g r = g new \<Longrightarrow> p r"
  shows "distinct (map g (insert_ignore p new rows))"
  using assms by (auto simp: insert_ignore_def has_row_iff)

text \<open>With a unique key, the row found is the row there is.\<close>

lemma get_row_unique:
  assumes "distinct (map g rows)" and "r \<in> set rows" and "p r" and "\<And>x. p x \<Longrightarrow> g x = g r"
  shows "get_row p rows = Some r"
proof (cases "get_row p rows")
  case None
  with assms(2,3) show ?thesis by (auto simp: get_row_None_iff)
next
  case (Some x)
  then have "x \<in> set rows" and "g x = g r" using get_row_SomeD assms(4) by metis+
  with assms(1,2) have "x = r" by (auto simp: distinct_map inj_on_def)
  with Some show ?thesis by simp
qed

text \<open>A loop of \<open>UPDATE ... WHERE key = ?\<close> over some of the rows is one pass over the table.\<close>

lemma fold_update_where:
  assumes "\<And>r. g (f r) = g r" and "distinct ids"
  shows "fold (\<lambda>i. update_where (\<lambda>r. g r = i) f) ids rows = update_where (\<lambda>r. g r \<in> set ids) f rows"
  using assms(2)
proof (induction ids arbitrary: rows)
  case Nil
  then show ?case by (simp add: update_where_def)
next
  case (Cons i ids)
  then show ?case by (auto simp: update_where_def assms(1))
qed

lemma fold_update_rows:
  assumes "\<And>r. g (f r) = g r" and "distinct (map g rows)" and "distinct picked" and "set picked \<subseteq> set rows"
  shows "fold (\<lambda>r. update_where (\<lambda>x. g x = g r) f) picked rows = map (\<lambda>x. if x \<in> set picked then f x else x) rows"
proof -
  have "inj_on g (set picked)" using assms(2,4) by (auto simp: distinct_map inj_on_def)
  then have d: "distinct (map g picked)" using assms(3) by (simp add: distinct_map)
  have "fold (\<lambda>r. update_where (\<lambda>x. g x = g r) f) picked rows = fold (\<lambda>i. update_where (\<lambda>x. g x = i) f) (map g picked) rows"
    by (simp add: fold_map comp_def)
  also have "\<dots> = update_where (\<lambda>x. g x \<in> set (map g picked)) f rows"
    using d by (intro fold_update_where assms(1))
  also have "\<dots> = map (\<lambda>x. if x \<in> set picked then f x else x) rows"
    unfolding update_where_def
  proof (intro map_cong refl)
    fix x assume "x \<in> set rows"
    then have "g x \<in> set (map g picked) \<longleftrightarrow> x \<in> set picked"
      using assms(2,4) by (auto simp: distinct_map inj_on_def)
    then show "(if g x \<in> set (map g picked) then f x else x) = (if x \<in> set picked then f x else x)" by simp
  qed
  finally show ?thesis .
qed

text \<open>Without a unique key: every row with the key of a picked row is changed.\<close>

lemma fold_update_hits:
  assumes "\<And>r. g (f r) = g r" and "\<And>r. P (f r)"
    and "x \<in> set (fold (\<lambda>r. update_where (\<lambda>y. g y = g r) f) picked rows)"
  shows "(g x \<in> g ` set picked \<and> P x) \<or> (g x \<notin> g ` set picked \<and> x \<in> set rows)"
  using assms(3)
proof (induction picked arbitrary: rows)
  case Nil
  then show ?case by simp
next
  case (Cons r rs)
  from Cons.IH [of "update_where (\<lambda>x. g x = g r) f rows"] Cons.prems
  have "(g x \<in> g ` set rs \<and> P x) \<or> (g x \<notin> g ` set rs \<and> x \<in> set (update_where (\<lambda>x. g x = g r) f rows))" by simp
  then show ?case using assms(1,2) by (auto simp: set_update_where split: if_splits)
qed

section \<open>JavaScript truthiness and defaults\<close>

text \<open>\<open>if (s)\<close> on a string that may be \<open>null\<close> or \<open>undefined\<close>: the empty string is false too.\<close>

definition truthy :: "string option \<Rightarrow> bool" where
  "truthy v = (case v of None \<Rightarrow> False | Some x \<Rightarrow> x \<noteq> [])"

lemma truthyE: "truthy v \<Longrightarrow> (\<And>x. v = Some x \<Longrightarrow> x \<noteq> [] \<Longrightarrow> P) \<Longrightarrow> P"
  by (cases v) (auto simp: truthy_def)

text \<open>The \<open>??\<close> operator.\<close>

definition or_else :: "'a option \<Rightarrow> 'a \<Rightarrow> 'a" where
  "or_else v d = (case v of None \<Rightarrow> d | Some x \<Rightarrow> x)"

lemma or_else_simps [simp]: "or_else None d = d" "or_else (Some x) d = x"
  by (simp_all add: or_else_def)

text \<open>\<open>Array.prototype.find\<close> and \<open>ORDER BY\<close> (a stable sort by one key).\<close>

definition order_by :: "('r \<Rightarrow> 'k::linorder) \<Rightarrow> 'r list \<Rightarrow> 'r list" where
  "order_by = sort_key"

lemma set_order_by [simp]: "set (order_by k rows) = set rows"
  by (simp add: order_by_def)

lemma sorted_order_by [simp]: "sorted (map k (order_by k rows))"
  by (simp add: order_by_def)

lemma length_order_by [simp]: "length (order_by k rows) = length rows"
  by (simp add: order_by_def)

lemma order_by_Nil_iff [simp]: "order_by k rows = [] \<longleftrightarrow> rows = []"
  by (metis length_0_conv length_order_by)

lemma order_by_sorted: "sorted (map k rows) \<Longrightarrow> order_by k rows = rows"
  by (simp add: order_by_def sorted_sort_id sort_key_id_if_sorted)

lemma filter_order_by: "filter p (order_by k rows) = order_by k (filter p rows)"
  by (simp add: order_by_def filter_sort)

text \<open>A sorted list splits at any threshold; so does what \<open>ORDER BY\<close> returns.\<close>

lemma sorted_split_at:
  "sorted (map k xs) \<Longrightarrow> xs = filter (\<lambda>x. k x \<le> a) xs @ filter (\<lambda>x. a < k x) xs"
proof (induction xs)
  case Nil
  then show ?case by simp
next
  case (Cons x xs)
  then have IH: "xs = filter (\<lambda>x. k x \<le> a) xs @ filter (\<lambda>x. a < k x) xs" by simp
  show ?case
  proof (cases "k x \<le> a")
    case True
    with IH show ?thesis by simp
  next
    case False
    with Cons.prems have "\<forall>y\<in>set xs. \<not> k y \<le> a" by fastforce
    then have "filter (\<lambda>x. k x \<le> a) xs = []" by (simp add: filter_empty_conv)
    with False IH show ?thesis by simp
  qed
qed

lemma order_by_split_at:
  "order_by k xs = order_by k (filter (\<lambda>x. k x \<le> a) xs) @ order_by k (filter (\<lambda>x. a < k x) xs)"
  using sorted_split_at [OF sorted_order_by, of k xs a] by (simp add: filter_order_by)

end
