(* ===== verification/Json.thy ===== *)
theory Json
  imports Prelude "HOL-Library.Multiset"
begin

text \<open>
  JSON values and their two serialisations: \<open>JSON.stringify\<close> of the language, and
  \<open>canonJson\<close> of \<open>src/src/core/canon-json.ts\<close>, which sorts the members of every object.
  A string is the list of its UTF-16 code units; a \<open>char\<close> stands for a unit below 256, and
  numbers are the integers the stores keep. A column the stores write with
  \<open>JSON.stringify\<close> and read with \<open>JSON.parse\<close> holds the value itself (a \<open>json\<close>) in this model.
\<close>

datatype json =
    JNull
  | JBool bool
  | JNum int
  | JStr string
  | JArr "json list"
  | JObj "(string \<times> json) list"

text \<open>The stores' \<open>j\<close>: \<open>JSON.stringify(v ?? null)\<close>, an absent value stored as \<open>null\<close>.\<close>

definition j :: "json option \<Rightarrow> json" where
  "j v = or_else v JNull"

section \<open>JSON.stringify\<close>

fun show_nat :: "nat \<Rightarrow> string" where
  "show_nat n = (if n < 10 then [char_of (48 + n)] else show_nat (n div 10) @ [char_of (48 + n mod 10)])"

declare show_nat.simps [simp del]

definition show_int :: "int \<Rightarrow> string" where
  "show_int i = (if i < 0 then ''-'' @ show_nat (nat (- i)) else show_nat (nat i))"

definition hex_digit :: "nat \<Rightarrow> char" where
  "hex_digit n = (if n < 10 then char_of (48 + n) else char_of (87 + n))"

text \<open>One code unit inside a string literal.\<close>

definition esc_char :: "char \<Rightarrow> string" where
  "esc_char c =
     (let n = (of_char c :: nat) in
      if n = 34 then [char_of (92::nat), char_of (34::nat)]
      else if n = 92 then [char_of (92::nat), char_of (92::nat)]
      else if n = 8 then [char_of (92::nat), CHR ''b'']
      else if n = 9 then [char_of (92::nat), CHR ''t'']
      else if n = 10 then [char_of (92::nat), CHR ''n'']
      else if n = 12 then [char_of (92::nat), CHR ''f'']
      else if n = 13 then [char_of (92::nat), CHR ''r'']
      else if n < 32 then [char_of (92::nat), CHR ''u'', CHR ''0'', CHR ''0'', hex_digit (n div 16), hex_digit (n mod 16)]
      else [c])"

definition str_lit :: "string \<Rightarrow> string" where
  "str_lit s = CHR 0x22 # concat (map esc_char s) @ [CHR 0x22]"

fun join_with :: "string \<Rightarrow> string list \<Rightarrow> string" where
  "join_with sep [] = []"
| "join_with sep [x] = x"
| "join_with sep (x # y # ys) = x @ sep @ join_with sep (y # ys)"

fun stringify :: "json \<Rightarrow> string"
  and stringify_items :: "json list \<Rightarrow> string list"
  and stringify_members :: "(string \<times> json) list \<Rightarrow> string list" where
  "stringify JNull = ''null''"
| "stringify (JBool b) = (if b then ''true'' else ''false'')"
| "stringify (JNum i) = show_int i"
| "stringify (JStr s) = str_lit s"
| "stringify (JArr vs) = ''['' @ join_with '','' (stringify_items vs) @ '']''"
| "stringify (JObj kvs) = ''{'' @ join_with '','' (stringify_members kvs) @ ''}''"
| "stringify_items [] = []"
| "stringify_items (v # vs) = stringify v # stringify_items vs"
| "stringify_members [] = []"
| "stringify_members ((k, v) # kvs) = (str_lit k @ '':'' @ stringify v) # stringify_members kvs"

section \<open>canonJson\<close>

text \<open>
  The members are serialised with their keys, sorted by key, and joined:
  \<open>Object.keys(v).sort().map(...).join(",")\<close>.
\<close>

fun canonJson :: "json \<Rightarrow> string"
  and canon_items :: "json list \<Rightarrow> string list"
  and canon_members :: "(string \<times> json) list \<Rightarrow> (string \<times> string) list" where
  "canonJson JNull = stringify JNull"
| "canonJson (JBool b) = stringify (JBool b)"
| "canonJson (JNum i) = stringify (JNum i)"
| "canonJson (JStr s) = stringify (JStr s)"
| "canonJson (JArr vs) = ''['' @ join_with '','' (canon_items vs) @ '']''"
| "canonJson (JObj kvs) =
     ''{'' @ join_with '','' (map (\<lambda>(k, t). str_lit k @ '':'' @ t) (order_by fst (canon_members kvs))) @ ''}''"
| "canon_items [] = []"
| "canon_items (v # vs) = canonJson v # canon_items vs"
| "canon_members [] = []"
| "canon_members ((k, v) # kvs) = (k, canonJson v) # canon_members kvs"

text \<open>The reference: the value with every object's members sorted, then plain \<open>JSON.stringify\<close>.\<close>

fun sort_members :: "json \<Rightarrow> json"
  and sort_items :: "json list \<Rightarrow> json list"
  and sort_fields :: "(string \<times> json) list \<Rightarrow> (string \<times> json) list" where
  "sort_members JNull = JNull"
| "sort_members (JBool b) = JBool b"
| "sort_members (JNum i) = JNum i"
| "sort_members (JStr s) = JStr s"
| "sort_members (JArr vs) = JArr (sort_items vs)"
| "sort_members (JObj kvs) = JObj (order_by fst (sort_fields kvs))"
| "sort_items [] = []"
| "sort_items (v # vs) = sort_members v # sort_items vs"
| "sort_fields [] = []"
| "sort_fields ((k, v) # kvs) = (k, sort_members v) # sort_fields kvs"

lemma canon_members_map: "canon_members kvs = map (\<lambda>(k, v). (k, canonJson v)) kvs"
  by (induction kvs) auto

lemma canon_items_map: "canon_items vs = map canonJson vs"
  by (induction vs) auto

lemma stringify_members_map:
  "stringify_members kvs = map (\<lambda>(k, v). str_lit k @ '':'' @ stringify v) kvs"
  by (induction kvs) auto

lemma sort_fields_map: "sort_fields kvs = map (\<lambda>(k, v). (k, sort_members v)) kvs"
  by (induction kvs) auto

text \<open>Sorting by the key commutes with a map that keeps the key.\<close>

lemma insort_key_map_same_key:
  assumes "\<And>x. k' (f x) = k x"
  shows "insort_key k' (f x) (map f xs) = map f (insort_key k x xs)"
  using assms by (induction xs) auto

lemma order_by_map_same_key:
  assumes "\<And>x. k' (f x) = k x"
  shows "order_by k' (map f xs) = map f (order_by k xs)"
  using assms by (induction xs) (auto simp: order_by_def insort_key_map_same_key)

lemma order_by_fst_map_snd:
  "order_by fst (map (\<lambda>(k, v). (k, f v)) kvs) = map (\<lambda>(k, v). (k, f v)) (order_by fst kvs)"
  by (rule order_by_map_same_key) auto

lemma order_by_canon_members:
  "order_by fst (canon_members kvs) = map (\<lambda>(k, v). (k, canonJson v)) (order_by fst kvs)"
  by (simp only: canon_members_map order_by_fst_map_snd)

lemma order_by_sort_fields:
  "order_by fst (sort_fields kvs) = map (\<lambda>(k, v). (k, sort_members v)) (order_by fst kvs)"
  by (simp only: sort_fields_map order_by_fst_map_snd)

lemma order_by_mset_unique:
  assumes "mset xs = mset ys" and "distinct (map k xs)"
  shows "order_by k xs = order_by k ys"
proof -
  have s: "set xs = set ys" using assms(1) by (rule mset_eq_setD)
  have d: "distinct (map k ys)"
    using assms by (metis mset_eq_imp_distinct_iff mset_map)
  have i: "inj_on k (set xs)" using assms(2) by (simp add: distinct_map)
  have dx: "distinct (map k (order_by k xs))" and dy: "distinct (map k (order_by k ys))"
    using assms(2) d by (simp_all add: order_by_def distinct_map)
  show ?thesis
    using i s dx dy by (intro map_sorted_distinct_set_unique [where f = k]) auto
qed

lemma canon_stringify:
  "canonJson v = stringify (sort_members v)"
  "canon_items vs = stringify_items (sort_items vs)"
  "map snd (canon_members kvs) = map (\<lambda>(k, v). stringify v) (sort_fields kvs)"
proof (induction v and vs and kvs rule: canonJson_canon_items_canon_members.induct)
  case (6 kvs)
  have e: "canonJson v = stringify (sort_members v)" if "(k, v) \<in> set kvs" for k v
  proof -
    have "map (canonJson \<circ> snd) kvs = map (stringify \<circ> sort_members \<circ> snd) kvs"
      using "6" by (simp add: canon_members_map sort_fields_map split_def comp_def)
    with that show ?thesis by (fastforce simp: map_eq_conv)
  qed
  have "map (\<lambda>(k, t). str_lit k @ '':'' @ t) (order_by fst (canon_members kvs))
      = map (\<lambda>(k, v). str_lit k @ '':'' @ canonJson v) (order_by fst kvs)"
    by (simp add: order_by_canon_members split_def)
  also have "\<dots> = map (\<lambda>(k, v). str_lit k @ '':'' @ stringify (sort_members v)) (order_by fst kvs)"
    using e by (auto simp: map_eq_conv)
  also have "\<dots> = stringify_members (order_by fst (sort_fields kvs))"
    by (simp add: stringify_members_map order_by_sort_fields split_def)
  finally show ?case by simp
qed simp_all

text \<open>
  \<open>canonJson\<close> compares values by content. It is \<open>JSON.stringify\<close> of the value with the members of
  every object in it sorted, so for an object whose keys are distinct (every JavaScript object's are) the
  order in which the members were written does not reach the text.
\<close>

theorem canonJson_key_order:
  assumes "mset kvs = mset kvs'" and "distinct (map fst kvs)"
  shows "canonJson (JObj kvs) = canonJson (JObj kvs')
    \<and> canonJson (JObj kvs) = stringify (sort_members (JObj kvs))"
proof -
  have "order_by fst kvs = order_by fst kvs'"
    using assms by (rule order_by_mset_unique)
  then have "canonJson (JObj kvs) = canonJson (JObj kvs')"
    by (simp add: order_by_canon_members)
  then show ?thesis by (simp add: canon_stringify(1))
qed

theorem canonJson_key_order_witness:
  "canonJson (JObj [(''b'', JNum 1), (''a'', JNull)]) = canonJson (JObj [(''a'', JNull), (''b'', JNum 1)])"
  using canonJson_key_order [of "[(''b'', JNum 1), (''a'', JNull)]" "[(''a'', JNull), (''b'', JNum 1)]"]
  by simp

end
