(* ===== verification/Store_Types.thy ===== *)
theory Store_Types
  imports Json
begin

text \<open>
  The data the storage seam keeps: the types of \<open>src/src/core/types.ts\<close> and the tables of the
  \<open>SCHEMA\<close> of \<open>src/src/store/sqlite.ts\<close> (the Durable Object's is the same). One record per
  table, its fields the columns; a column that may be \<open>NULL\<close> is an \<open>option\<close>; the tables together are the
  record \<open>store\<close>, which every operation of either backend takes and returns. A statement that the
  database or the code refuses is a \<open>store_error\<close>: an operation that runs in one transaction
  returns \<open>Inl\<close> and no store, since a throw inside \<open>#tx\<close> rolls back.

  \<open>randomUUID()\<close> is a counter in the store (\<open>next_uuid\<close>): each call gives a value never given before.
  The clock is an argument (\<open>now\<close>), read once per operation.
\<close>

section \<open>Statuses\<close>

datatype task_status =
  TRunnable | TRunning | TWaiting | TCompleted | TInterrupted | TBlocked | TFailed

datatype operation_status =
  OPending | ORunning | OSucceeded | OFailed | OCancelled | OUnknown | ORejected

datatype approval_state = APending | AApproved | ADenied | AExpired | AExecuted | AFailed

datatype decided_by = ByRaft string string | ByConsole string | ByExpiry

datatype delivery_result = Delivered | NoRecipient

datatype handoff = NotSent | Accepted | HandoffFailed

datatype command_state = CPending | CClaimed | CDispatched | CDone

datatype request_state = RPending | RDone

datatype plugin_choice = Inherit | Enabled | Disabled

datatype wait_kind = WOperation | WMessage | WTimer

text \<open>The statuses as the text the columns and the payloads hold.\<close>

fun operation_status_text :: "operation_status \<Rightarrow> string" where
  "operation_status_text OPending = ''pending''"
| "operation_status_text ORunning = ''running''"
| "operation_status_text OSucceeded = ''succeeded''"
| "operation_status_text OFailed = ''failed''"
| "operation_status_text OCancelled = ''cancelled''"
| "operation_status_text OUnknown = ''unknown''"
| "operation_status_text ORejected = ''rejected''"

section \<open>Records of the code\<close>

record wait_spec =
  ws_kind :: wait_kind
  ws_operation :: "string option"
  ws_deadline :: "int option"

record outbox_command =
  oc_id :: string
  oc_kind :: string
  oc_payload :: json

record advance_txn =
  tx_tenant :: string
  tx_task :: string
  tx_generation :: int
  tx_fencing :: int
  tx_expected :: int
  tx_checkpoint :: json
  tx_state_version :: int
  tx_status :: task_status
  tx_consumed :: "int option"
  tx_waits :: "wait_spec list"
  tx_commands :: "outbox_command list"

datatype commit_reason = Fenced | StaleGeneration | VersionConflict | NoTask

datatype commit_result = Committed int | Refused commit_reason

record lease =
  le_tenant :: string
  le_task :: string
  le_holder :: string
  le_fencing :: int
  le_expires :: int

record model_binding =
  mb_tenant :: string
  mb_agent :: "string option"
  mb_provider :: string
  mb_model :: string
  mb_base_url :: string
  mb_secret_ref :: string

record approval_delivery =
  dl_outcome :: delivery_result
  dl_at :: int

record approval_record =
  ap_tenant :: string
  ap_operation :: string
  ap_agent :: string
  ap_task :: string
  ap_mount :: string
  ap_tool :: string
  ap_request :: json
  ap_state :: approval_state
  ap_approver :: "string option"
  ap_decided_at :: "int option"
  ap_created :: int
  ap_expires :: "int option"
  ap_decided_by :: "decided_by option"
  ap_outcome :: "string option"
  ap_run_at :: "int option"
  ap_delivery :: "approval_delivery option"
  ap_handoff :: "handoff option"

record mount_record =
  mt_tenant :: string
  mt_agent :: string
  mt_alias :: string
  mt_plugin :: string
  mt_installation :: string
  mt_connection :: "string option"
  mt_version :: string
  mt_config :: json
  mt_secret :: "string option"
  mt_policy :: "json option"
  mt_snapshot :: "json option"

section \<open>Tables\<close>

record agent_row =
  ag_tenant :: string
  ag_id :: string
  ag_config :: json
  ag_created :: int

record task_row =
  tk_tenant :: string
  tk_id :: string
  tk_agent :: string
  tk_status :: task_status
  tk_generation :: int
  tk_version :: int
  tk_fencing :: int
  tk_checkpoint :: json
  tk_state_version :: int
  tk_updated :: int

record event_row =
  ev_id :: nat
  ev_tenant :: string
  ev_agent :: string
  ev_task :: "string option"
  ev_thread :: "string option"
  ev_seq :: int
  ev_kind :: string
  ev_payload :: json
  ev_dedup :: "string option"
  ev_created :: int

record cursor_row =
  cu_tenant :: string
  cu_task :: string
  cu_consumer :: string
  cu_through :: int

record outbox_row =
  ob_id :: string
  ob_tenant :: string
  ob_task :: string
  ob_generation :: int
  ob_kind :: string
  ob_payload :: json
  ob_state :: command_state
  ob_created :: int
  ob_dispatched :: "int option"

record wait_row =
  wa_id :: nat
  wa_tenant :: string
  wa_task :: string
  wa_generation :: int
  wa_kind :: wait_kind
  wa_operation :: "string option"
  wa_deadline :: "int option"
  wa_resolved :: bool

record operation_row =
  op_id :: string
  op_tenant :: string
  op_agent :: string
  op_task :: string
  op_mount :: string
  op_tool :: string
  op_version :: string
  op_status :: operation_status
  op_result_ref :: "string option"
  op_created :: int
  op_updated :: int
  op_model_name :: "string option"

record approval_row =
  ar_record :: approval_record
  ar_notice :: "string option"
  ar_told :: "int option"
  ar_published :: "approval_state option"

record snapshot_row =
  sn_tenant :: string
  sn_task :: string
  sn_through :: int
  sn_state :: json
  sn_version :: int
  sn_created :: int

record quota_row =
  qu_tenant :: string
  qu_resource :: string
  qu_limit :: "int option"
  qu_window :: "int option"
  qu_used :: int
  qu_start :: int

record state_row =
  st_tenant :: string
  st_agent :: string
  st_key :: string
  st_value :: "json option"
  st_ref :: "string option"
  st_bytes :: nat
  st_updated :: int

record follow_up_row =
  fu_tenant :: string
  fu_agent :: string
  fu_task :: string
  fu_text :: string
  fu_created :: int

record secret_row =
  se_tenant :: string
  se_agent :: string
  se_name :: string
  se_ciphertext :: string
  se_iv :: string
  se_account :: "string option"
  se_verified :: bool
  se_created :: int
  se_updated :: int
  se_last_used :: "int option"

record plugin_choice_row =
  pc_tenant :: string
  pc_agent :: string
  pc_plugin :: string
  pc_choice :: plugin_choice
  pc_updated :: int

record request_row =
  rq_tenant :: string
  rq_id :: string
  rq_kind :: string
  rq_state :: request_state
  rq_response :: "json option"
  rq_created :: int

text \<open>A key or an indexed field of a plugin database: a number or a string, numbers first.\<close>

datatype db_key = KNum int | KStr string

record plugin_db_row =
  pd_tenant :: string
  pd_agent :: string
  pd_alias :: string
  pd_plugin :: string
  pd_store :: string
  pd_key :: db_key
  pd_value :: json
  pd_idx :: "db_key option"
  pd_updated :: int

record plugin_version_row =
  pv_tenant :: string
  pv_agent :: string
  pv_alias :: string
  pv_plugin :: string
  pv_version :: int
  pv_updated :: int

datatype trace_verdict = VOk | VFailed | VCancelled | VBlocked

record trace_row =
  tr_at :: int
  tr_tenant :: string
  tr_agent :: string
  tr_kind :: string
  tr_span :: string
  tr_parent :: "string option"
  tr_status :: string
  tr_verdict :: trace_verdict
  tr_ms :: "int option"
  tr_attrs :: "(string \<times> json) list"

text \<open>A row of \<open>trace_outbox\<close>: what was appended, under its \<open>AUTOINCREMENT\<close> number.\<close>

record trace_out_row =
  to_seq :: nat
  to_row :: trace_row

section \<open>The store\<close>

record store =
  agents :: "agent_row list"
  tasks :: "task_row list"
  events :: "event_row list"
  cursors :: "cursor_row list"
  leases :: "lease list"
  requests :: "request_row list"
  counters :: "string \<Rightarrow> int option"
  outbox :: "outbox_row list"
  waits :: "wait_row list"
  operations :: "operation_row list"
  bindings :: "model_binding list"
  approvals :: "approval_row list"
  snapshots :: "snapshot_row list"
  quotas :: "quota_row list"
  agent_state :: "state_row list"
  follow_ups :: "follow_up_row list"
  mounts :: "mount_record list"
  plugin_choices :: "plugin_choice_row list"
  secrets :: "secret_row list"
  plugin_rows :: "plugin_db_row list"
  plugin_versions :: "plugin_version_row list"
  trace :: "trace_out_row list"
  trace_seq :: nat
  next_uuid :: nat

text \<open>A store \<open>init()\<close> has just made: every table empty, the fencing counter at zero.\<close>

definition init_store :: store where
  "init_store = \<lparr>agents = [], tasks = [], events = [], cursors = [], leases = [], requests = [],
     counters = [''fencing'' \<mapsto> 0], outbox = [], waits = [], operations = [], bindings = [], approvals = [],
     snapshots = [], quotas = [], agent_state = [], follow_ups = [], mounts = [], plugin_choices = [],
     secrets = [], plugin_rows = [], plugin_versions = [], trace = [], trace_seq = 0, next_uuid = 0\<rparr>"

text \<open>What a statement or the code throws. A constraint failure names its table or index.\<close>

datatype store_error =
    NotOwner string string string
  | ConstraintFailed string
  | TypeError
  | Refusal string string

end
