(* ===== verification/Interfaces.thy ===== *)
theory Interfaces
  imports Prelude
begin

text \<open>
  The contracts the components offer each other, as locales: a keyed table (what a lookup returns after
  a write and a delete), a claim with one winner (several callers race to take something that may be
  taken once), a step that only ever adds to a log, and a hold that runs out by itself; and the calls between objects that may be lost. The theory that models a component
  interprets the contract it offers on the code's own operations.
\<close>

section \<open>A keyed table\<close>

locale keyed_table =
  fixes get :: "'s \<Rightarrow> 'k \<Rightarrow> 'v option"
    and put :: "'k \<Rightarrow> 'v \<Rightarrow> 's \<Rightarrow> 's"
    and del :: "'k \<Rightarrow> 's \<Rightarrow> 's"
    and ok :: "'k \<Rightarrow> bool"
  assumes get_put_same: "ok k \<Longrightarrow> get (put k v s) k = Some v"
    and get_put_other: "ok k \<Longrightarrow> k' \<noteq> k \<Longrightarrow> get (put k v s) k' = get s k'"
    and get_del_same: "get (del k s) k = None"
    and get_del_other: "k' \<noteq> k \<Longrightarrow> get (del k s) k' = get s k'"
begin

lemma put_overwrites: "ok k \<Longrightarrow> get (put k w (put k v s)) k' = get (put k w s) k'"
  by (cases "k' = k") (simp_all add: get_put_same get_put_other)

lemma put_commutes:
  "ok k \<Longrightarrow> ok l \<Longrightarrow> k \<noteq> l \<Longrightarrow> get (put k v (put l w s)) x = get (put l w (put k v s)) x"
  by (cases "x = k"; cases "x = l") (simp_all add: get_put_same get_put_other)

lemma del_undoes_put: "ok k \<Longrightarrow> get (del k (put k v s)) x = get (del k s) x"
  by (cases "x = k") (simp_all add: get_del_same get_del_other get_put_other)

lemma put_after_del: "ok k \<Longrightarrow> get (put k v (del k s)) x = get (put k v s) x"
  by (cases "x = k") (simp_all add: get_put_same get_put_other get_del_other)

end

section \<open>A claim one caller wins\<close>

text \<open>
  The outcomes of callers that try to take the same thing one after another: each caller is what it passes
  to the claim, with the steps the rest of the system takes before it tries.
\<close>

fun claim_outcomes :: "('c \<Rightarrow> 's \<Rightarrow> bool \<times> 's) \<Rightarrow> ('c \<times> ('s \<Rightarrow> 's)) list \<Rightarrow> 's \<Rightarrow> bool list" where
  "claim_outcomes claim [] s = []"
| "claim_outcomes claim ((c, e) # cs) s = (case claim c (e s) of (won, s') \<Rightarrow> won # claim_outcomes claim cs s')"

locale one_winner =
  fixes claim :: "'c \<Rightarrow> 's \<Rightarrow> bool \<times> 's"
    and taken :: "'s \<Rightarrow> bool"
  assumes claim_wins: "claim c s = (True, s') \<Longrightarrow> taken s'"
    and taken_refused: "taken s \<Longrightarrow> \<not> fst (claim c s)"
    and taken_stays: "taken s \<Longrightarrow> taken (snd (claim c s))"
begin

lemma no_winner_once_taken:
  assumes "taken s" and "\<And>c e s. (c, e) \<in> set cs \<Longrightarrow> taken s \<Longrightarrow> taken (e s)"
  shows "True \<notin> set (claim_outcomes claim cs s)"
  using assms
proof (induction cs arbitrary: s)
  case Nil
  then show ?case by simp
next
  case (Cons ce cs)
  obtain c e where ce: "ce = (c, e)" by (cases ce)
  have t: "taken (e s)" using Cons.prems(1) Cons.prems(2) [of c e s] ce by simp
  obtain won s' where r: "claim c (e s) = (won, s')" by fastforce
  have "\<not> won" and t': "taken s'"
    using taken_refused [OF t, of c] taken_stays [OF t, of c] r by simp_all
  moreover have "True \<notin> set (claim_outcomes claim cs s')"
    using t' Cons.prems(2) by (intro Cons.IH) auto
  ultimately show ?case using ce r by simp
qed

lemma at_most_one_winner:
  assumes "\<And>c e s. (c, e) \<in> set cs \<Longrightarrow> taken s \<Longrightarrow> taken (e s)"
  shows "count_list (claim_outcomes claim cs s) True \<le> 1"
  using assms
proof (induction cs arbitrary: s)
  case Nil
  then show ?case by simp
next
  case (Cons ce cs)
  obtain c e where ce: "ce = (c, e)" by (cases ce)
  obtain won s' where r: "claim c (e s) = (won, s')" by fastforce
  show ?case
  proof (cases won)
    case True
    with r have "taken s'" using claim_wins by simp
    then have "True \<notin> set (claim_outcomes claim cs s')"
      using Cons.prems by (intro no_winner_once_taken) auto
    then have "count_list (claim_outcomes claim cs s') True = 0" by (rule count_notin)
    with ce r True show ?thesis by simp
  next
    case False
    have "count_list (claim_outcomes claim cs s') True \<le> 1"
      using Cons.prems by (intro Cons.IH) auto
    with ce r False show ?thesis by simp
  qed
qed

end

section \<open>A log that only grows\<close>

locale append_only =
  fixes log_of :: "'s \<Rightarrow> 'e list"
    and step :: "'s \<Rightarrow> 's \<Rightarrow> bool"
  assumes step_appends: "step s s' \<Longrightarrow> \<exists>new. log_of s' = log_of s @ new"
begin

lemma run_appends: "step\<^sup>*\<^sup>* s s' \<Longrightarrow> \<exists>new. log_of s' = log_of s @ new"
proof (induction rule: rtranclp_induct)
  case base
  show ?case by simp
next
  case (step t u)
  then obtain a where "log_of t = log_of s @ a" by blast
  moreover from step.hyps(2) obtain b where "log_of u = log_of t @ b" using step_appends by blast
  ultimately show ?case by simp
qed

lemma entry_stays: "step\<^sup>*\<^sup>* s s' \<Longrightarrow> i < length (log_of s) \<Longrightarrow> log_of s' ! i = log_of s ! i"
  by (metis nth_append run_appends)

end

section \<open>A hold that ends by itself\<close>

text \<open>
  Something one caller at a time may hold, until the hold runs out: \<open>take_it now who s\<close> says whether it was taken, \<open>held s\<close> who holds it and
  until when.
\<close>

locale timed_hold =
  fixes take_it :: "int \<Rightarrow> 'w \<Rightarrow> 's \<Rightarrow> bool \<times> 's"
    and held :: "'s \<Rightarrow> ('w \<times> int) option"
    and good :: "'s \<Rightarrow> bool"
    and ttl :: int
  assumes take_wins: "good s \<Longrightarrow> take_it t w s = (True, s') \<Longrightarrow> held s' = Some (w, t + ttl)"
    and held_refused: "good s \<Longrightarrow> held s = Some (w, u) \<Longrightarrow> t < u \<Longrightarrow> w' \<noteq> w \<Longrightarrow> take_it t w' s = (False, s)"
    and take_good: "good s \<Longrightarrow> good (snd (take_it t w s))"
begin

definition leaves_hold :: "'w \<Rightarrow> int \<Rightarrow> ('s \<Rightarrow> 's) \<Rightarrow> bool" where
  "leaves_hold w u f \<longleftrightarrow> (\<forall>s. good s \<longrightarrow> held s = Some (w, u) \<longrightarrow> good (f s) \<and> held (f s) = Some (w, u))"

lemma other_take_leaves: "t < u \<Longrightarrow> w' \<noteq> w \<Longrightarrow> leaves_hold w u (\<lambda>s. snd (take_it t w' s))"
  by (simp add: leaves_hold_def held_refused)

lemma hold_through:
  assumes "good s" and "held s = Some (w, u)" and "list_all (leaves_hold w u) fs"
  shows "good (fold (\<lambda>f. f) fs s) \<and> held (fold (\<lambda>f. f) fs s) = Some (w, u)"
  using assms by (induction fs arbitrary: s) (simp_all add: leaves_hold_def)

lemma one_holder:
  assumes "good s" and "take_it t w s = (True, s1)" and "list_all (leaves_hold w (t + ttl)) fs" and "t' < t + ttl" and "w' \<noteq> w"
  shows "\<not> fst (take_it t' w' (fold (\<lambda>f. f) fs s1))"
proof -
  have "good s1" using take_good [OF assms(1), of t w] assms(2) by simp
  from hold_through [OF this take_wins [OF assms(1,2)] assms(3)] show ?thesis
    using held_refused [of _ w "t + ttl" t' w'] assms(4,5) by fastforce
qed

end

section \<open>A call that may be lost\<close>

text \<open>How a call to another object goes: it answers, it is never made, or it is made and its answer lost. The last two throw.\<close>

datatype rpc = Answers | Lost_Before | Lost_After

definition rpc_call :: "rpc \<Rightarrow> ('s \<Rightarrow> 'a \<times> 's) \<Rightarrow> 's \<Rightarrow> 'a option \<times> 's" where
  "rpc_call r f d = (case r of Answers \<Rightarrow> (Some (fst (f d)), snd (f d)) | Lost_Before \<Rightarrow> (None, d) | Lost_After \<Rightarrow> (None, snd (f d)))"

end
