(* ===== verification/Event_Log.thy ===== *)
theory Event_Log
  imports Store_Types Interfaces
begin

text \<open>
  The append-only log (\<open>src/src/store/sqlite.ts\<close>, \<open>src/src/store/durable-object.ts\<close>): counters, agents and
  tasks as created, the event insert with its owner check, its de-duplication and its per-agent sequence,
  the cursors, the reads over the log, and the snapshots that bound a rebuild. The lemmas show that the log
  only grows, that sequence numbers strictly rise for each agent and de-duplication keys are
  unique (\<open>log_inv\<close>), that an event its task's owner appends is always pending for the task,
  and that pruning snapshots changes nothing a rebuild computes.
\<close>

section \<open>Counters and ids\<close>

definition counter_value :: "string \<Rightarrow> store \<Rightarrow> int" where
  "counter_value name s = or_else (counters s name) 0"

definition nextCounter :: "string \<Rightarrow> store \<Rightarrow> int \<times> store" where
  "nextCounter name s =
     (let v = counter_value name s + 1 in (v, s\<lparr>counters := (counters s)(name \<mapsto> v)\<rparr>))"

definition randomUUID :: "store \<Rightarrow> nat \<times> store" where
  "randomUUID s = (next_uuid s, s\<lparr>next_uuid := Suc (next_uuid s)\<rparr>)"

definition seq_counter :: "string \<Rightarrow> string \<Rightarrow> string" where
  "seq_counter tenant agent = ''seq:'' @ tenant @ '':'' @ agent"

section \<open>Agents\<close>

definition createAgent :: "int \<Rightarrow> string \<Rightarrow> string \<Rightarrow> json option \<Rightarrow> store \<Rightarrow> store_error + store" where
  "createAgent now tenant agent config s =
     (case insert_row (\<lambda>r. ag_id r = agent)
        \<lparr>ag_tenant = tenant, ag_id = agent, ag_config = j (Some (or_else config (JObj []))), ag_created = now\<rparr> (agents s) of
        None \<Rightarrow> Inl (ConstraintFailed ''agents'')
      | Some rows \<Rightarrow> Inr (s\<lparr>agents := rows\<rparr>))"

definition is_agent :: "string \<Rightarrow> string \<Rightarrow> agent_row \<Rightarrow> bool" where
  "is_agent tenant agent r \<longleftrightarrow> ag_tenant r = tenant \<and> ag_id r = agent"

definition loadAgent :: "string \<Rightarrow> string \<Rightarrow> store \<Rightarrow> (string \<times> json \<times> int) option" where
  "loadAgent tenant agent s =
     (case get_row (is_agent tenant agent) (agents s) of
        None \<Rightarrow> None
      | Some r \<Rightarrow> Some (ag_id r, ag_config r, ag_created r))"

text \<open>The sqlite store asks how many rows the update changed.\<close>

definition updateAgentConfig :: "string \<Rightarrow> string \<Rightarrow> json option \<Rightarrow> store \<Rightarrow> bool \<times> store" where
  "updateAgentConfig tenant agent config s =
     (let changes = length (filter (is_agent tenant agent) (agents s)) in
      (0 < changes,
       s\<lparr>agents := update_where (is_agent tenant agent)
          (\<lambda>r. r\<lparr>ag_config := j (Some (or_else config (JObj [])))\<rparr>) (agents s)\<rparr>))"

text \<open>The Durable Object store reads the row first and writes only when it is there.\<close>

definition do_updateAgentConfig :: "string \<Rightarrow> string \<Rightarrow> json option \<Rightarrow> store \<Rightarrow> bool \<times> store" where
  "do_updateAgentConfig tenant agent config s =
     (if \<not> has_row (is_agent tenant agent) (agents s) then (False, s)
      else (True,
       s\<lparr>agents := update_where (is_agent tenant agent)
          (\<lambda>r. r\<lparr>ag_config := j (Some (or_else config (JObj [])))\<rparr>) (agents s)\<rparr>))"

lemma updateAgentConfig_eq: "do_updateAgentConfig tenant agent config s = updateAgentConfig tenant agent config s"
proof (cases "has_row (is_agent tenant agent) (agents s)")
  case True
  then have "filter (is_agent tenant agent) (agents s) \<noteq> []" by (auto simp: has_row_iff filter_empty_conv)
  with True show ?thesis by (simp add: do_updateAgentConfig_def updateAgentConfig_def)
next
  case False
  then have "filter (is_agent tenant agent) (agents s) = []" by (auto simp: has_row_iff filter_empty_conv)
  moreover from False have "update_where (is_agent tenant agent) f (agents s) = agents s" for f
    by (intro update_where_id) (auto simp: has_row_iff)
  ultimately show ?thesis using False by (simp add: do_updateAgentConfig_def updateAgentConfig_def)
qed

section \<open>Snapshots\<close>

definition is_snapshot :: "string \<Rightarrow> string \<Rightarrow> int \<Rightarrow> snapshot_row \<Rightarrow> bool" where
  "is_snapshot tenant task through r \<longleftrightarrow> sn_tenant r = tenant \<and> sn_task r = task \<and> sn_through r = through"

definition putSnapshot :: "int \<Rightarrow> string \<Rightarrow> string \<Rightarrow> int \<Rightarrow> json \<Rightarrow> int \<Rightarrow> store \<Rightarrow> store" where
  "putSnapshot now tenant task through state version s =
     s\<lparr>snapshots := upsert (is_snapshot tenant task through)
        \<lparr>sn_tenant = tenant, sn_task = task, sn_through = through, sn_state = state, sn_version = version, sn_created = now\<rparr>
        (\<lambda>r. r\<lparr>sn_state := state, sn_version := version\<rparr>) (snapshots s)\<rparr>"

definition task_snapshots :: "string \<Rightarrow> string \<Rightarrow> store \<Rightarrow> snapshot_row list" where
  "task_snapshots tenant task s =
     order_by sn_through (filter (\<lambda>r. sn_tenant r = tenant \<and> sn_task r = task) (snapshots s))"

definition pruneSnapshots :: "string \<Rightarrow> string \<Rightarrow> nat \<Rightarrow> store \<Rightarrow> nat \<times> store" where
  "pruneSnapshots tenant task keep s =
     (let rows = task_snapshots tenant task s; n = length rows in
      if n \<le> keep + 1 then (0, s)
      else let doomed = take (n - keep - 1) (drop 1 rows) in
        (length doomed,
         s\<lparr>snapshots := fold (\<lambda>d. delete_where (is_snapshot tenant task (sn_through d))) doomed (snapshots s)\<rparr>))"

text \<open>\<open>ORDER BY through_sequence DESC LIMIT 1\<close>; without a bound, \<open>Number.MAX_SAFE_INTEGER\<close>.\<close>

definition max_safe_integer :: int where
  "max_safe_integer = 9007199254740991"

definition getSnapshot :: "string \<Rightarrow> string \<Rightarrow> int option \<Rightarrow> store \<Rightarrow> (int \<times> json \<times> int) option" where
  "getSnapshot tenant task at_or_before s =
     (let rows = filter (\<lambda>r. sn_through r \<le> or_else at_or_before max_safe_integer) (task_snapshots tenant task s) in
      if rows = [] then None
      else (let r = last rows in Some (sn_through r, sn_state r, sn_version r)))"

section \<open>Tasks\<close>

definition is_task :: "string \<Rightarrow> string \<Rightarrow> task_row \<Rightarrow> bool" where
  "is_task tenant task r \<longleftrightarrow> tk_tenant r = tenant \<and> tk_id r = task"

definition get_task :: "string \<Rightarrow> string \<Rightarrow> store \<Rightarrow> task_row option" where
  "get_task tenant task s = get_row (is_task tenant task) (tasks s)"

text \<open>The task row first, then its snapshot at 0: two statements, not one transaction.\<close>

definition createTask :: "int \<Rightarrow> string \<Rightarrow> string \<Rightarrow> string \<Rightarrow> json \<Rightarrow> int \<Rightarrow> store \<Rightarrow> store_error + store" where
  "createTask now tenant agent task checkpoint version s =
     (case insert_row (\<lambda>r. tk_id r = task)
        \<lparr>tk_tenant = tenant, tk_id = task, tk_agent = agent, tk_status = TRunnable, tk_generation = 0,
         tk_version = 0, tk_fencing = 0, tk_checkpoint = checkpoint, tk_state_version = version, tk_updated = now\<rparr> (tasks s) of
        None \<Rightarrow> Inl (ConstraintFailed ''tasks'')
      | Some rows \<Rightarrow> Inr (putSnapshot now tenant task 0 checkpoint version (s\<lparr>tasks := rows\<rparr>)))"

text \<open>\<open>loadTask\<close> gives the row's columns under the record's names: the row itself here.\<close>

definition loadTask :: "string \<Rightarrow> string \<Rightarrow> store \<Rightarrow> task_row option" where
  "loadTask tenant task s = get_row (is_task tenant task) (tasks s)"

section \<open>Events\<close>

record new_event =
  ne_tenant :: string
  ne_agent :: string
  ne_task :: "string option"
  ne_thread :: "string option"
  ne_kind :: string
  ne_payload :: json
  ne_dedup :: "string option"

record append_result =
  inserted :: bool
  sequence :: int
  event_id :: nat

text \<open>The primary key and the two unique indexes of \<open>events\<close>.\<close>

definition event_clash :: "event_row \<Rightarrow> event_row \<Rightarrow> bool" where
  "event_clash new r \<longleftrightarrow>
     ev_id r = ev_id new
     \<or> (ev_dedup new \<noteq> None \<and> ev_tenant r = ev_tenant new \<and> ev_dedup r = ev_dedup new)
     \<or> (ev_tenant r = ev_tenant new \<and> ev_agent r = ev_agent new \<and> ev_seq r = ev_seq new)"

definition new_event_row :: "int \<Rightarrow> new_event \<Rightarrow> int \<Rightarrow> nat \<Rightarrow> event_row" where
  "new_event_row now e q eid =
     \<lparr>ev_id = eid, ev_tenant = ne_tenant e, ev_agent = ne_agent e, ev_task = ne_task e, ev_thread = ne_thread e,
      ev_seq = q, ev_kind = ne_kind e, ev_payload = ne_payload e, ev_dedup = ne_dedup e, ev_created = now\<rparr>"

definition insert_fresh :: "int \<Rightarrow> new_event \<Rightarrow> store \<Rightarrow> store_error + (append_result \<times> store)" where
  "insert_fresh now e s =
     (case nextCounter (seq_counter (ne_tenant e) (ne_agent e)) s of (q, s1) \<Rightarrow>
      case randomUUID s1 of (eid, s2) \<Rightarrow>
      let row = new_event_row now e q eid in
      case insert_row (event_clash row) row (events s2) of
        None \<Rightarrow> Inl (ConstraintFailed ''events'')
      | Some rows \<Rightarrow> Inr (\<lparr>inserted = True, sequence = q, event_id = eid\<rparr>, s2\<lparr>events := rows\<rparr>))"

definition dedup_row :: "new_event \<Rightarrow> store \<Rightarrow> event_row option" where
  "dedup_row e s =
     (if truthy (ne_dedup e)
      then get_row (\<lambda>r. ev_tenant r = ne_tenant e \<and> ev_dedup r = ne_dedup e) (events s) else None)"

definition insert_deduped :: "int \<Rightarrow> new_event \<Rightarrow> store \<Rightarrow> store_error + (append_result \<times> store)" where
  "insert_deduped now e s =
     (case dedup_row e s of
        Some dup \<Rightarrow> Inr (\<lparr>inserted = False, sequence = ev_seq dup, event_id = ev_id dup\<rparr>, s)
      | None \<Rightarrow> insert_fresh now e s)"

definition owner_row :: "new_event \<Rightarrow> store \<Rightarrow> task_row option" where
  "owner_row e s =
     (if truthy (ne_task e)
      then get_row (\<lambda>r. tk_tenant r = ne_tenant e \<and> Some (tk_id r) = ne_task e) (tasks s) else None)"

definition insertEvent :: "int \<Rightarrow> new_event \<Rightarrow> store \<Rightarrow> store_error + (append_result \<times> store)" where
  "insertEvent now e s =
     (case owner_row e s of
        Some owner \<Rightarrow>
          if tk_agent owner \<noteq> ne_agent e
          then Inl (NotOwner (ne_agent e) (tk_id owner) (tk_agent owner))
          else insert_deduped now e s
      | None \<Rightarrow> insert_deduped now e s)"

text \<open>\<open>appendEvent\<close> is the insert in a transaction of its own: a throw leaves the store as it was.\<close>

definition appendEvent :: "int \<Rightarrow> new_event \<Rightarrow> store \<Rightarrow> store_error + (append_result \<times> store)" where
  "appendEvent now e s = insertEvent now e s"

section \<open>Cursors and reads\<close>

definition is_cursor :: "string \<Rightarrow> string \<Rightarrow> string \<Rightarrow> cursor_row \<Rightarrow> bool" where
  "is_cursor tenant task consumer r \<longleftrightarrow> cu_tenant r = tenant \<and> cu_task r = task \<and> cu_consumer r = consumer"

definition cursor :: "string \<Rightarrow> string \<Rightarrow> string \<Rightarrow> store \<Rightarrow> int" where
  "cursor tenant task consumer s =
     (case get_row (is_cursor tenant task consumer) (cursors s) of None \<Rightarrow> 0 | Some r \<Rightarrow> cu_through r)"

definition of_task :: "string \<Rightarrow> string \<Rightarrow> event_row \<Rightarrow> bool" where
  "of_task tenant task e \<longleftrightarrow> ev_tenant e = tenant \<and> ev_task e = Some task"

definition pendingEvents :: "string \<Rightarrow> string \<Rightarrow> string \<Rightarrow> store \<Rightarrow> event_row list" where
  "pendingEvents tenant task consumer s =
     (let from = cursor tenant task consumer s in
      order_by ev_seq (filter (\<lambda>e. of_task tenant task e \<and> from < ev_seq e) (events s)))"

definition taskEvents :: "string \<Rightarrow> string \<Rightarrow> int option \<Rightarrow> int option \<Rightarrow> store \<Rightarrow> event_row list" where
  "taskEvents tenant task after through s =
     order_by ev_seq (filter (\<lambda>e. of_task tenant task e \<and> or_else after 0 < ev_seq e
        \<and> ev_seq e \<le> or_else through max_safe_integer) (events s))"

definition eventsSince :: "string \<Rightarrow> string \<Rightarrow> int \<Rightarrow> nat \<Rightarrow> store \<Rightarrow> event_row list" where
  "eventsSince tenant agent after limit s =
     take limit (order_by ev_seq (filter (\<lambda>e. ev_tenant e = tenant \<and> ev_agent e = agent \<and> after < ev_seq e) (events s)))"

definition oldestEventSequence :: "string \<Rightarrow> string \<Rightarrow> store \<Rightarrow> int" where
  "oldestEventSequence tenant agent s =
     (case map ev_seq (filter (\<lambda>e. ev_tenant e = tenant \<and> ev_agent e = agent) (events s)) of
        [] \<Rightarrow> 0
      | q # qs \<Rightarrow> foldl min q qs)"

section \<open>What an insert does\<close>

lemma nextCounter_value [simp]: "fst (nextCounter name s) = counter_value name s + 1"
  by (simp add: nextCounter_def Let_def)

lemma counter_value_nextCounter:
  "counter_value m (snd (nextCounter name s)) = (if m = name then counter_value name s + 1 else counter_value m s)"
  by (simp add: nextCounter_def Let_def counter_value_def)

lemma seq_counter_not_fencing [simp]:
  "seq_counter tenant agent \<noteq> ''fencing''" "''fencing'' \<noteq> seq_counter tenant agent"
  by (simp_all add: seq_counter_def)

abbreviation seq_of :: "string \<Rightarrow> string \<Rightarrow> store \<Rightarrow> int" where
  "seq_of tenant agent s \<equiv> counter_value (seq_counter tenant agent) s"

lemma insert_freshE:
  assumes "insert_fresh now e s = Inr (r, s')"
  obtains "inserted r" and "sequence r = seq_of (ne_tenant e) (ne_agent e) s + 1" and "event_id r = next_uuid s"
    and "s' = s\<lparr>counters := (counters s)(seq_counter (ne_tenant e) (ne_agent e) \<mapsto> sequence r),
           next_uuid := Suc (next_uuid s),
           events := events s @ [new_event_row now e (sequence r) (event_id r)]\<rparr>"
    and "\<not> has_row (event_clash (new_event_row now e (sequence r) (event_id r))) (events s)"
  using assms
  by (auto simp: insert_fresh_def nextCounter_def randomUUID_def Let_def insert_row_def split: option.splits if_splits)

lemma insertEvent_cases:
  assumes "insertEvent now e s = Inr (r, s')"
  obtains (duplicate) dup where "dedup_row e s = Some dup" and "s' = s" and "\<not> inserted r"
      and "sequence r = ev_seq dup" and "event_id r = ev_id dup"
    | (fresh) "dedup_row e s = None" and "insert_fresh now e s = Inr (r, s')"
  using assms by (auto simp: insertEvent_def insert_deduped_def split: option.splits if_splits)

lemma insertEvent_owner:
  "insertEvent now e s = Inr (r, s') \<Longrightarrow> owner_row e s = Some t \<Longrightarrow> tk_agent t = ne_agent e"
  by (auto simp: insertEvent_def split: if_splits)

text \<open>The fields of the store an insert leaves alone.\<close>

lemma insertEvent_frame:
  assumes "insertEvent now e s = Inr (r, s')"
  shows "tasks s' = tasks s" "cursors s' = cursors s" "leases s' = leases s" "outbox s' = outbox s"
    "waits s' = waits s" "operations s' = operations s" "approvals s' = approvals s" "trace s' = trace s"
    "snapshots s' = snapshots s" "counter_value ''fencing'' s' = counter_value ''fencing'' s"
    "agent_state s' = agent_state s" "mounts s' = mounts s" "requests s' = requests s" "follow_ups s' = follow_ups s"
    "quotas s' = quotas s"
  using assms by (auto elim!: insertEvent_cases insert_freshE simp: counter_value_def)

lemma insertEvent_appends:
  assumes "insertEvent now e s = Inr (r, s')"
  shows "events s' = events s @ (if inserted r then [new_event_row now e (sequence r) (event_id r)] else [])"
  using assms by (auto elim!: insertEvent_cases insert_freshE)

section \<open>The invariant of the log\<close>

text \<open>
  Read in insertion order: an event's sequence is above that of every earlier event of its agent and at
  most the agent's counter; two events of a tenant never carry the same de-duplication key; ids are unique.
\<close>

definition later_than :: "event_row \<Rightarrow> event_row \<Rightarrow> bool" where
  "later_than a b \<longleftrightarrow> ev_id a < ev_id b
     \<and> (ev_tenant a = ev_tenant b \<and> ev_agent a = ev_agent b \<longrightarrow> ev_seq a < ev_seq b)
     \<and> (ev_tenant a = ev_tenant b \<and> ev_dedup b \<noteq> None \<longrightarrow> ev_dedup a \<noteq> ev_dedup b)"

definition log_inv :: "store \<Rightarrow> bool" where
  "log_inv s \<longleftrightarrow> sorted_wrt later_than (events s)
     \<and> (\<forall>e\<in>set (events s). ev_id e < next_uuid s \<and> 1 \<le> ev_seq e \<and> ev_seq e \<le> seq_of (ev_tenant e) (ev_agent e) s)
     \<and> (\<forall>name. 0 \<le> counter_value name s)"

lemma log_inv_init: "log_inv init_store"
  by (simp add: log_inv_def init_store_def counter_value_def)

lemma log_inv_bound:
  "log_inv s \<Longrightarrow> e \<in> set (events s) \<Longrightarrow> 1 \<le> ev_seq e \<and> ev_seq e \<le> seq_of (ev_tenant e) (ev_agent e) s"
  by (simp add: log_inv_def)

lemma log_inv_cong:
  assumes "events s' = events s" and "next_uuid s \<le> next_uuid s'"
    and "\<And>name. counter_value name s \<le> counter_value name s'" and "log_inv s"
  shows "log_inv s'"
  unfolding log_inv_def
proof (intro conjI ballI allI)
  show "sorted_wrt later_than (events s')" using assms(1,4) by (simp add: log_inv_def)
next
  fix e assume "e \<in> set (events s')"
  then have e: "e \<in> set (events s)" by (simp add: assms(1))
  then have "ev_id e < next_uuid s" using assms(4) by (simp add: log_inv_def)
  then show "ev_id e < next_uuid s'" using assms(2) by simp
  show "1 \<le> ev_seq e" using log_inv_bound [OF assms(4) e] by simp
  show "ev_seq e \<le> seq_of (ev_tenant e) (ev_agent e) s'"
    using log_inv_bound [OF assms(4) e] assms(3) order_trans by blast
next
  fix name
  have "0 \<le> counter_value name s" using assms(4) by (simp add: log_inv_def)
  then show "0 \<le> counter_value name s'" using assms(3) order_trans by blast
qed

lemma log_inv_insert_fresh:
  assumes "log_inv s" and f: "insert_fresh now e s = Inr (r, s')"
  shows "log_inv s'"
proof -
  from f obtain q where q: "q = seq_of (ne_tenant e) (ne_agent e) s + 1"
    and s': "s' = s\<lparr>counters := (counters s)(seq_counter (ne_tenant e) (ne_agent e) \<mapsto> q),
        next_uuid := Suc (next_uuid s), events := events s @ [new_event_row now e q (next_uuid s)]\<rparr>"
    and nc: "\<not> has_row (event_clash (new_event_row now e q (next_uuid s))) (events s)"
    by (elim insert_freshE) auto
  let ?new = "new_event_row now e q (next_uuid s)"
  have lt: "later_than x ?new" if x: "x \<in> set (events s)" for x
    unfolding later_than_def
  proof (intro conjI impI)
    show "ev_id x < ev_id ?new" using x assms(1) by (simp add: log_inv_def new_event_row_def)
  next
    assume "ev_tenant x = ev_tenant ?new \<and> ev_agent x = ev_agent ?new"
    with log_inv_bound [OF assms(1) x] q show "ev_seq x < ev_seq ?new" by (simp add: new_event_row_def)
  next
    assume "ev_tenant x = ev_tenant ?new \<and> ev_dedup ?new \<noteq> None"
    moreover have "\<not> event_clash ?new x" using nc x by (simp add: has_row_iff)
    ultimately show "ev_dedup x \<noteq> ev_dedup ?new" by (simp add: event_clash_def)
  qed
  have mono: "counter_value m s \<le> counter_value m s'" for m by (simp add: s' counter_value_def q)
  have qv: "q = seq_of (ne_tenant e) (ne_agent e) s'" by (simp add: s' counter_value_def)
  have nonneg: "0 \<le> counter_value m s" for m using assms(1) by (simp add: log_inv_def)
  show ?thesis
    unfolding log_inv_def
  proof (intro conjI ballI allI)
    show "sorted_wrt later_than (events s')" using assms(1) lt by (simp add: s' sorted_wrt_append log_inv_def)
  next
    fix x assume "x \<in> set (events s')"
    then consider "x \<in> set (events s)" | "x = new_event_row now e q (next_uuid s)" by (auto simp: s')
    then have "ev_id x < next_uuid s' \<and> 1 \<le> ev_seq x \<and> ev_seq x \<le> seq_of (ev_tenant x) (ev_agent x) s'"
    proof cases
      case 1
      then have "ev_id x < next_uuid s" using assms(1) by (simp add: log_inv_def)
      then have "ev_id x < next_uuid s'" by (simp add: s')
      moreover have "ev_seq x \<le> seq_of (ev_tenant x) (ev_agent x) s'"
        using log_inv_bound [OF assms(1) 1] mono order_trans by blast
      ultimately show ?thesis using log_inv_bound [OF assms(1) 1] by simp
    next
      case 2
      then have "ev_id x < next_uuid s'" by (simp add: new_event_row_def s')
      moreover have "ev_tenant x = ne_tenant e" "ev_agent x = ne_agent e" "ev_seq x = q"
        using 2 by (simp_all add: new_event_row_def)
      moreover have "1 \<le> q" using q nonneg [of "seq_counter (ne_tenant e) (ne_agent e)"] by simp
      ultimately show ?thesis using qv by simp
    qed
    then show "ev_id x < next_uuid s'" "1 \<le> ev_seq x" "ev_seq x \<le> seq_of (ev_tenant x) (ev_agent x) s'" by auto
  next
    fix m
    show "0 \<le> counter_value m s'" using nonneg mono order_trans by blast
  qed
qed

lemma log_inv_insertEvent: "log_inv s \<Longrightarrow> insertEvent now e s = Inr (r, s') \<Longrightarrow> log_inv s'"
  by (erule insertEvent_cases) (auto intro: log_inv_insert_fresh)

text \<open>Under the invariant no index of \<open>events\<close> ever refuses an insert that the guards let through.\<close>

lemma insert_fresh_succeeds:
  assumes "log_inv s" and "dedup_row e s = None" and "ne_dedup e \<noteq> Some []"
  shows "\<exists>r s'. insert_fresh now e s = Inr (r, s')"
proof -
  let ?row = "new_event_row now e (seq_of (ne_tenant e) (ne_agent e) s + 1) (next_uuid s)"
  have "\<not> event_clash ?row x" if "x \<in> set (events s)" for x
    using that assms log_inv_bound [OF assms(1) that]
    by (auto simp: event_clash_def new_event_row_def dedup_row_def truthy_def log_inv_def table_simps
        split: option.splits if_splits)
  then have "\<not> has_row (event_clash ?row) (events s)" by (auto simp: has_row_iff)
  then show ?thesis
    by (simp add: insert_fresh_def nextCounter_def randomUUID_def Let_def insert_row_def)
qed

lemma insertEvent_total:
  assumes "log_inv s" and "ne_dedup e \<noteq> Some []" and "\<And>t. owner_row e s = Some t \<Longrightarrow> tk_agent t = ne_agent e"
  shows "\<exists>r s'. insertEvent now e s = Inr (r, s')"
proof (cases "dedup_row e s")
  case None
  with assms show ?thesis
    using insert_fresh_succeeds [of s e now] by (auto simp: insertEvent_def insert_deduped_def split: option.split)
next
  case (Some dup)
  with assms(3) show ?thesis by (auto simp: insertEvent_def insert_deduped_def split: option.split)
qed

section \<open>Snapshots and rebuilding\<close>

lemma fold_delete_where:
  "fold (\<lambda>d. delete_where (P d)) ds xs = filter (\<lambda>x. \<forall>d\<in>set ds. \<not> P d x) xs"
  by (induction ds arbitrary: xs) (auto simp: delete_where_def intro!: filter_cong)

text \<open>The primary key of \<open>snapshots\<close>.\<close>

definition snapshot_key :: "snapshot_row \<Rightarrow> string \<times> string \<times> int" where
  "snapshot_key r = (sn_tenant r, sn_task r, sn_through r)"

lemma distinct_through:
  assumes "distinct (map snapshot_key (snapshots s))"
  shows "distinct (map sn_through (task_snapshots tenant task s))"
proof -
  let ?f = "filter (\<lambda>r. sn_tenant r = tenant \<and> sn_task r = task) (snapshots s)"
  have "inj_on sn_through (set ?f)"
    using assms by (auto simp: distinct_map snapshot_key_def inj_on_def)
  moreover have "distinct ?f" using assms by (simp add: distinct_map)
  ultimately show ?thesis by (simp add: task_snapshots_def order_by_def distinct_map)
qed

lemma filter_out_middle:
  assumes "distinct (map f (a @ b @ c))"
  shows "filter (\<lambda>x. \<forall>y\<in>set b. f x \<noteq> f y) (a @ b @ c) = a @ c"
proof -
  have "filter (\<lambda>x. \<forall>y\<in>set b. f x \<noteq> f y) a = a" "filter (\<lambda>x. \<forall>y\<in>set b. f x \<noteq> f y) c = c"
    using assms by (auto simp: filter_id_conv)
  moreover have "filter (\<lambda>x. \<forall>y\<in>set b. f x \<noteq> f y) b = []" by (auto simp: filter_empty_conv)
  ultimately show ?thesis by simp
qed

lemma take_middle_drop:
  assumes "keep + 1 < length rows"
  shows "rows = take 1 rows @ take (length rows - keep - 1) (drop 1 rows) @ drop (length rows - keep) rows"
proof -
  have "drop (length rows - keep - 1) (drop 1 rows) = drop (length rows - keep) rows"
    using assms by (simp add: Suc_diff_Suc)
  then have "drop 1 rows = take (length rows - keep - 1) (drop 1 rows) @ drop (length rows - keep) rows"
    by (metis append_take_drop_id)
  then show ?thesis by (metis append_take_drop_id)
qed

lemma filter_keeps_ends:
  assumes "keep + 1 < length rows" and "distinct (map f rows)"
  shows "filter (\<lambda>x. \<forall>y\<in>set (take (length rows - keep - 1) (drop 1 rows)). f x \<noteq> f y) rows
    = take 1 rows @ drop (length rows - keep) rows"
proof -
  let ?a = "take 1 rows" and ?b = "take (length rows - keep - 1) (drop 1 rows)" and ?c = "drop (length rows - keep) rows"
  have r: "rows = ?a @ ?b @ ?c" using assms(1) by (rule take_middle_drop)
  with assms(2) have d: "distinct (map f (?a @ ?b @ ?c))" by metis
  have "filter (\<lambda>x. \<forall>y\<in>set ?b. f x \<noteq> f y) rows = filter (\<lambda>x. \<forall>y\<in>set ?b. f x \<noteq> f y) (?a @ ?b @ ?c)"
    by (rule arg_cong [OF r])
  also have "\<dots> = ?a @ ?c" using d by (rule filter_out_middle)
  finally show ?thesis .
qed

text \<open>What is left of the task's snapshots, and how many went.\<close>

lemma pruned_rows:
  assumes "distinct (map snapshot_key (snapshots s))" and "pruneSnapshots tenant task keep s = (n, s')"
    and "keep + 1 < length (task_snapshots tenant task s)"
  shows "task_snapshots tenant task s' = take 1 (task_snapshots tenant task s)
      @ drop (length (task_snapshots tenant task s) - keep) (task_snapshots tenant task s)"
    and "n = length (task_snapshots tenant task s) - keep - 1"
proof -
  let ?rows = "task_snapshots tenant task s"
  let ?doomed = "take (length ?rows - keep - 1) (drop 1 ?rows)"
  from assms(2,3) have n: "n = length ?doomed"
    and s': "snapshots s' = filter (\<lambda>x. \<forall>d\<in>set ?doomed. \<not> is_snapshot tenant task (sn_through d) x) (snapshots s)"
    by (auto simp: pruneSnapshots_def Let_def fold_delete_where)
  have "task_snapshots tenant task s' = filter (\<lambda>x. \<forall>d\<in>set ?doomed. sn_through x \<noteq> sn_through d) ?rows"
    unfolding task_snapshots_def s' filter_order_by filter_filter
    by (intro arg_cong [where f = "order_by sn_through"] filter_cong) (auto simp: is_snapshot_def task_snapshots_def)
  also have "\<dots> = take 1 ?rows @ drop (length ?rows - keep) ?rows"
    using assms(3) distinct_through [OF assms(1)] by (intro filter_keeps_ends) auto
  finally show "task_snapshots tenant task s' = take 1 ?rows @ drop (length ?rows - keep) ?rows" .
  show "n = length ?rows - keep - 1" using n by simp
qed

lemma prune_nothing:
  "pruneSnapshots tenant task keep s = (n, s') \<Longrightarrow> length (task_snapshots tenant task s) \<le> keep + 1 \<Longrightarrow> s' = s \<and> n = 0"
  by (simp add: pruneSnapshots_def Let_def)

text \<open>
  \<open>pruneSnapshots\<close> keeps exactly the oldest snapshot of the task and its newest \<open>keep\<close>, drops the rest, and
  answers how many it dropped; with at most \<open>keep + 1\<close> of them it changes nothing.
\<close>

theorem pruneSnapshots_keeps_ends:
  assumes "distinct (map snapshot_key (snapshots s))" and "pruneSnapshots tenant task keep s = (n, s')"
  shows "task_snapshots tenant task s' =
      (if length (task_snapshots tenant task s) \<le> keep + 1 then task_snapshots tenant task s
       else take 1 (task_snapshots tenant task s)
         @ drop (length (task_snapshots tenant task s) - keep) (task_snapshots tenant task s))
    \<and> n + length (task_snapshots tenant task s') = length (task_snapshots tenant task s)"
proof (cases "length (task_snapshots tenant task s) \<le> keep + 1")
  case True
  with prune_nothing [OF assms(2)] show ?thesis by simp
next
  case False
  then have "keep + 1 < length (task_snapshots tenant task s)" by simp
  with pruned_rows [OF assms] show ?thesis by auto
qed

definition snap_example :: store where
  "snap_example = init_store\<lparr>snapshots :=
     [\<lparr>sn_tenant = ''t'', sn_task = ''k'', sn_through = 0, sn_state = JNum 0, sn_version = 1, sn_created = 0\<rparr>,
      \<lparr>sn_tenant = ''t'', sn_task = ''k'', sn_through = 20, sn_state = JNum 2, sn_version = 1, sn_created = 2\<rparr>,
      \<lparr>sn_tenant = ''t'', sn_task = ''k'', sn_through = 10, sn_state = JNum 1, sn_version = 1, sn_created = 1\<rparr>]\<rparr>"

theorem pruneSnapshots_keeps_ends_witness:
  "distinct (map snapshot_key (snapshots snap_example))
   \<and> map sn_through (task_snapshots ''t'' ''k'' (snd (pruneSnapshots ''t'' ''k'' 1 snap_example))) = [0, 20]"
proof -
  have d: "distinct (map snapshot_key (snapshots snap_example))"
    by (simp add: snap_example_def snapshot_key_def)
  obtain n s' where p: "pruneSnapshots ''t'' ''k'' 1 snap_example = (n, s')" by fastforce
  have rows: "map sn_through (task_snapshots ''t'' ''k'' snap_example) = [0, 10, 20]"
    by (simp add: task_snapshots_def snap_example_def order_by_def)
  then have "length (map sn_through (task_snapshots ''t'' ''k'' snap_example)) = 3" by (simp only: rows) simp
  then have len: "length (task_snapshots ''t'' ''k'' snap_example) = 3" by (simp only: length_map)
  from pruneSnapshots_keeps_ends [OF d p] len
  have "map sn_through (task_snapshots ''t'' ''k'' s')
      = take 1 (map sn_through (task_snapshots ''t'' ''k'' snap_example))
        @ drop 2 (map sn_through (task_snapshots ''t'' ''k'' snap_example))"
    by (simp add: take_map drop_map)
  with d p rows show ?thesis by simp
qed

text \<open>
  What a snapshot is for: \<open>state = fold(advance, snapshot, events after it)\<close>. \<open>advance\<close> is the harness's step, a
  parameter; a snapshot is faithful when its state is the fold of the log up to its sequence.
\<close>

definition replay :: "(json \<Rightarrow> event_row \<Rightarrow> json) \<Rightarrow> event_row list \<Rightarrow> json \<Rightarrow> json" where
  "replay adv es st = foldl adv st es"

definition rebuild :: "(json \<Rightarrow> event_row \<Rightarrow> json) \<Rightarrow> string \<Rightarrow> string \<Rightarrow> int \<Rightarrow> store \<Rightarrow> json option" where
  "rebuild adv tenant task through s =
     (case getSnapshot tenant task (Some through) s of
        None \<Rightarrow> None
      | Some (q, st, v) \<Rightarrow> Some (replay adv (taskEvents tenant task (Some q) (Some through) s) st))"

definition snapshots_faithful :: "(json \<Rightarrow> event_row \<Rightarrow> json) \<Rightarrow> json \<Rightarrow> string \<Rightarrow> string \<Rightarrow> store \<Rightarrow> bool" where
  "snapshots_faithful adv start tenant task s \<longleftrightarrow>
     (\<forall>r\<in>set (task_snapshots tenant task s). 0 \<le> sn_through r
        \<and> sn_state r = replay adv (taskEvents tenant task (Some 0) (Some (sn_through r)) s) start)"

lemma taskEvents_split:
  assumes "a \<le> b" and "b \<le> c"
  shows "taskEvents tenant task (Some a) (Some c) s
    = taskEvents tenant task (Some a) (Some b) s @ taskEvents tenant task (Some b) (Some c) s"
proof -
  let ?all = "filter (\<lambda>e. of_task tenant task e \<and> a < ev_seq e \<and> ev_seq e \<le> c) (events s)"
  have "filter (\<lambda>e. ev_seq e \<le> b) ?all = filter (\<lambda>e. of_task tenant task e \<and> a < ev_seq e \<and> ev_seq e \<le> b) (events s)"
    and "filter (\<lambda>e. b < ev_seq e) ?all = filter (\<lambda>e. of_task tenant task e \<and> b < ev_seq e \<and> ev_seq e \<le> c) (events s)"
    using assms by (auto intro!: filter_cong)
  then show ?thesis using order_by_split_at [of ev_seq ?all b] by (simp add: taskEvents_def)
qed

lemma getSnapshot_SomeD:
  assumes "getSnapshot tenant task (Some through) s = Some (q, st, v)"
  obtains r where "r \<in> set (task_snapshots tenant task s)" and "q = sn_through r" and "st = sn_state r" and "q \<le> through"
proof -
  let ?rows = "filter (\<lambda>r. sn_through r \<le> through) (task_snapshots tenant task s)"
  from assms have "?rows \<noteq> []" and e: "q = sn_through (last ?rows)" "st = sn_state (last ?rows)"
    by (auto simp: getSnapshot_def Let_def split: if_splits)
  from this(1) have "last ?rows \<in> set ?rows" by (rule last_in_set)
  with e that show ?thesis by auto
qed

lemma getSnapshot_None_iff:
  "getSnapshot tenant task (Some through) s = None \<longleftrightarrow> (\<forall>r\<in>set (task_snapshots tenant task s). through < sn_through r)"
  by (auto simp: getSnapshot_def Let_def filter_empty_conv not_le)

lemma rebuild_None_iff:
  "rebuild adv tenant task through s = None \<longleftrightarrow> (\<forall>r\<in>set (task_snapshots tenant task s). through < sn_through r)"
  using getSnapshot_None_iff [of tenant task through s] by (auto simp: rebuild_def split: option.splits)

lemma rebuild_is_full_replay:
  assumes "snapshots_faithful adv start tenant task s" and "rebuild adv tenant task through s = Some x"
  shows "x = replay adv (taskEvents tenant task (Some 0) (Some through) s) start"
proof -
  from assms(2) obtain q st v where g: "getSnapshot tenant task (Some through) s = Some (q, st, v)"
    and x: "x = replay adv (taskEvents tenant task (Some q) (Some through) s) st"
    by (auto simp: rebuild_def split: option.splits prod.splits)
  from getSnapshot_SomeD [OF g] assms(1)
  have "0 \<le> q" "q \<le> through" and st: "st = replay adv (taskEvents tenant task (Some 0) (Some q) s) start"
    by (auto simp: snapshots_faithful_def)
  then show ?thesis using x taskEvents_split [of 0 q through tenant task s] by (simp add: replay_def)
qed

text \<open>
  Pruning is safe. Whatever \<open>advance\<close> is, once the snapshots are what replaying the log gives, rebuilding a task
  to any sequence answers the same before and after \<open>pruneSnapshots\<close>, and the answer is the replay of the whole log
  up to that sequence from the task's first state.
\<close>

theorem rebuild_survives_pruning:
  assumes "distinct (map snapshot_key (snapshots s))" and "snapshots_faithful adv start tenant task s"
    and "pruneSnapshots tenant task keep s = (n, s')"
  shows "rebuild adv tenant task through s' = rebuild adv tenant task through s
    \<and> rebuild adv tenant task through s \<in> {None, Some (replay adv (taskEvents tenant task (Some 0) (Some through) s) start)}"
proof -
  let ?rows = "task_snapshots tenant task s" and ?rows' = "task_snapshots tenant task s'"
  have ev: "taskEvents tenant task a b s' = taskEvents tenant task a b s" for a b
    using assms(3) by (auto simp: pruneSnapshots_def Let_def taskEvents_def split: if_splits)
  have kept: "?rows' = ?rows \<or> ?rows' = take 1 ?rows @ drop (length ?rows - keep) ?rows"
    using pruned_rows(1) [OF assms(1,3)] prune_nothing [OF assms(3)]
    by (cases "length ?rows \<le> keep + 1") auto
  then have sub: "set ?rows' \<subseteq> set ?rows" by (auto dest: in_set_takeD in_set_dropD)
  then have f': "snapshots_faithful adv start tenant task s'"
    using assms(2) by (auto simp: snapshots_faithful_def ev)
  have full: "rebuild adv tenant task through u = Some x \<Longrightarrow>
      x = replay adv (taskEvents tenant task (Some 0) (Some through) s) start" if "u = s \<or> u = s'" for u x
    using that rebuild_is_full_replay [OF assms(2)] rebuild_is_full_replay [OF f'] by (auto simp: ev)
  have oldest: "\<exists>r'\<in>set ?rows'. sn_through r' \<le> sn_through r" if "r \<in> set ?rows" for r
  proof (cases "?rows' = ?rows")
    case True
    with that show ?thesis by auto
  next
    case False
    with kept have k: "?rows' = take 1 ?rows @ drop (length ?rows - keep) ?rows" by blast
    from that obtain r0 rs where rs: "?rows = r0 # rs" by (cases ?rows) auto
    have "sorted (map sn_through ?rows)" by (simp add: task_snapshots_def)
    with rs that have "sn_through r0 \<le> sn_through r" by auto
    moreover from k rs have "r0 \<in> set ?rows'" by simp
    ultimately show ?thesis by blast
  qed
  have none: "rebuild adv tenant task through s' = None \<longleftrightarrow> rebuild adv tenant task through s = None"
    unfolding rebuild_None_iff using oldest sub by (meson less_le_trans subsetD)
  show ?thesis
  proof (cases "rebuild adv tenant task through s")
    case None
    with none show ?thesis by simp
  next
    case (Some y)
    with none obtain y' where "rebuild adv tenant task through s' = Some y'" by fastforce
    with Some full [of s y] full [of s' y'] show ?thesis by simp
  qed
qed

definition count_step :: "json \<Rightarrow> event_row \<Rightarrow> json" where
  "count_step st e = (case st of JNum i \<Rightarrow> JNum (i + 1) | _ \<Rightarrow> JNum 0)"

definition rebuild_example :: store where
  "rebuild_example = init_store\<lparr>
     events := [\<lparr>ev_id = 0, ev_tenant = ''t'', ev_agent = ''a'', ev_task = Some ''k'', ev_thread = None, ev_seq = 1,
        ev_kind = ''message'', ev_payload = JNull, ev_dedup = None, ev_created = 0\<rparr>],
     snapshots := [\<lparr>sn_tenant = ''t'', sn_task = ''k'', sn_through = 0, sn_state = JNum 0, sn_version = 1, sn_created = 0\<rparr>,
        \<lparr>sn_tenant = ''t'', sn_task = ''k'', sn_through = 1, sn_state = JNum 1, sn_version = 1, sn_created = 1\<rparr>]\<rparr>"

lemmas rebuild_example_simps = rebuild_example_def init_store_def task_snapshots_def order_by_def taskEvents_def
  of_task_def replay_def count_step_def snapshot_key_def max_safe_integer_def

theorem rebuild_survives_pruning_witness:
  "snapshots_faithful count_step (JNum 0) ''t'' ''k'' rebuild_example
   \<and> rebuild count_step ''t'' ''k'' 1 (snd (pruneSnapshots ''t'' ''k'' 0 rebuild_example)) = Some (JNum 1)"
proof -
  have f: "snapshots_faithful count_step (JNum 0) ''t'' ''k'' rebuild_example"
    by (simp add: snapshots_faithful_def rebuild_example_simps)
  have d: "distinct (map snapshot_key (snapshots rebuild_example))" by (simp add: rebuild_example_simps)
  obtain n s' where p: "pruneSnapshots ''t'' ''k'' 0 rebuild_example = (n, s')" by fastforce
  have "rebuild count_step ''t'' ''k'' 1 rebuild_example = Some (JNum 1)"
    by (simp add: rebuild_def getSnapshot_def rebuild_example_simps)
  with rebuild_survives_pruning [OF d f p, of 1] f p show ?thesis by simp
qed

section \<open>Appending\<close>

text \<open>
  De-duplication. Once an event with a (non-empty) key is in the log, appending again under the same
  tenant and key, at any later time and with any other contents, answers the first event's sequence and id and
  writes nothing.
\<close>

theorem append_same_key_is_idempotent:
  assumes "appendEvent now e s = Inr (r, s1)" and "truthy (ne_dedup e)"
    and "events s2 = events s1 @ later"
    and "ne_tenant e' = ne_tenant e" and "ne_dedup e' = ne_dedup e"
    and "appendEvent now' e' s2 = Inr (r', s3)"
  shows "\<not> inserted r' \<and> sequence r' = sequence r \<and> event_id r' = event_id r \<and> s3 = s2"
proof -
  let ?same = "\<lambda>x. ev_tenant x = ne_tenant e \<and> ev_dedup x = ne_dedup e"
  from assms(1) have "\<exists>x. get_row ?same (events s1) = Some x \<and> ev_seq x = sequence r \<and> ev_id x = event_id r"
    unfolding appendEvent_def
  proof (cases rule: insertEvent_cases)
    case (duplicate dup)
    with assms(2) show ?thesis by (auto simp: dedup_row_def)
  next
    case fresh
    with assms(2) show ?thesis
      by (auto elim!: insert_freshE simp: dedup_row_def get_row_append new_event_row_def)
  qed
  then obtain x where "dedup_row e' s2 = Some x" and x: "ev_seq x = sequence r" "ev_id x = event_id r"
    using assms(2-5) by (auto simp: dedup_row_def get_row_append)
  with assms(6) show ?thesis
    unfolding appendEvent_def by (auto elim!: insertEvent_cases)
qed

definition ev_example :: new_event where
  "ev_example = \<lparr>ne_tenant = ''t'', ne_agent = ''a'', ne_task = Some ''k'', ne_thread = None, ne_kind = ''message'',
     ne_payload = JStr ''hi'', ne_dedup = Some ''m1''\<rparr>"

definition log_example :: store where
  "log_example = (case createTask 0 ''t'' ''a'' ''k'' JNull 0 init_store of Inr s \<Rightarrow> s | Inl _ \<Rightarrow> init_store)"

lemma log_example_inv: "log_inv log_example"
  by (simp add: log_example_def createTask_def insert_row_def init_store_def putSnapshot_def log_inv_def
      counter_value_def has_row_iff)

lemma log_example_append:
  "\<exists>r s'. appendEvent 5 ev_example log_example = Inr (r, s') \<and> inserted r \<and> sequence r = 1 \<and> log_inv s'"
proof -
  obtain r s' where a: "insertEvent 5 ev_example log_example = Inr (r, s')"
    using insertEvent_total [OF log_example_inv, of ev_example 5]
    by (auto simp: ev_example_def owner_row_def truthy_def log_example_def createTask_def insert_row_def
        init_store_def putSnapshot_def has_row_iff split: if_splits)
  then have "inserted r \<and> sequence r = 1"
    by (auto elim!: insertEvent_cases insert_freshE simp: dedup_row_def log_example_def createTask_def insert_row_def
        init_store_def putSnapshot_def has_row_iff counter_value_def seq_counter_def ev_example_def truthy_def)
  with a log_inv_insertEvent [OF log_example_inv a] show ?thesis by (auto simp: appendEvent_def)
qed

theorem append_same_key_is_idempotent_witness:
  "\<exists>r s1 r' s3. appendEvent 5 ev_example log_example = Inr (r, s1)
     \<and> appendEvent 9 (ev_example\<lparr>ne_payload := JStr ''again''\<rparr>) s1 = Inr (r', s3)
     \<and> \<not> inserted r' \<and> sequence r' = sequence r \<and> s3 = s1"
proof -
  obtain r s1 where a: "appendEvent 5 ev_example log_example = Inr (r, s1)" and inv: "log_inv s1"
    using log_example_append by blast
  let ?e = "ev_example\<lparr>ne_payload := JStr ''again''\<rparr>"
  have "tasks s1 = tasks log_example" using a insertEvent_frame(1) by (simp add: appendEvent_def)
  then obtain r' s3 where b: "appendEvent 9 ?e s1 = Inr (r', s3)"
    using insertEvent_total [OF inv, of ?e 9]
    by (auto simp: appendEvent_def ev_example_def owner_row_def truthy_def log_example_def createTask_def insert_row_def
        init_store_def putSnapshot_def has_row_iff split: if_splits)
  have "truthy (ne_dedup ev_example)" by (simp add: ev_example_def truthy_def)
  from append_same_key_is_idempotent [OF a this, of s1 "[]" ?e 9 r' s3] a b show ?thesis
    by (auto simp: ev_example_def)
qed

text \<open>
  What an append refuses. In a log that keeps the invariant, an append fails exactly when the task it names belongs
  to another agent, and then with that error; no unique index or primary key of \<open>events\<close> can ever be what refuses it
  (an empty de-duplication key, which the code neither looks up nor stores as \<open>NULL\<close>, is set aside).
\<close>

theorem append_fails_only_on_foreign_task:
  assumes "log_inv s" and "ne_dedup e \<noteq> Some []"
  shows "appendEvent now e s = Inl err \<longleftrightarrow>
    (\<exists>t. owner_row e s = Some t \<and> tk_agent t \<noteq> ne_agent e \<and> err = NotOwner (ne_agent e) (tk_id t) (tk_agent t))"
proof (cases "\<exists>t. owner_row e s = Some t \<and> tk_agent t \<noteq> ne_agent e")
  case True
  then show ?thesis by (auto simp: appendEvent_def insertEvent_def)
next
  case False
  then obtain r s' where "insertEvent now e s = Inr (r, s')"
    using insertEvent_total [OF assms] by blast
  with False show ?thesis by (auto simp: appendEvent_def)
qed

theorem append_fails_only_on_foreign_task_witness:
  "log_inv log_example \<and> ne_dedup (ev_example\<lparr>ne_agent := ''b''\<rparr>) \<noteq> Some []
   \<and> appendEvent 5 (ev_example\<lparr>ne_agent := ''b''\<rparr>) log_example = Inl (NotOwner ''b'' ''k'' ''a'')"
proof -
  have o: "\<exists>t. owner_row (ev_example\<lparr>ne_agent := ''b''\<rparr>) log_example = Some t \<and> tk_agent t \<noteq> ''b''
      \<and> NotOwner ''b'' ''k'' ''a'' = NotOwner ''b'' (tk_id t) (tk_agent t)"
    by (simp add: owner_row_def ev_example_def truthy_def log_example_def createTask_def insert_row_def
        init_store_def putSnapshot_def has_row_iff)
  have n: "ne_dedup (ev_example\<lparr>ne_agent := ''b''\<rparr>) \<noteq> Some []" by (simp add: ev_example_def)
  from append_fails_only_on_foreign_task [OF log_example_inv n, of 5 "NotOwner ''b'' ''k'' ''a''"] o n log_example_inv
  show ?thesis by simp
qed

text \<open>
  No silent stall. An event that an append for a task inserts is pending for every consumer of the task whose
  cursor has not passed the agent's counter (the cursors the harness writes are sequences it has read, so they never
  do), and what is pending is read in rising order of sequence.
\<close>

theorem appended_event_is_pending:
  assumes "appendEvent now e s = Inr (r, s')" and "inserted r" and "ne_task e = Some task"
    and "cursor (ne_tenant e) task consumer s \<le> seq_of (ne_tenant e) (ne_agent e) s"
  shows "new_event_row now e (sequence r) (event_id r) \<in> set (pendingEvents (ne_tenant e) task consumer s')
    \<and> sorted (map ev_seq (pendingEvents (ne_tenant e) task consumer s'))"
proof -
  have "sequence r = seq_of (ne_tenant e) (ne_agent e) s + 1"
    using assms(1,2) unfolding appendEvent_def by (auto elim!: insertEvent_cases insert_freshE)
  moreover have "cursor t k c s' = cursor t k c s" for t k c
    using insertEvent_frame(2) assms(1) by (simp add: cursor_def appendEvent_def)
  moreover have "events s' = events s @ [new_event_row now e (sequence r) (event_id r)]"
    using insertEvent_appends assms(1,2) by (simp add: appendEvent_def)
  ultimately show ?thesis
    using assms(3,4) by (simp add: pendingEvents_def Let_def of_task_def new_event_row_def)
qed

theorem appended_event_is_pending_witness:
  "\<exists>r s'. appendEvent 5 ev_example log_example = Inr (r, s')
     \<and> new_event_row 5 ev_example 1 (event_id r) \<in> set (pendingEvents ''t'' ''k'' ''harness'' s')"
proof -
  obtain r s' where a: "appendEvent 5 ev_example log_example = Inr (r, s')" and i: "inserted r" "sequence r = 1"
    using log_example_append by blast
  have k: "ne_task ev_example = Some ''k''" by (simp add: ev_example_def)
  have c: "cursor (ne_tenant ev_example) ''k'' ''harness'' log_example
      \<le> seq_of (ne_tenant ev_example) (ne_agent ev_example) log_example"
    by (simp add: cursor_def log_example_def createTask_def insert_row_def init_store_def putSnapshot_def
        has_row_iff counter_value_def seq_counter_def)
  from appended_event_is_pending [OF a i(1) k c] a i(2) show ?thesis by (auto simp: ev_example_def)
qed

end
