(* ===== verification/Advance.thy ===== *)
theory Advance
  imports Event_Log
begin

text \<open>
  Who may move a task, and how a move is committed: leases and their fencing tokens, the atomic
  \<open>commitAdvance\<close>, the park that refuses while work is left (\<open>releaseIfNoWork\<close>), interrupts, the reopening
  of a finished task, and the scheduler's question which tasks have unconsumed events. The lemmas show
  that a commit either applies all of its writes or none, that checkpoints are compare-and-swap, that a
  token once outrun by a commit never commits again, that an interrupt makes every commit of the old
  generation fail, that parking never strands an event, and that the two stores reopen the same tasks.
\<close>

section \<open>Leases\<close>

definition acquireLease :: "int \<Rightarrow> string \<Rightarrow> string \<Rightarrow> string \<Rightarrow> int \<Rightarrow> store \<Rightarrow> lease option \<times> store" where
  "acquireLease now tenant task holder ttl s =
     (let cur = get_row (\<lambda>l. le_task l = task) (leases s) in
      if (case cur of None \<Rightarrow> False | Some l \<Rightarrow> now < le_expires l \<and> le_holder l \<noteq> holder) then (None, s)
      else case nextCounter ''fencing'' s of (token, s1) \<Rightarrow>
        let new = \<lparr>le_tenant = tenant, le_task = task, le_holder = holder, le_fencing = token, le_expires = now + ttl\<rparr> in
        (Some new,
         s1\<lparr>leases := upsert (\<lambda>l. le_task l = task) new
            (\<lambda>l. l\<lparr>le_holder := holder, le_fencing := token, le_expires := now + ttl\<rparr>) (leases s1)\<rparr>))"

section \<open>The commit\<close>

definition commit_problem :: "advance_txn \<Rightarrow> task_row \<Rightarrow> commit_reason option" where
  "commit_problem txn t =
     (if tx_fencing txn < tk_fencing t then Some Fenced
      else if tx_generation txn \<noteq> tk_generation t then Some StaleGeneration
      else if tx_expected txn \<noteq> tk_version t then Some VersionConflict
      else None)"

definition commit_task :: "int \<Rightarrow> advance_txn \<Rightarrow> int \<Rightarrow> store \<Rightarrow> store" where
  "commit_task now txn version s =
     s\<lparr>tasks := update_where (is_task (tx_tenant txn) (tx_task txn))
        (\<lambda>r. r\<lparr>tk_status := tx_status txn, tk_checkpoint := tx_checkpoint txn, tk_version := version,
           tk_fencing := tx_fencing txn, tk_state_version := tx_state_version txn, tk_updated := now\<rparr>) (tasks s)\<rparr>"

definition advance_cursor :: "string \<Rightarrow> string \<Rightarrow> int option \<Rightarrow> store \<Rightarrow> store" where
  "advance_cursor tenant task consumed s =
     (case consumed of
        None \<Rightarrow> s
      | Some n \<Rightarrow> s\<lparr>cursors := upsert (is_cursor tenant task ''harness'')
          \<lparr>cu_tenant = tenant, cu_task = task, cu_consumer = ''harness'', cu_through = n\<rparr>
          (\<lambda>r. r\<lparr>cu_through := max (cu_through r) n\<rparr>) (cursors s)\<rparr>)"

definition drop_resolved :: "string \<Rightarrow> string \<Rightarrow> store \<Rightarrow> store" where
  "drop_resolved tenant task s =
     s\<lparr>waits := delete_where (\<lambda>w. wa_tenant w = tenant \<and> wa_task w = task \<and> wa_resolved w) (waits s)\<rparr>"

definition add_wait :: "string \<Rightarrow> string \<Rightarrow> int \<Rightarrow> wait_spec \<Rightarrow> store \<Rightarrow> store" where
  "add_wait tenant task gen w s =
     (case randomUUID s of (wid, s1) \<Rightarrow>
       s1\<lparr>waits := waits s1 @ [\<lparr>wa_id = wid, wa_tenant = tenant, wa_task = task, wa_generation = gen, wa_kind = ws_kind w,
          wa_operation = ws_operation w, wa_deadline = ws_deadline w, wa_resolved = False\<rparr>]\<rparr>)"

definition add_command :: "int \<Rightarrow> advance_txn \<Rightarrow> outbox_command \<Rightarrow> store \<Rightarrow> store" where
  "add_command now txn c s =
     s\<lparr>outbox := insert_ignore (\<lambda>r. ob_id r = oc_id c)
        \<lparr>ob_id = oc_id c, ob_tenant = tx_tenant txn, ob_task = tx_task txn, ob_generation = tx_generation txn,
         ob_kind = oc_kind c, ob_payload = oc_payload c, ob_state = CPending, ob_created = now, ob_dispatched = None\<rparr>
        (outbox s)\<rparr>"

definition commit_writes :: "int \<Rightarrow> advance_txn \<Rightarrow> int \<Rightarrow> store \<Rightarrow> store" where
  "commit_writes now txn version s =
     fold (add_command now txn) (tx_commands txn)
       (fold (add_wait (tx_tenant txn) (tx_task txn) (tx_generation txn)) (tx_waits txn)
         (drop_resolved (tx_tenant txn) (tx_task txn)
           (advance_cursor (tx_tenant txn) (tx_task txn) (tx_consumed txn)
             (commit_task now txn version s))))"

definition commitAdvance :: "int \<Rightarrow> advance_txn \<Rightarrow> store \<Rightarrow> commit_result \<times> store" where
  "commitAdvance now txn s =
     (case get_task (tx_tenant txn) (tx_task txn) s of
        None \<Rightarrow> (Refused NoTask, s)
      | Some t \<Rightarrow>
          (case commit_problem txn t of
             Some reason \<Rightarrow> (Refused reason, s)
           | None \<Rightarrow> let next = tk_version t + 1 in (Committed next, commit_writes now txn next s)))"

section \<open>Parking\<close>

datatype release_result = Released | HasWork | ReleaseFenced

definition releaseIfNoWork :: "string \<Rightarrow> string \<Rightarrow> int \<Rightarrow> string \<Rightarrow> store \<Rightarrow> release_result \<times> store" where
  "releaseIfNoWork tenant task fencing consumer s =
     (if (case get_row (\<lambda>l. le_task l = task) (leases s) of None \<Rightarrow> False | Some l \<Rightarrow> fencing < le_fencing l)
      then (ReleaseFenced, s)
      else let from = cursor tenant task consumer s in
        if 0 < length (filter (\<lambda>e. of_task tenant task e \<and> from < ev_seq e) (events s)) then (HasWork, s)
        else if 0 < length (filter (\<lambda>w. wa_tenant w = tenant \<and> wa_task w = task \<and> wa_resolved w) (waits s))
        then (HasWork, s)
        else (Released, s\<lparr>leases := delete_where (\<lambda>l. le_task l = task \<and> le_fencing l = fencing) (leases s)\<rparr>))"

section \<open>Interrupts\<close>

definition interrupt_row :: "int \<Rightarrow> task_row \<Rightarrow> task_row" where
  "interrupt_row now r = r\<lparr>tk_generation := tk_generation r + 1, tk_status := TInterrupted, tk_updated := now\<rparr>"

text \<open>An unknown task: the generation of no row is read, and the call throws.\<close>

definition interrupt :: "int \<Rightarrow> string \<Rightarrow> string \<Rightarrow> store \<Rightarrow> store_error + (int \<times> store)" where
  "interrupt now tenant task s =
     (let s1 = s\<lparr>tasks := update_where (is_task tenant task) (interrupt_row now) (tasks s)\<rparr> in
      case get_task tenant task s1 of None \<Rightarrow> Inl TypeError | Some r \<Rightarrow> Inr (tk_generation r, s1))"

definition interruptAgent :: "int \<Rightarrow> string \<Rightarrow> string \<Rightarrow> store \<Rightarrow> string list \<times> store" where
  "interruptAgent now tenant agent s =
     (let ids = map tk_id (filter (\<lambda>r. tk_tenant r = tenant \<and> tk_agent r = agent
                  \<and> tk_status r \<notin> {TCompleted, TFailed}) (tasks s)) in
      (ids, s\<lparr>tasks := fold (\<lambda>task. update_where (is_task tenant task) (interrupt_row now)) ids (tasks s)\<rparr>))"

section \<open>Reopening\<close>

definition open_command :: "string \<Rightarrow> string \<Rightarrow> outbox_row \<Rightarrow> bool" where
  "open_command tenant task c \<longleftrightarrow> ob_tenant c = tenant \<and> ob_task c = task
     \<and> ob_state c \<in> {CPending, CClaimed, CDispatched}"

definition open_approval :: "string \<Rightarrow> string \<Rightarrow> approval_row \<Rightarrow> bool" where
  "open_approval tenant task a \<longleftrightarrow> ap_tenant (ar_record a) = tenant \<and> ap_task (ar_record a) = task
     \<and> ap_state (ar_record a) = APending"

definition set_runnable :: "int \<Rightarrow> string \<Rightarrow> string \<Rightarrow> store \<Rightarrow> store" where
  "set_runnable now tenant task s =
     s\<lparr>tasks := update_where (is_task tenant task) (\<lambda>r. r\<lparr>tk_status := TRunnable, tk_updated := now\<rparr>) (tasks s)\<rparr>"

text \<open>The sqlite store: early returns, the two queries in line.\<close>

definition reopenTask :: "int \<Rightarrow> string \<Rightarrow> string \<Rightarrow> store \<Rightarrow> bool \<times> store" where
  "reopenTask now tenant task s =
     (case get_task tenant task s of
        None \<Rightarrow> (False, s)
      | Some r \<Rightarrow>
          if tk_status r = TCompleted \<or> tk_status r = TBlocked then (True, set_runnable now tenant task s)
          else if tk_status r \<noteq> TWaiting then (False, s)
          else if has_row (open_command tenant task) (outbox s) then (False, s)
          else if has_row (open_approval tenant task) (approvals s) then (False, s)
          else (True, set_runnable now tenant task s))"

text \<open>The Durable Object store: the question is a method of its own.\<close>

definition outstanding :: "string \<Rightarrow> string \<Rightarrow> store \<Rightarrow> bool" where
  "outstanding tenant task s =
     (if has_row (open_command tenant task) (outbox s) then True
      else has_row (open_approval tenant task) (approvals s))"

definition do_reopenTask :: "int \<Rightarrow> string \<Rightarrow> string \<Rightarrow> store \<Rightarrow> bool \<times> store" where
  "do_reopenTask now tenant task s =
     (case get_task tenant task s of
        None \<Rightarrow> (False, s)
      | Some r \<Rightarrow>
          if tk_status r \<in> {TCompleted, TBlocked} then (True, set_runnable now tenant task s)
          else if tk_status r = TWaiting \<and> \<not> outstanding tenant task s then (True, set_runnable now tenant task s)
          else (False, s))"

section \<open>The scheduler's question\<close>



text \<open>\<open>ORDER BY updated_at DESC\<close>.\<close>

definition listTasks :: "string \<Rightarrow> string \<Rightarrow> store \<Rightarrow> task_row list" where
  "listTasks tenant agent s =
     order_by (\<lambda>r. - tk_updated r) (filter (\<lambda>r. tk_tenant r = tenant \<and> tk_agent r = agent) (tasks s))"

section \<open>What the writes of a commit leave alone\<close>

lemma add_wait_frame [simp]:
  "tasks (add_wait tn tk g w s) = tasks s" "cursors (add_wait tn tk g w s) = cursors s"
  "events (add_wait tn tk g w s) = events s" "outbox (add_wait tn tk g w s) = outbox s"
  "leases (add_wait tn tk g w s) = leases s" "counters (add_wait tn tk g w s) = counters s"
  "operations (add_wait tn tk g w s) = operations s" "approvals (add_wait tn tk g w s) = approvals s"
  "trace (add_wait tn tk g w s) = trace s" "next_uuid (add_wait tn tk g w s) = Suc (next_uuid s)"
  by (simp_all add: add_wait_def randomUUID_def)

lemma add_waits_frame [simp]:
  "tasks (fold (add_wait tn tk g) ws s) = tasks s" "cursors (fold (add_wait tn tk g) ws s) = cursors s"
  "events (fold (add_wait tn tk g) ws s) = events s" "outbox (fold (add_wait tn tk g) ws s) = outbox s"
  "leases (fold (add_wait tn tk g) ws s) = leases s" "counters (fold (add_wait tn tk g) ws s) = counters s"
  "operations (fold (add_wait tn tk g) ws s) = operations s" "approvals (fold (add_wait tn tk g) ws s) = approvals s"
  "trace (fold (add_wait tn tk g) ws s) = trace s" "next_uuid s \<le> next_uuid (fold (add_wait tn tk g) ws s)"
proof (induction ws arbitrary: s)
  case (Cons w ws)
  { case 10
    show ?case using Cons.IH(10) [of "add_wait tn tk g w s"] by simp }
qed (simp_all)

lemma add_commands_frame [simp]:
  "tasks (fold (add_command now txn) cs s) = tasks s" "cursors (fold (add_command now txn) cs s) = cursors s"
  "events (fold (add_command now txn) cs s) = events s" "waits (fold (add_command now txn) cs s) = waits s"
  "leases (fold (add_command now txn) cs s) = leases s" "counters (fold (add_command now txn) cs s) = counters s"
  "operations (fold (add_command now txn) cs s) = operations s" "approvals (fold (add_command now txn) cs s) = approvals s"
  "trace (fold (add_command now txn) cs s) = trace s" "next_uuid (fold (add_command now txn) cs s) = next_uuid s"
  by (induction cs arbitrary: s) (simp_all add: add_command_def)

lemma advance_cursor_frame [simp]:
  "tasks (advance_cursor tn tk c s) = tasks s" "events (advance_cursor tn tk c s) = events s"
  "waits (advance_cursor tn tk c s) = waits s" "outbox (advance_cursor tn tk c s) = outbox s"
  "leases (advance_cursor tn tk c s) = leases s" "counters (advance_cursor tn tk c s) = counters s"
  "operations (advance_cursor tn tk c s) = operations s" "approvals (advance_cursor tn tk c s) = approvals s"
  "trace (advance_cursor tn tk c s) = trace s" "next_uuid (advance_cursor tn tk c s) = next_uuid s"
  by (simp_all add: advance_cursor_def split: option.split)

lemma commit_writes_frame [simp]:
  "events (commit_writes now txn v s) = events s" "leases (commit_writes now txn v s) = leases s"
  "counters (commit_writes now txn v s) = counters s" "operations (commit_writes now txn v s) = operations s"
  "approvals (commit_writes now txn v s) = approvals s" "trace (commit_writes now txn v s) = trace s"
  "next_uuid s \<le> next_uuid (commit_writes now txn v s)"
  by (simp_all add: commit_writes_def drop_resolved_def commit_task_def order_trans [OF _ add_waits_frame(10)])

lemma commit_writes_tasks:
  "tasks (commit_writes now txn v s) = tasks (commit_task now txn v s)"
  by (simp add: commit_writes_def drop_resolved_def)

lemma is_task_iff: "is_task tn tk r \<longleftrightarrow> tk_tenant r = tn \<and> tk_id r = tk"
  by (simp add: is_task_def)

lemma get_task_update:
  assumes "\<And>r. tk_tenant (f r) = tk_tenant r" and "\<And>r. tk_id (f r) = tk_id r"
  shows "get_row (is_task tn tk) (update_where (is_task tn' tk') f rows)
    = (if tn = tn' \<and> tk = tk' then map_option f (get_row (is_task tn tk) rows) else get_row (is_task tn tk) rows)"
proof (cases "tn = tn' \<and> tk = tk'")
  case True
  have "get_row (is_task tn tk) (update_where (is_task tn tk) f rows) = map_option f (get_row (is_task tn tk) rows)"
    using assms by (intro get_row_update_same) (simp add: is_task_def)
  with True show ?thesis by simp
next
  case False
  then have "get_row (is_task tn tk) (update_where (is_task tn' tk') f rows) = get_row (is_task tn tk) rows"
    using assms by (intro get_row_update_other) (auto simp: is_task_def)
  with False show ?thesis by auto
qed

lemma commit_task_row:
  assumes "get_task (tx_tenant txn) (tx_task txn) s = Some t"
  shows "get_task (tx_tenant txn) (tx_task txn) (commit_writes now txn v s) =
    Some (t\<lparr>tk_status := tx_status txn, tk_checkpoint := tx_checkpoint txn, tk_version := v,
       tk_fencing := tx_fencing txn, tk_state_version := tx_state_version txn, tk_updated := now\<rparr>)"
  using assms by (simp add: get_task_def commit_writes_tasks commit_task_def get_task_update)

lemma cursor_upsert:
  "cursor tn tk c (advance_cursor tn' tk' n s) =
    (case n of None \<Rightarrow> cursor tn tk c s
     | Some m \<Rightarrow> if tn = tn' \<and> tk = tk' \<and> c = ''harness''
         then (if has_row (is_cursor tn tk c) (cursors s) then max (cursor tn tk c s) m else m)
         else cursor tn tk c s)"
proof (cases n)
  case None
  then show ?thesis by (simp add: advance_cursor_def)
next
  case (Some m)
  let ?new = "\<lparr>cu_tenant = tn', cu_task = tk', cu_consumer = ''harness'', cu_through = m\<rparr>"
  show ?thesis
  proof (cases "tn = tn' \<and> tk = tk' \<and> c = ''harness''")
    case True
    have "get_row (is_cursor tn' tk' ''harness'') (upsert (is_cursor tn' tk' ''harness'') ?new
        (\<lambda>r. r\<lparr>cu_through := max (cu_through r) m\<rparr>) (cursors s))
      = Some (case get_row (is_cursor tn' tk' ''harness'') (cursors s) of None \<Rightarrow> ?new | Some r \<Rightarrow> r\<lparr>cu_through := max (cu_through r) m\<rparr>)"
      by (intro get_row_upsert_same) (simp_all add: is_cursor_def)
    with True Some show ?thesis
      by (auto simp: cursor_def advance_cursor_def has_row_get_row split: option.split)
  next
    case False
    then have "get_row (is_cursor tn tk c) (upsert (is_cursor tn' tk' ''harness'') ?new
        (\<lambda>r. r\<lparr>cu_through := max (cu_through r) m\<rparr>) (cursors s)) = get_row (is_cursor tn tk c) (cursors s)"
      by (intro get_row_upsert_other) (auto simp: is_cursor_def)
    with False Some show ?thesis by (auto simp: cursor_def advance_cursor_def)
  qed
qed

lemma commitE:
  assumes "commitAdvance now txn s = (Committed v, s')"
  obtains t where "get_task (tx_tenant txn) (tx_task txn) s = Some t" and "v = tk_version t + 1"
    and "tk_fencing t \<le> tx_fencing txn" and "tx_generation txn = tk_generation t" and "tx_expected txn = tk_version t"
    and "s' = commit_writes now txn v s"
  using assms by (auto simp: commitAdvance_def commit_problem_def Let_def split: option.splits if_splits)

lemma commit_refused: "commitAdvance now txn s = (Refused reason, s') \<Longrightarrow> s' = s"
  by (auto simp: commitAdvance_def Let_def split: option.splits)

section \<open>A commit is all or nothing\<close>

lemma add_commands_outbox:
  "\<exists>new. outbox (fold (add_command now txn) cs s) = outbox s @ new
     \<and> (\<forall>r\<in>set new. ob_id r \<in> oc_id ` set cs \<and> ob_state r = CPending \<and> ob_tenant r = tx_tenant txn
          \<and> ob_task r = tx_task txn \<and> ob_generation r = tx_generation txn)
     \<and> (\<forall>c\<in>set cs. has_row (\<lambda>r. ob_id r = oc_id c) (outbox s @ new))"
proof (induction cs arbitrary: s)
  case Nil
  then show ?case by simp
next
  case (Cons c cs)
  let ?s1 = "add_command now txn c s"
  define P where "P r \<longleftrightarrow> ob_id r = oc_id c \<and> ob_state r = CPending \<and> ob_tenant r = tx_tenant txn
      \<and> ob_task r = tx_task txn \<and> ob_generation r = tx_generation txn" for r :: outbox_row
  obtain a where a: "outbox ?s1 = outbox s @ a" "\<forall>r\<in>set a. P r" "has_row (\<lambda>r. ob_id r = oc_id c) (outbox s @ a)"
  proof (cases "has_row (\<lambda>r. ob_id r = oc_id c) (outbox s)")
    case True
    then show ?thesis using that [of "[]"] by (simp add: add_command_def insert_ignore_def)
  next
    case False
    then show ?thesis using that by (simp add: add_command_def insert_ignore_def P_def has_row_iff)
  qed
  obtain b where "outbox (fold (add_command now txn) cs ?s1) = outbox ?s1 @ b"
      "\<forall>r\<in>set b. ob_id r \<in> oc_id ` set cs \<and> ob_state r = CPending \<and> ob_tenant r = tx_tenant txn
          \<and> ob_task r = tx_task txn \<and> ob_generation r = tx_generation txn"
      "\<forall>c\<in>set cs. has_row (\<lambda>r. ob_id r = oc_id c) (outbox ?s1 @ b)"
    using Cons.IH by blast
  with a show ?case by (intro exI [of _ "a @ b"]) (auto simp: has_row_iff P_def)
qed

lemma add_commands_distinct:
  "distinct (map ob_id (outbox s)) \<Longrightarrow> distinct (map ob_id (outbox (fold (add_command now txn) cs s)))"
proof (induction cs arbitrary: s)
  case (Cons c cs)
  have "distinct (map ob_id (outbox (add_command now txn c s)))"
    using Cons.prems by (simp add: add_command_def distinct_map_insert_ignore)
  then show ?case using Cons.IH by simp
qed simp

lemma add_waits_waits:
  "\<exists>new. waits (fold (add_wait tn tk g) ws s) = waits s @ new \<and> (\<forall>w\<in>set new. \<not> wa_resolved w)
     \<and> length new = length ws"
proof (induction ws arbitrary: s)
  case (Cons w ws)
  obtain a where "waits (add_wait tn tk g w s) = waits s @ [a]" "\<not> wa_resolved a"
    by (auto simp: add_wait_def randomUUID_def)
  moreover obtain b where "waits (fold (add_wait tn tk g) ws (add_wait tn tk g w s)) = waits (add_wait tn tk g w s) @ b"
      "\<forall>w\<in>set b. \<not> wa_resolved w" "length b = length ws"
    using Cons.IH by blast
  ultimately show ?case by (intro exI [of _ "a # b"]) auto
qed simp

lemma commit_writes_waits:
  "\<exists>new. waits (commit_writes now txn v s)
      = delete_where (\<lambda>w. wa_tenant w = tx_tenant txn \<and> wa_task w = tx_task txn \<and> wa_resolved w) (waits s) @ new
    \<and> (\<forall>w\<in>set new. \<not> wa_resolved w)"
proof -
  let ?s1 = "drop_resolved (tx_tenant txn) (tx_task txn) (advance_cursor (tx_tenant txn) (tx_task txn) (tx_consumed txn)
      (commit_task now txn v s))"
  have "waits ?s1 = delete_where (\<lambda>w. wa_tenant w = tx_tenant txn \<and> wa_task w = tx_task txn \<and> wa_resolved w) (waits s)"
    by (simp add: drop_resolved_def commit_task_def)
  moreover obtain new where "waits (fold (add_wait (tx_tenant txn) (tx_task txn) (tx_generation txn)) (tx_waits txn) ?s1)
      = waits ?s1 @ new" "\<forall>w\<in>set new. \<not> wa_resolved w"
    using add_waits_waits by blast
  ultimately show ?thesis by (simp add: commit_writes_def)
qed

lemma commit_writes_cursor:
  "cursor (tx_tenant txn) (tx_task txn) ''harness'' (commit_writes now txn v s) =
     cursor (tx_tenant txn) (tx_task txn) ''harness''
       (advance_cursor (tx_tenant txn) (tx_task txn) (tx_consumed txn) (commit_task now txn v s))"
  by (simp add: commit_writes_def drop_resolved_def cursor_def)

lemma commit_task_cursors [simp]: "cursors (commit_task now txn v s) = cursors s"
  by (simp add: commit_task_def)

lemma commit_writes_outbox:
  "\<exists>new. outbox (commit_writes now txn v s) = outbox s @ new
     \<and> (\<forall>r\<in>set new. open_command (tx_tenant txn) (tx_task txn) r \<and> ob_generation r = tx_generation txn)
     \<and> (\<forall>c\<in>set (tx_commands txn). has_row (\<lambda>r. ob_id r = oc_id c) (outbox s @ new))"
proof -
  let ?s2 = "fold (add_wait (tx_tenant txn) (tx_task txn) (tx_generation txn)) (tx_waits txn)
         (drop_resolved (tx_tenant txn) (tx_task txn)
           (advance_cursor (tx_tenant txn) (tx_task txn) (tx_consumed txn) (commit_task now txn v s)))"
  have "outbox ?s2 = outbox s" by (simp add: drop_resolved_def commit_task_def)
  moreover have "commit_writes now txn v s = fold (add_command now txn) (tx_commands txn) ?s2"
    by (simp add: commit_writes_def)
  ultimately show ?thesis
    using add_commands_outbox [of now txn "tx_commands txn" ?s2] by (auto simp: open_command_def)
qed

lemma commit_writes_distinct:
  "distinct (map ob_id (outbox s)) \<Longrightarrow> distinct (map ob_id (outbox (commit_writes now txn v s)))"
  by (simp add: commit_writes_def drop_resolved_def commit_task_def add_commands_distinct)

text \<open>
  A commit that succeeds has done all of it. The task's row is the transaction's, its checkpoint
  version one higher; the cursor is at least what the transaction consumed; no resolved wait of the
  task is left; every command is in the outbox, the rows that were there unchanged and the new ones
  pending for this task and generation; and the log is untouched.
\<close>

theorem commit_applies_every_write:
  assumes "commitAdvance now txn s = (Committed v, s')"
  shows "\<exists>t new. get_task (tx_tenant txn) (tx_task txn) s = Some t
    \<and> v = tk_version t + 1
    \<and> get_task (tx_tenant txn) (tx_task txn) s' =
        Some (t\<lparr>tk_status := tx_status txn, tk_checkpoint := tx_checkpoint txn, tk_version := v,
           tk_fencing := tx_fencing txn, tk_state_version := tx_state_version txn, tk_updated := now\<rparr>)
    \<and> (\<forall>n. tx_consumed txn = Some n \<longrightarrow> n \<le> cursor (tx_tenant txn) (tx_task txn) ''harness'' s')
    \<and> \<not> has_row (\<lambda>w. wa_tenant w = tx_tenant txn \<and> wa_task w = tx_task txn \<and> wa_resolved w) (waits s')
    \<and> outbox s' = outbox s @ new
    \<and> (\<forall>c\<in>set (tx_commands txn). has_row (\<lambda>r. ob_id r = oc_id c) (outbox s'))
    \<and> (\<forall>r\<in>set new. open_command (tx_tenant txn) (tx_task txn) r \<and> ob_generation r = tx_generation txn)
    \<and> events s' = events s"
proof -
  from assms obtain t where t: "get_task (tx_tenant txn) (tx_task txn) s = Some t" "v = tk_version t + 1"
    and s': "s' = commit_writes now txn v s" by (rule commitE)
  obtain new where new: "outbox s' = outbox s @ new"
    "\<forall>r\<in>set new. open_command (tx_tenant txn) (tx_task txn) r \<and> ob_generation r = tx_generation txn"
    "\<forall>c\<in>set (tx_commands txn). has_row (\<lambda>r. ob_id r = oc_id c) (outbox s')"
    using commit_writes_outbox [of now txn v s] unfolding s' by metis
  have w: "\<not> has_row (\<lambda>w. wa_tenant w = tx_tenant txn \<and> wa_task w = tx_task txn \<and> wa_resolved w) (waits s')"
    using commit_writes_waits [of now txn v s] by (auto simp: s' has_row_iff table_simps)
  have c: "n \<le> cursor (tx_tenant txn) (tx_task txn) ''harness'' s'" if "tx_consumed txn = Some n" for n
    using that by (simp add: s' commit_writes_cursor cursor_upsert)
  have e: "events s' = events s" by (simp add: s')
  show ?thesis
    using t new w c e commit_task_row [OF t(1), of now v] s' by blast
qed

definition txn_example :: advance_txn where
  "txn_example = \<lparr>tx_tenant = ''t'', tx_task = ''k'', tx_generation = 0, tx_fencing = 1, tx_expected = 0,
     tx_checkpoint = JNum 7, tx_state_version = 1, tx_status = TWaiting, tx_consumed = Some 3, tx_waits = [],
     tx_commands = [\<lparr>oc_id = ''c1'', oc_kind = ''model.request'', oc_payload = JNull\<rparr>]\<rparr>"

lemma log_example_task:
  "get_task ''t'' ''k'' log_example = Some \<lparr>tk_tenant = ''t'', tk_id = ''k'', tk_agent = ''a'', tk_status = TRunnable,
     tk_generation = 0, tk_version = 0, tk_fencing = 0, tk_checkpoint = JNull, tk_state_version = 0, tk_updated = 0\<rparr>"
  by (simp add: log_example_def createTask_def insert_row_def init_store_def putSnapshot_def has_row_iff get_task_def
      is_task_def)

lemma commit_example: "\<exists>s'. commitAdvance 9 txn_example log_example = (Committed 1, s')"
  by (simp add: commitAdvance_def txn_example_def log_example_task commit_problem_def)

theorem commit_applies_every_write_witness:
  "\<exists>s'. commitAdvance 9 txn_example log_example = (Committed 1, s')
     \<and> 3 \<le> cursor ''t'' ''k'' ''harness'' s' \<and> has_row (\<lambda>r. ob_id r = ''c1'') (outbox s')"
proof -
  obtain s' where c: "commitAdvance 9 txn_example log_example = (Committed 1, s')" using commit_example by blast
  from commit_applies_every_write [OF c] c show ?thesis by (auto simp: txn_example_def)
qed

text \<open>
  Replaying an advance dispatches nothing twice. Command ids stay unique in the outbox, and a command that is
  already there is left as it is, claimed, dispatched or done included, when a later commit emits it again.
\<close>

theorem commit_never_reissues_a_command:
  assumes "distinct (map ob_id (outbox s))" and "commitAdvance now txn s = (res, s')"
  shows "distinct (map ob_id (outbox s')) \<and>
    (\<forall>r\<in>set (outbox s). get_row (\<lambda>x. ob_id x = ob_id r) (outbox s') = Some r)"
proof (cases res)
  case (Refused reason)
  with assms have "s' = s" using commit_refused by blast
  with assms(1) show ?thesis by (auto intro!: get_row_unique [where g = ob_id])
next
  case (Committed v)
  from commitE [OF assms(2) [unfolded Committed]] have s': "s' = commit_writes now txn v s" by blast
  have "distinct (map ob_id (outbox s'))" using assms(1) by (simp add: s' commit_writes_distinct)
  moreover obtain new where "outbox s' = outbox s @ new" using commit_writes_outbox s' by blast
  moreover have "get_row (\<lambda>x. ob_id x = ob_id r) (outbox s) = Some r" if "r \<in> set (outbox s)" for r
    using assms(1) that by (intro get_row_unique [where g = ob_id]) auto
  ultimately show ?thesis by (simp add: get_row_append)
qed

theorem commit_never_reissues_a_command_witness:
  "\<exists>s1 s2. commitAdvance 9 txn_example log_example = (Committed 1, s1)
     \<and> commitAdvance 10 (txn_example\<lparr>tx_expected := 1\<rparr>) s1 = (Committed 2, s2)
     \<and> distinct (map ob_id (outbox s2)) \<and> map ob_id (outbox s1) = [''c1'']"
proof -
  obtain s1 where a: "commitAdvance 9 txn_example log_example = (Committed 1, s1)" using commit_example by blast
  then have s1: "s1 = commit_writes 9 txn_example 1 log_example" by (rule commitE) simp
  have o: "map ob_id (outbox s1) = [''c1'']"
    by (simp add: s1 commit_writes_def txn_example_def add_command_def insert_ignore_def has_row_iff
        drop_resolved_def commit_task_def log_example_def createTask_def insert_row_def init_store_def putSnapshot_def)
  have "get_task ''t'' ''k'' s1 = Some \<lparr>tk_tenant = ''t'', tk_id = ''k'', tk_agent = ''a'', tk_status = TWaiting,
     tk_generation = 0, tk_version = 1, tk_fencing = 1, tk_checkpoint = JNum 7, tk_state_version = 1, tk_updated = 9\<rparr>"
    using commit_task_row [of txn_example log_example _ 9 1] log_example_task
    by (simp add: s1) (simp add: txn_example_def)
  then obtain s2 where b: "commitAdvance 10 (txn_example\<lparr>tx_expected := 1\<rparr>) s1 = (Committed 2, s2)"
    by (auto simp: commitAdvance_def txn_example_def commit_problem_def)
  have "distinct (map ob_id (outbox s1))" by (simp add: o)
  from commit_never_reissues_a_command [OF this b] have "distinct (map ob_id (outbox s2))" by (rule conjunct1)
  with a b o show ?thesis by (intro exI [of _ s1] exI [of _ s2] conjI)
qed

section \<open>Compare and swap\<close>

text \<open>
  A worker's attempt to commit from checkpoint version \<open>v\<close> of one task: whatever transaction it brings, its
  tenant, task and expected version are these.
\<close>

definition commit_from :: "string \<Rightarrow> string \<Rightarrow> int \<Rightarrow> int \<times> advance_txn \<Rightarrow> store \<Rightarrow> bool \<times> store" where
  "commit_from tn tk v c s =
     (case commitAdvance (fst c) ((snd c)\<lparr>tx_tenant := tn, tx_task := tk, tx_expected := v\<rparr>) s of
        (Committed _, s') \<Rightarrow> (True, s')
      | (Refused _, s') \<Rightarrow> (False, s'))"

definition past_version :: "string \<Rightarrow> string \<Rightarrow> int \<Rightarrow> store \<Rightarrow> bool" where
  "past_version tn tk v s \<longleftrightarrow> (case get_task tn tk s of None \<Rightarrow> False | Some t \<Rightarrow> v < tk_version t)"

lemma commit_from_wins:
  assumes "commit_from tn tk v c s = (True, s')"
  shows "past_version tn tk v s'"
proof -
  let ?txn = "(snd c)\<lparr>tx_tenant := tn, tx_task := tk, tx_expected := v\<rparr>"
  from assms obtain w where "commitAdvance (fst c) ?txn s = (Committed w, s')"
    by (auto simp: commit_from_def split: prod.splits commit_result.splits)
  then obtain t where t: "get_task tn tk s = Some t" "w = tk_version t + 1" "v = tk_version t"
    and s': "s' = commit_writes (fst c) ?txn w s" by (auto elim: commitE)
  from commit_task_row [of ?txn s t "fst c" w] t show ?thesis by (simp add: past_version_def s')
qed

lemma past_version_refuses:
  assumes "past_version tn tk v s"
  shows "commit_from tn tk v c s = (False, s)"
proof -
  let ?txn = "(snd c)\<lparr>tx_tenant := tn, tx_task := tk, tx_expected := v\<rparr>"
  from assms obtain t where "get_task tn tk s = Some t" "v < tk_version t"
    by (auto simp: past_version_def split: option.splits)
  moreover from this obtain reason where "commit_problem ?txn t = Some reason"
    by (cases "commit_problem ?txn t") (auto simp: commit_problem_def split: if_splits)
  ultimately have "commitAdvance (fst c) ?txn s = (Refused reason, s)"
    by (simp add: commitAdvance_def)
  then show ?thesis by (simp add: commit_from_def)
qed

interpretation commit_race: one_winner "commit_from tn tk v" "past_version tn tk v" for tn tk v
  by unfold_locales (auto simp: past_version_refuses intro: commit_from_wins)

text \<open>
  Checkpoints are compare-and-swap. However many workers try to commit the task from one checkpoint version, with
  whatever transactions, and whatever the rest of the system does between the attempts (short of lowering the task's
  version, which no operation does), at most one of them commits.
\<close>

theorem one_commit_per_version:
  assumes "\<And>c e s. (c, e) \<in> set attempts \<Longrightarrow> past_version tn tk v s \<Longrightarrow> past_version tn tk v (e s)"
  shows "count_list (claim_outcomes (commit_from tn tk v) attempts s) True \<le> 1"
  using assms by (rule commit_race.at_most_one_winner)

lemma interrupt_keeps_version:
  "past_version tn tk v s \<Longrightarrow> past_version tn tk v (s\<lparr>tasks := update_where (is_task tn' tk') (interrupt_row now) (tasks s)\<rparr>)"
  by (auto simp: past_version_def get_task_def get_task_update interrupt_row_def split: option.splits)

theorem one_commit_per_version_witness:
  "claim_outcomes (commit_from ''t'' ''k'' 0)
      [((9, txn_example), id), ((10, txn_example\<lparr>tx_fencing := 2\<rparr>), id)] log_example = [True, False]
   \<and> count_list (claim_outcomes (commit_from ''t'' ''k'' 0)
      [((9, txn_example), id), ((10, txn_example\<lparr>tx_fencing := 2\<rparr>), id)] log_example) True \<le> 1"
proof -
  let ?as = "[((9, txn_example), id), ((10, txn_example\<lparr>tx_fencing := 2\<rparr>), id)]"
  have c: "count_list (claim_outcomes (commit_from ''t'' ''k'' 0) ?as log_example) True \<le> 1"
    by (rule one_commit_per_version) auto
  obtain s1 where a: "commitAdvance 9 txn_example log_example = (Committed 1, s1)" using commit_example by blast
  have "txn_example\<lparr>tx_tenant := ''t'', tx_task := ''k'', tx_expected := 0\<rparr> = txn_example"
    by (simp add: txn_example_def)
  with a have f: "commit_from ''t'' ''k'' 0 (9, txn_example) log_example = (True, s1)" by (simp add: commit_from_def)
  from past_version_refuses [OF commit_from_wins [OF f]] f c show ?thesis by simp
qed

section \<open>Leases and their tokens\<close>

lemma acquireLease_cases:
  assumes "acquireLease now tn tk h ttl s = (r, s')"
  obtains (refused) l where "get_row (\<lambda>l. le_task l = tk) (leases s) = Some l" and "now < le_expires l"
      and "le_holder l \<noteq> h" and "r = None" and "s' = s"
    | (granted) l l' where "r = Some l" and "le_tenant l = tn" and "le_task l = tk" and "le_holder l = h"
      and "le_fencing l = counter_value ''fencing'' s + 1" and "le_expires l = now + ttl"
      and "counter_value ''fencing'' s' = le_fencing l"
      and "get_row (\<lambda>l. le_task l = tk) (leases s') = Some l'" and "le_holder l' = h"
      and "le_fencing l' = le_fencing l" and "le_expires l' = le_expires l"
      and "\<And>x. get_row (\<lambda>l. le_task l = tk) (leases s) = Some x \<Longrightarrow> le_expires x \<le> now \<or> le_holder x = h"
proof (cases "case get_row (\<lambda>l. le_task l = tk) (leases s) of None \<Rightarrow> False
    | Some l \<Rightarrow> now < le_expires l \<and> le_holder l \<noteq> h")
  case True
  then obtain l where l: "get_row (\<lambda>l. le_task l = tk) (leases s) = Some l" "now < le_expires l" "le_holder l \<noteq> h"
    by (cases "get_row (\<lambda>l. le_task l = tk) (leases s)") auto
  then have "acquireLease now tn tk h ttl s = (None, s)" by (simp add: acquireLease_def)
  then have "r = None" "s' = s" using assms by simp_all
  with l show ?thesis by (rule refused)
next
  case False
  let ?n = "counter_value ''fencing'' s + 1"
  let ?new = "\<lparr>le_tenant = tn, le_task = tk, le_holder = h, le_fencing = ?n, le_expires = now + ttl\<rparr>"
  let ?f = "\<lambda>l. l\<lparr>le_holder := h, le_fencing := ?n, le_expires := now + ttl\<rparr>"
  from False assms have r: "r = Some ?new"
    and s': "s' = s\<lparr>counters := (counters s)(''fencing'' \<mapsto> ?n), leases := upsert (\<lambda>l. le_task l = tk) ?new ?f (leases s)\<rparr>"
    by (auto simp: acquireLease_def nextCounter_def Let_def split: option.splits)
  have g: "get_row (\<lambda>l. le_task l = tk) (leases s')
      = Some (case get_row (\<lambda>l. le_task l = tk) (leases s) of None \<Rightarrow> ?new | Some l \<Rightarrow> ?f l)"
    unfolding s' by simp (intro get_row_upsert_same; simp)
  have free: "le_expires x \<le> now \<or> le_holder x = h" if "get_row (\<lambda>l. le_task l = tk) (leases s) = Some x" for x
    using False that by auto
  show ?thesis
    by (rule granted [OF r _ _ _ _ _ _ g])
      (simp_all add: s' counter_value_def free split: option.split)
qed

text \<open>A lease is a hold that runs out by itself, whatever the time it is asked for.\<close>

definition take_lease :: "string \<Rightarrow> string \<Rightarrow> int \<Rightarrow> int \<Rightarrow> string \<Rightarrow> store \<Rightarrow> bool \<times> store" where
  "take_lease tn tk ttl now h s = (case acquireLease now tn tk h ttl s of (r, s') \<Rightarrow> (r \<noteq> None, s'))"

definition lease_held :: "string \<Rightarrow> store \<Rightarrow> (string \<times> int) option" where
  "lease_held tk s = map_option (\<lambda>l. (le_holder l, le_expires l)) (get_row (\<lambda>l. le_task l = tk) (leases s))"

interpretation lease_hold: timed_hold "take_lease tn tk ttl" "lease_held tk" "\<lambda>_. True" ttl for tn tk ttl
proof
  fix s t w s'
  assume "take_lease tn tk ttl t w s = (True, s')"
  then obtain l where "acquireLease t tn tk w ttl s = (Some l, s')" by (auto simp: take_lease_def split: prod.splits)
  then show "lease_held tk s' = Some (w, t + ttl)" by (cases rule: acquireLease_cases) (simp_all add: lease_held_def)
qed (auto simp: take_lease_def lease_held_def acquireLease_def)

text \<open>
  C4: A lease is exclusive while it lasts. After a grant, and for as long as its row stands (nobody has released the lease or taken it after
  it ran out), whoever asks before it expires is refused and changes nothing, unless it is the holder itself; the holder, and anyone once it has
  expired, is granted it. And whatever has become of the row, anyone who is granted the task's lease later, after any steps that never lower the
  fencing counter, gets a strictly greater token.
\<close>

theorem lease_is_exclusive:
  assumes "acquireLease now tn tk h ttl s = (Some l, s1)"
    and "counter_value ''fencing'' s1 \<le> counter_value ''fencing'' s2"
    and "acquireLease now' tn' tk h' ttl' s2 = (r, s3)"
  shows "(get_row (\<lambda>x. le_task x = tk) (leases s2) = get_row (\<lambda>x. le_task x = tk) (leases s1) \<longrightarrow>
      (now' < now + ttl \<and> h' \<noteq> h \<longrightarrow> r = None \<and> s3 = s2) \<and> (now + ttl \<le> now' \<or> h' = h \<longrightarrow> r \<noteq> None))
    \<and> (\<forall>l'. r = Some l' \<longrightarrow> le_fencing l < le_fencing l')"
proof -
  from assms(1) obtain x where x: "get_row (\<lambda>x. le_task x = tk) (leases s1) = Some x" "le_holder x = h"
      "le_expires x = now + ttl" and c: "counter_value ''fencing'' s1 = le_fencing l"
    by (cases rule: acquireLease_cases) auto
  from assms(3) show ?thesis
    using x c assms(2) by (cases rule: acquireLease_cases) auto
qed

theorem lease_is_exclusive_witness:
  "\<exists>l s1. acquireLease 0 ''t'' ''k'' ''w1'' 10 log_example = (Some l, s1)
     \<and> acquireLease 5 ''t'' ''k'' ''w2'' 10 s1 = (None, s1)
     \<and> (\<exists>l' s3. acquireLease 10 ''t'' ''k'' ''w2'' 10 s1 = (Some l', s3) \<and> le_fencing l < le_fencing l')"
proof -
  have "leases log_example = []"
    by (simp add: log_example_def createTask_def insert_row_def init_store_def putSnapshot_def has_row_iff)
  then obtain l s1 where a: "acquireLease 0 ''t'' ''k'' ''w1'' 10 log_example = (Some l, s1)"
    by (auto simp: acquireLease_def nextCounter_def Let_def)
  obtain r s2 where b: "acquireLease 5 ''t'' ''k'' ''w2'' 10 s1 = (r, s2)" by fastforce
  obtain r' s3 where c: "acquireLease 10 ''t'' ''k'' ''w2'' 10 s1 = (r', s3)" by fastforce
  from lease_is_exclusive [OF a order_refl b] b have b': "acquireLease 5 ''t'' ''k'' ''w2'' 10 s1 = (None, s1)" by simp
  from lease_is_exclusive [OF a order_refl c] obtain l' where "r' = Some l'" "le_fencing l < le_fencing l'" by auto
  with a b' c show ?thesis by blast
qed

text \<open>
  A lease that was lost does not refuse a commit. After the lease has run out and another worker has taken it
  (with a greater token), the first worker's commit under its own older token still goes through, as long as no commit
  under a greater token has been made: the guard compares the token with the task's row, which only a commit writes,
  and never with the lease.
\<close>

theorem superseded_holder_still_commits:
  assumes "acquireLease now tn tk h ttl s = (Some l, s1)" and "acquireLease now' tn tk h' ttl' s1 = (Some l', s2)"
    and "get_task tn tk s = Some t" and "tk_fencing t \<le> le_fencing l"
    and "tx_tenant txn = tn" and "tx_task txn = tk" and "tx_fencing txn = le_fencing l"
    and "tx_generation txn = tk_generation t" and "tx_expected txn = tk_version t"
  shows "le_fencing l < le_fencing l' \<and> fst (commitAdvance now'' txn s2) = Committed (tk_version t + 1)"
proof -
  have "tasks s1 = tasks s" "tasks s2 = tasks s1"
    using assms(1,2) by (auto simp: acquireLease_def nextCounter_def Let_def split: if_splits)
  with assms(3) have "get_task tn tk s2 = Some t" by (simp add: get_task_def)
  then have "fst (commitAdvance now'' txn s2) = Committed (tk_version t + 1)"
    using assms(4-9) by (simp add: commitAdvance_def commit_problem_def Let_def)
  moreover have c: "counter_value ''fencing'' s1 = le_fencing l"
    using assms(1) by (cases rule: acquireLease_cases) auto
  from assms(2) have "le_fencing l < le_fencing l'"
    by (cases rule: acquireLease_cases) (simp_all add: c)
  ultimately show ?thesis by simp
qed

lemma log_example_leases: "leases log_example = []" "counter_value ''fencing'' log_example = 0"
  by (simp_all add: log_example_def createTask_def insert_row_def init_store_def putSnapshot_def has_row_iff counter_value_def)

theorem superseded_holder_still_commits_witness:
  "\<exists>l s1 l' s2. acquireLease 0 ''t'' ''k'' ''w1'' 10 log_example = (Some l, s1)
     \<and> acquireLease 20 ''t'' ''k'' ''w2'' 10 s1 = (Some l', s2) \<and> le_fencing l = 1
     \<and> le_fencing l < le_fencing l' \<and> fst (commitAdvance 21 txn_example s2) = Committed 1"
proof -
  let ?l = "\<lparr>le_tenant = ''t'', le_task = ''k'', le_holder = ''w1'', le_fencing = 1, le_expires = 10\<rparr>"
  let ?s1 = "log_example\<lparr>counters := (counters log_example)(''fencing'' \<mapsto> 1), leases := [?l]\<rparr>"
  have a: "acquireLease 0 ''t'' ''k'' ''w1'' 10 log_example = (Some ?l, ?s1)"
    by (simp add: acquireLease_def nextCounter_def Let_def log_example_leases upsert_def has_row_iff)
  obtain l' s2 where b: "acquireLease 20 ''t'' ''k'' ''w2'' 10 ?s1 = (Some l', s2)"
    by (simp add: acquireLease_def nextCounter_def Let_def)
  have "le_fencing ?l < le_fencing l' \<and> fst (commitAdvance 21 txn_example s2) = Committed (0 + 1)"
    using superseded_holder_still_commits [OF a b log_example_task, of txn_example 21]
    by (simp add: txn_example_def)
  then have "le_fencing ?l = 1 \<and> le_fencing ?l < le_fencing l' \<and> fst (commitAdvance 21 txn_example s2) = Committed 1"
    by simp
  with a b show ?thesis by blast
qed

section \<open>No lost wakeup\<close>

lemma pending_iff:
  "pendingEvents tn tk c s = [] \<longleftrightarrow> filter (\<lambda>e. of_task tn tk e \<and> cursor tn tk c s < ev_seq e) (events s) = []"
  by (simp add: pendingEvents_def Let_def)

definition resolved_waits :: "string \<Rightarrow> string \<Rightarrow> store \<Rightarrow> bool" where
  "resolved_waits tn tk s \<longleftrightarrow> has_row (\<lambda>w. wa_tenant w = tn \<and> wa_task w = tk \<and> wa_resolved w) (waits s)"

lemma releaseIfNoWork_eq:
  "releaseIfNoWork tn tk f c s =
    (if (case get_row (\<lambda>l. le_task l = tk) (leases s) of None \<Rightarrow> False | Some l \<Rightarrow> f < le_fencing l) then (ReleaseFenced, s)
     else if pendingEvents tn tk c s \<noteq> [] \<or> resolved_waits tn tk s then (HasWork, s)
     else (Released, s\<lparr>leases := delete_where (\<lambda>l. le_task l = tk \<and> le_fencing l = f) (leases s)\<rparr>))"
proof -
  have p: "0 < length (filter (\<lambda>e. of_task tn tk e \<and> cursor tn tk c s < ev_seq e) (events s)) \<longleftrightarrow> pendingEvents tn tk c s \<noteq> []"
    by (simp only: pending_iff length_greater_0_conv)
  have w: "0 < length (filter (\<lambda>w. wa_tenant w = tn \<and> wa_task w = tk \<and> wa_resolved w) (waits s)) \<longleftrightarrow> resolved_waits tn tk s"
    by (auto simp: resolved_waits_def has_row_iff filter_empty_conv)
  show ?thesis unfolding releaseIfNoWork_def Let_def p w by simp
qed

text \<open>
  What parking means. The lease goes only from a task with nothing pending and no resolved wait, and only the
  lease under this token; when either is left the store is untouched and the answer is to continue; and a caller whose token
  the lease has outrun is told so before anything else is looked at.
\<close>

theorem released_means_idle:
  assumes "releaseIfNoWork tn tk f c s = (res, s')"
  shows "case res of
      Released \<Rightarrow> pendingEvents tn tk c s' = [] \<and> \<not> resolved_waits tn tk s'
        \<and> set (leases s') = {l \<in> set (leases s). \<not> (le_task l = tk \<and> le_fencing l = f)}
    | HasWork \<Rightarrow> s' = s \<and> (pendingEvents tn tk c s \<noteq> [] \<or> resolved_waits tn tk s)
    | ReleaseFenced \<Rightarrow> s' = s \<and> (\<exists>l\<in>set (leases s). le_task l = tk \<and> f < le_fencing l)"
proof (cases "case get_row (\<lambda>l. le_task l = tk) (leases s) of None \<Rightarrow> False | Some l \<Rightarrow> f < le_fencing l")
  case True
  with assms have "res = ReleaseFenced" "s' = s" by (simp_all add: releaseIfNoWork_eq)
  moreover from True have "\<exists>l\<in>set (leases s). le_task l = tk \<and> f < le_fencing l"
    by (auto dest: get_row_SomeD split: option.splits)
  ultimately show ?thesis by simp
next
  case free: False
  show ?thesis
  proof (cases "pendingEvents tn tk c s = [] \<and> \<not> resolved_waits tn tk s")
    case True
    with free assms have "res = Released"
      and "s' = s\<lparr>leases := delete_where (\<lambda>l. le_task l = tk \<and> le_fencing l = f) (leases s)\<rparr>"
      by (simp_all add: releaseIfNoWork_eq)
    with True show ?thesis by (simp add: pending_iff cursor_def set_delete_where resolved_waits_def)
  next
    case False
    with free assms have "res = HasWork" "s' = s" by (auto simp: releaseIfNoWork_eq)
    with False show ?thesis by auto
  qed
qed

theorem released_means_idle_witness:
  "\<exists>s'. releaseIfNoWork ''t'' ''k'' 1 ''harness'' log_example = (Released, s') \<and> pendingEvents ''t'' ''k'' ''harness'' s' = []"
proof -
  obtain s' where r: "releaseIfNoWork ''t'' ''k'' 1 ''harness'' log_example = (Released, s')"
    by (simp add: releaseIfNoWork_def log_example_leases Let_def)
      (simp add: log_example_def createTask_def insert_row_def init_store_def putSnapshot_def has_row_iff)
  from released_means_idle [OF r] r show ?thesis by simp
qed




section \<open>Interrupts refuse the old generation\<close>

lemma interrupt_cases:
  assumes "interrupt now tn tk s = Inr (g, s')"
  obtains t where "get_task tn tk s = Some t" and "get_task tn tk s' = Some (interrupt_row now t)"
    and "g = tk_generation t + 1" and "s' = s\<lparr>tasks := update_where (is_task tn tk) (interrupt_row now) (tasks s)\<rparr>"
proof -
  let ?s1 = "s\<lparr>tasks := update_where (is_task tn tk) (interrupt_row now) (tasks s)\<rparr>"
  have g: "get_task tn tk ?s1 = map_option (interrupt_row now) (get_task tn tk s)"
    by (simp add: get_task_def get_task_update interrupt_row_def)
  with assms obtain t where t: "get_task tn tk s = Some t" and s': "s' = ?s1" and "g = tk_generation (interrupt_row now t)"
    by (auto simp: interrupt_def Let_def split: option.splits)
  then show ?thesis using g by (intro that) (simp_all add: interrupt_row_def)
qed

text \<open>
  An interrupt ends the generation. It raises the task's generation by exactly one and marks it interrupted; an
  advance that was being computed under the old generation, whatever its token, can no longer commit, and the refusal
  changes nothing; an advance under the new generation with a current token and version still commits; an unknown task
  is an error.
\<close>

theorem interrupt_refuses_old_generation:
  assumes "interrupt now tn tk s = Inr (g, s')" and "tx_tenant txn = tn" and "tx_task txn = tk"
  shows "\<exists>t. get_task tn tk s = Some t \<and> g = tk_generation t + 1
    \<and> get_task tn tk s' = Some (t\<lparr>tk_generation := g, tk_status := TInterrupted, tk_updated := now\<rparr>)
    \<and> (tx_generation txn \<noteq> g \<longrightarrow> commitAdvance now' txn s' \<in> {(Refused Fenced, s'), (Refused StaleGeneration, s')})
    \<and> (tx_generation txn = g \<and> tk_fencing t \<le> tx_fencing txn \<and> tx_expected txn = tk_version t \<longrightarrow>
        fst (commitAdvance now' txn s') = Committed (tk_version t + 1))"
proof -
  from assms(1) obtain t where "get_task tn tk s = Some t" "get_task tn tk s' = Some (interrupt_row now t)"
      "g = tk_generation t + 1" by (rule interrupt_cases)
  with assms(2,3) show ?thesis
    by (intro exI [of _ t]) (simp add: interrupt_row_def commitAdvance_def commit_problem_def Let_def)
qed

theorem interrupt_refuses_old_generation_witness:
  "\<exists>s'. interrupt 5 ''t'' ''k'' log_example = Inr (1, s') \<and> commitAdvance 9 txn_example s' = (Refused StaleGeneration, s')"
proof -
  let ?s1 = "log_example\<lparr>tasks := update_where (is_task ''t'' ''k'') (interrupt_row 5) (tasks log_example)\<rparr>"
  have "get_task ''t'' ''k'' ?s1 = map_option (interrupt_row 5) (get_task ''t'' ''k'' log_example)"
    by (simp add: get_task_def get_task_update interrupt_row_def)
  then have i: "interrupt 5 ''t'' ''k'' log_example = Inr (1, ?s1)"
    by (simp add: interrupt_def log_example_task interrupt_row_def)
  have "commitAdvance 9 txn_example ?s1 \<in> {(Refused Fenced, ?s1), (Refused StaleGeneration, ?s1)}"
    using interrupt_refuses_old_generation [OF i, of txn_example 9] by (auto simp: txn_example_def)
  moreover have "commitAdvance 9 txn_example ?s1 \<noteq> (Refused Fenced, ?s1)"
    using \<open>get_task ''t'' ''k'' ?s1 = _\<close>
    by (simp add: log_example_task commitAdvance_def commit_problem_def txn_example_def interrupt_row_def)
  ultimately show ?thesis using i by blast
qed

text \<open>
  One call for the whole agent: \<open>interruptAgent\<close> interrupts each of the agent's tasks that has not ended, once, and no other.
\<close>

text \<open>
  Interrupting an agent moves each of its tasks that has not completed or failed to the next generation, exactly
  once, answers exactly their ids, and leaves every other row of the table alone. (Task ids are the table's primary key.)
\<close>

theorem interruptAgent_interrupts_each_open_task_once:
  assumes "distinct (map tk_id (tasks s))" and "interruptAgent now tn agent s = (ids, s')"
  shows "tasks s' = map (\<lambda>r. if tk_tenant r = tn \<and> tk_agent r = agent \<and> tk_status r \<notin> {TCompleted, TFailed}
        then interrupt_row now r else r) (tasks s)
    \<and> set ids = {tk_id r |r. r \<in> set (tasks s) \<and> tk_tenant r = tn \<and> tk_agent r = agent \<and> tk_status r \<notin> {TCompleted, TFailed}}
    \<and> s' = s\<lparr>tasks := tasks s'\<rparr>"
proof -
  let ?open = "\<lambda>r. tk_tenant r = tn \<and> tk_agent r = agent \<and> tk_status r \<notin> {TCompleted, TFailed}"
  from assms(2) have ids: "ids = map tk_id (filter ?open (tasks s))"
    and s': "s' = s\<lparr>tasks := fold (\<lambda>task. update_where (is_task tn task) (interrupt_row now)) ids (tasks s)\<rparr>"
    by (auto simp: interruptAgent_def Let_def)
  have d: "distinct ids" using assms(1) by (simp add: ids distinct_map_filter)
  have uw: "is_task tn = (\<lambda>task r. (if tk_tenant r = tn then Some (tk_id r) else None) = Some task)"
    by (auto simp: fun_eq_iff is_task_def)
  have "fold (\<lambda>task. update_where (is_task tn task) (interrupt_row now)) ids (tasks s)
      = fold (\<lambda>i. update_where (\<lambda>r. (if tk_tenant r = tn then Some (tk_id r) else None) = i) (interrupt_row now)) (map Some ids) (tasks s)"
    by (simp only: uw fold_map comp_def)
  also have "\<dots> = update_where (\<lambda>r. (if tk_tenant r = tn then Some (tk_id r) else None) \<in> set (map Some ids)) (interrupt_row now) (tasks s)"
    using d by (intro fold_update_where) (auto simp: interrupt_row_def distinct_map)
  also have "\<dots> = map (\<lambda>r. if ?open r then interrupt_row now r else r) (tasks s)"
    unfolding update_where_def
  proof (intro map_cong refl)
    fix r assume r: "r \<in> set (tasks s)"
    have "(if tk_tenant r = tn then Some (tk_id r) else None) \<in> set (map Some ids) \<longleftrightarrow> ?open r"
      using r assms(1) by (auto simp: ids distinct_map inj_on_def image_iff)
    then show "(if (if tk_tenant r = tn then Some (tk_id r) else None) \<in> set (map Some ids) then interrupt_row now r else r)
        = (if ?open r then interrupt_row now r else r)" by simp
  qed
  finally show ?thesis using s' ids by auto
qed

theorem interruptAgent_interrupts_each_open_task_once_witness:
  "fst (interruptAgent 5 ''t'' ''a'' log_example) = [''k'']
   \<and> map tk_generation (tasks (snd (interruptAgent 5 ''t'' ''a'' log_example))) = [1]"
proof -
  have t: "tasks log_example = [\<lparr>tk_tenant = ''t'', tk_id = ''k'', tk_agent = ''a'', tk_status = TRunnable,
     tk_generation = 0, tk_version = 0, tk_fencing = 0, tk_checkpoint = JNull, tk_state_version = 0, tk_updated = 0\<rparr>]"
    by (simp add: log_example_def createTask_def insert_row_def init_store_def putSnapshot_def has_row_iff)
  obtain ids s' where i: "interruptAgent 5 ''t'' ''a'' log_example = (ids, s')" by fastforce
  from interruptAgent_interrupts_each_open_task_once [OF _ i] have "map tk_generation (tasks s') = [1]"
    by (simp add: t interrupt_row_def)
  moreover from i have "ids = [''k'']" by (auto simp: interruptAgent_def Let_def t)
  ultimately show ?thesis using i by simp
qed

section \<open>Reopening\<close>

text \<open>
  The two stores reopen the same tasks, written differently: a completed or blocked task always; a waiting one
  exactly when no command of its is open and no approval of its is pending; a failed one, or one that runs, never; and a
  reopened task's row changes in its status and time only.
\<close>

theorem reopenTask_backends_agree:
  "do_reopenTask now tn tk s = reopenTask now tn tk s
   \<and> (fst (reopenTask now tn tk s) \<longleftrightarrow>
       (\<exists>t. get_task tn tk s = Some t \<and> (tk_status t \<in> {TCompleted, TBlocked} \<or>
         (tk_status t = TWaiting \<and> (\<forall>c\<in>set (outbox s). \<not> open_command tn tk c)
            \<and> (\<forall>a\<in>set (approvals s). \<not> open_approval tn tk a)))))
   \<and> get_task tn tk (snd (reopenTask now tn tk s)) =
       (if fst (reopenTask now tn tk s) then map_option (\<lambda>t. t\<lparr>tk_status := TRunnable, tk_updated := now\<rparr>) (get_task tn tk s)
        else get_task tn tk s)"
proof -
  have "get_task tn tk (set_runnable now tn tk s) = map_option (\<lambda>t. t\<lparr>tk_status := TRunnable, tk_updated := now\<rparr>) (get_task tn tk s)"
    by (simp add: set_runnable_def get_task_def get_task_update)
  then show ?thesis
    by (cases "get_task tn tk s") (auto simp: reopenTask_def do_reopenTask_def outstanding_def has_row_iff)
qed

theorem reopenTask_backends_agree_witness:
  "do_reopenTask 5 ''t'' ''k'' (log_example\<lparr>tasks := map (\<lambda>r. r\<lparr>tk_status := TBlocked\<rparr>) (tasks log_example)\<rparr>)
   = reopenTask 5 ''t'' ''k'' (log_example\<lparr>tasks := map (\<lambda>r. r\<lparr>tk_status := TBlocked\<rparr>) (tasks log_example)\<rparr>)"
  using reopenTask_backends_agree by blast

end
