(* ===== verification/Outbox.thy ===== *)
theory Outbox
  imports Advance
begin

text \<open>
  What leaves a task and what comes back for it: the command outbox with its claim, its dispatch and its repairs
  (\<open>claimOutbox\<close>, \<open>markDispatched\<close>, and on the Durable Object \<open>settleAnswered\<close>, \<open>outstandingCommands\<close>,
  \<open>requeueStale\<close>, \<open>reclaimStuckClaims\<close>), the request ledger that makes a client's call idempotent
  (\<open>claimRequest\<close>, \<open>finishRequest\<close>), and the queued follow-ups. The lemmas show that a command goes to one
  dispatcher until a repair puts it back, that the repairs put back exactly what was lost, that a request has one winner and one answer,
  and what a follow-up queued while a flush is under way can suffer.
\<close>

section \<open>Claiming commands\<close>

definition claimable :: "string option \<Rightarrow> outbox_row \<Rightarrow> bool" where
  "claimable tenant r \<longleftrightarrow> ob_state r = CPending \<and> (truthy tenant \<longrightarrow> Some (ob_tenant r) = tenant)"

definition claimed_command :: "outbox_row \<Rightarrow> string \<times> string \<times> string \<times> json" where
  "claimed_command r = (ob_id r, ob_task r, ob_kind r, ob_payload r)"

definition claimOutbox :: "nat \<Rightarrow> string option \<Rightarrow> store \<Rightarrow> (string \<times> string \<times> string \<times> json) list \<times> store" where
  "claimOutbox limit tenant s =
     (let rows = take limit (order_by ob_created (filter (claimable tenant) (outbox s))) in
      (map claimed_command rows,
       s\<lparr>outbox := fold (\<lambda>r. update_where (\<lambda>x. ob_id x = ob_id r) (\<lambda>x. x\<lparr>ob_state := CClaimed\<rparr>)) rows (outbox s)\<rparr>))"

text \<open>The Durable Object stamps the claim, so that a claim whose dispatch threw can be found.\<close>

definition do_claimOutbox :: "int \<Rightarrow> nat \<Rightarrow> string option \<Rightarrow> store \<Rightarrow> (string \<times> string \<times> string \<times> json) list \<times> store" where
  "do_claimOutbox now limit tenant s =
     (let rows = take limit (order_by ob_created (filter (claimable tenant) (outbox s))) in
      (map claimed_command rows,
       s\<lparr>outbox := fold (\<lambda>r. update_where (\<lambda>x. ob_id x = ob_id r)
            (\<lambda>x. x\<lparr>ob_state := CClaimed, ob_dispatched := Some now\<rparr>)) rows (outbox s)\<rparr>))"

definition markDispatched :: "int \<Rightarrow> string \<Rightarrow> store \<Rightarrow> store" where
  "markDispatched now command s =
     s\<lparr>outbox := update_where (\<lambda>r. ob_id r = command) (\<lambda>r. r\<lparr>ob_state := CDispatched, ob_dispatched := Some now\<rparr>) (outbox s)\<rparr>"

section \<open>Replies and repairs\<close>

definition response_key :: "string \<Rightarrow> string" where
  "response_key command = ''cmd:'' @ command @ '':response''"

definition result_key :: "string \<Rightarrow> string" where
  "result_key command = ''cmd:'' @ command @ '':result''"

text \<open>The subquery \<open>EXISTS (SELECT 1 FROM events e WHERE ...)\<close>: a reply to the command is in its tenant's log.\<close>

definition answered :: "store \<Rightarrow> outbox_row \<Rightarrow> bool" where
  "answered s r \<longleftrightarrow> has_row (\<lambda>e. ev_tenant e = ob_tenant r
     \<and> ev_dedup e \<in> {Some (response_key (ob_id r)), Some (result_key (ob_id r))}) (events s)"

definition resulted :: "store \<Rightarrow> outbox_row \<Rightarrow> bool" where
  "resulted s r \<longleftrightarrow> has_row (\<lambda>e. ev_tenant e = ob_tenant r \<and> ev_dedup e = Some (result_key (ob_id r))) (events s)"

definition open_state :: "outbox_row \<Rightarrow> bool" where
  "open_state r \<longleftrightarrow> ob_state r \<in> {CPending, CClaimed, CDispatched}"

definition settled :: "store \<Rightarrow> outbox_row \<Rightarrow> bool" where
  "settled s r \<longleftrightarrow> open_state r \<and> (answered s r \<or> (ob_kind r = ''message.out'' \<and> ob_state r = CDispatched))"

definition settleAnswered :: "store \<Rightarrow> nat \<times> store" where
  "settleAnswered s =
     (let rows = filter (settled s) (outbox s) in
      (length rows,
       s\<lparr>outbox := fold (\<lambda>r. update_where (\<lambda>x. ob_id x = ob_id r) (\<lambda>x. x\<lparr>ob_state := CDone\<rparr>)) rows (outbox s)\<rparr>))"

text \<open>The join with \<open>tasks\<close>: the row's task exists and has not ended.\<close>

definition live_task :: "store \<Rightarrow> outbox_row \<Rightarrow> bool" where
  "live_task s r \<longleftrightarrow> has_row (\<lambda>t. tk_tenant t = ob_tenant r \<and> tk_id t = ob_task r
     \<and> tk_status t \<notin> {TCompleted, TFailed}) (tasks s)"

definition outstandingCommands :: "string list option \<Rightarrow> store \<Rightarrow> nat" where
  "outstandingCommands kinds s =
     length (filter (\<lambda>r. open_state r \<and> (or_else kinds [] \<noteq> [] \<longrightarrow> ob_kind r \<in> set (or_else kinds []))
        \<and> live_task s r \<and> \<not> answered s r) (outbox s))"

text \<open>\<open>dispatched_at < ?\<close>: a \<open>NULL\<close> is less than nothing.\<close>

definition dispatched_before :: "int \<Rightarrow> outbox_row \<Rightarrow> bool" where
  "dispatched_before t r \<longleftrightarrow> (case ob_dispatched r of None \<Rightarrow> False | Some d \<Rightarrow> d < t)"

definition requeueStale :: "int \<Rightarrow> int \<Rightarrow> string list \<Rightarrow> store \<Rightarrow> nat \<times> store" where
  "requeueStale now older kinds s =
     (let doomed = filter (\<lambda>r. ob_state r = CDispatched \<and> ob_kind r \<in> set kinds \<and> live_task s r
            \<and> dispatched_before (now - older) r \<and> \<not> resulted s r) (outbox s) in
      (length doomed,
       s\<lparr>outbox := fold (\<lambda>r. update_where (\<lambda>x. ob_id x = ob_id r)
            (\<lambda>x. x\<lparr>ob_state := CPending, ob_dispatched := None\<rparr>)) doomed (outbox s)\<rparr>))"

definition reclaimStuckClaims :: "int \<Rightarrow> int \<Rightarrow> store \<Rightarrow> nat \<times> store" where
  "reclaimStuckClaims now older s =
     (let stuck = filter (\<lambda>r. ob_state r = CClaimed \<and> dispatched_before (now - older) r) (outbox s) in
      (length stuck,
       s\<lparr>outbox := fold (\<lambda>r. update_where (\<lambda>x. ob_id x = ob_id r) (\<lambda>x. x\<lparr>ob_state := CPending\<rparr>)) stuck (outbox s)\<rparr>))"

section \<open>The request ledger\<close>

definition is_request :: "string \<Rightarrow> string \<Rightarrow> request_row \<Rightarrow> bool" where
  "is_request tenant request r \<longleftrightarrow> rq_tenant r = tenant \<and> rq_id r = request"

definition claimRequest :: "int \<Rightarrow> string \<Rightarrow> string \<Rightarrow> string \<Rightarrow> store \<Rightarrow> (request_state \<times> json) option \<times> store" where
  "claimRequest now tenant request kind s =
     (case get_row (is_request tenant request) (requests s) of
        Some prior \<Rightarrow> (Some (rq_state prior, or_else (rq_response prior) JNull), s)
      | None \<Rightarrow> (None, s\<lparr>requests := requests s @ [\<lparr>rq_tenant = tenant, rq_id = request, rq_kind = kind,
            rq_state = RPending, rq_response = None, rq_created = now\<rparr>]\<rparr>))"

definition finishRequest :: "string \<Rightarrow> string \<Rightarrow> json \<Rightarrow> store \<Rightarrow> store" where
  "finishRequest tenant request response s =
     s\<lparr>requests := update_where (is_request tenant request)
        (\<lambda>r. r\<lparr>rq_state := RDone, rq_response := Some (j (Some response))\<rparr>) (requests s)\<rparr>"

section \<open>Follow-ups\<close>

definition of_follow :: "string \<Rightarrow> string \<Rightarrow> string \<Rightarrow> follow_up_row \<Rightarrow> bool" where
  "of_follow tenant agent task r \<longleftrightarrow> fu_tenant r = tenant \<and> fu_agent r = agent \<and> fu_task r = task"

definition queueFollowUp :: "int \<Rightarrow> string \<Rightarrow> string \<Rightarrow> string \<Rightarrow> string \<Rightarrow> store \<Rightarrow> store" where
  "queueFollowUp now tenant agent task text s =
     s\<lparr>follow_ups := follow_ups s @ [\<lparr>fu_tenant = tenant, fu_agent = agent, fu_task = task, fu_text = text, fu_created = now\<rparr>]\<rparr>"

definition follow_event :: "string \<Rightarrow> string \<Rightarrow> string \<Rightarrow> string \<Rightarrow> new_event" where
  "follow_event tenant agent task text =
     \<lparr>ne_tenant = tenant, ne_agent = agent, ne_task = Some task, ne_thread = None, ne_kind = ''message'',
      ne_payload = JObj [(''text'', JStr text), (''followUp'', JBool True)], ne_dedup = None\<rparr>"

text \<open>
  The flush is not a transaction: it awaits one append per row and deletes at the end. After each append other work may run
  before the next statement: \<open>env k\<close> is what runs with \<open>k\<close> rows left to append. A throw leaves what was written.
\<close>

fun append_follow_ups :: "(nat \<Rightarrow> store \<Rightarrow> store) \<Rightarrow> int \<Rightarrow> string \<Rightarrow> string \<Rightarrow> string \<Rightarrow> follow_up_row list \<Rightarrow> store
    \<Rightarrow> store_error option \<times> store" where
  "append_follow_ups env now tenant agent task [] s = (None, s)"
| "append_follow_ups env now tenant agent task (r # rs) s =
     (case appendEvent now (follow_event tenant agent task (fu_text r)) s of
        Inl err \<Rightarrow> (Some err, s)
      | Inr (_, s1) \<Rightarrow> append_follow_ups env now tenant agent task rs (env (length rs) s1))"

definition flush_among :: "(nat \<Rightarrow> store \<Rightarrow> store) \<Rightarrow> int \<Rightarrow> string \<Rightarrow> string \<Rightarrow> string \<Rightarrow> store
    \<Rightarrow> (store_error + nat) \<times> store" where
  "flush_among env now tenant agent task s =
     (let rows = order_by fu_created (filter (of_follow tenant agent task) (follow_ups s)) in
      case append_follow_ups env now tenant agent task rows s of (Some err, s1) \<Rightarrow> (Inl err, s1)
      | (None, s1) \<Rightarrow> (Inr (length rows),
          if rows \<noteq> [] then s1\<lparr>follow_ups := delete_where (of_follow tenant agent task) (follow_ups s1)\<rparr> else s1))"

text \<open>With nothing else running.\<close>

definition flushFollowUps :: "int \<Rightarrow> string \<Rightarrow> string \<Rightarrow> string \<Rightarrow> store \<Rightarrow> (store_error + nat) \<times> store" where
  "flushFollowUps = flush_among (\<lambda>_ s. s)"

section \<open>One dispatcher for a command\<close>

lemma set_claimable_rows:
  "set (take limit (order_by ob_created (filter (claimable tn) (outbox s)))) \<subseteq> {r \<in> set (outbox s). ob_state r = CPending}"
  by (auto simp: claimable_def dest: in_set_takeD)

lemma distinct_take_order_by: "distinct (map g rows) \<Longrightarrow> distinct (map g (take n (order_by k (filter p rows))))"
proof -
  assume "distinct (map g rows)"
  then have "inj_on g (set (order_by k (filter p rows)))" "distinct (order_by k (filter p rows))"
    by (auto simp: distinct_map inj_on_def order_by_def)
  then have "distinct (map g (order_by k (filter p rows)))" by (simp add: distinct_map)
  then show "distinct (map g (take n (order_by k (filter p rows))))" by (simp add: take_map [symmetric])
qed

definition claim_command :: "string \<Rightarrow> nat \<times> string option \<Rightarrow> store \<Rightarrow> bool \<times> store" where
  "claim_command command c s = (case claimOutbox (fst c) (snd c) s of (cs, s') \<Rightarrow> (command \<in> fst ` set cs, s'))"

definition do_claim_command :: "string \<Rightarrow> int \<times> nat \<times> string option \<Rightarrow> store \<Rightarrow> bool \<times> store" where
  "do_claim_command command c s =
     (case do_claimOutbox (fst c) (fst (snd c)) (snd (snd c)) s of (cs, s') \<Rightarrow> (command \<in> fst ` set cs, s'))"

definition command_taken :: "string \<Rightarrow> store \<Rightarrow> bool" where
  "command_taken command s \<longleftrightarrow> (\<forall>r\<in>set (outbox s). ob_id r = command \<longrightarrow> ob_state r \<noteq> CPending)"

lemma claim_fold_taken:
  fixes s :: store and picked :: "outbox_row list"
  assumes "\<And>r. ob_id (f r) = ob_id r" and "\<And>r. ob_state (f r) = CClaimed"
    and "command \<in> ob_id ` set picked \<or> command_taken command s"
  shows "command_taken command (s\<lparr>outbox := fold (\<lambda>r. update_where (\<lambda>x. ob_id x = ob_id r) f) picked (outbox s)\<rparr>)"
  unfolding command_taken_def
proof (intro ballI impI)
  fix x assume x: "x \<in> set (outbox (s\<lparr>outbox := fold (\<lambda>r. update_where (\<lambda>x. ob_id x = ob_id r) f) picked (outbox s)\<rparr>))"
    and c: "ob_id x = command"
  have "(ob_id x \<in> ob_id ` set picked \<and> ob_state x = CClaimed) \<or> (ob_id x \<notin> ob_id ` set picked \<and> x \<in> set (outbox s))"
    using fold_update_hits [of ob_id f "\<lambda>x. ob_state x = CClaimed" x picked "outbox s"] assms(1,2) x by simp
  with assms(3) c show "ob_state x \<noteq> CPending" by (auto simp: command_taken_def)
qed

lemma taken_not_picked:
  "command_taken command s \<Longrightarrow> command \<notin> ob_id ` set (take limit (order_by ob_created (filter (claimable tn) (outbox s))))"
  using set_claimable_rows [of limit tn s] by (auto simp: command_taken_def)

lemma fst_claimed [simp]: "fst ` set (map claimed_command rows) = ob_id ` set rows"
  by (force simp: claimed_command_def)

interpretation outbox_race: one_winner "claim_command command" "command_taken command" for command
proof unfold_locales
  fix c s s' assume "claim_command command c s = (True, s')"
  then show "command_taken command s'"
    by (auto simp: claim_command_def claimOutbox_def Let_def simp del: set_map intro!: claim_fold_taken)
next
  fix c s assume t: "command_taken command s"
  show "\<not> fst (claim_command command c s)"
    using taken_not_picked [OF t] by (simp add: claim_command_def claimOutbox_def Let_def del: set_map)
  show "command_taken command (snd (claim_command command c s))"
    using t by (simp add: claim_command_def claimOutbox_def Let_def claim_fold_taken)
qed

interpretation do_outbox_race: one_winner "do_claim_command command" "command_taken command" for command
proof unfold_locales
  fix c s s' assume "do_claim_command command c s = (True, s')"
  then show "command_taken command s'"
    by (auto simp: do_claim_command_def do_claimOutbox_def Let_def simp del: set_map intro!: claim_fold_taken)
next
  fix c s assume t: "command_taken command s"
  show "\<not> fst (do_claim_command command c s)"
    using taken_not_picked [OF t] by (simp add: do_claim_command_def do_claimOutbox_def Let_def del: set_map)
  show "command_taken command (snd (do_claim_command command c s))"
    using t by (simp add: do_claim_command_def do_claimOutbox_def Let_def claim_fold_taken)
qed

text \<open>
  A command is handed out once. However many dispatchers claim from the outbox, each with its own limit and tenant,
  and whatever runs between them short of a repair that puts the command back to pending, at most one of them is given the
  command; on both stores.
\<close>

theorem one_dispatcher_per_command:
  assumes "\<And>c e s. (c, e) \<in> set dispatchers \<Longrightarrow> command_taken command s \<Longrightarrow> command_taken command (e s)"
    and "\<And>c e s. (c, e) \<in> set do_dispatchers \<Longrightarrow> command_taken command s \<Longrightarrow> command_taken command (e s)"
  shows "count_list (claim_outcomes (claim_command command) dispatchers s) True \<le> 1
    \<and> count_list (claim_outcomes (do_claim_command command) do_dispatchers s) True \<le> 1"
proof
  show "count_list (claim_outcomes (claim_command command) dispatchers s) True \<le> 1"
    using assms(1) by (rule outbox_race.at_most_one_winner)
  show "count_list (claim_outcomes (do_claim_command command) do_dispatchers s) True \<le> 1"
    using assms(2) by (rule do_outbox_race.at_most_one_winner)
qed

definition outbox_example :: store where
  "outbox_example = init_store\<lparr>outbox :=
     [\<lparr>ob_id = ''c2'', ob_tenant = ''t'', ob_task = ''k'', ob_generation = 0, ob_kind = ''js.execute'', ob_payload = JNull,
        ob_state = CPending, ob_created = 2, ob_dispatched = None\<rparr>,
      \<lparr>ob_id = ''c1'', ob_tenant = ''t'', ob_task = ''k'', ob_generation = 0, ob_kind = ''model.request'', ob_payload = JNull,
        ob_state = CPending, ob_created = 1, ob_dispatched = None\<rparr>]\<rparr>"

theorem one_dispatcher_per_command_witness:
  "claim_outcomes (claim_command ''c1'') [((2, Some ''t''), id), ((5, None), markDispatched 9 ''c1'')] outbox_example = [True, False]
   \<and> count_list (claim_outcomes (do_claim_command ''c1'') [((0, 5, None), id), ((1, 5, None), id)] outbox_example) True \<le> 1"
proof -
  let ?a = "[((2, Some ''t''), id), ((5, None), markDispatched 9 ''c1'')]" and ?b = "[((0, 5, None), id), ((1, 5, None), id)]"
  have "command_taken ''c1'' (e s)" if "(c, e) \<in> set ?a" "command_taken ''c1'' s" for c e s
    using that by (auto simp: command_taken_def markDispatched_def set_update_where split: if_splits)
  moreover have "command_taken ''c1'' (e s)" if "(c, e) \<in> set ?b" "command_taken ''c1'' s" for c e s
    using that by auto
  ultimately have ab: "count_list (claim_outcomes (claim_command ''c1'') ?a outbox_example) True \<le> 1
      \<and> count_list (claim_outcomes (do_claim_command ''c1'') ?b outbox_example) True \<le> 1"
    by (rule one_dispatcher_per_command)
  have "fst (claim_command ''c1'' (2, Some ''t'') outbox_example)"
    by (simp add: claim_command_def claimOutbox_def outbox_example_def claimable_def truthy_def order_by_def claimed_command_def)
  then obtain s1 where s1: "claim_command ''c1'' (2, Some ''t'') outbox_example = (True, s1)"
    by (cases "claim_command ''c1'' (2, Some ''t'') outbox_example") simp
  obtain won s2 where s2: "claim_command ''c1'' (5, None) (markDispatched 9 ''c1'' s1) = (won, s2)" by fastforce
  have "claim_outcomes (claim_command ''c1'') ?a outbox_example = [True, won]" by (simp add: s1 s2)
  with ab show ?thesis by (cases won) simp_all
qed

section \<open>What a claim takes\<close>

lemma take_of_sorted:
  assumes "sorted (map k rows)" and "x \<in> set (take n rows)" and "y \<in> set rows" and "y \<notin> set (take n rows)"
  shows "k x \<le> k y"
proof -
  have "y \<in> set (drop n rows)" using assms(3,4) by (metis Un_iff append_take_drop_id set_append)
  moreover have "sorted (map k (take n rows @ drop n rows))" using assms(1) by simp
  ultimately show ?thesis using assms(2) by (auto simp: sorted_append simp del: append_take_drop_id)
qed

text \<open>
  A claim is fair and bounded. It takes at most the limit, only pending commands and only of the tenant that was
  named, oldest first: no pending command it could have taken and left is older than one it took. Each command it returns
  is claimed in the table afterwards, and no other row changes; the Durable Object does the same and stamps the rows.
\<close>

theorem claim_takes_the_oldest:
  assumes "distinct (map ob_id (outbox s))" and "claimOutbox limit tn s = (cs, s')"
  shows "\<exists>rows. cs = map claimed_command rows \<and> length rows = min limit (length (filter (claimable tn) (outbox s)))
    \<and> sorted (map ob_created rows)
    \<and> (\<forall>r\<in>set rows. r \<in> set (outbox s) \<and> claimable tn r)
    \<and> (\<forall>r\<in>set rows. \<forall>x\<in>set (outbox s). claimable tn x \<and> x \<notin> set rows \<longrightarrow> ob_created r \<le> ob_created x)
    \<and> outbox s' = map (\<lambda>x. if x \<in> set rows then x\<lparr>ob_state := CClaimed\<rparr> else x) (outbox s)
    \<and> do_claimOutbox now limit tn s = (cs, s\<lparr>outbox :=
         map (\<lambda>x. if x \<in> set rows then x\<lparr>ob_state := CClaimed, ob_dispatched := Some now\<rparr> else x) (outbox s)\<rparr>)"
proof (intro exI conjI)
  let ?all = "order_by ob_created (filter (claimable tn) (outbox s))"
  let ?rows = "take limit ?all"
  have d: "distinct ?rows" using distinct_take_order_by [OF assms(1), of limit ob_created "claimable tn"] by (simp add: distinct_map)
  have sub: "set ?rows \<subseteq> set (outbox s)" by (auto dest: in_set_takeD)
  have upd: "fold (\<lambda>r. update_where (\<lambda>x. ob_id x = ob_id r) f) ?rows (outbox s)
      = map (\<lambda>x. if x \<in> set ?rows then f x else x) (outbox s)" if "\<And>r. ob_id (f r) = ob_id r" for f
    using that assms(1) d sub by (rule fold_update_rows)
  show "cs = map claimed_command ?rows" using assms(2) by (simp add: claimOutbox_def Let_def)
  show "length ?rows = min limit (length (filter (claimable tn) (outbox s)))" by simp
  show "sorted (map ob_created ?rows)" by (simp add: take_map [symmetric] sorted_wrt_take)
  show "\<forall>r\<in>set ?rows. r \<in> set (outbox s) \<and> claimable tn r" by (auto dest: in_set_takeD)
  show "\<forall>r\<in>set ?rows. \<forall>x\<in>set (outbox s). claimable tn x \<and> x \<notin> set ?rows \<longrightarrow> ob_created r \<le> ob_created x"
    by (intro ballI impI take_of_sorted [OF sorted_order_by [of ob_created "filter (claimable tn) (outbox s)"], of _ limit]) auto
  show "outbox s' = map (\<lambda>x. if x \<in> set ?rows then x\<lparr>ob_state := CClaimed\<rparr> else x) (outbox s)"
    using assms(2) by (auto simp: claimOutbox_def Let_def upd)
  show "do_claimOutbox now limit tn s = (cs, s\<lparr>outbox :=
         map (\<lambda>x. if x \<in> set ?rows then x\<lparr>ob_state := CClaimed, ob_dispatched := Some now\<rparr> else x) (outbox s)\<rparr>)"
    using assms(2) by (auto simp: claimOutbox_def do_claimOutbox_def Let_def upd)
qed

theorem claim_takes_the_oldest_witness:
  "distinct (map ob_id (outbox outbox_example))
   \<and> map fst (fst (claimOutbox 2 None outbox_example)) = [''c1'', ''c2'']
   \<and> fst (do_claimOutbox 9 2 None outbox_example) = fst (claimOutbox 2 None outbox_example)"
proof -
  have d: "distinct (map ob_id (outbox outbox_example))" by (simp add: outbox_example_def)
  obtain cs s' where c: "claimOutbox 2 None outbox_example = (cs, s')" by fastforce
  from c have cs: "map fst cs = [''c1'', ''c2'']"
    by (auto simp: claimOutbox_def Let_def outbox_example_def claimable_def truthy_def order_by_def claimed_command_def)
  from claim_takes_the_oldest [OF d c, of 9] have "fst (do_claimOutbox 9 2 None outbox_example) = cs"
    by (elim exE conjE) simp
  with d c cs show ?thesis by simp
qed

section \<open>Repairs\<close>

lemma filter_rows_update:
  assumes "\<And>r. ob_id (f r) = ob_id r" and "distinct (map ob_id (outbox s))"
  shows "fold (\<lambda>r. update_where (\<lambda>x. ob_id x = ob_id r) f) (filter p (outbox s)) (outbox s)
    = map (\<lambda>x. if p x then f x else x) (outbox s)"
proof -
  have "fold (\<lambda>r. update_where (\<lambda>x. ob_id x = ob_id r) f) (filter p (outbox s)) (outbox s)
      = map (\<lambda>x. if x \<in> set (filter p (outbox s)) then f x else x) (outbox s)"
    using assms by (intro fold_update_rows) (auto simp: distinct_map)
  also have "\<dots> = map (\<lambda>x. if p x then f x else x) (outbox s)" by (intro map_cong) auto
  finally show ?thesis .
qed

text \<open>
  A claim whose dispatch never happened comes back. After a claim on the Durable Object, a sweep whose age has passed
  puts every command of that claim that is still claimed back to pending, so that the next claim can take it; a command
  claimed since then, dispatched or done is left exactly as it is.
\<close>

theorem lost_claim_comes_back:
  assumes "distinct (map ob_id (outbox s))" and "do_claimOutbox now limit tn s = (cs, s1)"
    and "reclaimStuckClaims later older s1 = (n, s2)" and "now < later - older"
  shows "(\<forall>c\<in>fst ` set cs. \<exists>r\<in>set (outbox s2). ob_id r = c \<and> claimable (Some (ob_tenant r)) r)
    \<and> outbox s2 = map (\<lambda>r. if ob_state r = CClaimed \<and> dispatched_before (later - older) r then r\<lparr>ob_state := CPending\<rparr> else r) (outbox s1)"
proof
  let ?rows = "take limit (order_by ob_created (filter (claimable tn) (outbox s)))"
  let ?stamp = "\<lambda>x. x\<lparr>ob_state := CClaimed, ob_dispatched := Some now\<rparr>"
  let ?stuck = "\<lambda>r. ob_state r = CClaimed \<and> dispatched_before (later - older) r"
  have d: "distinct ?rows" using distinct_take_order_by [OF assms(1), of limit ob_created "claimable tn"] by (simp add: distinct_map)
  have sub: "set ?rows \<subseteq> set (outbox s)" by (auto dest: in_set_takeD)
  have cs: "cs = map claimed_command ?rows"
    and s1: "outbox s1 = map (\<lambda>x. if x \<in> set ?rows then ?stamp x else x) (outbox s)"
    using assms(2) fold_update_rows [where g = ob_id and f = ?stamp, OF _ assms(1) d sub]
    by (auto simp: do_claimOutbox_def Let_def)
  have d1: "distinct (map ob_id (outbox s1))"
    using assms(1) by (simp add: s1 comp_def if_distrib [of ob_id] cong: if_cong)
  show s2: "outbox s2 = map (\<lambda>r. if ?stuck r then r\<lparr>ob_state := CPending\<rparr> else r) (outbox s1)"
    using assms(3) filter_rows_update [where f = "\<lambda>x. x\<lparr>ob_state := CPending\<rparr>", OF _ d1]
    by (auto simp: reclaimStuckClaims_def Let_def)
  show "\<forall>c\<in>fst ` set cs. \<exists>r\<in>set (outbox s2). ob_id r = c \<and> claimable (Some (ob_tenant r)) r"
  proof
    fix c assume "c \<in> fst ` set cs"
    then obtain x where x: "x \<in> set ?rows" "ob_id x = c" unfolding cs fst_claimed by auto
    then have "?stamp x \<in> set (outbox s1)" using sub by (force simp: s1)
    moreover have st: "?stuck (?stamp x)" using assms(4) by (simp add: dispatched_before_def)
    ultimately have "(if ?stuck (?stamp x) then (?stamp x)\<lparr>ob_state := CPending\<rparr> else ?stamp x) \<in> set (outbox s2)"
      unfolding s2 set_map by (intro imageI)
    then have "(?stamp x)\<lparr>ob_state := CPending\<rparr> \<in> set (outbox s2)" unfolding if_P [OF st] .
    then show "\<exists>r\<in>set (outbox s2). ob_id r = c \<and> claimable (Some (ob_tenant r)) r"
      by (rule bexI [rotated]) (simp add: x(2) claimable_def)
  qed
qed

theorem lost_claim_comes_back_witness:
  "\<exists>cs s1 n s2. do_claimOutbox 10 1 None outbox_example = (cs, s1) \<and> reclaimStuckClaims 100 60 s1 = (n, s2)
     \<and> (\<forall>c\<in>fst ` set cs. \<exists>r\<in>set (outbox s2). ob_id r = c \<and> claimable (Some (ob_tenant r)) r)"
proof -
  have d: "distinct (map ob_id (outbox outbox_example))" by (simp add: outbox_example_def)
  obtain cs s1 where c: "do_claimOutbox 10 1 None outbox_example = (cs, s1)" by fastforce
  obtain n s2 where r: "reclaimStuckClaims 100 60 s1 = (n, s2)" by fastforce
  have "10 < (100 :: int) - 60" by simp
  from lost_claim_comes_back [OF d c r this]
  have "\<forall>c\<in>fst ` set cs. \<exists>r\<in>set (outbox s2). ob_id r = c \<and> claimable (Some (ob_tenant r)) r" by (rule conjunct1)
  with c r show ?thesis by blast
qed

text \<open>
  Settling retires exactly what is over. Afterwards no open command has its reply in the log, a second pass finds
  nothing, and the count of commands still out, by any kinds that leave \<open>message.out\<close> aside, is what it was.
\<close>

theorem settling_retires_exactly_the_answered:
  assumes "distinct (map ob_id (outbox s))" and "settleAnswered s = (n, s')"
  shows "(\<forall>r\<in>set (outbox s'). open_state r \<longrightarrow> \<not> answered s' r)
    \<and> fst (settleAnswered s') = 0
    \<and> n = length (filter open_state (outbox s)) - length (filter open_state (outbox s'))
    \<and> (\<forall>kinds. kinds \<noteq> [] \<and> ''message.out'' \<notin> set kinds \<longrightarrow>
        outstandingCommands (Some kinds) s' = outstandingCommands (Some kinds) s)"
proof -
  let ?done = "\<lambda>x. x\<lparr>ob_state := CDone\<rparr>"
  from assms(2) have n: "n = length (filter (settled s) (outbox s))"
    and o: "outbox s' = map (\<lambda>x. if settled s x then ?done x else x) (outbox s)"
    and fr: "events s' = events s" "tasks s' = tasks s"
    using filter_rows_update [where f = ?done, OF _ assms(1)] by (auto simp: settleAnswered_def Let_def)
  have same: "answered s' = answered s" "live_task s' = live_task s" "settled s' = settled s"
    by (simp_all add: answered_def live_task_def settled_def fr fun_eq_iff)
  have dn: "\<not> open_state (?done x)" for x by (simp add: open_state_def)
  have a: "\<forall>r\<in>set (outbox s'). open_state r \<longrightarrow> \<not> settled s r"
    using dn by (auto simp: o split: if_splits)
  then have z: "filter (settled s) (outbox s') = []" by (auto simp: filter_empty_conv settled_def)
  have so: "settled s x \<Longrightarrow> open_state x" for x by (simp add: settled_def)
  have "length (filter open_state (map (\<lambda>x. if settled s x then ?done x else x) rows)) + length (filter (settled s) rows)
      = length (filter open_state rows)" for rows
    using dn so by (induction rows) auto
  then have cnt: "n = length (filter open_state (outbox s)) - length (filter open_state (outbox s'))"
    unfolding n o by (metis add_diff_cancel_left')
  have k: "outstandingCommands (Some kinds) s' = outstandingCommands (Some kinds) s"
    if "kinds \<noteq> []" "''message.out'' \<notin> set kinds" for kinds
  proof -
    have "length (filter (\<lambda>r. open_state r \<and> ob_kind r \<in> set kinds \<and> live_task s r \<and> \<not> answered s r)
        (map (\<lambda>x. if settled s x then ?done x else x) rows))
      = length (filter (\<lambda>r. open_state r \<and> ob_kind r \<in> set kinds \<and> live_task s r \<and> \<not> answered s r) rows)" for rows
      using that(2) dn by (induction rows) (auto simp: settled_def)
    then show ?thesis using that(1) by (simp add: outstandingCommands_def same o)
  qed
  show ?thesis using a z cnt k by (auto simp: same settled_def settleAnswered_def Let_def)
qed

definition settle_example :: store where
  "settle_example = outbox_example\<lparr>events :=
     [\<lparr>ev_id = 0, ev_tenant = ''t'', ev_agent = ''a'', ev_task = Some ''k'', ev_thread = None, ev_seq = 1, ev_kind = ''r'',
       ev_payload = JNull, ev_dedup = Some (response_key ''c1''), ev_created = 0\<rparr>]\<rparr>"

theorem settling_retires_exactly_the_answered_witness:
  "distinct (map ob_id (outbox settle_example)) \<and> fst (settleAnswered settle_example) = 1
   \<and> fst (settleAnswered (snd (settleAnswered settle_example))) = 0"
proof -
  have d: "distinct (map ob_id (outbox settle_example))" by (simp add: settle_example_def outbox_example_def)
  obtain n s' where r: "settleAnswered settle_example = (n, s')" by fastforce
  from r have "n = 1"
    by (auto simp: settleAnswered_def Let_def settle_example_def outbox_example_def settled_def open_state_def answered_def
        has_row_iff response_key_def result_key_def)
  with settling_retires_exactly_the_answered [OF d r] d r show ?thesis by simp
qed

section \<open>A request is answered once\<close>

text \<open>The client that wins is the one told \<open>null\<close>.\<close>

definition win_request :: "string \<Rightarrow> string \<Rightarrow> int \<times> string \<Rightarrow> store \<Rightarrow> bool \<times> store" where
  "win_request tn rq c s = (case claimRequest (fst c) tn rq (snd c) s of (prior, s') \<Rightarrow> (prior = None, s'))"

definition request_known :: "string \<Rightarrow> string \<Rightarrow> store \<Rightarrow> bool" where
  "request_known tn rq s \<longleftrightarrow> has_row (is_request tn rq) (requests s)"

interpretation request_race: one_winner "win_request tn rq" "request_known tn rq" for tn rq
proof unfold_locales
  fix c s s' assume "win_request tn rq c s = (True, s')"
  then show "request_known tn rq s'"
    by (auto simp: win_request_def claimRequest_def request_known_def has_row_iff is_request_def split: option.splits)
next
  fix c s assume "request_known tn rq s"
  then obtain r where "get_row (is_request tn rq) (requests s) = Some r"
    by (auto simp: request_known_def has_row_get_row)
  then show "\<not> fst (win_request tn rq c s)" "request_known tn rq (snd (win_request tn rq c s))"
    by (simp_all add: win_request_def claimRequest_def request_known_def has_row_get_row)
qed

lemma request_known_finish [simp]: "request_known tn rq (finishRequest tn' rq' v s) = request_known tn rq s"
  unfolding request_known_def finishRequest_def by (simp, intro has_row_update_where) (simp add: is_request_def)

text \<open>
  A request is acted on once. Of any number of callers that claim the same request id, with whatever else running between
  them (nothing deletes a request), at most one is told it won; and when the id was unknown to begin with, the first one is.
\<close>

theorem one_caller_wins_a_request:
  assumes "\<And>c e s. (c, e) \<in> set callers \<Longrightarrow> request_known tn rq s \<Longrightarrow> request_known tn rq (e s)"
    and "callers = (first, id) # rest" and "\<not> request_known tn rq s"
  shows "count_list (claim_outcomes (win_request tn rq) callers s) True = 1 \<and> hd (claim_outcomes (win_request tn rq) callers s)"
proof -
  have "get_row (is_request tn rq) (requests s) = None" using assms(3) by (simp add: request_known_def has_row_get_row)
  then have w: "fst (win_request tn rq first s)" by (simp add: win_request_def claimRequest_def)
  obtain s1 where s1: "win_request tn rq first s = (True, s1)" using w by (cases "win_request tn rq first s") auto
  have "True \<notin> set (claim_outcomes (win_request tn rq) rest s1)"
    using request_race.claim_wins [OF s1] assms(1,2) by (intro request_race.no_winner_once_taken) auto
  then show ?thesis using s1 by (simp add: assms(2) count_notin)
qed

theorem one_caller_wins_a_request_witness:
  "count_list (claim_outcomes (win_request ''t'' ''r1'')
      [((1, ''turn''), id), ((2, ''turn''), id), ((3, ''turn''), finishRequest ''t'' ''r1'' (JNum 5))] init_store) True = 1"
proof -
  let ?cs = "[((1, ''turn''), id), ((2, ''turn''), id), ((3, ''turn''), finishRequest ''t'' ''r1'' (JNum 5))]"
  have "request_known ''t'' ''r1'' (e s)" if "(c, e) \<in> set ?cs" "request_known ''t'' ''r1'' s" for c e s
    using that by auto
  moreover have "\<not> request_known ''t'' ''r1'' init_store" by (simp add: request_known_def init_store_def has_row_iff)
  ultimately have "count_list (claim_outcomes (win_request ''t'' ''r1'') ?cs init_store) True = 1
      \<and> hd (claim_outcomes (win_request ''t'' ''r1'') ?cs init_store)"
    by (intro one_caller_wins_a_request [where first = "(1, ''turn'')" and rest = "tl ?cs"]) simp_all
  then show ?thesis by (rule conjunct1)
qed

text \<open>
  The answer is replayed. Once a claimed request is finished, every later claim of the same id, by anyone and of any
  kind, is given exactly the answer that was stored and changes nothing; before that it is told the request is pending.
\<close>

theorem finished_request_replays_its_answer:
  assumes "claimRequest now tn rq kind s = (None, s1)"
  shows "claimRequest now' tn rq kind' s1 = (Some (RPending, JNull), s1)
    \<and> claimRequest now' tn rq kind' (finishRequest tn rq response s1) = (Some (RDone, j (Some response)), finishRequest tn rq response s1)"
proof -
  from assms have "get_row (is_request tn rq) (requests s) = None"
    and s1: "requests s1 = requests s @ [\<lparr>rq_tenant = tn, rq_id = rq, rq_kind = kind, rq_state = RPending, rq_response = None, rq_created = now\<rparr>]"
    by (auto simp: claimRequest_def split: option.splits)
  then have g: "get_row (is_request tn rq) (requests s1)
      = Some \<lparr>rq_tenant = tn, rq_id = rq, rq_kind = kind, rq_state = RPending, rq_response = None, rq_created = now\<rparr>"
    by (simp add: get_row_append is_request_def)
  have "get_row (is_request tn rq) (update_where (is_request tn rq) f (requests s1)) = map_option f (get_row (is_request tn rq) (requests s1))"
    if "\<And>r. is_request tn rq r \<Longrightarrow> is_request tn rq (f r)" for f
    using that by (rule get_row_update_same)
  from this [of "\<lambda>r. r\<lparr>rq_state := RDone, rq_response := Some (j (Some response))\<rparr>"] g show ?thesis
    by (simp add: claimRequest_def finishRequest_def is_request_def)
qed

theorem finished_request_replays_its_answer_witness:
  "\<exists>s1. claimRequest 1 ''t'' ''r1'' ''turn'' init_store = (None, s1)
     \<and> claimRequest 7 ''t'' ''r1'' ''turn'' (finishRequest ''t'' ''r1'' (JNum 5) s1)
       = (Some (RDone, JNum 5), finishRequest ''t'' ''r1'' (JNum 5) s1)"
proof -
  obtain s1 where c: "claimRequest 1 ''t'' ''r1'' ''turn'' init_store = (None, s1)"
    by (simp add: claimRequest_def init_store_def)
  from finished_request_replays_its_answer [OF c] c show ?thesis by (simp add: j_def)
qed

section \<open>Follow-ups\<close>

definition follow_payload :: "follow_up_row \<Rightarrow> json" where
  "follow_payload r = JObj [(''text'', JStr (fu_text r)), (''followUp'', JBool True)]"

definition waiting_follow_ups :: "string \<Rightarrow> string \<Rightarrow> string \<Rightarrow> store \<Rightarrow> follow_up_row list" where
  "waiting_follow_ups tn ag tk s = order_by fu_created (filter (of_follow tn ag tk) (follow_ups s))"

text \<open>The task may be written to by the agent the follow-ups are for.\<close>

definition owned_by :: "string \<Rightarrow> string \<Rightarrow> string \<Rightarrow> store \<Rightarrow> bool" where
  "owned_by tn ag tk s \<longleftrightarrow> (\<forall>t. get_task tn tk s = Some t \<longrightarrow> tk_agent t = ag)"

lemma follow_event_appends:
  assumes "log_inv s" and "owned_by tn ag tk s"
  obtains r s' where "appendEvent now (follow_event tn ag tk text) s = Inr (r, s')" and "log_inv s'"
    and "owned_by tn ag tk s'" and "follow_ups s' = follow_ups s"
    and "\<exists>x. events s' = events s @ [x] \<and> of_task tn tk x \<and> ev_payload x = JObj [(''text'', JStr text), (''followUp'', JBool True)]"
proof -
  let ?e = "follow_event tn ag tk text"
  have "tk_agent t = ne_agent ?e" if "owner_row ?e s = Some t" for t
    using that assms(2) by (auto simp: owned_by_def owner_row_def follow_event_def get_task_def is_task_def [abs_def] split: if_splits)
  then obtain r s' where i: "insertEvent now ?e s = Inr (r, s')"
    using insertEvent_total [OF assms(1), of ?e now] by (auto simp: follow_event_def)
  have "inserted r" using i by (auto elim!: insertEvent_cases insert_freshE simp: dedup_row_def follow_event_def truthy_def)
  then have "events s' = events s @ [new_event_row now ?e (sequence r) (event_id r)]" using insertEvent_appends [OF i] by simp
  moreover have "of_task tn tk (new_event_row now ?e (sequence r) (event_id r))"
    "ev_payload (new_event_row now ?e (sequence r) (event_id r)) = JObj [(''text'', JStr text), (''followUp'', JBool True)]"
    by (simp_all add: new_event_row_def follow_event_def of_task_def)
  moreover have "owned_by tn ag tk s'" using assms(2) insertEvent_frame(1) [OF i] by (simp add: owned_by_def get_task_def)
  ultimately show ?thesis
    using that i log_inv_insertEvent [OF assms(1) i] insertEvent_frame(14) [OF i] by (simp add: appendEvent_def)
qed

text \<open>Whatever else runs between the appends, as long as it leaves the log and the task's owner alone.\<close>

lemma append_follow_ups_delivers:
  assumes "log_inv s" and "owned_by tn ag tk s"
    and "\<And>k s. log_inv s \<Longrightarrow> log_inv (env k s)" and "\<And>k s. owned_by tn ag tk s \<Longrightarrow> owned_by tn ag tk (env k s)"
    and "\<And>k s. events (env k s) = events s"
  shows "\<exists>s' new. append_follow_ups env now tn ag tk rows s = (None, s') \<and> events s' = events s @ new
    \<and> map ev_payload new = map follow_payload rows \<and> (\<forall>x\<in>set new. of_task tn tk x)"
  using assms(1,2)
proof (induction rows arbitrary: s)
  case Nil
  then show ?case by simp
next
  case (Cons r rows)
  obtain res s1 x where a: "appendEvent now (follow_event tn ag tk (fu_text r)) s = Inr (res, s1)" "log_inv s1" "owned_by tn ag tk s1"
    and x: "events s1 = events s @ [x]" "of_task tn tk x" "ev_payload x = follow_payload r"
    using follow_event_appends [OF Cons.prems] unfolding follow_payload_def by metis
  from Cons.IH [OF assms(3) [OF a(2)] assms(4) [OF a(3)], of "length rows"] obtain s' new where
    "append_follow_ups env now tn ag tk rows (env (length rows) s1) = (None, s')"
    "events s' = events s1 @ new" "map ev_payload new = map follow_payload rows" "\<forall>x\<in>set new. of_task tn tk x"
    by (auto simp: assms(5))
  with a(1) x show ?case by (intro exI [of _ s'] exI [of _ "x # new"]) simp
qed

lemma flush_among_result:
  assumes "log_inv s" and "owned_by tn ag tk s"
    and "\<And>k s. log_inv s \<Longrightarrow> log_inv (env k s)" and "\<And>k s. owned_by tn ag tk s \<Longrightarrow> owned_by tn ag tk (env k s)"
    and "\<And>k s. events (env k s) = events s"
    and "flush_among env now tn ag tk s = (res, s')"
  shows "res = Inr (length (waiting_follow_ups tn ag tk s)) \<and> waiting_follow_ups tn ag tk s' = []
    \<and> (\<exists>new. events s' = events s @ new \<and> map ev_payload new = map follow_payload (waiting_follow_ups tn ag tk s)
        \<and> (\<forall>x\<in>set new. of_task tn tk x))"
proof -
  let ?rows = "waiting_follow_ups tn ag tk s"
  obtain s1 new where a: "append_follow_ups env now tn ag tk ?rows s = (None, s1)" "events s1 = events s @ new"
    "map ev_payload new = map follow_payload ?rows" "\<forall>x\<in>set new. of_task tn tk x"
    using append_follow_ups_delivers [OF assms(1-5)] by meson
  then have r: "res = Inr (length ?rows)"
    and s': "s' = (if ?rows \<noteq> [] then s1\<lparr>follow_ups := delete_where (of_follow tn ag tk) (follow_ups s1)\<rparr> else s1)"
    using assms(6) by (simp_all add: flush_among_def Let_def waiting_follow_ups_def)
  have "waiting_follow_ups tn ag tk s' = []"
  proof (cases "?rows = []")
    case True
    with a(1) have "s1 = s" by simp
    with True s' show ?thesis by simp
  next
    case False
    with s' show ?thesis by (auto simp: waiting_follow_ups_def delete_where_def filter_empty_conv)
  qed
  with r a s' show ?thesis by auto
qed

text \<open>
  Follow-ups are delivered in order, once. Undisturbed, a flush appends every waiting follow-up of the task to its log,
  oldest first and each text exactly once, answers how many there were, leaves none waiting, and an immediate second flush delivers nothing.
\<close>

theorem flush_delivers_in_order_once:
  assumes "log_inv s" and "owned_by tn ag tk s" and "flushFollowUps now tn ag tk s = (res, s')"
  shows "res = Inr (length (waiting_follow_ups tn ag tk s)) \<and> waiting_follow_ups tn ag tk s' = []
    \<and> (\<exists>new. events s' = events s @ new \<and> map ev_payload new = map follow_payload (waiting_follow_ups tn ag tk s)
        \<and> (\<forall>x\<in>set new. of_task tn tk x))
    \<and> flushFollowUps now' tn ag tk s' = (Inr 0, s')"
proof -
  have f: "res = Inr (length (waiting_follow_ups tn ag tk s)) \<and> waiting_follow_ups tn ag tk s' = []
    \<and> (\<exists>new. events s' = events s @ new \<and> map ev_payload new = map follow_payload (waiting_follow_ups tn ag tk s)
        \<and> (\<forall>x\<in>set new. of_task tn tk x))"
    using assms(3) unfolding flushFollowUps_def by (intro flush_among_result [OF assms(1,2)]) simp_all
  then have "filter (of_follow tn ag tk) (follow_ups s') = []" by (simp add: waiting_follow_ups_def)
  then have "flushFollowUps now' tn ag tk s' = (Inr 0, s')" by (simp add: flushFollowUps_def flush_among_def Let_def order_by_def)
  with f show ?thesis by blast
qed

definition follow_example :: store where
  "follow_example = queueFollowUp 3 ''t'' ''a'' ''k'' ''first'' log_example"

lemma follow_example_ok:
  "log_inv follow_example" "owned_by ''t'' ''a'' ''k'' follow_example"
  "waiting_follow_ups ''t'' ''a'' ''k'' follow_example
    = [\<lparr>fu_tenant = ''t'', fu_agent = ''a'', fu_task = ''k'', fu_text = ''first'', fu_created = 3\<rparr>]"
proof -
  show "log_inv follow_example"
    using log_example_inv by (rule log_inv_cong [rotated -1]) (simp_all add: follow_example_def queueFollowUp_def counter_value_def)
  show "owned_by ''t'' ''a'' ''k'' follow_example"
    using log_example_task by (simp add: owned_by_def follow_example_def queueFollowUp_def get_task_def)
  have "follow_ups log_example = []"
    by (simp add: log_example_def createTask_def insert_row_def init_store_def putSnapshot_def has_row_iff)
  then show "waiting_follow_ups ''t'' ''a'' ''k'' follow_example
    = [\<lparr>fu_tenant = ''t'', fu_agent = ''a'', fu_task = ''k'', fu_text = ''first'', fu_created = 3\<rparr>]"
    by (simp add: waiting_follow_ups_def follow_example_def queueFollowUp_def of_follow_def order_by_def)
qed

theorem flush_delivers_in_order_once_witness:
  "\<exists>s'. flushFollowUps 5 ''t'' ''a'' ''k'' follow_example = (Inr 1, s') \<and> flushFollowUps 6 ''t'' ''a'' ''k'' s' = (Inr 0, s')"
proof -
  obtain res s' where f: "flushFollowUps 5 ''t'' ''a'' ''k'' follow_example = (res, s')" by fastforce
  from flush_delivers_in_order_once [OF follow_example_ok(1,2) f, of 6] f show ?thesis by (simp add: follow_example_ok(3))
qed

text \<open>
  A follow-up can be lost. One that is queued while a flush of its task is under way, after the flush has read the rows
  and before its delete, is deleted with the others: afterwards it is neither waiting nor in the log, and the flush reports
  only the ones it delivered.
\<close>

theorem follow_up_queued_during_flush_is_lost:
  assumes "log_inv s" and "owned_by tn ag tk s" and "waiting_follow_ups tn ag tk s \<noteq> []"
    and "flush_among (\<lambda>k. if k = 0 then queueFollowUp later tn ag tk text else id) now tn ag tk s = (res, s')"
  shows "res = Inr (length (waiting_follow_ups tn ag tk s)) \<and> waiting_follow_ups tn ag tk s' = []
    \<and> (\<exists>new. events s' = events s @ new \<and> map ev_payload new = map follow_payload (waiting_follow_ups tn ag tk s))"
proof -
  have "log_inv (queueFollowUp later tn ag tk text u)" if "log_inv u" for u
    using that by (rule log_inv_cong [rotated -1]) (simp_all add: queueFollowUp_def counter_value_def)
  then have "res = Inr (length (waiting_follow_ups tn ag tk s)) \<and> waiting_follow_ups tn ag tk s' = []
    \<and> (\<exists>new. events s' = events s @ new \<and> map ev_payload new = map follow_payload (waiting_follow_ups tn ag tk s)
        \<and> (\<forall>x\<in>set new. of_task tn tk x))"
    by (intro flush_among_result [OF assms(1,2) _ _ _ assms(4)]) (simp_all add: queueFollowUp_def owned_by_def get_task_def)
  then show ?thesis by blast
qed

theorem follow_up_queued_during_flush_is_lost_witness:
  "\<exists>s'. flush_among (\<lambda>k. if k = 0 then queueFollowUp 6 ''t'' ''a'' ''k'' ''second'' else id) 5 ''t'' ''a'' ''k'' follow_example = (Inr 1, s')
     \<and> waiting_follow_ups ''t'' ''a'' ''k'' s' = []
     \<and> (\<exists>new. events s' = events follow_example @ new \<and> map ev_payload new = [JObj [(''text'', JStr ''first''), (''followUp'', JBool True)]])"
proof -
  obtain res s' where f: "flush_among (\<lambda>k. if k = 0 then queueFollowUp 6 ''t'' ''a'' ''k'' ''second'' else id) 5
      ''t'' ''a'' ''k'' follow_example = (res, s')" by fastforce
  from follow_up_queued_during_flush_is_lost [OF follow_example_ok(1,2) _ f] f show ?thesis
    by (simp add: follow_example_ok(3) follow_payload_def)
qed

end
