(* ===== verification/Js_String.thy ===== *)
theory Js_String
  imports Json
begin

text \<open>
  The string operations of the language the document rules use (\<open>split\<close>, \<open>join\<close>, \<open>includes\<close>, \<open>indexOf\<close>, \<open>startsWith\<close>,
  \<open>endsWith\<close>, \<open>trim\<close>, \<open>replace\<close> of line breaks), on lists of code units, and the lemmas that connect them: splitting
  into lines and joining undo each other, and the occurrences \<open>indexOf\<close> finds from left to right are all there are.
\<close>

abbreviation NL :: char where "NL \<equiv> CHR 0x0A"

abbreviation CR :: char where "CR \<equiv> CHR 0x0D"

definition starts_with :: "string \<Rightarrow> string \<Rightarrow> bool" where
  "starts_with p s \<longleftrightarrow> take (length p) s = p"

definition ends_with :: "string \<Rightarrow> string \<Rightarrow> bool" where
  "ends_with p s \<longleftrightarrow> starts_with (rev p) (rev s)"

definition occurs_at :: "string \<Rightarrow> string \<Rightarrow> nat \<Rightarrow> bool" where
  "occurs_at p s i \<longleftrightarrow> starts_with p (drop i s) \<and> i + length p \<le> length s"

definition contains :: "string \<Rightarrow> string \<Rightarrow> bool" where
  "contains p s \<longleftrightarrow> list_ex (occurs_at p s) [0..<Suc (length s)]"

text \<open>\<open>s.indexOf(p, at)\<close>: \<open>None\<close> for \<open>-1\<close>.\<close>

definition index_of :: "string \<Rightarrow> string \<Rightarrow> nat \<Rightarrow> nat option" where
  "index_of p s at = find (occurs_at p s) [at..<Suc (length s)]"

text \<open>\<open>for (at = indexOf(p); at !== -1; at = indexOf(p, at + 1)) starts.push(at)\<close>\<close>

lemma index_of_SomeD: "index_of p s at = Some i \<Longrightarrow> at \<le> i \<and> i \<le> length s \<and> occurs_at p s i"
  using get_row_SomeD [of "occurs_at p s" "[at..<Suc (length s)]" i] by (auto simp: index_of_def get_row_def)

function all_starts :: "string \<Rightarrow> string \<Rightarrow> nat \<Rightarrow> nat list" where
  "all_starts p s at = (case index_of p s at of None \<Rightarrow> [] | Some i \<Rightarrow> i # all_starts p s (Suc i))"
  by auto
termination
  by (relation "measure (\<lambda>(p, s, at). Suc (length s) - at)") (auto dest: index_of_SomeD)

declare all_starts.simps [simp del]

lemma all_starts_eq: "all_starts p s at = filter (occurs_at p s) [at..<Suc (length s)]"
proof (induction p s at rule: all_starts.induct)
  case (1 p s at)
  show ?case
  proof (cases "index_of p s at")
    case None
    then have "all_starts p s at = []" by (subst all_starts.simps) simp
    moreover from None have "filter (occurs_at p s) [at..<Suc (length s)] = []"
      unfolding index_of_def find_None_iff filter_empty_conv by blast
    ultimately show ?thesis by simp
  next
    case (Some i)
    then have i: "at \<le> i" "i \<le> length s" "occurs_at p s i" using index_of_SomeD by blast+
    have before: "\<not> occurs_at p s k" if "at \<le> k" "k < i" for k
    proof -
      from Some obtain n where n: "n < Suc (length s) - at" "i = at + n" "\<forall>m<n. \<not> occurs_at p s (at + m)"
        by (auto simp: index_of_def find_Some_iff simp del: upt_Suc)
      with that n(3) [rule_format, of "k - at"] show ?thesis by simp
    qed
    have "[at..<Suc (length s)] = [at..<i] @ i # [Suc i..<Suc (length s)]"
      using i by (metis le_imp_less_Suc upt_conv_Cons upt_add_eq_append le_Suc_ex less_imp_le_nat)
    moreover have "filter (occurs_at p s) [at..<i] = []" using before by (auto simp: filter_empty_conv)
    ultimately show ?thesis using Some i(3) 1 [OF Some] by (subst all_starts.simps) (simp del: upt_Suc)
  qed
qed

section \<open>Lines\<close>

fun split_lines :: "string \<Rightarrow> string list" where
  "split_lines [] = [[]]"
| "split_lines (c # cs) =
     (if c = NL then [] # split_lines cs
      else (case split_lines cs of [] \<Rightarrow> [[c]] | l # ls \<Rightarrow> (c # l) # ls))"

lemma split_lines_not_Nil [simp]: "split_lines s \<noteq> []"
  by (induction s) (auto split: list.split)

lemma join_split [simp]: "join_with [NL] (split_lines s) = s"
proof (induction s)
  case (Cons c cs)
  obtain l ls where "split_lines cs = l # ls" using split_lines_not_Nil by (meson neq_Nil_conv)
  with Cons show ?case by (cases ls) auto
qed simp

lemma split_lines_append: "split_lines (a @ NL # b) = split_lines a @ split_lines b"
proof (induction a)
  case (Cons c cs)
  obtain l ls where "split_lines cs = l # ls" using split_lines_not_Nil by (meson neq_Nil_conv)
  with Cons show ?case by auto
qed simp

lemma split_one_line: "NL \<notin> set s \<Longrightarrow> split_lines s = [s]"
  by (induction s) auto

lemma lines_no_break: "l \<in> set (split_lines s) \<Longrightarrow> NL \<notin> set l"
proof (induction s arbitrary: l)
  case (Cons c cs)
  obtain x xs where "split_lines cs = x # xs" using split_lines_not_Nil by (meson neq_Nil_conv)
  with Cons show ?case by (auto split: if_splits)
qed simp

lemma join_Cons: "xs \<noteq> [] \<Longrightarrow> join_with sep (x # xs) = x @ sep @ join_with sep xs"
  by (cases xs) auto

lemma split_join: "ls \<noteq> [] \<Longrightarrow> (\<And>l. l \<in> set ls \<Longrightarrow> NL \<notin> set l) \<Longrightarrow> split_lines (join_with [NL] ls) = ls"
proof (induction ls)
  case (Cons l ls)
  show ?case
  proof (cases "ls = []")
    case True
    with Cons.prems show ?thesis by (simp add: split_one_line)
  next
    case False
    with Cons show ?thesis by (simp add: join_Cons split_lines_append split_one_line)
  qed
qed simp

lemma length_join_drop:
  "i < length ls \<Longrightarrow> length (join_with [NL] (drop i ls)) + sum_list (map (\<lambda>l. length l + 1) (take i ls)) = length (join_with [NL] ls)"
proof (induction ls arbitrary: i)
  case (Cons l ls)
  then show ?case by (cases i; cases ls) auto
qed simp

text \<open>White space, as in \<open>trim\<close>.\<close>

definition is_white :: "char \<Rightarrow> bool" where
  "is_white c \<longleftrightarrow> (of_char c :: nat) \<in> {9, 10, 11, 12, 13, 32, 160}"

text \<open>The ellipsis, one code unit.\<close>

definition ellipsis :: char where "ellipsis = CHR 0x85"

definition blank :: "string \<Rightarrow> bool" where
  "blank line \<longleftrightarrow> list_all is_white line"

text \<open>\<open>l.replace(/\r$/, "")\<close>\<close>

definition drop_cr :: "string \<Rightarrow> string" where
  "drop_cr l = (if l \<noteq> [] \<and> last l = CR then butlast l else l)"

text \<open>\<open>text.replace(/\r?\n/g, "\r\n")\<close> and \<open>text.replace(/\r\n/g, "\n")\<close>.\<close>

fun to_crlf :: "string \<Rightarrow> string" where
  "to_crlf [] = []"
| "to_crlf (c # cs) =
     (if c = NL then CR # NL # to_crlf cs
      else if c = CR \<and> cs \<noteq> [] \<and> hd cs = NL then to_crlf cs
      else c # to_crlf cs)"

fun un_cr :: "string \<Rightarrow> string" where
  "un_cr [] = []"
| "un_cr (c # cs) = (if c = CR \<and> cs \<noteq> [] \<and> hd cs = NL then un_cr cs else c # un_cr cs)"

end
