(* ===== verification/Trace.thy ===== *)
theory Trace
  imports Store_Types Js_String
begin

text \<open>
  What happened, as the trace outbox keeps it: \<open>src/src/trace/outbox.ts\<close> (the append, with its vocabulary and
  its bounds) and \<open>src/src/trace/seams.ts\<close> (how each seam's facts become a row). The lemmas show that an appended row
  is within its bounds whatever the facts, keeps the facts written first, and has a number no other row ever had; that only the
  end of an operation is a verdict; and that a failure's words are bounded. The log line an append also writes is output and is not modelled.
\<close>

section \<open>The outbox\<close>

definition TRACE_KINDS :: "string list" where
  "TRACE_KINDS = [''model.call'', ''tool.call'', ''approval.wait'', ''container.lease'', ''inbound'', ''mount.seeded'', ''harness.open'',
     ''turn.stop'', ''js.run'', ''tool.refused'', ''model.attempt'',
     ''rebuild.decision'', ''rebuild.outcome'', ''rebuild.behaviour'', ''session.needs_reset'', ''turn.timing'', ''turn.end_unrecorded'',
     ''import.hold'', ''model.prewarm'', ''agent.ready'', ''mount.settings'', ''subagent.start'', ''subagent.turn'',
     ''subagent.model_changed'', ''github.refresh'', ''github.refresh_skipped'', ''raft.held'', ''raft.held_answer'',
     ''raft.state_failed'', ''raft.state_save_failed'', ''raft.mcp_call'', ''raft.assistant_wake'', ''raft.assistant_notify'',
     ''raft.assistant_rules'', ''raft.assistant_chat_told'', ''raft.assistant_send_as_owner'', ''raft.turn_ended'',
     ''raft.assistant_check'', ''raft.session_unsealable'', ''appworld.sibling_unset'', ''raftbench.run_done'',
     ''raft.assistant_reminder'', ''raft.assistant_owner'', ''stamp.agent_login'', ''state.dropped'', ''raft.assistant_decision'',
     ''memory.shadow_due'', ''memory.shadow'', ''memory.observe'', ''memory.shadow_redact'', ''memory.shadow_clear'',
     ''raft.assistant_owner_actions'', ''sandbox.box_owner'']"

definition TRACE_FIELD_MAX :: nat where "TRACE_FIELD_MAX = 200"

definition TRACE_ATTRS_MAX :: nat where "TRACE_ATTRS_MAX = 4000"

definition cut :: "string \<Rightarrow> string" where
  "cut s = take TRACE_FIELD_MAX s"

text \<open>Members of an object: \<open>delete body[k]\<close> and \<open>body[k] = v\<close> (in place, or at the end).\<close>

definition del_member :: "string \<Rightarrow> (string \<times> json) list \<Rightarrow> (string \<times> json) list" where
  "del_member k body = filter (\<lambda>m. fst m \<noteq> k) body"

definition set_member :: "string \<Rightarrow> json \<Rightarrow> (string \<times> json) list \<Rightarrow> (string \<times> json) list" where
  "set_member k v body = upsert (\<lambda>m. fst m = k) (k, v) (\<lambda>m. (k, v)) body"

text \<open>The loop of \<open>attrsOf\<close>, over the keys left to drop, last-written first.\<close>

fun attrs_loop :: "(string \<times> json) list \<Rightarrow> string list \<Rightarrow> (string \<times> json) list" where
  "attrs_loop body [] = body"
| "attrs_loop body (k # ks) =
     (if TRACE_ATTRS_MAX < length (stringify (JObj body))
      then attrs_loop (set_member ''truncated'' (JBool True) (del_member k body)) ks
      else body)"

definition attrsOf :: "(string \<times> json) list \<Rightarrow> (string \<times> json) list" where
  "attrsOf attrs = attrs_loop attrs (rev (map fst attrs))"

definition kept_row :: "trace_row \<Rightarrow> trace_row" where
  "kept_row r = r\<lparr>tr_kind := cut (tr_kind r), tr_span := cut (tr_span r), tr_parent := map_option cut (tr_parent r),
     tr_status := cut (tr_status r), tr_attrs := attrsOf (tr_attrs r)\<rparr>"

definition append_trace_row :: "trace_row \<Rightarrow> store \<Rightarrow> store" where
  "append_trace_row r s =
     (if tr_kind r = [] \<or> tr_span r = [] then s
      else if tr_kind r \<notin> set TRACE_KINDS then s
      else s\<lparr>trace := trace s @ [\<lparr>to_seq = Suc (trace_seq s), to_row = kept_row r\<rparr>], trace_seq := Suc (trace_seq s)\<rparr>)"

definition appendTrace :: "trace_row list \<Rightarrow> store \<Rightarrow> store" where
  "appendTrace rows s = fold append_trace_row rows s"

definition recordTrace :: "trace_row list \<Rightarrow> store \<Rightarrow> store" where
  "recordTrace rows s = appendTrace rows s"

definition pruneTrace :: "nat \<Rightarrow> store \<Rightarrow> store" where
  "pruneTrace through s = s\<lparr>trace := delete_where (\<lambda>r. to_seq r \<le> through) (trace s)\<rparr>"

section \<open>The end of an operation\<close>

fun operationEnded :: "operation_status \<Rightarrow> bool" where
  "operationEnded OSucceeded = True"
| "operationEnded OFailed = True"
| "operationEnded OCancelled = True"
| "operationEnded OUnknown = True"
| "operationEnded ORejected = True"
| "operationEnded OPending = False"
| "operationEnded ORunning = False"

fun operationVerdict :: "operation_status \<Rightarrow> trace_verdict" where
  "operationVerdict OSucceeded = VOk"
| "operationVerdict OCancelled = VCancelled"
| "operationVerdict OFailed = VFailed"
| "operationVerdict OUnknown = VFailed"
| "operationVerdict ORejected = VBlocked"
| "operationVerdict OPending = VFailed"
| "operationVerdict ORunning = VFailed"

definition operationEnds :: "operation_status option \<Rightarrow> operation_status \<Rightarrow> bool" where
  "operationEnds prior status \<longleftrightarrow> operationEnded status \<and> (case prior of None \<Rightarrow> False | Some p \<Rightarrow> \<not> operationEnded p)"

section \<open>Why a call failed\<close>

record tool_failure =
  tf_code :: "string option"
  tf_http :: "int option"
  tf_message :: "string option"

definition TOOL_ERROR_MAX :: nat where "TOOL_ERROR_MAX = 200"

definition is_alnum :: "char \<Rightarrow> bool" where
  "is_alnum c \<longleftrightarrow> (let n = (of_char c :: nat) in (48 \<le> n \<and> n \<le> 57) \<or> (65 \<le> n \<and> n \<le> 90) \<or> (97 \<le> n \<and> n \<le> 122))"

text \<open>\<open>ERROR_CODE\<close>: one to 64 of letters, digits, underscore, dot, colon and dash.\<close>

definition is_error_code :: "string \<Rightarrow> bool" where
  "is_error_code s \<longleftrightarrow> 1 \<le> length s \<and> length s \<le> 64 \<and> list_all (\<lambda>c. is_alnum c \<or> c \<in> set ''_.:-'') s"

fun squeeze :: "bool \<Rightarrow> string \<Rightarrow> string" where
  "squeeze within [] = []"
| "squeeze within (c # cs) =
     (if is_white c then (if within then squeeze True cs else CHR '' '' # squeeze True cs) else c # squeeze False cs)"

definition trim :: "string \<Rightarrow> string" where
  "trim s = rev (dropWhile is_white (rev (dropWhile is_white s)))"

text \<open>
  \<open>redact\<close> is \<open>redactCredentialShapes\<close>, six regular-expression replacements over the sentence: a parameter here, nothing is assumed of it.
\<close>

definition failureAttrs :: "(string \<Rightarrow> string) \<Rightarrow> tool_failure \<Rightarrow> (string \<times> json) list" where
  "failureAttrs redact f =
     (let code = (case tf_code f of None \<Rightarrow> None | Some c \<Rightarrow> if is_error_code c then Some c else None);
          http = (case tf_http f of None \<Rightarrow> None | Some h \<Rightarrow> if 100 \<le> h \<and> h \<le> 599 then Some h else None);
          said = (case tf_message f of None \<Rightarrow> [] | Some m \<Rightarrow> redact (trim (squeeze False m)))
      in (if truthy code then [(''errorCode'', JStr (or_else code []))] else [])
       @ (case http of None \<Rightarrow> [] | Some h \<Rightarrow> [(''httpStatus'', JNum h)])
       @ (if said \<noteq> [] then [(''error'', JStr (if TOOL_ERROR_MAX < length said
              then take (TOOL_ERROR_MAX - 1) said @ [ellipsis] else said))] else []))"

section \<open>The rows of the seams\<close>

text \<open>An optional member of an object literal, \<open>...(v ? { k: v } : {})\<close>.\<close>

definition opt_str :: "string \<Rightarrow> string option \<Rightarrow> (string \<times> json) list" where
  "opt_str k v = (if truthy v then [(k, JStr (or_else v []))] else [])"

definition opt_num :: "string \<Rightarrow> int option \<Rightarrow> (string \<times> json) list" where
  "opt_num k v = (case v of None \<Rightarrow> [] | Some n \<Rightarrow> [(k, JNum n)])"

record completed_facts =
  cf_call :: "string option"
  cf_identity :: "json option"
  cf_credential :: "json option"
  cf_exit :: "int option"
  cf_started :: "int option"
  cf_denied :: bool
  cf_failure :: "tool_failure option"

definition toolCallRow :: "(string \<Rightarrow> string) \<Rightarrow> operation_row \<Rightarrow> operation_status \<Rightarrow> int \<Rightarrow> completed_facts option \<Rightarrow> trace_row" where
  "toolCallRow redact op status ended facts =
     (let call = (case facts of None \<Rightarrow> None | Some f \<Rightarrow> cf_call f);
          exit_code = (case facts of None \<Rightarrow> None | Some f \<Rightarrow> cf_exit f);
          started = (case facts of None \<Rightarrow> None | Some f \<Rightarrow> cf_started f);
          denied = (case facts of None \<Rightarrow> False | Some f \<Rightarrow> cf_denied f);
          failure = (case facts of None \<Rightarrow> None | Some f \<Rightarrow> cf_failure f)
      in \<lparr>tr_at = ended, tr_tenant = op_tenant op, tr_agent = op_agent op, tr_kind = ''tool.call'', tr_span = op_id op,
          tr_parent = None, tr_status = operation_status_text status, tr_verdict = operationVerdict status,
          tr_ms = Some (max 0 (ended - op_created op)),
          tr_attrs = [(''tool'', JStr (op_tool op)), (''mount'', JStr (op_mount op))] @ opt_str ''name'' (op_model_name op)
            @ [(''task'', JStr (op_task op))] @ opt_str ''callId'' call @ opt_num ''exitCode'' exit_code
            @ (case started of None \<Rightarrow> [] | Some st \<Rightarrow> [(''runMs'', JNum (max 0 (ended - max st (op_created op))))])
            @ (if denied then [(''denied'', JBool True)] else [])
            @ (if status = OSucceeded then [] else (case failure of None \<Rightarrow> [] | Some f \<Rightarrow> failureAttrs redact f))\<rparr>)"

datatype approval_decision = DApproved | DDenied | DExpired

fun decision_text :: "approval_decision \<Rightarrow> string" where
  "decision_text DApproved = ''approved''"
| "decision_text DDenied = ''denied''"
| "decision_text DExpired = ''expired''"

definition approvalRow :: "string \<Rightarrow> string \<Rightarrow> string \<Rightarrow> string \<Rightarrow> string \<Rightarrow> string \<Rightarrow> approval_decision \<Rightarrow> string \<Rightarrow> int \<Rightarrow> int \<Rightarrow> trace_row" where
  "approvalRow tenant agent task operation mount tool decision approver created decided =
     \<lparr>tr_at = decided, tr_tenant = tenant, tr_agent = agent, tr_kind = ''approval.wait'', tr_span = operation,
      tr_parent = None, tr_status = decision_text decision, tr_verdict = (if decision = DApproved then VOk else VBlocked),
      tr_ms = Some (max 0 (decided - created)),
      tr_attrs = [(''tool'', JStr tool), (''mount'', JStr mount), (''task'', JStr task), (''approver'', JStr approver)]\<rparr>"

text \<open>The stop reasons of the model library.\<close>

datatype stop_reason = SStop | SLength | SToolUse | SError | SAborted | SPending | SDeferred

fun stop_text :: "stop_reason \<Rightarrow> string" where
  "stop_text SStop = ''stop''"
| "stop_text SLength = ''length''"
| "stop_text SToolUse = ''toolUse''"
| "stop_text SError = ''error''"
| "stop_text SAborted = ''aborted''"
| "stop_text SPending = ''pending''"
| "stop_text SDeferred = ''deferred''"

fun answerEnded :: "stop_reason \<Rightarrow> bool" where
  "answerEnded SPending = False"
| "answerEnded SDeferred = False"
| "answerEnded _ = True"

fun answerVerdict :: "stop_reason \<Rightarrow> trace_verdict" where
  "answerVerdict SStop = VOk"
| "answerVerdict SLength = VOk"
| "answerVerdict SToolUse = VOk"
| "answerVerdict SError = VFailed"
| "answerVerdict SAborted = VCancelled"
| "answerVerdict SPending = VFailed"
| "answerVerdict SDeferred = VFailed"

record model_usage =
  us_input :: "int option"
  us_output :: "int option"
  us_cache_read :: "int option"
  us_cache_write :: "int option"
  us_reasoning :: "int option"

record model_call =
  mc_tenant :: string
  mc_agent :: string
  mc_job :: string
  mc_stop :: stop_reason
  mc_model :: string
  mc_at :: int
  mc_created :: "int option"
  mc_answered :: "int option"
  mc_prefix :: "json option"
  mc_usage :: "model_usage option"
  mc_limit :: "string option"
  mc_session :: "string option"
  mc_first_tool :: "string option"
  mc_turn :: "string option"

definition modelCallRow :: "model_call \<Rightarrow> trace_row" where
  "modelCallRow m =
     \<lparr>tr_at = mc_at m, tr_tenant = mc_tenant m, tr_agent = mc_agent m, tr_kind = ''model.call'', tr_span = mc_job m,
      tr_parent = None, tr_status = stop_text (mc_stop m), tr_verdict = answerVerdict (mc_stop m),
      tr_ms = (case (mc_created m, mc_answered m) of (Some c, Some a) \<Rightarrow> Some (max 0 (a - c)) | _ \<Rightarrow> None),
      tr_attrs = [(''model'', JStr (mc_model m))] @ opt_str ''session'' (mc_session m) @ opt_str ''limit'' (mc_limit m)
        @ (if mc_stop m = SToolUse then opt_str ''firstTool'' (map_option (take 120) (mc_first_tool m)) else [])
        @ opt_str ''turn'' (map_option (take 200) (mc_turn m))
        @ (case mc_usage m of None \<Rightarrow> [] | Some u \<Rightarrow> opt_num ''input'' (us_input u) @ opt_num ''output'' (us_output u)
             @ opt_num ''cacheRead'' (us_cache_read u) @ opt_num ''cacheWrite'' (us_cache_write u) @ opt_num ''reasoning'' (us_reasoning u))
        @ (case mc_prefix m of None \<Rightarrow> [] | Some p \<Rightarrow> [(''prefix'', p)])\<rparr>"

text \<open>A released container, as the plugin reported it: a fact only when it has the shape of one.\<close>

definition member :: "string \<Rightarrow> json \<Rightarrow> json option" where
  "member k x = (case x of JObj ms \<Rightarrow> map_of (rev ms) k | _ \<Rightarrow> None)"

definition isReleased :: "json \<Rightarrow> bool" where
  "isReleased x \<longleftrightarrow>
     (case (member ''id'' x, member ''startedAt'' x, member ''endedAt'' x, member ''status'' x) of
        (Some (JStr i), Some (JNum a), Some (JNum b), Some (JStr st)) \<Rightarrow>
          0 < length i \<and> a \<le> b \<and> (st = ''freed'' \<or> st = ''error'')
      | _ \<Rightarrow> False)"

definition str_of :: "json option \<Rightarrow> string" where
  "str_of v = (case v of Some (JStr s) \<Rightarrow> s | _ \<Rightarrow> [])"

definition num_of :: "json option \<Rightarrow> int" where
  "num_of v = (case v of Some (JNum n) \<Rightarrow> n | _ \<Rightarrow> 0)"

text \<open>The error of a release is a string or absent (the type \<open>Released\<close>).\<close>

definition leaseRow :: "string \<Rightarrow> string \<Rightarrow> string \<Rightarrow> json \<Rightarrow> trace_row" where
  "leaseRow tenant agent alias f =
     \<lparr>tr_at = num_of (member ''endedAt'' f), tr_tenant = tenant, tr_agent = agent, tr_kind = ''container.lease'',
      tr_span = str_of (member ''id'' f), tr_parent = None, tr_status = str_of (member ''status'' f),
      tr_verdict = (if str_of (member ''status'' f) = ''freed'' then VOk else VFailed),
      tr_ms = Some (num_of (member ''endedAt'' f) - num_of (member ''startedAt'' f)),
      tr_attrs = (''mount'', JStr alias) # opt_str ''error'' (map_option (\<lambda>v. str_of (Some v)) (member ''error'' f))\<rparr>"

definition releasedFacts :: "json \<Rightarrow> json list" where
  "releasedFacts x = (case x of JArr xs \<Rightarrow> filter isReleased xs | _ \<Rightarrow> if isReleased x then [x] else [])"

datatype seed_outcome = SAdded | SPresent | SDeclined | SNotFor | SUnavailable | SRefused

fun seed_outcome_text :: "seed_outcome \<Rightarrow> string" where
  "seed_outcome_text SAdded = ''added''"
| "seed_outcome_text SPresent = ''present''"
| "seed_outcome_text SDeclined = ''declined''"
| "seed_outcome_text SNotFor = ''not-for''"
| "seed_outcome_text SUnavailable = ''unavailable''"
| "seed_outcome_text SRefused = ''refused''"

definition seededRow :: "string \<Rightarrow> string \<Rightarrow> string \<Rightarrow> string \<Rightarrow> int \<Rightarrow> seed_outcome \<Rightarrow> string option \<Rightarrow> int \<Rightarrow> string option \<Rightarrow> trace_row" where
  "seededRow tenant agent alias plugin since outcome reason at notice =
     \<lparr>tr_at = at, tr_tenant = tenant, tr_agent = agent, tr_kind = ''mount.seeded'', tr_span = alias @ ''@'' @ show_int since,
      tr_parent = None, tr_status = seed_outcome_text outcome,
      tr_verdict = (if outcome = SRefused then VFailed else if outcome = SDeclined \<or> outcome = SUnavailable then VBlocked else VOk),
      tr_ms = None,
      tr_attrs = [(''alias'', JStr alias), (''plugin'', JStr plugin), (''since'', JNum since),
        (''outcome'', JStr (seed_outcome_text outcome)), (''reason'', (case reason of None \<Rightarrow> JNull | Some r \<Rightarrow> JStr r))]
        @ opt_str ''notice'' notice\<rparr>"

record js_run =
  jr_ok :: bool
  jr_ms :: int
  jr_host_calls :: int
  jr_resumed :: bool
  jr_call :: "string option"
  jr_status :: "string option"
  jr_code :: "string option"

definition jsRunRow :: "string \<Rightarrow> string \<Rightarrow> string \<Rightarrow> int \<Rightarrow> js_run \<Rightarrow> trace_row" where
  "jsRunRow tenant agent session at run =
     \<lparr>tr_at = at, tr_tenant = tenant, tr_agent = agent, tr_kind = ''js.run'',
      tr_span = (if truthy (jr_call run) then or_else (jr_call run) [] else ''js_'' @ show_int at), tr_parent = None,
      tr_status = or_else (jr_status run) (if jr_ok run then ''completed'' else ''failed''),
      tr_verdict = (if jr_code run = Some ''cancelled'' then VCancelled else if jr_ok run then VOk else VFailed),
      tr_ms = Some (max 0 (jr_ms run)),
      tr_attrs = opt_str ''code'' (jr_code run) @ [(''hostCalls'', JNum (jr_host_calls run)), (''session'', JStr session)]
        @ (if jr_resumed run then [(''resumed'', JBool True)] else [])\<rparr>"

section \<open>What an append keeps\<close>

abbreviation truncated_mark :: "string \<times> json" where
  "truncated_mark \<equiv> (''truncated'', JBool True)"

definition attrs_fit :: "(string \<times> json) list \<Rightarrow> bool" where
  "attrs_fit body \<longleftrightarrow> length (stringify (JObj body)) \<le> TRACE_ATTRS_MAX"

lemma attrs_fit_mark: "attrs_fit [truncated_mark]"
  by (simp add: attrs_fit_def TRACE_ATTRS_MAX_def str_lit_def esc_char_def Let_def)

lemma drop_last_member:
  assumes "distinct (map fst (xs @ [x]))" and "''truncated'' \<notin> fst ` set (xs @ [x])" and "ys = [] \<or> ys = [truncated_mark]"
  shows "set_member ''truncated'' (JBool True) (del_member (fst x) (xs @ [x] @ ys)) = xs @ [truncated_mark]"
proof -
  have "filter (\<lambda>m. fst m \<noteq> fst x) xs = xs" 
  proof (intro filter_True ballI)
    fix m assume "m \<in> set xs"
    then have "fst m \<in> fst ` set xs" by (rule imageI)
    moreover have "fst x \<notin> fst ` set xs" using assms(1) by simp
    ultimately show "fst m \<noteq> fst x" by metis
  qed
  then have "del_member (fst x) (xs @ [x] @ ys) = xs @ ys" using assms(2,3) by (auto simp: del_member_def)
  moreover have a2: "''truncated'' \<notin> fst ` set xs" using assms(2) by simp
  then have "fst m \<noteq> ''truncated''" if "m \<in> set xs" for m
    using imageI [OF that, of fst] by metis
  then have "update_where (\<lambda>m. fst m = ''truncated'') (\<lambda>m. truncated_mark) xs = xs" "\<not> has_row (\<lambda>m. fst m = ''truncated'') xs"
    by (auto simp: has_row_iff intro!: update_where_id)
  ultimately show ?thesis
    using assms(3) by (auto simp: set_member_def upsert_def has_row_def update_where_def)
qed

lemma attrs_loop_marked:
  assumes "distinct (map fst xs)" and "''truncated'' \<notin> fst ` set xs"
  shows "\<exists>n\<le>length xs. attrs_loop (xs @ [truncated_mark]) (rev (map fst xs)) = take n xs @ [truncated_mark]
    \<and> attrs_fit (take n xs @ [truncated_mark])"
  using assms
proof (induction xs rule: rev_induct)
  case Nil
  then show ?case by (simp add: attrs_fit_mark)
next
  case (snoc x xs)
  show ?case
  proof (cases "attrs_fit (xs @ [x] @ [truncated_mark])")
    case True
    then show ?thesis by (intro exI [of _ "Suc (length xs)"]) (simp add: attrs_fit_def)
  next
    case False
    from snoc.IH snoc.prems obtain n where "n \<le> length xs"
      "attrs_loop (xs @ [truncated_mark]) (rev (map fst xs)) = take n xs @ [truncated_mark]" "attrs_fit (take n xs @ [truncated_mark])"
      by auto
    with False drop_last_member [OF snoc.prems, of "[truncated_mark]"] show ?thesis
      by (intro exI [of _ n]) (simp add: attrs_fit_def)
  qed
qed

text \<open>
  A trace row's facts are bounded. Whatever a seam says, what the append stores serialises to at most
  \<open>TRACE_ATTRS_MAX\<close> code units; facts that fit are kept as they are, and otherwise some of the facts written first are kept whole, in order,
  with a mark that says facts were dropped. (Facts have distinct keys, and no seam writes one named \<open>truncated\<close>.)
\<close>

theorem trace_attrs_are_bounded:
  assumes "distinct (map fst attrs)" and "''truncated'' \<notin> fst ` set attrs"
  shows "length (stringify (JObj (attrsOf attrs))) \<le> TRACE_ATTRS_MAX
    \<and> (if length (stringify (JObj attrs)) \<le> TRACE_ATTRS_MAX then attrsOf attrs = attrs
       else \<exists>n<length attrs. attrsOf attrs = take n attrs @ [(''truncated'', JBool True)])"
proof (cases attrs rule: rev_cases)
  case Nil
  then show ?thesis by (simp add: attrsOf_def TRACE_ATTRS_MAX_def)
next
  case (snoc xs x)
  show ?thesis
  proof (cases "attrs_fit attrs")
    case True
    then show ?thesis by (simp add: attrsOf_def snoc attrs_fit_def)
  next
    case False
    from assms have "distinct (map fst xs)" "''truncated'' \<notin> fst ` set xs" by (simp_all add: snoc)
    from attrs_loop_marked [OF this] obtain n where "n \<le> length xs"
      "attrs_loop (xs @ [truncated_mark]) (rev (map fst xs)) = take n xs @ [truncated_mark]" "attrs_fit (take n xs @ [truncated_mark])"
      by blast
    moreover have "attrsOf attrs = attrs_loop (xs @ [truncated_mark]) (rev (map fst xs))"
      using False drop_last_member [of xs x "[]"] assms by (simp add: attrsOf_def snoc attrs_fit_def)
    ultimately show ?thesis using False by (auto simp: attrs_fit_def snoc intro!: exI [of _ n])
  qed
qed

theorem trace_attrs_are_bounded_witness:
  "distinct (map fst [(''tool'', JStr (replicate 5 CHR ''x'')), (''mount'', JStr ''m'')])
   \<and> attrsOf [(''tool'', JStr (replicate 5 CHR ''x'')), (''mount'', JStr ''m'')] = [(''tool'', JStr (replicate 5 CHR ''x'')), (''mount'', JStr ''m'')]"
proof -
  let ?a = "[(''tool'', JStr (replicate 5 CHR ''x'')), (''mount'', JStr ''m'')]"
  have d: "distinct (map fst ?a)" "''truncated'' \<notin> fst ` set ?a" by simp_all
  have "length (stringify (JObj ?a)) \<le> TRACE_ATTRS_MAX"
    by (simp add: TRACE_ATTRS_MAX_def str_lit_def esc_char_def Let_def eval_nat_numeral)
  with trace_attrs_are_bounded [OF d] d show ?thesis by simp
qed

section \<open>Numbers and drains\<close>

text \<open>The tables an append to the trace leaves alone.\<close>

lemma appendTrace_frame [simp]:
  "events (appendTrace rs s) = events s" "waits (appendTrace rs s) = waits s" "tasks (appendTrace rs s) = tasks s"
  "cursors (appendTrace rs s) = cursors s" "operations (appendTrace rs s) = operations s" "counters (appendTrace rs s) = counters s"
  "next_uuid (appendTrace rs s) = next_uuid s" "leases (appendTrace rs s) = leases s" "outbox (appendTrace rs s) = outbox s"
  "approvals (appendTrace rs s) = approvals s" "requests (appendTrace rs s) = requests s" "mounts (appendTrace rs s) = mounts s"
  "agent_state (appendTrace rs s) = agent_state s" "snapshots (appendTrace rs s) = snapshots s"
  unfolding appendTrace_def by (induction rs arbitrary: s) (simp_all add: append_trace_row_def)


definition trace_inv :: "store \<Rightarrow> bool" where
  "trace_inv s \<longleftrightarrow> sorted_wrt (<) (map to_seq (trace s)) \<and> (\<forall>r\<in>set (trace s). to_seq r \<le> trace_seq s)"

lemma append_trace_row_adds:
  "\<exists>new. trace (append_trace_row r s) = trace s @ new \<and> map to_seq new = [Suc (trace_seq s) ..< Suc (trace_seq (append_trace_row r s))]
    \<and> (\<forall>x\<in>set new. \<exists>r'. to_row x = kept_row r' \<and> tr_kind r' \<in> set TRACE_KINDS \<and> tr_span r' \<noteq> [])
    \<and> trace_seq s \<le> trace_seq (append_trace_row r s)"
  by (auto simp: append_trace_row_def)

lemma appendTrace_adds:
  "\<exists>new. trace (appendTrace rs s) = trace s @ new \<and> map to_seq new = [Suc (trace_seq s) ..< Suc (trace_seq (appendTrace rs s))]
    \<and> (\<forall>x\<in>set new. \<exists>r'. to_row x = kept_row r' \<and> tr_kind r' \<in> set TRACE_KINDS \<and> tr_span r' \<noteq> [])
    \<and> trace_seq s \<le> trace_seq (appendTrace rs s)"
  unfolding appendTrace_def
proof (induction rs arbitrary: s)
  case Nil
  then show ?case by simp
next
  case (Cons r rs)
  let ?s1 = "append_trace_row r s"
  obtain a where a: "trace ?s1 = trace s @ a" "map to_seq a = [Suc (trace_seq s) ..< Suc (trace_seq ?s1)]" "trace_seq s \<le> trace_seq ?s1"
    "\<forall>x\<in>set a. \<exists>r'. to_row x = kept_row r' \<and> tr_kind r' \<in> set TRACE_KINDS \<and> tr_span r' \<noteq> []"
    using append_trace_row_adds by blast
  let ?s2 = "fold append_trace_row rs ?s1"
  obtain b where b: "trace ?s2 = trace ?s1 @ b" "map to_seq b = [Suc (trace_seq ?s1) ..< Suc (trace_seq ?s2)]" "trace_seq ?s1 \<le> trace_seq ?s2"
    "\<forall>x\<in>set b. \<exists>r'. to_row x = kept_row r' \<and> tr_kind r' \<in> set TRACE_KINDS \<and> tr_span r' \<noteq> []"
    using Cons.IH by blast
  have "[Suc (trace_seq s) ..< Suc (trace_seq ?s1)] @ [Suc (trace_seq ?s1) ..< Suc (trace_seq ?s2)] = [Suc (trace_seq s) ..< Suc (trace_seq ?s2)]"
    using a(3) b(3) by (metis Suc_le_mono le_Suc_ex upt_add_eq_append)
  with a b show ?case by (intro exI [of _ "a @ b"]) (auto simp del: upt_Suc)
qed

text \<open>
  A trace row's number names it for ever. A drain reads rows, ships them, and prunes through the last number it shipped, while
  appends go on. The rows above that number stay as they were and in order; what is appended afterwards has numbers above
  every number ever given, one by one; and every new row is of the contract's kinds, with its span.
\<close>

theorem trace_numbers_are_never_reused:
  assumes "trace_inv s"
  shows "trace_inv (appendTrace rs (pruneTrace through s))
    \<and> (\<exists>new. trace (appendTrace rs (pruneTrace through s)) = filter (\<lambda>r. through < to_seq r) (trace s) @ new
        \<and> map to_seq new = [Suc (trace_seq s) ..< Suc (trace_seq s) + length new]
        \<and> (\<forall>x\<in>set new. \<exists>r'. to_row x = kept_row r' \<and> tr_kind r' \<in> set TRACE_KINDS \<and> tr_span r' \<noteq> []))"
proof -
  let ?p = "pruneTrace through s" and ?s' = "appendTrace rs (pruneTrace through s)"
  have p: "trace ?p = filter (\<lambda>r. through < to_seq r) (trace s)" "trace_seq ?p = trace_seq s"
    by (simp_all add: pruneTrace_def delete_where_def not_le)
  obtain new where n: "trace ?s' = trace ?p @ new" "map to_seq new = [Suc (trace_seq s) ..< Suc (trace_seq ?s')]" "trace_seq s \<le> trace_seq ?s'"
    "\<forall>x\<in>set new. \<exists>r'. to_row x = kept_row r' \<and> tr_kind r' \<in> set TRACE_KINDS \<and> tr_span r' \<noteq> []"
    using appendTrace_adds [of rs ?p] unfolding p(2) by blast
  have "length new = length [Suc (trace_seq s) ..< Suc (trace_seq ?s')]" using n(2) by (metis length_map)
  then have l: "Suc (trace_seq ?s') = Suc (trace_seq s) + length new" using n(3) by simp
  have ms: "set (map to_seq new) \<subseteq> {Suc (trace_seq s) .. trace_seq ?s'}" unfolding n(2) by auto
  have "sorted_wrt (<) (map to_seq (trace ?p))"
    using assms unfolding p(1) trace_inv_def by (simp add: sorted_wrt_map sorted_wrt_filter)
  moreover have "\<forall>r\<in>set (trace ?p). to_seq r \<le> trace_seq s" using assms by (auto simp: p trace_inv_def)
  moreover have "sorted_wrt (<) (map to_seq new)" unfolding n(2) by (rule sorted_wrt_upt)
  ultimately have "trace_inv ?s'"
    using ms n(3) unfolding trace_inv_def n(1) map_append sorted_wrt_append by fastforce
  with n p l show ?thesis by metis
qed

theorem trace_numbers_are_never_reused_witness:
  "trace_inv init_store
   \<and> map to_seq (trace (appendTrace [approvalRow ''t'' ''a'' ''k'' ''o1'' ''m'' ''x'' DApproved ''u'' 1 2] (pruneTrace 3 init_store))) = [1]"
proof -
  let ?r = "approvalRow ''t'' ''a'' ''k'' ''o1'' ''m'' ''x'' DApproved ''u'' 1 2"
  have i: "trace_inv init_store" by (simp add: trace_inv_def init_store_def)
  from trace_numbers_are_never_reused [OF i, of "[?r]" 3] obtain new where
    n: "trace (appendTrace [?r] (pruneTrace 3 init_store)) = filter (\<lambda>r. 3 < to_seq r) (trace init_store) @ new"
    "map to_seq new = [Suc (trace_seq init_store) ..< Suc (trace_seq init_store) + length new]" by blast
  have "length (trace (appendTrace [?r] (pruneTrace 3 init_store))) = 1"
    by (simp add: appendTrace_def append_trace_row_def approvalRow_def TRACE_KINDS_def pruneTrace_def delete_where_def init_store_def)
  with n have "length new = 1" by (simp add: init_store_def)
  with n i show ?thesis by (simp add: init_store_def)
qed

text \<open>
  A failure's facts are bounded and shaped. Whatever the plugin's error said and whatever the redaction answers, the row gets at
  most the three facts, the code only as a machine token of at most 64 characters, the status only as an HTTP
  status, and the sentence as what the redaction answered, cut to \<open>TOOL_ERROR_MAX\<close>.
\<close>

theorem failure_facts_are_bounded:
  "set (failureAttrs redact f) \<subseteq>
     {(''errorCode'', JStr c) |c. is_error_code c \<and> tf_code f = Some c}
     \<union> {(''httpStatus'', JNum h) |h. 100 \<le> h \<and> h \<le> 599 \<and> tf_http f = Some h}
     \<union> {(''error'', JStr e) |e. length e \<le> TOOL_ERROR_MAX \<and> e \<noteq> []
          \<and> (\<exists>m. tf_message f = Some m \<and> take (TOOL_ERROR_MAX - 1) e = take (TOOL_ERROR_MAX - 1) (redact (trim (squeeze False m))))}
   \<and> distinct (map fst (failureAttrs redact f))"
proof -
  have c: "is_error_code c \<Longrightarrow> c \<noteq> []" for c by (auto simp: is_error_code_def)
  show ?thesis
    by (auto simp: failureAttrs_def Let_def truthy_def TOOL_ERROR_MAX_def c split: option.splits if_splits)
qed

end
