(* ===== verification/Operations.thy ===== *)
theory Operations
  imports Advance Trace
begin

text \<open>
  The record of a tool call: \<open>recordOperation\<close>, the claim of its attempt (\<open>startOperation\<close>), its completion with
  the wakeup event and the trace row in one transaction (\<open>completeOperation\<close>, \<open>src/src/store/operation-event.ts\<close>), and the
  waits on it (\<open>registerWait\<close>). The lemmas show that one of the callers racing for an attempt begins it, on either store; that
  a completion and a wait never miss each other; that a row of the trace is written exactly when a completion ends the
  operation; and what a second completion does to the log, which is nothing.
\<close>

section \<open>Recording and starting\<close>

definition recordOperation :: "int \<Rightarrow> string \<Rightarrow> string \<Rightarrow> string \<Rightarrow> string \<Rightarrow> string \<Rightarrow> string \<Rightarrow> string option \<Rightarrow> string \<Rightarrow> store \<Rightarrow> store" where
  "recordOperation now operation tenant agent task mount tool model version s =
     s\<lparr>operations := insert_ignore (\<lambda>r. op_id r = operation)
        \<lparr>op_id = operation, op_tenant = tenant, op_agent = agent, op_task = task, op_mount = mount, op_tool = tool,
         op_version = version, op_status = OPending, op_result_ref = None, op_created = now, op_updated = now,
         op_model_name = model\<rparr> (operations s)\<rparr>"

definition is_operation :: "string \<Rightarrow> string \<Rightarrow> operation_row \<Rightarrow> bool" where
  "is_operation tenant operation r \<longleftrightarrow> op_tenant r = tenant \<and> op_id r = operation"

definition get_op :: "string \<Rightarrow> string \<Rightarrow> store \<Rightarrow> operation_row option" where
  "get_op tenant operation s = get_row (is_operation tenant operation) (operations s)"

text \<open>\<open>getOperation\<close> gives the row's columns under the record's names: the row itself here.\<close>

definition getOperation :: "string \<Rightarrow> string \<Rightarrow> store \<Rightarrow> operation_row option" where
  "getOperation tenant operation s = get_row (is_operation tenant operation) (operations s)"

text \<open>The sqlite store: one conditional update, and how many rows it changed.\<close>

definition startOperation :: "int \<Rightarrow> string \<Rightarrow> string \<Rightarrow> store \<Rightarrow> bool \<times> store" where
  "startOperation now tenant operation s =
     (let hit = (\<lambda>r. is_operation tenant operation r \<and> op_status r \<in> {OPending, ORejected}) in
      (0 < length (filter hit (operations s)),
       s\<lparr>operations := update_where hit (\<lambda>r. r\<lparr>op_status := ORunning, op_updated := now\<rparr>) (operations s)\<rparr>))"

text \<open>The Durable Object store: read, check, write, in one transaction.\<close>

definition do_startOperation :: "int \<Rightarrow> string \<Rightarrow> string \<Rightarrow> store \<Rightarrow> bool \<times> store" where
  "do_startOperation now tenant operation s =
     (case get_row (is_operation tenant operation) (operations s) of
        None \<Rightarrow> (False, s)
      | Some r \<Rightarrow>
          if op_status r \<noteq> OPending \<and> op_status r \<noteq> ORejected then (False, s)
          else (True, s\<lparr>operations := update_where
             (\<lambda>r. is_operation tenant operation r \<and> op_status r \<in> {OPending, ORejected})
             (\<lambda>r. r\<lparr>op_status := ORunning, op_updated := now\<rparr>) (operations s)\<rparr>))"

section \<open>Completing\<close>

definition opt_member :: "string \<Rightarrow> json option \<Rightarrow> (string \<times> json) list" where
  "opt_member k v = (case v of None \<Rightarrow> [] | Some x \<Rightarrow> [(k, x)])"

definition completedPayload :: "string \<Rightarrow> operation_status \<Rightarrow> string option \<Rightarrow> json option \<Rightarrow> completed_facts option \<Rightarrow> json" where
  "completedPayload operation status ref result facts =
     JObj ([(''operationId'', JStr operation), (''status'', JStr (operation_status_text status)),
            (''resultRef'', (case ref of None \<Rightarrow> JNull | Some r \<Rightarrow> JStr r))]
       @ opt_member ''result'' result
       @ (case facts of None \<Rightarrow> [] | Some f \<Rightarrow>
            opt_member ''callId'' (map_option JStr (cf_call f)) @ opt_member ''identity'' (cf_identity f)
            @ opt_member ''credentialRef'' (cf_credential f)))"

definition completed_key :: "string \<Rightarrow> string" where
  "completed_key operation = ''op:'' @ operation @ '':completed''"

definition completed_event :: "operation_row \<Rightarrow> string \<Rightarrow> json \<Rightarrow> new_event" where
  "completed_event op operation payload =
     \<lparr>ne_tenant = op_tenant op, ne_agent = op_agent op, ne_task = Some (op_task op), ne_thread = None,
      ne_kind = ''operation.completed'', ne_payload = payload, ne_dedup = Some (completed_key operation)\<rparr>"

definition set_status :: "int \<Rightarrow> string \<Rightarrow> string \<Rightarrow> operation_status \<Rightarrow> string option \<Rightarrow> store \<Rightarrow> store" where
  "set_status ended tenant operation status ref s =
     s\<lparr>operations := update_where (is_operation tenant operation)
        (\<lambda>r. r\<lparr>op_status := status, op_result_ref := ref, op_updated := ended\<rparr>) (operations s)\<rparr>"

definition waits_on :: "string \<Rightarrow> string \<Rightarrow> wait_row \<Rightarrow> bool" where
  "waits_on tenant operation w \<longleftrightarrow> wa_tenant w = tenant \<and> wa_operation w = Some operation \<and> \<not> wa_resolved w"

definition resolve_waits :: "string \<Rightarrow> string \<Rightarrow> store \<Rightarrow> store" where
  "resolve_waits tenant operation s =
     s\<lparr>waits := update_where (waits_on tenant operation) (\<lambda>w. w\<lparr>wa_resolved := True\<rparr>) (waits s)\<rparr>"

definition completeOperation :: "(string \<Rightarrow> string) \<Rightarrow> int \<Rightarrow> string \<Rightarrow> string \<Rightarrow> operation_status \<Rightarrow> string option \<Rightarrow> json option
    \<Rightarrow> completed_facts option \<Rightarrow> store \<Rightarrow> store_error + store" where
  "completeOperation redact now tenant operation status ref result facts s =
     (let prior = map_option op_status (get_row (is_operation tenant operation) (operations s));
          s1 = resolve_waits tenant operation (set_status now tenant operation status ref s) in
      case get_row (is_operation tenant operation) (operations s1) of
        None \<Rightarrow> Inr s1
      | Some op \<Rightarrow>
          (case insertEvent now (completed_event op operation (completedPayload operation status ref result facts)) s1 of
             Inl err \<Rightarrow> Inl err
           | Inr (_, s2) \<Rightarrow>
               if operationEnds prior status then Inr (appendTrace [toolCallRow redact op status now facts] s2) else Inr s2))"

section \<open>Waiting\<close>

datatype wait_result = Registered | AlreadySatisfied

definition registerWait :: "string \<Rightarrow> string \<Rightarrow> int \<Rightarrow> wait_spec \<Rightarrow> store \<Rightarrow> wait_result \<times> store" where
  "registerWait tenant task generation w s =
     (if ws_kind w = WOperation \<and> truthy (ws_operation w)
         \<and> (case get_row (is_operation tenant (or_else (ws_operation w) [])) (operations s) of
              None \<Rightarrow> False
            | Some op \<Rightarrow> op_status op \<in> {OSucceeded, OFailed, OCancelled, OUnknown})
      then (AlreadySatisfied, s)
      else case randomUUID s of (wid, s1) \<Rightarrow>
        (Registered, s1\<lparr>waits := waits s1 @ [\<lparr>wa_id = wid, wa_tenant = tenant, wa_task = task, wa_generation = generation,
           wa_kind = ws_kind w, wa_operation = ws_operation w, wa_deadline = ws_deadline w, wa_resolved = False\<rparr>]\<rparr>))"

section \<open>One attempt\<close>

definition startable :: "operation_row \<Rightarrow> bool" where
  "startable r \<longleftrightarrow> op_status r \<in> {OPending, ORejected}"

text \<open>No attempt of the operation is free to be taken.\<close>

definition attempt_taken :: "string \<Rightarrow> string \<Rightarrow> store \<Rightarrow> bool" where
  "attempt_taken tn oid s \<longleftrightarrow> (\<forall>r\<in>set (operations s). is_operation tn oid r \<longrightarrow> \<not> startable r)"

definition start_attempt :: "string \<Rightarrow> string \<Rightarrow> int \<Rightarrow> store \<Rightarrow> bool \<times> store" where
  "start_attempt tn oid now s = startOperation now tn oid s"

lemma startOperation_takes: "attempt_taken tn oid (snd (startOperation now tn oid s))"
  unfolding attempt_taken_def
proof (intro ballI impI)
  let ?hit = "\<lambda>r. is_operation tn oid r \<and> op_status r \<in> {OPending, ORejected}"
  let ?f = "\<lambda>r. r\<lparr>op_status := ORunning, op_updated := now\<rparr>"
  fix x assume "x \<in> set (operations (snd (startOperation now tn oid s)))" and o: "is_operation tn oid x"
  then have "x \<in> set (update_where ?hit ?f (operations s))" by (simp add: startOperation_def Let_def)
  then obtain r where "x = (if is_operation tn oid r \<and> startable r then ?f r else r)"
    unfolding set_update_where startable_def by blast
  with o show "\<not> startable x" by (cases "is_operation tn oid r \<and> startable r") (auto simp: startable_def)
qed

interpretation attempt_race: one_winner "start_attempt tn oid" "attempt_taken tn oid" for tn oid
proof unfold_locales
  fix c s s' assume "start_attempt tn oid c s = (True, s')"
  then show "attempt_taken tn oid s'" using startOperation_takes [of tn oid c s] by (simp add: start_attempt_def)
next
  fix c s assume "attempt_taken tn oid s"
  then show "\<not> fst (start_attempt tn oid c s)"
    by (auto simp: start_attempt_def startOperation_def Let_def attempt_taken_def startable_def filter_empty_conv)
  show "attempt_taken tn oid (snd (start_attempt tn oid c s))" by (simp add: start_attempt_def startOperation_takes)
qed

text \<open>
  An attempt has one owner. Of any number of callers racing to start the same operation, with whatever else running between
  them that does not itself put the operation back to pending or rejected, at most one is told to go on to the plugin.
\<close>

theorem one_caller_starts_an_operation:
  assumes "\<And>c e s. (c, e) \<in> set callers \<Longrightarrow> attempt_taken tn oid s \<Longrightarrow> attempt_taken tn oid (e s)"
  shows "count_list (claim_outcomes (start_attempt tn oid) callers s) True \<le> 1"
  using assms by (rule attempt_race.at_most_one_winner)

definition op_example :: store where
  "op_example = recordOperation 1 ''o1'' ''t'' ''a'' ''k'' ''m'' ''send'' None ''1'' log_example"

lemma op_example_ops:
  "operations op_example = [\<lparr>op_id = ''o1'', op_tenant = ''t'', op_agent = ''a'', op_task = ''k'', op_mount = ''m'', op_tool = ''send'',
     op_version = ''1'', op_status = OPending, op_result_ref = None, op_created = 1, op_updated = 1, op_model_name = None\<rparr>]"
  by (simp add: op_example_def recordOperation_def log_example_def createTask_def insert_row_def init_store_def putSnapshot_def
      has_row_iff insert_ignore_def)

theorem one_caller_starts_an_operation_witness:
  "claim_outcomes (start_attempt ''t'' ''o1'') [(2, id), (3, id)] op_example = [True, False]"
proof -
  have "count_list (claim_outcomes (start_attempt ''t'' ''o1'') [(2, id), (3, id)] op_example) True \<le> 1"
    by (rule one_caller_starts_an_operation) auto
  moreover have "fst (start_attempt ''t'' ''o1'' 2 op_example)"
    by (simp add: start_attempt_def startOperation_def op_example_ops is_operation_def)
  ultimately show ?thesis
    by (cases "start_attempt ''t'' ''o1'' 2 op_example"; cases "start_attempt ''t'' ''o1'' 3 (snd (start_attempt ''t'' ''o1'' 2 op_example))")
      (auto split: if_splits)
qed

text \<open>
  The two stores start the same operations. The Durable Object's read-check-write and the sqlite store's conditional
  update give the same answer and leave the same rows; an operation that ended otherwise than rejected, or is running, is never revived.
\<close>

theorem startOperation_backends_agree:
  assumes "distinct (map op_id (operations s))"
  shows "do_startOperation now tn oid s = startOperation now tn oid s
    \<and> (fst (startOperation now tn oid s) \<longleftrightarrow> (\<exists>r. get_op tn oid s = Some r \<and> startable r))
    \<and> get_op tn oid (snd (startOperation now tn oid s)) =
        map_option (\<lambda>r. if startable r then r\<lparr>op_status := ORunning, op_updated := now\<rparr> else r) (get_op tn oid s)"
proof -
  let ?hit = "\<lambda>r. is_operation tn oid r \<and> op_status r \<in> {OPending, ORejected}"
  let ?f = "\<lambda>r. r\<lparr>op_status := ORunning, op_updated := now\<rparr>"
  have only: "get_op tn oid s = Some r" if "r \<in> set (operations s)" "is_operation tn oid r" for r
    unfolding get_op_def using assms that by (intro get_row_unique [where g = op_id]) (auto simp: is_operation_def)
  have ex: "filter ?hit (operations s) \<noteq> [] \<longleftrightarrow> (\<exists>r. get_op tn oid s = Some r \<and> startable r)"
    using only by (auto simp: filter_empty_conv startable_def get_op_def dest: get_row_SomeD)
  have g: "get_op tn oid (s\<lparr>operations := update_where ?hit ?f (operations s)\<rparr>)
      = map_option (\<lambda>r. if ?hit r then ?f r else r) (get_op tn oid s)"
    by (simp add: get_op_def) (intro get_row_update_where, simp add: is_operation_def)
  then have "get_op tn oid (snd (startOperation now tn oid s))
      = map_option (\<lambda>r. if startable r then ?f r else r) (get_op tn oid s)"
    by (cases "get_op tn oid s") (auto simp: startOperation_def Let_def startable_def get_op_def dest: get_row_SomeD)
  moreover have "do_startOperation now tn oid s = startOperation now tn oid s"
  proof (cases "\<exists>r. get_op tn oid s = Some r \<and> startable r")
    case True
    with ex show ?thesis by (auto simp: do_startOperation_def startOperation_def Let_def get_op_def startable_def)
  next
    case False
    then have "update_where ?hit ?f (operations s) = operations s"
      using only by (intro update_where_id) (auto simp: startable_def)
    moreover from False ex have "filter ?hit (operations s) = []" by blast
    ultimately show ?thesis
      using False by (auto simp: do_startOperation_def startOperation_def Let_def get_op_def startable_def split: option.split)
  qed
  ultimately show ?thesis using ex by (simp add: startOperation_def Let_def)
qed

theorem startOperation_backends_agree_witness:
  "distinct (map op_id (operations op_example)) \<and> fst (do_startOperation 2 ''t'' ''o1'' op_example)
   \<and> do_startOperation 2 ''t'' ''o1'' op_example = startOperation 2 ''t'' ''o1'' op_example"
proof -
  have d: "distinct (map op_id (operations op_example))" by (simp add: op_example_ops)
  have "fst (startOperation 2 ''t'' ''o1'' op_example)" by (simp add: startOperation_def op_example_ops is_operation_def)
  with startOperation_backends_agree [OF d, of 2 "''t''" "''o1''"] d show ?thesis by simp
qed

section \<open>What a completion does\<close>

definition completed_op :: "int \<Rightarrow> operation_status \<Rightarrow> string option \<Rightarrow> operation_row \<Rightarrow> operation_row" where
  "completed_op now status ref op = op\<lparr>op_status := status, op_result_ref := ref, op_updated := now\<rparr>"

lemma get_op_set_status:
  "get_op tn oid (set_status now tn oid status ref s) = map_option (completed_op now status ref) (get_op tn oid s)"
  unfolding get_op_def set_status_def completed_op_def [abs_def]
  by simp (intro get_row_update_same, simp add: is_operation_def)

lemma resolve_waits_frame [simp]:
  "operations (resolve_waits tn oid s) = operations s" "events (resolve_waits tn oid s) = events s"
  "tasks (resolve_waits tn oid s) = tasks s" "cursors (resolve_waits tn oid s) = cursors s"
  "trace (resolve_waits tn oid s) = trace s" "trace_seq (resolve_waits tn oid s) = trace_seq s"
  "counters (resolve_waits tn oid s) = counters s" "next_uuid (resolve_waits tn oid s) = next_uuid s"
  by (simp_all add: resolve_waits_def)

lemma set_status_frame [simp]:
  "events (set_status now tn oid st ref s) = events s" "waits (set_status now tn oid st ref s) = waits s"
  "tasks (set_status now tn oid st ref s) = tasks s" "cursors (set_status now tn oid st ref s) = cursors s"
  "trace (set_status now tn oid st ref s) = trace s" "trace_seq (set_status now tn oid st ref s) = trace_seq s"
  "counters (set_status now tn oid st ref s) = counters s" "next_uuid (set_status now tn oid st ref s) = next_uuid s"
  by (simp_all add: set_status_def)

lemma resolve_waits_none: "\<not> has_row (waits_on tn oid) (waits (resolve_waits tn oid s))"
  unfolding resolve_waits_def by (simp, rule update_where_clears) (simp_all add: waits_on_def)

lemma completeE:
  assumes "completeOperation redact now tn oid status ref result facts s = Inr s'" and "get_op tn oid s = Some op"
  obtains r s2 where
    "insertEvent now (completed_event (completed_op now status ref op) oid (completedPayload oid status ref result facts))
       (resolve_waits tn oid (set_status now tn oid status ref s)) = Inr (r, s2)"
    and "s' = (if operationEnds (Some (op_status op)) status
       then appendTrace [toolCallRow redact (completed_op now status ref op) status now facts] s2 else s2)"
proof -
  have g: "get_row (is_operation tn oid) (operations (set_status now tn oid status ref s)) = Some (completed_op now status ref op)"
    using get_op_set_status [of tn oid now status ref s] assms(2) by (simp add: get_op_def)
  let ?i = "insertEvent now (completed_event (completed_op now status ref op) oid (completedPayload oid status ref result facts))
       (resolve_waits tn oid (set_status now tn oid status ref s))"
  have p: "get_row (is_operation tn oid) (operations s) = Some op" using assms(2) by (simp add: get_op_def)
  show ?thesis
  proof (cases ?i)
    case (Inl err)
    with assms(1) show ?thesis by (simp add: completeOperation_def Let_def g)
  next
    case (Inr rs)
    then obtain r s2 where i: "?i = Inr (r, s2)" by (cases rs) auto
    moreover from i assms(1) have "s' = (if operationEnds (Some (op_status op)) status
       then appendTrace [toolCallRow redact (completed_op now status ref op) status now facts] s2 else s2)"
      by (simp add: completeOperation_def Let_def g p split: if_splits)
    ultimately show ?thesis by (rule that)
  qed
qed

lemma complete_unknown:
  assumes "get_op tn oid s = None"
  shows "completeOperation redact now tn oid status ref result facts s = Inr (resolve_waits tn oid (set_status now tn oid status ref s))"
  using get_op_set_status [of tn oid now status ref s] assms by (simp add: completeOperation_def Let_def get_op_def)

lemma insertEvent_has_key:
  assumes "insertEvent now e s = Inr (r, s')" and "truthy (ne_dedup e)"
  shows "has_row (\<lambda>x. ev_tenant x = ne_tenant e \<and> ev_dedup x = ne_dedup e) (events s')"
  using assms(1)
proof (cases rule: insertEvent_cases)
  case (duplicate dup)
  with assms(2) show ?thesis by (auto simp: dedup_row_def has_row_iff dest!: get_row_SomeD split: if_splits)
next
  case fresh
  then show ?thesis by (auto elim!: insert_freshE simp: has_row_iff new_event_row_def)
qed

lemma toolCallRow_appends:
  assumes "op_id op \<noteq> []"
  shows "trace (appendTrace [toolCallRow redact op status now facts] s)
    = trace s @ [\<lparr>to_seq = Suc (trace_seq s), to_row = kept_row (toolCallRow redact op status now facts)\<rparr>]"
  using assms by (simp add: appendTrace_def append_trace_row_def toolCallRow_def Let_def TRACE_KINDS_def)

lemma tool_call_verdict [simp]: "tr_verdict (kept_row (toolCallRow redact op status now facts)) = operationVerdict status"
  by (simp add: kept_row_def toolCallRow_def Let_def)

lemma is_operation_id: "get_op tn oid s = Some op \<Longrightarrow> op_id op = oid \<and> op_tenant op = tn"
  by (auto simp: get_op_def is_operation_def dest!: get_row_SomeD)

text \<open>
  A completion is one fact in four places. When it succeeds for a recorded operation: the record has the new status,
  result and time and nothing else changed in it; no wait on the operation is left unresolved; the log has its completion event;
  and the trace has gained exactly one row, the call's, when this completion is the operation's end, and none otherwise.
\<close>

theorem completion_lands_everywhere:
  assumes "completeOperation redact now tn oid status ref result facts s = Inr s'"
    and "get_op tn oid s = Some op" and "oid \<noteq> []"
  shows "get_op tn oid s' = Some (op\<lparr>op_status := status, op_result_ref := ref, op_updated := now\<rparr>)
    \<and> \<not> has_row (waits_on tn oid) (waits s')
    \<and> has_row (\<lambda>e. ev_tenant e = tn \<and> ev_dedup e = Some (completed_key oid)) (events s')
    \<and> map to_row (trace s') = map to_row (trace s) @
        (if operationEnded status \<and> \<not> operationEnded (op_status op)
         then [kept_row (toolCallRow redact (op\<lparr>op_status := status, op_result_ref := ref, op_updated := now\<rparr>) status now facts)] else [])"
proof -
  let ?s1 = "resolve_waits tn oid (set_status now tn oid status ref s)"
  let ?op = "completed_op now status ref op"
  from assms(1,2) obtain r s2 where
    i: "insertEvent now (completed_event ?op oid (completedPayload oid status ref result facts)) ?s1 = Inr (r, s2)"
    and s': "s' = (if operationEnds (Some (op_status op)) status then appendTrace [toolCallRow redact ?op status now facts] s2 else s2)"
    by (rule completeE)
  have id: "op_id ?op = oid" "op_tenant ?op = tn" using is_operation_id [OF assms(2)] by (simp_all add: completed_op_def)
  have o: "get_op tn oid s' = Some ?op"
    using get_op_set_status [of tn oid now status ref s] assms(2) insertEvent_frame(6) [OF i] by (simp add: s' get_op_def)
  have w: "\<not> has_row (waits_on tn oid) (waits s')"
    using resolve_waits_none insertEvent_frame(5) [OF i] by (simp add: s')
  have e: "has_row (\<lambda>e. ev_tenant e = tn \<and> ev_dedup e = Some (completed_key oid)) (events s')"
    using insertEvent_has_key [OF i] id by (simp add: s' completed_event_def completed_key_def truthy_def)
  have "trace s2 = trace s" using insertEvent_frame(8) [OF i] by simp
  then have "map to_row (trace s') = map to_row (trace s) @
      (if operationEnds (Some (op_status op)) status then [kept_row (toolCallRow redact ?op status now facts)] else [])"
    using toolCallRow_appends [of ?op redact status now facts s2] id assms(3) by (simp add: s')
  with o w e show ?thesis by (simp add: completed_op_def operationEnds_def)
qed

lemma op_example_log: "log_inv op_example" "tasks op_example = tasks log_example" "events op_example = []" "waits op_example = []"
proof -
  show "log_inv op_example"
    using log_example_inv by (rule log_inv_cong [rotated -1]) (simp_all add: op_example_def recordOperation_def counter_value_def)
qed (simp_all add: op_example_def recordOperation_def log_example_def createTask_def insert_row_def init_store_def putSnapshot_def has_row_iff)

text \<open>A completion of a recorded operation fails only if its task is another agent's.\<close>

lemma complete_total:
  assumes "log_inv s" and "get_op tn oid s = Some op"
    and "\<And>t. get_task tn (op_task op) s = Some t \<Longrightarrow> tk_agent t = op_agent op"
  shows "\<exists>s'. completeOperation redact now tn oid status ref result facts s = Inr s' \<and> log_inv s'"
proof -
  let ?s1 = "resolve_waits tn oid (set_status now tn oid status ref s)"
  let ?op = "completed_op now status ref op"
  let ?e = "completed_event ?op oid (completedPayload oid status ref result facts)"
  have g: "get_row (is_operation tn oid) (operations (set_status now tn oid status ref s)) = Some ?op"
    using get_op_set_status [of tn oid now status ref s] assms(2) by (simp add: get_op_def)
  have li: "log_inv ?s1" using assms(1) by (rule log_inv_cong [rotated -1]) (simp_all add: counter_value_def)
  have "op_tenant op = tn" using is_operation_id [OF assms(2)] by simp
  then have ow: "tk_agent t = ne_agent ?e" if "owner_row ?e ?s1 = Some t" for t
    using that assms(3) [of t]
    by (auto simp: owner_row_def completed_event_def completed_op_def get_task_def is_task_def [abs_def] split: if_splits)
  have dd: "ne_dedup ?e \<noteq> Some []" by (simp add: completed_event_def completed_key_def)
  obtain r s2 where i: "insertEvent now ?e ?s1 = Inr (r, s2)" using insertEvent_total [OF li dd ow] by blast
  have "log_inv s2" using log_inv_insertEvent [OF li i] .
  then have "log_inv (appendTrace rs s2)" for rs by (rule log_inv_cong [rotated -1]) (simp_all add: counter_value_def)
  with \<open>log_inv s2\<close> i g show ?thesis by (simp add: completeOperation_def Let_def)
qed

lemma op_example_get: "get_op ''t'' ''o1'' op_example = Some (hd (operations op_example))"
  by (simp add: get_op_def op_example_ops is_operation_def)

lemma op_example_completes:
  "\<exists>s'. completeOperation redact 5 ''t'' ''o1'' status None None None op_example = Inr s' \<and> log_inv s'"
proof (rule complete_total [OF op_example_log(1) op_example_get])
  fix t assume "get_task ''t'' (op_task (hd (operations op_example))) op_example = Some t"
  then show "tk_agent t = op_agent (hd (operations op_example))"
    using log_example_task by (simp add: get_task_def op_example_log(2) op_example_ops)
qed

theorem completion_lands_everywhere_witness:
  "\<exists>s'. completeOperation id 5 ''t'' ''o1'' OSucceeded None None None op_example = Inr s'
     \<and> map (\<lambda>r. tr_verdict (to_row r)) (trace s') = [VOk] \<and> has_row (\<lambda>e. ev_dedup e = Some ''op:o1:completed'') (events s')"
proof -
  obtain s' where c: "completeOperation id 5 ''t'' ''o1'' OSucceeded None None None op_example = Inr s'"
    using op_example_completes by blast
  note g = op_example_get
  have t0: "trace op_example = []"
    by (simp add: op_example_def recordOperation_def log_example_def createTask_def insert_row_def init_store_def putSnapshot_def has_row_iff)
  have o: "operationEnded OSucceeded \<and> \<not> operationEnded (op_status (hd (operations op_example)))" by (simp add: op_example_ops)
  from completion_lands_everywhere [OF c g] have e: "has_row (\<lambda>e. ev_tenant e = ''t'' \<and> ev_dedup e = Some (completed_key ''o1'')) (events s')" by blast
  have "''o1'' \<noteq> []" by simp
  note l = conjunct2 [OF conjunct2 [OF conjunct2 [OF completion_lands_everywhere [OF c g this]]]]
  have "map (\<lambda>r. tr_verdict r) (map to_row (trace s')) = [VOk]"
    unfolding l if_P [OF o] t0 by (simp only: list.map append_Nil tool_call_verdict operationVerdict.simps)
  then have "map (\<lambda>r. tr_verdict (to_row r)) (trace s') = [VOk]" by (simp add: comp_def)
  moreover have "has_row (\<lambda>e. ev_dedup e = Some ''op:o1:completed'') (events s')"
    using e by (auto simp: has_row_iff completed_key_def)
  ultimately show ?thesis using c by (intro exI [of _ s'] conjI)
qed

section \<open>A wait and a completion never miss each other\<close>

lemma get_op_completed:
  assumes "completeOperation redact now tn oid status ref result facts s = Inr s'" and "get_op tn oid s = Some op"
  shows "get_op tn oid s' = Some (completed_op now status ref op)" and "\<not> has_row (waits_on tn oid) (waits s')"
    and "tasks s' = tasks s" and "cursors s' = cursors s"
proof -
  from assms obtain r s2 where
    i: "insertEvent now (completed_event (completed_op now status ref op) oid (completedPayload oid status ref result facts))
       (resolve_waits tn oid (set_status now tn oid status ref s)) = Inr (r, s2)"
    and s': "s' = (if operationEnds (Some (op_status op)) status
       then appendTrace [toolCallRow redact (completed_op now status ref op) status now facts] s2 else s2)"
    by (rule completeE)
  show "get_op tn oid s' = Some (completed_op now status ref op)"
    using get_op_set_status [of tn oid now status ref s] assms(2) insertEvent_frame(6) [OF i] by (simp add: s' get_op_def)
  show "\<not> has_row (waits_on tn oid) (waits s')"
    using resolve_waits_none insertEvent_frame(5) [OF i] by (simp add: s')
  show "tasks s' = tasks s" "cursors s' = cursors s"
    using insertEvent_frame(1,2) [OF i] by (simp_all add: s')
qed

text \<open>
  A result and a wait cannot miss each other. Whenever the wait was registered, a completion leaves no wait on the operation
  unresolved; and a wait registered after a completion that says succeeded, failed, cancelled or unknown is told at once
  that it is satisfied, and nothing is registered.
\<close>

theorem wait_and_completion_never_miss:
  assumes "get_op tn oid s = Some op" and "completeOperation redact now tn oid status ref result facts s = Inr s'"
    and "ws_kind w = WOperation" and "ws_operation w = Some oid" and "oid \<noteq> []"
  shows "(\<forall>x\<in>set (waits s'). wa_tenant x = tn \<and> wa_operation x = Some oid \<longrightarrow> wa_resolved x)
    \<and> (status \<in> {OSucceeded, OFailed, OCancelled, OUnknown} \<longrightarrow> registerWait tn tk gen w s' = (AlreadySatisfied, s'))"
proof -
  note c = get_op_completed [OF assms(2,1)]
  have "\<forall>x\<in>set (waits s'). wa_tenant x = tn \<and> wa_operation x = Some oid \<longrightarrow> wa_resolved x"
    using c(2) by (simp add: has_row_iff waits_on_def)
  moreover have "registerWait tn tk gen w s' = (AlreadySatisfied, s')" if "status \<in> {OSucceeded, OFailed, OCancelled, OUnknown}"
    using c(1) assms(3-5) that unfolding get_op_def by (simp add: registerWait_def truthy_def completed_op_def)
  ultimately show ?thesis by blast
qed

theorem wait_and_completion_never_miss_witness:
  "\<exists>s'. completeOperation id 5 ''t'' ''o1'' OFailed None None None op_example = Inr s'
     \<and> registerWait ''t'' ''k'' 0 \<lparr>ws_kind = WOperation, ws_operation = Some ''o1'', ws_deadline = None\<rparr> s' = (AlreadySatisfied, s')"
proof -
  let ?w = "\<lparr>ws_kind = WOperation, ws_operation = Some ''o1'', ws_deadline = None\<rparr>"
  obtain s' where c: "completeOperation id 5 ''t'' ''o1'' OFailed None None None op_example = Inr s'"
    using op_example_completes by blast
  have "registerWait ''t'' ''k'' 0 ?w s' = (AlreadySatisfied, s')"
    using wait_and_completion_never_miss [OF op_example_get c, of ?w "''k''" 0] by simp
  with c show ?thesis by (intro exI [of _ s'] conjI)
qed

text \<open>
  An end the wait does not know. \<open>rejected\<close> is an end of an operation everywhere else: the completion that
  says so writes the call's one trace row. A wait registered after it is registered all the same and stays unresolved:
  \<open>registerWait\<close> asks only for the four other ends.
\<close>

theorem wait_on_a_rejected_operation_is_registered:
  assumes "get_op tn oid s = Some op" and "completeOperation redact now tn oid ORejected ref result facts s = Inr s'"
    and "ws_kind w = WOperation" and "ws_operation w = Some oid"
  shows "operationEnded ORejected \<and> fst (registerWait tn tk gen w s') = Registered
    \<and> has_row (waits_on tn oid) (waits (snd (registerWait tn tk gen w s')))"
  using get_op_completed(1) [OF assms(2,1)] assms(3,4) unfolding get_op_def
  by (auto simp: registerWait_def truthy_def completed_op_def randomUUID_def has_row_iff waits_on_def split: if_splits)

theorem wait_on_a_rejected_operation_is_registered_witness:
  "\<exists>s'. completeOperation id 5 ''t'' ''o1'' ORejected None None None op_example = Inr s'
     \<and> fst (registerWait ''t'' ''k'' 0 \<lparr>ws_kind = WOperation, ws_operation = Some ''o1'', ws_deadline = None\<rparr> s') = Registered"
proof -
  obtain s' where c: "completeOperation id 5 ''t'' ''o1'' ORejected None None None op_example = Inr s'"
    using op_example_completes by blast
  note g = op_example_get
  from wait_on_a_rejected_operation_is_registered [OF g c, of "\<lparr>ws_kind = WOperation, ws_operation = Some ''o1'', ws_deadline = None\<rparr>" "''k''" 0] c
  show ?thesis by auto
qed

section \<open>The second completion\<close>

text \<open>
  An operation is announced once, by its first completion. Once its completion event is in the log, every later completion
  (the end of a call that first completed as running, the second run of one that was rejected) still updates the record
  and resolves the waits, and adds nothing to the log: the event's status and result stay those of the first.
\<close>

theorem later_completion_is_not_announced:
  assumes "completeOperation redact now tn oid status ref result facts s = Inr s'" and "get_op tn oid s = Some op"
    and "completeOperation redact now' tn oid status' ref' result' facts' s' = Inr s''"
  shows "events s'' = events s' \<and> get_op tn oid s'' = Some (op\<lparr>op_status := status', op_result_ref := ref', op_updated := now'\<rparr>)"
proof -
  let ?e = "completed_event (completed_op now status ref op) oid (completedPayload oid status ref result facts)"
  from assms(1,2) obtain r s2 where i: "insertEvent now ?e (resolve_waits tn oid (set_status now tn oid status ref s)) = Inr (r, s2)"
    and s': "s' = (if operationEnds (Some (op_status op)) status
       then appendTrace [toolCallRow redact (completed_op now status ref op) status now facts] s2 else s2)" by (rule completeE)
  have id: "op_tenant op = tn" using is_operation_id [OF assms(2)] by simp
  have k: "has_row (\<lambda>x. ev_tenant x = tn \<and> ev_dedup x = Some (completed_key oid)) (events s')"
    using insertEvent_has_key [OF i] id by (simp add: s' completed_event_def completed_key_def truthy_def completed_op_def)
  note c = get_op_completed(1) [OF assms(1,2)]
  from assms(3) c obtain r' s3 where
    i': "insertEvent now' (completed_event (completed_op now' status' ref' (completed_op now status ref op)) oid
      (completedPayload oid status' ref' result' facts')) (resolve_waits tn oid (set_status now' tn oid status' ref' s')) = Inr (r', s3)"
    and "s'' = (if operationEnds (Some (op_status (completed_op now status ref op))) status'
       then appendTrace [toolCallRow redact (completed_op now' status' ref' (completed_op now status ref op)) status' now' facts'] s3 else s3)"
    by (rule completeE)
  from this(2) have s'': "events s'' = events s3" by simp
  have "events s3 = events s'"
    using i'
  proof (cases rule: insertEvent_cases)
    case (duplicate dup)
    then show ?thesis by simp
  next
    case fresh
    with k id show ?thesis
      by (auto simp: dedup_row_def completed_event_def completed_key_def truthy_def completed_op_def has_row_get_row)
  qed
  with s'' get_op_completed(1) [OF assms(3) c] show ?thesis by (simp add: completed_op_def)
qed

theorem later_completion_is_not_announced_witness:
  "\<exists>s' s''. completeOperation id 5 ''t'' ''o1'' ORunning None None None op_example = Inr s'
     \<and> completeOperation id 9 ''t'' ''o1'' OSucceeded None (Some (JNum 42)) None s' = Inr s'' \<and> events s'' = events s'"
proof -
  obtain s' where c: "completeOperation id 5 ''t'' ''o1'' ORunning None None None op_example = Inr s'" "log_inv s'"
    using op_example_completes by blast
  note g = get_op_completed(1) [OF c(1) op_example_get]
  have "\<exists>s''. completeOperation id 9 ''t'' ''o1'' OSucceeded None (Some (JNum 42)) None s' = Inr s'' \<and> log_inv s''"
  proof (rule complete_total [OF c(2) g])
    fix t assume "get_task ''t'' (op_task (completed_op 5 ORunning None (hd (operations op_example)))) s' = Some t"
    then show "tk_agent t = op_agent (completed_op 5 ORunning None (hd (operations op_example)))"
      using log_example_task get_op_completed(3) [OF c(1) op_example_get]
      by (simp add: get_task_def op_example_log(2) op_example_ops completed_op_def)
  qed
  then obtain s'' where c': "completeOperation id 9 ''t'' ''o1'' OSucceeded None (Some (JNum 42)) None s' = Inr s''" by blast
  from later_completion_is_not_announced [OF c(1) op_example_get c'] have "events s'' = events s'" by (rule conjunct1)
  with c(1) c' show ?thesis by (intro exI [of _ s'] exI [of _ s''] conjI)
qed

end
