(* ===== verification/Approvals.thy ===== *)
theory Approvals
  imports Trace Interfaces "HOL-Library.Option_ord"
begin

text \<open>
  Calls held for a person: \<open>src/src/store/approvals-schema.ts\<close> (the rule for a decision, the rule for a delivery report, the columns
  added since and their follow-ups) and the approval operations of the two stores, which are the same statement for statement.
  The lemmas show that a hold is decided once and run once, that a late decision never runs a call, that identical calls share
  one hold, that the life of a hold has no way back, that a \<open>delivered\<close> report is final, and that an upgrade never lets a
  call that already ran be run again.
\<close>

section \<open>The schema's rules\<close>

definition DEFAULT_APPROVAL_TTL_MS :: int where "DEFAULT_APPROVAL_TTL_MS = 24 * 60 * 60 * 1000"

definition DELIVERY_SKEW_MS :: int where "DELIVERY_SKEW_MS = 60000"

definition FINAL_STATES :: "approval_state list" where
  "FINAL_STATES = [ADenied, AExpired, AExecuted, AFailed]"

text \<open>A row as its readers see it: the columns under the record's names.\<close>

definition mapApproval :: "approval_row \<Rightarrow> approval_record" where
  "mapApproval r = ar_record r"

datatype decision_problem = AlreadyDecided | PastDeadline | NotDue

definition decisionProblem :: "approval_record \<Rightarrow> approval_decision \<Rightarrow> int \<Rightarrow> decision_problem option" where
  "decisionProblem r decision now =
     (if ap_state r \<noteq> APending then Some AlreadyDecided
      else let due = (case ap_expires r of None \<Rightarrow> False | Some e \<Rightarrow> e \<le> now) in
        if decision = DExpired then (if due then None else Some NotDue)
        else (if due then Some PastDeadline else None))"

datatype delivery_step = Keep | Write | Late

definition deliveryStep :: "approval_record \<Rightarrow> approval_delivery \<Rightarrow> delivery_step" where
  "deliveryStep r report =
     (if map_option dl_outcome (ap_delivery r) = Some Delivered then Keep
      else if map_option dl_outcome (ap_delivery r) = Some NoRecipient \<and> dl_outcome report = NoRecipient then Keep
      else let hold_end =
          (if ap_state r = APending \<or> ap_state r = AExpired
           then (case ap_expires r of Some e \<Rightarrow> Some e | None \<Rightarrow> if ap_state r = AExpired then ap_decided_at r else None)
           else ap_decided_at r) in
        (case hold_end of None \<Rightarrow> Write | Some e \<Rightarrow> if e + DELIVERY_SKEW_MS < dl_at report then Late else Write))"

section \<open>Holding a call\<close>

text \<open>What a caller asks to hold.\<close>

record hold_request =
  hr_tenant :: string
  hr_operation :: string
  hr_agent :: string
  hr_task :: string
  hr_mount :: string
  hr_tool :: string
  hr_request :: json
  hr_expires :: "int option"

definition new_approval :: "int \<Rightarrow> hold_request \<Rightarrow> approval_row" where
  "new_approval now a =
     \<lparr>ar_record = \<lparr>ap_tenant = hr_tenant a, ap_operation = hr_operation a, ap_agent = hr_agent a, ap_task = hr_task a,
        ap_mount = hr_mount a, ap_tool = hr_tool a, ap_request = j (Some (hr_request a)), ap_state = APending,
        ap_approver = None, ap_decided_at = None, ap_created = now, ap_expires = hr_expires a, ap_decided_by = None,
        ap_outcome = None, ap_run_at = None, ap_delivery = None, ap_handoff = None\<rparr>,
      ar_notice = None, ar_told = None, ar_published = None\<rparr>"

definition is_approval :: "string \<Rightarrow> string \<Rightarrow> approval_row \<Rightarrow> bool" where
  "is_approval tenant operation r \<longleftrightarrow> ap_tenant (ar_record r) = tenant \<and> ap_operation (ar_record r) = operation"

definition requireApproval :: "int \<Rightarrow> hold_request \<Rightarrow> store \<Rightarrow> store" where
  "requireApproval now a s =
     s\<lparr>approvals := insert_ignore (is_approval (hr_tenant a) (hr_operation a)) (new_approval now a) (approvals s)\<rparr>"

definition live_hold :: "int \<Rightarrow> hold_request \<Rightarrow> approval_row \<Rightarrow> bool" where
  "live_hold now a r \<longleftrightarrow> ap_tenant (ar_record r) = hr_tenant a \<and> ap_agent (ar_record r) = hr_agent a
     \<and> ap_mount (ar_record r) = hr_mount a \<and> ap_tool (ar_record r) = hr_tool a \<and> ap_state (ar_record r) = APending
     \<and> (case ap_expires (ar_record r) of None \<Rightarrow> True | Some e \<Rightarrow> now < e)"

datatype hold_result = Created | Existing approval_record

definition holdApproval :: "int \<Rightarrow> hold_request \<Rightarrow> (approval_record \<Rightarrow> bool) \<Rightarrow> store \<Rightarrow> hold_result \<times> store" where
  "holdApproval now a same s =
     (case find same (map mapApproval (order_by (\<lambda>r. ap_created (ar_record r)) (filter (live_hold now a) (approvals s)))) of
        Some existing \<Rightarrow> (Existing existing, s)
      | None \<Rightarrow> (Created, s\<lparr>approvals :=
          insert_ignore (is_approval (hr_tenant a) (hr_operation a)) (new_approval now a) (approvals s)\<rparr>))"

definition getApproval :: "string \<Rightarrow> string \<Rightarrow> store \<Rightarrow> approval_record option" where
  "getApproval tenant operation s = map_option mapApproval (get_row (is_approval tenant operation) (approvals s))"

section \<open>Deciding, running, ending\<close>

datatype decide_result = Decided approval_record | NotFound | Undecided decision_problem approval_record

fun decision_state :: "approval_decision \<Rightarrow> approval_state" where
  "decision_state DApproved = AApproved"
| "decision_state DDenied = ADenied"
| "decision_state DExpired = AExpired"

definition set_decision :: "approval_decision \<Rightarrow> string \<Rightarrow> int \<Rightarrow> decided_by option \<Rightarrow> approval_record \<Rightarrow> approval_record" where
  "set_decision decision approver at by_whom r =
     r\<lparr>ap_state := decision_state decision, ap_approver := Some approver, ap_decided_at := Some at, ap_decided_by := by_whom\<rparr>"

definition decideApproval :: "int \<Rightarrow> string \<Rightarrow> string \<Rightarrow> approval_decision \<Rightarrow> string \<Rightarrow> decided_by option \<Rightarrow> string option \<Rightarrow> store
    \<Rightarrow> decide_result \<times> store" where
  "decideApproval now tenant operation decision approver by_whom notice s =
     (case get_row (is_approval tenant operation) (approvals s) of
        None \<Rightarrow> (NotFound, s)
      | Some r \<Rightarrow>
          (case decisionProblem (ar_record r) decision now of
             Some problem \<Rightarrow> (Undecided problem (mapApproval r), s)
           | None \<Rightarrow>
               (Decided (set_decision decision approver now by_whom (ar_record r)),
                appendTrace [approvalRow tenant (ap_agent (ar_record r)) (ap_task (ar_record r)) operation (ap_mount (ar_record r))
                    (ap_tool (ar_record r)) decision approver (ap_created (ar_record r)) now]
                  (s\<lparr>approvals := update_where (is_approval tenant operation)
                     (\<lambda>x. x\<lparr>ar_record := set_decision decision approver now by_whom (ar_record x), ar_notice := notice\<rparr>) (approvals s)\<rparr>))))"

definition listApprovals :: "string \<Rightarrow> approval_state option \<Rightarrow> store \<Rightarrow> approval_record list" where
  "listApprovals tenant st s =
     map mapApproval (order_by (\<lambda>r. ap_created (ar_record r))
       (filter (\<lambda>r. ap_tenant (ar_record r) = tenant \<and> (case st of None \<Rightarrow> True | Some x \<Rightarrow> ap_state (ar_record r) = x)) (approvals s)))"

definition claimApprovalRun :: "string \<Rightarrow> string \<Rightarrow> int \<Rightarrow> store \<Rightarrow> bool \<times> store" where
  "claimApprovalRun tenant operation at s =
     (case get_row (is_approval tenant operation) (approvals s) of
        None \<Rightarrow> (False, s)
      | Some r \<Rightarrow>
          if ap_state (ar_record r) \<noteq> AApproved \<or> ap_run_at (ar_record r) \<noteq> None then (False, s)
          else (True, s\<lparr>approvals := update_where (is_approval tenant operation)
             (\<lambda>x. x\<lparr>ar_record := (ar_record x)\<lparr>ap_run_at := Some at\<rparr>\<rparr>) (approvals s)\<rparr>))"

datatype run_end = RunExecuted | RunFailed

fun run_end_state :: "run_end \<Rightarrow> approval_state" where
  "run_end_state RunExecuted = AExecuted"
| "run_end_state RunFailed = AFailed"

definition finishApproval :: "string \<Rightarrow> string \<Rightarrow> run_end \<Rightarrow> string \<Rightarrow> string \<Rightarrow> store \<Rightarrow> bool \<times> store" where
  "finishApproval tenant operation how summary notice s =
     (case get_row (is_approval tenant operation) (approvals s) of
        None \<Rightarrow> (False, s)
      | Some r \<Rightarrow>
          if ap_state (ar_record r) \<noteq> AApproved then (False, s)
          else (True, s\<lparr>approvals := update_where (is_approval tenant operation)
             (\<lambda>x. x\<lparr>ar_record := (ar_record x)\<lparr>ap_state := run_end_state how, ap_outcome := Some summary\<rparr>,
                     ar_notice := Some notice\<rparr>) (approvals s)\<rparr>))"

datatype delivery_outcome = DeliveryRecorded bool approval_record | DeliveryNotFound | DeliveryLate approval_record

definition recordApprovalDelivery :: "string \<Rightarrow> string \<Rightarrow> approval_delivery \<Rightarrow> store \<Rightarrow> delivery_outcome \<times> store" where
  "recordApprovalDelivery tenant operation report s =
     (case get_row (is_approval tenant operation) (approvals s) of
        None \<Rightarrow> (DeliveryNotFound, s)
      | Some r \<Rightarrow>
          (case deliveryStep (ar_record r) report of
             Late \<Rightarrow> (DeliveryLate (mapApproval r), s)
           | Keep \<Rightarrow> (DeliveryRecorded False (mapApproval r), s)
           | Write \<Rightarrow>
               (DeliveryRecorded True ((ar_record r)\<lparr>ap_delivery := Some report\<rparr>),
                s\<lparr>approvals := update_where (is_approval tenant operation)
                   (\<lambda>x. x\<lparr>ar_record := (ar_record x)\<lparr>ap_delivery := Some report\<rparr>\<rparr>) (approvals s)\<rparr>)))"

text \<open>\<open>ORDER BY decided_at ASC\<close>: a \<open>NULL\<close> sorts first.\<close>

definition untoldApprovals :: "string \<Rightarrow> store \<Rightarrow> (approval_record \<times> string option) list" where
  "untoldApprovals tenant s =
     map (\<lambda>r. (mapApproval r, ar_notice r))
       (order_by (\<lambda>r. ap_decided_at (ar_record r))
         (filter (\<lambda>r. ap_tenant (ar_record r) = tenant \<and> ap_state (ar_record r) \<in> set FINAL_STATES \<and> ar_told r = None) (approvals s)))"

section \<open>Bringing an older table to today's columns\<close>

text \<open>Each \<open>ALTER\<close> with its follow-ups; \<open>ops\<close> are the rows of \<open>operations\<close> the follow-up of \<open>run_at\<close> asks.\<close>

definition then_expires_at :: "approval_row list \<Rightarrow> approval_row list" where
  "then_expires_at = update_where (\<lambda>r. ap_state (ar_record r) = APending \<and> ap_expires (ar_record r) = None)
     (\<lambda>r. r\<lparr>ar_record := (ar_record r)\<lparr>ap_expires := Some (ap_created (ar_record r) + DEFAULT_APPROVAL_TTL_MS)\<rparr>\<rparr>)"

definition then_told_at :: "approval_row list \<Rightarrow> approval_row list" where
  "then_told_at = update_where (\<lambda>r. ap_state (ar_record r) \<noteq> APending \<and> ar_told r = None)
     (\<lambda>r. r\<lparr>ar_told := Some (or_else (ap_decided_at (ar_record r)) (ap_created (ar_record r)))\<rparr>)"

definition then_published_state :: "approval_row list \<Rightarrow> approval_row list" where
  "then_published_state = update_where (\<lambda>r. ap_state (ar_record r) \<noteq> APending) (\<lambda>r. r\<lparr>ar_published := Some (ap_state (ar_record r))\<rparr>)"

definition then_run_at :: "operation_row list \<Rightarrow> approval_row list \<Rightarrow> approval_row list" where
  "then_run_at ops rows =
     update_where (\<lambda>r. ar_published r \<noteq> None) (\<lambda>r. r\<lparr>ar_published := Some (ap_state (ar_record r))\<rparr>)
       (update_where (\<lambda>r. ap_state (ar_record r) = AApproved)
          (\<lambda>r. r\<lparr>ar_record := (ar_record r)\<lparr>
             ap_state := (if map_option op_status (get_row (\<lambda>o'. op_tenant o' = ap_tenant (ar_record r) \<and> op_id o' = ap_operation (ar_record r)) ops)
                 = Some OSucceeded then AExecuted else AFailed),
             ap_run_at := Some (or_else (ap_decided_at (ar_record r)) (ap_created (ar_record r)))\<rparr>\<rparr>) rows)"

definition APPROVAL_ALTERS :: "operation_row list \<Rightarrow> (string \<times> (approval_row list \<Rightarrow> approval_row list)) list" where
  "APPROVAL_ALTERS ops =
     [(''expires_at'', then_expires_at), (''decided_by'', id), (''notice'', id), (''told_at'', then_told_at),
      (''published_state'', then_published_state), (''run_at'', then_run_at ops), (''outcome'', id),
      (''delivery_outcome'', id), (''delivery_at'', id), (''handoff'', id)]"

text \<open>An \<open>ALTER\<close> of a column the table has throws, and is skipped with its follow-ups.\<close>

fun add_column :: "string \<times> (approval_row list \<Rightarrow> approval_row list) \<Rightarrow> string list \<times> approval_row list
    \<Rightarrow> string list \<times> approval_row list" where
  "add_column (column, followup) (cols, rows) = (if column \<in> set cols then (cols, rows) else (column # cols, followup rows))"

definition migrateApprovals :: "operation_row list \<Rightarrow> string list \<times> approval_row list \<Rightarrow> string list \<times> approval_row list" where
  "migrateApprovals ops t = fold add_column (APPROVAL_ALTERS ops) t"

section \<open>Decided once, run once\<close>

text \<open>A table of approvals has one row for each tenant and operation.\<close>

definition approval_key :: "approval_row \<Rightarrow> string \<times> string" where
  "approval_key r = (ap_tenant (ar_record r), ap_operation (ar_record r))"

definition approval_of :: "string \<Rightarrow> string \<Rightarrow> store \<Rightarrow> approval_row option" where
  "approval_of tn oid s = get_row (is_approval tn oid) (approvals s)"

definition decided :: "string \<Rightarrow> string \<Rightarrow> store \<Rightarrow> bool" where
  "decided tn oid s \<longleftrightarrow> (\<exists>r. approval_of tn oid s = Some r \<and> ap_state (ar_record r) \<noteq> APending)"

lemma approval_of_update:
  assumes "\<And>r. is_approval tn oid (f r) = is_approval tn oid r"
  shows "get_row (is_approval tn' oid') (update_where (is_approval tn oid) f rows) =
    (if tn' = tn \<and> oid' = oid then map_option f (get_row (is_approval tn oid) rows) else get_row (is_approval tn' oid') rows)"
proof (cases "tn' = tn \<and> oid' = oid")
  case True
  have "get_row (is_approval tn oid) (update_where (is_approval tn oid) f rows) = map_option f (get_row (is_approval tn oid) rows)"
    by (intro get_row_update_same) (simp add: assms)
  with True show ?thesis by simp
next
  case False
  have "get_row (is_approval tn' oid') (update_where (is_approval tn oid) f rows) = get_row (is_approval tn' oid') rows"
  proof (rule get_row_update_other)
    fix r assume r: "is_approval tn oid r"
    then have "is_approval tn oid (f r)" by (simp add: assms)
    with r False show "\<not> is_approval tn' oid' r \<and> \<not> is_approval tn' oid' (f r)" by (auto simp: is_approval_def)
  qed
  with False show ?thesis by auto
qed

text \<open>One attempt to decide: when, what, who, and what the agent is to be told.\<close>

definition try_decide :: "string \<Rightarrow> string \<Rightarrow> int \<times> approval_decision \<times> string \<times> decided_by option \<times> string option \<Rightarrow> store \<Rightarrow> bool \<times> store" where
  "try_decide tn oid c s =
     (case c of (now, decision, approver, by_whom, notice) \<Rightarrow>
      case decideApproval now tn oid decision approver by_whom notice s of
        (Decided _, s') \<Rightarrow> (True, s') | (NotFound, s') \<Rightarrow> (False, s') | (Undecided _ _, s') \<Rightarrow> (False, s'))"

lemma decide_cases:
  assumes "decideApproval now tn oid d who by_whom notice s = (res, s')"
  obtains (missing) "approval_of tn oid s = None" and "res = NotFound" and "s' = s"
    | (refused) r problem where "approval_of tn oid s = Some r" and "decisionProblem (ar_record r) d now = Some problem"
      and "res = Undecided problem (ar_record r)" and "s' = s"
    | (landed) r where "approval_of tn oid s = Some r" and "decisionProblem (ar_record r) d now = None"
      and "res = Decided (set_decision d who now by_whom (ar_record r))"
      and "approval_of tn oid s' = Some (r\<lparr>ar_record := set_decision d who now by_whom (ar_record r), ar_notice := notice\<rparr>)"
      and "\<And>tn' oid'. tn' \<noteq> tn \<or> oid' \<noteq> oid \<Longrightarrow> approval_of tn' oid' s' = approval_of tn' oid' s"
proof (cases "approval_of tn oid s")
  case None
  then have "res = NotFound" "s' = s" using assms by (simp_all add: decideApproval_def approval_of_def)
  with None show ?thesis by (rule missing)
next
  case (Some r)
  show ?thesis
  proof (cases "decisionProblem (ar_record r) d now")
    case None
    have u: "\<And>x. is_approval tn oid (x\<lparr>ar_record := set_decision d who now by_whom (ar_record x), ar_notice := notice\<rparr>) = is_approval tn oid x"
      by (simp add: is_approval_def set_decision_def)
    from None Some assms have res: "res = Decided (set_decision d who now by_whom (ar_record r))"
      and a: "approvals s' = update_where (is_approval tn oid)
           (\<lambda>x. x\<lparr>ar_record := set_decision d who now by_whom (ar_record x), ar_notice := notice\<rparr>) (approvals s)"
      by (auto simp: decideApproval_def approval_of_def)
    show ?thesis
      by (rule landed [OF Some None res]) (use Some in \<open>auto simp: approval_of_def a approval_of_update [OF u]\<close>)
  next
    case (Some problem)
    with \<open>approval_of tn oid s = Some r\<close> have "res = Undecided problem (ar_record r)" "s' = s"
      using assms by (simp_all add: decideApproval_def approval_of_def mapApproval_def)
    with Some \<open>approval_of tn oid s = Some r\<close> show ?thesis by (intro refused)
  qed
qed

lemma try_decide_decided:
  assumes "decided tn oid s"
  shows "try_decide tn oid c s = (False, s)"
proof -
  obtain now d who b notice where c: "c = (now, d, who, b, notice)" by (cases c)
  from assms show ?thesis
    by (auto simp: try_decide_def c decideApproval_def decided_def approval_of_def decisionProblem_def)
qed

lemma try_decide_wins:
  assumes "try_decide tn oid c s = (True, s')"
  shows "decided tn oid s'"
proof -
  obtain now d who b notice where c: "c = (now, d, who, b, notice)" by (cases c)
  obtain res t where r: "decideApproval now tn oid d who b notice s = (res, t)" by fastforce
  with assms c have t: "s' = t" "\<exists>x. res = Decided x" by (auto simp: try_decide_def split: decide_result.splits)
  from r show ?thesis
  proof (cases rule: decide_cases)
    case (landed x)
    then show ?thesis by (cases d) (simp_all add: decided_def t set_decision_def)
  qed (use t in auto)
qed

interpretation decide_race: one_winner "try_decide tn oid" "decided tn oid" for tn oid
  by unfold_locales (auto simp: try_decide_decided intro: try_decide_wins)

text \<open>
  A hold is decided once. However many people, sweeps and retries decide one held call, in any order and at any times, with anything
  else running between them that does not make the hold pending again, at most one decision lands; so no approval can be
  replayed into a second one.
\<close>

theorem a_hold_is_decided_once:
  assumes "\<And>c e s. (c, e) \<in> set attempts \<Longrightarrow> decided tn oid s \<Longrightarrow> decided tn oid (e s)"
  shows "count_list (claim_outcomes (try_decide tn oid) attempts s) True \<le> 1"
  using assms by (rule decide_race.at_most_one_winner)

definition hold_example :: hold_request where
  "hold_example = \<lparr>hr_tenant = ''t'', hr_operation = ''o1'', hr_agent = ''a'', hr_task = ''k'', hr_mount = ''m'', hr_tool = ''send'',
     hr_request = JNum 1, hr_expires = Some 100\<rparr>"

definition held_example :: store where
  "held_example = requireApproval 1 hold_example init_store"

lemma held_example_row: "approvals held_example = [new_approval 1 hold_example]"
  by (simp add: held_example_def requireApproval_def insert_ignore_def init_store_def has_row_iff)

lemma held_example_of: "approval_of ''t'' ''o1'' held_example = Some (new_approval 1 hold_example)"
  by (simp add: approval_of_def held_example_row is_approval_def new_approval_def hold_example_def)

theorem a_hold_is_decided_once_witness:
  "claim_outcomes (try_decide ''t'' ''o1'')
     [((5, DApproved, ''ann'', None, None), id), ((6, DDenied, ''bob'', None, None), id), ((200, DExpired, '''', Some ByExpiry, None), id)]
     held_example = [True, False, False]"
proof -
  let ?as = "[((5, DApproved, ''ann'', None, None), id), ((6, DDenied, ''bob'', None, None), id), ((200, DExpired, '''', Some ByExpiry, None), id)]"
  have n: "count_list (claim_outcomes (try_decide ''t'' ''o1'') ?as held_example) True \<le> 1"
    by (rule a_hold_is_decided_once) auto
  have "fst (try_decide ''t'' ''o1'' (5, DApproved, ''ann'', None, None) held_example)"
    using held_example_of
    by (simp add: try_decide_def decideApproval_def approval_of_def decisionProblem_def new_approval_def hold_example_def)
  then obtain s1 where s1: "try_decide ''t'' ''o1'' (5, DApproved, ''ann'', None, None) held_example = (True, s1)"
    by (cases "try_decide ''t'' ''o1'' (5, DApproved, ''ann'', None, None) held_example") simp
  note d = try_decide_decided [OF try_decide_wins [OF s1]]
  have "claim_outcomes (try_decide ''t'' ''o1'') ?as held_example = [True, False, False]" by (simp add: s1 d)
  with n show ?thesis by simp
qed

text \<open>The run of an approved call.\<close>

text \<open>The hold was decided and its run was taken, whatever became of it.\<close>

definition run_taken :: "string \<Rightarrow> string \<Rightarrow> store \<Rightarrow> bool" where
  "run_taken tn oid s \<longleftrightarrow> (\<exists>r. approval_of tn oid s = Some r \<and> ap_state (ar_record r) \<noteq> APending \<and> ap_run_at (ar_record r) \<noteq> None)"

definition try_run :: "string \<Rightarrow> string \<Rightarrow> int \<Rightarrow> store \<Rightarrow> bool \<times> store" where
  "try_run tn oid at s = claimApprovalRun tn oid at s"

lemma claim_run_of:
  "approval_of tn' oid' (snd (claimApprovalRun tn oid at s)) =
    (if fst (claimApprovalRun tn oid at s) \<and> tn' = tn \<and> oid' = oid
     then map_option (\<lambda>x. x\<lparr>ar_record := (ar_record x)\<lparr>ap_run_at := Some at\<rparr>\<rparr>) (approval_of tn oid s)
     else approval_of tn' oid' s)"
proof -
  have u: "\<And>x. is_approval tn oid (x\<lparr>ar_record := (ar_record x)\<lparr>ap_run_at := Some at\<rparr>\<rparr>) = is_approval tn oid x"
    by (simp add: is_approval_def)
  show ?thesis
    by (auto simp: claimApprovalRun_def approval_of_def approval_of_update [OF u] split: option.split)
qed

interpretation run_race: one_winner "try_run tn oid" "run_taken tn oid" for tn oid
proof unfold_locales
  fix c s s' assume w: "try_run tn oid c s = (True, s')"
  then have c: "s' = snd (claimApprovalRun tn oid c s)" "fst (claimApprovalRun tn oid c s)" by (simp_all add: try_run_def)
  then obtain r where "approval_of tn oid s = Some r" "ap_state (ar_record r) = AApproved"
    by (auto simp: claimApprovalRun_def approval_of_def split: option.splits if_splits)
  with c show "run_taken tn oid s'" using claim_run_of [of tn oid tn oid c s] by (simp add: run_taken_def)
next
  fix c s assume t: "run_taken tn oid s"
  then have r: "try_run tn oid c s = (False, s)"
    by (auto simp: try_run_def claimApprovalRun_def run_taken_def approval_of_def split: option.split)
  then show "\<not> fst (try_run tn oid c s)" by simp
  from r t show "run_taken tn oid (snd (try_run tn oid c s))" by simp
qed

section \<open>The life of a hold\<close>

text \<open>Every operation that writes the table, with whatever arguments.\<close>

inductive approval_step :: "store \<Rightarrow> store \<Rightarrow> bool" where
  require: "approval_step s (requireApproval now a s)"
| hold: "holdApproval now a same s = (res, s') \<Longrightarrow> approval_step s s'"
| decide: "decideApproval now tn oid d who by_whom notice s = (dres, s') \<Longrightarrow> approval_step s s'"
| run: "claimApprovalRun tn oid at s = (won, s') \<Longrightarrow> approval_step s s'"
| finish: "finishApproval tn oid how summary notice' s = (won, s') \<Longrightarrow> approval_step s s'"
| delivery: "recordApprovalDelivery tn oid report s = (out, s') \<Longrightarrow> approval_step s s'"

text \<open>What a record may become: what was asked never changes, a decision is kept, a run that was taken is kept, an end is kept.\<close>

definition may_become :: "approval_record \<Rightarrow> approval_record \<Rightarrow> bool" where
  "may_become r r' \<longleftrightarrow>
     (ap_tenant r', ap_operation r', ap_agent r', ap_task r', ap_mount r', ap_tool r', ap_request r', ap_created r', ap_expires r')
       = (ap_tenant r, ap_operation r, ap_agent r, ap_task r, ap_mount r, ap_tool r, ap_request r, ap_created r, ap_expires r)
     \<and> (ap_state r \<noteq> APending \<longrightarrow> (ap_approver r', ap_decided_at r', ap_decided_by r') = (ap_approver r, ap_decided_at r, ap_decided_by r))
     \<and> (ap_state r = AApproved \<longrightarrow> ap_state r' \<in> {AApproved, AExecuted, AFailed})
     \<and> (ap_state r \<in> set FINAL_STATES \<longrightarrow> ap_state r' = ap_state r \<and> ap_outcome r' = ap_outcome r)
     \<and> (ap_state r \<noteq> APending \<and> ap_run_at r \<noteq> None \<longrightarrow> ap_run_at r' = ap_run_at r)"

lemma may_become_refl: "may_become r r"
  by (simp add: may_become_def FINAL_STATES_def)

lemma may_become_trans: "may_become a b \<Longrightarrow> may_become b c \<Longrightarrow> may_become a c"
  unfolding may_become_def FINAL_STATES_def by (cases "ap_state a"; cases "ap_state b") auto

definition hold_survives :: "store \<Rightarrow> store \<Rightarrow> bool" where
  "hold_survives s s' \<longleftrightarrow> (\<forall>tn oid r. approval_of tn oid s = Some r \<longrightarrow>
     (\<exists>r'. approval_of tn oid s' = Some r' \<and> may_become (ar_record r) (ar_record r')))"

lemma hold_survives_refl: "hold_survives s s"
  by (auto simp: hold_survives_def may_become_refl)

lemma insert_survives:
  assumes "approvals s' = insert_ignore p x (approvals s)"
  shows "hold_survives s s'"
  unfolding hold_survives_def approval_of_def assms
proof (intro allI impI)
  fix tn oid r assume "get_row (is_approval tn oid) (approvals s) = Some r"
  then have "get_row (is_approval tn oid) (insert_ignore p x (approvals s)) = Some r"
    by (simp add: insert_ignore_def get_row_append)
  then show "\<exists>r'. get_row (is_approval tn oid) (insert_ignore p x (approvals s)) = Some r' \<and> may_become (ar_record r) (ar_record r')"
    by (simp add: may_become_refl)
qed

lemma update_survives:
  assumes "approvals s' = update_where (is_approval tn oid) f (approvals s)" and "\<And>x. is_approval tn oid (f x) = is_approval tn oid x"
    and "\<And>r. approval_of tn oid s = Some r \<Longrightarrow> may_become (ar_record r) (ar_record (f r))"
  shows "hold_survives s s'"
  unfolding hold_survives_def
proof (intro allI impI)
  fix tn' oid' r assume r: "approval_of tn' oid' s = Some r"
  show "\<exists>r'. approval_of tn' oid' s' = Some r' \<and> may_become (ar_record r) (ar_record r')"
  proof (cases "tn' = tn \<and> oid' = oid")
    case True
    with r have "approval_of tn oid s' = Some (f r)" by (simp add: approval_of_def assms(1) approval_of_update [OF assms(2)])
    with True r assms(3) show ?thesis by auto
  next
    case False
    with r have "approval_of tn' oid' s' = Some r" by (auto simp: approval_of_def assms(1) approval_of_update [OF assms(2)])
    then show ?thesis by (auto simp: may_become_refl)
  qed
qed

lemma approval_step_survives: "approval_step s s' \<Longrightarrow> hold_survives s s'"
proof (induction rule: approval_step.induct)
  case (require s now a)
  then show ?case by (rule insert_survives) (simp add: requireApproval_def)
next
  case (hold now a same s res s')
  then show ?case
    by (auto simp: holdApproval_def hold_survives_refl split: option.splits intro: insert_survives)
next
  case (decide now tn oid d who by_whom notice s dres s')
  from decide show ?case
  proof (cases rule: decide_cases)
    case (landed r)
    show ?thesis
      unfolding hold_survives_def
    proof (intro allI impI)
      fix tn' oid' x assume "approval_of tn' oid' s = Some x"
      with landed show "\<exists>r'. approval_of tn' oid' s' = Some r' \<and> may_become (ar_record x) (ar_record r')"
        by (cases "tn' = tn \<and> oid' = oid")
          (auto simp: may_become_refl, auto simp: may_become_def set_decision_def decisionProblem_def FINAL_STATES_def split: if_splits)
    qed
  qed (simp_all add: hold_survives_refl)
next
  case (run tn oid at s won s')
  show ?case
  proof (cases won)
    case True
    with run obtain r where r: "approval_of tn oid s = Some r" "ap_run_at (ar_record r) = None" "ap_state (ar_record r) = AApproved"
      and a: "approvals s' = update_where (is_approval tn oid) (\<lambda>x. x\<lparr>ar_record := (ar_record x)\<lparr>ap_run_at := Some at\<rparr>\<rparr>) (approvals s)"
      by (auto simp: claimApprovalRun_def approval_of_def split: option.splits if_splits)
    show ?thesis
      by (rule update_survives [OF a]) (use r in \<open>auto simp: is_approval_def may_become_def FINAL_STATES_def\<close>)
  next
    case False
    with run have "s' = s" by (auto simp: claimApprovalRun_def split: option.splits if_splits)
    then show ?thesis by (simp add: hold_survives_refl)
  qed
next
  case (finish tn oid how summary notice' s won s')
  show ?case
  proof (cases won)
    case True
    with finish obtain r where r: "approval_of tn oid s = Some r" "ap_state (ar_record r) = AApproved"
      and a: "approvals s' = update_where (is_approval tn oid) (\<lambda>x. x\<lparr>ar_record := (ar_record x)\<lparr>ap_state := run_end_state how,
          ap_outcome := Some summary\<rparr>, ar_notice := Some notice'\<rparr>) (approvals s)"
      by (auto simp: finishApproval_def approval_of_def split: option.splits if_splits)
    show ?thesis
      by (rule update_survives [OF a]) (use r in \<open>cases how; auto simp: is_approval_def may_become_def FINAL_STATES_def\<close>)+
  next
    case False
    with finish have "s' = s" by (auto simp: finishApproval_def split: option.splits if_splits)
    then show ?thesis by (simp add: hold_survives_refl)
  qed
next
  case (delivery tn oid report s out s')
  show ?case
  proof (cases "s' = s")
    case True
    then show ?thesis by (simp add: hold_survives_refl)
  next
    case False
    with delivery have a: "approvals s' = update_where (is_approval tn oid)
        (\<lambda>x. x\<lparr>ar_record := (ar_record x)\<lparr>ap_delivery := Some report\<rparr>\<rparr>) (approvals s)"
      by (auto simp: recordApprovalDelivery_def split: option.splits delivery_step.splits)
    show ?thesis
      by (rule update_survives [OF a]) (auto simp: is_approval_def may_become_def FINAL_STATES_def)
  qed
qed

lemma holds_survive:
  assumes "approval_step\<^sup>*\<^sup>* s s'" and "approval_of tn oid s = Some r"
  shows "\<exists>r'. approval_of tn oid s' = Some r' \<and> may_become (ar_record r) (ar_record r')"
  using assms
proof (induction rule: rtranclp_induct)
  case base
  then show ?case by (simp add: may_become_refl)
next
  case (step t u)
  then obtain x where "approval_of tn oid t = Some x" "may_become (ar_record r) (ar_record x)" by blast
  moreover from this(1) approval_step_survives [OF step.hyps(2)] obtain y where
    "approval_of tn oid u = Some y" "may_become (ar_record x) (ar_record y)"
    unfolding hold_survives_def by blast
  ultimately show ?case using may_become_trans by blast
qed

text \<open>
  C6: A hold's life has no way back. Over any run of the approval operations, a hold is never lost; what was asked, by whom and until when
  never changes; who decided it and when is never rewritten; an approval can only end as executed or failed; an end (denied, expired,
  executed, failed) and its outcome are for ever; and the time its run was taken is never rewritten.
\<close>

theorem a_hold_has_no_way_back:
  assumes "approval_step\<^sup>*\<^sup>* s s'" and "approval_of tn oid s = Some r"
  shows "\<exists>r'. approval_of tn oid s' = Some r' \<and> may_become (ar_record r) (ar_record r')"
  using assms by (rule holds_survive)

theorem a_hold_has_no_way_back_witness:
  "\<exists>r'. approval_of ''t'' ''o1'' (snd (claimApprovalRun ''t'' ''o1'' 7 (snd (decideApproval 5 ''t'' ''o1'' DApproved ''ann'' None None held_example))))
      = Some r' \<and> may_become (ar_record (new_approval 1 hold_example)) (ar_record r')"
proof -
  let ?s1 = "snd (decideApproval 5 ''t'' ''o1'' DApproved ''ann'' None None held_example)"
  let ?s2 = "snd (claimApprovalRun ''t'' ''o1'' 7 ?s1)"
  have "approval_step held_example ?s1" by (rule approval_step.decide [OF prod.collapse [symmetric]])
  moreover have "approval_step ?s1 ?s2" by (rule approval_step.run [OF prod.collapse [symmetric]])
  ultimately have "approval_step\<^sup>*\<^sup>* held_example ?s2" by (meson converse_rtranclp_into_rtranclp r_into_rtranclp)
  from a_hold_has_no_way_back [OF this held_example_of] show ?thesis .
qed

section \<open>One run for one approval\<close>

text \<open>What may happen between two tries: any operations on the holds, and anything that leaves their table alone.\<close>

definition hold_operations :: "(store \<Rightarrow> store) \<Rightarrow> bool" where
  "hold_operations e \<longleftrightarrow> (\<forall>s. \<exists>t. approval_step\<^sup>*\<^sup>* s t \<and> approvals (e s) = approvals t)"

lemma hold_operations_id: "hold_operations (\<lambda>s. s)" "hold_operations id"
  by (auto simp: hold_operations_def)

lemma taken_for_good:
  assumes "approval_step\<^sup>*\<^sup>* s t" and "run_taken tn oid s"
  shows "run_taken tn oid t"
proof -
  obtain r where r: "approval_of tn oid s = Some r" "ap_state (ar_record r) \<noteq> APending" "ap_run_at (ar_record r) \<noteq> None"
    using assms(2) by (auto simp: run_taken_def)
  from holds_survive [OF assms(1) r(1)] obtain r' where r': "approval_of tn oid t = Some r'" "may_become (ar_record r) (ar_record r')" by blast
  from r'(2) r(2,3) have "ap_state (ar_record r') \<noteq> APending \<and> ap_run_at (ar_record r') \<noteq> None"
    by (cases "ap_state (ar_record r)") (auto simp: may_become_def FINAL_STATES_def)
  with r'(1) show ?thesis by (simp add: run_taken_def)
qed

text \<open>
  C5: An approved call runs at most once. Of any number of passes that try to take the run of one approved call, from any store, at most one is
  told to run it, whatever operations on holds (this one's decision and its end among them) and whatever else happens between them: no operation opens
  a run again, and a pass that stopped before it ended the run does not free it.
\<close>

theorem an_approved_call_runs_once:
  assumes "\<And>c e. (c, e) \<in> set passes \<Longrightarrow> hold_operations e"
  shows "count_list (claim_outcomes (try_run tn oid) passes s) True \<le> 1"
proof (rule run_race.at_most_one_winner)
  fix c e s assume "(c, e) \<in> set passes" and t: "run_taken tn oid s"
  then obtain t where "approval_step\<^sup>*\<^sup>* s t" "approvals (e s) = approvals t" using assms unfolding hold_operations_def by blast
  with taken_for_good [OF this(1) t] show "run_taken tn oid (e s)" by (simp add: run_taken_def approval_of_def)
qed

theorem an_approved_call_runs_once_witness:
  "claim_outcomes (try_run ''t'' ''o1'') [(7, id), (8, id)]
     (snd (decideApproval 5 ''t'' ''o1'' DApproved ''ann'' None None held_example)) = [True, False]"
proof -
  let ?s = "snd (decideApproval 5 ''t'' ''o1'' DApproved ''ann'' None None held_example)"
  have n: "count_list (claim_outcomes (try_run ''t'' ''o1'') [(7, id), (8, id)] ?s) True \<le> 1"
    by (rule an_approved_call_runs_once) (auto simp: hold_operations_id)
  have "\<exists>r. approval_of ''t'' ''o1'' ?s = Some r \<and> ap_state (ar_record r) = AApproved \<and> ap_run_at (ar_record r) = None"
  proof -
    obtain res s' where r: "decideApproval 5 ''t'' ''o1'' DApproved ''ann'' None None held_example = (res, s')" by fastforce
    have np: "decisionProblem (ar_record (new_approval 1 hold_example)) DApproved 5 = None"
      and rn: "ap_run_at (ar_record (new_approval 1 hold_example)) = None"
      by (simp_all add: decisionProblem_def new_approval_def hold_example_def)
    from r show ?thesis
      by (cases rule: decide_cases) (auto simp: r held_example_of np rn set_decision_def)
  qed
  then have "fst (try_run ''t'' ''o1'' 7 ?s)" by (auto simp: try_run_def claimApprovalRun_def approval_of_def)
  then obtain s1 where s1: "try_run ''t'' ''o1'' 7 ?s = (True, s1)" by (cases "try_run ''t'' ''o1'' 7 ?s") simp
  obtain w s2 where "try_run ''t'' ''o1'' 8 s1 = (w, s2)" by fastforce
  with s1 n show ?thesis by (cases w) simp_all
qed

text \<open>
  A late click runs nothing. At or past its deadline a pending hold refuses every person's decision, approval or denial,
  changes nothing, and its run cannot be taken; the expiry, and only it, lands then. Before the deadline, or without one, it is
  the other way round: a person's decision lands and an expiry is refused.
\<close>

theorem a_late_decision_runs_nothing:
  assumes "approval_of tn oid s = Some r" and "ap_state (ar_record r) = APending"
  shows "case ap_expires (ar_record r) of
      Some e \<Rightarrow> (if e \<le> now
        then (\<forall>d. d \<noteq> DExpired \<longrightarrow> decideApproval now tn oid d who by_whom notice s = (Undecided PastDeadline (ar_record r), s))
          \<and> \<not> fst (claimApprovalRun tn oid at s)
          \<and> (\<exists>s'. decideApproval now tn oid DExpired who by_whom notice s = (Decided (set_decision DExpired who now by_whom (ar_record r)), s'))
        else decideApproval now tn oid DExpired who by_whom notice s = (Undecided NotDue (ar_record r), s)
          \<and> (\<forall>d. d \<noteq> DExpired \<longrightarrow>
              (\<exists>s'. decideApproval now tn oid d who by_whom notice s = (Decided (set_decision d who now by_whom (ar_record r)), s'))))
    | None \<Rightarrow> decideApproval now tn oid DExpired who by_whom notice s = (Undecided NotDue (ar_record r), s)"
  using assms
  by (auto simp: decideApproval_def claimApprovalRun_def approval_of_def decisionProblem_def mapApproval_def split: option.split)

theorem a_late_decision_runs_nothing_witness:
  "decideApproval 100 ''t'' ''o1'' DApproved ''ann'' None None held_example
     = (Undecided PastDeadline (ar_record (new_approval 1 hold_example)), held_example)"
proof -
  have p: "ap_state (ar_record (new_approval 1 hold_example)) = APending" by (simp add: new_approval_def)
  from a_late_decision_runs_nothing [OF held_example_of p, where now = 100 and who = "''ann''" and by_whom = None and notice = None]
  show ?thesis by (simp add: new_approval_def hold_example_def)
qed

section \<open>One hold for one call\<close>

text \<open>
  Identical calls share a hold. Once a call is held, an identical call of the same agent, mount and tool that arrives while the hold
  is pending and before its deadline is given that very hold (the record that is pending now) and no second row: two calls of one turn
  cannot both be held. (\<open>same\<close> is the caller's comparison; the operation's id is new, as its key is the call's own.)
\<close>

theorem identical_calls_share_one_hold:
  assumes "holdApproval now a same s = (Created, s1)" and "approval_of (hr_tenant a) (hr_operation a) s = None"
    and "same (ar_record (new_approval now a))"
    and "hr_tenant b = hr_tenant a" "hr_agent b = hr_agent a" "hr_mount b = hr_mount a" "hr_tool b = hr_tool a"
    and "now \<le> later" and "hr_expires a = None \<or> (\<exists>e. hr_expires a = Some e \<and> later < e)"
  shows "holdApproval later b same s1 = (Existing (ar_record (new_approval now a)), s1)"
proof -
  let ?new = "new_approval now a"
  have none: "\<not> same (ar_record x)" if "x \<in> set (approvals s)" "live_hold now a x" for x
  proof -
    have "find same (map mapApproval (order_by (\<lambda>r. ap_created (ar_record r)) (filter (live_hold now a) (approvals s)))) = None"
      using assms(1) by (auto simp: holdApproval_def split: option.splits)
    with that show ?thesis by (auto simp: find_None_iff mapApproval_def)
  qed
  have s1: "approvals s1 = approvals s @ [?new]"
    using assms(1,2) by (auto simp: holdApproval_def insert_ignore_def approval_of_def has_row_get_row split: option.splits)
  have live: "live_hold now a x" if "live_hold later b x" for x
    using that assms(4-8) by (auto simp: live_hold_def split: option.splits)
  have new: "live_hold later b ?new"
    using assms(4-7,9) by (auto simp: live_hold_def new_approval_def)
  let ?rows = "order_by (\<lambda>r. ap_created (ar_record r)) (filter (live_hold later b) (approvals s1))"
  have only: "x = ?new" if "x \<in> set ?rows" "same (ar_record x)" for x
    using that none live by (auto simp: s1 split: if_splits)
  have "?new \<in> set ?rows" using new by (simp add: s1)
  then have "find same (map mapApproval ?rows) \<noteq> None" using assms(3) by (auto simp: find_None_iff mapApproval_def)
  then obtain y where y: "find same (map mapApproval ?rows) = Some y" by blast
  then have "y \<in> set (map mapApproval ?rows) \<and> same y" by (intro get_row_SomeD) (simp add: get_row_def)
  with only have "y = ar_record ?new" by (auto simp: mapApproval_def)
  with y show ?thesis by (simp add: holdApproval_def)
qed

theorem identical_calls_share_one_hold_witness:
  "\<exists>s1. holdApproval 1 hold_example (\<lambda>h. ap_request h = JNum 1) init_store = (Created, s1)
     \<and> holdApproval 2 (hold_example\<lparr>hr_operation := ''o2''\<rparr>) (\<lambda>h. ap_request h = JNum 1) s1
       = (Existing (ar_record (new_approval 1 hold_example)), s1)"
proof -
  obtain s1 where h: "holdApproval 1 hold_example (\<lambda>h. ap_request h = JNum 1) init_store = (Created, s1)"
    by (simp add: holdApproval_def init_store_def order_by_def)
  have n: "approval_of (hr_tenant hold_example) (hr_operation hold_example) init_store = None"
    by (simp add: approval_of_def init_store_def)
  from identical_calls_share_one_hold [OF h n, of "hold_example\<lparr>hr_operation := ''o2''\<rparr>" 2] h show ?thesis
    by (simp add: hold_example_def new_approval_def j_def)
qed

section \<open>Delivery reports\<close>

text \<open>A run of reports on one hold.\<close>

definition report_all :: "string \<Rightarrow> string \<Rightarrow> approval_delivery list \<Rightarrow> store \<Rightarrow> store" where
  "report_all tn oid reports s = fold (\<lambda>d t. snd (recordApprovalDelivery tn oid d t)) reports s"

definition delivery_of :: "string \<Rightarrow> string \<Rightarrow> store \<Rightarrow> approval_delivery option" where
  "delivery_of tn oid s = Option.bind (approval_of tn oid s) (\<lambda>r. ap_delivery (ar_record r))"

lemma delivery_update: "is_approval tn oid (x\<lparr>ar_record := (ar_record x)\<lparr>ap_delivery := Some d\<rparr>\<rparr>) = is_approval tn oid x"
  by (simp add: is_approval_def)

lemma delivery_of_report:
  "delivery_of tn oid (snd (recordApprovalDelivery tn oid d s)) =
    (case approval_of tn oid s of None \<Rightarrow> None
     | Some r \<Rightarrow> if deliveryStep (ar_record r) d = Write then Some d else ap_delivery (ar_record r))"
  by (auto simp: recordApprovalDelivery_def delivery_of_def approval_of_def approval_of_update [OF delivery_update]
      split: option.split delivery_step.split)

text \<open>
  A delivered card is first and final. Once a report that the card was delivered is on record, no further report of any kind, at any time, changes
  what is recorded; the hold's own end and the order of the reports after it do not matter.
\<close>

theorem delivered_is_final:
  assumes "delivery_of tn oid s = Some d" and "dl_outcome d = Delivered"
  shows "delivery_of tn oid (report_all tn oid reports s) = Some d"
  using assms
proof (induction reports arbitrary: s)
  case Nil
  then show ?case by (simp add: report_all_def)
next
  case (Cons x xs)
  have "delivery_of tn oid (snd (recordApprovalDelivery tn oid x s)) = Some d"
  proof (cases "approval_of tn oid s")
    case None
    with Cons.prems show ?thesis by (simp add: delivery_of_def)
  next
    case (Some r)
    with Cons.prems have "ap_delivery (ar_record r) = Some d" by (simp add: delivery_of_def)
    with Some Cons.prems(2) show ?thesis by (simp add: delivery_of_report deliveryStep_def)
  qed
  from Cons.IH [OF this Cons.prems(2)] show ?case by (simp add: report_all_def)
qed

lemma held_example_delivered:
  "delivery_of ''t'' ''o1'' (report_all ''t'' ''o1'' [\<lparr>dl_outcome = NoRecipient, dl_at = 2\<rparr>, \<lparr>dl_outcome = Delivered, dl_at = 3\<rparr>] held_example)
    = Some \<lparr>dl_outcome = Delivered, dl_at = 3\<rparr>"
  by (simp add: report_all_def delivery_of_def recordApprovalDelivery_def approval_of_def held_example_row is_approval_def
      new_approval_def hold_example_def deliveryStep_def DELIVERY_SKEW_MS_def update_where_def)

theorem delivered_is_final_witness:
  "delivery_of ''t'' ''o1'' (report_all ''t'' ''o1'' [\<lparr>dl_outcome = NoRecipient, dl_at = 9\<rparr>, \<lparr>dl_outcome = Delivered, dl_at = 10\<rparr>]
     (report_all ''t'' ''o1'' [\<lparr>dl_outcome = NoRecipient, dl_at = 2\<rparr>, \<lparr>dl_outcome = Delivered, dl_at = 3\<rparr>] held_example))
    = Some \<lparr>dl_outcome = Delivered, dl_at = 3\<rparr>"
  by (rule delivered_is_final [OF held_example_delivered]) simp

section \<open>Upgrading\<close>

lemma then_run_at_none_approved: "\<not> has_row (\<lambda>r. ap_state (ar_record r) = AApproved) (then_run_at ops rows)"
  unfolding then_run_at_def
  by (subst has_row_update_where, simp, rule update_where_clears, simp_all)

lemma add_columns_has: "set (fst t) \<union> fst ` set alters \<subseteq> set (fst (fold add_column alters t))"
proof (induction alters arbitrary: t)
  case (Cons x xs)
  obtain c f where x: "x = (c, f)" by (cases x)
  obtain cs rs where t: "t = (cs, rs)" by (cases t)
  have "set (fst (add_column x t)) \<union> fst ` set xs \<subseteq> set (fst (fold add_column xs (add_column x t)))" by (rule Cons.IH)
  moreover have "set cs \<union> {c} \<subseteq> set (fst (add_column x t))" by (auto simp: x t)
  ultimately show ?case by (auto simp: x t)
qed simp

lemma add_columns_still: "fst ` set alters \<subseteq> set (fst t) \<Longrightarrow> fold add_column alters t = t"
proof (induction alters arbitrary: t)
  case (Cons x xs)
  then have "add_column x t = t" by (cases x; cases t) simp
  with Cons show ?case by simp
qed simp

lemma add_columns_absent:
  "c \<notin> set (fst t) \<Longrightarrow> c \<notin> fst ` set alters \<Longrightarrow> c \<notin> set (fst (fold add_column alters t))"
proof (induction alters arbitrary: t)
  case (Cons x xs)
  then have "c \<notin> set (fst (add_column x t))" by (cases x; cases t) auto
  with Cons show ?case by simp
qed simp

lemma add_columns_rows: "\<forall>a\<in>set alters. snd a = id \<Longrightarrow> snd (fold add_column alters t) = snd t"
proof (induction alters arbitrary: t)
  case (Cons x xs)
  then have "snd (add_column x t) = snd t" by (cases x; cases t) simp
  with Cons show ?case by simp
qed simp

lemma alters_split:
  "APPROVAL_ALTERS ops =
     [(''expires_at'', then_expires_at), (''decided_by'', id), (''notice'', id), (''told_at'', then_told_at), (''published_state'', then_published_state)]
     @ [(''run_at'', then_run_at ops)] @ [(''outcome'', id), (''delivery_outcome'', id), (''delivery_at'', id), (''handoff'', id)]"
  by (simp add: APPROVAL_ALTERS_def)

lemma migrated_runs:
  assumes "''run_at'' \<notin> set cols" and "migrateApprovals ops (cols, rows) = (cols', rows')"
  shows "\<exists>r1. rows' = then_run_at ops r1"
proof -
  let ?before = "[(''expires_at'', then_expires_at), (''decided_by'', id), (''notice'', id), (''told_at'', then_told_at), (''published_state'', then_published_state)]"
  let ?after = "[(''outcome'', id), (''delivery_outcome'', id), (''delivery_at'', id), (''handoff'', id)]"
  obtain c1 r1 where t1: "fold add_column ?before (cols, rows) = (c1, r1)" by (rule prod.exhaust)
  have "''run_at'' \<notin> set (fst (fold add_column ?before (cols, rows)))" using assms(1) by (intro add_columns_absent) simp_all
  then have "''run_at'' \<notin> set c1" unfolding t1 by simp
  then have t2: "add_column (''run_at'', then_run_at ops) (c1, r1) = (''run_at'' # c1, then_run_at ops r1)" by simp
  have "migrateApprovals ops (cols, rows) = fold add_column ?after (add_column (''run_at'', then_run_at ops) (fold add_column ?before (cols, rows)))"
    unfolding migrateApprovals_def alters_split fold_append by (simp only: comp_apply fold_simps)
  then have "(cols', rows') = fold add_column ?after (''run_at'' # c1, then_run_at ops r1)" unfolding t1 t2 assms(2) .
  then have "rows' = snd (fold add_column ?after (''run_at'' # c1, then_run_at ops r1))" by (metis snd_conv)
  also have "\<dots> = then_run_at ops r1" by (subst add_columns_rows) simp_all
  finally show ?thesis by blast
qed

text \<open>
  An upgrade never runs an approved call a second time. A table from before runs were recorded (it has no \<open>run_at\<close> column),
  whatever else it has, holds no \<open>approved\<close> row after the upgrade, so no run can be taken for any of them; and upgrading the
  upgraded table again changes nothing.
\<close>

theorem upgrade_reopens_no_run:
  assumes "''run_at'' \<notin> set cols" and "migrateApprovals ops (cols, rows) = (cols', rows')"
  shows "(\<forall>r\<in>set rows'. ap_state (ar_record r) \<noteq> AApproved) \<and> migrateApprovals ops (cols', rows') = (cols', rows')"
proof -
  have "fst ` set (APPROVAL_ALTERS ops) \<subseteq> set (fst (cols', rows'))"
    using add_columns_has [of "(cols, rows)" "APPROVAL_ALTERS ops"] assms(2) by (simp add: migrateApprovals_def)
  then have "migrateApprovals ops (cols', rows') = (cols', rows')" unfolding migrateApprovals_def by (rule add_columns_still)
  moreover obtain r1 where "rows' = then_run_at ops r1" using migrated_runs [OF assms] by blast
  ultimately show ?thesis using then_run_at_none_approved [of ops r1] by (auto simp: has_row_iff)
qed

definition old_row :: approval_row where
  "old_row = (new_approval 1 hold_example)\<lparr>ar_record := (ar_record (new_approval 1 hold_example))\<lparr>ap_state := AApproved, ap_decided_at := Some 5\<rparr>\<rparr>"

theorem upgrade_reopens_no_run_witness:
  "''run_at'' \<notin> set [''state''] \<and> list_all (\<lambda>r. ap_state (ar_record r) \<noteq> AApproved) (snd (migrateApprovals [] ([''state''], [old_row])))"
proof -
  have n: "''run_at'' \<notin> set [''state'']" by simp
  obtain c r where m: "migrateApprovals [] ([''state''], [old_row]) = (c, r)" by fastforce
  from upgrade_reopens_no_run [OF n m] n m show ?thesis by (simp add: list_all_iff)
qed

end
