(* ===== verification/Quotas.thy ===== *)
theory Quotas
  imports Store_Types Interfaces
begin

text \<open>
  Budgets: \<open>setQuota\<close>, \<open>consumeQuota\<close> and \<open>usage\<close> of the two stores. The lemmas show that the two stores charge alike, that what
  is charged is exactly what was allowed, that a budget is never overspent whatever the order and the times of the calls, and
  that a tenant without a budget of its own is held to the deployment's, on its own account.
\<close>

definition is_quota :: "string \<Rightarrow> string \<Rightarrow> quota_row \<Rightarrow> bool" where
  "is_quota tenant resource r \<longleftrightarrow> qu_tenant r = tenant \<and> qu_resource r = resource"

definition quotaRow :: "string \<Rightarrow> string \<Rightarrow> store \<Rightarrow> quota_row option" where
  "quotaRow tenant resource s = get_row (is_quota tenant resource) (quotas s)"

definition setQuota :: "int \<Rightarrow> string \<Rightarrow> string \<Rightarrow> int option \<Rightarrow> int option \<Rightarrow> store \<Rightarrow> store" where
  "setQuota now tenant resource limit window s =
     s\<lparr>quotas := upsert (is_quota tenant resource)
        \<lparr>qu_tenant = tenant, qu_resource = resource, qu_limit = limit, qu_window = window, qu_used = 0, qu_start = now\<rparr>
        (\<lambda>r. r\<lparr>qu_limit := limit, qu_window := window\<rparr>) (quotas s)\<rparr>"

record quota_answer =
  qa_allowed :: bool
  qa_used :: int
  qa_limit :: "int option"

text \<open>Absent columns and absent rows: \<open>own?.limit_value\<close>.\<close>

definition limit_of :: "quota_row option \<Rightarrow> int option" where
  "limit_of r = Option.bind r qu_limit"

definition window_of :: "quota_row option \<Rightarrow> int option" where
  "window_of r = Option.bind r qu_window"

definition or_opt :: "'a option \<Rightarrow> 'a option \<Rightarrow> 'a option" where
  "or_opt a b = (case a of None \<Rightarrow> b | Some x \<Rightarrow> Some x)"

definition write_usage :: "string \<Rightarrow> string \<Rightarrow> quota_row option \<Rightarrow> int \<Rightarrow> int \<Rightarrow> store \<Rightarrow> store" where
  "write_usage tenant resource own used start s =
     s\<lparr>quotas := upsert (is_quota tenant resource)
        \<lparr>qu_tenant = tenant, qu_resource = resource, qu_limit = limit_of own, qu_window = window_of own, qu_used = used, qu_start = start\<rparr>
        (\<lambda>r. r\<lparr>qu_used := used, qu_start := start\<rparr>) (quotas s)\<rparr>"

text \<open>The budget a call is held to: the tenant's own row, or the deployment's when that has no limit.\<close>

definition budget :: "string \<Rightarrow> string \<Rightarrow> store \<Rightarrow> int option \<times> int option" where
  "budget tenant resource s =
     (let own = quotaRow tenant resource s;
          fallback = (if limit_of own \<noteq> None then None else quotaRow ''*'' resource s)
      in (or_opt (limit_of own) (limit_of fallback), or_opt (window_of own) (window_of fallback)))"

text \<open>What is used now, and since when: a window that has elapsed starts over.\<close>

definition current_usage :: "int \<Rightarrow> int option \<Rightarrow> quota_row option \<Rightarrow> int \<times> int" where
  "current_usage now window own =
     (let used = (case own of None \<Rightarrow> 0 | Some r \<Rightarrow> qu_used r);
          start = (case own of None \<Rightarrow> now | Some r \<Rightarrow> qu_start r)
      in case window of None \<Rightarrow> (used, start) | Some w \<Rightarrow> if w \<le> now - start then (0, now) else (used, start))"

text \<open>The sqlite store: a refusal returns early, with a write of its own.\<close>

definition consumeQuota :: "int \<Rightarrow> string \<Rightarrow> string \<Rightarrow> int \<Rightarrow> store \<Rightarrow> quota_answer \<times> store" where
  "consumeQuota now tenant resource amount s =
     (let own = quotaRow tenant resource s in
      case budget tenant resource s of (limit, window) \<Rightarrow>
      case current_usage now window own of (used, start) \<Rightarrow>
        if (case limit of None \<Rightarrow> False | Some l \<Rightarrow> l < used + amount)
        then (\<lparr>qa_allowed = False, qa_used = used, qa_limit = limit\<rparr>, write_usage tenant resource own used start s)
        else (\<lparr>qa_allowed = True, qa_used = used + amount, qa_limit = limit\<rparr>,
              write_usage tenant resource own (used + amount) start s))"

text \<open>The Durable Object store: the answer first, one write.\<close>

definition do_consumeQuota :: "int \<Rightarrow> string \<Rightarrow> string \<Rightarrow> int \<Rightarrow> store \<Rightarrow> quota_answer \<times> store" where
  "do_consumeQuota now tenant resource amount s =
     (let own = quotaRow tenant resource s in
      case budget tenant resource s of (limit, window) \<Rightarrow>
      case current_usage now window own of (used0, start) \<Rightarrow>
        let allowed = (limit = None \<or> used0 + amount \<le> or_else limit 0);
            used = (if allowed then used0 + amount else used0)
        in (\<lparr>qa_allowed = allowed, qa_used = used, qa_limit = limit\<rparr>, write_usage tenant resource own used start s))"

definition usage :: "string \<Rightarrow> store \<Rightarrow> (string \<times> int \<times> int option \<times> int) list" where
  "usage tenant s = map (\<lambda>r. (qu_resource r, qu_used r, qu_limit r, qu_start r)) (filter (\<lambda>r. qu_tenant r = tenant) (quotas s))"

section \<open>Charging\<close>

lemma quotaRow_write:
  "quotaRow tn' res' (write_usage tn res (quotaRow tn res s) used start s) =
    (if tn' = tn \<and> res' = res
     then Some \<lparr>qu_tenant = tn, qu_resource = res, qu_limit = limit_of (quotaRow tn res s), qu_window = window_of (quotaRow tn res s),
        qu_used = used, qu_start = start\<rparr>
     else quotaRow tn' res' s)"
proof -
  let ?f = "\<lambda>r. r\<lparr>qu_used := used, qu_start := start\<rparr>"
  let ?new = "\<lparr>qu_tenant = tn, qu_resource = res, qu_limit = limit_of (quotaRow tn res s), qu_window = window_of (quotaRow tn res s),
        qu_used = used, qu_start = start\<rparr>"
  show ?thesis
  proof (cases "tn' = tn \<and> res' = res")
    case True
    have "get_row (is_quota tn res) (upsert (is_quota tn res) ?new ?f (quotas s))
        = Some (case get_row (is_quota tn res) (quotas s) of None \<Rightarrow> ?new | Some r \<Rightarrow> ?f r)"
      by (intro get_row_upsert_same) (simp_all add: is_quota_def)
    moreover have "?f r = ?new" if "get_row (is_quota tn res) (quotas s) = Some r" for r
      using that get_row_SomeD [OF that] by (simp add: is_quota_def quotaRow_def limit_of_def window_of_def)
    ultimately show ?thesis using True by (auto simp: quotaRow_def write_usage_def split: option.split)
  next
    case False
    then have "get_row (is_quota tn' res') (upsert (is_quota tn res) ?new ?f (quotas s)) = get_row (is_quota tn' res') (quotas s)"
      by (intro get_row_upsert_other) (auto simp: is_quota_def)
    with False show ?thesis by (auto simp: quotaRow_def write_usage_def)
  qed
qed

lemma budget_write: "budget tn res (write_usage tn res (quotaRow tn res s) used start s) = budget tn res s"
  by (auto simp: budget_def quotaRow_write Let_def limit_of_def window_of_def or_opt_def split: option.splits)

text \<open>
  The two stores charge alike: the same answer and the same rows for every call, although one refuses by an early return and the other
  decides first and writes once.
\<close>

theorem consumeQuota_backends_agree:
  "do_consumeQuota now tn res amount s = consumeQuota now tn res amount s"
  by (auto simp: do_consumeQuota_def consumeQuota_def Let_def split: prod.split option.split)

text \<open>A run of charges on one budget: when, and how much.\<close>

fun charge_all :: "string \<Rightarrow> string \<Rightarrow> (int \<times> int) list \<Rightarrow> store \<Rightarrow> int list \<times> store" where
  "charge_all tn res [] s = ([], s)"
| "charge_all tn res ((now, amount) # cs) s =
     (case consumeQuota now tn res amount s of (a, s1) \<Rightarrow>
      case charge_all tn res cs s1 of (granted, s2) \<Rightarrow> ((if qa_allowed a then amount else 0) # granted, s2))"

definition used_of :: "string \<Rightarrow> string \<Rightarrow> store \<Rightarrow> int" where
  "used_of tn res s = (case quotaRow tn res s of None \<Rightarrow> 0 | Some r \<Rightarrow> qu_used r)"

text \<open>
  A lifetime budget is exact. Whatever calls are made on a budget without a window, in whatever order, the use on record grows
  by exactly what was allowed, never past the limit when it started within it, and a call is refused only if it would pass it.
\<close>

theorem lifetime_budget_is_exact:
  assumes "budget tn res s = (Some limit, None)" and "charge_all tn res calls s = (granted, s')"
    and "used_of tn res s \<le> limit"
  shows "used_of tn res s' = used_of tn res s + sum_list granted \<and> used_of tn res s' \<le> limit
    \<and> budget tn res s' = (Some limit, None) \<and> length granted = length calls
    \<and> (\<forall>i<length calls. granted ! i = snd (calls ! i) \<or> granted ! i = 0)"
  using assms
proof (induction calls arbitrary: s granted s')
  case Nil
  then show ?case by simp
next
  case (Cons c cs)
  obtain now amount where c: "c = (now, amount)" by (cases c)
  obtain a s1 where a: "consumeQuota now tn res amount s = (a, s1)" by fastforce
  obtain g where g: "charge_all tn res cs s1 = (g, s')" and gr: "granted = (if qa_allowed a then amount else 0) # g"
    using Cons.prems(2) by (auto simp: c a split: prod.splits)
  have cu: "current_usage now None (quotaRow tn res s) = (used_of tn res s, case quotaRow tn res s of None \<Rightarrow> now | Some r \<Rightarrow> qu_start r)"
    by (simp add: current_usage_def used_of_def)
  let ?ok = "used_of tn res s + amount \<le> limit"
  from a have qa: "qa_allowed a = ?ok"
    and s1: "\<exists>start. s1 = write_usage tn res (quotaRow tn res s) (if ?ok then used_of tn res s + amount else used_of tn res s) start s"
    by (auto simp: consumeQuota_def Let_def Cons.prems(1) cu split: if_splits)
  then have u: "used_of tn res s1 = (if ?ok then used_of tn res s + amount else used_of tn res s)"
    and b: "budget tn res s1 = (Some limit, None)"
    by (auto simp: used_of_def quotaRow_write budget_write Cons.prems(1))
  have "used_of tn res s1 \<le> limit" using u Cons.prems(3) by simp
  from Cons.IH [OF b g this] u qa gr c show ?case
    by (auto simp: nth_Cons split: nat.split)
qed

theorem lifetime_budget_is_exact_witness:
  "fst (charge_all ''t'' ''tokens'' [(1, 60), (2, 60), (3, 40)] (setQuota 0 ''t'' ''tokens'' (Some 100) None init_store)) = [60, 0, 40]
   \<and> used_of ''t'' ''tokens'' (snd (charge_all ''t'' ''tokens'' [(1, 60), (2, 60), (3, 40)] (setQuota 0 ''t'' ''tokens'' (Some 100) None init_store))) \<le> 100"
proof -
  let ?s = "setQuota 0 ''t'' ''tokens'' (Some 100) None init_store"
  have q: "quotas ?s = [\<lparr>qu_tenant = ''t'', qu_resource = ''tokens'', qu_limit = Some 100, qu_window = None, qu_used = 0, qu_start = 0\<rparr>]"
    by (simp add: setQuota_def upsert_def init_store_def has_row_iff)
  have b: "budget ''t'' ''tokens'' ?s = (Some 100, None)"
    by (simp add: budget_def quotaRow_def q is_quota_def limit_of_def window_of_def or_opt_def)
  have u: "used_of ''t'' ''tokens'' ?s \<le> 100" by (simp add: used_of_def quotaRow_def q is_quota_def)
  obtain g s' where c: "charge_all ''t'' ''tokens'' [(1, 60), (2, 60), (3, 40)] ?s = (g, s')" by fastforce
  from c have "g = [60, 0, 40]"
    by (auto simp: consumeQuota_def budget_def current_usage_def Let_def quotaRow_def q is_quota_def limit_of_def window_of_def
        or_opt_def write_usage_def upsert_def has_row_iff update_where_def split: prod.splits)
  with c lifetime_budget_is_exact [OF b c u] show ?thesis by simp
qed

text \<open>
  No call overspends. Whatever the budget (a tenant's own or the deployment's, with a window or without), if amounts are not
  negative a call that is allowed leaves the use of the current window at or below the limit, and one that is refused leaves that use
  as it was; a window that has elapsed is the only thing that ever lowers the use.
\<close>

theorem no_call_overspends:
  assumes "consumeQuota now tn res amount s = (a, s')" and "budget tn res s = (limit, window)" and "0 \<le> amount"
  shows "qa_limit a = limit \<and> used_of tn res s' = qa_used a
    \<and> (qa_allowed a \<longrightarrow> (\<forall>l. limit = Some l \<longrightarrow> qa_used a \<le> l))
    \<and> (\<not> qa_allowed a \<longrightarrow> (\<exists>l. limit = Some l \<and> l < qa_used a + amount))
    \<and> (qa_used a < used_of tn res s \<longrightarrow>
        (\<exists>w r. window = Some w \<and> quotaRow tn res s = Some r \<and> w \<le> now - qu_start r))"
proof -
  obtain u0 start where cu: "current_usage now window (quotaRow tn res s) = (u0, start)" by fastforce
  have res: "a = (if (case limit of None \<Rightarrow> False | Some l \<Rightarrow> l < u0 + amount)
      then \<lparr>qa_allowed = False, qa_used = u0, qa_limit = limit\<rparr> else \<lparr>qa_allowed = True, qa_used = u0 + amount, qa_limit = limit\<rparr>)"
    and s': "s' = write_usage tn res (quotaRow tn res s) (qa_used a) start s"
    using assms(1) by (auto simp: consumeQuota_def Let_def assms(2) cu split: if_splits)
  have low: "\<exists>w r. window = Some w \<and> quotaRow tn res s = Some r \<and> w \<le> now - qu_start r" if "u0 < used_of tn res s"
    using that cu by (auto simp: current_usage_def used_of_def Let_def split: option.splits if_splits)
  have "used_of tn res s' = qa_used a" by (simp add: s' used_of_def quotaRow_write)
  moreover have "u0 \<le> qa_used a" using res assms(3) by (auto split: if_splits)
  ultimately show ?thesis using res low assms(3) by (auto split: if_splits option.splits)
qed

theorem no_call_overspends_witness:
  "\<exists>a s'. consumeQuota 5 ''t'' ''tokens'' 30 (setQuota 0 ''*'' ''tokens'' (Some 50) (Some 1000) init_store) = (a, s')
     \<and> qa_allowed a \<and> qa_used a \<le> 50 \<and> used_of ''t'' ''tokens'' s' = qa_used a"
proof -
  let ?s = "setQuota 0 ''*'' ''tokens'' (Some 50) (Some 1000) init_store"
  have q: "quotas ?s = [\<lparr>qu_tenant = ''*'', qu_resource = ''tokens'', qu_limit = Some 50, qu_window = Some 1000, qu_used = 0, qu_start = 0\<rparr>]"
    by (simp add: setQuota_def upsert_def init_store_def has_row_iff)
  have b: "budget ''t'' ''tokens'' ?s = (Some 50, Some 1000)"
    by (simp add: budget_def quotaRow_def q is_quota_def limit_of_def window_of_def or_opt_def)
  obtain a s' where c: "consumeQuota 5 ''t'' ''tokens'' 30 ?s = (a, s')" by fastforce
  then have "qa_allowed a"
    by (auto simp: consumeQuota_def b current_usage_def Let_def quotaRow_def q is_quota_def)
  with no_call_overspends [OF c b] c show ?thesis by auto
qed

end
