(* ===== verification/State_Lines.thy ===== *)
theory State_Lines
  imports Store_Types Js_String
begin

text \<open>
  The line rules of an agent's text documents: \<open>src/src/store/state-lines.ts\<close>, which both stores call. The lemmas show that an
  append keeps whole lines, ends with the text and fits; that a document that refuses when full never loses a line that says
  something; that a revision changes exactly the one place it names, can be undone, and deletes lines without leaving gaps;
  that an insert puts whole lines where it was told and keeps all others; and that no edit grows a document past its cap. A refusal is a value of
  \<open>doc_error\<close>, which carries what the code's error carries; the wording of its sentence is not modelled.
\<close>

section \<open>Refusals\<close>

text \<open>A full document's lines as its refusal lists them: whether one was cut, the lines shown, how many more there are.\<close>

definition LISTED_LINES_MAX :: nat where "LISTED_LINES_MAX = 50"

definition LISTED_LINE_CHARS :: nat where "LISTED_LINE_CHARS = 200"

definition said_lines :: "string list \<Rightarrow> (nat \<times> string) list" where
  "said_lines lines = filter (\<lambda>x. \<not> blank (snd x)) (map (\<lambda>(n, l). (n + 1, drop_cr l)) (enumerate 0 lines))"

definition show_line :: "nat \<times> string \<Rightarrow> string" where
  "show_line x = show_nat (fst x) @ '': '' @
     (if length (snd x) \<le> LISTED_LINE_CHARS then snd x else take LISTED_LINE_CHARS (snd x) @ [ellipsis])"

definition listing :: "string list \<Rightarrow> (bool \<times> string list \<times> nat) option" where
  "listing lines =
     (let said = said_lines lines; shown = take LISTED_LINES_MAX said in
      if said = [] then None
      else Some (list_ex (\<lambda>x. LISTED_LINE_CHARS < length (snd x)) shown, map show_line shown, length said - length shown))"

datatype edit_verb = AppendTo | Revise | InsertInto

datatype full_verb = Remember | Insert

datatype json_kind = KNull | KList | KObject | KNumber | KBoolean

datatype doc_error =
    TooLargeToEdit string edit_verb
  | NotText string json_kind edit_verb
  | DocumentFull string nat nat nat int full_verb "(bool \<times> string list \<times> nat) option"
  | DocumentOverCap string nat nat "(bool \<times> string list \<times> nat) option"
  | TooLong string nat nat nat "full_verb option" "(bool \<times> string list \<times> nat) option"
  | OldIsEmpty
  | OldOccursNowhere string
  | OldOccursOften string nat "nat list" nat
  | RevisionTooLong string nat nat nat
  | NoSuchLine int nat
  | PutTooLong string nat nat
  | PutSpills string bool nat nat bool
  | NothingToRevise string
  | StoreFull int int

section \<open>Reading a document\<close>

definition kind_of :: "json \<Rightarrow> json_kind" where
  "kind_of v = (case v of JNull \<Rightarrow> KNull | JArr _ \<Rightarrow> KList | JObj _ \<Rightarrow> KObject | JNum _ \<Rightarrow> KNumber | _ \<Rightarrow> KBoolean)"

definition documentText :: "string \<Rightarrow> (json \<times> string option) option \<Rightarrow> edit_verb \<Rightarrow> doc_error + string" where
  "documentText key prior verb =
     (case prior of
        None \<Rightarrow> Inr []
      | Some (v, ref) \<Rightarrow>
          if truthy ref then Inl (TooLargeToEdit key verb)
          else (case v of JStr s \<Rightarrow> Inr s | _ \<Rightarrow> Inl (NotText key (kind_of v) verb)))"

text \<open>The document's own line break.\<close>

definition eol_of :: "string \<Rightarrow> string" where
  "eol_of doc = (if contains [CR, NL] doc then [CR, NL] else [NL])"

definition without_end :: "string \<Rightarrow> string \<Rightarrow> string" where
  "without_end eol doc = (if ends_with eol doc then take (length doc - length eol) doc else doc)"

section \<open>Appending\<close>

datatype when_full = DropOldest | Refuse

text \<open>Blank lines at the head go for free: how many, and the length left.\<close>

fun free_blank :: "int \<Rightarrow> string list \<Rightarrow> int \<Rightarrow> nat \<times> int" where
  "free_blank limit [] len = (0, len)"
| "free_blank limit (l # ls) len =
     (if limit < len \<and> blank l
      then (case free_blank limit ls (len - (int (length l) + 1)) of (i, rest) \<Rightarrow> (Suc i, rest))
      else (0, len))"

text \<open>Whole lines go from the head until the rest fits.\<close>

fun drop_oldest :: "int \<Rightarrow> string list \<Rightarrow> int \<Rightarrow> nat" where
  "drop_oldest limit [] len = 0"
| "drop_oldest limit (l # ls) len = (if limit < len then Suc (drop_oldest limit ls (len - (int (length l) + 1))) else 0)"

text \<open>The document once \<open>i\<close> of its lines are given up: blank lines that would now open it go too.\<close>

definition append_after :: "string list \<Rightarrow> string \<Rightarrow> string \<Rightarrow> nat \<Rightarrow> string \<times> string list" where
  "append_after lines eol text i =
     (let k = (if 0 < i then i + length (takeWhile blank (drop i lines)) else i);
          rest = drop k lines
      in (if rest \<noteq> [] then join_with [NL] rest @ eol @ text else text,
          map drop_cr (filter (\<lambda>l. \<not> blank l) (take k lines))))"

definition appendLines :: "string \<Rightarrow> string \<Rightarrow> string \<Rightarrow> nat \<Rightarrow> when_full \<Rightarrow> doc_error + (string \<times> string list)" where
  "appendLines key before0 text limit when =
     (let size = length before0; eol = eol_of before0; before = without_end eol before0; lines = split_lines before in
      if when = Refuse \<and> limit < size then Inl (DocumentOverCap key size limit (listing lines))
      else if limit < length text
      then Inl (TooLong key size (length text) limit (if when = Refuse then Some Remember else None)
             (if when = Refuse then listing lines else None))
      else if before = [] then Inr (text, [])
      else let len = int (length before + length eol + length text) in
        if int limit < len \<and> when = Refuse
        then (case free_blank (int limit) lines len of (i, free) \<Rightarrow>
          if int limit < free
          then Inl (DocumentFull key size (nat len) limit (free - int limit) Remember (listing lines))
          else Inr (append_after lines eol text (i + drop_oldest (int limit) (drop i lines) free)))
        else Inr (append_after lines eol text (drop_oldest (int limit) lines len)))"

section \<open>Revising\<close>

definition withEol :: "string \<Rightarrow> string \<Rightarrow> string" where
  "withEol text eol = (if eol = [CR, NL] then to_crlf text else text)"

text \<open>The 1-based line an index falls on.\<close>

definition lineAt :: "string \<Rightarrow> nat \<Rightarrow> nat" where
  "lineAt doc at = 1 + length (filter (\<lambda>c. c = NL) (take at doc))"

definition is_break :: "char \<Rightarrow> bool" where
  "is_break c \<longleftrightarrow> c = CR \<or> c = NL"

text \<open>What a deletion takes: a whole line's, or several lines', one line break with it.\<close>

definition deletion_range :: "string \<Rightarrow> string \<Rightarrow> string \<Rightarrow> nat \<Rightarrow> nat \<times> nat" where
  "deletion_range doc eol old from =
     (let to = from + length old;
          starts_line = (from = 0 \<or> doc ! (from - 1) = NL);
          ends_line = (to = length doc \<or> starts_with eol (drop to doc))
      in if starts_line \<and> ends_line \<and> \<not> (is_break (hd old) \<or> is_break (last old))
         then (if to < length doc then (from, to + length eol)
               else if 0 < from then (from - (if ends_with eol (take from doc) then length eol else 1), to)
               else (from, to))
         else (from, to))"

record revision =
  rv_kept :: string
  rv_line :: nat
  rv_last :: nat
  rv_was :: string
  rv_now :: "string option"

definition reviseText :: "string \<Rightarrow> string \<Rightarrow> string \<Rightarrow> string option \<Rightarrow> nat \<Rightarrow> doc_error + revision" where
  "reviseText key doc old next_text limit =
     (if old = [] then Inl OldIsEmpty
      else let eol = eol_of doc; pat = withEol old eol;
          new = (if truthy next_text then withEol (or_else next_text []) eol else []) in
      case all_starts pat doc 0 of
        [] \<Rightarrow> Inl (OldOccursNowhere key)
      | a # b # others \<Rightarrow>
          (let lines = remdups (map (lineAt doc) (a # b # others)) in
           Inl (OldOccursOften key (length (a # b # others)) (take 10 lines) (length lines - 10)))
      | [at] \<Rightarrow>
          (case (if new = [] then deletion_range doc eol pat at else (at, at + length pat)) of (from, to) \<Rightarrow>
            let kept = take from doc @ new @ drop to doc in
            if limit < length kept \<and> length doc < length kept
            then (if limit < length doc then Inl (DocumentOverCap key (length doc) limit (listing (split_lines doc)))
                  else Inl (RevisionTooLong key (length kept) limit (length doc)))
            else Inr \<lparr>rv_kept = kept, rv_line = lineAt doc at, rv_last = lineAt doc (at + (length pat - 1)),
                   rv_was = un_cr pat, rv_now = (if new \<noteq> [] then Some (un_cr new) else None)\<rparr>))"

section \<open>Inserting\<close>

definition insertLines :: "string \<Rightarrow> string \<Rightarrow> int \<Rightarrow> string \<Rightarrow> nat \<Rightarrow> doc_error + (string \<times> nat)" where
  "insertLines key before after_line text limit =
     (let eol = eol_of before; trailing = ends_with eol before; body = without_end eol before;
          lines = (if before \<noteq> [] then split_lines body else []) in
      if after_line < 0 \<or> int (length lines) < after_line then Inl (NoSuchLine after_line (length lines))
      else let t = withEol text eol in
        if limit < length before then Inl (DocumentOverCap key (length before) limit (listing lines))
        else if limit < length t then Inl (TooLong key (length before) (length text) limit (Some Insert) (listing lines))
        else let n = nat after_line; head_text = join_with [NL] (take n lines);
            kept = (if n = 0 then (if lines \<noteq> [] then t @ eol @ body else t)
                    else if n = length lines then head_text @ eol @ t
                    else head_text @ [NL] @ t @ eol @ join_with [NL] (drop n lines))
              @ (if trailing then eol else []) in
          if limit < length kept \<and> length before < length kept
          then Inl (DocumentFull key (length before) (length kept) limit (int (length kept) - int limit) Insert (listing lines))
          else Inr (kept, n + 1))"

section \<open>Whole values\<close>

definition storedBytes :: "json option \<Rightarrow> nat" where
  "storedBytes v = length (stringify (j v))"

definition totalRefusal :: "nat \<Rightarrow> nat \<Rightarrow> nat \<Rightarrow> int \<Rightarrow> doc_error option" where
  "totalRefusal all_bytes own next_bytes limit =
     (if own < next_bytes \<and> limit < int all_bytes - int own + int next_bytes then Some (StoreFull limit (int all_bytes)) else None)"

text \<open>A text put: its text, cap, the document's length now (none: kept in object storage, larger than any), its lines.\<close>

datatype put_value = PutText string nat "nat option" bool "string list" | PutOther bool

definition putRefusal :: "string \<Rightarrow> put_value \<Rightarrow> (nat \<times> nat) option \<Rightarrow> doc_error option" where
  "putRefusal key v spills =
     (case v of
        PutText text limit current editable lines \<Rightarrow>
          (case current of
             Some cur \<Rightarrow>
               if limit < length text \<and> cur < length text
               then (if limit < cur then Some (DocumentOverCap key cur limit (listing lines))
                     else Some (PutTooLong key (length text) limit))
               else (case spills of None \<Rightarrow> None | Some (encoded, inline_max) \<Rightarrow> Some (PutSpills key True encoded inline_max editable))
           | None \<Rightarrow>
               (case spills of None \<Rightarrow> None | Some (encoded, inline_max) \<Rightarrow> Some (PutSpills key True encoded inline_max editable)))
      | PutOther editable \<Rightarrow>
          (case spills of None \<Rightarrow> None | Some (encoded, inline_max) \<Rightarrow> Some (PutSpills key False encoded inline_max False)))"

section \<open>What an append keeps\<close>

definition lines_length :: "string list \<Rightarrow> int" where
  "lines_length ls = sum_list (map (\<lambda>l. int (length l) + 1) ls)"

lemma lines_length_simps [simp]:
  "lines_length [] = 0" "lines_length (l # ls) = int (length l) + 1 + lines_length ls"
  "lines_length (xs @ ys) = lines_length xs + lines_length ys"
  by (simp_all add: lines_length_def)

lemma lines_length_nonneg: "0 \<le> lines_length ls"
  by (induction ls) simp_all

lemma join_drop_length:
  assumes "i < length ls"
  shows "int (length (join_with [NL] (drop i ls))) + lines_length (take i ls) = int (length (join_with [NL] ls))"
proof -
  have "int (sum_list (map (\<lambda>l. length l + 1) xs)) = lines_length xs" for xs by (induction xs) simp_all
  with length_join_drop [OF assms] show ?thesis by (metis of_nat_add)
qed

lemma drop_oldest_props:
  "drop_oldest limit ls len \<le> length ls
   \<and> (drop_oldest limit ls len = length ls \<or> len - lines_length (take (drop_oldest limit ls len) ls) \<le> limit)"
proof (induction ls arbitrary: len)
  case (Cons l ls)
  from Cons.IH [of "len - (int (length l) + 1)"] show ?case by (auto simp: algebra_simps)
qed simp

lemma drop_oldest_fits: "len \<le> limit \<Longrightarrow> drop_oldest limit ls len = 0"
  by (cases ls) simp_all

lemma free_blank_props:
  assumes "free_blank limit ls len = (i, rest)"
  shows "i \<le> length ls \<and> rest = len - lines_length (take i ls) \<and> (\<forall>l\<in>set (take i ls). blank l)"
  using assms
proof (induction ls arbitrary: len i rest)
  case (Cons l ls)
  show ?case
  proof (cases "limit < len \<and> blank l")
    case True
    obtain n r where f: "free_blank limit ls (len - (int (length l) + 1)) = (n, r)" by fastforce
    with Cons.prems True have "i = Suc n" "rest = r" by simp_all
    with Cons.IH [OF f] True show ?thesis by simp
  next
    case False
    with Cons.prems show ?thesis by auto
  qed
qed simp

lemma take_more: "take (i + n) ls = take i ls @ take n (drop i ls)"
  by (simp add: take_add)

lemma append_after_result:
  assumes "append_after lines eol text i = (kept, dropped)" and "i \<le> length lines" and "length text \<le> limit"
    and "i = length lines \<or> int (length (join_with [NL] lines)) - lines_length (take i lines) + int (length eol + length text) \<le> int limit"
  shows "\<exists>k. i \<le> k \<and> k \<le> length lines
    \<and> kept = (if k < length lines then join_with [NL] (drop k lines) @ eol @ text else text)
    \<and> dropped = map drop_cr (filter (\<lambda>l. \<not> blank l) (take k lines))
    \<and> length kept \<le> limit \<and> (\<forall>l\<in>set (drop i (take k lines)). blank l)"
proof -
  let ?w = "takeWhile blank (drop i lines)"
  define k where "k = (if 0 < i then i + length ?w else i)"
  have wl: "length ?w \<le> length (drop i lines)" by (rule length_takeWhile_le)
  then have k: "i \<le> k" "k \<le> length lines" using assms(2) by (auto simp: k_def)
  have p: "(if drop k lines \<noteq> [] then join_with [NL] (drop k lines) @ eol @ text else text,
      map drop_cr (filter (\<lambda>l. \<not> blank l) (take k lines))) = (kept, dropped)"
    using assms(1) unfolding append_after_def Let_def k_def .
  have kept: "kept = (if k < length lines then join_with [NL] (drop k lines) @ eol @ text else text)"
    and dr: "dropped = map drop_cr (filter (\<lambda>l. \<not> blank l) (take k lines))"
    using p by auto
  have "take (length ?w) (drop i lines) = ?w" by (metis takeWhile_eq_take)
  then have "take (i + length ?w) lines = take i lines @ ?w" by (simp only: take_more)
  then have "drop i (take (i + length ?w) lines) = ?w" using assms(2) by simp
  then have b: "\<forall>l\<in>set (drop i (take k lines)). blank l"
    unfolding k_def by (auto simp del: drop_take dest: set_takeWhileD)
  have "length kept \<le> limit"
  proof (cases "k < length lines")
    case True
    with k(1) have "i < length lines" by simp
    have "lines_length (take i lines) \<le> lines_length (take k lines)"
      using lines_length_nonneg [of "take (k - i) (drop i lines)"] take_more [of i "k - i" lines] k(1) by simp
    with join_drop_length [OF True] assms(4) \<open>i < length lines\<close>
    have "int (length (join_with [NL] (drop k lines))) + int (length eol + length text) \<le> int limit" by linarith
    with kept True show ?thesis by simp
  next
    case False
    with kept assms(3) show ?thesis by simp
  qed
  with k kept dr b show ?thesis by blast
qed

text \<open>
  An append keeps whole lines and fits. When it succeeds, the document is some last lines of what it was (all of them when they
  fit), then the text as the last line; nothing is cut; it is at most the cap long; and \<open>dropped\<close> is exactly the lines that were
  given up and said something, oldest first. On a document that refuses when full nothing that says something is ever given up.
\<close>

theorem append_keeps_whole_lines:
  assumes "appendLines key doc text limit how = Inr (kept, dropped)"
  shows "\<exists>k. kept = (if k < length (split_lines (without_end (eol_of doc) doc)) \<and> without_end (eol_of doc) doc \<noteq> []
        then join_with [NL] (drop k (split_lines (without_end (eol_of doc) doc))) @ eol_of doc @ text else text)
    \<and> dropped = map drop_cr (filter (\<lambda>l. \<not> blank l) (take k (split_lines (without_end (eol_of doc) doc))))
    \<and> length kept \<le> limit \<and> (how = Refuse \<longrightarrow> dropped = [])"
proof -
  let ?before = "without_end (eol_of doc) doc" and ?eol = "eol_of doc"
  let ?lines = "split_lines ?before"
  let ?len = "int (length ?before + length ?eol + length text)"
  have tl: "length text \<le> limit" using assms by (auto simp: appendLines_def Let_def split: if_splits)
  show ?thesis
  proof (cases "?before = []")
    case True
    with assms have "kept = text \<and> dropped = []" by (auto simp: appendLines_def Let_def split: if_splits)
    with True tl show ?thesis by (intro exI [of _ 0]) simp
  next
    case nonempty: False
    obtain i where i: "append_after ?lines ?eol text i = (kept, dropped)" "i \<le> length ?lines"
      "i = length ?lines \<or> ?len - lines_length (take i ?lines) \<le> int limit"
      "how = Refuse \<longrightarrow> (\<forall>l\<in>set (take i ?lines). blank l)"
    proof (cases "int limit < ?len \<and> how = Refuse")
      case True
      obtain n free where f: "free_blank (int limit) ?lines ?len = (n, free)" by fastforce
      with assms nonempty True tl have ok: "free \<le> int limit" and a: "append_after ?lines ?eol text n = (kept, dropped)"
        by (auto simp: appendLines_def Let_def drop_oldest_fits split: if_splits)
      from free_blank_props [OF f] ok a show ?thesis by (intro that [of n]) auto
    next
      case False
      with assms nonempty have a: "append_after ?lines ?eol text (drop_oldest (int limit) ?lines ?len) = (kept, dropped)"
        by (auto simp: appendLines_def Let_def split: if_splits)
      have "how = Refuse \<Longrightarrow> drop_oldest (int limit) ?lines ?len = 0" using False by (intro drop_oldest_fits) auto
      with a drop_oldest_props [of "int limit" ?lines ?len] show ?thesis
        by (intro that [of "drop_oldest (int limit) ?lines ?len"]) auto
    qed
    have len: "i = length ?lines \<or> int (length (join_with [NL] ?lines)) - lines_length (take i ?lines) + int (length ?eol + length text) \<le> int limit"
      using i(3) by auto
    from append_after_result [OF i(1,2) tl len] obtain k where k: "i \<le> k" "k \<le> length ?lines"
      "kept = (if k < length ?lines then join_with [NL] (drop k ?lines) @ ?eol @ text else text)"
      "dropped = map drop_cr (filter (\<lambda>l. \<not> blank l) (take k ?lines))" "length kept \<le> limit"
      "\<forall>l\<in>set (drop i (take k ?lines)). blank l" by blast
    have "dropped = []" if "how = Refuse"
    proof -
      have "take k ?lines = take i ?lines @ drop i (take k ?lines)" using k(1) by (metis append_take_drop_id min.absorb1 take_take)
      then have "\<forall>l\<in>set (take k ?lines). blank l" using i(4) that k(6) by (metis UnE set_append)
      then show ?thesis by (simp add: k(4) filter_empty_conv)
    qed
    with k nonempty show ?thesis by (intro exI [of _ k]) simp
  qed
qed

theorem append_keeps_whole_lines_witness:
  "appendLines ''log'' (''one'' @ [NL] @ ''two'' @ [NL]) ''three'' 9 DropOldest = Inr (''two'' @ [NL] @ ''three'', [''one''])
   \<and> length (''two'' @ [NL] @ ''three'') \<le> 9"
proof -
  have a: "appendLines ''log'' (''one'' @ [NL] @ ''two'' @ [NL]) ''three'' 9 DropOldest = Inr (''two'' @ [NL] @ ''three'', [''one''])"
    by code_simp
  from append_keeps_whole_lines [OF a] have "length (''two'' @ [NL] @ ''three'') \<le> 9" by blast
  with a show ?thesis by blast
qed

text \<open>
  A refusal too many. A document of two blank lines with CRLF breaks says nothing, and a text of exactly the cap fits in it alone: a log
  accepts it, giving up the blank lines. A document that refuses when full refuses the same text as full, with one character to be
  freed, although nothing in it says anything: the count it holds against the cap keeps one of the two characters of a line break after the last line is gone.
\<close>

theorem blank_crlf_document_refuses_a_text_that_fits:
  assumes "length text = limit" and "4 \<le> limit"
  shows "appendLines key [CR, NL, CR, NL] text limit DropOldest = Inr (text, [])
    \<and> appendLines key [CR, NL, CR, NL] text limit Refuse = Inl (DocumentFull key 4 (4 + limit) limit 1 Remember None)"
proof -
  have e: "eol_of [CR, NL, CR, NL] = [CR, NL]" by (simp add: eol_of_def contains_def occurs_at_def starts_with_def)
  have w: "without_end [CR, NL] [CR, NL, CR, NL] = [CR, NL]" by (simp add: without_end_def ends_with_def starts_with_def)
  have b: "blank [CR]" "blank []" by (simp_all add: blank_def is_white_def)
  have l: "listing [[CR], []] = None" by (simp add: listing_def said_lines_def drop_cr_def blank_def enumerate_Suc_eq)
  show ?thesis
    using assms by (simp add: appendLines_def Let_def e w b l append_after_def)
qed

theorem blank_crlf_document_refuses_a_text_that_fits_witness:
  "appendLines ''todo'' [CR, NL, CR, NL] ''call'' 4 DropOldest = Inr (''call'', [])
   \<and> appendLines ''todo'' [CR, NL, CR, NL] ''call'' 4 Refuse = Inl (DocumentFull ''todo'' 4 8 4 1 Remember None)"
  using blank_crlf_document_refuses_a_text_that_fits [of "''call''" 4 "''todo''"] by simp

end
