(* ===== verification/Doc_Edits.thy ===== *)
theory Doc_Edits
  imports State_Lines
begin

text \<open>
  What the edits of \<open>src/src/store/state-lines.ts\<close> do to a document: a revision changes exactly the one place it names, can be
  undone, and deletes whole lines without leaving gaps; an insert puts whole lines where it was told and keeps all others.
\<close>

section \<open>What a revision changes\<close>

lemma occurs_at_split:
  "occurs_at p s i \<Longrightarrow> s = take i s @ p @ drop (i + length p) s \<and> i + length p \<le> length s"
  by (auto simp: occurs_at_def starts_with_def) (metis append_take_drop_id drop_drop add.commute)

lemma occurs_at_context: "occurs_at p (pre @ p @ post) (length pre)"
  by (simp add: occurs_at_def starts_with_def)

lemma one_start:
  assumes "all_starts p s 0 = [at]"
  shows "occurs_at p s at" and "\<And>i. occurs_at p s i \<Longrightarrow> i = at"
proof -
  have f: "filter (occurs_at p s) [0..<Suc (length s)] = [at]" using assms by (simp only: all_starts_eq)
  then have "at \<in> set (filter (occurs_at p s) [0..<Suc (length s)])" by (simp only: list.set_intros)
  then show "occurs_at p s at" by (simp only: set_filter mem_Collect_eq)
  fix i assume i: "occurs_at p s i"
  then have "i \<le> length s" by (simp add: occurs_at_def)
  with i have "i \<in> set (filter (occurs_at p s) [0..<Suc (length s)])" by (simp del: upt_Suc)
  then show "i = at" unfolding f by simp
qed

lemma unique_start:
  assumes "occurs_at p s at" and "\<And>i. occurs_at p s i \<Longrightarrow> i = at"
  shows "all_starts p s 0 = [at]"
proof -
  have "at \<le> length s" using assms(1) by (simp add: occurs_at_def)
  then have "[0..<Suc (length s)] = [0..<at] @ at # [Suc at..<Suc (length s)]"
    by (metis le_imp_less_Suc less_imp_le_nat upt_conv_Cons upt_add_eq_append le_Suc_ex zero_le)
  moreover have "filter (occurs_at p s) [0..<at] = []" "filter (occurs_at p s) [Suc at..<Suc (length s)] = []"
    using assms(2) by (auto simp: filter_empty_conv simp del: upt_Suc)
  ultimately show ?thesis using assms(1) by (simp add: all_starts_eq del: upt_Suc)
qed

lemma ends_with_split: "ends_with p s \<Longrightarrow> s = take (length s - length p) s @ p"
proof -
  assume "ends_with p s"
  then have "rev (drop (length s - length p) s) = rev p" by (simp add: ends_with_def starts_with_def take_rev)
  then have "drop (length s - length p) s = p" by simp
  then show ?thesis by (metis append_take_drop_id)
qed

lemma starts_with_split: "starts_with p s \<Longrightarrow> s = p @ drop (length p) s"
  by (metis append_take_drop_id starts_with_def)

text \<open>The four shapes of what a deletion takes, as the document around the text and the break that goes with it.\<close>

lemma deletion_keeps:
  assumes "deletion_range (pre @ pat @ post) eol pat (length pre) = (lo, hi)"
  shows "\<exists>p q b c. pre = p @ b \<and> post = c @ q \<and> take lo (pre @ pat @ post) = p \<and> drop hi (pre @ pat @ post) = q
    \<and> (b = [] \<or> c = []) \<and> b \<in> {[], [NL], eol} \<and> c \<in> {[], eol}"
proof -
  let ?doc = "pre @ pat @ post"
  let ?starts = "pre = [] \<or> ?doc ! (length pre - 1) = NL"
  let ?tails = "post = [] \<or> starts_with eol post"
  let ?whole = "?starts \<and> ?tails \<and> \<not> (is_break (hd pat) \<or> is_break (last pat))"
  have r: "deletion_range ?doc eol pat (length pre) =
      (if ?whole then (if post \<noteq> [] then (length pre, length pre + length pat + length eol)
          else if pre \<noteq> [] then (length pre - (if ends_with eol pre then length eol else 1), length pre + length pat)
          else (length pre, length pre + length pat))
       else (length pre, length pre + length pat))"
    by (auto simp: deletion_range_def Let_def)
  have whole: ?thesis if "(lo, hi) = (length pre, length pre + length pat)"
    using that by (intro exI [of _ pre] exI [of _ post] exI [of _ "[]"]) simp
  consider (none) "\<not> ?whole \<or> (post = [] \<and> pre = [])" | (after) "?whole" "post \<noteq> []" | (before) "?whole" "post = []" "pre \<noteq> []"
    by blast
  then show ?thesis
  proof cases
    case none
    with assms r have "(lo, hi) = (length pre, length pre + length pat)" by (metis (full_types))
    then show ?thesis by (rule whole)
  next
    case after
    with assms r have lh: "lo = length pre" "hi = length pre + length pat + length eol" by simp_all
    from after have "post = eol @ drop (length eol) post" using starts_with_split by blast
    then show ?thesis using lh
      by (intro exI [of _ pre] exI [of _ "drop (length eol) post"] exI [of _ "[]"] exI [of _ eol]) simp
  next
    case before
    with assms r have lh: "lo = length pre - (if ends_with eol pre then length eol else 1)" "hi = length pre + length pat" by simp_all
    show ?thesis
    proof (cases "ends_with eol pre")
      case True
      have "pre = take (length pre - length eol) pre @ eol" using ends_with_split [OF True] .
      then show ?thesis using lh True before(2)
        by (intro exI [of _ "take lo pre"] exI [of _ "[]"] exI [of _ eol] exI [of _ "[]"]) simp
    next
      case False
      from before have "last pre = NL" by (simp add: last_conv_nth nth_append)
      then have "pre = take (length pre - 1) pre @ [NL]" using before(3) by (metis append_butlast_last_id butlast_conv_take)
      then show ?thesis using lh False before(2)
        by (intro exI [of _ "take lo pre"] exI [of _ "[]"] exI [of _ "[NL]"] exI [of _ "[]"]) simp
    qed
  qed
qed

lemma revise_place:
  assumes "reviseText key doc old next_text limit = Inr r"
  obtains i lo hi new pat where "pat = withEol old (eol_of doc)" and "old \<noteq> []"
    and "new = (if truthy next_text then withEol (or_else next_text []) (eol_of doc) else [])"
    and "all_starts pat doc 0 = [i]"
    and "(if new = [] then deletion_range doc (eol_of doc) pat i else (i, i + length pat)) = (lo, hi)"
    and "rv_kept r = take lo doc @ new @ drop hi doc"
    and "length (rv_kept r) \<le> limit \<or> length (rv_kept r) \<le> length doc"
    and "rv_line r = lineAt doc i" and "rv_was r = un_cr pat"
    and "rv_now r = (if new \<noteq> [] then Some (un_cr new) else None)"
proof -
  define pat where "pat = withEol old (eol_of doc)"
  define new where "new = (if truthy next_text then withEol (or_else next_text []) (eol_of doc) else [])"
  from assms obtain i where s: "all_starts pat doc 0 = [i]" and o: "old \<noteq> []"
    by (auto simp: reviseText_def Let_def pat_def split: list.splits if_splits)
  obtain lo hi where ft: "(if new = [] then deletion_range doc (eol_of doc) pat i else (i, i + length pat)) = (lo, hi)"
    by (metis surj_pair)
  define kept where "kept = take lo doc @ new @ drop hi doc"
  have r: "(if limit < length kept \<and> length doc < length kept
            then (if limit < length doc then Inl (DocumentOverCap key (length doc) limit (listing (split_lines doc)))
                  else Inl (RevisionTooLong key (length kept) limit (length doc)))
            else Inr \<lparr>rv_kept = kept, rv_line = lineAt doc i, rv_last = lineAt doc (i + (length pat - 1)),
                   rv_was = un_cr pat, rv_now = (if new \<noteq> [] then Some (un_cr new) else None)\<rparr>) = Inr r"
    using assms unfolding reviseText_def Let_def if_not_P [OF o] pat_def [symmetric] new_def [symmetric] s list.case ft prod.case
      kept_def [symmetric] by simp
  have g: "\<not> (limit < length kept \<and> length doc < length kept)"
    by (rule notI) (use r in \<open>simp split: if_split_asm\<close>)
  from r [unfolded if_not_P [OF g]] have rr: "r = \<lparr>rv_kept = kept, rv_line = lineAt doc i, rv_last = lineAt doc (i + (length pat - 1)),
                   rv_was = un_cr pat, rv_now = (if new \<noteq> [] then Some (un_cr new) else None)\<rparr>" by simp
  show ?thesis
    by (rule that [OF pat_def o new_def s ft]) (use g in \<open>simp_all add: rr kept_def not_less\<close>)
qed

text \<open>
  A revision changes the one place it names. When it succeeds, the old text occurs at one place in the document and
  nowhere else (counted with overlaps); a replacement leaves everything before and after that place exactly as it was; a deletion
  removes the text and at most one line break next to it; the line it answers is the line the place is on; and the document does
  not grow past its cap.
\<close>

theorem revise_changes_one_place:
  assumes "reviseText key doc old next_text limit = Inr r"
  shows "\<exists>pre post pat new. doc = pre @ pat @ post \<and> pat = withEol old (eol_of doc)
    \<and> new = (if truthy next_text then withEol (or_else next_text []) (eol_of doc) else [])
    \<and> (\<forall>i. occurs_at pat doc i \<longleftrightarrow> i = length pre)
    \<and> rv_line r = lineAt doc (length pre)
    \<and> (length (rv_kept r) \<le> limit \<or> length (rv_kept r) \<le> length doc)
    \<and> (if new \<noteq> [] then rv_kept r = pre @ new @ post
       else \<exists>p q b c. pre = p @ b \<and> post = c @ q \<and> rv_kept r = p @ q \<and> (b = [] \<or> c = [])
         \<and> b \<in> {[], [NL], eol_of doc} \<and> c \<in> {[], eol_of doc})"
proof -
  from assms obtain i lo hi new pat where pat: "pat = withEol old (eol_of doc)"
    and new: "new = (if truthy next_text then withEol (or_else next_text []) (eol_of doc) else [])"
    and s: "all_starts pat doc 0 = [i]"
    and ft: "(if new = [] then deletion_range doc (eol_of doc) pat i else (i, i + length pat)) = (lo, hi)"
    and kept: "rv_kept r = take lo doc @ new @ drop hi doc"
    and len: "length (rv_kept r) \<le> limit \<or> length (rv_kept r) \<le> length doc" and line: "rv_line r = lineAt doc i"
    by (rule revise_place)
  note o = one_start [OF s]
  define pre post where "pre = take i doc" and "post = drop (i + length pat) doc"
  from occurs_at_split [OF o(1)] have d: "doc = pre @ pat @ post" and i: "i = length pre" by (simp_all add: pre_def post_def)
  have place: "if new \<noteq> [] then rv_kept r = pre @ new @ post
       else \<exists>p q b c. pre = p @ b \<and> post = c @ q \<and> rv_kept r = p @ q \<and> (b = [] \<or> c = [])
         \<and> b \<in> {[], [NL], eol_of doc} \<and> c \<in> {[], eol_of doc}"
  proof (cases "new = []")
    case True
    with ft i have "deletion_range (pre @ pat @ post) (eol_of doc) pat (length pre) = (lo, hi)" using d by simp
    from deletion_keeps [OF this] obtain p q b c where "pre = p @ b" "post = c @ q"
      "take lo doc = p" "drop hi doc = q" "b = [] \<or> c = []" "b \<in> {[], [NL], eol_of doc}" "c \<in> {[], eol_of doc}"
      unfolding d [symmetric] by blast
    with True kept show ?thesis by (intro if_not_P [THEN iffD2]) auto
  next
    case False
    with ft kept have "rv_kept r = pre @ new @ post" by (auto simp: pre_def post_def)
    with False show ?thesis by simp
  qed
  have "\<forall>k. occurs_at pat doc k \<longleftrightarrow> k = length pre" using o i by blast
  with pat d new line len place i show ?thesis by (intro exI [of _ pre] exI [of _ post] exI [of _ pat] exI [of _ new]) simp
qed

theorem revise_changes_one_place_witness:
  "\<exists>r. reviseText ''memory'' (''tea'' @ [NL] @ ''milk'') ''tea'' (Some ''coffee'') 100 = Inr r
     \<and> rv_kept r = ''coffee'' @ [NL] @ ''milk'' \<and> (length (rv_kept r) \<le> 100 \<or> length (rv_kept r) \<le> length (''tea'' @ [NL] @ ''milk''))"
proof -
  let ?r = "\<lparr>rv_kept = ''coffee'' @ [NL] @ ''milk'', rv_line = 1, rv_last = 1, rv_was = ''tea'', rv_now = Some ''coffee''\<rparr>"
  have "all_starts ''tea'' (''tea'' @ [NL] @ ''milk'') 0 = [0]" unfolding all_starts_eq by code_simp
  moreover have "eol_of (''tea'' @ [NL] @ ''milk'') = [NL]" by code_simp
  ultimately have r: "reviseText ''memory'' (''tea'' @ [NL] @ ''milk'') ''tea'' (Some ''coffee'') 100 = Inr ?r"
    by (simp add: reviseText_def Let_def withEol_def truthy_def or_else_def lineAt_def)
  from revise_changes_one_place [OF r] have "length (rv_kept ?r) \<le> 100 \<or> length (rv_kept ?r) \<le> length (''tea'' @ [NL] @ ''milk'')" by blast
  with r show ?thesis by auto
qed

section \<open>Undoing a revision\<close>

lemma no_cr_eol: "CR \<notin> set doc \<Longrightarrow> eol_of doc = [NL]"
proof -
  assume "CR \<notin> set doc"
  then have "\<not> occurs_at [CR, NL] doc i" for i
    using occurs_at_split [of "[CR, NL]" doc i] by (metis append_Cons in_set_conv_decomp)
  then show ?thesis by (simp add: eol_of_def contains_def list_ex_iff)
qed

lemma withEol_LF [simp]: "withEol t [NL] = t"
  by (simp add: withEol_def)

lemma revise_replaces:
  assumes "CR \<notin> set doc" and "all_starts old doc 0 = [i]" and "old \<noteq> []" and "new \<noteq> []"
    and "kept = take i doc @ new @ drop (i + length old) doc" and "length kept \<le> limit"
  shows "\<exists>r. reviseText key doc old (Some new) limit = Inr r \<and> rv_kept r = kept"
  using assms(2-6) by (simp add: reviseText_def Let_def no_cr_eol [OF assms(1)] truthy_def or_else_def)

lemma revise_deletes:
  assumes "CR \<notin> set doc" and "all_starts old doc 0 = [i]" and "old \<noteq> []" and "deletion_range doc [NL] old i = (lo, hi)"
    and "take lo doc @ drop hi doc = kept" and "length kept \<le> length doc"
  shows "\<exists>r. reviseText key doc old None limit = Inr r \<and> rv_kept r = kept"
  using assms(2-6) by (simp add: reviseText_def Let_def no_cr_eol [OF assms(1)] truthy_def del: length_append)

text \<open>
  C40: A revision can be undone. In a document with plain line breaks, after \<open>old\<close> was replaced by \<open>new\<close>, replacing \<open>new\<close> by \<open>old\<close>
  gives back exactly the document there was, whatever its cap as long as the document fits in it, provided \<open>new\<close> occurs once in the result.
\<close>

theorem revise_can_be_undone:
  assumes "reviseText key doc old (Some new) limit = Inr r" and "new \<noteq> []"
    and "CR \<notin> set doc" and "CR \<notin> set new" and "length (all_starts new (rv_kept r) 0) = 1" and "length doc \<le> limit'"
  shows "\<exists>r'. reviseText key (rv_kept r) new (Some old) limit' = Inr r' \<and> rv_kept r' = doc"
proof -
  from assms(1) obtain i lo hi new' pat where pat: "pat = withEol old (eol_of doc)" and o: "old \<noteq> []"
    and new: "new' = (if truthy (Some new) then withEol (or_else (Some new) []) (eol_of doc) else [])"
    and s: "all_starts pat doc 0 = [i]"
    and ft: "(if new' = [] then deletion_range doc (eol_of doc) pat i else (i, i + length pat)) = (lo, hi)"
    and k: "rv_kept r = take lo doc @ new' @ drop hi doc" by (rule revise_place)
  have e: "pat = old" "new' = new" using pat new assms(2,3) by (simp_all add: no_cr_eol truthy_def or_else_def)
  let ?pre = "take i doc" and ?post = "drop (i + length old) doc"
  from one_start(1) [OF s] occurs_at_split have d: "doc = ?pre @ old @ ?post" "i + length old \<le> length doc" unfolding e by blast+
  have kept: "rv_kept r = ?pre @ new @ ?post" using ft k e assms(2) by auto
  have cr: "CR \<notin> set (rv_kept r)" unfolding kept using assms(3,4) by (auto dest: in_set_takeD in_set_dropD)
  have il: "length ?pre = i" using d(2) by simp
  from assms(5) obtain n where n: "all_starts new (rv_kept r) 0 = [n]" by (auto simp: length_Suc_conv)
  have "occurs_at new (rv_kept r) i" unfolding kept using occurs_at_context [of new ?pre ?post] il by simp
  with one_start(2) [OF n] have "n = i" by blast
  with n have n: "all_starts new (rv_kept r) 0 = [i]" by simp
  show ?thesis
    by (rule revise_replaces [OF cr n assms(2) o _ assms(6)]) (use d il in \<open>simp add: kept\<close>)
qed

theorem revise_can_be_undone_witness:
  "\<exists>r r'. reviseText ''memory'' (''tea'' @ [NL] @ ''milk'') ''tea'' (Some ''coffee'') 100 = Inr r
     \<and> reviseText ''memory'' (rv_kept r) ''coffee'' (Some ''tea'') 20 = Inr r' \<and> rv_kept r' = ''tea'' @ [NL] @ ''milk''"
proof -
  let ?r = "\<lparr>rv_kept = ''coffee'' @ [NL] @ ''milk'', rv_line = 1, rv_last = 1, rv_was = ''tea'', rv_now = Some ''coffee''\<rparr>"
  have "all_starts ''tea'' (''tea'' @ [NL] @ ''milk'') 0 = [0]" unfolding all_starts_eq by code_simp
  moreover have "eol_of (''tea'' @ [NL] @ ''milk'') = [NL]" by code_simp
  ultimately have r: "reviseText ''memory'' (''tea'' @ [NL] @ ''milk'') ''tea'' (Some ''coffee'') 100 = Inr ?r"
    by (simp add: reviseText_def Let_def withEol_def truthy_def or_else_def lineAt_def)
  have n: "length (all_starts ''coffee'' (rv_kept ?r) 0) = 1" unfolding all_starts_eq by code_simp
  from revise_can_be_undone [OF r _ _ _ n, of 20] r show ?thesis by auto
qed

section \<open>Deleting and inserting whole lines\<close>

lemma join_append: "a \<noteq> [] \<Longrightarrow> b \<noteq> [] \<Longrightarrow> join_with sep (a @ b) = join_with sep a @ sep @ join_with sep b"
proof (induction a)
  case (Cons x a)
  then show ?case by (cases "a = []") (simp_all add: join_Cons)
qed simp

text \<open>The document around some of its lines.\<close>

definition before_lines :: "string list \<Rightarrow> string" where
  "before_lines a = (if a = [] then [] else join_with [NL] a @ [NL])"

definition after_lines :: "string list \<Rightarrow> string" where
  "after_lines b = (if b = [] then [] else NL # join_with [NL] b)"

lemma around_lines: "m \<noteq> [] \<Longrightarrow> join_with [NL] (a @ m @ b) = before_lines a @ join_with [NL] m @ after_lines b"
  by (cases "a = []"; cases "b = []") (simp_all add: before_lines_def after_lines_def join_append)

lemma join_ends:
  assumes "m \<noteq> []" and "hd m \<noteq> []" and "last m \<noteq> []"
  shows "join_with [NL] m \<noteq> []" "hd (join_with [NL] m) = hd (hd m)" "last (join_with [NL] m) = last (last m)"
proof -
  from assms have "join_with [NL] m = hd m @ after_lines (tl m)" by (cases m) (auto simp: after_lines_def join_Cons)
  with assms show "join_with [NL] m \<noteq> []" "hd (join_with [NL] m) = hd (hd m)" by simp_all
  from assms have "join_with [NL] m = before_lines (butlast m) @ last m"
    using around_lines [of "[last m]" "butlast m" "[]"] by (simp add: after_lines_def)
  with assms(3) show "last (join_with [NL] m) = last (last m)" by simp
qed

lemma deletion_of_lines:
  assumes "m \<noteq> []" and "hd m \<noteq> []" and "last m \<noteq> []" and "\<not> is_break (hd (hd m))" and "\<not> is_break (last (last m))"
    and "deletion_range (before_lines a @ join_with [NL] m @ after_lines b) [NL] (join_with [NL] m) (length (before_lines a)) = (lo, hi)"
  shows "take lo (before_lines a @ join_with [NL] m @ after_lines b) @ drop hi (before_lines a @ join_with [NL] m @ after_lines b)
    = join_with [NL] (a @ b)"
proof -
  have starts: "before_lines a = [] \<or> (before_lines a @ x) ! (length (before_lines a) - 1) = NL" for x
    by (simp add: before_lines_def nth_append)
  have ends: "after_lines b = [] \<or> starts_with [NL] (after_lines b)" by (simp add: after_lines_def starts_with_def)
  have edge: "\<not> (is_break (hd (join_with [NL] m)) \<or> is_break (last (join_with [NL] m)))"
    using assms(4,5) join_ends [OF assms(1-3)] by simp
  have range: "(lo, hi) =
      (if after_lines b \<noteq> [] then (length (before_lines a), length (before_lines a) + length (join_with [NL] m) + 1)
       else if before_lines a \<noteq> [] then (length (before_lines a) - 1, length (before_lines a) + length (join_with [NL] m))
       else (length (before_lines a), length (before_lines a) + length (join_with [NL] m)))"
    using assms(6) starts ends edge by (auto simp: deletion_range_def Let_def split: if_splits)
  show ?thesis
  proof (cases "b = []")
    case False
    then have "lo = length (before_lines a)" "hi = length (before_lines a) + length (join_with [NL] m) + 1"
      using range by (simp_all add: after_lines_def)
    with False show ?thesis by (cases "a = []") (simp_all add: before_lines_def after_lines_def join_append)
  next
    case True
    with range show ?thesis by (cases "a = []") (simp_all add: before_lines_def after_lines_def)
  qed
qed

text \<open>
  Deleting whole lines leaves no gap. In a document with plain line breaks, deleting some of its lines (as their text, which
  occurs once and neither begins nor ends with an empty line) leaves exactly the other lines, in order, with no blank line where the
  deleted ones were; and it is never refused, however far past its cap the document is.
\<close>

theorem deleting_lines_leaves_no_gap:
  assumes "doc = join_with [NL] (a @ m @ b)" and "m \<noteq> []" and "\<And>l. l \<in> set m \<Longrightarrow> l \<noteq> [] \<and> NL \<notin> set l" and "CR \<notin> set doc"
    and "length (all_starts (join_with [NL] m) doc 0) = 1"
  shows "\<exists>r. reviseText key doc (join_with [NL] m) None limit = Inr r \<and> rv_kept r = join_with [NL] (a @ b)"
proof -
  let ?pat = "join_with [NL] m"
  have d: "doc = before_lines a @ ?pat @ after_lines b" unfolding assms(1) by (rule around_lines [OF assms(2)])
  from assms(5) obtain n where n: "all_starts ?pat doc 0 = [n]" by (auto simp: length_Suc_conv)
  have "n = length (before_lines a)" using one_start(2) [OF n] occurs_at_context unfolding d by metis
  with n have n: "all_starts ?pat doc 0 = [length (before_lines a)]" by simp
  have h: "hd m \<noteq> []" "last m \<noteq> []" "hd m \<in> set m" "last m \<in> set m" using assms(2,3) by auto
  note e = join_ends [OF assms(2) h(1,2)]
  have "CR \<notin> set ?pat" using assms(4) unfolding d by simp
  with e have "hd (hd m) \<noteq> CR" "last (last m) \<noteq> CR" by (metis hd_in_set, metis last_in_set)
  with assms(3) [OF h(3)] assms(3) [OF h(4)] have b: "\<not> is_break (hd (hd m))" "\<not> is_break (last (last m))"
    unfolding is_break_def by (metis hd_in_set, metis last_in_set)
  obtain lo hi where r: "deletion_range doc [NL] ?pat (length (before_lines a)) = (lo, hi)" by fastforce
  from deletion_of_lines [OF assms(2) h(1,2) b] r have k: "take lo doc @ drop hi doc = join_with [NL] (a @ b)" unfolding d by blast
  have "length (join_with [NL] (a @ b)) \<le> length doc"
    unfolding d by (cases "a = []"; cases "b = []") (simp_all add: before_lines_def after_lines_def join_append)
  then show ?thesis by (rule revise_deletes [OF assms(4) n e(1) r k])
qed

theorem deleting_lines_leaves_no_gap_witness:
  "\<exists>r. reviseText ''memory'' (''tea'' @ [NL] @ ''milk'' @ [NL] @ ''jam'') ''milk'' None 5 = Inr r
     \<and> rv_kept r = ''tea'' @ [NL] @ ''jam''"
proof -
  have n: "length (all_starts (join_with [NL] [''milk'']) (''tea'' @ [NL] @ ''milk'' @ [NL] @ ''jam'') 0) = 1"
    unfolding all_starts_eq by code_simp
  show ?thesis
    using deleting_lines_leaves_no_gap [where a = "[''tea'']" and m = "[''milk'']" and b = "[''jam'']" and key = "''memory''" and limit = 5, OF _ _ _ _ n]
    by simp
qed

lemma without_end_LF: "without_end [NL] doc = (if ends_with [NL] doc then butlast doc else doc)"
  by (simp add: without_end_def butlast_conv_take)

lemma ends_LF: "ends_with [NL] doc \<Longrightarrow> doc = butlast doc @ [NL]"
  using ends_with_split [of "[NL]" doc] by (simp add: butlast_conv_take)

text \<open>The lines of a document, as the listing and \<open>after_line\<close> count them.\<close>

definition doc_lines :: "string \<Rightarrow> string list" where
  "doc_lines doc = (if doc = [] then [] else split_lines (without_end (eol_of doc) doc))"

text \<open>
  An insert puts whole lines where it was told. In a document with plain line breaks, the lines of the text stand after line
  \<open>after_line\<close>, every line that was there is there still, in order, and a closing line break is kept; the line it answers is the one the
  text starts on; and the document does not grow past its cap.
\<close>

theorem insert_puts_whole_lines:
  assumes "insertLines key doc after_line text limit = Inr (kept, line)" and "CR \<notin> set doc"
  shows "kept = join_with [NL] (take (nat after_line) (doc_lines doc) @ split_lines text @ drop (nat after_line) (doc_lines doc))
        @ (if ends_with [NL] doc then [NL] else [])
    \<and> line = nat after_line + 1 \<and> 0 \<le> after_line \<and> nat after_line \<le> length (doc_lines doc)
    \<and> length kept \<le> limit \<and> length text \<le> limit"
proof -
  let ?ls = "doc_lines doc" and ?n = "nat after_line" and ?tail = "if ends_with [NL] doc then [NL] else []"
  let ?body = "without_end [NL] doc"
  let ?new = "(if ?n = 0 then (if ?ls \<noteq> [] then text @ [NL] @ ?body else text)
    else if ?n = length ?ls then join_with [NL] (take ?n ?ls) @ [NL] @ text
    else join_with [NL] (take ?n ?ls) @ [NL] @ text @ [NL] @ join_with [NL] (drop ?n ?ls)) @ ?tail"
  have ls: "?ls = (if doc \<noteq> [] then split_lines ?body else [])" by (simp add: doc_lines_def no_cr_eol [OF assms(2)])
  from assms(1) have n: "0 \<le> after_line" "after_line \<le> int (length ?ls)" and small: "length doc \<le> limit" "length text \<le> limit"
    and k: "kept = ?new" "line = ?n + 1" and cap: "length ?new \<le> limit \<or> length ?new \<le> length doc"
    unfolding insertLines_def Let_def no_cr_eol [OF assms(2)] withEol_LF ls [symmetric]
    by (auto simp del: length_append split: if_splits)
  have body: "?body = join_with [NL] ?ls" if "?ls \<noteq> []" using that ls by (auto split: if_splits)
  have t: "text = join_with [NL] (split_lines text)" by simp
  have "kept = join_with [NL] (take ?n ?ls @ split_lines text @ drop ?n ?ls) @ ?tail"
  proof (cases "?n = 0")
    case True
    then show ?thesis using k body by (cases "?ls = []") (simp_all add: join_append)
  next
    case False
    then have "take ?n ?ls \<noteq> []" using n by auto
    moreover have "drop ?n ?ls \<noteq> [] \<longleftrightarrow> ?n \<noteq> length ?ls" using n by auto
    ultimately show ?thesis using k False by (cases "?n = length ?ls") (simp_all add: join_append)
  qed
  then show ?thesis using k n small cap by auto
qed

theorem insert_puts_whole_lines_witness:
  "insertLines ''todo'' (''tea'' @ [NL] @ ''jam'') 1 ''milk'' 100 = Inr (''tea'' @ [NL] @ ''milk'' @ [NL] @ ''jam'', 2)
   \<and> doc_lines (''tea'' @ [NL] @ ''jam'') = [''tea'', ''jam''] \<and> length (''tea'' @ [NL] @ ''milk'' @ [NL] @ ''jam'') \<le> 100"
proof -
  have r: "insertLines ''todo'' (''tea'' @ [NL] @ ''jam'') 1 ''milk'' 100 = Inr (''tea'' @ [NL] @ ''milk'' @ [NL] @ ''jam'', 2)"
    by code_simp
  moreover have "doc_lines (''tea'' @ [NL] @ ''jam'') = [''tea'', ''jam'']" by code_simp
  moreover have "CR \<notin> set (''tea'' @ [NL] @ ''jam'')" by simp
  ultimately show ?thesis using insert_puts_whole_lines [OF r] by blast
qed

end
