(* ===== verification/Agent_State.thy ===== *)
theory Agent_State
  imports State_Lines Interfaces Event_Log
begin

text \<open>
  An agent's own keys, values and text documents: the agent-state operations of \<open>src/src/store/sqlite.ts\<close> and
  \<open>src/src/store/durable-object.ts\<close> (the same statements) over the line rules of \<open>State_Lines\<close>, and the backfill of
  \<open>src/src/store/state-lines.ts\<close>. Each document edit reads, decides and writes in one transaction, so a refusal
  (\<open>Inl\<close>) leaves the store as it was. The lemmas show that the table behaves as a keyed table, that an edit changes its
  own key only, that the sizes on record are the sizes of what is stored, and that no edit takes an agent past its total.

  \<open>maxTotalBytes\<close> is an option: \<open>None\<close> is the default, positive infinity.
\<close>

section \<open>Values\<close>

record state_entry =
  en_value :: json
  en_ref :: "string option"
  en_bytes :: nat

definition is_state :: "string \<Rightarrow> string \<Rightarrow> string \<Rightarrow> state_row \<Rightarrow> bool" where
  "is_state tenant agent key r \<longleftrightarrow> st_tenant r = tenant \<and> st_agent r = agent \<and> st_key r = key"

text \<open>\<open>value === null ? null : j(value)\<close>\<close>

definition column_of :: "json \<Rightarrow> json option" where
  "column_of v = (if v = JNull then None else Some v)"

definition putStateRow :: "int \<Rightarrow> string \<Rightarrow> string \<Rightarrow> string \<Rightarrow> state_entry \<Rightarrow> store \<Rightarrow> store" where
  "putStateRow now tenant agent key e s =
     s\<lparr>agent_state := upsert (is_state tenant agent key)
        \<lparr>st_tenant = tenant, st_agent = agent, st_key = key, st_value = column_of (en_value e), st_ref = en_ref e,
         st_bytes = en_bytes e, st_updated = now\<rparr>
        (\<lambda>r. r\<lparr>st_value := column_of (en_value e), st_ref := en_ref e, st_bytes := en_bytes e, st_updated := now\<rparr>)
        (agent_state s)\<rparr>"

definition putState :: "int \<Rightarrow> string \<Rightarrow> string \<Rightarrow> string \<Rightarrow> state_entry \<Rightarrow> store \<Rightarrow> store" where
  "putState now tenant agent key e s = putStateRow now tenant agent key e s"

definition entry_of :: "state_row \<Rightarrow> state_entry" where
  "entry_of r = \<lparr>en_value = or_else (st_value r) JNull, en_ref = st_ref r, en_bytes = st_bytes r\<rparr>"

text \<open>A value as it is read: the entry, and when it was written.\<close>

definition getStateRow :: "string \<Rightarrow> string \<Rightarrow> string \<Rightarrow> store \<Rightarrow> (state_entry \<times> int) option" where
  "getStateRow tenant agent key s =
     map_option (\<lambda>r. (entry_of r, st_updated r)) (get_row (is_state tenant agent key) (agent_state s))"

definition getState :: "string \<Rightarrow> string \<Rightarrow> string \<Rightarrow> store \<Rightarrow> (state_entry \<times> int) option" where
  "getState tenant agent key s = getStateRow tenant agent key s"

definition deleteState :: "string \<Rightarrow> string \<Rightarrow> string \<Rightarrow> store \<Rightarrow> bool \<times> store" where
  "deleteState tenant agent key s =
     (has_row (is_state tenant agent key) (agent_state s),
      s\<lparr>agent_state := delete_where (is_state tenant agent key) (agent_state s)\<rparr>)"

section \<open>Listing and totals\<close>

definition lower_ascii :: "char \<Rightarrow> char" where
  "lower_ascii c = (let n = of_char c :: nat in if 65 \<le> n \<and> n \<le> 90 then char_of (n + 32) else c)"

text \<open>The database's \<open>LIKE\<close>: \<open>%\<close> is any text, \<open>_\<close> any one character, and letters match in either case.\<close>

fun like :: "string \<Rightarrow> string \<Rightarrow> bool" where
  "like [] s = (s = [])"
| "like (p # ps) [] = (p = CHR ''%'' \<and> like ps [])"
| "like (p # ps) (c # cs) =
     (if p = CHR ''%'' then like ps (c # cs) \<or> like (p # ps) cs
      else (p = CHR ''_'' \<or> lower_ascii p = lower_ascii c) \<and> like ps cs)"

definition of_agent :: "string \<Rightarrow> string \<Rightarrow> state_row \<Rightarrow> bool" where
  "of_agent tenant agent r \<longleftrightarrow> st_tenant r = tenant \<and> st_agent r = agent"

definition listState :: "string \<Rightarrow> string \<Rightarrow> string \<Rightarrow> nat \<Rightarrow> store \<Rightarrow> (string \<times> nat \<times> string option \<times> int) list" where
  "listState tenant agent prefix limit s =
     map (\<lambda>r. (st_key r, st_bytes r, st_ref r, st_updated r))
       (take limit (order_by st_key (filter (\<lambda>r. of_agent tenant agent r \<and> like (prefix @ ''%'') (st_key r)) (agent_state s))))"

definition stateUsage :: "string \<Rightarrow> string \<Rightarrow> store \<Rightarrow> nat \<times> nat" where
  "stateUsage tenant agent s =
     (let rows = filter (of_agent tenant agent) (agent_state s) in (length rows, sum_list (map st_bytes rows)))"

text \<open>The total over the agent's rows, and the one row's part of it.\<close>

definition stateBytes :: "string \<Rightarrow> string \<Rightarrow> string \<Rightarrow> store \<Rightarrow> nat \<times> nat" where
  "stateBytes tenant agent key s =
     (let rows = filter (of_agent tenant agent) (agent_state s) in
      (sum_list (map st_bytes rows), sum_list (map (\<lambda>r. if st_key r = key then st_bytes r else 0) rows)))"

section \<open>Documents\<close>

definition writeDocument :: "int \<Rightarrow> string \<Rightarrow> string \<Rightarrow> string \<Rightarrow> string \<Rightarrow> int option \<Rightarrow> store \<Rightarrow> doc_error + ((nat \<times> nat) \<times> store)" where
  "writeDocument now tenant agent key kept max_total s =
     (let bytes = storedBytes (Some (JStr kept));
          refused = (case max_total of None \<Rightarrow> None
            | Some m \<Rightarrow> (case stateBytes tenant agent key s of (total_bytes, own) \<Rightarrow> totalRefusal total_bytes own bytes m))
      in case refused of
           Some e \<Rightarrow> Inl e
         | None \<Rightarrow> Inr ((length kept, bytes),
             putStateRow now tenant agent key \<lparr>en_value = JStr kept, en_ref = None, en_bytes = bytes\<rparr> s))"

definition prior_of :: "(state_entry \<times> int) option \<Rightarrow> (json \<times> string option) option" where
  "prior_of p = map_option (\<lambda>(e, _). (en_value e, en_ref e)) p"

definition appendState ::
  "int \<Rightarrow> string \<Rightarrow> string \<Rightarrow> string \<Rightarrow> string \<Rightarrow> nat \<Rightarrow> when_full \<Rightarrow> int option \<Rightarrow> store
   \<Rightarrow> doc_error + (((nat \<times> nat) \<times> string list) \<times> store)" where
  "appendState now tenant agent key text max_bytes how max_total s =
     (case documentText key (prior_of (getStateRow tenant agent key s)) AppendTo of
        Inl e \<Rightarrow> Inl e
      | Inr before \<Rightarrow>
        (case appendLines key before text max_bytes how of
           Inl e \<Rightarrow> Inl e
         | Inr (kept, dropped) \<Rightarrow>
           (case writeDocument now tenant agent key kept max_total s of
              Inl e \<Rightarrow> Inl e
            | Inr (sizes, s') \<Rightarrow> Inr ((sizes, dropped), s'))))"

definition reviseState ::
  "int \<Rightarrow> string \<Rightarrow> string \<Rightarrow> string \<Rightarrow> string \<Rightarrow> string option \<Rightarrow> nat \<Rightarrow> int option \<Rightarrow> store
   \<Rightarrow> doc_error + (((nat \<times> nat) \<times> revision) \<times> store)" where
  "reviseState now tenant agent key old next_text max_bytes max_total s =
     (case getStateRow tenant agent key s of
        None \<Rightarrow> Inl (NothingToRevise key)
      | Some prior \<Rightarrow>
        (case documentText key (prior_of (Some prior)) Revise of
           Inl e \<Rightarrow> Inl e
         | Inr doc \<Rightarrow>
           (case reviseText key doc old next_text max_bytes of
              Inl e \<Rightarrow> Inl e
            | Inr r \<Rightarrow>
              (case writeDocument now tenant agent key (rv_kept r) max_total s of
                 Inl e \<Rightarrow> Inl e
               | Inr (sizes, s') \<Rightarrow> Inr ((sizes, r), s')))))"

definition insertState ::
  "int \<Rightarrow> string \<Rightarrow> string \<Rightarrow> string \<Rightarrow> int \<Rightarrow> string \<Rightarrow> nat \<Rightarrow> int option \<Rightarrow> store
   \<Rightarrow> doc_error + (((nat \<times> nat) \<times> nat) \<times> store)" where
  "insertState now tenant agent key after_line text max_bytes max_total s =
     (case documentText key (prior_of (getStateRow tenant agent key s)) InsertInto of
        Inl e \<Rightarrow> Inl e
      | Inr before \<Rightarrow>
        (case insertLines key before after_line text max_bytes of
           Inl e \<Rightarrow> Inl e
         | Inr (kept, line) \<Rightarrow>
           (case writeDocument now tenant agent key kept max_total s of
              Inl e \<Rightarrow> Inl e
            | Inr (sizes, s') \<Rightarrow> Inr ((sizes, line), s'))))"

section \<open>The backfill\<close>

definition STATE_BYTES_MARKER :: string where "STATE_BYTES_MARKER = ''agent_state_bytes_encoded''"

text \<open>\<open>SELECT ... WHERE ref IS NULL\<close>, and an \<open>UPDATE\<close> by key for each row whose size is not its value's.\<close>

definition wrong_size :: "state_row \<Rightarrow> bool" where
  "wrong_size r \<longleftrightarrow> st_ref r = None \<and> st_bytes r \<noteq> storedBytes (st_value r)"

definition set_size :: "state_row \<Rightarrow> state_row list \<Rightarrow> state_row list" where
  "set_size r rows = update_where (is_state (st_tenant r) (st_agent r) (st_key r)) (\<lambda>x. x\<lparr>st_bytes := storedBytes (st_value r)\<rparr>) rows"

definition backfillStateBytes :: "store \<Rightarrow> nat \<times> store" where
  "backfillStateBytes s =
     (if counters s STATE_BYTES_MARKER \<noteq> None then (0, s)
      else let wrong = filter wrong_size (agent_state s) in
        (length wrong, s\<lparr>agent_state := fold set_size wrong (agent_state s), counters := (counters s)(STATE_BYTES_MARKER \<mapsto> 1)\<rparr>))"
section \<open>The table\<close>

definition state_key :: "state_row \<Rightarrow> string \<times> string \<times> string" where
  "state_key r = (st_tenant r, st_agent r, st_key r)"

definition state_get :: "store \<Rightarrow> string \<times> string \<times> string \<Rightarrow> state_entry option" where
  "state_get s k = (case k of (tenant, agent, key) \<Rightarrow> map_option fst (getState tenant agent key s))"

definition state_put :: "int \<Rightarrow> string \<times> string \<times> string \<Rightarrow> state_entry \<Rightarrow> store \<Rightarrow> store" where
  "state_put now k e s = (case k of (tenant, agent, key) \<Rightarrow> putState now tenant agent key e s)"

definition state_del :: "string \<times> string \<times> string \<Rightarrow> store \<Rightarrow> store" where
  "state_del k s = (case k of (tenant, agent, key) \<Rightarrow> snd (deleteState tenant agent key s))"

lemma is_state_key: "is_state tenant agent key r \<longleftrightarrow> state_key r = (tenant, agent, key)"
  by (auto simp: is_state_def state_key_def)

lemma entry_of_put [simp]:
  "entry_of (r\<lparr>st_value := column_of (en_value e), st_ref := en_ref e, st_bytes := en_bytes e, st_updated := now\<rparr>) = e"
  "entry_of \<lparr>st_tenant = tenant, st_agent = agent, st_key = key, st_value = column_of (en_value e), st_ref = en_ref e,
     st_bytes = en_bytes e, st_updated = now\<rparr> = e"
  by (simp_all add: entry_of_def column_of_def)

lemma state_get_row: "state_get s (tenant, agent, key) = map_option entry_of (get_row (is_state tenant agent key) (agent_state s))"
  by (simp add: state_get_def getState_def getStateRow_def option.map_comp comp_def)

lemma state_get_put: "state_get (putStateRow now tenant agent key e s) (tenant, agent, key) = Some e"
proof -
  have "agent_state (putStateRow now tenant agent key e s) = upsert (is_state tenant agent key)
      \<lparr>st_tenant = tenant, st_agent = agent, st_key = key, st_value = column_of (en_value e), st_ref = en_ref e,
       st_bytes = en_bytes e, st_updated = now\<rparr>
      (\<lambda>r. r\<lparr>st_value := column_of (en_value e), st_ref := en_ref e, st_bytes := en_bytes e, st_updated := now\<rparr>) (agent_state s)"
    by (simp add: putStateRow_def)
  then show ?thesis unfolding state_get_row
    by (simp only: , subst get_row_upsert_same) (auto simp: is_state_def split: option.split)
qed

lemma state_get_put_other:
  assumes "(t, a, k) \<noteq> (tenant, agent, key)"
  shows "state_get (putStateRow now tenant agent key e s) (t, a, k) = state_get s (t, a, k)"
proof -
  have "get_row (is_state t a k) (upsert (is_state tenant agent key) new f rows) = get_row (is_state t a k) rows"
    if "is_state tenant agent key new" "\<And>r. state_key (f r) = state_key r" for new f rows
    using that assms by (intro get_row_upsert_other) (auto simp: is_state_key)
  from this [where rows = "agent_state s"] show ?thesis
    unfolding state_get_row putStateRow_def by (simp add: is_state_def state_key_def)
qed

interpretation state_table: keyed_table state_get "state_put now" state_del "\<lambda>_. True"
proof
  fix k k' :: "string \<times> string \<times> string" and e s
  obtain t a x where k: "k = (t, a, x)" by (cases k)
  obtain t' a' x' where k': "k' = (t', a', x')" by (cases k')
  show "state_get (state_put now k e s) k = Some e"
    unfolding k by (simp add: state_put_def putState_def state_get_put)
  show "state_get (state_put now k e s) k' = state_get s k'" if "k' \<noteq> k"
    using that unfolding k k' by (simp add: state_put_def putState_def state_get_put_other)
  show "state_get (state_del k s) k = None"
    unfolding k by (simp add: state_get_row state_del_def deleteState_def)
  show "state_get (state_del k s) k' = state_get s k'" if "k' \<noteq> k"
  proof -
    have "get_row (is_state t' a' x') (delete_where (is_state t a x) rows) = get_row (is_state t' a' x') rows" for rows
      using that unfolding k k' by (intro get_row_delete_other) (auto simp: is_state_key)
    then show ?thesis unfolding k k' by (simp add: state_get_row state_del_def deleteState_def)
  qed
qed

section \<open>Sizes\<close>

definition state_inv :: "store \<Rightarrow> bool" where
  "state_inv s \<longleftrightarrow> distinct (map state_key (agent_state s)) \<and> list_all (\<lambda>r. \<not> wrong_size r) (agent_state s)"

lemma distinct_upsert_state:
  "distinct (map state_key (agent_state s)) \<Longrightarrow> distinct (map state_key (agent_state (putStateRow now tenant agent key e s)))"
  unfolding putStateRow_def by (auto intro!: distinct_map_upsert simp: state_key_def is_state_def)

lemma sum_update_one:
  assumes "distinct (map state_key rows)" and "has_row (is_state tenant agent key) rows" and "\<And>r. st_bytes (f r) = n"
    and "\<And>r. state_key (f r) = state_key r"
  shows "sum_list (map st_bytes (filter (of_agent tenant agent) (update_where (is_state tenant agent key) f rows)))
      + sum_list (map (\<lambda>r. if st_key r = key then st_bytes r else 0) (filter (of_agent tenant agent) rows))
    = sum_list (map st_bytes (filter (of_agent tenant agent) rows)) + n"
  using assms(1,2)
proof (induction rows)
  case (Cons r rows)
  have keep: "of_agent tenant agent (f x) = of_agent tenant agent x" for x
    using assms(4) [of x] by (simp add: of_agent_def state_key_def)
  show ?case
  proof (cases "is_state tenant agent key r")
    case True
    then have none: "\<not> is_state tenant agent key x" if "x \<in> set rows" for x
      using that Cons.prems(1) True by (auto simp: is_state_key) (metis image_eqI)
    then have "update_where (is_state tenant agent key) f rows = rows" by (rule update_where_id)
    moreover have "sum_list (map (\<lambda>r. if st_key r = key then st_bytes r else 0) (filter (of_agent tenant agent) rows)) = 0"
      using none by (auto simp: of_agent_def is_state_def)
    moreover have "of_agent tenant agent r" "st_key r = key" using True by (simp_all add: of_agent_def is_state_def)
    ultimately show ?thesis using True keep assms(3) by (simp add: update_where_def)
  next
    case False
    with Cons have "sum_list (map st_bytes (filter (of_agent tenant agent) (update_where (is_state tenant agent key) f rows)))
      + sum_list (map (\<lambda>r. if st_key r = key then st_bytes r else 0) (filter (of_agent tenant agent) rows))
      = sum_list (map st_bytes (filter (of_agent tenant agent) rows)) + n" by (simp add: has_row_iff)
    moreover have "st_key r \<noteq> key" if "of_agent tenant agent r" using that False by (simp add: of_agent_def is_state_def)
    ultimately show ?thesis using False by (simp add: update_where_Cons)
  qed
qed (simp add: has_row_def)

text \<open>Writing a row replaces its part of the total by the new size.\<close>

lemma usage_after_put:
  assumes "distinct (map state_key (agent_state s))"
  shows "snd (stateUsage tenant agent (putStateRow now tenant agent key e s)) + snd (stateBytes tenant agent key s)
    = snd (stateUsage tenant agent s) + en_bytes e"
proof (cases "has_row (is_state tenant agent key) (agent_state s)")
  case True
  then show ?thesis
    using sum_update_one [OF assms True, of "\<lambda>r. r\<lparr>st_value := column_of (en_value e), st_ref := en_ref e, st_bytes := en_bytes e, st_updated := now\<rparr>" "en_bytes e"]
    by (simp add: putStateRow_def upsert_def stateUsage_def stateBytes_def Let_def state_key_def)
next
  case False
  then have "sum_list (map (\<lambda>r. if st_key r = key then st_bytes r else 0) (filter (of_agent tenant agent) (agent_state s))) = 0"
    by (auto simp: has_row_iff of_agent_def is_state_def)
  with False show ?thesis
    by (simp add: putStateRow_def upsert_def stateUsage_def stateBytes_def Let_def of_agent_def)
qed

lemma own_le_total: "snd (stateBytes tenant agent key s) \<le> fst (stateBytes tenant agent key s)"
  unfolding stateBytes_def Let_def by (simp, intro sum_list_mono) simp

lemma total_is_usage: "fst (stateBytes tenant agent key s) = snd (stateUsage tenant agent s)"
  by (simp add: stateBytes_def stateUsage_def Let_def)
section \<open>Edits of a document\<close>

text \<open>The three edits as one operation, with the characters and the size it answers.\<close>

datatype document_edit = EAppend string when_full | ERevise string "string option" | EInsert int string

definition edit_document ::
  "int \<Rightarrow> string \<Rightarrow> string \<Rightarrow> string \<Rightarrow> nat \<Rightarrow> int option \<Rightarrow> document_edit \<Rightarrow> store \<Rightarrow> doc_error + ((nat \<times> nat) \<times> store)" where
  "edit_document now tenant agent key max_bytes max_total e s =
     (case e of
        EAppend text how \<Rightarrow> map_sum id (apfst fst) (appendState now tenant agent key text max_bytes how max_total s)
      | ERevise old next_text \<Rightarrow> map_sum id (apfst fst) (reviseState now tenant agent key old next_text max_bytes max_total s)
      | EInsert after_line text \<Rightarrow> map_sum id (apfst fst) (insertState now tenant agent key after_line text max_bytes max_total s))"

definition text_entry :: "string \<Rightarrow> state_entry" where
  "text_entry t = \<lparr>en_value = JStr t, en_ref = None, en_bytes = storedBytes (Some (JStr t))\<rparr>"

lemma writeDocument_result:
  assumes "writeDocument now tenant agent key kept max_total s = Inr (sizes, s')"
  shows "sizes = (length kept, storedBytes (Some (JStr kept))) \<and> s' = putStateRow now tenant agent key (text_entry kept) s
    \<and> (\<forall>m. max_total = Some m \<longrightarrow>
        totalRefusal (fst (stateBytes tenant agent key s)) (snd (stateBytes tenant agent key s)) (storedBytes (Some (JStr kept))) m = None)"
  using assms by (auto simp: writeDocument_def Let_def text_entry_def split: option.splits prod.splits)

lemma edit_writes:
  assumes "edit_document now tenant agent key max_bytes max_total e s = Inr (sizes, s')"
  obtains kept where "writeDocument now tenant agent key kept max_total s = Inr (sizes, s')"
  using assms
  by (cases e) (auto simp: edit_document_def appendState_def reviseState_def insertState_def split: sum.splits prod.splits option.splits)

lemma put_keeps_inv:
  assumes "state_inv s" and "en_ref e \<noteq> None \<or> en_bytes e = storedBytes (column_of (en_value e))"
  shows "state_inv (putStateRow now tenant agent key e s)"
proof -
  have d: "distinct (map state_key (agent_state (putStateRow now tenant agent key e s)))"
    using assms(1) distinct_upsert_state by (simp add: state_inv_def)
  have "\<not> wrong_size r" if "r \<in> set (agent_state (putStateRow now tenant agent key e s))" for r
    using that assms by (auto simp: state_inv_def list_all_iff putStateRow_def upsert_def set_update_where wrong_size_def split: if_splits)
  with d show ?thesis by (simp add: state_inv_def list_all_iff)
qed

lemma total_kept:
  assumes "distinct (map state_key (agent_state s))"
    and "totalRefusal (fst (stateBytes tenant agent key s)) (snd (stateBytes tenant agent key s)) (en_bytes e) m = None"
  shows "int (snd (stateUsage tenant agent (putStateRow now tenant agent key e s))) \<le> max m (int (snd (stateUsage tenant agent s)))"
  using usage_after_put [OF assms(1), of tenant agent now key e] assms(2) own_le_total [of tenant agent key s]
  by (auto simp: totalRefusal_def total_is_usage split: if_splits)

text \<open>
  An edit touches its own document and keeps the accounts. When an append, a revision or an insert succeeds: the key
  holds the new text, inline, and the sizes answered are its length and the length of its JSON; every other key of every agent is as it
  was; each inline row's recorded size is the length of what it holds; and the agent's total is at most the limit, or no more than it was.
\<close>

theorem edits_keep_the_accounts:
  assumes "state_inv s" and "edit_document now tenant agent key max_bytes max_total e s = Inr (sizes, s')"
  shows "\<exists>kept. sizes = (length kept, storedBytes (Some (JStr kept)))
    \<and> state_get s' (tenant, agent, key) = Some (text_entry kept)
    \<and> (\<forall>k. k \<noteq> (tenant, agent, key) \<longrightarrow> state_get s' k = state_get s k)
    \<and> state_inv s' \<and> s' = s\<lparr>agent_state := agent_state s'\<rparr>
    \<and> (\<forall>m. max_total = Some m \<longrightarrow> int (snd (stateUsage tenant agent s')) \<le> max m (int (snd (stateUsage tenant agent s))))"
proof -
  obtain kept where w: "writeDocument now tenant agent key kept max_total s = Inr (sizes, s')"
    using assms(2) by (rule edit_writes)
  note r = writeDocument_result [OF w]
  then have s': "s' = putStateRow now tenant agent key (text_entry kept) s" by blast
  have "state_inv s'" unfolding s' by (rule put_keeps_inv [OF assms(1)]) (simp add: text_entry_def column_of_def)
  moreover have "int (snd (stateUsage tenant agent s')) \<le> max m (int (snd (stateUsage tenant agent s)))" if "max_total = Some m" for m
    unfolding s' using r that assms(1) by (intro total_kept) (simp_all add: state_inv_def text_entry_def)
  moreover have "s' = s\<lparr>agent_state := agent_state s'\<rparr>" unfolding s' by (simp add: putStateRow_def)
  moreover have "state_get s' (tenant, agent, key) = Some (text_entry kept)"
    and "\<forall>k. k \<noteq> (tenant, agent, key) \<longrightarrow> state_get s' k = state_get s k"
    using state_table.get_put_same [of now "(tenant, agent, key)" "text_entry kept" s]
      state_table.get_put_other [of _ "(tenant, agent, key)" now "text_entry kept" s]
    unfolding s' by (simp_all add: state_put_def putState_def)
  ultimately show ?thesis using r by blast
qed

definition state_example :: store where
  "state_example = putStateRow 1 ''acme'' ''ada'' ''memory'' (text_entry ''tea'') init_store"

theorem edits_keep_the_accounts_witness:
  "\<exists>s'. edit_document 2 ''acme'' ''ada'' ''memory'' 100 (Some 40) (EAppend ''milk'' Refuse) state_example = Inr ((8, 11), s') \<and> state_inv s'"
proof -
  have i: "state_inv state_example"
    by (simp add: state_example_def state_inv_def putStateRow_def upsert_def has_row_def init_store_def wrong_size_def text_entry_def column_of_def)
  have "appendLines ''memory'' ''tea'' ''milk'' 100 Refuse = Inr (''tea'' @ [NL] @ ''milk'', [])" by code_simp
  moreover have "storedBytes (Some (JStr (''tea'' @ [NL] @ ''milk''))) = 11" by code_simp
  moreover have "stateBytes ''acme'' ''ada'' ''memory'' state_example = (5, 5)" by code_simp
  moreover have "documentText ''memory'' (prior_of (getStateRow ''acme'' ''ada'' ''memory'' state_example)) AppendTo = Inr ''tea''" by code_simp
  ultimately obtain s' where e: "edit_document 2 ''acme'' ''ada'' ''memory'' 100 (Some 40) (EAppend ''milk'' Refuse) state_example = Inr ((8, 11), s')"
    by (simp add: edit_document_def appendState_def writeDocument_def totalRefusal_def)
  with edits_keep_the_accounts [OF i e] show ?thesis by blast
qed
section \<open>The backfill brings every size right\<close>

lemma fold_update_each:
  assumes "\<And>r x. g (f r x) = g x" and "distinct (map g picked)"
  shows "fold (\<lambda>r. update_where (\<lambda>x. g x = g r) (f r)) picked rows
    = map (\<lambda>x. case get_row (\<lambda>r. g r = g x) picked of None \<Rightarrow> x | Some r \<Rightarrow> f r x) rows"
  using assms(2)
proof (induction picked arbitrary: rows)
  case (Cons r rs)
  have none: "get_row (\<lambda>r'. g r' = g r) rs = None" using Cons.prems by (auto simp: get_row_None_iff) (metis image_eqI)
  have "fold (\<lambda>r. update_where (\<lambda>x. g x = g r) (f r)) (r # rs) rows
      = map (\<lambda>x. case get_row (\<lambda>r. g r = g x) rs of None \<Rightarrow> x | Some r \<Rightarrow> f r x) (update_where (\<lambda>x. g x = g r) (f r) rows)"
    using Cons by simp
  also have "\<dots> = map (\<lambda>x. case get_row (\<lambda>r. g r = g x) (r # rs) of None \<Rightarrow> x | Some r \<Rightarrow> f r x) rows"
    unfolding update_where_def map_map
  proof (intro map_cong refl)
    fix x
    show "((\<lambda>x. case get_row (\<lambda>r. g r = g x) rs of None \<Rightarrow> x | Some r \<Rightarrow> f r x) \<circ> (\<lambda>x. if g x = g r then f r x else x)) x
        = (case get_row (\<lambda>r. g r = g x) (r # rs) of None \<Rightarrow> x | Some r \<Rightarrow> f r x)"
      using none by (cases "g x = g r") (auto simp: assms(1))
  qed
  finally show ?case .
qed simp

definition right_size :: "state_row \<Rightarrow> state_row" where
  "right_size r = (if wrong_size r then r\<lparr>st_bytes := storedBytes (st_value r)\<rparr> else r)"

lemma fold_set_size:
  assumes "distinct (map state_key rows)"
  shows "fold set_size (filter wrong_size rows) rows = map right_size rows"
proof -
  have "set_size = (\<lambda>r. update_where (\<lambda>x. state_key x = state_key r) (\<lambda>x. x\<lparr>st_bytes := storedBytes (st_value r)\<rparr>))"
    unfolding set_size_def by (intro ext arg_cong [where f = "\<lambda>p. update_where p _ _"]) (simp add: is_state_key state_key_def)
  moreover have "distinct (map state_key (filter wrong_size rows))" using assms by (simp add: distinct_map_filter)
  ultimately have "fold set_size (filter wrong_size rows) rows
      = map (\<lambda>x. case get_row (\<lambda>r. state_key r = state_key x) (filter wrong_size rows) of None \<Rightarrow> x
          | Some r \<Rightarrow> x\<lparr>st_bytes := storedBytes (st_value r)\<rparr>) rows"
    using fold_update_each [of state_key "\<lambda>r x. x\<lparr>st_bytes := storedBytes (st_value r)\<rparr>"] by (simp add: state_key_def)
  also have "\<dots> = map right_size rows"
  proof (intro map_cong refl)
    fix x assume x: "x \<in> set rows"
    have same: "r = x" if "r \<in> set rows" "state_key r = state_key x" for r
      using that x assms by (auto simp: distinct_map inj_on_def)
    show "(case get_row (\<lambda>r. state_key r = state_key x) (filter wrong_size rows) of None \<Rightarrow> x
          | Some r \<Rightarrow> x\<lparr>st_bytes := storedBytes (st_value r)\<rparr>) = right_size x"
    proof (cases "get_row (\<lambda>r. state_key r = state_key x) (filter wrong_size rows)")
      case None
      with x have "\<not> wrong_size x" by (auto simp: get_row_None_iff)
      with None show ?thesis by (simp add: right_size_def)
    next
      case (Some r)
      then have "r \<in> set rows" "wrong_size r" "state_key r = state_key x" using get_row_SomeD by fastforce+
      with same Some show ?thesis by (auto simp: right_size_def)
    qed
  qed
  finally show ?thesis .
qed

lemma right_size_simps [simp]:
  "\<not> wrong_size (right_size r)" "state_key (right_size r) = state_key r" "entry_of (right_size r)\<lparr>en_bytes := n\<rparr> = entry_of r\<lparr>en_bytes := n\<rparr>"
  by (simp_all add: right_size_def wrong_size_def state_key_def entry_of_def)

text \<open>
  The backfill is right and runs once. On a store that has not had it, it brings every inline row's size to the length
  of what the row holds, changes nothing else of any row, answers how many it changed, and sets its marker, so that every later
  open changes nothing.
\<close>

theorem backfill_rights_every_size_once:
  assumes "distinct (map state_key (agent_state s))" and "counters s STATE_BYTES_MARKER = None"
    and "backfillStateBytes s = (n, s')"
  shows "state_inv s' \<and> n = length (filter wrong_size (agent_state s))
    \<and> map (\<lambda>r. r\<lparr>st_bytes := 0\<rparr>) (agent_state s') = map (\<lambda>r. r\<lparr>st_bytes := 0\<rparr>) (agent_state s)
    \<and> s' = s\<lparr>agent_state := agent_state s', counters := counters s'\<rparr>
    \<and> backfillStateBytes s' = (0, s')"
proof -
  from assms have n: "n = length (filter wrong_size (agent_state s))"
    and s': "s' = s\<lparr>agent_state := map right_size (agent_state s), counters := (counters s)(STATE_BYTES_MARKER \<mapsto> 1)\<rparr>"
    by (auto simp: backfillStateBytes_def Let_def fold_set_size)
  have "state_inv s'" using assms(1) by (simp add: s' state_inv_def list_all_iff comp_def)
  moreover have "map (\<lambda>r. r\<lparr>st_bytes := 0\<rparr>) (agent_state s') = map (\<lambda>r. r\<lparr>st_bytes := 0\<rparr>) (agent_state s)"
    by (simp add: s' right_size_def comp_def)
  moreover have "backfillStateBytes s' = (0, s')" by (simp add: backfillStateBytes_def s')
  ultimately show ?thesis using n by (simp add: s')
qed

theorem backfill_rights_every_size_once_witness:
  "fst (backfillStateBytes (init_store\<lparr>agent_state := [\<lparr>st_tenant = ''acme'', st_agent = ''ada'', st_key = ''memory'',
     st_value = Some (JStr ''tea''), st_ref = None, st_bytes = 3, st_updated = 1\<rparr>]\<rparr>)) = 1"
proof -
  let ?s = "init_store\<lparr>agent_state := [\<lparr>st_tenant = ''acme'', st_agent = ''ada'', st_key = ''memory'',
     st_value = Some (JStr ''tea''), st_ref = None, st_bytes = 3, st_updated = 1\<rparr>]\<rparr>"
  obtain n s' where b: "backfillStateBytes ?s = (n, s')" by fastforce
  have "storedBytes (Some (JStr ''tea'')) = 5" by code_simp
  then have "length (filter wrong_size (agent_state ?s)) = 1" by (simp add: wrong_size_def)
  with backfill_rights_every_size_once [OF _ _ b] b show ?thesis by (simp add: init_store_def STATE_BYTES_MARKER_def)
qed

section \<open>What a listing selects\<close>

lemma like_percent: "like ''%'' s"
  by (induction s) simp_all

text \<open>With a prefix that has no wildcard, the keys that begin with it, in either case.\<close>

lemma like_prefix:
  "CHR ''%'' \<notin> set p \<Longrightarrow> CHR ''_'' \<notin> set p \<Longrightarrow>
     like (p @ ''%'') s \<longleftrightarrow> length p \<le> length s \<and> map lower_ascii (take (length p) s) = map lower_ascii p"
proof (induction p arbitrary: s)
  case Nil
  then show ?case by (simp add: like_percent)
next
  case (Cons c p)
  then show ?case by (cases s) auto
qed

text \<open>
  A listing is by pattern, not by prefix: an underscore in the prefix stands for any character, and letters match in either case,
  so the listing under \<open>a_\<close> holds the key \<open>ab\<close>, and the one under \<open>A\<close> the key \<open>ab\<close> too, although neither begins so.
\<close>

theorem listing_is_by_pattern:
  "CHR ''%'' \<notin> set prefix \<Longrightarrow> CHR ''_'' \<notin> set prefix \<Longrightarrow>
     map fst (listState tenant agent prefix limit s) =
       take limit (sort (map st_key (filter (\<lambda>r. of_agent tenant agent r \<and> length prefix \<le> length (st_key r)
         \<and> map lower_ascii (take (length prefix) (st_key r)) = map lower_ascii prefix) (agent_state s))))"
  "like ''a_%'' ''ab''" "like ''A%'' ''ab''"
proof -
  have "map st_key (order_by st_key rows) = sort (map st_key rows)" for rows :: "state_row list"
    by (rule properties_for_sort [symmetric]) (simp_all add: order_by_def mset_map)
  then show "CHR ''%'' \<notin> set prefix \<Longrightarrow> CHR ''_'' \<notin> set prefix \<Longrightarrow>
     map fst (listState tenant agent prefix limit s) =
       take limit (sort (map st_key (filter (\<lambda>r. of_agent tenant agent r \<and> length prefix \<le> length (st_key r)
         \<and> map lower_ascii (take (length prefix) (st_key r)) = map lower_ascii prefix) (agent_state s))))"
    by (simp add: listState_def comp_def like_prefix flip: take_map cong: conj_cong)
qed code_simp+

end
