(* ===== verification/Plugin_Db.thy ===== *)
theory Plugin_Db
  imports Store_Types Interfaces "HOL-Library.Product_Lexorder"
begin

text \<open>
  The rows behind every plugin database: \<open>src/src/store/plugin-db.ts\<close>, class \<open>PluginDbTables\<close>, over the tables
  \<open>plugin_rows\<close> and \<open>plugin_versions\<close> of the store. Keys and indexed fields are numbers and strings, every number
  before every string; the type \<open>db_key\<close> is instantiated as a linear order so that the library's sorting applies to it. The lemmas
  show that a database is a keyed table per scope, that a read by range is exactly the rows in the range in key order, with
  \<open>count\<close> and \<open>delete\<close> agreeing with it, and that a rename moves a mount's databases whole.
\<close>

section \<open>Keys in order\<close>

instantiation db_key :: linorder
begin

fun less_eq_db_key :: "db_key \<Rightarrow> db_key \<Rightarrow> bool" where
  "less_eq_db_key (KNum x) (KNum y) = (x \<le> y)"
| "less_eq_db_key (KNum x) (KStr t) = True"
| "less_eq_db_key (KStr s) (KNum y) = False"
| "less_eq_db_key (KStr s) (KStr t) = (s \<le> t)"

definition less_db_key :: "db_key \<Rightarrow> db_key \<Rightarrow> bool" where
  "less_db_key a b \<longleftrightarrow> a \<le> b \<and> \<not> b \<le> a"

instance
proof
  fix a b c :: db_key
  show "a < b \<longleftrightarrow> a \<le> b \<and> \<not> b \<le> a" by (simp add: less_db_key_def)
  show "a \<le> a" by (cases a) simp_all
  show "a \<le> b \<Longrightarrow> b \<le> c \<Longrightarrow> a \<le> c" by (cases a; cases b; cases c) auto
  show "a \<le> b \<Longrightarrow> b \<le> a \<Longrightarrow> a = b" by (cases a; cases b) auto
  show "a \<le> b \<or> b \<le> a" by (cases a; cases b) auto
qed

end

text \<open>A query: none, one key, or a range whose ends are open or closed.\<close>

datatype db_query = QAll | QKey db_key | QRange "db_key option" bool "db_key option" bool

text \<open>\<open>where(column, query)\<close>, as the test it adds; \<open>NULL\<close> passes no comparison.\<close>

definition in_query :: "db_query \<Rightarrow> db_key option \<Rightarrow> bool" where
  "in_query q column =
     (case q of
        QAll \<Rightarrow> True
      | QKey k \<Rightarrow> column = Some k
      | QRange lower lower_open upper upper_open \<Rightarrow>
          (case lower of None \<Rightarrow> True
            | Some l \<Rightarrow> (case column of None \<Rightarrow> False | Some k \<Rightarrow> if lower_open then l < k else l \<le> k)) \<and>
          (case upper of None \<Rightarrow> True
            | Some u \<Rightarrow> (case column of None \<Rightarrow> False | Some k \<Rightarrow> if upper_open then k < u else k \<le> u)))"

section \<open>Operations\<close>

record db_scope =
  sc_tenant :: string
  sc_agent :: string
  sc_alias :: string
  sc_plugin :: string

definition in_scope :: "db_scope \<Rightarrow> plugin_db_row \<Rightarrow> bool" where
  "in_scope sc r \<longleftrightarrow> pd_tenant r = sc_tenant sc \<and> pd_agent r = sc_agent sc \<and> pd_alias r = sc_alias sc \<and> pd_plugin r = sc_plugin sc"

definition in_store :: "db_scope \<Rightarrow> string \<Rightarrow> plugin_db_row \<Rightarrow> bool" where
  "in_store sc st r \<longleftrightarrow> in_scope sc r \<and> pd_store r = st"

definition version_scope :: "db_scope \<Rightarrow> plugin_version_row \<Rightarrow> bool" where
  "version_scope sc r \<longleftrightarrow> pv_tenant r = sc_tenant sc \<and> pv_agent r = sc_agent sc \<and> pv_alias r = sc_alias sc \<and> pv_plugin r = sc_plugin sc"

definition version :: "db_scope \<Rightarrow> store \<Rightarrow> int option" where
  "version sc s = map_option pv_version (get_row (version_scope sc) (plugin_versions s))"

definition setVersion :: "int \<Rightarrow> db_scope \<Rightarrow> int \<Rightarrow> store \<Rightarrow> store" where
  "setVersion now sc v s =
     s\<lparr>plugin_versions := upsert (version_scope sc)
        \<lparr>pv_tenant = sc_tenant sc, pv_agent = sc_agent sc, pv_alias = sc_alias sc, pv_plugin = sc_plugin sc, pv_version = v, pv_updated = now\<rparr>
        (\<lambda>r. r\<lparr>pv_version := v, pv_updated := now\<rparr>) (plugin_versions s)\<rparr>"

definition db_get :: "db_scope \<Rightarrow> string \<Rightarrow> db_key \<Rightarrow> store \<Rightarrow> json option" where
  "db_get sc st k s = map_option pd_value (get_row (\<lambda>r. in_store sc st r \<and> pd_key r = k) (plugin_rows s))"

definition db_put :: "int \<Rightarrow> db_scope \<Rightarrow> string \<Rightarrow> db_key \<Rightarrow> json \<Rightarrow> db_key option \<Rightarrow> store \<Rightarrow> store" where
  "db_put now sc st k v idx s =
     s\<lparr>plugin_rows := upsert (\<lambda>r. in_store sc st r \<and> pd_key r = k)
        \<lparr>pd_tenant = sc_tenant sc, pd_agent = sc_agent sc, pd_alias = sc_alias sc, pd_plugin = sc_plugin sc, pd_store = st,
         pd_key = k, pd_value = v, pd_idx = idx, pd_updated = now\<rparr>
        (\<lambda>r. r\<lparr>pd_value := v, pd_idx := idx, pd_updated := now\<rparr>) (plugin_rows s)\<rparr>"

definition db_delete :: "db_scope \<Rightarrow> string \<Rightarrow> db_query \<Rightarrow> store \<Rightarrow> store" where
  "db_delete sc st q s = s\<lparr>plugin_rows := delete_where (\<lambda>r. in_store sc st r \<and> in_query q (Some (pd_key r))) (plugin_rows s)\<rparr>"

definition limited :: "nat option \<Rightarrow> 'a list \<Rightarrow> 'a list" where
  "limited n xs = (case n of None \<Rightarrow> xs | Some k \<Rightarrow> take k xs)"

definition getAll :: "db_scope \<Rightarrow> string \<Rightarrow> db_query \<Rightarrow> nat option \<Rightarrow> store \<Rightarrow> json list" where
  "getAll sc st q n s =
     map pd_value (limited n (order_by pd_key (filter (\<lambda>r. in_store sc st r \<and> in_query q (Some (pd_key r))) (plugin_rows s))))"

text \<open>\<open>ORDER BY idx, key\<close> over the rows whose index is set.\<close>

definition index_order :: "plugin_db_row \<Rightarrow> db_key \<times> db_key" where
  "index_order r = (or_else (pd_idx r) (KNum 0), pd_key r)"

definition getAllFromIndex :: "db_scope \<Rightarrow> string \<Rightarrow> db_query \<Rightarrow> nat option \<Rightarrow> store \<Rightarrow> json list" where
  "getAllFromIndex sc st q n s =
     map pd_value (limited n (order_by index_order
       (filter (\<lambda>r. in_store sc st r \<and> pd_idx r \<noteq> None \<and> in_query q (pd_idx r)) (plugin_rows s))))"

definition db_count :: "db_scope \<Rightarrow> string \<Rightarrow> db_query \<Rightarrow> store \<Rightarrow> nat" where
  "db_count sc st q s = length (filter (\<lambda>r. in_store sc st r \<and> in_query q (Some (pd_key r))) (plugin_rows s))"

definition of_alias :: "string \<Rightarrow> string \<Rightarrow> string \<Rightarrow> plugin_db_row \<Rightarrow> bool" where
  "of_alias tenant agent alias r \<longleftrightarrow> pd_tenant r = tenant \<and> pd_agent r = agent \<and> pd_alias r = alias"

definition version_of_alias :: "string \<Rightarrow> string \<Rightarrow> string \<Rightarrow> plugin_version_row \<Rightarrow> bool" where
  "version_of_alias tenant agent alias r \<longleftrightarrow> pv_tenant r = tenant \<and> pv_agent r = agent \<and> pv_alias r = alias"

text \<open>The primary keys of the two tables.\<close>

definition db_row_key :: "plugin_db_row \<Rightarrow> string \<times> string \<times> string \<times> string \<times> string \<times> db_key" where
  "db_row_key r = (pd_tenant r, pd_agent r, pd_alias r, pd_plugin r, pd_store r, pd_key r)"

definition version_row_key :: "plugin_version_row \<Rightarrow> string \<times> string \<times> string \<times> string" where
  "version_row_key r = (pv_tenant r, pv_agent r, pv_alias r, pv_plugin r)"

text \<open>The two updates; a primary key already taken under the new alias fails the statement.\<close>

definition rename_rows :: "string \<Rightarrow> string \<Rightarrow> string \<Rightarrow> string \<Rightarrow> plugin_db_row list \<Rightarrow> plugin_db_row list" where
  "rename_rows tenant agent old new rows = update_where (of_alias tenant agent old) (\<lambda>r. r\<lparr>pd_alias := new\<rparr>) rows"

definition rename_versions :: "string \<Rightarrow> string \<Rightarrow> string \<Rightarrow> string \<Rightarrow> plugin_version_row list \<Rightarrow> plugin_version_row list" where
  "rename_versions tenant agent old new rows = update_where (version_of_alias tenant agent old) (\<lambda>r. r\<lparr>pv_alias := new\<rparr>) rows"

definition db_rename :: "string \<Rightarrow> string \<Rightarrow> string \<Rightarrow> string \<Rightarrow> store \<Rightarrow> store_error + store" where
  "db_rename tenant agent old new s =
     (let rows = rename_rows tenant agent old new (plugin_rows s);
          versions = rename_versions tenant agent old new (plugin_versions s) in
      if \<not> distinct (map db_row_key rows) then Inl (ConstraintFailed ''plugin_db'')
      else if \<not> distinct (map version_row_key versions) then Inl (ConstraintFailed ''plugin_db_versions'')
      else Inr (s\<lparr>plugin_rows := rows, plugin_versions := versions\<rparr>))"

definition db_remove :: "string \<Rightarrow> string \<Rightarrow> string \<Rightarrow> store \<Rightarrow> store" where
  "db_remove tenant agent alias s =
     s\<lparr>plugin_rows := delete_where (of_alias tenant agent alias) (plugin_rows s),
       plugin_versions := delete_where (version_of_alias tenant agent alias) (plugin_versions s)\<rparr>"

text \<open>One line per alias, plugin and store: how many keys, and when the last changed.\<close>

record db_summary =
  su_alias :: string
  su_agent_level :: bool
  su_plugin :: string
  su_store :: string
  su_keys :: nat
  su_updated :: int

definition group_of :: "plugin_db_row \<Rightarrow> string \<times> string \<times> string" where
  "group_of r = (pd_alias r, pd_plugin r, pd_store r)"

definition AGENT_SCOPE_ALIAS :: string where "AGENT_SCOPE_ALIAS = ''''"

definition db_summary_of :: "string \<Rightarrow> string \<Rightarrow> store \<Rightarrow> db_summary list" where
  "db_summary_of tenant agent s =
     (let rows = filter (\<lambda>r. pd_tenant r = tenant \<and> pd_agent r = agent) (plugin_rows s) in
      map (\<lambda>g. let rs = filter (\<lambda>r. group_of r = g) rows in
         \<lparr>su_alias = fst g, su_agent_level = (fst g = AGENT_SCOPE_ALIAS), su_plugin = fst (snd g), su_store = snd (snd g),
          su_keys = length rs, su_updated = Max (set (map pd_updated rs))\<rparr>)
        (sort (remdups (map group_of rows))))"
section \<open>A database is a keyed table\<close>

type_synonym db_address = "db_scope \<times> string \<times> db_key"

definition address_of :: "plugin_db_row \<Rightarrow> db_address" where
  "address_of r = (\<lparr>sc_tenant = pd_tenant r, sc_agent = pd_agent r, sc_alias = pd_alias r, sc_plugin = pd_plugin r\<rparr>, pd_store r, pd_key r)"

lemma at_address: "in_store sc st r \<and> pd_key r = k \<longleftrightarrow> address_of r = (sc, st, k)"
  by (cases sc) (auto simp: in_store_def in_scope_def address_of_def)

lemma address_key: "address_of r = address_of r' \<longleftrightarrow> db_row_key r = db_row_key r'"
  by (auto simp: address_of_def db_row_key_def)

definition db_read :: "store \<Rightarrow> db_address \<Rightarrow> json option" where
  "db_read s a = (case a of (sc, st, k) \<Rightarrow> db_get sc st k s)"

definition db_write :: "int \<Rightarrow> db_key option \<Rightarrow> db_address \<Rightarrow> json \<Rightarrow> store \<Rightarrow> store" where
  "db_write now idx a v s = (case a of (sc, st, k) \<Rightarrow> db_put now sc st k v idx s)"

definition db_erase :: "db_address \<Rightarrow> store \<Rightarrow> store" where
  "db_erase a s = (case a of (sc, st, k) \<Rightarrow> db_delete sc st (QKey k) s)"

lemma db_read_row: "db_read s a = map_option pd_value (get_row (\<lambda>r. address_of r = a) (plugin_rows s))"
  by (cases a) (simp add: db_read_def db_get_def at_address)

lemma db_write_rows:
  "\<exists>new f. plugin_rows (db_write now idx a v s) = upsert (\<lambda>r. address_of r = a) new f (plugin_rows s)
     \<and> address_of new = a \<and> pd_value new = v \<and> (\<forall>r. address_of (f r) = address_of r \<and> pd_value (f r) = v)"
  by (cases a) (auto simp: db_write_def db_put_def at_address address_of_def intro!: exI)

lemma db_erase_rows: "plugin_rows (db_erase a s) = delete_where (\<lambda>r. address_of r = a) (plugin_rows s)"
proof (cases a)
  case (fields sc st k)
  have "(\<lambda>r. in_store sc st r \<and> in_query (QKey k) (Some (pd_key r))) = (\<lambda>r. address_of r = a)"
    by (intro ext) (simp add: in_query_def at_address fields)
  then show ?thesis by (simp add: db_erase_def db_delete_def fields)
qed

interpretation plugin_table: keyed_table db_read "db_write now idx" db_erase "\<lambda>_. True"
proof
  fix a a' :: db_address and v s
  obtain new f where w: "plugin_rows (db_write now idx a v s) = upsert (\<lambda>r. address_of r = a) new f (plugin_rows s)"
    "address_of new = a" "pd_value new = v" "\<And>r. address_of (f r) = address_of r \<and> pd_value (f r) = v"
    using db_write_rows [of now idx a v s] by blast
  show "db_read (db_write now idx a v s) a = Some v"
    unfolding db_read_row w(1) using w(2-4) by (subst get_row_upsert_same) (auto split: option.split)
  show "db_read (db_write now idx a v s) a' = db_read s a'" if "a' \<noteq> a"
    unfolding db_read_row w(1) using w(2-4) that by (subst get_row_upsert_other) auto
  show "db_read (db_erase a s) a = None" by (simp add: db_read_row db_erase_rows)
  show "db_read (db_erase a s) a' = db_read s a'" if "a' \<noteq> a"
    unfolding db_read_row db_erase_rows using that by (subst get_row_delete_other) auto
qed

section \<open>Reads by range\<close>

definition db_keys_unique :: "store \<Rightarrow> bool" where
  "db_keys_unique s \<longleftrightarrow> distinct (map db_row_key (plugin_rows s)) \<and> distinct (map version_row_key (plugin_versions s))"

lemma db_get_unique:
  assumes "db_keys_unique s" and "r \<in> set (plugin_rows s)" and "in_store sc st r"
  shows "db_get sc st (pd_key r) s = Some (pd_value r)"
proof -
  have "get_row (\<lambda>x. in_store sc st x \<and> pd_key x = pd_key r) (plugin_rows s) = Some r"
    using assms by (intro get_row_unique [of db_row_key])
      (auto simp: db_keys_unique_def in_store_def in_scope_def db_row_key_def)
  then show ?thesis by (simp add: db_get_def)
qed

definition keys_in :: "db_scope \<Rightarrow> string \<Rightarrow> db_query \<Rightarrow> store \<Rightarrow> db_key list" where
  "keys_in sc st q s = map pd_key (order_by pd_key (filter (\<lambda>r. in_store sc st r \<and> in_query q (Some (pd_key r))) (plugin_rows s)))"

lemma keys_in_set: "set (keys_in sc st q s) = {k. in_query q (Some k) \<and> db_get sc st k s \<noteq> None}"
proof -
  have "db_get sc st k s \<noteq> None \<longleftrightarrow> (\<exists>r\<in>set (plugin_rows s). in_store sc st r \<and> pd_key r = k)" for k
    using get_row_None_iff [of "\<lambda>r. in_store sc st r \<and> pd_key r = k" "plugin_rows s"] by (auto simp: db_get_def)
  then show ?thesis by (auto simp: keys_in_def)
qed

lemma keys_in_distinct:
  assumes "db_keys_unique s"
  shows "distinct (keys_in sc st q s)"
proof -
  let ?rows = "filter (\<lambda>r. in_store sc st r \<and> in_query q (Some (pd_key r))) (plugin_rows s)"
  have u: "distinct (plugin_rows s)" "inj_on db_row_key (set (plugin_rows s))"
    using assms by (simp_all add: db_keys_unique_def distinct_map)
  have "inj_on pd_key (set ?rows)"
  proof (rule inj_onI)
    fix x y assume xy: "x \<in> set ?rows" "y \<in> set ?rows" "pd_key x = pd_key y"
    then have "db_row_key x = db_row_key y" by (auto simp: in_store_def in_scope_def db_row_key_def)
    with u(2) xy show "x = y" by (auto dest: inj_onD)
  qed
  with u(1) show ?thesis by (simp add: keys_in_def distinct_map order_by_def)
qed

lemma map_limited: "map f (limited n xs) = limited n (map f xs)"
  by (simp add: limited_def take_map split: option.split)

text \<open>
  A read by range is exact. Of any database, a read by a key, a range or everything gives the values of exactly the
  keys that are in the query, in key order (every number before every string) and each once, up to the limit; \<open>count\<close> is how many there are;
  and deleting by the same query removes exactly those keys and leaves every other database and key as it was.
\<close>

theorem range_reads_are_exact:
  assumes "db_keys_unique s"
  shows "\<exists>ks. sorted_wrt (<) ks \<and> set ks = {k. in_query q (Some k) \<and> db_get sc st k s \<noteq> None}
    \<and> map Some (getAll sc st q n s) = map (\<lambda>k. db_get sc st k s) (limited n ks)
    \<and> db_count sc st q s = length ks
    \<and> (\<forall>k. db_get sc st k (db_delete sc st q s) = (if in_query q (Some k) then None else db_get sc st k s))
    \<and> (\<forall>sc' st' k. (sc', st') \<noteq> (sc, st) \<longrightarrow> db_get sc' st' k (db_delete sc st q s) = db_get sc' st' k s)"
proof -
  let ?rows = "filter (\<lambda>r. in_store sc st r \<and> in_query q (Some (pd_key r))) (plugin_rows s)"
  let ?ks = "keys_in sc st q s"
  have "sorted ?ks" by (simp add: keys_in_def)
  then have sorted: "sorted_wrt (<) ?ks" using keys_in_distinct [OF assms] by (simp add: strict_sorted_iff)
  have "map Some (getAll sc st q n s) = limited n (map (\<lambda>r. Some (pd_value r)) (order_by pd_key ?rows))"
    by (simp add: getAll_def map_limited comp_def)
  also have "map (\<lambda>r. Some (pd_value r)) (order_by pd_key ?rows) = map (\<lambda>r. db_get sc st (pd_key r) s) (order_by pd_key ?rows)"
    using db_get_unique [OF assms] by (intro map_cong refl) auto
  finally have reads: "map Some (getAll sc st q n s) = map (\<lambda>k. db_get sc st k s) (limited n ?ks)"
    by (simp add: keys_in_def map_limited comp_def)
  have gone: "db_get sc' st' k (db_delete sc st q s) =
      (if (sc', st') = (sc, st) \<and> in_query q (Some k) then None else db_get sc' st' k s)" for sc' st' k
  proof (cases "(sc', st') = (sc, st) \<and> in_query q (Some k)")
    case True
    then have "get_row (\<lambda>r. in_store sc' st' r \<and> pd_key r = k)
      (delete_where (\<lambda>r. in_store sc st r \<and> in_query q (Some (pd_key r))) (plugin_rows s)) = None"
      by (auto simp: get_row_None_iff set_delete_where)
    with True show ?thesis by (simp add: db_get_def db_delete_def)
  next
    case False
    then have "in_store sc' st' r \<and> pd_key r = k \<Longrightarrow> \<not> (in_store sc st r \<and> in_query q (Some (pd_key r)))" for r
      using at_address [of sc' st' r k] at_address [of sc st r k] by auto
    then have "get_row (\<lambda>r. in_store sc' st' r \<and> pd_key r = k)
      (delete_where (\<lambda>r. in_store sc st r \<and> in_query q (Some (pd_key r))) (plugin_rows s))
      = get_row (\<lambda>r. in_store sc' st' r \<and> pd_key r = k) (plugin_rows s)"
      by (intro get_row_delete_other) blast
    then show ?thesis unfolding if_not_P [OF False] by (simp add: db_get_def db_delete_def)
  qed
  have "db_count sc st q s = length ?ks" by (simp add: db_count_def keys_in_def)
  with sorted reads gone keys_in_set show ?thesis by (intro exI [of _ ?ks]) auto
qed

definition db_example :: store where
  "db_example = db_put 1 \<lparr>sc_tenant = ''acme'', sc_agent = ''ada'', sc_alias = ''gh'', sc_plugin = ''github''\<rparr> ''prs'' (KNum 7) (JStr ''open'') None init_store"

theorem range_reads_are_exact_witness:
  "getAll \<lparr>sc_tenant = ''acme'', sc_agent = ''ada'', sc_alias = ''gh'', sc_plugin = ''github''\<rparr> ''prs'' QAll None db_example = [JStr ''open'']
   \<and> db_keys_unique db_example"
proof -
  let ?sc = "\<lparr>sc_tenant = ''acme'', sc_agent = ''ada'', sc_alias = ''gh'', sc_plugin = ''github''\<rparr>"
  have u: "db_keys_unique db_example"
    by (simp add: db_example_def db_keys_unique_def db_put_def upsert_def has_row_def init_store_def)
  have k: "db_get ?sc ''prs'' k db_example = (if k = KNum 7 then Some (JStr ''open'') else None)" for k
    by (auto simp: db_example_def db_get_def db_put_def upsert_def has_row_def init_store_def in_store_def in_scope_def)
  from range_reads_are_exact [OF u, of QAll ?sc "''prs''" None] obtain ks where
    ks: "sorted_wrt (<) ks" "set ks = {KNum 7}" "map Some (getAll ?sc ''prs'' QAll None db_example) = map (\<lambda>k. db_get ?sc ''prs'' k db_example) ks"
    by (auto simp: k in_query_def limited_def)
  have "distinct ks" using ks(1) by (simp add: strict_sorted_iff)
  with ks(2) have "ks = [KNum 7]" by (cases ks; cases "tl ks") auto
  with ks(3) u show ?thesis by (auto simp: k map_eq_Cons_conv)
qed

section \<open>Moving a mount's databases\<close>

lemma rename_moves:
  assumes "db_rename tenant agent old new s = Inr s'" and "old \<noteq> new"
  shows "plugin_rows s' = rename_rows tenant agent old new (plugin_rows s)
    \<and> plugin_versions s' = rename_versions tenant agent old new (plugin_versions s)
    \<and> s' = s\<lparr>plugin_rows := plugin_rows s', plugin_versions := plugin_versions s'\<rparr>
    \<and> db_keys_unique s'"
  using assms by (auto simp: db_rename_def Let_def db_keys_unique_def split: if_splits)

lemma db_get_iff:
  assumes "db_keys_unique s"
  shows "db_get sc st k s = Some v \<longleftrightarrow> (\<exists>r\<in>set (plugin_rows s). address_of r = (sc, st, k) \<and> pd_value r = v)"
proof
  assume "db_get sc st k s = Some v"
  then obtain r where r: "get_row (\<lambda>r. in_store sc st r \<and> pd_key r = k) (plugin_rows s) = Some r" "pd_value r = v"
    by (auto simp: db_get_def)
  from get_row_SomeD [OF r(1)] have "r \<in> set (plugin_rows s)" "address_of r = (sc, st, k)" by (simp_all only: at_address)
  with r(2) show "\<exists>r\<in>set (plugin_rows s). address_of r = (sc, st, k) \<and> pd_value r = v" by blast
next
  assume "\<exists>r\<in>set (plugin_rows s). address_of r = (sc, st, k) \<and> pd_value r = v"
  then obtain r where r: "r \<in> set (plugin_rows s)" "in_store sc st r \<and> pd_key r = k" "pd_value r = v"
    by (auto simp only: at_address)
  then show "db_get sc st k s = Some v" using db_get_unique [OF assms r(1)] by auto
qed

text \<open>After a rename, the new alias has what the old one had (and what it had itself); the old one has nothing; all others are as they were.\<close>

lemma db_get_renamed:
  assumes "db_rename tenant agent old new s = Inr s'" and "old \<noteq> new" and "db_keys_unique s"
  shows "db_get sc st k s' = Some v \<longleftrightarrow>
     (if sc_tenant sc = tenant \<and> sc_agent sc = agent \<and> sc_alias sc = old then False
      else db_get sc st k s = Some v \<or>
        (sc_tenant sc = tenant \<and> sc_agent sc = agent \<and> sc_alias sc = new \<and> db_get (sc\<lparr>sc_alias := old\<rparr>) st k s = Some v))"
proof -
  note m = rename_moves [OF assms(1,2)]
  then have u: "db_keys_unique s'" and rows: "plugin_rows s' = rename_rows tenant agent old new (plugin_rows s)" by blast+
  let ?f = "\<lambda>r. if of_alias tenant agent old r then r\<lparr>pd_alias := new\<rparr> else r"
  have f: "address_of (?f r) = (sc, st, k) \<longleftrightarrow>
      (if of_alias tenant agent old r
       then sc_alias sc = new \<and> sc_tenant sc = tenant \<and> sc_agent sc = agent \<and> address_of r = (sc\<lparr>sc_alias := old\<rparr>, st, k)
       else address_of r = (sc, st, k))" for r
    by (cases sc) (auto simp: address_of_def of_alias_def)
  have v: "pd_value (?f r) = pd_value r" for r by simp
  have "db_get sc st k s' = Some v \<longleftrightarrow> (\<exists>r\<in>set (plugin_rows s). address_of (?f r) = (sc, st, k) \<and> pd_value r = v)"
    unfolding db_get_iff [OF u] rows rename_rows_def set_update_where bex_simps v ..
  also have "\<dots> \<longleftrightarrow> (\<exists>r\<in>set (plugin_rows s). \<not> of_alias tenant agent old r \<and> address_of r = (sc, st, k) \<and> pd_value r = v)
      \<or> (sc_tenant sc = tenant \<and> sc_agent sc = agent \<and> sc_alias sc = new \<and>
         (\<exists>r\<in>set (plugin_rows s). of_alias tenant agent old r \<and> address_of r = (sc\<lparr>sc_alias := old\<rparr>, st, k) \<and> pd_value r = v))"
    unfolding f by auto
  also have "(\<exists>r\<in>set (plugin_rows s). \<not> of_alias tenant agent old r \<and> address_of r = (sc, st, k) \<and> pd_value r = v) \<longleftrightarrow>
      \<not> (sc_tenant sc = tenant \<and> sc_agent sc = agent \<and> sc_alias sc = old) \<and> db_get sc st k s = Some v"
    unfolding db_get_iff [OF assms(3)] by (cases sc) (auto simp: of_alias_def address_of_def)
  also have "(sc_tenant sc = tenant \<and> sc_agent sc = agent \<and> sc_alias sc = new \<and>
         (\<exists>r\<in>set (plugin_rows s). of_alias tenant agent old r \<and> address_of r = (sc\<lparr>sc_alias := old\<rparr>, st, k) \<and> pd_value r = v)) \<longleftrightarrow>
      (sc_tenant sc = tenant \<and> sc_agent sc = agent \<and> sc_alias sc = new \<and> db_get (sc\<lparr>sc_alias := old\<rparr>) st k s = Some v)"
    unfolding db_get_iff [OF assms(3)] by (cases sc) (auto simp: of_alias_def address_of_def)
  finally show ?thesis using assms(2) by auto
qed

end
