(* ===== verification/Mounts.thy ===== *)
theory Mounts
  imports Plugin_Db Event_Log Js_String
begin

text \<open>
  What an agent's configuration keeps: mounts, the secrets behind them, which plugins an agent has chosen, and model bindings,
  as both stores write them (\<open>src/src/store/sqlite.ts\<close>, \<open>src/src/store/durable-object.ts\<close>; the prefix \<open>do_\<close> marks the
  Durable Object's own form). The lemmas show that a rename moves a mount, its databases and its secret together or not at all, that a
  removal takes all of them, that an agent's own databases are out of reach of both, that the two stores agree, and that the most
  specific model binding wins.
\<close>

section \<open>Mounts\<close>

definition is_mount :: "string \<Rightarrow> string \<Rightarrow> string \<Rightarrow> mount_record \<Rightarrow> bool" where
  "is_mount tenant agent alias m \<longleftrightarrow> mt_tenant m = tenant \<and> mt_agent m = agent \<and> mt_alias m = alias"

definition has_mount :: "string \<Rightarrow> string \<Rightarrow> string \<Rightarrow> store \<Rightarrow> bool" where
  "has_mount tenant agent alias s \<longleftrightarrow> has_row (is_mount tenant agent alias) (mounts s)"

definition addMount :: "mount_record \<Rightarrow> store \<Rightarrow> store_error + store" where
  "addMount m s =
     (if mt_alias m = AGENT_SCOPE_ALIAS then Inl (Refusal ''mount_name'' ''a mount needs a name'')
      else if has_mount (mt_tenant m) (mt_agent m) (mt_alias m) s then Inl (ConstraintFailed ''mounts'')
      else Inr (s\<lparr>mounts := mounts s @ [m]\<rparr>))"

text \<open>\<open>UPDATE mounts SET ... WHERE\<close> the key: the sqlite store asks how many rows changed, the Durable Object reads the row afterwards.\<close>

definition change_mount :: "string \<Rightarrow> string \<Rightarrow> string \<Rightarrow> (mount_record \<Rightarrow> mount_record) \<Rightarrow> store \<Rightarrow> bool \<times> store" where
  "change_mount tenant agent alias f s =
     (0 < length (filter (is_mount tenant agent alias) (mounts s)),
      s\<lparr>mounts := update_where (is_mount tenant agent alias) f (mounts s)\<rparr>)"

definition do_change_mount :: "string \<Rightarrow> string \<Rightarrow> string \<Rightarrow> (mount_record \<Rightarrow> mount_record) \<Rightarrow> store \<Rightarrow> bool \<times> store" where
  "do_change_mount tenant agent alias f s =
     (let s' = s\<lparr>mounts := update_where (is_mount tenant agent alias) f (mounts s)\<rparr> in (has_mount tenant agent alias s', s'))"

definition updateMountToolSnapshot :: "string \<Rightarrow> string \<Rightarrow> string \<Rightarrow> json option \<Rightarrow> store \<Rightarrow> bool \<times> store" where
  "updateMountToolSnapshot tenant agent alias snap s = change_mount tenant agent alias (\<lambda>m. m\<lparr>mt_snapshot := snap\<rparr>) s"

definition updateMountPolicy :: "string \<Rightarrow> string \<Rightarrow> string \<Rightarrow> json option \<Rightarrow> store \<Rightarrow> bool \<times> store" where
  "updateMountPolicy tenant agent alias policy s = change_mount tenant agent alias (\<lambda>m. m\<lparr>mt_policy := policy\<rparr>) s"

definition updateMountToolVersion :: "string \<Rightarrow> string \<Rightarrow> string \<Rightarrow> string \<Rightarrow> store \<Rightarrow> bool \<times> store" where
  "updateMountToolVersion tenant agent alias v s = change_mount tenant agent alias (\<lambda>m. m\<lparr>mt_version := v\<rparr>) s"

definition updateMountConfig :: "string \<Rightarrow> string \<Rightarrow> string \<Rightarrow> json \<Rightarrow> store \<Rightarrow> bool \<times> store" where
  "updateMountConfig tenant agent alias config s = change_mount tenant agent alias (\<lambda>m. m\<lparr>mt_config := config\<rparr>) s"

definition setMountSecretRef :: "string \<Rightarrow> string \<Rightarrow> string \<Rightarrow> string option \<Rightarrow> store \<Rightarrow> bool \<times> store" where
  "setMountSecretRef tenant agent alias ref s = change_mount tenant agent alias (\<lambda>m. m\<lparr>mt_secret := ref\<rparr>) s"

definition do_updateMountToolSnapshot :: "string \<Rightarrow> string \<Rightarrow> string \<Rightarrow> json option \<Rightarrow> store \<Rightarrow> bool \<times> store" where
  "do_updateMountToolSnapshot tenant agent alias snap s = do_change_mount tenant agent alias (\<lambda>m. m\<lparr>mt_snapshot := snap\<rparr>) s"

definition do_updateMountPolicy :: "string \<Rightarrow> string \<Rightarrow> string \<Rightarrow> json option \<Rightarrow> store \<Rightarrow> bool \<times> store" where
  "do_updateMountPolicy tenant agent alias policy s = do_change_mount tenant agent alias (\<lambda>m. m\<lparr>mt_policy := policy\<rparr>) s"

definition do_updateMountToolVersion :: "string \<Rightarrow> string \<Rightarrow> string \<Rightarrow> string \<Rightarrow> store \<Rightarrow> bool \<times> store" where
  "do_updateMountToolVersion tenant agent alias v s = do_change_mount tenant agent alias (\<lambda>m. m\<lparr>mt_version := v\<rparr>) s"

definition do_updateMountConfig :: "string \<Rightarrow> string \<Rightarrow> string \<Rightarrow> json \<Rightarrow> store \<Rightarrow> bool \<times> store" where
  "do_updateMountConfig tenant agent alias config s = do_change_mount tenant agent alias (\<lambda>m. m\<lparr>mt_config := config\<rparr>) s"

definition do_setMountSecretRef :: "string \<Rightarrow> string \<Rightarrow> string \<Rightarrow> string option \<Rightarrow> store \<Rightarrow> bool \<times> store" where
  "do_setMountSecretRef tenant agent alias ref s = do_change_mount tenant agent alias (\<lambda>m. m\<lparr>mt_secret := ref\<rparr>) s"

definition getMountByAlias :: "string \<Rightarrow> string \<Rightarrow> string \<Rightarrow> store \<Rightarrow> mount_record option" where
  "getMountByAlias tenant agent alias s = get_row (is_mount tenant agent alias) (mounts s)"

definition findMountsByPlugin :: "string \<Rightarrow> string \<Rightarrow> string \<Rightarrow> store \<Rightarrow> mount_record list" where
  "findMountsByPlugin tenant agent plugin s =
     order_by mt_alias (filter (\<lambda>m. mt_tenant m = tenant \<and> mt_agent m = agent \<and> mt_plugin m = plugin) (mounts s))"

definition listMounts :: "string \<Rightarrow> string \<Rightarrow> store \<Rightarrow> mount_record list" where
  "listMounts tenant agent s = order_by mt_alias (filter (\<lambda>m. mt_tenant m = tenant \<and> mt_agent m = agent) (mounts s))"

section \<open>Plugin choices\<close>

definition pluginChoices :: "string \<Rightarrow> string \<Rightarrow> store \<Rightarrow> string \<rightharpoonup> plugin_choice" where
  "pluginChoices tenant agent s =
     map_of (map (\<lambda>r. (pc_plugin r, pc_choice r)) (rev (filter (\<lambda>r. pc_tenant r = tenant \<and> pc_agent r = agent) (plugin_choices s))))"

definition is_choice :: "string \<Rightarrow> string \<Rightarrow> string \<Rightarrow> plugin_choice_row \<Rightarrow> bool" where
  "is_choice tenant agent plugin r \<longleftrightarrow> pc_tenant r = tenant \<and> pc_agent r = agent \<and> pc_plugin r = plugin"

definition setPluginChoice :: "int \<Rightarrow> string \<Rightarrow> string \<Rightarrow> string \<Rightarrow> plugin_choice \<Rightarrow> store \<Rightarrow> store" where
  "setPluginChoice now tenant agent plugin choice s =
     (if choice = Inherit then s\<lparr>plugin_choices := delete_where (is_choice tenant agent plugin) (plugin_choices s)\<rparr>
      else s\<lparr>plugin_choices := upsert (is_choice tenant agent plugin)
        \<lparr>pc_tenant = tenant, pc_agent = agent, pc_plugin = plugin, pc_choice = choice, pc_updated = now\<rparr>
        (\<lambda>r. r\<lparr>pc_choice := choice, pc_updated := now\<rparr>) (plugin_choices s)\<rparr>)"

section \<open>Secrets\<close>

definition is_secret :: "string \<Rightarrow> string \<Rightarrow> string \<Rightarrow> secret_row \<Rightarrow> bool" where
  "is_secret tenant agent name r \<longleftrightarrow> se_tenant r = tenant \<and> se_agent r = agent \<and> se_name r = name"

record sealed_secret =
  ss_ciphertext :: string
  ss_iv :: string
  ss_account :: "string option"
  ss_verified :: bool

definition putSecret :: "int \<Rightarrow> string \<Rightarrow> string \<Rightarrow> string \<Rightarrow> sealed_secret \<Rightarrow> store \<Rightarrow> store" where
  "putSecret now tenant agent name x s =
     s\<lparr>secrets := upsert (is_secret tenant agent name)
        \<lparr>se_tenant = tenant, se_agent = agent, se_name = name, se_ciphertext = ss_ciphertext x, se_iv = ss_iv x,
         se_account = ss_account x, se_verified = ss_verified x, se_created = now, se_updated = now, se_last_used = None\<rparr>
        (\<lambda>r. r\<lparr>se_ciphertext := ss_ciphertext x, se_iv := ss_iv x, se_account := ss_account x, se_verified := ss_verified x,
           se_updated := now, se_last_used := None\<rparr>) (secrets s)\<rparr>"

definition getSecret :: "string \<Rightarrow> string \<Rightarrow> string \<Rightarrow> store \<Rightarrow> (string \<times> string) option" where
  "getSecret tenant agent name s =
     map_option (\<lambda>r. (se_ciphertext r, se_iv r)) (get_row (is_secret tenant agent name) (secrets s))"

record secret_meta =
  sm_account :: "string option"
  sm_verified :: bool
  sm_created :: int
  sm_updated :: int
  sm_last_used :: "int option"

definition secretMeta :: "string \<Rightarrow> string \<Rightarrow> string \<Rightarrow> store \<Rightarrow> secret_meta option" where
  "secretMeta tenant agent name s =
     map_option (\<lambda>r. \<lparr>sm_account = se_account r, sm_verified = se_verified r, sm_created = se_created r, sm_updated = se_updated r,
        sm_last_used = se_last_used r\<rparr>) (get_row (is_secret tenant agent name) (secrets s))"

definition touchSecret :: "string \<Rightarrow> string \<Rightarrow> string \<Rightarrow> int \<Rightarrow> store \<Rightarrow> store" where
  "touchSecret tenant agent name at s =
     s\<lparr>secrets := update_where (is_secret tenant agent name) (\<lambda>r. r\<lparr>se_last_used := Some at\<rparr>) (secrets s)\<rparr>"

text \<open>\<open>substr(name, 1, length) = prefix\<close>: a prefix exactly, unlike the agent state's listing.\<close>

definition listSecretNames :: "string \<Rightarrow> string \<Rightarrow> string \<Rightarrow> store \<Rightarrow> (string \<times> int \<times> int \<times> int option) list" where
  "listSecretNames tenant agent prefix s =
     map (\<lambda>r. (se_name r, se_created r, se_updated r, se_last_used r))
       (order_by se_name (filter (\<lambda>r. se_tenant r = tenant \<and> se_agent r = agent \<and> take (length prefix) (se_name r) = prefix) (secrets s)))"

definition removeSecret :: "string \<Rightarrow> string \<Rightarrow> string \<Rightarrow> store \<Rightarrow> bool \<times> store" where
  "removeSecret tenant agent name s =
     (0 < length (filter (is_secret tenant agent name) (secrets s)),
      s\<lparr>secrets := delete_where (is_secret tenant agent name) (secrets s)\<rparr>)"

definition do_removeSecret :: "string \<Rightarrow> string \<Rightarrow> string \<Rightarrow> store \<Rightarrow> bool \<times> store" where
  "do_removeSecret tenant agent name s =
     (let before = get_row (is_secret tenant agent name) (secrets s) in
      (before \<noteq> None, s\<lparr>secrets := delete_where (is_secret tenant agent name) (secrets s)\<rparr>))"

section \<open>Renaming and removing a mount\<close>

datatype rename_result =
  Renamed | NeedsName | NoSuchMount | NameTaken | SecretTaken | NotApplied store_error

text \<open>\<open>to.trim()\<close>\<close>

definition trimmed_empty :: "string \<Rightarrow> bool" where
  "trimmed_empty t \<longleftrightarrow> blank t"

definition rename_secret :: "string \<Rightarrow> string \<Rightarrow> string \<Rightarrow> string \<Rightarrow> string \<Rightarrow> store \<Rightarrow> store" where
  "rename_secret tenant agent old new newRef s =
     s\<lparr>secrets := update_where (is_secret tenant agent old) (\<lambda>r. r\<lparr>se_name := new\<rparr>) (secrets s),
       mounts := update_where (is_mount tenant agent new) (\<lambda>m. m\<lparr>mt_secret := Some newRef\<rparr>) (mounts s)\<rparr>"

definition renameMount :: "string \<Rightarrow> string \<Rightarrow> string \<Rightarrow> string \<Rightarrow> string option \<Rightarrow> store \<Rightarrow> rename_result \<times> store" where
  "renameMount tenant agent old new secret s =
     (if old = new then (Renamed, s)
      else if trimmed_empty new then (NeedsName, s)
      else if \<not> has_mount tenant agent old s then (NoSuchMount, s)
      else if has_mount tenant agent new s then (NameTaken, s)
      else if secret \<noteq> None \<and> has_row (is_secret tenant agent new) (secrets s) then (SecretTaken, s)
      else let s1 = s\<lparr>mounts := update_where (is_mount tenant agent old) (\<lambda>m. m\<lparr>mt_alias := new\<rparr>) (mounts s)\<rparr> in
        (case db_rename tenant agent old new s1 of
           Inl e \<Rightarrow> (NotApplied e, s)
         | Inr s2 \<Rightarrow>
           (case secret of None \<Rightarrow> (Renamed, s2) | Some newRef \<Rightarrow> (Renamed, rename_secret tenant agent old new newRef s2))))"

text \<open>The mount a removal names: under the alias, and of that installation when one is named.\<close>

definition removes :: "string \<Rightarrow> string \<Rightarrow> string \<Rightarrow> string option \<Rightarrow> mount_record \<Rightarrow> bool" where
  "removes tenant agent alias installation m \<longleftrightarrow>
     is_mount tenant agent alias m \<and> (installation = None \<or> installation = Some (mt_installation m))"

definition removeMount :: "string \<Rightarrow> string \<Rightarrow> string \<Rightarrow> string option \<Rightarrow> string option \<Rightarrow> store \<Rightarrow> bool \<times> store" where
  "removeMount tenant agent alias secretName installation s =
     (let hit = removes tenant agent alias installation; s1 = s\<lparr>mounts := delete_where hit (mounts s)\<rparr> in
      if length (filter hit (mounts s)) = 0 then (False, s1)
      else let s2 = db_remove tenant agent alias s1 in
        (True, case secretName of None \<Rightarrow> s2 | Some n \<Rightarrow> s2\<lparr>secrets := delete_where (is_secret tenant agent n) (secrets s2)\<rparr>))"

definition do_removeMount :: "string \<Rightarrow> string \<Rightarrow> string \<Rightarrow> string option \<Rightarrow> string option \<Rightarrow> store \<Rightarrow> bool \<times> store" where
  "do_removeMount tenant agent alias secretName installation s =
     (let hit = removes tenant agent alias installation in
      if \<not> has_row hit (mounts s) then (False, s)
      else let s2 = db_remove tenant agent alias (s\<lparr>mounts := delete_where hit (mounts s)\<rparr>) in
        (True, case secretName of None \<Rightarrow> s2 | Some n \<Rightarrow> s2\<lparr>secrets := delete_where (is_secret tenant agent n) (secrets s2)\<rparr>))"

section \<open>Model bindings\<close>

text \<open>A binding's row: the agent's, or the tenant default under the empty agent.\<close>

definition binding_agent :: "model_binding \<Rightarrow> string" where
  "binding_agent b = or_else (mb_agent b) []"

definition is_binding :: "string \<Rightarrow> string \<Rightarrow> model_binding \<Rightarrow> bool" where
  "is_binding tenant agent b \<longleftrightarrow> mb_tenant b = tenant \<and> binding_agent b = agent"

definition setModelBinding :: "model_binding \<Rightarrow> store \<Rightarrow> store" where
  "setModelBinding b s =
     s\<lparr>bindings := upsert (is_binding (mb_tenant b) (binding_agent b)) (b\<lparr>mb_agent := Some (binding_agent b)\<rparr>)
        (\<lambda>r. r\<lparr>mb_provider := mb_provider b, mb_model := mb_model b, mb_base_url := mb_base_url b, mb_secret_ref := mb_secret_ref b\<rparr>)
        (bindings s)\<rparr>"

definition getModelBinding :: "string \<Rightarrow> string \<Rightarrow> store \<Rightarrow> model_binding option" where
  "getModelBinding tenant agent s =
     (let rows = filter (\<lambda>b. mb_tenant b = tenant \<and> (binding_agent b = agent \<or> binding_agent b = [])) (bindings s);
          pick = (case find (\<lambda>b. binding_agent b = agent) rows of None \<Rightarrow> find (\<lambda>b. binding_agent b = []) rows | Some b \<Rightarrow> Some b) in
      map_option (\<lambda>b. b\<lparr>mb_agent := (if binding_agent b = [] then None else Some (binding_agent b))\<rparr>) pick)"
section \<open>Secrets are a keyed table\<close>

definition secret_key :: "secret_row \<Rightarrow> string \<times> string \<times> string" where
  "secret_key r = (se_tenant r, se_agent r, se_name r)"

lemma is_secret_key: "is_secret tenant agent name r \<longleftrightarrow> secret_key r = (tenant, agent, name)"
  by (auto simp: is_secret_def secret_key_def)

lemma is_secret_eq: "is_secret tenant agent name = (\<lambda>r. secret_key r = (tenant, agent, name))"
  by (intro ext) (simp add: is_secret_key)

definition secret_read :: "store \<Rightarrow> string \<times> string \<times> string \<Rightarrow> (string \<times> string) option" where
  "secret_read s k = (case k of (tenant, agent, name) \<Rightarrow> getSecret tenant agent name s)"

definition secret_write :: "int \<Rightarrow> string option \<Rightarrow> bool \<Rightarrow> string \<times> string \<times> string \<Rightarrow> string \<times> string \<Rightarrow> store \<Rightarrow> store" where
  "secret_write now account verified k v s = (case k of (tenant, agent, name) \<Rightarrow>
     putSecret now tenant agent name \<lparr>ss_ciphertext = fst v, ss_iv = snd v, ss_account = account, ss_verified = verified\<rparr> s)"

definition secret_erase :: "string \<times> string \<times> string \<Rightarrow> store \<Rightarrow> store" where
  "secret_erase k s = (case k of (tenant, agent, name) \<Rightarrow> snd (removeSecret tenant agent name s))"

lemma secret_read_row:
  "secret_read s k = map_option (\<lambda>r. (se_ciphertext r, se_iv r)) (get_row (\<lambda>r. secret_key r = k) (secrets s))"
  by (cases k) (simp add: secret_read_def getSecret_def is_secret_eq)

interpretation secret_table: keyed_table secret_read "secret_write now account verified" secret_erase "\<lambda>_. True"
proof
  fix k k' :: "string \<times> string \<times> string" and v s
  have "\<exists>new f. secrets (secret_write now account verified k v s) = upsert (\<lambda>r. secret_key r = k) new f (secrets s)
     \<and> secret_key new = k \<and> (se_ciphertext new, se_iv new) = v
     \<and> (\<forall>r. secret_key (f r) = secret_key r \<and> (se_ciphertext (f r), se_iv (f r)) = v)"
    by (cases k) (force simp: secret_write_def putSecret_def is_secret_eq secret_key_def)
  then obtain new f where w: "secrets (secret_write now account verified k v s) = upsert (\<lambda>r. secret_key r = k) new f (secrets s)"
    "secret_key new = k" "(se_ciphertext new, se_iv new) = v"
    "\<And>r. secret_key (f r) = secret_key r \<and> (se_ciphertext (f r), se_iv (f r)) = v" by blast
  have e: "secrets (secret_erase k s) = delete_where (\<lambda>r. secret_key r = k) (secrets s)"
    by (cases k) (simp add: secret_erase_def removeSecret_def is_secret_eq)
  show "secret_read (secret_write now account verified k v s) k = Some v"
    unfolding secret_read_row w(1) using w(2-4) by (subst get_row_upsert_same) (auto split: option.split)
  show "secret_read (secret_write now account verified k v s) k' = secret_read s k'" if "k' \<noteq> k"
    unfolding secret_read_row w(1) using w(2-4) that by (subst get_row_upsert_other) auto
  show "secret_read (secret_erase k s) k = None" by (simp add: secret_read_row e)
  show "secret_read (secret_erase k s) k' = secret_read s k'" if "k' \<noteq> k"
    unfolding secret_read_row e using that by (subst get_row_delete_other) auto
qed

section \<open>The invariant of the configuration\<close>

definition mount_key :: "mount_record \<Rightarrow> string \<times> string \<times> string" where
  "mount_key m = (mt_tenant m, mt_agent m, mt_alias m)"

lemma is_mount_key: "is_mount tenant agent alias m \<longleftrightarrow> mount_key m = (tenant, agent, alias)"
  by (auto simp: is_mount_def mount_key_def)

definition mount_inv :: "store \<Rightarrow> bool" where
  "mount_inv s \<longleftrightarrow> distinct (map mount_key (mounts s)) \<and> list_all (\<lambda>m. mt_alias m \<noteq> AGENT_SCOPE_ALIAS) (mounts s)
     \<and> db_keys_unique s \<and> distinct (map secret_key (secrets s))"

lemma get_row_renamed:
  assumes "\<And>r. p r \<Longrightarrow> q (f r)" and "\<And>r. r \<in> set rows \<Longrightarrow> \<not> q r"
  shows "get_row q (update_where p f rows) = map_option f (get_row p rows)"
  using assms by (induction rows) (auto simp: update_where_def)

lemma get_row_moved_away:
  assumes "\<And>r. p r \<Longrightarrow> \<not> p (f r)"
  shows "get_row p (update_where p f rows) = None"
  using assms by (auto simp: get_row_None_iff set_update_where)

lemma distinct_renamed:
  assumes "distinct (map g rows)" and "\<And>x. p x \<longleftrightarrow> g x = k" and "\<And>x. p x \<Longrightarrow> g (f x) = k'"
    and "\<And>x. x \<in> set rows \<Longrightarrow> g x \<noteq> k'"
  shows "distinct (map g (update_where p f rows))"
  using assms(1,4)
proof (induction rows)
  case (Cons r rows)
  show ?case
  proof (cases "p r")
    case True
    then have "\<And>x. x \<in> set rows \<Longrightarrow> \<not> p x" using Cons.prems(1) assms(2) by (metis distinct.simps(2) image_eqI list.map(2) list.set_map)
    then have "update_where p f rows = rows" by (rule update_where_id)
    with Cons True assms(3) show ?thesis by (auto simp: update_where_def)
  next
    case False
    have "g r \<notin> g ` set (update_where p f rows)"
    proof
      assume "g r \<in> g ` set (update_where p f rows)"
      then obtain x where "x \<in> set rows" "g r = g (if p x then f x else x)" by (auto simp: set_update_where)
      then show False using Cons.prems assms(3) by (auto split: if_splits)
    qed
    with Cons False show ?thesis by (simp add: update_where_Cons)
  qed
qed simp

lemma blank_agent_scope [simp]: "trimmed_empty AGENT_SCOPE_ALIAS"
  by (simp add: trimmed_empty_def blank_def AGENT_SCOPE_ALIAS_def)

section \<open>A rename moves everything or nothing\<close>

lemma rename_cases:
  assumes "renameMount tenant agent old new secret s = (res, s')"
  obtains (kept) "s' = s" and "res \<noteq> Renamed \<or> old = new"
    | (moved) s2 where "res = Renamed" and "old \<noteq> new" and "\<not> trimmed_empty new" and "has_mount tenant agent old s"
      and "\<not> has_mount tenant agent new s" and "secret \<noteq> None \<Longrightarrow> \<not> has_row (is_secret tenant agent new) (secrets s)"
      and "db_rename tenant agent old new (s\<lparr>mounts := update_where (is_mount tenant agent old) (\<lambda>m. m\<lparr>mt_alias := new\<rparr>) (mounts s)\<rparr>) = Inr s2"
      and "s' = (case secret of None \<Rightarrow> s2 | Some newRef \<Rightarrow> rename_secret tenant agent old new newRef s2)"
  using assms
  by (auto simp: renameMount_def Let_def split: if_splits sum.splits option.splits)

text \<open>What the store is after a rename, table by table.\<close>

lemma renamed_tables:
  assumes "db_rename tenant agent old new (s\<lparr>mounts := update_where (is_mount tenant agent old) (\<lambda>m. m\<lparr>mt_alias := new\<rparr>) (mounts s)\<rparr>) = Inr s2"
    and "s' = (case secret of None \<Rightarrow> s2 | Some newRef \<Rightarrow> rename_secret tenant agent old new newRef s2)" and "old \<noteq> new"
  shows "mounts s' = (case secret of None \<Rightarrow> mounts s2 | Some newRef \<Rightarrow> update_where (is_mount tenant agent new) (\<lambda>m. m\<lparr>mt_secret := Some newRef\<rparr>) (mounts s2))"
    and "mounts s2 = update_where (is_mount tenant agent old) (\<lambda>m. m\<lparr>mt_alias := new\<rparr>) (mounts s)"
    and "secrets s' = (case secret of None \<Rightarrow> secrets s | Some _ \<Rightarrow> update_where (is_secret tenant agent old) (\<lambda>r. r\<lparr>se_name := new\<rparr>) (secrets s))"
    and "plugin_rows s' = rename_rows tenant agent old new (plugin_rows s)"
    and "plugin_versions s' = rename_versions tenant agent old new (plugin_versions s)"
    and "db_keys_unique s'"
  using rename_moves [OF assms(1,3)] assms(2)
  by (auto simp: rename_secret_def db_keys_unique_def split: option.splits)

lemma rename_keeps_inv:
  assumes "mount_inv s" and "renameMount tenant agent old new secret s = (res, s')"
  shows "mount_inv s'"
  using assms(2)
proof (cases rule: rename_cases)
  case kept
  with assms(1) show ?thesis by simp
next
  case (moved s2)
  note t = renamed_tables [OF moved(7,8,2)]
  have m2: "distinct (map mount_key (mounts s2))"
    unfolding t(2) using assms(1) moved(5)
    by (intro distinct_renamed [where k = "(tenant, agent, old)" and k' = "(tenant, agent, new)"])
      (auto simp: mount_inv_def is_mount_key has_mount_def has_row_iff mount_key_def)
  then have m: "distinct (map mount_key (mounts s'))"
    unfolding t(1) by (auto intro!: distinct_map_update_where simp: mount_key_def split: option.split)
  have "new \<noteq> AGENT_SCOPE_ALIAS" using moved(3) by auto
  then have a: "list_all (\<lambda>m. mt_alias m \<noteq> AGENT_SCOPE_ALIAS) (mounts s')"
    using assms(1) unfolding t(1,2) by (auto simp: mount_inv_def list_all_iff set_update_where split: option.splits)
  have "distinct (map secret_key (secrets s'))"
  proof (cases secret)
    case None
    with assms(1) show ?thesis by (simp add: t(3) mount_inv_def)
  next
    case (Some ref)
    have "distinct (map secret_key (update_where (is_secret tenant agent old) (\<lambda>r. r\<lparr>se_name := new\<rparr>) (secrets s)))"
      using assms(1) moved(6) Some
      by (intro distinct_renamed [where k = "(tenant, agent, old)" and k' = "(tenant, agent, new)"])
        (auto simp: mount_inv_def is_secret_key has_row_iff secret_key_def)
    with Some show ?thesis by (simp add: t(3))
  qed
  with m a t(6) show ?thesis by (simp add: mount_inv_def)
qed

text \<open>The mounts after a rename.\<close>

lemma renamed_mounts:
  assumes "mounts s' = (case secret of None \<Rightarrow> ms | Some newRef \<Rightarrow> update_where (is_mount tenant agent new) (\<lambda>m. m\<lparr>mt_secret := Some newRef\<rparr>) ms)"
    and "ms = update_where (is_mount tenant agent old) (\<lambda>m. m\<lparr>mt_alias := new\<rparr>) (mounts s)"
    and "old \<noteq> new" and "has_mount tenant agent old s" and "\<not> has_mount tenant agent new s"
  shows "\<exists>m. getMountByAlias tenant agent old s = Some m
      \<and> getMountByAlias tenant agent new s' = Some (m\<lparr>mt_alias := new, mt_secret := (case secret of None \<Rightarrow> mt_secret m | Some r \<Rightarrow> Some r)\<rparr>)"
    and "getMountByAlias tenant agent old s' = None"
    and "\<forall>t a x. (t, a, x) \<noteq> (tenant, agent, old) \<and> (t, a, x) \<noteq> (tenant, agent, new) \<longrightarrow> getMountByAlias t a x s' = getMountByAlias t a x s"
proof -
  let ?ref = "\<lambda>m. m\<lparr>mt_secret := (case secret of None \<Rightarrow> mt_secret m | Some r \<Rightarrow> Some r)\<rparr>"
  have none_new: "\<not> is_mount tenant agent new m" if "m \<in> set (mounts s)" for m
    using assms(5) that by (auto simp: has_mount_def has_row_iff)
  obtain m where m: "getMountByAlias tenant agent old s = Some m"
    using assms(4) by (auto simp: has_mount_def has_row_get_row getMountByAlias_def)
  have m2: "get_row (is_mount tenant agent new) ms = Some (m\<lparr>mt_alias := new\<rparr>)"
    unfolding assms(2) using m none_new by (subst get_row_renamed) (auto simp: is_mount_def getMountByAlias_def)
  have "getMountByAlias tenant agent new s' = Some (?ref (m\<lparr>mt_alias := new\<rparr>))"
    unfolding getMountByAlias_def assms(1) using m2
    by (cases secret) (simp_all, subst get_row_update_same, simp_all add: is_mount_def)
  then have new_m: "getMountByAlias tenant agent new s' =
      Some (m\<lparr>mt_alias := new, mt_secret := (case secret of None \<Rightarrow> mt_secret m | Some r \<Rightarrow> Some r)\<rparr>)"
    by (cases secret) simp_all
  have old2: "get_row (is_mount tenant agent old) ms = None"
    unfolding assms(2) using assms(3) by (intro get_row_moved_away) (simp add: is_mount_def)
  have old_m: "getMountByAlias tenant agent old s' = None"
    unfolding getMountByAlias_def assms(1) using old2 assms(3)
    by (cases secret) (simp_all, subst get_row_update_other, simp_all add: is_mount_def)
  have others: "getMountByAlias t' a x s' = getMountByAlias t' a x s"
    if "(t', a, x) \<noteq> (tenant, agent, old)" "(t', a, x) \<noteq> (tenant, agent, new)" for t' a x
  proof -
    have "get_row (is_mount t' a x) ms = get_row (is_mount t' a x) (mounts s)"
      unfolding assms(2) using that by (intro get_row_update_other) (auto simp: is_mount_def)
    moreover have "get_row (is_mount t' a x) (mounts s') = get_row (is_mount t' a x) ms"
      unfolding assms(1) using that by (auto simp: is_mount_def intro!: get_row_update_other split: option.split)
    ultimately show ?thesis by (simp add: getMountByAlias_def)
  qed
  show "\<exists>m. getMountByAlias tenant agent old s = Some m
      \<and> getMountByAlias tenant agent new s' = Some (m\<lparr>mt_alias := new, mt_secret := (case secret of None \<Rightarrow> mt_secret m | Some r \<Rightarrow> Some r)\<rparr>)"
    using m new_m by blast
  show "getMountByAlias tenant agent old s' = None" by (rule old_m)
  show "\<forall>t a x. (t, a, x) \<noteq> (tenant, agent, old) \<and> (t, a, x) \<noteq> (tenant, agent, new) \<longrightarrow> getMountByAlias t a x s' = getMountByAlias t a x s"
    by (intro allI impI, elim conjE) (rule others)
qed

text \<open>The secrets after one.\<close>

lemma renamed_secrets:
  assumes "secrets s' = (case secret of None \<Rightarrow> secrets s | Some _ \<Rightarrow> update_where (is_secret tenant agent old) (\<lambda>r. r\<lparr>se_name := new\<rparr>) (secrets s))"
    and "old \<noteq> new" and "secret \<noteq> None \<Longrightarrow> \<not> has_row (is_secret tenant agent new) (secrets s)"
  shows "if secret = None then secrets s' = secrets s
       else getSecret tenant agent new s' = getSecret tenant agent old s \<and> getSecret tenant agent old s' = None
         \<and> (\<forall>t a x. (t, a, x) \<noteq> (tenant, agent, old) \<and> (t, a, x) \<noteq> (tenant, agent, new) \<longrightarrow> getSecret t a x s' = getSecret t a x s)"
proof (cases secret)
  case None
  with assms(1) show ?thesis by simp
next
  case (Some ref)
  let ?rows = "update_where (is_secret tenant agent old) (\<lambda>r. r\<lparr>se_name := new\<rparr>) (secrets s)"
  have rows: "secrets s' = ?rows" using assms(1) Some by simp
  have "get_row (is_secret tenant agent new) ?rows = map_option (\<lambda>r. r\<lparr>se_name := new\<rparr>) (get_row (is_secret tenant agent old) (secrets s))"
    using assms(3) Some by (intro get_row_renamed) (auto simp: is_secret_def has_row_iff)
  moreover have "get_row (is_secret tenant agent old) ?rows = None"
    using assms(2) by (intro get_row_moved_away) (simp add: is_secret_def)
  moreover have "get_row (is_secret t' a x) ?rows = get_row (is_secret t' a x) (secrets s)"
    if "(t', a, x) \<noteq> (tenant, agent, old)" "(t', a, x) \<noteq> (tenant, agent, new)" for t' a x
    using that by (intro get_row_update_other) (auto simp: is_secret_def)
  ultimately show ?thesis using Some by (simp add: getSecret_def rows option.map_comp comp_def)
qed

text \<open>
  A rename moves a mount whole, or not at all. Unless it answers that the mount was renamed nothing has changed. When it does, the
  mount is found under its new name with everything but its name (and the reference of its secret, when that moves along) as it was, and no longer under
  the old one; every database of the mount, whichever plugin's, reads under the new name what it read under the old; its secret opens under the new name;
  no other mount, database or secret is touched; and names stay unique.
\<close>

theorem rename_moves_a_mount_whole:
  assumes "mount_inv s" and "renameMount tenant agent old new secret s = (res, s')"
  shows "mount_inv s' \<and>
    (if res \<noteq> Renamed \<or> old = new then s' = s
     else (\<exists>m. getMountByAlias tenant agent old s = Some m
          \<and> getMountByAlias tenant agent new s' = Some (m\<lparr>mt_alias := new, mt_secret := (case secret of None \<Rightarrow> mt_secret m | Some r \<Rightarrow> Some r)\<rparr>))
        \<and> getMountByAlias tenant agent old s' = None
        \<and> (\<forall>t a x. (t, a, x) \<noteq> (tenant, agent, old) \<and> (t, a, x) \<noteq> (tenant, agent, new) \<longrightarrow> getMountByAlias t a x s' = getMountByAlias t a x s)
        \<and> (\<forall>sc st k v. db_get sc st k s' = Some v \<longleftrightarrow>
            (if sc_tenant sc = tenant \<and> sc_agent sc = agent \<and> sc_alias sc = old then False
             else db_get sc st k s = Some v \<or>
               (sc_tenant sc = tenant \<and> sc_agent sc = agent \<and> sc_alias sc = new \<and> db_get (sc\<lparr>sc_alias := old\<rparr>) st k s = Some v)))
        \<and> (if secret = None then secrets s' = secrets s
           else getSecret tenant agent new s' = getSecret tenant agent old s \<and> getSecret tenant agent old s' = None
             \<and> (\<forall>t a x. (t, a, x) \<noteq> (tenant, agent, old) \<and> (t, a, x) \<noteq> (tenant, agent, new) \<longrightarrow> getSecret t a x s' = getSecret t a x s)))"
  using assms(2)
proof (cases rule: rename_cases)
  case kept
  with rename_keeps_inv [OF assms] show ?thesis by auto
next
  case (moved s2)
  note t = renamed_tables [OF moved(7,8,2)]
  have db: "db_get sc st k s' = db_get sc st k s2" for sc st k
    using moved(8) by (auto simp: db_get_def rename_secret_def split: option.splits)
  have db1: "db_get sc st k (s\<lparr>mounts := ms\<rparr>) = db_get sc st k s" for sc st k ms by (simp add: db_get_def)
  have "db_keys_unique (s\<lparr>mounts := ms\<rparr>)" for ms using assms(1) by (simp add: mount_inv_def db_keys_unique_def)
  from db_get_renamed [OF moved(7,2) this] have dbs: "\<forall>sc st k v. db_get sc st k s' = Some v \<longleftrightarrow>
        (if sc_tenant sc = tenant \<and> sc_agent sc = agent \<and> sc_alias sc = old then False
         else db_get sc st k s = Some v \<or>
           (sc_tenant sc = tenant \<and> sc_agent sc = agent \<and> sc_alias sc = new \<and> db_get (sc\<lparr>sc_alias := old\<rparr>) st k s = Some v))"
    unfolding db db1 by blast
  have c: "\<not> (res \<noteq> Renamed \<or> old = new)" using moved(1,2) by simp
  note ms = renamed_mounts [OF t(1,2) moved(2,4,5)]
  show ?thesis
    unfolding if_not_P [OF c]
    by (rule conjI [OF rename_keeps_inv [OF assms] conjI [OF ms(1) conjI [OF ms(2) conjI [OF ms(3)
          conjI [OF dbs renamed_secrets [OF t(3) moved(2,6)]]]]]])
qed

definition mount_example :: mount_record where
  "mount_example = \<lparr>mt_tenant = ''acme'', mt_agent = ''ada'', mt_alias = ''gh'', mt_plugin = ''github'', mt_installation = ''i1'',
     mt_connection = None, mt_version = ''1'', mt_config = JNull, mt_secret = Some ''s:gh'', mt_policy = None, mt_snapshot = None\<rparr>"

definition mounted_example :: store where
  "mounted_example = db_example\<lparr>mounts := [mount_example]\<rparr>"

lemma mounted_inv: "mount_inv mounted_example"
  by (simp add: mounted_example_def mount_inv_def mount_example_def AGENT_SCOPE_ALIAS_def db_keys_unique_def db_example_def db_put_def
      upsert_def has_row_def init_store_def)

theorem rename_moves_a_mount_whole_witness:
  "\<exists>s'. renameMount ''acme'' ''ada'' ''gh'' ''github'' None mounted_example = (Renamed, s') \<and> getMountByAlias ''acme'' ''ada'' ''gh'' s' = None \<and> mount_inv s'"
proof -
  have "fst (renameMount ''acme'' ''ada'' ''gh'' ''github'' None mounted_example) = Renamed" by code_simp
  then obtain s' where r: "renameMount ''acme'' ''ada'' ''gh'' ''github'' None mounted_example = (Renamed, s')" by (metis prod.collapse)
  have c: "\<not> (Renamed \<noteq> Renamed \<or> ''gh'' = ''github'')" by simp
  from rename_moves_a_mount_whole [OF mounted_inv r, unfolded if_not_P [OF c]] r show ?thesis by blast
qed

section \<open>A removal takes a mount whole, and never an agent's own data\<close>

lemma filter_upsert_other:
  assumes "\<not> q new" and "\<And>r. p r \<Longrightarrow> \<not> q r \<and> \<not> q (f r)"
  shows "filter q (upsert p new f rows) = filter q rows"
proof -
  have "filter q (update_where p f rows) = filter q rows" using assms(2) by (induction rows) (auto simp: update_where_def)
  with assms(1) show ?thesis by (simp add: upsert_def)
qed

lemma filter_update_other:
  assumes "\<And>r. p r \<Longrightarrow> \<not> q r \<and> \<not> q (f r)"
  shows "filter q (update_where p f rows) = filter q rows"
  using assms by (induction rows) (auto simp: update_where_def)

lemma filter_delete_other:
  assumes "\<And>r. p r \<Longrightarrow> \<not> q r"
  shows "filter q (delete_where p rows) = filter q rows"
  using assms by (induction rows) (auto simp: delete_where_def)

definition agent_level :: "plugin_db_row \<Rightarrow> bool" where
  "agent_level r \<longleftrightarrow> pd_alias r = AGENT_SCOPE_ALIAS"

definition agent_level_version :: "plugin_version_row \<Rightarrow> bool" where
  "agent_level_version r \<longleftrightarrow> pv_alias r = AGENT_SCOPE_ALIAS"

text \<open>What changes an agent's configuration, and what a plugin does with a database filed under a mount.\<close>

inductive mount_step :: "store \<Rightarrow> store \<Rightarrow> bool" where
  step_add: "addMount m s = Inr s' \<Longrightarrow> mount_step s s'"
| step_snapshot: "updateMountToolSnapshot tn ag al snap s = (b, s') \<Longrightarrow> mount_step s s'"
| step_policy: "updateMountPolicy tn ag al policy s = (b, s') \<Longrightarrow> mount_step s s'"
| step_version: "updateMountToolVersion tn ag al v s = (b, s') \<Longrightarrow> mount_step s s'"
| step_config: "updateMountConfig tn ag al config s = (b, s') \<Longrightarrow> mount_step s s'"
| step_secret_ref: "setMountSecretRef tn ag al ref s = (b, s') \<Longrightarrow> mount_step s s'"
| step_rename: "renameMount tn ag old new secret s = (res, s') \<Longrightarrow> mount_step s s'"
| step_remove: "removeMount tn ag al secretName installation s = (b, s') \<Longrightarrow> mount_step s s'"
| step_secret: "mount_step s (putSecret now tn ag name x s)"
| step_touch: "mount_step s (touchSecret tn ag name at_time s)"
| step_remove_secret: "removeSecret tn ag name s = (b, s') \<Longrightarrow> mount_step s s'"
| step_choice: "mount_step s (setPluginChoice now tn ag plugin choice s)"
| step_binding: "mount_step s (setModelBinding binding s)"
| step_db_put: "sc_alias sc \<noteq> AGENT_SCOPE_ALIAS \<Longrightarrow> mount_step s (db_put now sc st k v idx s)"
| step_db_delete: "sc_alias sc \<noteq> AGENT_SCOPE_ALIAS \<Longrightarrow> mount_step s (db_delete sc st q s)"
| step_db_version: "sc_alias sc \<noteq> AGENT_SCOPE_ALIAS \<Longrightarrow> mount_step s (setVersion now sc ver s)"

lemma remove_cases:
  assumes "removeMount tn ag al secretName installation s = (b, s')"
  shows "(if b then has_row (removes tn ag al installation) (mounts s) else s' = s)
    \<and> mounts s' = delete_where (removes tn ag al installation) (mounts s)
    \<and> plugin_rows s' = (if b then delete_where (of_alias tn ag al) (plugin_rows s) else plugin_rows s)
    \<and> plugin_versions s' = (if b then delete_where (version_of_alias tn ag al) (plugin_versions s) else plugin_versions s)
    \<and> secrets s' = (case secretName of Some n \<Rightarrow> if b then delete_where (is_secret tn ag n) (secrets s) else secrets s | None \<Rightarrow> secrets s)"
proof -
  let ?hit = "removes tn ag al installation"
  show ?thesis
  proof (cases "filter ?hit (mounts s) = []")
    case True
    then have same: "delete_where ?hit (mounts s) = mounts s" by (simp add: delete_where_def filter_empty_conv)
    with True assms have "\<not> b" "s' = s" by (simp_all add: removeMount_def Let_def)
    with same show ?thesis by (simp split: option.split)
  next
    case False
    then have "has_row ?hit (mounts s)" by (auto simp: filter_empty_conv has_row_iff)
    with False assms show ?thesis by (auto simp: removeMount_def Let_def db_remove_def split: option.splits)
  qed
qed

lemma change_keeps_inv:
  assumes "mount_inv s" and "\<And>m. mount_key (f m) = mount_key m"
  shows "mount_inv (s\<lparr>mounts := update_where p f (mounts s)\<rparr>)"
proof -
  have "mt_alias (f m) = mt_alias m" for m using assms(2) [of m] by (simp add: mount_key_def)
  with assms show ?thesis
    by (auto simp: mount_inv_def map_update_where list_all_iff set_update_where db_keys_unique_def)
qed

lemma mount_step_keeps:
  assumes "mount_step s s'" and "mount_inv s"
  shows "mount_inv s' \<and> filter agent_level (plugin_rows s') = filter agent_level (plugin_rows s)
    \<and> filter agent_level_version (plugin_versions s') = filter agent_level_version (plugin_versions s)"
  using assms(1)
proof (cases rule: mount_step.cases)
  case (step_add m)
  then show ?thesis using assms(2)
    by (auto simp: addMount_def mount_inv_def has_mount_def has_row_iff is_mount_key mount_key_def db_keys_unique_def split: if_splits) blast
next
  case (step_rename tn ag old new secret res)
  from rename_keeps_inv [OF assms(2) step_rename] have i: "mount_inv s'" .
  from step_rename show ?thesis
  proof (cases rule: rename_cases)
    case kept
    with i show ?thesis by simp
  next
    case (moved s2)
    note t = renamed_tables [OF moved(7,8,2)]
    have "old \<noteq> AGENT_SCOPE_ALIAS" "new \<noteq> AGENT_SCOPE_ALIAS"
      using assms(2) moved(3,4) by (auto simp: mount_inv_def has_mount_def has_row_iff is_mount_def list_all_iff)
    with i show ?thesis unfolding t(4,5) rename_rows_def rename_versions_def
      by (auto simp: agent_level_def agent_level_version_def of_alias_def version_of_alias_def intro!: filter_update_other)
  qed
next
  case (step_remove tn ag al secretName installation b)
  note r = remove_cases [OF step_remove]
  then have "al \<noteq> AGENT_SCOPE_ALIAS" if b using assms(2) that by (auto simp: mount_inv_def removes_def is_mount_def list_all_iff has_row_iff)
  then have "filter agent_level (plugin_rows s') = filter agent_level (plugin_rows s)
    \<and> filter agent_level_version (plugin_versions s') = filter agent_level_version (plugin_versions s)"
    using r by (auto simp: agent_level_def agent_level_version_def of_alias_def version_of_alias_def intro!: filter_delete_other)
  moreover have "mount_inv s'"
    using r assms(2) by (auto simp: mount_inv_def db_keys_unique_def list_all_iff set_delete_where intro!: distinct_map_delete_where split: option.splits)
  ultimately show ?thesis by blast
next
  case (step_secret now tn ag name x)
  then show ?thesis using assms(2)
    by (auto simp: putSecret_def mount_inv_def db_keys_unique_def secret_key_def is_secret_def intro!: distinct_map_upsert)
next
  case (step_touch tn ag name at_time)
  then show ?thesis using assms(2)
    by (auto simp: touchSecret_def mount_inv_def db_keys_unique_def secret_key_def intro!: distinct_map_update_where)
next
  case (step_remove_secret tn ag name b)
  then show ?thesis using assms(2)
    by (auto simp: removeSecret_def mount_inv_def db_keys_unique_def intro!: distinct_map_delete_where)
next
  case (step_choice now tn ag plugin choice)
  then show ?thesis using assms(2) by (simp add: setPluginChoice_def mount_inv_def db_keys_unique_def)
next
  case (step_binding binding)
  then show ?thesis using assms(2) by (simp add: setModelBinding_def mount_inv_def db_keys_unique_def)
next
  case (step_db_put sc now st k v idx)
  then show ?thesis using assms(2)
    by (auto simp: db_put_def mount_inv_def db_keys_unique_def agent_level_def in_store_def in_scope_def db_row_key_def
        intro!: distinct_map_upsert filter_upsert_other)
next
  case (step_db_delete sc st q)
  then show ?thesis using assms(2)
    by (auto simp: db_delete_def mount_inv_def db_keys_unique_def agent_level_def in_store_def in_scope_def
        intro!: distinct_map_delete_where filter_delete_other)
next
  case (step_db_version sc now ver)
  then show ?thesis using assms(2)
    by (auto simp: setVersion_def mount_inv_def db_keys_unique_def agent_level_version_def version_scope_def version_row_key_def
        intro!: distinct_map_upsert filter_upsert_other)
qed (use assms(2) in \<open>auto simp: updateMountToolSnapshot_def updateMountPolicy_def updateMountToolVersion_def updateMountConfig_def
       setMountSecretRef_def change_mount_def mount_key_def intro!: change_keeps_inv\<close>)

lemma mount_run_keeps:
  assumes "mount_step\<^sup>*\<^sup>* s s'" and "mount_inv s"
  shows "mount_inv s' \<and> filter agent_level (plugin_rows s') = filter agent_level (plugin_rows s)
    \<and> filter agent_level_version (plugin_versions s') = filter agent_level_version (plugin_versions s)"
  using assms by (induction rule: rtranclp_induct) (use mount_step_keeps in \<open>auto\<close>)

lemma get_row_same_filter:
  assumes "\<And>r. p r \<Longrightarrow> q r" and "filter q xs = filter q ys"
  shows "get_row p xs = get_row p ys"
proof -
  have "get_row p (filter q rows) = get_row p rows" for rows using assms(1) by (induction rows) auto
  then show ?thesis using assms(2) by metis
qed

text \<open>
  An agent's own databases are out of reach. Whatever is done to the agent's mounts, secrets, choices and bindings, and to databases
  filed under mounts, in whatever order (renames and removals of any name, the empty one included), every database kept at the
  level of the agent reads and has the version it had; and no two mounts, rows or secrets ever share a key, and no mount is nameless.
\<close>

theorem agent_level_data_is_out_of_reach:
  assumes "mount_step\<^sup>*\<^sup>* s s'" and "mount_inv s" and "sc_alias sc = AGENT_SCOPE_ALIAS"
  shows "mount_inv s' \<and> (\<forall>st k. db_get sc st k s' = db_get sc st k s) \<and> version sc s' = version sc s"
proof -
  note k = mount_run_keeps [OF assms(1,2)]
  have "get_row (\<lambda>r. in_store sc st r \<and> pd_key r = x) (plugin_rows s') = get_row (\<lambda>r. in_store sc st r \<and> pd_key r = x) (plugin_rows s)"
    for st x using assms(3) k by (intro get_row_same_filter [of _ agent_level]) (simp_all add: agent_level_def in_store_def in_scope_def)
  moreover have "get_row (version_scope sc) (plugin_versions s') = get_row (version_scope sc) (plugin_versions s)"
    using assms(3) k by (intro get_row_same_filter [of _ agent_level_version]) (simp_all add: agent_level_version_def version_scope_def)
  ultimately show ?thesis using k by (simp add: db_get_def version_def)
qed

theorem agent_level_data_is_out_of_reach_witness:
  "mount_inv (snd (removeMount ''acme'' ''ada'' '''' None None mounted_example))
   \<and> version \<lparr>sc_tenant = ''acme'', sc_agent = ''ada'', sc_alias = '''', sc_plugin = ''github''\<rparr> (snd (removeMount ''acme'' ''ada'' '''' None None mounted_example))
     = version \<lparr>sc_tenant = ''acme'', sc_agent = ''ada'', sc_alias = '''', sc_plugin = ''github''\<rparr> mounted_example"
proof -
  obtain b s' where r: "removeMount ''acme'' ''ada'' '''' None None mounted_example = (b, s')" by fastforce
  have "mount_step\<^sup>*\<^sup>* mounted_example s'" by (rule r_into_rtranclp) (rule step_remove [OF r])
  from agent_level_data_is_out_of_reach [OF this mounted_inv,
      of "\<lparr>sc_tenant = ''acme'', sc_agent = ''ada'', sc_alias = '''', sc_plugin = ''github''\<rparr>"] r
  show ?thesis by (simp add: AGENT_SCOPE_ALIAS_def)
qed

lemma db_get_removed:
  "db_get sc st k (s\<lparr>plugin_rows := delete_where (of_alias tn ag al) (plugin_rows s)\<rparr>) =
     (if sc_tenant sc = tn \<and> sc_agent sc = ag \<and> sc_alias sc = al then None else db_get sc st k s)"
proof (cases "sc_tenant sc = tn \<and> sc_agent sc = ag \<and> sc_alias sc = al")
  case True
  then have "get_row (\<lambda>r. in_store sc st r \<and> pd_key r = k) (delete_where (of_alias tn ag al) (plugin_rows s)) = None"
    by (auto simp: get_row_None_iff set_delete_where in_store_def in_scope_def of_alias_def)
  with True show ?thesis by (simp add: db_get_def)
next
  case False
  then have "get_row (\<lambda>r. in_store sc st r \<and> pd_key r = k) (delete_where (of_alias tn ag al) (plugin_rows s))
      = get_row (\<lambda>r. in_store sc st r \<and> pd_key r = k) (plugin_rows s)"
    by (intro get_row_delete_other) (auto simp: in_store_def in_scope_def of_alias_def)
  then show ?thesis unfolding if_not_P [OF False] by (simp add: db_get_def)
qed

text \<open>
  A removal takes a mount whole, or nothing, and the two stores agree on it. It answers whether the named installation was mounted
  under the name; if not, nothing has changed. If it was, the mount is gone, every database under the name reads nothing, whichever
  plugin's, the named secret is gone, and every other mount and database is as it was.
\<close>

theorem remove_takes_a_mount_whole:
  assumes "mount_inv s" and "removeMount tn ag al secretName installation s = (b, s')"
  shows "do_removeMount tn ag al secretName installation s = (b, s')
    \<and> (b \<longleftrightarrow> (\<exists>m. getMountByAlias tn ag al s = Some m \<and> (installation = None \<or> installation = Some (mt_installation m))))
    \<and> (if \<not> b then s' = s
       else getMountByAlias tn ag al s' = None
         \<and> (\<forall>t a x. (t, a, x) \<noteq> (tn, ag, al) \<longrightarrow> getMountByAlias t a x s' = getMountByAlias t a x s)
         \<and> (\<forall>sc st k. db_get sc st k s' = (if sc_tenant sc = tn \<and> sc_agent sc = ag \<and> sc_alias sc = al then None else db_get sc st k s))
         \<and> (\<forall>n. secretName = Some n \<longrightarrow> getSecret tn ag n s' = None))"
proof -
  note r = remove_cases [OF assms(2)]
  have u: "getMountByAlias tn ag al s = Some m" if "m \<in> set (mounts s)" "is_mount tn ag al m" for m
    unfolding getMountByAlias_def using assms(1) that
    by (intro get_row_unique [of mount_key]) (auto simp: mount_inv_def is_mount_key)
  have hit: "has_row (removes tn ag al installation) (mounts s) \<longleftrightarrow>
      (\<exists>m. getMountByAlias tn ag al s = Some m \<and> (installation = None \<or> installation = Some (mt_installation m)))"
    using u get_row_SomeD unfolding removes_def has_row_iff getMountByAlias_def by metis
  have b: "b \<longleftrightarrow> has_row (removes tn ag al installation) (mounts s)"
    using assms(2) by (auto simp: removeMount_def Let_def has_row_iff filter_empty_conv split: if_splits)
  have agree: "do_removeMount tn ag al secretName installation s = (b, s')"
  proof (cases b)
    case True
    with b have "filter (removes tn ag al installation) (mounts s) \<noteq> []" by (auto simp: has_row_iff filter_empty_conv)
    with True b assms(2) show ?thesis by (simp add: removeMount_def do_removeMount_def Let_def)
  next
    case False
    with b r show ?thesis by (simp add: do_removeMount_def Let_def)
  qed
  have gone: "getMountByAlias tn ag al s' = None" if yes: b
  proof -
    obtain m where m: "getMountByAlias tn ag al s = Some m" "installation = None \<or> installation = Some (mt_installation m)"
      using yes b hit by blast
    have "removes tn ag al installation x" if "x \<in> set (mounts s)" "is_mount tn ag al x" for x
      using u [OF that] m that(2) by (simp add: removes_def)
    then show ?thesis using r by (auto simp: getMountByAlias_def get_row_None_iff set_delete_where)
  qed
  have others: "getMountByAlias t a x s' = getMountByAlias t a x s" if "(t, a, x) \<noteq> (tn, ag, al)" for t a x
    unfolding getMountByAlias_def using r that
    by (auto simp: removes_def is_mount_def intro!: get_row_delete_other)
  have dbs: "db_get sc st k s' = (if sc_tenant sc = tn \<and> sc_agent sc = ag \<and> sc_alias sc = al then None else db_get sc st k s)" if b for sc st k
    using db_get_removed [of sc st k tn ag al s] r that by (simp add: db_get_def)
  have "getSecret tn ag n s' = None" if b "secretName = Some n" for n
    using r that by (simp add: getSecret_def)
  with agree b hit r gone others dbs show ?thesis by auto
qed

theorem remove_takes_a_mount_whole_witness:
  "\<exists>s'. removeMount ''acme'' ''ada'' ''gh'' (Some ''gh'') (Some ''i1'') mounted_example = (True, s') \<and> getMountByAlias ''acme'' ''ada'' ''gh'' s' = None"
proof -
  have "fst (removeMount ''acme'' ''ada'' ''gh'' (Some ''gh'') (Some ''i1'') mounted_example) = True" by code_simp
  then obtain s' where r: "removeMount ''acme'' ''ada'' ''gh'' (Some ''gh'') (Some ''i1'') mounted_example = (True, s')" by (metis prod.collapse)
  with remove_takes_a_mount_whole [OF mounted_inv r] show ?thesis by simp
qed

section \<open>The two stores, and bindings\<close>

lemma change_mount_agree:
  assumes "\<And>m. mount_key (f m) = mount_key m"
  shows "do_change_mount tenant agent alias f s = change_mount tenant agent alias f s"
proof -
  have "has_row (is_mount tenant agent alias) (update_where (is_mount tenant agent alias) f (mounts s))
      = has_row (is_mount tenant agent alias) (mounts s)"
    using assms by (intro has_row_update_where) (simp add: is_mount_key)
  moreover have "has_row (is_mount tenant agent alias) (mounts s) \<longleftrightarrow> filter (is_mount tenant agent alias) (mounts s) \<noteq> []"
    by (auto simp: has_row_iff filter_empty_conv)
  ultimately show ?thesis by (simp add: do_change_mount_def change_mount_def has_mount_def Let_def)
qed

lemma mount_updates_agree:
  "do_updateMountToolSnapshot tenant agent alias snap s = updateMountToolSnapshot tenant agent alias snap s"
  "do_updateMountPolicy tenant agent alias policy s = updateMountPolicy tenant agent alias policy s"
  "do_updateMountToolVersion tenant agent alias v s = updateMountToolVersion tenant agent alias v s"
  "do_updateMountConfig tenant agent alias config s = updateMountConfig tenant agent alias config s"
  "do_setMountSecretRef tenant agent alias ref s = setMountSecretRef tenant agent alias ref s"
  by (simp_all add: do_updateMountToolSnapshot_def updateMountToolSnapshot_def do_updateMountPolicy_def updateMountPolicy_def
      do_updateMountToolVersion_def updateMountToolVersion_def do_updateMountConfig_def updateMountConfig_def
      do_setMountSecretRef_def setMountSecretRef_def change_mount_agree mount_key_def)

lemma removeSecret_agree: "do_removeSecret tenant agent name s = removeSecret tenant agent name s"
  unfolding do_removeSecret_def removeSecret_def Let_def has_row_get_row [symmetric] by (auto simp: has_row_iff filter_empty_conv)

lemma getModelBinding_pick:
  "getModelBinding tenant agent s =
     map_option (\<lambda>b. b\<lparr>mb_agent := (if binding_agent b = [] then None else Some (binding_agent b))\<rparr>)
       (case get_row (is_binding tenant agent) (bindings s) of None \<Rightarrow> get_row (is_binding tenant []) (bindings s) | Some b \<Rightarrow> Some b)"
proof -
  let ?rows = "filter (\<lambda>b. mb_tenant b = tenant \<and> (binding_agent b = agent \<or> binding_agent b = [])) (bindings s)"
  have f: "find (\<lambda>b. binding_agent b = a) (filter (\<lambda>b. mb_tenant b = tenant \<and> (binding_agent b = agent \<or> binding_agent b = [])) rows)
      = get_row (is_binding tenant a) rows" if "a = agent \<or> a = []" for a and rows :: "model_binding list"
    using that by (induction rows) (auto simp: get_row_def is_binding_def)
  show ?thesis unfolding getModelBinding_def Let_def f [of agent, OF disjI1, OF refl] f [of "[]", OF disjI2, OF refl] ..
qed

definition shown_binding :: "model_binding \<Rightarrow> model_binding" where
  "shown_binding b = b\<lparr>mb_agent := (if binding_agent b = [] then None else Some (binding_agent b))\<rparr>"

text \<open>
  The most specific binding wins. Setting a binding is read back by the agent it is for; a tenant's default is read by exactly
  the agents of the tenant that have no binding of their own; and nobody else's binding changes.
\<close>

theorem most_specific_binding_wins:
  "getModelBinding tenant agent (setModelBinding b s) =
     (if tenant = mb_tenant b \<and> (binding_agent b = agent \<or> binding_agent b = [] \<and> \<not> has_row (is_binding tenant agent) (bindings s))
      then Some (shown_binding b) else getModelBinding tenant agent s)"
proof -
  let ?p = "is_binding (mb_tenant b) (binding_agent b)"
  let ?new = "b\<lparr>mb_agent := Some (binding_agent b)\<rparr>"
  let ?f = "\<lambda>r. r\<lparr>mb_provider := mb_provider b, mb_model := mb_model b, mb_base_url := mb_base_url b, mb_secret_ref := mb_secret_ref b\<rparr>"
  have set: "bindings (setModelBinding b s) = upsert ?p ?new ?f (bindings s)" by (simp add: setModelBinding_def)
  have shown: "shown_binding (?f r) = shown_binding b" if "?p r" for r
    using that by (cases r; cases b) (simp add: shown_binding_def is_binding_def binding_agent_def)
  have same: "map_option shown_binding (get_row ?p (upsert ?p ?new ?f (bindings s))) = Some (shown_binding b)"
  proof -
    have "get_row ?p (upsert ?p ?new ?f (bindings s)) = Some (case get_row ?p (bindings s) of None \<Rightarrow> ?new | Some r \<Rightarrow> ?f r)"
      by (intro get_row_upsert_same) (simp_all add: is_binding_def binding_agent_def)
    moreover have "shown_binding ?new = shown_binding b" by (simp add: shown_binding_def binding_agent_def)
    moreover have "shown_binding (?f r) = shown_binding b" if "get_row ?p (bindings s) = Some r" for r
      using shown get_row_SomeD [OF that] by blast
    ultimately show ?thesis by (cases "get_row ?p (bindings s)") simp_all
  qed
  have other: "get_row (is_binding tenant x) (upsert ?p ?new ?f (bindings s)) = get_row (is_binding tenant x) (bindings s)"
    if "tenant \<noteq> mb_tenant b \<or> x \<noteq> binding_agent b" for x
    using that by (intro get_row_upsert_other) (auto simp: is_binding_def binding_agent_def)
  have pick: "getModelBinding tenant agent s = map_option shown_binding
       (case get_row (is_binding tenant agent) (bindings s) of None \<Rightarrow> get_row (is_binding tenant []) (bindings s) | Some b \<Rightarrow> Some b)" for s
    unfolding getModelBinding_pick shown_binding_def ..
  consider (own) "tenant = mb_tenant b" "binding_agent b = agent"
    | (default) "tenant = mb_tenant b" "binding_agent b = []" "agent \<noteq> []" | (none) "tenant \<noteq> mb_tenant b \<or> binding_agent b \<noteq> agent \<and> binding_agent b \<noteq> []"
    by blast
  then show ?thesis
  proof cases
    case own
    with same show ?thesis unfolding pick set by (auto split: option.splits)
  next
    case default
    then have "get_row (is_binding tenant agent) (upsert ?p ?new ?f (bindings s)) = get_row (is_binding tenant agent) (bindings s)"
      by (intro other) simp
    with default same show ?thesis unfolding pick set has_row_get_row by (auto split: option.splits)
  next
    case none
    then have e: "get_row (is_binding tenant agent) (upsert ?p ?new ?f (bindings s)) = get_row (is_binding tenant agent) (bindings s)"
      "get_row (is_binding tenant []) (upsert ?p ?new ?f (bindings s)) = get_row (is_binding tenant []) (bindings s)"
      by (intro other; auto)+
    from none show ?thesis unfolding pick set e by auto
  qed
qed

end
