(* ===== verification/Seed_Record.thy ===== *)
theory Seed_Record
  imports Mounts Trace
begin

text \<open>
  Each agent's record of the deployment catalogue: \<open>src/src/store/seed-record.ts\<close>, which both stores run in their own
  transaction. The tables it keeps are \<open>seed_tables\<close>; a pass also inserts mounts and trace rows, so it takes and returns the
  store as well, and a constraint failure (\<open>Inl\<close>) takes the whole pass back. The lemmas show that an entry the agent has had is
  never added again, whatever the passes and whatever happens to its mounts in between; that a mount a pass gives is one the agent will
  be told about, unless it is among its first; that a second pass under the same key does nothing; and that a notice is taken by one turn.
\<close>

section \<open>The tables\<close>

record seed_state_row =
  sr_tenant :: string
  sr_agent :: string
  sr_key :: "string option"
  sr_revision :: "int option"
  sr_chosen :: bool
  sr_updated :: int

record seed_outcome_row =
  so_tenant :: string
  so_agent :: string
  so_alias :: string
  so_since :: int
  so_plugin :: string
  so_outcome :: seed_outcome
  so_reason :: "string option"
  so_at :: int

record seed_notice_row =
  no_tenant :: string
  no_agent :: string
  no_alias :: string
  no_since :: int
  no_plugin :: string
  no_added :: int
  no_delivered :: "int option"
  no_voided :: "int option"
  no_reason :: "string option"

record seed_tables =
  seed_states :: "seed_state_row list"
  seed_outcomes :: "seed_outcome_row list"
  seed_notices :: "seed_notice_row list"

definition no_seeds :: seed_tables where
  "no_seeds = \<lparr>seed_states = [], seed_outcomes = [], seed_notices = []\<rparr>"

definition is_seed_state :: "string \<Rightarrow> string \<Rightarrow> seed_state_row \<Rightarrow> bool" where
  "is_seed_state tenant agent r \<longleftrightarrow> sr_tenant r = tenant \<and> sr_agent r = agent"

definition is_outcome :: "string \<Rightarrow> string \<Rightarrow> string \<Rightarrow> int \<Rightarrow> seed_outcome_row \<Rightarrow> bool" where
  "is_outcome tenant agent alias since r \<longleftrightarrow> so_tenant r = tenant \<and> so_agent r = agent \<and> so_alias r = alias \<and> so_since r = since"

definition is_notice :: "string \<Rightarrow> string \<Rightarrow> string \<Rightarrow> int \<Rightarrow> seed_notice_row \<Rightarrow> bool" where
  "is_notice tenant agent alias since r \<longleftrightarrow> no_tenant r = tenant \<and> no_agent r = agent \<and> no_alias r = alias \<and> no_since r = since"

definition is_pending :: "seed_notice_row \<Rightarrow> bool" where
  "is_pending r \<longleftrightarrow> no_delivered r = None \<and> no_voided r = None"

section \<open>Reading\<close>

record seed_record =
  rc_key :: "string option"
  rc_revision :: "int option"
  rc_chosen :: bool
  rc_at :: "int option"
  rc_outcomes :: "seed_outcome_row list"
  rc_notices :: "seed_notice_row list"

definition outcome_order :: "seed_outcome_row \<Rightarrow> int \<times> string" where
  "outcome_order r = (so_since r, so_alias r)"

definition notice_order :: "seed_notice_row \<Rightarrow> int \<times> string" where
  "notice_order r = (no_since r, no_alias r)"

definition readSeedRecord :: "string \<Rightarrow> string \<Rightarrow> seed_tables \<Rightarrow> seed_record" where
  "readSeedRecord tenant agent t =
     (let s = get_row (is_seed_state tenant agent) (seed_states t) in
      \<lparr>rc_key = Option.bind s sr_key, rc_revision = Option.bind s sr_revision,
       rc_chosen = (case s of None \<Rightarrow> False | Some r \<Rightarrow> sr_chosen r), rc_at = map_option sr_updated s,
       rc_outcomes = order_by outcome_order (filter (\<lambda>r. so_tenant r = tenant \<and> so_agent r = agent) (seed_outcomes t)),
       rc_notices = order_by notice_order (filter (\<lambda>r. no_tenant r = tenant \<and> no_agent r = agent) (seed_notices t))\<rparr>)"

definition pendingSeedNotices :: "string \<Rightarrow> string \<Rightarrow> seed_tables \<Rightarrow> seed_notice_row list" where
  "pendingSeedNotices tenant agent t =
     order_by notice_order (filter (\<lambda>r. no_tenant r = tenant \<and> no_agent r = agent \<and> is_pending r) (seed_notices t))"

section \<open>Telling the agent\<close>

text \<open>\<open>which\<close> holds the entries by alias and \<open>since\<close>.\<close>

definition takeSeedNotices :: "int \<Rightarrow> string \<Rightarrow> string \<Rightarrow> (string \<times> int) set \<Rightarrow> seed_tables \<Rightarrow> seed_notice_row list \<times> seed_tables" where
  "takeSeedNotices now tenant agent which t =
     (let taken = filter (\<lambda>n. (no_alias n, no_since n) \<in> which) (pendingSeedNotices tenant agent t) in
      (map (\<lambda>n. n\<lparr>no_delivered := Some now\<rparr>) taken,
       t\<lparr>seed_notices := fold (\<lambda>n. update_where (\<lambda>r. is_notice tenant agent (no_alias n) (no_since n) r \<and> is_pending r)
          (\<lambda>r. r\<lparr>no_delivered := Some now\<rparr>)) taken (seed_notices t)\<rparr>))"

definition voidSeedNotices :: "int \<Rightarrow> string \<Rightarrow> string \<Rightarrow> (string \<times> int \<times> string) list \<Rightarrow> seed_tables \<Rightarrow> seed_tables" where
  "voidSeedNotices now tenant agent rows t =
     t\<lparr>seed_notices := fold (\<lambda>(alias, since, reason). update_where (\<lambda>r. is_notice tenant agent alias since r \<and> is_pending r)
        (\<lambda>r. r\<lparr>no_voided := Some now, no_reason := Some reason\<rparr>)) rows (seed_notices t)\<rparr>"

text \<open>\<open>delivered_at=?\<close> passes no row when the stamp bound is \<open>NULL\<close>.\<close>

definition returnSeedNotices :: "string \<Rightarrow> string \<Rightarrow> seed_notice_row list \<Rightarrow> seed_tables \<Rightarrow> seed_tables" where
  "returnSeedNotices tenant agent rows t =
     t\<lparr>seed_notices := fold (\<lambda>n. update_where
        (\<lambda>r. is_notice tenant agent (no_alias n) (no_since n) r \<and> no_delivered r \<noteq> None \<and> no_delivered r = no_delivered n)
        (\<lambda>r. r\<lparr>no_delivered := None\<rparr>)) rows (seed_notices t)\<rparr>"

definition markSeedsChosen :: "int \<Rightarrow> string \<Rightarrow> string \<Rightarrow> seed_tables \<Rightarrow> seed_tables" where
  "markSeedsChosen now tenant agent t =
     t\<lparr>seed_states := upsert (is_seed_state tenant agent)
        \<lparr>sr_tenant = tenant, sr_agent = agent, sr_key = None, sr_revision = None, sr_chosen = True, sr_updated = now\<rparr>
        (\<lambda>r. r\<lparr>sr_chosen := True, sr_updated := now\<rparr>) (seed_states t)\<rparr>"

section \<open>One pass\<close>

datatype withheld = WDeclined | WNotFor | WUnavailable | WRefused

fun withheld_outcome :: "withheld \<Rightarrow> seed_outcome" where
  "withheld_outcome WDeclined = SDeclined"
| "withheld_outcome WNotFor = SNotFor"
| "withheld_outcome WUnavailable = SUnavailable"
| "withheld_outcome WRefused = SRefused"

datatype seed_offer = Withheld withheld string | Offer mount_record

record seed_plan =
  sp_alias :: string
  sp_plugin :: string
  sp_since :: int
  sp_offer :: seed_offer

record seed_pass =
  ps_key :: string
  ps_revision :: int
  ps_plan :: "seed_plan list"

datatype seed_skip = Unchanged | Chosen

datatype seed_result = NotRun seed_skip | Ran "seed_outcome_row list" "seed_outcome_row list" "seed_outcome_row list"

text \<open>What becomes of an entry, given the agent's mounts as pairs of alias and plugin: its outcome, the reason, the mount to insert.\<close>

definition judge :: "(string \<times> string) list \<Rightarrow> seed_plan \<Rightarrow> seed_outcome \<times> string option \<times> mount_record option" where
  "judge ms p =
     (let have = find (\<lambda>m. fst m = sp_alias p) ms; elsewhere = find (\<lambda>m. snd m = sp_plugin p) ms in
      if have \<noteq> None \<and> snd (the have) = sp_plugin p then (SPresent, None, None)
      else (case elsewhere of
          Some e \<Rightarrow> (SPresent, Some (''already mounted as '' @ fst e), None)
        | None \<Rightarrow>
          (case sp_offer p of
             Withheld w reason \<Rightarrow> (withheld_outcome w, Some reason, None)
           | Offer m \<Rightarrow>
             (case have of
                Some h \<Rightarrow> (SRefused, Some (sp_alias p @ '' is a '' @ snd h @ '' mount, not the '' @ sp_plugin p @ '' seed''), None)
              | None \<Rightarrow> (SAdded, None, Some m)))))"

record pass_state =
  pa_mounts :: "(string \<times> string) list"
  pa_tables :: seed_tables
  pa_store :: store
  pa_changed :: "seed_outcome_row list"
  pa_added :: "seed_outcome_row list"
  pa_noticed :: "seed_outcome_row list"

definition add_outcome :: "seed_outcome_row \<Rightarrow> seed_tables \<Rightarrow> seed_tables" where
  "add_outcome row t =
     t\<lparr>seed_outcomes := upsert (is_outcome (so_tenant row) (so_agent row) (so_alias row) (so_since row)) row
        (\<lambda>r. r\<lparr>so_plugin := so_plugin row, so_outcome := so_outcome row, so_reason := so_reason row, so_at := so_at row\<rparr>) (seed_outcomes t)\<rparr>"

definition add_notice :: "int \<Rightarrow> seed_outcome_row \<Rightarrow> seed_tables \<Rightarrow> seed_tables" where
  "add_notice now row t =
     t\<lparr>seed_notices := upsert (is_notice (so_tenant row) (so_agent row) (so_alias row) (so_since row))
        \<lparr>no_tenant = so_tenant row, no_agent = so_agent row, no_alias = so_alias row, no_since = so_since row, no_plugin = so_plugin row,
         no_added = now, no_delivered = None, no_voided = None, no_reason = None\<rparr>
        (\<lambda>r. r\<lparr>no_plugin := so_plugin row, no_added := now, no_delivered := None\<rparr>) (seed_notices t)\<rparr>"

text \<open>What is recorded of an entry whose outcome is new.\<close>

definition record_entry :: "int \<Rightarrow> bool \<Rightarrow> seed_outcome_row \<Rightarrow> pass_state \<Rightarrow> pass_state" where
  "record_entry now creating row st =
     (let added = (so_outcome row = SAdded); notice = (added \<and> \<not> creating);
          t1 = add_outcome row (pa_tables st); t2 = (if notice then add_notice now row t1 else t1) in
      st\<lparr>pa_tables := t2,
        pa_store := appendTrace [seededRow (so_tenant row) (so_agent row) (so_alias row) (so_plugin row) (so_since row) (so_outcome row)
          (so_reason row) (so_at row) (if added then Some (if notice then ''pending'' else ''first tools'') else None)] (pa_store st),
        pa_changed := pa_changed st @ [row],
        pa_added := (if added then pa_added st @ [row] else pa_added st),
        pa_noticed := (if notice then pa_noticed st @ [row] else pa_noticed st)\<rparr>)"

definition seed_entry ::
  "int \<Rightarrow> string \<Rightarrow> string \<Rightarrow> bool \<Rightarrow> seed_outcome_row list \<Rightarrow> seed_plan \<Rightarrow> pass_state \<Rightarrow> store_error + pass_state" where
  "seed_entry now tenant agent creating prior p st =
     (let before = get_row (is_outcome tenant agent (sp_alias p) (sp_since p)) prior in
      if before \<noteq> None \<and> so_outcome (the before) \<in> {SAdded, SPresent} then Inr st
      else (case judge (pa_mounts st) p of (outcome, reason, new) \<Rightarrow>
        (case (case new of
                 None \<Rightarrow> Inr st
               | Some m \<Rightarrow>
                   if has_mount tenant agent (mt_alias m) (pa_store st) then Inl (ConstraintFailed ''mounts'')
                   else Inr (st\<lparr>pa_mounts := pa_mounts st @ [(mt_alias m, mt_plugin m)],
                       pa_store := (pa_store st)\<lparr>mounts := mounts (pa_store st) @ [m\<lparr>mt_tenant := tenant, mt_agent := agent\<rparr>]\<rparr>\<rparr>)) of
           Inl e \<Rightarrow> Inl e
         | Inr st1 \<Rightarrow>
             if before \<noteq> None \<and> so_outcome (the before) = outcome \<and> so_reason (the before) = reason then Inr st1
             else Inr (record_entry now creating
               \<lparr>so_tenant = tenant, so_agent = agent, so_alias = sp_alias p, so_since = sp_since p, so_plugin = sp_plugin p,
                so_outcome = outcome, so_reason = reason, so_at = now\<rparr> st1))))"

fun seed_entries ::
  "int \<Rightarrow> string \<Rightarrow> string \<Rightarrow> bool \<Rightarrow> seed_outcome_row list \<Rightarrow> seed_plan list \<Rightarrow> pass_state \<Rightarrow> store_error + pass_state" where
  "seed_entries now tenant agent creating prior [] st = Inr st"
| "seed_entries now tenant agent creating prior (p # ps) st =
     (case seed_entry now tenant agent creating prior p st of
        Inl e \<Rightarrow> Inl e
      | Inr st' \<Rightarrow> seed_entries now tenant agent creating prior ps st')"

definition agent_mounts :: "string \<Rightarrow> string \<Rightarrow> store \<Rightarrow> (string \<times> string) list" where
  "agent_mounts tenant agent s =
     map (\<lambda>m. (mt_alias m, mt_plugin m)) (filter (\<lambda>m. mt_tenant m = tenant \<and> mt_agent m = agent) (mounts s))"

text \<open>The pass that gives an agent its first tools: no pass has run on it, and it has no mount.\<close>

definition is_creating :: "string \<Rightarrow> string \<Rightarrow> seed_tables \<Rightarrow> store \<Rightarrow> bool" where
  "is_creating tenant agent t s \<longleftrightarrow> get_row (is_seed_state tenant agent) (seed_states t) = None \<and> agent_mounts tenant agent s = []"

definition start_pass :: "string \<Rightarrow> string \<Rightarrow> seed_tables \<Rightarrow> store \<Rightarrow> pass_state" where
  "start_pass tenant agent t s =
     \<lparr>pa_mounts = agent_mounts tenant agent s, pa_tables = t, pa_store = s, pa_changed = [], pa_added = [], pa_noticed = []\<rparr>"

definition applySeedPass ::
  "int \<Rightarrow> string \<Rightarrow> string \<Rightarrow> seed_pass \<Rightarrow> seed_tables \<Rightarrow> store \<Rightarrow> store_error + (seed_result \<times> seed_tables \<times> store)" where
  "applySeedPass now tenant agent pass t s =
     (let state = get_row (is_seed_state tenant agent) (seed_states t) in
      if state \<noteq> None \<and> sr_chosen (the state) then Inr (NotRun Chosen, t, s)
      else if state \<noteq> None \<and> sr_key (the state) = Some (ps_key pass) then Inr (NotRun Unchanged, t, s)
      else (case seed_entries now tenant agent (is_creating tenant agent t s)
              (filter (\<lambda>r. so_tenant r = tenant \<and> so_agent r = agent) (seed_outcomes t)) (ps_plan pass) (start_pass tenant agent t s) of
          Inl e \<Rightarrow> Inl e
        | Inr st \<Rightarrow>
          Inr (Ran (pa_changed st) (pa_added st) (pa_noticed st),
            (pa_tables st)\<lparr>seed_states := upsert (is_seed_state tenant agent)
              \<lparr>sr_tenant = tenant, sr_agent = agent, sr_key = Some (ps_key pass), sr_revision = Some (ps_revision pass), sr_chosen = False, sr_updated = now\<rparr>
              (\<lambda>r. r\<lparr>sr_key := Some (ps_key pass), sr_revision := Some (ps_revision pass), sr_updated := now\<rparr>) (seed_states (pa_tables st))\<rparr>,
            pa_store st)))"
section \<open>An entry the agent has had is never added again\<close>

definition settled_row :: "seed_outcome_row \<Rightarrow> bool" where
  "settled_row r \<longleftrightarrow> so_outcome r \<in> {SAdded, SPresent}"

definition outcome_of :: "string \<Rightarrow> string \<Rightarrow> string \<Rightarrow> int \<Rightarrow> seed_tables \<Rightarrow> seed_outcome_row option" where
  "outcome_of tenant agent alias since t = get_row (is_outcome tenant agent alias since) (seed_outcomes t)"

definition settled :: "string \<Rightarrow> string \<Rightarrow> string \<Rightarrow> int \<Rightarrow> seed_tables \<Rightarrow> bool" where
  "settled tenant agent alias since t \<longleftrightarrow> (\<exists>r. outcome_of tenant agent alias since t = Some r \<and> settled_row r)"

lemma withheld_not_added [simp]: "withheld_outcome w \<noteq> SAdded" "withheld_outcome w \<noteq> SPresent"
  by (cases w; simp)+

lemma judge_new:
  assumes "judge ms p = (outcome, reason, new)"
  shows "(outcome = SAdded) = (new \<noteq> None)" and "\<And>m. new = Some m \<Longrightarrow> sp_offer p = Offer m \<and> sp_alias p \<notin> fst ` set ms \<and> sp_plugin p \<notin> snd ` set ms"
  using assms by (auto simp: judge_def Let_def find_None_iff split: option.splits seed_offer.splits if_splits)

text \<open>What one entry does: nothing, or one row under its own key.\<close>

lemma seed_entry_effect:
  assumes "seed_entry now tenant agent creating prior p st = Inr st'"
  obtains (nothing) "st' = st"
    | (recorded) row st1 where "st' = record_entry now creating row st1"
      and "is_outcome tenant agent (sp_alias p) (sp_since p) row" and "so_at row = now" and "so_plugin row = sp_plugin p"
      and "\<And>b. get_row (is_outcome tenant agent (sp_alias p) (sp_since p)) prior = Some b \<Longrightarrow> \<not> settled_row b"
      and "pa_tables st1 = pa_tables st" and "pa_changed st1 = pa_changed st" and "pa_added st1 = pa_added st" and "pa_noticed st1 = pa_noticed st"
      and "so_outcome row = SAdded \<Longrightarrow> \<exists>m. sp_offer p = Offer m \<and> mounts (pa_store st1) = mounts (pa_store st) @ [m\<lparr>mt_tenant := tenant, mt_agent := agent\<rparr>]"
      and "so_outcome row \<noteq> SAdded \<Longrightarrow> mounts (pa_store st1) = mounts (pa_store st)"
proof -
  let ?before = "get_row (is_outcome tenant agent (sp_alias p) (sp_since p)) prior"
  obtain outcome reason new where jd: "judge (pa_mounts st) p = (outcome, reason, new)" using prod_cases3 by blast
  note jn = judge_new [OF jd]
  let ?row = "\<lparr>so_tenant = tenant, so_agent = agent, so_alias = sp_alias p, so_since = sp_since p, so_plugin = sp_plugin p,
                so_outcome = outcome, so_reason = reason, so_at = now\<rparr>"
  let ?same = "?before \<noteq> None \<and> so_outcome (the ?before) = outcome \<and> so_reason (the ?before) = reason"
  show ?thesis
  proof (cases "?before \<noteq> None \<and> so_outcome (the ?before) \<in> {SAdded, SPresent}")
    case True
    with assms have "st' = st" by (simp add: seed_entry_def)
    then show ?thesis by (rule nothing)
  next
    case False
    then have open_: "\<And>b. ?before = Some b \<Longrightarrow> \<not> settled_row b" by (auto simp: settled_row_def)
    show ?thesis
    proof (cases new)
      case None
      then have no: "outcome \<noteq> SAdded" using jn(1) by simp
      show ?thesis
      proof (cases ?same)
        case True
        from assms [unfolded seed_entry_def Let_def if_not_P [OF False] jd prod.case None option.case sum.case if_P [OF True]]
        have "st' = st" by simp
        then show ?thesis by (rule nothing)
      next
        case change: False
        from assms [unfolded seed_entry_def Let_def if_not_P [OF False] jd prod.case None option.case sum.case if_not_P [OF change]]
        have "st' = record_entry now creating ?row st" by simp
        then show ?thesis by (rule recorded) (use open_ no in \<open>simp_all add: is_outcome_def\<close>)
      qed
    next
      case (Some m)
      then have yes: "outcome = SAdded" using jn(1) by simp
      with False have change: "\<not> ?same" by auto
      from assms Some have room: "\<not> has_mount tenant agent (mt_alias m) (pa_store st)"
        unfolding seed_entry_def Let_def if_not_P [OF False] jd prod.case by (auto split: if_splits)
      from assms [unfolded seed_entry_def Let_def if_not_P [OF False] jd prod.case Some option.case if_not_P [OF room] sum.case if_not_P [OF change]]
      have "st' = record_entry now creating ?row (st\<lparr>pa_mounts := pa_mounts st @ [(mt_alias m, mt_plugin m)],
          pa_store := (pa_store st)\<lparr>mounts := mounts (pa_store st) @ [m\<lparr>mt_tenant := tenant, mt_agent := agent\<rparr>]\<rparr>\<rparr>)" by simp
      then show ?thesis by (rule recorded) (use open_ yes jn(2) [OF Some] in \<open>simp_all add: is_outcome_def\<close>)
    qed
  qed
qed

lemma outcome_of_add:
  assumes "is_outcome tenant agent alias since row"
  shows "\<exists>r. outcome_of tenant agent alias since (add_outcome row t) = Some r \<and> so_outcome r = so_outcome row \<and> is_outcome tenant agent alias since r"
proof -
  have "is_outcome (so_tenant row) (so_agent row) (so_alias row) (so_since row) = is_outcome tenant agent alias since"
    using assms by (simp add: is_outcome_def)
  then show ?thesis unfolding outcome_of_def add_outcome_def seed_tables.simps
    using assms by (simp, subst get_row_upsert_same) (auto simp: is_outcome_def split: option.split dest: get_row_SomeD)
qed

lemma outcome_of_add_other:
  assumes "\<not> is_outcome tenant agent alias since row"
  shows "outcome_of tenant agent alias since (add_outcome row t) = outcome_of tenant agent alias since t"
  unfolding outcome_of_def add_outcome_def using assms by (simp, intro get_row_upsert_other) (auto simp: is_outcome_def)

lemma add_notice_outcome [simp]: "outcome_of tenant agent alias since (add_notice now row t) = outcome_of tenant agent alias since t"
  by (simp add: outcome_of_def add_notice_def)

lemma record_entry_tables:
  "outcome_of tenant agent alias since (pa_tables (record_entry now creating row st)) =
     outcome_of tenant agent alias since (add_outcome row (pa_tables st))"
  "seed_notices (pa_tables (record_entry now creating row st)) =
     (if so_outcome row = SAdded \<and> \<not> creating then seed_notices (add_notice now row (pa_tables st)) else seed_notices (pa_tables st))"
  "pa_changed (record_entry now creating row st) = pa_changed st @ [row]"
  "pa_added (record_entry now creating row st) = pa_added st @ (if so_outcome row = SAdded then [row] else [])"
  "pa_noticed (record_entry now creating row st) = pa_noticed st @ (if so_outcome row = SAdded \<and> \<not> creating then [row] else [])"
  "mounts (pa_store (record_entry now creating row st)) = mounts (pa_store st)"
  by (simp add: record_entry_def Let_def) (simp_all add: record_entry_def Let_def add_notice_def add_outcome_def)

definition notices_of :: "string \<Rightarrow> string \<Rightarrow> string \<Rightarrow> int \<Rightarrow> seed_tables \<Rightarrow> seed_notice_row list" where
  "notices_of tenant agent alias since t = filter (is_notice tenant agent alias since) (seed_notices t)"

text \<open>A pass leaves alone an entry that is not in its plan, or that is settled.\<close>

lemma seed_entry_spares:
  assumes "seed_entry now tenant agent creating prior p st = Inr st'"
    and "(sp_alias p, sp_since p) \<noteq> (alias, since) \<or> (\<exists>b. get_row (is_outcome tenant agent alias since) prior = Some b \<and> settled_row b)"
  shows "outcome_of tenant agent alias since (pa_tables st') = outcome_of tenant agent alias since (pa_tables st)
    \<and> notices_of tenant agent alias since (pa_tables st') = notices_of tenant agent alias since (pa_tables st)
    \<and> filter (is_outcome tenant agent alias since) (pa_changed st') = filter (is_outcome tenant agent alias since) (pa_changed st)
    \<and> filter (is_outcome tenant agent alias since) (pa_added st') = filter (is_outcome tenant agent alias since) (pa_added st)"
  using assms(1)
proof (cases rule: seed_entry_effect)
  case (recorded row st1)
  from assms(2) recorded(5) have k: "(sp_alias p, sp_since p) \<noteq> (alias, since)" by auto
  with recorded(2) have o: "\<not> is_outcome tenant agent alias since row" by (auto simp: is_outcome_def)
  have n: "filter (is_notice tenant agent alias since) (seed_notices (add_notice now row t)) = filter (is_notice tenant agent alias since) (seed_notices t)" for t
    unfolding add_notice_def using o by (simp, intro filter_upsert_other) (auto simp: is_notice_def is_outcome_def)
  show ?thesis unfolding recorded(1) record_entry_tables notices_of_def
    using o n by (simp add: outcome_of_add_other recorded(6-8))
qed simp

lemma seed_entries_spare:
  assumes "seed_entries now tenant agent creating prior ps st = Inr st'"
    and "(alias, since) \<notin> (\<lambda>p. (sp_alias p, sp_since p)) ` set ps \<or> (\<exists>b. get_row (is_outcome tenant agent alias since) prior = Some b \<and> settled_row b)"
  shows "outcome_of tenant agent alias since (pa_tables st') = outcome_of tenant agent alias since (pa_tables st)
    \<and> notices_of tenant agent alias since (pa_tables st') = notices_of tenant agent alias since (pa_tables st)
    \<and> filter (is_outcome tenant agent alias since) (pa_changed st') = filter (is_outcome tenant agent alias since) (pa_changed st)
    \<and> filter (is_outcome tenant agent alias since) (pa_added st') = filter (is_outcome tenant agent alias since) (pa_added st)"
  using assms
proof (induction ps arbitrary: st)
  case (Cons p ps)
  then obtain st1 where 1: "seed_entry now tenant agent creating prior p st = Inr st1"
    and 2: "seed_entries now tenant agent creating prior ps st1 = Inr st'" by (auto split: sum.splits)
  from Cons.prems(2) have "(sp_alias p, sp_since p) \<noteq> (alias, since) \<or> (\<exists>b. get_row (is_outcome tenant agent alias since) prior = Some b \<and> settled_row b)"
    by auto
  note seed_entry_spares [OF 1 this]
  moreover from Cons.prems(2) have "outcome_of tenant agent alias since (pa_tables st') = outcome_of tenant agent alias since (pa_tables st1)
    \<and> notices_of tenant agent alias since (pa_tables st') = notices_of tenant agent alias since (pa_tables st1)
    \<and> filter (is_outcome tenant agent alias since) (pa_changed st') = filter (is_outcome tenant agent alias since) (pa_changed st1)
    \<and> filter (is_outcome tenant agent alias since) (pa_added st') = filter (is_outcome tenant agent alias since) (pa_added st1)"
    by (intro Cons.IH [OF 2]) auto
  ultimately show ?case by simp
qed simp

definition plan_key :: "seed_plan \<Rightarrow> string \<times> int" where
  "plan_key p = (sp_alias p, sp_since p)"

lemma get_row_agent_filter:
  "get_row (is_outcome tenant agent alias since) (filter (\<lambda>r. so_tenant r = tenant \<and> so_agent r = agent) rows)
    = get_row (is_outcome tenant agent alias since) rows"
  by (induction rows) (auto simp: is_outcome_def)

lemma seed_entry_own:
  assumes "seed_entry now tenant agent creating prior p st = Inr st'" and "plan_key p = (alias, since)"
  shows "\<exists>new. filter (is_outcome tenant agent alias since) (pa_added st') = filter (is_outcome tenant agent alias since) (pa_added st) @ new
    \<and> length new \<le> 1 \<and> (new \<noteq> [] \<longrightarrow> settled tenant agent alias since (pa_tables st'))"
  using assms(1)
proof (cases rule: seed_entry_effect)
  case nothing
  then show ?thesis by (intro exI [of _ "[]"]) simp
next
  case (recorded row st1)
  have o: "is_outcome tenant agent alias since row" using recorded(2) assms(2) by (simp add: plan_key_def)
  let ?new = "if so_outcome row = SAdded then [row] else []"
  have "settled tenant agent alias since (pa_tables st')" if "so_outcome row = SAdded"
    using outcome_of_add [OF o, of "pa_tables st1"] that unfolding settled_def settled_row_def recorded(1) record_entry_tables by auto
  with o show ?thesis unfolding recorded(1) record_entry_tables by (intro exI [of _ ?new]) (simp add: recorded(8))
qed

lemma seed_entries_once:
  assumes "seed_entries now tenant agent creating prior ps st = Inr st'" and "distinct (map plan_key ps)"
  shows "\<exists>new. filter (is_outcome tenant agent alias since) (pa_added st') = filter (is_outcome tenant agent alias since) (pa_added st) @ new
    \<and> length new \<le> 1 \<and> (new \<noteq> [] \<longrightarrow> settled tenant agent alias since (pa_tables st'))"
  using assms
proof (induction ps arbitrary: st)
  case (Cons p ps)
  then obtain st1 where 1: "seed_entry now tenant agent creating prior p st = Inr st1"
    and 2: "seed_entries now tenant agent creating prior ps st1 = Inr st'" by (auto split: sum.splits)
  show ?case
  proof (cases "plan_key p = (alias, since)")
    case True
    with Cons.prems(2) have "(alias, since) \<notin> (\<lambda>p. (sp_alias p, sp_since p)) ` set ps" by (auto simp: plan_key_def)
    then have spare: "outcome_of tenant agent alias since (pa_tables st') = outcome_of tenant agent alias since (pa_tables st1)"
      "filter (is_outcome tenant agent alias since) (pa_added st') = filter (is_outcome tenant agent alias since) (pa_added st1)"
      using seed_entries_spare [OF 2] by blast+
    from seed_entry_own [OF 1 True] spare show ?thesis by (auto simp: settled_def)
  next
    case False
    then have "filter (is_outcome tenant agent alias since) (pa_added st1) = filter (is_outcome tenant agent alias since) (pa_added st)"
      using seed_entry_spares [OF 1] by (simp add: plan_key_def)
    with Cons.IH [OF 2] Cons.prems(2) show ?thesis by simp
  qed
qed (intro exI [of _ "[]"], simp)

lemma pass_cases:
  assumes "applySeedPass now tenant agent pass t s = Inr (res, t', s')"
  obtains (skipped) why where "res = NotRun why" and "t' = t" and "s' = s"
    | (ran) st where "seed_entries now tenant agent (is_creating tenant agent t s)
          (filter (\<lambda>r. so_tenant r = tenant \<and> so_agent r = agent) (seed_outcomes t)) (ps_plan pass) (start_pass tenant agent t s) = Inr st"
      and "res = Ran (pa_changed st) (pa_added st) (pa_noticed st)" and "s' = pa_store st"
      and "seed_outcomes t' = seed_outcomes (pa_tables st)" and "seed_notices t' = seed_notices (pa_tables st)"
      and "\<exists>r. get_row (is_seed_state tenant agent) (seed_states t') = Some r \<and> sr_key r = Some (ps_key pass)"
proof -
  let ?new = "\<lparr>sr_tenant = tenant, sr_agent = agent, sr_key = Some (ps_key pass), sr_revision = Some (ps_revision pass), sr_chosen = False, sr_updated = now\<rparr>"
  let ?f = "\<lambda>r. r\<lparr>sr_key := Some (ps_key pass), sr_revision := Some (ps_revision pass), sr_updated := now\<rparr>"
  have up: "get_row (is_seed_state tenant agent) (upsert (is_seed_state tenant agent) ?new ?f rows)
      = Some (case get_row (is_seed_state tenant agent) rows of None \<Rightarrow> ?new | Some r \<Rightarrow> ?f r)" for rows
    by (intro get_row_upsert_same) (simp_all add: is_seed_state_def)
  from assms show ?thesis
    by (auto simp: applySeedPass_def Let_def up split: if_splits sum.splits option.splits intro: skipped ran)
qed

fun added_rows :: "seed_result \<Rightarrow> seed_outcome_row list" where
  "added_rows (NotRun _) = []"
| "added_rows (Ran _ added _) = added"

text \<open>Everything the passes on an agent add, one after another; before each the rest of the system does what it likes to the store, and a pass that fails changes nothing.\<close>

fun seed_runs :: "string \<Rightarrow> string \<Rightarrow> (int \<times> seed_pass \<times> (store \<Rightarrow> store)) list \<Rightarrow> seed_tables \<Rightarrow> store \<Rightarrow> seed_outcome_row list" where
  "seed_runs tenant agent [] t s = []"
| "seed_runs tenant agent ((now, pass, env) # runs) t s =
     (case applySeedPass now tenant agent pass t (env s) of
        Inl e \<Rightarrow> seed_runs tenant agent runs t (env s)
      | Inr (res, t', s') \<Rightarrow> added_rows res @ seed_runs tenant agent runs t' s')"

lemma pass_keeps_settled:
  assumes "applySeedPass now tenant agent pass t s = Inr (res, t', s')" and "settled tenant agent alias since t"
  shows "settled tenant agent alias since t' \<and> filter (is_outcome tenant agent alias since) (added_rows res) = []"
  using assms(1)
proof (cases rule: pass_cases)
  case skipped
  with assms(2) show ?thesis by simp
next
  case (ran st)
  have "\<exists>b. get_row (is_outcome tenant agent alias since) (filter (\<lambda>r. so_tenant r = tenant \<and> so_agent r = agent) (seed_outcomes t)) = Some b \<and> settled_row b"
    using assms(2) by (simp add: settled_def outcome_of_def get_row_agent_filter)
  with seed_entries_spare [OF ran(1)]
  have "outcome_of tenant agent alias since (pa_tables st) = outcome_of tenant agent alias since t"
    and "filter (is_outcome tenant agent alias since) (pa_added st) = []" by (simp_all add: start_pass_def)
  with assms(2) ran show ?thesis by (simp add: settled_def outcome_of_def)
qed

lemma settled_never_added:
  "settled tenant agent alias since t \<Longrightarrow> filter (is_outcome tenant agent alias since) (seed_runs tenant agent runs t s) = []"
proof (induction runs arbitrary: t s)
  case (Cons r runs)
  obtain now pass env where r: "r = (now, pass, env)" by (cases r)
  show ?case
  proof (cases "applySeedPass now tenant agent pass t (env s)")
    case (Inr x)
    obtain res t' s' where x: "x = (res, t', s')" by (cases x)
    from pass_keeps_settled [OF Inr [unfolded x] Cons.prems] Cons.IH show ?thesis by (simp add: r Inr x)
  qed (use Cons r in simp)
qed simp

text \<open>
  An entry is added at most once. Over any sequence of passes, under whatever keys and with whatever plans (each naming an entry
  once), and whatever is done to the agent's mounts between them (renames and removals of the seeded mount included), one catalogue entry is
  mounted on the agent at most once.
\<close>

theorem an_entry_is_added_at_most_once:
  assumes "\<And>now pass env. (now, pass, env) \<in> set runs \<Longrightarrow> distinct (map plan_key (ps_plan pass))"
  shows "length (filter (is_outcome tenant agent alias since) (seed_runs tenant agent runs t s)) \<le> 1"
  using assms
proof (induction runs arbitrary: t s)
  case (Cons r runs)
  obtain now pass env where r: "r = (now, pass, env)" by (cases r)
  have later: "length (filter (is_outcome tenant agent alias since) (seed_runs tenant agent runs t' s')) \<le> 1" for t' s'
    using Cons.prems by (intro Cons.IH) auto
  show ?case
  proof (cases "applySeedPass now tenant agent pass t (env s)")
    case (Inr x)
    obtain res t' s' where x: "x = (res, t', s')" by (cases x)
    have d: "distinct (map plan_key (ps_plan pass))" using Cons.prems [of now pass env] r by simp
    from Inr [unfolded x] show ?thesis
    proof (cases rule: pass_cases)
      case (ran st)
      from seed_entries_once [OF ran(1) d, of "alias" since] obtain new where
        n: "filter (is_outcome tenant agent alias since) (pa_added st) = new" "length new \<le> 1"
          "new \<noteq> [] \<longrightarrow> settled tenant agent alias since (pa_tables st)" by (auto simp: start_pass_def)
      show ?thesis
      proof (cases "new = []")
        case True
        with n later [of t' s'] show ?thesis by (simp add: r Inr x ran(2))
      next
        case False
        with n have "settled tenant agent alias since t'" by (simp add: settled_def outcome_of_def ran(4))
        with n settled_never_added show ?thesis by (simp add: r Inr x ran(2))
      qed
    qed (use later in \<open>simp add: r Inr x\<close>)
  qed (use later in \<open>simp add: r\<close>)
qed simp

definition web_mount :: mount_record where
  "web_mount = mount_example\<lparr>mt_alias := ''web'', mt_plugin := ''web''\<rparr>"

definition web_pass :: "string \<Rightarrow> seed_pass" where
  "web_pass key = \<lparr>ps_key = key, ps_revision = 1, ps_plan = [\<lparr>sp_alias = ''web'', sp_plugin = ''web'', sp_since = 1, sp_offer = Offer web_mount\<rparr>]\<rparr>"

text \<open>A second pass under another key, after the mount was removed, adds nothing.\<close>

theorem an_entry_is_added_at_most_once_witness:
  "length (filter (is_outcome ''acme'' ''ada'' ''web'' 1)
     (seed_runs ''acme'' ''ada'' [(1, web_pass ''k1'', id), (2, web_pass ''k2'', \<lambda>s. s\<lparr>mounts := []\<rparr>)] no_seeds init_store)) \<le> 1"
  by (rule an_entry_is_added_at_most_once) (auto simp: web_pass_def)

section \<open>What is added is announced\<close>

definition seed_inv :: "seed_tables \<Rightarrow> bool" where
  "seed_inv t \<longleftrightarrow> list_all (\<lambda>n. settled (no_tenant n) (no_agent n) (no_alias n) (no_since n) t) (seed_notices t)"

lemma settled_after_entry:
  assumes "seed_entry now tenant agent creating prior p st = Inr st'" and "settled tn ag al since (pa_tables st)"
    and "get_row (is_outcome tenant agent (sp_alias p) (sp_since p)) prior = outcome_of tenant agent (sp_alias p) (sp_since p) (pa_tables st)"
  shows "settled tn ag al since (pa_tables st')"
proof (cases "tn = tenant \<and> ag = agent")
  case True
  have "(sp_alias p, sp_since p) \<noteq> (al, since) \<or> (\<exists>b. get_row (is_outcome tenant agent al since) prior = Some b \<and> settled_row b)"
    using assms(2,3) True by (auto simp: settled_def)
  from seed_entry_spares [OF assms(1) this] assms(2) True show ?thesis by (simp add: settled_def)
next
  case False
  from assms(1) show ?thesis
  proof (cases rule: seed_entry_effect)
    case nothing
    with assms(2) show ?thesis by simp
  next
    case (recorded row st1)
    with False have "\<not> is_outcome tn ag al since row" by (auto simp: is_outcome_def)
    with assms(2) recorded(6) show ?thesis unfolding recorded(1) settled_def record_entry_tables by (simp add: outcome_of_add_other)
  qed
qed

text \<open>What holds between two entries of a pass; \<open>keys\<close> are the entries still to come.\<close>

definition pass_inv :: "bool \<Rightarrow> string \<Rightarrow> string \<Rightarrow> store \<Rightarrow> seed_outcome_row list \<Rightarrow> (string \<times> int) set \<Rightarrow> pass_state \<Rightarrow> bool" where
  "pass_inv creating tenant agent s prior keys st \<longleftrightarrow>
     pa_noticed st = (if creating then [] else pa_added st)
     \<and> (\<exists>new. mounts (pa_store st) = mounts s @ new \<and> length new = length (pa_added st)
           \<and> list_all (\<lambda>m. mt_tenant m = tenant \<and> mt_agent m = agent) new)
     \<and> seed_inv (pa_tables st)
     \<and> list_all (\<lambda>row. has_row (\<lambda>n. is_notice tenant agent (so_alias row) (so_since row) n \<and> is_pending n) (seed_notices (pa_tables st))) (pa_noticed st)
     \<and> (\<forall>alias since. (alias, since) \<in> keys \<longrightarrow>
           get_row (is_outcome tenant agent alias since) prior = outcome_of tenant agent alias since (pa_tables st))"

lemma has_row_upsert:
  assumes "\<And>r. q r \<Longrightarrow> q (f r)" and "has_row q rows"
  shows "has_row q (upsert p new f rows)"
proof -
  have "has_row q (update_where p f rows)" using assms(2) unfolding has_row_def update_where_def
    by (induction rows) (auto simp: assms(1))
  with assms(2) show ?thesis by (auto simp: upsert_def has_row_def)
qed

lemma add_notice_rows:
  assumes "is_outcome tenant agent alias since row"
  shows "n \<in> set (seed_notices (add_notice now row t)) \<Longrightarrow>
      (\<exists>m\<in>set (seed_notices t). is_notice (no_tenant m) (no_agent m) (no_alias m) (no_since m) n) \<or> is_notice tenant agent alias since n"
    and "has_row (\<lambda>n. is_notice tenant agent alias' since' n \<and> is_pending n) (seed_notices t)
      \<Longrightarrow> has_row (\<lambda>n. is_notice tenant agent alias' since' n \<and> is_pending n) (seed_notices (add_notice now row t))"
    and "\<not> has_row (is_notice tenant agent alias since) (seed_notices t)
      \<Longrightarrow> has_row (\<lambda>n. is_notice tenant agent alias since n \<and> is_pending n) (seed_notices (add_notice now row t))"
proof -
  have k: "so_tenant row = tenant" "so_agent row = agent" "so_alias row = alias" "so_since row = since"
    using assms by (simp_all add: is_outcome_def)
  show "n \<in> set (seed_notices (add_notice now row t)) \<Longrightarrow>
      (\<exists>m\<in>set (seed_notices t). is_notice (no_tenant m) (no_agent m) (no_alias m) (no_since m) n) \<or> is_notice tenant agent alias since n"
    by (auto simp: add_notice_def k upsert_def set_update_where is_notice_def split: if_splits)
  show "has_row (\<lambda>n. is_notice tenant agent alias' since' n \<and> is_pending n) (seed_notices t)
      \<Longrightarrow> has_row (\<lambda>n. is_notice tenant agent alias' since' n \<and> is_pending n) (seed_notices (add_notice now row t))"
    unfolding add_notice_def k by (simp, intro has_row_upsert) (simp_all add: is_notice_def is_pending_def)
  show "\<not> has_row (is_notice tenant agent alias since) (seed_notices t)
      \<Longrightarrow> has_row (\<lambda>n. is_notice tenant agent alias since n \<and> is_pending n) (seed_notices (add_notice now row t))"
    by (auto simp: add_notice_def k has_row_iff upsert_def is_notice_def is_pending_def)
qed

lemma seed_entry_inv:
  assumes "pass_inv creating tenant agent s prior keys st" and "seed_entry now tenant agent creating prior p st = Inr st'"
    and "plan_key p \<in> keys"
  shows "pass_inv creating tenant agent s prior (keys - {plan_key p}) st'"
  using assms(2)
proof (cases rule: seed_entry_effect)
  case nothing
  with assms(1) show ?thesis by (auto simp: pass_inv_def)
next
  case (recorded row st1)
  let ?al = "sp_alias p" and ?si = "sp_since p" and ?t = "pa_tables st"
  let ?notice = "so_outcome row = SAdded \<and> \<not> creating"
  have key: "get_row (is_outcome tenant agent ?al ?si) prior = outcome_of tenant agent ?al ?si ?t"
    using assms(1,3) by (simp add: pass_inv_def plan_key_def)
  have unsettled: "\<not> settled tenant agent ?al ?si ?t"
    using recorded(5) key by (auto simp: settled_def)
  have inv: "seed_inv ?t" using assms(1) by (simp add: pass_inv_def)
  have fresh: "\<not> has_row (is_notice tenant agent ?al ?si) (seed_notices ?t)"
    using inv unsettled by (auto simp: seed_inv_def list_all_iff has_row_iff is_notice_def)
  have notices: "seed_notices (pa_tables st') = (if ?notice then seed_notices (add_notice now row ?t) else seed_notices ?t)"
    unfolding recorded(1) record_entry_tables recorded(6) ..
  have own: "settled tenant agent ?al ?si (pa_tables st')" if "so_outcome row = SAdded"
    using outcome_of_add [OF recorded(2), of "pa_tables st1"] that
    unfolding settled_def settled_row_def recorded(1) record_entry_tables by auto
  have inv': "seed_inv (pa_tables st')"
    unfolding seed_inv_def list_all_iff
  proof
    fix n assume n: "n \<in> set (seed_notices (pa_tables st'))"
    have old: "settled (no_tenant n) (no_agent n) (no_alias n) (no_since n) (pa_tables st')"
      if "m \<in> set (seed_notices ?t)" "is_notice (no_tenant m) (no_agent m) (no_alias m) (no_since m) n" for m
    proof -
      have "settled (no_tenant m) (no_agent m) (no_alias m) (no_since m) ?t" using inv that(1) by (simp add: seed_inv_def list_all_iff)
      from settled_after_entry [OF assms(2) this key] that(2) show ?thesis by (simp add: is_notice_def)
    qed
    show "settled (no_tenant n) (no_agent n) (no_alias n) (no_since n) (pa_tables st')"
    proof (cases ?notice)
      case True
      with n notices have "n \<in> set (seed_notices (add_notice now row ?t))" by simp
      from add_notice_rows(1) [OF recorded(2) this] show ?thesis
      proof
        assume "is_notice tenant agent ?al ?si n"
        with own True show ?thesis by (simp add: is_notice_def)
      qed (use old in blast)
    next
      case False
      have "n \<in> set (seed_notices ?t)" using n notices by (simp only: if_not_P [OF False])
      from old [OF this] show ?thesis by (simp add: is_notice_def)
    qed
  qed
  have told: "has_row (\<lambda>n. is_notice tenant agent (so_alias r) (so_since r) n \<and> is_pending n) (seed_notices (pa_tables st'))"
    if "r \<in> set (pa_noticed st')" for r
  proof (cases "r \<in> set (pa_noticed st)")
    case True
    with assms(1) have h: "has_row (\<lambda>n. is_notice tenant agent (so_alias r) (so_since r) n \<and> is_pending n) (seed_notices ?t)"
      by (simp add: pass_inv_def list_all_iff)
    show ?thesis
    proof (cases ?notice)
      case True
      show ?thesis unfolding notices if_P [OF True] by (rule add_notice_rows(2) [OF recorded(2) h])
    next
      case False
      show ?thesis unfolding notices if_not_P [OF False] by (rule h)
    qed
  next
    case False
    with that have r: "r = row" "?notice" unfolding recorded(1) record_entry_tables recorded(9) by (auto split: if_splits)
    have "so_alias row = ?al" "so_since row = ?si" using recorded(2) by (simp_all add: is_outcome_def)
    with add_notice_rows(3) [OF recorded(2) fresh] r(2) show ?thesis unfolding notices r(1) by simp
  qed
  obtain new where new: "mounts (pa_store st) = mounts s @ new" "length new = length (pa_added st)"
      "list_all (\<lambda>m. mt_tenant m = tenant \<and> mt_agent m = agent) new" using assms(1) by (auto simp: pass_inv_def)
  have mounted: "\<exists>new. mounts (pa_store st') = mounts s @ new \<and> length new = length (pa_added st')
      \<and> list_all (\<lambda>m. mt_tenant m = tenant \<and> mt_agent m = agent) new"
  proof (cases "so_outcome row = SAdded")
    case True
    from recorded(10) [OF True] obtain m where
      "mounts (pa_store st1) = mounts (pa_store st) @ [m\<lparr>mt_tenant := tenant, mt_agent := agent\<rparr>]" by blast
    with new True show ?thesis unfolding recorded(1) record_entry_tables recorded(8)
      by (intro exI [of _ "new @ [m\<lparr>mt_tenant := tenant, mt_agent := agent\<rparr>]"]) simp
  next
    case False
    with new recorded(11) show ?thesis unfolding recorded(1) record_entry_tables recorded(8) by (intro exI [of _ new]) simp
  qed
  have lists: "pa_noticed st' = (if creating then [] else pa_added st')"
    using assms(1) unfolding recorded(1) record_entry_tables recorded(8,9) by (simp add: pass_inv_def)
  have rest: "get_row (is_outcome tenant agent al si) prior = outcome_of tenant agent al si (pa_tables st')"
    if "(al, si) \<in> keys - {plan_key p}" for al si
    using assms(1) that seed_entry_spares [OF assms(2), of al si] by (auto simp: pass_inv_def plan_key_def)
  from lists mounted inv' told rest show ?thesis unfolding pass_inv_def list_all_iff by blast
qed

lemma seed_entries_inv:
  assumes "pass_inv creating tenant agent s prior keys st" and "seed_entries now tenant agent creating prior ps st = Inr st'"
    and "plan_key ` set ps \<subseteq> keys" and "distinct (map plan_key ps)"
  shows "pass_inv creating tenant agent s prior (keys - plan_key ` set ps) st'"
  using assms
proof (induction ps arbitrary: st keys)
  case (Cons p ps)
  then obtain st1 where 1: "seed_entry now tenant agent creating prior p st = Inr st1"
    and 2: "seed_entries now tenant agent creating prior ps st1 = Inr st'" by (auto split: sum.splits)
  have "pass_inv creating tenant agent s prior (keys - {plan_key p}) st1"
    using seed_entry_inv [OF Cons.prems(1) 1] Cons.prems(3) by simp
  from Cons.IH [OF this 2] Cons.prems(3,4) show ?case by (auto simp: Diff_insert2 [symmetric])
qed simp

text \<open>
  A mount a pass gives is one the agent will be told about. When a pass has run, the agent's mounts are those it had and exactly one for each
  entry the pass says it added; and unless the pass gave the agent its first tools, each of them has a notice that is still
  to be told (never one that was told or given up before); every notice is of an entry the agent has had.
\<close>

theorem what_a_pass_adds_is_announced:
  assumes "seed_inv t" and "distinct (map plan_key (ps_plan pass))"
    and "applySeedPass now tenant agent pass t s = Inr (Ran changed added noticed, t', s')"
  shows "seed_inv t' \<and> noticed = (if is_creating tenant agent t s then [] else added)
    \<and> (\<exists>new. mounts s' = mounts s @ new \<and> length new = length added \<and> list_all (\<lambda>m. mt_tenant m = tenant \<and> mt_agent m = agent) new)
    \<and> list_all (\<lambda>row. has_row (\<lambda>n. is_notice tenant agent (so_alias row) (so_since row) n \<and> is_pending n) (seed_notices t')) noticed"
  using assms(3)
proof (cases rule: pass_cases)
  case (ran st)
  let ?prior = "filter (\<lambda>r. so_tenant r = tenant \<and> so_agent r = agent) (seed_outcomes t)"
  have "pass_inv (is_creating tenant agent t s) tenant agent s ?prior UNIV (start_pass tenant agent t s)"
    using assms(1) by (simp add: pass_inv_def start_pass_def get_row_agent_filter outcome_of_def)
  from seed_entries_inv [OF this ran(1) subset_UNIV assms(2)]
  have i: "pass_inv (is_creating tenant agent t s) tenant agent s ?prior (UNIV - plan_key ` set (ps_plan pass)) st" .
  moreover have "seed_inv t' = seed_inv (pa_tables st)"
    by (simp add: seed_inv_def settled_def outcome_of_def ran(4,5))
  ultimately show ?thesis using ran(2,3,5) by (auto simp: pass_inv_def)
qed simp

lemma web_pass_runs:
  "\<exists>changed added noticed t' s'. applySeedPass 1 ''acme'' ''ada'' (web_pass ''k1'') no_seeds (init_store\<lparr>mounts := [mount_example]\<rparr>)
     = Inr (Ran changed added noticed, t', s') \<and> length added = 1"
  by (simp add: applySeedPass_def Let_def no_seeds_def web_pass_def seed_entry_def judge_def start_pass_def agent_mounts_def init_store_def
      mount_example_def web_mount_def has_mount_def has_row_def is_mount_def record_entry_def is_creating_def)

theorem what_a_pass_adds_is_announced_witness:
  "\<exists>changed added t' s'. applySeedPass 1 ''acme'' ''ada'' (web_pass ''k1'') no_seeds (init_store\<lparr>mounts := [mount_example]\<rparr>)
     = Inr (Ran changed added added, t', s') \<and> length added = 1 \<and> length (mounts s') = 2 \<and> seed_inv t'"
proof -
  have i: "seed_inv no_seeds" "distinct (map plan_key (ps_plan (web_pass ''k1'')))" by (simp_all add: seed_inv_def no_seeds_def web_pass_def)
  obtain changed added noticed t' s' where r: "applySeedPass 1 ''acme'' ''ada'' (web_pass ''k1'') no_seeds (init_store\<lparr>mounts := [mount_example]\<rparr>)
     = Inr (Ran changed added noticed, t', s')" "length added = 1" using web_pass_runs by blast
  have "\<not> is_creating ''acme'' ''ada'' no_seeds (init_store\<lparr>mounts := [mount_example]\<rparr>)"
    by (simp add: is_creating_def agent_mounts_def mount_example_def)
  with what_a_pass_adds_is_announced [OF i r(1)] r show ?thesis by auto
qed

text \<open>A second pass under the same key does nothing, whatever its plan and whatever happened to the mounts.\<close>

lemma same_key_does_nothing:
  assumes "applySeedPass now tenant agent pass t s = Inr (Ran changed added noticed, t', s')" and "ps_key pass' = ps_key pass"
  shows "\<exists>why. applySeedPass now' tenant agent pass' t' s'' = Inr (NotRun why, t', s'')"
  using assms(1)
proof (cases rule: pass_cases)
  case (ran st)
  with assms(2) show ?thesis by (auto simp: applySeedPass_def Let_def)
qed simp

section \<open>A notice is taken by one turn\<close>

definition take_notice :: "string \<Rightarrow> string \<Rightarrow> string \<Rightarrow> int \<Rightarrow> int \<times> (string \<times> int) set \<Rightarrow> seed_tables \<Rightarrow> bool \<times> seed_tables" where
  "take_notice tenant agent alias since c t =
     (case takeSeedNotices (fst c) tenant agent (snd c) t of (ns, t') \<Rightarrow> (list_ex (\<lambda>n. no_alias n = alias \<and> no_since n = since) ns, t'))"

definition notice_gone :: "string \<Rightarrow> string \<Rightarrow> string \<Rightarrow> int \<Rightarrow> seed_tables \<Rightarrow> bool" where
  "notice_gone tenant agent alias since t \<longleftrightarrow> \<not> has_row (\<lambda>n. is_notice tenant agent alias since n \<and> is_pending n) (seed_notices t)"

lemma stamped_rows:
  assumes "n \<in> set (fold (\<lambda>x. update_where (\<lambda>r. is_notice tenant agent (no_alias x) (no_since x) r \<and> is_pending r) (\<lambda>r. r\<lparr>no_delivered := Some now\<rparr>)) taken rows)"
    and "is_pending n"
  shows "n \<in> set rows \<and> \<not> (\<exists>x\<in>set taken. is_notice tenant agent (no_alias x) (no_since x) n)"
  using assms(1)
proof (induction taken arbitrary: rows)
  case (Cons x taken)
  from Cons.IH Cons.prems have "n \<in> set (update_where (\<lambda>r. is_notice tenant agent (no_alias x) (no_since x) r \<and> is_pending r) (\<lambda>r. r\<lparr>no_delivered := Some now\<rparr>) rows)"
    and "\<not> (\<exists>x\<in>set taken. is_notice tenant agent (no_alias x) (no_since x) n)" by auto
  with assms(2) show ?case by (auto simp: set_update_where is_pending_def split: if_splits)
qed simp

lemma take_notices:
  assumes "takeSeedNotices now tenant agent which t = (ns, t')"
  shows "list_ex (\<lambda>n. no_alias n = alias \<and> no_since n = since) ns \<longleftrightarrow> (alias, since) \<in> which \<and> \<not> notice_gone tenant agent alias since t"
    and "n \<in> set (seed_notices t') \<Longrightarrow> is_pending n \<Longrightarrow> n \<in> set (seed_notices t)
      \<and> ((no_alias n, no_since n) \<in> which \<longrightarrow> no_tenant n \<noteq> tenant \<or> no_agent n \<noteq> agent)"
proof -
  let ?taken = "filter (\<lambda>n. (no_alias n, no_since n) \<in> which) (pendingSeedNotices tenant agent t)"
  have ns: "ns = map (\<lambda>n. n\<lparr>no_delivered := Some now\<rparr>) ?taken"
    and t': "seed_notices t' = fold (\<lambda>n. update_where (\<lambda>r. is_notice tenant agent (no_alias n) (no_since n) r \<and> is_pending r)
          (\<lambda>r. r\<lparr>no_delivered := Some now\<rparr>)) ?taken (seed_notices t)"
    using assms by (auto simp: takeSeedNotices_def Let_def)
  show "list_ex (\<lambda>n. no_alias n = alias \<and> no_since n = since) ns \<longleftrightarrow> (alias, since) \<in> which \<and> \<not> notice_gone tenant agent alias since t"
    unfolding ns by (auto simp: list_ex_iff notice_gone_def has_row_iff pendingSeedNotices_def is_notice_def)
  assume n: "n \<in> set (seed_notices t')" "is_pending n"
  from stamped_rows [OF n(1) [unfolded t'] n(2)] n(2)
  show "n \<in> set (seed_notices t) \<and> ((no_alias n, no_since n) \<in> which \<longrightarrow> no_tenant n \<noteq> tenant \<or> no_agent n \<noteq> agent)"
    by (auto simp: pendingSeedNotices_def is_notice_def)
qed

interpretation notice_race: one_winner "take_notice tenant agent alias since" "notice_gone tenant agent alias since"
proof
  fix c :: "int \<times> (string \<times> int) set" and t t'
  obtain ns u where r: "takeSeedNotices (fst c) tenant agent (snd c) t = (ns, u)" by fastforce
  note k = take_notices [OF r]
  show "take_notice tenant agent alias since c t = (True, t') \<Longrightarrow> notice_gone tenant agent alias since t'"
    using k by (auto simp: take_notice_def r notice_gone_def has_row_iff is_notice_def)
  show "notice_gone tenant agent alias since t \<Longrightarrow> \<not> fst (take_notice tenant agent alias since c t)"
    using k(1) by (simp add: take_notice_def r)
  show "notice_gone tenant agent alias since t \<Longrightarrow> notice_gone tenant agent alias since (snd (take_notice tenant agent alias since c t))"
    using k(2) by (auto simp: take_notice_def r notice_gone_def has_row_iff)
qed

text \<open>
  A notice is told once. However many turns take an agent's pending notices, each any set of them, in whatever order and with
  whatever else between them that does not put the notice back, one notice is carried by at most one of them.
\<close>

theorem a_notice_is_told_once:
  assumes "\<And>c e t. (c, e) \<in> set turns \<Longrightarrow> notice_gone tenant agent alias since t \<Longrightarrow> notice_gone tenant agent alias since (e t)"
  shows "count_list (claim_outcomes (take_notice tenant agent alias since) turns t) True \<le> 1"
  using assms by (rule notice_race.at_most_one_winner)

theorem a_notice_is_told_once_witness:
  "count_list (claim_outcomes (take_notice ''acme'' ''ada'' ''web'' 1)
     [((1, {(''web'', 1)}), id), ((2, {(''web'', 1)}), voidSeedNotices 2 ''acme'' ''ada'' [])] no_seeds) True \<le> 1"
  by (rule a_notice_is_told_once) (auto simp: voidSeedNotices_def)

end
