(* ===== verification/Usage.thy ===== *)
theory Usage
  imports Complex_Main Interfaces
begin

text \<open>
  Usage on its way to the tenant's hourly table: \<open>src/src/usage/outbox.ts\<close> (the rows and their outbox, time cut by the hour,
  hourly sums) and \<open>src/src/usage/active.ts\<close> (the time an object was active). Times are whole milliseconds, quantities are
  rationals, so a quantity is always finite. The lemmas show that cutting an interval at hour boundaries loses and adds nothing;
  that the union of spans is the number of milliseconds at least one of them covers, in all and within each hour; that hourly sums
  do not depend on order; and that no millisecond of activity is billed twice, however often it is counted.
\<close>

section \<open>The outbox\<close>

record usage_row =
  us_at :: int
  us_tenant :: string
  us_agent :: string
  us_resource :: string
  us_key :: string
  us_quantity :: rat
  us_unit :: string

record usage_db =
  usage_outbox :: "(nat \<times> usage_row) list"
  usage_seq :: nat
  do_activity :: "(int \<times> int \<times> string) list"
  usage_active :: "(int \<times> int) list"
  usage_held :: "(string \<times> int \<times> int) list"

definition USAGE_KEY_MAX :: nat where "USAGE_KEY_MAX = 200"

definition append_usage_row :: "usage_row \<Rightarrow> usage_db \<Rightarrow> usage_db" where
  "append_usage_row r d =
     (if us_quantity r = 0 then d
      else d\<lparr>usage_outbox := usage_outbox d @ [(Suc (usage_seq d), r\<lparr>us_key := take USAGE_KEY_MAX (us_key r)\<rparr>)],
             usage_seq := Suc (usage_seq d)\<rparr>)"

definition appendUsage :: "usage_row list \<Rightarrow> usage_db \<Rightarrow> usage_db" where
  "appendUsage rows d = fold append_usage_row rows d"

definition pendingUsage :: "nat \<Rightarrow> nat \<Rightarrow> usage_db \<Rightarrow> (nat \<times> usage_row) list" where
  "pendingUsage after limit d = take limit (order_by fst (filter (\<lambda>x. after < fst x) (usage_outbox d)))"

definition pruneUsage :: "nat \<Rightarrow> usage_db \<Rightarrow> usage_db" where
  "pruneUsage through d = d\<lparr>usage_outbox := delete_where (\<lambda>x. fst x \<le> through) (usage_outbox d)\<rparr>"

section \<open>By the hour\<close>

definition HOUR_MS :: int where "HOUR_MS = 3600000"

definition hour_of :: "int \<Rightarrow> int" where
  "hour_of t = (t div HOUR_MS) * HOUR_MS"

text \<open>The loop over the hours from \<open>h\<close>.\<close>

function hours_from :: "int \<Rightarrow> int \<Rightarrow> int \<Rightarrow> (int \<times> int) list" where
  "hours_from h a b =
     (if h < b
      then (let ms = min b (h + HOUR_MS) - max a h in (if 0 < ms then [(h, ms)] else []) @ hours_from (h + HOUR_MS) a b)
      else [])"
  by auto
termination
  by (relation "measure (\<lambda>(h, a, b). nat (b - h))") (auto simp: HOUR_MS_def)

declare hours_from.simps [simp del]

definition msByHour :: "int \<Rightarrow> int \<Rightarrow> (int \<times> int) list" where
  "msByHour a b = (if b \<le> a then [] else hours_from (hour_of a) a b)"

record hourly_row =
  hr_tenant :: string
  hr_agent :: string
  hr_hour :: int
  hr_resource :: string
  hr_key :: string
  hr_unit :: string
  hr_quantity :: rat

definition hourly_id :: "hourly_row \<Rightarrow> string \<times> string \<times> int \<times> string \<times> string \<times> string" where
  "hourly_id r = (hr_tenant r, hr_agent r, hr_hour r, hr_resource r, hr_key r, hr_unit r)"

definition hourly_of :: "usage_row \<Rightarrow> hourly_row" where
  "hourly_of r = \<lparr>hr_tenant = us_tenant r, hr_agent = us_agent r, hr_hour = hour_of (us_at r), hr_resource = us_resource r,
     hr_key = us_key r, hr_unit = us_unit r, hr_quantity = us_quantity r\<rparr>"

definition add_hourly :: "usage_row \<Rightarrow> hourly_row list \<Rightarrow> hourly_row list" where
  "add_hourly r out =
     upsert (\<lambda>h. hourly_id h = hourly_id (hourly_of r)) (hourly_of r) (\<lambda>h. h\<lparr>hr_quantity := hr_quantity h + us_quantity r\<rparr>) out"

definition toHourly :: "usage_row list \<Rightarrow> hourly_row list" where
  "toHourly rows = fold add_hourly rows []"

section \<open>Rows of a call\<close>

definition OWN_KEY_PREFIX :: string where "OWN_KEY_PREFIX = ''own:''"

definition payerKey :: "string \<Rightarrow> bool \<Rightarrow> string" where
  "payerKey key own = (if own then OWN_KEY_PREFIX @ key else key)"

definition usage_base :: "int \<times> string \<times> string \<Rightarrow> string \<Rightarrow> string \<Rightarrow> rat \<Rightarrow> string \<Rightarrow> usage_row" where
  "usage_base base resource key quantity unit =
     (case base of (t, tenant, agent) \<Rightarrow>
       \<lparr>us_at = t, us_tenant = tenant, us_agent = agent, us_resource = resource, us_key = key, us_quantity = quantity, us_unit = unit\<rparr>)"

record token_usage =
  tu_input :: "int option"
  tu_output :: "int option"
  tu_cache_read :: "int option"
  tu_cache_write :: "int option"
  tu_cache_write_1h :: "int option"
  tu_reasoning :: "int option"

definition modelTokenRows :: "int \<times> string \<times> string \<Rightarrow> string \<Rightarrow> token_usage \<Rightarrow> bool \<Rightarrow> usage_row list" where
  "modelTokenRows base model u own =
     (let kinds = [(''input'', tu_input u), (''output'', tu_output u), (''cache_read'', tu_cache_read u),
        (''cache_write'', tu_cache_write u), (''cache_write_1h'', tu_cache_write_1h u), (''reasoning'', tu_reasoning u)] in
      map (\<lambda>(kind, n). usage_base base ''model.tokens'' (payerKey ((if model = [] then ''unknown'' else model) @ '':'' @ kind) own)
             (of_int (the n)) ''tokens'')
        (filter (\<lambda>(kind, n). n \<noteq> None \<and> n \<noteq> Some 0) kinds))"

definition toolCallRows :: "int \<times> string \<times> string \<Rightarrow> string \<Rightarrow> bool \<Rightarrow> int \<Rightarrow> usage_row list" where
  "toolCallRows base tool failed ms =
     [usage_base base ''tool.call'' tool 1 ''calls'']
     @ (if failed then [usage_base base ''tool.call'' tool 1 ''failed''] else [])
     @ [usage_base base ''tool.call'' tool (of_int (max 0 ms)) ''ms'']"

definition jsRunRows :: "int \<times> string \<times> string \<Rightarrow> bool \<Rightarrow> int \<Rightarrow> int \<Rightarrow> bool \<Rightarrow> usage_row list" where
  "jsRunRows base failed ms tool_calls resumed =
     (if resumed then [] else [usage_base base ''js.run'' ''run_js'' 1 ''runs''])
     @ (if failed then [usage_base base ''js.run'' ''run_js'' 1 ''failed''] else [])
     @ [usage_base base ''js.run'' ''run_js'' (of_int (max 0 ms)) ''ms'', usage_base base ''js.run'' ''run_js'' (of_int tool_calls) ''tool_calls'']"

section \<open>Active time\<close>

text \<open>A span: when it started, how long it lasted, its kind.\<close>

type_synonym activity_span = "int \<times> int \<times> string"

definition isBusyKind :: "string \<Rightarrow> bool" where
  "isBusyKind kind \<longleftrightarrow> take 8 kind \<noteq> ''offload_''"

definition busySpans :: "activity_span list \<Rightarrow> activity_span list" where
  "busySpans spans = filter (\<lambda>(_, _, kind). isBusyKind kind) spans"

definition interval_of :: "activity_span \<Rightarrow> int \<times> int" where
  "interval_of s = (case s of (t, ms, _) \<Rightarrow> (t, t + max 0 ms))"

text \<open>\<open>out\<close> holds the merged intervals so far, the last first.\<close>

fun merge_into :: "(int \<times> int) list \<Rightarrow> (int \<times> int) list \<Rightarrow> (int \<times> int) list" where
  "merge_into out [] = rev out"
| "merge_into [] ((a, b) # iv) = merge_into [(a, b)] iv"
| "merge_into ((s, e) # out) ((a, b) # iv) =
     (if a \<le> e then merge_into ((s, max e b) # out) iv else merge_into ((a, b) # (s, e) # out) iv)"

definition merged :: "activity_span list \<Rightarrow> (int \<times> int) list" where
  "merged spans = merge_into [] (order_by fst (filter (\<lambda>(a, b). a < b) (map interval_of spans)))"

definition unionMs :: "activity_span list \<Rightarrow> int" where
  "unionMs spans = sum_list (map (\<lambda>(a, b). b - a) (merged spans))"

text \<open>The sum per hour of parts, in order of the hour.\<close>

definition hour_totals :: "(int \<times> int) list \<Rightarrow> (int \<times> int) list" where
  "hour_totals parts = map (\<lambda>h. (h, sum_list (map snd (filter (\<lambda>x. fst x = h) parts)))) (sort (remdups (map fst parts)))"

definition unionMsByHour :: "activity_span list \<Rightarrow> (int \<times> int) list" where
  "unionMsByHour spans = hour_totals (concat (map (\<lambda>(a, b). msByHour a b) (merged spans)))"

text \<open>What an hour has been counted for: the watermark's, or none.\<close>

definition counted_ms :: "(int \<times> int) list \<Rightarrow> int \<Rightarrow> int" where
  "counted_ms marks h = or_else (map_option snd (get_row (\<lambda>x. fst x = h) marks)) 0"

definition newActiveMs :: "(int \<times> int) list \<Rightarrow> (int \<times> int) list \<Rightarrow> (int \<times> int \<times> int) list" where
  "newActiveMs by_hour marks =
     map (\<lambda>(h, ms). (h, ms - counted_ms marks h, ms)) (filter (\<lambda>(h, ms). 0 < ms - counted_ms marks h) by_hour)"

definition set_active :: "int \<times> int \<times> int \<Rightarrow> (int \<times> int) list \<Rightarrow> (int \<times> int) list" where
  "set_active f marks = (case f of (h, _, ms) \<Rightarrow> upsert (\<lambda>x. fst x = h) (h, ms) (\<lambda>x. (fst x, ms)) marks)"

definition countActiveTime :: "string \<Rightarrow> string \<Rightarrow> int \<Rightarrow> usage_db \<Rightarrow> (int \<times> int) list \<times> usage_db" where
  "countActiveTime tenant agent now d =
     (let since = hour_of now - HOUR_MS;
          spans = filter (\<lambda>(t, ms, _). since \<le> t + ms) (do_activity d);
          by_hour = unionMsByHour (busySpans spans) in
      if by_hour = [] then ([], d)
      else let fresh = newActiveMs by_hour (filter (\<lambda>x. fst (hd by_hour) \<le> fst x) (usage_active d)) in
        if fresh = [] then ([], d)
        else (map (\<lambda>(h, ms, _). (h, ms)) fresh,
          (appendUsage (map (\<lambda>(h, ms, _). usage_base (h, tenant, agent) ''object.active'' [] (of_int ms) ''ms'') fresh) d)
            \<lparr>usage_active := fold set_active fresh (usage_active d)\<rparr>))"

section \<open>Time, cut and covered\<close>

text \<open>The milliseconds a list of intervals covers, and those of an hour.\<close>

definition covered :: "(int \<times> int) list \<Rightarrow> int set" where
  "covered iv = (\<Union>(a, b)\<in>set iv. {a..<b})"

definition hour_range :: "int \<Rightarrow> int set" where
  "hour_range h = {h..<h + HOUR_MS}"

definition is_hour :: "int \<Rightarrow> bool" where
  "is_hour h \<longleftrightarrow> HOUR_MS dvd h"

definition part_of :: "int \<Rightarrow> (int \<times> int) list \<Rightarrow> int" where
  "part_of h parts = sum_list (map snd (filter (\<lambda>x. fst x = h) parts))"

lemma covered_simps [simp]:
  "covered [] = {}" "covered ((a, b) # iv) = {a..<b} \<union> covered iv" "covered (xs @ ys) = covered xs \<union> covered ys"
  by (auto simp: covered_def)

lemma covered_set: "set xs = set ys \<Longrightarrow> covered xs = covered ys"
  by (simp add: covered_def)

lemma covered_nonempty: "covered iv = covered (filter (\<lambda>(a, b). a < b) iv)"
proof (induction iv)
  case (Cons x iv)
  obtain a b where "x = (a, b)" by (cases x)
  with Cons show ?case by (cases "a < b") simp_all
qed simp

lemma finite_covered [simp]: "finite (covered iv)"
  by (auto simp: covered_def)

lemma part_of_simps [simp]:
  "part_of h [] = 0" "part_of h (x # xs) = (if fst x = h then snd x else 0) + part_of h xs"
  "part_of h (xs @ ys) = part_of h xs + part_of h ys"
  by (simp_all add: part_of_def)

lemma hour_pos [simp]: "0 < HOUR_MS"
  by (simp add: HOUR_MS_def)

lemma hour_of_bounds: "hour_of t \<le> t \<and> t < hour_of t + HOUR_MS"
proof -
  have "t = hour_of t + t mod HOUR_MS" by (simp add: hour_of_def)
  moreover have "0 \<le> t mod HOUR_MS" and "t mod HOUR_MS < HOUR_MS" by (simp_all add: HOUR_MS_def)
  ultimately show ?thesis by linarith
qed

lemma is_hour_hour_of [simp]: "is_hour (hour_of t)"
  by (simp add: is_hour_def hour_of_def)

lemma is_hour_step: "is_hour h \<Longrightarrow> is_hour (h + HOUR_MS)"
  by (simp add: is_hour_def)

text \<open>Of two hours, the later starts where the earlier has ended.\<close>

lemma hours_apart:
  assumes "is_hour h" and "is_hour k" and "h < k"
  shows "h + HOUR_MS \<le> k"
proof -
  obtain x where x: "h = HOUR_MS * x" using assms(1) unfolding is_hour_def by (rule dvdE)
  obtain y where y: "k = HOUR_MS * y" using assms(2) unfolding is_hour_def by (rule dvdE)
  with assms(3) x have "HOUR_MS * x < HOUR_MS * y" by simp
  then have "x < y" by (meson hour_pos less_imp_le mult_left_mono not_less)
  then have "HOUR_MS * (x + 1) \<le> HOUR_MS * y" by (intro mult_left_mono) (simp_all add: HOUR_MS_def)
  with x y show ?thesis by (simp add: algebra_simps)
qed

lemma card_in_hour: "int (card ({a..<b} \<inter> hour_range h)) = max 0 (min b (h + HOUR_MS) - max a h)"
proof -
  have "{a..<b} \<inter> hour_range h = {max a h..<min b (h + HOUR_MS)}" by (auto simp: hour_range_def)
  then show ?thesis by (simp add: nat_eq_iff max_def)
qed

lemma hours_from_parts:
  assumes "is_hour h" and "is_hour k"
  shows "part_of h (hours_from k a b) = (if k \<le> h then max 0 (min b (h + HOUR_MS) - max a h) else 0)"
  using assms(2)
proof (induction k a b rule: hours_from.induct)
  case (1 k a b)
  have IH: "k < b \<Longrightarrow> part_of h (hours_from (k + HOUR_MS) a b)
      = (if k + HOUR_MS \<le> h then max 0 (min b (h + HOUR_MS) - max a h) else 0)"
    using 1 by (simp add: is_hour_step)
  have cases: "h = k \<or> (h < k) \<or> k + HOUR_MS \<le> h" using hours_apart [OF "1.prems" assms(1)] by linarith
  show ?case
  proof (cases "k < b")
    case False
    then show ?thesis by (subst hours_from.simps) simp
  next
    case True
    then show ?thesis
      using cases hour_pos by (subst hours_from.simps) (auto simp: IH Let_def simp del: hour_pos)
  qed
qed

lemma hours_from_entry: "x \<in> set (hours_from k a b) \<Longrightarrow> is_hour k \<Longrightarrow> is_hour (fst x) \<and> 0 < snd x"
proof (induction k a b rule: hours_from.induct)
  case (1 k a b)
  then show ?case
    by (subst (asm) (2) hours_from.simps) (auto simp: Let_def is_hour_step split: if_splits)
qed

lemma hours_from_total: "k \<le> a \<Longrightarrow> a \<le> b \<Longrightarrow> a < k + HOUR_MS \<Longrightarrow> sum_list (map snd (hours_from k a b)) = b - a"
proof -
  have after: "a \<le> k \<Longrightarrow> sum_list (map snd (hours_from k a b)) = max 0 (b - k)" for k
  proof (induction k a b rule: hours_from.induct)
    case (1 k a b)
    have IH: "k < b \<Longrightarrow> sum_list (map snd (hours_from (k + HOUR_MS) a b)) = max 0 (b - (k + HOUR_MS))"
      using 1 by (simp add: HOUR_MS_def)
    show ?case using "1.prems" hour_pos by (subst hours_from.simps) (auto simp: Let_def IH simp del: hour_pos)
  qed
  assume "k \<le> a" and "a \<le> b" and "a < k + HOUR_MS"
  then show ?thesis by (subst hours_from.simps) (auto simp: Let_def after)
qed

lemma msByHour_part:
  "part_of h (msByHour a b) = (if is_hour h then int (card ({a..<b} \<inter> hour_range h)) else 0)"
proof (cases "is_hour h")
  case False
  have "part_of h (msByHour a b) = 0"
  proof -
    have "filter (\<lambda>x. fst x = h) (msByHour a b) = []"
      using False hours_from_entry [of _ "hour_of a" a b] by (auto simp: filter_empty_conv msByHour_def)
    then show ?thesis by (simp add: part_of_def)
  qed
  with False show ?thesis by simp
next
  case True
  have "h < hour_of a \<Longrightarrow> h + HOUR_MS \<le> a"
    using hours_apart [OF True is_hour_hour_of, of a] hour_of_bounds [of a] by linarith
  then show ?thesis
    using True by (auto simp: msByHour_def hours_from_parts card_in_hour)
qed

text \<open>
  Cutting an interval at hour boundaries loses and adds no time: the parts add up to the interval's length, each is positive and
  belongs to a whole hour, and the part of an hour is the number of the interval's milliseconds that lie in it.
\<close>

theorem hours_add_up_to_the_interval:
  "sum_list (map snd (msByHour a b)) = max 0 (b - a)
   \<and> part_of h (msByHour a b) = (if is_hour h then int (card ({a..<b} \<inter> hour_range h)) else 0)
   \<and> list_all (\<lambda>(k, ms). is_hour k \<and> 0 < ms) (msByHour a b)"
proof (intro conjI)
  show "sum_list (map snd (msByHour a b)) = max 0 (b - a)"
    using hour_of_bounds [of a] hours_from_total [of "hour_of a" a b] by (simp add: msByHour_def)
  show "part_of h (msByHour a b) = (if is_hour h then int (card ({a..<b} \<inter> hour_range h)) else 0)"
    by (rule msByHour_part)
  show "list_all (\<lambda>(k, ms). is_hour k \<and> 0 < ms) (msByHour a b)"
    using hours_from_entry [of _ "hour_of a" a b] by (fastforce simp: msByHour_def list_all_iff)
qed

section \<open>The union of spans\<close>

definition apart :: "(int \<times> int) list \<Rightarrow> bool" where
  "apart iv \<longleftrightarrow> sorted_wrt (\<lambda>x y. snd x < fst y) iv \<and> list_all (\<lambda>x. fst x < snd x) iv"

lemma merge_into_spec:
  assumes "apart (rev out)" and "sorted (map fst iv)" and "list_all (\<lambda>x. fst x < snd x) iv"
    and "\<And>x y. x \<in> set out \<Longrightarrow> y \<in> set iv \<Longrightarrow> fst x \<le> fst y"
  shows "apart (merge_into out iv) \<and> covered (merge_into out iv) = covered out \<union> covered iv"
  using assms
proof (induction out iv rule: merge_into.induct)
  case (1 out)
  then show ?case using covered_set [of "rev out" out] by simp
next
  case (2 a b iv)
  then show ?case by (auto simp: apart_def)
next
  case (3 s e out a b iv)
  show ?case
  proof (cases "a \<le> e")
    case True
    have "s \<le> a" using "3.prems"(4) [of "(s, e)" "(a, b)"] by simp
    then have u: "{s..<max e b} = {s..<e} \<union> {a..<b}" using True by (auto simp: max_def)
    have "apart (merge_into ((s, max e b) # out) iv)
        \<and> covered (merge_into ((s, max e b) # out) iv) = covered ((s, max e b) # out) \<union> covered iv"
    proof (rule "3.IH"(1) [OF True])
      show "apart (rev ((s, max e b) # out))" using "3.prems"(1) by (auto simp: apart_def sorted_wrt_append)
      fix x y assume "x \<in> set ((s, max e b) # out)" and "y \<in> set iv"
      then show "fst x \<le> fst y" using "3.prems"(4) [of "(s, e)" y] "3.prems"(4) [of x y] by auto
    qed (use "3.prems" in auto)
    with True show ?thesis by (auto simp: u)
  next
    case False
    have "apart (merge_into ((a, b) # (s, e) # out) iv)
        \<and> covered (merge_into ((a, b) # (s, e) # out) iv) = covered ((a, b) # (s, e) # out) \<union> covered iv"
    proof (rule "3.IH"(2) [OF False])
      show "apart (rev ((a, b) # (s, e) # out))"
        using "3.prems"(1,3) False by (fastforce simp: apart_def sorted_wrt_append)
      fix x y assume "x \<in> set ((a, b) # (s, e) # out)" and "y \<in> set iv"
      then show "fst x \<le> fst y" using "3.prems"(2) "3.prems"(4) [of x y] by auto
    qed (use "3.prems" in auto)
    with False show ?thesis by (simp add: Un_ac)
  qed
qed

text \<open>Time that spans cover, overlaps and nesting included.\<close>

definition span_cover :: "activity_span list \<Rightarrow> int set" where
  "span_cover spans = covered (map interval_of spans)"

lemma span_cover_simps [simp]:
  "span_cover [] = {}" "span_cover ((t, ms, kind) # spans) = {t..<t + max 0 ms} \<union> span_cover spans"
  by (simp_all add: span_cover_def interval_of_def)

lemma finite_span_cover [simp]: "finite (span_cover spans)"
  by (simp add: span_cover_def)

lemma span_cover_mono: "set xs \<subseteq> set ys \<Longrightarrow> span_cover xs \<subseteq> span_cover ys"
  unfolding span_cover_def covered_def set_map by (intro UN_mono image_mono) auto

lemma merged_spec: "apart (merged spans)" "covered (merged spans) = span_cover spans"
proof -
  let ?iv = "order_by fst (filter (\<lambda>(a, b). a < b) (map interval_of spans))"
  have "covered ?iv = span_cover spans"
    unfolding span_cover_def covered_nonempty [of "map interval_of spans"]
    by (intro covered_set) simp
  moreover have "apart (merge_into [] ?iv) \<and> covered (merge_into [] ?iv) = covered [] \<union> covered ?iv"
    by (rule merge_into_spec) (auto simp: apart_def list_all_iff)
  ultimately show "apart (merged spans)" "covered (merged spans) = span_cover spans" by (simp_all add: merged_def)
qed

text \<open>Intervals that lie apart: what is counted of each is counted of their union.\<close>

lemma card_apart:
  assumes "apart iv"
  shows "sum_list (map (\<lambda>(a, b). int (card ({a..<b} \<inter> S))) iv) = int (card (covered iv \<inter> S))"
  using assms
proof (induction iv)
  case Nil
  then show ?case by simp
next
  case (Cons x iv)
  obtain a b where x: "x = (a, b)" by (cases x)
  have d: "{a..<b} \<inter> covered iv = {}"
    using Cons.prems x by (fastforce simp: apart_def covered_def)
  have "card (covered (x # iv) \<inter> S) = card (({a..<b} \<inter> S) \<union> (covered iv \<inter> S))"
    using x by (simp add: Int_Un_distrib2)
  also have "\<dots> = card ({a..<b} \<inter> S) + card (covered iv \<inter> S)"
    using d by (intro card_Un_disjoint) auto
  finally show ?case using Cons x by (simp add: apart_def)
qed

lemma unionMs_card: "unionMs spans = int (card (span_cover spans))"
proof -
  have "map (\<lambda>(a, b). int (card ({a..<b} \<inter> UNIV))) (merged spans) = map (\<lambda>(a, b). b - a) (merged spans)"
    using merged_spec(1) [of spans] by (fastforce simp: apart_def list_all_iff)
  then have "unionMs spans = sum_list (map (\<lambda>(a, b). int (card ({a..<b} \<inter> UNIV))) (merged spans))"
    unfolding unionMs_def by (rule arg_cong [symmetric])
  then show ?thesis unfolding card_apart [OF merged_spec(1)] merged_spec(2) by simp
qed

lemma sum_parts_concat: "part_of h (concat (map f iv)) = sum_list (map (\<lambda>x. part_of h (f x)) iv)"
  by (induction iv) auto

lemma union_part:
  "part_of h (concat (map (\<lambda>(a, b). msByHour a b) (merged spans)))
   = (if is_hour h then int (card (span_cover spans \<inter> hour_range h)) else 0)"
proof -
  have "part_of h (concat (map (\<lambda>(a, b). msByHour a b) (merged spans)))
      = sum_list (map (\<lambda>(a, b). if is_hour h then int (card ({a..<b} \<inter> hour_range h)) else 0) (merged spans))"
    unfolding sum_parts_concat by (intro arg_cong [where f = sum_list] map_cong) (auto simp: msByHour_part)
  then show ?thesis
    using card_apart [OF merged_spec(1), of "hour_range h" spans] by (simp add: merged_spec(2) case_prod_unfold)
qed

lemma sum_snd_concat:
  "sum_list (map snd (concat (map (\<lambda>(a, b). f a b) iv))) = sum_list (map (\<lambda>(a, b). sum_list (map snd (f a b))) iv)"
  by (induction iv) auto

text \<open>Sums by key do not depend on how the parts are grouped.\<close>

lemma sum_by_key:
  assumes "distinct ks" and "set (map fst parts) \<subseteq> set ks"
  shows "sum_list (map (\<lambda>k. part_of k parts) ks) = sum_list (map snd parts)"
  using assms
proof (induction parts)
  case Nil
  then show ?case by (simp add: sum_list_0)
next
  case (Cons x parts)
  have "sum_list (map (\<lambda>k. part_of k (x # parts)) ks)
      = sum_list (map (\<lambda>k. if fst x = k then snd x else 0) ks) + sum_list (map (\<lambda>k. part_of k parts) ks)"
    by (simp add: sum_list_addf)
  also have "sum_list (map (\<lambda>k. if fst x = k then snd x else 0) ks) = snd x"
    using Cons.prems by (simp add: sum_list_distinct_conv_sum_set)
  finally show ?case using Cons by simp
qed

lemma hour_totals_eq: "hour_totals parts = map (\<lambda>h. (h, part_of h parts)) (sort (remdups (map fst parts)))"
  by (simp add: hour_totals_def part_of_def)

lemma part_of_pos:
  assumes "\<And>x. x \<in> set parts \<Longrightarrow> 0 < snd x"
  shows "0 < part_of h parts \<longleftrightarrow> h \<in> fst ` set parts"
proof -
  have "0 \<le> part_of h parts \<and> (0 < part_of h parts \<longleftrightarrow> h \<in> fst ` set parts)"
    using assms
  proof (induction parts)
    case (Cons x parts)
    then have "0 < snd x" and "0 \<le> part_of h parts \<and> (0 < part_of h parts \<longleftrightarrow> h \<in> fst ` set parts)" by simp_all
    then show ?case by auto
  qed simp
  then show ?thesis by simp
qed

text \<open>What the union of spans by the hour is: each hour with time in it, once, with that time.\<close>

lemma unionMsByHour_entry:
  "(h, ms) \<in> set (unionMsByHour spans) \<longleftrightarrow> is_hour h \<and> 0 < ms \<and> ms = int (card (span_cover spans \<inter> hour_range h))"
proof -
  let ?parts = "concat (map (\<lambda>(a, b). msByHour a b) (merged spans))"
  have pos: "x \<in> set ?parts \<Longrightarrow> is_hour (fst x) \<and> 0 < snd x" for x
    using hours_from_entry is_hour_hour_of by (fastforce simp: msByHour_def split: if_splits)
  have "0 < part_of h ?parts \<longleftrightarrow> h \<in> fst ` set ?parts" by (rule part_of_pos) (rule conjunct2 [OF pos])
  then have "(h, ms) \<in> set (unionMsByHour spans) \<longleftrightarrow> 0 < part_of h ?parts \<and> ms = part_of h ?parts"
    unfolding unionMsByHour_def hour_totals_eq by (simp only: set_map set_sort set_remdups) blast
  then show ?thesis unfolding union_part by auto
qed

lemma unionMsByHour_sorted: "sorted_wrt (<) (map fst (unionMsByHour spans))"
  by (simp add: unionMsByHour_def hour_totals_eq comp_def strict_sorted_iff)

lemma unionMsByHour_total: "sum_list (map snd (unionMsByHour spans)) = unionMs spans"
proof -
  let ?parts = "concat (map (\<lambda>(a, b). msByHour a b) (merged spans))"
  have "sum_list (map snd (unionMsByHour spans)) = sum_list (map (\<lambda>h. part_of h ?parts) (sort (remdups (map fst ?parts))))"
    by (simp add: unionMsByHour_def hour_totals_eq comp_def)
  also have "\<dots> = sum_list (map snd ?parts)" by (rule sum_by_key) simp_all
  also have "\<dots> = sum_list (map (\<lambda>(a, b). sum_list (map snd (msByHour a b))) (merged spans))"
    by (rule sum_snd_concat)
  also have "\<dots> = unionMs spans"
    unfolding unionMs_def
  proof (intro arg_cong [where f = sum_list] map_cong refl)
    fix x assume "x \<in> set (merged spans)"
    then have "fst x < snd x" using merged_spec(1) [of spans] by (simp add: apart_def list_all_iff)
    then show "(case x of (a, b) \<Rightarrow> sum_list (map snd (msByHour a b))) = (case x of (a, b) \<Rightarrow> b - a)"
      using hours_from_total [of "hour_of (fst x)" "fst x" "snd x"] hour_of_bounds [of "fst x"]
      by (simp add: msByHour_def split_beta)
  qed
  finally show ?thesis .
qed

text \<open>
  C37: The time spans cover counts an overlap once: it is the number of milliseconds that lie in at least one of them, however they
  overlap, nest or repeat and in whatever order they come. Cut by the hour, it lists exactly the hours with such a millisecond, in
  order and each once, with the number of them in that hour, and the hours add up to the whole.
\<close>

theorem union_of_spans_is_the_time_covered:
  "unionMs spans = int (card (span_cover spans))
   \<and> sorted_wrt (<) (map fst (unionMsByHour spans))
   \<and> ((h, ms) \<in> set (unionMsByHour spans) \<longleftrightarrow> is_hour h \<and> 0 < ms \<and> ms = int (card (span_cover spans \<inter> hour_range h)))
   \<and> sum_list (map snd (unionMsByHour spans)) = unionMs spans"
  by (intro conjI unionMs_card unionMsByHour_sorted unionMsByHour_entry unionMsByHour_total)

section \<open>Activity is billed once\<close>

lemma counted_set_active: "counted_ms (set_active (h, add, ms) marks) k = (if k = h then ms else counted_ms marks k)"
proof (cases "k = h")
  case True
  have "get_row (\<lambda>x. fst x = h) (upsert (\<lambda>x. fst x = h) (h, ms) (\<lambda>x. (fst x, ms)) marks)
      = Some (case get_row (\<lambda>x. fst x = h) marks of None \<Rightarrow> (h, ms) | Some x \<Rightarrow> (fst x, ms))"
    by (rule get_row_upsert_same) simp_all
  then show ?thesis using True by (simp add: counted_ms_def set_active_def split: option.split)
next
  case False
  have "get_row (\<lambda>x. fst x = k) (upsert (\<lambda>x. fst x = h) (h, ms) (\<lambda>x. (fst x, ms)) marks) = get_row (\<lambda>x. fst x = k) marks"
    using False by (intro get_row_upsert_other) auto
  then show ?thesis using False by (simp add: counted_ms_def set_active_def)
qed

lemma counted_fold_other: "h \<notin> fst ` set fresh \<Longrightarrow> counted_ms (fold set_active fresh marks) h = counted_ms marks h"
  by (induction fresh arbitrary: marks) (auto simp: counted_set_active)

lemma counted_fold_same:
  assumes "(h, add, ms) \<in> set fresh" and "distinct (map fst fresh)"
  shows "counted_ms (fold set_active fresh marks) h = ms"
  using assms
proof (induction fresh arbitrary: marks)
  case Nil
  then show ?case by simp
next
  case (Cons f fresh)
  show ?case
  proof (cases "f = (h, add, ms)")
    case True
    with Cons.prems have "h \<notin> fst ` set fresh" by simp
    with True show ?thesis by (simp add: counted_fold_other counted_set_active)
  next
    case False
    with Cons show ?thesis by simp
  qed
qed

lemma counted_filter: "b \<le> h \<Longrightarrow> counted_ms (filter (\<lambda>x. b \<le> fst x) marks) h = counted_ms marks h"
  by (induction marks) (auto simp: counted_ms_def)

text \<open>The busy spans a pass reads, and the time of an hour they cover.\<close>

definition busy_in :: "int \<Rightarrow> activity_span list \<Rightarrow> activity_span list" where
  "busy_in now spans = busySpans (filter (\<lambda>(t, ms, _). hour_of now - HOUR_MS \<le> t + ms) spans)"

definition busy_ms :: "int \<Rightarrow> activity_span list \<Rightarrow> int \<Rightarrow> int" where
  "busy_ms now spans h = (if is_hour h then int (card (span_cover (busy_in now spans) \<inter> hour_range h)) else 0)"

lemma busy_by_hour: "(h, ms) \<in> set (unionMsByHour (busy_in now spans)) \<longleftrightarrow> 0 < ms \<and> ms = busy_ms now spans h"
  by (auto simp: unionMsByHour_entry busy_ms_def)

lemma busy_by_hour_fst: "h \<in> fst ` set (unionMsByHour (busy_in now spans)) \<longleftrightarrow> 0 < busy_ms now spans h"
proof
  assume "h \<in> fst ` set (unionMsByHour (busy_in now spans))"
  then obtain ms where "(h, ms) \<in> set (unionMsByHour (busy_in now spans))" by force
  then show "0 < busy_ms now spans h" by (simp add: busy_by_hour)
next
  assume "0 < busy_ms now spans h"
  then have "(h, busy_ms now spans h) \<in> set (unionMsByHour (busy_in now spans))" by (simp add: busy_by_hour)
  then show "h \<in> fst ` set (unionMsByHour (busy_in now spans))" by force
qed

lemma busy_ms_nonneg [simp]: "0 \<le> busy_ms now spans h"
  by (simp add: busy_ms_def)

lemma by_hour_oldest:
  assumes "x \<in> set (unionMsByHour spans)"
  shows "fst (hd (unionMsByHour spans)) \<le> fst x"
  using assms unionMsByHour_sorted [of spans] by (cases "unionMsByHour spans") auto

text \<open>What a pass finds new, as one list whatever the branch.\<close>

lemma fresh_entry:
  assumes "\<And>h. h \<in> fst ` set by_hour \<Longrightarrow> counted_ms loaded h = counted_ms marks h"
  shows "(h, add, ms) \<in> set (newActiveMs by_hour loaded)
    \<longleftrightarrow> (h, ms) \<in> set by_hour \<and> add = ms - counted_ms marks h \<and> 0 < add"
  using assms by (force simp: newActiveMs_def)

lemma fresh_distinct: "distinct (map fst by_hour) \<Longrightarrow> distinct (map fst (newActiveMs by_hour loaded))"
  by (simp add: newActiveMs_def comp_def split_beta distinct_map_filter)

lemma part_of_distinct:
  assumes "distinct (map fst parts)"
  shows "part_of h parts = (if h \<in> fst ` set parts then snd (the (get_row (\<lambda>x. fst x = h) parts)) else 0)"
  using assms
proof (induction parts)
  case Nil
  then show ?case by simp
next
  case (Cons x parts)
  then show ?case by (cases "h = fst x") auto
qed

lemma part_of_entry: "distinct (map fst parts) \<Longrightarrow> (h, ms) \<in> set parts \<Longrightarrow> part_of h parts = ms"
  by (induction parts) (force simp: part_of_distinct)+

lemma part_of_absent: "h \<notin> fst ` set parts \<Longrightarrow> part_of h parts = 0"
  by (induction parts) auto

lemma appendUsage_active [simp]: "usage_active (appendUsage rows d) = usage_active d"
proof -
  have "usage_active (fold append_usage_row rows d) = usage_active d"
    by (induction rows arbitrary: d) (simp_all add: append_usage_row_def)
  then show ?thesis by (simp add: appendUsage_def)
qed

lemma a_pass:
  assumes d: "do_activity d = spans" and nonneg: "0 \<le> counted_ms (usage_active d) h"
    and r: "countActiveTime tenant agent now d = (billed, d')"
  shows "counted_ms (usage_active d') h = max (counted_ms (usage_active d) h) (busy_ms now spans h)
    \<and> part_of h billed = counted_ms (usage_active d') h - counted_ms (usage_active d) h"
proof -
  let ?by = "unionMsByHour (busy_in now spans)"
  let ?marks = "usage_active d"
  let ?fresh = "newActiveMs ?by (filter (\<lambda>x. fst (hd ?by) \<le> fst x) ?marks)"
  have res: "billed = map (\<lambda>(h, ms, _). (h, ms)) ?fresh \<and> usage_active d' = fold set_active ?fresh ?marks"
    using r d by (auto simp: countActiveTime_def busy_in_def Let_def newActiveMs_def split: if_splits)
  have dist: "distinct (map fst ?fresh)"
    using unionMsByHour_sorted [of "busy_in now spans"] by (intro fresh_distinct) (simp add: strict_sorted_iff)
  have loaded: "h \<in> fst ` set ?by \<Longrightarrow> counted_ms (filter (\<lambda>x. fst (hd ?by) \<le> fst x) ?marks) h = counted_ms ?marks h" for h
    using by_hour_oldest [of _ "busy_in now spans"] by (auto intro!: counted_filter)
  have entry: "(h, add, ms) \<in> set ?fresh \<longleftrightarrow> 0 < ms \<and> ms = busy_ms now spans h \<and> add = ms - counted_ms ?marks h \<and> 0 < add" for add ms
    using fresh_entry [of ?by _ ?marks, OF loaded] by (auto simp: busy_by_hour)
  have db: "distinct (map fst billed)" using dist res by (simp add: comp_def split_beta)
  show ?thesis
  proof (cases "counted_ms ?marks h < busy_ms now spans h")
    case True
    then have e: "(h, busy_ms now spans h - counted_ms ?marks h, busy_ms now spans h) \<in> set ?fresh"
      using nonneg by (simp add: entry)
    then have "(h, busy_ms now spans h - counted_ms ?marks h) \<in> set billed" using res by force
    then have "part_of h billed = busy_ms now spans h - counted_ms ?marks h" using db by (intro part_of_entry)
    with True res counted_fold_same [OF e dist] show ?thesis by simp
  next
    case False
    then have n: "h \<notin> fst ` set ?fresh" using entry by force
    then have "h \<notin> fst ` set billed" using res by force
    with False res counted_fold_other [OF n] show ?thesis by (simp add: part_of_absent)
  qed
qed

text \<open>Passes one after another, each over what the object's activity table holds then.\<close>

fun active_passes :: "string \<Rightarrow> string \<Rightarrow> (int \<times> activity_span list) list \<Rightarrow> usage_db \<Rightarrow> (int \<times> int) list \<times> usage_db" where
  "active_passes tenant agent [] d = ([], d)"
| "active_passes tenant agent ((now, spans) # ps) d =
     (case countActiveTime tenant agent now (d\<lparr>do_activity := spans\<rparr>) of
       (billed, d1) \<Rightarrow> (case active_passes tenant agent ps d1 of (rest, d2) \<Rightarrow> (billed @ rest, d2)))"

lemma active_passes_bill:
  assumes "0 \<le> counted_ms (usage_active d) h"
  shows "part_of h (fst (active_passes tenant agent ps d))
    = fold (\<lambda>(now, spans) m. max m (busy_ms now spans h)) ps (counted_ms (usage_active d) h) - counted_ms (usage_active d) h"
  using assms
proof (induction ps arbitrary: d)
  case Nil
  then show ?case by simp
next
  case (Cons p ps)
  obtain now spans where p: "p = (now, spans)" by (cases p)
  obtain billed d1 where r: "countActiveTime tenant agent now (d\<lparr>do_activity := spans\<rparr>) = (billed, d1)" by fastforce
  have s: "counted_ms (usage_active d1) h = max (counted_ms (usage_active d) h) (busy_ms now spans h)"
      "part_of h billed = counted_ms (usage_active d1) h - counted_ms (usage_active d) h"
    using a_pass [OF _ _ r, of spans h] Cons.prems by simp_all
  have "part_of h (fst (active_passes tenant agent ps d1))
      = fold (\<lambda>(now, spans) m. max m (busy_ms now spans h)) ps (counted_ms (usage_active d1) h) - counted_ms (usage_active d1) h"
    using Cons.prems s by (intro Cons.IH) simp
  then show ?case using p r s by (simp add: case_prod_unfold)
qed

lemma fold_max_ge: "(m::int) \<le> fold (\<lambda>x m. max m (f x)) xs m"
  by (induction xs arbitrary: m) (auto intro: order.trans [OF max.cobounded1])

lemma fold_max_in: "x \<in> set xs \<Longrightarrow> f x \<le> fold (\<lambda>x m. max m (f x)) xs (m::int)"
proof (induction xs arbitrary: m)
  case (Cons y xs)
  have "f y \<le> max m (f y)" by simp
  also have "\<dots> \<le> fold (\<lambda>x m. max m (f x)) xs (max m (f y))" by (rule fold_max_ge)
  finally show ?case using Cons by auto
qed simp

lemma fold_max_le: "(m::int) \<le> c \<Longrightarrow> (\<And>x. x \<in> set xs \<Longrightarrow> f x \<le> c) \<Longrightarrow> fold (\<lambda>x m. max m (f x)) xs m \<le> c"
  by (induction xs arbitrary: m) auto

text \<open>
  However often activity is counted, and even when the activity table was cleared in between, no millisecond is billed twice: the
  time billed for an hour over all passes is at most the number of its milliseconds in which the object was busy by any pass's
  account. Nothing a pass saw is lost either: it is at least what any one pass found for that hour.
\<close>

theorem activity_is_billed_once:
  assumes "usage_active d = []" and "is_hour h" and "(now, spans) \<in> set ps"
  shows "part_of h (fst (active_passes tenant agent ps d))
        \<le> int (card ((\<Union>p\<in>set ps. span_cover (busySpans (snd p))) \<inter> hour_range h))
    \<and> int (card (span_cover (busy_in now spans) \<inter> hour_range h)) \<le> part_of h (fst (active_passes tenant agent ps d))"
proof -
  let ?f = "\<lambda>(now, spans). busy_ms now spans h"
  have z: "counted_ms (usage_active d) h = 0" using assms(1) by (simp add: counted_ms_def)
  have eq: "part_of h (fst (active_passes tenant agent ps d)) = fold (\<lambda>x m. max m (?f x)) ps 0"
    using active_passes_bill [of d h tenant agent ps] z by (simp add: case_prod_unfold)
  have "fold (\<lambda>x m. max m (?f x)) ps 0 \<le> int (card ((\<Union>p\<in>set ps. span_cover (busySpans (snd p))) \<inter> hour_range h))"
  proof (rule fold_max_le)
    fix x assume x: "x \<in> set ps"
    have "span_cover (busy_in (fst x) (snd x)) \<subseteq> span_cover (busySpans (snd x))"
      by (rule span_cover_mono) (auto simp: busy_in_def busySpans_def)
    with x have "span_cover (busy_in (fst x) (snd x)) \<inter> hour_range h
        \<subseteq> (\<Union>p\<in>set ps. span_cover (busySpans (snd p))) \<inter> hour_range h" by blast
    then have "card (span_cover (busy_in (fst x) (snd x)) \<inter> hour_range h)
        \<le> card ((\<Union>p\<in>set ps. span_cover (busySpans (snd p))) \<inter> hour_range h)" by (rule card_mono [rotated]) simp
    then show "?f x \<le> int (card ((\<Union>p\<in>set ps. span_cover (busySpans (snd p))) \<inter> hour_range h))"
      using assms(2) by (simp add: busy_ms_def split_beta)
  qed simp
  moreover have "?f (now, spans) \<le> fold (\<lambda>x m. max m (?f x)) ps 0" by (rule fold_max_in) (rule assms(3))
  ultimately show ?thesis using eq assms(2) by (simp add: busy_ms_def)
qed

theorem activity_is_billed_once_witness:
  "48 \<le> part_of 0 (fst (active_passes ''t'' ''a'' [(100, [(10, 40, ''alarm'')]), (200, [(10, 40, ''alarm''), (30, 28, ''poke'')])]
     \<lparr>usage_outbox = [], usage_seq = 0, do_activity = [], usage_active = [], usage_held = []\<rparr>))"
proof -
  let ?d = "\<lparr>usage_outbox = [], usage_seq = 0, do_activity = [], usage_active = [], usage_held = []\<rparr>"
  let ?ps = "[(100, [(10, 40, ''alarm'')]), (200, [(10, 40, ''alarm''), (30, 28, ''poke'')])]"
  have "span_cover (busy_in 200 [(10, 40, ''alarm''), (30, 28, ''poke'')]) \<inter> hour_range 0 = {10..<58}"
    by (auto simp: busy_in_def busySpans_def isBusyKind_def hour_range_def HOUR_MS_def hour_of_def)
  then show ?thesis
    using activity_is_billed_once [of ?d 0 200 "[(10, 40, ''alarm''), (30, 28, ''poke'')]" ?ps "''t''" "''a''"]
    by (simp add: is_hour_def)
qed

section \<open>Hourly sums\<close>

definition hourly_sum :: "usage_row list \<Rightarrow> string \<times> string \<times> int \<times> string \<times> string \<times> string \<Rightarrow> rat" where
  "hourly_sum rows k = sum_list (map us_quantity (filter (\<lambda>r. hourly_id (hourly_of r) = k) rows))"

lemma hourly_ext: "hourly_id g = hourly_id h \<Longrightarrow> hr_quantity g = hr_quantity h \<Longrightarrow> g = (h :: hourly_row)"
  by (cases g, cases h) (simp add: hourly_id_def)

lemma hourly_id_more [simp]: "hourly_id (h\<lparr>hr_quantity := q\<rparr>) = hourly_id h"
  by (simp add: hourly_id_def)

lemma add_hourly_distinct: "distinct (map hourly_id out) \<Longrightarrow> distinct (map hourly_id (add_hourly r out))"
  unfolding add_hourly_def by (rule distinct_map_upsert) auto

lemma add_hourly_get:
  "get_row (\<lambda>h. hourly_id h = k) (add_hourly r out)
   = (if k = hourly_id (hourly_of r)
      then Some (case get_row (\<lambda>h. hourly_id h = k) out of None \<Rightarrow> hourly_of r | Some h \<Rightarrow> h\<lparr>hr_quantity := hr_quantity h + us_quantity r\<rparr>)
      else get_row (\<lambda>h. hourly_id h = k) out)"
proof (cases "k = hourly_id (hourly_of r)")
  case True
  then show ?thesis unfolding add_hourly_def True by (subst get_row_upsert_same) simp_all
next
  case False
  then show ?thesis unfolding add_hourly_def by (subst get_row_upsert_other) auto
qed

lemma hourly_sum_snoc:
  "hourly_sum (rows @ [r]) k = hourly_sum rows k + (if hourly_id (hourly_of r) = k then us_quantity r else 0)"
  by (simp add: hourly_sum_def)

lemma toHourly_snoc: "toHourly (rows @ [r]) = add_hourly r (toHourly rows)"
  by (simp add: toHourly_def)

lemma toHourly_distinct: "distinct (map hourly_id (toHourly rows))"
  by (induction rows rule: rev_induct) (simp add: toHourly_def, simp add: toHourly_snoc add_hourly_distinct)

lemma toHourly_absent:
  "get_row (\<lambda>h. hourly_id h = k) (toHourly rows) = None \<longleftrightarrow> k \<notin> (\<lambda>r. hourly_id (hourly_of r)) ` set rows"
  by (induction rows rule: rev_induct) (simp add: toHourly_def, auto simp: toHourly_snoc add_hourly_get)

lemma hourly_sum_absent: "k \<notin> (\<lambda>r. hourly_id (hourly_of r)) ` set rows \<Longrightarrow> hourly_sum rows k = 0"
  by (induction rows) (auto simp: hourly_sum_def)

lemma toHourly_get:
  "get_row (\<lambda>h. hourly_id h = k) (toHourly rows) = Some h \<Longrightarrow> hr_quantity h = hourly_sum rows k"
proof (induction rows arbitrary: h rule: rev_induct)
  case Nil
  then show ?case by (simp add: toHourly_def)
next
  case (snoc r rows)
  show ?case
  proof (cases "k = hourly_id (hourly_of r)")
    case False
    with snoc show ?thesis by (simp add: toHourly_snoc add_hourly_get hourly_sum_snoc)
  next
    case True
    show ?thesis
    proof (cases "get_row (\<lambda>h. hourly_id h = k) (toHourly rows)")
      case None
      with snoc.prems True have "h = hourly_of r" by (simp add: toHourly_snoc add_hourly_get)
      moreover have "hourly_sum rows k = 0" using None toHourly_absent [of k rows] by (metis hourly_sum_absent)
      ultimately show ?thesis using True by (simp add: hourly_sum_snoc hourly_of_def)
    next
      case (Some g)
      with snoc.prems True have "h = g\<lparr>hr_quantity := hr_quantity g + us_quantity r\<rparr>"
        by (simp add: toHourly_snoc add_hourly_get)
      with snoc.IH [OF Some] True show ?thesis by (simp add: hourly_sum_snoc)
    qed
  qed
qed

text \<open>
  The hourly rows are the sums of the rows they are made of: there is one for each tenant, agent, hour, resource, key and unit that
  occurs and no other, and its quantity is the sum of those rows' quantities, so the order the rows come in makes no difference.
\<close>

theorem hourly_rows_are_the_sums:
  "distinct (map hourly_id (toHourly rows))
   \<and> (h \<in> set (toHourly rows) \<longleftrightarrow>
      hourly_id h \<in> (\<lambda>r. hourly_id (hourly_of r)) ` set rows \<and> hr_quantity h = hourly_sum rows (hourly_id h))"
proof (intro conjI toHourly_distinct iffI)
  assume h: "h \<in> set (toHourly rows)"
  then have g: "get_row (\<lambda>x. hourly_id x = hourly_id h) (toHourly rows) = Some h"
    by (intro get_row_unique [OF toHourly_distinct]) auto
  then show "hr_quantity h = hourly_sum rows (hourly_id h)" by (rule toHourly_get)
  show "hourly_id h \<in> (\<lambda>r. hourly_id (hourly_of r)) ` set rows"
    using toHourly_absent [of "hourly_id h" rows] g by auto
next
  assume a: "hourly_id h \<in> (\<lambda>r. hourly_id (hourly_of r)) ` set rows \<and> hr_quantity h = hourly_sum rows (hourly_id h)"
  then obtain g where g: "get_row (\<lambda>x. hourly_id x = hourly_id h) (toHourly rows) = Some g"
    using toHourly_absent [of "hourly_id h" rows] by (cases "get_row (\<lambda>x. hourly_id x = hourly_id h) (toHourly rows)") auto
  have "hourly_id g = hourly_id h" "g \<in> set (toHourly rows)" using get_row_SomeD [OF g] by simp_all
  with a toHourly_get [OF g] hourly_ext [of g h] show "h \<in> set (toHourly rows)" by simp
qed

end
