(* ===== verification/Usage_Held.thy ===== *)
theory Usage_Held
  imports Usage Js_String
begin

text \<open>
  Time a mount holds something billed for existing: \<open>src/src/usage/container.ts\<close>. A box is held over sessions that follow one
  another; a pass walks them oldest first against one watermark per box. Times are whole milliseconds and uses whole numbers. The
  lemmas show that over any passes a box's time is billed at most once, and all of it where its sessions do not overlap.
\<close>

section \<open>Boxes and marks\<close>

record held_box =
  hb_id :: string
  hb_started :: int
  hb_ended :: "int option"
  hb_uses :: "int option"
  hb_cred :: "string option"

record held_mark =
  hm_through :: int
  hm_uses :: int

type_synonym held_marks = "(string \<times> held_mark) list"

definition mark_of :: "held_marks \<Rightarrow> string \<Rightarrow> held_mark option" where
  "mark_of marks b = map_option snd (get_row (\<lambda>x. fst x = b) marks)"

definition set_mark :: "string \<Rightarrow> held_mark \<Rightarrow> held_marks \<Rightarrow> held_marks" where
  "set_mark b k marks = upsert (\<lambda>x. fst x = b) (b, k) (\<lambda>x. (fst x, k)) marks"

section \<open>Rows for what is new\<close>

text \<open>The watermark a session is walked against, and where its uncounted time starts.\<close>

definition had_mark :: "held_marks \<Rightarrow> held_marks \<Rightarrow> held_box \<Rightarrow> held_mark option" where
  "had_mark counted marks bx = (case mark_of marks (hb_id bx) of Some k \<Rightarrow> Some k | None \<Rightarrow> mark_of counted (hb_id bx))"

definition is_inside :: "held_mark option \<Rightarrow> held_box \<Rightarrow> bool" where
  "is_inside had bx = (case had of None \<Rightarrow> False | Some k \<Rightarrow> hb_started bx < hm_through k)"

definition held_from :: "held_mark option \<Rightarrow> held_box \<Rightarrow> int" where
  "held_from had bx = (if is_inside had bx then hm_through (the had) else hb_started bx)"

definition held_row :: "string \<times> string \<Rightarrow> int \<Rightarrow> string \<Rightarrow> rat \<Rightarrow> string \<Rightarrow> usage_row" where
  "held_row base h key quantity unit =
     usage_base (h, fst base, snd base) ''sandbox.container'' key quantity unit"

definition held_step ::
    "string \<times> string \<Rightarrow> (held_box \<Rightarrow> string) \<Rightarrow> held_marks \<Rightarrow> int \<Rightarrow> held_box \<Rightarrow> usage_row list \<times> held_marks \<Rightarrow> usage_row list \<times> held_marks" where
  "held_step base keyOf counted now bx acc =
     (case acc of (rows, marks) \<Rightarrow>
       let had = had_mark counted marks bx; stop = or_else (hb_ended bx) now in
       if had \<noteq> None \<and> stop < hm_through (the had) then (rows, marks)
       else let inside = is_inside had bx;
                parts = msByHour (held_from had bx) stop;
                total = max 0 (or_else (hb_uses bx) 0);
                uses = max 0 (total - (if inside then hm_uses (the had) else 0)) in
         if parts = [] \<and> uses = 0 then (rows, marks)
         else (rows
               @ map (\<lambda>(h, ms). held_row base h (keyOf bx) (of_int ms / 1000) ''seconds'') parts
               @ (if uses = 0 then [] else [held_row base (if parts = [] then hour_of stop else fst (last parts)) (keyOf bx) (of_int uses) ''execs'']),
             set_mark (hb_id bx)
               \<lparr>hm_through = max stop (if had = None then stop else hm_through (the had)),
                hm_uses = max total (if inside then hm_uses (the had) else 0)\<rparr> marks))"

definition heldRows ::
    "string \<times> string \<Rightarrow> (held_box \<Rightarrow> string) \<Rightarrow> held_box list \<Rightarrow> held_marks \<Rightarrow> int \<Rightarrow> usage_row list \<times> held_marks" where
  "heldRows base keyOf boxes counted now = fold (held_step base keyOf counted now) (order_by hb_started boxes) ([], [])"

section \<open>Reports\<close>

record held_live =
  hl_id :: string
  hl_started :: int
  hl_cred :: "string option"

record held_session = held_live +
  hs_ended :: int
  hs_uses :: "int option"

record held_activity =
  ha_live :: "held_live option"
  ha_aside :: "held_live list"
  ha_unreadable :: "int option"

record held_report =
  hr_activity :: "held_activity option"
  hr_usage :: "held_session list"

definition live_box :: "held_live \<Rightarrow> held_box" where
  "live_box v = \<lparr>hb_id = hl_id v, hb_started = hl_started v, hb_ended = None, hb_uses = None, hb_cred = hl_cred v\<rparr>"

definition session_box :: "held_session \<Rightarrow> held_box" where
  "session_box v = \<lparr>hb_id = hl_id v, hb_started = hl_started v, hb_ended = Some (hs_ended v), hb_uses = hs_uses v, hb_cred = hl_cred v\<rparr>"

definition put_box :: "held_box \<Rightarrow> held_box list \<Rightarrow> held_box list" where
  "put_box b out = upsert (\<lambda>x. hb_id x = hb_id b \<and> hb_started x = hb_started b) b (\<lambda>_. b) out"

definition boxesOf :: "held_report option \<Rightarrow> held_box list" where
  "boxesOf report =
     (case report of None \<Rightarrow> []
      | Some rp \<Rightarrow>
        let live = (case hr_activity rp of None \<Rightarrow> [] | Some a \<Rightarrow> (case ha_live a of None \<Rightarrow> [] | Some v \<Rightarrow> [v]) @ ha_aside a) in
        fold put_box (map session_box (hr_usage rp)) (fold put_box (map live_box live) []))"

definition boxIsOwn :: "held_box \<Rightarrow> bool \<Rightarrow> bool" where
  "boxIsOwn b mount_own = (case hb_cred b of None \<Rightarrow> mount_own | Some k \<Rightarrow> k = ''agent'')"

definition heldUnreadableRows :: "string \<times> string \<Rightarrow> string \<Rightarrow> held_activity option \<Rightarrow> int \<Rightarrow> usage_row list" where
  "heldUnreadableRows base key act now =
     (if act = None \<or> or_else (ha_unreadable (the act)) 0 = 0 then []
      else [held_row base (hour_of now) key 1 ''unreadable''])"

section \<open>A pass over the mounts\<close>

definition AGENT_REF :: string where "AGENT_REF = ''agent:''"

definition isAgentRef :: "string option \<Rightarrow> bool" where
  "isAgentRef ref = (case ref of None \<Rightarrow> False | Some r \<Rightarrow> starts_with AGENT_REF r)"

definition secretRefKind :: "string option \<Rightarrow> string" where
  "secretRefKind ref =
     (if \<not> truthy ref then ''none''
      else if isAgentRef ref then ''agent''
      else if starts_with ''operator:'' (the ref) then ''operator''
      else if starts_with ''env:'' (the ref) then ''env''
      else ''other'')"

record named_report =
  nr_plugin :: string
  nr_report :: "held_report option"
  nr_own :: bool

text \<open>\<open>mounts\<close> lists each mount's alias, plugin and secret reference; of two with one alias the later counts.\<close>

definition heldReports ::
    "(string \<times> string \<times> string option) list \<Rightarrow> (string \<times> held_report option) list \<Rightarrow> (string \<times> named_report) list" where
  "heldReports mounts reports =
     concat (map (\<lambda>(al, rp).
        case get_row (\<lambda>m. fst m = al) (rev mounts) of
          None \<Rightarrow> []
        | Some (_, plugin, ref) \<Rightarrow> [(al, \<lparr>nr_plugin = plugin, nr_report = rp, nr_own = (secretRefKind ref = ''agent'')\<rparr>)]) reports)"

definition KEEP_MARKS_MS :: int where "KEEP_MARKS_MS = 7 * 86400000"

definition store_marks :: "held_marks \<Rightarrow> held_marks \<Rightarrow> held_marks" where
  "store_marks marks held = fold (\<lambda>(b, k). set_mark b k) marks held"

definition marks_in :: "usage_db \<Rightarrow> held_marks" where
  "marks_in d = map (\<lambda>(b, through, uses). (b, \<lparr>hm_through = through, hm_uses = uses\<rparr>)) (usage_held d)"

definition put_marks :: "held_marks \<Rightarrow> usage_db \<Rightarrow> usage_db" where
  "put_marks marks d = d\<lparr>usage_held := map (\<lambda>(b, k). (b, hm_through k, hm_uses k)) marks\<rparr>"

text \<open>How many rows each key had, in the order the keys came.\<close>

definition rows_by_key :: "usage_row list \<Rightarrow> (string \<times> nat) list" where
  "rows_by_key rows = fold (\<lambda>r. upsert (\<lambda>x. fst x = us_key r) (us_key r, 1) (\<lambda>x. (fst x, Suc (snd x)))) rows []"

definition count_report ::
    "string \<times> string \<Rightarrow> held_marks \<Rightarrow> int \<Rightarrow> named_report \<Rightarrow> (string \<times> nat) list \<times> usage_db \<Rightarrow> (string \<times> nat) list \<times> usage_db" where
  "count_report base counted now rp acc =
     (case acc of (out, d) \<Rightarrow>
       let boxes = boxesOf (nr_report rp);
           (rows, marks) = heldRows base (\<lambda>b. payerKey (nr_plugin rp) (boxIsOwn b (nr_own rp))) boxes counted now;
           marker = heldUnreadableRows base (payerKey (nr_plugin rp) (nr_own rp)) (Option.bind (nr_report rp) hr_activity) now;
           d1 = (if rows \<noteq> [] \<or> marker \<noteq> [] then appendUsage (rows @ marker) d else d) in
       (out @ rows_by_key (rows @ marker), put_marks (store_marks marks (marks_in d1)) d1))"

definition countHeldTime :: "named_report list \<Rightarrow> string \<times> string \<Rightarrow> int \<Rightarrow> usage_db \<Rightarrow> (string \<times> nat) list \<times> usage_db" where
  "countHeldTime reports base now d =
     (let counted = marks_in d;
          seen = concat (map (\<lambda>rp. map hb_id (boxesOf (nr_report rp))) reports);
          (out, d1) = fold (count_report base counted now) reports ([], d);
          stale = map fst (filter (\<lambda>(b, k). b \<notin> set seen \<and> hm_through k < now - KEEP_MARKS_MS) counted) in
      (out, d1\<lparr>usage_held := delete_where (\<lambda>x. fst x \<in> set stale) (usage_held d1)\<rparr>))"

section \<open>Time held, and time billed\<close>

definition stop_of :: "int \<Rightarrow> held_box \<Rightarrow> int" where
  "stop_of now bx = or_else (hb_ended bx) now"

text \<open>The milliseconds boxes were held: pairs of a box's id and a time.\<close>

definition held_time :: "int \<Rightarrow> held_box list \<Rightarrow> (string \<times> int) set" where
  "held_time now boxes = (\<Union>bx\<in>set boxes. {hb_id bx} \<times> {hb_started bx..<stop_of now bx})"

definition in_hour :: "int \<Rightarrow> (string \<times> int) set \<Rightarrow> (string \<times> int) set" where
  "in_hour h S = {x \<in> S. snd x \<in> hour_range h}"

text \<open>The milliseconds rows bill in an hour.\<close>

definition billed_ms :: "int \<Rightarrow> usage_row list \<Rightarrow> rat" where
  "billed_ms h rows = sum_list (map (\<lambda>r. 1000 * us_quantity r) (filter (\<lambda>r. us_at r = h \<and> us_unit r = ''seconds'') rows))"

text \<open>What a walk has of a box to bill: its time from the watermark on.\<close>

definition slot :: "held_mark option \<Rightarrow> int \<Rightarrow> held_box \<Rightarrow> (string \<times> int) set" where
  "slot had now bx = {hb_id bx} \<times> {held_from had bx..<stop_of now bx}"

lemma billed_ms_simps [simp]:
  "billed_ms h [] = 0" "billed_ms h (xs @ ys) = billed_ms h xs + billed_ms h ys"
  "billed_ms h (r # rows) = (if us_at r = h \<and> us_unit r = ''seconds'' then 1000 * us_quantity r else 0) + billed_ms h rows"
  by (simp_all add: billed_ms_def)

lemma held_row_sel [simp]:
  "us_at (held_row base h key q unit) = h" "us_unit (held_row base h key q unit) = unit"
  "us_quantity (held_row base h key q unit) = q"
  by (simp_all add: held_row_def usage_base_def split: prod.split)

lemma billed_ms_parts:
  "billed_ms h (map (\<lambda>(h, ms). held_row base h key (of_int ms / 1000) ''seconds'') parts) = of_int (part_of h parts)"
  by (induction parts) auto

lemma mark_of_set_mark: "mark_of (set_mark b k marks) c = (if c = b then Some k else mark_of marks c)"
proof (cases "c = b")
  case True
  have "get_row (\<lambda>x. fst x = b) (upsert (\<lambda>x. fst x = b) (b, k) (\<lambda>x. (fst x, k)) marks)
      = Some (case get_row (\<lambda>x. fst x = b) marks of None \<Rightarrow> (b, k) | Some x \<Rightarrow> (fst x, k))"
    by (rule get_row_upsert_same) simp_all
  with True show ?thesis by (auto simp: mark_of_def set_mark_def split: option.split)
next
  case False
  have "get_row (\<lambda>x. fst x = c) (upsert (\<lambda>x. fst x = b) (b, k) (\<lambda>x. (fst x, k)) marks) = get_row (\<lambda>x. fst x = c) marks"
    using False by (intro get_row_upsert_other) auto
  with False show ?thesis by (simp add: mark_of_def set_mark_def)
qed

lemma held_from_eq: "held_from had bx = (case had of None \<Rightarrow> hb_started bx | Some k \<Rightarrow> max (hb_started bx) (hm_through k))"
  by (auto simp: held_from_def is_inside_def split: option.split)

lemma card_slot: "card (in_hour h (slot had now bx)) = card ({held_from had bx..<stop_of now bx} \<inter> hour_range h)"
proof -
  have "in_hour h (slot had now bx) = Pair (hb_id bx) ` ({held_from had bx..<stop_of now bx} \<inter> hour_range h)"
    by (auto simp: in_hour_def slot_def)
  then show ?thesis by (simp add: card_image inj_on_def)
qed

text \<open>The mark of a box in a walk, as \<open>had_mark\<close> has it.\<close>

definition mark_now :: "held_marks \<Rightarrow> held_marks \<Rightarrow> string \<Rightarrow> held_mark option" where
  "mark_now counted marks b = (case mark_of marks b of Some k \<Rightarrow> Some k | None \<Rightarrow> mark_of counted b)"

lemma had_mark_now: "had_mark counted marks bx = mark_now counted marks (hb_id bx)"
  by (simp add: had_mark_def mark_now_def)

lemma mark_now_set: "mark_now counted (set_mark b k marks) c = (if c = b then Some k else mark_now counted marks c)"
  by (simp add: mark_now_def mark_of_set_mark)

text \<open>One step of a walk: what its rows bill is the slot, and the mark moves past it.\<close>

lemma held_step_spec:
  assumes "held_step base keyOf counted now bx (rows, marks) = (rows', marks')" and "is_hour h"
  defines "had \<equiv> had_mark counted marks bx"
  shows "billed_ms h rows' = billed_ms h rows + of_nat (card (in_hour h (slot had now bx)))"
    and "b \<noteq> hb_id bx \<Longrightarrow> mark_now counted marks' b = mark_now counted marks b"
    and "(b, t) \<in> slot had now bx \<Longrightarrow> \<exists>k. mark_now counted marks' (hb_id bx) = Some k \<and> t < hm_through k"
    and "had = Some k0 \<Longrightarrow> \<exists>k. mark_now counted marks' (hb_id bx) = Some k \<and> hm_through k0 \<le> hm_through k"
    and "mark_now counted marks' (hb_id bx) = Some k \<Longrightarrow>
      mark_now counted marks' (hb_id bx) = had \<or> hm_through k \<le> stop_of now bx \<or> (\<exists>k0. had = Some k0 \<and> hm_through k = hm_through k0)"
proof -
  let ?parts = "msByHour (held_from had bx) (stop_of now bx)"
  have part: "billed_ms h (map (\<lambda>(h, ms). held_row base h (keyOf bx) (of_int ms / 1000) ''seconds'') ?parts)
      = of_nat (card (in_hour h (slot had now bx)))"
    unfolding billed_ms_parts msByHour_part card_slot using assms(2) by simp
  have none: "?parts = [] \<Longrightarrow> slot had now bx = {}"
    using hours_from_total [of "hour_of (held_from had bx)" "held_from had bx" "stop_of now bx"] hour_of_bounds [of "held_from had bx"]
    by (auto simp: msByHour_def slot_def split: if_splits)
  have skip: "had \<noteq> None \<and> stop_of now bx < hm_through (the had) \<Longrightarrow> slot had now bx = {}"
    by (auto simp: slot_def held_from_eq)
  have stop: "or_else (hb_ended bx) now = stop_of now bx" by (simp add: stop_of_def)
  consider (same) "rows' = rows" "marks' = marks" "slot had now bx = {}"
    | (more) extra u where "rows' = rows @ map (\<lambda>(h, ms). held_row base h (keyOf bx) (of_int ms / 1000) ''seconds'') ?parts @ extra"
        "billed_ms h extra = 0"
        "marks' = set_mark (hb_id bx) \<lparr>hm_through = max (stop_of now bx) (if had = None then stop_of now bx else hm_through (the had)),
           hm_uses = u\<rparr> marks"
        "\<not> (had \<noteq> None \<and> stop_of now bx < hm_through (the had))"
  proof -
    let ?total = "max 0 (or_else (hb_uses bx) 0)"
    let ?was = "if is_inside had bx then hm_uses (the had) else 0"
    let ?extra = "if max 0 (?total - ?was) = 0 then []
      else [held_row base (if ?parts = [] then hour_of (stop_of now bx) else fst (last ?parts)) (keyOf bx)
              (of_int (max 0 (?total - ?was))) ''execs'']"
    note step = assms(1) [unfolded held_step_def had_def [symmetric] stop Let_def prod.case]
    show thesis
    proof (cases "had \<noteq> None \<and> stop_of now bx < hm_through (the had)")
      case True
      have "rows' = rows" "marks' = marks" using step unfolding if_P [OF True] by simp_all
      with skip [OF True] show thesis by (rule same [rotated 2])
    next
      case walked: False
      note step' = step [unfolded if_not_P [OF walked]]
      show thesis
      proof (cases "?parts = [] \<and> max 0 (?total - ?was) = 0")
        case True
        have "rows' = rows" "marks' = marks" using step' unfolding if_P [OF True] by simp_all
        with none True show thesis by (intro same) simp_all
      next
        case False
        show thesis
        proof (rule more)
          show "rows' = rows @ map (\<lambda>(h, ms). held_row base h (keyOf bx) (of_int ms / 1000) ''seconds'') ?parts @ ?extra"
            using step' unfolding if_not_P [OF False] by simp
          show "marks' = set_mark (hb_id bx)
              \<lparr>hm_through = max (stop_of now bx) (if had = None then stop_of now bx else hm_through (the had)), hm_uses = max ?total ?was\<rparr> marks"
            using step' unfolding if_not_P [OF False] by simp
          show "billed_ms h ?extra = 0" by simp
        qed (rule walked)
      qed
    qed
  qed
  note cases = this
  have now: "mark_now counted marks (hb_id bx) = had" by (simp add: had_def had_mark_now)
  show "billed_ms h rows' = billed_ms h rows + of_nat (card (in_hour h (slot had now bx)))"
  proof (cases rule: cases)
    case same
    then show ?thesis by (simp add: in_hour_def)
  next
    case more
    then show ?thesis by (simp add: part)
  qed
  show "b \<noteq> hb_id bx \<Longrightarrow> mark_now counted marks' b = mark_now counted marks b"
    by (cases rule: cases) (simp_all add: mark_now_set)
  show "(b, t) \<in> slot had now bx \<Longrightarrow> \<exists>k. mark_now counted marks' (hb_id bx) = Some k \<and> t < hm_through k"
    by (cases rule: cases) (auto simp: mark_now_set slot_def)
  show "had = Some k0 \<Longrightarrow> \<exists>k. mark_now counted marks' (hb_id bx) = Some k \<and> hm_through k0 \<le> hm_through k"
    by (cases rule: cases) (auto simp: mark_now_set now)
  show "mark_now counted marks' (hb_id bx) = Some k \<Longrightarrow>
      mark_now counted marks' (hb_id bx) = had \<or> hm_through k \<le> stop_of now bx \<or> (\<exists>k0. had = Some k0 \<and> hm_through k = hm_through k0)"
    by (cases rule: cases) (auto simp: mark_now_set now split: if_splits)
qed

section \<open>Nothing is billed twice\<close>

text \<open>
  What lies between two states of the marks: a set of times is paid when it starts at the marks before, ends at the marks after, and no mark
  went back.
\<close>

definition pays :: "(string \<Rightarrow> held_mark option) \<Rightarrow> (string \<Rightarrow> held_mark option) \<Rightarrow> (string \<times> int) set \<Rightarrow> bool" where
  "pays m m' B \<longleftrightarrow> finite B
     \<and> (\<forall>(b, t)\<in>B. \<forall>k. m b = Some k \<longrightarrow> hm_through k \<le> t)
     \<and> (\<forall>(b, t)\<in>B. \<exists>k. m' b = Some k \<and> t < hm_through k)
     \<and> (\<forall>b k. m b = Some k \<longrightarrow> (\<exists>k'. m' b = Some k' \<and> hm_through k \<le> hm_through k'))"

lemma pays_refl: "pays m m {}"
  by (simp add: pays_def)

lemma pays_from: "pays m m' B \<Longrightarrow> (b, t) \<in> B \<Longrightarrow> m b = Some k \<Longrightarrow> hm_through k \<le> t"
  by (auto simp: pays_def)

lemma pays_till: "pays m m' B \<Longrightarrow> (b, t) \<in> B \<Longrightarrow> \<exists>k. m' b = Some k \<and> t < hm_through k"
  by (auto simp: pays_def)

lemma pays_grows: "pays m m' B \<Longrightarrow> m b = Some k \<Longrightarrow> \<exists>k'. m' b = Some k' \<and> hm_through k \<le> hm_through k'"
  by (auto simp: pays_def)

lemma pays_disjoint:
  assumes "pays m m' B" and "pays m' m'' C"
  shows "B \<inter> C = {}"
proof (rule equals0I)
  fix x assume "x \<in> B \<inter> C"
  then obtain b t where "(b, t) \<in> B" "(b, t) \<in> C" by (cases x) auto
  with pays_till [OF assms(1)] pays_from [OF assms(2)] show False by fastforce
qed

lemma pays_trans:
  assumes "pays m m' B" and "pays m' m'' C"
  shows "pays m m'' (B \<union> C)"
  unfolding pays_def
proof (intro conjI ballI allI impI)
  show "finite (B \<union> C)" using assms by (simp add: pays_def)
next
  fix x assume x: "x \<in> B \<union> C"
  obtain b t where bt: "x = (b, t)" by (cases x)
  show "case x of (b, t) \<Rightarrow> \<forall>k. m b = Some k \<longrightarrow> hm_through k \<le> t"
    using x pays_from [OF assms(1), of b t] pays_from [OF assms(2), of b t] pays_grows [OF assms(1), of b]
    unfolding bt by fastforce
  show "case x of (b, t) \<Rightarrow> \<exists>k. m'' b = Some k \<and> t < hm_through k"
    using x pays_till [OF assms(1), of b t] pays_till [OF assms(2), of b t] pays_grows [OF assms(2), of b]
    unfolding bt by fastforce
next
  fix b k assume "m b = Some k"
  then show "\<exists>k'. m'' b = Some k' \<and> hm_through k \<le> hm_through k'"
    using pays_grows [OF assms(1)] pays_grows [OF assms(2)] by (meson order.trans)
qed

lemma card_in_hour_Un:
  assumes "pays m m' B" and "pays m' m'' C"
  shows "card (in_hour h (B \<union> C)) = card (in_hour h B) + card (in_hour h C)"
proof -
  have "in_hour h (B \<union> C) = in_hour h B \<union> in_hour h C" by (auto simp: in_hour_def)
  moreover have "in_hour h B \<inter> in_hour h C = {}" using pays_disjoint [OF assms] by (auto simp: in_hour_def)
  moreover have "finite (in_hour h B)" "finite (in_hour h C)" using assms by (simp_all add: pays_def in_hour_def)
  ultimately show ?thesis by (simp add: card_Un_disjoint)
qed

lemma held_step_pays:
  assumes "held_step base keyOf counted now bx (rows, marks) = (rows', marks')"
  shows "pays (mark_now counted marks) (mark_now counted marks') (slot (had_mark counted marks bx) now bx)"
proof -
  let ?had = "had_mark counted marks bx"
  note spec = held_step_spec [OF assms is_hour_hour_of [of 0]]
  have only: "(b, t) \<in> slot ?had now bx \<Longrightarrow> b = hb_id bx \<and> held_from ?had bx \<le> t" for b t by (simp add: slot_def)
  show ?thesis
    unfolding pays_def
  proof (intro conjI ballI allI impI)
    show "finite (slot ?had now bx)" by (simp add: slot_def)
  next
    fix x assume x: "x \<in> slot ?had now bx"
    obtain b t where bt: "x = (b, t)" by (cases x)
    show "case x of (b, t) \<Rightarrow> \<forall>k. mark_now counted marks b = Some k \<longrightarrow> hm_through k \<le> t"
      using only [of b t] x unfolding bt by (auto simp: had_mark_now held_from_eq)
    show "case x of (b, t) \<Rightarrow> \<exists>k. mark_now counted marks' b = Some k \<and> t < hm_through k"
      using spec(3) [of b t] only [of b t] x unfolding bt by auto
  next
    fix b k assume "mark_now counted marks b = Some k"
    then show "\<exists>k'. mark_now counted marks' b = Some k' \<and> hm_through k \<le> hm_through k'"
      using spec(2) [of b] spec(4) [of k] by (cases "b = hb_id bx") (auto simp: had_mark_now)
  qed
qed

lemma held_time_Cons: "held_time now (bx # boxes) = {hb_id bx} \<times> {hb_started bx..<stop_of now bx} \<union> held_time now boxes"
  by (simp add: held_time_def)

lemma slot_held: "slot had now bx \<subseteq> {hb_id bx} \<times> {hb_started bx..<stop_of now bx}"
  by (auto simp: slot_def held_from_eq split: option.splits)

lemma held_walk:
  assumes "is_hour h"
  shows "\<exists>B. B \<subseteq> held_time now boxes
    \<and> pays (mark_now counted (snd acc)) (mark_now counted (snd (fold (held_step base keyOf counted now) boxes acc))) B
    \<and> billed_ms h (fst (fold (held_step base keyOf counted now) boxes acc)) = billed_ms h (fst acc) + of_nat (card (in_hour h B))"
proof (induction boxes arbitrary: acc)
  case Nil
  show ?case by (rule exI [of _ "{}"]) (simp add: pays_refl in_hour_def)
next
  case (Cons bx boxes)
  obtain rows marks where acc: "acc = (rows, marks)" by (cases acc)
  obtain rows' marks' where r: "held_step base keyOf counted now bx (rows, marks) = (rows', marks')" by fastforce
  let ?S = "slot (had_mark counted marks bx) now bx"
  from Cons.IH [of "(rows', marks')"] obtain B where B: "B \<subseteq> held_time now boxes"
      "pays (mark_now counted marks') (mark_now counted (snd (fold (held_step base keyOf counted now) boxes (rows', marks')))) B"
      "billed_ms h (fst (fold (held_step base keyOf counted now) boxes (rows', marks'))) = billed_ms h rows' + of_nat (card (in_hour h B))"
    by auto
  have S: "pays (mark_now counted marks) (mark_now counted marks') ?S" by (rule held_step_pays [OF r])
  show ?case
  proof (intro exI [of _ "?S \<union> B"] conjI)
    show "?S \<union> B \<subseteq> held_time now (bx # boxes)" using slot_held B(1) unfolding held_time_Cons by blast
    show "pays (mark_now counted (snd acc)) (mark_now counted (snd (fold (held_step base keyOf counted now) (bx # boxes) acc))) (?S \<union> B)"
      using pays_trans [OF S B(2)] by (simp add: acc r)
    show "billed_ms h (fst (fold (held_step base keyOf counted now) (bx # boxes) acc)) = billed_ms h (fst acc) + of_nat (card (in_hour h (?S \<union> B)))"
      using held_step_spec(1) [OF r assms] by (simp add: acc r B(3) card_in_hour_Un [OF S B(2)])
  qed
qed

text \<open>The marks a walk leaves, stored, are those the next walk reads.\<close>

lemma set_mark_distinct: "distinct (map fst marks) \<Longrightarrow> distinct (map fst (set_mark b k marks))"
  unfolding set_mark_def by (rule distinct_map_upsert) auto

lemma held_step_distinct:
  "distinct (map fst (snd acc)) \<Longrightarrow> distinct (map fst (snd (held_step base keyOf counted now bx acc)))"
  by (auto simp: held_step_def Let_def split_beta set_mark_distinct)

lemma heldRows_distinct: "distinct (map fst (snd (heldRows base keyOf boxes counted now)))"
proof -
  have "distinct (map fst (snd acc)) \<Longrightarrow> distinct (map fst (snd (fold (held_step base keyOf counted now) bs acc)))" for bs acc
    by (induction bs arbitrary: acc) (simp_all add: held_step_distinct)
  then show ?thesis by (simp add: heldRows_def)
qed

lemma mark_of_store: "distinct (map fst marks) \<Longrightarrow> mark_of (store_marks marks counted) b = mark_now counted marks b"
proof (induction marks arbitrary: counted)
  case Nil
  then show ?case by (simp add: store_marks_def mark_now_def mark_of_def)
next
  case (Cons x marks)
  obtain c k where x: "x = (c, k)" by (cases x)
  have "mark_of marks c = None" using Cons.prems x by (force simp: mark_of_def table_simps)
  moreover have "mark_of (x # marks) b = (if b = c then Some k else mark_of marks b)" by (simp add: mark_of_def x)
  moreover have "store_marks (x # marks) counted = store_marks marks (set_mark c k counted)" by (simp add: store_marks_def x)
  ultimately show ?case
    using Cons by (cases "b = c"; cases "mark_of marks b") (simp_all add: mark_now_def mark_of_set_mark)
qed

text \<open>A walk writes the marks of the boxes it was given alone.\<close>

lemma set_mark_ids: "fst ` set (set_mark b k marks) \<subseteq> insert b (fst ` set marks)"
  by (auto simp: set_mark_def upsert_def set_update_where split: if_splits)

lemma held_step_ids: "fst ` set (snd (held_step base keyOf counted now bx acc)) \<subseteq> insert (hb_id bx) (fst ` set (snd acc))"
proof -
  obtain rows marks where a: "acc = (rows, marks)" by (cases acc)
  show ?thesis using set_mark_ids [of "hb_id bx" _ marks] by (simp add: held_step_def Let_def a) blast
qed

lemma heldRows_ids: "fst ` set (snd (heldRows base keyOf boxes counted now)) \<subseteq> hb_id ` set boxes"
proof -
  have "fst ` set (snd (fold (held_step base keyOf counted now) bs acc)) \<subseteq> hb_id ` set bs \<union> fst ` set (snd acc)" for bs acc
  proof (induction bs arbitrary: acc)
    case (Cons b bs)
    from Cons [of "held_step base keyOf counted now b acc"] held_step_ids [of base keyOf counted now b acc] show ?case by auto
  qed simp
  from this [of "order_by hb_started boxes" "([], [])"] show ?thesis by (simp add: heldRows_def)
qed

lemma mark_now_other: "b \<notin> fst ` set marks \<Longrightarrow> mark_now counted marks b = mark_of counted b"
  by (auto simp: mark_now_def mark_of_def get_row_None_iff split: option.split dest: get_row_SomeD)

lemma held_time_ids: "fst ` held_time now boxes \<subseteq> hb_id ` set boxes"
  by (auto simp: held_time_def)

text \<open>Payments of some boxes are payments of all: the marks of the others stand.\<close>

lemma pays_local:
  assumes "pays m m1 B" and "fst ` B \<subseteq> S" and "\<And>b. b \<in> S \<Longrightarrow> g b = m b \<and> g1 b = m1 b" and "\<And>b. b \<notin> S \<Longrightarrow> g1 b = g b"
  shows "pays g g1 B"
proof -
  have S: "b \<in> S" if "(b, t) \<in> B" for b t using assms(2) that by force
  show ?thesis unfolding pays_def
  proof (intro conjI ballI allI impI)
    show "finite B" using assms(1) by (simp add: pays_def)
  next
    fix x assume x: "x \<in> B"
    obtain b t where bt: "x = (b, t)" by (cases x)
    show "case x of (b, t) \<Rightarrow> \<forall>k. g b = Some k \<longrightarrow> hm_through k \<le> t"
      using pays_from [OF assms(1), of b t] assms(3) S x bt by simp
    show "case x of (b, t) \<Rightarrow> \<exists>k. g1 b = Some k \<and> t < hm_through k"
      using pays_till [OF assms(1), of b t] assms(3) S x bt by simp
  next
    fix b k assume "g b = Some k"
    then show "\<exists>k'. g1 b = Some k' \<and> hm_through k \<le> hm_through k'"
      using pays_grows [OF assms(1), of b k] assms(3,4) [of b] by (cases "b \<in> S") auto
  qed
qed

lemma heldRows_pays:
  assumes "is_hour h" and "heldRows base keyOf boxes counted now = (rows, marks)"
    and "\<And>b. b \<in> hb_id ` set boxes \<Longrightarrow> mark_of cur b = mark_of counted b"
  shows "\<exists>B. B \<subseteq> held_time now boxes \<and> pays (mark_of cur) (mark_of (store_marks marks cur)) B
    \<and> billed_ms h rows = of_nat (card (in_hour h B))"
proof -
  have d: "distinct (map fst marks)" using heldRows_distinct [of base keyOf boxes counted now] assms(2) by simp
  have n: "mark_now counted [] = mark_of counted" by (rule ext) (simp add: mark_now_def mark_of_def)
  have t: "held_time now (order_by hb_started boxes) = held_time now boxes" by (simp add: held_time_def)
  from held_walk [OF assms(1), of now "order_by hb_started boxes" counted "([], [])" base keyOf] obtain B where
    B: "B \<subseteq> held_time now boxes" "pays (mark_of counted) (mark_now counted marks) B" "billed_ms h rows = of_nat (card (in_hour h B))"
    using assms(2) by (auto simp: heldRows_def n t)
  have ids: "fst ` set marks \<subseteq> hb_id ` set boxes" using heldRows_ids [of base keyOf boxes counted now] assms(2) by simp
  have "pays (mark_of cur) (mark_of (store_marks marks cur)) B"
  proof (rule pays_local [OF B(2)])
    show "fst ` B \<subseteq> hb_id ` set boxes" using B(1) held_time_ids by blast
    show "mark_of cur b = mark_of counted b \<and> mark_of (store_marks marks cur) b = mark_now counted marks b" if "b \<in> hb_id ` set boxes" for b
      using assms(3) [OF that] by (simp add: mark_of_store [OF d] mark_now_def split: option.split)
    show "mark_of (store_marks marks cur) b = mark_of cur b" if "b \<notin> hb_id ` set boxes" for b
      using mark_now_other [of b marks cur] ids that by (auto simp: mark_of_store [OF d])
  qed
  with B show ?thesis by blast
qed

section \<open>A pass in the database\<close>

text \<open>The milliseconds the outbox bills in an hour.\<close>

definition billed_in :: "int \<Rightarrow> usage_db \<Rightarrow> rat" where
  "billed_in h d = billed_ms h (map snd (usage_outbox d))"

lemma billed_in_append: "billed_in h (appendUsage rows d) = billed_in h d + billed_ms h rows"
proof (induction rows arbitrary: d)
  case (Cons r rows)
  have "billed_in h (append_usage_row r d) = billed_in h d + billed_ms h [r]"
    by (simp add: billed_in_def append_usage_row_def)
  with Cons show ?case by (simp add: appendUsage_def)
qed (simp add: appendUsage_def)

lemma append_held [simp]: "usage_held (appendUsage rows d) = usage_held d"
proof -
  have "usage_held (fold append_usage_row rows d) = usage_held d"
    by (induction rows arbitrary: d) (simp_all add: append_usage_row_def)
  then show ?thesis by (simp add: appendUsage_def)
qed

lemma marks_in_put [simp]: "marks_in (put_marks marks d) = marks"
  by (auto simp: marks_in_def put_marks_def comp_def case_prod_unfold intro!: map_idI prod_eqI)

lemma billed_in_put [simp]: "billed_in h (put_marks marks d) = billed_in h d"
  by (simp add: billed_in_def put_marks_def)

lemma unreadable_bills_nothing [simp]: "billed_ms h (heldUnreadableRows base key act now) = 0"
  by (simp add: heldUnreadableRows_def)

definition report_ids :: "named_report \<Rightarrow> string set" where
  "report_ids rp = hb_id ` set (boxesOf (nr_report rp))"

definition report_time :: "int \<Rightarrow> named_report \<Rightarrow> (string \<times> int) set" where
  "report_time now rp = held_time now (boxesOf (nr_report rp))"

lemma report_time_ids: "fst ` report_time now rp \<subseteq> report_ids rp"
  unfolding report_time_def report_ids_def by (rule held_time_ids)

lemma count_report_pays:
  assumes "is_hour h" and "count_report base counted now rp (out, d) = (out', d')"
    and "\<And>b. b \<in> report_ids rp \<Longrightarrow> mark_of (marks_in d) b = mark_of counted b"
  shows "(\<exists>B. B \<subseteq> report_time now rp \<and> pays (mark_of (marks_in d)) (mark_of (marks_in d')) B
      \<and> billed_in h d' = billed_in h d + of_nat (card (in_hour h B)))
    \<and> (\<forall>b. b \<notin> report_ids rp \<longrightarrow> mark_of (marks_in d') b = mark_of (marks_in d) b)"
proof -
  let ?boxes = "boxesOf (nr_report rp)" and ?key = "\<lambda>b. payerKey (nr_plugin rp) (boxIsOwn b (nr_own rp))"
  let ?marker = "heldUnreadableRows base (payerKey (nr_plugin rp) (nr_own rp)) (Option.bind (nr_report rp) hr_activity) now"
  obtain rows marks where r: "heldRows base ?key ?boxes counted now = (rows, marks)" by fastforce
  let ?d1 = "if rows \<noteq> [] \<or> ?marker \<noteq> [] then appendUsage (rows @ ?marker) d else d"
  have d': "d' = put_marks (store_marks marks (marks_in ?d1)) ?d1" using assms(2) r by (simp add: count_report_def Let_def)
  have m1: "marks_in ?d1 = marks_in d" by (simp add: marks_in_def)
  have bill: "billed_in h d' = billed_in h d + billed_ms h rows" unfolding d' by (simp add: billed_in_append)
  have m': "marks_in d' = store_marks marks (marks_in d)" unfolding d' m1 by simp
  from heldRows_pays [OF assms(1) r, of "marks_in d"] assms(3) obtain B where
    "B \<subseteq> held_time now ?boxes" "pays (mark_of (marks_in d)) (mark_of (marks_in d')) B" "billed_ms h rows = of_nat (card (in_hour h B))"
    by (auto simp: report_ids_def m')
  moreover have "mark_of (marks_in d') b = mark_of (marks_in d) b" if "b \<notin> report_ids rp" for b
  proof -
    have "distinct (map fst marks)" "fst ` set marks \<subseteq> report_ids rp"
      using heldRows_distinct [of base ?key ?boxes counted now] heldRows_ids [of base ?key ?boxes counted now] r by (simp_all add: report_ids_def)
    then show ?thesis using that mark_now_other [of b marks "marks_in d"] by (auto simp: m' mark_of_store)
  qed
  ultimately show ?thesis using bill by (auto simp: report_time_def)
qed

text \<open>No box is in the reports of two mounts.\<close>

definition one_mount_each :: "named_report list \<Rightarrow> bool" where
  "one_mount_each reports \<longleftrightarrow> sorted_wrt (\<lambda>r r'. report_ids r \<inter> report_ids r' = {}) reports"

lemma count_reports_pay:
  assumes "is_hour h" and "one_mount_each reports" and "fold (count_report base counted now) reports (out, d) = (out', d')"
    and "\<And>b. b \<in> (\<Union>rp\<in>set reports. report_ids rp) \<Longrightarrow> mark_of (marks_in d) b = mark_of counted b"
  shows "(\<exists>B. B \<subseteq> (\<Union>rp\<in>set reports. report_time now rp) \<and> pays (mark_of (marks_in d)) (mark_of (marks_in d')) B
      \<and> billed_in h d' = billed_in h d + of_nat (card (in_hour h B)))
    \<and> (\<forall>b. b \<notin> (\<Union>rp\<in>set reports. report_ids rp) \<longrightarrow> mark_of (marks_in d') b = mark_of (marks_in d) b)"
  using assms(2-)
proof (induction reports arbitrary: out d)
  case Nil
  then show ?case by (auto intro!: exI [of _ "{}"] simp: pays_refl in_hour_def)
next
  case (Cons rp reports)
  obtain out1 d1 where r: "count_report base counted now rp (out, d) = (out1, d1)" by fastforce
  have "\<And>b. b \<in> report_ids rp \<Longrightarrow> mark_of (marks_in d) b = mark_of counted b" using Cons.prems(3) by simp
  note one = count_report_pays [OF assms(1) r this]
  from one obtain B where B: "B \<subseteq> report_time now rp" "pays (mark_of (marks_in d)) (mark_of (marks_in d1)) B"
    "billed_in h d1 = billed_in h d + of_nat (card (in_hour h B))" and same: "\<And>b. b \<notin> report_ids rp \<Longrightarrow> mark_of (marks_in d1) b = mark_of (marks_in d) b"
    by blast
  have rest: "one_mount_each reports" "\<And>b. b \<in> (\<Union>rp\<in>set reports. report_ids rp) \<Longrightarrow> b \<notin> report_ids rp"
    using Cons.prems(1) by (auto simp: one_mount_each_def)
  have "\<And>b. b \<in> (\<Union>rp\<in>set reports. report_ids rp) \<Longrightarrow> mark_of (marks_in d1) b = mark_of counted b"
    using Cons.prems(3) same rest(2) by simp
  note IH = Cons.IH [OF rest(1) _ this]
  have f: "fold (count_report base counted now) reports (out1, d1) = (out', d')" using Cons.prems(2) r by simp
  from IH [OF f] obtain C where C: "C \<subseteq> (\<Union>rp\<in>set reports. report_time now rp)" "pays (mark_of (marks_in d1)) (mark_of (marks_in d')) C"
    "billed_in h d' = billed_in h d1 + of_nat (card (in_hour h C))"
    and same2: "\<And>b. b \<notin> (\<Union>rp\<in>set reports. report_ids rp) \<Longrightarrow> mark_of (marks_in d') b = mark_of (marks_in d1) b" by blast
  have "B \<union> C \<subseteq> (\<Union>r\<in>set (rp # reports). report_time now r)" using B(1) C(1) by auto
  moreover have "pays (mark_of (marks_in d)) (mark_of (marks_in d')) (B \<union> C)" by (rule pays_trans [OF B(2) C(2)])
  moreover have "billed_in h d' = billed_in h d + of_nat (card (in_hour h (B \<union> C)))"
    by (simp add: C(3) B(3) card_in_hour_Un [OF B(2) C(2)])
  moreover have "\<forall>b. b \<notin> (\<Union>r\<in>set (rp # reports). report_ids r) \<longrightarrow> mark_of (marks_in d') b = mark_of (marks_in d) b"
    using same same2 by auto
  ultimately show ?case by blast
qed

section \<open>Passes one after another\<close>

text \<open>
  One pass of the object: when it runs, what the mounts report, and what happens to the tables until the next (rows are appended and pruned; only
  a pass writes the watermarks).
\<close>

type_synonym held_pass = "int \<times> named_report list \<times> (usage_db \<Rightarrow> usage_db)"

definition pass_ids :: "held_pass \<Rightarrow> string set" where
  "pass_ids p = (\<Union>rp\<in>set (fst (snd p)). report_ids rp)"

definition pass_time :: "held_pass \<Rightarrow> (string \<times> int) set" where
  "pass_time p = (\<Union>rp\<in>set (fst (snd p)). report_time (fst p) rp)"

lemma pass_time_ids: "fst ` pass_time p \<subseteq> pass_ids p"
  using report_time_ids by (fastforce simp: pass_time_def pass_ids_def image_subset_iff)

definition pass_ok :: "held_pass \<Rightarrow> bool" where
  "pass_ok p \<longleftrightarrow> one_mount_each (fst (snd p)) \<and> (\<forall>d. usage_held (snd (snd p) d) = usage_held d)"

definition pass_db :: "string \<times> string \<Rightarrow> held_pass \<Rightarrow> usage_db \<Rightarrow> usage_db" where
  "pass_db base p d = snd (countHeldTime (fst (snd p)) base (fst p) d)"

text \<open>What passes bill in an hour, each by the rows it appends.\<close>

fun billed_by :: "int \<Rightarrow> string \<times> string \<Rightarrow> held_pass list \<Rightarrow> usage_db \<Rightarrow> rat" where
  "billed_by h base [] d = 0"
| "billed_by h base (p # ps) d = (billed_in h (pass_db base p d) - billed_in h d) + billed_by h base ps (snd (snd p) (pass_db base p d))"

text \<open>The boxes whose watermarks a pass drops; and that none of them is reported by a later pass.\<close>

definition dropped_ids :: "held_pass \<Rightarrow> usage_db \<Rightarrow> string set" where
  "dropped_ids p d = {b \<in> fst ` set (marks_in d). b \<notin> pass_ids p \<and> (\<exists>k. (b, k) \<in> set (marks_in d) \<and> hm_through k < fst p - KEEP_MARKS_MS)}"

fun none_comes_back :: "string \<times> string \<Rightarrow> held_pass list \<Rightarrow> usage_db \<Rightarrow> bool" where
  "none_comes_back base [] d \<longleftrightarrow> True"
| "none_comes_back base (p # ps) d \<longleftrightarrow>
     (\<forall>q\<in>set ps. dropped_ids p d \<inter> pass_ids q = {}) \<and> none_comes_back base ps (snd (snd p) (pass_db base p d))"

lemma mark_of_delete:
  "mark_of (marks_in (d\<lparr>usage_held := delete_where (\<lambda>x. fst x \<in> S) (usage_held d)\<rparr>)) b = (if b \<in> S then None else mark_of (marks_in d) b)"
proof -
  have "get_row (\<lambda>x. fst x = b) (map f (filter (\<lambda>x. fst x \<notin> S) xs)) = (if b \<in> S then None else get_row (\<lambda>x. fst x = b) (map f xs))"
    if "\<And>x. fst (f x) = fst x" for f :: "string \<times> int \<times> int \<Rightarrow> string \<times> held_mark" and xs
    using that by (induction xs) (auto simp: get_row_def)
  then show ?thesis by (simp add: mark_of_def marks_in_def delete_where_def case_prod_unfold)
qed

lemma pass_pays:
  assumes "is_hour h" and "pass_ok p"
  shows "\<exists>B m1. B \<subseteq> pass_time p \<and> pays (mark_of (marks_in d)) m1 B
    \<and> billed_in h (pass_db base p d) = billed_in h d + of_nat (card (in_hour h B))
    \<and> (\<forall>b. b \<notin> pass_ids p \<longrightarrow> m1 b = mark_of (marks_in d) b)
    \<and> (\<forall>b. mark_of (marks_in (snd (snd p) (pass_db base p d))) b = (if b \<in> dropped_ids p d then None else m1 b))"
proof -
  obtain now reports aft where p: "p = (now, reports, aft)" by (cases p)
  obtain out d1 where f: "fold (count_report base (marks_in d) now) reports ([], d) = (out, d1)" by fastforce
  have one: "one_mount_each reports" using assms(2) by (simp add: pass_ok_def p)
  from count_reports_pay [OF assms(1) one f] obtain B where B: "B \<subseteq> (\<Union>rp\<in>set reports. report_time now rp)"
    "pays (mark_of (marks_in d)) (mark_of (marks_in d1)) B" "billed_in h d1 = billed_in h d + of_nat (card (in_hour h B))"
    "\<And>b. b \<notin> (\<Union>rp\<in>set reports. report_ids rp) \<Longrightarrow> mark_of (marks_in d1) b = mark_of (marks_in d) b" by blast
  let ?S = "set (map fst (filter (\<lambda>(b, k). b \<notin> set (concat (map (\<lambda>rp. map hb_id (boxesOf (nr_report rp))) reports))
      \<and> hm_through k < now - KEEP_MARKS_MS) (marks_in d)))"
  have ids: "set (concat (map (\<lambda>rp. map hb_id (boxesOf (nr_report rp))) reports)) = pass_ids p"
    by (simp add: pass_ids_def report_ids_def p)
  have S: "?S = dropped_ids p d"
  proof (rule set_eqI)
    fix b
    have "b \<in> ?S \<longleftrightarrow> (\<exists>k. (b, k) \<in> set (marks_in d) \<and> b \<notin> pass_ids p \<and> hm_through k < now - KEEP_MARKS_MS)"
      unfolding ids by force
    then show "b \<in> ?S \<longleftrightarrow> b \<in> dropped_ids p d" unfolding dropped_ids_def by (force simp: p)
  qed
  have db: "pass_db base p d = d1\<lparr>usage_held := delete_where (\<lambda>x. fst x \<in> ?S) (usage_held d1)\<rparr>"
    by (simp add: pass_db_def countHeldTime_def p f Let_def del: set_map set_filter)
  have marks: "marks_in (snd (snd p) (pass_db base p d)) = marks_in (pass_db base p d)" using assms(2) by (simp add: pass_ok_def marks_in_def)
  have "billed_in h (pass_db base p d) = billed_in h d1" unfolding db by (simp add: billed_in_def)
  moreover have "mark_of (marks_in (snd (snd p) (pass_db base p d))) b = (if b \<in> dropped_ids p d then None else mark_of (marks_in d1) b)" for b
    unfolding marks unfolding db mark_of_delete S ..
  ultimately show ?thesis using B by (intro exI [of _ B] exI [of _ "mark_of (marks_in d1)"]) (simp add: pass_time_def pass_ids_def p)
qed

lemma passes_pay:
  assumes "is_hour h" and "\<forall>p\<in>set ps. pass_ok p" and "none_comes_back base ps d"
    and "\<And>b. b \<in> (\<Union>p\<in>set ps. pass_ids p) \<Longrightarrow> g b = mark_of (marks_in d) b"
  shows "\<exists>B g'. B \<subseteq> (\<Union>p\<in>set ps. pass_time p) \<and> pays g g' B \<and> billed_by h base ps d = of_nat (card (in_hour h B))"
  using assms(2-)
proof (induction ps arbitrary: d g)
  case Nil
  show ?case by (rule exI [of _ "{}"], rule exI [of _ g]) (simp add: pays_refl in_hour_def)
next
  case (Cons p ps)
  have ok: "pass_ok p" using Cons.prems(1) by simp
  from pass_pays [OF assms(1) ok, of d base] obtain B m1 where B: "B \<subseteq> pass_time p" "pays (mark_of (marks_in d)) m1 B"
    "billed_in h (pass_db base p d) = billed_in h d + of_nat (card (in_hour h B))"
    "\<And>b. b \<notin> pass_ids p \<Longrightarrow> m1 b = mark_of (marks_in d) b"
    "\<And>b. mark_of (marks_in (snd (snd p) (pass_db base p d))) b = (if b \<in> dropped_ids p d then None else m1 b)" by blast
  define g1 where "g1 = (\<lambda>b. if b \<in> pass_ids p then m1 b else g b)"
  have P: "pays g g1 B"
  proof (rule pays_local [OF B(2)])
    show "fst ` B \<subseteq> pass_ids p" using B(1) pass_time_ids by blast
    show "g b = mark_of (marks_in d) b \<and> g1 b = m1 b" if "b \<in> pass_ids p" for b using Cons.prems(3) that by (simp add: g1_def)
    show "g1 b = g b" if "b \<notin> pass_ids p" for b using that by (simp add: g1_def)
  qed
  have "g1 b = mark_of (marks_in (snd (snd p) (pass_db base p d))) b" if b: "b \<in> (\<Union>p\<in>set ps. pass_ids p)" for b
  proof -
    have "b \<notin> dropped_ids p d" using Cons.prems(2) b by fastforce
    then show ?thesis using B(4,5) [of b] Cons.prems(3) [of b] b by (simp add: g1_def)
  qed
  with Cons.IH [of "snd (snd p) (pass_db base p d)" g1] Cons.prems(1,2) obtain C g' where C: "C \<subseteq> (\<Union>p\<in>set ps. pass_time p)" "pays g1 g' C"
    "billed_by h base ps (snd (snd p) (pass_db base p d)) = of_nat (card (in_hour h C))" by auto
  show ?case
  proof (intro exI conjI)
    show "B \<union> C \<subseteq> (\<Union>p\<in>set (p # ps). pass_time p)" using B(1) C(1) by auto
    show "pays g g' (B \<union> C)" by (rule pays_trans [OF P C(2)])
    show "billed_by h base (p # ps) d = of_nat (card (in_hour h (B \<union> C)))"
      by (simp add: B(3) C(3) card_in_hour_Un [OF P C(2)])
  qed
qed

lemma finite_held_time: "finite (held_time now boxes)"
  by (simp add: held_time_def)

text \<open>
  C36: Over any number of passes of \<open>countHeldTime\<close>, whatever the mounts report at each and whatever is appended or pruned in between, no box
  is billed twice for a millisecond: the seconds the passes bill for an hour are at most the time its boxes were held in that hour by any report,
  a box's overlapping or repeated sessions counted once, and nothing before the watermark the first pass found is billed again. This rests on
  what the mounts report: in one pass no box is in two mounts' reports, and a box whose watermark a pass drops (one not reported then, and
  counted up to more than a week before) is not reported by a later pass.
\<close>

theorem held_time_is_billed_at_most_once:
  assumes "is_hour h" and "\<forall>p\<in>set ps. pass_ok p" and "none_comes_back base ps d"
  shows "billed_by h base ps d
    \<le> of_nat (card {(b, t) \<in> in_hour h (\<Union>p\<in>set ps. pass_time p). \<forall>k. mark_of (marks_in d) b = Some k \<longrightarrow> hm_through k \<le> t})"
proof -
  let ?T = "\<Union>p\<in>set ps. pass_time p"
  from passes_pay [OF assms, of "mark_of (marks_in d)"] obtain B g' where B: "B \<subseteq> ?T" "pays (mark_of (marks_in d)) g' B"
      "billed_by h base ps d = of_nat (card (in_hour h B))" by blast
  have "card (in_hour h B) \<le> card {(b, t) \<in> in_hour h ?T. \<forall>k. mark_of (marks_in d) b = Some k \<longrightarrow> hm_through k \<le> t}"
  proof (rule card_mono)
    have "finite ?T" by (simp add: pass_time_def report_time_def finite_held_time)
    then show "finite {(b, t) \<in> in_hour h ?T. \<forall>k. mark_of (marks_in d) b = Some k \<longrightarrow> hm_through k \<le> t}"
      by (rule rev_finite_subset) (auto simp: in_hour_def)
    show "in_hour h B \<subseteq> {(b, t) \<in> in_hour h ?T. \<forall>k. mark_of (marks_in d) b = Some k \<longrightarrow> hm_through k \<le> t}"
      using B(1) pays_from [OF B(2)] by (fastforce simp: in_hour_def)
  qed
  with B(3) show ?thesis by simp
qed

text \<open>A box seen alive and, a pass later, ended; what was appended in between is pruned.\<close>

definition a_report :: "held_report \<Rightarrow> named_report" where
  "a_report rp = \<lparr>nr_plugin = ''run9'', nr_report = Some rp, nr_own = False\<rparr>"

definition two_passes :: "held_pass list" where
  "two_passes =
     [(50, [a_report \<lparr>hr_activity = Some \<lparr>ha_live = Some \<lparr>hl_id = ''b'', hl_started = 10, hl_cred = None\<rparr>, ha_aside = [], ha_unreadable = None\<rparr>, hr_usage = []\<rparr>],
         pruneUsage 9),
      (90, [a_report \<lparr>hr_activity = None, hr_usage = [\<lparr>hl_id = ''b'', hl_started = 10, hl_cred = None, hs_ended = 70, hs_uses = Some 2\<rparr>]\<rparr>], id)]"

theorem held_time_is_billed_at_most_once_witness:
  "billed_by 0 (''t'', ''a'') two_passes \<lparr>usage_outbox = [], usage_seq = 0, do_activity = [], usage_active = [], usage_held = []\<rparr> \<le> 60"
proof -
  let ?d = "\<lparr>usage_outbox = [], usage_seq = 0, do_activity = [], usage_active = [], usage_held = []\<rparr>"
  have ids: "\<forall>p\<in>set two_passes. pass_ids p = {''b''}"
    by (simp add: two_passes_def pass_ids_def report_ids_def a_report_def boxesOf_def put_box_def upsert_def has_row_def live_box_def session_box_def)
  have ok: "\<forall>p\<in>set two_passes. pass_ok p" by (simp add: two_passes_def pass_ok_def one_mount_each_def pruneUsage_def)
  have m: "marks_in ?d = []" by (simp add: marks_in_def)
  have gone: "none_comes_back (''t'', ''a'') two_passes ?d"
    using ids by (auto simp: two_passes_def dropped_ids_def)
  have "{(b, t) \<in> in_hour 0 (\<Union>p\<in>set two_passes. pass_time p). \<forall>k. mark_of (marks_in ?d) b = Some k \<longrightarrow> hm_through k \<le> t} = {''b''} \<times> {10..<70}"
    by (auto simp: two_passes_def pass_time_def report_time_def a_report_def boxesOf_def put_box_def upsert_def has_row_def live_box_def session_box_def
        in_hour_def held_time_def stop_of_def m mark_of_def hour_range_def HOUR_MS_def)
  then show ?thesis
    using held_time_is_billed_at_most_once [OF _ ok gone, of 0] by (simp add: is_hour_def)
qed

section \<open>Nothing is left out\<close>

text \<open>Sessions of one box follow one another.\<close>

definition following :: "int \<Rightarrow> held_box list \<Rightarrow> bool" where
  "following now boxes \<longleftrightarrow>
     sorted_wrt (\<lambda>a b. hb_id a = hb_id b \<longrightarrow> stop_of now a \<le> hb_started b) (order_by hb_started boxes)"

definition not_counted :: "held_marks \<Rightarrow> (string \<times> int) set \<Rightarrow> (string \<times> int) set" where
  "not_counted counted S = {(b, t) \<in> S. \<forall>k. mark_of counted b = Some k \<longrightarrow> hm_through k \<le> t}"

text \<open>Where a walk stands on the boxes it has yet to reach: no mark is ahead of them but the one they came with.\<close>

definition on_time :: "held_marks \<Rightarrow> held_marks \<Rightarrow> held_box list \<Rightarrow> bool" where
  "on_time counted marks boxes \<longleftrightarrow> (\<forall>bx\<in>set boxes. \<forall>k. mark_now counted marks (hb_id bx) = Some k
     \<longrightarrow> hm_through k \<le> hb_started bx \<or> (\<exists>k0. mark_of counted (hb_id bx) = Some k0 \<and> hm_through k = hm_through k0))"

lemma slot_not_counted:
  assumes "on_time counted marks (bx # boxes)"
    and "\<And>k0. mark_of counted (hb_id bx) = Some k0 \<Longrightarrow> \<exists>k. mark_now counted marks (hb_id bx) = Some k \<and> hm_through k0 \<le> hm_through k"
  shows "slot (had_mark counted marks bx) now bx = not_counted counted ({hb_id bx} \<times> {hb_started bx..<stop_of now bx})"
proof (cases "mark_now counted marks (hb_id bx)")
  case None
  then have "mark_of counted (hb_id bx) = None" using assms(2) by (cases "mark_of counted (hb_id bx)") auto
  with None show ?thesis by (auto simp: slot_def not_counted_def had_mark_now held_from_eq)
next
  case (Some k)
  with assms(1) consider "hm_through k \<le> hb_started bx"
    | k0 where "mark_of counted (hb_id bx) = Some k0" "hm_through k = hm_through k0" by (auto simp: on_time_def)
  then show ?thesis
  proof cases
    case 1
    then have "\<And>k0. mark_of counted (hb_id bx) = Some k0 \<Longrightarrow> hm_through k0 \<le> hb_started bx" using assms(2) Some by fastforce
    with 1 Some show ?thesis by (auto simp: slot_def not_counted_def had_mark_now held_from_eq)
  next
    case 2
    with Some show ?thesis by (auto simp: slot_def not_counted_def had_mark_now held_from_eq)
  qed
qed

lemma held_walk_all:
  assumes "is_hour h" and "on_time counted marks boxes"
    and "sorted_wrt (\<lambda>a b. hb_id a = hb_id b \<longrightarrow> stop_of now a \<le> hb_started b) boxes"
    and "\<And>b k0. mark_of counted b = Some k0 \<Longrightarrow> \<exists>k. mark_now counted marks b = Some k \<and> hm_through k0 \<le> hm_through k"
  shows "billed_ms h (fst (fold (held_step base keyOf counted now) boxes (rows, marks)))
      = billed_ms h rows + of_nat (card (in_hour h (not_counted counted (held_time now boxes))))
    \<and> pays (mark_now counted marks) (mark_now counted (snd (fold (held_step base keyOf counted now) boxes (rows, marks))))
        (not_counted counted (held_time now boxes))"
  using assms(2-)
proof (induction boxes arbitrary: rows marks)
  case Nil
  have "not_counted counted (held_time now []) = {}" by (simp add: held_time_def not_counted_def)
  then show ?case by (simp add: pays_refl in_hour_def)
next
  case (Cons bx boxes)
  obtain rows' marks' where r: "held_step base keyOf counted now bx (rows, marks) = (rows', marks')" by fastforce
  note spec = held_step_spec [OF r assms(1)]
  let ?S = "slot (had_mark counted marks bx) now bx"
  have S: "?S = not_counted counted ({hb_id bx} \<times> {hb_started bx..<stop_of now bx})"
    using Cons.prems(1,3) by (rule slot_not_counted)
  have P: "pays (mark_now counted marks) (mark_now counted marks') ?S" by (rule held_step_pays [OF r])
  have time: "on_time counted marks' boxes"
    unfolding on_time_def
  proof (intro ballI allI impI)
    fix c k assume c: "c \<in> set boxes" and k: "mark_now counted marks' (hb_id c) = Some k"
    have old: "mark_now counted marks (hb_id c) = Some k' \<Longrightarrow>
        hm_through k' \<le> hb_started c \<or> (\<exists>k0. mark_of counted (hb_id c) = Some k0 \<and> hm_through k' = hm_through k0)" for k'
      using Cons.prems(1) c by (simp add: on_time_def)
    show "hm_through k \<le> hb_started c \<or> (\<exists>k0. mark_of counted (hb_id c) = Some k0 \<and> hm_through k = hm_through k0)"
    proof (cases "hb_id c = hb_id bx")
      case False
      with spec(2) [of "hb_id c"] k old show ?thesis by simp
    next
      case True
      have stop: "stop_of now bx \<le> hb_started c" using Cons.prems(2) c True by simp
      from k have k': "mark_now counted marks' (hb_id bx) = Some k" using True by simp
      from spec(5) [OF k'] consider "mark_now counted marks (hb_id c) = Some k" | "hm_through k \<le> stop_of now bx"
        | k0 where "mark_now counted marks (hb_id c) = Some k0" "hm_through k = hm_through k0"
        using k' True unfolding had_mark_now by metis
      then show ?thesis using stop old by cases fastforce+
    qed
  qed
  have grown: "\<And>b k0. mark_of counted b = Some k0 \<Longrightarrow> \<exists>k. mark_now counted marks' b = Some k \<and> hm_through k0 \<le> hm_through k"
    using Cons.prems(3) pays_grows [OF P] by (meson order.trans)
  have srt: "sorted_wrt (\<lambda>a b. hb_id a = hb_id b \<longrightarrow> stop_of now a \<le> hb_started b) boxes" using Cons.prems(2) by simp
  note IH = Cons.IH [OF time srt grown, of rows']
  have U: "not_counted counted (held_time now (bx # boxes)) = ?S \<union> not_counted counted (held_time now boxes)"
    unfolding S held_time_Cons by (auto simp: not_counted_def)
  show ?case
    using IH pays_trans [OF P conjunct2 [OF IH]] spec(1) card_in_hour_Un [OF P conjunct2 [OF IH], of h]
    unfolding U by (simp add: r)
qed

text \<open>
  Where a box's sessions follow one another, a pass bills all that its watermarks leave: the seconds it bills for an hour are exactly
  the time of that hour in which a session ran at or after its box's watermark. None of it is left out by the switch from one
  session to the next, by a box alive over many passes or by hours that have long passed.
\<close>

theorem a_pass_bills_all_that_is_new:
  assumes "is_hour h" and "following now boxes"
  shows "billed_ms h (fst (heldRows base keyOf boxes counted now))
    = of_nat (card (in_hour h (not_counted counted (held_time now boxes))))"
proof -
  have n: "mark_now counted [] = mark_of counted" by (rule ext) (simp add: mark_now_def mark_of_def)
  have t: "held_time now (order_by hb_started boxes) = held_time now boxes" by (simp add: held_time_def)
  have "on_time counted [] (order_by hb_started boxes)" by (auto simp: on_time_def n)
  with held_walk_all [OF assms(1) _ assms(2) [unfolded following_def], of counted "[]" base keyOf "[]"] show ?thesis
    by (simp add: heldRows_def n t)
qed

theorem a_pass_bills_all_that_is_new_witness:
  "billed_ms 0 (fst (heldRows (''t'', ''a'') (\<lambda>_. ''run9'')
      [\<lparr>hb_id = ''b'', hb_started = 60, hb_ended = None, hb_uses = None, hb_cred = None\<rparr>,
       \<lparr>hb_id = ''b'', hb_started = 10, hb_ended = Some 50, hb_uses = None, hb_cred = None\<rparr>]
      [(''b'', \<lparr>hm_through = 20, hm_uses = 0\<rparr>)] 75)) = 45"
proof -
  let ?bs = "[\<lparr>hb_id = ''b'', hb_started = 60, hb_ended = None, hb_uses = None, hb_cred = None\<rparr>,
       \<lparr>hb_id = ''b'', hb_started = 10, hb_ended = Some 50, hb_uses = None, hb_cred = None\<rparr>]"
  let ?k = "[(''b'', \<lparr>hm_through = 20, hm_uses = 0\<rparr>)]"
  have f: "following 75 ?bs" by (simp add: following_def order_by_def stop_of_def)
  have "in_hour 0 (not_counted ?k (held_time 75 ?bs)) = {''b''} \<times> {20..<50} \<union> {''b''} \<times> {60..<75}"
    by (auto simp: in_hour_def not_counted_def held_time_def stop_of_def mark_of_def hour_range_def HOUR_MS_def)
  moreover have "card ({''b''} \<times> {20..<50::int} \<union> {''b''} \<times> {60..<75}) = 45"
    by (subst card_Un_disjoint) (auto simp: card_cartesian_product)
  ultimately show ?thesis
    using a_pass_bills_all_that_is_new [OF _ f, of 0 "(''t'', ''a'')" "\<lambda>_. ''run9''" ?k] by (simp add: is_hour_def)
qed

end
