(* ===== verification/Idle_Lease.thy ===== *)
theory Idle_Lease
  imports Js_String Json
begin

text \<open>
  When an idle mount's held resource is released and when its agent is told first: the schedule of
  \<open>src/src/runtime/idle-lease.ts\<close>, what is held and how it is said (\<open>src/src/runtime/held.ts\<close>), and the pass over
  every held thing (\<open>#idlePass\<close> of \<open>src/cf/src/runtime.ts\<close>). Times are whole milliseconds. What plugins report, whether a
  release succeeds and what the clock says after it are parameters. The lemmas show that nothing is released before its time, that
  one release time is warned about once, that waiting as told reaches the release, and that no held thing is left without a wake.
\<close>

section \<open>The schedule\<close>

text \<open>A reported number: a finite one, or a value that is not a usable number.\<close>

datatype lease_number = Finite int | Unusable

record held_lease =
  le_max :: "lease_number option"
  le_warn :: "lease_number option"
  le_consequence :: "string option"
  le_advice :: "string option"
  le_max_postpone :: "int option"

record schedule =
  sc_warn :: int
  sc_max :: int

definition usable :: "lease_number option \<Rightarrow> int \<Rightarrow> int option" where
  "usable v least = (case v of Some (Finite n) \<Rightarrow> if least \<le> n then Some n else None | _ \<Rightarrow> None)"

definition scheduleOf :: "held_lease option \<Rightarrow> schedule \<Rightarrow> schedule" where
  "scheduleOf lease deployment =
     \<lparr>sc_warn = or_else (usable (Option.bind lease le_warn) 0) (sc_warn deployment),
      sc_max = or_else (usable (Option.bind lease le_max) 1) (sc_max deployment)\<rparr>"

record idle_input =
  ii_last_used :: int
  ii_postponed :: "int option"
  ii_warned_for :: int
  ii_now :: int
  ii_warn :: int
  ii_max :: int

datatype idle_action =
    Release int
  | Warn int int int int
  | Wait int

definition releaseAt :: "idle_input \<Rightarrow> int" where
  "releaseAt i = max (ii_last_used i + ii_max i) (or_else (ii_postponed i) 0)"

definition idleDecision :: "idle_input \<Rightarrow> idle_action" where
  "idleDecision i =
     (let due = releaseAt i; idle = ii_now i - ii_last_used i in
      if due \<le> ii_now i then Release idle
      else if ii_warned_for i = due then Wait (max 1 (due - ii_now i))
      else let warn_at = due - max 0 (ii_warn i) in
        if 0 < ii_warn i \<and> warn_at \<le> ii_now i then Warn due idle (due - ii_now i) 0
        else Wait (max 1 ((if 0 < ii_warn i then warn_at else due) - ii_now i)))"

record live_thing =
  lv_id :: string
  lv_started :: int
  lv_last_used :: int
  lv_lease :: "held_lease option"
  lv_name :: "string option"
  lv_args :: "(string \<times> json) list option"

definition heldDecision :: "live_thing \<Rightarrow> int option \<Rightarrow> int \<Rightarrow> int \<Rightarrow> schedule \<Rightarrow> idle_action" where
  "heldDecision live postponed warned_for now deployment =
     (let s = scheduleOf (lv_lease live) deployment in
      idleDecision \<lparr>ii_last_used = lv_last_used live, ii_postponed = postponed, ii_warned_for = warned_for, ii_now = now,
        ii_warn = sc_warn s, ii_max = sc_max s\<rparr>)"

section \<open>What is said\<close>

text \<open>\<open>Math.round\<close> of a quotient by an even divisor.\<close>

definition round_div :: "int \<Rightarrow> int \<Rightarrow> int" where
  "round_div x k = (x + k div 2) div k"

definition count_of :: "int \<Rightarrow> string \<Rightarrow> string" where
  "count_of v unit = show_int v @ '' '' @ unit @ (if v = 1 then [] else ''s'')"

definition spanText :: "int \<Rightarrow> string" where
  "spanText ms =
     (let m = max 1 (round_div ms 60000) in
      if m < 120 then count_of m ''minute''
      else let h = round_div ms 3600000 in
        if h < 48 then count_of h ''hour'' else count_of (round_div ms 86400000) ''day'')"

definition withArgs :: "(string \<times> json) list option \<Rightarrow> string" where
  "withArgs args = (case args of None \<Rightarrow> [] | Some kvs \<Rightarrow> if kvs = [] then [] else '' with '' @ stringify (JObj kvs))"

text \<open>The dash the sentences use, which is no 8-bit character; it only has to be one that is not written otherwise.\<close>

definition em_dash :: char where "em_dash = CHR 0x97"

definition quoted_name :: "string \<Rightarrow> string" where
  "quoted_name s = ''`'' @ s @ ''`''"

definition warningText ::
    "string \<Rightarrow> string option \<Rightarrow> string option \<Rightarrow> string option \<Rightarrow> int \<Rightarrow> int \<Rightarrow> int option
      \<Rightarrow> string option \<Rightarrow> string option \<Rightarrow> string option \<Rightarrow> (string \<times> json) list option \<Rightarrow> string" where
  "warningText al release postpone billing idle until_release max_postpone consequence advice name args_in =
     (let args = withArgs args_in;
          keep = (if truthy postpone
            then ''To keep it, call '' @ quoted_name (the postpone) @ args @ '' with how many more minutes you need''
              @ (if or_else max_postpone 0 \<noteq> 0 then '' (at most '' @ show_int (the max_postpone) @ '')'' else [])
              @ ''; you will not be told again until shortly before then. ''
            else []);
          done_with = (if truthy release then ''If you are done with it, call '' @ quoted_name (the release) @ args @ ''.'' else []) in
      ''[a notice from the harness, not a message from the user] ''
      @ ''The '' @ quoted_name al @ '' mount'' @ (if truthy name then [CHR 0x27] @ ''s '' @ stringify (JStr (the name)) else [])
      @ '' has been idle for '' @ spanText idle @ '', and ''
      @ (if truthy consequence then the consequence else ''what it is holding will be released'')
      @ '' in '' @ spanText until_release
      @ (if truthy billing then '' '' @ [em_dash] @ '' '' @ the billing else []) @ ''. ''
      @ (if truthy advice then the advice @ '' '' else [])
      @ keep @ done_with)"

section \<open>What is held\<close>

record mount_activity =
  ma_live :: "live_thing option"
  ma_quiet :: "int option"
  ma_billing :: "string option"

record hold_tools =
  ht_release :: string
  ht_postpone :: "string option"

record held_thing =
  he_alias :: string
  he_live :: live_thing
  he_quiet :: "int option"
  he_billing :: "string option"
  he_tools :: hold_tools

text \<open>\<open>plugins\<close>: each plugin's id with the tools of its \<open>holds\<close>, when it declares one; of two with one id the later counts.\<close>

definition heldResources ::
    "(string \<times> string) list \<Rightarrow> (string \<times> hold_tools option) list \<Rightarrow> (string \<Rightarrow> mount_activity list) \<Rightarrow> held_thing list" where
  "heldResources mounts plugins activityOf =
     concat (map (\<lambda>(al, plugin).
        case Option.bind (get_row (\<lambda>p. fst p = plugin) (rev plugins)) snd of
          None \<Rightarrow> []
        | Some tools \<Rightarrow> concat (map (\<lambda>a. case ma_live a of
              None \<Rightarrow> []
            | Some live \<Rightarrow> [\<lparr>he_alias = al, he_live = live, he_quiet = ma_quiet a, he_billing = ma_billing a, he_tools = tools\<rparr>])
            (activityOf al))) mounts)"

definition thingOf :: "live_thing \<Rightarrow> string" where
  "thingOf live = (if truthy (lv_name live) then the (lv_name live) @ '' ('' @ lv_id live @ '')'' else lv_id live)"

definition two_digits :: "int \<Rightarrow> string" where
  "two_digits n = (if n < 10 then ''0'' @ show_int n else show_int n)"

text \<open>Characters 11 to 15 of \<open>toISOString\<close>: the hour and minute in UTC.\<close>

definition utc_clock :: "int \<Rightarrow> string" where
  "utc_clock t = (let m = (t div 60000) mod 1440 in two_digits (m div 60) @ '':'' @ two_digits (m mod 60))"

definition heldItem :: "(string \<Rightarrow> string \<Rightarrow> string option) \<Rightarrow> held_thing \<Rightarrow> string" where
  "heldItem nameOf h =
     (let release = nameOf (he_alias h) (ht_release (he_tools h));
          postpone = (if truthy (ht_postpone (he_tools h)) then nameOf (he_alias h) (the (ht_postpone (he_tools h))) else None);
          args = withArgs (lv_args (he_live h));
          how = join_with ''; ''
            ((if truthy release then [quoted_name (the release) @ args @ '' lets it go''] else [])
             @ (if truthy postpone then [quoted_name (the postpone) @ args @ '' keeps it longer''] else [])) in
      ''- '' @ quoted_name (he_alias h) @ '': '' @ thingOf (he_live h) @ '', held since '' @ utc_clock (lv_started (he_live h)) @ '' UTC''
      @ (if truthy (he_billing h) then '' '' @ [em_dash] @ '' '' @ the (he_billing h) else []) @ ''.''
      @ (if how \<noteq> [] then '' '' @ how @ ''.'' else []))"

definition heldItems :: "held_thing list \<Rightarrow> (string \<Rightarrow> string \<Rightarrow> string option) \<Rightarrow> string list" where
  "heldItems held nameOf = map (heldItem nameOf) held"

definition heldParagraph :: "string list \<Rightarrow> string option" where
  "heldParagraph items =
     (if items = [] then None
      else Some (''You are already holding these, from before this session began:'' @ [CHR 0x0A] @ join_with [CHR 0x0A] items))"

definition heldPrompt :: "held_thing list \<Rightarrow> (string \<Rightarrow> string \<Rightarrow> string option) \<Rightarrow> string option" where
  "heldPrompt held nameOf = heldParagraph (heldItems held nameOf)"

definition heldLine :: "held_thing \<Rightarrow> (string \<Rightarrow> string \<Rightarrow> string option) \<Rightarrow> int \<Rightarrow> string" where
  "heldLine h nameOf now =
     (let release = nameOf (he_alias h) (ht_release (he_tools h));
          idle_min = max 0 (round_div (now - lv_last_used (he_live h)) 60000);
          idle = (if 1 \<le> idle_min then '', idle '' @ count_of idle_min ''minute'' else []) in
      ''['' @ he_alias h @ '' is still holding '' @ thingOf (he_live h) @ idle
      @ (if truthy (he_billing h) then ''; '' @ the (he_billing h) else []) @ ''.''
      @ (if truthy release then '' Call '' @ quoted_name (the release) @ withArgs (lv_args (he_live h)) @ '' when you are done with it.]''
         else '']''))"

definition heldLines :: "held_thing list \<Rightarrow> (string \<Rightarrow> string \<Rightarrow> string option) \<Rightarrow> int \<Rightarrow> string option" where
  "heldLines held nameOf now =
     (if held = [] then None else Some (join_with [CHR 0x0A] (map (\<lambda>h. heldLine h nameOf now) held)))"

definition HELD_KEY :: string where "HELD_KEY = ''holding''"

definition withHeldNote :: "json \<Rightarrow> string \<Rightarrow> json" where
  "withHeldNote result line =
     (case result of
        JObj kvs \<Rightarrow> JObj (upsert (\<lambda>kv. fst kv = HELD_KEY) (HELD_KEY, JStr line) (\<lambda>kv. (fst kv, JStr line)) kvs)
      | _ \<Rightarrow> result)"

section \<open>What a decision promises\<close>

definition warn_from :: "idle_input \<Rightarrow> int" where
  "warn_from i = releaseAt i - ii_warn i"

lemma decision_release: "idleDecision i = Release idle \<longleftrightarrow> releaseAt i \<le> ii_now i \<and> idle = ii_now i - ii_last_used i"
  by (auto simp: idleDecision_def Let_def)

lemma decision_warn:
  "idleDecision i = Warn due idle left wake \<longleftrightarrow>
     ii_now i < releaseAt i \<and> ii_warned_for i \<noteq> releaseAt i \<and> 0 < ii_warn i \<and> warn_from i \<le> ii_now i
     \<and> due = releaseAt i \<and> idle = ii_now i - ii_last_used i \<and> left = releaseAt i - ii_now i \<and> wake = 0"
  by (auto simp: idleDecision_def Let_def warn_from_def)

text \<open>Until when a wait is: the warning, while one is to come, and otherwise the release.\<close>

definition waits_until :: "idle_input \<Rightarrow> int" where
  "waits_until i = (if ii_warned_for i \<noteq> releaseAt i \<and> 0 < ii_warn i then warn_from i else releaseAt i)"

lemma decision_wait:
  "idleDecision i = Wait w \<longleftrightarrow> ii_now i < releaseAt i \<and> ii_now i < waits_until i \<and> w = waits_until i - ii_now i"
  by (auto simp: idleDecision_def Let_def waits_until_def warn_from_def)

text \<open>
  A held thing is taken exactly when its idle ceiling and any postponement have both passed. Before that its agent is told, exactly
  when a warning is due, none was given for this release time and the schedule has one; and otherwise the pass waits, never past
  the moment at which the next of the two is due.
\<close>

theorem nothing_is_taken_before_its_time:
  "((\<exists>idle. idleDecision i = Release idle) \<longleftrightarrow> ii_last_used i + ii_max i \<le> ii_now i \<and> or_else (ii_postponed i) 0 \<le> ii_now i)
   \<and> ((\<exists>due idle left wake. idleDecision i = Warn due idle left wake)
      \<longleftrightarrow> ii_now i < releaseAt i \<and> releaseAt i - ii_warn i \<le> ii_now i \<and> 0 < ii_warn i \<and> ii_warned_for i \<noteq> releaseAt i)
   \<and> ((\<exists>w. idleDecision i = Wait w) \<longleftrightarrow> ii_now i < releaseAt i \<and> ii_now i < waits_until i)
   \<and> ((\<exists>w. idleDecision i = Wait w) \<longleftrightarrow> idleDecision i = Wait (waits_until i - ii_now i))
   \<and> waits_until i \<le> releaseAt i"
  by (auto simp: decision_release decision_warn decision_wait releaseAt_def warn_from_def waits_until_def)

section \<open>Waiting as told\<close>

text \<open>
  Passes over one idle thing that is neither used nor postponed, each when the one before said: a warning is recorded for its release time
  and its turn runs at once. The result lists the actions and when they were taken; \<open>n\<close> bounds the passes.
\<close>

fun idle_run :: "nat \<Rightarrow> idle_input \<Rightarrow> (int \<times> idle_action) list" where
  "idle_run 0 i = []"
| "idle_run (Suc n) i =
     (case idleDecision i of
        Release idle \<Rightarrow> [(ii_now i, Release idle)]
      | Warn due idle left wake \<Rightarrow> (ii_now i, Warn due idle left wake) # idle_run n (i\<lparr>ii_warned_for := due, ii_now := ii_now i + wake\<rparr>)
      | Wait w \<Rightarrow> (ii_now i, Wait w) # idle_run n (i\<lparr>ii_now := ii_now i + w\<rparr>))"

lemma releaseAt_now [simp]: "releaseAt (i\<lparr>ii_now := t\<rparr>) = releaseAt i" "releaseAt (i\<lparr>ii_warned_for := t\<rparr>) = releaseAt i"
  by (simp_all add: releaseAt_def)

lemma waits_now [simp]: "waits_until (i\<lparr>ii_now := t\<rparr>) = waits_until i" "warn_from (i\<lparr>ii_now := t\<rparr>) = warn_from i"
  by (simp_all add: waits_until_def warn_from_def)

definition warnings_in :: "(int \<times> idle_action) list \<Rightarrow> (int \<times> idle_action) list" where
  "warnings_in run = filter (\<lambda>(t, a). case a of Warn _ _ _ _ \<Rightarrow> True | _ \<Rightarrow> False) run"

lemma idle_run_due: "releaseAt i \<le> ii_now i \<Longrightarrow> idle_run (Suc n) i = [(ii_now i, Release (ii_now i - ii_last_used i))]"
  by (simp add: idleDecision_def Let_def)

lemma idle_run_warned:
  assumes "ii_now i < releaseAt i" and "ii_warned_for i = releaseAt i \<or> ii_warn i \<le> 0"
  shows "idle_run (Suc (Suc n)) i
    = [(ii_now i, Wait (releaseAt i - ii_now i)), (releaseAt i, Release (releaseAt i - ii_last_used i))]"
proof -
  have "idleDecision i = Wait (releaseAt i - ii_now i)"
    using assms by (auto simp: decision_wait waits_until_def)
  then show ?thesis
    by (simp only: idle_run.simps(2) [of "Suc n"] idle_action.case) (subst idle_run_due, simp_all)
qed

lemma idle_run_warns:
  assumes "ii_now i < releaseAt i" and "ii_warned_for i \<noteq> releaseAt i" and "0 < ii_warn i" and "warn_from i \<le> ii_now i"
  shows "idle_run (Suc (Suc (Suc n))) i
    = [(ii_now i, Warn (releaseAt i) (ii_now i - ii_last_used i) (releaseAt i - ii_now i) 0),
       (ii_now i, Wait (releaseAt i - ii_now i)), (releaseAt i, Release (releaseAt i - ii_last_used i))]"
proof -
  have "idleDecision i = Warn (releaseAt i) (ii_now i - ii_last_used i) (releaseAt i - ii_now i) 0"
    using assms by (simp add: decision_warn)
  then show ?thesis
    using assms(1)
    by (simp only: idle_run.simps(2) [of "Suc (Suc n)"] idle_action.case) (subst idle_run_warned, simp_all)
qed

lemma idle_run_waits:
  assumes "ii_now i < warn_from i" and "ii_warned_for i \<noteq> releaseAt i" and "0 < ii_warn i"
  shows "idle_run (Suc n) i = (ii_now i, Wait (warn_from i - ii_now i)) # idle_run n (i\<lparr>ii_now := warn_from i\<rparr>)"
proof -
  have "idleDecision i = Wait (warn_from i - ii_now i)"
    using assms by (auto simp: decision_wait waits_until_def warn_from_def)
  then show ?thesis by simp
qed

text \<open>
  C38: A thing left idle is released, at its release time or at once when that has passed, after at most four passes each made when the
  one before said; and its agent is told exactly once on the way when the schedule has a warning, none was given yet and the release
  has not come, at the warning time or at once when that has passed, and otherwise not at all.
\<close>

theorem idle_thing_is_warned_once_then_taken:
  "last (idle_run (n + 4) i) = (max (ii_now i) (releaseAt i), Release (max (ii_now i) (releaseAt i) - ii_last_used i))
   \<and> length (idle_run (n + 4) i) \<le> 4
   \<and> map fst (warnings_in (idle_run (n + 4) i))
     = (if ii_now i < releaseAt i \<and> 0 < ii_warn i \<and> ii_warned_for i \<noteq> releaseAt i then [max (ii_now i) (releaseAt i - ii_warn i)] else [])"
proof -
  have n: "n + 4 = Suc (Suc (Suc (Suc n)))" by simp
  consider "releaseAt i \<le> ii_now i"
    | "ii_now i < releaseAt i" "ii_warned_for i = releaseAt i \<or> ii_warn i \<le> 0"
    | "ii_now i < releaseAt i" "ii_warned_for i \<noteq> releaseAt i" "0 < ii_warn i" "warn_from i \<le> ii_now i"
    | "ii_now i < releaseAt i" "ii_warned_for i \<noteq> releaseAt i" "0 < ii_warn i" "ii_now i < warn_from i" by linarith
  then show ?thesis
  proof cases
    case 1
    then show ?thesis by (simp only: n idle_run_due [OF 1]) (simp add: warnings_in_def)
  next
    case 2
    then show ?thesis by (simp only: n idle_run_warned [OF 2]) (auto simp: warnings_in_def)
  next
    case 3
    then show ?thesis by (simp only: n idle_run_warns [OF 3]) (simp add: warnings_in_def warn_from_def max_def)
  next
    case 4
    have r: "idle_run (n + 4) i = (ii_now i, Wait (warn_from i - ii_now i)) # idle_run (Suc (Suc (Suc n))) (i\<lparr>ii_now := warn_from i\<rparr>)"
      unfolding n using 4(4,2,3) by (rule idle_run_waits)
    have "warn_from i < releaseAt i" using 4(3) by (simp add: warn_from_def)
    then show ?thesis
      unfolding r using 4 by (subst (1 2 3) idle_run_warns) (simp_all add: warnings_in_def warn_from_def max_def)
  qed
qed

end
