(* ===== verification/Idle_Pass.thy ===== *)
theory Idle_Pass
  imports Idle_Lease
begin

text \<open>
  One look at every mount that is holding something (\<open>#idlePass\<close> of \<open>src/cf/src/runtime.ts\<close>): tell its agent, take
  it, or come back later. The plugins' answers, the releases, the messages and the clock after a release are parameters; the two tables
  the pass keeps are its state.
\<close>

section \<open>The pass\<close>

text \<open>\<open>releaseRetryMs\<close> of \<open>src/src/plugins/types.ts\<close>.\<close>

definition releaseRetryMs :: "nat \<Rightarrow> int" where
  "releaseRetryMs failures = min (5 * 60000 * 2 ^ (failures - 1)) (6 * 3600000)"

record idle_db =
  held_warnings :: "((string \<times> string) \<times> int) list"
  release_retry :: "((string \<times> string) \<times> int \<times> nat) list"
  posted :: "string list"

datatype post_result = Posted | Needs_Reset | Post_Failed

record idle_mount =
  im_alias :: string
  im_plugin :: string
  im_max_quiet :: "int option"

text \<open>The world of a pass: what mounts report, tool names as offered, releases (the aliases that failed), the clock after one, messages.\<close>

record idle_env =
  ie_activities :: "string \<Rightarrow> mount_activity list"
  ie_name :: "string \<Rightarrow> string \<Rightarrow> string option"
  ie_release :: "string \<Rightarrow> string \<Rightarrow> string list"
  ie_after :: "string \<Rightarrow> string \<Rightarrow> mount_activity list"
  ie_later :: "string \<Rightarrow> string \<Rightarrow> int"
  ie_post :: "string \<Rightarrow> post_result"

definition key_of :: "held_thing \<Rightarrow> string \<times> string" where
  "key_of h = (he_alias h, lv_id (he_live h))"

definition soon :: "int \<Rightarrow> int option \<Rightarrow> int option" where
  "soon ms wake = Some (case wake of None \<Rightarrow> ms | Some w \<Rightarrow> min w ms)"

definition warned_for :: "idle_db \<Rightarrow> string \<times> string \<Rightarrow> int" where
  "warned_for d k = or_else (map_option snd (get_row (\<lambda>r. fst r = k) (held_warnings d))) 0"

definition retry_of :: "idle_db \<Rightarrow> string \<times> string \<Rightarrow> (int \<times> nat) option" where
  "retry_of d k = map_option snd (get_row (\<lambda>r. fst r = k) (release_retry d))"

definition set_warned :: "string \<times> string \<Rightarrow> int \<Rightarrow> idle_db \<Rightarrow> idle_db" where
  "set_warned k due d = d\<lparr>held_warnings := upsert (\<lambda>r. fst r = k) (k, due) (\<lambda>r. (fst r, due)) (held_warnings d)\<rparr>"

definition set_retry :: "string \<times> string \<Rightarrow> int \<Rightarrow> nat \<Rightarrow> idle_db \<Rightarrow> idle_db" where
  "set_retry k next n d = d\<lparr>release_retry := upsert (\<lambda>r. fst r = k) (k, next, n) (\<lambda>r. (fst r, next, n)) (release_retry d)\<rparr>"

definition forget_thing :: "string \<times> string \<Rightarrow> idle_db \<Rightarrow> idle_db" where
  "forget_thing k d = d\<lparr>held_warnings := delete_where (\<lambda>r. fst r = k) (held_warnings d),
     release_retry := delete_where (\<lambda>r. fst r = k) (release_retry d)\<rparr>"

definition own_live :: "mount_activity list \<Rightarrow> string \<Rightarrow> live_thing option" where
  "own_live acts lid = Option.bind (find (\<lambda>a. map_option lv_id (ma_live a) = Some lid) acts) ma_live"

definition said_limit :: "idle_mount list \<Rightarrow> held_thing \<Rightarrow> int option" where
  "said_limit mounts h =
     (let own = or_else (Option.bind (lv_lease (he_live h)) le_max_postpone) 0;
          mount = or_else (Option.bind (get_row (\<lambda>m. im_alias m = he_alias h) mounts) im_max_quiet) 0 in
      if own \<noteq> 0 then Some own else if mount \<noteq> 0 then Some mount else None)"

definition said_warning :: "idle_env \<Rightarrow> idle_mount list \<Rightarrow> held_thing \<Rightarrow> int \<Rightarrow> int \<Rightarrow> string" where
  "said_warning env mounts h idle left =
     (let live = he_live h; lease = lv_lease live in
      warningText (he_alias h) (ie_name env (he_alias h) (ht_release (he_tools h)))
        (if truthy (ht_postpone (he_tools h)) then ie_name env (he_alias h) (the (ht_postpone (he_tools h))) else None)
        (he_billing h) idle left (said_limit mounts h)
        (Option.bind lease le_consequence) (Option.bind lease le_advice) (lv_name live) (lv_args live))"

text \<open>What one held thing adds: the earliest wake so far, the releases that failed, the tables.\<close>

definition take_thing ::
    "idle_env \<Rightarrow> schedule \<Rightarrow> int \<Rightarrow> held_thing \<Rightarrow> int option \<times> string list \<times> idle_db \<Rightarrow> int option \<times> string list \<times> idle_db" where
  "take_thing env deployment now h acc =
     (case acc of (wake, failed, d) \<Rightarrow>
       let k = key_of h; lid = lv_id (he_live h); retry = retry_of d k in
       if retry \<noteq> None \<and> now < fst (the retry) then (soon (fst (the retry) - now) wake, failed, d)
       else let refused = ie_release env (he_alias h) lid; later = ie_later env (he_alias h) lid in
         if he_alias h \<in> set refused
         then let n = Suc (or_else (map_option snd retry) 0); next = later + releaseRetryMs n in
           (soon (next - later) wake, failed @ refused, set_retry k next n d)
         else let wake' = (case own_live (ie_after env (he_alias h) lid) lid of
               None \<Rightarrow> wake
             | Some after \<Rightarrow> (case heldDecision after None 0 later deployment of
                 Release _ \<Rightarrow> wake | Warn _ _ _ w \<Rightarrow> soon w wake | Wait w \<Rightarrow> soon w wake)) in
           (wake', failed @ refused, forget_thing k d))"

text \<open>\<open>None\<close>: the message could not be posted, and the pass ends with that error.\<close>

definition idle_thing ::
    "idle_env \<Rightarrow> schedule \<Rightarrow> int \<Rightarrow> idle_mount list \<Rightarrow> held_thing \<Rightarrow> int option \<times> string list \<times> idle_db
      \<Rightarrow> (int option \<times> string list \<times> idle_db) option \<times> idle_db" where
  "idle_thing env deployment now mounts h acc =
     (case acc of (wake, failed, d) \<Rightarrow>
       (case heldDecision (he_live h) (Some (or_else (he_quiet h) 0)) (warned_for d (key_of h)) now deployment of
          Wait w \<Rightarrow> (Some (soon w wake, failed, d), d)
        | Warn due idle left w \<Rightarrow>
            let text = said_warning env mounts h idle left in
            (case ie_post env text of
               Post_Failed \<Rightarrow> (None, d)
             | r \<Rightarrow> let d1 = set_warned (key_of h) due (if r = Posted then d\<lparr>posted := posted d @ [text]\<rparr> else d) in
                 (Some (soon w wake, failed, d1), d1))
        | Release _ \<Rightarrow> (let a = take_thing env deployment now h acc in (Some a, snd (snd a)))))"

fun idle_things ::
    "idle_env \<Rightarrow> schedule \<Rightarrow> int \<Rightarrow> idle_mount list \<Rightarrow> held_thing list \<Rightarrow> int option \<times> string list \<times> idle_db
      \<Rightarrow> (int option \<times> string list) option \<times> idle_db" where
  "idle_things env deployment now mounts [] acc = (case acc of (wake, failed, d) \<Rightarrow> (Some (wake, failed), d))"
| "idle_things env deployment now mounts (h # hs) acc =
     (case idle_thing env deployment now mounts h acc of
        (None, d) \<Rightarrow> (None, d)
      | (Some acc', _) \<Rightarrow> idle_things env deployment now mounts hs acc')"

definition idlePass ::
    "idle_env \<Rightarrow> schedule \<Rightarrow> int \<Rightarrow> (string \<times> hold_tools option) list \<Rightarrow> string list \<Rightarrow> idle_mount list \<Rightarrow> idle_db
      \<Rightarrow> (int option \<times> string list) option \<times> idle_db" where
  "idlePass env deployment now plugins busy all_mounts d =
     (let mounts = filter (\<lambda>m. im_alias m \<notin> set busy) all_mounts;
          held = heldResources (map (\<lambda>m. (im_alias m, im_plugin m)) mounts) plugins (ie_activities env);
          d1 = d\<lparr>release_retry := delete_where (\<lambda>r. fst (fst r) \<notin> set busy \<and> \<not> list_ex (\<lambda>h. key_of h = fst r) held) (release_retry d)\<rparr> in
      idle_things env deployment now mounts held (None, [], d1))"

section \<open>Every held thing has a wake\<close>

lemma releaseRetryMs_bounds: "0 < releaseRetryMs n \<and> releaseRetryMs n \<le> 21600000"
  by (simp add: releaseRetryMs_def)

lemma releaseRetryMs_first: "releaseRetryMs 1 = 300000"
  by (simp add: releaseRetryMs_def)

text \<open>Doubling until the ceiling.\<close>

lemma releaseRetryMs_doubles: "0 < n \<Longrightarrow> releaseRetryMs (Suc n) = min (2 * releaseRetryMs n) 21600000"
proof -
  assume "0 < n"
  then obtain k where "n = Suc k" by (cases n) auto
  then show ?thesis by (simp add: releaseRetryMs_def min_def)
qed

definition wakes_by :: "int option \<Rightarrow> int \<Rightarrow> bool" where
  "wakes_by wake w \<longleftrightarrow> (case wake of None \<Rightarrow> False | Some x \<Rightarrow> x \<le> w)"

lemma wakes_by_soon [simp]: "wakes_by (soon w wake) w" "wakes_by wake v \<Longrightarrow> wakes_by (soon w wake) v"
  by (auto simp: wakes_by_def soon_def split: option.splits)

lemma take_thing_keeps: "wakes_by (fst acc) v \<Longrightarrow> wakes_by (fst (take_thing env deployment now h acc)) v"
  by (auto simp: take_thing_def Let_def split_beta split: option.split idle_action.split)

lemma idle_thing_keeps:
  "idle_thing env deployment now mounts h acc = (Some acc', d) \<Longrightarrow> wakes_by (fst acc) v \<Longrightarrow> wakes_by (fst acc') v"
  using take_thing_keeps [of acc v env deployment now h]
  by (auto simp: idle_thing_def Let_def split_beta split: idle_action.splits post_result.splits)

lemma idle_things_keep:
  "idle_things env deployment now mounts hs acc = (Some (wake, failed), d) \<Longrightarrow> wakes_by (fst acc) v \<Longrightarrow> wakes_by wake v"
proof (induction hs arbitrary: acc)
  case Nil
  then show ?case by (simp add: split_beta)
next
  case (Cons h hs)
  then show ?case using idle_thing_keeps [of env deployment now mounts h acc _ _ v]
    by (auto split: prod.splits option.splits)
qed
text \<open>When a thing is due, by its own schedule.\<close>

definition due_at :: "schedule \<Rightarrow> held_thing \<Rightarrow> int" where
  "due_at deployment h =
     max (lv_last_used (he_live h) + sc_max (scheduleOf (lv_lease (he_live h)) deployment)) (or_else (he_quiet h) 0)"

definition told_at :: "schedule \<Rightarrow> held_thing \<Rightarrow> int" where
  "told_at deployment h = due_at deployment h - sc_warn (scheduleOf (lv_lease (he_live h)) deployment)"

lemma held_release:
  "(\<exists>idle. heldDecision (he_live h) (Some (or_else (he_quiet h) 0)) warned now deployment = Release idle) \<longleftrightarrow> due_at deployment h \<le> now"
  by (simp add: heldDecision_def Let_def decision_release releaseAt_def due_at_def)

lemma held_warn:
  "heldDecision (he_live h) (Some (or_else (he_quiet h) 0)) warned now deployment = Warn due idle left w \<Longrightarrow>
     now < due_at deployment h \<and> warned \<noteq> due_at deployment h \<and> due = due_at deployment h \<and> w = 0 \<and> told_at deployment h \<le> now"
  by (auto simp: heldDecision_def Let_def decision_warn releaseAt_def due_at_def told_at_def warn_from_def)

lemma held_wait:
  "heldDecision (he_live h) (Some (or_else (he_quiet h) 0)) warned now deployment = Wait w \<Longrightarrow>
     now < due_at deployment h \<and> now + w \<le> due_at deployment h
     \<and> (warned = due_at deployment h \<or> now < told_at deployment h \<or> told_at deployment h = due_at deployment h)"
  using scheduleOf_def
  by (auto simp: heldDecision_def Let_def decision_wait waits_until_def releaseAt_def due_at_def told_at_def warn_from_def split: if_splits)

section \<open>What one thing changes\<close>

lemma warned_for_set [simp]: "warned_for (set_warned k due d) k' = (if k' = k then due else warned_for d k')"
proof (cases "k' = k")
  case True
  have "get_row (\<lambda>r. fst r = k) (upsert (\<lambda>r. fst r = k) (k, due) (\<lambda>r. (fst r, due)) (held_warnings d))
      = Some (case get_row (\<lambda>r. fst r = k) (held_warnings d) of None \<Rightarrow> (k, due) | Some r \<Rightarrow> (fst r, due))"
    by (rule get_row_upsert_same) simp_all
  with True show ?thesis by (simp add: warned_for_def set_warned_def split: option.split)
next
  case False
  have "get_row (\<lambda>r. fst r = k') (upsert (\<lambda>r. fst r = k) (k, due) (\<lambda>r. (fst r, due)) (held_warnings d))
      = get_row (\<lambda>r. fst r = k') (held_warnings d)"
    using False by (intro get_row_upsert_other) auto
  with False show ?thesis by (simp add: warned_for_def set_warned_def)
qed

lemma retry_of_set: "retry_of (set_retry k next n d) k' = (if k' = k then Some (next, n) else retry_of d k')"
proof (cases "k' = k")
  case True
  have "get_row (\<lambda>r. fst r = k) (upsert (\<lambda>r. fst r = k) (k, next, n) (\<lambda>r. (fst r, next, n)) (release_retry d))
      = Some (case get_row (\<lambda>r. fst r = k) (release_retry d) of None \<Rightarrow> (k, next, n) | Some r \<Rightarrow> (fst r, next, n))"
    by (rule get_row_upsert_same) simp_all
  with True show ?thesis by (simp add: retry_of_def set_retry_def split: option.split)
next
  case False
  have "get_row (\<lambda>r. fst r = k') (upsert (\<lambda>r. fst r = k) (k, next, n) (\<lambda>r. (fst r, next, n)) (release_retry d))
      = get_row (\<lambda>r. fst r = k') (release_retry d)"
    using False by (intro get_row_upsert_other) auto
  with False show ?thesis by (simp add: retry_of_def set_retry_def)
qed

lemma table_simps_idle [simp]:
  "warned_for (set_retry k next n d) k' = warned_for d k'"
  "warned_for (d\<lparr>posted := ts\<rparr>) k' = warned_for d k'" "warned_for (d\<lparr>release_retry := rs\<rparr>) k' = warned_for d k'"
  "retry_of (set_warned k due d) k' = retry_of d k'" "retry_of (d\<lparr>posted := ts\<rparr>) k' = retry_of d k'"
  by (simp_all add: warned_for_def set_retry_def retry_of_def set_warned_def)

lemma forget_other: "k' \<noteq> k \<Longrightarrow> warned_for (forget_thing k d) k' = warned_for d k' \<and> retry_of (forget_thing k d) k' = retry_of d k'"
  by (auto simp: forget_thing_def warned_for_def retry_of_def intro!: arg_cong [where f = "map_option snd"]
      arg_cong [where f = "\<lambda>r. or_else (map_option snd r) 0"] get_row_delete_other)

lemma take_thing_other:
  "k \<noteq> key_of h \<Longrightarrow> warned_for (snd (snd (take_thing env deployment now h acc))) k = warned_for (snd (snd acc)) k
     \<and> retry_of (snd (snd (take_thing env deployment now h acc))) k = retry_of (snd (snd acc)) k"
  by (auto simp: take_thing_def Let_def split_beta retry_of_set forget_other)

text \<open>What a thing leaves in the tables, whether or not the pass goes on.\<close>

lemma idle_thing_db:
  "idle_thing env deployment now mounts h acc = (Some acc', d') \<Longrightarrow> snd (snd acc') = d'"
  by (auto simp: idle_thing_def Let_def split_beta split: idle_action.splits post_result.splits)

lemma idle_thing_other:
  assumes "k \<noteq> key_of h" and "idle_thing env deployment now mounts h acc = (r, d')"
  shows "warned_for d' k = warned_for (snd (snd acc)) k \<and> retry_of d' k = retry_of (snd (snd acc)) k"
  using assms take_thing_other [OF assms(1), of env deployment now acc]
  by (auto simp: idle_thing_def Let_def split_beta split: idle_action.splits post_result.splits if_splits)

section \<open>One warning for a release time\<close>

lemma idle_thing_warned:
  assumes "idle_thing env deployment now mounts h acc = (r, d')" and "now < due_at deployment h"
    and "warned_for (snd (snd acc)) (key_of h) = due_at deployment h"
  shows "warned_for d' (key_of h) = due_at deployment h"
proof (cases "heldDecision (he_live h) (Some (or_else (he_quiet h) 0)) (warned_for (snd (snd acc)) (key_of h)) now deployment")
  case (Release idle)
  then have "due_at deployment h \<le> now"
    using held_release [of h "warned_for (snd (snd acc)) (key_of h)" now deployment] by blast
  with assms(2) show ?thesis by simp
next
  case (Warn due idle left w)
  then show ?thesis using held_warn [OF Warn] assms(3) by simp
next
  case (Wait w)
  then show ?thesis using assms(1,3) by (auto simp: idle_thing_def split_beta)
qed

lemma idle_thing_warns:
  assumes "idle_thing env deployment now mounts h acc = (Some acc', d')"
    and "now < due_at deployment h" and "told_at deployment h \<le> now" and "told_at deployment h < due_at deployment h"
  shows "warned_for d' (key_of h) = due_at deployment h"
proof (cases "heldDecision (he_live h) (Some (or_else (he_quiet h) 0)) (warned_for (snd (snd acc)) (key_of h)) now deployment")
  case (Release idle)
  then have "due_at deployment h \<le> now"
    using held_release [of h "warned_for (snd (snd acc)) (key_of h)" now deployment] by blast
  with assms(2) show ?thesis by simp
next
  case (Warn due idle left w)
  then show ?thesis
    using held_warn [OF Warn] assms(1) by (auto simp: idle_thing_def Let_def split_beta split: post_result.splits if_splits)
next
  case (Wait w)
  then show ?thesis using held_wait [OF Wait] assms by (auto simp: idle_thing_def split_beta)
qed

text \<open>A pass over things that, where they have the key, all have the release time \<open>due\<close> yet to come.\<close>

definition all_due :: "schedule \<Rightarrow> int \<Rightarrow> string \<times> string \<Rightarrow> int \<Rightarrow> held_thing list \<Rightarrow> bool" where
  "all_due deployment now k due hs \<longleftrightarrow> list_all (\<lambda>h. key_of h = k \<longrightarrow> due_at deployment h = due \<and> now < due) hs"

lemma all_due_Cons:
  "all_due deployment now k due (h # hs) \<longleftrightarrow> (key_of h = k \<longrightarrow> due_at deployment h = due \<and> now < due) \<and> all_due deployment now k due hs"
  by (simp add: all_due_def)

lemma idle_things_warned:
  assumes "all_due deployment now k due hs" and "warned_for (snd (snd acc)) k = due"
  shows "warned_for (snd (idle_things env deployment now mounts hs acc)) k = due"
  using assms
proof (induction hs arbitrary: acc)
  case Nil
  then show ?case by (simp add: split_beta)
next
  case (Cons h hs)
  obtain r d' where r: "idle_thing env deployment now mounts h acc = (r, d')" by fastforce
  have w: "warned_for d' k = due"
  proof (cases "key_of h = k")
    case True
    then have "due_at deployment h = due" "now < due" using Cons.prems(1) by (simp_all add: all_due_Cons)
    with idle_thing_warned [OF r] True Cons.prems(2) show ?thesis by simp
  next
    case False
    then show ?thesis using idle_thing_other [OF _ r, of k] Cons.prems(2) by auto
  qed
  show ?case
  proof (cases r)
    case None
    with r w show ?thesis by simp
  next
    case (Some acc')
    with r have "snd (snd acc') = d'" using idle_thing_db by blast
    with Cons w Some r show ?thesis by (simp add: all_due_Cons)
  qed
qed

lemma idle_things_warns:
  assumes "all_due deployment now k due hs" and "h \<in> set hs" and "key_of h = k" and "told_at deployment h \<le> now" "told_at deployment h < due"
    and "fst (idle_things env deployment now mounts hs acc) \<noteq> None"
  shows "warned_for (snd (idle_things env deployment now mounts hs acc)) k = due"
  using assms(1,2,6)
proof (induction hs arbitrary: acc)
  case Nil
  then show ?case by simp
next
  case (Cons g hs)
  obtain r d' where r: "idle_thing env deployment now mounts g acc = (r, d')" by fastforce
  with Cons.prems(3) obtain acc' where s: "r = Some acc'" by (cases r) auto
  have db: "snd (snd acc') = d'" using r s idle_thing_db by blast
  have rest: "all_due deployment now k due hs" using Cons.prems(1) by (simp add: all_due_Cons)
  have eq: "idle_things env deployment now mounts (g # hs) acc = idle_things env deployment now mounts hs acc'" using r s by simp
  show ?case
  proof (cases "g = h")
    case True
    then have "due_at deployment h = due" "now < due" using Cons.prems(1) assms(3) by (simp_all add: all_due_Cons)
    then have "warned_for d' k = due" using idle_thing_warns [OF r [unfolded s]] True assms(3-5) by simp
    then show ?thesis unfolding eq using db by (intro idle_things_warned [OF rest]) simp
  next
    case False
    with Cons.prems(2) have "h \<in> set hs" by simp
    then show ?thesis unfolding eq using Cons.IH [OF rest] Cons.prems(3) eq by simp
  qed
qed

text \<open>A look: everything a pass is made with.\<close>

record idle_look =
  lk_env :: idle_env
  lk_schedule :: schedule
  lk_now :: int
  lk_plugins :: "(string \<times> hold_tools option) list"
  lk_busy :: "string list"
  lk_mounts :: "idle_mount list"

definition look_held :: "idle_look \<Rightarrow> held_thing list" where
  "look_held l = heldResources (map (\<lambda>m. (im_alias m, im_plugin m)) (filter (\<lambda>m. im_alias m \<notin> set (lk_busy l)) (lk_mounts l)))
     (lk_plugins l) (ie_activities (lk_env l))"

definition take_look :: "idle_look \<Rightarrow> idle_db \<Rightarrow> (int option \<times> string list) option \<times> idle_db" where
  "take_look l d = idlePass (lk_env l) (lk_schedule l) (lk_now l) (lk_plugins l) (lk_busy l) (lk_mounts l) d"

lemma take_look_eq:
  "\<exists>mounts rs. take_look l d = idle_things (lk_env l) (lk_schedule l) (lk_now l) mounts (look_held l) (None, [], d\<lparr>release_retry := rs\<rparr>)"
  unfolding take_look_def idlePass_def look_held_def Let_def by blast

text \<open>Only a message that cannot be posted ends a pass early.\<close>

lemma take_look_goes_through:
  assumes "\<And>t. ie_post (lk_env l) t \<noteq> Post_Failed"
  shows "fst (take_look l d) \<noteq> None"
proof -
  have one: "fst (idle_thing (lk_env l) deployment now mounts h acc) \<noteq> None" for deployment now mounts h acc
    using assms
    by (cases "heldDecision (he_live h) (Some (or_else (he_quiet h) 0)) (warned_for (snd (snd acc)) (key_of h)) now deployment")
      (simp_all add: idle_thing_def Let_def split_beta del: not_None_eq split: post_result.split)
  have "fst (idle_things (lk_env l) deployment now mounts hs acc) \<noteq> None" for deployment now mounts hs acc
  proof (induction hs arbitrary: acc)
    case (Cons h hs)
    obtain r d' where r: "idle_thing (lk_env l) deployment now mounts h acc = (r, d')" by fastforce
    with one [of deployment now mounts h acc] obtain acc' where "r = Some acc'" by (cases r) auto
    with r Cons show ?case by simp
  qed (simp add: split_beta)
  with take_look_eq [of l d] show ?thesis by metis
qed

definition still_due :: "string \<times> string \<Rightarrow> int \<Rightarrow> idle_look \<Rightarrow> bool" where
  "still_due k due l \<longleftrightarrow> all_due (lk_schedule l) (lk_now l) k due (look_held l)"

text \<open>Whether a look would warn about a thing, given what the tables say.\<close>

definition would_warn :: "idle_look \<Rightarrow> idle_db \<Rightarrow> held_thing \<Rightarrow> bool" where
  "would_warn l d h =
     (case heldDecision (he_live h) (Some (or_else (he_quiet h) 0)) (warned_for d (key_of h)) (lk_now l) (lk_schedule l) of
        Warn _ _ _ _ \<Rightarrow> True | _ \<Rightarrow> False)"

text \<open>
  An agent is warned once about a release time: when a pass has gone through while a held thing's warning was due, no later pass warns
  about that thing again as long as its release time stays the same and has not come, however many passes there are, whatever else
  is held in them and even if some of them end in an error.
\<close>

theorem a_release_time_is_warned_of_once:
  assumes "still_due k due l" and "h \<in> set (look_held l)" and "key_of h = k"
    and "told_at (lk_schedule l) h \<le> lk_now l" and "told_at (lk_schedule l) h < due"
    and "fst (take_look l d) \<noteq> None" and "list_all (still_due k due) ls" and "still_due k due l'" and "h' \<in> set (look_held l')"
    and "key_of h' = k"
  shows "\<not> would_warn l' (fold (\<lambda>l d. snd (take_look l d)) ls (snd (take_look l d))) h'"
proof -
  have first: "warned_for (snd (take_look l d)) k = due"
    using take_look_eq [of l d] idle_things_warns [OF assms(1) [unfolded still_due_def] assms(2-5)] assms(6) by metis
  have later: "warned_for (fold (\<lambda>l d. snd (take_look l d)) ls e) k = due" if "warned_for e k = due" for e
    using assms(7) that
  proof (induction ls arbitrary: e)
    case (Cons m ls)
    obtain mounts rs where m: "take_look m e
        = idle_things (lk_env m) (lk_schedule m) (lk_now m) mounts (look_held m) (None, [], e\<lparr>release_retry := rs\<rparr>)"
      using take_look_eq [of m e] by blast
    have "warned_for (snd (take_look m e)) k = due"
      unfolding m using Cons.prems by (intro idle_things_warned) (simp_all add: still_due_def)
    with Cons show ?case by simp
  qed simp
  have "due_at (lk_schedule l') h' = due" using assms(8-10) by (simp add: still_due_def all_due_def list_all_iff)
  with held_warn [of h' "warned_for (fold (\<lambda>l d. snd (take_look l d)) ls (snd (take_look l d))) k" "lk_now l'" "lk_schedule l'"]
  show ?thesis using later [OF first] assms(10) by (auto simp: would_warn_def split: idle_action.split)
qed

definition sample_thing :: held_thing where
  "sample_thing = \<lparr>he_alias = ''box'',
     he_live = \<lparr>lv_id = ''b1'', lv_started = 0, lv_last_used = 100, lv_lease = None, lv_name = None, lv_args = None\<rparr>,
     he_quiet = None, he_billing = None, he_tools = \<lparr>ht_release = ''release'', ht_postpone = None\<rparr>\<rparr>"

definition sample_env :: idle_env where
  "sample_env = \<lparr>ie_activities = (\<lambda>_. [\<lparr>ma_live = Some (he_live sample_thing), ma_quiet = None, ma_billing = None\<rparr>]),
     ie_name = (\<lambda>_ _. None), ie_release = (\<lambda>_ _. []), ie_after = (\<lambda>_ _. []), ie_later = (\<lambda>_ _. 0), ie_post = (\<lambda>_. Posted)\<rparr>"

definition sample_look :: "int \<Rightarrow> idle_look" where
  "sample_look now = \<lparr>lk_env = sample_env, lk_schedule = \<lparr>sc_warn = 200, sc_max = 900\<rparr>, lk_now = now,
     lk_plugins = [(''run9'', Some \<lparr>ht_release = ''release'', ht_postpone = None\<rparr>)], lk_busy = [],
     lk_mounts = [\<lparr>im_alias = ''box'', im_plugin = ''run9'', im_max_quiet = None\<rparr>]\<rparr>"

lemma sample_held: "look_held (sample_look now) = [sample_thing]"
  by (simp add: look_held_def sample_look_def heldResources_def sample_env_def sample_thing_def)

lemma sample_due: "due_at (lk_schedule (sample_look now)) sample_thing = 1000" "told_at (lk_schedule (sample_look now)) sample_thing = 800"
  by (simp_all add: sample_look_def sample_thing_def due_at_def told_at_def scheduleOf_def usable_def)

theorem a_release_time_is_warned_of_once_witness:
  "\<not> would_warn (sample_look 880)
     (fold (\<lambda>l d. snd (take_look l d)) [sample_look 870]
       (snd (take_look (sample_look 850) \<lparr>held_warnings = [], release_retry = [], posted = []\<rparr>))) sample_thing"
proof (rule a_release_time_is_warned_of_once)
  have due: "still_due (''box'', ''b1'') 1000 (sample_look now)" if "now < 1000" for now
    using that by (simp add: still_due_def all_due_def sample_held sample_due) (simp add: sample_look_def)
  show "still_due (''box'', ''b1'') 1000 (sample_look 850)" "still_due (''box'', ''b1'') 1000 (sample_look 880)"
    "list_all (still_due (''box'', ''b1'') 1000) [sample_look 870]" by (simp_all add: due)
  show "sample_thing \<in> set (look_held (sample_look 850))" "sample_thing \<in> set (look_held (sample_look 880))"
    by (simp_all add: sample_held)
  show "key_of sample_thing = (''box'', ''b1'')" "key_of sample_thing = (''box'', ''b1'')"
    by (simp_all add: key_of_def sample_thing_def)
  show "told_at (lk_schedule (sample_look 850)) sample_thing \<le> lk_now (sample_look 850)"
    "told_at (lk_schedule (sample_look 850)) sample_thing < 1000" unfolding sample_due by (simp_all add: sample_look_def)
  show "fst (take_look (sample_look 850) \<lparr>held_warnings = [], release_retry = [], posted = []\<rparr>) \<noteq> None"
    by (rule take_look_goes_through) (simp add: sample_look_def sample_env_def)
qed

section \<open>No held thing is left without a wake\<close>

text \<open>
  What a pass owes a held thing, by where the thing stands when its turn comes: before its release time a wake no later than it; at a pending
  retry a wake no later than that; after a refused release a wake for the retry; and after a release that left the thing held, a wake
  for its new schedule, unless by that schedule it is due again at once.
\<close>

definition looked_after :: "idle_env \<Rightarrow> schedule \<Rightarrow> int \<Rightarrow> (int \<times> nat) option \<Rightarrow> held_thing \<Rightarrow> int option \<Rightarrow> bool" where
  "looked_after env deployment now retry h wake =
     (let lid = lv_id (he_live h); later = ie_later env (he_alias h) lid in
      if now < due_at deployment h then wakes_by wake (due_at deployment h - now)
      else if retry \<noteq> None \<and> now < fst (the retry) then wakes_by wake (fst (the retry) - now)
      else if he_alias h \<in> set (ie_release env (he_alias h) lid) then wakes_by wake (releaseRetryMs (Suc (or_else (map_option snd retry) 0)))
      else (case own_live (ie_after env (he_alias h) lid) lid of
          None \<Rightarrow> True
        | Some after \<Rightarrow> (case heldDecision after None 0 later deployment of
            Release _ \<Rightarrow> True | Warn _ _ _ w \<Rightarrow> wakes_by wake w | Wait w \<Rightarrow> wakes_by wake w)))"

lemma looked_after_keeps:
  assumes "looked_after env deployment now retry h (fst acc)"
    and "\<And>v. wakes_by (fst acc) v \<Longrightarrow> wakes_by wake v"
  shows "looked_after env deployment now retry h wake"
  using assms unfolding looked_after_def Let_def by (auto split: option.splits idle_action.splits)

lemma take_thing_looks_after:
  assumes "\<not> now < due_at deployment h"
  shows "looked_after env deployment now (retry_of (snd (snd acc)) (key_of h)) h (fst (take_thing env deployment now h acc))"
proof -
  obtain wake failed d where acc: "acc = (wake, failed, d)" by (cases acc) auto
  let ?lid = "lv_id (he_live h)" and ?retry = "retry_of d (key_of h)"
  consider "?retry \<noteq> None \<and> now < fst (the ?retry)"
    | "\<not> (?retry \<noteq> None \<and> now < fst (the ?retry))" "he_alias h \<in> set (ie_release env (he_alias h) ?lid)"
    | "\<not> (?retry \<noteq> None \<and> now < fst (the ?retry))" "he_alias h \<notin> set (ie_release env (he_alias h) ?lid)" by blast
  then show ?thesis
  proof cases
    case 1
    then show ?thesis using assms
      unfolding acc looked_after_def take_thing_def Let_def prod.case snd_conv if_P [OF 1] if_not_P [OF assms] by simp
  next
    case 2
    then show ?thesis
      unfolding acc looked_after_def take_thing_def Let_def prod.case snd_conv if_not_P [OF 2(1)] if_not_P [OF assms] if_P [OF 2(2)] by simp
  next
    case 3
    show ?thesis
      unfolding acc looked_after_def take_thing_def Let_def prod.case snd_conv if_not_P [OF 3(1)] if_not_P [OF assms] if_not_P [OF 3(2)]
      by (simp split: option.split idle_action.split)
  qed
qed

lemma idle_thing_looks_after:
  assumes "idle_thing env deployment now mounts h acc = (Some acc', d')"
  shows "looked_after env deployment now (retry_of (snd (snd acc)) (key_of h)) h (fst acc')"
proof (cases "heldDecision (he_live h) (Some (or_else (he_quiet h) 0)) (warned_for (snd (snd acc)) (key_of h)) now deployment")
  case (Release idle)
  then have late: "\<not> now < due_at deployment h"
    using held_release [of h "warned_for (snd (snd acc)) (key_of h)" now deployment] by auto
  have "acc' = take_thing env deployment now h acc"
    using assms Release by (simp add: idle_thing_def split_beta Let_def)
  then show ?thesis using late take_thing_looks_after [of now deployment h env acc] by simp
next
  case (Warn due idle left w)
  have "fst acc' = soon w (fst acc)"
    using assms Warn by (auto simp: idle_thing_def Let_def split_beta split: post_result.splits if_splits)
  then show ?thesis using held_warn [OF Warn] by (auto simp: looked_after_def wakes_by_def soon_def split: option.split)
next
  case (Wait w)
  have "fst acc' = soon w (fst acc)" using assms Wait by (auto simp: idle_thing_def split_beta)
  then show ?thesis using held_wait [OF Wait] by (auto simp: looked_after_def wakes_by_def soon_def split: option.split)
qed

lemma idle_things_look_after:
  assumes "distinct (map key_of hs)" and "h \<in> set hs"
    and "idle_things env deployment now mounts hs acc = (Some (wake, failed), d')"
  shows "looked_after env deployment now (retry_of (snd (snd acc)) (key_of h)) h wake"
  using assms
proof (induction hs arbitrary: acc)
  case Nil
  then show ?case by simp
next
  case (Cons g hs)
  obtain r d1 where r: "idle_thing env deployment now mounts g acc = (r, d1)" by fastforce
  with Cons.prems(3) obtain acc' where s: "r = Some acc'" by (cases r) auto
  have db: "snd (snd acc') = d1" using r s idle_thing_db by blast
  have rest: "idle_things env deployment now mounts hs acc' = (Some (wake, failed), d')" using Cons.prems(3) r s by simp
  show ?case
  proof (cases "g = h")
    case True
    show ?thesis
      using idle_thing_looks_after [OF r [unfolded s]] unfolding True
      by (rule looked_after_keeps) (rule idle_things_keep [OF rest])
  next
    case False
    with Cons.prems(2) have h: "h \<in> set hs" by simp
    with Cons.prems(1) have "key_of h \<noteq> key_of g" "distinct (map key_of hs)" by (auto simp: image_iff)
    with h have "h \<in> set hs" "key_of h \<noteq> key_of g" "distinct (map key_of hs)" by simp_all
    then show ?thesis
      using Cons.IH [OF _ _ rest] idle_thing_other [OF _ r, of "key_of h"] db by auto
  qed
qed

text \<open>
  A pass that goes through leaves no held thing behind: with the ids under an alias distinct, every thing it looked at is either gone or
  due again at once after its release, or the pass asks to be run again no later than that thing's release time, its pending retry, the
  retry of the release just refused (at most six hours later), or what the schedule of what is left of it says.
\<close>

theorem no_held_thing_is_left_without_a_wake:
  assumes "distinct (map key_of (look_held l))" and "h \<in> set (look_held l)" and "take_look l d = (Some (wake, failed), d')"
  shows "looked_after (lk_env l) (lk_schedule l) (lk_now l) (retry_of d (key_of h)) h wake"
proof -
  let ?p = "\<lambda>r. fst (fst r) \<notin> set (lk_busy l) \<and> \<not> list_ex (\<lambda>h. key_of h = fst r) (look_held l)"
  let ?d = "d\<lparr>release_retry := delete_where ?p (release_retry d)\<rparr>"
  have "get_row (\<lambda>r. fst r = key_of h) (delete_where ?p (release_retry d)) = get_row (\<lambda>r. fst r = key_of h) (release_retry d)"
    using assms(2) by (intro get_row_delete_other) (auto simp: list_ex_iff)
  then have "retry_of ?d (key_of h) = retry_of d (key_of h)" by (simp add: retry_of_def)
  moreover have "idle_things (lk_env l) (lk_schedule l) (lk_now l) (filter (\<lambda>m. im_alias m \<notin> set (lk_busy l)) (lk_mounts l)) (look_held l)
      (None, [], ?d) = (Some (wake, failed), d')"
    using assms(3) by (simp add: take_look_def idlePass_def look_held_def Let_def)
  ultimately show ?thesis using idle_things_look_after [OF assms(1,2)] by force
qed

theorem no_held_thing_is_left_without_a_wake_witness:
  "looked_after sample_env \<lparr>sc_warn = 200, sc_max = 900\<rparr> 500 None sample_thing (Some 300)"
proof -
  have e: "take_look (sample_look 500) \<lparr>held_warnings = [], release_retry = [], posted = []\<rparr>
      = (Some (Some 300, []), \<lparr>held_warnings = [], release_retry = [], posted = []\<rparr>)"
    using take_look_eq [of "sample_look 500" "\<lparr>held_warnings = [], release_retry = [], posted = []\<rparr>"]
    by (simp add: take_look_def idlePass_def sample_look_def sample_env_def sample_thing_def heldResources_def idle_thing_def
        heldDecision_def idleDecision_def Let_def scheduleOf_def usable_def releaseAt_def warned_for_def soon_def delete_where_def)
  have "distinct (map key_of (look_held (sample_look 500)))" "sample_thing \<in> set (look_held (sample_look 500))"
    by (simp_all add: sample_held)
  from no_held_thing_is_left_without_a_wake [OF this e] show ?thesis
    by (simp add: sample_look_def retry_of_def)
qed

end
