(* ===== verification/Background_Jobs.thy ===== *)
theory Background_Jobs
  imports Idle_Lease Operations "HOL-Library.Sublist"
begin

text \<open>
  Tool calls that outlive a turn (\<open>src/src/runtime/background-jobs.ts\<close>): the table of jobs, the pass that checks the due ones,
  the ceiling, the agent's own tool and the refusal over the cap. What a plugin answers, whether an operation's end and a message
  go through, and what other steps do to the table while a call is awaited are parameters. The lemmas show that a job ends once,
  that a late answer changes nothing, that every job has a next check and none outlives the ceiling, and what is told of each.
\<close>

section \<open>Jobs\<close>

datatype job_state = Job_Running | Job_Done | Job_Failed | Job_Cancelled

record background_job =
  bj_id :: string
  bj_mount :: string
  bj_tool :: string
  bj_handle :: json
  bj_state :: job_state
  bj_created :: int
  bj_finished :: "int option"
  bj_polls :: nat
  bj_session :: string
  bj_call :: "string option"

type_synonym job_owner = "string \<times> string"

record job_end_facts =
  jf_call :: "string option"
  jf_exit :: "int option"

definition jobEndFacts :: "string option \<Rightarrow> json option \<Rightarrow> job_end_facts" where
  "jobEndFacts call result =
     \<lparr>jf_call = (if truthy call then call else None),
      jf_exit = (case result of
        Some (JObj kvs) \<Rightarrow> (case map_of kvs ''exitCode'' of Some (JNum n) \<Rightarrow> Some n | _ \<Rightarrow> None)
      | _ \<Rightarrow> None)\<rparr>"

definition BACKGROUND_CAP :: nat where "BACKGROUND_CAP = 3"

definition BACKGROUND_MAX_MS :: int where "BACKGROUND_MAX_MS = 30 * 60000"

definition BACKGROUND_STOP_GRACE_MS :: int where "BACKGROUND_STOP_GRACE_MS = 10 * 60000"

definition overdueBackground :: "background_job \<Rightarrow> int \<Rightarrow> int \<Rightarrow> bool" where
  "overdueBackground job now max_ms \<longleftrightarrow> max_ms < now - bj_created job"

definition running_line :: "int \<Rightarrow> background_job \<Rightarrow> string" where
  "running_line now bj = bj_id bj @ '' ('' @ bj_tool bj @ '', running '' @ show_int (round_div (now - bj_created bj) 1000) @ ''s)''"

text \<open>\<open>None\<close> is \<open>ok: true\<close>; otherwise the refusal.\<close>

definition admitBackground :: "background_job list \<Rightarrow> nat \<Rightarrow> int \<Rightarrow> string option" where
  "admitBackground running cap now =
     (if length running < cap then None
      else Some (show_int (int (length running))
        @ '' background jobs are already running, the most this agent may have at once: ''
        @ join_with '', '' (map (running_line now) running) @ ''. ''
        @ ''Wait for one to finish (its result arrives as a message) or cancel one with jobs.cancel.''))"

definition nextPollDelay :: "nat \<Rightarrow> int" where
  "nextPollDelay polls = (let steps = [2000, 5000, 10000, 20000] in if polls < length steps then steps ! polls else 30000)"

definition startedResult :: "string \<Rightarrow> string option \<Rightarrow> json" where
  "startedResult job note = JObj [(''state'', JStr ''running''), (''job'', JStr job),
     (''note'', JStr ((if truthy note then the note @ '' '' else [])
       @ ''This runs in the background. Keep working; its result arrives as a message when it finishes. ''
       @ ''jobs.list shows what is running, jobs.cancel stops one.''))]"

record job_outcome =
  jo_state :: job_state
  jo_result :: "json option"
  jo_error :: "string option"

fun job_state_text :: "job_state \<Rightarrow> string" where
  "job_state_text Job_Running = ''running''"
| "job_state_text Job_Done = ''done''"
| "job_state_text Job_Failed = ''failed''"
| "job_state_text Job_Cancelled = ''cancelled''"

definition completionMessage :: "background_job \<Rightarrow> job_outcome \<Rightarrow> int \<Rightarrow> string" where
  "completionMessage job outcome now =
     (let secs = round_div (now - bj_created job) 1000;
          dash = '' '' @ [em_dash] @ '' '';
          head = ''[background job '' @ bj_id job @ dash @ bj_tool job @ dash @ job_state_text (jo_state outcome)
            @ '' after '' @ show_int secs @ ''s; a notice from the harness, not a message from the user]'' in
      if jo_state outcome = Job_Done then head @ [NL] @ stringify (or_else (jo_result outcome) JNull)
      else if jo_state outcome = Job_Failed then head @ [NL] @ or_else (jo_error outcome) ''failed without a message''
      else head)"

section \<open>The table\<close>

record job_row =
  jr_tenant :: string
  jr_agent :: string
  jr_job :: background_job
  jr_next_poll :: int
  jr_outcome :: "json option"

record new_job =
  nj_id :: string
  nj_session :: string
  nj_mount :: string
  nj_tool :: string
  nj_handle :: "json option"
  nj_call :: "string option"

definition owned_by :: "job_owner \<Rightarrow> job_row \<Rightarrow> bool" where
  "owned_by owner r \<longleftrightarrow> jr_tenant r = fst owner \<and> jr_agent r = snd owner"

definition is_running :: "job_owner \<Rightarrow> job_row \<Rightarrow> bool" where
  "is_running owner r \<longleftrightarrow> owned_by owner r \<and> bj_state (jr_job r) = Job_Running"

definition is_job :: "job_owner \<Rightarrow> string \<Rightarrow> job_row \<Rightarrow> bool" where
  "is_job owner jid r \<longleftrightarrow> bj_id (jr_job r) = jid \<and> owned_by owner r"

text \<open>\<open>None\<close>: the primary key is taken, and the statement fails.\<close>

definition recordBackgroundJob :: "job_owner \<Rightarrow> new_job \<Rightarrow> int \<Rightarrow> job_row list \<Rightarrow> job_row list option" where
  "recordBackgroundJob owner new now rows =
     insert_row (\<lambda>r. bj_id (jr_job r) = nj_id new)
       \<lparr>jr_tenant = fst owner, jr_agent = snd owner,
        jr_job = \<lparr>bj_id = nj_id new, bj_mount = nj_mount new, bj_tool = nj_tool new, bj_handle = or_else (nj_handle new) JNull,
          bj_state = Job_Running, bj_created = now, bj_finished = None, bj_polls = 0, bj_session = nj_session new, bj_call = nj_call new\<rparr>,
        jr_next_poll = now + nextPollDelay 0, jr_outcome = None\<rparr> rows"

definition runningBackgroundJobs :: "job_owner \<Rightarrow> job_row list \<Rightarrow> background_job list" where
  "runningBackgroundJobs owner rows = map jr_job (order_by (\<lambda>r. bj_created (jr_job r)) (filter (is_running owner) rows))"

text \<open>How an operator reads a job: its outcome cut short, its handle left out.\<close>

definition cut_outcome :: "json option \<Rightarrow> string option" where
  "cut_outcome v = (case v of None \<Rightarrow> None | Some JNull \<Rightarrow> None | Some (JStr s) \<Rightarrow> Some (take 300 s) | Some w \<Rightarrow> Some (take 300 (stringify w)))"

definition outcome_field :: "string \<Rightarrow> json option \<Rightarrow> json option" where
  "outcome_field k v = (case v of Some (JObj kvs) \<Rightarrow> map_of kvs k | _ \<Rightarrow> None)"

definition recentBackgroundJobs :: "job_owner \<Rightarrow> nat \<Rightarrow> job_row list \<Rightarrow> (background_job \<times> string option \<times> string option) list" where
  "recentBackgroundJobs owner limit rows =
     map (\<lambda>r. (jr_job r, cut_outcome (outcome_field ''error'' (jr_outcome r)), cut_outcome (outcome_field ''result'' (jr_outcome r))))
       (take limit (rev (order_by (\<lambda>r. bj_created (jr_job r)) (order_by (\<lambda>r. bj_id (jr_job r)) (filter (owned_by owner) rows)))))"

definition mountsWithRunningJobs :: "job_owner \<Rightarrow> job_row list \<Rightarrow> string set" where
  "mountsWithRunningJobs owner rows = set (map bj_mount (runningBackgroundJobs owner rows))"

definition dueBackgroundJobs :: "job_owner \<Rightarrow> int \<Rightarrow> job_row list \<Rightarrow> background_job list" where
  "dueBackgroundJobs owner now rows =
     map jr_job (order_by jr_next_poll (filter (\<lambda>r. is_running owner r \<and> jr_next_poll r \<le> now) rows))"

definition markPolled :: "job_owner \<Rightarrow> string \<Rightarrow> int \<Rightarrow> job_row list \<Rightarrow> job_row list" where
  "markPolled owner jid now rows =
     (case get_row (is_job owner jid) rows of
        None \<Rightarrow> rows
      | Some row \<Rightarrow>
          (let polls = Suc (bj_polls (jr_job row)) in
           update_where (\<lambda>r. is_job owner jid r \<and> bj_state (jr_job r) = Job_Running)
             (\<lambda>r. r\<lparr>jr_job := (jr_job r)\<lparr>bj_polls := polls\<rparr>, jr_next_poll := now + nextPollDelay polls\<rparr>) rows))"

definition finishBackgroundJob :: "job_owner \<Rightarrow> string \<Rightarrow> job_outcome \<Rightarrow> int \<Rightarrow> job_row list \<Rightarrow> bool \<times> job_row list" where
  "finishBackgroundJob owner jid outcome now rows =
     (case get_row (is_job owner jid) rows of
        None \<Rightarrow> (False, rows)
      | Some row \<Rightarrow>
          if bj_state (jr_job row) \<noteq> Job_Running then (False, rows)
          else (True, update_where (\<lambda>r. is_job owner jid r \<and> bj_state (jr_job r) = Job_Running)
            (\<lambda>r. r\<lparr>jr_job := (jr_job r)\<lparr>bj_state := jo_state outcome, bj_finished := Some now\<rparr>,
                   jr_outcome := Some (JObj [(''result'', or_else (jo_result outcome) JNull),
                     (''error'', case jo_error outcome of None \<Rightarrow> JNull | Some e \<Rightarrow> JStr e)])\<rparr>) rows))"

definition nextBackgroundWake :: "job_owner \<Rightarrow> int \<Rightarrow> job_row list \<Rightarrow> int option" where
  "nextBackgroundWake owner now rows =
     (case map jr_next_poll (filter (is_running owner) rows) of
        [] \<Rightarrow> None
      | t # ts \<Rightarrow> Some (max 0 (fold min ts t - now)))"
section \<open>The pass over due jobs\<close>

datatype poll_answer = Poll_Throws | Poll_Running | Poll_Done "json option"

text \<open>
  What a pass needs from the runtime: a poll's answer, what a cancel throws, whether an operation's completion and a message go through
  (a refusal is thrown and ends the pass), and what other steps do to the table while a plugin's call (\<open>je_during\<close>) or the
  completion and the message (\<open>je_after\<close>) are awaited.
\<close>

record job_env =
  je_poll :: "background_job \<Rightarrow> poll_answer"
  je_cancel :: "background_job \<Rightarrow> string option"
  je_complete :: "string \<Rightarrow> bool"
  je_deliver :: "string \<Rightarrow> string \<Rightarrow> bool"
  je_during :: "background_job \<Rightarrow> job_row list \<Rightarrow> job_row list"
  je_after :: "background_job \<Rightarrow> job_row list \<Rightarrow> job_row list"

text \<open>The table, the operations completed and the messages delivered.\<close>

record job_world =
  jw_rows :: "job_row list"
  jw_ended :: "(string \<times> operation_status \<times> job_end_facts) list"
  jw_told :: "(string \<times> string) list"

definition overdue_outcome :: "int \<Rightarrow> string option \<Rightarrow> job_outcome" where
  "overdue_outcome max_ms stop_error =
     (let minutes = show_int (round_div max_ms 60000) in
      \<lparr>jo_state = Job_Failed, jo_result = None, jo_error = Some (case stop_error of
          None \<Rightarrow> ''ran longer than '' @ minutes @ '' minutes and was cancelled''
        | Some e \<Rightarrow> ''ran longer than '' @ minutes @ '' minutes and could not be stopped ('' @ e
            @ ''); it may still be running in its container'')\<rparr>)"

text \<open>Finish, complete the operation, deliver. The first component is \<open>None\<close> when one of the two calls threw.\<close>

definition end_job :: "job_env \<Rightarrow> job_owner \<Rightarrow> int \<Rightarrow> background_job \<Rightarrow> job_outcome \<Rightarrow> operation_status \<Rightarrow> job_end_facts
    \<Rightarrow> job_world \<Rightarrow> string list option \<times> job_world" where
  "end_job env owner now job outcome status facts w =
     (case finishBackgroundJob owner (bj_id job) outcome now (jw_rows w) of
        (False, _) \<Rightarrow> (Some [], w)
      | (True, rows) \<Rightarrow>
          (let w1 = w\<lparr>jw_rows := je_after env job rows\<rparr> in
           if \<not> je_complete env (bj_id job) then (None, w1)
           else let w2 = w1\<lparr>jw_ended := jw_ended w1 @ [(bj_id job, status, facts)]\<rparr>;
                    text = completionMessage job outcome now in
             if \<not> je_deliver env (bj_session job) text then (None, w2)
             else (Some [bj_id job], w2\<lparr>jw_told := jw_told w2 @ [(bj_session job, text)]\<rparr>)))"

definition mark_in :: "job_owner \<Rightarrow> int \<Rightarrow> background_job \<Rightarrow> job_world \<Rightarrow> string list option \<times> job_world" where
  "mark_in owner now job w = (Some [], w\<lparr>jw_rows := markPolled owner (bj_id job) now (jw_rows w)\<rparr>)"

definition pass_job :: "job_env \<Rightarrow> job_owner \<Rightarrow> int \<Rightarrow> int \<Rightarrow> background_job \<Rightarrow> job_world \<Rightarrow> string list option \<times> job_world" where
  "pass_job env owner now max_ms job w0 =
     (let w = w0\<lparr>jw_rows := je_during env job (jw_rows w0)\<rparr> in
      if overdueBackground job now max_ms then
        (let stop_error = je_cancel env job in
         if stop_error \<noteq> None \<and> \<not> overdueBackground job now (max_ms + BACKGROUND_STOP_GRACE_MS) then mark_in owner now job w
         else end_job env owner now job (overdue_outcome max_ms stop_error) OFailed (jobEndFacts (bj_call job) None) w)
      else (case je_poll env job of
          Poll_Throws \<Rightarrow> mark_in owner now job w
        | Poll_Running \<Rightarrow> mark_in owner now job w
        | Poll_Done result \<Rightarrow>
            end_job env owner now job \<lparr>jo_state = Job_Done, jo_result = result, jo_error = None\<rparr> OSucceeded
              (jobEndFacts (bj_call job) result) w))"

fun pass_jobs :: "job_env \<Rightarrow> job_owner \<Rightarrow> int \<Rightarrow> int \<Rightarrow> background_job list \<Rightarrow> job_world \<Rightarrow> string list option \<times> job_world" where
  "pass_jobs env owner now max_ms [] w = (Some [], w)"
| "pass_jobs env owner now max_ms (job # due) w =
     (case pass_job env owner now max_ms job w of
        (None, w1) \<Rightarrow> (None, w1)
      | (Some done1, w1) \<Rightarrow>
          (case pass_jobs env owner now max_ms due w1 of
             (None, w2) \<Rightarrow> (None, w2)
           | (Some finished, w2) \<Rightarrow> (Some (done1 @ finished), w2)))"

text \<open>The jobs checked, those finished, and when to come back.\<close>

definition runBackgroundPass :: "job_env \<Rightarrow> job_owner \<Rightarrow> int \<Rightarrow> int \<Rightarrow> job_world \<Rightarrow> (nat \<times> string list \<times> int option) option \<times> job_world" where
  "runBackgroundPass env owner now max_ms w =
     (let due = dueBackgroundJobs owner now (jw_rows w) in
      case pass_jobs env owner now max_ms due w of
        (None, w1) \<Rightarrow> (None, w1)
      | (Some finished, w1) \<Rightarrow> (Some (length due, finished, nextBackgroundWake owner now (jw_rows w1)), w1))"

section \<open>Stopping\<close>

text \<open>One job asked to stop: whether it did, or \<open>None\<close> when the completion of its operation threw.\<close>

definition stop_job :: "job_env \<Rightarrow> job_owner \<Rightarrow> int \<Rightarrow> background_job \<Rightarrow> job_world \<Rightarrow> bool option \<times> job_world" where
  "stop_job env owner now job w0 =
     (let w = w0\<lparr>jw_rows := je_during env job (jw_rows w0)\<rparr> in
      if je_cancel env job \<noteq> None then (Some False, w)
      else (case finishBackgroundJob owner (bj_id job) \<lparr>jo_state = Job_Cancelled, jo_result = None, jo_error = None\<rparr> now (jw_rows w) of
          (False, _) \<Rightarrow> (Some True, w)
        | (True, rows) \<Rightarrow>
            (let w1 = w\<lparr>jw_rows := je_after env job rows\<rparr> in
             if \<not> je_complete env (bj_id job) then (None, w1)
             else (Some True, w1\<lparr>jw_ended := jw_ended w1 @ [(bj_id job, OCancelled, jobEndFacts (bj_call job) None)]\<rparr>))))"

text \<open>The stopped and the still running.\<close>

fun stop_jobs :: "job_env \<Rightarrow> job_owner \<Rightarrow> int \<Rightarrow> background_job list \<Rightarrow> job_world \<Rightarrow> (string list \<times> string list) option \<times> job_world" where
  "stop_jobs env owner now [] w = (Some ([], []), w)"
| "stop_jobs env owner now (job # jobs) w =
     (case stop_job env owner now job w of
        (None, w1) \<Rightarrow> (None, w1)
      | (Some b, w1) \<Rightarrow>
          (case stop_jobs env owner now jobs w1 of
             (None, w2) \<Rightarrow> (None, w2)
           | (Some (stopped, still), w2) \<Rightarrow>
               (Some (if b then bj_id job # stopped else stopped, if b then still else bj_id job # still), w2)))"

definition stopSessionJobs :: "job_env \<Rightarrow> job_owner \<Rightarrow> string \<Rightarrow> int \<Rightarrow> job_world \<Rightarrow> (string list \<times> string list) option \<times> job_world" where
  "stopSessionJobs env owner session now w =
     stop_jobs env owner now (filter (\<lambda>job. bj_session job = session) (runningBackgroundJobs owner (jw_rows w))) w"

datatype jobs_answer = Jobs_Error string | Jobs_Thrown | Jobs_Text json

text \<open>The agent's own tool: \<open>Jobs_Thrown\<close> is what completing the operation throws.\<close>

definition jobs_cancel :: "job_env \<Rightarrow> job_owner \<Rightarrow> string option \<Rightarrow> int \<Rightarrow> job_world \<Rightarrow> jobs_answer \<times> job_world" where
  "jobs_cancel env owner wanted now w0 =
     (case find (\<lambda>j. Some (bj_id j) = wanted) (runningBackgroundJobs owner (jw_rows w0)) of
        None \<Rightarrow> (Jobs_Error (''jobs: no running job '' @ stringify (case wanted of None \<Rightarrow> JNull | Some x \<Rightarrow> JStr x)
            @ ''; jobs with action '' @ [CHR 0x22] @ ''list'' @ [CHR 0x22] @ '' shows the running ones''), w0)
      | Some job \<Rightarrow>
          (let w = w0\<lparr>jw_rows := je_during env job (jw_rows w0)\<rparr> in
           case je_cancel env job of
             Some e \<Rightarrow> (Jobs_Error (''jobs: could not stop '' @ bj_id job @ '': '' @ e), w)
           | None \<Rightarrow>
               (let w1 = w\<lparr>jw_rows := je_after env job (snd (finishBackgroundJob owner (bj_id job)
                      \<lparr>jo_state = Job_Cancelled, jo_result = None, jo_error = None\<rparr> now (jw_rows w)))\<rparr> in
                if \<not> je_complete env (bj_id job) then (Jobs_Thrown, w1)
                else (Jobs_Text (JObj [(''cancelled'', JStr (bj_id job))]),
                  w1\<lparr>jw_ended := jw_ended w1 @ [(bj_id job, OCancelled, jobEndFacts (bj_call job) None)]\<rparr>))))"

definition jobs_list :: "job_owner \<Rightarrow> int \<Rightarrow> job_row list \<Rightarrow> json" where
  "jobs_list owner now rows =
     (let running = runningBackgroundJobs owner rows in
      JObj ([(''running'', JArr (map (\<lambda>j. JObj [(''job'', JStr (bj_id j)), (''tool'', JStr (bj_tool j)),
               (''runningSeconds'', JNum (round_div (now - bj_created j) 1000))]) running)),
             (''limit'', JNum (int BACKGROUND_CAP))]
        @ (if running = [] then [] else [(''note'', JStr (''Nothing to check: each job'' @ [CHR 0x27]
             @ ''s result arrives as a message when it ends. Keep working, or end your turn.''))])))"

definition jobsTool :: "job_env \<Rightarrow> job_owner \<Rightarrow> string option \<Rightarrow> string option \<Rightarrow> int \<Rightarrow> job_world \<Rightarrow> jobs_answer \<times> job_world" where
  "jobsTool env owner action wanted now w =
     (if action = Some ''cancel'' then jobs_cancel env owner wanted now w
      else (Jobs_Text (jobs_list owner now (jw_rows w)), w))"

text \<open>A call over the cap: recorded first, then asked to stop. \<open>None\<close>: the job could not be recorded.\<close>

definition refuseOverCap :: "job_owner \<Rightarrow> new_job \<Rightarrow> background_job list \<Rightarrow> string option \<Rightarrow> int \<Rightarrow> job_row list
    \<Rightarrow> ((bool \<times> string) \<times> job_row list) option" where
  "refuseOverCap owner new running cancelled now rows =
     (let over = or_else (admitBackground running BACKGROUND_CAP now) [] in
      case recordBackgroundJob owner new now rows of
        None \<Rightarrow> None
      | Some rows1 \<Rightarrow> Some (case cancelled of
          None \<Rightarrow> (True, over @ '' This call was over the limit and is being stopped as background job '' @ nj_id new @ ''; ''
            @ ''it counts toward the limit until it has actually ended.'')
        | Some e \<Rightarrow> (False, over @ '' This call was over the limit, but stopping it failed ('' @ e @ ''); ''
            @ ''it is still running as background job '' @ nj_id new
            @ ''. jobs.cancel can try again; past the ceiling it is cancelled again on every check.''), rows1))"
section \<open>A job ends once\<close>

text \<open>
  What steps outside the pass do to the table, not before \<open>now\<close>: calls that go to the background and jobs that end. A step of
  the table is one of these or a check that found the job still running.
\<close>

inductive job_side :: "int \<Rightarrow> job_row list \<Rightarrow> job_row list \<Rightarrow> bool" for now :: int where
  job_recorded: "now \<le> t \<Longrightarrow> recordBackgroundJob owner new t rows = Some rows' \<Longrightarrow> job_side now rows rows'"
| job_ended: "jo_state outcome \<noteq> Job_Running \<Longrightarrow> job_side now rows (snd (finishBackgroundJob owner jid outcome t rows))"

inductive job_step :: "job_row list \<Rightarrow> job_row list \<Rightarrow> bool" where
  job_by_side: "job_side now rows rows' \<Longrightarrow> job_step rows rows'"
| job_polled: "job_step rows (markPolled owner jid t rows)"

inductive_cases job_sideE: "job_side now rows rows'"
inductive_cases job_stepE: "job_step rows rows'"

definition row_id :: "job_row \<Rightarrow> string" where
  "row_id r = bj_id (jr_job r)"

definition unique_jobs :: "job_row list \<Rightarrow> bool" where
  "unique_jobs rows \<longleftrightarrow> distinct (map row_id rows)"

text \<open>What never changes in a row, and that an ended row does not change at all.\<close>

definition job_facts :: "job_row \<Rightarrow> job_owner \<times> string \<times> string \<times> string \<times> json \<times> int \<times> string \<times> string option" where
  "job_facts r = (let b = jr_job r in
     ((jr_tenant r, jr_agent r), bj_id b, bj_mount b, bj_tool b, bj_handle b, bj_created b, bj_session b, bj_call b))"

definition later_row :: "job_row \<Rightarrow> job_row \<Rightarrow> bool" where
  "later_row r r' \<longleftrightarrow> job_facts r' = job_facts r \<and> (bj_state (jr_job r) \<noteq> Job_Running \<longrightarrow> r' = r)"

definition rows_later :: "job_row list \<Rightarrow> job_row list \<Rightarrow> bool" where
  "rows_later rows rows' \<longleftrightarrow> length rows \<le> length rows' \<and> (\<forall>i<length rows. later_row (rows ! i) (rows' ! i))"

lemma later_row_refl [simp]: "later_row r r"
  by (simp add: later_row_def)

lemma later_row_trans: "later_row a b \<Longrightarrow> later_row b c \<Longrightarrow> later_row a c"
  by (auto simp: later_row_def)

lemma rows_later_refl [simp]: "rows_later rows rows"
  by (simp add: rows_later_def)

lemma rows_later_trans: "rows_later a b \<Longrightarrow> rows_later b c \<Longrightarrow> rows_later a c"
  unfolding rows_later_def using later_row_trans order.strict_trans2 order.trans by metis

lemma rows_later_update: "(\<And>r. p r \<Longrightarrow> later_row r (f r)) \<Longrightarrow> rows_later rows (update_where p f rows)"
  by (simp add: rows_later_def update_where_def)

lemma rows_later_new: "rows_later rows (rows @ [r])"
  by (simp add: rows_later_def nth_append)

lemma rows_later_id: "later_row r r' \<Longrightarrow> row_id r' = row_id r"
  by (auto simp: later_row_def job_facts_def row_id_def Let_def)

lemma update_keeps_ids: "(\<And>r. row_id (f r) = row_id r) \<Longrightarrow> unique_jobs rows \<Longrightarrow> unique_jobs (update_where p f rows)"
  by (simp add: unique_jobs_def map_update_where)

lemma record_step:
  assumes "recordBackgroundJob owner new t rows = Some rows'"
  shows "rows_later rows rows'" and "unique_jobs rows \<Longrightarrow> unique_jobs rows'"
proof -
  from assms obtain r where r: "rows' = rows @ [r]" "\<forall>x\<in>set rows. row_id x \<noteq> row_id r"
    by (auto simp: recordBackgroundJob_def insert_row_def has_row_iff row_id_def split: if_splits)
  then show "rows_later rows rows'" by (simp add: rows_later_new)
  from r show "unique_jobs rows \<Longrightarrow> unique_jobs rows'" by (auto simp: unique_jobs_def)
qed

lemma mark_step:
  shows "rows_later rows (markPolled owner jid t rows)" and "unique_jobs rows \<Longrightarrow> unique_jobs (markPolled owner jid t rows)"
  by (auto simp: markPolled_def Let_def later_row_def job_facts_def row_id_def split: option.split
      intro!: rows_later_update update_keeps_ids)

lemma finish_step:
  shows "rows_later rows (snd (finishBackgroundJob owner jid outcome t rows))"
    and "unique_jobs rows \<Longrightarrow> unique_jobs (snd (finishBackgroundJob owner jid outcome t rows))"
  by (auto simp: finishBackgroundJob_def later_row_def job_facts_def Let_def row_id_def split: option.split
      intro!: rows_later_update update_keeps_ids)

lemma side_later: "job_side now rows rows' \<Longrightarrow> rows_later rows rows' \<and> (unique_jobs rows \<longrightarrow> unique_jobs rows')"
  by (erule job_sideE) (auto simp: record_step finish_step)

lemma step_later: "job_step rows rows' \<Longrightarrow> rows_later rows rows' \<and> (unique_jobs rows \<longrightarrow> unique_jobs rows')"
  by (erule job_stepE) (auto simp: side_later mark_step)

lemma steps_later: "job_step\<^sup>*\<^sup>* rows rows' \<Longrightarrow> rows_later rows rows' \<and> (unique_jobs rows \<longrightarrow> unique_jobs rows')"
  by (induction rule: rtranclp_induct) (auto dest: step_later intro: rows_later_trans)

lemma sides_are_steps: "(job_side now)\<^sup>*\<^sup>* rows rows' \<Longrightarrow> job_step\<^sup>*\<^sup>* rows rows'"
  by (induction rule: rtranclp_induct) (auto intro: rtranclp.rtrancl_into_rtrancl job_by_side)

lemma later_rowD: "rows_later rows rows' \<Longrightarrow> r \<in> set rows \<Longrightarrow> \<exists>r'\<in>set rows'. later_row r r'"
  unfolding rows_later_def by (metis in_set_conv_nth order.strict_trans2)

lemma unique_row: "unique_jobs rows \<Longrightarrow> r \<in> set rows \<Longrightarrow> r' \<in> set rows \<Longrightarrow> row_id r = row_id r' \<Longrightarrow> r = r'"
  by (auto simp: unique_jobs_def distinct_map inj_on_def)

lemma unique_get: "unique_jobs rows \<Longrightarrow> r \<in> set rows \<Longrightarrow> is_job owner jid r \<Longrightarrow> get_row (is_job owner jid) rows = Some r"
  by (rule get_row_unique [where g = row_id]) (auto simp: unique_jobs_def is_job_def row_id_def)

text \<open>
  A job ends once: after any steps of the table a row that had ended is there as it was, with its outcome, and a late answer for it,
  whatever it says, is refused and changes nothing.
\<close>

theorem a_job_ends_once:
  assumes "job_step\<^sup>*\<^sup>* rows rows'" and "unique_jobs rows" and "r \<in> set rows" and "bj_state (jr_job r) \<noteq> Job_Running"
    and "is_job owner jid r"
  shows "r \<in> set rows' \<and> finishBackgroundJob owner jid outcome now rows' = (False, rows')"
proof -
  have later: "rows_later rows rows'" and u: "unique_jobs rows'" using steps_later assms(1,2) by blast+
  then have "r \<in> set rows'" using later_rowD assms(3,4) by (metis later_row_def)
  then show ?thesis using unique_get [OF u _ assms(5)] assms(4) by (simp add: finishBackgroundJob_def)
qed
section \<open>No job outlives the ceiling\<close>

definition others_only :: "int \<Rightarrow> job_env \<Rightarrow> bool" where
  "others_only now env \<longleftrightarrow>
     (\<forall>job rows. (job_side now)\<^sup>*\<^sup>* rows (je_during env job rows) \<and> (job_side now)\<^sup>*\<^sup>* rows (je_after env job rows))"

lemma others_during: "others_only now env \<Longrightarrow> (job_side now)\<^sup>*\<^sup>* rows (je_during env job rows)"
  and others_after: "others_only now env \<Longrightarrow> (job_side now)\<^sup>*\<^sup>* rows (je_after env job rows)"
  by (simp_all add: others_only_def)

lemma nextPollDelay_bounds: "2000 \<le> nextPollDelay polls \<and> nextPollDelay polls \<le> 30000"
  by (auto simp: nextPollDelay_def Let_def nth_Cons' split: if_splits)

text \<open>A row after a step outside the pass: one there was, an ended one, or a new one.\<close>

definition side_row :: "int \<Rightarrow> job_row list \<Rightarrow> job_row \<Rightarrow> bool" where
  "side_row now rows r \<longleftrightarrow> r \<in> set rows \<or> bj_state (jr_job r) \<noteq> Job_Running
     \<or> now \<le> bj_created (jr_job r) \<and> jr_next_poll r = bj_created (jr_job r) + 2000"

lemma finish_row: "jo_state outcome \<noteq> Job_Running \<Longrightarrow> r \<in> set (snd (finishBackgroundJob owner jid outcome t rows)) \<Longrightarrow> side_row now rows r"
  by (auto simp: finishBackgroundJob_def side_row_def update_where_def split: option.splits if_splits)

lemma side_row: "job_side now rows rows' \<Longrightarrow> r \<in> set rows' \<Longrightarrow> side_row now rows r"
proof (erule job_sideE)
  fix t owner new
  assume "now \<le> t" "recordBackgroundJob owner new t rows = Some rows'" "r \<in> set rows'"
  then show "side_row now rows r"
    by (auto simp: recordBackgroundJob_def insert_row_def side_row_def nextPollDelay_def split: if_splits)
qed (auto dest: finish_row)

lemma sides_row: "(job_side now)\<^sup>*\<^sup>* rows rows' \<Longrightarrow> r \<in> set rows' \<Longrightarrow> side_row now rows r"
proof (induction arbitrary: r rule: rtranclp_induct)
  case base
  then show ?case by (simp add: side_row_def)
next
  case (step y z)
  then have "side_row now y r" using side_row by blast
  then show ?case using step.IH by (auto simp: side_row_def)
qed

text \<open>A row after a check: one there was that is not this job running, or this job with its next check set.\<close>

lemma mark_row:
  "r \<in> set (markPolled owner jid t rows) \<Longrightarrow>
     r \<in> set rows \<and> \<not> (is_job owner jid r \<and> bj_state (jr_job r) = Job_Running)
     \<or> is_job owner jid r \<and> (\<exists>polls. jr_next_poll r = t + nextPollDelay polls)
       \<and> (\<exists>r0\<in>set rows. is_job owner jid r0 \<and> job_facts r0 = job_facts r)"
  by (auto simp: markPolled_def Let_def update_where_def is_job_def owned_by_def job_facts_def get_row_None_iff split: option.splits if_splits)

text \<open>The row of a job, whose facts the pass read before.\<close>

definition known_job :: "job_owner \<Rightarrow> job_row list \<Rightarrow> background_job \<Rightarrow> bool" where
  "known_job owner rows job \<longleftrightarrow> unique_jobs rows
     \<and> (\<exists>r\<in>set rows. is_job owner (bj_id job) r \<and> bj_created (jr_job r) = bj_created job)"

lemma known_job_later:
  assumes "known_job owner rows job" and "job_step\<^sup>*\<^sup>* rows rows'"
  shows "known_job owner rows' job"
proof -
  from assms(1) obtain r where r: "r \<in> set rows" "is_job owner (bj_id job) r" "bj_created (jr_job r) = bj_created job"
    by (auto simp: known_job_def)
  from steps_later [OF assms(2)] assms(1) have "rows_later rows rows'" "unique_jobs rows'" by (auto simp: known_job_def)
  moreover from this(1) r(1) obtain r' where "r' \<in> set rows'" "later_row r r'" using later_rowD by blast
  ultimately show ?thesis using r(2,3)
    by (auto simp: known_job_def later_row_def job_facts_def Let_def is_job_def owned_by_def)
qed

lemma known_created: "known_job owner rows job \<Longrightarrow> r \<in> set rows \<Longrightarrow> is_job owner (bj_id job) r \<Longrightarrow> bj_created (jr_job r) = bj_created job"
  unfolding known_job_def is_job_def using unique_row row_id_def by metis

lemma known_get: "known_job owner rows job \<Longrightarrow> \<exists>r. get_row (is_job owner (bj_id job)) rows = Some r \<and> (\<forall>r'\<in>set rows. is_job owner (bj_id job) r' \<longrightarrow> r' = r)"
  unfolding known_job_def using unique_get by (metis option.inject)

lemma due_known: "unique_jobs rows \<Longrightarrow> job \<in> set (dueBackgroundJobs owner now rows) \<Longrightarrow> known_job owner rows job"
  by (auto simp: dueBackgroundJobs_def known_job_def is_job_def is_running_def)

text \<open>What the pass does with one job's row.\<close>

lemma end_job_rows:
  "jw_rows (snd (end_job env owner now job outcome status facts w)) =
     (case finishBackgroundJob owner (bj_id job) outcome now (jw_rows w) of (False, _) \<Rightarrow> jw_rows w | (True, rows) \<Rightarrow> je_after env job rows)"
  by (auto simp: end_job_def Let_def split: prod.splits bool.splits)

lemma end_job_sides:
  assumes "others_only now env" and "jo_state outcome \<noteq> Job_Running"
  shows "(job_side now)\<^sup>*\<^sup>* (jw_rows w) (jw_rows (snd (end_job env owner now job outcome status facts w)))"
  using others_after [OF assms(1)] job_ended [OF assms(2), of now "jw_rows w" owner "bj_id job" now]
  by (auto simp: end_job_rows split: prod.split bool.split intro: converse_rtranclp_into_rtranclp)

text \<open>Either the job was checked and is still running, or it is ended by a step like any other's.\<close>

definition passed_row :: "job_env \<Rightarrow> job_owner \<Rightarrow> int \<Rightarrow> int \<Rightarrow> background_job \<Rightarrow> job_row list \<Rightarrow> job_row list \<Rightarrow> bool" where
  "passed_row env owner now max_ms job rows rows' \<longleftrightarrow>
     now - bj_created job \<le> max_ms + BACKGROUND_STOP_GRACE_MS \<and> rows' = markPolled owner (bj_id job) now rows
     \<or> (job_side now)\<^sup>*\<^sup>* rows rows' \<and> (\<exists>outcome. jo_state outcome \<noteq> Job_Running \<and>
         (case finishBackgroundJob owner (bj_id job) outcome now rows of (False, _) \<Rightarrow> rows' = rows | (True, r) \<Rightarrow> (job_side now)\<^sup>*\<^sup>* r rows'))"

lemma pass_job_row:
  assumes "others_only now env"
  shows "passed_row env owner now max_ms job (je_during env job (jw_rows w)) (jw_rows (snd (pass_job env owner now max_ms job w)))"
proof -
  let ?w = "w\<lparr>jw_rows := je_during env job (jw_rows w)\<rparr>"
  have e: "passed_row env owner now max_ms job (jw_rows ?w) (jw_rows (snd (end_job env owner now job outcome status facts ?w)))"
    if "jo_state outcome \<noteq> Job_Running" for outcome status facts
    unfolding passed_row_def using end_job_sides [OF assms that, of ?w owner job status facts] that others_after [OF assms]
    by (auto simp: end_job_rows split: prod.split bool.split)
  have m: "passed_row env owner now max_ms job (jw_rows ?w) (jw_rows (snd (mark_in owner now job ?w)))"
    if "\<not> overdueBackground job now (max_ms + BACKGROUND_STOP_GRACE_MS)"
    using that by (simp add: mark_in_def passed_row_def overdueBackground_def)
  have g: "\<not> overdueBackground job now max_ms \<Longrightarrow> \<not> overdueBackground job now (max_ms + BACKGROUND_STOP_GRACE_MS)"
    by (simp add: overdueBackground_def BACKGROUND_STOP_GRACE_MS_def)
  have o: "jo_state (overdue_outcome max_ms stop_error) \<noteq> Job_Running" for stop_error
    by (simp add: overdue_outcome_def Let_def)
  have "passed_row env owner now max_ms job (jw_rows ?w) (jw_rows (snd (pass_job env owner now max_ms job w)))"
    unfolding pass_job_def Let_def using m g e [OF o] e
    by (cases "overdueBackground job now max_ms"; cases "je_poll env job") (simp_all del: job_world.simps)
  then show ?thesis by simp
qed
lemma passed_steps: "passed_row env owner now max_ms job rows rows' \<Longrightarrow> job_step\<^sup>*\<^sup>* rows rows'"
  by (auto simp: passed_row_def intro: sides_are_steps job_polled)

lemma during_steps: "others_only now env \<Longrightarrow> job_step\<^sup>*\<^sup>* rows (je_during env job rows)"
  by (rule sides_are_steps [OF others_during])

lemma pass_job_steps:
  assumes "others_only now env"
  shows "job_step\<^sup>*\<^sup>* (jw_rows w) (jw_rows (snd (pass_job env owner now max_ms job w)))"
  using during_steps [OF assms] passed_steps [OF pass_job_row [OF assms]] by (rule rtranclp_trans)

lemma pass_jobs_steps:
  assumes "others_only now env"
  shows "job_step\<^sup>*\<^sup>* (jw_rows w) (jw_rows (snd (pass_jobs env owner now max_ms due w)))"
proof (induction due arbitrary: w)
  case (Cons job due)
  from pass_job_steps [OF assms, of w owner max_ms job] show ?case
    by (auto split: prod.split option.split intro: rtranclp_trans [OF _ Cons.IH] dest: sym)
      (metis Cons.IH rtranclp_trans snd_conv)+
qed simp

lemma runBackgroundPass_rows:
  "jw_rows (snd (runBackgroundPass env owner now max_ms w)) =
     jw_rows (snd (pass_jobs env owner now max_ms (dueBackgroundJobs owner now (jw_rows w)) w))"
  by (auto simp: runBackgroundPass_def Let_def split: prod.split option.split)

text \<open>The two bounds on a row's next check: while the pass goes on, and at all times.\<close>

definition still_due :: "job_owner \<Rightarrow> int \<Rightarrow> background_job list \<Rightarrow> job_row \<Rightarrow> bool" where
  "still_due owner now due r \<longleftrightarrow> (is_running owner r \<longrightarrow> now < jr_next_poll r \<or> row_id r \<in> set (map bj_id due))"

definition under_ceiling :: "job_owner \<Rightarrow> int \<Rightarrow> job_row \<Rightarrow> bool" where
  "under_ceiling owner max_ms r \<longleftrightarrow>
     (is_running owner r \<longrightarrow> jr_next_poll r \<le> bj_created (jr_job r) + max_ms + BACKGROUND_STOP_GRACE_MS + 30000)"

lemma sides_bounds:
  assumes "(job_side now)\<^sup>*\<^sup>* rows rows'" and "\<forall>r\<in>set rows. P r"
    and "\<And>r. bj_state (jr_job r) \<noteq> Job_Running \<Longrightarrow> P r"
    and "\<And>r. now \<le> bj_created (jr_job r) \<Longrightarrow> jr_next_poll r = bj_created (jr_job r) + 2000 \<Longrightarrow> P r"
  shows "\<forall>r\<in>set rows'. P r"
  using sides_row [OF assms(1)] assms(2-4) by (auto simp: side_row_def)

lemma sides_due: "(job_side now)\<^sup>*\<^sup>* rows rows' \<Longrightarrow> \<forall>r\<in>set rows. still_due owner now due r \<Longrightarrow> \<forall>r\<in>set rows'. still_due owner now due r"
  by (erule sides_bounds) (auto simp: still_due_def is_running_def)

lemma sides_ceiling:
  "(job_side now)\<^sup>*\<^sup>* rows rows' \<Longrightarrow> 0 \<le> max_ms \<Longrightarrow> \<forall>r\<in>set rows. under_ceiling owner max_ms r \<Longrightarrow> \<forall>r\<in>set rows'. under_ceiling owner max_ms r"
  by (erule sides_bounds) (auto simp: under_ceiling_def is_running_def BACKGROUND_STOP_GRACE_MS_def)

lemma running_is_job: "is_running owner r \<Longrightarrow> row_id r = jid \<longleftrightarrow> is_job owner jid r"
  by (auto simp: is_running_def is_job_def row_id_def)

lemma finished_due:
  assumes "known_job owner rows job" and "jo_state outcome \<noteq> Job_Running"
    and "\<forall>r\<in>set rows. still_due owner now (job # due) r"
    and "finishBackgroundJob owner (bj_id job) outcome now rows = (b, rows')"
  shows "\<forall>r\<in>set rows'. still_due owner now due r"
proof -
  obtain r0 where g: "get_row (is_job owner (bj_id job)) rows = Some r0" "\<forall>r\<in>set rows. is_job owner (bj_id job) r \<longrightarrow> r = r0"
    using known_get [OF assms(1)] by blast
  have "is_running owner r \<Longrightarrow> r \<in> set rows' \<Longrightarrow> r \<in> set rows \<and> \<not> is_job owner (bj_id job) r" for r
    using assms(2,4) g by (auto simp: finishBackgroundJob_def update_where_def is_running_def split: if_splits)
  moreover have "is_running owner r \<Longrightarrow> row_id r = bj_id job \<Longrightarrow> is_job owner (bj_id job) r" for r
    by (simp add: running_is_job)
  ultimately show ?thesis using assms(3) unfolding still_due_def by (metis list.simps(9) set_ConsD)
qed

lemma passed_due:
  assumes "passed_row env owner now max_ms job rows rows'" and "known_job owner rows job"
    and "\<forall>r\<in>set rows. still_due owner now (job # due) r"
  shows "\<forall>r\<in>set rows'. still_due owner now due r"
  using assms(1) unfolding passed_row_def
proof (elim disjE conjE exE)
  assume m: "rows' = markPolled owner (bj_id job) now rows"
  show ?thesis
  proof
    fix r assume "r \<in> set rows'"
    from mark_row [OF this [unfolded m]] show "still_due owner now due r"
    proof (elim disjE conjE exE bexE)
      assume r: "r \<in> set rows" "\<not> (is_job owner (bj_id job) r \<and> bj_state (jr_job r) = Job_Running)"
      then have "is_running owner r \<Longrightarrow> row_id r \<noteq> bj_id job" by (auto simp: is_running_def is_job_def row_id_def)
      with r(1) assms(3) show ?thesis by (auto simp: still_due_def)
    next
      fix polls assume "jr_next_poll r = now + nextPollDelay polls"
      with nextPollDelay_bounds [of polls] show ?thesis by (simp add: still_due_def)
    qed
  qed
next
  fix outcome
  assume "jo_state outcome \<noteq> Job_Running"
    "case finishBackgroundJob owner (bj_id job) outcome now rows of (False, _) \<Rightarrow> rows' = rows | (True, r) \<Rightarrow> (job_side now)\<^sup>*\<^sup>* r rows'"
  with finished_due [OF assms(2) this(1) assms(3)] show ?thesis
    by (auto simp: finishBackgroundJob_def split: prod.splits bool.splits option.splits if_splits dest: sides_due)
qed

lemma passed_ceiling:
  assumes "passed_row env owner now max_ms job rows rows'" and "known_job owner rows job" and "0 \<le> max_ms"
    and "\<forall>r\<in>set rows. under_ceiling owner max_ms r"
  shows "\<forall>r\<in>set rows'. under_ceiling owner max_ms r"
  using assms(1) unfolding passed_row_def
proof (elim disjE conjE exE)
  assume m: "now - bj_created job \<le> max_ms + BACKGROUND_STOP_GRACE_MS" "rows' = markPolled owner (bj_id job) now rows"
  show ?thesis
  proof
    fix r assume "r \<in> set rows'"
    from mark_row [OF this [unfolded m]] show "under_ceiling owner max_ms r"
    proof (elim disjE conjE exE bexE)
      fix polls r0
      assume "jr_next_poll r = now + nextPollDelay polls" "r0 \<in> set rows" "is_job owner (bj_id job) r0" "job_facts r0 = job_facts r"
      with known_created [OF assms(2)] m(1) nextPollDelay_bounds [of polls] show ?thesis
        by (auto simp: under_ceiling_def job_facts_def Let_def)
    qed (use assms(4) in blast)
  qed
qed (use sides_ceiling assms(3,4) in blast)
lemma pass_job_keeps:
  assumes "others_only now env" and "known_job owner (jw_rows w) job" and "0 \<le> max_ms"
    and "pass_job env owner now max_ms job w = (out, w1)"
  shows "\<forall>r\<in>set (jw_rows w). under_ceiling owner max_ms r \<Longrightarrow> \<forall>r\<in>set (jw_rows w1). under_ceiling owner max_ms r"
    and "\<forall>r\<in>set (jw_rows w). still_due owner now (job # due) r \<Longrightarrow> \<forall>r\<in>set (jw_rows w1). still_due owner now due r"
proof -
  let ?rows = "je_during env job (jw_rows w)"
  have p: "passed_row env owner now max_ms job ?rows (jw_rows w1)" using pass_job_row [OF assms(1)] assms(4) by (metis snd_conv)
  have k: "known_job owner ?rows job" using known_job_later [OF assms(2) during_steps [OF assms(1)]] .
  show "\<forall>r\<in>set (jw_rows w). under_ceiling owner max_ms r \<Longrightarrow> \<forall>r\<in>set (jw_rows w1). under_ceiling owner max_ms r"
    using passed_ceiling [OF p k assms(3)] sides_ceiling [OF others_during [OF assms(1)] assms(3)] by blast
  show "\<forall>r\<in>set (jw_rows w). still_due owner now (job # due) r \<Longrightarrow> \<forall>r\<in>set (jw_rows w1). still_due owner now due r"
    using passed_due [OF p k] sides_due [OF others_during [OF assms(1)]] by blast
qed

lemma pass_jobs_keep:
  assumes "others_only now env" and "0 \<le> max_ms"
  shows "\<forall>job\<in>set due. known_job owner (jw_rows w) job \<Longrightarrow> pass_jobs env owner now max_ms due w = (out, w')
      \<Longrightarrow> ((\<forall>r\<in>set (jw_rows w). under_ceiling owner max_ms r) \<longrightarrow> (\<forall>r\<in>set (jw_rows w'). under_ceiling owner max_ms r))
        \<and> (out \<noteq> None \<longrightarrow> (\<forall>r\<in>set (jw_rows w). still_due owner now due r) \<longrightarrow> (\<forall>r\<in>set (jw_rows w'). still_due owner now [] r))"
proof (induction due arbitrary: w out w')
  case (Cons job due)
  obtain a w1 where 1: "pass_job env owner now max_ms job w = (a, w1)" by fastforce
  have k: "known_job owner (jw_rows w) job" using Cons.prems(1) by simp
  note keep = pass_job_keeps [OF assms(1) k assms(2) 1]
  have known: "\<forall>job\<in>set due. known_job owner (jw_rows w1) job"
    using Cons.prems(1) pass_job_steps [OF assms(1), of w owner max_ms job] 1 known_job_later
    by (metis list.set_intros(2) snd_conv)
  show ?case
  proof (cases a)
    case None
    with 1 Cons.prems(2) keep(1) show ?thesis by auto
  next
    case (Some done1)
    obtain b w2 where 2: "pass_jobs env owner now max_ms due w1 = (b, w2)" by fastforce
    with 1 Some Cons.prems(2) have "w' = w2" "out \<noteq> None \<longrightarrow> b \<noteq> None" by (auto split: option.splits)
    then show ?thesis using Cons.IH [OF known 2] keep by blast
  qed
qed simp

lemma nextBackgroundWake_None: "nextBackgroundWake owner now rows = None \<longleftrightarrow> (\<forall>r\<in>set rows. \<not> is_running owner r)"
proof -
  have "nextBackgroundWake owner now rows = None \<longleftrightarrow> filter (is_running owner) rows = []"
    by (cases "filter (is_running owner) rows") (simp_all add: nextBackgroundWake_def)
  then show ?thesis by (simp add: filter_empty_conv)
qed

lemma nextBackgroundWake_Some:
  assumes "nextBackgroundWake owner now rows = Some d"
  shows "\<exists>r\<in>set rows. is_running owner r \<and> d = max 0 (jr_next_poll r - now) \<and> (\<forall>r'\<in>set rows. is_running owner r' \<longrightarrow> jr_next_poll r \<le> jr_next_poll r')"
proof -
  let ?polls = "map jr_next_poll (filter (is_running owner) rows)"
  from assms obtain t ts where p: "?polls = t # ts" and d: "d = max 0 (fold min ts t - now)"
    by (auto simp: nextBackgroundWake_def split: list.splits)
  have m: "fold min ts t = Min (set ?polls)" unfolding p by (rule Min.set_eq_fold [symmetric])
  have fin: "finite (set ?polls)" "set ?polls \<noteq> {}" using p by auto
  from Min_in [OF fin] obtain r where "r \<in> set rows" "is_running owner r" "jr_next_poll r = Min (set ?polls)" by auto
  moreover have "\<forall>r'\<in>set rows. is_running owner r' \<longrightarrow> Min (set ?polls) \<le> jr_next_poll r'"
    using Min_le [OF fin(1)] by simp
  ultimately show ?thesis using d m by metis
qed

text \<open>The tables a pass can meet: calls recorded, jobs ended and passes, which may have been cut short, in any order.\<close>

inductive job_life :: "job_owner \<Rightarrow> int \<Rightarrow> job_row list \<Rightarrow> bool" for owner :: job_owner and max_ms :: int where
  life_empty: "job_life owner max_ms []"
| life_side: "job_life owner max_ms rows \<Longrightarrow> job_side now rows rows' \<Longrightarrow> job_life owner max_ms rows'"
| life_pass: "job_life owner max_ms (jw_rows w) \<Longrightarrow> others_only now env
    \<Longrightarrow> job_life owner max_ms (jw_rows (snd (runBackgroundPass env owner now max_ms w)))"

lemma job_life_ok: "job_life owner max_ms rows \<Longrightarrow> 0 \<le> max_ms \<Longrightarrow> unique_jobs rows \<and> (\<forall>r\<in>set rows. under_ceiling owner max_ms r)"
proof (induction rule: job_life.induct)
  case life_empty
  then show ?case by (simp add: unique_jobs_def)
next
  case (life_side rows now rows')
  then show ?case using side_later sides_ceiling [OF r_into_rtranclp [of "job_side now"]] by blast
next
  case (life_pass w now env)
  have k: "\<forall>job\<in>set (dueBackgroundJobs owner now (jw_rows w)). known_job owner (jw_rows w) job"
    using due_known life_pass by blast
  obtain out w' where p: "pass_jobs env owner now max_ms (dueBackgroundJobs owner now (jw_rows w)) w = (out, w')" by fastforce
  have "unique_jobs (jw_rows w')" using steps_later [OF pass_jobs_steps [OF life_pass.hyps(2)]] life_pass.IH life_pass.prems p by (metis snd_conv)
  moreover have "\<forall>r\<in>set (jw_rows w'). under_ceiling owner max_ms r"
    using pass_jobs_keep [OF life_pass.hyps(2) life_pass.prems k p] life_pass.IH life_pass.prems by blast
  ultimately show ?case unfolding runBackgroundPass_rows p by simp
qed

text \<open>
  C39: No job outlives the ceiling and none is forgotten: whatever calls were recorded, ended or checked before, after a pass that returned
  every job of the agent still running is younger than the ceiling with its grace and one check more, and the pass asks to come back
  later than now, no later than any such job's next check and no later than the end of that time.
\<close>

theorem no_job_outlives_the_ceiling:
  assumes "job_life owner max_ms (jw_rows w)" and "0 \<le> max_ms" and "others_only now env"
    and "runBackgroundPass env owner now max_ms w = (Some (checked, finished, wake), w')"
    and "r \<in> set (jw_rows w')" and "is_running owner r"
  shows "now < bj_created (jr_job r) + max_ms + BACKGROUND_STOP_GRACE_MS + 30000
    \<and> (\<exists>d. wake = Some d \<and> 0 < d \<and> now + d \<le> jr_next_poll r
        \<and> now + d \<le> bj_created (jr_job r) + max_ms + BACKGROUND_STOP_GRACE_MS + 30000)"
proof -
  let ?due = "dueBackgroundJobs owner now (jw_rows w)"
  have ok: "unique_jobs (jw_rows w)" "\<forall>r\<in>set (jw_rows w). under_ceiling owner max_ms r" using job_life_ok assms(1,2) by blast+
  then have k: "\<forall>job\<in>set ?due. known_job owner (jw_rows w) job" using due_known by blast
  from assms(4) have p: "pass_jobs env owner now max_ms ?due w = (Some finished, w')" and wake: "wake = nextBackgroundWake owner now (jw_rows w')"
    by (auto simp: runBackgroundPass_def Let_def split: prod.splits option.splits)
  have "\<forall>r\<in>set (jw_rows w). still_due owner now ?due r"
    by (auto simp: still_due_def dueBackgroundJobs_def row_id_def image_image)
  with pass_jobs_keep [OF assms(3,2) k p] ok(2)
  have after: "\<forall>r\<in>set (jw_rows w'). under_ceiling owner max_ms r \<and> still_due owner now [] r" by auto
  with assms(5,6) have r: "now < jr_next_poll r" "jr_next_poll r \<le> bj_created (jr_job r) + max_ms + BACKGROUND_STOP_GRACE_MS + 30000"
    by (auto simp: under_ceiling_def still_due_def)
  obtain d where d: "wake = Some d" using nextBackgroundWake_None assms(5,6) wake by (metis option.exhaust)
  from nextBackgroundWake_Some [OF d [unfolded wake]] obtain r' where
    "r' \<in> set (jw_rows w')" "is_running owner r'" "d = max 0 (jr_next_poll r' - now)" "jr_next_poll r' \<le> jr_next_poll r"
    using assms(5,6) by metis
  with after have "0 < d" "now + d \<le> jr_next_poll r" by (auto simp: still_due_def)
  with r d show ?thesis by auto
qed
section \<open>What ends is told\<close>

definition ended_at :: "job_owner \<Rightarrow> int \<Rightarrow> job_row list \<Rightarrow> string \<Rightarrow> bool" where
  "ended_at owner now rows jid \<longleftrightarrow>
     (\<exists>r\<in>set rows. is_job owner jid r \<and> bj_state (jr_job r) \<noteq> Job_Running \<and> bj_finished (jr_job r) = Some now)"

definition told_of :: "int \<Rightarrow> background_job \<Rightarrow> string \<times> string \<Rightarrow> bool" where
  "told_of now job m \<longleftrightarrow> fst m = bj_session job
     \<and> (\<exists>outcome. jo_state outcome \<noteq> Job_Running \<and> snd m = completionMessage job outcome now)"

lemma ended_at_later: "ended_at owner now rows jid \<Longrightarrow> job_step\<^sup>*\<^sup>* rows rows' \<Longrightarrow> ended_at owner now rows' jid"
  unfolding ended_at_def using steps_later later_rowD by (metis later_row_def)

lemma finish_ends:
  assumes "finishBackgroundJob owner jid outcome now rows = (True, rows')" and "jo_state outcome \<noteq> Job_Running"
  shows "ended_at owner now rows' jid"
proof -
  let ?set = "\<lambda>r. r\<lparr>jr_job := (jr_job r)\<lparr>bj_state := jo_state outcome, bj_finished := Some now\<rparr>,
      jr_outcome := Some (JObj [(''result'', or_else (jo_result outcome) JNull),
        (''error'', case jo_error outcome of None \<Rightarrow> JNull | Some e \<Rightarrow> JStr e)])\<rparr>"
  from assms(1) obtain r where r: "r \<in> set rows" "is_job owner jid r" "bj_state (jr_job r) = Job_Running"
    and rows': "rows' = update_where (\<lambda>r. is_job owner jid r \<and> bj_state (jr_job r) = Job_Running) ?set rows"
    by (auto simp: finishBackgroundJob_def dest!: get_row_SomeD split: option.splits if_splits)
  from r have "?set r \<in> set rows'" unfolding rows' set_update_where by (intro image_eqI [of _ _ r]) simp_all
  moreover have "is_job owner jid (?set r)" using r(2) by (simp add: is_job_def owned_by_def)
  ultimately show ?thesis unfolding ended_at_def using assms(2) by (intro bexI [of _ "?set r"]) simp_all
qed

lemma end_job_tells:
  assumes "end_job env owner now job outcome status facts w = (Some done1, w')" and "jo_state outcome \<noteq> Job_Running"
    and "others_only now env"
  shows "done1 = [] \<and> jw_ended w' = jw_ended w \<and> jw_told w' = jw_told w
    \<or> done1 = [bj_id job] \<and> map fst (jw_ended w') = map fst (jw_ended w) @ [bj_id job]
      \<and> (\<exists>m. jw_told w' = jw_told w @ [m] \<and> told_of now job m) \<and> ended_at owner now (jw_rows w') (bj_id job)"
proof (cases "finishBackgroundJob owner (bj_id job) outcome now (jw_rows w)")
  case (Pair b rows)
  show ?thesis
  proof (cases b)
    case False
    with assms(1) Pair show ?thesis by (simp add: end_job_def)
  next
    case True
    with Pair have "finishBackgroundJob owner (bj_id job) outcome now (jw_rows w) = (True, rows)" by simp
    from finish_ends [OF this assms(2)] have "ended_at owner now rows (bj_id job)" .
    then have "ended_at owner now (je_after env job rows) (bj_id job)"
      using ended_at_later sides_are_steps others_after [OF assms(3)] by blast
    with assms(1,2) Pair True show ?thesis by (auto simp: end_job_def Let_def told_of_def split: if_splits)
  qed
qed

lemma pass_job_tells:
  assumes "pass_job env owner now max_ms job w = (Some done1, w')" and "others_only now env"
  shows "done1 = [] \<and> jw_ended w' = jw_ended w \<and> jw_told w' = jw_told w
    \<or> done1 = [bj_id job] \<and> map fst (jw_ended w') = map fst (jw_ended w) @ [bj_id job]
      \<and> (\<exists>m. jw_told w' = jw_told w @ [m] \<and> told_of now job m) \<and> ended_at owner now (jw_rows w') (bj_id job)"
proof -
  let ?w = "w\<lparr>jw_rows := je_during env job (jw_rows w)\<rparr>"
  have o: "jo_state (overdue_outcome max_ms e) \<noteq> Job_Running" for e by (simp add: overdue_outcome_def Let_def)
  note ends = end_job_tells [where env = env and owner = owner and now = now and job = job and w = ?w, OF _ _ assms(2)]
  show ?thesis
  proof (cases "overdueBackground job now max_ms")
    case True
    with assms(1) ends [OF _ o] show ?thesis by (auto simp: pass_job_def Let_def mark_in_def split: if_splits)
  next
    case False
    with assms(1) ends show ?thesis by (auto simp: pass_job_def Let_def mark_in_def split: poll_answer.splits)
  qed
qed

lemma pass_jobs_tell:
  assumes "others_only now env"
  shows "pass_jobs env owner now max_ms due w = (Some finished, w') \<Longrightarrow>
    \<exists>jobs texts. subseq jobs due \<and> map bj_id jobs = finished \<and> map fst (jw_ended w') = map fst (jw_ended w) @ finished
      \<and> jw_told w' = jw_told w @ texts \<and> list_all2 (told_of now) jobs texts \<and> (\<forall>jid\<in>set finished. ended_at owner now (jw_rows w') jid)"
proof (induction due arbitrary: w finished)
  case (Cons job due)
  from Cons.prems obtain done1 w1 later where 1: "pass_job env owner now max_ms job w = (Some done1, w1)"
    and 2: "pass_jobs env owner now max_ms due w1 = (Some later, w')" and f: "finished = done1 @ later"
    by (auto split: prod.splits option.splits)
  from Cons.IH [OF 2] obtain jobs texts where IH: "subseq jobs due" "map bj_id jobs = later"
    "map fst (jw_ended w') = map fst (jw_ended w1) @ later" "jw_told w' = jw_told w1 @ texts" "list_all2 (told_of now) jobs texts"
    "\<forall>jid\<in>set later. ended_at owner now (jw_rows w') jid" by blast
  from pass_job_tells [OF 1 assms] show ?case
  proof (elim disjE conjE exE)
    assume "done1 = []" "jw_ended w1 = jw_ended w" "jw_told w1 = jw_told w"
    with IH f show ?thesis by (intro exI [of _ jobs] exI [of _ texts]) auto
  next
    fix m
    assume d: "done1 = [bj_id job]" "map fst (jw_ended w1) = map fst (jw_ended w) @ [bj_id job]" "jw_told w1 = jw_told w @ [m]"
      "told_of now job m" "ended_at owner now (jw_rows w1) (bj_id job)"
    have "ended_at owner now (jw_rows w') (bj_id job)"
      using ended_at_later [OF d(5)] pass_jobs_steps [OF assms, of w1 owner max_ms due] 2 by simp
    with IH f d show ?thesis by (intro exI [of _ "job # jobs"] exI [of _ "m # texts"]) auto
  qed
qed simp

text \<open>
  A pass that returns has ended each job it names exactly once, completed its operation once and told the conversation that started it
  once: the jobs were running and due when it began, no two are the same, their rows have ended now, and one message about each, in
  order, went to its own session.
\<close>

theorem what_a_pass_ends_is_told:
  assumes "unique_jobs (jw_rows w)" and "others_only now env"
    and "runBackgroundPass env owner now max_ms w = (Some (checked, finished, wake), w')"
  shows "\<exists>jobs texts. set jobs \<subseteq> set (dueBackgroundJobs owner now (jw_rows w)) \<and> map bj_id jobs = finished \<and> distinct finished
    \<and> map fst (jw_ended w') = map fst (jw_ended w) @ finished
    \<and> jw_told w' = jw_told w @ texts \<and> list_all2 (told_of now) jobs texts
    \<and> (\<forall>jid\<in>set finished. ended_at owner now (jw_rows w') jid)"
proof -
  let ?due = "dueBackgroundJobs owner now (jw_rows w)"
  from assms(3) have p: "pass_jobs env owner now max_ms ?due w = (Some finished, w')"
    by (auto simp: runBackgroundPass_def Let_def split: prod.splits option.splits)
  from pass_jobs_tell [OF assms(2) p] obtain jobs texts where j: "subseq jobs ?due" "map bj_id jobs = finished"
    "map fst (jw_ended w') = map fst (jw_ended w) @ finished" "jw_told w' = jw_told w @ texts" "list_all2 (told_of now) jobs texts"
    "\<forall>jid\<in>set finished. ended_at owner now (jw_rows w') jid" by blast
  have "distinct (map row_id (order_by jr_next_poll (filter (\<lambda>r. is_running owner r \<and> jr_next_poll r \<le> now) (jw_rows w))))"
    using assms(1) by (simp add: unique_jobs_def order_by_def distinct_map distinct_filter inj_on_def)
  then have "distinct (map bj_id ?due)" by (simp add: dueBackgroundJobs_def comp_def row_id_def [abs_def])
  with j(1,2) have "distinct finished" using subseq_map subseq_conv_nths distinct_nthsI by metis
  moreover have "set jobs \<subseteq> set ?due" using j(1) by (metis subseq_conv_nths set_nths_subset)
  ultimately show ?thesis using j(2-6) by (intro exI [of _ jobs] exI [of _ texts] conjI)
qed
section \<open>A message that is lost, a stop, a refusal\<close>

definition over_in :: "job_owner \<Rightarrow> job_row list \<Rightarrow> string \<Rightarrow> bool" where
  "over_in owner rows jid \<longleftrightarrow> (\<exists>r\<in>set rows. is_job owner jid r \<and> bj_state (jr_job r) \<noteq> Job_Running)"

lemma over_in_later: "over_in owner rows jid \<Longrightarrow> job_step\<^sup>*\<^sup>* rows rows' \<Longrightarrow> over_in owner rows' jid"
  unfolding over_in_def using steps_later later_rowD by (metis later_row_def)

lemma ended_over: "ended_at owner now rows jid \<Longrightarrow> over_in owner rows jid"
  by (auto simp: ended_at_def over_in_def)

lemma over_not_running: "over_in owner rows jid \<Longrightarrow> unique_jobs rows \<Longrightarrow> jid \<notin> bj_id ` set (runningBackgroundJobs owner rows)"
  unfolding over_in_def runningBackgroundJobs_def is_running_def is_job_def using unique_row row_id_def by fastforce

lemma due_is_running: "set (dueBackgroundJobs owner now rows) \<subseteq> set (runningBackgroundJobs owner rows)"
  by (auto simp: dueBackgroundJobs_def runningBackgroundJobs_def)

lemma end_job_cut:
  assumes "end_job env owner now job outcome status facts w = (None, w')" and "jo_state outcome \<noteq> Job_Running" and "others_only now env"
  shows "jw_told w' = jw_told w \<and> over_in owner (jw_rows w') (bj_id job)"
proof -
  from assms(1) obtain rows where f: "finishBackgroundJob owner (bj_id job) outcome now (jw_rows w) = (True, rows)"
    and w': "jw_told w' = jw_told w" "jw_rows w' = je_after env job rows"
    by (auto simp: end_job_def Let_def split: prod.splits bool.splits if_splits)
  have "ended_at owner now (jw_rows w') (bj_id job)"
    unfolding w'(2) using finish_ends [OF f assms(2)] ended_at_later sides_are_steps others_after [OF assms(3)] by blast
  with w'(1) show ?thesis using ended_over by blast
qed

text \<open>
  A message that does not go through is lost: when the completion of a job's operation or the message about it throws, the pass ends
  with nothing told of that job, whose row has ended by then, so no later pass finds it due, however the table goes on.
\<close>

theorem a_refused_message_is_never_sent:
  assumes "unique_jobs (jw_rows w)" and "others_only now env" and "pass_job env owner now max_ms job w = (None, w')"
    and "job_step\<^sup>*\<^sup>* (jw_rows w') rows"
  shows "jw_told w' = jw_told w \<and> bj_id job \<notin> bj_id ` set (dueBackgroundJobs owner t rows)"
proof -
  have o: "jo_state (overdue_outcome max_ms e) \<noteq> Job_Running" for e by (simp add: overdue_outcome_def Let_def)
  note cut = end_job_cut [where env = env and owner = owner and now = now and job = job
      and w = "w\<lparr>jw_rows := je_during env job (jw_rows w)\<rparr>", OF _ _ assms(2)]
  have "jw_told w' = jw_told w \<and> over_in owner (jw_rows w') (bj_id job)"
  proof (cases "overdueBackground job now max_ms")
    case True
    with assms(3) cut [OF _ o] show ?thesis by (auto simp: pass_job_def Let_def mark_in_def split: if_splits)
  next
    case False
    with assms(3) cut show ?thesis by (auto simp: pass_job_def Let_def mark_in_def split: poll_answer.splits)
  qed
  moreover have "unique_jobs rows"
    using steps_later [OF pass_job_steps [OF assms(2), of w owner max_ms job]] steps_later [OF assms(4)] assms(1,3) by simp
  ultimately show ?thesis using over_in_later [OF _ assms(4)] over_not_running due_is_running by blast
qed

lemma finish_over:
  assumes "known_job owner rows job" and "finishBackgroundJob owner (bj_id job) outcome now rows = (b, rows')" and "jo_state outcome \<noteq> Job_Running"
  shows "over_in owner rows' (bj_id job) \<and> job_step\<^sup>*\<^sup>* rows rows'"
proof
  show "job_step\<^sup>*\<^sup>* rows rows'"
    using job_by_side [OF job_ended [OF assms(3), of now rows owner "bj_id job" now]] assms(2) by auto
  show "over_in owner rows' (bj_id job)"
  proof (cases b)
    case True
    with assms(2) have "finishBackgroundJob owner (bj_id job) outcome now rows = (True, rows')" by simp
    from finish_ends [OF this assms(3)] show ?thesis by (rule ended_over)
  next
    case False
    obtain r where "get_row (is_job owner (bj_id job)) rows = Some r" using known_get [OF assms(1)] by blast
    with False assms(2) show ?thesis
      by (auto simp: finishBackgroundJob_def over_in_def dest!: get_row_SomeD split: if_splits)
  qed
qed

text \<open>One stop, and the rest.\<close>

lemma stop_job_does:
  assumes "stop_job env owner now job w = (Some b, w1)" and "others_only now env" and "known_job owner (jw_rows w) job"
  shows "b = (je_cancel env job = None)" and "job_step\<^sup>*\<^sup>* (jw_rows w) (jw_rows w1)" and "b \<Longrightarrow> over_in owner (jw_rows w1) (bj_id job)"
    and "jw_told w1 = jw_told w"
    and "jw_ended w1 = jw_ended w \<or> b \<and> jw_ended w1 = jw_ended w @ [(bj_id job, OCancelled, jobEndFacts (bj_call job) None)]"
proof -
  let ?rows = "je_during env job (jw_rows w)"
  let ?out = "\<lparr>jo_state = Job_Cancelled, jo_result = None, jo_error = None\<rparr>"
  obtain c rows where f: "finishBackgroundJob owner (bj_id job) ?out now ?rows = (c, rows)" by fastforce
  show "b = (je_cancel env job = None)" "jw_told w1 = jw_told w"
    "jw_ended w1 = jw_ended w \<or> b \<and> jw_ended w1 = jw_ended w @ [(bj_id job, OCancelled, jobEndFacts (bj_call job) None)]"
    using assms(1) f by (auto simp: stop_job_def Let_def split: if_splits bool.splits)
  have k: "known_job owner ?rows job" using known_job_later [OF assms(3) during_steps [OF assms(2)]] .
  from finish_over [OF k f] have o: "over_in owner rows (bj_id job)" "job_step\<^sup>*\<^sup>* ?rows rows" by simp_all
  have d: "job_step\<^sup>*\<^sup>* (jw_rows w) ?rows" using during_steps [OF assms(2)] .
  have a: "job_step\<^sup>*\<^sup>* rows (je_after env job rows)" using sides_are_steps others_after [OF assms(2)] by blast
  have n: "\<not> c \<Longrightarrow> rows = ?rows" using f by (auto simp: finishBackgroundJob_def split: option.splits if_splits)
  have r: "jw_rows w1 = ?rows \<and> (b \<longrightarrow> \<not> c) \<or> c \<and> jw_rows w1 = je_after env job rows"
    using assms(1) f by (auto simp: stop_job_def Let_def split: if_splits bool.splits)
  then show "job_step\<^sup>*\<^sup>* (jw_rows w) (jw_rows w1)" using d o(2) a by (metis rtranclp_trans)
  show "over_in owner (jw_rows w1) (bj_id job)" if b using r that n o(1) over_in_later [OF o(1) a] by metis
qed

lemma stop_jobs_do:
  assumes "others_only now env"
  shows "(\<forall>job\<in>set jobs. known_job owner (jw_rows w) job) \<Longrightarrow> stop_jobs env owner now jobs w = (Some (stopped, still), w') \<Longrightarrow>
      stopped = map bj_id (filter (\<lambda>j. je_cancel env j = None) jobs) \<and> still = map bj_id (filter (\<lambda>j. je_cancel env j \<noteq> None) jobs)
      \<and> job_step\<^sup>*\<^sup>* (jw_rows w) (jw_rows w') \<and> (\<forall>jid\<in>set stopped. over_in owner (jw_rows w') jid)
      \<and> (\<exists>more. jw_ended w' = jw_ended w @ more \<and> (\<forall>e\<in>set more. fst e \<in> set stopped \<and> fst (snd e) = OCancelled)) \<and> jw_told w' = jw_told w"
proof (induction jobs arbitrary: w stopped still)
  case (Cons job jobs)
  from Cons.prems(2) obtain b w1 s r where 1: "stop_job env owner now job w = (Some b, w1)"
    and 2: "stop_jobs env owner now jobs w1 = (Some (s, r), w')"
    and out: "stopped = (if b then bj_id job # s else s)" "still = (if b then r else bj_id job # r)"
    by (auto split: prod.splits option.splits)
  note one = stop_job_does [OF 1 assms]
  have k: "known_job owner (jw_rows w) job" using Cons.prems(1) by simp
  have known: "\<forall>job\<in>set jobs. known_job owner (jw_rows w1) job" using Cons.prems(1) known_job_later [OF _ one(2) [OF k]] by simp
  note rest = Cons.IH [OF known 2]
  have "b \<longrightarrow> over_in owner (jw_rows w') (bj_id job)" using one(3) [OF k] over_in_later rest by blast
  moreover have "job_step\<^sup>*\<^sup>* (jw_rows w) (jw_rows w')" using rtranclp_trans [OF one(2) [OF k]] rest by blast
  ultimately show ?case using rest one(1,4,5) [OF k] out by auto
qed simp

text \<open>
  A cancelled turn accounts for every job its conversation started: each one running is either reported stopped, and then it is over and
  is no longer listed, or reported still running, which is exactly when its stop failed; only stopped ones have their operation completed,
  as cancelled, and nothing is told of any.
\<close>

theorem a_stop_accounts_for_every_job:
  assumes "unique_jobs (jw_rows w)" and "others_only now env"
    and "stopSessionJobs env owner session now w = (Some (stopped, still), w')"
  shows "stopped = map bj_id (filter (\<lambda>j. bj_session j = session \<and> je_cancel env j = None) (runningBackgroundJobs owner (jw_rows w)))
    \<and> still = map bj_id (filter (\<lambda>j. bj_session j = session \<and> je_cancel env j \<noteq> None) (runningBackgroundJobs owner (jw_rows w)))
    \<and> (\<forall>jid\<in>set stopped. jid \<notin> bj_id ` set (runningBackgroundJobs owner (jw_rows w')))
    \<and> (\<exists>more. jw_ended w' = jw_ended w @ more \<and> (\<forall>e\<in>set more. fst e \<in> set stopped \<and> fst (snd e) = OCancelled)) \<and> jw_told w' = jw_told w"
proof -
  have k: "\<forall>job\<in>set (filter (\<lambda>job. bj_session job = session) (runningBackgroundJobs owner (jw_rows w))). known_job owner (jw_rows w) job"
    using assms(1) by (auto simp: runningBackgroundJobs_def known_job_def is_job_def is_running_def)
  from stop_jobs_do [OF assms(2) k assms(3) [unfolded stopSessionJobs_def]] have g: "stopped = map bj_id (filter (\<lambda>j. je_cancel env j = None)
      (filter (\<lambda>job. bj_session job = session) (runningBackgroundJobs owner (jw_rows w))))"
    "still = map bj_id (filter (\<lambda>j. je_cancel env j \<noteq> None) (filter (\<lambda>job. bj_session job = session) (runningBackgroundJobs owner (jw_rows w))))"
    "job_step\<^sup>*\<^sup>* (jw_rows w) (jw_rows w')" "\<forall>jid\<in>set stopped. over_in owner (jw_rows w') jid"
    "\<exists>more. jw_ended w' = jw_ended w @ more \<and> (\<forall>e\<in>set more. fst e \<in> set stopped \<and> fst (snd e) = OCancelled)" "jw_told w' = jw_told w" by blast+
  have "unique_jobs (jw_rows w')" using steps_later [OF g(3)] assms(1) by blast
  with g show ?thesis using over_not_running by (auto simp: conj_commute)
qed

text \<open>
  The agent's own cancel does not look whether it ended the job: when the job ended while its stop was awaited, the tool still says it
  was cancelled and completes its operation a second time, as cancelled; the stop of a conversation's jobs does not.
\<close>

lemma cancel_completes_an_ended_job:
  assumes "unique_jobs (jw_rows w)" and "others_only now env" and "find (\<lambda>j. Some (bj_id j) = wanted) (runningBackgroundJobs owner (jw_rows w)) = Some job"
    and "je_cancel env job = None" and "je_complete env (bj_id job)" and "over_in owner (je_during env job (jw_rows w)) (bj_id job)"
  shows "fst (jobsTool env owner (Some ''cancel'') wanted now w) = Jobs_Text (JObj [(''cancelled'', JStr (bj_id job))])
    \<and> jw_ended (snd (jobsTool env owner (Some ''cancel'') wanted now w)) = jw_ended w @ [(bj_id job, OCancelled, jobEndFacts (bj_call job) None)]
    \<and> stop_job env owner now job w = (Some True, w\<lparr>jw_rows := je_during env job (jw_rows w)\<rparr>)"
proof -
  have "unique_jobs (je_during env job (jw_rows w))" using steps_later [OF during_steps [OF assms(2)]] assms(1) by blast
  with assms(6) obtain r where "get_row (is_job owner (bj_id job)) (je_during env job (jw_rows w)) = Some r" "bj_state (jr_job r) \<noteq> Job_Running"
    unfolding over_in_def using unique_get by blast
  with assms(3-5) show ?thesis by (simp add: jobsTool_def jobs_cancel_def stop_job_def finishBackgroundJob_def Let_def)
qed

text \<open>
  A call refused over the cap stays tracked: whether or not it could be stopped, it is among the agent's running jobs with its first
  check two seconds on, beside every job that was running, and the answer says whether the stop went through.
\<close>

theorem a_refused_call_stays_tracked:
  assumes "refuseOverCap owner new running cancelled now rows = Some ((stop_requested, message), rows')"
  shows "(\<exists>j\<in>set (runningBackgroundJobs owner rows'). bj_id j = nj_id new \<and> bj_session j = nj_session new \<and> bj_created j = now)
    \<and> set (runningBackgroundJobs owner rows) \<subseteq> set (runningBackgroundJobs owner rows')
    \<and> (\<exists>d. nextBackgroundWake owner now rows' = Some d \<and> d \<le> 2000)
    \<and> stop_requested = (cancelled = None)"
proof -
  from assms obtain r where r: "rows' = rows @ [r]" "is_running owner r" "bj_id (jr_job r) = nj_id new" "bj_session (jr_job r) = nj_session new"
    "bj_created (jr_job r) = now" "jr_next_poll r = now + 2000" and s: "stop_requested = (cancelled = None)"
    by (auto simp: refuseOverCap_def recordBackgroundJob_def insert_row_def is_running_def owned_by_def nextPollDelay_def Let_def
        split: option.splits if_splits)
  obtain d where d: "nextBackgroundWake owner now rows' = Some d" using nextBackgroundWake_None [of owner now rows'] r by fastforce
  from nextBackgroundWake_Some [OF d] r have "d \<le> 2000" by force
  with d s r show ?thesis by (auto simp: runningBackgroundJobs_def)
qed

lemma admission: "admitBackground running cap now = None \<longleftrightarrow> length running < cap"
  by (simp add: admitBackground_def)
section \<open>At concrete inputs\<close>

definition demo_owner :: job_owner where "demo_owner = (''t'', ''a'')"

definition demo_new :: new_job where
  "demo_new = \<lparr>nj_id = ''j1'', nj_session = ''main'', nj_mount = ''box'', nj_tool = ''shell'', nj_handle = None, nj_call = None\<rparr>"

definition demo_env :: "poll_answer \<Rightarrow> bool \<Rightarrow> job_env" where
  "demo_env answer delivers = \<lparr>je_poll = (\<lambda>_. answer), je_cancel = (\<lambda>_. None), je_complete = (\<lambda>_. True), je_deliver = (\<lambda>_ _. delivers),
     je_during = (\<lambda>_ rows. rows), je_after = (\<lambda>_ rows. rows)\<rparr>"

definition demo_row :: "job_state \<Rightarrow> int option \<Rightarrow> nat \<Rightarrow> int \<Rightarrow> job_row" where
  "demo_row st fin polls next = \<lparr>jr_tenant = ''t'', jr_agent = ''a'',
     jr_job = \<lparr>bj_id = ''j1'', bj_mount = ''box'', bj_tool = ''shell'', bj_handle = JNull, bj_state = st, bj_created = 0,
       bj_finished = fin, bj_polls = polls, bj_session = ''main'', bj_call = None\<rparr>,
     jr_next_poll = next, jr_outcome = (if st = Job_Running then None else Some (JObj [(''result'', JNull), (''error'', JNull)]))\<rparr>"

definition demo_world :: job_world where
  "demo_world = \<lparr>jw_rows = [demo_row Job_Running None 0 2000], jw_ended = [], jw_told = []\<rparr>"

lemmas demo_defs = demo_owner_def demo_new_def demo_env_def demo_row_def demo_world_def

lemma demo_recorded: "recordBackgroundJob demo_owner demo_new 0 [] = Some [demo_row Job_Running None 0 2000]"
  by (simp add: demo_defs recordBackgroundJob_def insert_row_def has_row_def nextPollDelay_def)

lemma demo_others: "others_only now (demo_env answer delivers)"
  by (simp add: others_only_def demo_env_def)

lemma demo_life: "job_life demo_owner max_ms (jw_rows demo_world)"
  using life_side [OF life_empty job_recorded [OF order_refl demo_recorded]] by (simp add: demo_world_def)

lemma demo_unique: "unique_jobs (jw_rows demo_world)"
  by (simp add: unique_jobs_def demo_world_def)

lemmas demo_run = demo_defs runBackgroundPass_def dueBackgroundJobs_def is_running_def owned_by_def pass_job_def overdueBackground_def mark_in_def
  markPolled_def is_job_def get_row_def update_where_def nextPollDelay_def nextBackgroundWake_def end_job_def finishBackgroundJob_def
  BACKGROUND_MAX_MS_def order_by_def runningBackgroundJobs_def

lemma demo_due: "dueBackgroundJobs demo_owner 2000 (jw_rows demo_world) = [jr_job (demo_row Job_Running None 0 2000)]"
  by (simp add: demo_run)

lemma demo_checked:
  "runBackgroundPass (demo_env Poll_Running True) demo_owner 2000 BACKGROUND_MAX_MS demo_world =
     (Some (1, [], Some 5000), demo_world\<lparr>jw_rows := [demo_row Job_Running None 1 7000]\<rparr>)"
  by (simp add: demo_run)

theorem no_job_outlives_the_ceiling_witness:
  "fst (runBackgroundPass (demo_env Poll_Running True) demo_owner 2000 BACKGROUND_MAX_MS demo_world) = Some (1, [], Some 5000)
    \<and> (2000 :: int) < 0 + BACKGROUND_MAX_MS + BACKGROUND_STOP_GRACE_MS + 30000"
proof -
  have "is_running demo_owner (demo_row Job_Running None 1 7000)" "bj_created (jr_job (demo_row Job_Running None 1 7000)) = 0"
    "0 \<le> BACKGROUND_MAX_MS" by (simp_all add: demo_row_def demo_owner_def is_running_def owned_by_def BACKGROUND_MAX_MS_def)
  with no_job_outlives_the_ceiling [OF demo_life _ demo_others demo_checked, of "demo_row Job_Running None 1 7000"]
  show ?thesis unfolding demo_checked by simp
qed

lemma demo_finished:
  "runBackgroundPass (demo_env (Poll_Done None) True) demo_owner 2000 BACKGROUND_MAX_MS demo_world =
     (Some (1, [''j1''], None), \<lparr>jw_rows = [demo_row Job_Done (Some 2000) 0 2000], jw_ended = [(''j1'', OSucceeded, jobEndFacts None None)],
       jw_told = [(''main'', completionMessage (jr_job (demo_row Job_Running None 0 2000)) \<lparr>jo_state = Job_Done, jo_result = None, jo_error = None\<rparr> 2000)]\<rparr>)"
  by (simp add: demo_run)

theorem what_a_pass_ends_is_told_witness:
  "\<exists>jobs texts. set jobs \<subseteq> set (dueBackgroundJobs demo_owner 2000 (jw_rows demo_world)) \<and> map bj_id jobs = [''j1'']
    \<and> list_all2 (told_of 2000) jobs texts"
proof -
  from what_a_pass_ends_is_told [OF demo_unique demo_others demo_finished] obtain jobs texts where
    "set jobs \<subseteq> set (dueBackgroundJobs demo_owner 2000 (jw_rows demo_world))" "map bj_id jobs = [''j1'']" "list_all2 (told_of 2000) jobs texts"
    by (elim exE conjE)
  then show ?thesis by (intro exI conjI)
qed

lemma demo_cut:
  "pass_job (demo_env (Poll_Done None) False) demo_owner 2000 BACKGROUND_MAX_MS (jr_job (demo_row Job_Running None 0 2000)) demo_world =
     (None, demo_world\<lparr>jw_rows := [demo_row Job_Done (Some 2000) 0 2000], jw_ended := [(''j1'', OSucceeded, jobEndFacts None None)]\<rparr>)"
  by (simp add: demo_run)

theorem a_refused_message_is_never_sent_witness:
  "''j1'' \<notin> bj_id ` set (dueBackgroundJobs demo_owner 100000 [demo_row Job_Done (Some 2000) 0 2000])"
  using a_refused_message_is_never_sent [OF demo_unique demo_others demo_cut, of "[demo_row Job_Done (Some 2000) 0 2000]" 100000]
  by (simp add: demo_row_def)

theorem a_job_ends_once_witness:
  "finishBackgroundJob demo_owner ''j1'' \<lparr>jo_state = Job_Cancelled, jo_result = None, jo_error = None\<rparr> 3000 [demo_row Job_Done (Some 2000) 0 2000]
     = (False, [demo_row Job_Done (Some 2000) 0 2000])"
proof -
  let ?rows = "[demo_row Job_Done (Some 2000) 0 2000]"
  have "unique_jobs ?rows" "is_job demo_owner ''j1'' (hd ?rows)" "bj_state (jr_job (hd ?rows)) \<noteq> Job_Running"
    by (simp_all add: unique_jobs_def is_job_def owned_by_def demo_row_def demo_owner_def)
  then show ?thesis using a_job_ends_once [of ?rows ?rows "hd ?rows" demo_owner "''j1''"] by simp
qed

lemma demo_stopped:
  "stopSessionJobs (demo_env Poll_Running True) demo_owner ''main'' 2500 demo_world =
     (Some ([''j1''], []), demo_world\<lparr>jw_rows := [demo_row Job_Cancelled (Some 2500) 0 2000], jw_ended := [(''j1'', OCancelled, jobEndFacts None None)]\<rparr>)"
  by (simp add: demo_run stopSessionJobs_def stop_job_def)

theorem a_stop_accounts_for_every_job_witness:
  "''j1'' \<notin> bj_id ` set (runningBackgroundJobs demo_owner [demo_row Job_Cancelled (Some 2500) 0 2000])"
  using a_stop_accounts_for_every_job [OF demo_unique demo_others demo_stopped] by simp

lemma demo_refused:
  "refuseOverCap demo_owner demo_new [] None 0 [] = Some ((True,
     '' This call was over the limit and is being stopped as background job j1; it counts toward the limit until it has actually ended.''),
     [demo_row Job_Running None 0 2000])"
  using demo_recorded by (simp add: refuseOverCap_def admitBackground_def BACKGROUND_CAP_def demo_new_def)

theorem a_refused_call_stays_tracked_witness:
  "\<exists>j\<in>set (runningBackgroundJobs demo_owner [demo_row Job_Running None 0 2000]). bj_id j = ''j1''"
  using a_refused_call_stays_tracked [OF demo_refused] by (auto simp: demo_new_def)

end
