(* ===== verification/Tool_Policy.thy ===== *)
theory Tool_Policy
  imports Trace "HOL-Library.Sublist"
begin

text \<open>
  The rules a tool call is decided by (\<open>src/src/plugins/types.ts\<close>, \<open>src/src/core/tools.ts\<close>) and what a bridged request and
  its answer may carry (\<open>src/src/runtime/gateway.ts\<close>): a mount's policy and a plugin's defaults, policy keys, refusals, the route
  table of a bridge, the one spelling of a path, and the redaction of credentials. A plugin's hooks and its patterns are parameters.
  The lemmas show that a key, a default or a confirmation only tightens, that an unlisted write is held, that an accepted path has one
  spelling, and that no credential is left in a redacted text.
\<close>

section \<open>Whose session it is\<close>

definition SUBAGENT_SESSION_PREFIX :: string where "SUBAGENT_SESSION_PREFIX = ''sub_''"

definition isSubagentSession :: "string \<Rightarrow> bool" where
  "isSubagentSession session \<longleftrightarrow> starts_with SUBAGENT_SESSION_PREFIX session"

section \<open>Decisions\<close>

datatype policy_decision = Allow | Approval | Deny

datatype side_effects = Reads | Writes

record mount_policy =
  po_read :: "policy_decision option"
  po_write :: "policy_decision option"
  po_tools :: "(string \<times> policy_decision) list"

fun STRICTNESS :: "policy_decision \<Rightarrow> nat" where
  "STRICTNESS Allow = 0"
| "STRICTNESS Approval = 1"
| "STRICTNESS Deny = 2"

definition stricter :: "policy_decision \<Rightarrow> policy_decision \<Rightarrow> policy_decision" where
  "stricter a b = (if STRICTNESS a < STRICTNESS b then b else a)"

definition policy_half :: "side_effects \<Rightarrow> mount_policy option \<Rightarrow> policy_decision option" where
  "policy_half side p = Option.bind p (\<lambda>p. if side = Writes then po_write p else po_read p)"

definition policy_entry :: "string \<Rightarrow> mount_policy option \<Rightarrow> policy_decision option" where
  "policy_entry tool p = Option.bind p (\<lambda>p. map_of (po_tools p) tool)"

definition policyFor :: "mount_policy option \<Rightarrow> string \<Rightarrow> side_effects \<Rightarrow> mount_policy option \<Rightarrow> policy_decision" where
  "policyFor policy tool side defaults =
     (case policy_entry tool policy of
        Some own \<Rightarrow> own
      | None \<Rightarrow>
          (let mount = or_else (policy_half side policy) Allow;
               fallback = (case policy_entry tool defaults of Some d \<Rightarrow> Some d | None \<Rightarrow> policy_half side defaults) in
           case fallback of
             Some f \<Rightarrow> if STRICTNESS mount < STRICTNESS f then f else mount
           | None \<Rightarrow> mount))"

text \<open>What a plugin's hook did: threw, answered \<open>undefined\<close>, a text, or something else.\<close>

datatype hook_answer = Hook_Throws | Hook_Undefined | Hook_Text string | Hook_Other

type_synonym call_hook = "string \<Rightarrow> json \<Rightarrow> hook_answer"

datatype policy_key = No_Key | Key string | Unnamed

definition policyKeyOf :: "call_hook option \<Rightarrow> string \<Rightarrow> json \<Rightarrow> policy_key" where
  "policyKeyOf hook tool args =
     (case hook of
        None \<Rightarrow> No_Key
      | Some f \<Rightarrow> (case f tool args of
            Hook_Throws \<Rightarrow> Unnamed
          | Hook_Undefined \<Rightarrow> No_Key
          | Hook_Text k \<Rightarrow> if k = tool then No_Key else if k \<noteq> [] then Key k else Unnamed
          | Hook_Other \<Rightarrow> Unnamed))"

definition REFUSE_FAILED :: string where
  "REFUSE_FAILED = ''this call is refused: the plugin could not say whether it may run''"

definition REFUSE_REASON_BYTES :: nat where "REFUSE_REASON_BYTES = 300"

definition REFUSE_TOO_LONG :: string where
  "REFUSE_TOO_LONG = ''this call is refused: the plugin'' @ [CHR 0x27] @ ''s reason was longer than ''
     @ show_int (int REFUSE_REASON_BYTES) @ '' characters''"

definition refusalOf :: "call_hook option \<Rightarrow> string \<Rightarrow> json \<Rightarrow> string option" where
  "refusalOf hook tool args =
     (case hook of
        None \<Rightarrow> None
      | Some f \<Rightarrow> (case f tool args of
            Hook_Throws \<Rightarrow> Some REFUSE_FAILED
          | Hook_Undefined \<Rightarrow> None
          | Hook_Other \<Rightarrow> Some REFUSE_FAILED
          | Hook_Text why \<Rightarrow> if why = [] then Some REFUSE_FAILED
              else if REFUSE_REASON_BYTES < length why then Some REFUSE_TOO_LONG else Some why))"

definition callSideEffects :: "call_hook option \<Rightarrow> string \<Rightarrow> json \<Rightarrow> side_effects \<Rightarrow> side_effects" where
  "callSideEffects classify tool args declared =
     (if declared = Reads then Reads
      else case classify of None \<Rightarrow> Writes | Some f \<Rightarrow> if f tool args = Hook_Text ''read'' then Reads else Writes)"

definition pluginEnabled :: "bool \<Rightarrow> plugin_choice option \<Rightarrow> bool" where
  "pluginEnabled seeded choice =
     (if choice = Some Enabled then True else if choice = Some Disabled then False else seeded)"

section \<open>Names\<close>

definition to_lower :: "char \<Rightarrow> char" where
  "to_lower c = (if CHR ''A'' \<le> c \<and> c \<le> CHR ''Z'' then char_of ((of_char c :: nat) + 32) else c)"

definition to_upper :: "char \<Rightarrow> char" where
  "to_upper c = (if CHR ''a'' \<le> c \<and> c \<le> CHR ''z'' then char_of ((of_char c :: nat) - 32) else c)"

fun split_at :: "char \<Rightarrow> string \<Rightarrow> string list" where
  "split_at d [] = [[]]"
| "split_at d (c # cs) = (if c = d then [] # split_at d cs
     else (case split_at d cs of [] \<Rightarrow> [[c]] | l # ls \<Rightarrow> (c # l) # ls))"

definition word_char :: "char \<Rightarrow> bool" where
  "word_char c \<longleftrightarrow> (CHR ''a'' \<le> to_lower c \<and> to_lower c \<le> CHR ''z'') \<or> (CHR ''0'' \<le> c \<and> c \<le> CHR ''9'') \<or> c = CHR ''_''"

text \<open>Words joined by dots, at least two.\<close>

definition parseToolRef :: "string \<Rightarrow> (string \<times> string) option" where
  "parseToolRef raw =
     (case split_at (CHR ''.'') (trim raw) of
        h # t # rest \<Rightarrow>
          if list_all (\<lambda>w. w \<noteq> [] \<and> list_all word_char w) (h # t # rest) then Some (h, join_with ''.'' (t # rest)) else None
      | _ \<Rightarrow> None)"

section \<open>The route table of a bridge\<close>

definition isJsonContentType :: "string option \<Rightarrow> bool" where
  "isJsonContentType ct =
     (case ct of None \<Rightarrow> False
      | Some t \<Rightarrow>
          (let s = map to_lower (trim t); rest = drop 12 s;
               token = takeWhile (\<lambda>c. \<not> is_white c \<and> c \<noteq> CHR '';'') rest;
               after = dropWhile is_white (drop (length token) rest) in
           take 12 s = ''application/''
           \<and> (token = ''json'' \<or> (ends_with ''+json'' token \<and> 5 < length token \<and> CHR ''/'' \<notin> set token))
           \<and> (after = [] \<or> hd after = CHR '';'')))"

text \<open>What a row decides: a policy key, or a refusal with what it says of a body it could not judge.\<close>

datatype route_rule = Route_Key string | Route_Refuse string "string option"

text \<open>A row: its methods, its pattern (matched in either case), and its test of the body, where \<open>None\<close> is a throw.\<close>

record route_entry =
  re_methods :: "string list"
  re_path :: "string \<Rightarrow> bool"
  re_query :: bool
  re_body :: "((string \<times> json) list option \<Rightarrow> string option \<Rightarrow> bool option) option"
  re_rule :: route_rule

datatype route_class = Listed string | Route_Refused string | Unlisted_Read | Unlisted_Write string

definition UNJUDGED_BODY :: string where
  "UNJUDGED_BODY = ''the body of this request could not be read as a JSON object, so this route refuses it; ''
     @ ''send it as a JSON object with content-type: application/json''"

definition rule_class :: "route_rule \<Rightarrow> route_class" where
  "rule_class r = (case r of Route_Key k \<Rightarrow> Listed k | Route_Refuse m _ \<Rightarrow> Route_Refused m)"

definition unsure_class :: "string \<Rightarrow> route_rule \<Rightarrow> route_class" where
  "unsure_class unlisted r = (case r of Route_Key _ \<Rightarrow> Unlisted_Write unlisted | Route_Refuse _ u \<Rightarrow> Route_Refused (or_else u UNJUDGED_BODY))"

text \<open>The body as a row sees it: none, an object's members, or (\<open>None\<close>) present and not a JSON object.\<close>

definition parsed_body :: "(string \<Rightarrow> json option) \<Rightarrow> string option \<Rightarrow> (string \<times> json) list option option" where
  "parsed_body parse body =
     (case body of None \<Rightarrow> Some None
      | Some b \<Rightarrow> (case parse b of Some (JObj kvs) \<Rightarrow> Some (Some kvs) | _ \<Rightarrow> None))"

fun classify_rows :: "(string \<Rightarrow> json option) \<Rightarrow> string \<Rightarrow> string \<Rightarrow> string \<Rightarrow> string option \<Rightarrow> bool \<Rightarrow> bool \<Rightarrow> route_entry list \<Rightarrow> route_class" where
  "classify_rows parse unlisted m path body json_type query [] =
     (if m = ''GET'' \<or> m = ''HEAD'' then Unlisted_Read else Unlisted_Write unlisted)"
| "classify_rows parse unlisted m path body json_type query (row # rows) =
     (let later = classify_rows parse unlisted m path body json_type query rows in
      if \<not> list_ex (\<lambda>x. map to_upper x = m) (re_methods row) \<or> \<not> re_path row path then later
      else if re_query row \<and> \<not> query then later
      else (case re_body row of
          None \<Rightarrow> rule_class (re_rule row)
        | Some test \<Rightarrow>
            if \<not> json_type then unsure_class unlisted (re_rule row)
            else (case parsed_body parse body of
                None \<Rightarrow> unsure_class unlisted (re_rule row)
              | Some v \<Rightarrow> (case test v body of
                    None \<Rightarrow> unsure_class unlisted (re_rule row)
                  | Some hit \<Rightarrow> if hit then rule_class (re_rule row) else later))))"

definition classifyRoute ::
    "(string \<Rightarrow> json option) \<Rightarrow> route_entry list \<Rightarrow> string \<Rightarrow> string \<Rightarrow> string \<Rightarrow> string option \<Rightarrow> string option \<Rightarrow> bool \<Rightarrow> route_class" where
  "classifyRoute parse routes unlisted method path body content_type has_query =
     classify_rows parse unlisted (map to_upper method) path body (isJsonContentType content_type) has_query routes"

section \<open>What a bridged request may carry\<close>

definition BRIDGE_PATH_MAX :: nat where "BRIDGE_PATH_MAX = 2048"

definition BRIDGE_BODY_MAX_UTF8 :: nat where "BRIDGE_BODY_MAX_UTF8 = 1024 * 1024"

definition BRIDGE_REQUEST_HEADERS :: "string list" where "BRIDGE_REQUEST_HEADERS = [''content-type'', ''accept'']"

definition BRIDGE_METHODS :: "string list" where
  "BRIDGE_METHODS = [''GET'', ''HEAD'', ''POST'', ''PUT'', ''PATCH'', ''DELETE'']"

definition NEVER_TO_BOX :: "string list" where
  "NEVER_TO_BOX = [''set-cookie'', ''set-cookie2'', ''cookie'', ''authorization'', ''proxy-authorization'', ''www-authenticate'', ''proxy-authenticate'']"

definition control_char :: "char \<Rightarrow> bool" where
  "control_char c \<longleftrightarrow> (of_char c :: nat) < 32 \<or> (of_char c :: nat) = 127"

definition printable :: "char \<Rightarrow> bool" where
  "printable c \<longleftrightarrow> 33 \<le> (of_char c :: nat) \<and> (of_char c :: nat) \<le> 126"

definition bad_path :: "string \<Rightarrow> string \<Rightarrow> string" where
  "bad_path raw why = ''a bridged request'' @ [CHR 0x27] @ ''s path '' @ why @ '', got '' @ take 80 (stringify (JStr raw))"

text \<open>
  \<open>Inl\<close> is the refusal. \<open>decodeURIComponent\<close> leaves a text of printable ASCII as it is exactly when it has no percent sign; with one it
  decodes or throws.
\<close>

definition bridgePath :: "string \<Rightarrow> string + string" where
  "bridgePath raw =
     (if BRIDGE_PATH_MAX < length raw then Inl (bad_path raw (''is at most '' @ show_int (int BRIDGE_PATH_MAX) @ '' characters''))
      else if \<not> starts_with ''/'' raw \<or> starts_with ''//'' raw then Inl (bad_path raw ''starts with one / and names no host'')
      else if list_ex (\<lambda>c. c = CHR 0x5C \<or> is_white c \<or> control_char c) raw
        then Inl (bad_path raw ''carries no backslash, whitespace or control character'')
      else let no_fragment = takeWhile (\<lambda>c. c \<noteq> CHR ''#'') raw; path_part = takeWhile (\<lambda>c. c \<noteq> CHR ''?'') no_fragment in
        if list_ex (\<lambda>c. c = CHR '';'' \<or> \<not> printable c) path_part then Inl (bad_path raw ''carries no ; and nothing outside printable ASCII'')
        else if CHR ''%'' \<in> set path_part then Inl (bad_path raw ''carries no percent-escapes'')
        else let segments = split_at (CHR ''/'') (drop 1 path_part) in
          if list_ex (\<lambda>x. x = ''.'' \<or> x = ''..'') segments \<or> list_ex (\<lambda>x. x = []) (butlast segments)
          then Inl (bad_path raw ''has no empty, . or .. segments'')
          else Inr no_fragment)"

definition drop_end_slashes :: "string \<Rightarrow> string" where
  "drop_end_slashes p = rev (dropWhile (\<lambda>c. c = CHR ''/'') (rev p))"

definition routePath :: "string \<Rightarrow> string" where
  "routePath path = (let p = takeWhile (\<lambda>c. c \<noteq> CHR ''?'' \<and> c \<noteq> CHR ''#'') path in if 1 < length p then drop_end_slashes p else p)"

record bridge_request =
  br_method :: string
  br_path :: string
  br_body :: "string option"
  br_headers :: "(string \<times> string) list"

definition member_of :: "string \<Rightarrow> json \<Rightarrow> json option" where
  "member_of k v = (case v of JObj kvs \<Rightarrow> map_of kvs k | _ \<Rightarrow> None)"

definition set_header :: "string \<Rightarrow> string \<Rightarrow> (string \<times> string) list \<Rightarrow> (string \<times> string) list" where
  "set_header k v hs = upsert (\<lambda>h. fst h = k) (k, v) (\<lambda>h. (k, v)) hs"

text \<open>The headers that may leave the box: a value that is not printable ASCII refuses the request.\<close>

fun box_request_headers :: "(string \<times> json) list \<Rightarrow> (string \<times> string) list \<Rightarrow> string + (string \<times> string) list" where
  "box_request_headers [] hs = Inr hs"
| "box_request_headers ((k, v) # kvs) hs =
     (case v of
        JStr t \<Rightarrow>
          (let name = map to_lower k in
           if name \<notin> set BRIDGE_REQUEST_HEADERS then box_request_headers kvs hs
           else if list_all (\<lambda>c. c = CHR 0x09 \<or> c = CHR '' '' \<or> printable c) t then box_request_headers kvs (set_header name t hs)
           else Inl (''a bridged request'' @ [CHR 0x27] @ ''s '' @ name @ '' header is printable ASCII''))
      | _ \<Rightarrow> box_request_headers kvs hs)"

text \<open>\<open>utf8\<close> is the number of bytes of a text as \<open>TextEncoder\<close> writes it.\<close>

definition bridgeArgs :: "(string \<Rightarrow> nat) \<Rightarrow> json \<Rightarrow> string + bridge_request" where
  "bridgeArgs utf8 args =
     (case member_of ''method'' args of
        Some (JStr meth) \<Rightarrow>
          if meth = [] \<or> \<not> list_all (\<lambda>c. CHR ''a'' \<le> to_lower c \<and> to_lower c \<le> CHR ''z'') meth
          then Inl ''a bridged request needs its method as a word''
          else (case member_of ''path'' args of
              Some (JStr raw) \<Rightarrow>
                (case bridgePath raw of
                   Inl e \<Rightarrow> Inl e
                 | Inr path \<Rightarrow>
                     (let body = member_of ''body'' args;
                          text = (case body of Some (JStr b) \<Rightarrow> Some b | _ \<Rightarrow> None);
                          bytes = (case text of None \<Rightarrow> 0 | Some b \<Rightarrow> if BRIDGE_BODY_MAX_UTF8 < length b * 3 then utf8 b else 0);
                          m = map to_upper meth in
                      if text = None \<and> body \<noteq> None \<and> body \<noteq> Some JNull then Inl (''a bridged request'' @ [CHR 0x27] @ ''s body is the text as sent'')
                      else if BRIDGE_BODY_MAX_UTF8 < bytes
                      then Inl (''a bridged request'' @ [CHR 0x27] @ ''s body is at most '' @ show_int (int BRIDGE_BODY_MAX_UTF8)
                        @ '' bytes as UTF-8, got '' @ show_int (int bytes))
                      else if m \<notin> set BRIDGE_METHODS
                      then Inl (''a bridged request'' @ [CHR 0x27] @ ''s method is one of '' @ join_with '', '' BRIDGE_METHODS
                        @ '', got '' @ take 20 (stringify (JStr meth)))
                      else (case box_request_headers (case member_of ''headers'' args of Some (JObj hs) \<Rightarrow> hs | _ \<Rightarrow> []) [] of
                          Inl e \<Rightarrow> Inl e
                        | Inr headers \<Rightarrow> Inr \<lparr>br_method = m, br_path = path,
                            br_body = (if m = ''GET'' \<or> m = ''HEAD'' then None else text), br_headers = headers\<rparr>)))
            | _ \<Rightarrow> Inl ''a bridged request needs a path that starts with /'')
      | _ \<Rightarrow> Inl ''a bridged request needs its method as a word'')"

section \<open>Redaction\<close>

definition REDACTED :: string where "REDACTED = ''[redacted]''"

text \<open>Each secret as sent, and as it reads inside a JSON string.\<close>

definition secret_forms :: "string list \<Rightarrow> string list" where
  "secret_forms vals = concat (map (\<lambda>s. [s, butlast (drop 1 (stringify (JStr s)))]) (filter (\<lambda>s. 8 \<le> length s) vals))"

definition marked_at :: "string list \<Rightarrow> string \<Rightarrow> nat \<Rightarrow> bool" where
  "marked_at forms text i \<longleftrightarrow> list_ex (\<lambda>f. list_ex (\<lambda>k. k \<le> i \<and> i < k + length f) (all_starts f text 0)) forms"

text \<open>The second loop: a run of marked characters becomes one mark.\<close>

fun write_marked :: "bool \<Rightarrow> (char \<times> bool) list \<Rightarrow> string" where
  "write_marked before [] = []"
| "write_marked before ((c, m) # cs) = (if \<not> m then [c] else if before then [] else REDACTED) @ write_marked m cs"

definition redact_secrets :: "string \<Rightarrow> string list \<Rightarrow> string" where
  "redact_secrets text vals =
     write_marked False (zip text (map (marked_at (secret_forms vals) text) [0..<length text]))"

text \<open>Every string of a stored credential that is JSON, and the whole of it.\<close>

fun json_strings :: "json \<Rightarrow> string list"
  and json_strings_items :: "json list \<Rightarrow> string list"
  and json_strings_members :: "(string \<times> json) list \<Rightarrow> string list" where
  "json_strings (JStr s) = [s]"
| "json_strings (JArr vs) = json_strings_items vs"
| "json_strings (JObj kvs) = json_strings_members kvs"
| "json_strings JNull = []"
| "json_strings (JBool b) = []"
| "json_strings (JNum i) = []"
| "json_strings_items [] = []"
| "json_strings_items (v # vs) = json_strings v @ json_strings_items vs"
| "json_strings_members [] = []"
| "json_strings_members ((k, v) # kvs) = json_strings v @ json_strings_members kvs"

definition credentialValues :: "(string \<Rightarrow> json option) \<Rightarrow> string option \<Rightarrow> string list" where
  "credentialValues parse credential =
     (case credential of None \<Rightarrow> []
      | Some c \<Rightarrow> c # (case parse c of None \<Rightarrow> [] | Some v \<Rightarrow> json_strings v))"

text \<open>\<open>Object.fromEntries\<close>: a later entry of a name takes the place of the first.\<close>

definition from_entries :: "(string \<times> 'v) list \<Rightarrow> (string \<times> 'v) list" where
  "from_entries kvs = fold (\<lambda>kv acc. upsert (\<lambda>h. fst h = fst kv) kv (\<lambda>h. kv) acc) kvs []"

fun redact_json :: "string list \<Rightarrow> json \<Rightarrow> json"
  and redact_items :: "string list \<Rightarrow> json list \<Rightarrow> json list"
  and redact_members :: "string list \<Rightarrow> (string \<times> json) list \<Rightarrow> (string \<times> json) list" where
  "redact_json vals (JStr s) = JStr (redact_secrets s vals)"
| "redact_json vals (JArr vs) = JArr (redact_items vals vs)"
| "redact_json vals (JObj kvs) = JObj (from_entries (redact_members vals kvs))"
| "redact_json vals JNull = JNull"
| "redact_json vals (JBool b) = JBool b"
| "redact_json vals (JNum i) = JNum i"
| "redact_items vals [] = []"
| "redact_items vals (v # vs) = redact_json vals v # redact_items vals vs"
| "redact_members vals [] = []"
| "redact_members vals ((k, v) # kvs) = (redact_secrets k vals, redact_json vals v) # redact_members vals kvs"

definition redactBody :: "(string \<Rightarrow> json option) \<Rightarrow> string \<Rightarrow> string option \<Rightarrow> string list \<Rightarrow> string" where
  "redactBody parse text content_type vals =
     (case (if isJsonContentType content_type then parse text else None) of
        Some v \<Rightarrow> redact_secrets (stringify (redact_json vals v)) vals
      | None \<Rightarrow> redact_secrets text vals)"

fun box_headers :: "string list \<Rightarrow> string list \<Rightarrow> (string \<times> string) list \<Rightarrow> (string \<times> string) list \<Rightarrow> (string \<times> string) list" where
  "box_headers named vals [] kept = kept"
| "box_headers named vals ((k, v) # hs) kept =
     (let name = map to_lower k in
      box_headers named vals hs (if name \<in> set named \<and> name \<notin> set NEVER_TO_BOX then set_header name (redact_secrets v vals) kept else kept))"

definition boxHeaders :: "string list \<Rightarrow> (string \<times> string) list \<Rightarrow> string list \<Rightarrow> (string \<times> string) list" where
  "boxHeaders listed headers vals =
     box_headers (''content-type'' # ''x-request-id'' # map (map to_lower) listed) vals headers []"
section \<open>Tightening\<close>

lemma STRICTNESS_inj: "STRICTNESS a = STRICTNESS b \<longleftrightarrow> a = b"
  by (cases a; cases b) simp_all

lemma stricter_max [simp]: "STRICTNESS (stricter a b) = max (STRICTNESS a) (STRICTNESS b)"
  by (simp add: stricter_def)

lemma policyFor_strictness:
  "STRICTNESS (policyFor policy tool side defaults) =
     (case policy_entry tool policy of Some own \<Rightarrow> STRICTNESS own
      | None \<Rightarrow> max (STRICTNESS (or_else (policy_half side policy) Allow))
          (case policy_entry tool defaults of Some d \<Rightarrow> STRICTNESS d
           | None \<Rightarrow> (case policy_half side defaults of None \<Rightarrow> 0 | Some d \<Rightarrow> STRICTNESS d)))"
  by (auto simp: policyFor_def Let_def split: option.split)

text \<open>What a plugin's defaults add to a mount that has no entry for the tool is never looser than the mount's own half.\<close>

lemma defaults_only_tighten:
  "policy_entry tool policy = None \<Longrightarrow> STRICTNESS (or_else (policy_half side policy) Allow) \<le> STRICTNESS (policyFor policy tool side defaults)"
  by (simp add: policyFor_strictness)

text \<open>A declared read stays a read, and a declared write is a read only when the plugin says exactly that.\<close>

lemma callSideEffects_reads: "callSideEffects classify tool args declared = Reads \<longleftrightarrow>
    declared = Reads \<or> (\<exists>f. classify = Some f \<and> f tool args = Hook_Text ''read'')"
  by (auto simp: callSideEffects_def split: option.splits if_splits; cases declared; simp)

section \<open>Routes\<close>

definition row_asked :: "route_entry \<Rightarrow> string \<Rightarrow> string \<Rightarrow> bool \<Rightarrow> bool" where
  "row_asked row m path query \<longleftrightarrow> list_ex (\<lambda>x. map to_upper x = m) (re_methods row) \<and> re_path row path \<and> (re_query row \<longrightarrow> query)"

text \<open>The row's test said of a body it could read that it is not the row's.\<close>

definition ruled_out :: "(string \<Rightarrow> json option) \<Rightarrow> route_entry \<Rightarrow> string option \<Rightarrow> bool \<Rightarrow> bool" where
  "ruled_out parse row body json_type \<longleftrightarrow>
     json_type \<and> (\<exists>test v. re_body row = Some test \<and> parsed_body parse body = Some v \<and> test v body = Some False)"

definition ruled_in :: "(string \<Rightarrow> json option) \<Rightarrow> route_entry \<Rightarrow> string option \<Rightarrow> bool \<Rightarrow> bool" where
  "ruled_in parse row body json_type \<longleftrightarrow> (case re_body row of None \<Rightarrow> True
     | Some test \<Rightarrow> json_type \<and> (\<exists>v. parsed_body parse body = Some v \<and> test v body = Some True))"

lemma classify_row_cases:
  "classify_rows parse unlisted m path body json_type query (row # rows) =
     (if \<not> row_asked row m path query \<or> ruled_out parse row body json_type then classify_rows parse unlisted m path body json_type query rows
      else if ruled_in parse row body json_type then rule_class (re_rule row) else unsure_class unlisted (re_rule row))"
  by (auto simp: row_asked_def ruled_out_def ruled_in_def Let_def split: option.split)

lemma classify_rows_listed:
  "classify_rows parse unlisted m path body json_type query rows = Listed k \<Longrightarrow>
     \<exists>before row after. rows = before @ row # after \<and> re_rule row = Route_Key k \<and> row_asked row m path query \<and> ruled_in parse row body json_type
       \<and> (\<forall>r\<in>set before. row_asked r m path query \<longrightarrow> ruled_out parse r body json_type)"
proof (induction rows)
  case Nil
  then show ?case by (simp split: if_splits)
next
  case (Cons row rows)
  show ?case
  proof (cases "\<not> row_asked row m path query \<or> ruled_out parse row body json_type")
    case True
    with Cons.prems have "classify_rows parse unlisted m path body json_type query rows = Listed k"
      by (simp only: classify_row_cases if_True)
    from Cons.IH [OF this] obtain before row' after where "rows = before @ row' # after" "re_rule row' = Route_Key k"
      "row_asked row' m path query" "ruled_in parse row' body json_type"
      "\<forall>r\<in>set before. row_asked r m path query \<longrightarrow> ruled_out parse r body json_type" by blast
    with True show ?thesis by (intro exI [of _ "row # before"] exI [of _ row'] exI [of _ after]) auto
  next
    case False
    with Cons.prems have "(if ruled_in parse row body json_type then rule_class (re_rule row) else unsure_class unlisted (re_rule row)) = Listed k"
      by (simp only: classify_row_cases if_False)
    then have "ruled_in parse row body json_type" "re_rule row = Route_Key k"
      by (auto simp: rule_class_def unsure_class_def split: if_splits route_rule.splits)
    with False show ?thesis by (intro exI [of _ "[]"] exI [of _ row] exI [of _ rows]) simp
  qed
qed

text \<open>
  A bridge's table fails closed: a request that is not a read is decided under a listed key only by a row that matches it and whose test
  of the body, if it has one, holds of a body it could read, after every earlier row that matches it has ruled it out by such a test;
  and with no such row it is held as an unlisted write or refused, never passed as a read.
\<close>

theorem an_unlisted_write_is_held:
  assumes "map to_upper method \<notin> {''GET'', ''HEAD''}"
  shows "(case classifyRoute parse routes unlisted method path body content_type has_query of
      Unlisted_Read \<Rightarrow> False
    | Unlisted_Write k \<Rightarrow> k = unlisted
    | Route_Refused message \<Rightarrow> \<exists>row\<in>set routes. \<exists>m u. re_rule row = Route_Refuse m u \<and> message \<in> {m, or_else u UNJUDGED_BODY}
    | Listed k \<Rightarrow> \<exists>before row after. routes = before @ row # after \<and> re_rule row = Route_Key k
        \<and> row_asked row (map to_upper method) path has_query \<and> ruled_in parse row body (isJsonContentType content_type)
        \<and> (\<forall>r\<in>set before. row_asked r (map to_upper method) path has_query \<longrightarrow> ruled_out parse r body (isJsonContentType content_type)))"
proof -
  let ?c = "\<lambda>rows. classify_rows parse unlisted (map to_upper method) path body (isJsonContentType content_type) has_query rows"
  have other: "?c rows \<noteq> Unlisted_Read \<and> (\<forall>k. ?c rows = Unlisted_Write k \<longrightarrow> k = unlisted)
      \<and> (\<forall>message. ?c rows = Route_Refused message \<longrightarrow> (\<exists>row\<in>set rows. \<exists>m u. re_rule row = Route_Refuse m u \<and> message \<in> {m, or_else u UNJUDGED_BODY}))" for rows
  proof (induction rows)
    case Nil
    then show ?case using assms by simp
  next
    case (Cons row rows)
    then show ?case unfolding classify_row_cases
      by (cases "re_rule row") (auto simp: rule_class_def unsure_class_def simp del: classify_rows.simps)
  qed
  from other [of routes] classify_rows_listed [of parse unlisted "map to_upper method" path body "isJsonContentType content_type" has_query routes]
  show ?thesis unfolding classifyRoute_def by (cases "?c routes") auto
qed

theorem an_unlisted_write_is_held_witness:
  "classifyRoute (\<lambda>_. None) [\<lparr>re_methods = [''PUT''], re_path = (\<lambda>p. p = ''/merge''), re_query = False, re_body = None, re_rule = Route_Refuse ''no'' None\<rparr>]
     ''unlisted'' ''put'' ''/merge'' None None False \<noteq> Unlisted_Read"
proof -
  have "map to_upper ''put'' = ''PUT''" by code_simp
  then have "map to_upper ''put'' \<notin> {''GET'', ''HEAD''}" by simp
  from an_unlisted_write_is_held [OF this, where parse = "\<lambda>_. None" and path = "''/merge''" and body = None and content_type = None
    and has_query = False and unlisted = "''unlisted''" and routes = "[\<lparr>re_methods = [''PUT''], re_path = (\<lambda>p. p = ''/merge''), re_query = False, re_body = None, re_rule = Route_Refuse ''no'' None\<rparr>]"]
  show ?thesis by (auto split: route_class.splits)
qed
section \<open>A path has one spelling\<close>

lemma split_at_not_Nil [simp]: "split_at d s \<noteq> []"
  by (induction s) (auto split: list.split)

lemma join_split_at [simp]: "join_with [d] (split_at d s) = s"
proof (induction s)
  case (Cons c cs)
  obtain l ls where "split_at d cs = l # ls" using split_at_not_Nil by (meson neq_Nil_conv)
  with Cons show ?case by (cases ls) auto
qed simp

lemma bridgePath_Inr:
  assumes "bridgePath raw = Inr path"
  shows "path = takeWhile (\<lambda>c. c \<noteq> CHR ''#'') raw" and "length raw \<le> BRIDGE_PATH_MAX"
    and "starts_with ''/'' raw" and "\<not> starts_with ''//'' raw"
    and "\<forall>c\<in>set raw. c \<noteq> CHR 0x5C \<and> \<not> is_white c \<and> \<not> control_char c"
    and "\<forall>c\<in>set (takeWhile (\<lambda>c. c \<noteq> CHR ''?'') path). printable c \<and> c \<noteq> CHR '';'' \<and> c \<noteq> CHR ''%''"
    and "\<forall>x\<in>set (split_at (CHR ''/'') (drop 1 (takeWhile (\<lambda>c. c \<noteq> CHR ''?'') path))). x \<noteq> ''.'' \<and> x \<noteq> ''..''"
    and "[] \<notin> set (butlast (split_at (CHR ''/'') (drop 1 (takeWhile (\<lambda>c. c \<noteq> CHR ''?'') path))))"
proof -
  let ?part = "takeWhile (\<lambda>c. c \<noteq> CHR ''?'') (takeWhile (\<lambda>c. c \<noteq> CHR ''#'') raw)"
  have if_Inr: "(if b then Inl e else r) = Inr path \<longleftrightarrow> \<not> b \<and> r = Inr path" for b :: bool and e :: string and r by simp
  from assms have all: "\<not> BRIDGE_PATH_MAX < length raw \<and> \<not> (\<not> starts_with ''/'' raw \<or> starts_with ''//'' raw)
    \<and> \<not> list_ex (\<lambda>c. c = CHR 0x5C \<or> is_white c \<or> control_char c) raw \<and> \<not> list_ex (\<lambda>c. c = CHR '';'' \<or> \<not> printable c) ?part
    \<and> CHR ''%'' \<notin> set ?part \<and> \<not> (list_ex (\<lambda>x. x = ''.'' \<or> x = ''..'') (split_at (CHR ''/'') (drop 1 ?part))
      \<or> list_ex (\<lambda>x. x = []) (butlast (split_at (CHR ''/'') (drop 1 ?part)))) \<and> path = takeWhile (\<lambda>c. c \<noteq> CHR ''#'') raw"
    unfolding bridgePath_def Let_def if_Inr sum.inject by blast
  then show p: "path = takeWhile (\<lambda>c. c \<noteq> CHR ''#'') raw" by (elim conjE)
  from all have "\<not> BRIDGE_PATH_MAX < length raw" by (elim conjE)
  then show "length raw \<le> BRIDGE_PATH_MAX" unfolding not_less .
  from all have ss: "\<not> (\<not> starts_with ''/'' raw \<or> starts_with ''//'' raw)" by (elim conjE)
  then show "starts_with ''/'' raw" unfolding de_Morgan_disj not_not by (elim conjE)
  from ss show "\<not> starts_with ''//'' raw" unfolding de_Morgan_disj not_not by (elim conjE)
  from all show "\<forall>c\<in>set raw. c \<noteq> CHR 0x5C \<and> \<not> is_white c \<and> \<not> control_char c" unfolding list_ex_iff by blast
  from all show "\<forall>c\<in>set (takeWhile (\<lambda>c. c \<noteq> CHR ''?'') path). printable c \<and> c \<noteq> CHR '';'' \<and> c \<noteq> CHR ''%''"
    unfolding list_ex_iff p by metis
  from all show "\<forall>x\<in>set (split_at (CHR ''/'') (drop 1 (takeWhile (\<lambda>c. c \<noteq> CHR ''?'') path))). x \<noteq> ''.'' \<and> x \<noteq> ''..''"
    and "[] \<notin> set (butlast (split_at (CHR ''/'') (drop 1 (takeWhile (\<lambda>c. c \<noteq> CHR ''?'') path))))"
    unfolding list_ex_iff p by blast+
qed

lemma takeWhile_twice: "takeWhile p (takeWhile q s) = takeWhile (\<lambda>c. p c \<and> q c) s"
  by (induction s) auto

definition path_part :: "string \<Rightarrow> string" where
  "path_part path = takeWhile (\<lambda>c. c \<noteq> CHR ''?'') path"

lemma drop_end_slashes_prefix: "\<exists>n. p = drop_end_slashes p @ replicate n (CHR ''/'')"
proof -
  have "takeWhile (\<lambda>c. c = CHR ''/'') (rev p) = replicate (length (takeWhile (\<lambda>c. c = CHR ''/'') (rev p))) (CHR ''/'')"
    by (rule sym, rule replicate_length_same) (blast dest: set_takeWhileD)
  then have "rev p = replicate (length (takeWhile (\<lambda>c. c = CHR ''/'') (rev p))) (CHR ''/'') @ dropWhile (\<lambda>c. c = CHR ''/'') (rev p)"
    by (metis takeWhile_dropWhile_id)
  then have "p = rev (dropWhile (\<lambda>c. c = CHR ''/'') (rev p)) @ replicate (length (takeWhile (\<lambda>c. c = CHR ''/'') (rev p))) (CHR ''/'')"
    by (metis rev_append rev_replicate rev_rev_ident)
  then show ?thesis unfolding drop_end_slashes_def by (rule exI)
qed
lemma split_at_append: "split_at d (a @ d # b) = split_at d a @ split_at d b"
proof (induction a)
  case (Cons c cs)
  obtain l ls where "split_at d cs = l # ls" using split_at_not_Nil by (meson neq_Nil_conv)
  with Cons show ?case by auto
qed simp

lemma last_split_at: "last (split_at d s) = [] \<longleftrightarrow> s = [] \<or> last s = d"
proof (induction s)
  case (Cons c cs)
  obtain l ls where l: "split_at d cs = l # ls" using split_at_not_Nil by (meson neq_Nil_conv)
  show ?case
  proof (cases "ls = []")
    case True
    with l have "d \<notin> set cs" by (induction cs arbitrary: l) (auto split: if_splits list.splits)
    with Cons l True show ?thesis by (cases cs) auto
  next
    case False
    with l have "cs \<noteq> []" by auto
    with Cons l False show ?thesis by auto
  qed
qed simp

lemma no_end_slash: "drop_end_slashes p \<noteq> [] \<Longrightarrow> last (drop_end_slashes p) \<noteq> CHR ''/''"
  unfolding drop_end_slashes_def by (metis (mono_tags, lifting) hd_dropWhile last_rev rev_is_Nil_conv)

text \<open>The segments of the path the table sees, when the request's path had none that is empty before its last.\<close>

lemma segments_without_end:
  assumes "p = q @ replicate n d" and "q \<noteq> []" and "last q \<noteq> d" and "[] \<notin> set (butlast (split_at d p))"
    and "\<forall>x\<in>set (split_at d p). P x"
  shows "[] \<notin> set (split_at d q) \<and> (\<forall>x\<in>set (split_at d q). P x)"
proof -
  have last: "last (split_at d q) \<noteq> []" using assms(2,3) by (simp add: last_split_at)
  have set: "set (split_at d q) = set (butlast (split_at d q)) \<union> {last (split_at d q)}"
    by (metis append_butlast_last_id list.set(1,2) set_append split_at_not_Nil)
  show ?thesis
  proof (cases n)
    case 0
    with assms set last show ?thesis by auto
  next
    case (Suc k)
    with assms(1) have s: "split_at d p = split_at d q @ split_at d (replicate k d)" by (simp add: split_at_append)
    then have "butlast (split_at d p) = split_at d q @ butlast (split_at d (replicate k d))" by (simp add: butlast_append)
    with assms(4,5) s show ?thesis by auto
  qed
qed

lemma segments_of_slashless:
  assumes "p = CHR ''/'' # p'" and "p' \<noteq> []" and "hd p' \<noteq> CHR ''/''"
    and "[] \<notin> set (butlast (split_at (CHR ''/'') p'))" and "\<forall>x\<in>set (split_at (CHR ''/'') p'). P x"
  shows "\<exists>rest. drop_end_slashes p = CHR ''/'' # rest \<and> [] \<notin> set (split_at (CHR ''/'') rest) \<and> (\<forall>x\<in>set (split_at (CHR ''/'') rest). P x)"
proof -
  obtain n where n: "p = drop_end_slashes p @ replicate n (CHR ''/'')" using drop_end_slashes_prefix by blast
  have "drop_end_slashes p \<noteq> []"
  proof
    assume "drop_end_slashes p = []"
    with n assms(1) have "set p' \<subseteq> {CHR ''/''}" by (metis append_Nil set_replicate_conv_if set_subset_Cons subset_trans empty_subsetI)
    with assms(2,3) show False using hd_in_set by fastforce
  qed
  then have last: "last (drop_end_slashes p) \<noteq> CHR ''/''" by (rule no_end_slash)
  from \<open>drop_end_slashes p \<noteq> []\<close> n assms(1) obtain q where q: "drop_end_slashes p = CHR ''/'' # q" "p' = q @ replicate n (CHR ''/'')"
    by (metis append_Cons list.inject neq_Nil_conv)
  with last have "q \<noteq> []" "last q \<noteq> CHR ''/''" by (auto split: if_splits)
  from segments_without_end [OF q(2) this assms(4,5)] q(1) show ?thesis by blast
qed

text \<open>
  A path the gateway takes has one spelling: the path the route table is asked about is what stands in the request before its query and
  its fragment, less slashes at its end; it begins with one slash and names no host, it is printable ASCII without a percent sign, a
  semicolon or a backslash, and, but for the root itself, none of its segments is empty, \<open>.\<close> or \<open>..\<close>, so nothing upstream decodes or
  folds it into another route.
\<close>

theorem an_accepted_path_has_one_spelling:
  assumes "bridgePath raw = Inr path"
  shows "(\<exists>n. takeWhile (\<lambda>c. c \<noteq> CHR ''?'' \<and> c \<noteq> CHR ''#'') raw = routePath path @ replicate n (CHR ''/''))
    \<and> (\<forall>c\<in>set (routePath path). printable c \<and> c \<notin> {CHR ''%'', CHR '';'', CHR 0x5C})
    \<and> (routePath path = ''/'' \<or> (\<exists>rest. routePath path = CHR ''/'' # rest
        \<and> (\<forall>x\<in>set (split_at (CHR ''/'') rest). x \<notin> {[], ''.'', ''..''})))"
proof -
  note b = bridgePath_Inr [OF assms]
  let ?p = "takeWhile (\<lambda>c. c \<noteq> CHR ''?'' \<and> c \<noteq> CHR ''#'') raw"
  have p: "takeWhile (\<lambda>c. c \<noteq> CHR ''?'') path = ?p" "takeWhile (\<lambda>c. c \<noteq> CHR ''?'' \<and> c \<noteq> CHR ''#'') path = ?p"
    unfolding b(1) takeWhile_twice by (simp_all add: conj_ac)
  obtain r where raw: "raw = CHR ''/'' # r" "r = [] \<or> hd r \<noteq> CHR ''/''"
  proof (cases raw)
    case Nil
    with b(3) show ?thesis by (simp add: starts_with_def)
  next
    case (Cons c r)
    with b(3,4) that show ?thesis by (cases r) (simp_all add: starts_with_def)
  qed
  then obtain p' where p': "?p = CHR ''/'' # p'" "p' = [] \<or> hd p' \<noteq> CHR ''/''" by (cases r) auto
  have chars: "\<forall>c\<in>set ?p. printable c \<and> c \<notin> {CHR ''%'', CHR '';'', CHR 0x5C}"
  proof
    fix c assume c: "c \<in> set ?p"
    with b(6) p(1) have "printable c \<and> c \<noteq> CHR '';'' \<and> c \<noteq> CHR ''%''" by metis
    moreover from c b(5) have "c \<noteq> CHR 0x5C" using set_takeWhileD by metis
    ultimately show "printable c \<and> c \<notin> {CHR ''%'', CHR '';'', CHR 0x5C}" by simp
  qed
  show ?thesis
  proof (cases "p' = []")
    case True
    have route: "routePath path = ''/''" unfolding routePath_def Let_def p(2) p'(1) True by simp
    have "?p = routePath path @ replicate 0 (CHR ''/'')" unfolding route p'(1) True by simp
    moreover have "\<forall>c\<in>set (routePath path). printable c \<and> c \<notin> {CHR ''%'', CHR '';'', CHR 0x5C}" using chars unfolding route p'(1) True .
    ultimately show ?thesis using route by blast
  next
    case False
    then have long: "1 < length ?p" unfolding p'(1) by simp
    have route: "routePath path = drop_end_slashes ?p" unfolding routePath_def Let_def p(2) if_P [OF long] ..
    obtain n where n: "?p = routePath path @ replicate n (CHR ''/'')" using drop_end_slashes_prefix unfolding route by blast
    then have "set (routePath path) \<subseteq> set ?p" by (metis Un_upper1 set_append)
    then have ok: "\<forall>c\<in>set (routePath path). printable c \<and> c \<notin> {CHR ''%'', CHR '';'', CHR 0x5C}" using chars by blast
    have d: "drop 1 (takeWhile (\<lambda>c. c \<noteq> CHR ''?'') path) = p'" unfolding p(1) p'(1) by simp
    obtain rest where "routePath path = CHR ''/'' # rest" "[] \<notin> set (split_at (CHR ''/'') rest)"
      "\<forall>x\<in>set (split_at (CHR ''/'') rest). x \<noteq> ''.'' \<and> x \<noteq> ''..''"
      using segments_of_slashless [OF p'(1) False _ b(8) [unfolded d] b(7) [unfolded d]] p'(2) False unfolding route by blast
    then have "\<exists>rest. routePath path = CHR ''/'' # rest \<and> (\<forall>x\<in>set (split_at (CHR ''/'') rest). x \<notin> {[], ''.'', ''..''})" by blast
    with n ok show ?thesis by blast
  qed
qed

theorem an_accepted_path_has_one_spelling_witness:
  "\<exists>n. ''/repos/a/'' = routePath ''/repos/a/?page=2'' @ replicate n (CHR ''/'')"
proof -
  have "bridgePath ''/repos/a/?page=2#top'' = Inr ''/repos/a/?page=2''" by code_simp
  from an_accepted_path_has_one_spelling [OF this] show ?thesis by simp
qed
section \<open>No credential is left\<close>

lemma unmarked_prefix:
  "take (length s) (write_marked False zs) = s \<Longrightarrow> CHR ''['' \<notin> set s \<Longrightarrow> take (length s) zs = map (\<lambda>c. (c, False)) s"
proof (induction zs arbitrary: s)
  case (Cons z zs)
  obtain c m where z: "z = (c, m)" by fastforce
  show ?case
  proof (cases s)
    case (Cons x xs)
    with Cons.prems z show ?thesis by (cases m) (auto simp: REDACTED_def intro: Cons.IH)
  qed simp
qed simp

lemma mark_shows_nothing:
  assumes "occurs_at s (REDACTED @ w) k" and "k < 10" and "8 \<le> length s" and "CHR ''['' \<notin> set s" and "CHR '']'' \<notin> set s"
  shows "s = ''redacted''"
proof -
  from assms(1) have nth: "\<And>i. i < length s \<Longrightarrow> s ! i = (REDACTED @ w) ! (k + i)"
    unfolding occurs_at_def starts_with_def by (metis add.commute le_add_diff_inverse2 add_leD2 length_append nth_drop nth_take)
  have k: "k \<noteq> 0"
  proof
    assume "k = 0"
    have l: "0 < length s" using assms(3) by linarith
    from nth [OF this] \<open>k = 0\<close> have "s ! 0 = CHR ''[''" by (simp add: REDACTED_def)
    with l assms(4) show False by (metis nth_mem)
  qed
  have "length s \<le> 9 - k"
  proof (rule ccontr)
    assume "\<not> length s \<le> 9 - k"
    then have "9 - k < length s" by simp
    from nth [OF this] assms(2) have "s ! (9 - k) = CHR '']''" by (simp add: REDACTED_def nth_append)
    with \<open>9 - k < length s\<close> assms(5) show False by (metis nth_mem)
  qed
  with k assms(3) have "k = 1" "length s = 8" by auto
  then have "s = take 8 (drop 1 (REDACTED @ w))" using assms(1) by (simp add: occurs_at_def starts_with_def)
  then show ?thesis by (simp add: REDACTED_def)
qed

lemma occurs_at_Cons: "occurs_at s (c # w) (Suc k) \<longleftrightarrow> occurs_at s w k"
  by (simp add: occurs_at_def)

lemma occurs_at_append: "length a \<le> k \<Longrightarrow> occurs_at s (a @ w) k \<longleftrightarrow> occurs_at s w (k - length a)"
  by (auto simp: occurs_at_def)

lemma unmarked_occurrence:
  assumes "8 \<le> length s" and "CHR ''['' \<notin> set s" and "CHR '']'' \<notin> set s" and "s \<noteq> ''redacted''"
  shows "occurs_at s (write_marked b zs) k \<Longrightarrow> \<exists>i. take (length s) (drop i zs) = map (\<lambda>c. (c, False)) s"
proof (induction zs arbitrary: b k)
  case Nil
  with assms(1) show ?case by (simp add: occurs_at_def)
next
  case (Cons z zs)
  obtain c m where z: "z = (c, m)" by fastforce
  have later: "\<exists>i. take (length s) (drop i zs) = map (\<lambda>c. (c, False)) s \<Longrightarrow> ?case" by (metis drop_Suc_Cons)
  consider (kept) "\<not> m" | (run) "m" "b" | (mark) "m" "\<not> b" by blast
  then show ?case
  proof cases
    case kept
    show ?thesis
    proof (cases k)
      case 0
      obtain x xs where s: "s = x # xs" using assms(1) by (cases s) auto
      from Cons.prems 0 z kept s have "x = c" "take (length xs) (write_marked False zs) = xs"
        by (auto simp: occurs_at_def starts_with_def)
      with unmarked_prefix [of xs zs] assms(2) s z kept show ?thesis by (intro exI [of _ 0]) simp
    next
      case (Suc k')
      with Cons.prems z kept show ?thesis by (intro later Cons.IH [of False k']) (simp add: occurs_at_Cons)
    qed
  next
    case run
    with Cons.prems z show ?thesis by (intro later Cons.IH [of True k]) simp
  next
    case mark
    with Cons.prems z have o: "occurs_at s (REDACTED @ write_marked True zs) k" by simp
    show ?thesis
    proof (cases "k < 10")
      case True
      with mark_shows_nothing [OF o] assms show ?thesis by blast
    next
      case False
      then have "occurs_at s (write_marked True zs) (k - length REDACTED)" using o occurs_at_append [of REDACTED k] by (simp add: REDACTED_def)
      then show ?thesis by (intro later Cons.IH)
    qed
  qed
qed

lemma esc_char_not_Nil: "esc_char c \<noteq> []"
  by (simp add: esc_char_def Let_def)

lemma secret_form_length: "f \<in> set (secret_forms vals) \<Longrightarrow> 8 \<le> length f"
proof -
  have "length s \<le> length (concat (map esc_char s))" for s
  proof (induction s)
    case (Cons c s)
    have "1 \<le> length (esc_char c)" using esc_char_not_Nil [of c] by (cases "esc_char c") auto
    with Cons show ?case by simp
  qed simp
  then have "8 \<le> length s \<Longrightarrow> 8 \<le> length (butlast (drop 1 (stringify (JStr s))))" for s
    using order.trans by (simp add: str_lit_def) blast
  then show "f \<in> set (secret_forms vals) \<Longrightarrow> 8 \<le> length f" by (auto simp: secret_forms_def)
qed

text \<open>
  No credential is left in a redacted text: none of the forms of a credential of eight characters or more, as it was sent or as it reads
  inside a JSON string, occurs anywhere in what is handed over, however the credentials overlap in the text; the only texts a mark itself
  can spell are the word it is made of and texts with its brackets.
\<close>

theorem no_credential_is_left:
  assumes "f \<in> set (secret_forms vals)" and "CHR ''['' \<notin> set f" and "CHR '']'' \<notin> set f" and "f \<noteq> ''redacted''"
  shows "\<not> contains f (redact_secrets text vals)"
proof
  let ?zs = "zip text (map (marked_at (secret_forms vals) text) [0..<length text])"
  have len: "8 \<le> length f" using secret_form_length assms(1) .
  assume "contains f (redact_secrets text vals)"
  then obtain k where "occurs_at f (write_marked False ?zs) k" by (auto simp: contains_def redact_secrets_def list_ex_iff)
  from unmarked_occurrence [OF len assms(2-4) this] obtain i where i: "take (length f) (drop i ?zs) = map (\<lambda>c. (c, False)) f" by blast
  have "length (take (length f) (drop i ?zs)) = length f" unfolding i by simp
  then have fits: "i + length f \<le> length text" using len by simp
  have "map fst (take (length f) (drop i ?zs)) = f" unfolding i by (simp add: comp_def)
  then have "take (length f) (drop i text) = f" by (simp add: take_map [symmetric] drop_map [symmetric] map_fst_zip)
  with fits have o: "occurs_at f text i" by (simp add: occurs_at_def starts_with_def)
  have "take (length f) (drop i ?zs) ! 0 = (f ! 0, False)" unfolding i using len by (subst nth_map) auto
  moreover have "take (length f) (drop i ?zs) ! 0 = (text ! i, marked_at (secret_forms vals) text i)"
    using fits len by (subst nth_take) auto
  ultimately have "\<not> marked_at (secret_forms vals) text i" by simp
  moreover have "i \<in> set (all_starts f text 0)" using o fits by (simp add: all_starts_eq del: upt_Suc)
  moreover have "i < i + length f" using len by linarith
  ultimately show False using assms(1) unfolding marked_at_def list_ex_iff by blast
qed

theorem no_credential_is_left_witness:
  "\<not> contains ''tok-12345'' (redact_secrets ''Bearer tok-12345tok-12345!'' [''tok-12345''])"
proof -
  have "''tok-12345'' \<in> set (secret_forms [''tok-12345''])" by code_simp
  then show ?thesis by (rule no_credential_is_left) simp_all
qed
lemma set_header_entries: "h \<in> set (set_header k v hs) \<Longrightarrow> h \<in> set hs \<or> h = (k, v)"
  by (auto simp: set_header_def upsert_def set_update_where split: if_splits)

lemma box_headers_entries:
  "h \<in> set (box_headers named vals hs kept) \<Longrightarrow>
     h \<in> set kept \<or> (fst h \<in> set named \<and> fst h \<notin> set NEVER_TO_BOX \<and> (\<exists>v. snd h = redact_secrets v vals))"
proof (induction named vals hs kept rule: box_headers.induct)
  case (2 named vals k v hs kept)
  then show ?case using set_header_entries [of h "map to_lower k" "redact_secrets v vals" kept]
    by (fastforce simp: Let_def split: if_splits)
qed simp

text \<open>
  C14: The box sees no credential of 8 characters or more: whatever the upstream answers, for each value that the mount stores, or that is a
  string in it when it is JSON, or that the plugin named, if the value has 8 characters or more (the code matches no shorter one), neither the
  value as sent nor as it reads inside a JSON string occurs in the body or in a header handed to the box. Left out are the forms the mark
  "[redacted]" itself could spell: those with a square bracket, and the word redacted. And no header is handed over but the content type, the
  request id and those the plugin lists, never one of those that carry a credential.
\<close>

theorem the_box_sees_no_credential:
  assumes "f \<in> set (secret_forms (credentialValues parse credential @ named))"
    and "CHR ''['' \<notin> set f" and "CHR '']'' \<notin> set f" and "f \<noteq> ''redacted''"
  shows "\<not> contains f (redactBody parse text content_type (credentialValues parse credential @ named))
    \<and> (\<forall>(k, v) \<in> set (boxHeaders listed headers (credentialValues parse credential @ named)).
         \<not> contains f v \<and> k \<notin> set NEVER_TO_BOX \<and> k \<in> {''content-type'', ''x-request-id''} \<union> map to_lower ` set listed)"
proof
  let ?vals = "credentialValues parse credential @ named"
  note clean = no_credential_is_left [OF assms]
  show "\<not> contains f (redactBody parse text content_type ?vals)"
    using clean by (simp add: redactBody_def split: option.split)
  show "\<forall>(k, v) \<in> set (boxHeaders listed headers ?vals).
         \<not> contains f v \<and> k \<notin> set NEVER_TO_BOX \<and> k \<in> {''content-type'', ''x-request-id''} \<union> map to_lower ` set listed"
  proof (rule ballI, rule case_prodI2)
    fix h k v assume "h \<in> set (boxHeaders listed headers ?vals)" "h = (k, v)"
    with box_headers_entries [of h "''content-type'' # ''x-request-id'' # map (map to_lower) listed" ?vals headers "[]"]
    have "k \<in> set (''content-type'' # ''x-request-id'' # map (map to_lower) listed)" "k \<notin> set NEVER_TO_BOX" "\<exists>u. v = redact_secrets u ?vals"
      by (simp_all add: boxHeaders_def)
    with clean show "\<not> contains f v \<and> k \<notin> set NEVER_TO_BOX \<and> k \<in> {''content-type'', ''x-request-id''} \<union> map to_lower ` set listed"
      by auto
  qed
qed

theorem the_box_sees_no_credential_witness:
  "\<not> contains ''tok-12345'' (redactBody (\<lambda>_. None) ''Bearer tok-12345tok-12345!'' None (credentialValues (\<lambda>_. None) (Some ''tok-12345'') @ []))"
proof -
  have "''tok-12345'' \<in> set (secret_forms (credentialValues (\<lambda>_. None) (Some ''tok-12345'') @ []))" by code_simp
  from the_box_sees_no_credential [OF this, of "''Bearer tok-12345tok-12345!''" None "[]" "[]"] show ?thesis by simp
qed

end
