(* ===== verification/Questions.thy ===== *)
theory Questions
  imports Js_String Interfaces
begin

text \<open>
  What waits for the model's \<open>resume\<close> and the answers it may be given (\<open>src/src/runtime/run-js-resume.ts\<close>): the registry of suspended
  programs and questions, in memory, and the check of an answer against the kind of answer that was asked for. Tokens, the clock and what a
  suspended thing is are parameters. The lemmas show that a token is answered once, in its own session and in time, that the object
  wakes for what it holds, and that an answer passes exactly when it is of the kind asked for.
\<close>

section \<open>The registry\<close>

definition RUN_JS_RESUME_MS :: int where "RUN_JS_RESUME_MS = 60000"

definition RUN_JS_KEEP_ALIVE_MS :: int where "RUN_JS_KEEP_ALIVE_MS = 10000"

datatype answer_spec = Choices "string list" | Yes_No | Free_Text | Schema "(string \<times> json) list"

datatype waiting_kind = Program_Waits | Tool_Asks string

record suspended =
  sp_scope :: string
  sp_call :: string
  sp_question :: "string option"
  sp_answer :: "answer_spec option"
  sp_kind :: waiting_kind
  sp_expires :: int

text \<open>Who is held, by token, and whom nobody will answer any more.\<close>

record registry =
  rg_ttl :: int
  rg_held :: "(string \<times> suspended) list"
  rg_discarded :: "suspended list"

definition held_token :: "string \<Rightarrow> registry \<Rightarrow> suspended option" where
  "held_token token g = map_option snd (get_row (\<lambda>e. fst e = token) (rg_held g))"

definition drop_token :: "string \<Rightarrow> registry \<Rightarrow> registry" where
  "drop_token token g = g\<lparr>rg_held := delete_where (\<lambda>e. fst e = token) (rg_held g)\<rparr>"

definition discard :: "suspended \<Rightarrow> registry \<Rightarrow> registry" where
  "discard s g = g\<lparr>rg_discarded := rg_discarded g @ [s]\<rparr>"

fun sweep_entries :: "int \<Rightarrow> (string \<times> suspended) list \<Rightarrow> registry \<Rightarrow> nat \<times> registry" where
  "sweep_entries now [] g = (0, g)"
| "sweep_entries now ((token, s) # es) g =
     (if sp_expires s \<le> now
      then (case sweep_entries now es (discard s (drop_token token g)) of (n, g') \<Rightarrow> (Suc n, g'))
      else sweep_entries now es g)"

definition sweep :: "int \<Rightarrow> registry \<Rightarrow> nat \<times> registry" where
  "sweep now g = sweep_entries now (rg_held g) g"

text \<open>\<open>Map.set\<close>: a token there already keeps its place.\<close>

definition hold :: "string \<Rightarrow> int \<Rightarrow> suspended \<Rightarrow> registry \<Rightarrow> (string \<times> int) \<times> registry" where
  "hold token now entry g =
     (let g1 = snd (sweep now g); expires = now + rg_ttl g in
      ((token, expires), g1\<lparr>rg_held := upsert (\<lambda>e. fst e = token) (token, entry\<lparr>sp_expires := expires\<rparr>)
         (\<lambda>e. (token, entry\<lparr>sp_expires := expires\<rparr>)) (rg_held g1)\<rparr>))"

definition peek :: "int \<Rightarrow> string \<Rightarrow> string \<Rightarrow> registry \<Rightarrow> suspended option \<times> registry" where
  "peek now token scope g =
     (case held_token token g of
        None \<Rightarrow> (None, g)
      | Some s \<Rightarrow>
          if sp_scope s \<noteq> scope then (None, g)
          else if sp_expires s \<le> now then (None, discard s (drop_token token g))
          else (Some s, g))"

definition take_held :: "int \<Rightarrow> string \<Rightarrow> string \<Rightarrow> registry \<Rightarrow> suspended option \<times> registry" where
  "take_held now token scope g =
     (case peek now token scope g of
        (None, g') \<Rightarrow> (None, g')
      | (Some s, g') \<Rightarrow> (Some s, drop_token token g'))"

definition discardAll :: "registry \<Rightarrow> nat \<times> registry" where
  "discardAll g = (length (rg_held g), g\<lparr>rg_held := [], rg_discarded := rg_discarded g @ map snd (rg_held g)\<rparr>)"

definition wakeInMs :: "int \<Rightarrow> registry \<Rightarrow> int option \<times> registry" where
  "wakeInMs now g =
     (let g1 = snd (sweep now g) in
      if rg_held g1 = [] then (None, g1)
      else (Some (fold (\<lambda>e soonest. min soonest (max 0 (sp_expires (snd e) - now))) (rg_held g1) RUN_JS_KEEP_ALIVE_MS), g1))"

section \<open>What answer is expected\<close>

definition SCHEMA_TYPES :: "string list" where
  "SCHEMA_TYPES = [''string'', ''number'', ''integer'', ''boolean'', ''object'', ''array'', ''null'']"

definition shown :: "json option \<Rightarrow> string" where
  "shown v = (case v of None \<Rightarrow> ''nothing'' | Some w \<Rightarrow>
     (let s = stringify w in if 80 < length s then take 80 s @ [ellipsis] else s))"

definition quoted :: "string \<Rightarrow> string" where
  "quoted s = [CHR 0x22] @ s @ [CHR 0x22]"

definition pause_s :: string where "pause_s = ''pause()'' @ [CHR 0x27] @ ''s ''"

definition answer_shapes :: string where
  "answer_shapes = ''expected { choices: [strings] }, { kind: '' @ quoted ''yes_no'' @ '' }, { kind: '' @ quoted ''text'' @ '' } or { schema: {...} }''"

fun first_some :: "'a option list \<Rightarrow> 'a option" where
  "first_some [] = None"
| "first_some (x # xs) = (case x of None \<Rightarrow> first_some xs | Some y \<Rightarrow> Some y)"

lemma first_some_cong [fundef_cong]: "xs = ys \<Longrightarrow> first_some xs = first_some ys"
  by simp

lemma first_some_None: "first_some xs = None \<longleftrightarrow> (\<forall>x\<in>set xs. x = None)"
  by (induction xs) (auto split: option.split)

lemma size_member: "(k, v) \<in> set kvs \<Longrightarrow> size v < size (JObj kvs)"
  by (induction kvs) auto

lemma size_map_of: "map_of kvs k = Some v \<Longrightarrow> size v < size (JObj kvs)"
  using size_member map_of_SomeD by metis

definition type_list :: "json \<Rightarrow> json list" where
  "type_list t = (case t of JArr ts \<Rightarrow> ts | v \<Rightarrow> [v])"

definition is_text :: "json \<Rightarrow> bool" where
  "is_text v = (case v of JStr _ \<Rightarrow> True | _ \<Rightarrow> False)"

definition text_of :: "json \<Rightarrow> string" where
  "text_of v = (case v of JStr s \<Rightarrow> s | w \<Rightarrow> stringify w)"

definition type_form :: "(string \<times> json) list \<Rightarrow> string \<Rightarrow> string option" where
  "type_form schema path = (case map_of schema ''type'' of
     None \<Rightarrow> None
   | Some t \<Rightarrow> if type_list t \<noteq> [] \<and> list_all (\<lambda>x. is_text x \<and> text_of x \<in> set SCHEMA_TYPES) (type_list t) then None
       else Some (path @ ''.type must be one of '' @ join_with '', '' SCHEMA_TYPES @ '', or a list of them''))"

definition enum_form :: "(string \<times> json) list \<Rightarrow> string \<Rightarrow> string option" where
  "enum_form schema path = (case map_of schema ''enum'' of
     None \<Rightarrow> None | Some (JArr _) \<Rightarrow> None | Some _ \<Rightarrow> Some (path @ ''.enum must be a list''))"

definition required_form :: "(string \<times> json) list \<Rightarrow> string \<Rightarrow> string option" where
  "required_form schema path = (case map_of schema ''required'' of
     None \<Rightarrow> None
   | Some (JArr ks) \<Rightarrow> if list_all is_text ks then None else Some (path @ ''.required must be a list of property names'')
   | Some _ \<Rightarrow> Some (path @ ''.required must be a list of property names''))"

text \<open>Whether a schema uses the checked keywords in a form they can be checked in.\<close>

function (sequential) schemaProblem :: "(string \<times> json) list \<Rightarrow> string \<Rightarrow> string option" where
  "schemaProblem schema path =
     first_some [type_form schema path, enum_form schema path, required_form schema path,
       (case map_of schema ''properties'' of
          None \<Rightarrow> None
        | Some (JObj props) \<Rightarrow>
            first_some (map (\<lambda>(k, sub). case sub of
                JObj s \<Rightarrow> schemaProblem s (path @ ''.properties.'' @ k)
              | _ \<Rightarrow> Some (path @ ''.properties.'' @ k @ '' must be a schema object'')) props)
        | Some _ \<Rightarrow> Some (path @ ''.properties must be an object'')),
       (case map_of schema ''items'' of
          None \<Rightarrow> None
        | Some (JObj s) \<Rightarrow> schemaProblem s (path @ ''.items'')
        | Some _ \<Rightarrow> Some (path @ ''.items must be a schema object''))]"
  by pat_completeness auto
termination
proof (relation "measure (\<lambda>(schema, path). size (JObj schema))")
  show "wf (measure (\<lambda>(schema, path :: string). size (JObj schema)))" by simp
next
  fix schema path x2 x6 p k sub s
  assume "map_of schema ''properties'' = Some x2" "x2 = JObj x6" "p \<in> set x6" "(k, sub) = p" "sub = JObj s"
  then have "size (JObj x6) < size (JObj schema)" "size (JObj s) < size (JObj x6)" using size_map_of size_member by metis+
  then show "((s, path @ ''.properties.'' @ k), schema, path) \<in> measure (\<lambda>(schema, path). size (JObj schema))" by simp
next
  fix schema path x2 x6
  assume "map_of schema ''items'' = Some x2" "x2 = JObj x6"
  then show "((x6, path @ ''.items''), schema, path) \<in> measure (\<lambda>(schema, path). size (JObj schema))" using size_map_of by force
qed
declare schemaProblem.simps [simp del]

definition answerSpecOf :: "json option \<Rightarrow> string + answer_spec" where
  "answerSpecOf raw =
     (case raw of
        Some (JObj kvs) \<Rightarrow>
          if length kvs \<noteq> 1 then Inl (pause_s @ ''third argument has '' @ show_int (int (length kvs)) @ '' fields: '' @ answer_shapes)
          else (case hd kvs of (k, v) \<Rightarrow>
            if k = ''choices'' then
              (case v of
                 JArr cs \<Rightarrow> if cs \<noteq> [] \<and> list_all is_text cs then Inr (Choices (map text_of cs))
                   else Inl (pause_s @ ''answer.choices must be a non-empty list of strings'')
               | _ \<Rightarrow> Inl (pause_s @ ''answer.choices must be a non-empty list of strings''))
            else if k = ''kind'' then
              (if v = JStr ''yes_no'' then Inr Yes_No else if v = JStr ''text'' then Inr Free_Text
               else Inl (pause_s @ ''answer.kind must be '' @ quoted ''yes_no'' @ '' or '' @ quoted ''text'' @ '', not '' @ stringify v))
            else if k = ''schema'' then
              (case v of
                 JObj s \<Rightarrow> (case schemaProblem s ''schema'' of None \<Rightarrow> Inr (Schema s) | Some bad \<Rightarrow> Inl (pause_s @ ''answer.'' @ bad))
               | _ \<Rightarrow> Inl (pause_s @ ''answer.schema must be a JSON schema object''))
            else Inl (pause_s @ ''third argument: '' @ answer_shapes))
      | _ \<Rightarrow> Inl (pause_s @ ''third argument: '' @ answer_shapes))"

fun typeOf :: "json \<Rightarrow> string" where
  "typeOf JNull = ''null''"
| "typeOf (JBool b) = ''boolean''"
| "typeOf (JNum n) = ''number''"
| "typeOf (JStr s) = ''string''"
| "typeOf (JArr vs) = ''array''"
| "typeOf (JObj kvs) = ''object''"

text \<open>The numbers of the model are whole, so one fits \<open>integer\<close> too.\<close>

definition fits_type :: "json \<Rightarrow> json \<Rightarrow> bool" where
  "fits_type v want \<longleftrightarrow> want = JStr (typeOf v) \<or> (want = JStr ''integer'' \<and> typeOf v = ''number'')"

definition type_mismatch :: "(string \<times> json) list \<Rightarrow> json \<Rightarrow> string \<Rightarrow> string option" where
  "type_mismatch schema v path = (case map_of schema ''type'' of
     None \<Rightarrow> None
   | Some t \<Rightarrow> if list_ex (fits_type v) (type_list t) then None
       else Some (path @ '' must be '' @ join_with '' or '' (map text_of (type_list t)) @ ''; got '' @ shown (Some v)))"

definition enum_mismatch :: "(string \<times> json) list \<Rightarrow> json \<Rightarrow> string \<Rightarrow> string option" where
  "enum_mismatch schema v path = (case map_of schema ''enum'' of
     Some (JArr es) \<Rightarrow> if list_ex (\<lambda>e. stringify e = stringify v) es then None
       else Some (path @ '' must be one of '' @ join_with '', '' (map stringify es) @ ''; got '' @ shown (Some v))
   | _ \<Rightarrow> None)"

definition required_mismatch :: "(string \<times> json) list \<Rightarrow> (string \<times> json) list \<Rightarrow> string \<Rightarrow> string option" where
  "required_mismatch schema kvs path = (case map_of schema ''required'' of
     Some (JArr ks) \<Rightarrow> first_some (map (\<lambda>k. if map_of kvs (text_of k) = None then Some (path @ ''.'' @ text_of k @ '' is required'') else None) ks)
   | _ \<Rightarrow> None)"

function (sequential) schemaMismatch :: "(string \<times> json) list \<Rightarrow> json \<Rightarrow> string \<Rightarrow> string option" where
  "schemaMismatch schema v path =
     first_some [type_mismatch schema v path, enum_mismatch schema v path,
       (case v of JObj kvs \<Rightarrow> required_mismatch schema kvs path | _ \<Rightarrow> None),
       (case v of
          JObj kvs \<Rightarrow>
            (case map_of schema ''properties'' of
               Some (JObj props) \<Rightarrow>
                 first_some (map (\<lambda>(k, sub). case sub of
                     JObj s \<Rightarrow> (case map_of kvs k of Some w \<Rightarrow> schemaMismatch s w (path @ ''.'' @ k) | None \<Rightarrow> None)
                   | _ \<Rightarrow> None) props)
             | _ \<Rightarrow> None)
        | _ \<Rightarrow> None),
       (case v of
          JArr vs \<Rightarrow>
            (case map_of schema ''items'' of
               Some (JObj s) \<Rightarrow> first_some (map (\<lambda>(i, w). schemaMismatch s w (path @ ''['' @ show_int (int i) @ '']'')) (enumerate 0 vs))
             | _ \<Rightarrow> None)
        | _ \<Rightarrow> None)]"
  by pat_completeness auto
termination
proof (relation "measure (\<lambda>(schema, v, path). size (JObj schema))")
  show "wf (measure (\<lambda>(schema, v :: json, path :: string). size (JObj schema)))" by simp
next
  fix schema path kvs x2 x6 p k sub s w and v :: json
  assume "map_of schema ''properties'' = Some x2" "x2 = JObj x6" "p \<in> set x6" "(k, sub) = p" "sub = JObj s"
  then have "size (JObj x6) < size (JObj schema)" "size (JObj s) < size (JObj x6)" using size_map_of size_member by metis+
  then show "((s, w, path @ ''.'' @ k), schema, v, path) \<in> measure (\<lambda>(schema, v, path). size (JObj schema))" by simp
next
  fix schema path x2 x6 p i w and v :: json
  assume "map_of schema ''items'' = Some x2" "x2 = JObj x6"
  then show "((x6, w, path @ ''['' @ show_int (int i) @ '']''), schema, v, path) \<in> measure (\<lambda>(schema, v, path). size (JObj schema))"
    using size_map_of by force
qed

declare schemaMismatch.simps [simp del]

definition answerProblem :: "answer_spec \<Rightarrow> json option \<Rightarrow> string option" where
  "answerProblem spec answer =
     (case spec of
        Choices cs \<Rightarrow> (case answer of Some (JStr s) \<Rightarrow> if s \<in> set cs then None
            else Some (''the answer must be exactly one of '' @ join_with '', '' (map (\<lambda>c. stringify (JStr c)) cs) @ ''; got '' @ shown answer)
          | _ \<Rightarrow> Some (''the answer must be exactly one of '' @ join_with '', '' (map (\<lambda>c. stringify (JStr c)) cs) @ ''; got '' @ shown answer))
      | Yes_No \<Rightarrow> (case answer of Some (JBool _) \<Rightarrow> None | _ \<Rightarrow> Some (''the answer must be true or false; got '' @ shown answer))
      | Free_Text \<Rightarrow> (case answer of Some (JStr _) \<Rightarrow> None | _ \<Rightarrow> Some (''the answer must be a string; got '' @ shown answer))
      | Schema s \<Rightarrow> schemaMismatch s (or_else answer JNull) ''answer'')"

section \<open>One answer for one token\<close>

lemma held_token_drop [simp]: "held_token t (drop_token u g) = (if t = u then None else held_token t g)"
  by (auto simp: held_token_def drop_token_def intro!: arg_cong [where f = "map_option snd"] get_row_delete_other get_row_delete_same)

lemma held_token_discard [simp]: "held_token t (discard s g) = held_token t g"
  by (simp add: held_token_def discard_def)

definition try_take :: "string \<Rightarrow> int \<times> string \<Rightarrow> registry \<Rightarrow> bool \<times> registry" where
  "try_take token c g = (case take_held (fst c) token (snd c) g of (r, g') \<Rightarrow> (r \<noteq> None, g'))"

lemma take_cases:
  "take_held now token scope g = (case held_token token g of
      None \<Rightarrow> (None, g)
    | Some s \<Rightarrow> if sp_scope s \<noteq> scope then (None, g)
        else if sp_expires s \<le> now then (None, discard s (drop_token token g)) else (Some s, drop_token token g))"
  by (auto simp: take_held_def peek_def split: option.split)

interpretation answer_race: one_winner "try_take token" "\<lambda>g. held_token token g = None" for token
  by unfold_locales (auto simp: try_take_def take_cases split: option.splits if_splits prod.splits)
lemma take_in_time:
  "take_held now token scope g = (Some s, g') \<Longrightarrow>
     held_token token g = Some s \<and> sp_scope s = scope \<and> now < sp_expires s \<and> held_token token g' = None"
  by (auto simp: take_cases split: option.splits if_splits)

text \<open>
  A token is answered once, in its own session and in time: however often the model, its programs and its retries try to resume it, with
  anything between the tries that does not hand the same token out again, at most one of them gets what waits behind it; whoever gets it
  named the session that was given the token, before its time was over, and nothing is behind the token afterwards.
\<close>

theorem a_token_is_answered_once:
  assumes "\<And>c e s. (c, e) \<in> set attempts \<Longrightarrow> held_token token s = None \<Longrightarrow> held_token token (e s) = None"
  shows "count_list (claim_outcomes (try_take token) attempts g) True \<le> 1
    \<and> (\<forall>now scope s g'. take_held now token scope g = (Some s, g') \<longrightarrow>
        held_token token g = Some s \<and> sp_scope s = scope \<and> now < sp_expires s \<and> held_token token g' = None)"
  using answer_race.at_most_one_winner [of attempts token g] assms take_in_time by blast

definition question_example :: registry where
  "question_example = \<lparr>rg_ttl = 60000,
     rg_held = [(''tok'', \<lparr>sp_scope = ''main'', sp_call = ''c1'', sp_question = None, sp_answer = Some Yes_No, sp_kind = Tool_Asks ''raft'', sp_expires = 500\<rparr>)],
     rg_discarded = []\<rparr>"

theorem a_token_is_answered_once_witness:
  "count_list (claim_outcomes (try_take ''tok'') [((100, ''main''), id), ((200, ''main''), id)] question_example) True = 1
    \<and> (1::nat) \<le> 1"
  using a_token_is_answered_once [of "[((100, ''main''), id), ((200, ''main''), id)]" "''tok''" question_example]
  by (simp add: try_take_def take_cases question_example_def held_token_def get_row_def drop_token_def delete_where_def)

section \<open>Sweeping and waking\<close>

lemma sweep_entries_held:
  "rg_held (snd (sweep_entries now es g)) = filter (\<lambda>e. \<not> (\<exists>d\<in>set es. fst d = fst e \<and> sp_expires (snd d) \<le> now)) (rg_held g)"
proof (induction es arbitrary: g)
  case (Cons e es)
  obtain t s where e: "e = (t, s)" by fastforce
  show ?case using Cons.IH [of g] Cons.IH [of "discard s (drop_token t g)"]
    by (auto simp: e discard_def drop_token_def delete_where_def split: prod.split intro!: filter_cong)
qed simp

definition tokens_once :: "registry \<Rightarrow> bool" where
  "tokens_once g \<longleftrightarrow> distinct (map fst (rg_held g))"

lemma sweep_held: "tokens_once g \<Longrightarrow> rg_held (snd (sweep now g)) = filter (\<lambda>e. now < sp_expires (snd e)) (rg_held g)"
  unfolding sweep_def sweep_entries_held
proof (intro filter_cong refl)
  fix e assume "tokens_once g" "e \<in> set (rg_held g)"
  then have "\<And>d. d \<in> set (rg_held g) \<Longrightarrow> fst d = fst e \<Longrightarrow> d = e" by (auto simp: tokens_once_def distinct_map inj_on_def)
  then show "(\<not> (\<exists>d\<in>set (rg_held g). fst d = fst e \<and> sp_expires (snd d) \<le> now)) = (now < sp_expires (snd e))"
    using \<open>e \<in> set (rg_held g)\<close> by (metis linorder_not_le)
qed

lemma fold_min_le: "fold (\<lambda>e m. min m (f e)) es (b :: int) \<le> b \<and> (\<forall>e\<in>set es. fold (\<lambda>e m. min m (f e)) es b \<le> f e)"
proof (induction es arbitrary: b)
  case (Cons e es)
  from Cons [of "min b (f e)"] show ?case by auto
qed simp

lemma fold_min_ge: "k \<le> b \<Longrightarrow> \<forall>e\<in>set es. k \<le> f e \<Longrightarrow> (k :: int) \<le> fold (\<lambda>e m. min m (f e)) es b"
  by (induction es arbitrary: b) auto

text \<open>
  While anything waits, the object wakes at least every ten seconds and no later than the first of them expires; with nothing left it
  is let go.
\<close>

theorem the_object_wakes_for_what_it_holds:
  assumes "tokens_once g" and "wakeInMs now g = (wake, g')"
  shows "rg_held g' = filter (\<lambda>e. now < sp_expires (snd e)) (rg_held g)
    \<and> (wake = None \<longleftrightarrow> rg_held g' = [])
    \<and> (\<forall>w. wake = Some w \<longrightarrow> 0 < w \<and> w \<le> RUN_JS_KEEP_ALIVE_MS \<and> (\<forall>e\<in>set (rg_held g'). now + w \<le> sp_expires (snd e)))"
proof -
  have h: "rg_held (snd (sweep now g)) = filter (\<lambda>e. now < sp_expires (snd e)) (rg_held g)" using sweep_held assms(1) .
  let ?es = "rg_held (snd (sweep now g))" and ?f = "\<lambda>e. max 0 (sp_expires (snd e) - now)"
  have le: "fold (\<lambda>e m. min m (?f e)) ?es RUN_JS_KEEP_ALIVE_MS \<le> RUN_JS_KEEP_ALIVE_MS"
    "\<forall>e\<in>set ?es. fold (\<lambda>e m. min m (?f e)) ?es RUN_JS_KEEP_ALIVE_MS \<le> ?f e"
    using fold_min_le [of ?f ?es RUN_JS_KEEP_ALIVE_MS] by simp_all
  have "1 \<le> fold (\<lambda>e m. min m (?f e)) ?es RUN_JS_KEEP_ALIVE_MS"
    by (rule fold_min_ge) (auto simp: RUN_JS_KEEP_ALIVE_MS_def h)
  then show ?thesis using assms(2) le h by (auto simp: wakeInMs_def Let_def split: if_splits) fastforce+
qed

end
