(* ===== verification/Gateway.thy ===== *)
theory Gateway
  imports Tool_Policy Questions Operations Approvals Mounts
begin

text \<open>
  One tool call (\<open>ToolGateway\<close> of \<open>src/src/runtime/gateway.ts\<close>): the mount its name resolves to, the refusals before an operation is
  recorded, the key that makes a call replayable, the verdict, the hold, and the run to its recorded end. Plugins, credentials, the clock,
  random identifiers and what a deployment knows of its people are parameters; everything the call writes goes through the store of the
  other theories. The lemmas show what a refusal, a hold and a run leave behind, that a repeated write never reaches a plugin twice, and
  that nothing a caller sets lifts a refusal.
\<close>

section \<open>Plugins, calls, results\<close>

record tool_schema =
  ts_name :: string
  ts_side :: side_effects
  ts_model_only :: bool

text \<open>\<open>bd_normalize\<close>: the folded path, or what it threw. \<open>bd_describe\<close>: repository and pull request, \<open>None\<close> when it threw.\<close>

record bridge_decl =
  bd_routes :: "route_entry list"
  bd_unlisted :: string
  bd_normalize :: "(string \<Rightarrow> string + string) option"
  bd_describe :: "string \<Rightarrow> (string option \<times> json option) option"
  bd_headers :: "string list"

record plugin_decl =
  pg_id :: string
  pg_version :: string
  pg_tools :: "tool_schema list"
  pg_mount_tools :: "mount_record \<Rightarrow> tool_schema list option"
  pg_key :: "call_hook option"
  pg_refuse :: "call_hook option"
  pg_classify :: "call_hook option"
  pg_default :: "mount_policy option"
  pg_bridge :: "bridge_decl option"
  pg_interrupts :: bool

record call_context =
  cc_tenant :: string
  cc_agent :: string
  cc_task :: string

record invoke_opts =
  io_key :: "string option"
  io_approved :: bool
  io_operation :: "string option"
  io_confirm :: bool
  io_call :: "string option"
  io_offered :: "(string \<times> string) list"
  io_program :: bool

record tool_error =
  te_code :: string
  te_message :: string
  te_candidates :: "string list"
  te_url :: "string option"
  te_identity :: "json option"
  te_credential :: "json option"

definition tool_err :: "string \<Rightarrow> string \<Rightarrow> tool_error" where
  "tool_err code message = \<lparr>te_code = code, te_message = message, te_candidates = [], te_url = None, te_identity = None, te_credential = None\<rparr>"

text \<open>A tool's question, as the plugin asks it and as the gateway hands it on.\<close>

record question =
  qu_text :: string
  qu_context :: "json option"
  qu_answer :: json
  qu_state :: json
  qu_if_approved :: "json option"

record tool_interrupt =
  ti_alias :: string
  ti_tool :: string
  ti_question :: string
  ti_context :: "json option"
  ti_spec :: answer_spec
  ti_state :: json
  ti_operation :: string
  ti_if_approved :: "json option"

text \<open>What one step of a plugin does: an error it threw says whether the request may have landed.\<close>

record thrown =
  th_message :: string
  th_retryable :: bool
  th_code :: "string option"
  th_http :: "int option"
  th_identity :: "json option"
  th_credential :: "json option"
  th_model_only :: string

text \<open>What a bridge's upstream request came to: its answer, or what it threw, with the credentials the plugin named besides the stored one.\<close>

datatype send_outcome = Sent int "(string \<times> string) list" string "string list" | Send_Throws thrown "string list"

datatype step_outcome = Step_Result json | Step_Background json "string option" | Step_Asks question | Step_Throws thrown

datatype ended_how = Ended_Failed | Ended_Cancelled | Ended_Unknown

text \<open>Decider, expiry and url of a pending result; handle and note of a running one.\<close>

datatype tool_result =
    Result_Succeeded string json
  | Result_Pending string "string option" "int option" "string option" tool_error
  | Result_Running string string string json "string option"
  | Result_Ended ended_how string tool_error
  | Result_Rejected tool_error
  | Result_Interrupted string tool_interrupt

datatype held_place = Place "string option" "string option" | Nobody string | Raft_Place

text \<open>
  What a gateway stands on. \<open>ge_step\<close> is a plugin's step with what it and anything else do to the store meanwhile; \<open>ge_credential\<close> is
  \<open>None\<close> when the credential of a mount cannot be read, which throws.
\<close>

record gateway_env =
  ge_plugins :: "string \<Rightarrow> plugin_decl option"
  ge_seeded :: "string \<Rightarrow> bool"
  ge_removing :: "string \<times> string \<times> string \<Rightarrow> bool"
  ge_ttl :: int
  ge_hash :: "string \<Rightarrow> string"
  ge_random :: string
  ge_parse :: "string \<Rightarrow> json option"
  ge_utf8 :: "string \<Rightarrow> nat"
  ge_iso :: "int \<Rightarrow> string"
  ge_redact :: "string \<Rightarrow> string"
  ge_shown_name :: "string \<Rightarrow> string option"
  ge_place :: "call_context \<Rightarrow> held_place"
  ge_credential :: "mount_record \<Rightarrow> string option option"
  ge_step :: "mount_record \<Rightarrow> string \<Rightarrow> json \<Rightarrow> string \<Rightarrow> store \<Rightarrow> step_outcome \<times> store"
  ge_send :: "mount_record \<Rightarrow> bridge_request \<Rightarrow> string \<Rightarrow> store \<Rightarrow> send_outcome \<times> store"
  ge_answer :: "mount_record \<Rightarrow> string \<Rightarrow> json \<Rightarrow> json \<Rightarrow> string \<Rightarrow> store \<Rightarrow> step_outcome \<times> store"
  ge_cancel :: "mount_record \<Rightarrow> string \<Rightarrow> json \<Rightarrow> store \<Rightarrow> store"
  ge_later :: "int \<Rightarrow> int"
  ge_error_text :: "store_error \<Rightarrow> string"

section \<open>What is said\<close>

definition ticked :: "string \<Rightarrow> string" where
  "ticked s = ''`'' @ s @ ''`''"

definition switchedOffMessage :: "string \<Rightarrow> string" where
  "switchedOffMessage al = ''the '' @ ticked al @ '' mount is switched off for this agent; someone has to turn it back on''"

definition pluginUnavailableMessage :: "string \<Rightarrow> string \<Rightarrow> string" where
  "pluginUnavailableMessage al plugin = ''the '' @ ticked al @ '' mount uses the plugin '' @ quoted plugin
     @ '', which is not installed here; none of its tools can be called until an operator fixes the mount''"

definition unknownToolMessage :: "string \<Rightarrow> string \<Rightarrow> string" where
  "unknownToolMessage al tool = ''the '' @ ticked al @ '' mount has no tool named '' @ quoted tool @ ''; call one of the tools it does offer''"

definition alreadyAttempted :: "string \<Rightarrow> operation_status option \<Rightarrow> tool_result" where
  "alreadyAttempted oid status =
     (let began = status \<in> {Some ORunning, Some OSucceeded, Some OFailed, Some OUnknown};
          said = (case status of None \<Rightarrow> ''no record'' | Some st \<Rightarrow> ''status '' @ operation_status_text st) in
      Result_Ended Ended_Unknown oid (tool_err ''already_attempted''
        (''this call was already attempted under this key ('' @ said @ ''); ''
         @ (if began then ''it ran and may have landed, so it is not repeated''
            else ''whether it began cannot be told from the record, so it is not repeated''))))"

definition ttlWords :: "int \<Rightarrow> string" where
  "ttlWords ms =
     (let hours = (ms + 1800000) div 3600000; m = max 1 ((ms + 30000) div 60000) in
      if 3600000 \<le> ms then show_int hours @ '' hour'' @ (if hours = 1 then [] else ''s'')
      else show_int m @ '' minute'' @ (if m = 1 then [] else ''s''))"

definition heldMessage :: "(int \<Rightarrow> string) \<Rightarrow> string \<Rightarrow> held_place \<Rightarrow> bool \<Rightarrow> string \<Rightarrow> int option \<Rightarrow> int option \<Rightarrow> string" where
  "heldMessage date_text oid place merged tool expires ttl =
     (let opening = (if merged
            then ''An identical call is already waiting for approval (operation '' @ oid @ ''); this call was not added as a second one.''
            else ''This call is held for approval (operation '' @ oid @ '').'');
          again = ''Calling this tool again with the same arguments while it waits returns this same pending approval; it does not create another.'';
          expiry = (case expires of
              None \<Rightarrow> ''It does not expire: it waits until someone decides.''
            | Some e \<Rightarrow> ''If nobody decides by '' @ date_text e
                @ (case ttl of Some t \<Rightarrow> (if t \<noteq> 0 then '' ('' @ ttlWords t @ '' after it was held)'' else []) | None \<Rightarrow> [])
                @ '', it expires and is not run.'');
          told = ''You will be woken with the outcome in a notice: executed (with its result), failed, denied, expired, or policy_denied ''
            @ ''(approved, but the mount'' @ [CHR 0x27] @ ''s policy now refuses it); your turn does not wait for it.'';
          ids = ''giving the operation id ('' @ oid @ '') and the tool ('' @ tool @ '')'';
          twice = (if merged then '' If you need it done twice, call again after that one is decided.'' else []) in
      (case place of
         Raft_Place \<Rightarrow> opening @ twice
           @ '' An approval card for it goes to your owner in Raft (or a server admin if your owner has left), and they approve or deny it there; if approved, it runs on its own ''
           @ ''exactly as written. '' @ expiry @ '' '' @ told @ '' If you tell your owner about it, give the operation id ('' @ oid
           @ '') and the tool ('' @ tool @ ''). Do not retry it. '' @ again
       | Nobody why \<Rightarrow> opening @ '' Nobody you can reach can approve it on the antiproton console today: '' @ why @ ''. ''
           @ ''The operator can still approve it by its operation id; if it is approved, it runs on its own exactly as written. ''
           @ expiry @ '' '' @ told @ '' Antiproton notifies nobody of it. ''
           @ ''Tell your owner once that this action is blocked, '' @ ids @ '', then plan as if it will not run. ''
           @ ''Retrying will not make it happen sooner: calling again with the same arguments returns this same pending approval.''
       | Place decider url \<Rightarrow>
           (let page = (if truthy url then ''the antiproton console at '' @ the url
                  else ''this agent'' @ [CHR 0x27] @ ''s approvals panel on the antiproton console'');
                who = (if truthy decider then the decider @ '' decides it on '' @ page @ ''.''
                  else ''No decider is known: it is decided on '' @ page @ '', by a person signed in there with access to this agent.'') in
            opening @ twice @ '' '' @ who @ '' '' @ expiry @ '' If approved, it runs on its own exactly as written. '' @ told @ '' ''
            @ ''Antiproton notifies nobody of it: if it matters, send '' @ or_else decider ''a person'' @ '' ''
            @ (if truthy url then ''that link'' else ''a message'') @ '' once, '' @ ids @ ''. '' @ again)))"

text \<open>Keys sorted at every depth. The text is only compared with texts made the same way.\<close>

definition canonicalJson :: "json \<Rightarrow> string" where
  "canonicalJson v = stringify (sort_members v)"

definition heldKey :: "string \<Rightarrow> string \<Rightarrow> string \<Rightarrow> json \<Rightarrow> string" where
  "heldKey agent mount tool request =
     canonicalJson (JArr [JStr agent, JStr mount, JStr tool, j (member_of ''args'' request), j (member_of ''route'' request)])"

definition CARD_BODY_BYTES :: nat where "CARD_BODY_BYTES = 2048"

definition routeCard :: "bridge_decl \<Rightarrow> bridge_request \<Rightarrow> json" where
  "routeCard decl req =
     (let named = or_else (bd_describe decl (br_path req)) (None, None);
          write = br_method req \<noteq> ''GET'' \<and> br_method req \<noteq> ''HEAD'';
          body = (if write then br_body req else None) in
      JObj ([(''method'', JStr (br_method req)), (''path'', JStr (br_path req))]
        @ (case map_of (br_headers req) ''content-type'' of
             Some ct \<Rightarrow> if write \<and> ct \<noteq> [] then [(''contentType'', JStr ct)] else [] | None \<Rightarrow> [])
        @ (case fst named of Some r \<Rightarrow> [(''repo'', JStr r)] | None \<Rightarrow> [])
        @ (case snd named of Some (JNum n) \<Rightarrow> [(''pr'', JNum n)] | Some (JStr t) \<Rightarrow> [(''pr'', JStr t)] | _ \<Rightarrow> [])
        @ (case body of None \<Rightarrow> []
           | Some b \<Rightarrow> if CARD_BODY_BYTES < length b
               then [(''body'', JStr (take CARD_BODY_BYTES b)), (''bodyTruncated'', JBool True), (''bodySize'', JNum (int (length b)))]
               else [(''body'', JStr b)])))"
section \<open>Admission\<close>

definition resolve :: "call_context \<Rightarrow> string \<Rightarrow> store \<Rightarrow> tool_error + mount_record \<times> string" where
  "resolve ctx raw s =
     (case parseToolRef raw of
        None \<Rightarrow> Inl (tool_err ''bad_tool_name'' (''not a tool name: '' @ raw))
      | Some (head, tool) \<Rightarrow>
          (case getMountByAlias (cc_tenant ctx) (cc_agent ctx) head s of
             Some m \<Rightarrow> Inr (m, tool)
           | None \<Rightarrow>
               (case findMountsByPlugin (cc_tenant ctx) (cc_agent ctx) head s of
                  [m] \<Rightarrow> Inr (m, tool)
                | [] \<Rightarrow> Inl ((tool_err ''not_mounted'' (''no mount named '' @ quoted head @ '' for this agent''))
                    \<lparr>te_url := Some (''https://harness.local/agents/'' @ cc_agent ctx @ ''/mounts/new?plugin='' @ head)\<rparr>)
                | ms \<Rightarrow> Inl ((tool_err ''ambiguous_mount'' (quoted head @ '' is mounted '' @ show_int (int (length ms))
                      @ '' times; address one alias explicitly''))
                    \<lparr>te_candidates := map (\<lambda>m. mt_alias m @ ''.'' @ tool) ms\<rparr>))))"

definition BRIDGE_TOOL :: string where "BRIDGE_TOOL = ''request''"

definition BRIDGE_SCHEMA :: tool_schema where
  "BRIDGE_SCHEMA = \<lparr>ts_name = BRIDGE_TOOL, ts_side = Writes, ts_model_only = False\<rparr>"

definition toolsOf :: "plugin_decl \<Rightarrow> mount_record \<Rightarrow> tool_schema list" where
  "toolsOf p m = or_else (pg_mount_tools p m) (pg_tools p)"

text \<open>A call the gateway takes: its mount, tool, plugin, schema, and the bridge it is a request of.\<close>

record taken_call =
  ta_mount :: mount_record
  ta_tool :: string
  ta_plugin :: plugin_decl
  ta_schema :: tool_schema
  ta_bridge :: "bridge_decl option"

definition admit_call :: "gateway_env \<Rightarrow> call_context \<Rightarrow> string \<Rightarrow> invoke_opts \<Rightarrow> store \<Rightarrow> tool_error + taken_call" where
  "admit_call env ctx raw opts s =
     (case resolve ctx raw s of
        Inl e \<Rightarrow> Inl e
      | Inr (m, tool) \<Rightarrow>
          if ge_removing env (cc_tenant ctx, cc_agent ctx, mt_alias m)
          then Inl (tool_err ''not_mounted'' (''the '' @ ticked (mt_alias m) @ '' mount is being removed''))
          else (case ge_plugins env (mt_plugin m) of
              None \<Rightarrow> Inl (tool_err ''plugin_unavailable'' (pluginUnavailableMessage (mt_alias m) (mt_plugin m)))
            | Some p \<Rightarrow>
                if \<not> pluginEnabled (ge_seeded env (mt_plugin m)) (pluginChoices (cc_tenant ctx) (cc_agent ctx) s (mt_plugin m))
                then Inl (tool_err ''plugin_disabled'' (switchedOffMessage (mt_alias m)))
                else if pg_version p \<noteq> mt_version m
                then Inl (tool_err ''version_mismatch'' (''mount pins '' @ mt_version m @ '', registry has '' @ pg_version p))
                else let bridge = (if tool = BRIDGE_TOOL then pg_bridge p else None);
                         schema = (if bridge \<noteq> None then Some BRIDGE_SCHEMA else find (\<lambda>t. ts_name t = tool) (toolsOf p m)) in
                  if bridge \<noteq> None \<and> \<not> io_program opts \<and> \<not> io_approved opts
                  then Inl (tool_err ''program_only'' (mt_alias m @ ''.'' @ BRIDGE_TOOL @ '' is the mount'' @ [CHR 0x27]
                    @ ''s SDK transport: call it from run_js through '' @ ticked (''await import('' @ quoted (''sdk:'' @ mt_alias m) @ '')'')))
                  else (case schema of
                      None \<Rightarrow> Inl (tool_err ''unknown_tool'' (unknownToolMessage (mt_alias m) tool))
                    | Some sc \<Rightarrow>
                        if ts_model_only sc \<and> io_program opts
                        then Inl (tool_err ''not_from_a_program'' (mt_alias m @ ''.'' @ tool @ '' is yours to call, not a program'' @ [CHR 0x27]
                          @ ''s: its result only counts once you have read it''))
                        else Inr \<lparr>ta_mount = m, ta_tool = tool, ta_plugin = p, ta_schema = sc, ta_bridge = bridge\<rparr>)))"

text \<open>The row of a call refused before its operation (\<open>toolRefusedRow\<close> of \<open>src/src/trace/seams.ts\<close>).\<close>

definition toolRefusedRow :: "(string \<Rightarrow> string option) \<Rightarrow> call_context \<Rightarrow> int \<Rightarrow> string \<Rightarrow> string \<Rightarrow> string option \<Rightarrow> string \<Rightarrow> bool \<Rightarrow> trace_row" where
  "toolRefusedRow shown_name ctx now raw code call by_whom program =
     (let c = (if is_error_code code then code else ''refused''); tool = shown_name raw in
      \<lparr>tr_at = now, tr_tenant = cc_tenant ctx, tr_agent = cc_agent ctx, tr_kind = ''tool.refused'',
       tr_span = (if truthy call then the call else ''refused_'' @ show_int now), tr_parent = None,
       tr_status = c, tr_verdict = VBlocked, tr_ms = None,
       tr_attrs = (if truthy tool then [(''tool'', JStr (the tool))] else [])
         @ [(''code'', JStr c), (''by'', JStr by_whom), (''from'', JStr (if program then ''program'' else ''model''))]
         @ (if truthy call then [(''callId'', JStr (the call))] else [])
         @ (if cc_task ctx \<noteq> [] then [(''task'', JStr (cc_task ctx))] else [])\<rparr>)"

definition refused :: "gateway_env \<Rightarrow> int \<Rightarrow> call_context \<Rightarrow> string \<Rightarrow> invoke_opts \<Rightarrow> tool_error \<Rightarrow> store \<Rightarrow> tool_result option \<times> store" where
  "refused env now ctx raw opts e s =
     (Some (Result_Rejected e),
      appendTrace [toolRefusedRow (ge_shown_name env) ctx now raw (te_code e) (io_call opts) ''gateway'' (io_program opts)] s)"

section \<open>The verdict\<close>

definition keyedOperationId :: "(string \<Rightarrow> string) \<Rightarrow> string \<Rightarrow> string \<Rightarrow> string \<Rightarrow> string" where
  "keyedOperationId hash tenant task key = ''op_'' @ hash (tenant @ ''|'' @ task @ ''|'' @ key)"

definition operation_id :: "gateway_env \<Rightarrow> call_context \<Rightarrow> invoke_opts \<Rightarrow> string" where
  "operation_id env ctx opts =
     or_else (io_operation opts)
       (if truthy (io_key opts) then keyedOperationId (ge_hash env) (cc_tenant ctx) (cc_task ctx) (the (io_key opts)) else ge_random env)"

definition offeredName :: "(string \<times> string) list \<Rightarrow> string \<Rightarrow> string \<Rightarrow> string option" where
  "offeredName offered al tool = map_option snd (find (\<lambda>t. fst t = al @ ''.'' @ tool) offered)"

fun decision_of :: "json \<Rightarrow> policy_decision option" where
  "decision_of (JStr t) = (if t = ''allow'' then Some Allow else if t = ''approval'' then Some Approval else if t = ''deny'' then Some Deny else None)"
| "decision_of _ = None"

text \<open>A mount's policy as its column holds it.\<close>

definition read_policy :: "json option \<Rightarrow> mount_policy option" where
  "read_policy v = (case v of
     Some (JObj kvs) \<Rightarrow> Some \<lparr>po_read = Option.bind (map_of kvs ''read'') decision_of, po_write = Option.bind (map_of kvs ''write'') decision_of,
       po_tools = (case map_of kvs ''tools'' of
         Some (JObj ts) \<Rightarrow> List.map_filter (\<lambda>(k, d). map_option (Pair k) (decision_of d)) ts | _ \<Rightarrow> [])\<rparr>
   | _ \<Rightarrow> None)"

text \<open>What a call is decided by: the bridged request, the arguments as kept, the policy key and the half of the policy.\<close>

record call_class =
  ca_route :: "bridge_request option"
  ca_kept :: json
  ca_key :: policy_key
  ca_side :: side_effects

definition json_of_request :: "bridge_request \<Rightarrow> json" where
  "json_of_request r = JObj [(''method'', JStr (br_method r)), (''path'', JStr (br_path r)),
     (''body'', case br_body r of None \<Rightarrow> JNull | Some b \<Rightarrow> JStr b),
     (''headers'', JObj (map (\<lambda>(k, v). (k, JStr v)) (br_headers r)))]"

definition classify_bridged :: "gateway_env \<Rightarrow> bridge_decl \<Rightarrow> json \<Rightarrow> tool_error + call_class" where
  "classify_bridged env b args =
     (case bridgeArgs (ge_utf8 env) args of
        Inl e \<Rightarrow> Inl (tool_err ''bad_request'' e)
      | Inr parsed \<Rightarrow>
          (case (case bd_normalize b of None \<Rightarrow> Inr (br_path parsed) | Some f \<Rightarrow> f (br_path parsed)) of
             Inl e \<Rightarrow> Inl (tool_err ''bad_request'' (take 300 e))
           | Inr path \<Rightarrow>
               (let route = parsed\<lparr>br_path := path\<rparr>;
                    side = (if br_method route = ''GET'' \<or> br_method route = ''HEAD'' then Reads else Writes) in
                (case classifyRoute (ge_parse env) (bd_routes b) (bd_unlisted b) (br_method route) (routePath path) (br_body route)
                     (map_of (br_headers route) ''content-type'') (CHR ''?'' \<in> set path) of
                   Route_Refused m \<Rightarrow> Inl (tool_err ''route_refused'' m)
                 | Listed k \<Rightarrow> Inr \<lparr>ca_route = Some route, ca_kept = json_of_request parsed, ca_key = Key k, ca_side = side\<rparr>
                 | Unlisted_Write k \<Rightarrow> Inr \<lparr>ca_route = Some route, ca_kept = json_of_request parsed, ca_key = Key k, ca_side = side\<rparr>
                 | Unlisted_Read \<Rightarrow> Inr \<lparr>ca_route = Some route, ca_kept = json_of_request parsed, ca_key = No_Key, ca_side = side\<rparr>))))"

definition classify_call :: "gateway_env \<Rightarrow> taken_call \<Rightarrow> json \<Rightarrow> tool_error + call_class" where
  "classify_call env t args =
     (case ta_bridge t of
        Some b \<Rightarrow> classify_bridged env b args
      | None \<Rightarrow>
          (case refusalOf (pg_refuse (ta_plugin t)) (ta_tool t) args of
             Some why \<Rightarrow> Inl (tool_err ''route_refused'' why)
           | None \<Rightarrow> Inr \<lparr>ca_route = None, ca_kept = args, ca_key = policyKeyOf (pg_key (ta_plugin t)) (ta_tool t) args,
               ca_side = callSideEffects (pg_classify (ta_plugin t)) (ta_tool t) args (ts_side (ta_schema t))\<rparr>))"

text \<open>An unlisted write's key is at least \<open>approval\<close> by default, whatever the plugin's own defaults say.\<close>

definition bridge_defaults :: "bridge_decl option \<Rightarrow> mount_policy option \<Rightarrow> mount_policy option" where
  "bridge_defaults bridge defaults =
     (case bridge of None \<Rightarrow> defaults
      | Some b \<Rightarrow>
          (let d = or_else defaults \<lparr>po_read = None, po_write = None, po_tools = []\<rparr> in
           Some (d\<lparr>po_tools := (bd_unlisted b, stricter (or_else (map_of (po_tools d) (bd_unlisted b)) Approval) Approval) # po_tools d\<rparr>)))"

definition decided_by_policy :: "taken_call \<Rightarrow> call_class \<Rightarrow> policy_decision" where
  "decided_by_policy t c =
     (let policy = read_policy (mt_policy (ta_mount t));
          own = policyFor policy (ta_tool t) (ca_side c) (pg_default (ta_plugin t)) in
      (case ca_key c of
         No_Key \<Rightarrow> own
       | Unnamed \<Rightarrow> stricter own Approval
       | Key k \<Rightarrow> if k = ta_tool t then own
           else stricter own (policyFor policy k (ca_side c) (bridge_defaults (ta_bridge t) (pg_default (ta_plugin t))))))"

definition verdict_of :: "invoke_opts \<Rightarrow> policy_decision \<Rightarrow> policy_decision" where
  "verdict_of opts d =
     (if io_approved opts then (if d = Deny then Deny else Allow)
      else if io_confirm opts then stricter d Approval
      else d)"
section \<open>Holding a call\<close>

definition no_facts :: completed_facts where
  "no_facts = \<lparr>cf_call = None, cf_identity = None, cf_credential = None, cf_exit = None, cf_started = None, cf_denied = False, cf_failure = None\<rparr>"

definition call_facts :: "invoke_opts \<Rightarrow> completed_facts" where
  "call_facts opts = no_facts\<lparr>cf_call := io_call opts\<rparr>"

text \<open>A completion of the store, which may throw.\<close>

definition complete :: "gateway_env \<Rightarrow> int \<Rightarrow> call_context \<Rightarrow> string \<Rightarrow> operation_status \<Rightarrow> json option \<Rightarrow> completed_facts option \<Rightarrow> store
    \<Rightarrow> store_error + store" where
  "complete env now ctx oid status result facts s = completeOperation (ge_redact env) now (cc_tenant ctx) oid status None result facts s"

text \<open>A completion, then an answer. The first component is \<open>None\<close> when the completion threw.\<close>

definition complete_then :: "gateway_env \<Rightarrow> int \<Rightarrow> call_context \<Rightarrow> string \<Rightarrow> operation_status \<Rightarrow> json option \<Rightarrow> completed_facts option \<Rightarrow> tool_result
    \<Rightarrow> store \<Rightarrow> tool_result option \<times> store" where
  "complete_then env now ctx oid status result facts answer s =
     (case complete env now ctx oid status result facts s of Inl _ \<Rightarrow> (None, s) | Inr s' \<Rightarrow> (Some answer, s'))"

definition held_request :: "string \<Rightarrow> invoke_opts \<Rightarrow> taken_call \<Rightarrow> call_class \<Rightarrow> json" where
  "held_request raw opts t c =
     JObj ([(''tool'', JStr raw), (''args'', ca_kept c), (''heldBy'', JStr (if io_confirm opts then ''agent'' else ''policy''))]
       @ (case ca_key c of Key k \<Rightarrow> if k \<noteq> ta_tool t then [(''policyKey'', JStr k)] else [] | _ \<Rightarrow> [])
       @ (case (ta_bridge t, ca_route c) of (Some b, Some r) \<Rightarrow> [(''route'', routeCard b r)] | _ \<Rightarrow> []))"

definition hold_of :: "gateway_env \<Rightarrow> int \<Rightarrow> call_context \<Rightarrow> string \<Rightarrow> string \<Rightarrow> invoke_opts \<Rightarrow> taken_call \<Rightarrow> call_class \<Rightarrow> hold_request" where
  "hold_of env now ctx oid raw opts t c =
     \<lparr>hr_tenant = cc_tenant ctx, hr_operation = oid, hr_agent = cc_agent ctx, hr_task = cc_task ctx, hr_mount = mt_alias (ta_mount t),
      hr_tool = ta_tool t, hr_request = held_request raw opts t c, hr_expires = (if 0 < ge_ttl env then Some (now + ge_ttl env) else None)\<rparr>"

definition same_call :: "hold_request \<Rightarrow> approval_record \<Rightarrow> bool" where
  "same_call h a \<longleftrightarrow> heldKey (ap_agent a) (ap_mount a) (ap_tool a) (ap_request a) = heldKey (hr_agent h) (hr_mount h) (hr_tool h) (hr_request h)"

definition pending_answer :: "gateway_env \<Rightarrow> call_context \<Rightarrow> taken_call \<Rightarrow> string \<Rightarrow> bool \<Rightarrow> int option \<Rightarrow> int option \<Rightarrow> tool_result" where
  "pending_answer env ctx t held merged expires ttl =
     (let place = ge_place env ctx in
      Result_Pending held (case place of Place d _ \<Rightarrow> d | _ \<Rightarrow> None) expires (case place of Place _ u \<Rightarrow> u | _ \<Rightarrow> None)
        (tool_err ''awaiting_approval'' (heldMessage (ge_iso env) held place merged (mt_alias (ta_mount t) @ ''.'' @ ta_tool t) expires ttl)))"

definition hold_call :: "gateway_env \<Rightarrow> int \<Rightarrow> call_context \<Rightarrow> string \<Rightarrow> string \<Rightarrow> invoke_opts \<Rightarrow> taken_call \<Rightarrow> call_class \<Rightarrow> store
    \<Rightarrow> tool_result option \<times> store" where
  "hold_call env now ctx oid raw opts t c s =
     (let h = hold_of env now ctx oid raw opts t c in
      case holdApproval now h (same_call h) s of
        (Created, s1) \<Rightarrow> (Some (pending_answer env ctx t oid False (hr_expires h) (if hr_expires h = None then None else Some (ge_ttl env))), s1)
      | (Existing a, s1) \<Rightarrow>
          complete_then env now ctx oid OCancelled (Some (JObj [(''mergedInto'', JStr (ap_operation a))])) (Some (call_facts opts))
            (pending_answer env (ctx\<lparr>cc_task := ap_task a\<rparr>) t (ap_operation a) True (ap_expires a)
               (map_option (\<lambda>e. e - ap_created a) (ap_expires a))) s1)"

section \<open>Running a call\<close>

definition ended_facts :: "completed_facts \<Rightarrow> int \<Rightarrow> completed_facts" where
  "ended_facts facts started = facts\<lparr>cf_started := Some started\<rparr>"

definition failure_of :: "thrown \<Rightarrow> tool_failure" where
  "failure_of e = \<lparr>tf_code = th_code e, tf_http = th_http e, tf_message = Some (th_message e)\<rparr>"

text \<open>The \<open>catch\<close>: a request that may have landed is \<open>unknown\<close>, not \<open>failed\<close>.\<close>

definition run_threw :: "gateway_env \<Rightarrow> int \<Rightarrow> int \<Rightarrow> call_context \<Rightarrow> string \<Rightarrow> completed_facts \<Rightarrow> thrown \<Rightarrow> store \<Rightarrow> tool_result option \<times> store" where
  "run_threw env started now ctx oid facts e s =
     complete_then env now ctx oid (if th_retryable e then OUnknown else OFailed) None
       (Some ((ended_facts facts started)\<lparr>cf_failure := Some (failure_of e), cf_identity := th_identity e, cf_credential := th_credential e\<rparr>))
       (Result_Ended (if th_retryable e then Ended_Unknown else Ended_Failed) oid
          ((tool_err ''tool_error'' (th_message e @ (if th_model_only e \<noteq> [] then [NL, NL] @ th_model_only e else [])))
             \<lparr>te_identity := th_identity e, te_credential := th_credential e\<rparr>)) s"

definition plain_error :: "string \<Rightarrow> thrown" where
  "plain_error message = \<lparr>th_message = message, th_retryable = False, th_code = None, th_http = None, th_identity = None, th_credential = None,
     th_model_only = []\<rparr>"

text \<open>A completion inside the \<open>try\<close>: when it throws, the \<open>catch\<close> ends the operation.\<close>

definition complete_or :: "gateway_env \<Rightarrow> int \<Rightarrow> int \<Rightarrow> call_context \<Rightarrow> string \<Rightarrow> operation_status \<Rightarrow> completed_facts \<Rightarrow> completed_facts \<Rightarrow> tool_result
    \<Rightarrow> store \<Rightarrow> tool_result option \<times> store" where
  "complete_or env started now ctx oid status facts own answer s =
     (case complete env now ctx oid status None (Some own) s of
        Inr s' \<Rightarrow> (Some answer, s')
      | Inl err \<Rightarrow> run_threw env started now ctx oid facts (plain_error (ge_error_text env err)) s)"

definition exit_code :: "json \<Rightarrow> int option" where
  "exit_code result = (case member_of ''exitCode'' result of Some (JNum n) \<Rightarrow> Some n | _ \<Rightarrow> None)"

definition question_problem :: "plugin_decl \<Rightarrow> question \<Rightarrow> string option" where
  "question_problem p q =
     (if \<not> pg_interrupts p then Some (pg_id p @ '' returned a question but cannot take an answer (it has no interrupts.resume)'')
      else case answerSpecOf (Some (qu_answer q)) of
        Inl e \<Rightarrow> Some (pg_id p @ '' asked a question whose answer spec is unusable: '' @ e)
      | Inr _ \<Rightarrow> None)"

definition asked :: "string \<Rightarrow> string \<Rightarrow> string \<Rightarrow> question \<Rightarrow> answer_spec \<Rightarrow> tool_interrupt" where
  "asked al tool serves q spec =
     \<lparr>ti_alias = al, ti_tool = tool, ti_question = qu_text q, ti_context = qu_context q, ti_spec = spec, ti_state = qu_state q, ti_operation = serves,
      ti_if_approved = (case qu_if_approved q of None \<Rightarrow> None | Some a \<Rightarrow> if answerProblem spec (Some a) = None then Some a else None)\<rparr>"

text \<open>What the step came to, in the \<open>try\<close>.\<close>

definition step_end :: "gateway_env \<Rightarrow> int \<Rightarrow> int \<Rightarrow> call_context \<Rightarrow> mount_record \<Rightarrow> plugin_decl \<Rightarrow> string \<Rightarrow> string \<Rightarrow> string \<Rightarrow> completed_facts
    \<Rightarrow> step_outcome \<Rightarrow> store \<Rightarrow> tool_result option \<times> store" where
  "step_end env started now ctx m p tool oid serves facts outcome s =
     (let ended = ended_facts facts started in
      case outcome of
        Step_Throws e \<Rightarrow> run_threw env started now ctx oid facts e s
      | Step_Background handle note \<Rightarrow>
          complete_or env started now ctx oid ORunning facts ended (Result_Running oid (mt_alias m) tool handle note) s
      | Step_Result r \<Rightarrow>
          complete_or env started now ctx oid OSucceeded facts (ended\<lparr>cf_exit := exit_code r\<rparr>) (Result_Succeeded oid r) s
      | Step_Asks q \<Rightarrow>
          (case question_problem p q of
             Some why \<Rightarrow>
               complete_or env started now ctx oid OFailed facts
                 (ended\<lparr>cf_failure := Some \<lparr>tf_code = None, tf_http = None, tf_message = Some why\<rparr>\<rparr>)
                 (Result_Ended Ended_Failed oid (tool_err ''tool_error'' why))
                 (if pg_interrupts p then ge_cancel env m tool (qu_state q) s else s)
           | None \<Rightarrow>
               (case answerSpecOf (Some (qu_answer q)) of
                  Inr spec \<Rightarrow> complete_or env started now ctx oid OSucceeded facts ended (Result_Interrupted oid (asked (mt_alias m) tool serves q spec)) s
                | Inl e \<Rightarrow> (None, s))))"

text \<open>A failure of a bridge's request as the box may see it.\<close>

definition redactedError :: "thrown \<Rightarrow> string list \<Rightarrow> thrown" where
  "redactedError e vals = \<lparr>th_message = redact_secrets (th_message e) vals, th_retryable = th_retryable e,
     th_code = map_option (\<lambda>c. redact_secrets c vals) (th_code e), th_http = th_http e, th_identity = None, th_credential = None,
     th_model_only = []\<rparr>"

text \<open>A bridge's step: the core makes the request and redacts the answer.\<close>

definition bridge_step :: "gateway_env \<Rightarrow> mount_record \<Rightarrow> bridge_decl \<Rightarrow> bridge_request \<Rightarrow> string \<Rightarrow> store \<Rightarrow> step_outcome \<times> store" where
  "bridge_step env m b req oid s =
     (let stored = credentialValues (ge_parse env) (if truthy (mt_secret m) then or_else (ge_credential env m) None else None) in
      case ge_send env m req oid s of
        (Send_Throws e used, s') \<Rightarrow> (Step_Throws (redactedError e (stored @ used)), s')
      | (Sent status headers text used, s') \<Rightarrow>
          (let hs = boxHeaders (bd_headers b) headers (stored @ used) in
           (Step_Result (JObj [(''status'', JNum status), (''headers'', JObj (map (\<lambda>(k, v). (k, JStr v)) hs)),
              (''text'', JStr (redactBody (ge_parse env) text (map_of hs ''content-type'') (stored @ used)))]), s')))"

definition call_step :: "gateway_env \<Rightarrow> taken_call \<Rightarrow> call_class \<Rightarrow> json \<Rightarrow> string \<Rightarrow> store \<Rightarrow> step_outcome \<times> store" where
  "call_step env t c args oid =
     (case (ta_bridge t, ca_route c) of
        (Some b, Some req) \<Rightarrow> bridge_step env (ta_mount t) b req oid
      | _ \<Rightarrow> ge_step env (ta_mount t) (ta_tool t) args oid)"

definition run_step :: "gateway_env \<Rightarrow> int \<Rightarrow> call_context \<Rightarrow> mount_record \<Rightarrow> plugin_decl \<Rightarrow> string \<Rightarrow> string \<Rightarrow> string \<Rightarrow> completed_facts
    \<Rightarrow> (store \<Rightarrow> step_outcome \<times> store) \<Rightarrow> store \<Rightarrow> tool_result option \<times> store" where
  "run_step env now ctx m p tool oid serves facts step s =
     (if truthy (mt_secret m) \<and> ge_credential env m = None then (None, s)
      else case startOperation now (cc_tenant ctx) oid s of
        (False, s1) \<Rightarrow> (Some (alreadyAttempted oid (map_option op_status (getOperation (cc_tenant ctx) oid s1))), s1)
      | (True, s1) \<Rightarrow>
          (case step s1 of (outcome, s2) \<Rightarrow> step_end env now (ge_later env now) ctx m p tool oid serves facts outcome s2))"

section \<open>One call\<close>

text \<open>What a denied call, and a call nobody could hold, are told.\<close>

definition policyDenied :: "taken_call \<Rightarrow> tool_error" where
  "policyDenied t = tool_err ''policy_denied'' (''this call is denied by the '' @ ticked (mt_alias (ta_mount t)) @ '' mount'' @ [CHR 0x27] @ ''s policy'')"

definition cannotBeHeld :: "invoke_opts \<Rightarrow> taken_call \<Rightarrow> tool_error" where
  "cannotBeHeld opts t =
     (let al = mt_alias (ta_mount t) in
      tool_err ''not_from_a_program'' (if io_confirm opts
        then al @ ''.'' @ ta_tool t @ '' cannot be held for approval: its result only counts once you read it in your own call, and an approved call runs without you. Call it without confirm.''
        else ''the '' @ ticked al @ '' mount'' @ [CHR 0x27] @ ''s approval policy holds '' @ ta_tool t
          @ '', but it can only run in your own call, where you read its result; an approved call runs without you. Ask the operator to let you call it without approval.''))"

definition invoke :: "gateway_env \<Rightarrow> int \<Rightarrow> call_context \<Rightarrow> string \<Rightarrow> json \<Rightarrow> invoke_opts \<Rightarrow> store \<Rightarrow> tool_result option \<times> store" where
  "invoke env now ctx raw args opts s =
     (case admit_call env ctx raw opts s of
        Inl e \<Rightarrow> refused env now ctx raw opts e s
      | Inr t \<Rightarrow>
          (let oid = operation_id env ctx opts; m = ta_mount t; facts = call_facts opts;
               prior = (if truthy (io_key opts) then map_option op_status (getOperation (cc_tenant ctx) oid s) else None) in
           if prior \<noteq> None \<and> prior \<noteq> Some ORejected \<and> ts_side (ta_schema t) = Writes then (Some (alreadyAttempted oid prior), s)
           else let s1 = recordOperation now oid (cc_tenant ctx) (cc_agent ctx) (cc_task ctx) (mt_alias m) (mt_plugin m @ ''.'' @ ta_tool t)
                    (offeredName (io_offered opts) (mt_alias m) (ta_tool t)) (mt_version m) s;
                  reject = (\<lambda>e. complete_then env now ctx oid ORejected None (Some facts) (Result_Rejected e) s1) in
             (case classify_call env t args of
                Inl e \<Rightarrow> reject e
              | Inr c \<Rightarrow>
                  (case verdict_of opts (decided_by_policy t c) of
                     Deny \<Rightarrow> reject (policyDenied t)
                   | Approval \<Rightarrow>
                       if ts_model_only (ta_schema t)
                       then reject (cannotBeHeld opts t)
                       else hold_call env now ctx oid raw opts t c s1
                   | Allow \<Rightarrow> run_step env now ctx m (ta_plugin t) (ta_tool t) oid oid facts
                       (call_step env t c args oid) s1))))"

text \<open>The model's answer to a question, taken to the plugin as a new operation of the same tool.\<close>

definition resumeInterrupt :: "gateway_env \<Rightarrow> int \<Rightarrow> call_context \<Rightarrow> tool_interrupt \<Rightarrow> json \<Rightarrow> string option \<Rightarrow> (string \<times> string) list \<Rightarrow> store
    \<Rightarrow> tool_result option \<times> store" where
  "resumeInterrupt env now ctx i answer call offered s =
     (case getMountByAlias (cc_tenant ctx) (cc_agent ctx) (ti_alias i) s of
        None \<Rightarrow> (Some (Result_Rejected (tool_err ''not_mounted'' (''the '' @ ticked (ti_alias i) @ '' mount no longer exists, so the tool cannot go on''))), s)
      | Some m \<Rightarrow>
          (case ge_plugins env (mt_plugin m) of
             None \<Rightarrow> (Some (Result_Rejected (tool_err ''plugin_unavailable'' (pluginUnavailableMessage (mt_alias m) (mt_plugin m)))), s)
           | Some p \<Rightarrow>
               if \<not> pluginEnabled (ge_seeded env (mt_plugin m)) (pluginChoices (cc_tenant ctx) (cc_agent ctx) s (mt_plugin m))
               then (Some (Result_Rejected (tool_err ''plugin_disabled'' (switchedOffMessage (mt_alias m)))), s)
               else if pg_version p \<noteq> mt_version m
               then (Some (Result_Rejected (tool_err ''version_mismatch'' (''mount pins '' @ mt_version m @ '', registry has '' @ pg_version p))), s)
               else if \<not> pg_interrupts p then (Some (Result_Rejected (tool_err ''not_resumable'' (pg_id p @ '' cannot take an answer''))), s)
               else if ge_removing env (cc_tenant ctx, cc_agent ctx, mt_alias m)
               then (Some (Result_Rejected (tool_err ''not_mounted'' (''the '' @ ticked (mt_alias m) @ '' mount is being removed, so the tool cannot go on''))), s)
               else let oid = ge_random env in
                 run_step env now ctx m p (ti_tool i) oid (ti_operation i) (no_facts\<lparr>cf_call := call\<rparr>)
                   (ge_answer env m (ti_tool i) (ti_state i) answer (ti_operation i))
                   (recordOperation now oid (cc_tenant ctx) (cc_agent ctx) (cc_task ctx) (mt_alias m) (mt_plugin m @ ''.'' @ ti_tool i)
                      (offeredName offered (mt_alias m) (ti_tool i)) (mt_version m) s)))"

end
