(* ===== verification/Gateway_Calls.thy ===== *)
theory Gateway_Calls
  imports Gateway
begin

text \<open>
  What becomes of a tool call at the gateway: nothing a caller sets lifts a refusal; a call refused after it was recorded ends rejected
  and reaches no plugin; a held call waits once, for the same request; a write reaches its plugin once under its key; and two ways
  the code leaves a call hanging.
\<close>

section \<open>Nothing lifts a refusal\<close>

lemma verdict_strictness: "\<not> io_approved opts \<Longrightarrow> STRICTNESS d \<le> STRICTNESS (verdict_of opts d)"
  by (simp add: verdict_of_def)

lemma verdict_deny [simp]: "verdict_of opts Deny = Deny"
  by (simp add: verdict_of_def stricter_def)

lemma decided_own: "STRICTNESS (policyFor (read_policy (mt_policy (ta_mount t))) (ta_tool t) (ca_side c) (pg_default (ta_plugin t)))
    \<le> STRICTNESS (decided_by_policy t c)"
  by (simp add: decided_by_policy_def Let_def split: policy_key.split)

lemma unlisted_default:
  "policy_entry k policy = None \<Longrightarrow> bridge = Some b \<Longrightarrow> k = bd_unlisted b \<Longrightarrow>
     1 \<le> STRICTNESS (policyFor policy k side (bridge_defaults bridge defaults))"
  by (simp add: policyFor_strictness bridge_defaults_def policy_entry_def Let_def)

text \<open>
  C12: Nothing lifts a refusal. What a call is decided by is never looser than the mount's decision on the tool itself: a policy key only
  tightens it. A call whose key the plugin could not name is never simply allowed: it asks a person or is refused; nor is a write of a bridge
  that its table does not list, unless the mount's owner has an entry for such writes (a read it does not list has no key of its own). A
  confirmation only adds a person, and a person's approval lets a call run that was held or allowed, and never one that is denied.
\<close>

theorem nothing_lifts_a_refusal:
  shows "STRICTNESS (policyFor (read_policy (mt_policy (ta_mount t))) (ta_tool t) (ca_side c) (pg_default (ta_plugin t)))
      \<le> STRICTNESS (decided_by_policy t c)
    \<and> (decided_by_policy t c = Deny \<longrightarrow> verdict_of opts (decided_by_policy t c) = Deny)
    \<and> (\<not> io_approved opts \<longrightarrow> STRICTNESS (decided_by_policy t c) \<le> STRICTNESS (verdict_of opts (decided_by_policy t c)))
    \<and> (io_approved opts \<longrightarrow> decided_by_policy t c \<noteq> Deny \<longrightarrow> verdict_of opts (decided_by_policy t c) = Allow)
    \<and> (ca_key c = Unnamed \<longrightarrow> decided_by_policy t c \<noteq> Allow)
    \<and> (\<forall>b. ta_bridge t = Some b \<longrightarrow> ca_key c = Key (bd_unlisted b) \<longrightarrow> bd_unlisted b \<noteq> ta_tool t
        \<longrightarrow> policy_entry (bd_unlisted b) (read_policy (mt_policy (ta_mount t))) = None \<longrightarrow> decided_by_policy t c \<noteq> Allow)"
proof (intro conjI allI impI)
  show "STRICTNESS (policyFor (read_policy (mt_policy (ta_mount t))) (ta_tool t) (ca_side c) (pg_default (ta_plugin t))) \<le> STRICTNESS (decided_by_policy t c)"
    by (rule decided_own)
  show "decided_by_policy t c = Deny \<Longrightarrow> verdict_of opts (decided_by_policy t c) = Deny" by simp
  show "\<not> io_approved opts \<Longrightarrow> STRICTNESS (decided_by_policy t c) \<le> STRICTNESS (verdict_of opts (decided_by_policy t c))"
    by (rule verdict_strictness)
  show "io_approved opts \<Longrightarrow> decided_by_policy t c \<noteq> Deny \<Longrightarrow> verdict_of opts (decided_by_policy t c) = Allow"
    by (simp add: verdict_of_def)
  show "ca_key c = Unnamed \<Longrightarrow> decided_by_policy t c \<noteq> Allow"
    by (auto simp: decided_by_policy_def Let_def stricter_def split: if_splits)
  fix b assume b: "ta_bridge t = Some b" "ca_key c = Key (bd_unlisted b)" "bd_unlisted b \<noteq> ta_tool t"
    "policy_entry (bd_unlisted b) (read_policy (mt_policy (ta_mount t))) = None"
  have "1 \<le> STRICTNESS (decided_by_policy t c)"
    using unlisted_default [OF b(4) b(1) refl, of "ca_side c" "pg_default (ta_plugin t)"] b(2,3)
    by (simp add: decided_by_policy_def Let_def)
  then show "decided_by_policy t c \<noteq> Allow" by auto
qed

text \<open>Another plugin behind the same gateway: what it would do and send.\<close>

definition with_plugin :: "gateway_env \<Rightarrow> (mount_record \<Rightarrow> string \<Rightarrow> json \<Rightarrow> string \<Rightarrow> store \<Rightarrow> step_outcome \<times> store)
    \<Rightarrow> (mount_record \<Rightarrow> bridge_request \<Rightarrow> string \<Rightarrow> store \<Rightarrow> send_outcome \<times> store) \<Rightarrow> gateway_env" where
  "with_plugin env f g = env\<lparr>ge_step := f, ge_send := g\<rparr>"

lemma with_plugin_sel [simp]:
  "ge_plugins (with_plugin env f g) = ge_plugins env" "ge_seeded (with_plugin env f g) = ge_seeded env"
  "ge_removing (with_plugin env f g) = ge_removing env" "ge_ttl (with_plugin env f g) = ge_ttl env"
  "ge_hash (with_plugin env f g) = ge_hash env" "ge_random (with_plugin env f g) = ge_random env"
  "ge_parse (with_plugin env f g) = ge_parse env" "ge_utf8 (with_plugin env f g) = ge_utf8 env"
  "ge_iso (with_plugin env f g) = ge_iso env" "ge_redact (with_plugin env f g) = ge_redact env"
  "ge_shown_name (with_plugin env f g) = ge_shown_name env" "ge_place (with_plugin env f g) = ge_place env"
  by (simp_all add: with_plugin_def)

lemma with_plugin_complete [simp]: "complete (with_plugin env f g) = complete env"
  by (intro ext) (simp add: complete_def)

lemma with_plugin_complete_then [simp]: "complete_then (with_plugin env f g) = complete_then env"
  by (intro ext) (simp add: complete_then_def)

lemma with_plugin_answer [simp]: "pending_answer (with_plugin env f g) = pending_answer env"
  by (intro ext) (simp add: pending_answer_def)

lemma with_plugin_hold_of [simp]: "hold_of (with_plugin env f g) = hold_of env"
  by (intro ext) (simp add: hold_of_def)

lemma with_plugin_hold [simp]: "hold_call (with_plugin env f g) now ctx oid raw opts t c s = hold_call env now ctx oid raw opts t c s"
  unfolding hold_call_def with_plugin_hold_of with_plugin_answer with_plugin_sel with_plugin_complete_then ..

lemma with_plugin_admit [simp]: "admit_call (with_plugin env f g) ctx raw opts s = admit_call env ctx raw opts s"
  unfolding admit_call_def with_plugin_sel ..

lemma with_plugin_classify [simp]: "classify_call (with_plugin env f g) t args = classify_call env t args"
  unfolding classify_call_def classify_bridged_def with_plugin_sel ..

lemma with_plugin_id [simp]: "operation_id (with_plugin env f g) ctx opts = operation_id env ctx opts"
  by (simp add: operation_id_def)

lemma with_plugin_refused [simp]: "refused (with_plugin env f g) = refused env"
  by (intro ext) (simp add: refused_def)

text \<open>The plugin is asked nothing: whatever it would do, the call comes to the same.\<close>

definition plugin_untouched :: "gateway_env \<Rightarrow> int \<Rightarrow> call_context \<Rightarrow> string \<Rightarrow> json \<Rightarrow> invoke_opts \<Rightarrow> store \<Rightarrow> bool" where
  "plugin_untouched env now ctx raw args opts s \<longleftrightarrow>
     (\<forall>f g. invoke (with_plugin env f g) now ctx raw args opts s = invoke env now ctx raw args opts s)"

lemma invoke_untouched:
  assumes "\<And>t c. admit_call env ctx raw opts s = Inr t \<Longrightarrow> classify_call env t args = Inr c \<Longrightarrow> verdict_of opts (decided_by_policy t c) = Allow \<Longrightarrow>
      truthy (io_key opts) \<and> ts_side (ta_schema t) = Writes \<and> map_option op_status (getOperation (cc_tenant ctx) (operation_id env ctx opts) s) \<notin> {None, Some ORejected}"
  shows "plugin_untouched env now ctx raw args opts s"
proof -
  have "invoke (with_plugin env f g) now ctx raw args opts s = invoke env now ctx raw args opts s" for f g
  proof (cases "admit_call env ctx raw opts s")
    case (Inr t)
    show ?thesis
    proof (cases "classify_call env t args")
      case Inr': (Inr c)
      show ?thesis
      proof (cases "verdict_of opts (decided_by_policy t c) = Allow")
        case True
        from assms [OF Inr Inr' True] show ?thesis by (auto simp: invoke_def Inr Let_def)
      next
        case False
        then show ?thesis by (cases "verdict_of opts (decided_by_policy t c)") (simp_all add: invoke_def Inr Inr' Let_def)
      qed
    qed (simp add: invoke_def Inr Let_def)
  qed (simp add: invoke_def)
  then show ?thesis by (simp add: plugin_untouched_def)
qed
section \<open>Rows of operations under a call\<close>

text \<open>An attempt under this id is on record, and was not refused at the door.\<close>

definition began :: "string \<Rightarrow> string \<Rightarrow> store \<Rightarrow> bool" where
  "began tn oid s \<longleftrightarrow> (\<exists>r. get_op tn oid s = Some r \<and> op_status r \<noteq> ORejected)"

lemma getOperation_get_op: "getOperation = get_op"
  by (intro ext) (simp add: getOperation_def get_op_def)

lemma get_op_start:
  "get_op tn oid (snd (startOperation now tn oid s))
    = map_option (\<lambda>r. if startable r then r\<lparr>op_status := ORunning, op_updated := now\<rparr> else r) (get_op tn oid s)"
proof -
  let ?hit = "\<lambda>r. is_operation tn oid r \<and> op_status r \<in> {OPending, ORejected}"
  let ?f = "\<lambda>r. r\<lparr>op_status := ORunning, op_updated := now\<rparr>"
  have "get_op tn oid (s\<lparr>operations := update_where ?hit ?f (operations s)\<rparr>)
      = map_option (\<lambda>r. if ?hit r then ?f r else r) (get_op tn oid s)"
    by (simp add: get_op_def) (intro get_row_update_where, simp add: is_operation_def)
  then show ?thesis
    by (cases "get_op tn oid s") (auto simp: startOperation_def Let_def startable_def get_op_def dest: get_row_SomeD)
qed

lemma start_wins_began:
  assumes "startOperation now tn oid s = (True, s1)"
  shows "began tn oid s1"
proof -
  from assms have "filter (\<lambda>r. is_operation tn oid r \<and> op_status r \<in> {OPending, ORejected}) (operations s) \<noteq> []"
    by (auto simp: startOperation_def Let_def)
  then obtain r where "r \<in> set (operations s)" "is_operation tn oid r" by (auto simp: filter_empty_conv)
  then obtain r' where "get_op tn oid s = Some r'"
    by (metis get_op_def get_row_None_iff option.exhaust)
  with get_op_start [of tn oid now s] assms show ?thesis by (auto simp: began_def startable_def)
qed

lemma complete_began:
  assumes "complete env now ctx oid status result facts s = Inr s'" and "status \<noteq> ORejected" and "began (cc_tenant ctx) oid s"
  shows "began (cc_tenant ctx) oid s'"
proof -
  from assms(3) obtain r where "get_op (cc_tenant ctx) oid s = Some r" by (auto simp: began_def)
  with assms(1) have "get_op (cc_tenant ctx) oid s' = Some (completed_op now status None r)"
    unfolding complete_def by (rule get_op_completed)
  with assms(2) show ?thesis by (simp add: began_def completed_op_def)
qed

lemma complete_then_began:
  "status \<noteq> ORejected \<Longrightarrow> began (cc_tenant ctx) oid s
    \<Longrightarrow> began (cc_tenant ctx) oid (snd (complete_then env now ctx oid status result facts answer s))"
  by (auto simp: complete_then_def intro: complete_began split: sum.split)

lemma run_threw_began:
  "began (cc_tenant ctx) oid s \<Longrightarrow> began (cc_tenant ctx) oid (snd (run_threw env started now ctx oid facts e s))"
  unfolding run_threw_def by (rule complete_then_began) simp_all

lemma complete_or_began:
  "status \<noteq> ORejected \<Longrightarrow> began (cc_tenant ctx) oid s
    \<Longrightarrow> began (cc_tenant ctx) oid (snd (complete_or env started now ctx oid status facts own answer s))"
  by (auto simp: complete_or_def intro: complete_began run_threw_began split: sum.split)

text \<open>What a plugin and anything beside it do to the store while a step runs leaves the attempt on record.\<close>

definition plugin_keeps :: "gateway_env \<Rightarrow> string \<Rightarrow> string \<Rightarrow> bool" where
  "plugin_keeps env tn oid \<longleftrightarrow> (\<forall>s. began tn oid s \<longrightarrow>
     (\<forall>m tool args o'. began tn oid (snd (ge_step env m tool args o' s)))
     \<and> (\<forall>m req o'. began tn oid (snd (ge_send env m req o' s)))
     \<and> (\<forall>m tool st. began tn oid (ge_cancel env m tool st s)))"

lemma step_end_began:
  assumes "plugin_keeps env (cc_tenant ctx) oid" and "began (cc_tenant ctx) oid s"
  shows "began (cc_tenant ctx) oid (snd (step_end env started now ctx m p tool oid serves facts outcome s))"
proof (cases outcome)
  case (Step_Asks q)
  from assms have c: "began (cc_tenant ctx) oid (if pg_interrupts p then ge_cancel env m tool (qu_state q) s else s)"
    by (simp add: plugin_keeps_def)
  show ?thesis
  proof (cases "question_problem p q")
    case None
    then show ?thesis using assms(2)
      by (auto simp: step_end_def Step_Asks intro: complete_or_began split: sum.split)
  next
    case (Some why)
    then show ?thesis using c by (simp add: step_end_def Step_Asks Let_def complete_or_began)
  qed
qed (use assms(2) in \<open>simp_all add: step_end_def Let_def complete_or_began run_threw_began\<close>)

lemma call_step_began:
  assumes "plugin_keeps env tn oid" and "began tn oid s"
  shows "began tn oid (snd (call_step env t c args o' s))"
proof -
  have b: "began tn oid (snd (bridge_step env m b req o' s))" for m b req
  proof -
    have "began tn oid (snd (ge_send env m req o' s))" using assms by (simp add: plugin_keeps_def)
    then show ?thesis by (auto simp: bridge_step_def Let_def split: prod.split send_outcome.split)
  qed
  have "began tn oid (snd (ge_step env (ta_mount t) (ta_tool t) args o' s))" using assms by (simp add: plugin_keeps_def)
  with b show ?thesis by (simp add: call_step_def split: option.split)
qed
section \<open>A write reaches its plugin once\<close>

text \<open>The store with the call's row of operations.\<close>

definition recorded :: "gateway_env \<Rightarrow> int \<Rightarrow> call_context \<Rightarrow> invoke_opts \<Rightarrow> taken_call \<Rightarrow> store \<Rightarrow> store" where
  "recorded env now ctx opts t s =
     recordOperation now (operation_id env ctx opts) (cc_tenant ctx) (cc_agent ctx) (cc_task ctx) (mt_alias (ta_mount t))
       (mt_plugin (ta_mount t) @ ''.'' @ ta_tool t) (offeredName (io_offered opts) (mt_alias (ta_mount t)) (ta_tool t)) (mt_version (ta_mount t)) s"

text \<open>A write repeated under a key whose earlier attempt is on record, and was not refused.\<close>

definition repeats :: "gateway_env \<Rightarrow> call_context \<Rightarrow> invoke_opts \<Rightarrow> taken_call \<Rightarrow> store \<Rightarrow> bool" where
  "repeats env ctx opts t s \<longleftrightarrow>
     truthy (io_key opts) \<and> ts_side (ta_schema t) = Writes \<and> began (cc_tenant ctx) (operation_id env ctx opts) s"

lemma repeats_prior:
  "(if truthy (io_key opts) then map_option op_status (getOperation (cc_tenant ctx) oid s) else None) \<noteq> None
    \<and> (if truthy (io_key opts) then map_option op_status (getOperation (cc_tenant ctx) oid s) else None) \<noteq> Some ORejected
    \<and> ts_side (ta_schema t) = Writes
   \<longleftrightarrow> truthy (io_key opts) \<and> ts_side (ta_schema t) = Writes \<and> began (cc_tenant ctx) oid s"
  by (auto simp: getOperation_get_op began_def)

lemma invoke_repeat:
  assumes "admit_call env ctx raw opts s = Inr t" and "repeats env ctx opts t s"
  shows "invoke env now ctx raw args opts s
    = (Some (alreadyAttempted (operation_id env ctx opts) (map_option op_status (get_op (cc_tenant ctx) (operation_id env ctx opts) s))), s)"
proof -
  let ?oid = "operation_id env ctx opts"
  from assms(2) obtain r where r: "truthy (io_key opts)" "ts_side (ta_schema t) = Writes" "get_op (cc_tenant ctx) ?oid s = Some r"
    "op_status r \<noteq> ORejected"
    by (auto simp: repeats_def began_def)
  then show ?thesis unfolding invoke_def assms(1) by (simp add: Let_def getOperation_get_op)
qed

lemma invoke_admitted:
  assumes "admit_call env ctx raw opts s = Inr t" and "\<not> repeats env ctx opts t s"
  shows "invoke env now ctx raw args opts s =
     (let oid = operation_id env ctx opts; m = ta_mount t; facts = call_facts opts; s1 = recorded env now ctx opts t s;
          reject = (\<lambda>e. complete_then env now ctx oid ORejected None (Some facts) (Result_Rejected e) s1) in
      case classify_call env t args of
        Inl e \<Rightarrow> reject e
      | Inr c \<Rightarrow>
          (case verdict_of opts (decided_by_policy t c) of
             Deny \<Rightarrow> reject (policyDenied t)
           | Approval \<Rightarrow>
               if ts_model_only (ta_schema t)
               then reject (cannotBeHeld opts t)
               else hold_call env now ctx oid raw opts t c s1
           | Allow \<Rightarrow> run_step env now ctx m (ta_plugin t) (ta_tool t) oid oid facts (call_step env t c args oid) s1))"
proof -
  have n: "\<not> (truthy (io_key opts) \<and> ts_side (ta_schema t) = Writes \<and> began (cc_tenant ctx) (operation_id env ctx opts) s)"
    using assms(2) by (simp add: repeats_def)
  show ?thesis unfolding invoke_def assms(1) sum.case Let_def repeats_prior if_not_P [OF n] recorded_def ..
qed

lemma with_plugin_recorded [simp]: "recorded (with_plugin env f g) = recorded env" "repeats (with_plugin env f g) = repeats env"
  by (intro ext; simp add: recorded_def repeats_def)+

lemma with_plugin_credential [simp]: "ge_credential (with_plugin env f g) = ge_credential env"
  by (simp add: with_plugin_def)

lemma run_step_no_credential:
  "truthy (mt_secret m) \<Longrightarrow> ge_credential env m = None \<Longrightarrow> run_step env now ctx m p tool oid serves facts step s = (None, s)"
  by (simp add: run_step_def)

lemma run_step_lost:
  "\<not> (truthy (mt_secret m) \<and> ge_credential env m = None) \<Longrightarrow> startOperation now (cc_tenant ctx) oid s = (False, s1)
    \<Longrightarrow> run_step env now ctx m p tool oid serves facts step s
      = (Some (alreadyAttempted oid (map_option op_status (getOperation (cc_tenant ctx) oid s1))), s1)"
  by (simp add: run_step_def)

lemma run_step_won:
  "\<not> (truthy (mt_secret m) \<and> ge_credential env m = None) \<Longrightarrow> startOperation now (cc_tenant ctx) oid s = (True, s1)
    \<Longrightarrow> run_step env now ctx m p tool oid serves facts step s
      = (case step s1 of (outcome, s2) \<Rightarrow> step_end env now (ge_later env now) ctx m p tool oid serves facts outcome s2)"
  by (auto simp: run_step_def)

text \<open>What a call must have come to before its plugin hears of it.\<close>

lemma reaches_plugin:
  assumes "\<not> plugin_untouched env now ctx raw args opts s"
  obtains t c s1 where "admit_call env ctx raw opts s = Inr t" and "\<not> repeats env ctx opts t s" and "classify_call env t args = Inr c"
    and "verdict_of opts (decided_by_policy t c) = Allow"
    and "startOperation now (cc_tenant ctx) (operation_id env ctx opts) (recorded env now ctx opts t s) = (True, s1)"
    and "invoke env now ctx raw args opts s = (case call_step env t c args (operation_id env ctx opts) s1 of (outcome, s2) \<Rightarrow>
      step_end env now (ge_later env now) ctx (ta_mount t) (ta_plugin t) (ta_tool t) (operation_id env ctx opts) (operation_id env ctx opts)
        (call_facts opts) outcome s2)"
proof -
  let ?oid = "operation_id env ctx opts"
  from assms obtain f g where d: "invoke (with_plugin env f g) now ctx raw args opts s \<noteq> invoke env now ctx raw args opts s"
    by (auto simp: plugin_untouched_def)
  obtain t where t: "admit_call env ctx raw opts s = Inr t"
    using d by (cases "admit_call env ctx raw opts s") (auto simp: invoke_def)
  have n: "\<not> repeats env ctx opts t s"
    using d invoke_repeat [OF t, of now args] invoke_repeat [of "with_plugin env f g" ctx raw opts s t now args] t by auto
  note i = invoke_admitted [OF t n, of now args] and
    j = invoke_admitted [of "with_plugin env f g" ctx raw opts s t now args, unfolded with_plugin_admit with_plugin_recorded, OF t n]
  obtain c where c: "classify_call env t args = Inr c"
    using d by (cases "classify_call env t args") (auto simp: i j Let_def)
  have v: "verdict_of opts (decided_by_policy t c) = Allow"
    using d by (cases "verdict_of opts (decided_by_policy t c)") (auto simp: i j c Let_def split: if_splits)
  have r: "run_step (with_plugin env f g) now ctx (ta_mount t) (ta_plugin t) (ta_tool t) ?oid ?oid (call_facts opts)
      (call_step (with_plugin env f g) t c args ?oid) (recorded env now ctx opts t s)
    \<noteq> run_step env now ctx (ta_mount t) (ta_plugin t) (ta_tool t) ?oid ?oid (call_facts opts) (call_step env t c args ?oid) (recorded env now ctx opts t s)"
    using d by (simp add: i j c v Let_def)
  have cred: "\<not> (truthy (mt_secret (ta_mount t)) \<and> ge_credential env (ta_mount t) = None)"
  proof
    assume "truthy (mt_secret (ta_mount t)) \<and> ge_credential env (ta_mount t) = None"
    with r show False by (simp add: run_step_no_credential)
  qed
  obtain won s1 where st: "startOperation now (cc_tenant ctx) ?oid (recorded env now ctx opts t s) = (won, s1)" by fastforce
  have won
  proof (rule ccontr)
    assume "\<not> won"
    with st have "startOperation now (cc_tenant ctx) ?oid (recorded env now ctx opts t s) = (False, s1)" by simp
    with r cred show False by (simp add: run_step_lost)
  qed
  show ?thesis
  proof (rule that [OF t n c v])
    show "startOperation now (cc_tenant ctx) ?oid (recorded env now ctx opts t s) = (True, s1)" using st \<open>won\<close> by simp
    show "invoke env now ctx raw args opts s = (case call_step env t c args ?oid s1 of (outcome, s2) \<Rightarrow>
      step_end env now (ge_later env now) ctx (ta_mount t) (ta_plugin t) (ta_tool t) ?oid ?oid (call_facts opts) outcome s2)"
      unfolding i Let_def c v sum.case policy_decision.case by (rule run_step_won [OF cred]) (use st \<open>won\<close> in simp)
  qed
qed

lemma reached_began:
  assumes "\<not> plugin_untouched env now ctx raw args opts s" and "plugin_keeps env (cc_tenant ctx) (operation_id env ctx opts)"
  shows "began (cc_tenant ctx) (operation_id env ctx opts) (snd (invoke env now ctx raw args opts s))"
  using assms(1)
proof (rule reaches_plugin)
  let ?oid = "operation_id env ctx opts"
  fix t c s1
  assume "startOperation now (cc_tenant ctx) ?oid (recorded env now ctx opts t s) = (True, s1)"
    and i: "invoke env now ctx raw args opts s = (case call_step env t c args ?oid s1 of (outcome, s2) \<Rightarrow>
      step_end env now (ge_later env now) ctx (ta_mount t) (ta_plugin t) (ta_tool t) ?oid ?oid (call_facts opts) outcome s2)"
  then have "began (cc_tenant ctx) ?oid s1" by (intro start_wins_began)
  then have "began (cc_tenant ctx) ?oid (snd (call_step env t c args ?oid s1))" using assms(2) by (intro call_step_began)
  then show ?thesis using assms(2) by (auto simp: i intro: step_end_began split: prod.split)
qed

text \<open>
  C11: A write reaches its plugin once. When a keyed call reached its plugin (whatever it then came to: a result, an error, a question, a
  record that could not be written), and the attempt's row is still there, the same call made again under the key is answered that it
  was already attempted: nothing is written, and no plugin is asked anything, whatever that plugin would do.
\<close>

theorem a_write_reaches_its_plugin_once:
  assumes "truthy (io_key opts)" and "\<not> plugin_untouched env now ctx raw args opts s"
    and "plugin_keeps env (cc_tenant ctx) (operation_id env ctx opts)"
    and "\<And>x. began (cc_tenant ctx) (operation_id env ctx opts) x \<Longrightarrow> began (cc_tenant ctx) (operation_id env ctx opts) (others x)"
    and "s' = others (snd (invoke env now ctx raw args opts s))"
    and "admit_call env ctx raw opts s' = Inr t" and "ts_side (ta_schema t) = Writes"
  shows "plugin_untouched env later ctx raw args' opts s'
    \<and> invoke env later ctx raw args' opts s' = (Some (alreadyAttempted (operation_id env ctx opts)
        (map_option op_status (get_op (cc_tenant ctx) (operation_id env ctx opts) s'))), s')"
proof -
  have "began (cc_tenant ctx) (operation_id env ctx opts) s'"
    using assms(4) [OF reached_began [OF assms(2,3)]] by (simp add: assms(5))
  with assms(1,7) have r: "repeats env ctx opts t s'" by (simp add: repeats_def)
  have "plugin_untouched env later ctx raw args' opts s'"
  proof (rule ccontr)
    assume "\<not> plugin_untouched env later ctx raw args' opts s'"
    then show False by (rule reaches_plugin) (use assms(6) r in auto)
  qed
  then show ?thesis using invoke_repeat [OF assms(6) r] by blast
qed
section \<open>A gateway at work\<close>

definition gw_policy :: "policy_decision \<Rightarrow> json" where
  "gw_policy d = JObj [(''write'', JStr (case d of Allow \<Rightarrow> ''allow'' | Approval \<Rightarrow> ''approval'' | Deny \<Rightarrow> ''deny''))]"

definition gw_mount :: "policy_decision \<Rightarrow> string option \<Rightarrow> mount_record" where
  "gw_mount d sealed = \<lparr>mt_tenant = ''t'', mt_agent = ''a'', mt_alias = ''m'', mt_plugin = ''mail'', mt_installation = [], mt_connection = None,
     mt_version = ''1'', mt_config = JNull, mt_secret = sealed, mt_policy = Some (gw_policy d), mt_snapshot = None\<rparr>"

definition gw_plugin :: plugin_decl where
  "gw_plugin = \<lparr>pg_id = ''mail'', pg_version = ''1'', pg_tools = [\<lparr>ts_name = ''send'', ts_side = Writes, ts_model_only = False\<rparr>],
     pg_mount_tools = (\<lambda>_. None), pg_key = None, pg_refuse = None, pg_classify = None, pg_default = None, pg_bridge = None, pg_interrupts = False\<rparr>"

definition gw_env :: gateway_env where
  "gw_env = \<lparr>ge_plugins = (\<lambda>p. if p = ''mail'' then Some gw_plugin else None), ge_seeded = (\<lambda>_. True), ge_removing = (\<lambda>_. False),
     ge_ttl = 100, ge_hash = (\<lambda>x. x), ge_random = ''r'', ge_parse = (\<lambda>_. None), ge_utf8 = length, ge_iso = (\<lambda>_. []), ge_redact = (\<lambda>x. x),
     ge_shown_name = Some, ge_place = (\<lambda>_. Place None None), ge_credential = (\<lambda>_. None),
     ge_step = (\<lambda>_ _ _ _ s. (Step_Result JNull, s)), ge_send = (\<lambda>_ _ _ s. (Sent 200 [] [] [], s)),
     ge_answer = (\<lambda>_ _ _ _ _ s. (Step_Result JNull, s)), ge_cancel = (\<lambda>_ _ _ s. s), ge_later = (\<lambda>t. t + 1), ge_error_text = (\<lambda>_. [])\<rparr>"

definition gw_ctx :: call_context where
  "gw_ctx = \<lparr>cc_tenant = ''t'', cc_agent = ''a'', cc_task = ''k''\<rparr>"

definition gw_opts :: invoke_opts where
  "gw_opts = \<lparr>io_key = Some ''key'', io_approved = False, io_operation = None, io_confirm = False, io_call = None, io_offered = [], io_program = False\<rparr>"

definition gw_store :: "policy_decision \<Rightarrow> string option \<Rightarrow> store" where
  "gw_store d sealed = log_example\<lparr>mounts := [gw_mount d sealed]\<rparr>"

text \<open>Nobody else has used the key; the task is the agent's.\<close>

lemma gw_store_inv: "log_inv (gw_store d sealed)"
  by (rule log_inv_cong [OF _ _ _ log_example_inv]) (simp_all add: gw_store_def counter_value_def)

lemma gw_reaches: "\<not> plugin_untouched gw_env 5 gw_ctx ''m.send'' JNull gw_opts (gw_store Allow None)"
proof
  assume "plugin_untouched gw_env 5 gw_ctx ''m.send'' JNull gw_opts (gw_store Allow None)"
  then have "invoke (with_plugin gw_env (\<lambda>_ _ _ _ s. (Step_Result (JNum 1), s)) (\<lambda>_ _ _ s. (Sent 200 [] [] [], s))) 5 gw_ctx ''m.send'' JNull gw_opts (gw_store Allow None)
      = invoke gw_env 5 gw_ctx ''m.send'' JNull gw_opts (gw_store Allow None)"
    by (simp add: plugin_untouched_def)
  moreover have "fst (invoke gw_env 5 gw_ctx ''m.send'' JNull gw_opts (gw_store Allow None)) = Some (Result_Succeeded ''op_t|k|key'' JNull)"
    by code_simp
  moreover have "fst (invoke (with_plugin gw_env (\<lambda>_ _ _ _ s. (Step_Result (JNum 1), s)) (\<lambda>_ _ _ s. (Sent 200 [] [] [], s))) 5 gw_ctx ''m.send'' JNull gw_opts (gw_store Allow None))
      = Some (Result_Succeeded ''op_t|k|key'' (JNum 1))"
    by code_simp
  ultimately show False by simp
qed

lemma gw_keeps: "plugin_keeps gw_env tn oid"
  by (simp add: plugin_keeps_def gw_env_def)

text \<open>What admission gives on this store, whatever the calls before did to it, as long as the mount is there.\<close>

definition gw_taken :: "policy_decision \<Rightarrow> string option \<Rightarrow> taken_call" where
  "gw_taken d sealed = \<lparr>ta_mount = gw_mount d sealed, ta_tool = ''send'', ta_plugin = gw_plugin,
     ta_schema = \<lparr>ts_name = ''send'', ts_side = Writes, ts_model_only = False\<rparr>, ta_bridge = None\<rparr>"

lemma gw_resolve:
  assumes "mounts s = mounts (gw_store d sealed)"
  shows "resolve gw_ctx ''m.send'' s = Inr (gw_mount d sealed, ''send'')"
proof -
  have "parseToolRef ''m.send'' = Some (''m'', ''send'')" by code_simp
  then show ?thesis
    by (simp add: resolve_def getMountByAlias_def assms gw_store_def is_mount_def gw_ctx_def gw_mount_def)
qed

lemma gw_admit:
  assumes "mounts s = mounts (gw_store d sealed)" and "plugin_choices s = []"
  shows "admit_call gw_env gw_ctx ''m.send'' gw_opts s = Inr (gw_taken d sealed)"
  unfolding admit_call_def gw_resolve [OF assms(1)] sum.case prod.case
  by (simp add: gw_env_def gw_mount_def pluginEnabled_def pluginChoices_def assms(2)
      gw_plugin_def BRIDGE_TOOL_def toolsOf_def gw_opts_def gw_taken_def gw_ctx_def)
theorem a_write_reaches_its_plugin_once_witness:
  "\<exists>s'. plugin_untouched gw_env 9 gw_ctx ''m.send'' JNull gw_opts s'
     \<and> (\<exists>st. fst (invoke gw_env 9 gw_ctx ''m.send'' JNull gw_opts s') = Some (alreadyAttempted ''op_t|k|key'' st))"
proof -
  let ?others = "\<lambda>x. x\<lparr>mounts := mounts (gw_store Allow None), plugin_choices := []\<rparr>"
  let ?s = "?others (snd (invoke gw_env 5 gw_ctx ''m.send'' JNull gw_opts (gw_store Allow None)))"
  have i: "operation_id gw_env gw_ctx gw_opts = ''op_t|k|key''" by code_simp
  have "plugin_untouched gw_env 9 gw_ctx ''m.send'' JNull gw_opts ?s
    \<and> invoke gw_env 9 gw_ctx ''m.send'' JNull gw_opts ?s = (Some (alreadyAttempted (operation_id gw_env gw_ctx gw_opts)
        (map_option op_status (get_op (cc_tenant gw_ctx) (operation_id gw_env gw_ctx gw_opts) ?s))), ?s)"
  proof (rule a_write_reaches_its_plugin_once [where others = ?others and t = "gw_taken Allow None", OF _ gw_reaches gw_keeps _ refl])
    show "truthy (io_key gw_opts)" by code_simp
    show "began (cc_tenant gw_ctx) (operation_id gw_env gw_ctx gw_opts) x
        \<Longrightarrow> began (cc_tenant gw_ctx) (operation_id gw_env gw_ctx gw_opts) (?others x)" for x
      by (simp add: began_def get_op_def)
    show "admit_call gw_env gw_ctx ''m.send'' gw_opts ?s = Inr (gw_taken Allow None)" by (rule gw_admit) simp_all
    show "ts_side (ta_schema (gw_taken Allow None)) = Writes" by (simp add: gw_taken_def)
  qed
  then show ?thesis unfolding i by (intro exI [of _ ?s] conjI exI) simp_all
qed

section \<open>A refused call ends rejected\<close>

lemma get_op_recorded:
  assumes "get_op (cc_tenant ctx) (operation_id env ctx opts) s = None"
    and "\<And>r. r \<in> set (operations s) \<Longrightarrow> op_id r \<noteq> operation_id env ctx opts"
  shows "\<exists>op. get_op (cc_tenant ctx) (operation_id env ctx opts) (recorded env now ctx opts t s) = Some op
    \<and> op_status op = OPending \<and> op_agent op = cc_agent ctx \<and> op_task op = cc_task ctx"
proof -
  have "\<not> has_row (\<lambda>r. op_id r = operation_id env ctx opts) (operations s)" using assms(2) by (auto simp: has_row_iff)
  with assms(1) show ?thesis
    by (auto simp: recorded_def recordOperation_def get_op_def insert_ignore_def get_row_append is_operation_def)
qed

lemma recorded_frame [simp]:
  "tasks (recorded env now ctx opts t s) = tasks s" "approvals (recorded env now ctx opts t s) = approvals s"
  "events (recorded env now ctx opts t s) = events s" "waits (recorded env now ctx opts t s) = waits s"
  "counters (recorded env now ctx opts t s) = counters s" "next_uuid (recorded env now ctx opts t s) = next_uuid s"
  by (simp_all add: recorded_def recordOperation_def)

lemma recorded_inv: "log_inv s \<Longrightarrow> log_inv (recorded env now ctx opts t s)"
  by (rule log_inv_cong) (simp_all add: counter_value_def)

lemma completeOperation_approvals:
  assumes "completeOperation redact now tn oid status ref result facts s = Inr s'"
  shows "approvals s' = approvals s"
proof (cases "get_op tn oid s")
  case None
  with assms show ?thesis by (auto simp: complete_unknown resolve_waits_def set_status_def)
next
  case (Some op)
  from assms Some show ?thesis
    by (rule completeE) (auto dest: insertEvent_frame(7) simp: appendTrace_def append_trace_row_def resolve_waits_def set_status_def)
qed
text \<open>A new call may be recorded: nobody has its id, and its task, if there is one, is the agent's.\<close>

definition fresh_call :: "gateway_env \<Rightarrow> call_context \<Rightarrow> invoke_opts \<Rightarrow> store \<Rightarrow> bool" where
  "fresh_call env ctx opts s \<longleftrightarrow> log_inv s \<and> (\<forall>r\<in>set (operations s). op_id r \<noteq> operation_id env ctx opts)
     \<and> (\<forall>t. get_task (cc_tenant ctx) (cc_task ctx) s = Some t \<longrightarrow> tk_agent t = cc_agent ctx)"

lemma fresh_not_repeated: "fresh_call env ctx opts s \<Longrightarrow> get_op (cc_tenant ctx) (operation_id env ctx opts) s = None"
  by (auto simp: fresh_call_def get_op_def is_operation_def get_row_None_iff)

lemma fresh_no_repeat: "fresh_call env ctx opts s \<Longrightarrow> \<not> repeats env ctx opts t s"
  using fresh_not_repeated [of env ctx opts s] by (simp add: repeats_def began_def)

lemma fresh_recorded:
  assumes "fresh_call env ctx opts s"
  obtains op where "get_op (cc_tenant ctx) (operation_id env ctx opts) (recorded env now ctx opts t s) = Some op"
    and "op_status op = OPending" and "op_agent op = cc_agent ctx" and "op_task op = cc_task ctx"
  using get_op_recorded [OF fresh_not_repeated [OF assms], of now t] assms by (auto simp: fresh_call_def)

text \<open>A completion of a freshly recorded call lands.\<close>

lemma fresh_completes:
  assumes "fresh_call env ctx opts s"
  obtains s' where "complete env now ctx (operation_id env ctx opts) status result facts (recorded env now ctx opts t s) = Inr s'"
    and "approvals s' = approvals s"
    and "map_option op_status (get_op (cc_tenant ctx) (operation_id env ctx opts) s') = Some status"
    and "\<not> has_row (waits_on (cc_tenant ctx) (operation_id env ctx opts)) (waits s')"
proof -
  let ?s1 = "recorded env now ctx opts t s"
  from assms obtain op where op: "get_op (cc_tenant ctx) (operation_id env ctx opts) ?s1 = Some op"
    "op_agent op = cc_agent ctx" "op_task op = cc_task ctx"
    by (rule fresh_recorded)
  have "tk_agent x = op_agent op" if "get_task (cc_tenant ctx) (op_task op) ?s1 = Some x" for x
    using that assms op(2,3) by (simp add: fresh_call_def get_task_def)
  moreover have "log_inv ?s1" using assms by (simp add: fresh_call_def recorded_inv)
  ultimately obtain s' where c: "completeOperation (ge_redact env) now (cc_tenant ctx) (operation_id env ctx opts) status None result facts ?s1 = Inr s'"
    using complete_total [OF _ op(1)] by blast
  from get_op_completed [OF c op(1)] completeOperation_approvals [OF c] c show ?thesis
    by (intro that [of s']) (simp_all add: complete_def completed_op_def)
qed

text \<open>What the gateway refuses after it recorded the call.\<close>

definition refusal_of :: "gateway_env \<Rightarrow> invoke_opts \<Rightarrow> taken_call \<Rightarrow> json \<Rightarrow> tool_error option" where
  "refusal_of env opts t args =
     (case classify_call env t args of
        Inl e \<Rightarrow> Some e
      | Inr c \<Rightarrow>
          (case verdict_of opts (decided_by_policy t c) of
             Allow \<Rightarrow> None
           | Approval \<Rightarrow> if ts_model_only (ta_schema t) then Some (cannotBeHeld opts t) else None
           | Deny \<Rightarrow> Some (policyDenied t)))"

lemma invoke_refuses:
  assumes "admit_call env ctx raw opts s = Inr t" and "\<not> repeats env ctx opts t s" and "refusal_of env opts t args = Some e"
  shows "invoke env now ctx raw args opts s = complete_then env now ctx (operation_id env ctx opts) ORejected None
    (Some (call_facts opts)) (Result_Rejected e) (recorded env now ctx opts t s)"
  using assms(3) unfolding invoke_admitted [OF assms(1,2)] Let_def
  by (auto simp: refusal_of_def split: sum.splits policy_decision.splits if_splits)

text \<open>
  A refused call ends rejected. A call refused after it was recorded (a bridged request no route lists, a call its plugin will never
  run, a policy that denies it, a hold nobody could read the result of) is answered with that refusal and reaches no plugin. Its
  operation does not stay pending: it ends as rejected, nothing waits on it, and no hold is made.
\<close>

theorem a_refused_call_ends_rejected:
  assumes "fresh_call env ctx opts s" and "admit_call env ctx raw opts s = Inr t" and "refusal_of env opts t args = Some e"
  shows "plugin_untouched env now ctx raw args opts s
    \<and> (\<exists>s'. invoke env now ctx raw args opts s = (Some (Result_Rejected e), s') \<and> approvals s' = approvals s
      \<and> map_option op_status (get_op (cc_tenant ctx) (operation_id env ctx opts) s') = Some ORejected
      \<and> \<not> has_row (waits_on (cc_tenant ctx) (operation_id env ctx opts)) (waits s'))"
proof
  show "plugin_untouched env now ctx raw args opts s"
  proof (rule ccontr)
    assume "\<not> plugin_untouched env now ctx raw args opts s"
    then show False by (rule reaches_plugin) (use assms(2,3) in \<open>simp add: refusal_of_def\<close>)
  qed
  note i = invoke_refuses [OF assms(2) fresh_no_repeat [OF assms(1)] assms(3), of now]
  show "\<exists>s'. invoke env now ctx raw args opts s = (Some (Result_Rejected e), s') \<and> approvals s' = approvals s
      \<and> map_option op_status (get_op (cc_tenant ctx) (operation_id env ctx opts) s') = Some ORejected
      \<and> \<not> has_row (waits_on (cc_tenant ctx) (operation_id env ctx opts)) (waits s')"
    unfolding i by (rule fresh_completes [OF assms(1), of now ORejected None "Some (call_facts opts)" t]) (simp add: complete_then_def)
qed
lemma gw_fresh: "fresh_call gw_env gw_ctx gw_opts (gw_store d sealed)"
proof -
  have "operations (gw_store d sealed) = []"
    by (simp add: gw_store_def log_example_def createTask_def insert_row_def init_store_def putSnapshot_def has_row_iff)
  moreover have "tk_agent x = ''a''" if "get_task ''t'' ''k'' (gw_store d sealed) = Some x" for x
    using that by (auto simp: gw_store_def log_example_def createTask_def insert_row_def init_store_def putSnapshot_def has_row_iff get_task_def is_task_def)
  ultimately show ?thesis by (simp add: fresh_call_def gw_store_inv gw_ctx_def)
qed

theorem a_refused_call_ends_rejected_witness:
  "\<exists>s'. invoke gw_env 5 gw_ctx ''m.send'' JNull gw_opts (gw_store Deny None) = (Some (Result_Rejected (policyDenied (gw_taken Deny None))), s')
     \<and> map_option op_status (get_op ''t'' ''op_t|k|key'' s') = Some ORejected"
proof -
  have a: "admit_call gw_env gw_ctx ''m.send'' gw_opts (gw_store Deny None) = Inr (gw_taken Deny None)"
    by (rule gw_admit) (simp_all add: gw_store_def log_example_def createTask_def insert_row_def init_store_def putSnapshot_def has_row_iff)
  have "map_option te_code (refusal_of gw_env gw_opts (gw_taken Deny None) JNull) = Some ''policy_denied''" by code_simp
  then have r: "refusal_of gw_env gw_opts (gw_taken Deny None) JNull = Some (policyDenied (gw_taken Deny None))"
    by (auto simp: refusal_of_def gw_taken_def classify_call_def gw_plugin_def refusalOf_def tool_err_def policyDenied_def cannotBeHeld_def Let_def
      split: policy_decision.splits if_splits)
  have i: "operation_id gw_env gw_ctx gw_opts = ''op_t|k|key''" by code_simp
  from a_refused_call_ends_rejected [OF gw_fresh a r, of 5] show ?thesis unfolding i by (auto simp: gw_ctx_def)
qed

section \<open>A held call waits, once\<close>

lemma invoke_holds:
  assumes "admit_call env ctx raw opts s = Inr t" and "\<not> repeats env ctx opts t s" and "classify_call env t args = Inr c"
    and "verdict_of opts (decided_by_policy t c) = Approval" and "\<not> ts_model_only (ta_schema t)"
  shows "invoke env now ctx raw args opts s = hold_call env now ctx (operation_id env ctx opts) raw opts t c (recorded env now ctx opts t s)"
  unfolding invoke_admitted [OF assms(1,2)] Let_def assms(3,4) sum.case policy_decision.case if_not_P [OF assms(5)] ..

lemma held_reaches_nothing:
  assumes "admit_call env ctx raw opts s = Inr t" and "classify_call env t args = Inr c"
    and "verdict_of opts (decided_by_policy t c) = Approval"
  shows "plugin_untouched env now ctx raw args opts s"
proof (rule ccontr)
  assume "\<not> plugin_untouched env now ctx raw args opts s"
  then show False by (rule reaches_plugin) (use assms in simp)
qed

text \<open>The pending result: which operation it names.\<close>

fun held_operation :: "tool_result option \<Rightarrow> string option" where
  "held_operation (Some (Result_Pending oid _ _ _ _)) = Some oid"
| "held_operation _ = None"

lemma held_operation_answer [simp]: "held_operation (Some (pending_answer env ctx t oid merged ex ttl)) = Some oid"
  by (simp add: pending_answer_def Let_def)

text \<open>What a hold leaves: the operation it names is pending a decision on this very call.\<close>

definition waits_for_a_person :: "call_context \<Rightarrow> string \<Rightarrow> hold_request \<Rightarrow> store \<Rightarrow> tool_result option \<times> store \<Rightarrow> bool" where
  "waits_for_a_person ctx oid h s out \<longleftrightarrow> (case out of (res, s') \<Rightarrow>
     \<exists>held r. held_operation res = Some held \<and> r \<in> set (approvals s') \<and> is_approval (cc_tenant ctx) held r
      \<and> ap_state (ar_record r) = APending \<and> same_call h (ar_record r)
      \<and> (if held = oid
         then approvals s' = approvals s @ [r] \<and> ap_request (ar_record r) = hr_request h
           \<and> map_option op_status (get_op (cc_tenant ctx) oid s') = Some OPending
         else approvals s' = approvals s \<and> map_option op_status (get_op (cc_tenant ctx) oid s') = Some OCancelled))"

lemma hold_created:
  assumes "fresh_call env ctx opts s" and "approval_of (cc_tenant ctx) (operation_id env ctx opts) s = None"
    and "h = hold_of env now ctx (operation_id env ctx opts) raw opts t c"
    and "find (same_call h) (map mapApproval (order_by (\<lambda>r. ap_created (ar_record r)) (filter (live_hold now h) (approvals s)))) = None"
  shows "waits_for_a_person ctx (operation_id env ctx opts) h s
    (hold_call env now ctx (operation_id env ctx opts) raw opts t c (recorded env now ctx opts t s))"
proof -
  let ?oid = "operation_id env ctx opts" and ?s1 = "recorded env now ctx opts t s" and ?r = "new_approval now h"
  have hit: "is_approval (cc_tenant ctx) ?oid ?r" "ap_state (ar_record ?r) = APending" "same_call h (ar_record ?r)"
    "ap_request (ar_record ?r) = hr_request h"
    by (simp_all add: is_approval_def new_approval_def assms(3) hold_of_def same_call_def j_def)
  have "\<not> has_row (is_approval (cc_tenant ctx) ?oid) (approvals s)"
    using assms(2) by (simp add: approval_of_def has_row_get_row)
  then have "holdApproval now h (same_call h) ?s1 = (Created, ?s1\<lparr>approvals := approvals s @ [?r]\<rparr>)"
    using assms(4) by (simp add: holdApproval_def insert_ignore_def) (simp add: assms(3) hold_of_def)
  then have "hold_call env now ctx ?oid raw opts t c ?s1 = (Some (pending_answer env ctx t ?oid False (hr_expires h)
      (if hr_expires h = None then None else Some (ge_ttl env))), ?s1\<lparr>approvals := approvals s @ [?r]\<rparr>)"
    unfolding hold_call_def Let_def assms(3) by simp
  moreover obtain op where "get_op (cc_tenant ctx) ?oid ?s1 = Some op" and "op_status op = OPending"
    by (rule fresh_recorded [OF assms(1)])
  then have "map_option op_status (get_op (cc_tenant ctx) ?oid (?s1\<lparr>approvals := approvals s @ [?r]\<rparr>)) = Some OPending"
    by (simp add: get_op_def)
  ultimately show ?thesis using hit by (auto simp: waits_for_a_person_def)
qed

lemma found_hold:
  assumes "find same (map mapApproval (order_by key (filter (live_hold now h) rows))) = Some a"
  obtains r where "r \<in> set rows" and "live_hold now h r" and "a = ar_record r" and "same a"
proof -
  from assms obtain i where "i < length (order_by key (filter (live_hold now h) rows))"
    and "a = ar_record (order_by key (filter (live_hold now h) rows) ! i)" "same a"
    by (auto simp: find_Some_iff mapApproval_def)
  moreover from this have "order_by key (filter (live_hold now h) rows) ! i \<in> set (order_by key (filter (live_hold now h) rows))"
    by (intro nth_mem)
  ultimately show ?thesis by (intro that) auto
qed

lemma hold_merged:
  assumes "fresh_call env ctx opts s" and "approval_of (cc_tenant ctx) (operation_id env ctx opts) s = None"
    and "h = hold_of env now ctx (operation_id env ctx opts) raw opts t c"
    and f: "find (same_call h) (map mapApproval (order_by (\<lambda>r. ap_created (ar_record r)) (filter (live_hold now h) (approvals s)))) = Some a"
  shows "waits_for_a_person ctx (operation_id env ctx opts) h s
    (hold_call env now ctx (operation_id env ctx opts) raw opts t c (recorded env now ctx opts t s))"
proof -
  let ?oid = "operation_id env ctx opts" and ?s1 = "recorded env now ctx opts t s"
  from f obtain r where r: "r \<in> set (approvals s)" "live_hold now h r" "a = ar_record r" and sc: "same_call h a"
    by (rule found_hold)
  have st: "ap_state a = APending" "ap_tenant a = cc_tenant ctx" using r(2,3) by (simp_all add: live_hold_def assms(3) hold_of_def)
  have ne: "ap_operation a \<noteq> ?oid"
    using assms(2) r(1,3) st(2) by (auto simp: approval_of_def get_row_None_iff is_approval_def)
  have "holdApproval now h (same_call h) ?s1 = (Existing a, ?s1)" using f by (simp add: holdApproval_def)
  then have i: "hold_call env now ctx ?oid raw opts t c ?s1 = complete_then env now ctx ?oid OCancelled
      (Some (JObj [(''mergedInto'', JStr (ap_operation a))])) (Some (call_facts opts))
      (pending_answer env (ctx\<lparr>cc_task := ap_task a\<rparr>) t (ap_operation a) True (ap_expires a)
         (map_option (\<lambda>e. e - ap_created a) (ap_expires a))) ?s1"
    unfolding hold_call_def Let_def assms(3) by simp
  obtain s' where c: "complete env now ctx ?oid OCancelled (Some (JObj [(''mergedInto'', JStr (ap_operation a))])) (Some (call_facts opts)) ?s1 = Inr s'"
    and s': "approvals s' = approvals s" "map_option op_status (get_op (cc_tenant ctx) ?oid s') = Some OCancelled"
    by (rule fresh_completes [OF assms(1)])
  have "r \<in> set (approvals s')" "is_approval (cc_tenant ctx) (ap_operation a) r" "ap_state (ar_record r) = APending" "same_call h (ar_record r)"
    using r st sc s'(1) by (simp_all add: is_approval_def)
  then show ?thesis
    unfolding i complete_then_def c sum.case waits_for_a_person_def prod.case held_operation_answer
    using ne s' by (intro exI [of _ "ap_operation a"] exI [of _ r]) simp
qed

text \<open>
  A held call waits, once. A call a person must approve reaches no plugin. It is answered with the operation of a hold that is
  pending, for the same agent, mount, tool, arguments and route: its own, recorded with the call's request and its operation pending,
  or one that was waiting for the very same call already, and then the call's own operation ends as cancelled and no hold is added.
\<close>

theorem a_held_call_waits_once:
  assumes "fresh_call env ctx opts s" and "admit_call env ctx raw opts s = Inr t" and "classify_call env t args = Inr c"
    and "verdict_of opts (decided_by_policy t c) = Approval" and "\<not> ts_model_only (ta_schema t)"
    and "approval_of (cc_tenant ctx) (operation_id env ctx opts) s = None"
  shows "plugin_untouched env now ctx raw args opts s
    \<and> waits_for_a_person ctx (operation_id env ctx opts) (hold_of env now ctx (operation_id env ctx opts) raw opts t c) s
        (invoke env now ctx raw args opts s)"
proof
  show "plugin_untouched env now ctx raw args opts s" by (rule held_reaches_nothing [OF assms(2,3,4)])
  let ?h = "hold_of env now ctx (operation_id env ctx opts) raw opts t c"
  show "waits_for_a_person ctx (operation_id env ctx opts) ?h s (invoke env now ctx raw args opts s)"
    unfolding invoke_holds [OF assms(2) fresh_no_repeat [OF assms(1)] assms(3-5), of now]
    by (cases "find (same_call ?h) (map mapApproval (order_by (\<lambda>r. ap_created (ar_record r)) (filter (live_hold now ?h) (approvals s))))")
      (rule hold_created [OF assms(1,6) refl], assumption, rule hold_merged [OF assms(1,6) refl], assumption)
qed
lemma gw_store_tables: "approvals (gw_store d sealed) = []" "plugin_choices (gw_store d sealed) = []"
  by (simp_all add: gw_store_def log_example_def createTask_def insert_row_def init_store_def putSnapshot_def has_row_iff)

lemma gw_classify: "classify_call gw_env (gw_taken d sealed) args
    = Inr \<lparr>ca_route = None, ca_kept = args, ca_key = No_Key, ca_side = Writes\<rparr>"
  by (simp add: classify_call_def gw_taken_def gw_plugin_def refusalOf_def policyKeyOf_def callSideEffects_def)

lemma gw_decides: "decided_by_policy (gw_taken d sealed) \<lparr>ca_route = None, ca_kept = args, ca_key = No_Key, ca_side = Writes\<rparr> = d"
proof -
  have "policyFor (read_policy (Some (gw_policy Allow))) ''send'' Writes None = Allow" by code_simp
  moreover have "policyFor (read_policy (Some (gw_policy Approval))) ''send'' Writes None = Approval" by code_simp
  moreover have "policyFor (read_policy (Some (gw_policy Deny))) ''send'' Writes None = Deny" by code_simp
  ultimately have "policyFor (read_policy (Some (gw_policy d))) ''send'' Writes None = d" by (cases d) simp_all
  then show ?thesis by (simp add: decided_by_policy_def Let_def gw_taken_def gw_mount_def gw_plugin_def)
qed

theorem a_held_call_waits_once_witness:
  "waits_for_a_person gw_ctx ''op_t|k|key'' (hold_of gw_env 5 gw_ctx ''op_t|k|key'' ''m.send'' gw_opts (gw_taken Approval None)
      \<lparr>ca_route = None, ca_kept = JNull, ca_key = No_Key, ca_side = Writes\<rparr>) (gw_store Approval None)
    (invoke gw_env 5 gw_ctx ''m.send'' JNull gw_opts (gw_store Approval None))"
proof -
  have i: "operation_id gw_env gw_ctx gw_opts = ''op_t|k|key''" by code_simp
  have a: "admit_call gw_env gw_ctx ''m.send'' gw_opts (gw_store Approval None) = Inr (gw_taken Approval None)"
    by (rule gw_admit) (simp_all add: gw_store_tables)
  have v: "verdict_of gw_opts (decided_by_policy (gw_taken Approval None) \<lparr>ca_route = None, ca_kept = JNull, ca_key = No_Key, ca_side = Writes\<rparr>) = Approval"
    by (simp add: gw_decides verdict_of_def gw_opts_def)
  have m: "\<not> ts_model_only (ta_schema (gw_taken Approval None))" by (simp add: gw_taken_def)
  have n: "approval_of (cc_tenant gw_ctx) (operation_id gw_env gw_ctx gw_opts) (gw_store Approval None) = None"
    by (simp add: approval_of_def gw_store_tables)
  from a_held_call_waits_once [OF gw_fresh a gw_classify v m n, of 5] show ?thesis unfolding i by blast
qed

theorem nothing_lifts_a_refusal_witness:
  "verdict_of (gw_opts\<lparr>io_approved := True\<rparr>)
     (decided_by_policy (gw_taken Deny None) \<lparr>ca_route = None, ca_kept = JNull, ca_key = No_Key, ca_side = Writes\<rparr>) = Deny"
proof -
  have "decided_by_policy (gw_taken Deny None) \<lparr>ca_route = None, ca_kept = JNull, ca_key = No_Key, ca_side = Writes\<rparr> = Deny" by (rule gw_decides)
  with nothing_lifts_a_refusal [of "gw_taken Deny None" "\<lparr>ca_route = None, ca_kept = JNull, ca_key = No_Key, ca_side = Writes\<rparr>" "gw_opts\<lparr>io_approved := True\<rparr>"]
  show ?thesis by blast
qed

section \<open>Two ways a call is left hanging\<close>

text \<open>
  A refused key is told it waits. A keyed call whose earlier attempt ended rejected (its hold expired, say) and whose hold is decided
  is held again when it is repeated, but the row of its hold is already there: nothing is inserted, the model is told that its call is
  held for approval, and no hold a person could decide exists.
\<close>

theorem a_refused_key_is_told_it_waits:
  assumes "admit_call env ctx raw opts s = Inr t" and "classify_call env t args = Inr c"
    and "verdict_of opts (decided_by_policy t c) = Approval" and "\<not> ts_model_only (ta_schema t)"
    and "map_option op_status (get_op (cc_tenant ctx) (operation_id env ctx opts) s) = Some ORejected"
    and "approval_of (cc_tenant ctx) (operation_id env ctx opts) s \<noteq> None"
    and "\<And>r. r \<in> set (approvals s) \<Longrightarrow> ap_state (ar_record r) \<noteq> APending"
  shows "held_operation (fst (invoke env now ctx raw args opts s)) = Some (operation_id env ctx opts)
    \<and> (\<forall>r\<in>set (approvals (snd (invoke env now ctx raw args opts s))). ap_state (ar_record r) \<noteq> APending)"
proof -
  let ?oid = "operation_id env ctx opts" and ?s1 = "recorded env now ctx opts t s"
  let ?h = "hold_of env now ctx ?oid raw opts t c"
  have "\<not> repeats env ctx opts t s" using assms(5) by (auto simp: repeats_def began_def)
  note i = invoke_holds [OF assms(1) this assms(2-4), of now]
  have none: "filter (live_hold now ?h) (approvals s) = []" using assms(7) by (auto simp: filter_empty_conv live_hold_def)
  have "has_row (is_approval (cc_tenant ctx) ?oid) (approvals s)" using assms(6) by (simp add: approval_of_def has_row_get_row)
  then have "holdApproval now ?h (same_call ?h) ?s1 = (Created, ?s1\<lparr>approvals := approvals s\<rparr>)"
    by (simp add: holdApproval_def none order_by_def insert_ignore_def) (simp add: hold_of_def)
  then have "invoke env now ctx raw args opts s = (Some (pending_answer env ctx t ?oid False (hr_expires ?h)
      (if hr_expires ?h = None then None else Some (ge_ttl env))), ?s1\<lparr>approvals := approvals s\<rparr>)"
    unfolding i hold_call_def Let_def by simp
  then show ?thesis using assms(7) by simp
qed

definition gw_expired :: store where
  "gw_expired = (gw_store Approval None)\<lparr>
     operations := [\<lparr>op_id = ''op_t|k|key'', op_tenant = ''t'', op_agent = ''a'', op_task = ''k'', op_mount = ''m'', op_tool = ''mail.send'',
       op_version = ''1'', op_status = ORejected, op_result_ref = None, op_created = 1, op_updated = 2, op_model_name = None\<rparr>],
     approvals := [(new_approval 1 (hold_example\<lparr>hr_operation := ''op_t|k|key''\<rparr>))
       \<lparr>ar_record := set_decision DExpired ''expiry'' 2 None (ar_record (new_approval 1 (hold_example\<lparr>hr_operation := ''op_t|k|key''\<rparr>)))\<rparr>]\<rparr>"

theorem a_refused_key_is_told_it_waits_witness:
  "held_operation (fst (invoke gw_env 500 gw_ctx ''m.send'' JNull gw_opts gw_expired)) = Some ''op_t|k|key''"
proof -
  have i: "operation_id gw_env gw_ctx gw_opts = ''op_t|k|key''" by code_simp
  have a: "admit_call gw_env gw_ctx ''m.send'' gw_opts gw_expired = Inr (gw_taken Approval None)"
    by (rule gw_admit) (simp_all add: gw_expired_def gw_store_tables)
  have v: "verdict_of gw_opts (decided_by_policy (gw_taken Approval None) \<lparr>ca_route = None, ca_kept = JNull, ca_key = No_Key, ca_side = Writes\<rparr>) = Approval"
    by (simp add: gw_decides verdict_of_def gw_opts_def)
  have m: "\<not> ts_model_only (ta_schema (gw_taken Approval None))" by (simp add: gw_taken_def)
  have "map_option op_status (get_op (cc_tenant gw_ctx) (operation_id gw_env gw_ctx gw_opts) gw_expired) = Some ORejected"
    unfolding i by (simp add: gw_expired_def get_op_def is_operation_def gw_ctx_def)
  moreover have "approval_of (cc_tenant gw_ctx) (operation_id gw_env gw_ctx gw_opts) gw_expired \<noteq> None"
    unfolding i by (simp add: gw_expired_def approval_of_def is_approval_def gw_ctx_def new_approval_def hold_example_def set_decision_def)
  moreover have "\<And>r. r \<in> set (approvals gw_expired) \<Longrightarrow> ap_state (ar_record r) \<noteq> APending"
    by (simp add: gw_expired_def set_decision_def)
  ultimately show ?thesis
    using a_refused_key_is_told_it_waits [OF a gw_classify v m, of 500] unfolding i by blast
qed

text \<open>
  An unreadable credential leaves the call pending. The credential is read after the operation was recorded and before the attempt is
  taken, outside the code that ends it: when reading it throws, the call throws with its operation pending for ever, and a write under
  its key is refused from then on as one that may have begun.
\<close>

theorem an_unreadable_credential_leaves_it_pending:
  assumes "fresh_call env ctx opts s" and "admit_call env ctx raw opts s = Inr t" and "classify_call env t args = Inr c"
    and "verdict_of opts (decided_by_policy t c) = Allow" and "truthy (mt_secret (ta_mount t))" and "ge_credential env (ta_mount t) = None"
    and "truthy (io_key opts)" and "ts_side (ta_schema t) = Writes"
  shows "fst (invoke env now ctx raw args opts s) = None
    \<and> map_option op_status (get_op (cc_tenant ctx) (operation_id env ctx opts) (snd (invoke env now ctx raw args opts s))) = Some OPending
    \<and> repeats env ctx opts t (snd (invoke env now ctx raw args opts s))"
proof -
  have i: "invoke env now ctx raw args opts s = (None, recorded env now ctx opts t s)"
    unfolding invoke_admitted [OF assms(2) fresh_no_repeat [OF assms(1)]] Let_def assms(3,4) sum.case policy_decision.case
    by (rule run_step_no_credential [OF assms(5,6)])
  obtain op where "get_op (cc_tenant ctx) (operation_id env ctx opts) (recorded env now ctx opts t s) = Some op" and "op_status op = OPending"
    by (rule fresh_recorded [OF assms(1)])
  with assms(7,8) show ?thesis by (simp add: i repeats_def began_def)
qed

theorem an_unreadable_credential_leaves_it_pending_witness:
  "fst (invoke gw_env 5 gw_ctx ''m.send'' JNull gw_opts (gw_store Allow (Some ''key''))) = None"
proof -
  have a: "admit_call gw_env gw_ctx ''m.send'' gw_opts (gw_store Allow (Some ''key'')) = Inr (gw_taken Allow (Some ''key''))"
    by (rule gw_admit) (simp_all add: gw_store_tables)
  have v: "verdict_of gw_opts (decided_by_policy (gw_taken Allow (Some ''key'')) \<lparr>ca_route = None, ca_kept = JNull, ca_key = No_Key, ca_side = Writes\<rparr>) = Allow"
    by (simp add: gw_decides verdict_of_def gw_opts_def)
  have "truthy (mt_secret (ta_mount (gw_taken Allow (Some ''key''))))" "ge_credential gw_env (ta_mount (gw_taken Allow (Some ''key''))) = None"
    "truthy (io_key gw_opts)" "ts_side (ta_schema (gw_taken Allow (Some ''key''))) = Writes"
    by (simp_all add: gw_taken_def gw_mount_def gw_env_def gw_opts_def truthy_def)
  from an_unreadable_credential_leaves_it_pending [OF gw_fresh a gw_classify v this, of 5] show ?thesis by blast
qed

end
