(* ===== verification/Gateway_Approvals.thy ===== *)
theory Gateway_Approvals
  imports Gateway_Calls Idle_Lease
begin

text \<open>
  What becomes of a held call once somebody decides, or nobody does: the decision and its notice (\<open>applyApproval\<close>,
  \<open>expireApproval\<close>, \<open>expireDue\<close>), the run of an approved call (\<open>runApproved\<close>, \<open>settleApproved\<close>) of
  \<open>src/src/runtime/gateway.ts\<close>, the words of \<open>src/src/runtime/approval-notice.ts\<close>, and the pass that does all three and tells the
  agent (\<open>#approvalPass\<close>, \<open>#tellApprovals\<close> of \<open>cf/src/runtime.ts\<close>). The lemmas show that a due hold does not outlive a pass, that a
  run that began ends its hold, that the card shows nothing a call gave back, that a decision is told once, and what the code
  records of an approved call that goes on in the background.
\<close>

section \<open>The words\<close>

definition NOTICE_RESULT_MAX :: nat where "NOTICE_RESULT_MAX = 1500"

definition deciderWords :: "decided_by option \<Rightarrow> string option \<Rightarrow> string" where
  "deciderWords by_whom approver =
     (case by_whom of
        Some (ByRaft _ role) \<Rightarrow>
          if role = ''agent_owner'' then ''your owner in Raft''
          else if role = ''server_owner'' then ''the Raft server'' @ [CHR 0x27] @ ''s owner'' else ''a Raft server admin''
      | Some (ByConsole who) \<Rightarrow> who @ '' on the antiproton console''
      | _ \<Rightarrow> if truthy approver then the approver else ''a person'')"

definition bounded_text :: "string \<Rightarrow> string" where
  "bounded_text t =
     (if NOTICE_RESULT_MAX < length t
      then take NOTICE_RESULT_MAX t @ [ellipsis] @ '' ('' @ show_int (int (length t - NOTICE_RESULT_MAX)) @ '' more characters not shown)''
      else t)"

fun bounded :: "json \<Rightarrow> string" where
  "bounded (JStr t) = bounded_text t"
| "bounded v = bounded_text (stringify v)"

definition notice_head :: "approval_record \<Rightarrow> string \<Rightarrow> string" where
  "notice_head a what = ''[approval '' @ ap_operation a @ '' '' @ [em_dash] @ '' '' @ ap_mount a @ ''.'' @ ap_tool a @ '' '' @ [em_dash] @ '' '' @ what
     @ ''; a notice from the harness, not a message from the user]''"

fun ended_text :: "ended_how \<Rightarrow> string" where
  "ended_text Ended_Failed = ''failed''"
| "ended_text Ended_Cancelled = ''cancelled''"
| "ended_text Ended_Unknown = ''unknown''"

fun result_status :: "tool_result \<Rightarrow> string" where
  "result_status (Result_Succeeded _ _) = ''succeeded''"
| "result_status (Result_Pending _ _ _ _ _) = ''pending''"
| "result_status (Result_Running _ _ _ _ _) = ''running''"
| "result_status (Result_Ended how _ _) = ended_text how"
| "result_status (Result_Rejected _) = ''rejected''"
| "result_status (Result_Interrupted _ _) = ''interrupted''"

fun result_error :: "tool_result \<Rightarrow> tool_error option" where
  "result_error (Result_Pending _ _ _ _ e) = Some e"
| "result_error (Result_Ended _ _ e) = Some e"
| "result_error (Result_Rejected e) = Some e"
| "result_error _ = None"

text \<open>What Raft's card shows of the run: its status, a code, and the reason a call asked before acting.\<close>

definition outcome_code :: "tool_result \<Rightarrow> string" where
  "outcome_code r =
     (let raw = (case result_error r of None \<Rightarrow> [] | Some e \<Rightarrow> te_code e) in
      if is_error_code raw then raw else if raw \<noteq> [] then ''error'' else ''no error given'')"

definition approvalOutcome :: "tool_result \<Rightarrow> string option \<Rightarrow> run_end \<times> string" where
  "approvalOutcome r reason =
     (if result_status r = ''succeeded'' then (RunExecuted, ''succeeded; the result went to the agent'')
      else if result_status r = ''running'' then (RunExecuted, ''started in the background; its result goes to the agent when it ends'')
      else if outcome_code r = ''asked_before_acting''
      then (RunFailed, result_status r @ '': asked_before_acting''
             @ (case reason of None \<Rightarrow> [] | Some why \<Rightarrow> if why \<noteq> [] \<and> is_error_code why then '' ('' @ why @ '')'' else [])
             @ ''; nothing was done'')
      else (RunFailed, result_status r @ '': '' @ outcome_code r))"

definition error_words :: "tool_result \<Rightarrow> string" where
  "error_words r = (case result_error r of None \<Rightarrow> ''no error was given'' | Some e \<Rightarrow> te_code e @ '': '' @ te_message e)"

definition approvedNotice :: "approval_record \<Rightarrow> tool_result \<Rightarrow> string" where
  "approvedNotice a r =
     (let who = deciderWords (ap_decided_by a) (ap_approver a) in
      case r of
        Result_Succeeded _ v \<Rightarrow> notice_head a (''approved by '' @ who @ '' and run: succeeded'') @ [NL] @ bounded v
      | Result_Running _ _ _ _ _ \<Rightarrow> notice_head a (''approved by '' @ who @ '' and started in the background'') @ [NL]
          @ ''Its result arrives in a notice of its own when it ends.''
      | _ \<Rightarrow>
          if result_status r = ''rejected'' \<or> result_status r = ''cancelled''
          then notice_head a (''approved by '' @ who @ '', but not run: '' @ result_status r) @ [NL] @ bounded_text (error_words r)
          else notice_head a (''approved by '' @ who @ '' and run: '' @ result_status r) @ [NL] @ bounded_text (error_words r))"

definition deniedNotice :: "approval_record \<Rightarrow> string" where
  "deniedNotice a = notice_head a (''denied by '' @ deciderWords (ap_decided_by a) (ap_approver a)) @ [NL]
     @ ''Nothing was run. Do not call it again unless the person asks you to.''"

definition expiredNotice :: "(int \<Rightarrow> string) \<Rightarrow> approval_record \<Rightarrow> string" where
  "expiredNotice date_text a =
     (let span = (case ap_expires a of None \<Rightarrow> None
            | Some e \<Rightarrow> let ms = e - ap_created a in
                Some (if 3600000 \<le> ms then show_int (round_div ms 3600000) @ '' hours'' else show_int (max 1 (round_div ms 60000)) @ '' minutes''));
          within = (case span of None \<Rightarrow> [] | Some t \<Rightarrow> '' within '' @ t);
          again = ''If it still matters you may call it again, which asks for a new approval.'';
          what = (case map_option dl_outcome (ap_delivery a) of
              Some Delivered \<Rightarrow> ''It reached an approver, but nobody decided'' @ within @ '', so it expired and nothing was run. '' @ again
            | Some NoRecipient \<Rightarrow> ''It never reached any approver, because Raft had nobody to send it to, so it expired''
                @ (case span of None \<Rightarrow> [] | Some t \<Rightarrow> '' after '' @ t) @ '' and nothing was run. '' @ again
                @ '' That one reaches nobody either unless Raft has someone to send it to by then.''
            | None \<Rightarrow> ''Nobody decided'' @ within @ '', so it expired and nothing was run; whether it reached an approver is not known. '' @ again) in
      notice_head a ''expired'' @ [NL] @ ''You made this call at '' @ date_text (ap_created a) @ ''. '' @ what)"

definition approval_state_text :: "approval_state \<Rightarrow> string" where
  "approval_state_text st = (case st of APending \<Rightarrow> ''pending'' | AApproved \<Rightarrow> ''approved'' | ADenied \<Rightarrow> ''denied'' | AExpired \<Rightarrow> ''expired''
     | AExecuted \<Rightarrow> ''executed'' | AFailed \<Rightarrow> ''failed'')"

definition unknownOutcomeNotice :: "approval_record \<Rightarrow> string" where
  "unknownOutcomeNotice a = notice_head a (approval_state_text (ap_state a) @ '' by '' @ deciderWords (ap_decided_by a) (ap_approver a)) @ [NL]
     @ (if ap_state a = AApproved then ''It was run, but its result was not recorded; check before calling it again.'' else ''Nothing was run.'')"
section \<open>Deciding\<close>

definition error_json :: "tool_error \<Rightarrow> json" where
  "error_json e = JObj ([(''code'', JStr (te_code e)), (''message'', JStr (te_message e))]
     @ (if te_candidates e = [] then [] else [(''candidates'', JArr (map JStr (te_candidates e)))])
     @ opt_member ''authorizationUrl'' (map_option JStr (te_url e))
     @ opt_member ''identity'' (te_identity e) @ opt_member ''credentialRef'' (te_credential e))"

definition text_or_null :: "string option \<Rightarrow> json" where
  "text_or_null t = (case t of None \<Rightarrow> JNull | Some x \<Rightarrow> JStr x)"

text \<open>A result as the completion keeps it. A question never reaches a completion: it is ended as cancelled before.\<close>

fun result_json :: "tool_result \<Rightarrow> json" where
  "result_json (Result_Succeeded oid v) = JObj [(''status'', JStr ''succeeded''), (''operationId'', JStr oid), (''result'', v)]"
| "result_json (Result_Pending oid d e u err) = JObj [(''status'', JStr ''pending''), (''operationId'', JStr oid), (''decider'', text_or_null d),
     (''expires'', case e of None \<Rightarrow> JNull | Some t \<Rightarrow> JNum t), (''url'', text_or_null u), (''error'', error_json err)]"
| "result_json (Result_Running oid al tool h note) = JObj [(''status'', JStr ''running''), (''operationId'', JStr oid),
     (''background'', JObj ([(''alias'', JStr al), (''tool'', JStr tool), (''handle'', h)] @ opt_member ''note'' (map_option JStr note)))]"
| "result_json (Result_Ended how oid err) = JObj [(''status'', JStr (ended_text how)), (''operationId'', JStr oid), (''error'', error_json err)]"
| "result_json (Result_Rejected err) = JObj [(''status'', JStr ''rejected''), (''error'', error_json err)]"
| "result_json (Result_Interrupted oid _) = JObj [(''status'', JStr ''interrupted''), (''operationId'', JStr oid)]"

datatype applied = Not_Applied string "approval_record option" | Applied bool "tool_result option" approval_record

text \<open>A hold past its deadline ends expired. \<open>None\<close>: the completion threw.\<close>

definition expired_result :: json where
  "expired_result = JObj [(''status'', JStr ''rejected''), (''error'', JObj [(''code'', JStr ''approval_expired''),
     (''message'', JStr ''nobody decided this held call before it expired, so it was not run'')])]"

fun problem_text :: "decision_problem \<Rightarrow> string" where
  "problem_text AlreadyDecided = ''already_decided''"
| "problem_text PastDeadline = ''expired''"
| "problem_text NotDue = ''not_due''"

definition ctx_of_hold :: "string \<Rightarrow> approval_record \<Rightarrow> call_context" where
  "ctx_of_hold tenant a = \<lparr>cc_tenant = tenant, cc_agent = ap_agent a, cc_task = ap_task a\<rparr>"

definition tenant_ctx :: "string \<Rightarrow> call_context" where
  "tenant_ctx tenant = \<lparr>cc_tenant = tenant, cc_agent = [], cc_task = []\<rparr>"

lemma cc_tenant_ctx [simp]: "cc_tenant (tenant_ctx tn) = tn"
  by (simp add: tenant_ctx_def)

definition expireApproval :: "gateway_env \<Rightarrow> int \<Rightarrow> string \<Rightarrow> string \<Rightarrow> store \<Rightarrow> (bool \<times> string \<times> approval_record option) option \<times> store" where
  "expireApproval env now tenant operation s =
     (let notice = map_option (expiredNotice (ge_iso env)) (getApproval tenant operation s) in
      case decideApproval now tenant operation DExpired ''expiry'' (Some ByExpiry) notice s of
        (NotFound, s1) \<Rightarrow> (Some (False, ''not_found'', None), s1)
      | (Undecided problem a, s1) \<Rightarrow> (Some (False, problem_text problem, Some a), s1)
      | (Decided a, s1) \<Rightarrow>
          (case complete env now (tenant_ctx tenant) operation ORejected (Some expired_result) (Some no_facts) s1 of
             Inl _ \<Rightarrow> (None, s1)
           | Inr s2 \<Rightarrow> (Some (True, [], Some a), s2)))"

text \<open>The holds whose deadline has passed, one after another; a throw ends the loop.\<close>

fun expire_all :: "gateway_env \<Rightarrow> int \<Rightarrow> string \<Rightarrow> approval_record list \<Rightarrow> store \<Rightarrow> string list option \<times> store" where
  "expire_all env now tenant [] s = (Some [], s)"
| "expire_all env now tenant (a # as) s =
     (case expireApproval env now tenant (ap_operation a) s of
        (None, s1) \<Rightarrow> (None, s1)
      | (Some (ok, _, _), s1) \<Rightarrow>
          (case expire_all env now tenant as s1 of
             (None, s2) \<Rightarrow> (None, s2)
           | (Some done_ids, s2) \<Rightarrow> (Some (if ok then ap_operation a # done_ids else done_ids), s2)))"

definition is_due :: "int \<Rightarrow> approval_record \<Rightarrow> bool" where
  "is_due now a \<longleftrightarrow> (case ap_expires a of None \<Rightarrow> False | Some e \<Rightarrow> e \<le> now)"

definition expireDue :: "gateway_env \<Rightarrow> int \<Rightarrow> string \<Rightarrow> store \<Rightarrow> string list option \<times> store" where
  "expireDue env now tenant s = expire_all env now tenant (filter (is_due now) (listApprovals tenant (Some APending) s)) s"

definition approvalDeadline :: "string \<Rightarrow> store \<Rightarrow> int option" where
  "approvalDeadline tenant s =
     fold (\<lambda>a soonest. case ap_expires a of
         None \<Rightarrow> soonest
       | Some e \<Rightarrow> (case soonest of None \<Rightarrow> Some e | Some x \<Rightarrow> if e < x then Some e else Some x))
       (listApprovals tenant (Some APending) s) None"

section \<open>Running an approved call\<close>

text \<open>\<open>cancelInterrupt\<close>: what it throws, and a credential it cannot read, change nothing.\<close>

definition cancelInterrupt :: "gateway_env \<Rightarrow> call_context \<Rightarrow> tool_interrupt \<Rightarrow> store \<Rightarrow> store" where
  "cancelInterrupt env ctx i s =
     (case getMountByAlias (cc_tenant ctx) (cc_agent ctx) (ti_alias i) s of
        None \<Rightarrow> s
      | Some m \<Rightarrow>
          (case ge_plugins env (mt_plugin m) of
             None \<Rightarrow> s
           | Some p \<Rightarrow>
               if \<not> pg_interrupts p then s
               else if truthy (mt_secret m) \<and> ge_credential env m = None then s
               else ge_cancel env m (ti_tool i) (ti_state i) s))"

definition replay_opts :: "string \<Rightarrow> invoke_opts" where
  "replay_opts operation = \<lparr>io_key = None, io_approved = True, io_operation = Some operation, io_confirm = False, io_call = None, io_offered = [],
     io_program = False\<rparr>"

fun with_operation :: "string \<Rightarrow> tool_result \<Rightarrow> tool_result" where
  "with_operation oid (Result_Succeeded _ v) = Result_Succeeded oid v"
| "with_operation oid (Result_Pending _ d e u err) = Result_Pending oid d e u err"
| "with_operation oid (Result_Running _ al tool h note) = Result_Running oid al tool h note"
| "with_operation oid (Result_Ended how _ err) = Result_Ended how oid err"
| "with_operation oid (Result_Rejected e) = Result_Rejected e"
| "with_operation oid (Result_Interrupted q i) = Result_Interrupted q i"

definition str_of :: "json option \<Rightarrow> string" where
  "str_of v = (case v of Some (JStr t) \<Rightarrow> t | _ \<Rightarrow> [])"

definition unread_model_only :: "gateway_env \<Rightarrow> call_context \<Rightarrow> string \<Rightarrow> store \<Rightarrow> (mount_record \<times> string) option" where
  "unread_model_only env ctx tool s =
     (case resolve ctx tool s of
        Inl _ \<Rightarrow> None
      | Inr (m, name) \<Rightarrow>
          (case ge_plugins env (mt_plugin m) of
             None \<Rightarrow> None
           | Some p \<Rightarrow>
               (case find (\<lambda>t. ts_name t = name) (toolsOf p m) of
                  Some sc \<Rightarrow> if ts_model_only sc then Some (m, name) else None
                | None \<Rightarrow> None)))"

definition not_run_unread :: "string \<Rightarrow> mount_record \<times> string \<Rightarrow> tool_result" where
  "not_run_unread oid mt = Result_Ended Ended_Cancelled oid (tool_err ''not_from_a_program''
     (''approved, but '' @ mt_alias (fst mt) @ ''.'' @ snd mt @ '' was not run: its result only counts once the agent reads it, ''
      @ ''and an approved call runs with nobody reading it. For the agent to use it, the mount'' @ [CHR 0x27] @ ''s policy has to let it call it without approval.''))"

definition asked_reason :: "tool_interrupt \<Rightarrow> string option" where
  "asked_reason i = (case ti_context i of Some c \<Rightarrow> (case member_of ''reason'' c of Some (JStr t) \<Rightarrow> Some t | _ \<Rightarrow> None) | None \<Rightarrow> None)"

definition asked_before_acting :: "bool \<Rightarrow> string \<Rightarrow> tool_interrupt \<Rightarrow> tool_result" where
  "asked_before_acting answered oid i =
     (let reason = (case asked_reason i of None \<Rightarrow> [] | Some t \<Rightarrow> '' ('' @ t @ '')'');
          said = (if answered
            then ''Approved, and the tool'' @ [CHR 0x27] @ ''s first question before acting was answered for you once, as the approval already decided it; ''
              @ ''it then asked again'' @ reason @ '', which could not be put to you here, so nothing was done.''
            else ''Approved, but before acting the tool asked for a decision'' @ reason @ '' that could not be put to you here, so nothing was done.'') in
      Result_Ended Ended_Cancelled oid (tool_err ''asked_before_acting''
        (said @ '' Call it again if it still applies, which asks for a new approval. The question was:'' @ [NL] @ ti_question i)))"

text \<open>A question whose answer the approval already gives is answered, once, as the plugin's own resume.\<close>

definition answered_once :: "gateway_env \<Rightarrow> int \<Rightarrow> call_context \<Rightarrow> string \<Rightarrow> tool_result \<Rightarrow> store \<Rightarrow> bool \<times> tool_result option \<times> store" where
  "answered_once env now ctx oid r s =
     (case r of
        Result_Interrupted _ i \<Rightarrow>
          (case ti_if_approved i of
             None \<Rightarrow> (False, Some r, s)
           | Some answer \<Rightarrow>
               (case resumeInterrupt env now ctx i answer None [] s of
                  (res, s1) \<Rightarrow> (True, map_option (with_operation oid) res, s1)))
      | _ \<Rightarrow> (False, Some r, s))"

definition replay_status :: "tool_result \<Rightarrow> operation_status" where
  "replay_status r = (if result_status r = ''succeeded'' then OSucceeded else if result_status r = ''rejected'' then ORejected else OFailed)"

record replayed =
  rp_executed :: bool
  rp_result :: tool_result
  rp_asked :: "string option"

text \<open>\<open>#runApproved\<close>; \<open>None\<close>: it threw.\<close>

definition replay_end :: "gateway_env \<Rightarrow> int \<Rightarrow> call_context \<Rightarrow> string \<Rightarrow> bool \<times> tool_result option \<times> store \<Rightarrow> replayed option \<times> store" where
  "replay_end env now ctx oid out =
     (case out of
        (_, None, s) \<Rightarrow> (None, s)
      | (answered, Some r, s) \<Rightarrow>
          (case r of
             Result_Interrupted _ i \<Rightarrow>
               (let s1 = cancelInterrupt env ctx i s; r' = asked_before_acting answered oid i in
                case complete env now ctx oid OCancelled (Some (result_json r')) None s1 of
                  Inl _ \<Rightarrow> (None, s1)
                | Inr s2 \<Rightarrow> (Some \<lparr>rp_executed = False, rp_result = r', rp_asked = asked_reason i\<rparr>, s2))
           | _ \<Rightarrow>
               (case complete env now ctx oid (replay_status r) (Some (result_json r)) None s of
                  Inl _ \<Rightarrow> (None, s)
                | Inr s1 \<Rightarrow> (Some \<lparr>rp_executed = True, rp_result = r, rp_asked = None\<rparr>, s1))))"

definition replay_call :: "gateway_env \<Rightarrow> int \<Rightarrow> string \<Rightarrow> string \<Rightarrow> approval_record \<Rightarrow> store \<Rightarrow> replayed option \<times> store" where
  "replay_call env now tenant oid a s =
     (let ctx = ctx_of_hold tenant a; tool = str_of (member_of ''tool'' (ap_request a)); args = j (member_of ''args'' (ap_request a)) in
      case unread_model_only env ctx tool s of
        Some mt \<Rightarrow>
          (let r = not_run_unread oid mt in
           case complete env now ctx oid OCancelled (Some (result_json r)) None s of
             Inl _ \<Rightarrow> (None, s)
           | Inr s1 \<Rightarrow> (Some \<lparr>rp_executed = False, rp_result = r, rp_asked = None\<rparr>, s1))
      | None \<Rightarrow>
          (case invoke env now ctx tool args (replay_opts oid) s of
             (None, s1) \<Rightarrow> (None, s1)
           | (Some r, s1) \<Rightarrow> replay_end env now ctx oid (answered_once env now ctx oid r s1)))"

text \<open>What a run that threw past the gateway's own handling is ended with; \<open>why\<close> is what was thrown, as text.\<close>

definition run_failed :: "string \<Rightarrow> string \<Rightarrow> replayed" where
  "run_failed oid why = \<lparr>rp_executed = False, rp_result = Result_Ended Ended_Failed oid (tool_err ''run_failed'' (take 300 why)), rp_asked = None\<rparr>"

definition runApproved :: "gateway_env \<Rightarrow> string \<Rightarrow> int \<Rightarrow> string \<Rightarrow> string \<Rightarrow> store \<Rightarrow> replayed option \<times> store" where
  "runApproved env why now tenant operation s =
     (case claimApprovalRun tenant operation now s of
        (False, s1) \<Rightarrow> (None, s1)
      | (True, s1) \<Rightarrow>
          (case getApproval tenant operation s1 of
             None \<Rightarrow> (None, s1)
           | Some a \<Rightarrow>
               (case replay_call env now tenant operation a s1 of
                  (res, s2) \<Rightarrow>
                    (let r0 = or_else res (run_failed operation why); out = approvalOutcome (rp_result r0) (rp_asked r0) in
                     (Some r0, snd (finishApproval tenant operation (fst out) (snd out) (approvedNotice a (rp_result r0)) s2))))))"

definition unrecorded_end :: string where
  "unrecorded_end = ''the run was started but its end was not recorded; whether it landed is not known''"

fun settle_all :: "gateway_env \<Rightarrow> string \<Rightarrow> int \<Rightarrow> int \<Rightarrow> string \<Rightarrow> approval_record list \<Rightarrow> nat \<Rightarrow> store \<Rightarrow> nat \<times> store" where
  "settle_all env why now stale tenant [] n s = (n, s)"
| "settle_all env why now stale tenant (a # as) n s =
     (case ap_run_at a of
        None \<Rightarrow>
          (case runApproved env why (ge_later env now) tenant (ap_operation a) s of
             (r, s1) \<Rightarrow> settle_all env why now stale tenant as (if r = None then n else n + 1) s1)
      | Some t \<Rightarrow>
          if now - t < stale then settle_all env why now stale tenant as n s
          else (case finishApproval tenant (ap_operation a) RunFailed unrecorded_end (unknownOutcomeNotice (a\<lparr>ap_state := AApproved\<rparr>)) s of
             (ok, s1) \<Rightarrow> settle_all env why now stale tenant as (if ok then n + 1 else n) s1))"

definition settleApproved :: "gateway_env \<Rightarrow> string \<Rightarrow> int \<Rightarrow> int \<Rightarrow> string \<Rightarrow> store \<Rightarrow> nat \<times> store" where
  "settleApproved env why now stale tenant s = settle_all env why now stale tenant (listApprovals tenant (Some AApproved) s) 0 s"

text \<open>A person's decision. \<open>None\<close>: a completion threw.\<close>

definition applyApproval :: "gateway_env \<Rightarrow> string \<Rightarrow> int \<Rightarrow> string \<Rightarrow> string \<Rightarrow> bool \<Rightarrow> string \<Rightarrow> decided_by option \<Rightarrow> bool \<Rightarrow> store
    \<Rightarrow> applied option \<times> store" where
  "applyApproval env why now tenant operation approve approver by_whom later s =
     (let notice = (if approve then None else map_option (\<lambda>h. deniedNotice (h\<lparr>ap_state := ADenied, ap_approver := Some approver, ap_decided_by := by_whom\<rparr>))
            (getApproval tenant operation s)) in
      case decideApproval now tenant operation (if approve then DApproved else DDenied) approver by_whom notice s of
        (NotFound, s1) \<Rightarrow> (Some (Not_Applied ''not_found'' None), s1)
      | (Undecided problem a, s1) \<Rightarrow>
          if problem = PastDeadline
          then (case expireApproval env now tenant operation s1 of
              (None, s2) \<Rightarrow> (None, s2)
            | (Some (ok, _, e), s2) \<Rightarrow> (Some (Not_Applied ''expired'' (if ok then e else Some a)), s2))
          else (Some (Not_Applied (problem_text problem) (Some a)), s1)
      | (Decided a, s1) \<Rightarrow>
          if \<not> approve
          then (case complete env now (tenant_ctx tenant) operation OCancelled (Some (JObj [(''denied'', JBool True), (''approver'', JStr approver)]))
                  (Some (no_facts\<lparr>cf_denied := True\<rparr>)) s1 of
              Inl _ \<Rightarrow> (None, s1)
            | Inr s2 \<Rightarrow> (Some (Applied False None a), s2))
          else if later then (Some (Applied False None a), s1)
          else (case runApproved env why (ge_later env now) tenant operation s1 of
              (None, s2) \<Rightarrow> (Some (Applied False None a), s2)
            | (Some r, s2) \<Rightarrow> (Some (Applied (rp_executed r) (Some (rp_result r)) a), s2)))"
section \<open>Telling the agent\<close>

definition MAIN_SESSION :: string where "MAIN_SESSION = ''main''"

definition NOTICE_GRACE_MS :: int where "NOTICE_GRACE_MS = 15 * 60000"

text \<open>
  What posting a notice comes to: it throws before the last synchronous point before the write, or it gets there and its write lands,
  is refused, or throws. \<open>tl_before\<close> is what happens to the store while the post waits. The claim, the write and the release are one
  step here: a pass that meets the claim of another skips the row.
\<close>

datatype post_end = Post_Landed | Post_Refused | Post_Threw

record tell_env =
  tl_before :: "approval_record \<Rightarrow> store \<Rightarrow> store"
  tl_post :: "approval_record \<Rightarrow> post_end option"
  tl_now :: int

record notice =
  no_operation :: string
  no_session :: string
  no_text :: string

definition notice_of :: "approval_record \<Rightarrow> string option \<Rightarrow> notice" where
  "notice_of a written =
     (let sub = isSubagentSession (ap_task a); text1 = or_else written (unknownOutcomeNotice a) in
      \<lparr>no_operation = ap_operation a, no_session = (if sub then MAIN_SESSION else ap_task a),
       no_text = (if sub then text1 @ [NL] @ ''This call was made by your subagent '' @ ap_task a @ ''.'' else text1)\<rparr>)"

definition set_told :: "string \<Rightarrow> string \<Rightarrow> int option \<Rightarrow> store \<Rightarrow> store" where
  "set_told tenant operation at_time s =
     s\<lparr>approvals := update_where (is_approval tenant operation) (\<lambda>r. r\<lparr>ar_told := at_time\<rparr>) (approvals s)\<rparr>"

text \<open>The callback at the synchronous point: \<open>True\<close> claims the row.\<close>

definition claim_told :: "string \<Rightarrow> string \<Rightarrow> int \<Rightarrow> store \<Rightarrow> bool \<times> store" where
  "claim_told tenant operation now s =
     (case approval_of tenant operation s of
        None \<Rightarrow> (False, s)
      | Some r \<Rightarrow> if ar_told r \<noteq> None then (False, s) else (True, set_told tenant operation (Some now) s))"

definition tell_one :: "tell_env \<Rightarrow> string \<Rightarrow> approval_record \<times> string option \<Rightarrow> store \<Rightarrow> notice list \<times> store" where
  "tell_one e tenant row s =
     (case row of (a, written) \<Rightarrow>
        let s1 = tl_before e a s in
        case tl_post e a of
          None \<Rightarrow> ([], s1)
        | Some post \<Rightarrow>
            (case claim_told tenant (ap_operation a) (tl_now e) s1 of
               (False, s2) \<Rightarrow> ([], s2)
             | (True, s2) \<Rightarrow>
                 if post = Post_Landed then ([notice_of a written], s2)
                 else ([], set_told tenant (ap_operation a) None s2)))"

fun tell_all :: "tell_env \<Rightarrow> string \<Rightarrow> string \<Rightarrow> (approval_record \<times> string option) list \<Rightarrow> store \<Rightarrow> notice list \<times> store" where
  "tell_all e tenant agent [] s = ([], s)"
| "tell_all e tenant agent (row # rows) s =
     (if ap_agent (fst row) \<noteq> agent then tell_all e tenant agent rows s
      else case tell_one e tenant row s of
          (said, s1) \<Rightarrow> (case tell_all e tenant agent rows s1 of (more_said, s2) \<Rightarrow> (said @ more_said, s2)))"

definition tellApprovals :: "tell_env \<Rightarrow> string \<Rightarrow> string \<Rightarrow> store \<Rightarrow> notice list \<times> store" where
  "tellApprovals e tenant agent s = tell_all e tenant agent (untoldApprovals tenant s) s"

text \<open>One pass; a throw of the expiry skips the rest.\<close>

definition approvalPass :: "gateway_env \<Rightarrow> tell_env \<Rightarrow> string \<Rightarrow> int \<Rightarrow> string \<Rightarrow> string \<Rightarrow> store \<Rightarrow> notice list \<times> store" where
  "approvalPass env e why now tenant agent s =
     (case expireDue env now tenant s of
        (None, s1) \<Rightarrow> ([], s1)
      | (Some _, s1) \<Rightarrow> tellApprovals e tenant agent (snd (settleApproved env why now NOTICE_GRACE_MS tenant s1)))"

section \<open>The card shows nothing a call gave back\<close>

lemma outcome_code_bound: "length (outcome_code r) \<le> 64"
  by (auto simp: outcome_code_def Let_def is_error_code_def)

lemma result_status_bound: "length (result_status r) \<le> 11"
proof (cases r)
  case (Result_Ended how _ _)
  then show ?thesis by (cases how) simp_all
qed simp_all

lemma approvalOutcome_bound: "length (snd (approvalOutcome r reason)) \<le> 130"
proof -
  have "length (case reason of None \<Rightarrow> [] | Some why \<Rightarrow> if why \<noteq> [] \<and> is_error_code why then '' ('' @ why @ '')'' else []) \<le> 67"
    by (auto simp: is_error_code_def split: option.split)
  with outcome_code_bound [of r] result_status_bound [of r] show ?thesis by (simp add: approvalOutcome_def)
qed

text \<open>
  The card shows nothing a call gave back. The summary a hold ends with, which whoever decided may read, is the same for any two runs
  that came to the same status with the same code of error, whatever they returned, said or asked; and it is never longer than a line.
\<close>

theorem the_card_shows_no_result:
  assumes "result_status r = result_status r'" and "map_option te_code (result_error r) = map_option te_code (result_error r')"
  shows "approvalOutcome r reason = approvalOutcome r' reason \<and> length (snd (approvalOutcome r reason)) \<le> 130"
proof -
  have "outcome_code r = outcome_code r'"
    using assms(2) by (cases "result_error r"; cases "result_error r'") (simp_all add: outcome_code_def)
  with assms(1) have "approvalOutcome r reason = approvalOutcome r' reason" by (simp add: approvalOutcome_def)
  with approvalOutcome_bound show ?thesis by simp
qed

theorem the_card_shows_no_result_witness:
  "approvalOutcome (Result_Ended Ended_Failed ''o1'' (tool_err ''tool_error'' ''the secret text'')) None
    = approvalOutcome (Result_Ended Ended_Failed ''o2'' (tool_err ''tool_error'' ''another'')) None"
  using the_card_shows_no_result [of "Result_Ended Ended_Failed ''o1'' (tool_err ''tool_error'' ''the secret text'')"
    "Result_Ended Ended_Failed ''o2'' (tool_err ''tool_error'' ''another'')" None]
  by (simp add: tool_err_def)

section \<open>A decision is told once\<close>

definition told :: "string \<Rightarrow> string \<Rightarrow> store \<Rightarrow> bool" where
  "told tn oid s \<longleftrightarrow> (\<exists>r. approval_of tn oid s = Some r \<and> ar_told r \<noteq> None)"

lemma approval_of_set_told:
  "approval_of tn' oid' (set_told tn oid x s)
    = (if tn' = tn \<and> oid' = oid then map_option (\<lambda>r. r\<lparr>ar_told := x\<rparr>) (approval_of tn oid s) else approval_of tn' oid' s)"
  unfolding approval_of_def set_told_def by (simp add: approval_of_update is_approval_def)

text \<open>One attempt at telling: \<open>True\<close> when a message was written.\<close>

definition try_tell :: "string \<Rightarrow> string \<Rightarrow> (tell_env \<times> (approval_record \<times> string option)) \<Rightarrow> store \<Rightarrow> bool \<times> store" where
  "try_tell tn oid c s =
     (case c of (e, a, written) \<Rightarrow>
        if ap_operation a \<noteq> oid then (False, s)
        else (case tell_one (e\<lparr>tl_before := (\<lambda>_. id)\<rparr>) tn (a, written) s of (said, s') \<Rightarrow> (said \<noteq> [], s')))"

lemma try_tell_wins:
  assumes "try_tell tn oid c s = (True, s')"
  shows "\<exists>now r. s' = set_told tn oid (Some now) s \<and> approval_of tn oid s = Some r \<and> ar_told r = None"
proof -
  obtain e a written where c: "c = (e, a, written)" by (cases c)
  with assms show ?thesis
    by (auto simp: try_tell_def tell_one_def Let_def claim_told_def split: if_splits option.splits)
qed

lemma set_told_back:
  assumes "approval_of tn oid s = Some r" and "ar_told r = None"
  shows "approval_of tn' oid' (set_told tn oid None (set_told tn oid x s)) = approval_of tn' oid' s"
  using assms by (simp add: approval_of_set_told)

lemma try_tell_loses:
  assumes "try_tell tn oid c s = (False, s')"
  shows "approval_of tn' oid' s' = approval_of tn' oid' s"
proof -
  obtain e a written where c: "c = (e, a, written)" by (cases c)
  show ?thesis
    using assms by (auto simp: c try_tell_def tell_one_def Let_def claim_told_def set_told_back split: if_splits option.splits)
qed

lemma told_refuses:
  assumes "told tn oid s"
  shows "try_tell tn oid c s = (False, s)"
proof -
  obtain e a written where c: "c = (e, a, written)" by (cases c)
  from assms show ?thesis by (auto simp: c try_tell_def tell_one_def Let_def claim_told_def told_def split: option.split)
qed

interpretation told_race: one_winner "try_tell tn oid" "told tn oid" for tn oid
  by unfold_locales (auto simp: told_refuses told_def approval_of_set_told dest!: try_tell_wins)

text \<open>
  A decision is told once. However many passes, in whatever order, post the notice of one ended hold, and whatever their posts come
  to, at most one of them writes a message, as long as nothing else clears the mark; and one that writes none leaves every hold as it was,
  so the next pass tells it.
\<close>

theorem a_decision_is_told_once:
  assumes "\<And>c e s. (c, e) \<in> set posts \<Longrightarrow> told tn oid s \<Longrightarrow> told tn oid (e s)"
  shows "count_list (claim_outcomes (try_tell tn oid) posts s) True \<le> 1
    \<and> (\<forall>c s' tn' oid'. fst (try_tell tn oid c s') \<or> approval_of tn' oid' (snd (try_tell tn oid c s')) = approval_of tn' oid' s')"
proof (intro conjI allI)
  show "count_list (claim_outcomes (try_tell tn oid) posts s) True \<le> 1" using assms by (rule told_race.at_most_one_winner)
  fix c s' tn' oid'
  obtain won s'' where "try_tell tn oid c s' = (won, s'')" by fastforce
  then show "fst (try_tell tn oid c s') \<or> approval_of tn' oid' (snd (try_tell tn oid c s')) = approval_of tn' oid' s'"
    by (cases won) (simp_all add: try_tell_loses)
qed

definition tell_example :: "post_end option \<Rightarrow> tell_env \<times> (approval_record \<times> string option)" where
  "tell_example post = (\<lparr>tl_before = (\<lambda>_. id), tl_post = (\<lambda>_. post), tl_now = 9\<rparr>, ar_record (new_approval 1 hold_example), None)"

theorem a_decision_is_told_once_witness:
  "claim_outcomes (try_tell ''t'' ''o1'') [(tell_example (Some Post_Threw), id), (tell_example (Some Post_Landed), id), (tell_example (Some Post_Landed), id)]
     held_example = [False, True, False]"
proof -
  let ?posts = "[(tell_example (Some Post_Threw), id), (tell_example (Some Post_Landed), id), (tell_example (Some Post_Landed), id)]"
  have "count_list (claim_outcomes (try_tell ''t'' ''o1'') ?posts held_example) True \<le> 1"
    by (rule a_decision_is_told_once [THEN conjunct1]) auto
  moreover have "claim_outcomes (try_tell ''t'' ''o1'') (take 2 ?posts) held_example = [False, True]" by code_simp
  ultimately show ?thesis by (auto split: prod.splits)
qed
section \<open>A completion that does not throw\<close>

text \<open>Each operation's task, where there is one, belongs to the operation's agent.\<close>

definition ops_owned :: "string \<Rightarrow> store \<Rightarrow> bool" where
  "ops_owned tn s \<longleftrightarrow> (\<forall>op\<in>set (operations s). op_tenant op = tn \<longrightarrow>
     (\<forall>t. get_task tn (op_task op) s = Some t \<longrightarrow> tk_agent t = op_agent op))"

definition sound :: "string \<Rightarrow> store \<Rightarrow> bool" where
  "sound tn s \<longleftrightarrow> log_inv s \<and> ops_owned tn s"

lemma completeOperation_operations:
  assumes "completeOperation redact now tn oid status ref result facts s = Inr s'"
  shows "operations s' = operations (set_status now tn oid status ref s)" and "tasks s' = tasks s"
proof -
  have "operations s' = operations (set_status now tn oid status ref s) \<and> tasks s' = tasks s"
  proof (cases "get_op tn oid s")
    case None
    with assms show ?thesis by (auto simp: complete_unknown)
  next
    case (Some op)
    from assms Some show ?thesis
      by (rule completeE) (auto simp: appendTrace_def append_trace_row_def dest: insertEvent_frame(1,6))
  qed
  then show "operations s' = operations (set_status now tn oid status ref s)" "tasks s' = tasks s" by simp_all
qed

lemma get_op_set_status_other:
  assumes "tn' \<noteq> tn \<or> oid' \<noteq> oid"
  shows "get_op tn' oid' (set_status now tn oid status ref s) = get_op tn' oid' s"
  unfolding get_op_def set_status_def using assms
  by simp (rule get_row_update_other, auto simp: is_operation_def)

lemma complete_sound:
  assumes "sound (cc_tenant ctx) s"
  obtains s' where "complete env now ctx oid status result facts s = Inr s'" and "sound (cc_tenant ctx) s'" and "approvals s' = approvals s"
    and "\<forall>tn' oid'. get_op tn' oid' s' = (if tn' = cc_tenant ctx \<and> oid' = oid then map_option (completed_op now status None) (get_op tn' oid' s)
        else get_op tn' oid' s)"
proof -
  let ?tn = "cc_tenant ctx" and ?c = "completeOperation (ge_redact env) now (cc_tenant ctx) oid status None result facts s"
  have "\<exists>s'. ?c = Inr s' \<and> log_inv s'"
  proof (cases "get_op ?tn oid s")
    case None
    have "log_inv (resolve_waits ?tn oid (set_status now ?tn oid status None s))"
      using assms unfolding sound_def by (auto intro!: log_inv_cong [of _ s] simp: counter_value_def)
    with None show ?thesis by (simp add: complete_unknown)
  next
    case (Some op)
    then have "op \<in> set (operations s)" "op_tenant op = ?tn" by (auto simp: get_op_def is_operation_def dest!: get_row_SomeD)
    with assms Some show ?thesis by (intro complete_total [OF _ Some]) (auto simp: sound_def ops_owned_def)
  qed
  then obtain s' where c: "?c = Inr s'" and li: "log_inv s'" by blast
  note ops = completeOperation_operations [OF c]
  have "ops_owned ?tn s'"
    using assms unfolding sound_def ops_owned_def ops(1)
    by (fastforce simp: set_status_def set_update_where get_task_def ops(2))
  moreover have "get_op tn' oid' s' = (if tn' = ?tn \<and> oid' = oid then map_option (completed_op now status None) (get_op tn' oid' s)
      else get_op tn' oid' s)" for tn' oid'
    using get_op_set_status [of ?tn oid now status None s] get_op_set_status_other [of tn' ?tn oid' oid now status None s]
    by (auto simp: get_op_def ops(1))
  ultimately show ?thesis
    using c li completeOperation_approvals [OF c] by (intro that [of s']) (simp_all add: complete_def sound_def)
qed

lemma decide_frame:
  "operations (snd (decideApproval now tn oid d who by_whom notice s)) = operations s"
  "sound tn' (snd (decideApproval now tn oid d who by_whom notice s)) = sound tn' s"
proof -
  have f: "operations s' = operations s \<and> tasks s' = tasks s \<and> events s' = events s \<and> next_uuid s' = next_uuid s \<and> counters s' = counters s"
    if "s' = snd (decideApproval now tn oid d who by_whom notice s)" for s'
    unfolding that by (auto simp: decideApproval_def appendTrace_def append_trace_row_def Let_def split: option.split)
  let ?s = "snd (decideApproval now tn oid d who by_whom notice s)"
  show "operations ?s = operations s" using f [OF refl] by simp
  have "log_inv ?s = log_inv s"
    using f [OF refl] by (auto intro: log_inv_cong [of ?s s] log_inv_cong [of s ?s] simp: counter_value_def)
  with f [OF refl] show "sound tn' ?s = sound tn' s" by (simp add: sound_def ops_owned_def get_task_def)
qed

section \<open>A due hold does not outlive a pass\<close>

definition due_hold :: "string \<Rightarrow> int \<Rightarrow> store \<Rightarrow> string \<Rightarrow> bool" where
  "due_hold tn now s oid \<longleftrightarrow> (\<exists>r. approval_of tn oid s = Some r \<and> ap_state (ar_record r) = APending \<and> is_due now (ar_record r))"

text \<open>A hold nobody decided in time: expired, the agent to be told so, its operation ended as rejected.\<close>

definition expired_hold :: "string \<Rightarrow> store \<Rightarrow> string \<Rightarrow> bool" where
  "expired_hold tn s oid \<longleftrightarrow>
     (\<exists>r. approval_of tn oid s = Some r \<and> ap_state (ar_record r) = AExpired \<and> ap_decided_by (ar_record r) = Some ByExpiry \<and> ar_notice r \<noteq> None)
     \<and> (\<forall>op. get_op tn oid s = Some op \<longrightarrow> op_status op = ORejected)"

lemma expireApproval_due:
  assumes "sound tn s" and "due_hold tn now s oid"
  obtains a s' where "expireApproval env now tn oid s = (Some (True, [], Some a), s')" and "sound tn s'" and "expired_hold tn s' oid"
    and "\<forall>oid'. oid' \<noteq> oid \<longrightarrow> approval_of tn oid' s' = approval_of tn oid' s \<and> get_op tn oid' s' = get_op tn oid' s"
proof -
  from assms(2) obtain r where r: "approval_of tn oid s = Some r" "ap_state (ar_record r) = APending" "is_due now (ar_record r)"
    by (auto simp: due_hold_def)
  let ?n = "map_option (expiredNotice (ge_iso env)) (getApproval tn oid s)"
  obtain res s1 where d: "decideApproval now tn oid DExpired ''expiry'' (Some ByExpiry) ?n s = (res, s1)" by fastforce
  have p: "decisionProblem (ar_record r) DExpired now = None"
    using r(2,3) by (auto simp: decisionProblem_def is_due_def split: option.splits)
  have n: "?n \<noteq> None" using r(1) by (simp add: getApproval_def approval_of_def)
  from d show ?thesis
  proof (cases rule: decide_cases)
    case (landed r')
    have s1: "sound (cc_tenant (tenant_ctx tn)) s1" "operations s1 = operations s"
      using arg_cong [OF d, of snd, symmetric] assms(1) by (simp_all add: decide_frame)
    obtain s' where c: "complete env now (tenant_ctx tn) oid ORejected (Some expired_result) (Some no_facts) s1 = Inr s'"
      and s': "sound tn s'" "approvals s' = approvals s1"
      and g: "\<forall>tn' oid'. get_op tn' oid' s' = (if tn' = tn \<and> oid' = oid then map_option (completed_op now ORejected None) (get_op tn' oid' s1)
        else get_op tn' oid' s1)"
      by (rule complete_sound [where env = env and now = now and oid = oid and status = ORejected and result = "Some expired_result"
        and facts = "Some no_facts", OF s1(1), unfolded cc_tenant_ctx])
    show ?thesis
    proof (rule that [OF _ s'(1)])
      show "expireApproval env now tn oid s = (Some (True, [], Some (set_decision DExpired ''expiry'' now (Some ByExpiry) (ar_record r'))), s')"
        by (simp add: expireApproval_def Let_def d landed(3) c)
      show "expired_hold tn s' oid"
        using landed(4) n by (auto simp: expired_hold_def approval_of_def s'(2) set_decision_def g completed_op_def)
      show "\<forall>oid'. oid' \<noteq> oid \<longrightarrow> approval_of tn oid' s' = approval_of tn oid' s \<and> get_op tn oid' s' = get_op tn oid' s"
        using landed(5) [of tn] g by (simp add: approval_of_def s'(2) get_op_def s1(2))
    qed
  qed (use r(1) p in simp_all)
qed
lemma expireApproval_not_due:
  assumes "\<not> due_hold tn now s oid"
  shows "\<exists>why a. expireApproval env now tn oid s = (Some (False, why, a), s)"
proof -
  let ?n = "map_option (expiredNotice (ge_iso env)) (getApproval tn oid s)"
  obtain res s1 where d: "decideApproval now tn oid DExpired ''expiry'' (Some ByExpiry) ?n s = (res, s1)" by fastforce
  then show ?thesis
  proof (cases rule: decide_cases)
    case (landed r)
    then have "due_hold tn now s oid"
      by (auto simp: due_hold_def decisionProblem_def is_due_def split: if_splits option.splits)
    with assms show ?thesis by simp
  qed (simp_all add: expireApproval_def Let_def d)
qed

text \<open>From one store to another holds only ever leave the due ones, those named all do, and each that does is expired and listed.\<close>

definition expires_to :: "string \<Rightarrow> int \<Rightarrow> store \<Rightarrow> store \<Rightarrow> string set \<Rightarrow> string list \<Rightarrow> bool" where
  "expires_to tn now s s' named ids \<longleftrightarrow> sound tn s'
     \<and> (\<forall>oid. (due_hold tn now s' oid \<longrightarrow> due_hold tn now s oid \<and> oid \<notin> named)
         \<and> (expired_hold tn s oid \<longrightarrow> expired_hold tn s' oid)
         \<and> (due_hold tn now s oid \<longrightarrow> due_hold tn now s' oid \<or> oid \<in> set ids \<and> expired_hold tn s' oid))"

lemma expire_one:
  assumes "sound tn s"
  shows "\<exists>ok why x s'. expireApproval env now tn oid s = (Some (ok, why, x), s') \<and> expires_to tn now s s' {oid} (if ok then [oid] else [])"
proof (cases "due_hold tn now s oid")
  case True
  obtain a s' where e: "expireApproval env now tn oid s = (Some (True, [], Some a), s')" and s': "sound tn s'" "expired_hold tn s' oid"
    and other: "\<forall>oid'. oid' \<noteq> oid \<longrightarrow> approval_of tn oid' s' = approval_of tn oid' s \<and> get_op tn oid' s' = get_op tn oid' s"
    by (rule expireApproval_due [OF assms True, where env = env])
  have "\<not> due_hold tn now s' oid" using s'(2) by (auto simp: due_hold_def expired_hold_def)
  moreover have "due_hold tn now s' o' = due_hold tn now s o'" "expired_hold tn s' o' = expired_hold tn s o'" if "o' \<noteq> oid" for o'
    using other that by (simp_all add: due_hold_def expired_hold_def)
  ultimately have "expires_to tn now s s' {oid} [oid]" using s' True unfolding expires_to_def by (metis list.set_intros(1) singletonD)
  with e show ?thesis by (intro exI [of _ True] exI [of _ "[]"] exI [of _ "Some a"] exI [of _ s']) simp
next
  case False
  then obtain why a where "expireApproval env now tn oid s = (Some (False, why, a), s)" using expireApproval_not_due by blast
  moreover have "expires_to tn now s s {oid} []" using assms False by (auto simp: expires_to_def)
  ultimately show ?thesis by (intro exI [of _ False] exI [of _ why] exI [of _ a] exI [of _ s]) simp
qed

lemma expires_to_trans:
  assumes "expires_to tn now s s1 {oid} ids1" and "expires_to tn now s1 s' named ids2" and "set ids1 \<union> set ids2 \<subseteq> set ids"
  shows "expires_to tn now s s' (insert oid named) ids"
proof -
  have "due_hold tn now s o' \<and> o' \<notin> insert oid named" if "due_hold tn now s' o'" for o'
    using assms(1,2) that unfolding expires_to_def by blast
  moreover have "due_hold tn now s' o' \<or> o' \<in> set ids \<and> expired_hold tn s' o'" if "due_hold tn now s o'" for o'
    using assms that unfolding expires_to_def by blast
  ultimately show ?thesis using assms(1,2) unfolding expires_to_def by blast
qed

lemma expire_all_expires:
  assumes "sound tn s"
  shows "\<exists>ids s'. expire_all env now tn as s = (Some ids, s') \<and> expires_to tn now s s' (ap_operation ` set as) ids"
  using assms
proof (induction "as" arbitrary: s)
  case Nil
  then show ?case by (simp add: expires_to_def)
next
  case (Cons a as')
  from expire_one [OF Cons.prems, of env now "ap_operation a"] obtain ok why x s1
    where e: "expireApproval env now tn (ap_operation a) s = (Some (ok, why, x), s1)"
      and t: "expires_to tn now s s1 {ap_operation a} (if ok then [ap_operation a] else [])" by blast
  then have "sound tn s1" by (simp add: expires_to_def)
  from Cons.IH [OF this] obtain ids s' where i: "expire_all env now tn as' s1 = (Some ids, s')"
    and t': "expires_to tn now s1 s' (ap_operation ` set as') ids" by blast
  have "expires_to tn now s s' (ap_operation ` set (a # as')) (if ok then ap_operation a # ids else ids)"
    unfolding list.set image_insert by (rule expires_to_trans [OF t t']) auto
  moreover have "expire_all env now tn (a # as') s = (Some (if ok then ap_operation a # ids else ids), s')" by (simp add: e i)
  ultimately show ?case by blast
qed

lemma due_is_listed:
  assumes "due_hold tn now s oid"
  shows "oid \<in> ap_operation ` set (filter (is_due now) (listApprovals tn (Some APending) s))"
proof -
  from assms obtain r where r: "get_row (is_approval tn oid) (approvals s) = Some r" "ap_state (ar_record r) = APending" "is_due now (ar_record r)"
    by (auto simp: due_hold_def approval_of_def)
  from get_row_SomeD [OF r(1)] have "r \<in> set (approvals s)" "ap_tenant (ar_record r) = tn" "oid = ap_operation (ar_record r)"
    by (auto simp: is_approval_def)
  with r(2,3) show ?thesis by (auto simp: listApprovals_def mapApproval_def)
qed

text \<open>
  A due hold does not outlive a pass. Expiring what is due never throws on a sound store, and leaves no hold of the tenant undecided
  past its deadline: each that was is expired, by nobody, with what the agent is to be told written beside it, and its operation,
  if it is still on record, ended as rejected.
\<close>

theorem no_due_hold_outlives_a_pass:
  assumes "sound tn s"
  shows "\<exists>ids s'. expireDue env now tn s = (Some ids, s') \<and> sound tn s' \<and> (\<forall>oid. \<not> due_hold tn now s' oid)
    \<and> (\<forall>oid. \<not> due_hold tn now s oid \<or> oid \<in> set ids \<and> expired_hold tn s' oid)"
proof -
  let ?due = "filter (is_due now) (listApprovals tn (Some APending) s)"
  from expire_all_expires [OF assms, of env now ?due] obtain ids s' where e: "expireDue env now tn s = (Some ids, s')"
    and t: "expires_to tn now s s' (ap_operation ` set ?due) ids"
    unfolding expireDue_def by blast
  have d: "\<not> due_hold tn now s' oid" for oid
    using t due_is_listed [of tn now s oid] unfolding expires_to_def by blast
  moreover have "\<not> due_hold tn now s oid \<or> oid \<in> set ids \<and> expired_hold tn s' oid" for oid
    using t d unfolding expires_to_def by blast
  moreover have "sound tn s'" using t by (simp add: expires_to_def)
  ultimately show ?thesis using e by (intro exI [of _ ids] exI [of _ s'] conjI allI)
qed
lemma held_example_sound: "sound ''t'' held_example"
proof -
  have "log_inv held_example"
    using log_inv_init by (rule log_inv_cong [rotated -1]) (simp_all add: held_example_def requireApproval_def counter_value_def)
  moreover have "operations held_example = []"
    by (simp add: held_example_def requireApproval_def init_store_def)
  ultimately show ?thesis by (simp add: sound_def ops_owned_def)
qed

theorem no_due_hold_outlives_a_pass_witness:
  "\<exists>ids s'. expireDue gw_env 200 ''t'' held_example = (Some ids, s') \<and> ''o1'' \<in> set ids \<and> expired_hold ''t'' s' ''o1''"
proof -
  have "due_hold ''t'' 200 held_example ''o1''"
    by (simp add: due_hold_def held_example_of is_due_def new_approval_def hold_example_def)
  with no_due_hold_outlives_a_pass [OF held_example_sound, of gw_env 200] show ?thesis by blast
qed

section \<open>A run that began ends its hold\<close>

text \<open>A property of the table of approvals, kept by everything a plugin does.\<close>

definition plugins_keep :: "gateway_env \<Rightarrow> (store \<Rightarrow> bool) \<Rightarrow> bool" where
  "plugins_keep env P \<longleftrightarrow> (\<forall>s. P s \<longrightarrow>
     (\<forall>m tool args o'. P (snd (ge_step env m tool args o' s))) \<and> (\<forall>m req o'. P (snd (ge_send env m req o' s)))
     \<and> (\<forall>m tool st args o'. P (snd (ge_answer env m tool st args o' s))) \<and> (\<forall>m tool st. P (ge_cancel env m tool st s)))"

definition of_approvals :: "(store \<Rightarrow> bool) \<Rightarrow> bool" where
  "of_approvals P \<longleftrightarrow> (\<forall>s s'. approvals s' = approvals s \<longrightarrow> P s' = P s)"

lemma of_approvalsD: "of_approvals P \<Longrightarrow> approvals s' = approvals s \<Longrightarrow> P s \<Longrightarrow> P s'"
  unfolding of_approvals_def by blast

lemma complete_keeps: "of_approvals P \<Longrightarrow> complete env now ctx oid st res facts s = Inr s' \<Longrightarrow> P s \<Longrightarrow> P s'"
  unfolding complete_def by (rule of_approvalsD, assumption, erule completeOperation_approvals)

lemma complete_then_keeps: "of_approvals P \<Longrightarrow> P s \<Longrightarrow> P (snd (complete_then env now ctx oid st res facts answer s))"
  by (cases "complete env now ctx oid st res facts s") (simp_all add: complete_then_def complete_keeps)

lemma run_threw_keeps: "of_approvals P \<Longrightarrow> P s \<Longrightarrow> P (snd (run_threw env started now ctx oid facts e s))"
  by (simp add: run_threw_def complete_then_keeps)

lemma complete_or_keeps: "of_approvals P \<Longrightarrow> P s \<Longrightarrow> P (snd (complete_or env started now ctx oid st facts own answer s))"
  by (cases "complete env now ctx oid st None (Some own) s") (simp_all add: complete_or_def complete_keeps run_threw_keeps)

lemma step_end_keeps:
  assumes "of_approvals P" and "plugins_keep env P" and "P s"
  shows "P (snd (step_end env started now ctx m p tool oid serves facts outcome s))"
proof (cases outcome)
  case (Step_Asks q)
  from assms have c: "P (if pg_interrupts p then ge_cancel env m tool (qu_state q) s else s)"
    by (simp add: plugins_keep_def)
  show ?thesis
  proof (cases "question_problem p q")
    case None
    then show ?thesis using assms(1,3)
      by (cases "answerSpecOf (Some (qu_answer q))") (simp_all add: step_end_def Step_Asks Let_def complete_or_keeps)
  next
    case (Some why)
    then show ?thesis using c assms(1) by (simp add: step_end_def Step_Asks Let_def complete_or_keeps)
  qed
qed (use assms in \<open>simp_all add: step_end_def Let_def complete_or_keeps run_threw_keeps\<close>)

lemma call_step_keeps:
  assumes "plugins_keep env P" and "P s"
  shows "P (snd (call_step env t c args o' s))"
proof -
  have "P (snd (bridge_step env m b req o' s))" for m b req
  proof -
    have "P (snd (ge_send env m req o' s))" using assms by (simp add: plugins_keep_def)
    then show ?thesis by (auto simp: bridge_step_def Let_def split: prod.split send_outcome.split)
  qed
  moreover have "P (snd (ge_step env (ta_mount t) (ta_tool t) args o' s))" using assms by (simp add: plugins_keep_def)
  ultimately show ?thesis by (simp add: call_step_def split: option.split)
qed

lemma run_step_keeps:
  assumes "of_approvals P" and "plugins_keep env P" and "\<And>x. P x \<Longrightarrow> P (snd (step x))" and "P s"
  shows "P (snd (run_step env now ctx m p tool oid serves facts step s))"
proof (cases "truthy (mt_secret m) \<and> ge_credential env m = None")
  case False
  obtain won s1 where st: "startOperation now (cc_tenant ctx) oid s = (won, s1)" by fastforce
  then have "approvals s1 = approvals s" by (auto simp: startOperation_def Let_def)
  with assms(1,4) have p: "P s1" by (blast intro: of_approvalsD)
  show ?thesis
  proof (cases won)
    case True
    with st have "run_step env now ctx m p tool oid serves facts step s
        = (case step s1 of (outcome, s2) \<Rightarrow> step_end env now (ge_later env now) ctx m p tool oid serves facts outcome s2)"
      by (intro run_step_won [OF False]) simp
    with assms(3) [OF p] step_end_keeps [OF assms(1,2)] show ?thesis by (auto split: prod.split)
  next
    case False': False
    with st p show ?thesis by (simp add: run_step_lost [OF False])
  qed
qed (use assms(4) in \<open>simp add: run_step_no_credential\<close>)

text \<open>A replayed call is never held again, so it leaves the approvals to the plugins.\<close>

lemma approved_not_held: "io_approved opts \<Longrightarrow> verdict_of opts d \<noteq> Approval"
  by (simp add: verdict_of_def)

lemma invoke_keeps:
  assumes "of_approvals P" and "plugins_keep env P" and "io_approved opts" and "P s"
  shows "P (snd (invoke env now ctx raw args opts s))"
proof (cases "admit_call env ctx raw opts s")
  case (Inl e)
  have "approvals (snd (refused env now ctx raw opts e s)) = approvals s"
    by (simp add: refused_def appendTrace_def append_trace_row_def)
  then have "P (snd (refused env now ctx raw opts e s))" by (rule of_approvalsD [OF assms(1) _ assms(4)])
  with Inl show ?thesis by (simp add: invoke_def)
next
  case (Inr t)
  show ?thesis
  proof (cases "repeats env ctx opts t s")
    case True
    with assms(4) show ?thesis by (simp add: invoke_repeat [OF Inr])
  next
    case False
    have p: "P (recorded env now ctx opts t s)" by (rule of_approvalsD [OF assms(1) _ assms(4)]) simp
    note c = complete_then_keeps [OF assms(1) p]
    have r: "P (snd (run_step env now ctx (ta_mount t) (ta_plugin t) (ta_tool t) oid oid facts (call_step env t c args oid) (recorded env now ctx opts t s)))"
      for oid facts c by (rule run_step_keeps [OF assms(1,2) _ p]) (rule call_step_keeps [OF assms(2)])
    show ?thesis
    proof (cases "classify_call env t args")
      case (Inr c)
      with c r approved_not_held [OF assms(3)] show ?thesis
        unfolding invoke_admitted [OF \<open>admit_call env ctx raw opts s = Inr t\<close> False] Let_def
        by (cases "verdict_of opts (decided_by_policy t c)") simp_all
    qed (simp add: invoke_admitted [OF Inr False] c)
  qed
qed
lemma resume_keeps:
  assumes "of_approvals P" and "plugins_keep env P" and "P s"
  shows "P (snd (resumeInterrupt env now ctx i answer call offered s))"
proof -
  have r: "P (recordOperation now oid tn ag tk al tool model v s)" for oid tn ag tk al tool model v
    by (rule of_approvalsD [OF assms(1) _ assms(3)]) (simp add: recordOperation_def)
  have g: "P x \<Longrightarrow> P (snd (ge_answer env m tool st answer o' x))" for m tool st o' x
    using assms(2) by (simp add: plugins_keep_def)
  show ?thesis
    unfolding resumeInterrupt_def Let_def
    by (auto split: option.split simp: assms(3) intro!: run_step_keeps [OF assms(1,2) g r])
qed

lemma cancel_keeps: "plugins_keep env P \<Longrightarrow> P s \<Longrightarrow> P (cancelInterrupt env ctx i s)"
  by (auto simp: cancelInterrupt_def plugins_keep_def split: option.split)

lemma replay_end_keeps:
  assumes "of_approvals P" and "plugins_keep env P" and "P (snd (snd out))"
  shows "P (snd (replay_end env now ctx oid out))"
proof -
  obtain answered res s where out: "out = (answered, res, s)" by (cases out)
  show ?thesis
  proof (cases res)
    case None
    with assms(3) show ?thesis by (simp add: replay_end_def out)
  next
    case (Some r)
    have p: "P s" using assms(3) by (simp add: out)
    have c: "P (snd (case complete env now ctx oid st x None s' of Inl _ \<Rightarrow> (None, s') | Inr s1 \<Rightarrow> (Some z, s1)))" if "P s'" for st x s' and z :: replayed
      using that complete_keeps [OF assms(1) _ that] by (cases "complete env now ctx oid st x None s'") simp_all
    from c [OF p] c [OF cancel_keeps [OF assms(2) p]] show ?thesis
      by (cases r) (simp_all add: replay_end_def out Some Let_def)
  qed
qed

lemma replay_call_keeps:
  assumes "of_approvals P" and "plugins_keep env P" and "P s"
  shows "P (snd (replay_call env now tn oid a s))"
proof -
  let ?ctx = "ctx_of_hold tn a"
  let ?inv = "invoke env now ?ctx (str_of (member_of ''tool'' (ap_request a))) (j (member_of ''args'' (ap_request a))) (replay_opts oid) s"
  have i: "P (snd ?inv)" by (rule invoke_keeps [OF assms(1,2) _ assms(3)]) (simp add: replay_opts_def)
  show ?thesis
  proof (cases "unread_model_only env ?ctx (str_of (member_of ''tool'' (ap_request a))) s")
    case None
    obtain res s1 where r: "?inv = (res, s1)" by fastforce
    with i have p: "P s1" by simp
    have "P (snd (snd (answered_once env now ?ctx oid x s1)))" for x
      using p by (cases x) (auto simp: answered_once_def resume_keeps [OF assms(1,2) p] split_beta split: option.split)
    with replay_end_keeps [OF assms(1,2)] p show ?thesis
      by (cases res) (simp_all add: replay_call_def Let_def None r)
  next
    case (Some mt)
    have "P (snd (case complete env now ?ctx oid st x None s of Inl _ \<Rightarrow> (None, s) | Inr s1 \<Rightarrow> (Some z, s1)))" for st x and z :: replayed
      using assms(3) complete_keeps [OF assms(1) _ assms(3)] by (cases "complete env now ?ctx oid st x None s") simp_all
    then show ?thesis by (simp add: replay_call_def Let_def Some)
  qed
qed

text \<open>An approved hold whose run was taken.\<close>

definition running_hold :: "string \<Rightarrow> string \<Rightarrow> store \<Rightarrow> bool" where
  "running_hold tn oid s \<longleftrightarrow> (\<exists>r. approval_of tn oid s = Some r \<and> ap_state (ar_record r) = AApproved \<and> ap_run_at (ar_record r) \<noteq> None)"

lemma running_of_approvals: "of_approvals (running_hold tn oid)"
  by (simp add: of_approvals_def running_hold_def approval_of_def)

lemma claim_runs:
  assumes "claimApprovalRun tn oid now s = (True, s1)"
  shows "running_hold tn oid s1"
proof -
  obtain r where r: "approval_of tn oid s = Some r" "ap_state (ar_record r) = AApproved"
    "approvals s1 = update_where (is_approval tn oid) (\<lambda>x. x\<lparr>ar_record := (ar_record x)\<lparr>ap_run_at := Some now\<rparr>\<rparr>) (approvals s)"
    using assms by (auto simp: claimApprovalRun_def approval_of_def split: option.splits if_splits)
  then have "approval_of tn oid s1 = Some (r\<lparr>ar_record := (ar_record r)\<lparr>ap_run_at := Some now\<rparr>\<rparr>)"
    unfolding approval_of_def by (simp add: approval_of_update is_approval_def)
  with r(2) show ?thesis by (simp add: running_hold_def)
qed

lemma finish_ends_hold:
  assumes "running_hold tn oid s"
  shows "\<exists>r. approval_of tn oid (snd (finishApproval tn oid how summary notice s)) = Some r
    \<and> ap_state (ar_record r) = run_end_state how \<and> ap_outcome (ar_record r) = Some summary \<and> ar_notice r = Some notice"
proof -
  from assms obtain r where "get_row (is_approval tn oid) (approvals s) = Some r" "ap_state (ar_record r) = AApproved"
    by (auto simp: running_hold_def approval_of_def)
  then show ?thesis by (simp add: finishApproval_def approval_of_def approval_of_update is_approval_def)
qed

text \<open>
  C13: A run that began ends its hold. Whoever takes the run of an approved call has an answer at the end, and has ended the hold as executed or
  failed, with its outcome and the notice for the agent, whatever the plugin or its question came to and even when the run threw past the
  gateway's own handling (it is then recorded as failed); and the run cannot be taken again. What the plugin does meanwhile is only assumed to leave
  this hold running: nothing else ends it or takes its row away.
\<close>

theorem a_run_that_began_ends_its_hold:
  assumes "claimApprovalRun tn oid now s = (True, s1)" and "plugins_keep env (running_hold tn oid)"
  shows "\<exists>r0 s'. runApproved env why now tn oid s = (Some r0, s')
    \<and> (\<exists>a r. approval_of tn oid s' = Some r \<and> ap_state (ar_record r) = run_end_state (fst (approvalOutcome (rp_result r0) (rp_asked r0)))
      \<and> ap_outcome (ar_record r) = Some (snd (approvalOutcome (rp_result r0) (rp_asked r0))) \<and> ar_notice r = Some (approvedNotice a (rp_result r0)))
    \<and> (\<forall>a. getApproval tn oid s1 = Some a \<longrightarrow> fst (replay_call env now tn oid a s1) = None \<longrightarrow> r0 = run_failed oid why)
    \<and> (\<forall>env' why' later. runApproved env' why' later tn oid s' = (None, s'))"
proof -
  have run: "running_hold tn oid s1" by (rule claim_runs [OF assms(1)])
  then obtain a where a: "getApproval tn oid s1 = Some a" by (auto simp: running_hold_def getApproval_def approval_of_def)
  obtain res s2 where re: "replay_call env now tn oid a s1 = (res, s2)" by fastforce
  have hold: "running_hold tn oid s2" using replay_call_keeps [OF running_of_approvals assms(2) run, of now tn oid a] by (simp add: re)
  define r0 where "r0 = or_else res (run_failed oid why)"
  define s' where "s' = snd (finishApproval tn oid (fst (approvalOutcome (rp_result r0) (rp_asked r0))) (snd (approvalOutcome (rp_result r0) (rp_asked r0)))
      (approvedNotice a (rp_result r0)) s2)"
  have e: "runApproved env why now tn oid s = (Some r0, s')" by (simp add: runApproved_def assms(1) a re Let_def r0_def s'_def)
  obtain r where r: "approval_of tn oid s' = Some r" "ap_state (ar_record r) = run_end_state (fst (approvalOutcome (rp_result r0) (rp_asked r0)))"
    "ap_outcome (ar_record r) = Some (snd (approvalOutcome (rp_result r0) (rp_asked r0)))" "ar_notice r = Some (approvedNotice a (rp_result r0))"
    using finish_ends_hold [OF hold] unfolding s'_def by blast
  have "run_end_state x \<noteq> AApproved" for x by (cases x) simp_all
  with r(1,2) have "runApproved env' why' later tn oid s' = (None, s')" for env' why' later
    by (simp add: runApproved_def claimApprovalRun_def approval_of_def)
  moreover have "fst (replay_call env now tn oid a s1) = None \<Longrightarrow> r0 = run_failed oid why" by (simp add: re r0_def)
  ultimately show ?thesis using e r a by auto
qed

definition gw_hold :: hold_request where
  "gw_hold = hold_example\<lparr>hr_request := JObj [(''tool'', JStr ''m.send''), (''args'', JNull)]\<rparr>"

definition gw_approved :: store where
  "gw_approved = snd (decideApproval 2 ''t'' ''o1'' DApproved ''p'' None None
     (recordOperation 1 ''o1'' ''t'' ''a'' ''k'' ''m'' ''mail.send'' None ''1'' (requireApproval 1 gw_hold (gw_store Approval None))))"

lemma gw_keeps_all: "plugins_keep gw_env P"
  by (simp add: plugins_keep_def gw_env_def)

theorem a_run_that_began_ends_its_hold_witness:
  "\<exists>r0 s' r. runApproved gw_env [] 5 ''t'' ''o1'' gw_approved = (Some r0, s') \<and> rp_executed r0
     \<and> approval_of ''t'' ''o1'' s' = Some r \<and> ap_state (ar_record r) = AExecuted"
proof -
  have "map_option (\<lambda>r. (rp_executed r, fst (approvalOutcome (rp_result r) (rp_asked r)))) (fst (runApproved gw_env [] 5 ''t'' ''o1'' gw_approved))
      = Some (True, RunExecuted)"
    by code_simp
  moreover have "fst (claimApprovalRun ''t'' ''o1'' 5 gw_approved)" by code_simp
  then obtain s1 where "claimApprovalRun ''t'' ''o1'' 5 gw_approved = (True, s1)" by (cases "claimApprovalRun ''t'' ''o1'' 5 gw_approved") simp
  from a_run_that_began_ends_its_hold [OF this gw_keeps_all, of "[]"] obtain r0 s' r where
    "runApproved gw_env [] 5 ''t'' ''o1'' gw_approved = (Some r0, s')" "approval_of ''t'' ''o1'' s' = Some r"
    "ap_state (ar_record r) = run_end_state (fst (approvalOutcome (rp_result r0) (rp_asked r0)))" by blast
  ultimately show ?thesis by auto
qed

section \<open>An approved call that goes on\<close>

text \<open>
  An approved call still running is recorded failed. When an approved call goes on in the background, or may have landed without
  anyone knowing, its run is recorded as executed with that result, but its operation is completed once more, as failed: the hold
  says that its result goes to the agent when it ends, and the record of the operation says that it failed.
\<close>

theorem an_approved_call_still_running_is_recorded_failed:
  assumes "unread_model_only env (ctx_of_hold tn a) (str_of (member_of ''tool'' (ap_request a))) s = None"
    and "invoke env now (ctx_of_hold tn a) (str_of (member_of ''tool'' (ap_request a))) (j (member_of ''args'' (ap_request a))) (replay_opts oid) s = (Some r, s1)"
    and "result_status r = ''running'' \<or> result_status r = ''unknown''"
    and "complete env now (ctx_of_hold tn a) oid OFailed (Some (result_json r)) None s1 = Inr s2" and "get_op tn oid s1 = Some op"
  shows "replay_call env now tn oid a s = (Some \<lparr>rp_executed = True, rp_result = r, rp_asked = None\<rparr>, s2)
    \<and> map_option op_status (get_op tn oid s2) = Some OFailed
    \<and> (result_status r = ''unknown'' \<or> approvalOutcome r None = (RunExecuted, ''started in the background; its result goes to the agent when it ends''))"
proof -
  have st: "replay_status r = OFailed" using assms(3) by (auto simp: replay_status_def)
  have "answered_once env now (ctx_of_hold tn a) oid r s1 = (False, Some r, s1)"
    using assms(3) by (cases r) (simp_all add: answered_once_def)
  moreover have "replay_end env now (ctx_of_hold tn a) oid (False, Some r, s1) = (Some \<lparr>rp_executed = True, rp_result = r, rp_asked = None\<rparr>, s2)"
    using assms(3,4) st by (cases r) (simp_all add: replay_end_def)
  ultimately have "replay_call env now tn oid a s = (Some \<lparr>rp_executed = True, rp_result = r, rp_asked = None\<rparr>, s2)"
    by (simp add: replay_call_def Let_def assms(1,2))
  moreover have "get_op tn oid s2 = Some (completed_op now OFailed None op)"
    using get_op_completed(1) [OF assms(4) [unfolded complete_def]] assms(5) by (simp add: ctx_of_hold_def)
  moreover have "result_status r = ''unknown'' \<or> approvalOutcome r None = (RunExecuted, ''started in the background; its result goes to the agent when it ends'')"
    using assms(3) by (auto simp: approvalOutcome_def)
  ultimately show ?thesis by (simp add: completed_op_def)
qed

definition gw_background :: gateway_env where
  "gw_background = gw_env\<lparr>ge_step := (\<lambda>_ _ _ _ s. (Step_Background JNull None, s))\<rparr>"

definition gw_held_call :: approval_record where
  "gw_held_call = ar_record (new_approval 1 gw_hold)"

theorem an_approved_call_still_running_is_recorded_failed_witness:
  "\<exists>r s2. replay_call gw_background 5 ''t'' ''o1'' gw_held_call gw_approved = (Some \<lparr>rp_executed = True, rp_result = r, rp_asked = None\<rparr>, s2)
     \<and> map_option op_status (get_op ''t'' ''o1'' s2) = Some OFailed \<and> fst (approvalOutcome r None) = RunExecuted"
proof -
  let ?inv = "invoke gw_background 5 (ctx_of_hold ''t'' gw_held_call) (str_of (member_of ''tool'' (ap_request gw_held_call)))
    (j (member_of ''args'' (ap_request gw_held_call))) (replay_opts ''o1'') gw_approved"
  have "unread_model_only gw_background (ctx_of_hold ''t'' gw_held_call) (str_of (member_of ''tool'' (ap_request gw_held_call))) gw_approved = None"
    by code_simp
  moreover have "fst ?inv = Some (Result_Running ''o1'' ''m'' ''send'' JNull None)" by code_simp
  then obtain s1 where i: "?inv = (Some (Result_Running ''o1'' ''m'' ''send'' JNull None), s1)" by (cases ?inv) auto
  moreover have "(case complete gw_background 5 (ctx_of_hold ''t'' gw_held_call) ''o1'' OFailed
      (Some (result_json (Result_Running ''o1'' ''m'' ''send'' JNull None))) None (snd ?inv) of Inl _ \<Rightarrow> False | Inr _ \<Rightarrow> True)"
    by code_simp
  then obtain s2 where "complete gw_background 5 (ctx_of_hold ''t'' gw_held_call) ''o1'' OFailed
      (Some (result_json (Result_Running ''o1'' ''m'' ''send'' JNull None))) None s1 = Inr s2"
    unfolding i snd_conv by (auto split: sum.splits)
  moreover have "get_op ''t'' ''o1'' (snd ?inv) \<noteq> None" by code_simp
  then obtain op where "get_op ''t'' ''o1'' s1 = Some op" unfolding i snd_conv by blast
  ultimately show ?thesis
    using an_approved_call_still_running_is_recorded_failed [of gw_background "''t''" gw_held_call gw_approved 5 "''o1''"
      "Result_Running ''o1'' ''m'' ''send'' JNull None" s1 s2 op] by auto
qed

end
