(* ===== verification/Subagents.thy ===== *)
theory Subagents
  imports Background_Jobs Tool_Policy "HOL-Library.Option_ord"
begin

text \<open>
  Subagents, the children an agent hands work to (\<open>src/src/runtime/subagents.ts\<close>): the table of children and its operations, the cap,
  the turn limit, the lifetime and the ceiling, the keys that a post is recognised by, the reading of a turn's end, and every message.
  An object that never had a child has no table; every reader then answers as on an empty one. The lemmas show what each operation
  leaves of the table, that a turn ends once, and that a stop leaves nothing running or owed.
\<close>

section \<open>Limits\<close>

definition SUBAGENT_TOOL :: string where "SUBAGENT_TOOL = ''send_to_agent''"

definition SUBAGENT_CAP :: nat where "SUBAGENT_CAP = 3"

definition SUBAGENT_MAX_MS :: int where "SUBAGENT_MAX_MS = 30 * 60000"

definition SUBAGENT_LIFETIME_MS :: int where "SUBAGENT_LIFETIME_MS = 2 * 60 * 60000"

definition SUBAGENT_MAX_TURNS :: nat where "SUBAGENT_MAX_TURNS = 10"

definition REPORT_MAX_CHARS :: nat where "REPORT_MAX_CHARS = 8000"

definition REPORT_MAX_ATTEMPTS :: nat where "REPORT_MAX_ATTEMPTS = 8"

definition SUBAGENT_RETENTION_MS :: int where "SUBAGENT_RETENTION_MS = 7 * 24 * 60 * 60000"

definition SUBAGENT_ARCHIVE_PER_PASS :: nat where "SUBAGENT_ARCHIVE_PER_PASS = 5"

definition reportRetryDelay :: "nat \<Rightarrow> int" where
  "reportRetryDelay attempts = min (10 * 60000) (5000 * 2 ^ (attempts - 1))"

section \<open>Children\<close>

datatype sub_state = Sub_Running | Sub_Reporting | Sub_Idle | Sub_Archived

datatype sub_outcome = Sub_Done | Sub_Failed | Sub_Cancelled | Sub_Stopped | Sub_Report_Failed

fun outcome_text :: "sub_outcome \<Rightarrow> string" where
  "outcome_text Sub_Done = ''done''"
| "outcome_text Sub_Failed = ''failed''"
| "outcome_text Sub_Cancelled = ''cancelled''"
| "outcome_text Sub_Stopped = ''stopped''"
| "outcome_text Sub_Report_Failed = ''report_failed''"

record subagent =
  sa_id :: string
  sa_parent :: string
  sa_call :: "string option"
  sa_option :: "string option"
  sa_provider :: "string option"
  sa_model :: "string option"
  sa_state :: sub_state
  sa_turn_key :: "string option"
  sa_report :: "string option"
  sa_model_now :: "string option"
  sa_note :: "string option"
  sa_turn_op :: "string option"
  sa_turns :: nat
  sa_created :: int
  sa_turn_started :: int
  sa_finished :: "int option"
  sa_outcome :: "sub_outcome option"

text \<open>A row of \<open>subagents\<close>, and the two tables: the children and, per turn, when it started and the call that sent it.\<close>

record sub_row =
  sr_tenant :: string
  sr_agent :: string
  sr_child :: subagent
  sr_attempts :: nat
  sr_retry :: "int option"

record sub_db =
  sd_rows :: "sub_row list"
  sd_turns :: "(string \<times> int \<times> string option) list"

definition sub_owned :: "job_owner \<Rightarrow> sub_row \<Rightarrow> bool" where
  "sub_owned owner r \<longleftrightarrow> sr_tenant r = fst owner \<and> sr_agent r = snd owner"

definition is_child :: "job_owner \<Rightarrow> string \<Rightarrow> sub_row \<Rightarrow> bool" where
  "is_child owner cid r \<longleftrightarrow> sa_id (sr_child r) = cid \<and> sub_owned owner r"

definition in_state :: "sub_state \<Rightarrow> sub_row \<Rightarrow> bool" where
  "in_state st r \<longleftrightarrow> sa_state (sr_child r) = st"

definition set_child :: "(subagent \<Rightarrow> subagent) \<Rightarrow> sub_row \<Rightarrow> sub_row" where
  "set_child f r = r\<lparr>sr_child := f (sr_child r)\<rparr>"

definition on_rows :: "(sub_row list \<Rightarrow> sub_row list) \<Rightarrow> sub_db \<Rightarrow> sub_db" where
  "on_rows f d = d\<lparr>sd_rows := f (sd_rows d)\<rparr>"

section \<open>Keys\<close>

definition turnKeyOf :: "string \<Rightarrow> string \<Rightarrow> string \<Rightarrow> string" where
  "turnKeyOf parent run call = parent @ ''|'' @ run @ ''|'' @ call"

text \<open>\<open>digest\<close> is SHA-256 of the key's bytes; each byte is two hexadecimal digits.\<close>

definition subagentIdFor :: "(string \<Rightarrow> nat list) \<Rightarrow> string \<Rightarrow> string" where
  "subagentIdFor digest turn_key =
     SUBAGENT_SESSION_PREFIX @ concat (map (\<lambda>b. [hex_digit (b div 16), hex_digit (b mod 16)]) (take 8 (digest turn_key)))"

definition key_of :: "string \<Rightarrow> string \<Rightarrow> nat \<Rightarrow> string" where
  "key_of word cid turn = word @ '' '' @ cid @ ''/'' @ show_nat turn"

definition taskKey :: "string \<Rightarrow> nat \<Rightarrow> string" where
  "taskKey = key_of ''task''"

definition reportKey :: "subagent \<Rightarrow> string" where
  "reportKey s = key_of ''report'' (sa_id s) (sa_turns s)"

definition undeliveredKey :: "subagent \<Rightarrow> string" where
  "undeliveredKey s = key_of ''undelivered'' (sa_id s) (sa_turns s)"

definition marked_key :: "string \<Rightarrow> string" where
  "marked_key k = ''<'' @ k @ ''>''"

definition combinedRequestId :: "string list \<Rightarrow> string" where
  "combinedRequestId keys = (if length keys = 1 then hd keys else ''reports '' @ concat (map marked_key keys))"

section \<open>Readers\<close>

definition subagentOf :: "job_owner \<Rightarrow> string \<Rightarrow> sub_row list \<Rightarrow> subagent option" where
  "subagentOf owner cid rows = map_option sr_child (get_row (is_child owner cid) rows)"

definition reportingSubagents :: "job_owner \<Rightarrow> int \<Rightarrow> sub_row list \<Rightarrow> subagent list" where
  "reportingSubagents owner now rows =
     map sr_child (order_by (\<lambda>r. sa_finished (sr_child r)) (order_by (\<lambda>r. sa_id (sr_child r))
       (filter (\<lambda>r. sub_owned owner r \<and> in_state Sub_Reporting r \<and> (case sr_retry r of None \<Rightarrow> True | Some t \<Rightarrow> t \<le> now)) rows)))"

definition allSubagentIds :: "job_owner \<Rightarrow> sub_row list \<Rightarrow> string list" where
  "allSubagentIds owner rows = map (\<lambda>r. sa_id (sr_child r)) (filter (sub_owned owner) rows)"

definition runningSubagents :: "job_owner \<Rightarrow> sub_row list \<Rightarrow> subagent list" where
  "runningSubagents owner rows =
     map sr_child (order_by (\<lambda>r. sa_turn_started (sr_child r)) (filter (\<lambda>r. sub_owned owner r \<and> in_state Sub_Running r) rows))"

definition listSubagents :: "job_owner \<Rightarrow> nat \<Rightarrow> sub_row list \<Rightarrow> subagent list" where
  "listSubagents owner limit rows =
     map sr_child (take limit (rev (order_by (\<lambda>r. sa_created (sr_child r)) (order_by (\<lambda>r. sa_id (sr_child r)) (filter (sub_owned owner) rows)))))"

definition runningSubagentCount :: "sub_row list \<Rightarrow> nat" where
  "runningSubagentCount rows = length (filter (\<lambda>r. in_state Sub_Running r \<or> in_state Sub_Reporting r) rows)"

definition min_of :: "int list \<Rightarrow> int option" where
  "min_of xs = (case xs of [] \<Rightarrow> None | y # ys \<Rightarrow> Some (fold min ys y))"

definition reportRetryMs :: "job_owner \<Rightarrow> int \<Rightarrow> sub_row list \<Rightarrow> int option" where
  "reportRetryMs owner now rows =
     map_option (\<lambda>t. max 0 (t - now))
       (min_of (map (\<lambda>r. or_else (sr_retry r) 0) (filter (\<lambda>r. sub_owned owner r \<and> in_state Sub_Reporting r) rows)))"

definition subagentCeilingMs :: "job_owner \<Rightarrow> int \<Rightarrow> int \<Rightarrow> sub_row list \<Rightarrow> int option" where
  "subagentCeilingMs owner now max_ms rows =
     map_option (max 0)
       (min_of (map (\<lambda>s. min (sa_turn_started s + max_ms) (sa_created s + SUBAGENT_LIFETIME_MS) + 1 - now) (runningSubagents owner rows)))"

definition overdueSubagent :: "subagent \<Rightarrow> int \<Rightarrow> int \<Rightarrow> bool" where
  "overdueSubagent s now max_ms \<longleftrightarrow> max_ms < now - sa_turn_started s \<or> SUBAGENT_LIFETIME_MS < now - sa_created s"

definition subagentSpent :: "subagent \<Rightarrow> int \<Rightarrow> string option" where
  "subagentSpent s now =
     (if SUBAGENT_MAX_TURNS \<le> sa_turns s
      then Some (''it has had '' @ show_nat SUBAGENT_MAX_TURNS @ '' turns, the most one subagent may have; start a new one'')
      else if SUBAGENT_LIFETIME_MS < now - sa_created s
      then Some (''it is older than '' @ show_int (SUBAGENT_LIFETIME_MS div 3600000) @ '' hours, the most one subagent may live; start a new one'')
      else None)"

text \<open>\<open>None\<close> is \<open>ok: true\<close>.\<close>

definition admitSubagent :: "subagent list \<Rightarrow> nat \<Rightarrow> int \<Rightarrow> string option" where
  "admitSubagent running cap now =
     (if length running < cap then None
      else Some (SUBAGENT_TOOL @ '': '' @ show_nat (length running)
        @ '' subagents are already running, the most this agent may have at once: ''
        @ join_with '', '' (map (\<lambda>s. sa_id s @ '' (running '' @ show_int (round_div (now - sa_turn_started s) 1000) @ ''s)'') running) @ ''. ''
        @ ''Nothing was started. Each one''@ [CHR 0x27] @ ''s report arrives as a message when it finishes; do the work yourself, ''
        @ ''or end your turn and delegate after a report arrives.''))"

text \<open>The call that sent the turn running at a time: of the turns started by then, the latest, and of those the last written.\<close>

definition turnLineage :: "string \<Rightarrow> int \<Rightarrow> sub_db \<Rightarrow> string option" where
  "turnLineage cid now d =
     (case rev (order_by (\<lambda>t. fst (snd t)) (filter (\<lambda>t. fst t = cid \<and> fst (snd t) \<le> now) (sd_turns d))) of
        [] \<Rightarrow> None
      | t # _ \<Rightarrow> snd (snd t))"

section \<open>Operations\<close>

record new_child =
  nc_id :: string
  nc_parent :: string
  nc_call :: "string option"
  nc_option :: "string option"
  nc_provider :: "string option"
  nc_model :: "string option"
  nc_turn_op :: "string option"
  nc_turn_key :: "string option"

definition recordTurnLineage :: "string \<Rightarrow> string option \<Rightarrow> int \<Rightarrow> sub_db \<Rightarrow> sub_db" where
  "recordTurnLineage cid call now d = d\<lparr>sd_turns := sd_turns d @ [(cid, now, call)]\<rparr>"

definition new_row :: "job_owner \<Rightarrow> new_child \<Rightarrow> int \<Rightarrow> sub_row" where
  "new_row owner c now =
     \<lparr>sr_tenant = fst owner, sr_agent = snd owner,
      sr_child = \<lparr>sa_id = nc_id c, sa_parent = nc_parent c, sa_call = nc_call c, sa_option = nc_option c, sa_provider = nc_provider c,
        sa_model = nc_model c, sa_state = Sub_Running, sa_turn_key = nc_turn_key c, sa_report = None, sa_model_now = nc_model c,
        sa_note = None, sa_turn_op = nc_turn_op c, sa_turns = 1, sa_created = now, sa_turn_started = now, sa_finished = None,
        sa_outcome = None\<rparr>,
      sr_attempts = 0, sr_retry = None\<rparr>"

text \<open>\<open>None\<close>: the id is taken, and the statement fails.\<close>

definition recordSubagent :: "job_owner \<Rightarrow> new_child \<Rightarrow> int \<Rightarrow> sub_db \<Rightarrow> sub_db option" where
  "recordSubagent owner c now d =
     map_option (\<lambda>rows. recordTurnLineage (nc_id c) (nc_call c) now (d\<lparr>sd_rows := rows\<rparr>))
       (insert_row (\<lambda>r. sa_id (sr_child r) = nc_id c) (new_row owner c now) (sd_rows d))"

record new_turn =
  nt_call :: "string option"
  nt_turn_op :: "string option"
  nt_model :: "(string \<times> string \<times> string) option"
  nt_turn_key :: "string option"

definition begin_turn :: "new_turn \<Rightarrow> int \<Rightarrow> sub_row \<Rightarrow> sub_row" where
  "begin_turn t now r =
     (let s = (sr_child r)\<lparr>sa_state := Sub_Running, sa_turn_op := nt_turn_op t, sa_call := nt_call t, sa_turn_key := nt_turn_key t,
        sa_turns := Suc (sa_turns (sr_child r)), sa_turn_started := now, sa_finished := None, sa_outcome := None, sa_report := None\<rparr> in
      r\<lparr>sr_child := (case nt_model t of None \<Rightarrow> s
          | Some (opt, provider, model) \<Rightarrow> s\<lparr>sa_option := Some opt, sa_provider := Some provider, sa_model := Some model, sa_model_now := Some model\<rparr>),
        sr_attempts := 0, sr_retry := None\<rparr>)"

definition startSubagentTurn :: "job_owner \<Rightarrow> string \<Rightarrow> new_turn \<Rightarrow> int \<Rightarrow> sub_db \<Rightarrow> sub_db" where
  "startSubagentTurn owner cid t now d =
     recordTurnLineage cid (nt_call t) now (on_rows (update_where (is_child owner cid) (begin_turn t now)) d)"

definition setSubagentTurnOp :: "job_owner \<Rightarrow> string \<Rightarrow> string option \<Rightarrow> sub_row list \<Rightarrow> sub_row list" where
  "setSubagentTurnOp owner cid op rows = update_where (is_child owner cid) (set_child (\<lambda>s. s\<lparr>sa_turn_op := op\<rparr>)) rows"

definition finish_child :: "sub_outcome \<Rightarrow> int \<Rightarrow> string option \<Rightarrow> sub_row \<Rightarrow> sub_row" where
  "finish_child outcome now report =
     set_child (\<lambda>s. s\<lparr>sa_state := (if report = None then Sub_Idle else Sub_Reporting), sa_finished := Some now,
       sa_outcome := Some outcome, sa_report := report, sa_note := None\<rparr>)"

definition finishSubagentTurn :: "job_owner \<Rightarrow> string \<Rightarrow> sub_outcome \<Rightarrow> int \<Rightarrow> string option \<Rightarrow> sub_row list \<Rightarrow> bool \<times> sub_row list" where
  "finishSubagentTurn owner cid outcome now report rows =
     (case get_row (is_child owner cid) rows of
        None \<Rightarrow> (False, rows)
      | Some before \<Rightarrow>
          if \<not> in_state Sub_Running before then (False, rows)
          else (True, update_where (\<lambda>r. is_child owner cid r \<and> in_state Sub_Running r) (finish_child outcome now report) rows))"

definition markReported :: "job_owner \<Rightarrow> string \<Rightarrow> sub_row list \<Rightarrow> sub_row list" where
  "markReported owner cid rows =
     update_where (\<lambda>r. is_child owner cid r \<and> in_state Sub_Reporting r)
       (\<lambda>r. (set_child (\<lambda>s. s\<lparr>sa_state := Sub_Idle, sa_report := None\<rparr>) r)\<lparr>sr_retry := None\<rparr>) rows"

text \<open>A failed post: the attempts so far, and whether the report was dropped.\<close>

definition reportFailed :: "job_owner \<Rightarrow> string \<Rightarrow> int \<Rightarrow> sub_row list \<Rightarrow> (nat \<times> bool) \<times> sub_row list" where
  "reportFailed owner cid now rows =
     (let owed = (\<lambda>r. is_child owner cid r \<and> in_state Sub_Reporting r);
          rows1 = update_where owed (\<lambda>r. r\<lparr>sr_attempts := Suc (sr_attempts r)\<rparr>) rows;
          attempts = (case get_row owed rows1 of None \<Rightarrow> 1 | Some r \<Rightarrow> sr_attempts r) in
      if REPORT_MAX_ATTEMPTS \<le> attempts
      then ((attempts, True), update_where owed
        (\<lambda>r. (set_child (\<lambda>s. s\<lparr>sa_state := Sub_Idle, sa_outcome := Some Sub_Report_Failed, sa_report := None\<rparr>) r)\<lparr>sr_retry := None\<rparr>) rows1)
      else ((attempts, False), update_where (is_child owner cid) (\<lambda>r. r\<lparr>sr_retry := Some (now + reportRetryDelay attempts)\<rparr>) rows1))"

definition releaseUnstartedTurn :: "job_owner \<Rightarrow> string \<Rightarrow> int \<Rightarrow> sub_row list \<Rightarrow> bool \<times> sub_row list" where
  "releaseUnstartedTurn owner cid now rows =
     (let unstarted = (\<lambda>r. is_child owner cid r \<and> in_state Sub_Running r \<and> sa_turn_op (sr_child r) = None) in
      (has_row unstarted rows,
       update_where unstarted (set_child (\<lambda>s. s\<lparr>sa_state := Sub_Idle, sa_finished := Some now, sa_outcome := Some Sub_Failed\<rparr>)) rows))"

definition noteSubagentModel :: "job_owner \<Rightarrow> subagent \<Rightarrow> string option \<Rightarrow> string \<Rightarrow> sub_row list \<Rightarrow> string option option \<times> sub_row list" where
  "noteSubagentModel owner s model why rows =
     (if sa_model_now s = model then (None, rows)
      else let said = (\<lambda>m. or_else m (''the agent'' @ [CHR 0x27] @ ''s own model'')) in
        (Some (sa_model_now s),
         update_where (is_child owner (sa_id s)) (set_child (\<lambda>c. c\<lparr>sa_model_now := model,
           sa_note := Some (''From turn '' @ show_nat (sa_turns s) @ '' it ran on '' @ said model @ '', not '' @ said (sa_model_now s)
             @ '': '' @ why @ ''.'')\<rparr>)) rows))"

definition stop_child :: "sub_row \<Rightarrow> sub_row" where
  "stop_child r = (set_child (\<lambda>s. s\<lparr>sa_state := Sub_Idle, sa_outcome := Some Sub_Stopped, sa_report := None\<rparr>) r)\<lparr>sr_retry := None\<rparr>"

definition end_stopped :: "int \<Rightarrow> sub_row \<Rightarrow> sub_row" where
  "end_stopped now r = set_child (\<lambda>s. s\<lparr>sa_finished := Some now\<rparr>) (stop_child r)"

definition in_scope :: "job_owner \<Rightarrow> string option \<Rightarrow> sub_row \<Rightarrow> bool" where
  "in_scope owner scope r \<longleftrightarrow> sub_owned owner r \<and> (case scope of None \<Rightarrow> True | Some p \<Rightarrow> sa_parent (sr_child r) = p)"

text \<open>The children it covers, and those whose turn it ended (as they then stand).\<close>

definition stopRunningSubagents :: "job_owner \<Rightarrow> int \<Rightarrow> string option \<Rightarrow> sub_row list \<Rightarrow> (string list \<times> subagent list) \<times> sub_row list" where
  "stopRunningSubagents owner now scope rows =
     (let hit = (\<lambda>r. in_scope owner scope r \<and> in_state Sub_Running r);
          stopped = map (\<lambda>r. sr_child (end_stopped now r)) (filter hit rows);
          rows1 = update_where hit (end_stopped now) rows;
          rows2 = update_where (\<lambda>r. in_scope owner scope r \<and> in_state Sub_Reporting r) stop_child rows1 in
      ((map (\<lambda>r. sa_id (sr_child r)) (filter (\<lambda>r. in_scope owner scope r \<and> \<not> in_state Sub_Archived r) rows2), stopped), rows2))"

definition switchedOffNotice :: "subagent list \<Rightarrow> string" where
  "switchedOffNotice off =
     ''[subagents were switched off for this agent; '' @ show_nat (length off) @ '' running ''
     @ (if length off = 1 then ''child was'' else ''children were'') @ '' stopped: ''
     @ join_with '', '' (map (\<lambda>s. sa_id s @ '' ('' @ reportKey s @ '')'') off) @ ''. A notice from the harness, not a message from the user. ''
     @ ''Nothing they found was kept, and no subagent can be started now: do the reading yourself.]''"

definition switch_off_child :: "int \<Rightarrow> subagent \<Rightarrow> sub_row \<Rightarrow> sub_row" where
  "switch_off_child now s r =
     (set_child (\<lambda>c. c\<lparr>sa_state := Sub_Reporting, sa_finished := Some now, sa_outcome := Some Sub_Stopped,
        sa_report := Some (switchedOffNotice [s]), sa_note := None\<rparr>) r)\<lparr>sr_attempts := 0, sr_retry := None\<rparr>"

definition switchOffSubagents :: "job_owner \<Rightarrow> int \<Rightarrow> sub_row list \<Rightarrow> subagent list \<times> sub_row list" where
  "switchOffSubagents owner now rows =
     (let off = runningSubagents owner rows;
          rows1 = fold (\<lambda>s. update_where (\<lambda>r. is_child owner (sa_id s) r \<and> in_state Sub_Running r) (switch_off_child now s)) off rows in
      (filter (\<lambda>s. map_option sa_state (subagentOf owner (sa_id s) rows1) = Some Sub_Reporting) off, rows1))"

definition archivableSubagents :: "job_owner \<Rightarrow> int \<Rightarrow> int \<Rightarrow> nat \<Rightarrow> job_row list \<Rightarrow> sub_row list \<Rightarrow> subagent list" where
  "archivableSubagents owner now retention limit jobs rows =
     map sr_child (take limit (order_by (\<lambda>r. sa_finished (sr_child r))
       (filter (\<lambda>r. sub_owned owner r \<and> in_state Sub_Idle r
          \<and> (case sa_finished (sr_child r) of None \<Rightarrow> False | Some t \<Rightarrow> t < now - retention)
          \<and> sa_id (sr_child r) \<notin> set (map (\<lambda>b. bj_session (jr_job b)) (filter (\<lambda>b. bj_state (jr_job b) = Job_Running) jobs))) rows)))"

definition markArchived :: "job_owner \<Rightarrow> string \<Rightarrow> sub_db \<Rightarrow> sub_db" where
  "markArchived owner cid d =
     (let idle = (\<lambda>r. is_child owner cid r \<and> in_state Sub_Idle r);
          d1 = on_rows (update_where idle (set_child (\<lambda>s. s\<lparr>sa_state := Sub_Archived, sa_report := None, sa_note := None\<rparr>))) d in
      if has_row idle (sd_rows d) then d1\<lparr>sd_turns := delete_where (\<lambda>t. fst t = cid) (sd_turns d1)\<rparr> else d1)"
section \<open>How a turn ended\<close>

datatype entry_content = Plain_Text string | Parts "(string \<times> string option) list" | No_Content

record engine_entry =
  en_type :: string
  en_role :: string
  en_timestamp :: "int option"
  en_stop :: "string option"
  en_provider_error :: "string option"
  en_error :: "string option"
  en_content :: entry_content

datatype end_cause = By_Ceiling | By_Abort

fun cause_text :: "end_cause \<Rightarrow> string" where
  "cause_text By_Ceiling = ''ceiling''"
| "cause_text By_Abort = ''aborted''"

record turn_end =
  te_outcome :: sub_outcome
  te_text :: string
  te_cause :: "end_cause option"

definition textOf :: "entry_content \<Rightarrow> string" where
  "textOf c = (case c of
       Plain_Text s \<Rightarrow> s
     | No_Content \<Rightarrow> []
     | Parts ps \<Rightarrow> trim (join_with [NL] (map (\<lambda>p. or_else (snd p) []) (filter (\<lambda>p. fst p = ''text'' \<and> snd p \<noteq> None) ps))))"

text \<open>The loop from the newest entry back: the last assistant message, unless it was written before the turn.\<close>

fun last_answer :: "int \<Rightarrow> engine_entry list \<Rightarrow> engine_entry option" where
  "last_answer since [] = None"
| "last_answer since (e # older) =
     (if en_type e \<noteq> ''message'' \<or> en_role e \<noteq> ''assistant'' then last_answer since older
      else (case en_timestamp e of
          Some t \<Rightarrow> if t < since then None else Some e
        | None \<Rightarrow> Some e))"

definition or_text :: "string \<Rightarrow> string \<Rightarrow> string" where
  "or_text a b = (if a \<noteq> [] then a else b)"

definition turnEnd :: "engine_entry list \<Rightarrow> int \<Rightarrow> string \<Rightarrow> string option \<Rightarrow> turn_end" where
  "turnEnd entries since status error =
     (let last = last_answer since (rev entries);
          stop = (case last of None \<Rightarrow> None | Some e \<Rightarrow> en_stop e);
          said = (case last of None \<Rightarrow> [] | Some e \<Rightarrow> textOf (en_content e));
          failed = (\<lambda>t. \<lparr>te_outcome = Sub_Failed, te_text = t, te_cause = None\<rparr>);
          cancelled = \<lparr>te_outcome = Sub_Cancelled, te_text = [], te_cause = Some By_Abort\<rparr> in
      if status = ''aborted'' then cancelled
      else if stop = Some ''error'' then
        failed (case last of None \<Rightarrow> [] | Some e \<Rightarrow>
          (case en_provider_error e of Some x \<Rightarrow> x | None \<Rightarrow> or_else (en_error e) ''the model call failed''))
      else if stop = Some ''aborted'' then cancelled
      else if status = ''failed'' \<or> status = ''unanswered'' then
        failed (or_text (or_else error []) (or_text said ''the turn ended without an answer''))
      else if last = None then failed (or_text (or_else error []) ''the turn ended without an answer'')
      else \<lparr>te_outcome = Sub_Done, te_text = or_text said (''(the subagent'' @ [CHR 0x27] @ ''s final message had no text)''), te_cause = None\<rparr>)"

definition reportBodyChars :: "turn_end \<Rightarrow> nat" where
  "reportBodyChars e = (if te_outcome e = Sub_Done then min (length (te_text e)) REPORT_MAX_CHARS else length (te_text e))"

definition reportOverflows :: "turn_end \<Rightarrow> bool" where
  "reportOverflows e \<longleftrightarrow> te_outcome e = Sub_Done \<and> REPORT_MAX_CHARS < length (te_text e)"

section \<open>What is said\<close>

definition in_quotes :: "string \<Rightarrow> string" where
  "in_quotes s = [CHR 0x22] @ s @ [CHR 0x22]"

definition undeliveredNotice :: "subagent list \<Rightarrow> nat \<Rightarrow> string" where
  "undeliveredNotice lost attempts =
     (let one = (length lost = 1); s = (if one then [] else ''s'') in
      ''[the report'' @ s @ '' of subagent'' @ s @ '' ''
      @ join_with '', '' (map (\<lambda>c. sa_id c @ '' ('' @ undeliveredKey c @ '')'') lost)
      @ '' could not be delivered after '' @ show_nat attempts @ '' attempts; a notice from the harness, not a message from the user. ''
      @ (if one then ''Its answer is'' else ''Their answers are'') @ '' lost: you may ''
      @ ''delegate the task again, to a new subagent or with a follow-up.]'')"

definition startedSubagent :: "string \<Rightarrow> bool \<Rightarrow> string option \<Rightarrow> json" where
  "startedSubagent cid follow_up model =
     JObj ([(''agent'', JStr cid), (''status'', JStr ''started'')] @ opt_str ''model'' model
       @ [(''note'', JStr ((if follow_up then ''Sent; the subagent keeps its history.'' else ''Started.'')
           @ '' Its report arrives as a message in this conversation when it ''
           @ ''finishes, and wakes you. Do not wait or check on it: keep working on something else, or end your turn.''))])"

definition taskMessage :: "string \<Rightarrow> string \<Rightarrow> bool \<Rightarrow> string \<Rightarrow> string" where
  "taskMessage cid task follow_up key =
     ''['' @ (if follow_up then ''a follow-up'' else ''a task'') @ '' ('' @ key @ '') from the agent that started you, sent with ''
     @ SUBAGENT_TOOL @ ''; you are its subagent '' @ cid @ ''. ''
     @ ''Your final message is your report, and it is all the agent receives: nobody else reads this conversation. Unless the task ''
     @ ''asks for a different length, keep it under about 3,000 characters: the conclusion first, then the evidence ''
     @ ''(paths, line numbers, ids). ''
     @ ''You can only read: you cannot change anything or act as the agent, so put what you would have done in your report.]''
     @ [NL, NL] @ task"

text \<open>Where the whole of a long report is: its reference and the tool that reads it.\<close>

type_synonym report_overflow = "(string \<times> string) option"

definition report_head :: "subagent \<Rightarrow> turn_end \<Rightarrow> int \<Rightarrow> string" where
  "report_head s e now =
     ''[subagent '' @ sa_id s @ '' '' @ [em_dash] @ '' '' @ outcome_text (te_outcome e) @ '' after ''
     @ show_int (round_div (now - sa_turn_started s) 1000) @ ''s ('' @ reportKey s
     @ ''); its report, a notice from the harness, not a message from the user. ''
     @ SUBAGENT_TOOL @ '' with agent '' @ in_quotes (sa_id s) @ '' sends it a follow-up.''
     @ (if truthy (sa_note s) then '' '' @ or_else (sa_note s) [] else []) @ '']''"

definition reportMessage :: "subagent \<Rightarrow> turn_end \<Rightarrow> int \<Rightarrow> report_overflow \<Rightarrow> string" where
  "reportMessage s e now overflow =
     (let head = report_head s e now in
      if te_outcome e = Sub_Done then
        (let where_is = (case overflow of
               Some (ref, reader) \<Rightarrow> ''the whole report is stored: read it with '' @ reader @ '' { ref: '' @ in_quotes ref
                 @ '', from: 0 }, which returns it in pages''
             | None \<Rightarrow> ''the rest was not stored; '' @ SUBAGENT_TOOL @ '' with agent '' @ in_quotes (sa_id s)
                 @ '' asks it for the part you need'') in
         head @ [NL] @ (if reportOverflows e
           then take REPORT_MAX_CHARS (te_text e) @ [NL] @ ''[cut at '' @ show_nat REPORT_MAX_CHARS @ '' of ''
             @ show_nat (length (te_text e)) @ '' characters; '' @ where_is @ '']''
           else te_text e))
      else if te_outcome e = Sub_Failed then head @ [NL] @ ''It failed: '' @ te_text e
      else head @ [NL] @ ''It was cancelled'' @ (if te_text e \<noteq> [] then '': '' @ te_text e else [])
        @ ''. Nothing it said after that was kept as a report.'')"

definition turn_verdict :: "string \<Rightarrow> trace_verdict" where
  "turn_verdict status =
     (if status = ''done'' then VOk else if status = ''cancelled'' \<or> status = ''stopped'' then VCancelled else VFailed)"

definition subagentTurnRow :: "job_owner \<Rightarrow> subagent \<Rightarrow> string \<Rightarrow> int \<Rightarrow> (string \<times> json) list \<Rightarrow> trace_row" where
  "subagentTurnRow owner s status now extra =
     \<lparr>tr_at = now, tr_tenant = fst owner, tr_agent = snd owner, tr_kind = ''subagent.turn'', tr_span = sa_id s,
      tr_parent = (if truthy (sa_call s) then sa_call s else None), tr_status = status, tr_verdict = turn_verdict status,
      tr_ms = Some (max 0 (now - sa_turn_started s)),
      tr_attrs = [(''parentSession'', JStr (sa_parent s)), (''turn'', JNum (int (sa_turns s)))] @ opt_str ''model'' (sa_option s) @ extra\<rparr>"

definition subagentStartRow :: "job_owner \<Rightarrow> subagent \<Rightarrow> string \<Rightarrow> string option \<Rightarrow> int \<Rightarrow> trace_row" where
  "subagentStartRow owner s how call now =
     \<lparr>tr_at = now, tr_tenant = fst owner, tr_agent = snd owner, tr_kind = ''subagent.start'', tr_span = sa_id s,
      tr_parent = (if truthy call then call else None), tr_status = how, tr_verdict = VOk, tr_ms = None,
      tr_attrs = [(''parentSession'', JStr (sa_parent s)), (''turn'', JNum (int (sa_turns s))), (''how'', JStr how)]\<rparr>"

section \<open>What a child may call\<close>

definition childMayCall :: "side_effects option \<Rightarrow> bool \<Rightarrow> bool" where
  "childMayCall effects acts_as_self \<longleftrightarrow> effects = Some Reads \<or> acts_as_self"

text \<open>\<open>address.slice(0, address.indexOf("."))\<close>: without a dot, all but the last character.\<close>

definition alias_of_address :: "string \<Rightarrow> string" where
  "alias_of_address a = (case index_of ''.'' a 0 of Some i \<Rightarrow> take i a | None \<Rightarrow> butlast a)"

definition childWithheld :: "(string \<times> side_effects option) list \<Rightarrow> (string \<Rightarrow> bool) \<Rightarrow> string set" where
  "childWithheld tools acts_as_self =
     set (map fst (filter (\<lambda>t. \<not> childMayCall (snd t) (acts_as_self (alias_of_address (fst t)))) tools))"

definition childRefusal :: "string \<Rightarrow> json" where
  "childRefusal address =
     JObj [(''status'', JStr ''rejected''), (''error'', JObj [(''code'', JStr ''subagent_read_only''),
       (''message'', JStr (address @ '' is not a read, and a subagent only reads: it cannot change anything or act as the agent. Put what ''
          @ ''you would have done in your final message: that is your report, and the agent decides what to do.''))])]"

section \<open>The tool\<close>

text \<open>The parameters the model sends, each a value or absent; the thrown error, or the task, the child and the model asked for.\<close>

definition blank_param :: "json option \<Rightarrow> bool" where
  "blank_param v \<longleftrightarrow> v = None \<or> v = Some JNull \<or> v = Some (JStr [])"

definition string_param :: "(json \<Rightarrow> string) \<Rightarrow> json option \<Rightarrow> string option" where
  "string_param to_text v = (if blank_param v then None else case v of Some (JStr s) \<Rightarrow> Some s | Some w \<Rightarrow> Some (to_text w) | None \<Rightarrow> None)"

definition send_params :: "(json \<Rightarrow> string) \<Rightarrow> json option \<Rightarrow> json option \<Rightarrow> json option \<Rightarrow> string + (string \<times> string option \<times> string option)" where
  "send_params to_text task agent model =
     (let t = (case task of Some (JStr s) \<Rightarrow> trim s | _ \<Rightarrow> []) in
      if t = [] then Inl (SUBAGENT_TOOL @ '': task is required, and is the whole instruction the subagent gets'')
      else Inr (t, string_param to_text agent, string_param to_text model))"
section \<open>What an operation leaves of the table\<close>

definition child_id :: "sub_row \<Rightarrow> string" where
  "child_id r = sa_id (sr_child r)"

definition unique_children :: "sub_row list \<Rightarrow> bool" where
  "unique_children rows \<longleftrightarrow> distinct (map child_id rows)"

definition row_owner :: "sub_row \<Rightarrow> job_owner" where
  "row_owner r = (sr_tenant r, sr_agent r)"

text \<open>A change of a row that leaves whose it is, and one that starts no turn.\<close>

definition same_row :: "(sub_row \<Rightarrow> sub_row) \<Rightarrow> bool" where
  "same_row f \<longleftrightarrow> (\<forall>r. child_id (f r) = child_id r \<and> row_owner (f r) = row_owner r)"

definition starts_nothing :: "(sub_row \<Rightarrow> sub_row) \<Rightarrow> bool" where
  "starts_nothing f \<longleftrightarrow> same_row f \<and> (\<forall>r. in_state Sub_Running (f r) \<longrightarrow> in_state Sub_Running r)"

lemmas row_defs = same_row_def starts_nothing_def child_id_def row_owner_def in_state_def set_child_def

lemma sub_owned_iff: "sub_owned owner r \<longleftrightarrow> row_owner r = owner"
  by (cases owner) (auto simp: sub_owned_def row_owner_def)

lemma is_child_iff: "is_child owner cid r \<longleftrightarrow> child_id r = cid \<and> row_owner r = owner"
  by (simp add: is_child_def child_id_def sub_owned_iff)

lemma begin_turn_same: "same_row (begin_turn t now)"
  by (auto simp: row_defs begin_turn_def Let_def split: option.split)

lemma op_changes:
  shows "starts_nothing (set_child (\<lambda>s. s\<lparr>sa_turn_op := op\<rparr>))"
    and "starts_nothing (finish_child outcome now report)"
    and "starts_nothing (\<lambda>r. (set_child (\<lambda>s. s\<lparr>sa_state := Sub_Idle, sa_report := None\<rparr>) r)\<lparr>sr_retry := None\<rparr>)"
    and "starts_nothing (\<lambda>r. r\<lparr>sr_attempts := Suc (sr_attempts r)\<rparr>)"
    and "starts_nothing (\<lambda>r. (set_child (\<lambda>s. s\<lparr>sa_state := Sub_Idle, sa_outcome := Some Sub_Report_Failed, sa_report := None\<rparr>) r)\<lparr>sr_retry := None\<rparr>)"
    and "starts_nothing (\<lambda>r. r\<lparr>sr_retry := later\<rparr>)"
    and "starts_nothing (set_child (\<lambda>s. s\<lparr>sa_state := Sub_Idle, sa_finished := Some now, sa_outcome := Some Sub_Failed\<rparr>))"
    and "starts_nothing (set_child (\<lambda>c. c\<lparr>sa_model_now := model, sa_note := note\<rparr>))"
    and "starts_nothing stop_child"
    and "starts_nothing (end_stopped now)"
    and "starts_nothing (switch_off_child now s)"
    and "starts_nothing (set_child (\<lambda>s. s\<lparr>sa_state := Sub_Archived, sa_report := None, sa_note := None\<rparr>))"
  by (simp_all add: row_defs finish_child_def stop_child_def end_stopped_def switch_off_child_def)

lemma starts_nothing_same: "starts_nothing f \<Longrightarrow> same_row f"
  by (simp add: starts_nothing_def)

lemma unique_update: "same_row f \<Longrightarrow> unique_children rows \<Longrightarrow> unique_children (update_where p f rows)"
  unfolding unique_children_def by (rule distinct_map_update_where) (simp_all add: same_row_def)

definition running_rows :: "job_owner \<Rightarrow> sub_row list \<Rightarrow> sub_row list" where
  "running_rows owner rows = filter (\<lambda>r. sub_owned owner r \<and> in_state Sub_Running r) rows"

lemma length_running: "length (runningSubagents owner rows) = length (running_rows owner rows)"
  by (simp add: runningSubagents_def running_rows_def)

lemma running_Cons:
  "running_rows owner (r # rows) = (if sub_owned owner r \<and> in_state Sub_Running r then [r] else []) @ running_rows owner rows"
  by (simp add: running_rows_def)

lemma running_append: "running_rows owner (xs @ ys) = running_rows owner xs @ running_rows owner ys"
  by (simp add: running_rows_def)

lemma running_update_le:
  assumes "starts_nothing f"
  shows "length (running_rows owner (update_where p f rows)) \<le> length (running_rows owner rows)"
proof (induction rows)
  case Nil
  then show ?case by simp
next
  case (Cons r rows)
  have "sub_owned owner (f r) \<and> in_state Sub_Running (f r) \<Longrightarrow> sub_owned owner r \<and> in_state Sub_Running r"
    using assms by (auto simp: starts_nothing_def same_row_def sub_owned_iff)
  with Cons show ?case by (auto simp: update_where_Cons running_Cons)
qed

text \<open>A start changes one row at most.\<close>

lemma update_none: "cid \<notin> child_id ` set rows \<Longrightarrow> update_where (is_child owner cid) f rows = rows"
  by (rule update_where_id) (auto simp: is_child_iff)

lemma running_start_le:
  assumes "unique_children rows" and "same_row f"
  shows "length (running_rows owner (update_where (is_child owner cid) f rows)) \<le> Suc (length (running_rows owner rows))"
  using assms(1)
proof (induction rows)
  case Nil
  then show ?case by simp
next
  case (Cons r rows)
  show ?case
  proof (cases "is_child owner cid r")
    case True
    with Cons.prems have "cid \<notin> child_id ` set rows" by (auto simp: unique_children_def is_child_iff)
    with True show ?thesis by (simp add: update_where_Cons running_Cons update_none)
  next
    case False
    moreover have "unique_children rows" using Cons.prems by (simp add: unique_children_def)
    ultimately show ?thesis using Cons.IH by (simp add: update_where_Cons running_Cons)
  qed
qed

section \<open>Steps\<close>

text \<open>Characters that neither a mark nor a JSON literal uses: what the keys are made of.\<close>

definition plain :: "string \<Rightarrow> bool" where
  "plain s \<longleftrightarrow> list_all (\<lambda>c. c \<notin> set ''<>'' \<and> esc_char c = [c]) s"

definition tidy :: "sub_row list \<Rightarrow> bool" where
  "tidy rows \<longleftrightarrow> unique_children rows \<and> list_all (\<lambda>r. plain (child_id r)) rows"

text \<open>What the handlers do to the tables, one statement at a time: a turn starts only while fewer than the cap run.\<close>

inductive sub_step :: "job_owner \<Rightarrow> sub_db \<Rightarrow> sub_db \<Rightarrow> bool" where
  child_made: "length (runningSubagents owner (sd_rows d)) < SUBAGENT_CAP \<Longrightarrow> plain (nc_id c) \<Longrightarrow> recordSubagent owner c now d = Some d'
    \<Longrightarrow> sub_step owner d d'"
| turn_begun: "length (runningSubagents owner (sd_rows d)) < SUBAGENT_CAP \<Longrightarrow> sub_step owner d (startSubagentTurn owner cid t now d)"
| op_set: "sub_step owner d (on_rows (setSubagentTurnOp owner cid op) d)"
| turn_ended: "sub_step owner d (on_rows (\<lambda>rows. snd (finishSubagentTurn owner cid outcome now report rows)) d)"
| reported: "sub_step owner d (on_rows (markReported owner cid) d)"
| post_failed: "sub_step owner d (on_rows (\<lambda>rows. snd (reportFailed owner cid now rows)) d)"
| released: "sub_step owner d (on_rows (\<lambda>rows. snd (releaseUnstartedTurn owner cid now rows)) d)"
| model_noted: "sub_step owner d (on_rows (\<lambda>rows. snd (noteSubagentModel owner s model why rows)) d)"
| stopped: "sub_step owner d (on_rows (\<lambda>rows. snd (stopRunningSubagents owner now scope rows)) d)"
| switched: "sub_step owner d (on_rows (\<lambda>rows. snd (switchOffSubagents owner now rows)) d)"
| archived: "sub_step owner d (markArchived owner cid d)"

inductive_cases sub_stepE: "sub_step owner d d'"

abbreviation sub_run :: "job_owner \<Rightarrow> sub_db \<Rightarrow> sub_db \<Rightarrow> bool" where
  "sub_run owner \<equiv> (sub_step owner)\<^sup>*\<^sup>*"

text \<open>Every statement but the two starts is a pass of harmless changes over the rows.\<close>

inductive harmless :: "sub_row list \<Rightarrow> sub_row list \<Rightarrow> bool" where
  harmless_none: "harmless rows rows"
| harmless_more: "harmless rows rows' \<Longrightarrow> starts_nothing f \<Longrightarrow> harmless rows (update_where p f rows')"

lemma harmless_one: "starts_nothing f \<Longrightarrow> harmless rows (update_where p f rows)"
  by (intro harmless_more harmless_none)

lemma harmless_ops:
  shows "harmless rows (setSubagentTurnOp owner cid op rows)"
    and "harmless rows (snd (finishSubagentTurn owner cid outcome now report rows))"
    and "harmless rows (markReported owner cid rows)"
    and "harmless rows (snd (reportFailed owner cid now rows))"
    and "harmless rows (snd (releaseUnstartedTurn owner cid now rows))"
    and "harmless rows (snd (noteSubagentModel owner s model why rows))"
    and "harmless rows (snd (stopRunningSubagents owner now scope rows))"
    and "harmless (sd_rows d) (sd_rows (markArchived owner cid d))"
  by (auto simp: setSubagentTurnOp_def finishSubagentTurn_def markReported_def reportFailed_def releaseUnstartedTurn_def
      noteSubagentModel_def stopRunningSubagents_def markArchived_def on_rows_def Let_def
      intro!: harmless_none harmless_more op_changes split: option.split)

lemma harmless_fold: "harmless rows (fold (\<lambda>s. update_where (p s) (switch_off_child now s)) off rows)"
proof (induction off rule: rev_induct)
  case Nil
  show ?case by (simp add: harmless_none)
next
  case (snoc s off)
  then show ?case by (simp add: harmless_more op_changes)
qed

lemma harmless_switch: "harmless rows (snd (switchOffSubagents owner now rows))"
  by (simp add: switchOffSubagents_def Let_def harmless_fold)

lemma harmless_keeps:
  assumes "harmless rows rows'"
  shows "map child_id rows' = map child_id rows" and "length (running_rows owner rows') \<le> length (running_rows owner rows)"
  using assms
proof (induction)
  case (harmless_none rows)
  show "map child_id rows = map child_id rows" and "length (running_rows owner rows) \<le> length (running_rows owner rows)" by simp_all
next
  case (harmless_more rows rows' f p)
  have "map child_id (update_where p f rows') = map child_id rows'"
    using harmless_more(2) by (intro map_update_where) (simp add: starts_nothing_def same_row_def)
  with harmless_more show "map child_id (update_where p f rows') = map child_id rows" by simp
  show "length (running_rows owner (update_where p f rows')) \<le> length (running_rows owner rows)"
    using harmless_more running_update_le order_trans by blast
qed

lemma tidy_cong: "map child_id rows' = map child_id rows \<Longrightarrow> tidy rows' \<longleftrightarrow> tidy rows"
proof -
  assume e: "map child_id rows' = map child_id rows"
  have "list_all (\<lambda>r. plain (child_id r)) xs = list_all plain (map child_id xs)" for xs
    by (simp add: list_all_iff)
  with e show ?thesis by (simp add: tidy_def unique_children_def)
qed

lemma harmless_step: "sub_step owner d d' \<Longrightarrow> harmless (sd_rows d) (sd_rows d')
    \<or> (length (runningSubagents owner (sd_rows d)) < SUBAGENT_CAP
       \<and> ((\<exists>c now. plain (nc_id c) \<and> recordSubagent owner c now d = Some d') \<or> (\<exists>cid t now. d' = startSubagentTurn owner cid t now d)))"
proof (induction rule: sub_step.induct)
  case (turn_begun owner d cid t now)
  then show ?case by blast
next
  case (child_made owner d c now d')
  then show ?case by blast
qed (simp_all add: on_rows_def harmless_ops harmless_switch)

lemma start_rows: "sd_rows (startSubagentTurn owner cid t now d) = update_where (is_child owner cid) (begin_turn t now) (sd_rows d)"
  by (simp add: startSubagentTurn_def recordTurnLineage_def on_rows_def)

lemma record_rows:
  assumes "recordSubagent owner c now d = Some d'"
  shows "sd_rows d' = sd_rows d @ [new_row owner c now]" and "nc_id c \<notin> child_id ` set (sd_rows d)"
proof -
  from assms obtain rows where i: "insert_row (\<lambda>r. sa_id (sr_child r) = nc_id c) (new_row owner c now) (sd_rows d) = Some rows"
    and d': "d' = recordTurnLineage (nc_id c) (nc_call c) now (d\<lparr>sd_rows := rows\<rparr>)"
    by (cases "insert_row (\<lambda>r. sa_id (sr_child r) = nc_id c) (new_row owner c now) (sd_rows d)") (auto simp: recordSubagent_def)
  have n: "\<not> has_row (\<lambda>r. sa_id (sr_child r) = nc_id c) (sd_rows d)" and rows: "rows = sd_rows d @ [new_row owner c now]"
    using i by (auto simp: insert_row_def split: if_splits)
  show "sd_rows d' = sd_rows d @ [new_row owner c now]" by (simp add: d' rows recordTurnLineage_def)
  show "nc_id c \<notin> child_id ` set (sd_rows d)" using n by (auto simp: has_row_iff child_id_def)
qed

lemma new_row_sel [simp]: "child_id (new_row owner c now) = nc_id c" "row_owner (new_row owner c now) = owner"
  "in_state Sub_Running (new_row owner c now)"
  by (simp_all add: new_row_def row_defs)

lemma tidy_start: "tidy (sd_rows d) \<Longrightarrow> tidy (sd_rows (startSubagentTurn owner cid t now d))"
proof -
  have "map child_id (update_where (is_child owner cid) (begin_turn t now) (sd_rows d)) = map child_id (sd_rows d)"
    using begin_turn_same by (intro map_update_where) (simp add: same_row_def)
  from tidy_cong [OF this] show "tidy (sd_rows d) \<Longrightarrow> tidy (sd_rows (startSubagentTurn owner cid t now d))" by (simp add: start_rows)
qed

lemma tidy_record: "tidy (sd_rows d) \<Longrightarrow> plain (nc_id c) \<Longrightarrow> recordSubagent owner c now d = Some d' \<Longrightarrow> tidy (sd_rows d')"
  using record_rows(1) [of owner c now d d'] record_rows(2) [of owner c now d d'] by (simp add: tidy_def unique_children_def)

definition within_cap :: "job_owner \<Rightarrow> sub_row list \<Rightarrow> bool" where
  "within_cap owner rows \<longleftrightarrow> tidy rows \<and> length (runningSubagents owner rows) \<le> SUBAGENT_CAP"

lemma step_within_cap: "sub_step owner d d' \<Longrightarrow> within_cap owner (sd_rows d) \<Longrightarrow> within_cap owner (sd_rows d')"
proof (drule harmless_step, elim disjE conjE exE)
  assume h: "harmless (sd_rows d) (sd_rows d')" and i: "within_cap owner (sd_rows d)"
  show ?thesis using i harmless_keeps(2) [OF h, of owner] tidy_cong [OF harmless_keeps(1) [OF h]]
    by (simp add: within_cap_def length_running)
next
  fix c now assume a: "length (runningSubagents owner (sd_rows d)) < SUBAGENT_CAP" "plain (nc_id c)" "recordSubagent owner c now d = Some d'"
    and i: "within_cap owner (sd_rows d)"
  then have "tidy (sd_rows d')" using tidy_record by (simp add: within_cap_def)
  then show ?thesis using a record_rows(1) [OF a(3)] by (simp add: within_cap_def length_running running_append running_rows_def)
next
  fix cid t now assume a: "length (runningSubagents owner (sd_rows d)) < SUBAGENT_CAP" "d' = startSubagentTurn owner cid t now d"
    and i: "within_cap owner (sd_rows d)"
  have "length (running_rows owner (update_where (is_child owner cid) (begin_turn t now) (sd_rows d))) \<le> Suc (length (running_rows owner (sd_rows d)))"
    using i by (intro running_start_le begin_turn_same) (simp add: within_cap_def tidy_def)
  then show ?thesis using a i tidy_start [of d owner cid t now] by (simp add: within_cap_def length_running start_rows)
qed

lemma run_within_cap: "sub_run owner d d' \<Longrightarrow> within_cap owner (sd_rows d) \<Longrightarrow> within_cap owner (sd_rows d')"
  by (induction rule: rtranclp_induct) (auto intro: step_within_cap)

section \<open>Keys are found where they were put\<close>

lemma contains_iff: "contains p s \<longleftrightarrow> (\<exists>a b. s = a @ p @ b)"
proof
  assume "contains p s"
  then obtain i where i: "take (length p) (drop i s) = p" by (auto simp: contains_def list_ex_iff occurs_at_def starts_with_def)
  have "s = take i s @ take (length p) (drop i s) @ drop (length p) (drop i s)" by (metis append_take_drop_id)
  with i show "\<exists>a b. s = a @ p @ b" by metis
next
  assume "\<exists>a b. s = a @ p @ b"
  then obtain a b where s: "s = a @ p @ b" by blast
  then have "occurs_at p s (length a)" by (simp add: occurs_at_def starts_with_def)
  moreover from s have "length a \<in> set [0..<Suc (length s)]" by simp
  ultimately show "contains p s" unfolding contains_def list_ex_iff by blast
qed

lemma split_at_first: "c \<notin> set x \<Longrightarrow> c \<notin> set x' \<Longrightarrow> x @ c # y = x' @ c # y' \<Longrightarrow> x = x' \<and> y = y'"
  by (induction x arbitrary: x') (auto simp: Cons_eq_append_conv append_eq_Cons_conv)

lemma concat_marked: "concat (map marked_key (k # ks)) = CHR ''<'' # k @ CHR ''>'' # concat (map marked_key ks)"
  by (simp add: marked_key_def)

lemma mark_found:
  assumes "\<forall>k'\<in>set (k # ks). CHR ''<'' \<notin> set k' \<and> CHR ''>'' \<notin> set k'" and "CHR ''<'' \<notin> set pre" and "CHR ''<'' \<notin> set suf"
  shows "a @ marked_key k @ b = pre @ concat (map marked_key ks) @ suf \<Longrightarrow> k \<in> set ks"
  using assms
proof (induction ks arbitrary: a pre)
  case Nil
  then have "CHR ''<'' \<in> set (pre @ concat (map marked_key []) @ suf)"
    by (metis UnI1 UnI2 append.assoc append_Cons in_set_conv_decomp marked_key_def set_append)
  with Nil show ?case by simp
next
  case (Cons k1 ks)
  have eq: "a @ CHR ''<'' # k @ CHR ''>'' # b = pre @ CHR ''<'' # k1 @ CHR ''>'' # concat (map marked_key ks) @ suf"
    using Cons.prems(1) unfolding concat_marked marked_key_def [of k] by simp
  show ?case
  proof (cases "CHR ''<'' \<in> set a")
    case False
    with eq Cons.prems(3) have "k @ CHR ''>'' # b = k1 @ CHR ''>'' # concat (map marked_key ks) @ suf" using split_at_first by metis
    with Cons.prems(2) have "k = k1" using split_at_first [of "CHR ''>''" k k1] by simp
    then show ?thesis by simp
  next
    case True
    then obtain a0 a1 where a: "a = a0 @ CHR ''<'' # a1" "CHR ''<'' \<notin> set a0" by (metis split_list_first)
    with eq Cons.prems(3) have "a1 @ CHR ''<'' # k @ CHR ''>'' # b = k1 @ CHR ''>'' # concat (map marked_key ks) @ suf"
      using split_at_first [of "CHR ''<''" a0 pre] by simp
    then have "a1 @ marked_key k @ b = (k1 @ [CHR ''>'']) @ concat (map marked_key ks) @ suf"
      by (simp add: marked_key_def [of k])
    from Cons.IH [OF this] Cons.prems have "k \<in> set ks" by simp
    then show ?thesis by simp
  qed
qed

lemma plain_append [simp]: "plain (a @ b) \<longleftrightarrow> plain a \<and> plain b"
  by (auto simp: plain_def)

lemma plain_unmarked: "plain k \<Longrightarrow> CHR ''<'' \<notin> set k \<and> CHR ''>'' \<notin> set k"
  by (auto simp: plain_def list_all_iff)

lemma esc_plain: "(\<forall>c\<in>set s. esc_char c = [c]) \<Longrightarrow> str_lit s = CHR 0x22 # s @ [CHR 0x22]"
proof -
  assume a: "\<forall>c\<in>set s. esc_char c = [c]"
  then have "concat (map esc_char s) = s" by (induction s) auto
  then show ?thesis by (simp add: str_lit_def)
qed

lemma plain_lit: "plain k \<Longrightarrow> str_lit k = CHR 0x22 # k @ [CHR 0x22]"
  by (rule esc_plain) (auto simp: plain_def list_all_iff)

lemma plain_nat: "plain (show_nat n)"
proof (induction n rule: show_nat.induct)
  case (1 n)
  have d: "plain [char_of (48 + k :: nat)]" if "k < 10" for k
  proof -
    have c: "(of_char (char_of (48 + k) :: char) :: nat) = 48 + k" using that by (simp add: take_bit_eq_mod)
    then have "char_of (48 + k) \<noteq> CHR ''<''" and "char_of (48 + k) \<noteq> CHR ''>''" using that by (auto dest: arg_cong [where f = "of_char :: char \<Rightarrow> nat"])
    with c that show ?thesis by (simp add: plain_def esc_char_def Let_def)
  qed
  show ?case
  proof (cases "n < 10")
    case True
    then show ?thesis by (subst show_nat.simps) (simp add: d)
  next
    case False
    then show ?thesis using 1 d [of "n mod 10"] by (subst show_nat.simps) simp
  qed
qed

lemma plain_key: "plain word \<Longrightarrow> plain cid \<Longrightarrow> plain (key_of word cid turn)"
proof -
  have "plain '' ''" and "plain ''/''" by (simp_all add: plain_def esc_char_def)
  then show "plain word \<Longrightarrow> plain cid \<Longrightarrow> ?thesis" by (simp add: key_of_def plain_nat del: append.simps)
qed

section \<open>Reading the rows\<close>

lemma child_row:
  assumes "unique_children rows"
  shows "get_row (is_child owner cid) rows = Some r \<longleftrightarrow> r \<in> set rows \<and> is_child owner cid r"
proof
  show "get_row (is_child owner cid) rows = Some r \<Longrightarrow> r \<in> set rows \<and> is_child owner cid r" by (rule get_row_SomeD)
  show "r \<in> set rows \<and> is_child owner cid r \<Longrightarrow> get_row (is_child owner cid) rows = Some r"
    using assms by (intro get_row_unique [of child_id]) (auto simp: unique_children_def is_child_iff)
qed

lemma update_child_row:
  assumes "same_row f" and "\<And>r. p r \<Longrightarrow> is_child owner cid r"
  shows "get_row (is_child owner cid) (update_where p f rows) = map_option (\<lambda>r. if p r then f r else r) (get_row (is_child owner cid) rows)"
  using assms(1) by (intro get_row_update_where) (simp add: is_child_iff same_row_def)

lemma update_other_row:
  assumes "same_row f" and "\<And>r. p r \<Longrightarrow> child_id r \<noteq> cid'"
  shows "get_row (is_child owner cid') (update_where p f rows) = get_row (is_child owner cid') rows"
  using assms by (intro get_row_update_other) (auto simp: is_child_iff same_row_def)

lemma in_runningSubagents: "s \<in> set (runningSubagents owner rows) \<longleftrightarrow> (\<exists>r\<in>set rows. sub_owned owner r \<and> in_state Sub_Running r \<and> s = sr_child r)"
  by (auto simp: runningSubagents_def)

lemma min_of_None: "min_of xs = None \<longleftrightarrow> xs = []"
  by (cases xs) (simp_all add: min_of_def)

lemma min_of_Some: "min_of xs = Some m \<longleftrightarrow> xs \<noteq> [] \<and> m \<in> set xs \<and> (\<forall>x\<in>set xs. m \<le> x)"
proof (cases xs)
  case Nil
  then show ?thesis by (simp add: min_of_def)
next
  case (Cons y ys)
  have m: "min_of xs = Some (Min (set xs))" using Min.set_eq_fold [of y ys] by (simp add: Cons min_of_def)
  have "Min (set xs) = m \<longleftrightarrow> m \<in> set xs \<and> (\<forall>x\<in>set xs. m \<le> x)" by (rule Min_eq_iff) (simp_all add: Cons)
  with m Cons show ?thesis by simp
qed

text \<open>
  The time an object asks to be woken for a child's ceiling is exact. A pass that wakes then finds a child past its ceiling (its turn's
  length or its lifetime), a pass at any moment before finds none, and no time is asked for only when no child of the agent runs.
\<close>

theorem a_wake_meets_the_ceiling:
  "case subagentCeilingMs owner now max_ms rows of
     None \<Rightarrow> runningSubagents owner rows = []
   | Some ms \<Rightarrow> 0 \<le> ms
       \<and> list_ex (\<lambda>s. overdueSubagent s (now + ms) max_ms) (runningSubagents owner rows)
       \<and> \<not> (\<exists>t. now \<le> t \<and> t < now + ms \<and> list_ex (\<lambda>s. overdueSubagent s t max_ms) (runningSubagents owner rows))"
proof (cases "min_of (map (\<lambda>s. min (sa_turn_started s + max_ms) (sa_created s + SUBAGENT_LIFETIME_MS) + 1 - now) (runningSubagents owner rows))")
  case None
  then have "runningSubagents owner rows = []" by (simp add: min_of_None)
  with None show ?thesis unfolding subagentCeilingMs_def None by simp
next
  case (Some m)
  have overdue: "overdueSubagent s t max_ms \<longleftrightarrow> min (sa_turn_started s + max_ms) (sa_created s + SUBAGENT_LIFETIME_MS) + 1 \<le> t" for s t
    by (auto simp: overdueSubagent_def min_def)
  from Some obtain s where s: "s \<in> set (runningSubagents owner rows)"
    and m: "m = min (sa_turn_started s + max_ms) (sa_created s + SUBAGENT_LIFETIME_MS) + 1 - now"
    and least: "\<forall>x\<in>set (runningSubagents owner rows). m \<le> min (sa_turn_started x + max_ms) (sa_created x + SUBAGENT_LIFETIME_MS) + 1 - now"
    unfolding min_of_Some by auto
  have "overdueSubagent s (now + max 0 m) max_ms" unfolding overdue m by linarith
  with s have "list_ex (\<lambda>s. overdueSubagent s (now + max 0 m) max_ms) (runningSubagents owner rows)" by (auto simp: list_ex_iff)
  moreover have "\<not> overdueSubagent x t max_ms" if "x \<in> set (runningSubagents owner rows)" "now \<le> t" "t < now + max 0 m" for x t
    unfolding overdue using least [rule_format, OF that(1)] that(2,3) by linarith
  ultimately show ?thesis using Some by (auto simp: subagentCeilingMs_def list_ex_iff)
qed

section \<open>A turn ends once\<close>

definition turn_over :: "job_owner \<Rightarrow> string \<Rightarrow> sub_row list \<Rightarrow> bool" where
  "turn_over owner cid rows \<longleftrightarrow> \<not> has_row (\<lambda>r. is_child owner cid r \<and> in_state Sub_Running r) rows"

lemma turn_finished: "finishSubagentTurn owner cid outcome now report rows = (True, rows') \<Longrightarrow> turn_over owner cid rows'"
proof -
  have "turn_over owner cid (update_where (\<lambda>r. is_child owner cid r \<and> in_state Sub_Running r) (finish_child outcome now report) rows)"
    unfolding turn_over_def by (rule update_where_clears) (simp_all add: finish_child_def row_defs)
  then show "finishSubagentTurn owner cid outcome now report rows = (True, rows') \<Longrightarrow> ?thesis"
    by (auto simp: finishSubagentTurn_def split: option.splits if_splits)
qed

lemma finish_refused: "turn_over owner cid rows \<Longrightarrow> finishSubagentTurn owner cid outcome now report rows = (False, rows)"
  unfolding finishSubagentTurn_def turn_over_def
  by (auto simp: has_row_iff split: option.split dest: get_row_SomeD)

interpretation turn_race: one_winner "\<lambda>(outcome, now, report). finishSubagentTurn owner cid outcome now report" "turn_over owner cid"
  by unfold_locales (auto simp: turn_finished finish_refused split: prod.splits)

lemma harmless_over: "harmless rows rows' \<Longrightarrow> turn_over owner cid rows \<Longrightarrow> turn_over owner cid rows'"
proof (induction rule: harmless.induct)
  case (harmless_more rows rows' f p)
  then have "turn_over owner cid rows'" by simp
  with harmless_more.hyps(2) show ?case
    by (auto simp: turn_over_def has_row_iff set_update_where is_child_iff starts_nothing_def same_row_def split: if_splits)
qed

text \<open>
  A turn ends once. Of all the passes that try to end a child's turn, with whatever the other statements do to the table between
  them short of starting the child's next turn, at most one is told it did; every later one changes nothing.
\<close>

theorem a_turn_is_ended_once:
  assumes "\<forall>(c, e) \<in> set passes. \<forall>rows. harmless rows (e rows)"
  shows "count_list (claim_outcomes (\<lambda>(outcome, now, report). finishSubagentTurn owner cid outcome now report) passes rows) True \<le> 1"
proof (rule turn_race.at_most_one_winner)
  fix c e rows assume "(c, e) \<in> set passes" and "turn_over owner cid rows"
  moreover from this assms have "harmless rows (e rows)" by blast
  ultimately show "turn_over owner cid (e rows)" using harmless_over by blast
qed

section \<open>A stop\<close>

lemma scope_same: "same_row f \<Longrightarrow> (\<And>r. sa_parent (sr_child (f r)) = sa_parent (sr_child r)) \<Longrightarrow> in_scope owner scope (f r) = in_scope owner scope r"
  by (simp add: in_scope_def sub_owned_iff same_row_def split: option.split)

lemma stop_rows:
  "snd (stopRunningSubagents owner now scope rows) = map (\<lambda>r. if \<not> in_scope owner scope r then r
     else if in_state Sub_Running r then end_stopped now r else if in_state Sub_Reporting r then stop_child r else r) rows"
proof -
  have "in_scope owner scope (end_stopped now r) = in_scope owner scope r" for r
    by (rule scope_same [OF starts_nothing_same [OF op_changes(10)]]) (simp add: end_stopped_def stop_child_def set_child_def)
  then show ?thesis
    by (auto simp: stopRunningSubagents_def Let_def update_where_def in_state_def end_stopped_def stop_child_def set_child_def)
qed

lemma stop_told:
  "fst (stopRunningSubagents owner now scope rows) =
     (map child_id (filter (\<lambda>r. in_scope owner scope r \<and> \<not> in_state Sub_Archived r) (snd (stopRunningSubagents owner now scope rows))),
      map (\<lambda>r. sr_child (end_stopped now r)) (filter (\<lambda>r. in_scope owner scope r \<and> in_state Sub_Running r) rows))"
  by (simp add: stopRunningSubagents_def Let_def child_id_def)

text \<open>
  After a stop of an agent, or of one conversation's children, no child of it runs or owes a report; the stop names every such child that
  is not archived, so that each session is cancelled, and gives an end to exactly the turns that ran; the rows of other conversations and
  agents, and of archived children, are untouched.
\<close>

theorem a_stop_leaves_nothing_running_or_owed:
  assumes "stopRunningSubagents owner now scope rows = ((ids, ended), rows')"
  shows "(\<forall>r\<in>set rows'. in_scope owner scope r \<longrightarrow> in_state Sub_Idle r \<or> in_state Sub_Archived r)
    \<and> ids = map child_id (filter (\<lambda>r. in_scope owner scope r \<and> \<not> in_state Sub_Archived r) rows)
    \<and> map sa_id ended = map child_id (filter (\<lambda>r. in_scope owner scope r \<and> in_state Sub_Running r) rows)
    \<and> filter (\<lambda>r. \<not> in_scope owner scope r \<or> in_state Sub_Archived r) rows' = filter (\<lambda>r. \<not> in_scope owner scope r \<or> in_state Sub_Archived r) rows"
proof -
  define g where "g = (\<lambda>r. if \<not> in_scope owner scope r then r else if in_state Sub_Running r then end_stopped now r
    else if in_state Sub_Reporting r then stop_child r else r)"
  have rows': "rows' = map g rows" using stop_rows [of owner now scope rows] assms by (simp add: g_def)
  have scope: "in_scope owner scope (g r) = in_scope owner scope r" for r
    by (auto simp: g_def in_scope_def sub_owned_def end_stopped_def stop_child_def set_child_def split: option.split)
  have state: "in_state Sub_Archived (g r) = in_state Sub_Archived r" "child_id (g r) = child_id r"
    "in_scope owner scope r \<Longrightarrow> in_state Sub_Idle (g r) \<or> in_state Sub_Archived (g r)"
    "\<not> in_scope owner scope r \<or> in_state Sub_Archived r \<Longrightarrow> g r = r" for r
    by (cases "sa_state (sr_child r)"; auto simp: g_def in_state_def child_id_def end_stopped_def stop_child_def set_child_def)+
  have f: "map child_id (filter (\<lambda>r. in_scope owner scope r \<and> \<not> in_state Sub_Archived r) (map g rows))
      = map child_id (filter (\<lambda>r. in_scope owner scope r \<and> \<not> in_state Sub_Archived r) rows)"
    by (induction rows) (simp_all add: scope state)
  have k: "filter (\<lambda>r. \<not> in_scope owner scope r \<or> in_state Sub_Archived r) (map g rows)
      = filter (\<lambda>r. \<not> in_scope owner scope r \<or> in_state Sub_Archived r) rows"
    by (induction rows) (use scope state in auto)
  have e: "sa_id (sr_child (end_stopped now r)) = child_id r" for r
    by (simp add: end_stopped_def stop_child_def set_child_def child_id_def)
  show ?thesis
    using stop_told [of owner now scope rows] assms f k e scope state(3) by (auto simp: rows' comp_def)
qed

section \<open>Owed reports\<close>

text \<open>A report whose every post fails, each tried the moment it is due: when it is dropped, if it is within a number of tries.\<close>

fun dropped_at :: "nat \<Rightarrow> job_owner \<Rightarrow> string \<Rightarrow> int \<Rightarrow> sub_row list \<Rightarrow> int option" where
  "dropped_at 0 owner cid now rows = None"
| "dropped_at (Suc tries) owner cid now rows =
     (case reportFailed owner cid now rows of
        ((_, True), _) \<Rightarrow> Some now
      | ((_, False), rows') \<Rightarrow>
          (case get_row (is_child owner cid) rows' of
             None \<Rightarrow> None
           | Some r \<Rightarrow> dropped_at tries owner cid (or_else (sr_retry r) now) rows'))"

declare dropped_at.simps [simp del]

definition owes :: "job_owner \<Rightarrow> string \<Rightarrow> nat \<Rightarrow> sub_row list \<Rightarrow> bool" where
  "owes owner cid attempts rows \<longleftrightarrow> unique_children rows
     \<and> (\<exists>r. get_row (is_child owner cid) rows = Some r \<and> in_state Sub_Reporting r \<and> sr_attempts r = attempts)"

lemma count_attempt:
  assumes "owes owner cid n rows"
  shows "get_row (is_child owner cid) (update_where (\<lambda>r. is_child owner cid r \<and> in_state Sub_Reporting r) (\<lambda>r. r\<lparr>sr_attempts := Suc (sr_attempts r)\<rparr>) rows)
      = map_option (\<lambda>r. r\<lparr>sr_attempts := Suc n\<rparr>) (get_row (is_child owner cid) rows)"
    and "get_row (\<lambda>r. is_child owner cid r \<and> in_state Sub_Reporting r)
      (update_where (\<lambda>r. is_child owner cid r \<and> in_state Sub_Reporting r) (\<lambda>r. r\<lparr>sr_attempts := Suc (sr_attempts r)\<rparr>) rows)
      = map_option (\<lambda>r. r\<lparr>sr_attempts := Suc n\<rparr>) (get_row (is_child owner cid) rows)"
proof -
  let ?owed = "\<lambda>r. is_child owner cid r \<and> in_state Sub_Reporting r"
  let ?f = "\<lambda>r. r\<lparr>sr_attempts := Suc (sr_attempts r)\<rparr> :: sub_row"
  obtain r where r: "get_row (is_child owner cid) rows = Some r" "in_state Sub_Reporting r" "sr_attempts r = n" "unique_children rows"
    using assms by (auto simp: owes_def)
  have s: "same_row ?f" by (rule starts_nothing_same [OF op_changes(4)])
  show "get_row (is_child owner cid) (update_where ?owed ?f rows) = map_option (\<lambda>r. r\<lparr>sr_attempts := Suc n\<rparr>) (get_row (is_child owner cid) rows)"
    using update_child_row [OF s, of ?owed owner cid rows] r get_row_SomeD [OF r(1)] by simp
  have "get_row ?owed rows = Some r"
    using r get_row_SomeD [OF r(1)] by (intro get_row_unique [of child_id]) (auto simp: unique_children_def is_child_iff)
  moreover have "get_row ?owed (update_where ?owed ?f rows) = map_option ?f (get_row ?owed rows)"
    by (rule get_row_update_same) (simp add: row_defs is_child_def sub_owned_def)
  ultimately show "get_row ?owed (update_where ?owed ?f rows) = map_option (\<lambda>r. r\<lparr>sr_attempts := Suc n\<rparr>) (get_row (is_child owner cid) rows)"
    using r by simp
qed

lemma failed_again:
  assumes "owes owner cid n rows" and "Suc n < REPORT_MAX_ATTEMPTS" and "reportFailed owner cid now rows = (a, rows')"
  shows "a = (Suc n, False) \<and> owes owner cid (Suc n) rows'
    \<and> map_option sr_retry (get_row (is_child owner cid) rows') = Some (Some (now + reportRetryDelay (Suc n)))"
proof -
  let ?owed = "\<lambda>r. is_child owner cid r \<and> in_state Sub_Reporting r"
  let ?rows1 = "update_where ?owed (\<lambda>r. r\<lparr>sr_attempts := Suc (sr_attempts r)\<rparr>) rows"
  obtain r where r: "get_row (is_child owner cid) rows = Some r" "in_state Sub_Reporting r" "unique_children rows"
    using assms(1) by (auto simp: owes_def)
  have u: "unique_children ?rows1" using r(3) by (rule unique_update [OF starts_nothing_same [OF op_changes(4)]])
  have "a = (Suc n, False)" and rows': "rows' = update_where (is_child owner cid) (\<lambda>r. r\<lparr>sr_retry := Some (now + reportRetryDelay (Suc n))\<rparr>) ?rows1"
    using assms count_attempt(2) [OF assms(1)] r(1) by (simp_all add: reportFailed_def Let_def)
  moreover have "get_row (is_child owner cid) rows' = Some (r\<lparr>sr_attempts := Suc n, sr_retry := Some (now + reportRetryDelay (Suc n))\<rparr>)"
    unfolding rows' using count_attempt(1) [OF assms(1)] r(1)
    by (subst get_row_update_same) (simp_all add: is_child_def sub_owned_def)
  moreover have "unique_children rows'" unfolding rows' using u by (rule unique_update [OF starts_nothing_same [OF op_changes(6)]])
  ultimately show ?thesis using r(2) by (auto simp: owes_def in_state_def)
qed

lemma failed_last:
  assumes "owes owner cid n rows" and "REPORT_MAX_ATTEMPTS \<le> Suc n"
  shows "fst (reportFailed owner cid now rows) = (Suc n, True)"
proof -
  obtain r where "get_row (is_child owner cid) rows = Some r" using assms(1) by (auto simp: owes_def)
  with assms count_attempt(2) [OF assms(1)] show ?thesis by (simp add: reportFailed_def Let_def)
qed

lemma dropped_later:
  assumes "owes owner cid n rows" and "Suc n < REPORT_MAX_ATTEMPTS"
  shows "\<exists>rows'. owes owner cid (Suc n) rows' \<and> dropped_at (Suc tries) owner cid now rows = dropped_at tries owner cid (now + reportRetryDelay (Suc n)) rows'"
proof -
  obtain a rows' where f: "reportFailed owner cid now rows = (a, rows')" by fastforce
  from failed_again [OF assms f] show ?thesis using f by (intro exI [of _ rows']) (auto simp: dropped_at.simps)
qed

text \<open>
  A report that cannot be posted is tried eight times and then dropped, 635 seconds after its first try when each try is made the moment
  it is due. (The comment at the limit says about 21 minutes, which would be the time of a ninth try.)
\<close>

theorem an_undeliverable_report_is_dropped_in_time:
  assumes "owes owner cid 0 rows"
  shows "dropped_at REPORT_MAX_ATTEMPTS owner cid now rows = Some (now + 635000)"
proof -
  have go: "\<exists>rows'. owes owner cid (Suc n) rows' \<and> dropped_at (Suc m) owner cid t rows = dropped_at m owner cid (t + reportRetryDelay (Suc n)) rows'"
    if "owes owner cid n rows" "Suc n < 8" for n m t rows
    using dropped_later [OF that(1)] that(2) by (simp add: REPORT_MAX_ATTEMPTS_def)
  have e: "dropped_at 1 owner cid t rows = Some t" if "owes owner cid 7 rows" for t rows
    using failed_last [OF that, of t] by (auto simp: REPORT_MAX_ATTEMPTS_def dropped_at.simps split: prod.splits)
  have d: "\<exists>rows'. owes owner cid (n + k) rows'
      \<and> dropped_at (k + m) owner cid t rows = dropped_at m owner cid (t + sum_list (map reportRetryDelay [Suc n..<Suc (n + k)])) rows'"
    if "owes owner cid n rows" "n + k < 8" for n k m t rows
    using that
  proof (induction k arbitrary: m t rows n)
    case 0
    then show ?case by auto
  next
    case (Suc k)
    from go [OF Suc.prems(1), of "k + m" t] Suc.prems(2) obtain rows1 where r1: "owes owner cid (Suc n) rows1"
      "dropped_at (Suc k + m) owner cid t rows = dropped_at (k + m) owner cid (t + reportRetryDelay (Suc n)) rows1" by auto
    from Suc.IH [OF r1(1), of m "t + reportRetryDelay (Suc n)"] Suc.prems(2) show ?case
      using r1(2) by (simp add: upt_conv_Cons add.assoc del: upt_Suc)
  qed
  have "(0 :: nat) + 7 < 8" by simp
  from d [OF assms this, of 1 now] obtain rows' where o: "owes owner cid (0 + 7) rows'"
    and r: "dropped_at (7 + 1) owner cid now rows = dropped_at 1 owner cid (now + sum_list (map reportRetryDelay [Suc 0..<Suc (0 + 7)])) rows'" by blast
  have s: "sum_list (map reportRetryDelay [Suc 0..<Suc (0 + 7)]) = 635000" by code_simp
  have "dropped_at (7 + 1) owner cid now rows = Some (now + 635000)" unfolding r s using o by (intro e) simp
  then show ?thesis by (simp add: REPORT_MAX_ATTEMPTS_def)
qed

section \<open>Which call a turn came from\<close>

lemma sort_key_last:
  assumes "\<forall>y\<in>set xs. k y \<le> k x"
  shows "sort_key k (xs @ [x]) = sort_key k xs @ [x]"
proof (rule properties_for_sort_key)
  show "mset (sort_key k xs @ [x]) = mset (xs @ [x])" by simp
  show "filter (\<lambda>y. k z = k y) (sort_key k xs @ [x]) = filter (\<lambda>y. k z = k y) (xs @ [x])" for z
    using sort_key_stable [of k "k z" xs] by (simp add: eq_commute)
  show "sorted (map k (sort_key k xs @ [x]))" using assms by (simp add: sorted_append)
qed

text \<open>
  An event of a child is named after the call that sent the turn it belongs to, whenever it is read. Starting a turn (which is never
  before one that already started) gives the events from then on that turn's call, and leaves the call of every earlier event as it was.
\<close>

theorem an_event_keeps_its_turns_call:
  assumes "\<forall>t\<in>set (sd_turns d). fst t = cid \<longrightarrow> fst (snd t) \<le> now"
  shows "turnLineage cid moment (startSubagentTurn owner cid t now d) = (if now \<le> moment then nt_call t else turnLineage cid moment d)"
proof (cases "now \<le> moment")
  case True
  let ?old = "filter (\<lambda>t. fst t = cid \<and> fst (snd t) \<le> moment) (sd_turns d)"
  have "order_by (\<lambda>t. fst (snd t)) (?old @ [(cid, now, nt_call t)]) = order_by (\<lambda>t. fst (snd t)) ?old @ [(cid, now, nt_call t)]"
    unfolding order_by_def using assms by (intro sort_key_last) auto
  with True show ?thesis by (simp add: turnLineage_def startSubagentTurn_def recordTurnLineage_def on_rows_def)
next
  case False
  then show ?thesis by (simp add: turnLineage_def startSubagentTurn_def recordTurnLineage_def on_rows_def)
qed

end
