(* ===== verification/Subagent_Runs.thy ===== *)
theory Subagent_Runs
  imports Subagents
begin

text \<open>
  How the object runs its subagents (\<open>src/cf/src/runtime.ts\<close>): the send and its replay, the post that lands once, the completion that
  wakes a child, the pass that decides and posts reports, the stop, the switch-off, the sweep of stray runs and the retention.
  What the engine and its conversations answer, what the post of a message comes to, and what other steps of the object do while one
  of these awaits are parameters (\<open>run_env\<close>).
\<close>

section \<open>What the handlers see\<close>

datatype engine_kind = Pi085 | Pd

text \<open>A message a conversation holds: its text, the request id it was posted under and the run it belongs to.\<close>

record sub_post =
  po_session :: string
  po_text :: string
  po_request :: string
  po_op :: "string option"

text \<open>The two tables, the posted messages, the sessions cancelled, in order, and the rows handed to the trace.\<close>

record sub_world =
  sw_db :: sub_db
  sw_posts :: "sub_post list"
  sw_cancelled :: "string list"
  sw_trace :: "trace_row list"

datatype post_answer = Post_Reset | Post_Fails string bool | Post_Made "string option" bool

text \<open>
  \<open>ve_switch\<close> is what other steps do while the agent's setting is read, \<open>ve_before\<close> and \<open>ve_after\<close> what they do before and after the
  write of a post to a session, \<open>ve_cancelling\<close> while a session is cancelled, \<open>ve_storing\<close> while a long report is stored. A failed
  post may have written its message (\<open>Post_Fails e True\<close>).
\<close>

record run_env =
  ve_engine :: engine_kind
  ve_now :: int
  ve_later :: int
  ve_digest :: "string \<Rightarrow> nat list"
  ve_model :: "string \<Rightarrow> string + (string \<times> string)"
  ve_on :: bool
  ve_post :: "string \<Rightarrow> string \<Rightarrow> string \<Rightarrow> post_answer"
  ve_lane :: "string \<Rightarrow> string option"
  ve_activity :: "string \<Rightarrow> string option \<times> bool"
  ve_entries :: "string \<Rightarrow> engine_entry list"
  ve_result :: "string \<Rightarrow> string \<Rightarrow> (string \<times> string option) option"
  ve_unreadable :: "string \<Rightarrow> bool"
  ve_stored :: "subagent \<Rightarrow> string \<Rightarrow> report_overflow"
  ve_ended :: bool
  ve_own_run :: "string \<Rightarrow> string option \<Rightarrow> bool"
  ve_switch :: "sub_world \<Rightarrow> sub_world"
  ve_before :: "string \<Rightarrow> sub_world \<Rightarrow> sub_world"
  ve_after :: "string \<Rightarrow> sub_world \<Rightarrow> sub_world"
  ve_cancelling :: "string \<Rightarrow> sub_world \<Rightarrow> sub_world"
  ve_storing :: "subagent \<Rightarrow> sub_world \<Rightarrow> sub_world"

abbreviation rows_of :: "sub_world \<Rightarrow> sub_row list" where
  "rows_of w \<equiv> sd_rows (sw_db w)"

definition with_db :: "(sub_db \<Rightarrow> sub_db) \<Rightarrow> sub_world \<Rightarrow> sub_world" where
  "with_db f w = w\<lparr>sw_db := f (sw_db w)\<rparr>"

definition with_rows :: "(sub_row list \<Rightarrow> sub_row list) \<Rightarrow> sub_world \<Rightarrow> sub_world" where
  "with_rows f w = with_db (on_rows f) w"

definition add_trace :: "trace_row list \<Rightarrow> sub_world \<Rightarrow> sub_world" where
  "add_trace rs w = w\<lparr>sw_trace := sw_trace w @ rs\<rparr>"

definition cancelSession :: "run_env \<Rightarrow> string \<Rightarrow> sub_world \<Rightarrow> sub_world" where
  "cancelSession env session w = ve_cancelling env session (w\<lparr>sw_cancelled := sw_cancelled w @ [session]\<rparr>)"

section \<open>A post that lands once\<close>

text \<open>Whether a message carries a key: pd reads its request id as it is stored, pi085 the text of the conversation.\<close>

definition pd_carries :: "string \<Rightarrow> string \<Rightarrow> bool" where
  "pd_carries key request \<longleftrightarrow> str_lit request = str_lit key \<or> contains (marked_key key) (str_lit request)"

definition carries_key :: "engine_kind \<Rightarrow> string \<Rightarrow> sub_post \<Rightarrow> bool" where
  "carries_key eng key p \<longleftrightarrow> (case eng of Pd \<Rightarrow> pd_carries key (po_request p) | Pi085 \<Rightarrow> contains key (str_lit (po_text p)))"

definition postedOp :: "run_env \<Rightarrow> string \<Rightarrow> string \<Rightarrow> sub_world \<Rightarrow> string option option" where
  "postedOp env session key w =
     (case get_row (\<lambda>p. po_session p = session \<and> carries_key (ve_engine env) key p) (sw_posts w) of
        None \<Rightarrow> None
      | Some p \<Rightarrow> Some (case ve_engine env of Pd \<Rightarrow> po_op p | Pi085 \<Rightarrow> ve_lane env session))"

datatype post_end = Threw_Reset | Threw string | Skipped | Posted "string option" bool

definition write_post :: "string \<Rightarrow> string \<Rightarrow> string \<Rightarrow> string option \<Rightarrow> sub_world \<Rightarrow> sub_world" where
  "write_post session text request op w =
     w\<lparr>sw_posts := sw_posts w @ [\<lparr>po_session = session, po_text = text, po_request = request, po_op = op\<rparr>]\<rparr>"

definition post_message :: "run_env \<Rightarrow> string \<Rightarrow> string \<Rightarrow> string \<Rightarrow> (sub_world \<Rightarrow> bool) \<Rightarrow> sub_world \<Rightarrow> post_end \<times> sub_world" where
  "post_message env session text request unless w0 =
     (let w = ve_before env session w0 in
      case ve_post env session text request of
        Post_Reset \<Rightarrow> (Threw_Reset, w)
      | Post_Fails e written \<Rightarrow> (Threw e, ve_after env session (if written then write_post session text request None w else w))
      | Post_Made op started \<Rightarrow>
          if unless w then (Skipped, w) else (Posted op started, ve_after env session (write_post session text request op w)))"

definition postOnce :: "run_env \<Rightarrow> string \<Rightarrow> string \<Rightarrow> string \<Rightarrow> (sub_world \<Rightarrow> bool) \<Rightarrow> string \<Rightarrow> sub_world \<Rightarrow> post_end \<times> sub_world" where
  "postOnce env session text key unless request w =
     (case postedOp env session key w of
        Some op \<Rightarrow> (Posted op False, w)
      | None \<Rightarrow> post_message env session text request unless w)"

section \<open>The send\<close>

text \<open>Why a send that is not a replay starts nothing, from the row as it was read (\<open>existing\<close>) and the children running now.\<close>

definition send_refusal :: "job_owner \<Rightarrow> subagent option \<Rightarrow> int \<Rightarrow> sub_row list \<Rightarrow> string option" where
  "send_refusal owner existing now rows =
     (case existing of
        Some s \<Rightarrow>
          if sa_state s = Sub_Archived then Some (SUBAGENT_TOOL @ '': '' @ sa_id s
            @ '' finished long ago and its transcript is gone; start a new subagent with the whole task.'')
          else if sa_state s \<noteq> Sub_Idle then Some (SUBAGENT_TOOL @ '': '' @ sa_id s
            @ '' is still working on its last task. Its report arrives as a message; send the follow-up after that.'')
          else (case subagentSpent s now of
              Some why \<Rightarrow> Some (SUBAGENT_TOOL @ '': '' @ sa_id s @ '' takes no more tasks: '' @ why @ ''.'')
            | None \<Rightarrow> admitSubagent (runningSubagents owner rows) SUBAGENT_CAP now)
      | None \<Rightarrow> admitSubagent (runningSubagents owner rows) SUBAGENT_CAP now)"

text \<open>The row written before the task is posted: a follow-up's turn, or a new child.\<close>

definition start_row :: "job_owner \<Rightarrow> string \<Rightarrow> string \<Rightarrow> (string \<times> string \<times> string) option \<Rightarrow> string \<Rightarrow> string \<Rightarrow> subagent option \<Rightarrow> int
    \<Rightarrow> sub_db \<Rightarrow> sub_db option" where
  "start_row owner parent cid model call turn_key existing now d =
     (case existing of
        Some _ \<Rightarrow> Some (startSubagentTurn owner cid \<lparr>nt_call = Some call, nt_turn_op = None, nt_model = model, nt_turn_key = Some turn_key\<rparr> now d)
      | None \<Rightarrow> recordSubagent owner \<lparr>nc_id = cid, nc_parent = parent, nc_call = Some call, nc_option = map_option fst model,
          nc_provider = map_option (fst \<circ> snd) model, nc_model = map_option (snd \<circ> snd) model, nc_turn_op = None,
          nc_turn_key = Some turn_key\<rparr> now d)"

definition stopped_meanwhile :: "string \<Rightarrow> string" where
  "stopped_meanwhile cid = SUBAGENT_TOOL @ '': the agent was stopped while '' @ cid @ '' was being started, so it was stopped too.''"

text \<open>The task of a turn not yet given to its child, and the row read again after the post.\<close>

definition give_task :: "run_env \<Rightarrow> job_owner \<Rightarrow> string \<Rightarrow> string \<Rightarrow> string \<Rightarrow> subagent \<Rightarrow> sub_world \<Rightarrow> string option \<times> sub_world" where
  "give_task env owner task call turn_key s w =
     (let cid = sa_id s; follow_up = (1 < sa_turns s); key = taskKey cid (sa_turns s);
          refused = (\<lambda>e w1. (Some (SUBAGENT_TOOL @ '': the subagent could not be given its task: '' @ take 300 e),
            with_rows (\<lambda>rows. snd (finishSubagentTurn owner cid Sub_Failed (ve_later env) None rows)) w1)) in
      case postOnce env cid (taskMessage cid task follow_up key) key (\<lambda>_. False) key w of
        (Threw_Reset, w1) \<Rightarrow> refused [] w1
      | (Threw e, w1) \<Rightarrow> refused e w1
      | (Skipped, w1) \<Rightarrow> refused [] w1
      | (Posted op _, w1) \<Rightarrow>
          (case subagentOf owner cid (rows_of w1) of
             None \<Rightarrow> (Some (stopped_meanwhile cid), cancelSession env cid w1)
           | Some now_row \<Rightarrow>
               if sa_state now_row \<noteq> Sub_Running \<or> sa_turn_key now_row \<noteq> Some turn_key
               then (Some (stopped_meanwhile cid), cancelSession env cid w1)
               else (None, add_trace [subagentStartRow owner s (if follow_up then ''follow_up'' else ''spawn'') (Some call) (ve_later env)]
                 (with_rows (setSubagentTurnOp owner cid op) w1))))"

definition send_end :: "run_env \<Rightarrow> job_owner \<Rightarrow> string \<Rightarrow> string \<Rightarrow> string \<Rightarrow> string \<Rightarrow> sub_world \<Rightarrow> (string + json) \<times> sub_world" where
  "send_end env owner task call turn_key cid w =
     (case subagentOf owner cid (rows_of w) of
        None \<Rightarrow> (Inl [], w)
      | Some s \<Rightarrow>
          (let started = Inr (startedSubagent cid (1 < sa_turns s) (sa_option s)) in
           if sa_state s = Sub_Running \<and> sa_turn_op s = None
           then (case give_task env owner task call turn_key s w of
               (Some e, w1) \<Rightarrow> (Inl e, w1)
             | (None, w1) \<Rightarrow> (started, w1))
           else (started, w)))"

text \<open>Which child a send is for: the one asked for, if this conversation started it, or the one its call makes.\<close>

definition send_target :: "run_env \<Rightarrow> job_owner \<Rightarrow> string \<Rightarrow> string option \<Rightarrow> string \<Rightarrow> sub_row list \<Rightarrow> string + (string \<times> subagent option)" where
  "send_target env owner parent agent turn_key rows =
     (case agent of
        None \<Rightarrow> (let cid = subagentIdFor (ve_digest env) turn_key in Inr (cid, subagentOf owner cid rows))
      | Some a \<Rightarrow>
          (let refused = Inl (SUBAGENT_TOOL @ '': no subagent '' @ str_lit (take 64 a)
             @ '' was started from this conversation; leave agent out to start a new one'') in
           case subagentOf owner a rows of
             None \<Rightarrow> refused
           | Some s \<Rightarrow> if sa_parent s \<noteq> parent then refused else Inr (sa_id s, Some s)))"

definition send_model :: "run_env \<Rightarrow> string option \<Rightarrow> string + (string \<times> string \<times> string) option" where
  "send_model env model =
     (case model of
        None \<Rightarrow> Inr None
      | Some m \<Rightarrow> (case ve_model env m of
            Inl e \<Rightarrow> Inl (SUBAGENT_TOOL @ '': '' @ e @ ''. Nothing was started.'')
          | Inr (provider, name) \<Rightarrow> Inr (Some (m, provider, name))))"

definition is_replay :: "string \<Rightarrow> subagent option \<Rightarrow> bool" where
  "is_replay turn_key existing \<longleftrightarrow> (case existing of None \<Rightarrow> False | Some s \<Rightarrow> sa_turn_key s = Some turn_key)"

definition switched_off :: string where
  "switched_off = SUBAGENT_TOOL @ '': subagents are switched off for this agent, so nothing was started. Do the reading yourself.''"

definition sendToAgent :: "run_env \<Rightarrow> job_owner \<Rightarrow> string \<Rightarrow> string \<times> string option \<times> string option \<Rightarrow> string \<Rightarrow> string
    \<Rightarrow> sub_world \<Rightarrow> (string + json) \<times> sub_world" where
  "sendToAgent env owner parent p call run w =
     (case p of (task, agent, model_asked) \<Rightarrow>
      let turn_key = turnKeyOf parent run call in
      case send_model env model_asked of
        Inl e \<Rightarrow> (Inl e, w)
      | Inr model \<Rightarrow>
          (case send_target env owner parent agent turn_key (rows_of w) of
             Inl e \<Rightarrow> (Inl e, w)
           | Inr (cid, existing) \<Rightarrow>
               if is_replay turn_key existing then send_end env owner task call turn_key cid w
               else (let w1 = ve_switch env w in
                 if \<not> ve_on env then (Inl switched_off, w1)
                 else (case send_refusal owner existing (ve_now env) (rows_of w1) of
                     Some e \<Rightarrow> (Inl e, w1)
                   | None \<Rightarrow>
                       (case start_row owner parent cid model call turn_key existing (ve_now env) (sw_db w1) of
                          None \<Rightarrow> (Inl ''UNIQUE constraint failed: subagents.id'', w1)
                        | Some d \<Rightarrow> send_end env owner task call turn_key cid (w1\<lparr>sw_db := d\<rparr>))))))"
section \<open>A background completion of a child's job\<close>

datatype wake_gate = Join | Start | Drop string

definition subagentWakeGate :: "run_env \<Rightarrow> job_owner \<Rightarrow> string \<Rightarrow> bool \<Rightarrow> sub_row list \<Rightarrow> wake_gate" where
  "subagentWakeGate env owner session on rows =
     (case subagentOf owner session rows of
        None \<Rightarrow> Drop ''no such subagent''
      | Some s \<Rightarrow>
          if sa_state s = Sub_Running then Join
          else if \<not> on then Drop ''subagents are switched off''
          else if sa_state s = Sub_Reporting then Drop ''its report is owed''
          else if sa_outcome s = Some Sub_Stopped then Drop ''stopped''
          else (case subagentSpent s (ve_now env) of
              Some why \<Rightarrow> Drop why
            | None \<Rightarrow> (case admitSubagent (runningSubagents owner rows) SUBAGENT_CAP (ve_now env) of
                None \<Rightarrow> Start | Some _ \<Rightarrow> Drop ''the cap is full'')))"

definition wake_turn :: "job_owner \<Rightarrow> string \<Rightarrow> int \<Rightarrow> sub_world \<Rightarrow> sub_world" where
  "wake_turn owner session now w =
     with_db (startSubagentTurn owner session
       \<lparr>nt_call = (case subagentOf owner session (rows_of w) of None \<Rightarrow> None | Some s \<Rightarrow> sa_call s),
        nt_turn_op = None, nt_model = None, nt_turn_key = None\<rparr> now) w"

definition subagentWoken :: "job_owner \<Rightarrow> string \<Rightarrow> string option \<Rightarrow> sub_world \<Rightarrow> sub_world" where
  "subagentWoken owner session op w = (case op of None \<Rightarrow> w | Some _ \<Rightarrow> with_rows (setSubagentTurnOp owner session op) w)"

definition wake_failed :: "job_owner \<Rightarrow> string \<Rightarrow> int \<Rightarrow> string \<Rightarrow> sub_world \<Rightarrow> sub_world" where
  "wake_failed owner session now error w =
     (case releaseUnstartedTurn owner session now (rows_of w) of
        (False, _) \<Rightarrow> w
      | (True, rows) \<Rightarrow>
          (let w1 = with_rows (\<lambda>_. rows) w in
           case subagentOf owner session rows of
             None \<Rightarrow> w1
           | Some s \<Rightarrow> add_trace [subagentTurnRow owner s ''wake_failed'' now
               [(''why'', JStr ''its background completion could not be delivered''), (''error'', JStr (take 160 error))]] w1))"

text \<open>The completion of a job a child started is posted to the child, which it may wake.\<close>

definition deliverToSubagent :: "run_env \<Rightarrow> job_owner \<Rightarrow> string \<Rightarrow> string \<Rightarrow> sub_world \<Rightarrow> sub_world" where
  "deliverToSubagent env owner session text w =
     (let gate = subagentWakeGate env owner session (ve_on env) (rows_of w) in
      case gate of
        Drop _ \<Rightarrow> w
      | _ \<Rightarrow>
          (let w1 = (if gate = Start then wake_turn owner session (ve_now env) w else w) in
           case post_message env session text [] (\<lambda>_. False) w1 of
             (Posted op _, w2) \<Rightarrow>
               if gate = Start then
                 (let w3 = subagentWoken owner session op w2 in
                  case subagentOf owner session (rows_of w3) of
                    None \<Rightarrow> w3
                  | Some s \<Rightarrow> add_trace [subagentStartRow owner s ''wake'' None (ve_later env)] w3)
               else w2
           | (Threw e, w2) \<Rightarrow> if gate = Start then wake_failed owner session (ve_later env) e w2 else w2
           | (_, w2) \<Rightarrow> if gate = Start then wake_failed owner session (ve_later env) [] w2 else w2))"

section \<open>The pass over reports\<close>

text \<open>How a turn ended, or that it runs on; a run found in a session whose turn has no run recorded is adopted.\<close>

definition subagentTurnEnd :: "run_env \<Rightarrow> job_owner \<Rightarrow> subagent \<Rightarrow> sub_world \<Rightarrow> turn_end option \<times> sub_world" where
  "subagentTurnEnd env owner s w =
     (let entries = ve_entries env (sa_id s) in
      case sa_turn_op s of
        None \<Rightarrow>
          (case ve_activity env (sa_id s) of (op, busy) \<Rightarrow>
            if truthy op then (None, with_rows (setSubagentTurnOp owner (sa_id s) op) w)
            else if busy then (None, w)
            else (Some (turnEnd entries (sa_turn_started s) ''completed'' None), w))
      | Some op \<Rightarrow>
          (case ve_result env (sa_id s) op of
             None \<Rightarrow> (None, w)
           | Some (status, error) \<Rightarrow>
               if ve_engine env = Pd then
                 (if status \<noteq> ''done'' \<and> status \<noteq> ''unanswered'' then (None, w)
                  else (Some (turnEnd entries (sa_turn_started s) status None), w))
               else (Some (turnEnd entries (sa_turn_started s) status error), w)))"

definition ceiling_end :: turn_end where
  "ceiling_end = \<lparr>te_outcome = Sub_Cancelled,
     te_text = ''it ran longer than '' @ show_int (round_div SUBAGENT_MAX_MS 60000) @ '' minutes'', te_cause = Some By_Ceiling\<rparr>"

definition child_end :: "run_env \<Rightarrow> job_owner \<Rightarrow> subagent \<Rightarrow> sub_world \<Rightarrow> turn_end option \<times> sub_world" where
  "child_end env owner s w =
     (if overdueSubagent s (ve_now env) SUBAGENT_MAX_MS then (Some ceiling_end, cancelSession env (sa_id s) w)
      else if ve_unreadable env (sa_id s) then (None, w)
      else subagentTurnEnd env owner s w)"

definition decide_report :: "run_env \<Rightarrow> job_owner \<Rightarrow> subagent \<Rightarrow> sub_world \<Rightarrow> sub_world" where
  "decide_report env owner s w =
     (case child_end env owner s w of
        (None, w1) \<Rightarrow> w1
      | (Some e, w1) \<Rightarrow>
          (let overflow = (if reportOverflows e then ve_stored env s (te_text e) else None);
               w2 = (if reportOverflows e then ve_storing env s w1 else w1) in
           case finishSubagentTurn owner (sa_id s) (te_outcome e) (ve_now env) (Some (reportMessage s e (ve_now env) overflow)) (rows_of w2) of
             (False, _) \<Rightarrow> w2
           | (True, rows) \<Rightarrow>
               add_trace [subagentTurnRow owner s (outcome_text (te_outcome e)) (ve_now env)
                   ([(''reportChars'', JNum (int (reportBodyChars e)))]
                    @ (case te_cause e of None \<Rightarrow> [] | Some c \<Rightarrow> [(''cause'', JStr (cause_text c))]))]
                 (with_rows (\<lambda>_. rows) w2)))"

text \<open>A \<open>Map\<close> from parents to the children owing them, both in the order they were first seen.\<close>

fun add_owed :: "subagent \<Rightarrow> (string \<times> subagent list) list \<Rightarrow> (string \<times> subagent list) list" where
  "add_owed s [] = [(sa_parent s, [s])]"
| "add_owed s ((p, owed) # gs) = (if p = sa_parent s then (p, owed @ [s]) # gs else (p, owed) # add_owed s gs)"

definition group_owed :: "subagent list \<Rightarrow> (string \<times> subagent list) list" where
  "group_owed owed = fold add_owed owed []"

definition stillOwed :: "job_owner \<Rightarrow> subagent list \<Rightarrow> sub_world \<Rightarrow> bool" where
  "stillOwed owner owed w \<longleftrightarrow> list_all (\<lambda>s. map_option sa_state (subagentOf owner (sa_id s) (rows_of w)) = Some Sub_Reporting) owed"

definition report_text :: "subagent list \<Rightarrow> string" where
  "report_text fresh =
     (let off = filter (\<lambda>s. sa_outcome s = Some Sub_Stopped) fresh;
          blocks = map (\<lambda>s. or_else (sa_report s) []) (filter (\<lambda>s. sa_outcome s \<noteq> Some Sub_Stopped) fresh)
            @ (if off \<noteq> [] then [switchedOffNotice off] else []) in
      if length blocks = 1 then hd blocks
      else ''['' @ show_nat (length blocks)
        @ '' subagent reports, each below with its own head; notices from the harness, not messages from the user.]'' @ [NL, NL]
        @ join_with ([NL, NL] @ ''---'' @ [NL, NL]) blocks)"

definition mark_all :: "job_owner \<Rightarrow> subagent list \<Rightarrow> sub_row list \<Rightarrow> sub_row list" where
  "mark_all owner owed rows = fold (\<lambda>s. markReported owner (sa_id s)) owed rows"

definition inbound_row :: "job_owner \<Rightarrow> string \<Rightarrow> int \<Rightarrow> trace_row" where
  "inbound_row owner alias_name now =
     \<lparr>tr_at = now, tr_tenant = fst owner, tr_agent = snd owner, tr_kind = ''inbound'', tr_span = alias_name @ '':'' @ show_int now,
      tr_parent = None, tr_status = ''delivered'', tr_verdict = VOk, tr_ms = None,
      tr_attrs = [(''alias'', JStr alias_name), (''source'', JStr alias_name)]\<rparr>"

definition note_started :: "run_env \<Rightarrow> job_owner \<Rightarrow> bool \<Rightarrow> sub_world \<Rightarrow> sub_world" where
  "note_started env owner started w =
     (if started then add_trace [inbound_row owner ''subagent_report'' (ve_later env)] w else w)"

text \<open>Each child of a failed post loses an attempt; those that lost their last are dropped.\<close>

fun fail_reports :: "run_env \<Rightarrow> job_owner \<Rightarrow> string \<Rightarrow> subagent list \<Rightarrow> sub_world \<Rightarrow> (subagent \<times> nat) list \<times> sub_world" where
  "fail_reports env owner error [] w = ([], w)"
| "fail_reports env owner error (s # owed) w =
     (case reportFailed owner (sa_id s) (ve_later env) (rows_of w) of ((attempts, dropped), rows) \<Rightarrow>
      let extra = [(''attempts'', JNum (int attempts)), (''error'', JStr error)];
          w1 = add_trace ([subagentTurnRow owner s ''report_failed'' (ve_later env) extra]
              @ (if dropped then [subagentTurnRow owner s ''report_dropped'' (ve_later env) extra] else []))
            (with_rows (\<lambda>_. rows) w) in
      (case fail_reports env owner error owed w1 of (lost, w2) \<Rightarrow> ((if dropped then [(s, attempts)] else []) @ lost, w2)))"

definition tell_lost :: "run_env \<Rightarrow> job_owner \<Rightarrow> string \<Rightarrow> (subagent \<times> nat) list \<Rightarrow> sub_world \<Rightarrow> sub_world" where
  "tell_lost env owner parent lost w =
     (case lost of
        [] \<Rightarrow> w
      | first # _ \<Rightarrow>
          (let keys = map (undeliveredKey \<circ> fst) lost in
           case postOnce env parent (undeliveredNotice (map fst lost) (snd first)) (hd keys) (\<lambda>_. False) (combinedRequestId keys) w of
             (Posted _ started, w1) \<Rightarrow> note_started env owner started w1
           | (_, w1) \<Rightarrow> w1))"

definition cancelOwnRun :: "run_env \<Rightarrow> string \<Rightarrow> string option \<Rightarrow> sub_world \<Rightarrow> sub_world" where
  "cancelOwnRun env session op w =
     (if op = None \<or> \<not> ve_own_run env session op then w else cancelSession env session w)"

text \<open>One parent's reports: how many were posted or found there already.\<close>

definition post_group :: "run_env \<Rightarrow> job_owner \<Rightarrow> string \<times> subagent list \<Rightarrow> sub_world \<Rightarrow> nat \<times> sub_world" where
  "post_group env owner g w =
     (case g of (parent, owed) \<Rightarrow>
      if \<not> stillOwed owner owed w then (0, w)
      else let fresh = filter (\<lambda>s. postedOp env parent (reportKey s) w = None) owed;
               reported = (\<lambda>w1. (length owed, with_rows (mark_all owner owed) w1)) in
        if fresh = [] then reported w
        else (case postOnce env parent (report_text fresh) (reportKey (hd fresh)) (\<lambda>w1. \<not> stillOwed owner owed w1)
              (combinedRequestId (map reportKey fresh)) w of
            (Skipped, w1) \<Rightarrow> (0, w1)
          | (Posted op started, w1) \<Rightarrow>
              if \<not> stillOwed owner owed w1 then (0, cancelOwnRun env parent op w1)
              else reported (note_started env owner started w1)
          | (Threw_Reset, w1) \<Rightarrow> (0, with_rows (mark_all owner owed) w1)
          | (Threw e, w1) \<Rightarrow>
              (case fail_reports env owner (take 200 e) owed w1 of (lost, w2) \<Rightarrow> (0, tell_lost env owner parent lost w2))))"

fun post_groups :: "run_env \<Rightarrow> job_owner \<Rightarrow> (string \<times> subagent list) list \<Rightarrow> sub_world \<Rightarrow> nat \<times> sub_world" where
  "post_groups env owner [] w = (0, w)"
| "post_groups env owner (g # gs) w =
     (case post_group env owner g w of (n, w1) \<Rightarrow>
      (case post_groups env owner gs w1 of (m, w2) \<Rightarrow> (n + m, w2)))"

definition reportSubagents :: "run_env \<Rightarrow> job_owner \<Rightarrow> sub_world \<Rightarrow> nat \<times> sub_world" where
  "reportSubagents env owner w =
     (let w1 = fold (decide_report env owner) (runningSubagents owner (rows_of w)) w;
          owed = reportingSubagents owner (ve_later env) (rows_of w1) in
      if ve_ended env then (0, with_rows (mark_all owner owed) w1)
      else post_groups env owner (group_owed owed) w1)"

section \<open>Stops, the sweep and retention\<close>

definition stopSubagents :: "job_owner \<Rightarrow> int \<Rightarrow> string option \<Rightarrow> sub_world \<Rightarrow> (string list \<times> string list) \<times> sub_world" where
  "stopSubagents owner now scope w =
     (case stopRunningSubagents owner now scope (rows_of w) of ((ids, stopped), rows) \<Rightarrow>
      ((ids, map sa_id stopped),
       add_trace (map (\<lambda>s. subagentTurnRow owner s ''stopped'' now [(''reportChars'', JNum 0)]) stopped) (with_rows (\<lambda>_. rows) w)))"

definition switchOffPass :: "run_env \<Rightarrow> job_owner \<Rightarrow> sub_world \<Rightarrow> string list \<times> sub_world" where
  "switchOffPass env owner w =
     (if runningSubagents owner (rows_of w) = [] then ([], w)
      else let w0 = ve_switch env w in
        if ve_on env then ([], w0)
        else (case switchOffSubagents owner (ve_now env) (rows_of w0) of (off, rows) \<Rightarrow>
          let w1 = add_trace (map (\<lambda>s. subagentTurnRow owner s ''stopped'' (ve_now env)
                [(''reportChars'', JNum 0), (''cause'', JStr ''switched_off'')]) off) (with_rows (\<lambda>_. rows) w0) in
          (map sa_id off, fold (\<lambda>s. cancelSession env (sa_id s)) off w1)))"

text \<open>\<open>busy\<close> are the subagent sessions with work; \<open>runs\<close> says that one has a run of its own, not only a background job.\<close>

definition is_stray :: "run_env \<Rightarrow> job_owner \<Rightarrow> (string \<Rightarrow> bool) \<Rightarrow> sub_row list \<Rightarrow> string \<Rightarrow> bool" where
  "is_stray env owner runs rows session =
     (case subagentOf owner session rows of
        None \<Rightarrow> True
      | Some s \<Rightarrow>
          if sa_state s = Sub_Running then False
          else if sa_outcome s = Some Sub_Stopped \<or> ve_engine env = Pd then True
          else runs session)"

definition cancelStraySubagents :: "run_env \<Rightarrow> job_owner \<Rightarrow> string list \<Rightarrow> (string \<Rightarrow> bool) \<Rightarrow> sub_world \<Rightarrow> string list \<times> sub_world" where
  "cancelStraySubagents env owner with_work runs w =
     (let recent = (if ve_engine env = Pd then []
            else filter runs (map sa_id (filter (\<lambda>s. sa_state s \<noteq> Sub_Running
              \<and> ve_now env - SUBAGENT_LIFETIME_MS < or_else (sa_finished s) 0) (listSubagents owner 200 (rows_of w)))));
          busy = (if ve_engine env = Pd then filter isSubagentSession with_work
            else rev (remdups (rev (filter isSubagentSession with_work @ recent))));
          stray = filter (is_stray env owner runs (rows_of w)) busy in
      (stray, fold (cancelSession env) stray w))"

definition archiveSubagents :: "job_owner \<Rightarrow> int \<Rightarrow> int \<Rightarrow> job_row list \<Rightarrow> sub_world \<Rightarrow> string list \<times> sub_world" where
  "archiveSubagents owner now retention jobs w =
     (let ids = map sa_id (archivableSubagents owner now retention SUBAGENT_ARCHIVE_PER_PASS jobs (rows_of w)) in
      (ids, with_db (fold (markArchived owner) ids) w))"
section \<open>Every handler is a run of the table's statements\<close>

text \<open>What other steps do while a handler awaits is itself a run of statements.\<close>

definition awaits_run :: "job_owner \<Rightarrow> run_env \<Rightarrow> bool" where
  "awaits_run owner env \<longleftrightarrow> (\<forall>w. sub_run owner (sw_db w) (sw_db (ve_switch env w))
     \<and> (\<forall>s. sub_run owner (sw_db w) (sw_db (ve_storing env s w)))
     \<and> (\<forall>x. sub_run owner (sw_db w) (sw_db (ve_before env x w)) \<and> sub_run owner (sw_db w) (sw_db (ve_after env x w))
          \<and> sub_run owner (sw_db w) (sw_db (ve_cancelling env x w))))"

abbreviation follows :: "job_owner \<Rightarrow> sub_world \<Rightarrow> sub_world \<Rightarrow> bool" where
  "follows owner w w' \<equiv> sub_run owner (sw_db w) (sw_db w')"

lemma awaitsD:
  assumes "awaits_run owner env"
  shows "follows owner w (ve_switch env w)" and "follows owner w (ve_storing env s w)" and "follows owner w (ve_before env x w)"
    and "follows owner w (ve_after env x w)" and "follows owner w (ve_cancelling env x w)"
  using assms by (simp_all add: awaits_run_def)

lemma world_sel [simp]:
  "sw_db (with_db g w) = g (sw_db w)" "sw_db (with_rows f w) = on_rows f (sw_db w)" "sw_db (add_trace rs w) = sw_db w"
  "sw_db (write_post session text request op w) = sw_db w"
  "sw_posts (with_db g w) = sw_posts w" "sw_posts (with_rows f w) = sw_posts w" "sw_posts (add_trace rs w) = sw_posts w"
  "sd_rows (on_rows f d) = f (sd_rows d)"
  by (simp_all add: with_db_def with_rows_def add_trace_def write_post_def on_rows_def)

lemma on_rows_now: "on_rows (\<lambda>_. f (sd_rows d)) d = on_rows f d"
  by (simp add: on_rows_def)

lemma run_one: "sub_step owner d d' \<Longrightarrow> sub_run owner d d'"
  by (rule r_into_rtranclp)

lemma finish_run: "finishSubagentTurn owner cid outcome now report (sd_rows d) = (b, rows) \<Longrightarrow> sub_run owner d (on_rows (\<lambda>_. rows) d)"
  using run_one [OF turn_ended [of owner d cid outcome now report]] on_rows_now [of "\<lambda>rows. snd (finishSubagentTurn owner cid outcome now report rows)" d]
  by simp

lemma failed_run: "reportFailed owner cid now (sd_rows d) = (b, rows) \<Longrightarrow> sub_run owner d (on_rows (\<lambda>_. rows) d)"
  using run_one [OF post_failed [of owner d cid now]] on_rows_now [of "\<lambda>rows. snd (reportFailed owner cid now rows)" d] by simp

lemma release_run: "releaseUnstartedTurn owner cid now (sd_rows d) = (b, rows) \<Longrightarrow> sub_run owner d (on_rows (\<lambda>_. rows) d)"
  using run_one [OF released [of owner d cid now]] on_rows_now [of "\<lambda>rows. snd (releaseUnstartedTurn owner cid now rows)" d] by simp

lemma stop_run: "stopRunningSubagents owner now scope (sd_rows d) = (b, rows) \<Longrightarrow> sub_run owner d (on_rows (\<lambda>_. rows) d)"
  using run_one [OF stopped [of owner d now scope]] on_rows_now [of "\<lambda>rows. snd (stopRunningSubagents owner now scope rows)" d] by simp

lemma switch_run: "switchOffSubagents owner now (sd_rows d) = (b, rows) \<Longrightarrow> sub_run owner d (on_rows (\<lambda>_. rows) d)"
  using run_one [OF switched [of owner d now]] on_rows_now [of "\<lambda>rows. snd (switchOffSubagents owner now rows)" d] by simp

lemma mark_all_run: "sub_run owner d (on_rows (mark_all owner owed) d)"
proof (induction owed arbitrary: d)
  case Nil
  show ?case by (simp add: mark_all_def on_rows_def)
next
  case (Cons s owed)
  have "on_rows (mark_all owner (s # owed)) d = on_rows (mark_all owner owed) (on_rows (markReported owner (sa_id s)) d)"
    by (simp add: mark_all_def on_rows_def)
  with Cons run_one [OF reported] show ?case by (metis rtranclp_trans)
qed

lemma cancel_follows: "awaits_run owner env \<Longrightarrow> follows owner w (cancelSession env session w)"
  using awaitsD(5) [of owner env "w\<lparr>sw_cancelled := sw_cancelled w @ [session]\<rparr>" session] by (simp add: cancelSession_def)

lemma cancels_follow: "awaits_run owner env \<Longrightarrow> follows owner w (fold (\<lambda>s. cancelSession env (g s)) ss w)"
  by (induction ss arbitrary: w) (auto intro: rtranclp_trans cancel_follows)

lemma post_message_follows:
  assumes "awaits_run owner env" and "post_message env session text request unless w = (r, w')"
  shows "follows owner w w'"
proof -
  let ?b = "ve_before env session w"
  have b: "follows owner w ?b" by (rule awaitsD(3) [OF assms(1)])
  have a: "follows owner w (ve_after env session x)" if "sw_db x = sw_db ?b" for x
    using b awaitsD(4) [OF assms(1), of x session] that by simp
  show ?thesis
    using assms(2) a b unfolding post_message_def Let_def by (auto split: post_answer.splits if_splits)
qed

lemma postOnce_follows:
  "awaits_run owner env \<Longrightarrow> postOnce env session text key unless request w = (r, w') \<Longrightarrow> follows owner w w'"
  using post_message_follows by (auto simp: postOnce_def split: option.splits)

lemma give_task_follows:
  assumes "awaits_run owner env" and "give_task env owner task call turn_key s w = (r, w')"
  shows "follows owner w w'"
proof -
  let ?key = "taskKey (sa_id s) (sa_turns s)"
  obtain e w1 where p: "postOnce env (sa_id s) (taskMessage (sa_id s) task (1 < sa_turns s) ?key) ?key (\<lambda>_. False) ?key w = (e, w1)" by fastforce
  have w1: "follows owner w w1" by (rule postOnce_follows [OF assms(1) p])
  have f: "follows owner w (with_rows (\<lambda>rows. snd (finishSubagentTurn owner (sa_id s) Sub_Failed (ve_later env) None rows)) w1)"
    using w1 turn_ended [of owner "sw_db w1" "sa_id s"] by (simp add: rtranclp.rtrancl_into_rtrancl)
  have c: "follows owner w (cancelSession env (sa_id s) w1)"
    using w1 cancel_follows [OF assms(1), of w1] rtranclp_trans by metis
  have o: "follows owner w (add_trace rs (with_rows (setSubagentTurnOp owner (sa_id s) op) w1))" for rs op
    using w1 op_set [of owner "sw_db w1"] by (simp add: rtranclp.rtrancl_into_rtrancl)
  show ?thesis using assms(2) f c o p unfolding give_task_def Let_def
    by (auto split: post_end.splits option.splits if_splits)
qed

lemma send_end_follows: "awaits_run owner env \<Longrightarrow> send_end env owner task call turn_key cid w = (r, w') \<Longrightarrow> follows owner w w'"
  by (auto simp: send_end_def Let_def split: option.splits if_splits prod.splits dest: give_task_follows)

definition byte_digest :: "run_env \<Rightarrow> bool" where
  "byte_digest env \<longleftrightarrow> (\<forall>k. list_all (\<lambda>b. b < 256) (ve_digest env k))"

lemma plain_hex: "n < 16 \<Longrightarrow> plain [hex_digit n]"
proof -
  assume "n < 16"
  then have "(of_char (hex_digit n) :: nat) = (if n < 10 then 48 + n else 87 + n)" by (simp add: hex_digit_def take_bit_eq_mod)
  moreover from this \<open>n < 16\<close> have "hex_digit n \<noteq> CHR ''<''" and "hex_digit n \<noteq> CHR ''>''"
    by (auto dest: arg_cong [where f = "of_char :: char \<Rightarrow> nat"] split: if_splits)
  ultimately show ?thesis using \<open>n < 16\<close> by (simp add: plain_def esc_char_def Let_def)
qed

lemma plain_concat: "(\<And>x. x \<in> set xs \<Longrightarrow> plain x) \<Longrightarrow> plain (concat xs)"
  by (auto simp: plain_def list_all_iff)

lemma plain_child: "byte_digest env \<Longrightarrow> plain (subagentIdFor (ve_digest env) k)"
proof -
  assume "byte_digest env"
  then have b: "b < 256" if "b \<in> set (take 8 (ve_digest env k))" for b
    using that in_set_takeD by (fastforce simp: byte_digest_def list_all_iff)
  have "plain [hex_digit (b div 16), hex_digit (b mod 16)]" if "b \<in> set (take 8 (ve_digest env k))" for b
  proof -
    have "plain ([hex_digit (b div 16)] @ [hex_digit (b mod 16)])"
      unfolding plain_append using b [OF that] by (simp add: plain_hex)
    then show ?thesis by simp
  qed
  then have "plain (concat (map (\<lambda>b. [hex_digit (b div 16), hex_digit (b mod 16)]) (take 8 (ve_digest env k))))"
    by (intro plain_concat) auto
  moreover have "plain SUBAGENT_SESSION_PREFIX" by (simp add: SUBAGENT_SESSION_PREFIX_def plain_def esc_char_def)
  ultimately show ?thesis by (simp add: subagentIdFor_def)
qed

lemma admit_room: "admitSubagent running cap now = None \<longleftrightarrow> length running < cap"
  by (simp add: admitSubagent_def)

lemma refusal_room: "send_refusal owner existing now rows = None \<Longrightarrow> length (runningSubagents owner rows) < SUBAGENT_CAP"
  by (auto simp: send_refusal_def admit_room split: option.splits if_splits)

lemma start_row_step:
  assumes "start_row owner parent cid model call turn_key existing now d = Some d'" and "length (runningSubagents owner (sd_rows d)) < SUBAGENT_CAP"
    and "existing = None \<Longrightarrow> plain cid"
  shows "sub_step owner d d'"
proof (cases existing)
  case None
  with assms show ?thesis unfolding start_row_def by (auto intro!: child_made)
next
  case (Some s)
  with assms show ?thesis unfolding start_row_def by (auto intro!: turn_begun)
qed

lemma target_plain: "byte_digest env \<Longrightarrow> send_target env owner parent agent turn_key rows = Inr (cid, None) \<Longrightarrow> plain cid"
  by (auto simp: send_target_def Let_def plain_child split: option.splits if_splits)

lemma send_follows:
  assumes "awaits_run owner env" and "byte_digest env" and "sendToAgent env owner parent p call run w = (r, w')"
  shows "follows owner w w'"
proof -
  obtain task agent asked where p: "p = (task, agent, asked)" by (cases p)
  let ?k = "turnKeyOf parent run call" and ?w1 = "ve_switch env w"
  have sw: "follows owner w ?w1" by (rule awaitsD(1) [OF assms(1)])
  have replayed: "follows owner w w'" if "send_end env owner task call ?k cid w = (r, w')" for cid
    by (rule send_end_follows [OF assms(1) that])
  have begun: "follows owner w w'" if "send_target env owner parent agent ?k (rows_of w) = Inr (cid, existing)"
    "send_refusal owner existing (ve_now env) (rows_of ?w1) = None"
    "start_row owner parent cid model call ?k existing (ve_now env) (sw_db ?w1) = Some d"
    "send_end env owner task call ?k cid (?w1\<lparr>sw_db := d\<rparr>) = (r, w')" for cid existing model d
  proof -
    have "sub_step owner (sw_db ?w1) d"
    proof (rule start_row_step [OF that(3) refusal_room [OF that(2)]])
      show "plain cid" if "existing = None" using target_plain [OF assms(2)] \<open>send_target env owner parent agent ?k (rows_of w) = Inr (cid, existing)\<close> that by blast
    qed
    with sw have "sub_run owner (sw_db w) d" by (rule rtranclp.rtrancl_into_rtrancl)
    moreover have "sub_run owner d (sw_db w')" using send_end_follows [OF assms(1) that(4)] by simp
    ultimately show ?thesis by (rule rtranclp_trans)
  qed
  show ?thesis using assms(3) sw replayed begun unfolding sendToAgent_def p
    by (auto simp: Let_def split: sum.splits prod.splits option.splits if_splits)
qed

lemma wake_room: "subagentWakeGate env owner session on rows = Start \<Longrightarrow> length (runningSubagents owner rows) < SUBAGENT_CAP"
  by (auto simp: subagentWakeGate_def admit_room split: option.splits if_splits)

lemma wake_failed_follows: "follows owner w (wake_failed owner session now e w)"
proof (cases "releaseUnstartedTurn owner session now (rows_of w)")
  case (Pair b rows)
  from release_run [OF Pair] Pair show ?thesis by (auto simp: wake_failed_def Let_def split: bool.split option.split)
qed

lemma woken_follows: "follows owner w (subagentWoken owner session op w)"
  by (auto simp: subagentWoken_def intro: run_one op_set split: option.split)

lemma deliver_follows:
  assumes "awaits_run owner env"
  shows "follows owner w (deliverToSubagent env owner session text w)"
proof -
  define gate where "gate = subagentWakeGate env owner session (ve_on env) (rows_of w)"
  define w1 where "w1 = (if gate = Start then wake_turn owner session (ve_now env) w else w)"
  have s: "follows owner w w1"
    unfolding w1_def gate_def wake_turn_def by (auto dest: wake_room intro!: run_one turn_begun)
  obtain r w2 where p: "post_message env session text [] (\<lambda>_. False) w1 = (r, w2)" by fastforce
  have w2: "follows owner w w2" using s post_message_follows [OF assms p] by (rule rtranclp_trans)
  have f: "follows owner w (wake_failed owner session (ve_later env) e w2)" for e
    using w2 wake_failed_follows by (rule rtranclp_trans)
  have o: "follows owner w (subagentWoken owner session op w2)" for op
    using w2 woken_follows by (rule rtranclp_trans)
  show ?thesis unfolding deliverToSubagent_def Let_def gate_def [symmetric] w1_def [symmetric] p
    using w2 f o by (auto split: wake_gate.split post_end.split option.split)
qed

lemma child_end_follows:
  assumes "awaits_run owner env" and "child_end env owner s w = (e, w')"
  shows "follows owner w w'"
proof -
  have "follows owner w (with_rows (setSubagentTurnOp owner (sa_id s) op) w)" for op
    by (auto intro: run_one op_set)
  with assms cancel_follows [OF assms(1), of w] show ?thesis
    by (auto simp: child_end_def subagentTurnEnd_def Let_def split: if_splits option.splits prod.splits)
qed

lemma decide_follows:
  assumes "awaits_run owner env"
  shows "follows owner w (decide_report env owner s w)"
proof -
  obtain e w1 where c: "child_end env owner s w = (e, w1)" by fastforce
  note w1 = child_end_follows [OF assms c]
  show ?thesis
  proof (cases e)
    case None
    with c w1 show ?thesis by (simp add: decide_report_def)
  next
    case (Some en)
    define w2 where "w2 = (if reportOverflows en then ve_storing env s w1 else w1)"
    define overflow where "overflow = (if reportOverflows en then ve_stored env s (te_text en) else None)"
    have w2: "follows owner w w2"
      using w1 rtranclp_trans [OF w1 awaitsD(2) [OF assms, of w1 s]] by (simp add: w2_def)
    obtain b rows where f: "finishSubagentTurn owner (sa_id s) (te_outcome en) (ve_now env)
      (Some (reportMessage s en (ve_now env) overflow)) (rows_of w2) = (b, rows)" by fastforce
    have "follows owner w (with_rows (\<lambda>_. rows) w2)" using rtranclp_trans [OF w2 finish_run [OF f]] by simp
    with w2 show ?thesis unfolding decide_report_def c Some option.case Let_def w2_def [symmetric] overflow_def [symmetric] prod.case f
      by (cases b) simp_all
  qed
qed

lemma decides_follow: "awaits_run owner env \<Longrightarrow> follows owner w (fold (decide_report env owner) ss w)"
  by (induction ss arbitrary: w) (auto intro: rtranclp_trans decide_follows)

lemma note_started_sel [simp]: "sw_db (note_started env owner b w) = sw_db w" "sw_posts (note_started env owner b w) = sw_posts w"
  by (simp_all add: note_started_def)

lemma fail_reports_follow: "fail_reports env owner e owed w = (lost, w') \<Longrightarrow> follows owner w w'"
proof (induction owed arbitrary: w lost)
  case Nil
  then show ?case by simp
next
  case (Cons s owed)
  obtain a dr rows where f: "reportFailed owner (sa_id s) (ve_later env) (rows_of w) = ((a, dr), rows)" by (metis surj_pair)
  define w1 where "w1 = add_trace ([subagentTurnRow owner s ''report_failed'' (ve_later env) [(''attempts'', JNum (int a)), (''error'', JStr e)]]
    @ (if dr then [subagentTurnRow owner s ''report_dropped'' (ve_later env) [(''attempts'', JNum (int a)), (''error'', JStr e)]] else []))
    (with_rows (\<lambda>_. rows) w)"
  obtain lost1 where r: "fail_reports env owner e owed w1 = (lost1, w')"
    using Cons.prems f by (auto simp: Let_def w1_def split: prod.splits)
  have w1: "sw_db w1 = on_rows (\<lambda>_. rows) (sw_db w)" by (simp add: w1_def)
  show ?case using rtranclp_trans [OF failed_run [OF f] Cons.IH [OF r, unfolded w1]] .
qed

lemma tell_lost_follows: "awaits_run owner env \<Longrightarrow> follows owner w (tell_lost env owner parent lost w)"
  by (auto simp: tell_lost_def Let_def split: list.split prod.split post_end.split dest: postOnce_follows)

lemma own_run_follows: "awaits_run owner env \<Longrightarrow> follows owner w (cancelOwnRun env session op w)"
  by (simp add: cancelOwnRun_def cancel_follows)

lemma post_group_follows:
  assumes "awaits_run owner env"
  shows "follows owner w (snd (post_group env owner g w))"
proof -
  obtain parent owed where g: "g = (parent, owed)" by fastforce
  define fresh where "fresh = filter (\<lambda>s. postedOp env parent (reportKey s) w = None) owed"
  obtain r w1 where p: "postOnce env parent (report_text fresh) (reportKey (hd fresh)) (\<lambda>w1. \<not> stillOwed owner owed w1)
    (combinedRequestId (map reportKey fresh)) w = (r, w1)" by fastforce
  obtain lost w2 where f: "fail_reports env owner (case r of Threw e \<Rightarrow> take 200 e | _ \<Rightarrow> []) owed w1 = (lost, w2)" by fastforce
  have w1: "follows owner w w1" by (rule postOnce_follows [OF assms p])
  have m: "follows owner w (with_rows (mark_all owner owed) w)" by (simp add: mark_all_run)
  have m1: "follows owner w (with_rows (mark_all owner owed) w1)" using rtranclp_trans [OF w1 mark_all_run] by simp
  have c1: "follows owner w (cancelOwnRun env parent op w1)" for op using rtranclp_trans [OF w1 own_run_follows [OF assms]] .
  have l: "follows owner w (tell_lost env owner parent lost w2)"
    using rtranclp_trans [OF w1 rtranclp_trans [OF fail_reports_follow [OF f] tell_lost_follows [OF assms]]] .
  show ?thesis
  proof (cases "stillOwed owner owed w \<and> fresh \<noteq> []")
    case False
    then show ?thesis using m by (auto simp: post_group_def g fresh_def [symmetric] Let_def)
  next
    case True
    then show ?thesis
      unfolding post_group_def g prod.case Let_def fresh_def [symmetric] p using w1 m1 c1 l f by (cases r) auto
  qed
qed

lemma post_groups_follow: "awaits_run owner env \<Longrightarrow> follows owner w (snd (post_groups env owner gs w))"
proof (induction gs arbitrary: w)
  case Nil
  show ?case by simp
next
  case (Cons g gs)
  obtain n w1 where g: "post_group env owner g w = (n, w1)" by fastforce
  have "follows owner w w1" using post_group_follows [OF Cons.prems, of w g] g by simp
  with Cons.IH [OF Cons.prems, of w1] show ?case using g by (auto split: prod.splits intro: rtranclp_trans)
qed

lemma report_follows:
  assumes "awaits_run owner env"
  shows "follows owner w (snd (reportSubagents env owner w))"
proof -
  define w1 where "w1 = fold (decide_report env owner) (runningSubagents owner (rows_of w)) w"
  have w1: "follows owner w w1" unfolding w1_def by (rule decides_follow [OF assms])
  have "follows owner w1 (with_rows (mark_all owner owed) w1)" for owed by (simp add: mark_all_run)
  then show ?thesis unfolding reportSubagents_def Let_def w1_def [symmetric]
    using w1 post_groups_follow [OF assms, of w1] by (auto intro: rtranclp_trans)
qed

lemma stop_follows: "follows owner w (snd (stopSubagents owner now scope w))"
proof -
  obtain ids ended rows where s: "stopRunningSubagents owner now scope (rows_of w) = ((ids, ended), rows)" by (metis surj_pair)
  from stop_run [OF s] show ?thesis by (simp add: stopSubagents_def s)
qed

lemma switch_follows:
  assumes "awaits_run owner env"
  shows "follows owner w (snd (switchOffPass env owner w))"
proof -
  define w0 where "w0 = ve_switch env w"
  have w0: "follows owner w w0" unfolding w0_def by (rule awaitsD(1) [OF assms])
  obtain off rows where s: "switchOffSubagents owner (ve_now env) (rows_of w0) = (off, rows)" by fastforce
  define w1 where "w1 = add_trace (map (\<lambda>s. subagentTurnRow owner s ''stopped'' (ve_now env)
    [(''reportChars'', JNum 0), (''cause'', JStr ''switched_off'')]) off) (with_rows (\<lambda>_. rows) w0)"
  have "follows owner w w1" using rtranclp_trans [OF w0 switch_run [OF s]] by (simp add: w1_def)
  from rtranclp_trans [OF this cancels_follow [OF assms]]
  have "follows owner w (fold (\<lambda>s. cancelSession env (sa_id s)) off w1)" .
  then show ?thesis using w0 by (simp add: switchOffPass_def Let_def w0_def [symmetric] s w1_def [symmetric])
qed

lemma stray_follows: "awaits_run owner env \<Longrightarrow> follows owner w (snd (cancelStraySubagents env owner with_work runs w))"
  using cancels_follow [of owner env w "\<lambda>x. x"] by (simp add: cancelStraySubagents_def Let_def)

lemma archive_follows: "follows owner w (snd (archiveSubagents owner now retention jobs w))"
proof -
  have "sub_run owner d (fold (markArchived owner) ids d)" for ids d
    by (induction ids arbitrary: d) (auto intro: converse_rtranclp_into_rtranclp sub_step.archived)
  then show ?thesis by (simp add: archiveSubagents_def Let_def)
qed

section \<open>What the object can do\<close>

text \<open>
  The handlers, each with what the other steps do while it awaits, and a crash in the middle of one: what it had written to the
  two tables stays written, its messages written (\<open>cut_after\<close>) or not (\<open>cut_before\<close>). \<open>ok\<close> is what is required of the parameters.
\<close>

definition env_ok :: "(run_env \<Rightarrow> bool) \<Rightarrow> job_owner \<Rightarrow> run_env \<Rightarrow> bool" where
  "env_ok ok owner env \<longleftrightarrow> ok env \<and> awaits_run owner env \<and> byte_digest env"

inductive sub_handler :: "(run_env \<Rightarrow> bool) \<Rightarrow> job_owner \<Rightarrow> sub_world \<Rightarrow> sub_world \<Rightarrow> bool" where
  sent: "env_ok ok owner env \<Longrightarrow> sub_handler ok owner w (snd (sendToAgent env owner parent p call run w))"
| woken: "env_ok ok owner env \<Longrightarrow> sub_handler ok owner w (deliverToSubagent env owner session text w)"
| pass_made: "env_ok ok owner env \<Longrightarrow> sub_handler ok owner w (snd (reportSubagents env owner w))"
| stop_made: "sub_handler ok owner w (snd (stopSubagents owner now scope w))"
| switch_made: "env_ok ok owner env \<Longrightarrow> sub_handler ok owner w (snd (switchOffPass env owner w))"
| sweep_made: "env_ok ok owner env \<Longrightarrow> sub_handler ok owner w (snd (cancelStraySubagents env owner with_work runs w))"
| archive_made: "sub_handler ok owner w (snd (archiveSubagents owner now retention jobs w))"
| cut_before: "sub_run owner (sw_db w) d \<Longrightarrow> sub_handler ok owner w (w\<lparr>sw_db := d\<rparr>)"
| cut_after: "sub_handler ok owner w w' \<Longrightarrow> sub_run owner (sw_db w) d \<Longrightarrow> sub_handler ok owner w (w'\<lparr>sw_db := d\<rparr>)"

lemma handler_follows: "sub_handler ok owner w w' \<Longrightarrow> follows owner w w'"
proof (induction rule: sub_handler.induct)
  case (sent ok owner env w parent p call run)
  then show ?case using send_follows [of owner env parent p call run w] by (auto simp: env_ok_def intro: prod.collapse [symmetric])
next
  case (cut_after ok owner w w' d)
  then show ?case by simp
qed (auto simp: env_ok_def deliver_follows report_follows stop_follows switch_follows stray_follows archive_follows)

lemma handlers_follow: "(sub_handler ok owner)\<^sup>*\<^sup>* w w' \<Longrightarrow> follows owner w w'"
  by (induction rule: rtranclp_induct) (auto intro: rtranclp_trans handler_follows)

text \<open>
  C7: An agent never has more subagents running than the cap. Whatever sends, wakes, passes, stops, switch-offs, sweeps and retentions run,
  in whatever order, whatever runs while one of them awaits, and wherever a crash cuts one short, at most three of its children run.
\<close>

theorem never_more_children_than_the_cap:
  assumes "(sub_handler ok owner)\<^sup>*\<^sup>* w w'" and "tidy (rows_of w)" and "length (runningSubagents owner (rows_of w)) \<le> SUBAGENT_CAP"
  shows "length (runningSubagents owner (rows_of w')) \<le> SUBAGENT_CAP"
  using run_within_cap [OF handlers_follow [OF assms(1)]] assms(2,3) by (simp add: within_cap_def)
section \<open>A report is posted once\<close>

lemma escapes_marked: "(\<forall>k\<in>set ks. plain k) \<Longrightarrow> \<forall>c\<in>set (concat (map marked_key ks)). esc_char c = [c]"
proof -
  assume p: "\<forall>k\<in>set ks. plain k"
  have "esc_char (CHR ''<'') = ''<''" and "esc_char (CHR ''>'') = ''>''" by (simp_all add: esc_char_def)
  with p show ?thesis by (auto simp: marked_key_def plain_def list_all_iff)
qed

lemma lit_combined:
  assumes "\<forall>k\<in>set ks. plain k" and "length ks \<noteq> 1"
  shows "str_lit (combinedRequestId ks) = (CHR 0x22 # ''reports '') @ concat (map marked_key ks) @ [CHR 0x22]"
proof -
  have "\<forall>c\<in>set ''reports ''. esc_char c = [c]" by (simp add: esc_char_def)
  with escapes_marked [OF assms(1)] have "\<forall>c\<in>set (''reports '' @ concat (map marked_key ks)). esc_char c = [c]"
    unfolding set_append ball_Un by blast
  then have "\<forall>c\<in>set (combinedRequestId ks). esc_char c = [c]" using assms(2) by (simp add: combinedRequestId_def)
  from esc_plain [OF this] assms(2) show ?thesis by (simp add: combinedRequestId_def)
qed

lemma not_marked: "CHR ''<'' \<notin> set s \<Longrightarrow> \<not> contains (marked_key k) s"
  by (auto simp: contains_iff marked_key_def)

lemma mark_there: "k \<in> set ks \<Longrightarrow> contains (marked_key k) (pre @ concat (map marked_key ks) @ suf)"
  by (auto simp: contains_iff dest!: split_list) (metis append.assoc)

lemma a_key_is_found:
  assumes "\<forall>k\<in>set ks. plain k" and "plain key" and "ks \<noteq> []"
  shows "pd_carries key (combinedRequestId ks) \<longleftrightarrow> key \<in> set ks"
proof (cases "length ks = 1")
  case True
  then obtain k where ks: "ks = [k]" by (cases ks) auto
  have k: "plain k" using assms(1) ks by simp
  then have "CHR ''<'' \<notin> set (str_lit k)" using plain_unmarked by (simp add: plain_lit)
  with k assms(2) show ?thesis by (auto simp: pd_carries_def combinedRequestId_def ks plain_lit not_marked)
next
  case False
  let ?pre = "CHR 0x22 # ''reports ''" and ?suf = "[CHR 0x22]"
  note lit = lit_combined [OF assms(1) False]
  obtain k ks' where ks: "ks = k # ks'" using assms(3) by (cases ks) auto
  have "CHR ''<'' \<in> set (str_lit (combinedRequestId ks))" unfolding lit unfolding ks concat_marked by simp
  moreover have "CHR ''<'' \<notin> set (str_lit key)" using plain_unmarked [OF assms(2)] by (simp add: plain_lit [OF assms(2)])
  ultimately have ne: "str_lit (combinedRequestId ks) \<noteq> str_lit key" by metis
  have found: "key \<in> set ks" if c: "contains (marked_key key) (?pre @ concat (map marked_key ks) @ ?suf)"
  proof -
    obtain a b where "a @ marked_key key @ b = ?pre @ concat (map marked_key ks) @ ?suf" using c unfolding contains_iff by metis
    moreover have "\<forall>k'\<in>set (key # ks). CHR ''<'' \<notin> set k' \<and> CHR ''>'' \<notin> set k'" using assms(1,2) plain_unmarked by auto
    moreover have "CHR ''<'' \<notin> set ?pre" and "CHR ''<'' \<notin> set ?suf" by simp_all
    ultimately show ?thesis by (intro mark_found [of key ks ?pre ?suf a b])
  qed
  then show ?thesis using ne mark_there [of key ks ?pre ?suf] unfolding pd_carries_def lit by blast
qed

text \<open>
  On the durable engine a key is found in the conversation exactly when a post carried it: the request id a post has for the reports it
  carries (its own key for one, every key between marks for several) is read as carrying each of those keys and no other, not even one
  that begins the same.
\<close>

theorem a_key_is_found_where_it_was_posted:
  assumes "\<forall>k\<in>set ks. plain k" and "plain key" and "ks \<noteq> []"
  shows "pd_carries key (combinedRequestId ks) \<longleftrightarrow> key \<in> set ks"
  using assms by (rule a_key_is_found)

text \<open>How many messages of a session carry a report's key.\<close>

definition report_posts :: "string \<Rightarrow> string \<Rightarrow> sub_post list \<Rightarrow> nat" where
  "report_posts session key posts = length (filter (\<lambda>p. po_session p = session \<and> pd_carries key (po_request p)) posts)"

text \<open>The keys of reports, of children as their ids are made.\<close>

definition report_key :: "string \<Rightarrow> bool" where
  "report_key key \<longleftrightarrow> (\<exists>cid turn. plain cid \<and> key = key_of ''report'' cid turn)"

lemma report_key_plain: "report_key key \<Longrightarrow> plain key"
proof -
  have "plain ''report''" by (simp add: plain_def esc_char_def)
  then show "report_key key \<Longrightarrow> plain key" unfolding report_key_def by (auto intro: plain_key)
qed

lemma reportKey_key: "plain (sa_id s) \<Longrightarrow> report_key (reportKey s)"
  by (auto simp: report_key_def reportKey_def)

text \<open>What other steps write to the conversations carries no report: the object posts reports from this pass alone.\<close>

definition foreign :: "sub_post list \<Rightarrow> sub_post list \<Rightarrow> bool" where
  "foreign ps ps' \<longleftrightarrow> (\<exists>new. ps' = ps @ new \<and> (\<forall>p\<in>set new. \<forall>key. report_key key \<longrightarrow> \<not> pd_carries key (po_request p)))"

lemma foreign_refl [simp]: "foreign ps ps"
  by (simp add: foreign_def)

lemma foreign_trans: "foreign ps qs \<Longrightarrow> foreign qs rs \<Longrightarrow> foreign ps rs"
  by (auto simp: foreign_def)

lemma foreign_posts:
  assumes "foreign ps ps'" and "report_key key"
  shows "report_posts session key ps' = report_posts session key ps"
proof -
  obtain new where n: "ps' = ps @ new" "\<forall>p\<in>set new. \<not> pd_carries key (po_request p)" using assms by (auto simp: foreign_def)
  then have "filter (\<lambda>p. po_session p = session \<and> pd_carries key (po_request p)) new = []" by (auto simp: filter_empty_conv)
  with n show ?thesis by (simp add: report_posts_def)
qed

lemma foreign_write: "(\<forall>key. report_key key \<longrightarrow> \<not> pd_carries key request) \<Longrightarrow> foreign (sw_posts w) (sw_posts (write_post session text request op w))"
  by (simp add: foreign_def write_post_def)

definition awaits_foreign :: "run_env \<Rightarrow> bool" where
  "awaits_foreign env \<longleftrightarrow> (\<forall>w. foreign (sw_posts w) (sw_posts (ve_switch env w))
     \<and> (\<forall>s. foreign (sw_posts w) (sw_posts (ve_storing env s w)))
     \<and> (\<forall>x. foreign (sw_posts w) (sw_posts (ve_before env x w)) \<and> foreign (sw_posts w) (sw_posts (ve_after env x w))
          \<and> foreign (sw_posts w) (sw_posts (ve_cancelling env x w))))"

lemma foreignD:
  assumes "awaits_foreign env"
  shows "foreign (sw_posts w) (sw_posts (ve_switch env w))" and "foreign (sw_posts w) (sw_posts (ve_storing env s w))"
    and "foreign (sw_posts w) (sw_posts (ve_before env x w))" and "foreign (sw_posts w) (sw_posts (ve_after env x w))"
    and "foreign (sw_posts w) (sw_posts (ve_cancelling env x w))"
  using assms by (simp_all add: awaits_foreign_def)

lemma empty_carries: "report_key key \<Longrightarrow> \<not> pd_carries key []"
proof -
  assume k: "report_key key"
  then have "key \<noteq> []" by (auto simp: report_key_def key_of_def)
  moreover have "str_lit [] = [CHR 0x22, CHR 0x22]" by (simp add: str_lit_def)
  ultimately show "\<not> pd_carries key []" by (simp add: pd_carries_def plain_lit [OF report_key_plain [OF k]] not_marked)
qed

lemma other_word:
  assumes "report_key key" and "plain word" and "plain cid" and "hd word \<noteq> CHR ''r''" and "word \<noteq> []"
  shows "key \<noteq> key_of word cid turn"
  using assms by (cases word) (auto simp: report_key_def key_of_def)

lemma task_carries:
  assumes "report_key key" and "plain cid"
  shows "\<not> pd_carries key (taskKey cid turn)"
proof -
  have t: "plain ''task''" by (simp add: plain_def esc_char_def)
  have "pd_carries key (combinedRequestId [taskKey cid turn]) \<longleftrightarrow> key \<in> set [taskKey cid turn]"
    using assms t report_key_plain by (intro a_key_is_found) (auto simp: taskKey_def plain_key)
  moreover have "key \<noteq> taskKey cid turn" unfolding taskKey_def by (rule other_word [OF assms(1) t assms(2)]) simp_all
  ultimately show ?thesis by (simp add: combinedRequestId_def)
qed

lemma undelivered_carries:
  assumes "report_key key" and "\<forall>s\<in>set lost. plain (sa_id s)" and "lost \<noteq> []"
  shows "\<not> pd_carries key (combinedRequestId (map undeliveredKey lost))"
proof -
  have t: "plain ''undelivered''" by (simp add: plain_def esc_char_def)
  have "pd_carries key (combinedRequestId (map undeliveredKey lost)) \<longleftrightarrow> key \<in> set (map undeliveredKey lost)"
    using assms t report_key_plain by (intro a_key_is_found) (auto simp: undeliveredKey_def plain_key)
  moreover have "key \<noteq> undeliveredKey s" if "s \<in> set lost" for s
    unfolding undeliveredKey_def using assms that by (intro other_word [OF assms(1) t]) auto
  ultimately show ?thesis by auto
qed

lemma post_message_posts:
  assumes "awaits_foreign env" and "post_message env session text request unless w = (r, w')"
  shows "\<exists>mid. foreign (sw_posts w) mid \<and> (foreign mid (sw_posts w')
    \<or> (\<exists>op. foreign (mid @ [\<lparr>po_session = session, po_text = text, po_request = request, po_op = op\<rparr>]) (sw_posts w')))"
proof -
  let ?b = "ve_before env session w"
  have b: "foreign (sw_posts w) (sw_posts ?b)" by (rule foreignD(3) [OF assms(1)])
  have a: "foreign (sw_posts x) (sw_posts (ve_after env session x))" for x by (rule foreignD(4) [OF assms(1)])
  have wr: "foreign (sw_posts ?b @ [\<lparr>po_session = session, po_text = text, po_request = request, po_op = op\<rparr>])
      (sw_posts (ve_after env session (write_post session text request op ?b)))" for op
    using a [of "write_post session text request op ?b"] by (simp add: write_post_def)
  consider "w' = ?b" | "w' = ve_after env session ?b" | op where "w' = ve_after env session (write_post session text request op ?b)"
    using assms(2) unfolding post_message_def Let_def by (cases "ve_post env session text request") (auto split: if_splits)
  then show ?thesis using b a wr by (cases; blast intro: foreign_refl)
qed

lemma quiet_post:
  assumes "awaits_foreign env" and "post_message env session text request unless w = (r, w')"
    and "\<forall>key. report_key key \<longrightarrow> \<not> pd_carries key request"
  shows "foreign (sw_posts w) (sw_posts w')"
proof -
  have "foreign mid (mid @ [\<lparr>po_session = session, po_text = text, po_request = request, po_op = op\<rparr>])" for mid op
    using assms(3) by (simp add: foreign_def)
  then show ?thesis using post_message_posts [OF assms(1,2)] foreign_trans by blast
qed

lemma quiet_once:
  "awaits_foreign env \<Longrightarrow> \<forall>key. report_key key \<longrightarrow> \<not> pd_carries key request
    \<Longrightarrow> postOnce env session text k unless request w = (r, w') \<Longrightarrow> foreign (sw_posts w) (sw_posts w')"
  using quiet_post by (fastforce simp: postOnce_def split: option.splits)

lemma cancel_foreign: "awaits_foreign env \<Longrightarrow> foreign (sw_posts w) (sw_posts (cancelSession env session w))"
  using foreignD(5) [of env "w\<lparr>sw_cancelled := sw_cancelled w @ [session]\<rparr>" session] by (simp add: cancelSession_def)

lemma cancels_foreign: "awaits_foreign env \<Longrightarrow> foreign (sw_posts w) (sw_posts (fold (\<lambda>s. cancelSession env (g s)) ss w))"
  by (induction ss arbitrary: w) (auto intro: foreign_trans cancel_foreign)

lemma give_task_foreign:
  assumes "awaits_foreign env" and "plain (sa_id s)" and "give_task env owner task call turn_key s w = (r, w')"
  shows "foreign (sw_posts w) (sw_posts w')"
proof -
  let ?key = "taskKey (sa_id s) (sa_turns s)"
  obtain e w1 where p: "postOnce env (sa_id s) (taskMessage (sa_id s) task (1 < sa_turns s) ?key) ?key (\<lambda>_. False) ?key w = (e, w1)" by fastforce
  have w1: "foreign (sw_posts w) (sw_posts w1)"
    using task_carries assms(2) by (intro quiet_once [OF assms(1) _ p]) blast
  moreover have "foreign (sw_posts w) (sw_posts (cancelSession env (sa_id s) w1))"
    using w1 cancel_foreign [OF assms(1)] by (rule foreign_trans)
  ultimately show ?thesis using assms(3) p unfolding give_task_def Let_def
    by (auto split: post_end.splits option.splits if_splits)
qed

lemma step_tidy: "sub_step owner d d' \<Longrightarrow> tidy (sd_rows d) \<Longrightarrow> tidy (sd_rows d')"
  using harmless_step [of owner d d'] tidy_cong [OF harmless_keeps(1)] tidy_start tidy_record by metis

lemma run_tidy: "sub_run owner d d' \<Longrightarrow> tidy (sd_rows d) \<Longrightarrow> tidy (sd_rows d')"
  by (induction rule: rtranclp_induct) (auto intro: step_tidy)

lemma tidy_child: "tidy rows \<Longrightarrow> subagentOf owner cid rows = Some s \<Longrightarrow> plain (sa_id s) \<and> sa_id s = cid"
  by (auto simp: subagentOf_def tidy_def list_all_iff child_id_def is_child_def dest: get_row_SomeD)

lemma send_end_foreign:
  "awaits_foreign env \<Longrightarrow> tidy (rows_of w) \<Longrightarrow> send_end env owner task call turn_key cid w = (r, w') \<Longrightarrow> foreign (sw_posts w) (sw_posts w')"
  by (auto simp: send_end_def Let_def split: option.splits if_splits prod.splits dest: give_task_foreign tidy_child)

lemma send_foreign:
  assumes "env_ok ok owner env" and "awaits_foreign env" and "tidy (rows_of w)" and "sendToAgent env owner parent p call run w = (r, w')"
  shows "foreign (sw_posts w) (sw_posts w')"
proof -
  obtain task agent asked where p: "p = (task, agent, asked)" by (cases p)
  let ?k = "turnKeyOf parent run call" and ?w1 = "ve_switch env w"
  have a: "awaits_run owner env" "byte_digest env" using assms(1) by (simp_all add: env_ok_def)
  have sw: "follows owner w ?w1" by (rule awaitsD(1) [OF a(1)])
  have fw: "foreign (sw_posts w) (sw_posts ?w1)" by (rule foreignD(1) [OF assms(2)])
  have replayed: "foreign (sw_posts w) (sw_posts w')" if "send_end env owner task call ?k cid w = (r, w')" for cid
    by (rule send_end_foreign [OF assms(2,3) that])
  have begun: "foreign (sw_posts w) (sw_posts w')" if t: "send_target env owner parent agent ?k (rows_of w) = Inr (cid, existing)"
    "send_refusal owner existing (ve_now env) (rows_of ?w1) = None"
    "start_row owner parent cid model call ?k existing (ve_now env) (sw_db ?w1) = Some d"
    "send_end env owner task call ?k cid (?w1\<lparr>sw_db := d\<rparr>) = (r, w')" for cid existing model d
  proof -
    have "sub_step owner (sw_db ?w1) d"
    proof (rule start_row_step [OF t(3) refusal_room [OF t(2)]])
      show "plain cid" if "existing = None" using target_plain [OF a(2)] t(1) that by blast
    qed
    then have "tidy (rows_of (?w1\<lparr>sw_db := d\<rparr>))" using step_tidy run_tidy [OF sw assms(3)] by simp
    from send_end_foreign [OF assms(2) this t(4)] have "foreign (sw_posts ?w1) (sw_posts w')" by simp
    with fw show ?thesis by (rule foreign_trans)
  qed
  show ?thesis using assms(4) fw replayed begun unfolding sendToAgent_def p
    by (auto simp: Let_def split: sum.splits prod.splits option.splits if_splits)
qed

lemma wake_posts [simp]: "sw_posts (wake_failed owner session now e w) = sw_posts w" "sw_posts (subagentWoken owner session op w) = sw_posts w"
  "sw_posts (wake_turn owner session now w) = sw_posts w"
  by (auto simp: wake_failed_def subagentWoken_def wake_turn_def Let_def split: prod.split bool.split option.split)

lemma deliver_foreign:
  assumes "awaits_foreign env"
  shows "foreign (sw_posts w) (sw_posts (deliverToSubagent env owner session text w))"
proof -
  define gate where "gate = subagentWakeGate env owner session (ve_on env) (rows_of w)"
  define w1 where "w1 = (if gate = Start then wake_turn owner session (ve_now env) w else w)"
  have s: "sw_posts w1 = sw_posts w" by (simp add: w1_def)
  obtain r w2 where p: "post_message env session text [] (\<lambda>_. False) w1 = (r, w2)" by fastforce
  have "foreign (sw_posts w) (sw_posts w2)" using quiet_post [OF assms p] empty_carries s by simp
  then show ?thesis unfolding deliverToSubagent_def Let_def gate_def [symmetric] w1_def [symmetric] p
    by (auto split: wake_gate.split post_end.split option.split)
qed

lemma decide_foreign:
  assumes "awaits_foreign env"
  shows "foreign (sw_posts w) (sw_posts (decide_report env owner s w))"
proof -
  obtain e w1 where c: "child_end env owner s w = (e, w1)" by fastforce
  have w1: "foreign (sw_posts w) (sw_posts w1)"
    using c cancel_foreign [OF assms] by (auto simp: child_end_def subagentTurnEnd_def Let_def split: if_splits option.splits prod.splits)
  have "foreign (sw_posts w) (sw_posts (ve_storing env s w1))" using w1 foreignD(2) [OF assms] by (rule foreign_trans)
  with w1 show ?thesis unfolding decide_report_def c
    by (auto simp: Let_def split: option.split prod.split bool.split)
qed

lemma decides_foreign: "awaits_foreign env \<Longrightarrow> foreign (sw_posts w) (sw_posts (fold (decide_report env owner) ss w))"
  by (induction ss arbitrary: w) (auto intro: foreign_trans decide_foreign)

lemma fail_reports_posts: "fail_reports env owner e owed w = (lost, w') \<Longrightarrow> sw_posts w' = sw_posts w \<and> fst ` set lost \<subseteq> set owed"
proof (induction owed arbitrary: w lost)
  case Nil
  then show ?case by simp
next
  case (Cons s owed)
  then show ?case by (fastforce simp: Let_def split: prod.splits if_splits)
qed

lemma tell_lost_foreign:
  assumes "awaits_foreign env" and "\<forall>s\<in>fst ` set lost. plain (sa_id s)"
  shows "foreign (sw_posts w) (sw_posts (tell_lost env owner parent lost w))"
proof (cases lost)
  case Nil
  then show ?thesis by (simp add: tell_lost_def)
next
  case (Cons first more)
  have c: "\<forall>key. report_key key \<longrightarrow> \<not> pd_carries key (combinedRequestId (map (undeliveredKey \<circ> fst) lost))"
    using undelivered_carries [of _ "map fst lost"] assms(2) Cons by (simp add: comp_def)
  obtain r w1 where p: "postOnce env parent (undeliveredNotice (map fst lost) (snd first)) (hd (map (undeliveredKey \<circ> fst) lost))
      (\<lambda>_. False) (combinedRequestId (map (undeliveredKey \<circ> fst) lost)) w = (r, w1)" by fastforce
  have "foreign (sw_posts w) (sw_posts w1)" by (rule quiet_once [OF assms(1) c p])
  moreover have "sw_posts (tell_lost env owner parent lost w) = sw_posts w1"
    using p unfolding tell_lost_def Cons by (simp add: Let_def split: post_end.split)
  ultimately show ?thesis by simp
qed

definition posted_once :: "sub_world \<Rightarrow> bool" where
  "posted_once w \<longleftrightarrow> (\<forall>session key. report_key key \<longrightarrow> report_posts session key (sw_posts w) \<le> 1)"

lemma once_foreign: "posted_once w \<Longrightarrow> foreign (sw_posts w) (sw_posts w') \<Longrightarrow> posted_once w'"
  by (simp add: posted_once_def foreign_posts)

lemma once_posts: "sw_posts w' = sw_posts w \<Longrightarrow> posted_once w \<Longrightarrow> posted_once w'"
  by (simp add: posted_once_def)

lemma not_posted: "ve_engine env = Pd \<Longrightarrow> postedOp env session key w = None \<Longrightarrow> report_posts session key (sw_posts w) = 0"
  by (auto simp: postedOp_def report_posts_def carries_key_def get_row_None_iff filter_empty_conv split: option.splits)

lemma fresh_post_once:
  assumes "posted_once w" and "ve_engine env = Pd" and "awaits_foreign env" and "fresh \<noteq> []"
    and "\<forall>s\<in>set fresh. plain (sa_id s) \<and> postedOp env parent (reportKey s) w = None"
    and "postOnce env parent text (reportKey (hd fresh)) unless (combinedRequestId (map reportKey fresh)) w = (r, w')"
  shows "posted_once w'"
proof -
  let ?req = "combinedRequestId (map reportKey fresh)"
  have m: "post_message env parent text ?req unless w = (r, w')"
    using assms(4,5,6) by (cases fresh) (auto simp: postOnce_def)
  obtain mid where mid: "foreign (sw_posts w) mid"
    and alt: "foreign mid (sw_posts w') \<or> (\<exists>op. foreign (mid @ [\<lparr>po_session = parent, po_text = text, po_request = ?req, po_op = op\<rparr>]) (sw_posts w'))"
    using post_message_posts [OF assms(3) m] by blast
  show ?thesis
  proof (cases "foreign mid (sw_posts w')")
    case True
    with mid assms(1) show ?thesis using foreign_trans once_foreign by blast
  next
    case False
    with alt obtain op where wr: "foreign (mid @ [\<lparr>po_session = parent, po_text = text, po_request = ?req, po_op = op\<rparr>]) (sw_posts w')" by blast
    show ?thesis unfolding posted_once_def
    proof (intro allI impI)
      fix session key assume k: "report_key key"
      have "report_posts session key (sw_posts w') = report_posts session key mid + (if session = parent \<and> pd_carries key ?req then 1 else 0)"
        using foreign_posts [OF wr k, of session] by (simp add: report_posts_def)
      also have "report_posts session key mid = report_posts session key (sw_posts w)" by (rule foreign_posts [OF mid k])
      finally have n: "report_posts session key (sw_posts w') =
        report_posts session key (sw_posts w) + (if session = parent \<and> pd_carries key ?req then 1 else 0)" .
      show "report_posts session key (sw_posts w') \<le> 1"
      proof (cases "session = parent \<and> pd_carries key ?req")
        case False
        with n assms(1) k show ?thesis by (simp add: posted_once_def)
      next
        case True
        have "\<forall>k\<in>set (map reportKey fresh). plain k" using assms(5) reportKey_key report_key_plain by auto
        with True a_key_is_found [of "map reportKey fresh" key] assms(4) report_key_plain [OF k] obtain s where "s \<in> set fresh" "key = reportKey s" by auto
        with assms(5) have "report_posts parent key (sw_posts w) = 0" using not_posted [OF assms(2)] by auto
        with n True show ?thesis by simp
      qed
    qed
  qed
qed

lemma post_group_once:
  assumes "posted_once w" and "ve_engine env = Pd" and "awaits_foreign env" and "\<forall>s\<in>set (snd g). plain (sa_id s)"
  shows "posted_once (snd (post_group env owner g w))"
proof -
  obtain parent owed where g: "g = (parent, owed)" by fastforce
  define fresh where "fresh = filter (\<lambda>s. postedOp env parent (reportKey s) w = None) owed"
  obtain r w1 where p: "postOnce env parent (report_text fresh) (reportKey (hd fresh)) (\<lambda>w1. \<not> stillOwed owner owed w1)
    (combinedRequestId (map reportKey fresh)) w = (r, w1)" by fastforce
  obtain lost w2 where f: "fail_reports env owner (case r of Threw e \<Rightarrow> take 200 e | _ \<Rightarrow> []) owed w1 = (lost, w2)" by fastforce
  show ?thesis
  proof (cases "stillOwed owner owed w \<and> fresh \<noteq> []")
    case False
    then show ?thesis using assms(1) by (auto simp: post_group_def g fresh_def [symmetric] Let_def intro: once_posts [of _ w])
  next
    case True
    have plain: "\<forall>s\<in>set owed. plain (sa_id s)" using assms(4) by (simp add: g)
    have "\<forall>s\<in>set fresh. plain (sa_id s) \<and> postedOp env parent (reportKey s) w = None" using plain by (simp add: fresh_def)
    with True assms(1-3) p have w1: "posted_once w1" by (auto intro: fresh_post_once)
    have c: "posted_once (cancelOwnRun env parent op w1)" for op
      using w1 once_foreign [OF w1 cancel_foreign [OF assms(3), of w1]] by (simp add: cancelOwnRun_def)
    have m: "posted_once (with_rows h w1)" "posted_once (with_rows h (note_started env owner b w1))" for h b
      using w1 by (auto intro: once_posts [of _ w1])
    have "\<forall>s\<in>fst ` set lost. plain (sa_id s)" using fail_reports_posts [OF f] plain by blast
    then have "foreign (sw_posts w2) (sw_posts (tell_lost env owner parent lost w2))" by (rule tell_lost_foreign [OF assms(3)])
    then have l: "posted_once (tell_lost env owner parent lost w2)"
      using once_foreign once_posts [of w2 w1] w1 fail_reports_posts [OF f] by blast
    show ?thesis using True
      unfolding post_group_def g prod.case Let_def fresh_def [symmetric] p using w1 c m l f by (cases r) auto
  qed
qed

lemma post_groups_once:
  assumes "ve_engine env = Pd" and "awaits_foreign env"
  shows "posted_once w \<Longrightarrow> \<forall>g\<in>set gs. \<forall>s\<in>set (snd g). plain (sa_id s) \<Longrightarrow> posted_once (snd (post_groups env owner gs w))"
proof (induction gs arbitrary: w)
  case Nil
  then show ?case by simp
next
  case (Cons g gs)
  obtain n w1 where g: "post_group env owner g w = (n, w1)" by fastforce
  have "posted_once w1" using post_group_once [OF Cons.prems(1) assms, of g owner] Cons.prems(2) g by simp
  with Cons.IH [of w1] Cons.prems(2) show ?case using g by (auto split: prod.splits)
qed

lemma add_owed_members: "\<Union> (set ` snd ` set (add_owed s gs)) = insert s (\<Union> (set ` snd ` set gs))"
proof (induction gs)
  case Nil
  show ?case by simp
next
  case (Cons g gs)
  obtain p owed where g: "g = (p, owed)" by fastforce
  from Cons show ?case by (cases "p = sa_parent s") (simp_all add: g Un_insert_right)
qed

lemma group_owed_members: "g \<in> set (group_owed owed) \<Longrightarrow> set (snd g) \<subseteq> set owed"
proof -
  have "\<Union> (set ` snd ` set (fold add_owed owed gs)) \<subseteq> set owed \<union> \<Union> (set ` snd ` set gs)" for gs
  proof (induction owed arbitrary: gs)
    case (Cons s owed)
    from Cons [of "add_owed s gs"] show ?case unfolding add_owed_members by auto
  qed simp
  from this [of "[]"] show "g \<in> set (group_owed owed) \<Longrightarrow> ?thesis" by (auto simp: group_owed_def)
qed

lemma reporting_plain: "tidy rows \<Longrightarrow> s \<in> set (reportingSubagents owner now rows) \<Longrightarrow> plain (sa_id s)"
  by (auto simp: reportingSubagents_def tidy_def list_all_iff child_id_def)

lemma report_once:
  assumes "ve_engine env = Pd" and "awaits_run owner env" and "awaits_foreign env" and "tidy (rows_of w)" and "posted_once w"
  shows "posted_once (snd (reportSubagents env owner w))"
proof -
  define w1 where "w1 = fold (decide_report env owner) (runningSubagents owner (rows_of w)) w"
  have w1: "posted_once w1" unfolding w1_def using once_foreign [OF assms(5) decides_foreign [OF assms(3)]] .
  have "tidy (rows_of w1)" unfolding w1_def using run_tidy [OF decides_follow [OF assms(2)] assms(4)] .
  then have "\<forall>g\<in>set (group_owed (reportingSubagents owner (ve_later env) (rows_of w1))). \<forall>s\<in>set (snd g). plain (sa_id s)"
    using group_owed_members reporting_plain by blast
  from post_groups_once [OF assms(1,3) w1 this] show ?thesis
    unfolding reportSubagents_def Let_def w1_def [symmetric] using w1 by (auto intro: once_posts [of _ w1])
qed

lemma stop_posts: "sw_posts (snd (stopSubagents owner now scope w)) = sw_posts w"
  by (simp add: stopSubagents_def split: prod.split)

lemma switch_foreign:
  assumes "awaits_foreign env"
  shows "foreign (sw_posts w) (sw_posts (snd (switchOffPass env owner w)))"
proof -
  have f: "foreign (sw_posts w) (sw_posts (fold (\<lambda>s. cancelSession env (sa_id s)) off w1))" if "sw_posts w1 = sw_posts (ve_switch env w)" for off w1
  proof (rule foreign_trans)
    show "foreign (sw_posts w) (sw_posts w1)" unfolding that by (rule foreignD(1) [OF assms])
    show "foreign (sw_posts w1) (sw_posts (fold (\<lambda>s. cancelSession env (sa_id s)) off w1))" by (rule cancels_foreign [OF assms])
  qed
  show ?thesis unfolding switchOffPass_def Let_def
    using foreignD(1) [OF assms, of w] by (auto split: prod.split intro!: f)
qed

lemma stray_foreign: "awaits_foreign env \<Longrightarrow> foreign (sw_posts w) (sw_posts (snd (cancelStraySubagents env owner with_work runs w)))"
  using cancels_foreign [of env w "\<lambda>x. x"] by (simp add: cancelStraySubagents_def Let_def)

lemma archive_posts: "sw_posts (snd (archiveSubagents owner now retention jobs w)) = sw_posts w"
  by (simp add: archiveSubagents_def Let_def)

definition durable :: "run_env \<Rightarrow> bool" where
  "durable env \<longleftrightarrow> ve_engine env = Pd \<and> awaits_foreign env"

lemma handler_once:
  "sub_handler ok owner w w' \<Longrightarrow> ok = durable \<Longrightarrow> tidy (rows_of w) \<Longrightarrow> posted_once w \<Longrightarrow> posted_once w'"
proof (induction rule: sub_handler.induct)
  case (sent ok owner env w parent p call run)
  then have "env_ok ok owner env" "awaits_foreign env" by (simp_all add: env_ok_def durable_def)
  from send_foreign [OF this sent(3), of parent p call run "fst (sendToAgent env owner parent p call run w)"]
  show ?case using once_foreign [OF sent(4)] by simp
next
  case (woken ok owner env w session msg)
  then show ?case using once_foreign deliver_foreign by (auto simp: env_ok_def durable_def)
next
  case (pass_made ok owner env w)
  then show ?case by (intro report_once) (auto simp: env_ok_def durable_def)
next
  case (stop_made ok owner w now scope)
  then show ?case using once_posts [OF stop_posts] by blast
next
  case (switch_made ok owner env w)
  then show ?case using once_foreign [OF _ switch_foreign] by (auto simp: env_ok_def durable_def)
next
  case (sweep_made ok owner env w with_work runs)
  then show ?case using once_foreign [OF _ stray_foreign] by (auto simp: env_ok_def durable_def)
next
  case (archive_made ok owner w now retention jobs)
  then show ?case using once_posts [OF archive_posts] by blast
next
  case (cut_before owner w d ok)
  then show ?case by (auto intro: once_posts [of _ w])
next
  case (cut_after ok owner w w' d)
  then have "posted_once w'" by blast
  then show ?case by (auto intro: once_posts [of _ w'])
qed

text \<open>
  C8: On the durable engine a report reaches its parent at most once. Whatever sends, wakes, passes, stops and sweeps run and in whatever order,
  whatever runs while one awaits, whichever posts fail (before or after they wrote) and wherever a crash cuts a handler short, no
  conversation holds two messages that carry the same report.
\<close>

theorem a_report_reaches_its_parent_at_most_once:
  assumes "(sub_handler durable owner)\<^sup>*\<^sup>* w w'" and "tidy (rows_of w)" and "posted_once w" and "plain cid"
  shows "report_posts session (key_of ''report'' cid turn) (sw_posts w') \<le> 1"
proof -
  have "tidy (rows_of w') \<and> posted_once w'"
    using assms(1)
  proof (induction rule: rtranclp_induct)
    case base
    then show ?case using assms(2,3) by simp
  next
    case (step w1 w2)
    then show ?case using handler_once run_tidy [OF handler_follows] by blast
  qed
  moreover have "report_key (key_of ''report'' cid turn)" using assms(4) by (auto simp: report_key_def)
  ultimately show ?thesis by (simp add: posted_once_def)
qed
section \<open>A stop owes nothing\<close>

lemma nothing_to_pass:
  assumes "\<forall>r\<in>set (rows_of w). sub_owned owner r \<longrightarrow> in_state Sub_Idle r \<or> in_state Sub_Archived r"
  shows "reportSubagents env owner w = (0, w)"
proof -
  have "runningSubagents owner (rows_of w) = []" and r: "reportingSubagents owner now (rows_of w) = []" for now
    using assms unfolding runningSubagents_def reportingSubagents_def
    by (auto simp: filter_empty_conv in_state_def)
  moreover have "with_rows (mark_all owner []) w = w" by (simp add: with_rows_def with_db_def mark_all_def on_rows_def)
  ultimately show ?thesis by (simp add: reportSubagents_def Let_def group_owed_def)
qed

text \<open>
  Once the agent was stopped, no report wakes it: the pass after the stop, whatever the engine says of the children's runs, ends no turn,
  posts nothing and changes nothing.
\<close>

theorem a_pass_after_a_stop_posts_nothing:
  "reportSubagents env owner (snd (stopSubagents owner now None w)) = (0, snd (stopSubagents owner now None w))"
proof (rule nothing_to_pass)
  obtain ids ended rows where s: "stopRunningSubagents owner now None (rows_of w) = ((ids, ended), rows)" by (metis surj_pair)
  have "rows_of (snd (stopSubagents owner now None w)) = snd (stopRunningSubagents owner now None (rows_of w))"
    by (simp add: stopSubagents_def s)
  then show "\<forall>r\<in>set (rows_of (snd (stopSubagents owner now None w))). sub_owned owner r \<longrightarrow> in_state Sub_Idle r \<or> in_state Sub_Archived r"
    unfolding stop_rows
    by (auto simp: in_scope_def sub_owned_def end_stopped_def stop_child_def in_state_def set_child_def intro: sub_state.exhaust)
qed

section \<open>A send that runs again\<close>

text \<open>
  What may happen beside the send, while it awaits and between its two runs: messages are only added to the conversations, the child's row
  stays with its parent, and no other step begins the turn of this call or renumbers it.
\<close>

definition turn_kept :: "job_owner \<Rightarrow> string \<Rightarrow> string \<Rightarrow> sub_world \<Rightarrow> sub_world \<Rightarrow> bool" where
  "turn_kept owner cid k w v \<longleftrightarrow> set (sw_posts w) \<subseteq> set (sw_posts v)
     \<and> (\<forall>s. subagentOf owner cid (rows_of w) = Some s \<longrightarrow> (\<exists>s'. subagentOf owner cid (rows_of v) = Some s' \<and> sa_parent s' = sa_parent s
        \<and> (sa_turn_key s' = Some k \<longrightarrow> sa_turn_key s = Some k \<and> sa_turns s' = sa_turns s \<and> sa_option s' = sa_option s)))"

definition awaits_keep :: "job_owner \<Rightarrow> string \<Rightarrow> string \<Rightarrow> run_env \<Rightarrow> bool" where
  "awaits_keep owner cid k env \<longleftrightarrow> (\<forall>w. turn_kept owner cid k w (ve_switch env w)
     \<and> turn_kept owner cid k w (ve_before env cid w) \<and> turn_kept owner cid k w (ve_after env cid w))"

lemma turn_kept_refl [simp]: "turn_kept owner cid k w w"
  by (auto simp: turn_kept_def)

lemma turn_kept_trans: "turn_kept owner cid k w v \<Longrightarrow> turn_kept owner cid k v u \<Longrightarrow> turn_kept owner cid k w u"
  by (fastforce simp: turn_kept_def)

lemma turn_kept_write: "turn_kept owner cid k w (write_post session text request op w)"
  by (auto simp: turn_kept_def write_post_def)

lemma post_once_keeps:
  assumes "awaits_keep owner cid k env" and "postOnce env cid text key unless request w = (r, w')"
  shows "turn_kept owner cid k w w'"
proof -
  have b: "turn_kept owner cid k v (ve_before env cid v)" and a: "turn_kept owner cid k v (ve_after env cid v)" for v
    using assms(1) by (simp_all add: awaits_keep_def)
  show ?thesis using assms(2) turn_kept_trans [OF b a] turn_kept_trans [OF b turn_kept_trans [OF turn_kept_write a]] b
    by (auto simp: postOnce_def post_message_def Let_def split: option.splits post_answer.splits if_splits)
qed

definition sent_as :: "job_owner \<Rightarrow> string \<Rightarrow> string \<Rightarrow> sub_world \<Rightarrow> subagent \<Rightarrow> bool" where
  "sent_as owner cid turn_key w s \<longleftrightarrow> subagentOf owner cid (rows_of w) = Some s \<and> sa_turn_key s = Some turn_key"

text \<open>The child's turn still waits for the engine to name its run.\<close>

definition unnamed :: "subagent \<Rightarrow> bool" where
  "unnamed s \<longleftrightarrow> sa_state s = Sub_Running \<and> sa_turn_op s = None"

text \<open>
  The call's turn stands later as the send left it: the row still names the call, and it waits for a run to be named only if it did then.
\<close>

definition still_sent :: "job_owner \<Rightarrow> string \<Rightarrow> string \<Rightarrow> sub_world \<Rightarrow> sub_world \<Rightarrow> bool" where
  "still_sent owner cid k w v \<longleftrightarrow> turn_kept owner cid k w v
     \<and> (case (subagentOf owner cid (rows_of w), subagentOf owner cid (rows_of v)) of
          (Some s, Some s') \<Rightarrow> sa_turn_key s' = Some k \<and> (unnamed s' \<longrightarrow> unnamed s)
        | _ \<Rightarrow> False)"

text \<open>The child a send is for, once its row is written.\<close>

definition target_of :: "run_env \<Rightarrow> string option \<Rightarrow> string \<Rightarrow> string" where
  "target_of env agent turn_key = (case agent of None \<Rightarrow> subagentIdFor (ve_digest env) turn_key | Some a \<Rightarrow> a)"

lemma sub_id: "subagentOf owner cid rows = Some s \<Longrightarrow> sa_id s = cid"
  by (auto simp: subagentOf_def is_child_def dest: get_row_SomeD)

lemma task_there: "contains (taskKey cid n) (str_lit (taskMessage cid task follow_up (taskKey cid n)))" if "plain cid"
proof -
  have t: "plain (taskKey cid n)" unfolding taskKey_def using that by (intro plain_key) (simp_all add: plain_def esc_char_def)
  have c: "concat (map esc_char k) = k" if "plain k" for k
    using that by (induction k) (auto simp: plain_def)
  define a where "a = ''['' @ (if follow_up then ''a follow-up'' else ''a task'') @ '' (''"
  obtain b where m: "taskMessage cid task follow_up (taskKey cid n) = a @ taskKey cid n @ b"
    by (auto simp: taskMessage_def a_def)
  have "str_lit (taskMessage cid task follow_up (taskKey cid n))
      = (CHR 0x22 # concat (map esc_char a)) @ taskKey cid n @ concat (map esc_char b) @ [CHR 0x22]"
    unfolding str_lit_def m using c [OF t] by simp
  then show ?thesis unfolding contains_iff by metis
qed

lemma found_again:
  assumes "p \<in> set (sw_posts w)" and "po_session p = session" and "carries_key (ve_engine env) key p"
  shows "postedOp env session key w \<noteq> None"
  using assms by (auto simp: postedOp_def get_row_None_iff split: option.split)

lemma task_posted:
  assumes "awaits_keep owner cid k env" and "plain cid"
    and "postOnce env cid (taskMessage cid task fu (taskKey cid n)) (taskKey cid n) unless (taskKey cid n) w = (Posted op st, w')"
  shows "\<exists>p\<in>set (sw_posts w'). po_session p = cid \<and> carries_key (ve_engine env) (taskKey cid n) p"
proof (cases "postedOp env cid (taskKey cid n) w")
  case None
  then have "w' = ve_after env cid (write_post cid (taskMessage cid task fu (taskKey cid n)) (taskKey cid n) op (ve_before env cid w))"
    using assms(3) by (auto simp: postOnce_def post_message_def Let_def split: post_answer.splits if_splits)
  then have "turn_kept owner cid k (write_post cid (taskMessage cid task fu (taskKey cid n)) (taskKey cid n) op (ve_before env cid w)) w'"
    using assms(1) by (simp add: awaits_keep_def)
  then have "\<lparr>po_session = cid, po_text = taskMessage cid task fu (taskKey cid n), po_request = taskKey cid n, po_op = op\<rparr> \<in> set (sw_posts w')"
    by (auto simp: turn_kept_def write_post_def)
  then show ?thesis using task_there [OF assms(2)]
    by (intro bexI) (auto simp: carries_key_def pd_carries_def split: engine_kind.split)
next
  case (Some o1)
  then have "w' = w" using assms(3) by (simp add: postOnce_def)
  with Some show ?thesis by (auto simp: postedOp_def split: option.splits dest: get_row_SomeD)
qed

lemma set_op_row:
  "subagentOf owner cid rows = Some s \<Longrightarrow> subagentOf owner cid (setSubagentTurnOp owner cid op rows) = Some (s\<lparr>sa_turn_op := op\<rparr>)"
proof -
  assume s: "subagentOf owner cid rows = Some s"
  have "get_row (is_child owner cid) (setSubagentTurnOp owner cid op rows) = map_option (set_child (\<lambda>s. s\<lparr>sa_turn_op := op\<rparr>)) (get_row (is_child owner cid) rows)"
    unfolding setSubagentTurnOp_def by (rule get_row_update_same) (simp add: is_child_def set_child_def sub_owned_def)
  with s show ?thesis by (auto simp: subagentOf_def set_child_def)
qed

text \<open>The end of a send that answered, and the same end run again.\<close>

text \<open>What the end of a send that answered leaves: the turn it answered for, and its task in the child's conversation.\<close>

lemma end_answers:
  assumes "awaits_keep owner cid k env" and "plain cid" and "sent_as owner cid k wx s" and "send_end env owner task call k cid wx = (Inr a, w')"
  shows "a = startedSubagent cid (1 < sa_turns s) (sa_option s) \<and> (\<exists>s'. sent_as owner cid k w' s' \<and> sa_parent s' = sa_parent s
    \<and> sa_turns s' = sa_turns s \<and> sa_option s' = sa_option s
    \<and> (unnamed s' \<longrightarrow> (\<exists>p\<in>set (sw_posts w'). po_session p = cid \<and> carries_key (ve_engine env) (taskKey cid (sa_turns s)) p)))"
proof (cases "unnamed s")
  case False
  with assms(3,4) have "w' = wx" and "a = startedSubagent cid (1 < sa_turns s) (sa_option s)"
    by (auto simp: send_end_def sent_as_def Let_def unnamed_def)
  with assms(3) False show ?thesis by auto
next
  case True
  have s: "subagentOf owner cid (rows_of wx) = Some s" "sa_turn_key s = Some k" "sa_id s = cid"
    using assms(3) sub_id [of owner cid "rows_of wx" s] by (simp_all add: sent_as_def)
  let ?key = "taskKey cid (sa_turns s)"
  have a: "a = startedSubagent cid (1 < sa_turns s) (sa_option s)" and g: "give_task env owner task call k s wx = (None, w')"
    using True assms(4) s by (auto simp: send_end_def Let_def unnamed_def split: prod.splits option.splits)
  from g obtain op st w1 r where p: "postOnce env cid (taskMessage cid task (1 < sa_turns s) ?key) ?key (\<lambda>_. False) ?key wx = (Posted op st, w1)"
    and w': "sw_db w' = on_rows (setSubagentTurnOp owner cid op) (sw_db w1)" "sw_posts w' = sw_posts w1"
    and r: "subagentOf owner cid (rows_of w1) = Some r" "sa_turn_key r = Some k"
    unfolding give_task_def Let_def s(3) by (auto split: prod.splits post_end.splits option.splits if_splits)
  have "turn_kept owner cid k wx w1" by (rule post_once_keeps [OF assms(1) p])
  with s(1) r have kept: "sa_parent r = sa_parent s" "sa_turns r = sa_turns s" "sa_option r = sa_option s" by (auto simp: turn_kept_def)
  have "subagentOf owner cid (rows_of w') = Some (r\<lparr>sa_turn_op := op\<rparr>)" using set_op_row [OF r(1)] by (simp add: w')
  with r(2) have "sent_as owner cid k w' (r\<lparr>sa_turn_op := op\<rparr>)" by (simp add: sent_as_def)
  moreover have "\<exists>q\<in>set (sw_posts w'). po_session q = cid \<and> carries_key (ve_engine env) ?key q"
    using task_posted [OF assms(1,2) p] w'(2) by simp
  ultimately show ?thesis using a kept by (intro conjI exI [of _ "r\<lparr>sa_turn_op := op\<rparr>"]) simp_all
qed

text \<open>The end run again where the turn's row stands and, if it waits for a run to be named, its task is in the conversation.\<close>

lemma end_again:
  assumes "sent_as owner cid k v s"
    and "unnamed s \<longrightarrow> (\<exists>p\<in>set (sw_posts v). po_session p = cid \<and> carries_key (ve_engine env) (taskKey cid (sa_turns s)) p)"
  shows "\<exists>v'. send_end env owner task call k cid v = (Inr (startedSubagent cid (1 < sa_turns s) (sa_option s)), v')
    \<and> sw_posts v' = sw_posts v \<and> sd_turns (sw_db v') = sd_turns (sw_db v)"
proof (cases "unnamed s")
  case False
  with assms(1) show ?thesis by (auto simp: send_end_def sent_as_def Let_def unnamed_def)
next
  case True
  have s: "subagentOf owner cid (rows_of v) = Some s" "sa_turn_key s = Some k" "sa_id s = cid"
    using assms(1) sub_id [of owner cid "rows_of v" s] by (simp_all add: sent_as_def)
  let ?key = "taskKey cid (sa_turns s)"
  obtain op where "postedOp env cid ?key v = Some op" using True assms(2) found_again [of _ v cid env ?key] by auto
  then have again: "postOnce env cid (taskMessage cid task (1 < sa_turns s) ?key) ?key (\<lambda>_. False) ?key v = (Posted op False, v)"
    by (simp add: postOnce_def)
  let ?v' = "add_trace [subagentStartRow owner s (if 1 < sa_turns s then ''follow_up'' else ''spawn'') (Some call) (ve_later env)]
    (with_rows (setSubagentTurnOp owner cid op) v)"
  have "give_task env owner task call k s v = (None, ?v')"
    using again s True unfolding give_task_def Let_def unnamed_def by simp
  then have "send_end env owner task call k cid v = (Inr (startedSubagent cid (1 < sa_turns s) (sa_option s)), ?v')"
    using s True by (simp add: send_end_def unnamed_def)
  then show ?thesis by (intro exI [of _ ?v']) (simp add: on_rows_def)
qed

lemma started_row:
  assumes "start_row owner parent cid model call k existing now d = Some d'" and "existing = subagentOf owner cid (sd_rows d)"
    and "\<forall>s. existing = Some s \<longrightarrow> agent = None \<or> sa_parent s = parent"
  shows "\<exists>s. subagentOf owner cid (sd_rows d') = Some s \<and> sa_turn_key s = Some k \<and> (agent = None \<or> sa_parent s = parent)"
proof (cases existing)
  case None
  then obtain c where r: "recordSubagent owner c now d = Some d'" and c: "nc_id c = cid" "nc_turn_key c = Some k" "nc_parent c = parent"
    using assms(1) by (fastforce simp: start_row_def)
  have "get_row (is_child owner cid) (sd_rows d) = None" using None assms(2) by (simp add: subagentOf_def)
  then have "get_row (is_child owner cid) (sd_rows d') = Some (new_row owner c now)"
    unfolding record_rows(1) [OF r] by (simp add: get_row_append is_child_iff c)
  then show ?thesis using c by (simp add: subagentOf_def new_row_def)
next
  case (Some s)
  then obtain r where r: "get_row (is_child owner cid) (sd_rows d) = Some r" "s = sr_child r" using assms(2) by (auto simp: subagentOf_def)
  obtain t where t: "d' = startSubagentTurn owner cid t now d" "nt_turn_key t = Some k"
    using assms(1) Some by (fastforce simp: start_row_def)
  have "get_row (is_child owner cid) (sd_rows d') = Some (begin_turn t now r)"
    unfolding t(1) start_rows using begin_turn_same r(1) by (subst get_row_update_same) (auto simp: is_child_iff same_row_def)
  moreover have "sa_turn_key (sr_child (begin_turn t now r)) = Some k" "sa_parent (sr_child (begin_turn t now r)) = sa_parent s"
    using t(2) r(2) by (auto simp: begin_turn_def Let_def split: option.split)
  ultimately show ?thesis using assms(3) Some by (auto simp: subagentOf_def)
qed

lemma target_parts:
  assumes "send_target env owner parent agent k rows = Inr (cid, existing)"
  shows "cid = target_of env agent k \<and> existing = subagentOf owner cid rows \<and> (\<forall>s. existing = Some s \<longrightarrow> agent = None \<or> sa_parent s = parent)"
  using assms sub_id [of owner _ rows] by (auto simp: send_target_def target_of_def Let_def split: option.splits if_splits)

lemma replay_is_end:
  assumes "sent_as owner cid (turnKeyOf parent run call) w s" and "agent = None \<or> sa_parent s = parent"
    and "cid = target_of env agent (turnKeyOf parent run call)" and "send_model env asked = Inr model"
  shows "sendToAgent env owner parent (task, agent, asked) call run w = send_end env owner task call (turnKeyOf parent run call) cid w"
proof -
  have "send_target env owner parent agent (turnKeyOf parent run call) (rows_of w) = Inr (cid, Some s)"
    using assms(1-3) sub_id [of owner cid "rows_of w" s] by (auto simp: send_target_def target_of_def sent_as_def Let_def split: option.splits)
  with assms(1,4) show ?thesis by (simp add: sendToAgent_def is_replay_def sent_as_def Let_def)
qed


text \<open>The end of the first run: where the row is written, or found to be this call's.\<close>

lemma send_reaches_end:
  assumes "awaits_run owner env" and "awaits_keep owner (target_of env agent (turnKeyOf parent run call)) (turnKeyOf parent run call) env"
    and "tidy (rows_of w)" and "byte_digest env" and "sendToAgent env owner parent (task, agent, asked) call run w = (Inr a, w')"
  defines "k \<equiv> turnKeyOf parent run call" and "cid \<equiv> target_of env agent (turnKeyOf parent run call)"
  shows "plain cid \<and> (\<exists>wx s. send_end env owner task call k cid wx = (Inr a, w') \<and> sent_as owner cid k wx s
    \<and> (agent = None \<or> sa_parent s = parent))"
proof -
  obtain model where m: "send_model env asked = Inr model"
    using assms(5) by (cases "send_model env asked") (simp_all add: sendToAgent_def Let_def)
  obtain c existing where t: "send_target env owner parent agent k (rows_of w) = Inr (c, existing)"
    using assms(5) m unfolding k_def
    by (cases "send_target env owner parent agent (turnKeyOf parent run call) (rows_of w)") (auto simp: sendToAgent_def Let_def)
  note parts = target_parts [OF t]
  have c: "c = cid" using parts by (simp add: cid_def k_def)
  show ?thesis
  proof (cases "is_replay k existing")
    case True
    then obtain s where s: "existing = Some s" "sa_turn_key s = Some k" by (auto simp: is_replay_def split: option.splits)
    have "send_end env owner task call k cid w = (Inr a, w')" using assms(5) m t True c unfolding k_def by (simp add: sendToAgent_def Let_def)
    moreover have r: "subagentOf owner cid (rows_of w) = Some s" using s(1) parts c by simp
    moreover have "plain cid" using tidy_child [OF assms(3) r] by auto
    ultimately show ?thesis using s parts by (intro conjI exI [of _ w] exI [of _ s]) (simp_all add: sent_as_def)
  next
    case False
    let ?w1 = "ve_switch env w"
    have run: "follows owner w ?w1" by (rule awaitsD(1) [OF assms(1)])
    have sw: "turn_kept owner cid k w ?w1" using assms(2) by (simp add: awaits_keep_def cid_def k_def)
    from False assms(5) m t c obtain d where d: "send_refusal owner existing (ve_now env) (rows_of ?w1) = None"
      "start_row owner parent cid model call k existing (ve_now env) (sw_db ?w1) = Some d"
      "send_end env owner task call k cid (?w1\<lparr>sw_db := d\<rparr>) = (Inr a, w')"
      unfolding k_def by (auto simp: sendToAgent_def Let_def split: if_splits option.splits)
    obtain s0 where s0: "subagentOf owner cid (sd_rows d) = Some s0"
      using d(3) by (auto simp: send_end_def split: option.splits)
    have s: "sa_turn_key s0 = Some k \<and> (agent = None \<or> sa_parent s0 = parent)"
    proof -
      have "start_row owner parent cid model call k (subagentOf owner cid (rows_of ?w1)) (ve_now env) (sw_db ?w1) = Some d"
      proof (cases existing)
        case None
        with d(2) obtain c where "recordSubagent owner c (ve_now env) (sw_db ?w1) = Some d" "nc_id c = cid" by (fastforce simp: start_row_def)
        then have "subagentOf owner cid (rows_of ?w1) = None"
          by (auto simp: recordSubagent_def insert_row_def subagentOf_def is_child_def has_row_iff get_row_None_iff split: if_splits option.splits)
        with d(2) None show ?thesis by simp
      next
        case (Some s)
        then obtain s' where "subagentOf owner cid (rows_of ?w1) = Some s'" using sw parts c by (auto simp: turn_kept_def)
        with d(2) Some show ?thesis by (simp add: start_row_def)
      qed
      moreover have "\<forall>s. subagentOf owner cid (rows_of ?w1) = Some s \<longrightarrow> agent = None \<or> sa_parent s = parent"
      proof (cases existing)
        case None
        with t show ?thesis by (auto simp: send_target_def Let_def split: option.splits if_splits)
      next
        case (Some s)
        with sw parts c show ?thesis by (fastforce simp: turn_kept_def)
      qed
      ultimately show ?thesis using started_row [of owner parent cid model call k _ "ve_now env" "sw_db ?w1" d agent] s0 by fastforce
    qed
    have "sub_step owner (sw_db ?w1) d"
    proof (rule start_row_step [OF d(2) refusal_room [OF d(1)]])
      show "plain cid" if "existing = None" using target_plain [OF assms(4)] t that c by blast
    qed
    from tidy_child [OF step_tidy [OF this run_tidy [OF run assms(3)]] s0] have "plain cid" by auto
    with s0 s d(3) show ?thesis by (intro conjI exI [of _ "?w1\<lparr>sw_db := d\<rparr>"] exI [of _ s0]) (simp_all add: sent_as_def)
  qed
qed

text \<open>
  C10: A send that runs again starts nothing more. When the first run answered, the same call run again later, on the same engine, gives the
  same answer, posts no message and starts no turn: with the agent's switch on or off, after any restart, even if the engine named no run the
  first time. Between the two runs, and while the first awaited, anything may happen that only adds messages, leaves the child with its parent
  and begins no other turn under this call's key; at the replay the child's row must still name the call, and wait for the engine to name
  its run only if it did when the first run answered. The code looks at the model asked for before it finds the replay, so when that
  option no longer resolves the replay is refused instead, and still changes nothing.
\<close>

theorem a_send_run_again_answers_the_same:
  assumes "awaits_run owner env" and "awaits_keep owner (target_of env agent (turnKeyOf parent run call)) (turnKeyOf parent run call) env"
    and "tidy (rows_of w)" and "byte_digest env"
    and "sendToAgent env owner parent (task, agent, asked) call run w = (Inr a, w')"
    and "still_sent owner (target_of env agent (turnKeyOf parent run call)) (turnKeyOf parent run call) w' v"
    and "ve_engine env' = ve_engine env" and "ve_digest env' = ve_digest env"
  shows "case send_model env' asked of
      Inl e \<Rightarrow> sendToAgent env' owner parent (task, agent, asked) call run v = (Inl e, v)
    | Inr _ \<Rightarrow> \<exists>v'. sendToAgent env' owner parent (task, agent, asked) call run v = (Inr a, v')
        \<and> sw_posts v' = sw_posts v \<and> sd_turns (sw_db v') = sd_turns (sw_db v)"
proof (cases "send_model env' asked")
  case (Inl e)
  then show ?thesis by (simp add: sendToAgent_def Let_def)
next
  case (Inr model)
  define k where "k = turnKeyOf parent run call"
  define cid where "cid = target_of env agent k"
  obtain wx s where x: "plain cid" "send_end env owner task call k cid wx = (Inr a, w')" "sent_as owner cid k wx s"
    "agent = None \<or> sa_parent s = parent"
    using send_reaches_end [OF assms(1-5)] unfolding k_def cid_def by blast
  have ak: "awaits_keep owner cid k env" using assms(2) by (simp add: k_def cid_def)
  obtain s1 where a: "a = startedSubagent cid (1 < sa_turns s) (sa_option s)" and s1: "sent_as owner cid k w' s1" "sa_parent s1 = sa_parent s"
    "sa_turns s1 = sa_turns s" "sa_option s1 = sa_option s"
    "unnamed s1 \<longrightarrow> (\<exists>p\<in>set (sw_posts w'). po_session p = cid \<and> carries_key (ve_engine env) (taskKey cid (sa_turns s)) p)"
    using end_answers [OF ak x(1,3,2)] by blast
  have still: "still_sent owner cid k w' v" using assms(6) by (simp add: k_def cid_def)
  with s1(1) obtain s2 where s2: "subagentOf owner cid (rows_of v) = Some s2" "sa_turn_key s2 = Some k" "unnamed s2 \<longrightarrow> unnamed s1"
    by (auto simp: still_sent_def sent_as_def split: option.splits)
  have kept: "sa_parent s2 = sa_parent s" "sa_turns s2 = sa_turns s" "sa_option s2 = sa_option s" "set (sw_posts w') \<subseteq> set (sw_posts v)"
    using still s1 s2 by (auto simp: still_sent_def turn_kept_def sent_as_def)
  have there: "sent_as owner cid k v s2" using s2 by (simp add: sent_as_def)
  have "unnamed s2 \<longrightarrow> (\<exists>p\<in>set (sw_posts v). po_session p = cid \<and> carries_key (ve_engine env') (taskKey cid (sa_turns s2)) p)"
    using s2(3) s1(5) kept assms(7) by auto
  from end_again [OF there this, of task call] obtain v' where e: "send_end env' owner task call k cid v = (Inr a, v')"
    "sw_posts v' = sw_posts v" "sd_turns (sw_db v') = sd_turns (sw_db v)" using kept a by auto
  have "cid = target_of env' agent k" using assms(8) by (simp add: cid_def target_of_def split: option.split)
  then have "sendToAgent env' owner parent (task, agent, asked) call run v = (Inr a, v')"
    using replay_is_end [of owner cid parent run call v s2 agent env' asked model task] there x(4) kept(1) Inr e(1) by (simp add: k_def)
  with Inr e(2,3) show ?thesis by auto
qed

section \<open>A report that can be posted is\<close>

definition standing :: "job_owner \<Rightarrow> string \<Rightarrow> sub_row list \<Rightarrow> (sub_state \<times> string option) option" where
  "standing owner cid rows = map_option (\<lambda>s. (sa_state s, sa_report s)) (subagentOf owner cid rows)"

lemma mark_standing:
  "standing owner cid (markReported owner cid' rows) =
     (if cid' = cid \<and> map_option fst (standing owner cid rows) = Some Sub_Reporting then Some (Sub_Idle, None) else standing owner cid rows)"
proof (cases "cid' = cid")
  case True
  let ?f = "\<lambda>r. (set_child (\<lambda>s. s\<lparr>sa_state := Sub_Idle, sa_report := None\<rparr>) r)\<lparr>sr_retry := None\<rparr>"
  let ?p = "\<lambda>r. is_child owner cid r \<and> in_state Sub_Reporting r"
  have "get_row (is_child owner cid) (update_where ?p ?f rows) = map_option (\<lambda>r. if ?p r then ?f r else r) (get_row (is_child owner cid) rows)"
    by (rule update_child_row [OF starts_nothing_same [OF op_changes(3)]]) simp
  then show ?thesis using True
    by (cases "get_row (is_child owner cid) rows")
      (auto simp: standing_def subagentOf_def markReported_def in_state_def set_child_def dest: get_row_SomeD)
next
  case False
  have "get_row (is_child owner cid) (markReported owner cid' rows) = get_row (is_child owner cid) rows"
    unfolding markReported_def using False by (intro update_other_row starts_nothing_same [OF op_changes(3)]) (simp add: is_child_iff)
  with False show ?thesis by (simp add: standing_def subagentOf_def)
qed

lemma mark_all_standing:
  "standing owner cid (mark_all owner owed rows) =
     (if cid \<in> sa_id ` set owed \<and> map_option fst (standing owner cid rows) = Some Sub_Reporting then Some (Sub_Idle, None) else standing owner cid rows)"
proof (induction owed arbitrary: rows)
  case Nil
  show ?case by (simp add: mark_all_def)
next
  case (Cons s owed)
  have "standing owner cid (mark_all owner (s # owed) rows) = standing owner cid (mark_all owner owed (markReported owner (sa_id s) rows))"
    by (simp add: mark_all_def)
  with Cons show ?case by (auto simp: mark_standing)
qed

lemma owed_standing: "stillOwed owner owed w \<Longrightarrow> s \<in> set owed \<Longrightarrow> map_option fst (standing owner (sa_id s) (rows_of w)) = Some Sub_Reporting"
  by (auto simp: stillOwed_def standing_def list_all_iff map_option_eq_Some)

lemma posted_counts: "ve_engine env = Pd \<Longrightarrow> postedOp env session key w \<noteq> None \<Longrightarrow> 0 < report_posts session key (sw_posts w)"
  by (fastforce simp: postedOp_def report_posts_def carries_key_def filter_empty_conv split: option.splits dest: get_row_SomeD)

text \<open>
  What may happen while the pass waits for its post: anything that takes none of these reports away (no stop, switch-off or other pass is let
  in between, and a child that owes a report takes no task).
\<close>

definition awaits_owed :: "job_owner \<Rightarrow> string \<Rightarrow> subagent list \<Rightarrow> run_env \<Rightarrow> bool" where
  "awaits_owed owner parent owed env \<longleftrightarrow> (\<forall>w. stillOwed owner owed w \<longrightarrow>
     stillOwed owner owed (ve_before env parent w) \<and> stillOwed owner owed (ve_after env parent w))"

lemma stillOwed_write [simp]: "stillOwed owner owed (write_post session text request op w) = stillOwed owner owed w"
  by (simp add: stillOwed_def write_post_def)

lemma note_started_still [simp]: "stillOwed owner owed (note_started env owner b w) = stillOwed owner owed w"
  by (simp add: stillOwed_def)

text \<open>
  C9: On the durable engine the reports owed to a conversation that can be posted are delivered by the pass, each exactly once, in one message:
  the pass adds at most one message that carries a report (to this conversation, with the report of each child whose key was not there
  yet), after it each owed report is carried once, by that message, or as often as it was there before; each child is idle and owes nothing; and
  all are counted as reported. Anything may happen while the post awaits that carries no report itself and takes none of these away. Of a
  pass during which a stop takes them away, and of a post that fails, this says nothing.
\<close>

theorem the_reports_owed_are_delivered:
  assumes "ve_engine env = Pd" and "awaits_foreign env" and "awaits_owed owner parent owed env" and "stillOwed owner owed w"
    and "\<forall>s\<in>set owed. plain (sa_id s)" and "\<forall>msg request. \<exists>op started. ve_post env parent msg request = Post_Made op started"
  shows "case post_group env owner (parent, owed) w of (n, w') \<Rightarrow> n = length owed
    \<and> (\<forall>s\<in>set owed. report_posts parent (reportKey s) (sw_posts w') = max 1 (report_posts parent (reportKey s) (sw_posts w))
        \<and> standing owner (sa_id s) (rows_of w') = Some (Sub_Idle, None))
    \<and> (\<exists>mid. foreign (sw_posts w) mid \<and> (foreign mid (sw_posts w') \<or> (\<exists>p. po_session p = parent \<and> foreign (mid @ [p]) (sw_posts w'))))"
proof -
  define fresh where "fresh = filter (\<lambda>s. postedOp env parent (reportKey s) w = None) owed"
  have idle: "standing owner (sa_id s) (mark_all owner owed (rows_of v)) = Some (Sub_Idle, None)" if "s \<in> set owed" "stillOwed owner owed v" for s v
    using owed_standing [OF that(2,1)] that(1) by (simp add: mark_all_standing)
  have key: "report_key (reportKey s)" if "s \<in> set owed" for s using that assms(5) reportKey_key by blast
  have old: "0 < report_posts parent (reportKey s) (sw_posts w)" if "s \<in> set owed" "s \<notin> set fresh" for s
    using that posted_counts [OF assms(1)] by (auto simp: fresh_def)
  show ?thesis
  proof (cases "fresh = []")
    case True
    then show ?thesis using assms(4) idle [OF _ assms(4)] old
      by (simp add: post_group_def fresh_def [symmetric] Let_def) (metis foreign_refl less_eq_Suc_le max.absorb2 One_nat_def)
  next
    case False
    let ?msg = "report_text fresh" and ?req = "combinedRequestId (map reportKey fresh)" and ?b = "ve_before env parent w"
    obtain op started where made: "ve_post env parent ?msg ?req = Post_Made op started" using assms(6) by blast
    have sb: "stillOwed owner owed ?b" using assms(3,4) by (simp add: awaits_owed_def)
    let ?w1 = "write_post parent ?msg ?req op ?b"
    let ?w2 = "ve_after env parent ?w1"
    have sa: "stillOwed owner owed ?w2" using sb assms(3) by (simp add: awaits_owed_def)
    have "postedOp env parent (reportKey (hd fresh)) w = None" using False by (cases fresh) (auto simp: fresh_def filter_eq_Cons_iff)
    then have p: "postOnce env parent ?msg (reportKey (hd fresh)) (\<lambda>w1. \<not> stillOwed owner owed w1) ?req w = (Posted op started, ?w2)"
      using sb made by (simp add: postOnce_def post_message_def Let_def)
    have g: "post_group env owner (parent, owed) w = (length owed, with_rows (mark_all owner owed) (note_started env owner started ?w2))"
      using False assms(4) sa p by (simp add: post_group_def fresh_def [symmetric] Let_def)
    have keys: "\<forall>k\<in>set (map reportKey fresh). plain k" using key report_key_plain by (auto simp: fresh_def)
    have b: "foreign (sw_posts w) (sw_posts ?b)" and a: "foreign (sw_posts ?w1) (sw_posts ?w2)"
      using foreignD(3,4) [OF assms(2)] by blast+
    have once: "report_posts parent (reportKey s) (sw_posts ?w2) = max 1 (report_posts parent (reportKey s) (sw_posts w))" if s: "s \<in> set owed" for s
    proof -
      have "report_posts parent (reportKey s) (sw_posts ?w2) = report_posts parent (reportKey s) (sw_posts ?b)
          + (if pd_carries (reportKey s) ?req then 1 else 0)"
        using foreign_posts [OF a key [OF s], of parent] by (simp add: write_post_def report_posts_def)
      also have "report_posts parent (reportKey s) (sw_posts ?b) = report_posts parent (reportKey s) (sw_posts w)"
        by (rule foreign_posts [OF b key [OF s]])
      finally have n: "report_posts parent (reportKey s) (sw_posts ?w2) = report_posts parent (reportKey s) (sw_posts w)
          + (if pd_carries (reportKey s) ?req then 1 else 0)" .
      have c: "pd_carries (reportKey s) ?req \<longleftrightarrow> reportKey s \<in> set (map reportKey fresh)"
        using False by (intro a_key_is_found [OF keys report_key_plain [OF key [OF s]]]) simp
      show ?thesis
      proof (cases "s \<in> set fresh")
        case True
        then have "report_posts parent (reportKey s) (sw_posts w) = 0" using not_posted [OF assms(1)] by (simp add: fresh_def)
        with n c True show ?thesis by simp
      next
        case f: False
        then have "reportKey s \<notin> set (map reportKey fresh)" using s by (auto simp: fresh_def)
        with n c old [OF s f] show ?thesis by simp
      qed
    qed
    have "\<exists>mid. foreign (sw_posts w) mid \<and> (\<exists>p. po_session p = parent \<and> foreign (mid @ [p]) (sw_posts ?w2))"
      using b a by (intro exI [of _ "sw_posts ?b"] conjI exI [of _ "\<lparr>po_session = parent, po_text = ?msg, po_request = ?req, po_op = op\<rparr>"])
        (simp_all add: write_post_def)
    then show ?thesis using once idle [OF _ sa] unfolding g by auto
  qed
qed

end
