(* ===== verification/Subagent_Cases.thy ===== *)
theory Subagent_Cases
  imports Subagent_Runs
begin

text \<open>
  The subagents on concrete inputs: the witnesses of the theorems of \<open>Subagents\<close> and \<open>Subagent_Runs\<close>, and three runs that
  show where the code does less than it says: two follow-ups sent in one message pass each other's guards, a stop leaves a note about the
  model that the next turn's report then carries, and a replay whose model is gone is told that nothing was started.
\<close>

section \<open>An agent and its children\<close>

definition an_owner :: job_owner where "an_owner = (''t'', ''a'')"

definition a_child :: "string \<Rightarrow> sub_state \<Rightarrow> nat \<Rightarrow> subagent" where
  "a_child cid st turns =
     \<lparr>sa_id = cid, sa_parent = ''main'', sa_call = Some ''c1'', sa_option = None, sa_provider = None, sa_model = None, sa_state = st,
      sa_turn_key = Some ''main|r1|c1'', sa_report = None, sa_model_now = None, sa_note = None, sa_turn_op = None, sa_turns = turns,
      sa_created = 0, sa_turn_started = 0, sa_finished = Some 5, sa_outcome = Some Sub_Done\<rparr>"

definition a_row :: "subagent \<Rightarrow> sub_row" where
  "a_row s = \<lparr>sr_tenant = ''t'', sr_agent = ''a'', sr_child = s, sr_attempts = 0, sr_retry = None\<rparr>"

definition a_world :: "subagent list \<Rightarrow> sub_world" where
  "a_world ss = \<lparr>sw_db = \<lparr>sd_rows = map a_row ss, sd_turns = []\<rparr>, sw_posts = [], sw_cancelled = [], sw_trace = []\<rparr>"

definition an_env :: "engine_kind \<Rightarrow> (sub_world \<Rightarrow> sub_world) \<Rightarrow> (sub_world \<Rightarrow> sub_world) \<Rightarrow> run_env" where
  "an_env eng switching posting =
     \<lparr>ve_engine = eng, ve_now = 1000, ve_later = 2000, ve_digest = (\<lambda>_. [1, 2, 3, 4, 5, 6, 7, 8]), ve_model = (\<lambda>_. Inl ''none''), ve_on = True,
      ve_post = (\<lambda>_ _ _. Post_Made (Some ''op1'') True), ve_lane = (\<lambda>_. None), ve_activity = (\<lambda>_. (None, False)), ve_entries = (\<lambda>_. []),
      ve_result = (\<lambda>_ _. None), ve_unreadable = (\<lambda>_. False), ve_stored = (\<lambda>_ _. None), ve_ended = False, ve_own_run = (\<lambda>_ _. False),
      ve_switch = switching, ve_before = (\<lambda>_. posting), ve_after = (\<lambda>_ w. w), ve_cancelling = (\<lambda>_ w. w), ve_storing = (\<lambda>_ w. w)\<rparr>"

abbreviation quiet_env :: run_env where "quiet_env \<equiv> an_env Pd (\<lambda>w. w) (\<lambda>w. w)"

lemma quiet_env_ok:
  shows "awaits_keep owner cid k quiet_env" and "awaits_run owner quiet_env" and "byte_digest quiet_env" and "durable quiet_env"
  by (simp_all add: an_env_def awaits_keep_def awaits_run_def byte_digest_def durable_def awaits_foreign_def)

lemma two_tidy: "tidy (rows_of (a_world [a_child ''sub_01'' Sub_Idle 1, a_child ''sub_02'' Sub_Running 1]))"
  by (simp add: tidy_def unique_children_def a_world_def a_row_def a_child_def child_id_def plain_def esc_char_def)

section \<open>Two follow-ups in one message\<close>

text \<open>
  The engine runs the calls of one message side by side. Both sends read the child's row before either starts a turn, because the agent's
  setting is awaited between the read and the checks; the second send's checks then see the row of before. Here the child had nine
  turns and both calls are admitted: it has eleven.
\<close>

definition other_start :: "string \<Rightarrow> sub_world \<Rightarrow> sub_world" where
  "other_start call w =
     w\<lparr>sw_db := or_else (start_row an_owner ''main'' ''sub_01'' None call (turnKeyOf ''main'' ''r2'' call)
       (subagentOf an_owner ''sub_01'' (rows_of w)) 1000 (sw_db w)) (sw_db w)\<rparr>"

definition follow_up :: "run_env \<Rightarrow> string \<Rightarrow> (string + json) \<times> sub_world" where
  "follow_up env call = sendToAgent env an_owner ''main'' (''look again'', Some ''sub_01'', None) call ''r2'' (a_world [a_child ''sub_01'' Sub_Idle 9])"

theorem two_follow_ups_pass_the_turn_limit:
  "map_option sa_turns (subagentOf an_owner ''sub_01'' (rows_of (snd (follow_up (an_env Pd (other_start ''c2'') (\<lambda>w. w)) ''c3'')))) = Some 11
   \<and> fst (follow_up (an_env Pd (other_start ''c2'') (\<lambda>w. w)) ''c3'') = Inr (startedSubagent ''sub_01'' True None)"
  by code_simp

text \<open>The first of the two, whose turn the second replaced while its task was posted, cancels the child and says it was stopped.\<close>

theorem the_first_follow_up_cancels_the_child:
  "fst (follow_up (an_env Pd (\<lambda>w. w) (other_start ''c3'')) ''c2'') = Inl (stopped_meanwhile ''sub_01'')
   \<and> sw_cancelled (snd (follow_up (an_env Pd (\<lambda>w. w) (other_start ''c3'')) ''c2'')) = [''sub_01'']"
  by code_simp

section \<open>A note a stop leaves\<close>

text \<open>
  A child's model moves in its first turn, a stop ends the turn, and the next turn is sent on a model of its own: its report says, of the
  turn before, a model that the turn did not run on. (A turn that ends, and a switch-off, clear the note; the stop does not.)
\<close>

definition stopped_with_note :: "sub_row list" where
  "stopped_with_note =
     (let rows0 = [a_row (a_child ''sub_01'' Sub_Running 1)];
          rows1 = snd (noteSubagentModel an_owner (a_child ''sub_01'' Sub_Running 1) (Some ''B'') ''a pin was set'' rows0);
          rows2 = snd (stopRunningSubagents an_owner 500 None rows1) in
      sd_rows (startSubagentTurn an_owner ''sub_01''
        \<lparr>nt_call = Some ''c2'', nt_turn_op = None, nt_model = Some (''opt'', ''p'', ''C''), nt_turn_key = Some ''k2''\<rparr> 1000 \<lparr>sd_rows = rows2, sd_turns = []\<rparr>))"

theorem a_stopped_turns_note_is_told_later:
  "map_option (\<lambda>s. (sa_turns s, sa_model_now s, sa_note s)) (subagentOf an_owner ''sub_01'' stopped_with_note)
     = Some (2, Some ''C'', Some (''From turn 1 it ran on B, not the agent'' @ [CHR 0x27] @ ''s own model: a pin was set.''))"
  by code_simp

section \<open>A replay whose model is gone\<close>

text \<open>
  A send on a model option starts its child; the option stops resolving (a pin of the administrator, the server's picker), and the same call
  runs again. It is told that nothing was started, because the model is looked up before the replay is found; the child works on.
\<close>

definition first_of_model :: "(string + json) \<times> sub_world" where
  "first_of_model = sendToAgent (quiet_env\<lparr>ve_model := \<lambda>_. Inr (''p'', ''M'')\<rparr>) an_owner ''main'' (''read it'', None, Some ''opt'') ''c3'' ''r2'' (a_world [])"

lemma a_replay_is_told_nothing_was_started:
  "fst first_of_model = Inr (startedSubagent (subagentIdFor (ve_digest quiet_env) (turnKeyOf ''main'' ''r2'' ''c3'')) False (Some ''opt''))
   \<and> length (runningSubagents an_owner (rows_of (snd first_of_model))) = 1
   \<and> fst (sendToAgent quiet_env an_owner ''main'' (''read it'', None, Some ''opt'') ''c3'' ''r2'' (snd first_of_model))
       = Inl (SUBAGENT_TOOL @ '': none. Nothing was started.'')"
  by code_simp

section \<open>The theorems on these inputs\<close>

theorem a_turn_is_ended_once_witness:
  "count_list (claim_outcomes (\<lambda>(outcome, now, report). finishSubagentTurn an_owner ''sub_02'' outcome now report)
     [((Sub_Done, 10, None), \<lambda>rows. rows), ((Sub_Cancelled, 20, None), \<lambda>rows. setSubagentTurnOp an_owner ''sub_02'' (Some ''op2'') rows)]
     (rows_of (a_world [a_child ''sub_02'' Sub_Running 1]))) True \<le> 1"
  by (rule a_turn_is_ended_once) (auto intro: harmless_none harmless_ops)

theorem a_stop_leaves_nothing_running_or_owed_witness:
  "fst (fst (stopRunningSubagents an_owner 7 None (rows_of (a_world [a_child ''sub_02'' Sub_Running 1])))) = [''sub_02'']"
proof -
  obtain ids ended rows' where s: "stopRunningSubagents an_owner 7 None (rows_of (a_world [a_child ''sub_02'' Sub_Running 1])) = ((ids, ended), rows')"
    by (metis surj_pair)
  from a_stop_leaves_nothing_running_or_owed [OF s]
  have "ids = map child_id (filter (\<lambda>r. in_scope an_owner None r \<and> \<not> in_state Sub_Archived r) (rows_of (a_world [a_child ''sub_02'' Sub_Running 1])))"
    by blast
  then have "ids = [''sub_02'']"
    by (simp add: a_world_def a_row_def a_child_def an_owner_def in_scope_def sub_owned_def in_state_def child_id_def)
  with s show ?thesis by simp
qed

lemma one_owes: "owes an_owner ''sub_02'' 0 (rows_of (a_world [a_child ''sub_02'' Sub_Reporting 1]))"
  by (simp add: owes_def unique_children_def a_world_def a_row_def a_child_def an_owner_def is_child_def sub_owned_def in_state_def)

theorem an_undeliverable_report_is_dropped_in_time_witness:
  "dropped_at REPORT_MAX_ATTEMPTS an_owner ''sub_02'' 100 (rows_of (a_world [a_child ''sub_02'' Sub_Reporting 1])) = Some 635100"
  using an_undeliverable_report_is_dropped_in_time [OF one_owes, of 100] by simp

theorem an_event_keeps_its_turns_call_witness:
  "turnLineage ''sub_01'' 5 (startSubagentTurn an_owner ''sub_01'' \<lparr>nt_call = Some ''c2'', nt_turn_op = None, nt_model = None, nt_turn_key = None\<rparr> 9
     \<lparr>sd_rows = [], sd_turns = [(''sub_01'', 3, Some ''c1'')]\<rparr>) = Some ''c1''"
proof -
  have "\<forall>t\<in>set (sd_turns \<lparr>sd_rows = [], sd_turns = [(''sub_01'', 3 :: int, Some ''c1'')]\<rparr>). fst t = ''sub_01'' \<longrightarrow> fst (snd t) \<le> 9" by simp
  from an_event_keeps_its_turns_call [OF this, of 5] show ?thesis by (simp add: turnLineage_def order_by_def)
qed

lemma ended_tidy: "tidy (rows_of (a_world [a_child ''sub_02'' Sub_Running 1]))"
  by (simp add: tidy_def unique_children_def a_world_def a_row_def a_child_def child_id_def plain_def esc_char_def)

lemma plain_sub: "plain ''sub_02''"
  by (simp add: plain_def esc_char_def)

lemma one_send: "sub_handler durable an_owner (a_world [a_child ''sub_02'' Sub_Running 1])
    (snd (sendToAgent quiet_env an_owner ''main'' (''read it'', None, None) ''c9'' ''r9'' (a_world [a_child ''sub_02'' Sub_Running 1])))"
  using quiet_env_ok by (intro sent) (simp add: env_ok_def)

theorem never_more_children_than_the_cap_witness:
  "length (runningSubagents an_owner (rows_of (snd (sendToAgent quiet_env an_owner ''main'' (''read it'', None, None) ''c9'' ''r9''
     (a_world [a_child ''sub_02'' Sub_Running 1]))))) \<le> SUBAGENT_CAP"
proof -
  have "length (runningSubagents an_owner (rows_of (a_world [a_child ''sub_02'' Sub_Running 1]))) \<le> SUBAGENT_CAP"
    by (simp add: length_running running_rows_def a_world_def SUBAGENT_CAP_def)
  from never_more_children_than_the_cap [OF r_into_rtranclp [of "sub_handler durable an_owner", OF one_send] ended_tidy this] show ?thesis .
qed

theorem a_key_is_found_where_it_was_posted_witness:
  "pd_carries ''report sub_1/1'' (combinedRequestId [''report sub_1/10'', ''report sub_2/1'']) = False"
proof -
  have "\<forall>k\<in>set [''report sub_1/10'', ''report sub_2/1'']. plain k" and "plain ''report sub_1/1''"
    by (simp_all add: plain_def esc_char_def)
  from a_key_is_found_where_it_was_posted [OF this] show ?thesis by simp
qed

theorem a_report_reaches_its_parent_at_most_once_witness:
  "report_posts ''main'' (key_of ''report'' ''sub_02'' 1) (sw_posts (snd (sendToAgent quiet_env an_owner ''main'' (''read it'', None, None) ''c9'' ''r9''
     (a_world [a_child ''sub_02'' Sub_Running 1])))) \<le> 1"
proof -
  have "posted_once (a_world [a_child ''sub_02'' Sub_Running 1])" by (simp add: posted_once_def report_posts_def a_world_def)
  from a_report_reaches_its_parent_at_most_once [OF r_into_rtranclp [of "sub_handler durable an_owner", OF one_send] ended_tidy this plain_sub] show ?thesis .
qed

text \<open>A message of the user's arrives between the call and its replay.\<close>

definition a_message :: sub_post where
  "a_message = \<lparr>po_session = ''main'', po_text = ''hello'', po_request = ''m1'', po_op = Some ''op9''\<rparr>"

lemma sent_to_an_idle_child:
  "fst (follow_up quiet_env ''c3'') = Inr (startedSubagent ''sub_01'' True None)
   \<and> still_sent an_owner ''sub_01'' (turnKeyOf ''main'' ''r2'' ''c3'') (snd (follow_up quiet_env ''c3''))
       ((snd (follow_up quiet_env ''c3''))\<lparr>sw_posts := sw_posts (snd (follow_up quiet_env ''c3'')) @ [a_message]\<rparr>)"
proof
  show "fst (follow_up quiet_env ''c3'') = Inr (startedSubagent ''sub_01'' True None)" by code_simp
  have "map_option sa_turn_key (subagentOf an_owner ''sub_01'' (rows_of (snd (follow_up quiet_env ''c3''))))
      = Some (Some (turnKeyOf ''main'' ''r2'' ''c3''))" by code_simp
  then show "still_sent an_owner ''sub_01'' (turnKeyOf ''main'' ''r2'' ''c3'') (snd (follow_up quiet_env ''c3''))
      ((snd (follow_up quiet_env ''c3''))\<lparr>sw_posts := sw_posts (snd (follow_up quiet_env ''c3'')) @ [a_message]\<rparr>)"
    by (auto simp: still_sent_def turn_kept_def)
qed

theorem a_send_run_again_answers_the_same_witness:
  "\<exists>v'. sendToAgent quiet_env an_owner ''main'' (''look again'', Some ''sub_01'', None) ''c3'' ''r2''
       ((snd (follow_up quiet_env ''c3''))\<lparr>sw_posts := sw_posts (snd (follow_up quiet_env ''c3'')) @ [a_message]\<rparr>)
     = (Inr (startedSubagent ''sub_01'' True None), v')"
proof -
  have t: "tidy (rows_of (a_world [a_child ''sub_01'' Sub_Idle 9]))"
    by (simp add: tidy_def unique_children_def a_world_def a_row_def a_child_def child_id_def plain_def esc_char_def)
  have s: "sendToAgent quiet_env an_owner ''main'' (''look again'', Some ''sub_01'', None) ''c3'' ''r2'' (a_world [a_child ''sub_01'' Sub_Idle 9])
      = (Inr (startedSubagent ''sub_01'' True None), snd (follow_up quiet_env ''c3''))"
    using conjunct1 [OF sent_to_an_idle_child] unfolding follow_up_def by (metis prod.collapse)
  have tgt: "target_of quiet_env (Some ''sub_01'') k = ''sub_01''" for k by (simp add: target_of_def)
  have still: "still_sent an_owner (target_of quiet_env (Some ''sub_01'') (turnKeyOf ''main'' ''r2'' ''c3'')) (turnKeyOf ''main'' ''r2'' ''c3'')
      (snd (follow_up quiet_env ''c3'')) ((snd (follow_up quiet_env ''c3''))\<lparr>sw_posts := sw_posts (snd (follow_up quiet_env ''c3'')) @ [a_message]\<rparr>)"
    unfolding tgt by (rule conjunct2 [OF sent_to_an_idle_child])
  show ?thesis
    using a_send_run_again_answers_the_same [OF quiet_env_ok(2,1) t quiet_env_ok(3) s still refl refl] by (auto simp: send_model_def)
qed

text \<open>A message arrives while the report is posted.\<close>

theorem the_reports_owed_are_delivered_witness:
  "fst (post_group (an_env Pd (\<lambda>w. w) (\<lambda>w. w\<lparr>sw_posts := sw_posts w @ [a_message]\<rparr>)) an_owner (''main'', [a_child ''sub_02'' Sub_Reporting 1])
     (a_world [a_child ''sub_02'' Sub_Reporting 1])) = 1"
proof -
  let ?env = "an_env Pd (\<lambda>w. w) (\<lambda>w. w\<lparr>sw_posts := sw_posts w @ [a_message]\<rparr>)"
  have m: "\<forall>msg request. \<exists>op started. ve_post ?env ''main'' msg request = Post_Made op started"
    by (intro allI exI [of _ "Some ''op1''"] exI [of _ True]) (simp add: an_env_def)
  have "\<not> pd_carries key ''m1''" if "report_key key" for key
  proof -
    have "key \<noteq> ''m1''" using that by (auto simp: report_key_def key_of_def)
    moreover have "pd_carries key (combinedRequestId [''m1'']) \<longleftrightarrow> key \<in> set [''m1'']"
      by (rule a_key_is_found [OF _ report_key_plain [OF that]]) (simp_all add: plain_def esc_char_def)
    ultimately show ?thesis by (simp add: combinedRequestId_def)
  qed
  then have f: "awaits_foreign ?env" by (simp add: awaits_foreign_def an_env_def foreign_def a_message_def)
  have o: "awaits_owed an_owner ''main'' [a_child ''sub_02'' Sub_Reporting 1] ?env" by (simp add: awaits_owed_def an_env_def stillOwed_def)
  have e: "ve_engine ?env = Pd" by (simp add: an_env_def)
  have s: "stillOwed an_owner [a_child ''sub_02'' Sub_Reporting 1] (a_world [a_child ''sub_02'' Sub_Reporting 1])"
    by (simp add: stillOwed_def subagentOf_def a_world_def a_row_def a_child_def an_owner_def is_child_def sub_owned_def)
  have "\<forall>s\<in>set [a_child ''sub_02'' Sub_Reporting 1]. plain (sa_id s)" using plain_sub by (simp add: a_child_def)
  from the_reports_owed_are_delivered [OF e f o s this m] show ?thesis by (auto split: prod.splits)
qed

end
