(* ===== verification/Inbound_Pass.thy ===== *)
theory Inbound_Pass
  imports Inbound
begin

text \<open>
  An event pushed into an agent (\<open>receiveHook\<close>, \<open>cf/src/runtime.ts\<close>) and the pass that hands the accepted ones to the conversation
  (\<open>deliverPendingInbound\<close>). The pass is cut at its awaits: \<open>pass_phase\<close> is what it waits for, \<open>pass_move\<close> the synchronous run that
  follows, and \<open>inbound_step\<close> lets pushes arrive, holds lift and the object die in between. One reading of the clock serves a
  synchronous run, as the platform gives it. What the plugin, the mounts, the backstop and the engine answer are parameters, with the
  rule the code states of the engine: a post that throws wrote nothing.
\<close>

section \<open>A push arrives\<close>

datatype hook_result =
    Deliver string "string option" inbound_kind bool  \<comment> \<open>text, key, label, and whether its wake is asked too\<close>
  | Wake_Only string "string option"                  \<comment> \<open>reason, key\<close>
  | Turn_Away string bool bool                           \<comment> \<open>reason, rejected, malformed\<close>

datatype push_answer = Answer_Threw string | Answer_Skipped string | Answer_Result hook_result

record hook_push =
  hp_hook :: string
  hp_alias :: string
  hp_now :: int
  hp_body :: bool                   \<comment> \<open>the body was within the cap\<close>
  hp_secret :: bool                 \<comment> \<open>the hook has a secret in the agent's store\<close>
  hp_cached :: bool                 \<comment> \<open>found in the route cache\<close>
  hp_receiving :: "string option"   \<comment> \<open>the installation under the alias when \<open>receive\<close> began\<close>
  hp_answer :: push_answer
  hp_accepting :: "string option"   \<comment> \<open>and when it had answered\<close>
  hp_driver :: "string option"      \<comment> \<open>the alias of the agent's profile, if it runs under one\<close>
  hp_unique :: string
  hp_seal :: seal_facts

record receive_answer =
  ra_outcome :: inbound_outcome
  ra_unrouted :: bool
  ra_retry :: "int option"

definition MOUNT_REMOVED_REASON :: string where "MOUNT_REMOVED_REASON = ''the mount that received it was removed''"

definition wake_reason :: "string \<Rightarrow> string" where "wake_reason mount = ''a wake for the '' @ mount @ '' plugin''"

definition refused_as :: "bool \<Rightarrow> bool \<Rightarrow> inbound_outcome" where
  "refused_as rejected malformed = (if rejected then In_Rejected else if malformed then In_Malformed else In_Ignored)"

fun result_key :: "hook_result \<Rightarrow> string option" where
  "result_key (Deliver _ key _ _) = key"
| "result_key (Wake_Only _ key) = key"
| "result_key (Turn_Away _ _ _) = None"

text \<open>\<open>done\<close> of the code: the event is recorded under the time the request came.\<close>

definition end_push :: "job_owner \<Rightarrow> hook_push \<Rightarrow> inbound_outcome \<Rightarrow> string option \<Rightarrow> string option \<Rightarrow> inbound_db \<Rightarrow> receive_answer \<times> inbound_db" where
  "end_push owner p outcome reason key d =
     (\<lparr>ra_outcome = outcome, ra_unrouted = False, ra_retry = None\<rparr>,
      recordInbound owner (hp_hook p) (hp_alias p) outcome reason key (hp_now p) d)"

text \<open>The synchronous run that takes the push: the repeat, the rate and the queue, then the wake or the row. \<open>None\<close>: the insert threw.\<close>

definition take_push :: "job_owner \<Rightarrow> bool \<Rightarrow> hook_push \<Rightarrow> hook_result \<Rightarrow> inbound_db \<Rightarrow> receive_answer option \<times> inbound_db" where
  "take_push owner running p result d =
     (let now = hp_now p; hook = hp_hook p; key = result_key result in
      if truthy key \<and> seenBefore hook (or_else key []) now d then apfst Some (end_push owner p In_Duplicate None key d)
      else if \<not> underRate hook now INBOUND_PER_MINUTE d then
        let wait = or_else (rateRetryAfterS hook now INBOUND_PER_MINUTE d) INBOUND_QUEUE_RETRY_AFTER_S in
        apfst (\<lambda>a. Some (a\<lparr>ra_retry := Some wait\<rparr>))
          (end_push owner p In_Rate_Limited (Some (''more than '' @ show_nat INBOUND_PER_MINUTE @ '' a minute'')) key d)
      else if queueFull hook INBOUND_QUEUE_MAX d then
        let wait = queueRetryAfterS (nextPendingInbound d) now running in
        apfst (\<lambda>a. Some (a\<lparr>ra_retry := Some wait\<rparr>))
          (end_push owner p In_Rate_Limited (Some (show_nat INBOUND_QUEUE_MAX @ '' pushes from this hook are already waiting to be posted'')) key d)
      else case hp_driver p of
        Some driver \<Rightarrow> apfst Some (end_push owner p In_Delivered (Some (wake_reason driver)) key (askWake driver now d))
      | None \<Rightarrow>
          (case result of
             Deliver body _ kind wake \<Rightarrow>
               let d1 = (if wake then askWake (hp_alias p) now d else d);
                   d2 = sealSeedFiles (hp_seal p) First_Inbound now d1 in
               (case acceptInbound (hp_unique p) hook (hp_alias p) key (inboundMessage (hp_alias p) body kind) now (hp_accepting p) d2 of
                  None \<Rightarrow> (None, d2)
                | Some d3 \<Rightarrow> (Some \<lparr>ra_outcome = In_Delivered, ra_unrouted = False, ra_retry = None\<rparr>, d3))
           | _ \<Rightarrow> apfst Some (end_push owner p In_Delivered (Some (wake_reason (hp_alias p))) key (askWake (hp_alias p) now d))))"

definition receiveHook :: "job_owner \<Rightarrow> bool \<Rightarrow> hook_push \<Rightarrow> inbound_db \<Rightarrow> receive_answer option \<times> inbound_db" where
  "receiveHook owner running p d =
     (if \<not> hp_secret p \<and> hp_cached p then (Some \<lparr>ra_outcome = In_Failed, ra_unrouted = True, ra_retry = None\<rparr>, d)
      else if \<not> hp_body p then
        apfst Some (end_push owner p In_Too_Large (Some (''the body passed '' @ show_nat INBOUND_MAX_BYTES @ '' bytes'')) None d)
      else if \<not> hp_secret p then
        apfst Some (end_push owner p In_Failed (Some (''this hook has no secret in the agent'' @ [CHR 0x27] @ ''s store'')) None d)
      else case hp_answer p of
        Answer_Threw e \<Rightarrow> apfst Some (end_push owner p In_Failed (Some e) None d)
      | Answer_Skipped why \<Rightarrow> apfst Some (end_push owner p In_Ignored (Some why) None d)
      | Answer_Result (Turn_Away reason rejected malformed) \<Rightarrow>
          apfst Some (end_push owner p (refused_as rejected malformed) (Some reason) None d)
      | Answer_Result result \<Rightarrow>
          if hp_accepting p = None \<or> hp_accepting p \<noteq> hp_receiving p
          then apfst Some (end_push owner p In_Ignored (Some MOUNT_REMOVED_REASON) None d)
          else take_push owner running p result d)"

section \<open>The pass\<close>

definition INBOUND_REMOVING_RETRY_MS :: int where "INBOUND_REMOVING_RETRY_MS = 2000"

record inbound_pass =
  ip_posted :: nat
  ip_failed :: nat
  ip_ignored :: nat
  ip_left :: nat
  ip_retry :: "int option"
  ip_waited :: "int option"
  ip_error :: "string option"

definition no_pass :: inbound_pass where
  "no_pass = \<lparr>ip_posted = 0, ip_failed = 0, ip_ignored = 0, ip_left = 0, ip_retry = None, ip_waited = None, ip_error = None\<rparr>"

record pass_run =
  ru_driver :: "string option"
  ru_prepared :: bool
  ru_out :: inbound_pass

datatype pass_phase =
    Pass_Over "inbound_pass option"      \<comment> \<open>no pass runs; what the last one returned, unless it died\<close>
  | Pass_Agent inbound_pass              \<comment> \<open>waits for the agent's record\<close>
  | Pass_Loop pass_run                   \<comment> \<open>about to read the oldest push\<close>
  | Pass_Mount pass_run pending_push int \<comment> \<open>waits for the mount of its alias; when the push was read\<close>
  | Pass_Judge pass_run pending_push int \<comment> \<open>waits for the backstop's judgement; when the push was read\<close>
  | Pass_Prepare pass_run pending_push   \<comment> \<open>waits for what a first post is prepared by\<close>
  | Pass_Post pass_run pending_push      \<comment> \<open>claimed; in \<open>postMessage\<close>, before \<open>beforeSay\<close>\<close>
  | Pass_Say pass_run pending_push       \<comment> \<open>marked; the engine writes\<close>
  | Pass_Landed pass_run pending_push    \<comment> \<open>written; not settled yet\<close>

text \<open>What an await answers: the profile's alias, whether the alias is being removed, the installation under it, the backstop's reason,
  and the post's error.\<close>

record pass_answer =
  pa_driver :: "string option"
  pa_removing :: bool
  pa_mount :: "string option"
  pa_stuck :: "string option"
  pa_throws :: "string option"

definition expired_reason :: "pending_push \<Rightarrow> string" where
  "expired_reason r = ''queued for more than 30 minutes without being posted'' @ (case pp_error r of None \<Rightarrow> [] | Some e \<Rightarrow> if e = [] then [] else '': '' @ e)"

definition posting_reason :: string where
  "posting_reason = ''the pass handing it to the agent ended mid-way, so it may or may not have arrived; not posted again, so it cannot arrive twice''"

definition stuck_reason :: "string \<Rightarrow> string" where
  "stuck_reason why = ''this agent'' @ [CHR 0x27] @ ''s conversation no longer fits its model'' @ [CHR 0x27] @ ''s window and was not recovered ('' @ why
     @ ''); nothing is posted until an operator resets the session (/admin/reset-session)''"

definition given_up_reason :: "pending_push \<Rightarrow> string \<Rightarrow> string" where
  "given_up_reason row e = ''accepted, then not posted after '' @ show_nat (pp_attempts row) @ '' attempts: '' @ e"

definition expire_one :: "job_owner \<Rightarrow> nat \<Rightarrow> inbound_pass \<times> inbound_db \<Rightarrow> inbound_pass \<times> inbound_db" where
  "expire_one owner n = (\<lambda>(out, d).
     case pendingInboundRow n d of
       None \<Rightarrow> (out, d)
     | Some row \<Rightarrow> (out\<lparr>ip_failed := Suc (ip_failed out)\<rparr>, settleInbound owner row In_Failed (Some (expired_reason row)) d))"

definition since_lift :: "int \<Rightarrow> inbound_db \<Rightarrow> int option" where
  "since_lift now d = (case ib_hold d of None \<Rightarrow> None | Some h \<Rightarrow> map_option (\<lambda>t. now - t) (ih_lifted h))"

definition pass_start :: "job_owner \<Rightarrow> int \<Rightarrow> inbound_db \<Rightarrow> pass_phase \<times> inbound_db" where
  "pass_start owner now d0 =
     (let (held, d) = importHeldUntil owner now d0 in
      case held of
        Some until \<Rightarrow> (Pass_Over (Some (no_pass\<lparr>ip_left := pendingInboundCount d, ip_retry := Some (max 0 (until - now))\<rparr>)), d)
      | None \<Rightarrow>
          let old = (case since_lift now d of
              Some since \<Rightarrow> if since < INBOUND_MAX_AGE_MS then [] else expiredPendingInbound now d
            | None \<Rightarrow> expiredPendingInbound now d);
            (out, d') = fold (expire_one owner) old (no_pass, d) in
          (Pass_Agent out, d'))"

definition pass_end :: "pass_run \<Rightarrow> inbound_db \<Rightarrow> pass_phase \<times> inbound_db" where
  "pass_end run d = (Pass_Over (Some ((ru_out run)\<lparr>ip_left := pendingInboundCount d\<rparr>)), d)"

definition count_failed :: "pass_run \<Rightarrow> pass_run" where
  "count_failed run = run\<lparr>ru_out := (ru_out run)\<lparr>ip_failed := Suc (ip_failed (ru_out run))\<rparr>\<rparr>"

definition count_ignored :: "pass_run \<Rightarrow> pass_run" where
  "count_ignored run = run\<lparr>ru_out := (ru_out run)\<lparr>ip_ignored := Suc (ip_ignored (ru_out run))\<rparr>\<rparr>"

definition count_posted :: "pass_run \<Rightarrow> pass_run" where
  "count_posted run = run\<lparr>ru_out := (ru_out run)\<lparr>ip_posted := Suc (ip_posted (ru_out run))\<rparr>\<rparr>"

definition retry_in :: "int \<Rightarrow> pass_run \<Rightarrow> pass_run" where
  "retry_in ms run = run\<lparr>ru_out := (ru_out run)\<lparr>ip_retry := Some ms\<rparr>\<rparr>"

text \<open>The synchronous runs, in the order of the loop.\<close>

definition settle_in :: "job_owner \<Rightarrow> pending_push \<Rightarrow> inbound_outcome \<Rightarrow> string option \<Rightarrow> pass_run \<Rightarrow> inbound_db \<Rightarrow> pass_phase \<times> inbound_db" where
  "settle_in owner row outcome reason run d = (Pass_Loop run, settleInbound owner row outcome reason d)"

definition pass_claim :: "int \<Rightarrow> pass_run \<Rightarrow> pending_push \<Rightarrow> inbound_db \<Rightarrow> pass_phase \<times> inbound_db" where
  "pass_claim now run head d = (let (row, d') = claimPendingInbound head now d in (Pass_Post run row, d'))"

definition pass_judged :: "job_owner \<Rightarrow> int \<Rightarrow> int \<Rightarrow> string option \<Rightarrow> pass_run \<Rightarrow> pending_push \<Rightarrow> inbound_db \<Rightarrow> pass_phase \<times> inbound_db" where
  "pass_judged owner read_at now stuck run head d =
     (case stuck of
        Some why \<Rightarrow> settle_in owner head In_Failed (Some (stuck_reason why)) (count_failed run) d
      | None \<Rightarrow>
          if read_at < pp_next head then pass_end (retry_in (min (pp_next head) (pp_at head + INBOUND_MAX_AGE_MS) - read_at) run) d
          else if ru_prepared run then pass_claim now run head d
          else (Pass_Prepare (run\<lparr>ru_prepared := True\<rparr>) head, d))"

definition pass_driver :: "job_owner \<Rightarrow> int \<Rightarrow> int \<Rightarrow> pass_run \<Rightarrow> pending_push \<Rightarrow> inbound_db \<Rightarrow> pass_phase \<times> inbound_db" where
  "pass_driver owner read_at now run head d =
     (case ru_driver run of
        Some driver \<Rightarrow> settle_in owner head In_Delivered None (count_posted run) (askWake driver now d)
      | None \<Rightarrow> (Pass_Judge run head read_at, d))"

definition pass_mount :: "job_owner \<Rightarrow> int \<Rightarrow> int \<Rightarrow> string option \<Rightarrow> pass_run \<Rightarrow> pending_push \<Rightarrow> inbound_db \<Rightarrow> pass_phase \<times> inbound_db" where
  "pass_mount owner read_at now mount run head d =
     (if mount = None \<or> mount \<noteq> pp_installation head
      then settle_in owner head In_Ignored (Some MOUNT_REMOVED_REASON) (count_ignored run) d
      else pass_driver owner read_at now run head d)"

definition pass_head :: "job_owner \<Rightarrow> int \<Rightarrow> bool \<Rightarrow> pass_run \<Rightarrow> inbound_db \<Rightarrow> pass_phase \<times> inbound_db" where
  "pass_head owner now removing run d =
     (case nextPendingInbound d of
        None \<Rightarrow> pass_end run d
      | Some head \<Rightarrow>
          if pp_state head = Posting then settle_in owner head In_Failed (Some posting_reason) (count_failed run) d
          else if removing then pass_end (retry_in INBOUND_REMOVING_RETRY_MS run) d
          else if pp_installation head \<noteq> None then (Pass_Mount run head now, d)
          else pass_driver owner now now run head d)"

definition pass_threw :: "job_owner \<Rightarrow> int \<Rightarrow> string \<Rightarrow> pass_run \<Rightarrow> pending_push \<Rightarrow> inbound_db \<Rightarrow> pass_phase \<times> inbound_db" where
  "pass_threw owner now e run row d =
     (let err = take 300 e; run' = run\<lparr>ru_out := (ru_out run)\<lparr>ip_error := Some err\<rparr>\<rparr> in
      if INBOUND_POST_ATTEMPTS \<le> pp_attempts row
      then settle_in owner row In_Failed (Some (given_up_reason row err)) (count_failed run') d
      else pass_end (retry_in (max 0 (pp_next row - now)) run') (requeueInbound (pp_seq row) err d))"

definition pass_landed :: "job_owner \<Rightarrow> int \<Rightarrow> pass_run \<Rightarrow> pending_push \<Rightarrow> inbound_db \<Rightarrow> pass_phase \<times> inbound_db" where
  "pass_landed owner now run row d =
     settle_in owner row In_Delivered None
       (let run' = count_posted run in
        run'\<lparr>ru_out := (ru_out run')\<lparr>ip_waited := Some (max (or_else (ip_waited (ru_out run')) 0) (now - pp_at row))\<rparr>\<rparr>) d"

text \<open>One move of the pass: the await it stands at is answered, and the code runs to the next.\<close>

fun pass_move :: "job_owner \<Rightarrow> int \<Rightarrow> pass_answer \<Rightarrow> pass_phase \<Rightarrow> inbound_db \<Rightarrow> pass_phase \<times> inbound_db" where
  "pass_move owner now a (Pass_Over out) d = (Pass_Over out, d)"
| "pass_move owner now a (Pass_Agent out) d = (Pass_Loop \<lparr>ru_driver = pa_driver a, ru_prepared = False, ru_out = out\<rparr>, d)"
| "pass_move owner now a (Pass_Loop run) d = pass_head owner now (pa_removing a) run d"
| "pass_move owner now a (Pass_Mount run head t) d = pass_mount owner t now (pa_mount a) run head d"
| "pass_move owner now a (Pass_Judge run head t) d = pass_judged owner t now (pa_stuck a) run head d"
| "pass_move owner now a (Pass_Prepare run head) d = pass_claim now run head d"
| "pass_move owner now a (Pass_Post run row) d =
     (case pa_throws a of Some e \<Rightarrow> pass_threw owner now e run row d | None \<Rightarrow> (Pass_Say run row, markPostingInbound (pp_seq row) d))"
| "pass_move owner now a (Pass_Say run row) d =
     (case pa_throws a of
        Some e \<Rightarrow> pass_threw owner now e run row d
      | None \<Rightarrow> (Pass_Landed run row, d\<lparr>ib_posted := ib_posted d @ [row]\<rparr>))"
| "pass_move owner now a (Pass_Landed run row) d = pass_landed owner now run row d"

section \<open>The object's life\<close>

record inbound_world =
  iw_now :: int
  iw_phase :: pass_phase
  iw_db :: inbound_db

definition pass_running :: "pass_phase \<Rightarrow> bool" where
  "pass_running ph \<longleftrightarrow> (case ph of Pass_Over _ \<Rightarrow> False | _ \<Rightarrow> True)"

text \<open>
  What a push in flight may rest on: it came no longer ago than a record is kept beyond the time a key is remembered (six days), and the
  key made for a push that names none was never used.
\<close>

definition in_flight :: "int \<Rightarrow> hook_push \<Rightarrow> inbound_db \<Rightarrow> bool" where
  "in_flight now p d \<longleftrightarrow> hp_now p \<le> now \<and> now - INBOUND_KEEP_MS + INBOUND_DEDUPE_MS \<le> hp_now p
     \<and> (\<forall>q\<in>set (ib_posted d). pp_key q \<noteq> LOCAL_KEY @ hp_unique p)"

inductive inbound_step :: "job_owner \<Rightarrow> inbound_world \<Rightarrow> inbound_world \<Rightarrow> bool" for owner where
  clock: "iw_now w \<le> t \<Longrightarrow> inbound_step owner w (w\<lparr>iw_now := t\<rparr>)"
| push: "in_flight (iw_now w) p (iw_db w) \<Longrightarrow> receiveHook owner (pass_running (iw_phase w)) p (iw_db w) = (a, d)
    \<Longrightarrow> inbound_step owner w (w\<lparr>iw_db := d\<rparr>)"
| start: "\<not> pass_running (iw_phase w) \<Longrightarrow> pass_start owner (iw_now w) (iw_db w) = (ph, d)
    \<Longrightarrow> inbound_step owner w (w\<lparr>iw_phase := ph, iw_db := d\<rparr>)"
| move: "pass_running (iw_phase w) \<Longrightarrow> pass_move owner (iw_now w) a (iw_phase w) (iw_db w) = (ph, d)
    \<Longrightarrow> inbound_step owner w (w\<lparr>iw_phase := ph, iw_db := d\<rparr>)"
| dies: "inbound_step owner w (w\<lparr>iw_phase := Pass_Over None\<rparr>)"
| held: "placeHold live (iw_now w) (iw_db w) = (placed, d) \<Longrightarrow> inbound_step owner w (w\<lparr>iw_db := d\<rparr>)"
| imported: "liftHold By_Import (iw_now w) (iw_db w) = (Some h, d) \<Longrightarrow> inbound_step owner w (w\<lparr>iw_db := holdEnded owner (iw_now w) h d\<rparr>)"
| others: "inbound_step owner w (w\<lparr>iw_db := (iw_db w)\<lparr>ib_wakes := ws, ib_trace := ts, ib_seal := s\<rparr>\<rparr>)"

definition inbound_start :: "inbound_world \<Rightarrow> bool" where
  "inbound_start w \<longleftrightarrow> iw_db w = inbound_none \<and> iw_phase w = Pass_Over None"

inductive inbound_reachable :: "job_owner \<Rightarrow> inbound_world \<Rightarrow> bool" for owner where
  first: "inbound_start w \<Longrightarrow> inbound_reachable owner w"
| step: "inbound_reachable owner w \<Longrightarrow> inbound_step owner w w' \<Longrightarrow> inbound_reachable owner w'"

section \<open>What holds throughout\<close>

text \<open>Two pushes of one hook under one key (which is not empty) are a day apart.\<close>

definition spaced :: "pending_push \<Rightarrow> pending_push \<Rightarrow> bool" where
  "spaced p q \<longleftrightarrow> (pp_hook p = pp_hook q \<and> pp_key p = pp_key q \<and> pp_key p \<noteq> [] \<longrightarrow> pp_at p + INBOUND_DEDUPE_MS \<le> pp_at q)"

definition same_key :: "pending_push \<Rightarrow> pending_push \<Rightarrow> bool" where
  "same_key p q \<longleftrightarrow> pp_hook p = pp_hook q \<and> pp_key p = pp_key q"

text \<open>The key of a posted push is held, by its row in the queue or by its final record.\<close>

definition key_held :: "inbound_db \<Rightarrow> pending_push \<Rightarrow> bool" where
  "key_held d p \<longleftrightarrow>
     (\<exists>r\<in>set (ib_queue d). pp_seq r = pp_seq p \<and> same_key r p \<and> pp_at r = pp_at p)
     \<or> (\<exists>e\<in>set (ib_events d). ie_hook e = pp_hook p \<and> ie_key e = Some (pp_key p) \<and> TAKEN e \<and> ie_at e = pp_at p)"

definition queue_ok :: "int \<Rightarrow> inbound_db \<Rightarrow> bool" where
  "queue_ok now d \<longleftrightarrow> sorted_wrt (<) (map pp_seq (ib_queue d)) \<and> sorted_wrt (\<lambda>r r'. \<not> same_key r r') (ib_queue d)
     \<and> (\<forall>r\<in>set (ib_queue d). pp_seq r \<le> ib_seq d \<and> pp_at r \<le> now)
     \<and> (\<forall>hook. length (hook_queue hook d) \<le> INBOUND_QUEUE_MAX)"

definition posted_ok :: "int \<Rightarrow> inbound_db \<Rightarrow> bool" where
  "posted_ok now d \<longleftrightarrow> sorted_wrt (<) (map pp_seq (ib_posted d)) \<and> sorted_wrt spaced (ib_posted d)
     \<and> (\<forall>p\<in>set (ib_posted d). pp_seq p \<le> ib_seq d \<and> (pp_at p < now - INBOUND_KEEP_MS \<or> key_held d p)
        \<and> (\<forall>r\<in>set (ib_queue d). pp_seq p < pp_seq r \<and> spaced p r \<or> pp_seq p = pp_seq r \<and> pp_state r = Posting))"

text \<open>What the pass remembers of the oldest push is still so.\<close>

definition oldest_is :: "pending_push \<Rightarrow> inbound_db \<Rightarrow> bool" where
  "oldest_is row d \<longleftrightarrow> (case ib_queue d of [] \<Rightarrow> False | r # _ \<Rightarrow> r = row)"

fun phase_ok :: "pass_phase \<Rightarrow> inbound_db \<Rightarrow> bool" where
  "phase_ok (Pass_Mount run row t) d = (oldest_is row d \<and> pp_state row = Queued)"
| "phase_ok (Pass_Judge run row t) d = (oldest_is row d \<and> pp_state row = Queued)"
| "phase_ok (Pass_Prepare run row) d = (oldest_is row d \<and> pp_state row = Queued)"
| "phase_ok (Pass_Post run row) d = (oldest_is row d \<and> pp_state row = Queued)"
| "phase_ok (Pass_Say run row) d = (oldest_is (row\<lparr>pp_state := Posting\<rparr>) d \<and> (\<forall>p\<in>set (ib_posted d). pp_seq p < pp_seq row))"
| "phase_ok (Pass_Landed run row) d = oldest_is (row\<lparr>pp_state := Posting\<rparr>) d"
| "phase_ok _ d = True"

definition inbound_ok :: "int \<Rightarrow> pass_phase \<Rightarrow> inbound_db \<Rightarrow> bool" where
  "inbound_ok now ph d \<longleftrightarrow> queue_ok now d \<and> posted_ok now d \<and> phase_ok ph d"
section \<open>Changes that keep it\<close>

text \<open>A change to other tables, or to the record of events, that loses no event still kept at \<open>now\<close>.\<close>

definition keeps :: "int \<Rightarrow> inbound_db \<Rightarrow> inbound_db \<Rightarrow> bool" where
  "keeps now d d' \<longleftrightarrow> ib_queue d' = ib_queue d \<and> ib_seq d' = ib_seq d \<and> ib_posted d' = ib_posted d
     \<and> (\<forall>e\<in>set (ib_events d). now - INBOUND_KEEP_MS \<le> ie_at e \<longrightarrow> e \<in> set (ib_events d'))"

named_theorems keeps_intros

lemma keeps_refl [keeps_intros]: "keeps now d d"
  by (simp add: keeps_def)

lemma keeps_trans: "keeps now d d' \<Longrightarrow> keeps now d' d'' \<Longrightarrow> keeps now d d''"
  by (simp add: keeps_def)

lemma keeps_record [keeps_intros]: "t \<le> now \<Longrightarrow> keeps now d (recordInbound owner hook mount outcome reason key t d)"
  by (auto simp: keeps_def recordInbound_def table_simps)

lemma keeps_wake [keeps_intros]: "keeps now d (askWake mount t d)"
  by (simp add: keeps_def askWake_def)

lemma keeps_seal [keeps_intros]: "keeps now d (sealSeedFiles manifest how t d)"
  by (simp add: keeps_def sealSeedFiles_def)

lemma keeps_end: "hp_now p \<le> now \<Longrightarrow> keeps now d (snd (end_push owner p outcome reason key d))"
  by (simp add: end_push_def keeps_record)

lemma keeps_hold_ended: "keeps now d (holdEnded owner t h d)"
  by (simp add: keeps_def holdEnded_def Let_def)

lemma keeps_lift: "liftHold how t d = (r, d') \<Longrightarrow> keeps now d d'"
  by (auto simp: keeps_def liftHold_def Let_def split: option.splits if_splits)

lemma keeps_place: "placeHold live t d = (r, d') \<Longrightarrow> keeps now d d'"
  by (auto simp: keeps_def placeHold_def split: if_splits)

lemma keeps_held_until: "importHeldUntil owner t d = (r, d') \<Longrightarrow> keeps now d d'"
  by (auto simp: importHeldUntil_def keeps_refl split: option.splits if_splits prod.splits
      intro: keeps_lift keeps_trans [OF keeps_lift keeps_hold_ended])

lemma keeps_others: "keeps now d (d\<lparr>ib_wakes := ws, ib_trace := ts, ib_seal := s\<rparr>)"
  by (simp add: keeps_def)

lemma hook_queue_cong: "ib_queue d' = ib_queue d \<Longrightarrow> hook_queue hook d' = hook_queue hook d"
  by (simp add: hook_queue_def)

lemma queue_ok_keeps: "keeps now d d' \<Longrightarrow> queue_ok now d' = queue_ok now d"
  unfolding keeps_def queue_ok_def hook_queue_def by simp

lemma posted_heldD: "posted_ok now d \<Longrightarrow> p \<in> set (ib_posted d) \<Longrightarrow> \<not> pp_at p < now - INBOUND_KEEP_MS \<Longrightarrow> key_held d p"
  unfolding posted_ok_def by blast

lemma posted_rowD:
  "posted_ok now d \<Longrightarrow> p \<in> set (ib_posted d) \<Longrightarrow> r \<in> set (ib_queue d) \<Longrightarrow>
    pp_seq p < pp_seq r \<and> spaced p r \<or> pp_seq p = pp_seq r \<and> pp_state r = Posting"
  unfolding posted_ok_def by blast

lemma posted_rowsD: "posted_ok now d \<Longrightarrow> p \<in> set (ib_posted d) \<Longrightarrow> pp_seq p \<le> ib_seq d"
  unfolding posted_ok_def by blast

lemma posted_okI:
  assumes "sorted_wrt (<) (map pp_seq (ib_posted d))" and "sorted_wrt spaced (ib_posted d)"
    and "\<And>p. p \<in> set (ib_posted d) \<Longrightarrow> pp_seq p \<le> ib_seq d"
    and "\<And>p. p \<in> set (ib_posted d) \<Longrightarrow> \<not> pp_at p < now - INBOUND_KEEP_MS \<Longrightarrow> key_held d p"
    and "\<And>p r. p \<in> set (ib_posted d) \<Longrightarrow> r \<in> set (ib_queue d) \<Longrightarrow>
      pp_seq p < pp_seq r \<and> spaced p r \<or> pp_seq p = pp_seq r \<and> pp_state r = Posting"
  shows "posted_ok now d"
  unfolding posted_ok_def using assms by blast

lemma posted_sortedD: "posted_ok now d \<Longrightarrow> sorted_wrt (<) (map pp_seq (ib_posted d)) \<and> sorted_wrt spaced (ib_posted d)"
  unfolding posted_ok_def by blast

lemma key_held_keeps:
  assumes "keeps now d d'" and "key_held d p" and "now - INBOUND_KEEP_MS \<le> pp_at p"
  shows "key_held d' p"
  using assms unfolding key_held_def keeps_def by metis

lemma posted_ok_keeps:
  assumes k: "keeps now d d'" and ok: "posted_ok now d"
  shows "posted_ok now d'"
proof (rule posted_okI)
  have eqs: "ib_queue d' = ib_queue d" "ib_seq d' = ib_seq d" "ib_posted d' = ib_posted d" using k by (simp_all add: keeps_def)
  show "sorted_wrt (<) (map pp_seq (ib_posted d'))" "sorted_wrt spaced (ib_posted d')"
    using posted_sortedD [OF ok] by (simp_all add: eqs)
  fix p assume "p \<in> set (ib_posted d')"
  then have p: "p \<in> set (ib_posted d)" by (simp add: eqs)
  show "pp_seq p \<le> ib_seq d'" using posted_rowsD [OF ok p] by (simp add: eqs)
  show "key_held d' p" if "\<not> pp_at p < now - INBOUND_KEEP_MS"
    using key_held_keeps [OF k posted_heldD [OF ok p that]] that by simp
  show "pp_seq p < pp_seq r \<and> spaced p r \<or> pp_seq p = pp_seq r \<and> pp_state r = Posting" if "r \<in> set (ib_queue d')" for r
    using posted_rowD [OF ok p] that by (simp add: eqs)
qed

lemma oldest_is_cong: "ib_queue d' = ib_queue d \<Longrightarrow> oldest_is row d' = oldest_is row d"
  by (simp add: oldest_is_def)

lemma phase_ok_cong: "ib_queue d' = ib_queue d \<Longrightarrow> ib_posted d' = ib_posted d \<Longrightarrow> phase_ok ph d' = phase_ok ph d"
  by (cases ph) (simp_all add: oldest_is_def)

lemma inbound_ok_keeps: "keeps now d d' \<Longrightarrow> inbound_ok now ph d \<Longrightarrow> inbound_ok now ph d'"
  using queue_ok_keeps posted_ok_keeps phase_ok_cong [of d' d ph] by (auto simp: inbound_ok_def keeps_def)

section \<open>A push leaves the queue\<close>

definition alike :: "pending_push \<Rightarrow> pending_push \<Rightarrow> bool" where
  "alike r row \<longleftrightarrow> pp_seq r = pp_seq row \<and> same_key r row \<and> pp_at r = pp_at row"

lemma settle_queue [simp]:
  "ib_queue (settleInbound owner row outcome reason d) = filter (\<lambda>r. pp_seq r \<noteq> pp_seq row) (ib_queue d)"
  "ib_seq (settleInbound owner row outcome reason d) = ib_seq d"
  "ib_posted (settleInbound owner row outcome reason d) = ib_posted d"
  "ib_hold (settleInbound owner row outcome reason d) = ib_hold d"
  by (simp_all add: settleInbound_def recordInbound_def delete_where_def)

definition settled_event :: "pending_push \<Rightarrow> inbound_outcome \<Rightarrow> string option \<Rightarrow> inbound_event" where
  "settled_event row outcome reason =
     \<lparr>ie_hook = pp_hook row, ie_at = pp_at row, ie_alias = pp_alias row, ie_outcome = outcome, ie_reason = cut_reason reason, ie_key = Some (pp_key row)\<rparr>"

lemma settle_events:
  "set (ib_events (settleInbound owner row outcome reason d)) =
    insert (settled_event row outcome reason) {e \<in> set (ib_events d). pp_at row - INBOUND_KEEP_MS \<le> ie_at e}"
  by (auto simp: settleInbound_def recordInbound_def settled_event_def table_simps)

lemma sorted_wrt_distinct_seq:
  assumes "sorted_wrt (<) (map pp_seq q)" and "r \<in> set q" and "r' \<in> set q" and "pp_seq r = pp_seq r'"
  shows "r = r'"
  using assms by (induction q) auto

lemma queue_ok_shrink:
  assumes "queue_ok now d" and "ib_queue d' = filter P (ib_queue d)" and "ib_seq d' = ib_seq d"
  shows "queue_ok now d'"
proof -
  have "hook_queue hook d' = filter P (hook_queue hook d)" for hook
    by (simp add: hook_queue_def assms(2) conj_commute)
  then have "length (hook_queue hook d') \<le> length (hook_queue hook d)" for hook by simp
  moreover have "sorted_wrt (<) (map pp_seq (ib_queue d'))" "sorted_wrt (\<lambda>r r'. \<not> same_key r r') (ib_queue d')"
    using assms by (auto simp: queue_ok_def sorted_wrt_map intro: sorted_wrt_filter)
  moreover have "length (hook_queue hook d) \<le> INBOUND_QUEUE_MAX" for hook using assms(1) by (simp add: queue_ok_def)
  ultimately show ?thesis using assms order_trans unfolding queue_ok_def by (metis (no_types, lifting) filter_is_subset in_mono)
qed

lemma key_held_settle:
  assumes held: "key_held d p" and r: "r \<in> set (ib_queue d)" and like: "alike r row"
    and sorted: "sorted_wrt (<) (map pp_seq (ib_queue d))"
    and taken: "outcome = In_Delivered \<or> outcome = In_Failed \<or> pp_seq row \<noteq> pp_seq p"
    and recent: "pp_at row \<le> now" "now - INBOUND_KEEP_MS \<le> pp_at p"
  shows "key_held (settleInbound owner row outcome reason d) p"
  using held unfolding key_held_def
proof (elim disjE bexE conjE)
  fix r' assume r': "r' \<in> set (ib_queue d)" "pp_seq r' = pp_seq p" "same_key r' p" "pp_at r' = pp_at p"
  show "(\<exists>r\<in>set (ib_queue (settleInbound owner row outcome reason d)). pp_seq r = pp_seq p \<and> same_key r p \<and> pp_at r = pp_at p)
    \<or> (\<exists>e\<in>set (ib_events (settleInbound owner row outcome reason d)).
        ie_hook e = pp_hook p \<and> ie_key e = Some (pp_key p) \<and> TAKEN e \<and> ie_at e = pp_at p)"
  proof (cases "pp_seq row = pp_seq p")
    case True
    with r' r like sorted have "r' = r" by (intro sorted_wrt_distinct_seq [OF sorted]) (simp_all add: alike_def)
    with r' like True taken have "TAKEN (settled_event row outcome reason)" "pp_hook row = pp_hook p" "pp_key row = pp_key p" "pp_at row = pp_at p"
      by (auto simp: TAKEN_def settled_event_def alike_def same_key_def)
    then have "\<exists>e\<in>set (ib_events (settleInbound owner row outcome reason d)).
        ie_hook e = pp_hook p \<and> ie_key e = Some (pp_key p) \<and> TAKEN e \<and> ie_at e = pp_at p"
      by (intro bexI [of _ "settled_event row outcome reason"]) (simp_all add: settle_events, simp_all add: settled_event_def)
    then show ?thesis ..
  qed (use r' in force)
qed (use recent in \<open>auto simp: settle_events\<close>)

lemma posted_ok_settle:
  assumes ok: "queue_ok now d" "posted_ok now d" and r: "r \<in> set (ib_queue d)" "alike r row"
    and taken: "outcome = In_Delivered \<or> outcome = In_Failed \<or> pp_state r = Queued"
  shows "posted_ok now (settleInbound owner row outcome reason d)"
proof (rule posted_okI)
  let ?d = "settleInbound owner row outcome reason d"
  have s: "sorted_wrt (<) (map pp_seq (ib_queue d))" and at_r: "pp_at row \<le> now" using ok r by (auto simp: queue_ok_def alike_def)
  show "sorted_wrt (<) (map pp_seq (ib_posted ?d))" "sorted_wrt spaced (ib_posted ?d)" using posted_sortedD [OF ok(2)] by simp_all
  fix p assume "p \<in> set (ib_posted ?d)"
  then have p: "p \<in> set (ib_posted d)" by simp
  show "pp_seq p \<le> ib_seq ?d" using posted_rowsD [OF ok(2) p] by simp
  have seqs: "outcome = In_Delivered \<or> outcome = In_Failed \<or> pp_seq row \<noteq> pp_seq p"
  proof -
    have "pp_state r = Queued \<Longrightarrow> pp_seq p < pp_seq r" using posted_rowD [OF ok(2) p r(1)] by simp
    moreover have "pp_seq r = pp_seq row" using r(2) by (simp add: alike_def)
    ultimately show ?thesis using taken by linarith
  qed
  show "key_held ?d p" if old: "\<not> pp_at p < now - INBOUND_KEEP_MS"
    using key_held_settle [OF posted_heldD [OF ok(2) p old] r s seqs at_r] old by simp
  show "pp_seq p < pp_seq r \<and> spaced p r \<or> pp_seq p = pp_seq r \<and> pp_state r = Posting" if "r \<in> set (ib_queue ?d)" for r
    using posted_rowD [OF ok(2) p] that by simp
qed

lemma settle_ok:
  assumes "queue_ok now d" "posted_ok now d" "r \<in> set (ib_queue d)" "alike r row"
    and "outcome = In_Delivered \<or> outcome = In_Failed \<or> pp_state r = Queued"
  shows "queue_ok now (settleInbound owner row outcome reason d) \<and> posted_ok now (settleInbound owner row outcome reason d)"
  using posted_ok_settle [OF assms] queue_ok_shrink [OF assms(1) settle_queue(1,2)] by simp

lemma settle_in_ok:
  assumes "queue_ok now d" "posted_ok now d" "r \<in> set (ib_queue d)" "alike r row"
    and "outcome = In_Delivered \<or> outcome = In_Failed \<or> pp_state r = Queued"
    and "settle_in owner row outcome reason run d = (ph, d')"
  shows "inbound_ok now ph d'"
  using settle_ok [OF assms(1-5), of owner reason] assms(6) by (auto simp: settle_in_def inbound_ok_def)
section \<open>The pass keeps it\<close>

lemma oldest_is_Cons: "oldest_is row d \<longleftrightarrow> (\<exists>rest. ib_queue d = row # rest)"
  by (auto simp: oldest_is_def split: list.split)

lemma next_is_oldest:
  assumes "queue_ok now d"
  shows "nextPendingInbound d = Some row \<longleftrightarrow> oldest_is row d"
proof -
  have "sorted_wrt (\<lambda>r r'. pp_seq r < pp_seq r') (ib_queue d)" using assms by (simp add: queue_ok_def sorted_wrt_map)
  then have "sorted (map pp_seq (ib_queue d))" by (simp add: sorted_wrt_map sorted_wrt_mono_rel [of _ "\<lambda>r r'. pp_seq r < pp_seq r'"])
  then have "order_by pp_seq (ib_queue d) = ib_queue d" by (simp add: order_by_def sorted_sort_id sort_key_id_if_sorted)
  then show ?thesis by (auto simp: nextPendingInbound_def oldest_is_Cons split: list.split)
qed

lemma expire_one_ok:
  assumes "queue_ok now d" and "posted_ok now d" and "expire_one owner n (out, d) = (out', d')"
  shows "queue_ok now d' \<and> posted_ok now d'"
proof (cases "pendingInboundRow n d")
  case (Some row)
  then have row: "row \<in> set (ib_queue d)" by (auto simp: pendingInboundRow_def dest: get_row_SomeD)
  have "d' = settleInbound owner row In_Failed (Some (expired_reason row)) d" using assms(3) Some by (simp add: expire_one_def)
  with settle_ok [OF assms(1,2) row, of row In_Failed owner "Some (expired_reason row)"] show ?thesis by (simp add: alike_def same_key_def)
qed (use assms in \<open>simp add: expire_one_def\<close>)

lemma expire_all_ok:
  assumes "queue_ok now d" and "posted_ok now d" and "fold (expire_one owner) ns (out, d) = (out', d')"
  shows "queue_ok now d' \<and> posted_ok now d'"
  using assms
proof (induction ns arbitrary: out d)
  case (Cons n ns)
  obtain o1 d1 where e: "expire_one owner n (out, d) = (o1, d1)" by fastforce
  from expire_one_ok [OF Cons.prems(1,2) e] Cons.IH [of d1 o1] Cons.prems(3) e show ?case by simp
qed simp

lemma pass_start_ok:
  assumes "inbound_ok now ph d" and "pass_start owner now d = (ph', d')"
  shows "inbound_ok now ph' d'"
proof -
  obtain held d1 where h: "importHeldUntil owner now d = (held, d1)" by fastforce
  from inbound_ok_keeps [OF keeps_held_until [OF h] assms(1)] have ok: "queue_ok now d1" "posted_ok now d1" by (simp_all add: inbound_ok_def)
  from assms(2) h ok show ?thesis
    by (auto simp: pass_start_def inbound_ok_def Let_def split: option.splits prod.splits if_splits dest!: expire_all_ok [OF ok])
qed

lemma on_oldest:
  assumes "queue_ok now d" and "ib_queue d = r # rest"
  shows "on_push (pp_seq r) f d = d\<lparr>ib_queue := f r # rest\<rparr>"
proof -
  have "pp_seq x \<noteq> pp_seq r" if "x \<in> set rest" for x using assms that by (auto simp: queue_ok_def)
  then show ?thesis by (simp add: on_push_def assms(2) update_where_def map_idI)
qed

lemma oldest_changed_ok:
  assumes ok: "queue_ok now d" "posted_ok now d" and q: "ib_queue d = r # rest" and like: "alike r' r"
    and st: "pp_state r' = Posting \<or> (\<forall>p\<in>set (ib_posted d). pp_seq p < pp_seq r)"
  shows "queue_ok now (d\<lparr>ib_queue := r' # rest\<rparr>) \<and> posted_ok now (d\<lparr>ib_queue := r' # rest\<rparr>)"
proof
  let ?d = "d\<lparr>ib_queue := r' # rest\<rparr>"
  have fields: "pp_seq r' = pp_seq r" "pp_hook r' = pp_hook r" "pp_key r' = pp_key r" "pp_at r' = pp_at r"
    using like by (auto simp: alike_def same_key_def)
  have "length (hook_queue hook ?d) = length (hook_queue hook d)" for hook by (simp add: hook_queue_def q fields)
  with ok(1) show "queue_ok now ?d" by (simp add: queue_ok_def q fields same_key_def)
  show "posted_ok now ?d"
  proof (rule posted_okI)
    show "sorted_wrt (<) (map pp_seq (ib_posted ?d))" "sorted_wrt spaced (ib_posted ?d)" using posted_sortedD [OF ok(2)] by simp_all
    fix p assume "p \<in> set (ib_posted ?d)"
    then have p: "p \<in> set (ib_posted d)" by simp
    show "pp_seq p \<le> ib_seq ?d" using posted_rowsD [OF ok(2) p] by simp
    show "key_held ?d p" if "\<not> pp_at p < now - INBOUND_KEEP_MS"
      using posted_heldD [OF ok(2) p that] by (auto simp: key_held_def q fields same_key_def)
    fix x assume "x \<in> set (ib_queue ?d)"
    then consider "x = r'" | "x \<in> set (ib_queue d)" by (auto simp: q)
    then show "pp_seq p < pp_seq x \<and> spaced p x \<or> pp_seq p = pp_seq x \<and> pp_state x = Posting"
    proof cases
      case 1
      have "pp_seq p < pp_seq r \<and> spaced p r \<or> pp_seq p = pp_seq r" using posted_rowD [OF ok(2) p, of r] by (auto simp: q)
      with st p 1 show ?thesis by (auto simp: fields spaced_def)
    qed (rule posted_rowD [OF ok(2) p])
  qed
qed

lemma queued_is_unposted:
  assumes "posted_ok now d" and "r \<in> set (ib_queue d)" and "pp_state r = Queued" and "p \<in> set (ib_posted d)"
  shows "pp_seq p < pp_seq r"
  using posted_rowD [OF assms(1,4,2)] assms(3) by simp

lemma landed_ok:
  assumes ok: "queue_ok now d" "posted_ok now d" and q: "ib_queue d = row\<lparr>pp_state := Posting\<rparr> # rest"
    and new: "\<forall>p\<in>set (ib_posted d). pp_seq p < pp_seq row"
  shows "posted_ok now (d\<lparr>ib_posted := ib_posted d @ [row]\<rparr>)"
proof (rule posted_okI)
  let ?d = "d\<lparr>ib_posted := ib_posted d @ [row]\<rparr>"
  let ?r = "row\<lparr>pp_state := Posting\<rparr>"
  have r: "?r \<in> set (ib_queue d)" by (simp add: q)
  have before: "spaced p row" if "p \<in> set (ib_posted d)" for p
  proof -
    have "pp_seq p < pp_seq ?r" using new that by simp
    then have "spaced p ?r" using posted_rowD [OF ok(2) that r] by linarith
    then show ?thesis by (simp add: spaced_def)
  qed
  show "sorted_wrt (<) (map pp_seq (ib_posted ?d))" using posted_sortedD [OF ok(2)] new by (auto simp: sorted_wrt_append)
  show "sorted_wrt spaced (ib_posted ?d)" using posted_sortedD [OF ok(2)] before by (auto simp: sorted_wrt_append)
  fix p assume "p \<in> set (ib_posted ?d)"
  then consider "p = row" | "p \<in> set (ib_posted d)" by auto
  note two = this
  show "pp_seq p \<le> ib_seq ?d" using two posted_rowsD [OF ok(2)] ok(1) by cases (auto simp: queue_ok_def q)
  show "key_held ?d p" if "\<not> pp_at p < now - INBOUND_KEEP_MS"
    using two
  proof cases
    case 2
    with posted_heldD [OF ok(2) 2 that] show ?thesis by (simp add: key_held_def)
  qed (simp add: key_held_def q same_key_def)
  fix x assume x: "x \<in> set (ib_queue ?d)"
  show "pp_seq p < pp_seq x \<and> spaced p x \<or> pp_seq p = pp_seq x \<and> pp_state x = Posting"
    using two
  proof cases
    case 1
    have "pp_seq row < pp_seq y \<and> spaced row y" if "y \<in> set rest" for y
      using ok(1) that by (auto simp: q queue_ok_def spaced_def same_key_def)
    with 1 x show ?thesis by (auto simp: q)
  next
    case 2
    with posted_rowD [OF ok(2) 2] x show ?thesis by simp
  qed
qed

lemma oldest_in: "oldest_is row d \<Longrightarrow> row \<in> set (ib_queue d)"
  by (auto simp: oldest_is_Cons)

lemma alike_refl [simp]: "alike r r" "alike (r\<lparr>pp_state := s\<rparr>) r" "alike r (r\<lparr>pp_state := s\<rparr>)"
  by (simp_all add: alike_def same_key_def)

lemma inbound_okI: "queue_ok now d \<and> posted_ok now d \<Longrightarrow> phase_ok ph d \<Longrightarrow> inbound_ok now ph d"
  by (simp add: inbound_ok_def)

lemma pass_end_ok: "queue_ok now d \<and> posted_ok now d \<Longrightarrow> pass_end run d = (ph, d') \<Longrightarrow> inbound_ok now ph d'"
  by (auto simp: pass_end_def inbound_ok_def)

lemma pass_claim_ok:
  assumes ok: "queue_ok now d" "posted_ok now d" and row: "oldest_is row d" "pp_state row = Queued"
    and c: "pass_claim t run row d = (ph, d')"
  shows "inbound_ok now ph d'"
proof -
  obtain rest where q: "ib_queue d = row # rest" using row(1) by (auto simp: oldest_is_Cons)
  have "\<forall>p\<in>set (ib_posted d). pp_seq p < pp_seq row"
    using queued_is_unposted [OF ok(2) oldest_in [OF row(1)] row(2)] by blast
  then have o: "queue_ok now (d\<lparr>ib_queue := r' # rest\<rparr>) \<and> posted_ok now (d\<lparr>ib_queue := r' # rest\<rparr>)" if "alike r' row" for r'
    using oldest_changed_ok [OF ok q that] by blast
  from c row(2) show ?thesis
    by (auto simp: pass_claim_def claimPendingInbound_def Let_def on_oldest [OF ok(1) q] oldest_is_Cons alike_def same_key_def
        intro!: inbound_okI o [unfolded alike_def same_key_def])
qed

lemma pass_driver_ok:
  assumes ok: "queue_ok now d" "posted_ok now d" and row: "oldest_is row d" "pp_state row = Queued"
    and c: "pass_driver owner t now run row d = (ph, d')"
  shows "inbound_ok now ph d'"
proof (cases "ru_driver run")
  case (Some driver)
  have k: "keeps now d (askWake driver now d)" by (rule keeps_wake)
  have q: "ib_queue (askWake driver now d) = ib_queue d" by (simp add: askWake_def)
  from c Some show ?thesis
    using settle_in_ok [OF _ posted_ok_keeps [OF k ok(2)], of row row In_Delivered owner None] queue_ok_keeps [OF k] ok(1) oldest_in [OF row(1)] q
    by (simp add: pass_driver_def)
qed (use c row ok in \<open>auto simp: pass_driver_def inbound_ok_def\<close>)

lemma pass_threw_ok:
  assumes ok: "queue_ok now d" "posted_ok now d" and q: "ib_queue d = r # rest" and like: "alike r row"
    and new: "\<forall>p\<in>set (ib_posted d). pp_seq p < pp_seq row"
    and c: "pass_threw owner t e run row d = (ph, d')"
  shows "inbound_ok now ph d'"
proof (cases "INBOUND_POST_ATTEMPTS \<le> pp_attempts row")
  case True
  with c show ?thesis using settle_in_ok [OF ok _ like, of In_Failed] q by (simp add: pass_threw_def Let_def)
next
  case False
  have s: "pp_seq row = pp_seq r" using like by (simp add: alike_def)
  let ?r = "r\<lparr>pp_state := Queued, pp_error := Some (take 500 (take 300 e))\<rparr>"
  have "requeueInbound (pp_seq row) (take 300 e) d = d\<lparr>ib_queue := ?r # rest\<rparr>"
    by (simp add: requeueInbound_def s on_oldest [OF ok(1) q])
  moreover have "queue_ok now (d\<lparr>ib_queue := ?r # rest\<rparr>) \<and> posted_ok now (d\<lparr>ib_queue := ?r # rest\<rparr>)"
    using new by (intro oldest_changed_ok [OF ok q]) (simp_all add: alike_def same_key_def s)
  ultimately show ?thesis using c False pass_end_ok by (simp add: pass_threw_def Let_def)
qed
lemma pass_mount_ok:
  assumes ok: "queue_ok now d" "posted_ok now d" and row: "oldest_is row d" "pp_state row = Queued"
    and c: "pass_mount owner t now mount run row d = (ph, d')"
  shows "inbound_ok now ph d'"
  using c settle_in_ok [OF ok oldest_in [OF row(1)] alike_refl(1), of In_Ignored owner] row(2) pass_driver_ok [OF ok row]
  by (auto simp: pass_mount_def split: if_splits)

lemma pass_judged_ok:
  assumes ok: "queue_ok now d" "posted_ok now d" and row: "oldest_is row d" "pp_state row = Queued"
    and c: "pass_judged owner t now stuck run row d = (ph, d')"
  shows "inbound_ok now ph d'"
proof (cases stuck)
  case None
  with c show ?thesis
    using pass_end_ok [of now d] pass_claim_ok [OF ok row] ok row
    by (auto simp: pass_judged_def inbound_ok_def split: if_splits)
next
  case (Some why)
  with c show ?thesis
    using settle_in_ok [OF ok oldest_in [OF row(1)] alike_refl(1), of In_Failed owner] by (simp add: pass_judged_def)
qed

lemma pass_head_ok:
  assumes ok: "queue_ok now d" "posted_ok now d" and c: "pass_head owner now removing run d = (ph, d')"
  shows "inbound_ok now ph d'"
proof (cases "nextPendingInbound d")
  case None
  with c ok show ?thesis by (simp add: pass_head_def pass_end_ok)
next
  case (Some head)
  then have old: "oldest_is head d" using next_is_oldest [OF ok(1)] by simp
  show ?thesis
  proof (cases "pp_state head")
    case Posting
    with c Some show ?thesis
      using settle_in_ok [OF ok oldest_in [OF old] alike_refl(1), of In_Failed owner] by (simp add: pass_head_def)
  next
    case Queued
    with c Some ok old pass_driver_ok [OF ok old Queued] pass_end_ok [of now d] show ?thesis
      by (auto simp: pass_head_def inbound_ok_def split: if_splits)
  qed
qed

lemma pass_post_ok:
  assumes ok: "queue_ok now d" "posted_ok now d" and row: "oldest_is row d" "pp_state row = Queued"
    and c: "pass_move owner now a (Pass_Post run row) d = (ph, d')"
  shows "inbound_ok now ph d'"
proof -
  obtain rest where q: "ib_queue d = row # rest" using row(1) by (auto simp: oldest_is_Cons)
  have new: "\<forall>p\<in>set (ib_posted d). pp_seq p < pp_seq row"
    using queued_is_unposted [OF ok(2) oldest_in [OF row(1)] row(2)] by blast
  show ?thesis
  proof (cases "pa_throws a")
    case None
    let ?d = "d\<lparr>ib_queue := row\<lparr>pp_state := Posting\<rparr> # rest\<rparr>"
    have "markPostingInbound (pp_seq row) d = ?d" by (simp add: markPostingInbound_def on_oldest [OF ok(1) q])
    with c None have eqs: "ph = Pass_Say run row" "d' = ?d" by simp_all
    have "queue_ok now ?d \<and> posted_ok now ?d" by (rule oldest_changed_ok [OF ok q]) simp_all
    with new show ?thesis by (simp add: eqs inbound_ok_def oldest_is_def)
  next
    case (Some e)
    with c pass_threw_ok [OF ok q alike_refl(1) new] show ?thesis by simp
  qed
qed

lemma pass_say_ok:
  assumes ok: "queue_ok now d" "posted_ok now d" and row: "oldest_is (row\<lparr>pp_state := Posting\<rparr>) d"
    and new: "\<forall>p\<in>set (ib_posted d). pp_seq p < pp_seq row"
    and c: "pass_move owner now a (Pass_Say run row) d = (ph, d')"
  shows "inbound_ok now ph d'"
proof -
  obtain rest where q: "ib_queue d = row\<lparr>pp_state := Posting\<rparr> # rest" using row by (auto simp: oldest_is_Cons)
  show ?thesis
  proof (cases "pa_throws a")
    case None
    have "queue_ok now (d\<lparr>ib_posted := ib_posted d @ [row]\<rparr>)" using ok(1) by (simp add: queue_ok_def hook_queue_def)
    with c None landed_ok [OF ok q new] q show ?thesis by (auto simp: inbound_ok_def oldest_is_Cons)
  next
    case (Some e)
    with c pass_threw_ok [OF ok q alike_refl(2) new] show ?thesis by simp
  qed
qed

lemma pass_move_ok:
  assumes ok: "inbound_ok now ph d" and c: "pass_move owner now a ph d = (ph', d')"
  shows "inbound_ok now ph' d'"
proof -
  have o: "queue_ok now d" "posted_ok now d" and p: "phase_ok ph d" using ok by (simp_all add: inbound_ok_def)
  show ?thesis
  proof (cases ph)
    case (Pass_Landed run row)
    with p have "row\<lparr>pp_state := Posting\<rparr> \<in> set (ib_queue d)" by (simp add: oldest_in)
    from settle_in_ok [OF o this alike_refl(2), of In_Delivered owner] c Pass_Landed show ?thesis by (simp add: pass_landed_def)
  next
    case (Pass_Over out)
    with c ok show ?thesis by simp
  next
    case (Pass_Agent out)
    with c o show ?thesis by (auto simp: inbound_ok_def)
  next
    case (Pass_Loop run)
    with c pass_head_ok [OF o] show ?thesis by simp
  next
    case (Pass_Mount run row t)
    show ?thesis using c p unfolding Pass_Mount pass_move.simps phase_ok.simps by (blast intro: pass_mount_ok [OF o])
  next
    case (Pass_Judge run row t)
    show ?thesis using c p unfolding Pass_Judge pass_move.simps phase_ok.simps by (blast intro: pass_judged_ok [OF o])
  next
    case (Pass_Prepare run row)
    show ?thesis using c p unfolding Pass_Prepare pass_move.simps phase_ok.simps by (blast intro: pass_claim_ok [OF o])
  next
    case (Pass_Post run row)
    show ?thesis using c p unfolding Pass_Post phase_ok.simps by (blast intro: pass_post_ok [OF o])
  next
    case (Pass_Say run row)
    show ?thesis using c p unfolding Pass_Say phase_ok.simps by (blast intro: pass_say_ok [OF o])
  qed
qed

section \<open>An arriving push keeps it\<close>

lemma accept_effect:
  assumes "acceptInbound unique hook mount key message now inst d = Some d'"
  shows "\<exists>r. ib_queue d' = ib_queue d @ [r] \<and> ib_seq d' = Suc (ib_seq d) \<and> ib_posted d' = ib_posted d \<and> ib_events d' = ib_events d
    \<and> pp_seq r = Suc (ib_seq d) \<and> pp_hook r = hook \<and> pp_key r = or_else key (LOCAL_KEY @ unique) \<and> pp_at r = now \<and> pp_state r = Queued
    \<and> pp_alias r = mount \<and> pp_message r = message \<and> pp_installation r = inst \<and> pp_attempts r = 0 \<and> pp_next r = 0
    \<and> (\<forall>x\<in>set (ib_queue d). \<not> same_key x r)"
proof -
  let ?r = "\<lparr>pp_seq = Suc (ib_seq d), pp_hook = hook, pp_alias = mount, pp_key = or_else key (LOCAL_KEY @ unique), pp_message = message,
    pp_at = now, pp_state = Queued, pp_attempts = 0, pp_next = 0, pp_error = None, pp_installation = inst\<rparr>"
  have "d' = d\<lparr>ib_queue := ib_queue d @ [?r], ib_seq := Suc (ib_seq d)\<rparr>" and "\<forall>x\<in>set (ib_queue d). \<not> same_key x ?r"
    using assms by (auto simp: acceptInbound_def insert_row_def same_key_def table_simps Let_def split: if_splits)
  then show ?thesis by (intro exI [of _ ?r]) simp
qed

text \<open>What taking a push does: a record, or a new row under a key neither held nor used in the last day, in a queue with room.\<close>

definition room_for :: "hook_push \<Rightarrow> inbound_db \<Rightarrow> pending_push \<Rightarrow> bool" where
  "room_for p d r \<longleftrightarrow> pp_seq r = Suc (ib_seq d) \<and> pp_at r = hp_now p \<and> pp_state r = Queued \<and> pp_hook r = hp_hook p
     \<and> length (hook_queue (hp_hook p) d) < INBOUND_QUEUE_MAX \<and> (\<forall>x\<in>set (ib_queue d). \<not> same_key x r)
     \<and> (pp_key r = LOCAL_KEY @ hp_unique p \<or> pp_key r = [] \<or> \<not> seenBefore (hp_hook p) (pp_key r) (hp_now p) d)"

definition takes :: "int \<Rightarrow> hook_push \<Rightarrow> inbound_db \<Rightarrow> inbound_db \<Rightarrow> bool" where
  "takes now p d d' \<longleftrightarrow> keeps now d d' \<or> (\<exists>r. ib_queue d' = ib_queue d @ [r] \<and> ib_seq d' = Suc (ib_seq d) \<and> ib_posted d' = ib_posted d
     \<and> ib_events d' = ib_events d \<and> room_for p d r)"

lemma takes_end: "hp_now p \<le> now \<Longrightarrow> end_push owner p outcome reason key d = (a, d') \<Longrightarrow> takes now p d d'"
  using keeps_end [of p now d owner outcome reason key] by (simp add: takes_def)

lemma takes_wake_end: "hp_now p \<le> now \<Longrightarrow> end_push owner p outcome reason key (askWake mount t d) = (a, d') \<Longrightarrow> takes now p d d'"
  using keeps_trans [OF keeps_wake [of now d mount t] keeps_end [of p now "askWake mount t d" owner outcome reason key]] by (simp add: takes_def)

lemma takes_accept:
  assumes new: "\<not> (truthy key \<and> seenBefore (hp_hook p) (or_else key []) (hp_now p) d)" and room: "\<not> queueFull (hp_hook p) INBOUND_QUEUE_MAX d"
    and same: "ib_queue d2 = ib_queue d" "ib_seq d2 = ib_seq d" "ib_posted d2 = ib_posted d" "ib_events d2 = ib_events d"
    and acc: "acceptInbound (hp_unique p) (hp_hook p) mount key message (hp_now p) inst d2 = Some d'"
  shows "takes now p d d'"
proof -
  obtain r where r: "ib_queue d' = ib_queue d @ [r]" "ib_seq d' = Suc (ib_seq d)" "ib_posted d' = ib_posted d" "ib_events d' = ib_events d"
    "pp_seq r = Suc (ib_seq d)" "pp_hook r = hp_hook p" "pp_key r = or_else key (LOCAL_KEY @ hp_unique p)" "pp_at r = hp_now p"
    "pp_state r = Queued" "\<forall>x\<in>set (ib_queue d). \<not> same_key x r"
    using accept_effect [OF acc] same by auto
  have "room_for p d r" using r new room by (cases key) (auto simp: room_for_def queueFull_def truthy_def)
  with r show ?thesis by (auto simp: takes_def)
qed
lemma takes_refl: "takes now p d d"
  by (simp add: takes_def keeps_refl)

lemma apfst_end:
  assumes "apfst f (end_push owner p outcome reason key d) = (a, d')"
  shows "\<exists>b. end_push owner p outcome reason key d = (b, d')"
  using assms by (cases "end_push owner p outcome reason key d") simp

lemma take_push_takes:
  assumes t: "hp_now p \<le> now" and c: "take_push owner running p result d = (a, d')"
  shows "takes now p d d'"
proof -
  note e = takes_end [OF t] takes_wake_end [OF t]
  let ?key = "result_key result"
  let ?seen = "truthy ?key \<and> seenBefore (hp_hook p) (or_else ?key []) (hp_now p) d"
  show ?thesis
  proof (cases "?seen \<or> \<not> underRate (hp_hook p) (hp_now p) INBOUND_PER_MINUTE d \<or> queueFull (hp_hook p) INBOUND_QUEUE_MAX d \<or> hp_driver p \<noteq> None")
    case True
    with c show ?thesis by (auto simp: take_push_def Let_def split: if_splits option.splits dest!: apfst_end intro: e)
  next
    case False
    show ?thesis
    proof (cases result)
      case (Deliver body key kind wake)
      let ?d2 = "sealSeedFiles (hp_seal p) First_Inbound (hp_now p) (if wake then askWake (hp_alias p) (hp_now p) d else d)"
      have same: "ib_queue ?d2 = ib_queue d" "ib_seq ?d2 = ib_seq d" "ib_posted ?d2 = ib_posted d" "ib_events ?d2 = ib_events d"
        by (simp_all add: sealSeedFiles_def askWake_def)
      have kept: "keeps now d ?d2" using same by (simp add: keeps_def)
      let ?acc = "acceptInbound (hp_unique p) (hp_hook p) (hp_alias p) key (inboundMessage (hp_alias p) body kind) (hp_now p) (hp_accepting p) ?d2"
      have m: "(case ?acc of None \<Rightarrow> (None, ?d2)
          | Some d3 \<Rightarrow> (Some \<lparr>ra_outcome = In_Delivered, ra_unrouted = False, ra_retry = None\<rparr>, d3)) = (a, d')"
      proof -
        have f: "(truthy key \<and> seenBefore (hp_hook p) (or_else key []) (hp_now p) d) = False"
          "underRate (hp_hook p) (hp_now p) INBOUND_PER_MINUTE d = True" "queueFull (hp_hook p) INBOUND_QUEUE_MAX d = False" "hp_driver p = None"
          using False by (auto simp: Deliver)
        show ?thesis
          using c unfolding take_push_def Let_def Deliver result_key.simps f hook_result.case option.case not_True_eq_False if_False .
      qed
      show ?thesis
      proof (cases ?acc)
        case None
        with m kept show ?thesis by (simp add: takes_def)
      next
        case (Some d3)
        with m takes_accept [OF _ _ same Some, of now] False Deliver show ?thesis by simp
      qed
    qed (use False c in \<open>auto simp: take_push_def Let_def dest!: apfst_end intro: e\<close>)
  qed
qed

lemma receive_takes:
  assumes "hp_now p \<le> now" and "receiveHook owner running p d = (a, d')"
  shows "takes now p d d'"
  using assms(2)
  by (auto simp: receiveHook_def takes_refl split: if_splits push_answer.splits hook_result.splits
      dest!: apfst_end intro: takes_end [OF assms(1)] take_push_takes [OF assms(1)])

lemma new_row_spaced:
  assumes fl: "in_flight now p d" and room: "room_for p d r" and post: "posted_ok now d" and q: "q \<in> set (ib_posted d)"
  shows "spaced q r"
proof (unfold spaced_def, intro impI, elim conjE)
  assume same: "pp_hook q = pp_hook r" "pp_key q = pp_key r" and ne: "pp_key q \<noteq> []"
  have now: "now - INBOUND_KEEP_MS + INBOUND_DEDUPE_MS \<le> pp_at r" "pp_at r = hp_now p" using fl room by (simp_all add: in_flight_def room_for_def)
  have "pp_key r \<noteq> LOCAL_KEY @ hp_unique p" using fl q same by (auto simp: in_flight_def)
  with room same ne have fresh: "\<not> seenBefore (pp_hook r) (pp_key r) (hp_now p) d" by (auto simp: room_for_def)
  show "pp_at q + INBOUND_DEDUPE_MS \<le> pp_at r"
  proof (cases "pp_at q < now - INBOUND_KEEP_MS")
    case False
    from posted_heldD [OF post q this] show ?thesis
    proof (unfold key_held_def, elim disjE bexE conjE)
      fix x assume "x \<in> set (ib_queue d)" "same_key x q"
      with fresh same show ?thesis by (auto simp: seenBefore_def same_key_def table_simps)
    next
      fix e assume "e \<in> set (ib_events d)" "ie_hook e = pp_hook q" "ie_key e = Some (pp_key q)" "TAKEN e" "ie_at e = pp_at q"
      with fresh same now(2) show ?thesis by (force simp: seenBefore_def table_simps)
    qed
  qed (use now in simp)
qed

lemma accept_ok:
  assumes fl: "in_flight now p d" and room: "room_for p d r" and ok: "queue_ok now d" "posted_ok now d"
    and d': "ib_queue d' = ib_queue d @ [r]" "ib_seq d' = Suc (ib_seq d)" "ib_posted d' = ib_posted d" "ib_events d' = ib_events d"
  shows "queue_ok now d' \<and> posted_ok now d'"
proof
  have r: "pp_seq r = Suc (ib_seq d)" "pp_hook r = hp_hook p" "pp_at r \<le> now" "\<forall>x\<in>set (ib_queue d). \<not> same_key x r"
    "length (hook_queue (pp_hook r) d) < INBOUND_QUEUE_MAX"
    using room fl by (simp_all add: room_for_def in_flight_def)
  have len: "length (hook_queue hook d') \<le> INBOUND_QUEUE_MAX" for hook
    using r(5) ok(1) by (cases "hook = pp_hook r") (auto simp: hook_queue_def d' queue_ok_def)
  show "queue_ok now d'"
    using ok(1) r(1,3,4) len by (auto simp: queue_ok_def d' sorted_wrt_append less_Suc_eq_le)
  show "posted_ok now d'"
  proof (rule posted_okI)
    show "sorted_wrt (<) (map pp_seq (ib_posted d'))" "sorted_wrt spaced (ib_posted d')" using posted_sortedD [OF ok(2)] by (simp_all add: d')
    fix q assume "q \<in> set (ib_posted d')"
    then have q: "q \<in> set (ib_posted d)" by (simp add: d')
    show "pp_seq q \<le> ib_seq d'" using posted_rowsD [OF ok(2) q] by (simp add: d')
    show "key_held d' q" if "\<not> pp_at q < now - INBOUND_KEEP_MS"
      using posted_heldD [OF ok(2) q that] by (auto simp: key_held_def d')
    fix x assume "x \<in> set (ib_queue d')"
    then consider "x = r" | "x \<in> set (ib_queue d)" by (auto simp: d')
    then show "pp_seq q < pp_seq x \<and> spaced q x \<or> pp_seq q = pp_seq x \<and> pp_state x = Posting"
    proof cases
      case 1
      with new_row_spaced [OF fl room ok(2) q] posted_rowsD [OF ok(2) q] r(1) show ?thesis by simp
    qed (rule posted_rowD [OF ok(2) q])
  qed
qed

lemma phase_ok_append:
  assumes "ib_queue d' = ib_queue d @ [r]" and "ib_posted d' = ib_posted d" and "phase_ok ph d"
  shows "phase_ok ph d'"
  using assms by (cases ph) (auto simp: oldest_is_def split: list.splits)

lemma push_ok:
  assumes "in_flight now p d" and "inbound_ok now ph d" and "receiveHook owner running p d = (a, d')"
  shows "inbound_ok now ph d'"
proof -
  have "takes now p d d'" using assms(1,3) receive_takes by (auto simp: in_flight_def)
  then show ?thesis
    unfolding takes_def
  proof (elim disjE exE conjE)
    fix r assume r: "ib_queue d' = ib_queue d @ [r]" "ib_seq d' = Suc (ib_seq d)" "ib_posted d' = ib_posted d" "ib_events d' = ib_events d" "room_for p d r"
    with accept_ok [OF assms(1) r(5) _ _ r(1-4)] assms(2) phase_ok_append [OF r(1,3)] show ?thesis by (simp add: inbound_ok_def)
  qed (rule inbound_ok_keeps [OF _ assms(2)])
qed

lemma clock_ok:
  assumes "inbound_ok now ph d" and "now \<le> t"
  shows "inbound_ok t ph d"
proof -
  have q: "queue_ok t d" using assms by (fastforce simp: inbound_ok_def queue_ok_def)
  have p: "posted_ok now d" using assms by (simp add: inbound_ok_def)
  have "posted_ok t d"
    using posted_sortedD [OF p] posted_rowsD [OF p] posted_heldD [OF p] posted_rowD [OF p] assms(2)
    by (intro posted_okI) (simp_all, linarith?)
  with q assms show ?thesis by (simp add: inbound_ok_def)
qed
lemma step_ok:
  assumes "inbound_step owner w w'" and "inbound_ok (iw_now w) (iw_phase w) (iw_db w)"
  shows "inbound_ok (iw_now w') (iw_phase w') (iw_db w')"
  using assms
proof (induction rule: inbound_step.induct)
  case (push w p a d)
  then show ?case using push_ok by simp
next
  case (clock w t)
  then show ?case using clock_ok by simp
next
  case (start w ph d)
  then show ?case using pass_start_ok by simp
next
  case (move w a ph d)
  then show ?case using pass_move_ok by simp
next
  case (dies w)
  then show ?case by (simp add: inbound_ok_def)
next
  case (held live w placed d)
  then show ?case using inbound_ok_keeps [OF keeps_place] by simp
next
  case (imported w h d)
  from inbound_ok_keeps [OF keeps_trans [OF keeps_lift [OF imported.hyps] keeps_hold_ended] imported.prems] show ?case by simp
next
  case (others w ws ts s)
  from inbound_ok_keeps [OF keeps_others others.prems] show ?case by simp
qed

lemma reachable_ok: "inbound_reachable owner w \<Longrightarrow> inbound_ok (iw_now w) (iw_phase w) (iw_db w)"
proof (induction rule: inbound_reachable.induct)
  case (first w)
  then show ?case
    by (simp add: inbound_start_def inbound_ok_def queue_ok_def posted_ok_def inbound_none_def hook_queue_def)
qed (rule step_ok)
section \<open>A pass to its end\<close>

text \<open>\<open>n\<close> moves on one reading of the clock, each await answered by \<open>f\<close>; a pass that is over stays so.\<close>

fun drive :: "job_owner \<Rightarrow> int \<Rightarrow> (pass_phase \<Rightarrow> pass_answer) \<Rightarrow> nat \<Rightarrow> pass_phase \<times> inbound_db \<Rightarrow> pass_phase \<times> inbound_db" where
  "drive owner now f 0 s = s"
| "drive owner now f (Suc n) s = drive owner now f n (pass_move owner now (f (fst s)) (fst s) (snd s))"

lemma drive_add: "drive owner now f (m + n) s = drive owner now f n (drive owner now f m s)"
  by (induction m arbitrary: s) auto

lemma drive_over [simp]: "drive owner now f n (Pass_Over out, d) = (Pass_Over out, d)"
  by (induction n) auto

lemma drive_more:
  assumes "drive owner now f m s = (Pass_Over out, d)" and "m \<le> n"
  shows "drive owner now f n s = (Pass_Over out, d)"
  using drive_add [of owner now f m "n - m" s] assms by simp

text \<open>Nothing is in the way: no profile, no removal, each mount still there, no stuck conversation, and the engine takes every post.\<close>

definition clear_answer :: "pass_phase \<Rightarrow> pass_answer" where
  "clear_answer ph = \<lparr>pa_driver = None, pa_removing = False, pa_mount = (case ph of Pass_Mount run head t \<Rightarrow> pp_installation head | _ \<Rightarrow> None),
     pa_stuck = None, pa_throws = None\<rparr>"

definition claimed :: "int \<Rightarrow> pending_push \<Rightarrow> pending_push" where
  "claimed now r = r\<lparr>pp_attempts := Suc (pp_attempts r), pp_next := now + retry_wait (pp_attempts r)\<rparr>"

lemma claim_oldest:
  assumes "queue_ok now d" and "ib_queue d = r # rest"
  shows "claimPendingInbound r t d = (claimed t r, d\<lparr>ib_queue := claimed t r # rest\<rparr>)"
  by (simp add: claimPendingInbound_def claimed_def Let_def on_oldest [OF assms])

lemma rest_filter:
  assumes "queue_ok now d" and "ib_queue d = r # rest"
  shows "filter (\<lambda>x. pp_seq x \<noteq> pp_seq r) rest = rest"
  using assms by (auto simp: queue_ok_def filter_id_conv)

text \<open>The oldest push was posted and has left; the rest of the run's count stands.\<close>

definition posts_one :: "pending_push \<Rightarrow> pass_run \<Rightarrow> inbound_db \<Rightarrow> pass_phase \<times> inbound_db \<Rightarrow> bool" where
  "posts_one r run d s \<longleftrightarrow> (case s of
     (Pass_Loop run', d') \<Rightarrow> ib_queue d' = tl (ib_queue d) \<and> ib_seq d' = ib_seq d \<and> ib_posted d' = ib_posted d @ [r] \<and> ru_driver run' = ru_driver run
       \<and> ip_posted (ru_out run') = Suc (ip_posted (ru_out run))
       \<and> ip_retry (ru_out run') = ip_retry (ru_out run) \<and> ip_failed (ru_out run') = ip_failed (ru_out run)
   | _ \<Rightarrow> False)"

lemma drive_from_judge:
  assumes ok: "queue_ok now d" and q: "ib_queue d = r # rest" and due: "pp_next r \<le> t"
  shows "\<exists>n\<le>5. posts_one (claimed now r) run d (drive owner now clear_answer n (Pass_Judge run r t, d))"
proof -
  let ?d1 = "d\<lparr>ib_queue := claimed now r # rest\<rparr>"
  have d1: "queue_ok now ?d1" "ib_queue ?d1 = claimed now r # rest"
    using ok by (auto simp: queue_ok_def q claimed_def same_key_def hook_queue_def split: if_splits)
  have s: "pp_seq (claimed now r) = pp_seq r" by (simp add: claimed_def)
  have mark: "markPostingInbound (pp_seq r) ?d1 = ?d1\<lparr>ib_queue := (claimed now r)\<lparr>pp_state := Posting\<rparr> # rest\<rparr>"
    using on_oldest [OF d1] by (simp add: markPostingInbound_def s)
  note unf = pass_judged_def pass_claim_def pass_landed_def settle_in_def count_posted_def claim_oldest [OF ok q] clear_answer_def mark s
    rest_filter [OF ok q] Let_def posts_one_def q
  show ?thesis
  proof (cases "ru_prepared run")
    case True
    then have "posts_one (claimed now r) run d (drive owner now clear_answer 4 (Pass_Judge run r t, d))"
      using due by (simp add: eval_nat_numeral unf)
    then show ?thesis by (intro exI [of _ 4]) simp
  next
    case False
    then have "posts_one (claimed now r) run d (drive owner now clear_answer 5 (Pass_Judge run r t, d))"
      using due by (simp add: eval_nat_numeral unf)
    then show ?thesis by (intro exI [of _ 5]) simp
  qed
qed

lemma drive_row:
  assumes ok: "queue_ok now d" and q: "ib_queue d = r # rest" and due: "pp_next r \<le> now" and st: "pp_state r = Queued" and dr: "ru_driver run = None"
  shows "\<exists>n\<le>7. posts_one (claimed now r) run d (drive owner now clear_answer n (Pass_Loop run, d))"
proof -
  obtain n where n: "n \<le> 5" "posts_one (claimed now r) run d (drive owner now clear_answer n (Pass_Judge run r now, d))"
    using drive_from_judge [OF ok q due] by blast
  have head: "nextPendingInbound d = Some r" using next_is_oldest [OF ok] by (simp add: oldest_is_def q)
  show ?thesis
  proof (cases "pp_installation r")
    case None
    then have "drive owner now clear_answer (Suc n) (Pass_Loop run, d) = drive owner now clear_answer n (Pass_Judge run r now, d)"
      by (simp add: pass_head_def head st dr pass_driver_def clear_answer_def)
    with n show ?thesis by (intro exI [of _ "Suc n"]) simp
  next
    case (Some inst)
    then have "drive owner now clear_answer (Suc (Suc n)) (Pass_Loop run, d) = drive owner now clear_answer n (Pass_Judge run r now, d)"
      by (simp add: pass_head_def head st dr pass_driver_def pass_mount_def clear_answer_def)
    with n show ?thesis by (intro exI [of _ "Suc (Suc n)"]) simp
  qed
qed

definition due_rows :: "int \<Rightarrow> inbound_db \<Rightarrow> bool" where
  "due_rows now d \<longleftrightarrow> (\<forall>r\<in>set (ib_queue d). pp_state r = Queued \<and> pp_next r \<le> now)"

text \<open>Every push of \<open>d\<close> was posted, oldest first, and the pass is over with nothing left.\<close>

definition all_posted :: "int \<Rightarrow> pass_run \<Rightarrow> inbound_db \<Rightarrow> pass_phase \<times> inbound_db \<Rightarrow> bool" where
  "all_posted now run d s \<longleftrightarrow> (case s of
     (Pass_Over (Some out), d') \<Rightarrow> ib_queue d' = [] \<and> ib_posted d' = ib_posted d @ map (claimed now) (ib_queue d)
       \<and> ip_posted out = ip_posted (ru_out run) + length (ib_queue d) \<and> ip_failed out = ip_failed (ru_out run) \<and> ip_left out = 0
       \<and> ip_retry out = ip_retry (ru_out run)
   | _ \<Rightarrow> False)"

lemma all_posted_more:
  assumes "all_posted now run d (drive owner now clear_answer m s)" and "m \<le> n"
  shows "all_posted now run d (drive owner now clear_answer n s)"
proof -
  obtain out d' where "drive owner now clear_answer m s = (Pass_Over (Some out), d')"
    using assms(1) by (auto simp: all_posted_def split: prod.splits pass_phase.splits option.splits)
  with assms show ?thesis using drive_more by metis
qed

lemma drive_all:
  assumes "queue_ok now d" and "due_rows now d" and "ru_driver run = None"
  shows "all_posted now run d (drive owner now clear_answer (Suc (7 * length (ib_queue d))) (Pass_Loop run, d))"
  using assms
proof (induction "ib_queue d" arbitrary: d run)
  case Nil
  then have e: "ib_queue d = []" by simp
  then have "nextPendingInbound d = None" by (simp add: nextPendingInbound_def order_by_def)
  then show ?case by (simp add: pass_head_def pass_end_def all_posted_def pendingInboundCount_def e)
next
  case (Cons r rest)
  from Cons.hyps(2) have q: "ib_queue d = r # rest" by simp
  have "pp_next r \<le> now" "pp_state r = Queued" using Cons.prems(2) by (simp_all add: due_rows_def q)
  from drive_row [OF Cons.prems(1) q this Cons.prems(3), of owner] obtain n where
    n: "n \<le> 7" "posts_one (claimed now r) run d (drive owner now clear_answer n (Pass_Loop run, d))" by blast
  then obtain run' d' where m: "drive owner now clear_answer n (Pass_Loop run, d) = (Pass_Loop run', d')"
    and p: "posts_one (claimed now r) run d (Pass_Loop run', d')"
    by (auto simp: posts_one_def split: prod.splits pass_phase.splits)
  from p have d': "ib_queue d' = rest" "ib_posted d' = ib_posted d @ [claimed now r]" "ru_driver run' = None"
    using Cons.prems(3) by (simp_all add: posts_one_def q)
  have "queue_ok now d'"
    using queue_ok_shrink [OF Cons.prems(1), of d' "\<lambda>x. pp_seq x \<noteq> pp_seq r"] rest_filter [OF Cons.prems(1) q] p
    by (simp add: posts_one_def q)
  moreover have "due_rows now d'" using Cons.prems(2) by (simp add: due_rows_def d' q)
  ultimately have "all_posted now run' d' (drive owner now clear_answer (Suc (7 * length (ib_queue d'))) (Pass_Loop run', d'))"
    using Cons.hyps(1) [of d' run'] d' by simp
  then have "all_posted now run d (drive owner now clear_answer (Suc (7 * length rest)) (drive owner now clear_answer n (Pass_Loop run, d)))"
    using p unfolding m all_posted_def by (auto simp: posts_one_def q d' split: prod.splits pass_phase.splits option.splits)
  then have "all_posted now run d (drive owner now clear_answer (n + Suc (7 * length rest)) (Pass_Loop run, d))"
    unfolding drive_add .
  moreover have "n + Suc (7 * length rest) \<le> Suc (7 * length (ib_queue d))" using n(1) by (simp add: q)
  ultimately show ?case by (rule all_posted_more)
qed

end
