(* ===== verification/Inbound_Cases.thy ===== *)
theory Inbound_Cases
  imports Inbound_Pass
begin

text \<open>
  What the record and the queue promise of pushed events: the properties of \<open>Inbound_Pass\<close>, the runs they are tried on, and three runs
  where the code does not do what its comments say.
\<close>

section \<open>One push\<close>

text \<open>The record of one event, at the end of what is kept of the others.\<close>

definition recorded_as :: "hook_push \<Rightarrow> inbound_outcome \<Rightarrow> inbound_db \<Rightarrow> inbound_db \<Rightarrow> bool" where
  "recorded_as p outcome d d' \<longleftrightarrow> ib_queue d' = ib_queue d
     \<and> (\<exists>why key. ib_events d' = delete_where (\<lambda>e. ie_at e < hp_now p - INBOUND_KEEP_MS) (ib_events d)
          @ [\<lparr>ie_hook = hp_hook p, ie_at = hp_now p, ie_alias = hp_alias p, ie_outcome = outcome, ie_reason = why, ie_key = key\<rparr>])"

definition queued_as :: "hook_push \<Rightarrow> inbound_db \<Rightarrow> inbound_db \<Rightarrow> bool" where
  "queued_as p d d' \<longleftrightarrow> ib_events d' = ib_events d
     \<and> (\<exists>r. ib_queue d' = ib_queue d @ [r] \<and> pp_hook r = hp_hook p \<and> pp_at r = hp_now p \<and> pp_state r = Queued
          \<and> (case hp_answer p of Answer_Result (Deliver body key kind wake) \<Rightarrow>
               pp_message r = inboundMessage (hp_alias p) body kind \<and> (\<forall>k. key = Some k \<longrightarrow> pp_key r = k)
             | _ \<Rightarrow> False))"

lemma recorded_end: "end_push owner p outcome reason key d = (a, d') \<Longrightarrow> recorded_as p outcome d d' \<and> ra_outcome a = outcome \<and> \<not> ra_unrouted a"
  by (auto simp: end_push_def recorded_as_def recordInbound_def)

lemma recorded_wake_end:
  "end_push owner p outcome reason key (askWake mount t d) = (a, d') \<Longrightarrow> recorded_as p outcome d d' \<and> ra_outcome a = outcome \<and> \<not> ra_unrouted a"
  by (auto simp: end_push_def recorded_as_def recordInbound_def askWake_def)

text \<open>How a push ended: unrouted and untouched, recorded under its outcome, or queued and answered as delivered.\<close>

definition ends_as :: "hook_push \<Rightarrow> receive_answer \<Rightarrow> inbound_db \<Rightarrow> inbound_db \<Rightarrow> bool" where
  "ends_as p a d d' \<longleftrightarrow> (if ra_unrouted a then d' = d
     else recorded_as p (ra_outcome a) d d' \<or> (ra_outcome a = In_Delivered \<and> queued_as p d d'))"

lemma ends_end: "end_push owner p outcome reason key d = (a, d') \<Longrightarrow> ends_as p a d d'"
  using recorded_end [of owner p outcome reason key d a d'] by (auto simp: ends_as_def)

lemma ends_wake_end: "end_push owner p outcome reason key (askWake mount t d) = (a, d') \<Longrightarrow> ends_as p a d d'"
  using recorded_wake_end [of owner p outcome reason key mount t d a d'] by (auto simp: ends_as_def)

lemma apfst_Some_end:
  assumes "apfst (\<lambda>a. Some (f a)) (end_push owner p outcome reason key d) = (Some a, d')"
  obtains b where "end_push owner p outcome reason key d = (b, d')" and "a = f b"
  using assms by (cases "end_push owner p outcome reason key d") simp

lemma ends_retry: "end_push owner p outcome reason key d = (b, d') \<Longrightarrow> ends_as p (b\<lparr>ra_retry := w\<rparr>) d d'"
  using recorded_end [of owner p outcome reason key d b d'] by (auto simp: ends_as_def)

lemma ends_accept:
  assumes "hp_answer p = Answer_Result (Deliver body key kind wake)"
    and "ib_queue d2 = ib_queue d" "ib_events d2 = ib_events d"
    and "acceptInbound (hp_unique p) (hp_hook p) (hp_alias p) key (inboundMessage (hp_alias p) body kind) (hp_now p) inst d2 = Some d'"
  shows "ends_as p \<lparr>ra_outcome = In_Delivered, ra_unrouted = False, ra_retry = None\<rparr> d d'"
  using accept_effect [OF assms(4)] assms(1-3) by (force simp: ends_as_def queued_as_def)

lemma seal_tables [simp]:
  "ib_queue (sealSeedFiles m how t d) = ib_queue d" "ib_events (sealSeedFiles m how t d) = ib_events d"
  "ib_queue (askWake mount t d) = ib_queue d" "ib_events (askWake mount t d) = ib_events d"
  by (simp_all add: sealSeedFiles_def askWake_def)

lemma take_push_ends:
  assumes r: "hp_answer p = Answer_Result result" and c: "take_push owner running p result d = (Some a, d')"
  shows "ends_as p a d d'"
proof -
  note e = ends_end ends_wake_end ends_retry
  let ?key = "result_key result"
  let ?seen = "truthy ?key \<and> seenBefore (hp_hook p) (or_else ?key []) (hp_now p) d"
  show ?thesis
  proof (cases "?seen \<or> \<not> underRate (hp_hook p) (hp_now p) INBOUND_PER_MINUTE d \<or> queueFull (hp_hook p) INBOUND_QUEUE_MAX d \<or> hp_driver p \<noteq> None")
    case True
    with c show ?thesis by (auto simp: take_push_def Let_def split: if_splits option.splits elim!: apfst_Some_end intro: e)
  next
    case False
    then have f: "?seen = False" "underRate (hp_hook p) (hp_now p) INBOUND_PER_MINUTE d = True"
      "queueFull (hp_hook p) INBOUND_QUEUE_MAX d = False" "hp_driver p = None" by auto
    note c' = c [unfolded take_push_def Let_def f option.case not_True_eq_False if_False]
    show ?thesis
    proof (cases result)
      case (Deliver body key kind wake)
      let ?d2 = "sealSeedFiles (hp_seal p) First_Inbound (hp_now p) (if wake then askWake (hp_alias p) (hp_now p) d else d)"
      from c' Deliver obtain d3 where
        acc: "acceptInbound (hp_unique p) (hp_hook p) (hp_alias p) key (inboundMessage (hp_alias p) body kind) (hp_now p) (hp_accepting p) ?d2 = Some d3"
        and a: "a = \<lparr>ra_outcome = In_Delivered, ra_unrouted = False, ra_retry = None\<rparr>" "d' = d3"
        by (auto split: option.splits)
      have "ib_queue ?d2 = ib_queue d" "ib_events ?d2 = ib_events d" by simp_all
      from ends_accept [OF r [unfolded Deliver] this acc] show ?thesis by (simp add: a)
    qed (use c' in \<open>auto elim!: apfst_Some_end intro: e\<close>)
  qed
qed

lemma receive_ends:
  assumes "receiveHook owner running p d = (Some a, d')"
  shows "ends_as p a d d'"
proof (cases "\<not> hp_secret p \<and> hp_cached p")
  case True
  with assms show ?thesis by (auto simp: receiveHook_def ends_as_def)
next
  case False
  with assms take_push_ends [of p _ owner running d a d'] show ?thesis
    by (auto simp: receiveHook_def split: if_splits push_answer.splits hook_result.splits elim!: apfst_Some_end intro: ends_end)
qed
section \<open>Age and retries\<close>

lemma expire_one_queue:
  assumes "distinct (map pp_seq (ib_queue d))" and "expire_one owner n (out, d) = (out', d')"
  shows "ib_queue d' = filter (\<lambda>r. pp_seq r \<noteq> n) (ib_queue d) \<and> ip_failed out' + length (ib_queue d') = ip_failed out + length (ib_queue d)"
proof (cases "pendingInboundRow n d")
  case None
  then have "filter (\<lambda>r. pp_seq r \<noteq> n) (ib_queue d) = ib_queue d" by (auto simp: pendingInboundRow_def table_simps filter_id_conv)
  with assms(2) None show ?thesis by (simp add: expire_one_def)
next
  case (Some row)
  then have row: "row \<in> set (ib_queue d)" "pp_seq row = n" by (auto simp: pendingInboundRow_def dest: get_row_SomeD)
  have one: "Suc (length (filter (\<lambda>r. pp_seq r \<noteq> pp_seq row) q)) = length q" if "distinct (map pp_seq q)" "row \<in> set q" for q
    using that
  proof (induction q)
    case (Cons x q)
    show ?case
    proof (cases "x = row")
      case True
      then have "filter (\<lambda>r. pp_seq r \<noteq> pp_seq row) q = q" using Cons.prems(1)
        by (intro filter_True) (auto simp: image_iff)
      with True show ?thesis by simp
    next
      case False
      with Cons.prems have "pp_seq x \<noteq> pp_seq row" by (auto simp: image_iff)
      with Cons False show ?thesis by simp
    qed
  qed simp
  show ?thesis using assms(2) Some row one [OF assms(1) row(1)] by (auto simp: expire_one_def)
qed

lemma expire_all_queue:
  assumes "distinct (map pp_seq (ib_queue d))" and "fold (expire_one owner) ns (out, d) = (out', d')"
  shows "ib_queue d' = filter (\<lambda>r. pp_seq r \<notin> set ns) (ib_queue d) \<and> ip_failed out' + length (ib_queue d') = ip_failed out + length (ib_queue d)"
  using assms
proof (induction ns arbitrary: out d)
  case (Cons n ns)
  obtain o1 d1 where e: "expire_one owner n (out, d) = (o1, d1)" by fastforce
  note one = expire_one_queue [OF Cons.prems(1) e]
  then have "distinct (map pp_seq (ib_queue d1))" using Cons.prems(1) by (simp add: distinct_map_filter)
  with Cons.IH [of d1 o1] Cons.prems(2) e one show ?case by (auto intro: filter_cong)
qed simp

lemma old_rows_leave:
  assumes q: "queue_ok now d" and held: "importHeldUntil owner now d = (None, d1)"
    and since: "case since_lift now d1 of None \<Rightarrow> True | Some s \<Rightarrow> INBOUND_MAX_AGE_MS \<le> s"
    and c: "pass_start owner now d = (ph, d')"
  shows "ib_queue d' = filter (\<lambda>r. now - INBOUND_MAX_AGE_MS < pp_at r) (ib_queue d)
    \<and> (\<exists>out. ph = Pass_Agent out \<and> ip_failed out = length (filter (\<lambda>r. pp_at r \<le> now - INBOUND_MAX_AGE_MS) (ib_queue d)))"
proof -
  have q1: "ib_queue d1 = ib_queue d" using keeps_held_until [OF held] by (simp add: keeps_def)
  have dist: "distinct (map pp_seq (ib_queue d))" using q by (simp add: queue_ok_def strict_sorted_iff)
  let ?old = "expiredPendingInbound now d1"
  obtain out d2 where f: "fold (expire_one owner) ?old (no_pass, d1) = (out, d2)" by fastforce
  have res: "ph = Pass_Agent out" "d' = d2" using c held since f by (auto simp: pass_start_def Let_def split: option.splits if_splits)
  have "pp_seq r \<notin> set ?old \<longleftrightarrow> now - INBOUND_MAX_AGE_MS < pp_at r" if "r \<in> set (ib_queue d)" for r
    using that dist by (auto simp: expiredPendingInbound_def q1 distinct_map inj_on_def)
  then have flt: "filter (\<lambda>r. pp_seq r \<notin> set ?old) (ib_queue d) = filter (\<lambda>r. now - INBOUND_MAX_AGE_MS < pp_at r) (ib_queue d)"
    by (rule filter_cong [OF refl])
  have "length (filter (\<lambda>r. pp_at r \<le> now - INBOUND_MAX_AGE_MS) (ib_queue d)) + length (filter (\<lambda>r. now - INBOUND_MAX_AGE_MS < pp_at r) (ib_queue d))
      = length (ib_queue d)"
    using sum_length_filter_compl [of "\<lambda>r. pp_at r \<le> now - INBOUND_MAX_AGE_MS" "ib_queue d"] by (simp add: not_le)
  with expire_all_queue [OF _ f] dist q1 flt show ?thesis by (auto simp: res no_pass_def)
qed

lemma a_throw_after_a_claim:
  assumes q: "queue_ok now d" and old: "ib_queue d = head # rest"
    and c: "pass_claim t run head d = (Pass_Post run row, d1)" and m: "pass_move owner now \<lparr>pa_driver = v, pa_removing = b, pa_mount = x, pa_stuck = y, pa_throws = Some e\<rparr>
      (Pass_Post run row) d1 = (ph, d')"
  shows "if pp_attempts head < 4
    then ib_queue d' = head\<lparr>pp_attempts := Suc (pp_attempts head), pp_next := t + INBOUND_RETRY_MS ! pp_attempts head,
        pp_state := Queued, pp_error := Some (take 300 e)\<rparr> # rest
    else ib_queue d' = rest \<and> (\<exists>why. settled_event head In_Failed (Some why) \<in> set (ib_events d'))"
proof -
  have row: "row = claimed t head" and d1: "d1 = d\<lparr>ib_queue := claimed t head # rest\<rparr>"
    using c by (auto simp: pass_claim_def claim_oldest [OF q old])
  have q1: "queue_ok now d1" using q by (auto simp: d1 queue_ok_def old claimed_def same_key_def hook_queue_def split: if_splits)
  have o1: "ib_queue d1 = claimed t head # rest" by (simp add: d1)
  show ?thesis
  proof (cases "pp_attempts head < 4")
    case True
    then have n: "\<not> INBOUND_POST_ATTEMPTS \<le> pp_attempts row" "retry_wait (pp_attempts head) = INBOUND_RETRY_MS ! pp_attempts head"
      by (simp_all add: row claimed_def INBOUND_POST_ATTEMPTS_def INBOUND_RETRY_MS_def retry_wait_def min_def)
    from m n(1) have "d' = requeueInbound (pp_seq (claimed t head)) (take 300 e) d1" by (simp add: pass_threw_def Let_def pass_end_def row)
    moreover have "on_push (pp_seq (claimed t head)) f d1 = d1\<lparr>ib_queue := f (claimed t head) # rest\<rparr>" for f
      by (rule on_oldest [OF q1 o1])
    ultimately have "ib_queue d' = (claimed t head)\<lparr>pp_state := Queued, pp_error := Some (take 300 e)\<rparr> # rest"
      by (simp add: requeueInbound_def)
    then show ?thesis using True n(2) by (simp add: claimed_def)
  next
    case False
    then have "INBOUND_POST_ATTEMPTS \<le> pp_attempts row" by (simp add: row claimed_def INBOUND_POST_ATTEMPTS_def INBOUND_RETRY_MS_def)
    with m have d': "d' = settleInbound owner row In_Failed (Some (given_up_reason row (take 300 e))) d1"
      by (simp add: pass_threw_def Let_def settle_in_def)
    have "settled_event head In_Failed (Some (given_up_reason row (take 300 e))) \<in> set (ib_events d')"
      unfolding d' settle_events by (simp add: settled_event_def row claimed_def)
    moreover have "ib_queue d' = rest" using rest_filter [OF q1 o1] by (simp add: d' d1 row claimed_def)
    ultimately show ?thesis using False by auto
  qed
qed
lemma apfst_Some_not_None: "apfst (\<lambda>a. Some (f a)) x = (None, y) \<Longrightarrow> P"
  by (cases x) simp

lemma take_push_throws:
  assumes c: "take_push owner running p result d = (None, d')"
  shows "\<exists>r\<in>set (ib_queue d). pp_hook r = hp_hook p \<and> (pp_key r = [] \<or> pp_key r = LOCAL_KEY @ hp_unique p)"
proof -
  let ?key = "result_key result"
  let ?seen = "truthy ?key \<and> seenBefore (hp_hook p) (or_else ?key []) (hp_now p) d"
  have "\<not> (?seen \<or> \<not> underRate (hp_hook p) (hp_now p) INBOUND_PER_MINUTE d \<or> queueFull (hp_hook p) INBOUND_QUEUE_MAX d \<or> hp_driver p \<noteq> None)"
    using c by (auto simp: take_push_def Let_def split: if_splits option.splits elim!: apfst_Some_not_None)
  then have f: "?seen = False" "underRate (hp_hook p) (hp_now p) INBOUND_PER_MINUTE d = True"
    "queueFull (hp_hook p) INBOUND_QUEUE_MAX d = False" "hp_driver p = None" by auto
  note c' = c [unfolded take_push_def Let_def f option.case not_True_eq_False if_False]
  show ?thesis
  proof (cases result)
    case (Deliver body key kind wake)
    let ?d2 = "sealSeedFiles (hp_seal p) First_Inbound (hp_now p) (if wake then askWake (hp_alias p) (hp_now p) d else d)"
    from c' Deliver have "acceptInbound (hp_unique p) (hp_hook p) (hp_alias p) key (inboundMessage (hp_alias p) body kind) (hp_now p) (hp_accepting p) ?d2 = None"
      by (auto split: option.splits)
    moreover have "ib_queue ?d2 = ib_queue d" by simp
    ultimately obtain r where r: "r \<in> set (ib_queue d)" "pp_hook r = hp_hook p" "pp_key r = or_else key (LOCAL_KEY @ hp_unique p)"
      by (auto simp: acceptInbound_def insert_row_def table_simps Let_def split: if_splits)
    show ?thesis
    proof (cases key)
      case (Some k)
      with r f(1) Deliver have "k = []" by (auto simp: truthy_def seenBefore_def table_simps)
      with r Some show ?thesis by auto
    qed (use r in auto)
  qed (use c' in \<open>auto elim!: apfst_Some_not_None\<close>)
qed

lemma receive_throws:
  assumes "receiveHook owner running p d = (None, d')"
  shows "\<exists>r\<in>set (ib_queue d). pp_hook r = hp_hook p \<and> (pp_key r = [] \<or> pp_key r = LOCAL_KEY @ hp_unique p)"
  using assms take_push_throws [of owner running p _ d d']
  by (auto simp: receiveHook_def split: if_splits push_answer.splits hook_result.splits elim!: apfst_Some_not_None)

section \<open>A whole pass\<close>

lemma clear_pass:
  assumes q: "queue_ok now d" and due: "due_rows now d" and free: "ib_hold d = None"
    and young: "\<forall>r\<in>set (ib_queue d). now - INBOUND_MAX_AGE_MS < pp_at r"
  shows "all_posted now \<lparr>ru_driver = None, ru_prepared = False, ru_out = no_pass\<rparr> d
    (drive owner now clear_answer (7 * length (ib_queue d) + 2) (pass_start owner now d))"
proof -
  have "filter (\<lambda>r. pp_at r \<le> now - INBOUND_MAX_AGE_MS) (ib_queue d) = []" using young by (auto simp: filter_empty_conv)
  then have "expiredPendingInbound now d = []" by (simp add: expiredPendingInbound_def order_by_def)
  then have s: "pass_start owner now d = (Pass_Agent no_pass, d)"
    by (simp add: pass_start_def importHeldUntil_def free since_lift_def)
  have e: "7 * length (ib_queue d) + 2 = Suc (Suc (7 * length (ib_queue d)))" by simp
  show ?thesis unfolding s e drive.simps(2) [of _ _ _ "Suc _"]
    using drive_all [OF q due, of "\<lparr>ru_driver = None, ru_prepared = False, ru_out = no_pass\<rparr>" owner]
    by (simp add: clear_answer_def del: drive.simps)
qed

section \<open>Runs\<close>

definition hook_owner :: job_owner where "hook_owner = (''t'', ''a'')"

definition hook_case :: "string option \<Rightarrow> int \<Rightarrow> hook_push" where
  "hook_case key now = \<lparr>hp_hook = ''h'', hp_alias = ''gh'', hp_now = now, hp_body = True, hp_secret = True, hp_cached = False,
     hp_receiving = Some ''i'', hp_answer = Answer_Result (Deliver ''hi'' key Event_Kind False), hp_accepting = Some ''i'',
     hp_driver = None, hp_unique = ''u'', hp_seal = \<lparr>sl_manifest = JArr [], sl_tools = None, sl_sha = []\<rparr>\<rparr>"

definition hook_push_at :: "string option \<Rightarrow> int \<Rightarrow> inbound_db \<Rightarrow> inbound_db" where
  "hook_push_at key now d = snd (receiveHook hook_owner False (hook_case key now) d)"

definition hook_pass :: "(pass_phase \<Rightarrow> pass_answer) \<Rightarrow> int \<Rightarrow> inbound_db \<Rightarrow> pass_phase \<times> inbound_db" where
  "hook_pass f now d = drive hook_owner now f (7 * length (ib_queue d) + 2) (pass_start hook_owner now d)"

definition hook_world :: "int \<Rightarrow> pass_phase \<times> inbound_db \<Rightarrow> inbound_world" where
  "hook_world now s = \<lparr>iw_now = now, iw_phase = fst s, iw_db = snd s\<rparr>"

lemma reach_first: "inbound_reachable owner (hook_world now (Pass_Over None, inbound_none))"
  by (rule inbound_reachable.first) (simp add: inbound_start_def hook_world_def)

lemma reach_clock:
  assumes "inbound_reachable owner (hook_world now s)" and "now \<le> t"
  shows "inbound_reachable owner (hook_world t s)"
  using inbound_reachable.step [OF assms(1) inbound_step.clock [of "hook_world now s" t owner]] assms(2) by (simp add: hook_world_def)

lemma reach_drive:
  assumes "inbound_reachable owner (hook_world now s)"
  shows "inbound_reachable owner (hook_world now (drive owner now f n s))"
  using assms
proof (induction n arbitrary: s)
  case (Suc n)
  obtain ph d where m: "pass_move owner now (f (fst s)) (fst s) (snd s) = (ph, d)" by fastforce
  have "inbound_reachable owner (hook_world now (ph, d))"
  proof (cases "pass_running (fst s)")
    case True
    from inbound_reachable.step [OF Suc.prems inbound_step.move [of "hook_world now s" owner "f (fst s)" ph d]] True m
    show ?thesis by (simp add: hook_world_def)
  next
    case False
    then have "(ph, d) = s" using m by (cases s) (auto simp: pass_running_def split: pass_phase.splits)
    with Suc.prems show ?thesis by simp
  qed
  from Suc.IH [OF this] m show ?case by simp
qed simp

lemma reach_pass:
  assumes "inbound_reachable hook_owner (hook_world now (Pass_Over out, d))"
  shows "inbound_reachable hook_owner (hook_world now (hook_pass f now d))"
proof -
  obtain ph d' where s: "pass_start hook_owner now d = (ph, d')" by fastforce
  have "inbound_reachable hook_owner (hook_world now (ph, d'))"
    using inbound_reachable.step [OF assms inbound_step.start [of "hook_world now (Pass_Over out, d)" hook_owner ph d']] s
    by (simp add: hook_world_def pass_running_def)
  from reach_drive [OF this] show ?thesis unfolding hook_pass_def s .
qed

lemma reach_push:
  assumes "inbound_reachable hook_owner (hook_world now (Pass_Over out, d))" and "in_flight now (hook_case key t) d"
  shows "inbound_reachable hook_owner (hook_world now (Pass_Over out, hook_push_at key t d))"
proof -
  obtain a d' where r: "receiveHook hook_owner False (hook_case key t) d = (a, d')" by fastforce
  from inbound_reachable.step [OF assms(1) inbound_step.push [of "hook_world now (Pass_Over out, d)" "hook_case key t" hook_owner a d']] r assms(2)
  show ?thesis by (simp add: hook_world_def pass_running_def hook_push_at_def)
qed

text \<open>The same event, pushed and handed over twice, 25 hours apart.\<close>

definition day_db :: inbound_db where
  "day_db = snd (hook_pass clear_answer 0 (hook_push_at (Some ''k'') 0 inbound_none))"

definition day_world :: inbound_world where
  "day_world = hook_world 90000000 (hook_pass clear_answer 90000000 (hook_push_at (Some ''k'') 90000000 day_db))"

lemma day_first_over: "hook_pass clear_answer 0 (hook_push_at (Some ''k'') 0 inbound_none)
    = (Pass_Over (Some (no_pass\<lparr>ip_posted := 1, ip_waited := Some 0\<rparr>)), day_db)"
  by code_simp

lemma day_flights: "in_flight 0 (hook_case (Some ''k'') 0) inbound_none" "in_flight 90000000 (hook_case (Some ''k'') 90000000) day_db"
  by code_simp+

lemma day_reachable: "inbound_reachable hook_owner day_world"
proof -
  from reach_pass [OF reach_push [OF reach_first day_flights(1)], of clear_answer]
  have "inbound_reachable hook_owner (hook_world 0 (Pass_Over (Some (no_pass\<lparr>ip_posted := 1, ip_waited := Some 0\<rparr>)), day_db))"
    unfolding day_first_over .
  from reach_clock [OF this, of 90000000]
  have "inbound_reachable hook_owner (hook_world 90000000 (Pass_Over (Some (no_pass\<lparr>ip_posted := 1, ip_waited := Some 0\<rparr>)), day_db))" by simp
  from reach_pass [OF reach_push [OF this day_flights(2)], of clear_answer] show ?thesis unfolding day_world_def .
qed
section \<open>Properties\<close>

text \<open>
  C15: Whatever the order in which pushes arrive, passes run, posts fail, the object dies and imports hold and lift, every push is
  posted to the conversation at most once, and pushes are posted in the order in which they were accepted.
\<close>
theorem pushes_are_posted_once_in_order:
  assumes "inbound_reachable owner w"
  shows "sorted_wrt (<) (map pp_seq (ib_posted (iw_db w)))"
  using reachable_ok [OF assms] posted_sortedD by (auto simp: inbound_ok_def)

theorem pushes_are_posted_once_in_order_witness:
  "sorted_wrt (<) (map pp_seq (ib_posted (iw_db day_world))) \<and> map pp_seq (ib_posted (iw_db day_world)) = [1, 2]"
  using pushes_are_posted_once_in_order [OF day_reachable] by code_simp

text \<open>
  C16: Of the pushes that were posted to a conversation, two for one hook under one key (not empty) came at least 24 hours apart: once a push was
  posted, a redelivery that comes within the day is never posted too. (Of a push that was given up before it was posted this says nothing.)
\<close>
theorem a_key_is_posted_once_a_day:
  assumes "inbound_reachable owner w" and "m < n" and "n < length (ib_posted (iw_db w))"
    and "pp_hook (ib_posted (iw_db w) ! m) = pp_hook (ib_posted (iw_db w) ! n)"
    and "pp_key (ib_posted (iw_db w) ! m) = pp_key (ib_posted (iw_db w) ! n)" and "pp_key (ib_posted (iw_db w) ! m) \<noteq> []"
  shows "pp_at (ib_posted (iw_db w) ! m) + INBOUND_DEDUPE_MS \<le> pp_at (ib_posted (iw_db w) ! n)"
proof -
  have "sorted_wrt spaced (ib_posted (iw_db w))" using reachable_ok [OF assms(1)] posted_sortedD by (auto simp: inbound_ok_def)
  from sorted_wrt_nth_less [OF this assms(2,3)] assms(4-6) show ?thesis by (simp add: spaced_def)
qed

theorem a_key_is_posted_once_a_day_witness:
  "pp_at (ib_posted (iw_db day_world) ! 0) + INBOUND_DEDUPE_MS \<le> pp_at (ib_posted (iw_db day_world) ! 1)"
proof (rule a_key_is_posted_once_a_day [OF day_reachable])
  show "1 < length (ib_posted (iw_db day_world))" by code_simp
  show "pp_hook (ib_posted (iw_db day_world) ! 0) = pp_hook (ib_posted (iw_db day_world) ! 1)" by code_simp
  show "pp_key (ib_posted (iw_db day_world) ! 0) = pp_key (ib_posted (iw_db day_world) ! 1)" by code_simp
  show "pp_key (ib_posted (iw_db day_world) ! 0) \<noteq> []" by code_simp
qed simp

text \<open>
  A hook never has more than 30 pushes in the queue.
\<close>
theorem a_hook_queues_at_most_thirty:
  assumes "inbound_reachable owner w"
  shows "length (hook_queue hook (iw_db w)) \<le> 30"
  using reachable_ok [OF assms] by (simp add: inbound_ok_def queue_ok_def INBOUND_QUEUE_MAX_def)

theorem a_hook_queues_at_most_thirty_witness: "length (hook_queue ''h'' (iw_db day_world)) \<le> 30"
  using day_reachable by (rule a_hook_queues_at_most_thirty)

text \<open>
  Every push ends in one place: answered as unrouted with nothing changed; in the record, under the outcome answered; or as the last
  row of the queue, with the message its label is written for, answered as delivered. The insert can only throw where the hook has a
  queued push under an empty key, or under the key made up for this one.
\<close>
theorem every_push_is_recorded_or_queued:
  "case receiveHook owner running p d of
     (Some a, d') \<Rightarrow> ends_as p a d d'
   | (None, d') \<Rightarrow> \<exists>r\<in>set (ib_queue d). pp_hook r = hp_hook p \<and> (pp_key r = [] \<or> pp_key r = LOCAL_KEY @ hp_unique p)"
  using receive_ends receive_throws by (auto split: prod.split option.split)

text \<open>
  C17: A pass with nothing in its way (no hold, every push due and young enough, mounts in place, the engine taking every post) ends within
  seven moves a push and two more, with the queue empty and every push posted, oldest first.
\<close>
theorem a_clear_pass_hands_over_every_push:
  assumes "queue_ok now d" and "due_rows now d" and "ib_hold d = None" and "\<forall>r\<in>set (ib_queue d). now - INBOUND_MAX_AGE_MS < pp_at r"
  shows "all_posted now \<lparr>ru_driver = None, ru_prepared = False, ru_out = no_pass\<rparr> d
    (drive owner now clear_answer (7 * length (ib_queue d) + 2) (pass_start owner now d))"
  using assms by (rule clear_pass)

definition two_pushes :: inbound_db where
  "two_pushes = hook_push_at (Some ''b'') 5 (hook_push_at (Some ''a'') 0 inbound_none)"

lemma two_pushes_ok: "queue_ok 9 two_pushes"
proof -
  have flights: "in_flight 9 (hook_case (Some ''a'') 0) inbound_none" "in_flight 9 (hook_case (Some ''b'') 5) (hook_push_at (Some ''a'') 0 inbound_none)"
    by code_simp+
  from reachable_ok [OF reach_push [OF reach_push [OF reach_first flights(1)] flights(2)]] show ?thesis
    by (simp add: inbound_ok_def hook_world_def two_pushes_def)
qed

theorem a_clear_pass_hands_over_every_push_witness:
  "all_posted 9 \<lparr>ru_driver = None, ru_prepared = False, ru_out = no_pass\<rparr> two_pushes
    (drive hook_owner 9 clear_answer (7 * length (ib_queue two_pushes) + 2) (pass_start hook_owner 9 two_pushes))"
proof (rule a_clear_pass_hands_over_every_push [OF two_pushes_ok])
  show "due_rows 9 two_pushes" by code_simp
  show "ib_hold two_pushes = None" by code_simp
  show "\<forall>r\<in>set (ib_queue two_pushes). 9 - INBOUND_MAX_AGE_MS < pp_at r" by code_simp
qed

text \<open>
  A claimed push whose post throws goes back to its place at the head of the queue, due again after the wait of its attempt, counted
  and with the error; its fifth failure takes it out, with a failed record under its arrival time and its key.
\<close>
theorem a_failed_post_waits_or_is_given_up:
  assumes "queue_ok now d" and "ib_queue d = head # rest" and "pass_claim t run head d = (Pass_Post run row, d1)"
    and "pass_move owner now \<lparr>pa_driver = v, pa_removing = b, pa_mount = x, pa_stuck = y, pa_throws = Some e\<rparr> (Pass_Post run row) d1 = (ph, d')"
  shows "if pp_attempts head < 4
    then ib_queue d' = head\<lparr>pp_attempts := Suc (pp_attempts head), pp_next := t + INBOUND_RETRY_MS ! pp_attempts head,
        pp_state := Queued, pp_error := Some (take 300 e)\<rparr> # rest
    else ib_queue d' = rest \<and> (\<exists>why. settled_event head In_Failed (Some why) \<in> set (ib_events d'))"
  using assms by (rule a_throw_after_a_claim)

definition bad_post :: pass_answer where
  "bad_post = \<lparr>pa_driver = None, pa_removing = False, pa_mount = Some ''i'', pa_stuck = None, pa_throws = Some ''down''\<rparr>"

definition two_run :: pass_run where "two_run = \<lparr>ru_driver = None, ru_prepared = True, ru_out = no_pass\<rparr>"

theorem a_failed_post_waits_or_is_given_up_witness:
  "ib_queue (snd (pass_move hook_owner 9 bad_post (Pass_Post two_run (claimed 9 (hd (ib_queue two_pushes)))) (snd (pass_claim 9 two_run (hd (ib_queue two_pushes)) two_pushes))))
    = (hd (ib_queue two_pushes))\<lparr>pp_attempts := 1, pp_next := 30009, pp_state := Queued, pp_error := Some ''down''\<rparr> # tl (ib_queue two_pushes)"
proof -
  let ?h = "hd (ib_queue two_pushes)"
  have q: "ib_queue two_pushes = ?h # tl (ib_queue two_pushes)" by code_simp
  obtain d1 where c: "pass_claim 9 two_run ?h two_pushes = (Pass_Post two_run (claimed 9 ?h), d1)"
    using claim_oldest [OF two_pushes_ok q] by (simp add: pass_claim_def)
  obtain ph d' where m: "pass_move hook_owner 9 bad_post (Pass_Post two_run (claimed 9 ?h)) d1 = (ph, d')" by fastforce
  have a: "pp_attempts ?h = 0" by code_simp
  have t: "take 300 ''down'' = ''down''" by simp
  from a_failed_post_waits_or_is_given_up [OF two_pushes_ok q c m [unfolded bad_post_def]] show ?thesis
    by (simp add: c m a t INBOUND_RETRY_MS_def del: pass_move.simps)
qed

text \<open>
  A pass begins by giving up the pushes older than 30 minutes wherever they stand, and only those, and counts them; unless the agent
  waits for an import or stopped waiting less than 30 minutes ago.
\<close>
theorem a_pass_gives_up_the_old_and_only_them:
  assumes "queue_ok now d" and "importHeldUntil owner now d = (None, d1)"
    and "case since_lift now d1 of None \<Rightarrow> True | Some s \<Rightarrow> INBOUND_MAX_AGE_MS \<le> s" and "pass_start owner now d = (ph, d')"
  shows "ib_queue d' = filter (\<lambda>r. now - INBOUND_MAX_AGE_MS < pp_at r) (ib_queue d)
    \<and> (\<exists>out. ph = Pass_Agent out \<and> ip_failed out = length (filter (\<lambda>r. pp_at r \<le> now - INBOUND_MAX_AGE_MS) (ib_queue d)))"
  using assms by (rule old_rows_leave)

theorem a_pass_gives_up_the_old_and_only_them_witness:
  "map pp_at (ib_queue (snd (pass_start hook_owner 1800003 two_pushes))) = [5]"
proof -
  have "queue_ok 1800003 two_pushes" using two_pushes_ok by (fastforce simp: queue_ok_def)
  moreover have "importHeldUntil hook_owner 1800003 two_pushes = (None, two_pushes)" by code_simp
  moreover have "case since_lift 1800003 two_pushes of None \<Rightarrow> True | Some s \<Rightarrow> INBOUND_MAX_AGE_MS \<le> s" by code_simp
  moreover obtain ph d' where s: "pass_start hook_owner 1800003 two_pushes = (ph, d')" by fastforce
  ultimately have "ib_queue d' = filter (\<lambda>r. 1800003 - INBOUND_MAX_AGE_MS < pp_at r) (ib_queue two_pushes)"
    using a_pass_gives_up_the_old_and_only_them by blast
  moreover have "map pp_at (filter (\<lambda>r. 1800003 - INBOUND_MAX_AGE_MS < pp_at r) (ib_queue two_pushes)) = [5]" by code_simp
  ultimately show ?thesis by (simp add: s)
qed
section \<open>Where the code departs from its comments\<close>

definition bad_answer :: "pass_phase \<Rightarrow> pass_answer" where "bad_answer ph = bad_post"

definition failing_passes :: "int list \<Rightarrow> inbound_db \<Rightarrow> inbound_db" where
  "failing_passes ts d = fold (\<lambda>t d. snd (hook_pass bad_answer t d)) ts d"

text \<open>
  Two pushes arrive together and every post fails. The first has its five attempts; the second, which waited behind them, is given up
  for its age after four, 35 minutes after it came, though the age was chosen so that a head always gets its five.
\<close>
lemma the_second_push_gets_four_attempts:
  "let d = failing_passes [0, 30000, 150000, 450000, 1050000, 1080000, 1200000, 1500000] (hook_push_at (Some ''b'') 0 (hook_push_at (Some ''a'') 0 inbound_none));
       d' = failing_passes [2100000] d in
   map (\<lambda>r. (pp_key r, pp_attempts r, pp_next r)) (ib_queue d) = [(''b'', 4, 2100000)]
   \<and> ib_queue d' = []
   \<and> map (\<lambda>e. (ie_key e, ie_outcome e, ie_reason e)) (ib_events d') =
      [(Some ''a'', In_Failed, Some ''accepted, then not posted after 5 attempts: down''),
       (Some ''b'', In_Failed, Some ''queued for more than 30 minutes without being posted: down'')]"
  by code_simp

text \<open>
  After a long hold was lifted, the first post fails and another push wakes the object before its retry: the pass asks to come back at a
  time that is past, so passes follow each other until the retry is due.
\<close>
lemma a_pass_after_a_hold_comes_back_in_the_past:
  "let d0 = snd (placeHold False 0 inbound_none);
       d1 = snd (liftHold By_Import 7200000 (hook_push_at (Some ''a'') 1000 d0));
       d2 = snd (hook_pass bad_answer 7200000 d1);
       s = hook_pass bad_answer 7205000 (hook_push_at (Some ''b'') 7205000 d2) in
   map pp_next (ib_queue d2) = [7230000]
   \<and> (case fst s of Pass_Over (Some out) \<Rightarrow> ip_retry out = Some (- 5404000) \<and> ip_left out = 2 | _ \<Rightarrow> False)"
  by code_simp

text \<open>An empty key is not looked up but is kept: the second push under one throws, and leaves no record.\<close>
lemma a_second_empty_key_throws:
  "let d = hook_push_at (Some []) 0 inbound_none; s = receiveHook hook_owner False (hook_case (Some []) 5) d in
   fst s = None \<and> ib_events (snd s) = [] \<and> length (ib_queue (snd s)) = 1"
  by code_simp

text \<open>A push that reached the conversation in a pass that died, found old by the next, is recorded as one that was never posted.\<close>
lemma a_posted_push_is_recorded_as_never_posted:
  "let s = drive hook_owner 0 clear_answer 7 (pass_start hook_owner 0 (hook_push_at (Some ''a'') 0 inbound_none));
       d' = snd (pass_start hook_owner 1800000 (snd s)) in
   map pp_key (ib_posted (snd s)) = [''a'']
   \<and> map (\<lambda>e. (ie_key e, ie_outcome e, ie_reason e)) (ib_events d') =
      [(Some ''a'', In_Failed, Some ''queued for more than 30 minutes without being posted'')]"
  by code_simp

end
