(* ===== verification/Workspace.thy ===== *)
theory Workspace
  imports Inbound_Pass Agent_State Tool_Policy
begin

text \<open>
  What an agent's workspace is given before it runs: the seeded files of an evaluation with the seal that closes them
  (\<open>src/src/store/seed-files.ts\<close>), the one import of a migrated workspace (\<open>src/src/store/workspace-import.ts\<close>), and the two operations
  of the runtime that write them (\<open>seedWrite\<close>, \<open>importWorkspace\<close>). The hash, the UTF-8 coding, the spelling of a time and the object storage
  are parameters. The lemmas show that a sealed window stays closed and its hash can be recomputed, what a write leaves, that an import
  happens once, whole or not at all, and never into an agent that runs.
\<close>

section \<open>Seeded files\<close>

datatype seed_mode = Writable | Readonly

fun mode_text :: "seed_mode \<Rightarrow> string" where
  "mode_text Writable = ''writable''"
| "mode_text Readonly = ''readonly''"

fun how_text :: "seal_how \<Rightarrow> string" where
  "how_text Explicit = ''explicit''"
| "how_text First_Inbound = ''first-inbound''"
| "how_text First_Turn = ''first-turn''"
| "how_text Prior_Activity = ''prior-activity''"

definition SEED_FILE_MAX_BYTES :: nat where "SEED_FILE_MAX_BYTES = 256 * 1024"
definition SEED_AGENT_MAX_BYTES :: nat where "SEED_AGENT_MAX_BYTES = 2 * 1024 * 1024"
definition STATE_INLINE_MAX :: nat where "STATE_INLINE_MAX = 32 * 1024"

record seed_meta =
  sm_path :: string
  sm_mode :: seed_mode
  sm_bytes :: nat
  sm_sha :: string

record seed_row =
  se_meta :: seed_meta
  se_content :: "string option"
  se_ref :: "string option"
  se_at :: int

definition key_start :: "char \<Rightarrow> bool" where
  "key_start c \<longleftrightarrow> (let n = (of_char c :: nat) in (48 \<le> n \<and> n \<le> 57) \<or> (65 \<le> n \<and> n \<le> 90) \<or> (97 \<le> n \<and> n \<le> 122))"

definition STATE_KEY :: "string \<Rightarrow> bool" where
  "STATE_KEY s \<longleftrightarrow> (case s of [] \<Rightarrow> False
     | c # cs \<Rightarrow> key_start c \<and> length cs \<le> 127 \<and> list_all (\<lambda>x. key_start x \<or> x = CHR ''.'' \<or> x = CHR ''_'' \<or> x = CHR ''/'' \<or> x = CHR ''-'') cs)"

text \<open>\<open>None\<close>: the path is fine. \<open>given\<close> is the path when it is a string.\<close>

definition seedPathProblem :: "string option \<Rightarrow> string option" where
  "seedPathProblem given =
     (case given of
        None \<Rightarrow> Some ''path is required''
      | Some path \<Rightarrow>
          if path = [] then Some ''path is required''
          else if starts_with ''kept:'' path then Some ''kept: names a secret, not a file''
          else if \<not> STATE_KEY path then Some ''path must match /^[A-Za-z0-9][A-Za-z0-9._/-]{0,127}$/ (a state key)''
          else if list_ex (\<lambda>x. x = [] \<or> x = ''.'' \<or> x = ''..'') (split_at (CHR ''/'') path)
          then Some ''path must not have an empty, `.` or `..` segment''
          else None)"

definition seedText :: "(nat list \<Rightarrow> string option) \<Rightarrow> nat list \<Rightarrow> (string \<times> nat) + string" where
  "seedText decode bytes =
     (if SEED_FILE_MAX_BYTES < length bytes
      then Inl (''a seeded file is at most '' @ show_nat SEED_FILE_MAX_BYTES @ '' bytes; this is '' @ show_nat (length bytes), 413)
      else if 0 \<in> set bytes then Inl (''the body carries a NUL byte; a seeded file is UTF-8 text'', 422)
      else case decode bytes of None \<Rightarrow> Inl (''the body is not valid UTF-8'', 422) | Some body \<Rightarrow> Inr body)"

section \<open>The tools an agent was provisioned with\<close>

text \<open>\<open>None\<close> mounts: the catalogue's.\<close>

record tool_config =
  tc_mounts :: "string list option"
  tc_minimal :: bool

definition str_of :: "json \<Rightarrow> string option" where
  "str_of v = (case v of JStr s \<Rightarrow> Some s | _ \<Rightarrow> None)"

definition str_list :: "json list \<Rightarrow> string list option" where
  "str_list vs = those (map str_of vs)"

definition canonicalToolConfig :: "tool_config \<Rightarrow> tool_config" where
  "canonicalToolConfig t = t\<lparr>tc_mounts := map_option sort (tc_mounts t)\<rparr>"

definition harness_of :: "json option \<Rightarrow> bool option" where
  "harness_of v = (if v = Some (JStr ''default'') then Some False else if v = Some (JStr ''minimal'') then Some True else None)"

definition mounts_of :: "json option \<Rightarrow> string list option option" where
  "mounts_of v = (case v of Some JNull \<Rightarrow> Some None | Some (JArr vs) \<Rightarrow> map_option Some (str_list vs) | _ \<Rightarrow> None)"

definition toolConfigOf :: "json \<Rightarrow> tool_config option" where
  "toolConfigOf config =
     (case config of
        JObj kvs \<Rightarrow>
          (case map_of kvs ''toolConfig'' of
             Some (JObj t) \<Rightarrow>
               (case (mounts_of (map_of t ''mounts''), harness_of (map_of t ''harness'')) of
                  (Some ms, Some minimal) \<Rightarrow> Some (canonicalToolConfig \<lparr>tc_mounts = ms, tc_minimal = minimal\<rparr>)
                | _ \<Rightarrow> None)
           | _ \<Rightarrow> None)
      | _ \<Rightarrow> None)"

definition tool_json :: "tool_config \<Rightarrow> json" where
  "tool_json t = JObj [(''mounts'', case tc_mounts t of None \<Rightarrow> JNull | Some ms \<Rightarrow> JArr (map JStr ms)),
     (''harness'', JStr (if tc_minimal t then ''minimal'' else ''default''))]"

definition sameToolConfig :: "tool_config option \<Rightarrow> tool_config option \<Rightarrow> bool" where
  "sameToolConfig a b \<longleftrightarrow> map_option canonicalToolConfig a = map_option canonicalToolConfig b"

section \<open>The object's tables\<close>

record imported_file =
  if_path :: string
  if_bytes :: nat
  if_sha :: string

datatype import_instr = No_Instructions | Pending_Instructions | Applied_Instructions

record import_row =
  im_migration :: string
  im_digest :: string
  im_at :: int
  im_files :: "imported_file list"
  im_instr :: import_instr

record excerpt_row =
  ex_path :: string
  ex_ref :: string
  ex_text :: string
  ex_chars :: nat

text \<open>
  The tables of one agent's object: what \<open>Inbound\<close> keeps, with the seal and the hold; the store; the seeded files; the import and its
  excerpts; when a turn first started; whether the main conversation has a message, and whether one was ended by a fresh context.
\<close>

record workspace =
  ws_in :: inbound_db
  ws_store :: store
  ws_files :: "seed_row list"
  ws_import :: "import_row option"
  ws_excerpts :: "excerpt_row list"
  ws_started :: "int option"
  ws_messages :: bool
  ws_ended :: bool

section \<open>The seal\<close>

definition meta_json :: "seed_meta \<Rightarrow> json" where
  "meta_json m = JObj [(''path'', JStr (sm_path m)), (''mode'', JStr (mode_text (sm_mode m))), (''bytes'', JNum (int (sm_bytes m))), (''sha256'', JStr (sm_sha m))]"

definition manifest_json :: "seed_meta list \<Rightarrow> json" where
  "manifest_json ms = JArr (map meta_json ms)"

definition manifestSha256 :: "(string \<Rightarrow> string) \<Rightarrow> json \<Rightarrow> json option \<Rightarrow> string" where
  "manifestSha256 sha manifest tools =
     sha (canonJson (case tools of None \<Rightarrow> manifest | Some t \<Rightarrow> JObj [(''manifest'', manifest), (''toolConfig'', t)]))"

definition readToolConfig :: "job_owner \<Rightarrow> workspace \<Rightarrow> tool_config option" where
  "readToolConfig owner w =
     (case loadAgent (fst owner) (snd owner) (ws_store w) of None \<Rightarrow> None | Some (_, config, _) \<Rightarrow> toolConfigOf config)"

definition listSeedFiles :: "workspace \<Rightarrow> seed_meta list" where
  "listSeedFiles w = order_by sm_path (map se_meta (ws_files w))"

definition seedSnapshot :: "string \<Rightarrow> workspace \<Rightarrow> seed_row option" where
  "seedSnapshot path w = get_row (\<lambda>r. sm_path (se_meta r) = path) (ws_files w)"

definition readSeal :: "workspace \<Rightarrow> seed_seal option" where
  "readSeal w = ib_seal (ws_in w)"

definition seal_facts_of :: "(string \<Rightarrow> string) \<Rightarrow> job_owner \<Rightarrow> workspace \<Rightarrow> seal_facts" where
  "seal_facts_of sha owner w =
     (let manifest = manifest_json (listSeedFiles w); tools = map_option tool_json (readToolConfig owner w) in
      \<lparr>sl_manifest = manifest, sl_tools = tools, sl_sha = manifestSha256 sha manifest tools\<rparr>)"

text \<open>What \<open>GET .../seed/manifest\<close> reports: the files as they stand, the tools, their hash, and the seal.\<close>

definition seedManifestOf :: "(string \<Rightarrow> string) \<Rightarrow> job_owner \<Rightarrow> workspace \<Rightarrow> seal_facts \<times> seed_seal option" where
  "seedManifestOf sha owner w = (seal_facts_of sha owner w, readSeal w)"

definition seal_now :: "(string \<Rightarrow> string) \<Rightarrow> job_owner \<Rightarrow> seal_how \<Rightarrow> int \<Rightarrow> workspace \<Rightarrow> workspace" where
  "seal_now sha owner how now w = w\<lparr>ws_in := sealSeedFiles (seal_facts_of sha owner w) how now (ws_in w)\<rparr>"

definition delivered_record :: "workspace \<Rightarrow> bool" where
  "delivered_record w \<longleftrightarrow> has_row (\<lambda>e. ie_outcome e = In_Delivered) (ib_events (ws_in w))"

definition priorActivity :: "workspace \<Rightarrow> string option" where
  "priorActivity w =
     (if ws_messages w then Some ''its main conversation has messages''
      else if ws_ended w then Some ''it has had a fresh context''
      else if ib_queue (ws_in w) \<noteq> [] \<or> delivered_record w then Some ''a push was accepted for it''
      else None)"

section \<open>Writing a seeded file\<close>

record seed_write =
  sw_meta :: seed_meta
  sw_content :: "string option"
  sw_ref :: "string option"
  sw_value :: "json option"      \<comment> \<open>the working copy's JSON\<close>
  sw_wref :: "string option"
  sw_wbytes :: nat
  sw_misfit :: "string option"

datatype seed_code = Sealed | Agent_Cap | Document_Cap | Spill | No_Agent

datatype seed_result = Seed_Ok bool seed_meta | Seed_Refused seed_code string

definition seedInline :: "string \<Rightarrow> bool" where
  "seedInline body \<longleftrightarrow> length (stringify (JStr body)) \<le> STATE_INLINE_MAX"

definition too_long :: "seed_write \<Rightarrow> bool" where
  "too_long sw \<longleftrightarrow> (case sw_content sw of None \<Rightarrow> False | Some c \<Rightarrow> \<not> seedInline c)
     \<or> (case sw_value sw of None \<Rightarrow> False | Some v \<Rightarrow> STATE_INLINE_MAX < length (stringify v))"

definition other_bytes :: "string \<Rightarrow> workspace \<Rightarrow> nat" where
  "other_bytes path w = sum_list (map (\<lambda>r. sm_bytes (se_meta r)) (filter (\<lambda>r. sm_path (se_meta r) \<noteq> path) (ws_files w)))"

definition put_working :: "job_owner \<Rightarrow> int \<Rightarrow> string \<Rightarrow> json option \<Rightarrow> string option \<Rightarrow> nat \<Rightarrow> workspace \<Rightarrow> workspace" where
  "put_working owner now path v r n w =
     w\<lparr>ws_store := putStateRow now (fst owner) (snd owner) path \<lparr>en_value = or_else v JNull, en_ref = r, en_bytes = n\<rparr> (ws_store w)\<rparr>"

definition put_seed :: "int \<Rightarrow> seed_write \<Rightarrow> workspace \<Rightarrow> workspace" where
  "put_seed now sw w =
     w\<lparr>ws_files := upsert (\<lambda>r. sm_path (se_meta r) = sm_path (sw_meta sw))
        \<lparr>se_meta = sw_meta sw, se_content = sw_content sw, se_ref = sw_ref sw, se_at = now\<rparr>
        (\<lambda>r. r\<lparr>se_meta := sw_meta sw, se_content := sw_content sw, se_ref := sw_ref sw, se_at := now\<rparr>) (ws_files w)\<rparr>"

definition sealed_message :: "(int \<Rightarrow> string) \<Rightarrow> seed_seal \<Rightarrow> string" where
  "sealed_message iso_time s = ''the workspace was sealed ('' @ how_text (ss_how s) @ '') at '' @ iso_time (ss_at s) @ ''; seeded files can no longer change''"

definition spill_message :: "string \<Rightarrow> string" where
  "spill_message path = path @ '' is too large to keep in its row and is no longer a repeat; spill it''"

definition cap_message :: "nat \<Rightarrow> nat \<Rightarrow> string" where
  "cap_message others n = ''an agent'' @ [CHR 0x27] @ ''s seeded files are at most '' @ show_nat SEED_AGENT_MAX_BYTES
     @ '' bytes together; the others hold '' @ show_nat others @ '' and this is '' @ show_nat n"

definition same_file :: "seed_meta \<Rightarrow> workspace \<Rightarrow> bool" where
  "same_file file w \<longleftrightarrow> (case seedSnapshot (sm_path file) w of None \<Rightarrow> False
     | Some r \<Rightarrow> sm_mode (se_meta r) = sm_mode file \<and> sm_sha (se_meta r) = sm_sha file)"

definition writeSeedFile :: "(string \<Rightarrow> string) \<Rightarrow> (int \<Rightarrow> string) \<Rightarrow> job_owner \<Rightarrow> int \<Rightarrow> seed_write \<Rightarrow> workspace \<Rightarrow> seed_result \<times> workspace" where
  "writeSeedFile sha iso_time owner now sw w0 =
     (let w = (if readSeal w0 = None \<and> priorActivity w0 \<noteq> None then seal_now sha owner Prior_Activity now w0 else w0);
          file = sw_meta sw in
      case readSeal w of
        Some s \<Rightarrow> (Seed_Refused Sealed (sealed_message iso_time s), w)
      | None \<Rightarrow>
          if same_file file w then (Seed_Ok False file, w)
          else if truthy (sw_misfit sw) then (Seed_Refused Document_Cap (or_else (sw_misfit sw) []), w)
          else if too_long sw then (Seed_Refused Spill (spill_message (sm_path file)), w)
          else let others = other_bytes (sm_path file) w in
            if SEED_AGENT_MAX_BYTES < others + sm_bytes file
            then (Seed_Refused Agent_Cap (cap_message others (sm_bytes file)), w)
            else (Seed_Ok True file, put_working owner now (sm_path file) (sw_value sw) (sw_wref sw) (sw_wbytes sw) (put_seed now sw w)))"
section \<open>Seeding from the runtime\<close>

text \<open>
  What the runtime asks of its surroundings: hash, UTF-8 length, the spelling of a time, and object storage, which answers a key and a
  body with the reference a row names (\<open>None\<close>: the upload threw), and a list of keys with those it has deleted and whether it threw.
\<close>

record ws_env =
  we_owner :: job_owner
  we_sha :: "string \<Rightarrow> string"
  we_utf8 :: "string \<Rightarrow> nat"
  we_iso :: "int \<Rightarrow> string"
  we_upload :: "string \<Rightarrow> string \<Rightarrow> string option"
  we_delete :: "string list \<Rightarrow> string list \<times> bool"

definition inline_seed :: "ws_env \<Rightarrow> string option \<Rightarrow> string \<Rightarrow> seed_mode \<Rightarrow> string \<Rightarrow> seed_write" where
  "inline_seed env misfit path mode body =
     \<lparr>sw_meta = \<lparr>sm_path = path, sm_mode = mode, sm_bytes = we_utf8 env body, sm_sha = we_sha env body\<rparr>, sw_content = Some body, sw_ref = None,
      sw_value = Some (JStr body), sw_wref = None, sw_wbytes = length (stringify (JStr body)), sw_misfit = misfit\<rparr>"

definition seed_base :: "ws_env \<Rightarrow> string \<Rightarrow> string" where
  "seed_base env body = ''t/'' @ fst (we_owner env) @ ''/'' @ snd (we_owner env) @ ''/seed/'' @ we_sha env body"

definition spilled_seed :: "ws_env \<Rightarrow> string option \<Rightarrow> string \<Rightarrow> seed_mode \<Rightarrow> string \<Rightarrow> seed_write option" where
  "spilled_seed env misfit path mode body =
     (case we_upload env (seed_base env body @ ''.txt'') body of
        None \<Rightarrow> None
      | Some r1 \<Rightarrow>
          map_option (\<lambda>r2. (inline_seed env misfit path mode body)\<lparr>sw_content := None, sw_ref := Some r1, sw_value := None, sw_wref := Some r2\<rparr>)
            (we_upload env (seed_base env body @ ''.json'') (stringify (JStr body))))"

definition guess_inline :: "ws_env \<Rightarrow> string option \<Rightarrow> string \<Rightarrow> seed_mode \<Rightarrow> string \<Rightarrow> workspace \<Rightarrow> bool" where
  "guess_inline env misfit path mode body w \<longleftrightarrow>
     misfit \<noteq> None \<or> seedInline body \<or> readSeal w \<noteq> None
     \<or> list_ex (\<lambda>m. sm_path m = path \<and> sm_sha m = we_sha env body \<and> sm_mode m = mode) (listSeedFiles w)"

definition store_seed :: "ws_env \<Rightarrow> int \<Rightarrow> seed_write \<Rightarrow> workspace \<Rightarrow> seed_result \<times> workspace" where
  "store_seed env = writeSeedFile (we_sha env) (we_iso env) (we_owner env)"

text \<open>
  \<open>misfit\<close> is what \<open>seedFitProblem\<close> finds against the agent's mounts. \<open>during1\<close> and \<open>during2\<close> are what else happens to the object while
  the guess, and the second upload, are awaited; \<open>None\<close> is a throw.
\<close>

definition seedWrite :: "ws_env \<Rightarrow> (workspace \<Rightarrow> workspace) \<Rightarrow> (workspace \<Rightarrow> workspace) \<Rightarrow> int \<Rightarrow> string option \<Rightarrow> string \<Rightarrow> seed_mode \<Rightarrow> string
    \<Rightarrow> workspace \<Rightarrow> seed_result option \<times> workspace" where
  "seedWrite env during1 during2 now misfit path mode body w =
     (if loadAgent (fst (we_owner env)) (snd (we_owner env)) (ws_store w) = None
      then (Some (Seed_Refused No_Agent (''no agent '' @ snd (we_owner env))), w)
      else
       let given = (if guess_inline env misfit path mode body w then Some (inline_seed env misfit path mode body)
            else spilled_seed env misfit path mode body);
           w1 = during1 w in
       case given of
         None \<Rightarrow> (None, w1)
       | Some sw \<Rightarrow>
           (case store_seed env now sw w1 of
              (Seed_Refused Spill _, w2) \<Rightarrow>
                (let w3 = during2 w2 in
                 case spilled_seed env misfit path mode body of
                   None \<Rightarrow> (None, w3)
                 | Some sw' \<Rightarrow>
                     (case store_seed env now sw' w3 of
                        (Seed_Refused Spill _, w4) \<Rightarrow> (None, w4)
                      | (r, w4) \<Rightarrow> (Some r, w4)))
            | (r, w2) \<Rightarrow> (Some r, w2)))"

section \<open>Importing a workspace\<close>

definition IMPORT_FILE_MAX_BYTES :: nat where "IMPORT_FILE_MAX_BYTES = 2 * 1024 * 1024"
definition IMPORT_TOTAL_MAX_BYTES :: nat where "IMPORT_TOTAL_MAX_BYTES = 10 * 1024 * 1024"
definition IMPORT_FILES_MAX :: nat where "IMPORT_FILES_MAX = 2000"

record import_record =
  ir_migration :: string
  ir_at :: int
  ir_count :: nat
  ir_bytes :: nat
  ir_files :: "imported_file list"
  ir_instr :: import_instr

definition importDigest :: "(string \<Rightarrow> string) \<Rightarrow> string \<Rightarrow> string option \<Rightarrow> imported_file list \<Rightarrow> string" where
  "importDigest sha migration instructions files =
     sha (canonJson (JObj [(''migrationId'', JStr migration),
       (''instructions'', case instructions of None \<Rightarrow> JNull | Some i \<Rightarrow> JStr i),
       (''files'', JArr (map (\<lambda>f. JObj [(''path'', JStr (if_path f)), (''sha256'', JStr (if_sha f))]) (order_by if_path files)))]))"

definition record_of :: "import_row \<Rightarrow> import_record" where
  "record_of r = \<lparr>ir_migration = im_migration r, ir_at = im_at r, ir_count = length (im_files r),
     ir_bytes = sum_list (map if_bytes (im_files r)), ir_files = im_files r, ir_instr = im_instr r\<rparr>"

definition readImport :: "workspace \<Rightarrow> (import_record \<times> string) option" where
  "readImport w = map_option (\<lambda>r. (record_of r, im_digest r)) (ws_import w)"

definition agentStarted :: "workspace \<Rightarrow> string option" where
  "agentStarted w =
     (if ws_started w \<noteq> None then Some ''it has started a turn''
      else if ws_messages w then Some ''its main conversation has messages''
      else if ws_ended w then Some ''it has had a fresh context''
      else if (case readSeal w of Some s \<Rightarrow> ss_how s = First_Turn | None \<Rightarrow> False) then Some ''it has started a turn''
      else if delivered_record w then Some ''a push was posted to it''
      else None)"

definition markStarted :: "int \<Rightarrow> workspace \<Rightarrow> workspace" where
  "markStarted now w = (if ws_started w = None then w\<lparr>ws_started := Some now\<rparr> else w)"

definition seededPaths :: "workspace \<Rightarrow> string set" where
  "seededPaths w = set (map (\<lambda>r. sm_path (se_meta r)) (ws_files w))"

definition importInline :: "string \<Rightarrow> bool" where
  "importInline body \<longleftrightarrow> length (stringify (JStr body)) \<le> STATE_INLINE_MAX"

definition spillKey :: "job_owner \<Rightarrow> string \<Rightarrow> string \<Rightarrow> string" where
  "spillKey owner attempt sha = ''t/'' @ fst owner @ ''/'' @ snd owner @ ''/import/'' @ attempt @ ''/'' @ sha @ ''.json''"

record import_file_row =
  ifr_path :: string
  ifr_value :: "json option"
  ifr_ref :: "string option"
  ifr_bytes :: nat
  ifr_excerpt :: "(string \<times> nat) option"

datatype import_code = Already_Imported | Agent_Active | Reserved | Import_No_Agent

datatype import_result = Import_Ok bool import_record "import_hold option" | Import_Refused import_code string

definition readImportExcerpt :: "string \<Rightarrow> workspace \<Rightarrow> excerpt_row option" where
  "readImportExcerpt path w = get_row (\<lambda>r. ex_path r = path) (ws_excerpts w)"

text \<open>\<open>None\<close>: write it.\<close>

definition importDecided :: "(int \<Rightarrow> string) \<Rightarrow> string \<Rightarrow> string list \<Rightarrow> workspace \<Rightarrow> import_result option" where
  "importDecided iso_time digest paths w =
     (case readImport w of
        Some (rec, d) \<Rightarrow>
          Some (if d = digest then Import_Ok False rec None
            else Import_Refused Already_Imported (''this agent'' @ [CHR 0x27] @ ''s workspace was imported already (migrationId '' @ ir_migration rec
              @ '', '' @ iso_time (ir_at rec) @ ''); an import happens once''))
      | None \<Rightarrow>
          (case agentStarted w of
             Some why \<Rightarrow> Some (Import_Refused Agent_Active (''the agent has already run ('' @ why
               @ ''); an import never overwrites a live agent'' @ [CHR 0x27] @ ''s workspace''))
           | None \<Rightarrow>
               (case find (\<lambda>p. p \<in> seededPaths w) paths of
                  Some clash \<Rightarrow> Some (Import_Refused Reserved (clash @ '' is a file the evaluation setup seeded; import under another path''))
                | None \<Rightarrow> None)))"

record import_request =
  iq_migration :: string
  iq_digest :: string
  iq_files :: "imported_file list"
  iq_rows :: "import_file_row list"
  iq_instructions :: bool

definition put_excerpt :: "import_file_row \<Rightarrow> workspace \<Rightarrow> workspace" where
  "put_excerpt r w =
     (case (ifr_ref r, ifr_excerpt r) of
        (Some ref, Some (body, chars)) \<Rightarrow>
          if ref = [] then w
          else w\<lparr>ws_excerpts := upsert (\<lambda>x. ex_path x = ifr_path r) \<lparr>ex_path = ifr_path r, ex_ref = ref, ex_text = body, ex_chars = chars\<rparr>
            (\<lambda>_. \<lparr>ex_path = ifr_path r, ex_ref = ref, ex_text = body, ex_chars = chars\<rparr>) (ws_excerpts w)\<rparr>
      | _ \<Rightarrow> w)"

definition put_import_row :: "job_owner \<Rightarrow> int \<Rightarrow> import_file_row \<Rightarrow> workspace \<Rightarrow> workspace" where
  "put_import_row owner now r w = put_excerpt r (put_working owner now (ifr_path r) (ifr_value r) (ifr_ref r) (ifr_bytes r) w)"

definition commitImport :: "(int \<Rightarrow> string) \<Rightarrow> job_owner \<Rightarrow> import_request \<Rightarrow> int \<Rightarrow> workspace \<Rightarrow> import_result \<times> workspace" where
  "commitImport iso_time owner imp now w =
     (case importDecided iso_time (iq_digest imp) (map ifr_path (iq_rows imp)) w of
        Some r \<Rightarrow> (r, w)
      | None \<Rightarrow>
          let row = \<lparr>im_migration = iq_migration imp, im_digest = iq_digest imp, im_at = now, im_files = order_by if_path (iq_files imp),
                im_instr = (if iq_instructions imp then Pending_Instructions else No_Instructions)\<rparr>;
              w1 = fold (put_import_row owner now) (iq_rows imp) w;
              w2 = w1\<lparr>ws_import := Some row\<rparr>;
              (lifted, d) = (if iq_instructions imp then (None, ws_in w2) else liftHold By_Import now (ws_in w2)) in
          (Import_Ok True (record_of row) lifted, w2\<lparr>ws_in := d\<rparr>))"

definition markInstructionsApplied :: "string \<Rightarrow> int \<Rightarrow> workspace \<Rightarrow> import_hold option \<times> workspace" where
  "markInstructionsApplied migration now w =
     (let imp = map_option (\<lambda>r. if im_migration r = migration \<and> im_instr r = Pending_Instructions then r\<lparr>im_instr := Applied_Instructions\<rparr> else r) (ws_import w);
          w1 = w\<lparr>ws_import := imp\<rparr> in
      case imp of
        None \<Rightarrow> (None, w1)
      | Some r \<Rightarrow> if im_migration r = migration \<and> im_instr r = Applied_Instructions
          then (let (lifted, d) = liftHold By_Import now (ws_in w1) in (lifted, w1\<lparr>ws_in := d\<rparr>)) else (None, w1))"

section \<open>Importing from the runtime\<close>

text \<open>A file of the request: its path, its text, and its bytes and hash as the route checked them. \<open>excerpt\<close> is what the prompt shows of a text.\<close>

record given_file =
  gf_path :: string
  gf_text :: string
  gf_bytes :: nat
  gf_sha :: string

definition SEEDED_MEMORY :: string where "SEEDED_MEMORY = ''MEMORY.md''"

text \<open>The rows of the files with the keys uploaded, in order, each once; \<open>None\<close>: an upload threw, after its key was noted.\<close>

fun import_rows :: "ws_env \<Rightarrow> string \<Rightarrow> (string \<Rightarrow> string \<times> nat) \<Rightarrow> given_file list \<Rightarrow> string list \<Rightarrow> import_file_row list option \<times> string list" where
  "import_rows env attempt excerpt [] ups = (Some [], ups)"
| "import_rows env attempt excerpt (f # fs) ups =
     (let v = JStr (gf_text f); n = length (stringify v) in
      if importInline (gf_text f)
      then (case import_rows env attempt excerpt fs ups of (rows, ups') \<Rightarrow>
        (map_option ((#) \<lparr>ifr_path = gf_path f, ifr_value = Some v, ifr_ref = None, ifr_bytes = n, ifr_excerpt = None\<rparr>) rows, ups'))
      else
        let key = spillKey (we_owner env) attempt (gf_sha f); ups1 = (if key \<in> set ups then ups else ups @ [key]) in
        (case we_upload env key (stringify v) of
           None \<Rightarrow> (None, ups1)
         | Some ref \<Rightarrow>
             (case import_rows env attempt excerpt fs ups1 of (rows, ups') \<Rightarrow>
               (map_option ((#) \<lparr>ifr_path = gf_path f, ifr_value = None, ifr_ref = Some ref, ifr_bytes = n,
                  ifr_excerpt = (if gf_path f = SEEDED_MEMORY then Some (excerpt (gf_text f)) else None)\<rparr>) rows, ups'))))"

text \<open>
  The attempt's objects are deleted; a deletion that throws is only logged, with how many objects there were.
\<close>

definition drop_uploaded :: "ws_env \<Rightarrow> string list \<Rightarrow> string list \<times> nat option" where
  "drop_uploaded env ups = (case we_delete env ups of (deleted, threw) \<Rightarrow> (deleted, if threw then Some (length ups) else None))"

text \<open>
  The answer (\<open>None\<close> when it throws), the objects deleted at the end with the log of a deletion that failed, and the agent.
  \<open>during\<close> is what else happens while the uploads are awaited; \<open>breaks\<close> says that a statement of the transaction throws, which leaves the
  object as it was.
\<close>

definition importWorkspace :: "ws_env \<Rightarrow> string \<Rightarrow> (string \<Rightarrow> string \<times> nat) \<Rightarrow> (workspace \<Rightarrow> workspace) \<Rightarrow> bool \<Rightarrow> int
    \<Rightarrow> string \<Rightarrow> string \<Rightarrow> bool \<Rightarrow> given_file list \<Rightarrow> workspace \<Rightarrow> import_result option \<times> (string list \<times> nat option) \<times> workspace" where
  "importWorkspace env attempt excerpt during breaks now migration digest instructions files w =
     (if loadAgent (fst (we_owner env)) (snd (we_owner env)) (ws_store w) = None
      then (Some (Import_Refused Import_No_Agent (''no agent '' @ snd (we_owner env))), ([], None), w)
      else
       case importDecided (we_iso env) digest (map gf_path files) w of
         Some r \<Rightarrow> (Some r, ([], None), w)
       | None \<Rightarrow>
           (case import_rows env attempt excerpt files [] of
              (None, ups) \<Rightarrow> (None, drop_uploaded env ups, during w)
            | (Some rows, ups) \<Rightarrow>
                let w1 = during w in
                if breaks then (None, drop_uploaded env ups, w1)
                else
                  let imp = \<lparr>iq_migration = migration, iq_digest = digest, iq_files = map (\<lambda>f. \<lparr>if_path = gf_path f, if_bytes = gf_bytes f, if_sha = gf_sha f\<rparr>) files,
                        iq_rows = rows, iq_instructions = instructions\<rparr>;
                      (r, w2) = commitImport (we_iso env) (we_owner env) imp now w1;
                      w3 = (case r of Import_Ok _ _ (Some h) \<Rightarrow> w2\<lparr>ws_in := holdEnded (we_owner env) now h (ws_in w2)\<rparr> | _ \<Rightarrow> w2) in
                  (Some r, (case r of Import_Ok True _ _ \<Rightarrow> ([], None) | _ \<Rightarrow> drop_uploaded env ups), w3)))"

definition importInstructionsApplied :: "job_owner \<Rightarrow> string \<Rightarrow> int \<Rightarrow> workspace \<Rightarrow> import_hold option \<times> workspace" where
  "importInstructionsApplied owner migration now w =
     (let (lifted, w1) = markInstructionsApplied migration now w in
      (lifted, case lifted of None \<Rightarrow> w1 | Some h \<Rightarrow> w1\<lparr>ws_in := holdEnded owner now h (ws_in w1)\<rparr>))"

definition placeImportHold :: "int \<Rightarrow> workspace \<Rightarrow> bool \<times> workspace" where
  "placeImportHold now w =
     (let (placed, d) = placeHold (readImport w \<noteq> None \<or> agentStarted w \<noteq> None) now (ws_in w) in (placed, w\<lparr>ws_in := d\<rparr>))"
section \<open>Lemmas\<close>

lemma put_working_tables [simp]:
  "ws_in (put_working owner now path v r n w) = ws_in w" "ws_files (put_working owner now path v r n w) = ws_files w"
  "ws_import (put_working owner now path v r n w) = ws_import w" "ws_started (put_working owner now path v r n w) = ws_started w"
  by (simp_all add: put_working_def)

lemma put_seed_tables [simp]:
  "ws_in (put_seed now sw w) = ws_in w" "ws_import (put_seed now sw w) = ws_import w" "ws_store (put_seed now sw w) = ws_store w"
  by (simp_all add: put_seed_def)

lemma put_excerpt_tables [simp]:
  "ws_in (put_excerpt r w) = ws_in w" "ws_files (put_excerpt r w) = ws_files w" "ws_import (put_excerpt r w) = ws_import w"
  "ws_store (put_excerpt r w) = ws_store w"
  by (auto simp: put_excerpt_def split: option.split)

lemma import_fold_tables [simp]:
  "ws_in (fold (put_import_row owner now) rows w) = ws_in w" "ws_files (fold (put_import_row owner now) rows w) = ws_files w"
  "ws_import (fold (put_import_row owner now) rows w) = ws_import w"
  by (induction rows arbitrary: w) (simp_all add: put_import_row_def)

lemma seal_now_tables [simp]:
  "ws_files (seal_now sha owner how now w) = ws_files w" "ws_store (seal_now sha owner how now w) = ws_store w"
  "ws_import (seal_now sha owner how now w) = ws_import w" "listSeedFiles (seal_now sha owner how now w) = listSeedFiles w"
  by (simp_all add: seal_now_def listSeedFiles_def)

lemma readSeal_seal_now:
  "readSeal (seal_now sha owner how now w) =
    Some (case readSeal w of Some s \<Rightarrow> s | None \<Rightarrow> \<lparr>ss_at = now, ss_how = how, ss_facts = seal_facts_of sha owner w\<rparr>)"
  by (simp add: readSeal_def seal_now_def sealSeedFiles_def split: option.split)

lemma readSeal_cong: "ws_in w' = ws_in w \<Longrightarrow> readSeal w' = readSeal w"
  by (simp add: readSeal_def)

text \<open>What a write of a seeded file comes to.\<close>

lemma write_refused_when_sealed:
  assumes "readSeal w = Some s"
  shows "writeSeedFile sha iso_time owner now sw w = (Seed_Refused Sealed (sealed_message iso_time s), w)"
  using assms by (simp add: writeSeedFile_def)

lemma write_refused_after_activity:
  assumes "priorActivity w \<noteq> None"
  shows "\<exists>msg w'. writeSeedFile sha iso_time owner now sw w = (Seed_Refused Sealed msg, w') \<and> readSeal w' \<noteq> None"
  using assms readSeal_seal_now [of sha owner Prior_Activity now w]
  by (cases "readSeal w") (simp_all add: writeSeedFile_def write_refused_when_sealed)

definition takes_seed :: "seed_write \<Rightarrow> workspace \<Rightarrow> bool" where
  "takes_seed sw w \<longleftrightarrow> readSeal w = None \<and> priorActivity w = None \<and> \<not> truthy (sw_misfit sw) \<and> \<not> too_long sw
     \<and> other_bytes (sm_path (sw_meta sw)) w + sm_bytes (sw_meta sw) \<le> SEED_AGENT_MAX_BYTES"

definition with_seed :: "job_owner \<Rightarrow> int \<Rightarrow> seed_write \<Rightarrow> workspace \<Rightarrow> workspace" where
  "with_seed owner now sw w = put_working owner now (sm_path (sw_meta sw)) (sw_value sw) (sw_wref sw) (sw_wbytes sw) (put_seed now sw w)"

lemma write_cases:
  assumes "writeSeedFile sha iso_time owner now sw w = (r, w')"
  obtains (same) "r = Seed_Ok False (sw_meta sw)" "w' = w" "readSeal w = None"
  | (written) "r = Seed_Ok True (sw_meta sw)" "takes_seed sw w" "w' = with_seed owner now sw w"
  | (refused) c msg where "r = Seed_Refused c msg" "w' = w" 
  | (closed) msg where "r = Seed_Refused Sealed msg" "readSeal w = None" "w' = seal_now sha owner Prior_Activity now w"
proof (cases "readSeal w")
  case (Some s)
  have "r = Seed_Refused Sealed (sealed_message iso_time s)" "w' = w"
    using assms write_refused_when_sealed [OF Some, of sha iso_time owner now sw] by simp_all
  then show ?thesis by (rule refused)
next
  case None
  show ?thesis
  proof (cases "priorActivity w")
    case (Some why)
    with assms None closed readSeal_seal_now [of sha owner Prior_Activity now w] show ?thesis by (auto simp: writeSeedFile_def)
  next
    case n2: None
    let ?file = "sw_meta sw"
    let ?others = "other_bytes (sm_path ?file) w"
    have "writeSeedFile sha iso_time owner now sw w = (if same_file ?file w then (Seed_Ok False ?file, w)
      else if truthy (sw_misfit sw) then (Seed_Refused Document_Cap (or_else (sw_misfit sw) []), w)
      else if too_long sw then (Seed_Refused Spill (spill_message (sm_path ?file)), w)
      else if SEED_AGENT_MAX_BYTES < ?others + sm_bytes ?file then (Seed_Refused Agent_Cap (cap_message ?others (sm_bytes ?file)), w)
      else (Seed_Ok True ?file, with_seed owner now sw w))"
      by (simp add: writeSeedFile_def Let_def None n2 with_seed_def)
    then consider "r = Seed_Ok False ?file" "w' = w" | m c where "r = Seed_Refused c m" "w' = w"
      | "r = Seed_Ok True ?file" "w' = with_seed owner now sw w" "takes_seed sw w"
      using assms by (auto simp: takes_seed_def None n2 split: if_splits)
    then show ?thesis
    proof cases
      case 1
      from same [OF 1 None] show ?thesis .
    next
      case 2
      from refused [OF 2] show ?thesis .
    next
      case 3
      from written [OF 3(1,3,2)] show ?thesis .
    qed
  qed
qed

section \<open>The window and its seal\<close>

text \<open>One step of anything that touches these tables. \<open>others\<close>: a pass over pushes, wakes, the agent's own keys, turns.\<close>

inductive ws_step :: "(string \<Rightarrow> string) \<Rightarrow> (int \<Rightarrow> string) \<Rightarrow> job_owner \<Rightarrow> workspace \<Rightarrow> workspace \<Rightarrow> bool" for sha iso_time owner where
  seed: "writeSeedFile sha iso_time owner now sw w = (r, w') \<Longrightarrow> ws_step sha iso_time owner w w'"
| seal: "ws_step sha iso_time owner w (seal_now sha owner how now w)"
| push: "hp_seal p = seal_facts_of sha owner w \<Longrightarrow> receiveHook owner running p (ws_in w) = (a, d) \<Longrightarrow> ws_step sha iso_time owner w (w\<lparr>ws_in := d\<rparr>)"
| import_files: "commitImport iso_time owner imp now w = (r, w') \<Longrightarrow> ws_step sha iso_time owner w w'"
| applied: "importInstructionsApplied owner migration now w = (h, w') \<Longrightarrow> ws_step sha iso_time owner w w'"
| wait: "placeImportHold now w = (placed, w') \<Longrightarrow> ws_step sha iso_time owner w w'"
| others: "ib_seal d = ib_seal (ws_in w)
    \<Longrightarrow> ws_step sha iso_time owner w (w\<lparr>ws_in := d, ws_store := s, ws_excerpts := xs, ws_started := t, ws_messages := m, ws_ended := e\<rparr>)"

text \<open>The total of the files, their inline texts, and a seal that is of the files as they stand with a hash anyone can recompute.\<close>

definition ws_ok :: "(string \<Rightarrow> string) \<Rightarrow> workspace \<Rightarrow> bool" where
  "ws_ok sha w \<longleftrightarrow> distinct (map (\<lambda>r. sm_path (se_meta r)) (ws_files w))
     \<and> sum_list (map (\<lambda>r. sm_bytes (se_meta r)) (ws_files w)) \<le> SEED_AGENT_MAX_BYTES
     \<and> (\<forall>r\<in>set (ws_files w). \<forall>c. se_content r = Some c \<longrightarrow> seedInline c)
     \<and> (\<forall>s. readSeal w = Some s \<longrightarrow> sl_manifest (ss_facts s) = manifest_json (listSeedFiles w)
          \<and> sl_sha (ss_facts s) = manifestSha256 sha (sl_manifest (ss_facts s)) (sl_tools (ss_facts s)))"

lemma ws_ok_cong:
  assumes "ws_ok sha w" and "ws_files w' = ws_files w" and "readSeal w' = readSeal w"
  shows "ws_ok sha w'"
proof -
  have "listSeedFiles w' = listSeedFiles w" using assms(2) by (simp add: listSeedFiles_def)
  with assms show ?thesis by (simp add: ws_ok_def)
qed

lemma facts_of_files:
  "sl_manifest (seal_facts_of sha owner w) = manifest_json (listSeedFiles w)"
  "sl_sha (seal_facts_of sha owner w) = manifestSha256 sha (sl_manifest (seal_facts_of sha owner w)) (sl_tools (seal_facts_of sha owner w))"
  by (simp_all add: seal_facts_of_def Let_def)

lemma ws_ok_sealed:
  assumes "ws_ok sha w" and "ws_files w' = ws_files w"
    and "readSeal w' = readSeal w \<or> (\<exists>how now. readSeal w' = Some \<lparr>ss_at = now, ss_how = how, ss_facts = seal_facts_of sha owner w\<rparr>)"
  shows "ws_ok sha w'"
proof -
  have l: "listSeedFiles w' = listSeedFiles w" using assms(2) by (simp add: listSeedFiles_def)
  have "sl_manifest (ss_facts s) = manifest_json (listSeedFiles w')
      \<and> sl_sha (ss_facts s) = manifestSha256 sha (sl_manifest (ss_facts s)) (sl_tools (ss_facts s))" if "readSeal w' = Some s" for s
    using assms(1,3) that facts_of_files [of sha owner w] unfolding ws_ok_def l by auto
  with assms(1,2) show ?thesis unfolding ws_ok_def by simp
qed

lemma sum_upsert:
  fixes f :: "'r \<Rightarrow> nat"
  assumes "distinct (map k rows)" and "k new = v" and "\<And>r. k r = v \<Longrightarrow> u r = new"
  shows "sum_list (map f (upsert (\<lambda>r. k r = v) new u rows)) = sum_list (map f (filter (\<lambda>r. k r \<noteq> v) rows)) + f new"
proof (cases "has_row (\<lambda>r. k r = v) rows")
  case True
  have "sum_list (map f (update_where (\<lambda>r. k r = v) u rows)) = sum_list (map f (filter (\<lambda>r. k r \<noteq> v) rows)) + f new"
    using True assms(1)
  proof (induction rows)
    case (Cons r rows)
    show ?case
    proof (cases "k r = v")
      case True
      then have "v \<notin> k ` set rows" using Cons.prems(2) by simp
      then have "\<forall>x\<in>set rows. k x \<noteq> v" by blast
      then have "filter (\<lambda>r. k r \<noteq> v) rows = rows" "update_where (\<lambda>r. k r = v) u rows = rows"
        by (auto simp: filter_id_conv update_where_def intro: map_idI)
      with True show ?thesis by (simp add: update_where_Cons assms(3))
    next
      case False
      with Cons show ?thesis by (simp add: update_where_Cons has_row_def)
    qed
  qed (simp add: has_row_def)
  with True show ?thesis by (simp add: upsert_def)
next
  case False
  then have "filter (\<lambda>r. k r \<noteq> v) rows = rows" by (auto simp: has_row_iff filter_id_conv)
  with False show ?thesis by (simp add: upsert_def)
qed

lemma distinct_upsert:
  assumes "distinct (map k rows)" and "k new = v" and "\<And>r. k r = v \<Longrightarrow> u r = new"
  shows "distinct (map k (upsert (\<lambda>r. k r = v) new u rows))"
proof -
  have "map k (update_where (\<lambda>r. k r = v) u rows) = map k rows"
    using assms(2,3) by (induction rows) (auto simp: update_where_def)
  with assms show ?thesis by (auto simp: upsert_def has_row_iff)
qed

lemma set_upsert: "x \<in> set (upsert p new u rows) \<Longrightarrow> (\<And>r. p r \<Longrightarrow> u r = new) \<Longrightarrow> x = new \<or> x \<in> set rows"
  by (auto simp: upsert_def table_simps split: if_splits)
lemma seal_of_record [simp]:
  "ib_seal (recordInbound owner hook mount outcome reason key t d) = ib_seal d" "ib_seal (askWake mount t d) = ib_seal d"
  "ib_seal (holdEnded owner t h d) = ib_seal d"
  by (simp_all add: recordInbound_def askWake_def holdEnded_def Let_def)

lemma seal_of_end: "end_push owner p outcome reason key d = (a, d') \<Longrightarrow> ib_seal d' = ib_seal d"
  by (auto simp: end_push_def)

lemma seal_of_accept: "acceptInbound unique hook mount key message now inst d = Some d' \<Longrightarrow> ib_seal d' = ib_seal d"
  by (auto simp: acceptInbound_def Let_def)

lemma seal_of_lift: "liftHold how t d = (r, d') \<Longrightarrow> ib_seal d' = ib_seal d"
  by (auto simp: liftHold_def Let_def split: option.splits if_splits)

definition sealed_by_push :: "hook_push \<Rightarrow> inbound_db \<Rightarrow> inbound_db \<Rightarrow> bool" where
  "sealed_by_push p d d' \<longleftrightarrow> ib_seal d' = (case ib_seal d of Some s \<Rightarrow> Some s
     | None \<Rightarrow> Some \<lparr>ss_at = hp_now p, ss_how = First_Inbound, ss_facts = hp_seal p\<rparr>)"

lemma sealed_by_seal: "sealed_by_push p d (sealSeedFiles (hp_seal p) First_Inbound (hp_now p) (if b then askWake m t d else d))"
  by (simp add: sealed_by_push_def sealSeedFiles_def split: option.split)

lemma take_push_seal:
  assumes c: "take_push owner running p result d = (a, d')"
  shows "ib_seal d' = ib_seal d \<or> sealed_by_push p d d'"
proof (cases "\<exists>body key kind wake. result = Deliver body key kind wake \<and> hp_driver p = None
    \<and> \<not> (truthy key \<and> seenBefore (hp_hook p) (or_else key []) (hp_now p) d) \<and> underRate (hp_hook p) (hp_now p) INBOUND_PER_MINUTE d
    \<and> \<not> queueFull (hp_hook p) INBOUND_QUEUE_MAX d")
  case True
  then obtain body key kind wake where r: "result = Deliver body key kind wake" and dr: "hp_driver p = None"
    and f: "\<not> (truthy key \<and> seenBefore (hp_hook p) (or_else key []) (hp_now p) d)" "underRate (hp_hook p) (hp_now p) INBOUND_PER_MINUTE d"
      "\<not> queueFull (hp_hook p) INBOUND_QUEUE_MAX d" by blast
  let ?d2 = "sealSeedFiles (hp_seal p) First_Inbound (hp_now p) (if wake then askWake (hp_alias p) (hp_now p) d else d)"
  let ?acc = "acceptInbound (hp_unique p) (hp_hook p) (hp_alias p) key (inboundMessage (hp_alias p) body kind) (hp_now p) (hp_accepting p) ?d2"
  have "(case ?acc of None \<Rightarrow> (None, ?d2) | Some d3 \<Rightarrow> (Some \<lparr>ra_outcome = In_Delivered, ra_unrouted = False, ra_retry = None\<rparr>, d3)) = (a, d')"
    using c f dr by (simp add: take_push_def Let_def r split del: if_split)
  then have "ib_seal d' = ib_seal ?d2" by (cases ?acc) (auto dest: seal_of_accept)
  with sealed_by_seal [of p d wake "hp_alias p" "hp_now p"] show ?thesis by (simp add: sealed_by_push_def)
next
  case False
  have "ib_seal d' = ib_seal d"
    using c False by (auto simp: take_push_def Let_def split: if_splits option.splits hook_result.splits dest!: apfst_end dest: seal_of_end)
  then show ?thesis ..
qed

lemma receive_seal:
  assumes "receiveHook owner running p d = (a, d')"
  shows "ib_seal d' = ib_seal d \<or> sealed_by_push p d d'"
proof -
  have t: "ib_seal d' = ib_seal d \<or> sealed_by_push p d d'" if "take_push owner running p result d = (a, d')" for result
    using that by (rule take_push_seal)
  show ?thesis
  proof (cases "hp_answer p")
    case (Answer_Result result)
    then show ?thesis
      using assms t by (cases result) (auto simp: receiveHook_def split: if_splits dest!: apfst_end t dest: seal_of_end)
  qed (use assms in \<open>auto simp: receiveHook_def split: if_splits dest!: apfst_end dest: seal_of_end\<close>)
qed

text \<open>What one step can do to the files, the seal and the import.\<close>

definition window_step :: "(string \<Rightarrow> string) \<Rightarrow> job_owner \<Rightarrow> workspace \<Rightarrow> workspace \<Rightarrow> bool" where
  "window_step sha owner w w' \<longleftrightarrow>
     (ws_files w' = ws_files w \<and> readSeal w' = readSeal w)
     \<or> (readSeal w = None \<and> ws_files w' = ws_files w \<and> (\<exists>how now. readSeal w' = Some \<lparr>ss_at = now, ss_how = how, ss_facts = seal_facts_of sha owner w\<rparr>))
     \<or> (\<exists>now sw. takes_seed sw w \<and> ws_files w' = ws_files (put_seed now sw w) \<and> readSeal w' = None)"

lemma commit_tables:
  assumes "commitImport iso_time owner imp now w = (r, w')"
  shows "ws_files w' = ws_files w \<and> readSeal w' = readSeal w"
proof (cases "importDecided iso_time (iq_digest imp) (map ifr_path (iq_rows imp)) w")
  case None
  obtain h d where l: "(if iq_instructions imp then (None, ws_in w) else liftHold By_Import now (ws_in w)) = (h, d)" by fastforce
  then have "ib_seal d = ib_seal (ws_in w)" by (auto dest: seal_of_lift split: if_splits)
  with assms None l show ?thesis by (auto simp: commitImport_def Let_def readSeal_def split: if_splits prod.splits)
qed (use assms in \<open>simp add: commitImport_def\<close>)

lemma mark_tables:
  assumes "markInstructionsApplied migration now w = (h, w')"
  shows "ws_files w' = ws_files w \<and> readSeal w' = readSeal w"
proof -
  obtain h d where l: "liftHold By_Import now (ws_in w) = (h, d)" by fastforce
  with assms seal_of_lift [OF l] show ?thesis
    by (auto simp: markInstructionsApplied_def Let_def readSeal_def split: option.splits if_splits prod.splits)
qed

lemma applied_tables:
  assumes "importInstructionsApplied owner migration now w = (h, w')"
  shows "ws_files w' = ws_files w \<and> readSeal w' = readSeal w"
proof -
  obtain l w1 where m: "markInstructionsApplied migration now w = (l, w1)" by fastforce
  with assms mark_tables [OF m] show ?thesis
    by (auto simp: importInstructionsApplied_def Let_def readSeal_def split: option.splits)
qed

lemma wait_tables: "placeImportHold now w = (b, w') \<Longrightarrow> ws_files w' = ws_files w \<and> readSeal w' = readSeal w \<and> ws_import w' = ws_import w"
  by (auto simp: placeImportHold_def placeHold_def readSeal_def split: if_splits)

lemma step_window:
  assumes "ws_step sha iso_time owner w w'"
  shows "window_step sha owner w w'"
  using assms
proof (induction rule: ws_step.induct)
  case (seed now sw w r w')
  then show ?case
  proof (cases rule: write_cases)
    case (written)
    then have "readSeal w' = None" by (simp add: with_seed_def takes_seed_def readSeal_def)
    with written show ?thesis unfolding window_step_def with_seed_def by auto
  qed (auto simp: window_step_def readSeal_seal_now)
next
  case (seal w how now)
  then show ?case by (cases "readSeal w") (auto simp: window_step_def readSeal_seal_now)
next
  case (push p w running a d)
  from receive_seal [OF push.hyps(2)] push.hyps(1) show ?case
    by (cases "ib_seal (ws_in w)") (auto simp: window_step_def sealed_by_push_def readSeal_def)
next
  case (others d w s xs t m e)
  then show ?case by (simp add: window_step_def readSeal_def)
qed (auto simp: window_step_def dest: commit_tables applied_tables wait_tables)

lemma put_seed_ok:
  assumes ok: "ws_ok sha w" and t: "takes_seed sw w" and w': "ws_files w' = ws_files (put_seed now sw w)" "readSeal w' = None"
  shows "ws_ok sha w'"
proof -
  let ?k = "\<lambda>r. sm_path (se_meta r)"
  let ?new = "\<lparr>se_meta = sw_meta sw, se_content = sw_content sw, se_ref = sw_ref sw, se_at = now\<rparr>"
  let ?u = "\<lambda>r. r\<lparr>se_meta := sw_meta sw, se_content := sw_content sw, se_ref := sw_ref sw, se_at := now\<rparr>"
  have u: "?u r = ?new" for r :: seed_row by (cases r) simp
  have f: "ws_files w' = upsert (\<lambda>r. ?k r = sm_path (sw_meta sw)) ?new ?u (ws_files w)" by (simp add: w' put_seed_def)
  have d: "distinct (map ?k (ws_files w))" using ok by (simp add: ws_ok_def)
  have "distinct (map ?k (ws_files w'))" unfolding f by (rule distinct_upsert [OF d]) (simp_all add: u)
  moreover have "sum_list (map (\<lambda>r. sm_bytes (se_meta r)) (ws_files w')) = other_bytes (sm_path (sw_meta sw)) w + sm_bytes (sw_meta sw)"
    unfolding f by (subst sum_upsert [OF d]) (simp_all add: u other_bytes_def)
  moreover have "seedInline c" if "r \<in> set (ws_files w')" "se_content r = Some c" for r c
    using set_upsert [of r "\<lambda>r. ?k r = sm_path (sw_meta sw)" ?new ?u "ws_files w"] that ok t u
    by (auto simp: f ws_ok_def takes_seed_def too_long_def)
  ultimately show ?thesis using t w'(2) by (simp add: ws_ok_def takes_seed_def)
qed

lemma window_step_ok:
  assumes "ws_ok sha w" and "window_step sha owner w w'"
  shows "ws_ok sha w'"
  using assms(2) unfolding window_step_def
proof (elim disjE conjE exE)
  assume "ws_files w' = ws_files w" "readSeal w' = readSeal w"
  then show ?thesis using ws_ok_cong [OF assms(1)] by blast
next
  fix how now assume "ws_files w' = ws_files w" "readSeal w' = Some \<lparr>ss_at = now, ss_how = how, ss_facts = seal_facts_of sha owner w\<rparr>"
  then show ?thesis using ws_ok_sealed [OF assms(1), of w' owner] by blast
next
  fix now sw assume "takes_seed sw w" "ws_files w' = ws_files (put_seed now sw w)" "readSeal w' = None"
  then show ?thesis by (rule put_seed_ok [OF assms(1)])
qed

lemma window_step_closed: "window_step sha owner w w' \<Longrightarrow> readSeal w = Some s \<Longrightarrow> readSeal w' = Some s \<and> ws_files w' = ws_files w"
  by (auto simp: window_step_def takes_seed_def)

inductive ws_reach :: "(string \<Rightarrow> string) \<Rightarrow> (int \<Rightarrow> string) \<Rightarrow> job_owner \<Rightarrow> workspace \<Rightarrow> workspace \<Rightarrow> bool" for sha iso_time owner where
  refl: "ws_reach sha iso_time owner w w"
| more: "ws_reach sha iso_time owner w w1 \<Longrightarrow> ws_step sha iso_time owner w1 w2 \<Longrightarrow> ws_reach sha iso_time owner w w2"

lemma reach_ok: "ws_reach sha iso_time owner w w' \<Longrightarrow> ws_ok sha w \<Longrightarrow> ws_ok sha w'"
  by (induction rule: ws_reach.induct) (auto intro: window_step_ok step_window)

lemma reach_closed:
  assumes "ws_reach sha iso_time owner w w'" and "readSeal w = Some s"
  shows "readSeal w' = Some s \<and> ws_files w' = ws_files w"
  using assms by (induction rule: ws_reach.induct) (auto dest: window_step_closed [OF step_window])
section \<open>What a write, a push and an import leave\<close>

text \<open>A key's value as it reads back: what was given, where absent reads as \<open>null\<close>, its reference and its size.\<close>

definition entry_given :: "json option \<Rightarrow> string option \<Rightarrow> nat \<Rightarrow> state_entry" where
  "entry_given v r n = \<lparr>en_value = or_else v JNull, en_ref = r, en_bytes = n\<rparr>"

definition read_back :: "job_owner \<Rightarrow> string \<Rightarrow> workspace \<Rightarrow> state_entry option" where
  "read_back owner path w = state_get (ws_store w) (fst owner, snd owner, path)"

lemma read_back_put:
  "read_back owner other (put_working owner now path v r n w) = (if other = path then Some (entry_given v r n) else read_back owner other w)"
proof -
  have "ws_store (put_working owner now path v r n w) = state_put now (fst owner, snd owner, path) (entry_given v r n) (ws_store w)"
    by (simp add: put_working_def entry_given_def state_put_def putState_def)
  then show ?thesis by (simp add: read_back_def state_table.get_put_same state_table.get_put_other)
qed

lemma read_back_cong: "ws_store w' = ws_store w \<Longrightarrow> read_back owner path w' = read_back owner path w"
  by (simp add: read_back_def)

lemma snapshot_put_seed:
  "seedSnapshot path (put_seed now sw w) = (if path = sm_path (sw_meta sw)
     then Some \<lparr>se_meta = sw_meta sw, se_content = sw_content sw, se_ref = sw_ref sw, se_at = now\<rparr> else seedSnapshot path w)"
proof (cases "path = sm_path (sw_meta sw)")
  case True
  have u: "r\<lparr>se_meta := sw_meta sw, se_content := sw_content sw, se_ref := sw_ref sw, se_at := now\<rparr>
      = \<lparr>se_meta = sw_meta sw, se_content = sw_content sw, se_ref = sw_ref sw, se_at = now\<rparr>" for r :: seed_row by (cases r) simp
  show ?thesis unfolding seedSnapshot_def put_seed_def True
    by (simp add: get_row_upsert_same u split: option.split)
next
  case False
  then show ?thesis unfolding seedSnapshot_def put_seed_def by (simp add: get_row_upsert_other)
qed

lemma written_pair:
  assumes "writeSeedFile sha iso_time owner now sw w = (Seed_Ok True file, w')"
  shows "file = sw_meta sw
    \<and> seedSnapshot path w' = (if path = sm_path file then Some \<lparr>se_meta = file, se_content = sw_content sw, se_ref = sw_ref sw, se_at = now\<rparr> else seedSnapshot path w)
    \<and> read_back owner path w' = (if path = sm_path file then Some (entry_given (sw_value sw) (sw_wref sw) (sw_wbytes sw)) else read_back owner path w)"
  using assms
proof (cases rule: write_cases)
  case (written)
  have "seedSnapshot path w' = seedSnapshot path (put_seed now sw w)" by (simp add: written with_seed_def seedSnapshot_def)
  moreover have "read_back owner path (put_seed now sw w) = read_back owner path w" by (rule read_back_cong) simp
  ultimately show ?thesis using written by (simp add: snapshot_put_seed with_seed_def read_back_put)
qed simp_all

lemma unwritten:
  assumes "writeSeedFile sha iso_time owner now sw w = (r, w')" and "r \<noteq> Seed_Ok True (sw_meta sw)"
  shows "ws_files w' = ws_files w \<and> ws_store w' = ws_store w"
  using assms(1) by (cases rule: write_cases) (use assms(2) in simp_all)

lemma read_back_excerpt [simp]: "read_back owner path (put_excerpt r w) = read_back owner path w"
  by (simp add: read_back_def)

lemma read_back_import:
  assumes "distinct (map ifr_path rows)"
  shows "read_back owner path (fold (put_import_row owner now) rows w) =
    (case get_row (\<lambda>r. ifr_path r = path) rows of
       Some r \<Rightarrow> Some (entry_given (ifr_value r) (ifr_ref r) (ifr_bytes r))
     | None \<Rightarrow> read_back owner path w)"
  using assms
proof (induction rows arbitrary: w)
  case (Cons r rows)
  have "get_row (\<lambda>x. ifr_path x = path) rows = None" if "ifr_path r = path"
    using Cons.prems that by (auto simp: table_simps image_iff)
  with Cons show ?case by (auto simp: put_import_row_def read_back_put split: option.split)
qed simp

lemma import_whole:
  assumes c: "commitImport iso_time owner imp now w = (Import_Ok True rec h, w')" and d: "distinct (map ifr_path (iq_rows imp))"
  shows "readImport w = None \<and> agentStarted w = None \<and> (\<forall>p\<in>set (map ifr_path (iq_rows imp)). p \<notin> seededPaths w)
    \<and> readImport w' = Some (rec, iq_digest imp)
    \<and> read_back owner path w' = (case get_row (\<lambda>r. ifr_path r = path) (iq_rows imp) of
        Some r \<Rightarrow> Some (entry_given (ifr_value r) (ifr_ref r) (ifr_bytes r)) | None \<Rightarrow> read_back owner path w)"
proof -
  have n: "importDecided iso_time (iq_digest imp) (map ifr_path (iq_rows imp)) w = None"
    using c by (auto simp: commitImport_def importDecided_def split: option.splits if_splits)
  then have pre: "readImport w = None" "agentStarted w = None" "\<forall>p\<in>set (map ifr_path (iq_rows imp)). p \<notin> seededPaths w"
    by (auto simp: importDecided_def find_None_iff split: option.splits prod.splits)
  obtain l dd where l: "(if iq_instructions imp then (None, ws_in w) else liftHold By_Import now (ws_in w)) = (l, dd)" by fastforce
  have post: "readImport w' = Some (rec, iq_digest imp)" "ws_store w' = ws_store (fold (put_import_row owner now) (iq_rows imp) w)"
    using c n l by (auto simp: commitImport_def Let_def readImport_def split: if_splits prod.splits)
  show ?thesis using pre post(1) read_back_cong [OF post(2)] read_back_import [OF d] by simp
qed

lemma import_refused: "commitImport iso_time owner imp now w = (r, w') \<Longrightarrow> (\<nexists>rec h. r = Import_Ok True rec h) \<Longrightarrow> w' = w"
  by (auto simp: commitImport_def Let_def split: option.splits prod.splits)

text \<open>After the import its row stays, but for the word that its instructions were applied.\<close>

definition same_import :: "workspace \<Rightarrow> workspace \<Rightarrow> bool" where
  "same_import w w' \<longleftrightarrow> (case ws_import w of None \<Rightarrow> True
     | Some r \<Rightarrow> (\<exists>i. ws_import w' = Some (r\<lparr>im_instr := i\<rparr>)))"

lemma same_row: "\<exists>i. r = r\<lparr>im_instr := i\<rparr>" for r :: import_row
  by (rule exI [of _ "im_instr r"]) simp

lemma same_import_refl: "ws_import w' = ws_import w \<Longrightarrow> same_import w w'"
  by (cases "ws_import w") (auto simp: same_import_def same_row)

lemma same_import_trans: "same_import w w1 \<Longrightarrow> same_import w1 w2 \<Longrightarrow> same_import w w2"
  by (auto simp: same_import_def split: option.splits)

lemma step_import:
  assumes "ws_step sha iso_time owner w w'"
  shows "same_import w w'"
  using assms
proof (induction rule: ws_step.induct)
  case (seed now sw w r w')
  from seed show ?case by (cases rule: write_cases) (auto intro!: same_import_refl simp: with_seed_def)
next
  case (import_files imp now w r w')
  show ?case
  proof (cases "ws_import w")
    case (Some x)
    then have "importDecided iso_time (iq_digest imp) (map ifr_path (iq_rows imp)) w \<noteq> None" by (simp add: importDecided_def readImport_def)
    with import_files have "w' = w" by (auto simp: commitImport_def)
    then show ?thesis by (simp add: same_import_refl)
  qed (simp add: same_import_def)
next
  case (applied migration now w h w')
  obtain l w1 where m: "markInstructionsApplied migration now w = (l, w1)" by fastforce
  have "same_import w w1"
  proof (cases "ws_import w")
    case (Some r)
    let ?i = "if im_migration r = migration \<and> im_instr r = Pending_Instructions then Applied_Instructions else im_instr r"
    have "ws_import w1 = Some (r\<lparr>im_instr := ?i\<rparr>)"
      using m Some by (auto simp: markInstructionsApplied_def Let_def split: if_splits prod.splits)
    with Some show ?thesis unfolding same_import_def by (simp only: option.case) blast
  qed (simp add: same_import_def)
  moreover have "ws_import w' = ws_import w1" using applied m by (auto simp: importInstructionsApplied_def split: option.splits)
  ultimately show ?case by (cases "ws_import w") (simp_all add: same_import_def)
qed (auto intro!: same_import_refl dest: wait_tables)

lemma reach_import: "ws_reach sha iso_time owner w w' \<Longrightarrow> same_import w w'"
  by (induction rule: ws_reach.induct) (auto intro: same_import_refl same_import_trans step_import)

lemma imported_again:
  assumes "same_import w w'" and "readImport w = Some (rec, digest)"
  shows "\<exists>i. importDecided iso_time digest' paths w' = Some (if digest' = digest then Import_Ok False (rec\<lparr>ir_instr := i\<rparr>) None
    else Import_Refused Already_Imported (''this agent'' @ [CHR 0x27] @ ''s workspace was imported already (migrationId '' @ ir_migration rec
      @ '', '' @ iso_time (ir_at rec) @ ''); an import happens once''))"
proof -
  obtain r where r: "ws_import w = Some r" "rec = record_of r" "digest = im_digest r" using assms(2) by (auto simp: readImport_def)
  with assms(1) obtain i where "ws_import w' = Some (r\<lparr>im_instr := i\<rparr>)" by (auto simp: same_import_def)
  then show ?thesis by (intro exI [of _ i]) (auto simp: importDecided_def readImport_def r record_of_def)
qed

text \<open>The keys uploaded: every file's that was reached, kept when the rows are made and when an upload throws.\<close>

lemma import_rows_ups:
  "snd (import_rows env attempt excerpt (f # fs) ups) =
    (let key = spillKey (we_owner env) attempt (gf_sha f); ups1 = (if key \<in> set ups then ups else ups @ [key]) in
     if importInline (gf_text f) then snd (import_rows env attempt excerpt fs ups)
     else if we_upload env key (stringify (JStr (gf_text f))) = None then ups1 else snd (import_rows env attempt excerpt fs ups1))"
  by (auto simp: Let_def split: prod.split option.split)

lemma import_rows_keeps: "set ups \<subseteq> set (snd (import_rows env attempt excerpt fs ups))"
proof (induction fs arbitrary: ups)
  case (Cons f fs)
  let ?key = "spillKey (we_owner env) attempt (gf_sha f)"
  from Cons.IH [of "ups @ [?key]"] Cons.IH [of ups] show ?case unfolding import_rows_ups by (auto simp: Let_def)
qed simp

lemma import_rows_reached:
  assumes "\<forall>g\<in>set before. importInline (gf_text g) \<or> we_upload env (spillKey (we_owner env) attempt (gf_sha g)) (stringify (JStr (gf_text g))) \<noteq> None"
    and "\<not> importInline (gf_text f)"
  shows "spillKey (we_owner env) attempt (gf_sha f) \<in> set (snd (import_rows env attempt excerpt (before @ f # after) ups))"
  using assms(1)
proof (induction before arbitrary: ups)
  case Nil
  let ?k = "spillKey (we_owner env) attempt (gf_sha f)"
  have "?k \<in> set (snd (import_rows env attempt excerpt after (if ?k \<in> set ups then ups else ups @ [?k])))"
    using import_rows_keeps [of "if ?k \<in> set ups then ups else ups @ [?k]"] by fastforce
  then show ?case unfolding append_Nil import_rows_ups by (simp add: Let_def assms(2))
next
  case (Cons g before)
  from Cons show ?case unfolding append_Cons import_rows_ups by (auto simp: Let_def)
qed

lemma decided_not_new: "importDecided iso_time digest paths w = Some r \<Longrightarrow> r \<noteq> Import_Ok True rec h"
  by (auto simp: importDecided_def split: option.splits if_splits)

lemma import_not_landed:
  assumes i: "importWorkspace env attempt excerpt during breaks now migration digest instructions files w = (r, gone, w')"
    and n: "\<nexists>rec h. r = Some (Import_Ok True rec h)"
  shows "(w' = w \<and> gone = ([], None)) \<or> (w' = during w \<and> gone = drop_uploaded env (snd (import_rows env attempt excerpt files [])))"
proof (cases "loadAgent (fst (we_owner env)) (snd (we_owner env)) (ws_store w) = None \<or> importDecided (we_iso env) digest (map gf_path files) w \<noteq> None")
  case True
  with i show ?thesis by (auto simp: importWorkspace_def split: option.splits if_splits)
next
  case False
  obtain rows ups where u: "import_rows env attempt excerpt files [] = (rows, ups)" by fastforce
  show ?thesis
  proof (cases "rows = None \<or> breaks")
    case True
    with i u False show ?thesis by (auto simp: importWorkspace_def Let_def split: option.splits)
  next
    case go: False
    then obtain rs where rs: "rows = Some rs" by auto
    define imp where "imp = \<lparr>iq_migration = migration, iq_digest = digest,
      iq_files = map (\<lambda>f. \<lparr>if_path = gf_path f, if_bytes = gf_bytes f, if_sha = gf_sha f\<rparr>) files, iq_rows = rs, iq_instructions = instructions\<rparr>"
    obtain c w2 where c: "commitImport (we_iso env) (we_owner env) imp now (during w) = (c, w2)" by fastforce
    have e: "r = Some c" "gone = (case c of Import_Ok True _ _ \<Rightarrow> ([], None) | _ \<Rightarrow> drop_uploaded env ups)"
      "w' = (case c of Import_Ok _ _ (Some h) \<Rightarrow> w2\<lparr>ws_in := holdEnded (we_owner env) now h (ws_in w2)\<rparr> | _ \<Rightarrow> w2)"
      using i u False go rs c unfolding importWorkspace_def by (auto simp: Let_def imp_def split: option.splits)
    have new: "c \<noteq> Import_Ok True rec h" for rec h using n e(1) by auto
    have w2: "w2 = during w" using import_refused [OF c] new by auto
    have "\<exists>rec. c = Import_Ok False rec None \<or> (\<exists>k m. c = Import_Refused k m)"
      using c new by (auto simp: commitImport_def importDecided_def Let_def split: option.splits if_splits prod.splits)
    with e w2 u show ?thesis by auto
  qed
qed

end
