(* ===== verification/Workspace_Cases.thy ===== *)
theory Workspace_Cases
  imports Workspace Inbound_Cases
begin

text \<open>
  What seeding and importing promise: the properties of \<open>Workspace\<close> with the runs they are tried on, how a push closes the window, and a
  run in which a push the model never sees keeps an import out.
\<close>

section \<open>Lemmas\<close>

lemma take_push_routed: "take_push owner running p result d = (Some a, d') \<Longrightarrow> \<not> ra_unrouted a"
  by (auto simp: take_push_def Let_def end_push_def split: if_splits option.splits hook_result.splits)

lemma end_push_routed: "apfst Some (end_push owner p oc re k d) = (Some a, d') \<Longrightarrow> \<not> ra_unrouted a"
  by (auto simp: end_push_def)

lemma unrouted_failed:
  assumes r: "receiveHook owner running p d = (Some a, d')" and u: "ra_unrouted a"
  shows "ra_outcome a = In_Failed"
proof (cases "\<not> hp_secret p \<and> hp_cached p")
  case True
  with r show ?thesis by (auto simp: receiveHook_def)
next
  case False
  note n = end_push_routed [of owner p _ _ _ d a d'] take_push_routed [of owner running p _ d a d']
  have False
  proof (cases "hp_answer p")
    case (Answer_Result result)
    with r False u n show ?thesis by (cases result) (auto simp: receiveHook_def split: if_splits)
  qed (use r False u n in \<open>auto simp: receiveHook_def split: if_splits\<close>)
  then show ?thesis ..
qed

lemma push_is_activity:
  assumes r: "receiveHook owner running p (ws_in w) = (Some a, d)" and o: "ra_outcome a = In_Delivered"
  shows "priorActivity (w\<lparr>ws_in := d\<rparr>) \<noteq> None"
proof -
  have "\<not> ra_unrouted a" using unrouted_failed [OF r] o by auto
  with receive_ends [OF r] o have "recorded_as p In_Delivered (ws_in w) d \<or> queued_as p (ws_in w) d" by (simp add: ends_as_def)
  then have "ib_queue d \<noteq> [] \<or> has_row (\<lambda>e. ie_outcome e = In_Delivered) (ib_events d)"
    by (auto simp: recorded_as_def queued_as_def has_row_iff)
  then show ?thesis by (simp add: priorActivity_def delivered_record_def)
qed

lemma spill_only_long: "writeSeedFile sha iso_time owner now sw w = (Seed_Refused Spill msg, w') \<Longrightarrow> too_long sw"
  by (auto simp: writeSeedFile_def Let_def split: if_splits option.splits)

lemma spilled_short: "spilled_seed env misfit path mode body = Some sw \<Longrightarrow> \<not> too_long sw"
  by (auto simp: spilled_seed_def too_long_def split: option.splits)

lemma spilled_uploads: "\<forall>k b. we_upload env k b \<noteq> None \<Longrightarrow> spilled_seed env misfit path mode body \<noteq> None"
  by (auto simp: spilled_seed_def split: option.splits)

lemma seed_write_answers:
  assumes up: "\<forall>k b. we_upload env k b \<noteq> None"
  shows "fst (seedWrite env during1 during2 now misfit path mode body w) \<noteq> None"
proof -
  obtain sp where sp: "spilled_seed env misfit path mode body = Some sp" using spilled_uploads [OF up] by fastforce
  have second: "store_seed env now sp w3 \<noteq> (Seed_Refused Spill msg, w')" for w3 msg w'
    using spill_only_long [of "we_sha env" "we_iso env" "we_owner env" now sp w3 msg w'] spilled_short [OF sp]
    by (auto simp: store_seed_def)
  let ?sw = "if guess_inline env misfit path mode body w then inline_seed env misfit path mode body else sp"
  obtain r w2 where f: "store_seed env now ?sw (during1 w) = (r, w2)" by fastforce
  obtain r3 w4 where g: "store_seed env now sp (during2 w2) = (r3, w4)" by fastforce
  have "\<nexists>msg. r3 = Seed_Refused Spill msg" using second [of "during2 w2" _ w4] g by auto
  then have "fst (case (r3, w4) of (Seed_Refused Spill _, w4) \<Rightarrow> (None, w4) | (r, w4) \<Rightarrow> (Some r, w4)) \<noteq> None"
    by (auto split: seed_result.split seed_code.split)
  with f g show ?thesis
    by (auto simp: seedWrite_def Let_def sp split: if_splits seed_result.split seed_code.split)
qed

lemma str_list_JStr [simp]: "str_list (map JStr ms) = Some ms"
  by (induction ms) (simp_all add: str_list_def str_of_def)

section \<open>Runs\<close>

definition plain_sha :: "string \<Rightarrow> string" where "plain_sha s = s"

definition plain_iso :: "int \<Rightarrow> string" where "plain_iso t = show_int t"

definition new_workspace :: workspace where
  "new_workspace = \<lparr>ws_in = inbound_none, ws_store = init_store, ws_files = [], ws_import = None, ws_excerpts = [], ws_started = None,
     ws_messages = False, ws_ended = False\<rparr>"

definition note_seed :: seed_write where
  "note_seed = \<lparr>sw_meta = \<lparr>sm_path = ''notes.md'', sm_mode = Writable, sm_bytes = 2, sm_sha = ''hi''\<rparr>, sw_content = Some ''hi'', sw_ref = None,
     sw_value = Some (JStr ''hi''), sw_wref = None, sw_wbytes = 4, sw_misfit = None\<rparr>"

definition seeded_workspace :: workspace where
  "seeded_workspace = snd (writeSeedFile plain_sha plain_iso hook_owner 3 note_seed new_workspace)"

definition sealed_workspace :: workspace where
  "sealed_workspace = seal_now plain_sha hook_owner Explicit 5 seeded_workspace"

lemma seeded_run: "writeSeedFile plain_sha plain_iso hook_owner 3 note_seed new_workspace = (Seed_Ok True (sw_meta note_seed), seeded_workspace)"
proof -
  have "fst (writeSeedFile plain_sha plain_iso hook_owner 3 note_seed new_workspace) = Seed_Ok True (sw_meta note_seed)"
    by (simp add: writeSeedFile_def Let_def readSeal_def priorActivity_def delivered_record_def has_row_def new_workspace_def inbound_none_def
        same_file_def seedSnapshot_def truthy_def note_seed_def too_long_def seedInline_def str_lit_def esc_char_def STATE_INLINE_MAX_def
        other_bytes_def SEED_AGENT_MAX_BYTES_def)
  then show ?thesis by (simp add: seeded_workspace_def prod_eq_iff)
qed

lemma seeded_eq: "seeded_workspace = with_seed hook_owner 3 note_seed new_workspace"
  using seeded_run by (cases rule: write_cases) simp_all

lemma sealed_files: "listSeedFiles sealed_workspace = [sw_meta note_seed]"
  by (simp add: sealed_workspace_def seeded_eq with_seed_def listSeedFiles_def put_seed_def new_workspace_def upsert_def has_row_def order_by_def)

lemma sealed_seal: "readSeal sealed_workspace \<noteq> None"
  by (simp add: sealed_workspace_def readSeal_seal_now)

lemma new_is_empty: "ws_files new_workspace = []" "readSeal new_workspace = None"
  by (simp_all add: new_workspace_def readSeal_def inbound_none_def)

lemma seeded_reach: "ws_reach plain_sha plain_iso hook_owner new_workspace sealed_workspace"
  unfolding sealed_workspace_def
  by (rule ws_reach.more [OF ws_reach.more [OF ws_reach.refl ws_step.seed [OF seeded_run]] ws_step.seal])

definition note_import :: import_request where
  "note_import = \<lparr>iq_migration = ''m1'', iq_digest = ''d1'', iq_files = [\<lparr>if_path = ''plan.md'', if_bytes = 2, if_sha = ''ok''\<rparr>],
     iq_rows = [\<lparr>ifr_path = ''plan.md'', ifr_value = Some (JStr ''ok''), ifr_ref = None, ifr_bytes = 4, ifr_excerpt = None\<rparr>], iq_instructions = False\<rparr>"

definition imported_workspace :: workspace where
  "imported_workspace = snd (commitImport plain_iso hook_owner note_import 7 new_workspace)"

definition note_record :: import_record where
  "note_record = \<lparr>ir_migration = ''m1'', ir_at = 7, ir_count = 1, ir_bytes = 2, ir_files = [\<lparr>if_path = ''plan.md'', if_bytes = 2, if_sha = ''ok''\<rparr>],
     ir_instr = No_Instructions\<rparr>"

lemma imported_run: "commitImport plain_iso hook_owner note_import 7 new_workspace = (Import_Ok True note_record None, imported_workspace)"
proof -
  have "fst (commitImport plain_iso hook_owner note_import 7 new_workspace) = Import_Ok True note_record None" by code_simp
  then show ?thesis by (simp add: imported_workspace_def prod_eq_iff)
qed

section \<open>Properties\<close>

text \<open>
  C18: In every workspace that came from an empty one, whatever order of seeding, sealing, pushes, imports and turns led to it, the seeded
  files are at most 2 MB together, each text kept in a row fits it, and a seal holds the manifest of the files as they still stand with a
  hash that can be computed again from what the seal says.
\<close>
theorem a_seal_can_always_be_checked:
  assumes "ws_reach sha iso_time owner w0 w" and "ws_files w0 = []" and "readSeal w0 = None"
  shows "sum_list (map (\<lambda>r. sm_bytes (se_meta r)) (ws_files w)) \<le> SEED_AGENT_MAX_BYTES
    \<and> (\<forall>r\<in>set (ws_files w). \<forall>c. se_content r = Some c \<longrightarrow> seedInline c)
    \<and> (\<forall>s. readSeal w = Some s \<longrightarrow> sl_manifest (ss_facts s) = manifest_json (listSeedFiles w)
        \<and> sl_sha (ss_facts s) = manifestSha256 sha (sl_manifest (ss_facts s)) (sl_tools (ss_facts s)))"
proof -
  have "ws_ok sha w0" using assms(2,3) by (simp add: ws_ok_def)
  from reach_ok [OF assms(1) this] show ?thesis by (simp add: ws_ok_def)
qed

theorem a_seal_can_always_be_checked_witness:
  "\<exists>s. readSeal sealed_workspace = Some s \<and> sl_manifest (ss_facts s) = manifest_json [sw_meta note_seed]"
proof -
  from a_seal_can_always_be_checked [OF seeded_reach new_is_empty]
  have "\<forall>s. readSeal sealed_workspace = Some s \<longrightarrow> sl_manifest (ss_facts s) = manifest_json (listSeedFiles sealed_workspace)" by blast
  with sealed_seal sealed_files show ?thesis by auto
qed

text \<open>
  C19: Once the window is closed it stays closed: the seal is never changed and no seeded file is added, replaced or taken away.
\<close>
theorem a_sealed_window_stays_closed:
  assumes "ws_reach sha iso_time owner w w'" and "readSeal w = Some s"
  shows "readSeal w' = Some s \<and> ws_files w' = ws_files w"
  using assms by (rule reach_closed)

theorem a_sealed_window_stays_closed_witness:
  "ws_files (snd (writeSeedFile plain_sha plain_iso hook_owner 9 (note_seed\<lparr>sw_content := Some ''x''\<rparr>) sealed_workspace)) = ws_files sealed_workspace"
proof -
  obtain r w' where r: "writeSeedFile plain_sha plain_iso hook_owner 9 (note_seed\<lparr>sw_content := Some ''x''\<rparr>) sealed_workspace = (r, w')" by fastforce
  obtain s where s: "readSeal sealed_workspace = Some s" using sealed_seal by auto
  from a_sealed_window_stays_closed [OF ws_reach.more [OF ws_reach.refl ws_step.seed [OF r]] s] show ?thesis by (simp add: r)
qed

text \<open>
  C20: A seeded file that was written reads back as it was given, snapshot and working copy both, and no other path changes in either.
\<close>
theorem a_seeded_file_reads_back:
  assumes "writeSeedFile sha iso_time owner now sw w = (Seed_Ok True file, w')"
  shows "file = sw_meta sw
    \<and> seedSnapshot path w' = (if path = sm_path file then Some \<lparr>se_meta = file, se_content = sw_content sw, se_ref = sw_ref sw, se_at = now\<rparr> else seedSnapshot path w)
    \<and> read_back owner path w' = (if path = sm_path file then Some (entry_given (sw_value sw) (sw_wref sw) (sw_wbytes sw)) else read_back owner path w)"
  using assms by (rule written_pair)

theorem a_seeded_file_reads_back_witness:
  "read_back hook_owner ''notes.md'' seeded_workspace = Some (entry_given (Some (JStr ''hi'')) None 4)"
  using a_seeded_file_reads_back [OF seeded_run, of "''notes.md''"] by (simp add: note_seed_def)

text \<open>
  An import that is made is the first, into an agent that has not started, over no seeded file; every file of it reads back as its
  row was given and every other key is untouched; and the record answered is the one kept.
\<close>
theorem an_import_is_whole:
  assumes "commitImport iso_time owner imp now w = (Import_Ok True rec h, w')" and "distinct (map ifr_path (iq_rows imp))"
  shows "readImport w = None \<and> agentStarted w = None \<and> (\<forall>p\<in>set (map ifr_path (iq_rows imp)). p \<notin> seededPaths w)
    \<and> readImport w' = Some (rec, iq_digest imp)
    \<and> read_back owner path w' = (case get_row (\<lambda>r. ifr_path r = path) (iq_rows imp) of
        Some r \<Rightarrow> Some (entry_given (ifr_value r) (ifr_ref r) (ifr_bytes r)) | None \<Rightarrow> read_back owner path w)"
  using assms by (rule import_whole)

theorem an_import_is_whole_witness:
  "read_back hook_owner ''plan.md'' imported_workspace = Some (entry_given (Some (JStr ''ok'')) None 4)"
  using an_import_is_whole [OF imported_run, of "''plan.md''"] by (simp add: note_import_def)

text \<open>
  An import happens once: from then on, whatever happens, the same request is answered with the same record (its instructions
  aside, which may have been applied) and changes nothing, and any other is refused and changes nothing.
\<close>
theorem an_import_happens_once:
  assumes "ws_reach sha iso_time owner w w'" and "readImport w = Some (rec, digest)"
  shows "\<exists>i msg. commitImport iso_time owner imp now w' =
    (if iq_digest imp = digest then Import_Ok False (rec\<lparr>ir_instr := i\<rparr>) None else Import_Refused Already_Imported msg, w')"
proof -
  obtain i where "importDecided iso_time (iq_digest imp) (map ifr_path (iq_rows imp)) w' = Some (if iq_digest imp = digest then Import_Ok False (rec\<lparr>ir_instr := i\<rparr>) None
    else Import_Refused Already_Imported (''this agent'' @ [CHR 0x27] @ ''s workspace was imported already (migrationId '' @ ir_migration rec
      @ '', '' @ iso_time (ir_at rec) @ ''); an import happens once''))"
    using imported_again [OF reach_import [OF assms(1)] assms(2)] by blast
  then show ?thesis by (auto simp: commitImport_def)
qed

theorem an_import_happens_once_witness:
  "\<exists>i. commitImport plain_iso hook_owner note_import 9 imported_workspace = (Import_Ok False (note_record\<lparr>ir_instr := i\<rparr>) None, imported_workspace)"
proof -
  have r: "readImport imported_workspace = Some (note_record, ''d1'')" by code_simp
  have "iq_digest note_import = ''d1''" by (simp add: note_import_def)
  with an_import_happens_once [OF ws_reach.refl [of plain_sha plain_iso hook_owner imported_workspace] r, of note_import 9] show ?thesis by simp
qed

text \<open>
  A push answered as delivered closes the window: no file can be seeded after it, whether or not its turn has begun, and the files
  stay as they were.
\<close>
theorem an_accepted_push_closes_the_window:
  assumes "receiveHook owner running p (ws_in w) = (Some a, d)" and "ra_outcome a = In_Delivered"
  shows "\<exists>msg w'. writeSeedFile sha iso_time owner now sw (w\<lparr>ws_in := d\<rparr>) = (Seed_Refused Sealed msg, w') \<and> ws_files w' = ws_files w"
proof -
  obtain msg w' where r: "writeSeedFile sha iso_time owner now sw (w\<lparr>ws_in := d\<rparr>) = (Seed_Refused Sealed msg, w')"
    using write_refused_after_activity [OF push_is_activity [OF assms]] by blast
  from unwritten [OF r] r show ?thesis by auto
qed

theorem an_accepted_push_closes_the_window_witness:
  "\<exists>msg w'. writeSeedFile plain_sha plain_iso hook_owner 9 note_seed (new_workspace\<lparr>ws_in := hook_push_at (Some ''k'') 1 inbound_none\<rparr>)
    = (Seed_Refused Sealed msg, w') \<and> ws_files w' = []"
proof -
  let ?a = "\<lparr>ra_outcome = In_Delivered, ra_unrouted = False, ra_retry = None\<rparr>"
  have "fst (receiveHook hook_owner False (hook_case (Some ''k'') 1) inbound_none) = Some ?a" by code_simp
  then have "receiveHook hook_owner False (hook_case (Some ''k'') 1) (ws_in new_workspace) = (Some ?a, hook_push_at (Some ''k'') 1 inbound_none)"
    by (simp add: new_workspace_def hook_push_at_def prod_eq_iff)
  from an_accepted_push_closes_the_window [OF this] show ?thesis by (simp add: new_workspace_def)
qed

text \<open>
  A file to seed is always answered when the object storage takes what is uploaded: the second try, with the text put there, is
  never told to spill again, whatever else happened to the object in between.
\<close>
theorem a_seed_write_is_answered:
  assumes "\<forall>k b. we_upload env k b \<noteq> None"
  shows "fst (seedWrite env during1 during2 now misfit path mode body w) \<noteq> None"
  using assms by (rule seed_write_answers)

definition plain_env :: ws_env where
  "plain_env = \<lparr>we_owner = hook_owner, we_sha = plain_sha, we_utf8 = length, we_iso = plain_iso, we_upload = (\<lambda>k b. Some k), we_delete = (\<lambda>ks. (ks, False))\<rparr>"

theorem a_seed_write_is_answered_witness:
  "fst (seedWrite plain_env (\<lambda>w. w) (\<lambda>w. w) 3 None ''notes.md'' Writable ''hi'' new_workspace) \<noteq> None"
  by (rule a_seed_write_is_answered) (simp add: plain_env_def)

text \<open>
  The tool choice a seal keeps reads back in its canonical form, the mounts sorted.
\<close>
theorem a_tool_choice_survives_its_seal:
  "toolConfigOf (JObj [(''toolConfig'', tool_json t)]) = Some (canonicalToolConfig t)"
proof -
  have m: "mounts_of (Some (case tc_mounts t of None \<Rightarrow> JNull | Some ms \<Rightarrow> JArr (map JStr ms))) = Some (tc_mounts t)"
    by (cases "tc_mounts t") (simp_all add: mounts_of_def)
  have h: "harness_of (Some (JStr (if tc_minimal t then ''minimal'' else ''default''))) = Some (tc_minimal t)"
    by (simp add: harness_of_def)
  have "canonicalToolConfig \<lparr>tc_mounts = tc_mounts t, tc_minimal = tc_minimal t\<rparr> = canonicalToolConfig t" by (simp add: canonicalToolConfig_def)
  then show ?thesis by (simp add: toolConfigOf_def tool_json_def m h)
qed





section \<open>Where the code departs from its comments\<close>

text \<open>
  An agent waits for its import. A push whose plugin takes it as a wake alone starts no turn and posts nothing, but its record says
  delivered, and the import is refused: the agent is said to have run.
\<close>
lemma a_wake_keeps_an_import_out:
  "let w = snd (placeImportHold 0 new_workspace);
       p = (hook_case (Some ''k'') 1)\<lparr>hp_answer := Answer_Result (Wake_Only ''an assistant decides'' (Some ''k''))\<rparr>;
       w1 = w\<lparr>ws_in := snd (receiveHook hook_owner False p (ws_in w))\<rparr> in
   ws_started w1 = None \<and> \<not> ws_messages w1 \<and> ib_posted (ws_in w1) = [] \<and> ib_queue (ws_in w1) = []
   \<and> fst (commitImport plain_iso hook_owner note_import 7 w1) = Import_Refused Agent_Active
       (''the agent has already run (a push was posted to it); an import never overwrites a live agent'' @ [CHR 0x27] @ ''s workspace'')"
  by code_simp

end
