(* ===== verification/Model_Jobs.thy ===== *)
theory Model_Jobs
  imports Usage Trace
begin

text \<open>
  The model calls of an agent on the durable engine: the tables of \<open>src/src/store/ap-store.ts\<close>, what \<open>PdHost\<close> of
  \<open>src/src/runtime/durable-agent.ts\<close> does with a job from its start to its end, and what a commit of the harness writes
  (\<open>src/src/runtime/pd-outbox.ts\<close>). The harness and its storage are vendored: a commit is the list of its writes. The lemmas show that a
  job is called by one attempt at a time, answered once, metered as the answer that was kept, and sent again until it is answered.
\<close>

section \<open>Tables\<close>

datatype agent_engine = Pi085 | Pd

fun engine_text :: "agent_engine \<Rightarrow> string" where
  "engine_text Pi085 = ''pi085''"
| "engine_text Pd = ''pd''"

definition engine_named :: "string \<Rightarrow> agent_engine option" where
  "engine_named v = (if v = ''pi085'' then Some Pi085 else if v = ''pd'' then Some Pd else None)"

text \<open>A message of the model, as an answer is stored and an entry holds it. \<open>an_payer_own\<close>: paid with the owner's own key.\<close>

record model_answer =
  an_role :: string
  an_stop :: stop_reason
  an_content :: "json list option"
  an_error :: "string option"
  an_provider_error :: "string option"
  an_model :: "string option"
  an_usage :: "token_usage option"
  an_payer_own :: bool
  an_job :: "string option"

datatype job_mark = Consumed | Cancelled

record model_job =
  mj_id :: string
  mj_conversation :: "int option"
  mj_request :: json
  mj_answer :: "model_answer option"
  mj_created :: int
  mj_dispatched :: "int option"
  mj_answered :: "int option"
  mj_state :: "job_mark option"
  mj_taken_at :: "int option"
  mj_taken_by :: "string option"

record ap_conversation =
  ac_task :: string
  ac_tenant :: string
  ac_agent :: string
  ac_conversation :: int
  ac_created :: int

datatype delivery_verdict = V_Accepted | V_Refused | V_Unknown

record delivery_row =
  dv_job :: string
  dv_taker :: string
  dv_verdict :: delivery_verdict
  dv_at :: int

record settled_run =
  sr_operation :: string
  sr_status :: string
  sr_at :: int

text \<open>
  The state of a task of the harness, as far as the hook reads it: the handle's id when the checkpoint is a \<open>poll\<close> with one, and how it
  ended. \<open>Failed\<close> has the reason of the error's detail.
\<close>

datatype task_outcome = Completed | Failed "string option" | Ended_Otherwise

record task_state =
  ts_poll :: "string option"
  ts_outcome :: "task_outcome option"

record staged_job =
  sj_request :: json
  sj_at :: int

record pd_db =
  pd_meta :: "(string \<times> string) list"
  pd_jobs :: "model_job list"
  pd_conversations :: "ap_conversation list"
  pd_settled :: "settled_run list"
  pd_deliveries :: "delivery_row list"
  pd_usage :: usage_db
  pd_trace :: "trace_row list"
  pd_tasks :: "(int \<times> task_state) list"
  pd_staged :: "(string \<times> staged_job) list"

definition is_job :: "string \<Rightarrow> model_job \<Rightarrow> bool" where
  "is_job i r \<longleftrightarrow> mj_id r = i"

section \<open>The engine of an agent and its conversations\<close>

datatype ap_error = Unknown_Engine string | Engine_Is agent_engine agent_engine | Listed_Already int | Bad_Field string

definition engine_of :: "pd_db \<Rightarrow> ap_error + agent_engine option" where
  "engine_of d = (case map_of (pd_meta d) ''engine'' of None \<Rightarrow> Inr None
     | Some v \<Rightarrow> (case engine_named v of None \<Rightarrow> Inl (Unknown_Engine v) | Some e \<Rightarrow> Inr (Some e)))"

definition set_meta :: "string \<Rightarrow> string \<Rightarrow> pd_db \<Rightarrow> pd_db" where
  "set_meta k v d = d\<lparr>pd_meta := upsert (\<lambda>m. fst m = k) (k, v) (\<lambda>_. (k, v)) (pd_meta d)\<rparr>"

definition setEngineOnce :: "agent_engine \<Rightarrow> pd_db \<Rightarrow> (ap_error + agent_engine option) \<times> pd_db" where
  "setEngineOnce e d =
     (let d1 = d\<lparr>pd_meta := insert_ignore (\<lambda>m. fst m = ''engine'') (''engine'', engine_text e) (pd_meta d)\<rparr> in (engine_of d1, d1))"

definition migrateEngine :: "agent_engine \<Rightarrow> agent_engine \<Rightarrow> pd_db \<Rightarrow> (ap_error + agent_engine option) \<times> pd_db" where
  "migrateEngine old new d =
     (case engine_of d of
        Inl e \<Rightarrow> (Inl e, d)
      | Inr now \<Rightarrow>
          let current = or_else now Pi085 in
          if current \<noteq> old then (Inl (Engine_Is current old), d)
          else
            let d1 = set_meta ''engine'' (engine_text new) d;
                d2 = (if new = Pd then set_meta ''migrated_from'' (engine_text old) d1
                      else d1\<lparr>pd_meta := delete_where (\<lambda>m. fst m = ''migrated_from'') (pd_meta d1)\<rparr>) in
            (engine_of d2, d2))"

definition migratedFrom :: "pd_db \<Rightarrow> string option" where
  "migratedFrom d = map_of (pd_meta d) ''migrated_from''"

definition conversation_of :: "string \<Rightarrow> pd_db \<Rightarrow> ap_conversation option" where
  "conversation_of task d = get_row (\<lambda>c. ac_task c = task) (pd_conversations d)"

text \<open>\<open>OR IGNORE\<close> passes over a row that clashes in either key.\<close>

definition openConversation :: "ap_conversation \<Rightarrow> pd_db \<Rightarrow> (ap_error + ap_conversation) \<times> pd_db" where
  "openConversation c d =
     (if ac_task c = [] then (Inl (Bad_Field ''taskId''), d)
      else if ac_tenant c = [] then (Inl (Bad_Field ''tenantId''), d)
      else if ac_agent c = [] then (Inl (Bad_Field ''agentId''), d)
      else
        let d1 = d\<lparr>pd_conversations := insert_ignore (\<lambda>x. ac_task x = ac_task c \<or> ac_conversation x = ac_conversation c) c (pd_conversations d)\<rparr> in
        (case conversation_of (ac_task c) d1 of None \<Rightarrow> Inl (Listed_Already (ac_conversation c)) | Some row \<Rightarrow> Inr row, d1))"

section \<open>What a commit of the harness writes\<close>

definition COMPACTION :: string where "COMPACTION = ''pi.compaction''"
definition SPEND_LIMIT_ERROR :: string where "SPEND_LIMIT_ERROR = ''usage limit reached (out of budget); see the turn'' @ [CHR 0x27] @ ''s error''"

text \<open>
  A task with its kind, conversation and new state; an entry with the messages of its \<open>model\<close> (\<open>None\<close>: not a list); a submission with
  its type and status.
\<close>

datatype pd_write =
    Task_Write int string int task_state
  | Entry_Write string "model_answer list option"
  | Submission_Write string bool string

definition assistantMessages :: "pd_write list \<Rightarrow> model_answer list" where
  "assistantMessages ws = concat (map (\<lambda>w. case w of
      Entry_Write kind (Some ms) \<Rightarrow> if kind = ''pi.assistant'' then filter (\<lambda>m. an_role m = ''assistant'') ms else []
    | _ \<Rightarrow> []) ws)"

definition pollHandles :: "pd_write list \<Rightarrow> pd_db \<Rightarrow> (string \<times> int) list" where
  "pollHandles ws d = concat (map (\<lambda>w. case w of
      Task_Write _ _ conv st \<Rightarrow> (case ts_poll st of Some i \<Rightarrow> if map_of (pd_staged d) i \<noteq> None then [(i, conv)] else [] | None \<Rightarrow> [])
    | _ \<Rightarrow> []) ws)"

definition storedPoll :: "int \<Rightarrow> pd_db \<Rightarrow> string option" where
  "storedPoll tid d = (case map_of (pd_tasks d) tid of None \<Rightarrow> None | Some st \<Rightarrow> ts_poll st)"

definition endedSummaryPolls :: "pd_write list \<Rightarrow> pd_db \<Rightarrow> string list" where
  "endedSummaryPolls ws d = concat (map (\<lambda>w. case w of
      Task_Write tid kind _ st \<Rightarrow>
        (case storedPoll tid d of Some i \<Rightarrow> if kind = COMPACTION \<and> ts_poll st \<noteq> Some i then [i] else [] | None \<Rightarrow> [])
    | _ \<Rightarrow> []) ws)"

definition endedWithoutResponse :: "task_state \<Rightarrow> bool" where
  "endedWithoutResponse st \<longleftrightarrow>
     (case ts_outcome st of None \<Rightarrow> False | Some Completed \<Rightarrow> False | Some (Failed reason) \<Rightarrow> reason \<noteq> Some ''model_error'' | Some Ended_Otherwise \<Rightarrow> True)"

definition unreadPolls :: "pd_write list \<Rightarrow> pd_db \<Rightarrow> string list" where
  "unreadPolls ws d = concat (map (\<lambda>w. case w of
      Task_Write tid _ _ st \<Rightarrow> if endedWithoutResponse st then (case storedPoll tid d of Some i \<Rightarrow> [i] | None \<Rightarrow> []) else []
    | _ \<Rightarrow> []) ws)"

definition mark_job :: "job_mark \<Rightarrow> bool \<Rightarrow> string \<Rightarrow> pd_db \<Rightarrow> pd_db" where
  "mark_job m only_answered i d =
     d\<lparr>pd_jobs := update_where (\<lambda>r. is_job i r \<and> mj_state r = None \<and> (only_answered \<longrightarrow> mj_answer r \<noteq> None)) (\<lambda>r. r\<lparr>mj_state := Some m\<rparr>) (pd_jobs d)\<rparr>"

definition cancelJob :: "string \<Rightarrow> pd_db \<Rightarrow> pd_db" where
  "cancelJob i d = mark_job Cancelled False i d"

definition record_job :: "int \<Rightarrow> string \<times> int \<Rightarrow> pd_db \<Rightarrow> pd_db" where
  "record_job now job d =
     (case map_of (pd_staged d) (fst job) of None \<Rightarrow> d
      | Some s \<Rightarrow> d\<lparr>pd_jobs := insert_ignore (is_job (fst job))
          \<lparr>mj_id = fst job, mj_conversation = Some (snd job), mj_request = sj_request s, mj_answer = None, mj_created = now, mj_dispatched = Some now,
           mj_answered = None, mj_state = None, mj_taken_at = None, mj_taken_by = None\<rparr> (pd_jobs d)\<rparr>)"

text \<open>The jobs the batch moves to consumed, each with its row at that moment; a second message naming one finds it consumed.\<close>

fun consume_jobs :: "model_answer list \<Rightarrow> pd_db \<Rightarrow> (string \<times> model_job) list \<times> pd_db" where
  "consume_jobs [] d = ([], d)"
| "consume_jobs (m # ms) d =
     (case an_job m of None \<Rightarrow> consume_jobs ms d
      | Some i \<Rightarrow>
          (case get_row (\<lambda>r. is_job i r \<and> mj_state r = None) (pd_jobs d) of None \<Rightarrow> consume_jobs ms d
           | Some r \<Rightarrow> (case consume_jobs ms (mark_job Consumed False i d) of (js, d') \<Rightarrow> ((i, r) # js, d'))))"

fun firstToolCall :: "json list \<Rightarrow> string option" where
  "firstToolCall [] = None"
| "firstToolCall (c # cs) =
     (case c of
        JObj kvs \<Rightarrow>
          (case (map_of kvs ''type'', map_of kvs ''name'') of
             (Some (JStr t), Some (JStr name)) \<Rightarrow> if t = ''toolCall'' \<and> name \<noteq> [] then Some name else firstToolCall cs
           | _ \<Rightarrow> firstToolCall cs)
      | _ \<Rightarrow> firstToolCall cs)"

definition spendLimitRefusal :: "model_answer \<Rightarrow> string option" where
  "spendLimitRefusal m = (if an_error m = Some SPEND_LIMIT_ERROR \<and> truthy (an_provider_error m) then an_provider_error m else None)"

definition sessionOfConversation :: "int option \<Rightarrow> pd_db \<Rightarrow> string option" where
  "sessionOfConversation conv d =
     (case conv of None \<Rightarrow> None | Some c \<Rightarrow> map_option ac_task (get_row (\<lambda>x. ac_conversation x = c) (pd_conversations d)))"

definition call_row :: "string \<times> string \<Rightarrow> int \<Rightarrow> pd_db \<Rightarrow> model_answer \<Rightarrow> string \<Rightarrow> model_job \<Rightarrow> trace_row" where
  "call_row owner now d m i r = modelCallRow
     \<lparr>mc_tenant = fst owner, mc_agent = snd owner, mc_job = i, mc_stop = an_stop m, mc_model = or_else (an_model m) ''unknown'', mc_at = now,
      mc_created = Some (mj_created r), mc_answered = mj_answered r, mc_prefix = None,
      mc_usage = map_option (\<lambda>u. \<lparr>us_input = tu_input u, us_output = tu_output u, us_cache_read = tu_cache_read u, us_cache_write = tu_cache_write u,
        us_reasoning = tu_reasoning u\<rparr>) (an_usage m),
      mc_limit = spendLimitRefusal m, mc_session = sessionOfConversation (mj_conversation r) d,
      mc_first_tool = (case an_content m of None \<Rightarrow> None | Some cs \<Rightarrow> firstToolCall cs), mc_turn = None\<rparr>"

fun call_rows :: "string \<times> string \<Rightarrow> int \<Rightarrow> pd_db \<Rightarrow> model_answer list \<Rightarrow> (string \<times> model_job) list \<Rightarrow> trace_row list" where
  "call_rows owner now d [] jobs = []"
| "call_rows owner now d (m # ms) jobs =
     (case an_job m of None \<Rightarrow> call_rows owner now d ms jobs
      | Some i \<Rightarrow>
          if \<not> answerEnded (an_stop m) then call_rows owner now d ms jobs
          else (case map_of jobs i of None \<Rightarrow> call_rows owner now d ms jobs
            | Some r \<Rightarrow> call_row owner now d m i r # call_rows owner now d ms (filter (\<lambda>x. fst x \<noteq> i) jobs)))"

definition bookCommit :: "string \<times> string \<Rightarrow> int \<Rightarrow> pd_write list \<Rightarrow> pd_db \<Rightarrow> string list \<times> pd_db" where
  "bookCommit owner now ws d =
     (let ids = pollHandles ws d;
          d1 = fold (record_job now) ids d;
          (jobs, d2) = consume_jobs (assistantMessages ws) d1;
          d3 = fold cancelJob (unreadPolls ws d) d2;
          d4 = fold (mark_job Consumed True) (endedSummaryPolls ws d) d3 in
      (map fst ids, d4\<lparr>pd_trace := pd_trace d4 @ call_rows owner now d4 (assistantMessages ws) jobs\<rparr>))"

definition recordSettledRuns :: "int \<Rightarrow> pd_write list \<Rightarrow> pd_db \<Rightarrow> pd_db" where
  "recordSettledRuns now ws d = fold (\<lambda>w d. case w of
      Submission_Write i True st \<Rightarrow> if st = ''done'' \<or> st = ''unanswered''
        then d\<lparr>pd_settled := insert_ignore (\<lambda>r. sr_operation r = i) \<lparr>sr_operation = i, sr_status = st, sr_at = now\<rparr> (pd_settled d)\<rparr> else d
    | _ \<Rightarrow> d) ws d"

text \<open>The batch itself, applied after the hook: the storage keeps the state of each task last written.\<close>

definition apply_tasks :: "pd_write list \<Rightarrow> pd_db \<Rightarrow> pd_db" where
  "apply_tasks ws d = fold (\<lambda>w d. case w of
      Task_Write tid _ _ st \<Rightarrow> d\<lparr>pd_tasks := upsert (\<lambda>x. fst x = tid) (tid, st) (\<lambda>_. (tid, st)) (pd_tasks d)\<rparr>
    | _ \<Rightarrow> d) ws d"

text \<open>A commit: the hook and the batch in one transaction; \<open>breaks\<close> says that it rolls back. The jobs it recorded are sent after it.\<close>

definition pd_commit :: "string \<times> string \<Rightarrow> int \<Rightarrow> bool \<Rightarrow> pd_write list \<Rightarrow> pd_db \<Rightarrow> string list \<times> pd_db" where
  "pd_commit owner now breaks ws d =
     (if breaks then ([], d)
      else case bookCommit owner now ws d of (ids, d1) \<Rightarrow> (ids, apply_tasks ws (recordSettledRuns now ws d1)))"

definition takeSettled :: "pd_db \<Rightarrow> (string \<times> string) list \<times> pd_db" where
  "takeSettled d = (map (\<lambda>r. (sr_operation r, sr_status r)) (pd_settled d), d\<lparr>pd_settled := []\<rparr>)"
section \<open>A job from its start to its answer\<close>

definition MODEL_CALL_DEADLINE_MS :: int where "MODEL_CALL_DEADLINE_MS = 10 * 60000"
definition REDELIVERY_MS :: int where "REDELIVERY_MS = 120000"
definition TAKE_HOLD_MS :: int where "TAKE_HOLD_MS = MODEL_CALL_DEADLINE_MS + 60000"
definition POLL_BACKSTOP_MS :: int where "POLL_BACKSTOP_MS = 300000"
definition DELIVERIES_KEEP_MS :: int where "DELIVERIES_KEEP_MS = 24 * 60 * 60000"
definition STAGED_MS :: int where "STAGED_MS = 10 * 60000"
definition UNACCEPTED_TOKENS :: string where "UNACCEPTED_TOKENS = ''model.tokens.unaccepted''"
definition PD_OVERFLOW_ERROR :: string where
  "PD_OVERFLOW_ERROR = ''model refused: the request does not fit the model'' @ [CHR 0x27]
     @ ''s context window (context_length_exceeded); see the turn'' @ [CHR 0x27] @ ''s error''"

text \<open>The provider's port starts a job: it is only staged. \<open>i\<close> is a fresh name.\<close>

definition startJob :: "int \<Rightarrow> string \<Rightarrow> json \<Rightarrow> pd_db \<Rightarrow> pd_db" where
  "startJob now i request d =
     d\<lparr>pd_staged := upsert (\<lambda>s. fst s = i) (i, \<lparr>sj_request = request, sj_at = now\<rparr>) (\<lambda>_. (i, \<lparr>sj_request = request, sj_at = now\<rparr>))
        (filter (\<lambda>s. now - STAGED_MS \<le> sj_at (snd s)) (pd_staged d))\<rparr>"

text \<open>A dispatch that was handed over is written down; one that failed leaves the row as it was.\<close>

definition mark_sent :: "int \<Rightarrow> string \<Rightarrow> pd_db \<Rightarrow> pd_db" where
  "mark_sent now i d = d\<lparr>pd_jobs := update_where (is_job i) (\<lambda>r. r\<lparr>mj_dispatched := Some now\<rparr>) (pd_jobs d)\<rparr>"

definition dispatch :: "bool \<Rightarrow> int \<Rightarrow> string \<Rightarrow> pd_db \<Rightarrow> bool \<times> pd_db" where
  "dispatch accepted now i d = (accepted, if accepted then mark_sent now i d else d)"

text \<open>
  After the commit: the jobs it recorded that have a row are no longer staged and are sent. \<open>ok\<close> says which the queue takes and \<open>at_ms\<close>
  when each was handed over.
\<close>

fun afterCommit :: "(string \<Rightarrow> bool) \<Rightarrow> (string \<Rightarrow> int) \<Rightarrow> string list \<Rightarrow> pd_db \<Rightarrow> pd_db" where
  "afterCommit ok at_ms [] d = d"
| "afterCommit ok at_ms (i # ids) d =
     (if \<not> has_row (is_job i) (pd_jobs d) then afterCommit ok at_ms ids d
      else afterCommit ok at_ms ids (snd (dispatch (ok i) (at_ms i) i (d\<lparr>pd_staged := filter (\<lambda>s. fst s \<noteq> i) (pd_staged d)\<rparr>))))"

definition is_out :: "model_job \<Rightarrow> bool" where
  "is_out r \<longleftrightarrow> mj_answer r = None \<and> mj_state r = None"

text \<open>Under no live take at \<open>now\<close>.\<close>

definition untaken :: "int \<Rightarrow> model_job \<Rightarrow> bool" where
  "untaken now r \<longleftrightarrow> (case mj_taken_at r of None \<Rightarrow> True | Some t \<Rightarrow> t \<le> now - TAKE_HOLD_MS)"

definition sweep_due :: "int \<Rightarrow> model_job \<Rightarrow> bool" where
  "sweep_due now r \<longleftrightarrow> is_out r \<and> (case mj_dispatched r of None \<Rightarrow> True | Some t \<Rightarrow> t \<le> now - REDELIVERY_MS) \<and> untaken now r"

definition sweep_ids :: "int \<Rightarrow> nat \<Rightarrow> pd_db \<Rightarrow> string list" where
  "sweep_ids now limit d = map mj_id (take limit (order_by mj_created (filter (sweep_due now) (pd_jobs d))))"

fun send_all :: "(string \<Rightarrow> bool) \<Rightarrow> (string \<Rightarrow> int) \<Rightarrow> string list \<Rightarrow> pd_db \<Rightarrow> nat \<times> pd_db" where
  "send_all ok at_ms [] d = (0, d)"
| "send_all ok at_ms (i # ids) d =
     (case dispatch (ok i) (at_ms i) i d of (sent, d1) \<Rightarrow>
        (case send_all ok at_ms ids d1 of (n, d2) \<Rightarrow> ((if sent then Suc n else n), d2)))"

definition sweep :: "(string \<Rightarrow> bool) \<Rightarrow> (string \<Rightarrow> int) \<Rightarrow> int \<Rightarrow> nat \<Rightarrow> pd_db \<Rightarrow> nat \<times> pd_db" where
  "sweep ok at_ms now limit d = send_all ok at_ms (sweep_ids now limit d) d"

text \<open>When the sweep must run again for one job, and for the earliest of them.\<close>

definition redeliver_at :: "int \<Rightarrow> model_job \<Rightarrow> int" where
  "redeliver_at now r =
     (let sent = (case mj_dispatched r of None \<Rightarrow> now | Some t \<Rightarrow> t + REDELIVERY_MS);
          due = (case mj_taken_at r of None \<Rightarrow> sent | Some t \<Rightarrow> max sent (t + TAKE_HOLD_MS)) in
      if now < due then due else now + REDELIVERY_MS)"

definition redeliveryDue :: "int \<Rightarrow> pd_db \<Rightarrow> int option" where
  "redeliveryDue now d =
     fold (\<lambda>r due. Some (case due of None \<Rightarrow> redeliver_at now r | Some t \<Rightarrow> min t (redeliver_at now r))) (filter is_out (pd_jobs d)) None"

text \<open>
  How long a step that parks sleeps: to the end of the earliest sleeper, or to the redelivery when that is sooner.
\<close>

definition park_ms :: "int \<Rightarrow> int option \<Rightarrow> int \<Rightarrow> int" where
  "park_ms parked_until due now = max 0 ((case due of None \<Rightarrow> parked_until | Some t \<Rightarrow> min parked_until t) - now)"

text \<open>
  The answer a poll reads. \<open>history\<close> is the reading of a failed answer as one whose history did not fit (\<open>overflowKind\<close>), against the
  job's own request.
\<close>

definition markOverflow :: "(model_answer \<Rightarrow> json \<Rightarrow> bool) \<Rightarrow> model_answer \<Rightarrow> json \<Rightarrow> model_answer" where
  "markOverflow history m request = (if an_stop m = SError \<and> history m request then m\<lparr>an_error := Some PD_OVERFLOW_ERROR\<rparr> else m)"

definition pollJob :: "(model_answer \<Rightarrow> json \<Rightarrow> bool) \<Rightarrow> string \<Rightarrow> pd_db \<Rightarrow> model_answer option" where
  "pollJob history i d =
     (case get_row (is_job i) (pd_jobs d) of None \<Rightarrow> None
      | Some r \<Rightarrow> map_option (\<lambda>m. markOverflow history m (mj_request r)) (mj_answer r))"

definition dropJob :: "string \<Rightarrow> pd_db \<Rightarrow> pd_db" where
  "dropJob i d = cancelJob i (d\<lparr>pd_staged := filter (\<lambda>s. fst s \<noteq> i) (pd_staged d)\<rparr>)"

text \<open>The tasks whose poll waits for a job that has an answer nothing has consumed: of one job, or of one task, when it is given.\<close>

definition wakeAnswered :: "string option \<Rightarrow> int option \<Rightarrow> pd_db \<Rightarrow> int list" where
  "wakeAnswered only_job only_task d =
     map fst (filter (\<lambda>(tid, st). (only_task = None \<or> only_task = Some tid) \<and> (case ts_poll st of None \<Rightarrow> False
         | Some i \<Rightarrow> (only_job = None \<or> only_job = Some i)
             \<and> has_row (\<lambda>r. is_job i r \<and> mj_answer r \<noteq> None \<and> mj_state r = None) (pd_jobs d))) (pd_tasks d))"

text \<open>The worker's question. \<open>None\<close>: there is no such job; \<open>Some None\<close>: nothing to call.\<close>

definition takeJob :: "string \<Rightarrow> string option \<Rightarrow> int \<Rightarrow> pd_db \<Rightarrow> json option option \<times> pd_db" where
  "takeJob i taker now d =
     (let won = (\<lambda>r. is_job i r \<and> is_out r \<and> untaken now r);
          row = get_row (is_job i) (pd_jobs d) in
      case taker of
        Some w \<Rightarrow>
          (case get_row won (pd_jobs d) of
             Some r \<Rightarrow> (Some (Some (mj_request r)),
               d\<lparr>pd_jobs := update_where won (\<lambda>r. r\<lparr>mj_taken_at := Some now, mj_taken_by := Some w\<rparr>) (pd_jobs d)\<rparr>)
           | None \<Rightarrow> (if row = None then None else Some None, d))
      | None \<Rightarrow> (case row of None \<Rightarrow> None | Some r \<Rightarrow> Some (if is_out r then Some (mj_request r) else None), d))"

definition releaseJob :: "string \<Rightarrow> string \<Rightarrow> pd_db \<Rightarrow> bool \<times> pd_db" where
  "releaseJob i taker d =
     (let mine = (\<lambda>r. is_job i r \<and> mj_taken_by r = Some taker) in
      (has_row mine (pd_jobs d), d\<lparr>pd_jobs := update_where mine (\<lambda>r. r\<lparr>mj_taken_at := None, mj_taken_by := None\<rparr>) (pd_jobs d)\<rparr>))"

definition deliveryRows :: "string \<times> string \<Rightarrow> int \<Rightarrow> model_answer \<Rightarrow> bool \<Rightarrow> usage_row list" where
  "deliveryRows owner now m accepted =
     (case an_usage m of None \<Rightarrow> []
      | Some u \<Rightarrow>
          let rows = modelTokenRows (now, fst owner, snd owner) (or_else (an_model m) ''unknown'') u (an_payer_own m) in
          if accepted then rows else map (\<lambda>r. r\<lparr>us_resource := UNACCEPTED_TOKENS\<rparr>) rows)"

definition meter :: "usage_row list \<Rightarrow> pd_db \<Rightarrow> pd_db" where
  "meter rows d = d\<lparr>pd_usage := appendUsage rows (pd_usage d)\<rparr>"

text \<open>The worker's answer, with the verdict on it. The tasks to wake are read after it (\<open>wakeAnswered\<close>).\<close>

definition seen_delivery :: "string \<Rightarrow> string option \<Rightarrow> pd_db \<Rightarrow> delivery_row option" where
  "seen_delivery i taker d = (case taker of None \<Rightarrow> None | Some w \<Rightarrow> get_row (\<lambda>v. dv_job v = i \<and> dv_taker v = w) (pd_deliveries d))"

definition keep_delivery :: "string \<Rightarrow> string option \<Rightarrow> delivery_verdict \<Rightarrow> int \<Rightarrow> pd_db \<Rightarrow> pd_db" where
  "keep_delivery i taker v now d =
     (case taker of None \<Rightarrow> d
      | Some w \<Rightarrow> d\<lparr>pd_deliveries := delete_where (\<lambda>x. dv_at x < now - DELIVERIES_KEEP_MS) (pd_deliveries d)
          @ [\<lparr>dv_job = i, dv_taker = w, dv_verdict = v, dv_at = now\<rparr>]\<rparr>)"

definition deliver :: "string \<times> string \<Rightarrow> string \<Rightarrow> model_answer \<Rightarrow> string option \<Rightarrow> int \<Rightarrow> pd_db \<Rightarrow> delivery_verdict \<times> pd_db" where
  "deliver owner i m taker now d =
     (case seen_delivery i taker d of
        Some v \<Rightarrow> (dv_verdict v, d)
      | None \<Rightarrow>
          let open_row = (\<lambda>r. is_job i r \<and> mj_answer r = None);
              won = has_row open_row (pd_jobs d);
              d1 = d\<lparr>pd_jobs := update_where open_row (\<lambda>r. r\<lparr>mj_answer := Some m, mj_answered := Some now\<rparr>) (pd_jobs d)\<rparr>;
              v = (if won then V_Accepted else if has_row (is_job i) (pd_jobs d1) then V_Refused else V_Unknown) in
          (v, keep_delivery i taker v now (meter (deliveryRows owner now m won) d1)))"

section \<open>Everything that happens to the tables\<close>

text \<open>\<open>Ev_Usage\<close>: rows of other work, which names its own resource.\<close>

datatype pd_event =
    Ev_Start string json
  | Ev_Commit bool "pd_write list"
  | Ev_Sent string
  | Ev_Take string "string option"
  | Ev_Release string string
  | Ev_Deliver string model_answer "string option"
  | Ev_Drop string
  | Ev_Settled
  | Ev_Usage "usage_row list"

fun pd_do :: "string \<times> string \<Rightarrow> int \<Rightarrow> pd_event \<Rightarrow> pd_db \<Rightarrow> pd_db" where
  "pd_do owner now (Ev_Start i request) d = startJob now i request d"
| "pd_do owner now (Ev_Commit breaks ws) d = snd (pd_commit owner now breaks ws d)"
| "pd_do owner now (Ev_Sent i) d = snd (dispatch True now i d)"
| "pd_do owner now (Ev_Take i taker) d = snd (takeJob i taker now d)"
| "pd_do owner now (Ev_Release i taker) d = snd (releaseJob i taker d)"
| "pd_do owner now (Ev_Deliver i m taker) d = snd (deliver owner i m taker now d)"
| "pd_do owner now (Ev_Drop i) d = dropJob i d"
| "pd_do owner now Ev_Settled d = snd (takeSettled d)"
| "pd_do owner now (Ev_Usage rows) d = meter (filter (\<lambda>r. us_resource r \<noteq> ''model.tokens'') rows) d"

definition pd_run :: "string \<times> string \<Rightarrow> (int \<times> pd_event) list \<Rightarrow> pd_db \<Rightarrow> pd_db" where
  "pd_run owner evs d = fold (\<lambda>(t, e). pd_do owner t e) evs d"

section \<open>How the table of jobs changes\<close>

text \<open>The rows there were, each changed by \<open>R\<close>, and new ones of the kind \<open>N\<close>.\<close>

definition follows :: "(model_job \<Rightarrow> model_job \<Rightarrow> bool) \<Rightarrow> (model_job \<Rightarrow> bool) \<Rightarrow> model_job list \<Rightarrow> model_job list \<Rightarrow> bool" where
  "follows R N rows rows' \<longleftrightarrow> (\<exists>f new. rows' = map f rows @ new \<and> (\<forall>r. R r (f r)) \<and> (\<forall>n\<in>set new. N n))"

lemma follows_update: "(\<And>r. R r r) \<Longrightarrow> (\<And>r. p r \<Longrightarrow> R r (f r)) \<Longrightarrow> follows R N rows (update_where p f rows)"
  unfolding follows_def update_where_def by (intro exI [of _ "\<lambda>r. if p r then f r else r"] exI [of _ "[]"]) simp

lemma follows_same: "(\<And>r. R r r) \<Longrightarrow> follows R N rows rows"
  unfolding follows_def by (intro exI [of _ id] exI [of _ "[]"]) simp

lemma follows_insert: "(\<And>r. R r r) \<Longrightarrow> N new \<Longrightarrow> follows R N rows (insert_ignore p new rows)"
  unfolding follows_def insert_ignore_def
  by (cases "has_row p rows") (force intro: exI [of _ id] exI [of _ "[]"] exI [of _ "[new]"])+

lemma follows_trans:
  assumes "follows R N a b" and "follows R N b c" and "\<And>x y z. R x y \<Longrightarrow> R y z \<Longrightarrow> R x z" and "\<And>x y. N x \<Longrightarrow> R x y \<Longrightarrow> N y"
  shows "follows R N a c"
proof -
  obtain f new where f: "b = map f a @ new" "\<forall>r. R r (f r)" "\<forall>n\<in>set new. N n" using assms(1) by (auto simp: follows_def)
  obtain g new' where g: "c = map g b @ new'" "\<forall>r. R r (g r)" "\<forall>n\<in>set new'. N n" using assms(2) by (auto simp: follows_def)
  have "c = map (g \<circ> f) a @ (map g new @ new')" by (simp add: f(1) g(1))
  moreover have "\<forall>r. R r ((g \<circ> f) r)" using assms(3) [OF f(2) [THEN spec] g(2) [THEN spec]] by simp
  moreover have "\<forall>n\<in>set (map g new @ new'). N n" using f(3) g(2,3) assms(4) by auto
  ultimately show ?thesis unfolding follows_def by blast
qed

lemma follows_get:
  assumes "follows R N rows rows'" and "\<And>r r'. R r r' \<Longrightarrow> mj_id r' = mj_id r" and "get_row (is_job i) rows = Some r"
  shows "\<exists>r'. get_row (is_job i) rows' = Some r' \<and> R r r'"
proof -
  obtain f new where f: "rows' = map f rows @ new" "\<forall>r. R r (f r)" using assms(1) by (auto simp: follows_def)
  have "get_row (is_job i) (map f rows) = map_option f (get_row (is_job i) rows)"
    using assms(2) [OF f(2) [THEN spec]] by (induction rows) (simp_all add: is_job_def)
  with f assms(3) show ?thesis by (simp add: get_row_append)
qed

lemma follows_mono: "follows R N a b \<Longrightarrow> (\<And>x y. R x y \<Longrightarrow> R' x y) \<Longrightarrow> (\<And>x. N x \<Longrightarrow> N' x) \<Longrightarrow> follows R' N' a b"
  unfolding follows_def by blast

text \<open>A change that never loses what was decided of a job, and one that only marks its end.\<close>

definition keeps :: "model_job \<Rightarrow> model_job \<Rightarrow> bool" where
  "keeps r r' \<longleftrightarrow> mj_id r' = mj_id r \<and> mj_request r' = mj_request r \<and> mj_created r' = mj_created r
     \<and> (mj_answer r \<noteq> None \<longrightarrow> mj_answer r' = mj_answer r \<and> mj_answered r' = mj_answered r)
     \<and> (mj_state r \<noteq> None \<longrightarrow> mj_state r' = mj_state r)"

definition only_marks :: "model_job \<Rightarrow> model_job \<Rightarrow> bool" where
  "only_marks r r' \<longleftrightarrow> keeps r r' \<and> mj_answer r' = mj_answer r \<and> mj_answered r' = mj_answered r
     \<and> mj_taken_at r' = mj_taken_at r \<and> mj_taken_by r' = mj_taken_by r"

definition unanswered :: "model_job \<Rightarrow> bool" where
  "unanswered r \<longleftrightarrow> mj_answer r = None \<and> mj_answered r = None"

lemma kept_row_refl [simp]: "keeps r r" by (simp add: keeps_def)
lemma kept_row_trans: "keeps a b \<Longrightarrow> keeps b c \<Longrightarrow> keeps a c" by (auto simp: keeps_def)
lemma kept_row_id: "keeps r r' \<Longrightarrow> mj_id r' = mj_id r" by (simp add: keeps_def)
lemma marks_refl [simp]: "only_marks r r" by (simp add: only_marks_def)
lemma marks_trans: "only_marks a b \<Longrightarrow> only_marks b c \<Longrightarrow> only_marks a c" using kept_row_trans by (auto simp: only_marks_def)
lemma marks_unanswered: "unanswered x \<Longrightarrow> only_marks x y \<Longrightarrow> unanswered y" by (simp add: unanswered_def only_marks_def)

abbreviation marked :: "pd_db \<Rightarrow> pd_db \<Rightarrow> bool" where
  "marked d d' \<equiv> follows only_marks unanswered (pd_jobs d) (pd_jobs d')"

lemma marked_trans: "marked a b \<Longrightarrow> marked b c \<Longrightarrow> marked a c"
  by (rule follows_trans [OF _ _ marks_trans marks_unanswered])

lemma marked_refl [simp]: "pd_jobs d' = pd_jobs d \<Longrightarrow> marked d d'"
  by (simp add: follows_same)

lemma marked_fold: "(\<And>x d. marked d (f x d)) \<Longrightarrow> marked d (fold f xs d)"
proof (induction xs arbitrary: d)
  case (Cons x xs)
  from marked_trans [OF Cons.prems Cons.IH [OF Cons.prems]] show ?case by simp
qed simp

lemma mark_job_marked: "marked d (mark_job m only_answered i d)"
  by (auto simp: mark_job_def intro!: follows_update simp: only_marks_def keeps_def)

lemma record_job_marked: "marked d (record_job now job d)"
  by (auto simp: record_job_def intro!: follows_insert simp: unanswered_def split: option.split)

lemma consume_marked: "marked d (snd (consume_jobs ms d))"
proof (induction ms d rule: consume_jobs.induct)
  case (2 m ms d)
  show ?case
  proof (cases "an_job m")
    case (Some i)
    show ?thesis
    proof (cases "get_row (\<lambda>r. is_job i r \<and> mj_state r = None) (pd_jobs d)")
      case s: (Some r)
      obtain js d' where c: "consume_jobs ms (mark_job Consumed False i d) = (js, d')" by fastforce
      from marked_trans [OF mark_job_marked 2(3) [OF Some s]] Some s c show ?thesis by simp
    qed (use 2(2) Some in simp)
  qed (use 2(1) in simp)
qed simp

lemma pd_commit_marked: "marked d (snd (pd_commit owner now breaks ws d))"
proof (cases breaks)
  case False
  have s: "pd_jobs (recordSettledRuns now ws x) = pd_jobs x" for x
    unfolding recordSettledRuns_def by (induction ws arbitrary: x) (auto split: pd_write.split bool.split)
  have t: "pd_jobs (apply_tasks ws x) = pd_jobs x" for x
    unfolding apply_tasks_def by (induction ws arbitrary: x) (auto split: pd_write.split)
  obtain jobs d2 where c: "consume_jobs (assistantMessages ws) (fold (record_job now) (pollHandles ws d) d) = (jobs, d2)" by fastforce
  have "marked d (fold (record_job now) (pollHandles ws d) d)" by (rule marked_fold [OF record_job_marked])
  then have "marked d d2" using consume_marked c marked_trans by (metis snd_conv)
  then have "marked d (fold cancelJob (unreadPolls ws d) d2)"
    by (rule marked_trans) (rule marked_fold, simp add: cancelJob_def mark_job_marked)
  then have "marked d (fold (mark_job Consumed True) (endedSummaryPolls ws d) (fold cancelJob (unreadPolls ws d) d2))"
    by (rule marked_trans) (rule marked_fold [OF mark_job_marked])
  with False show ?thesis by (simp add: pd_commit_def bookCommit_def Let_def c s t)
qed (simp add: pd_commit_def)
section \<open>One row for a job\<close>

definition jobs_ok :: "pd_db \<Rightarrow> bool" where
  "jobs_ok d \<longleftrightarrow> distinct (map mj_id (pd_jobs d))"

lemma jobs_ok_fold: "(\<And>x d. jobs_ok d \<Longrightarrow> jobs_ok (f x d)) \<Longrightarrow> jobs_ok d \<Longrightarrow> jobs_ok (fold f xs d)"
  by (induction xs arbitrary: d) simp_all

lemma jobs_ok_update: "jobs_ok d \<Longrightarrow> (\<And>r. mj_id (f r) = mj_id r) \<Longrightarrow> pd_jobs d' = update_where p f (pd_jobs d) \<Longrightarrow> jobs_ok d'"
  by (simp add: jobs_ok_def map_update_where)

lemma jobs_ok_mark: "jobs_ok d \<Longrightarrow> jobs_ok (mark_job m b i d)"
  by (rule jobs_ok_update [of d "\<lambda>r. r\<lparr>mj_state := Some m\<rparr>"]) (simp_all add: mark_job_def)

lemma jobs_ok_record: "jobs_ok d \<Longrightarrow> jobs_ok (record_job now job d)"
  by (auto simp: record_job_def jobs_ok_def is_job_def intro!: distinct_map_insert_ignore split: option.split)

lemma jobs_ok_consume: "jobs_ok d \<Longrightarrow> jobs_ok (snd (consume_jobs ms d))"
proof (induction ms d rule: consume_jobs.induct)
  case (2 m ms d)
  then show ?case using jobs_ok_mark by (fastforce split: option.split prod.splits)
qed simp

lemma settled_jobs [simp]: "pd_jobs (recordSettledRuns now ws x) = pd_jobs x"
  unfolding recordSettledRuns_def by (induction ws arbitrary: x) (auto split: pd_write.split bool.split)

lemma tasks_jobs [simp]: "pd_jobs (apply_tasks ws x) = pd_jobs x"
  unfolding apply_tasks_def by (induction ws arbitrary: x) (auto split: pd_write.split)

lemma jobs_ok_commit: "jobs_ok d \<Longrightarrow> jobs_ok (snd (pd_commit owner now breaks ws d))"
proof (cases breaks)
  case False
  assume d: "jobs_ok d"
  obtain jobs d2 where c: "consume_jobs (assistantMessages ws) (fold (record_job now) (pollHandles ws d) d) = (jobs, d2)" by fastforce
  have "jobs_ok (fold (record_job now) (pollHandles ws d) d)" by (rule jobs_ok_fold [OF jobs_ok_record d])
  from jobs_ok_consume [OF this, of "assistantMessages ws"] have "jobs_ok d2" by (simp add: c)
  then have "jobs_ok (fold (mark_job Consumed True) (endedSummaryPolls ws d) (fold cancelJob (unreadPolls ws d) d2))"
    by (intro jobs_ok_fold jobs_ok_mark) (simp_all add: cancelJob_def jobs_ok_mark)
  with False show ?thesis by (simp add: pd_commit_def bookCommit_def Let_def c jobs_ok_def)
qed (simp add: pd_commit_def)

lemma row_of_job: "jobs_ok d \<Longrightarrow> r \<in> set (pd_jobs d) \<Longrightarrow> get_row (is_job (mj_id r)) (pd_jobs d) = Some r"
  unfolding jobs_ok_def by (rule get_row_unique [of mj_id]) (simp_all add: is_job_def)

text \<open>With one row for a job, a statement under a condition finds that row or none.\<close>

lemma get_row_both:
  "distinct (map mj_id rows)
    \<Longrightarrow> get_row (\<lambda>r. is_job i r \<and> p r) rows = (case get_row (is_job i) rows of Some r \<Rightarrow> if p r then Some r else None | None \<Rightarrow> None)"
proof (induction rows)
  case (Cons r rows)
  have "is_job i r \<Longrightarrow> get_row (is_job i) rows = None" using Cons.prems by (auto simp: get_row_None_iff is_job_def) (metis imageI)
  with Cons show ?case by auto
qed simp

lemma get_row_where:
  "jobs_ok d \<Longrightarrow> get_row (\<lambda>r. is_job i r \<and> p r) (pd_jobs d)
    = (case get_row (is_job i) (pd_jobs d) of Some r \<Rightarrow> if p r then Some r else None | None \<Rightarrow> None)"
  unfolding jobs_ok_def by (rule get_row_both)

section \<open>What every event keeps\<close>

lemma take_follows: "follows keeps unanswered (pd_jobs d) (pd_jobs (snd (takeJob i taker now d)))"
  by (auto simp: takeJob_def Let_def keeps_def is_out_def split: option.split intro!: follows_update follows_same)

lemma deliver_jobs:
  "pd_jobs (snd (deliver owner i m taker now d)) =
    (if seen_delivery i taker d = None
     then update_where (\<lambda>r. is_job i r \<and> mj_answer r = None) (\<lambda>r. r\<lparr>mj_answer := Some m, mj_answered := Some now\<rparr>) (pd_jobs d) else pd_jobs d)"
  by (auto simp: deliver_def Let_def keep_delivery_def meter_def split: option.split)

lemma do_keeps: "follows keeps unanswered (pd_jobs d) (pd_jobs (pd_do owner now e d))"
proof (cases e)
  case (Ev_Commit breaks ws)
  have "follows only_marks unanswered (pd_jobs d) (pd_jobs (snd (pd_commit owner now breaks ws d)))" by (rule pd_commit_marked)
  then show ?thesis unfolding Ev_Commit pd_do.simps by (rule follows_mono) (simp_all add: only_marks_def)
next
  case (Ev_Deliver i m taker)
  then show ?thesis by (auto simp: deliver_jobs intro!: follows_update follows_same) (simp add: keeps_def)
qed (auto simp: take_follows startJob_def dispatch_def mark_sent_def releaseJob_def Let_def dropJob_def cancelJob_def mark_job_def
       takeSettled_def meter_def intro!: follows_same follows_update simp: keeps_def)

lemma do_jobs_ok: "jobs_ok d \<Longrightarrow> jobs_ok (pd_do owner now e d)"
proof (cases e)
  case (Ev_Deliver i m taker)
  assume "jobs_ok d"
  with Ev_Deliver show ?thesis by (simp add: jobs_ok_def deliver_jobs map_update_where)
next
  case (Ev_Take i taker)
  assume "jobs_ok d"
  with Ev_Take show ?thesis by (auto simp: jobs_ok_def takeJob_def Let_def map_update_where split: option.split)
next
  case (Ev_Commit breaks ws)
  assume "jobs_ok d"
  from jobs_ok_commit [OF this] Ev_Commit show ?thesis by simp
qed (simp_all add: startJob_def jobs_ok_def dispatch_def mark_sent_def releaseJob_def Let_def dropJob_def cancelJob_def mark_job_def
       takeSettled_def meter_def map_update_where)

lemma run_jobs_ok: "jobs_ok d \<Longrightarrow> jobs_ok (pd_run owner evs d)"
  unfolding pd_run_def by (rule jobs_ok_fold) (auto simp: do_jobs_ok)

lemma run_keeps:
  assumes "get_row (is_job i) (pd_jobs d) = Some r"
  shows "\<exists>r'. get_row (is_job i) (pd_jobs (pd_run owner evs d)) = Some r' \<and> keeps r r'"
  using assms unfolding pd_run_def
proof (induction evs arbitrary: d r)
  case (Cons ev evs)
  obtain t e where ev: "ev = (t, e)" by fastforce
  from follows_get [OF do_keeps kept_row_id Cons.prems, of owner t e] obtain r1
    where r1: "get_row (is_job i) (pd_jobs (pd_do owner t e d)) = Some r1" "keeps r r1" by blast
  from Cons.IH [OF r1(1)] r1(2) show ?case by (auto simp: ev intro: kept_row_trans)
qed (auto intro: exI [of _ r])
section \<open>One attempt at a time\<close>

definition took :: "json option option \<Rightarrow> bool" where
  "took a \<longleftrightarrow> (\<exists>request. a = Some (Some request))"

definition take_hold :: "string \<Rightarrow> int \<Rightarrow> string \<Rightarrow> pd_db \<Rightarrow> bool \<times> pd_db" where
  "take_hold i now w d = (case takeJob i (Some w) now d of (a, d') \<Rightarrow> (case a of Some (Some _) \<Rightarrow> True | _ \<Rightarrow> False, d'))"

definition job_held :: "string \<Rightarrow> pd_db \<Rightarrow> (string \<times> int) option" where
  "job_held i d = (case get_row (is_job i) (pd_jobs d) of None \<Rightarrow> None
     | Some r \<Rightarrow> (case (mj_taken_at r, mj_taken_by r) of (Some t, Some w) \<Rightarrow> Some (w, t + TAKE_HOLD_MS) | _ \<Rightarrow> None))"

lemma take_hold_unfold:
  assumes "jobs_ok d"
  shows "takeJob i (Some w) now d =
    (case get_row (is_job i) (pd_jobs d) of
       None \<Rightarrow> (None, d)
     | Some r \<Rightarrow> if is_out r \<and> untaken now r
         then (Some (Some (mj_request r)),
           d\<lparr>pd_jobs := update_where (\<lambda>r. is_job i r \<and> is_out r \<and> untaken now r) (\<lambda>r. r\<lparr>mj_taken_at := Some now, mj_taken_by := Some w\<rparr>) (pd_jobs d)\<rparr>)
         else (Some None, d))"
  using get_row_where [OF assms, of i "\<lambda>r. is_out r \<and> untaken now r"] by (auto simp: takeJob_def Let_def split: option.split)

lemma get_taken:
  assumes "jobs_ok d" and "get_row (is_job i) (pd_jobs d) = Some r" and "p r"
  shows "get_row (is_job i) (update_where (\<lambda>r. is_job i r \<and> p r) (\<lambda>r. r\<lparr>mj_taken_at := Some now, mj_taken_by := Some w\<rparr>) (pd_jobs d))
    = Some (r\<lparr>mj_taken_at := Some now, mj_taken_by := Some w\<rparr>)"
proof -
  have "is_job i r" using assms(2) by (auto dest: get_row_SomeD)
  then show ?thesis by (subst get_row_update_where) (auto simp: is_job_def assms)
qed

interpretation call_hold: timed_hold "take_hold i" "job_held i" jobs_ok TAKE_HOLD_MS for i
proof
  fix d d' :: pd_db and t w
  assume ok: "jobs_ok d" and "take_hold i t w d = (True, d')"
  then obtain r where r: "get_row (is_job i) (pd_jobs d) = Some r" "is_out r \<and> untaken t r"
    "d' = d\<lparr>pd_jobs := update_where (\<lambda>r. is_job i r \<and> is_out r \<and> untaken t r) (\<lambda>r. r\<lparr>mj_taken_at := Some t, mj_taken_by := Some w\<rparr>) (pd_jobs d)\<rparr>"
    by (auto simp: take_hold_def take_hold_unfold [OF ok] split: option.splits if_splits)
  from get_taken [OF ok r(1), where p = "\<lambda>r. is_out r \<and> untaken t r" and now = t and w = w] r(2,3)
  show "job_held i d' = Some (w, t + TAKE_HOLD_MS)" by (simp add: job_held_def)
next
  fix d :: pd_db and t u w w'
  assume "jobs_ok d" and "job_held i d = Some (w, u)" and "t < u" and "w' \<noteq> w"
  then show "take_hold i t w' d = (False, d)"
    by (auto simp: take_hold_def take_hold_unfold job_held_def untaken_def split: option.splits)
next
  fix d :: pd_db and t w
  assume "jobs_ok d"
  from do_jobs_ok [OF this, of undefined t "Ev_Take i (Some w)"] show "jobs_ok (snd (take_hold i t w d))"
    by (simp add: take_hold_def split_def)
qed

text \<open>What happens in the meantime leaves a take alone, short of its own taker giving it back.\<close>

lemma held_marks:
  assumes "follows only_marks unanswered (pd_jobs d) (pd_jobs d')" and "job_held i d = Some h"
  shows "job_held i d' = Some h"
proof -
  obtain r where r: "get_row (is_job i) (pd_jobs d) = Some r" using assms(2) by (auto simp: job_held_def split: option.splits)
  from follows_get [OF assms(1) _ r] obtain r' where "get_row (is_job i) (pd_jobs d') = Some r'" "only_marks r r'"
    by (auto simp: only_marks_def keeps_def)
  with r assms(2) show ?thesis by (simp add: job_held_def only_marks_def)
qed

lemma held_update:
  assumes "\<And>r. mj_id (f r) = mj_id r" and "\<And>r. is_job i r \<Longrightarrow> p r \<Longrightarrow> mj_taken_by r = Some w \<Longrightarrow> mj_taken_at (f r) = mj_taken_at r \<and> mj_taken_by (f r) = mj_taken_by r"
    and "pd_jobs d' = update_where p f (pd_jobs d)" and "job_held i d = Some (w, u)"
  shows "job_held i d' = Some (w, u)"
proof -
  obtain r where r: "get_row (is_job i) (pd_jobs d) = Some r" "mj_taken_by r = Some w" using assms(4) by (auto simp: job_held_def split: option.splits)
  have "is_job i r" using r(1) by (auto dest: get_row_SomeD)
  have "get_row (is_job i) (pd_jobs d') = map_option (\<lambda>r. if p r then f r else r) (get_row (is_job i) (pd_jobs d))"
    unfolding assms(3) by (rule get_row_update_where) (simp add: is_job_def assms(1))
  with r assms(2) [OF \<open>is_job i r\<close> _ r(2)] assms(4) show ?thesis by (auto simp: job_held_def split: option.splits if_splits)
qed

lemma event_leaves_hold:
  assumes "t < u" and "e \<noteq> Ev_Release i w" and "\<forall>v. e = Ev_Take i (Some v) \<longrightarrow> v \<noteq> w"
  shows "call_hold.leaves_hold i w u (pd_do owner t e)"
  unfolding call_hold.leaves_hold_def
proof (intro allI impI conjI do_jobs_ok)
  fix d assume ok: "jobs_ok d" and h: "job_held i d = Some (w, u)"
  show "job_held i (pd_do owner t e d) = Some (w, u)"
  proof (cases e)
    case (Ev_Take k taker)
    show ?thesis
    proof (cases "k = i \<and> taker \<noteq> None")
      case True
      then obtain v where v: "taker = Some v" by auto
      with assms(3) Ev_Take True have "v \<noteq> w" by simp
      from call_hold.held_refused [OF ok h assms(1) this] show ?thesis
        by (simp add: Ev_Take v True take_hold_def h split: prod.splits)
    next
      case False
      show ?thesis
      proof (cases "get_row (\<lambda>r. is_job k r \<and> is_out r \<and> untaken t r) (pd_jobs d) = None \<or> taker = None")
        case none: True
        then have "snd (takeJob k taker t d) = d" by (auto simp: takeJob_def Let_def split: option.split)
        then show ?thesis by (simp add: Ev_Take h)
      next
        case some: False
        with False obtain v where v: "taker = Some v" "k \<noteq> i" by auto
        show ?thesis
          by (rule held_update [OF _ _ _ h, of "\<lambda>r. r\<lparr>mj_taken_at := Some t, mj_taken_by := Some v\<rparr>" "\<lambda>r. is_job k r \<and> is_out r \<and> untaken t r"])
            (use some v in \<open>auto simp: Ev_Take takeJob_def Let_def is_job_def split: option.split\<close>)
      qed
    qed
  next
    case (Ev_Release k v)
    with assms(2) have "k \<noteq> i \<or> v \<noteq> w" by auto
    then show ?thesis
      by (intro held_update [OF _ _ _ h, of "\<lambda>r. r\<lparr>mj_taken_at := None, mj_taken_by := None\<rparr>" "\<lambda>r. is_job k r \<and> mj_taken_by r = Some v"])
        (auto simp: Ev_Release releaseJob_def Let_def is_job_def)
  next
    case (Ev_Deliver k m taker)
    show ?thesis
    proof (cases "seen_delivery k taker d")
      case None
      show ?thesis by (rule held_update [OF _ _ _ h, of "\<lambda>r. r\<lparr>mj_answer := Some m, mj_answered := Some t\<rparr>" "\<lambda>r. is_job k r \<and> mj_answer r = None"])
          (auto simp: Ev_Deliver deliver_jobs None)
    qed (use h in \<open>simp add: Ev_Deliver deliver_def\<close>)
  next
    case (Ev_Sent k)
    show ?thesis by (rule held_update [OF _ _ _ h, of "\<lambda>r. r\<lparr>mj_dispatched := Some t\<rparr>" "is_job k"]) (auto simp: Ev_Sent dispatch_def mark_sent_def)
  next
    case (Ev_Commit breaks ws)
    from held_marks [OF pd_commit_marked h, of owner t breaks ws] show ?thesis by (simp add: Ev_Commit)
  next
    case (Ev_Drop k)
    have "follows only_marks unanswered (pd_jobs d) (pd_jobs (dropJob k d))"
      using mark_job_marked [of "d\<lparr>pd_staged := filter (\<lambda>s. fst s \<noteq> k) (pd_staged d)\<rparr>" Cancelled False k] by (simp add: dropJob_def cancelJob_def)
    from held_marks [OF this h] show ?thesis by (simp add: Ev_Drop)
  qed (use h in \<open>simp_all add: job_held_def startJob_def takeSettled_def meter_def\<close>)
qed

lemma run_as_fold: "pd_run owner evs d = fold (\<lambda>f. f) (map (\<lambda>(t, e). pd_do owner t e) evs) d"
  by (simp add: pd_run_def fold_map comp_def split_def)

lemma one_attempt:
  assumes "jobs_ok d" and "takeJob i (Some w) t d = (Some (Some request), d')"
    and "\<forall>(u, e)\<in>set evs. u < t + TAKE_HOLD_MS \<and> e \<noteq> Ev_Release i w \<and> e \<noteq> Ev_Take i (Some w)"
    and "now < t + TAKE_HOLD_MS" and "w' \<noteq> w"
  shows "\<not> took (fst (takeJob i (Some w') now (pd_run owner evs d')))"
proof -
  have "take_hold i t w d = (True, d')" using assms(2) by (simp add: take_hold_def)
  moreover have "list_all (call_hold.leaves_hold i w (t + TAKE_HOLD_MS)) (map (\<lambda>(t, e). pd_do owner t e) evs)"
    unfolding list_all_iff
  proof
    fix f assume "f \<in> set (map (\<lambda>(t, e). pd_do owner t e) evs)"
    then obtain u e where e: "(u, e) \<in> set evs" "f = pd_do owner u e" by auto
    with assms(3) have "u < t + TAKE_HOLD_MS" "e \<noteq> Ev_Release i w" "\<forall>v. e = Ev_Take i (Some v) \<longrightarrow> v \<noteq> w" by auto
    from event_leaves_hold [OF this] show "call_hold.leaves_hold i w (t + TAKE_HOLD_MS) f" by (simp only: e(2))
  qed
  ultimately have "\<not> fst (take_hold i now w' (pd_run owner evs d'))"
    unfolding run_as_fold by (rule call_hold.one_holder [OF assms(1) _ _ assms(4,5)])
  then show ?thesis by (auto simp: take_hold_def took_def split: prod.splits option.splits)
qed
section \<open>An answer is kept\<close>

lemma answer_stays:
  assumes "get_row (is_job i) (pd_jobs d) = Some r" and "mj_answer r \<noteq> None"
  shows "\<exists>r'. get_row (is_job i) (pd_jobs (pd_run owner evs d)) = Some r' \<and> mj_answer r' = mj_answer r \<and> mj_answered r' = mj_answered r"
proof -
  obtain r' where "get_row (is_job i) (pd_jobs (pd_run owner evs d)) = Some r'" "keeps r r'" using run_keeps [OF assms(1), of owner evs] by blast
  with assms(2) show ?thesis by (intro exI [of _ r']) (simp add: keeps_def)
qed

lemma ended_not_out:
  assumes "jobs_ok d" and "get_row (is_job i) (pd_jobs d) = Some r" and "\<not> is_out r"
  shows "\<not> took (fst (takeJob i taker now d)) \<and> i \<notin> set (sweep_ids now limit d)"
proof
  show "\<not> took (fst (takeJob i taker now d))"
  proof (cases taker)
    case (Some w)
    from take_hold_unfold [OF assms(1), of i w now] assms(2,3) show ?thesis by (simp add: Some took_def)
  qed (use assms(2,3) in \<open>simp add: takeJob_def Let_def took_def\<close>)
  show "i \<notin> set (sweep_ids now limit d)"
  proof
    assume "i \<in> set (sweep_ids now limit d)"
    then obtain x where x: "x \<in> set (pd_jobs d)" "sweep_due now x" "i = mj_id x"
      unfolding sweep_ids_def by (auto dest!: in_set_takeD)
    with row_of_job [OF assms(1) x(1)] assms(2,3) show False by (simp add: sweep_due_def)
  qed
qed

lemma ended_stays_ended:
  assumes "jobs_ok d" and "get_row (is_job i) (pd_jobs d) = Some r" and "\<not> is_out r"
  shows "\<not> took (fst (takeJob i taker now (pd_run owner evs d))) \<and> i \<notin> set (sweep_ids now limit (pd_run owner evs d))"
proof -
  obtain r' where r': "get_row (is_job i) (pd_jobs (pd_run owner evs d)) = Some r'" "keeps r r'" using run_keeps [OF assms(2)] by blast
  have "\<not> is_out r'" using r'(2) assms(3) by (auto simp: is_out_def keeps_def)
  from ended_not_out [OF run_jobs_ok [OF assms(1)] r'(1) this] show ?thesis .
qed

text \<open>One delivery wins: the answer that is kept.\<close>

definition answered :: "string \<Rightarrow> pd_db \<Rightarrow> bool" where
  "answered i d \<longleftrightarrow> \<not> has_row (\<lambda>r. is_job i r \<and> mj_answer r = None) (pd_jobs d)"

definition give_answer :: "string \<times> string \<Rightarrow> string \<Rightarrow> model_answer \<times> int \<Rightarrow> pd_db \<Rightarrow> bool \<times> pd_db" where
  "give_answer owner i c d = (case deliver owner i (fst c) None (snd c) d of (v, d') \<Rightarrow> (v = V_Accepted, d'))"

lemma answered_after: "\<not> has_row (\<lambda>r. is_job i r \<and> mj_answer r = None)
    (update_where (\<lambda>r. is_job i r \<and> mj_answer r = None) (\<lambda>r. r\<lparr>mj_answer := Some m, mj_answered := Some t\<rparr>) rows)"
  by (rule update_where_clears) simp_all

interpretation kept_answer: one_winner "give_answer owner i" "answered i" for owner i
proof
  fix c and d d' :: pd_db
  assume "give_answer owner i c d = (True, d')"
  then have "pd_jobs d' = pd_jobs (snd (deliver owner i (fst c) None (snd c) d))" by (auto simp: give_answer_def split: prod.splits)
  then show "answered i d'" by (simp add: answered_def deliver_jobs seen_delivery_def answered_after)
next
  fix c and d :: pd_db
  assume "answered i d"
  then show "\<not> fst (give_answer owner i c d)"
    by (simp add: give_answer_def answered_def deliver_def seen_delivery_def Let_def split_def)
next
  fix c and d :: pd_db
  show "answered i (snd (give_answer owner i c d))"
    by (simp add: give_answer_def answered_def split_def deliver_jobs seen_delivery_def answered_after)
qed

section \<open>What is metered\<close>

definition cut_key :: "usage_row \<Rightarrow> usage_row" where
  "cut_key r = r\<lparr>us_key := take USAGE_KEY_MAX (us_key r)\<rparr>"

lemma append_rows:
  "map snd (usage_outbox (appendUsage rows u)) = map snd (usage_outbox u) @ map cut_key (filter (\<lambda>r. us_quantity r \<noteq> 0) rows)"
  unfolding appendUsage_def by (induction rows arbitrary: u) (simp_all add: append_usage_row_def cut_key_def)

text \<open>The tenant's tokens in the outbox, and those of the answers that are kept.\<close>

definition tenant_tokens :: "pd_db \<Rightarrow> usage_row list" where
  "tenant_tokens d = filter (\<lambda>r. us_resource r = ''model.tokens'') (map snd (usage_outbox (pd_usage d)))"

definition answer_tokens :: "string \<times> string \<Rightarrow> model_job \<Rightarrow> usage_row list" where
  "answer_tokens owner r = (case (mj_answer r, mj_answered r) of (Some m, Some t) \<Rightarrow> map cut_key (deliveryRows owner t m True) | _ \<Rightarrow> [])"

definition kept_tokens :: "string \<times> string \<Rightarrow> pd_db \<Rightarrow> usage_row list" where
  "kept_tokens owner d = concat (map (answer_tokens owner) (pd_jobs d))"

lemma counted_rows:
  "r \<in> set (map (\<lambda>(kind, n). usage_base base resource (key kind) (of_int (the n)) unit) (filter (\<lambda>(kind, n). n \<noteq> None \<and> n \<noteq> Some (0::int)) kinds))
    \<Longrightarrow> us_quantity r \<noteq> 0 \<and> us_resource r = resource"
  by (induction kinds; cases base) (auto simp: usage_base_def split: if_splits)

lemma token_rows: "r \<in> set (modelTokenRows base model u own) \<Longrightarrow> us_quantity r \<noteq> 0 \<and> us_resource r = ''model.tokens''"
  unfolding modelTokenRows_def Let_def by (rule counted_rows)

lemma delivery_rows:
  assumes "r \<in> set (deliveryRows owner now m b)"
  shows "us_quantity r \<noteq> 0 \<and> us_resource r = (if b then ''model.tokens'' else UNACCEPTED_TOKENS)"
proof (cases "an_usage m")
  case (Some u)
  let ?rows = "modelTokenRows (now, fst owner, snd owner) (or_else (an_model m) ''unknown'') u (an_payer_own m)"
  from assms Some obtain x where "x \<in> set ?rows" "r = (if b then x else x\<lparr>us_resource := UNACCEPTED_TOKENS\<rparr>)"
    unfolding deliveryRows_def Let_def by (cases b) auto
  with token_rows show ?thesis by auto
qed (use assms in \<open>simp add: deliveryRows_def\<close>)

lemma cut_key_resource [simp]: "us_resource (cut_key r) = us_resource r" by (simp add: cut_key_def)

lemma metered_rows:
  "tenant_tokens (meter (deliveryRows owner now m b) d) = tenant_tokens d @ (if b then map cut_key (deliveryRows owner now m True) else [])"
proof -
  have nz: "filter (\<lambda>r. us_quantity r \<noteq> 0) (deliveryRows owner now m b) = deliveryRows owner now m b"
    by (rule filter_True) (blast dest: delivery_rows)
  have "filter (\<lambda>r. us_resource r = ''model.tokens'') (map cut_key (deliveryRows owner now m b))
      = (if b then map cut_key (deliveryRows owner now m True) else [])"
  proof (cases b)
    case True
    have "\<forall>r\<in>set (map cut_key (deliveryRows owner now m b)). us_resource r = ''model.tokens''"
      using delivery_rows [of _ owner now m b] True by auto
    from filter_True [OF this] show ?thesis by (simp add: True)
  next
    case False
    have "\<forall>r\<in>set (map cut_key (deliveryRows owner now m b)). us_resource r \<noteq> ''model.tokens''"
      using delivery_rows [of _ owner now m b] False by (auto simp: UNACCEPTED_TOKENS_def)
    from filter_False [OF this] show ?thesis by (simp add: False)
  qed
  then show ?thesis by (simp add: tenant_tokens_def meter_def append_rows nz)
qed

lemma other_rows: "tenant_tokens (meter (filter (\<lambda>r. us_resource r \<noteq> ''model.tokens'') rows) d) = tenant_tokens d"
  by (auto simp: tenant_tokens_def meter_def append_rows filter_empty_conv)

lemma kept_follows:
  assumes "follows R unanswered (pd_jobs d) (pd_jobs d')" and "\<And>r r'. R r r' \<Longrightarrow> mj_answer r' = mj_answer r \<and> mj_answered r' = mj_answered r"
  shows "kept_tokens owner d' = kept_tokens owner d"
proof -
  obtain f new where f: "pd_jobs d' = map f (pd_jobs d) @ new" "\<forall>r. R r (f r)" "\<forall>n\<in>set new. unanswered n"
    using assms(1) by (auto simp: follows_def)
  have "concat (map (answer_tokens owner) new) = []" using f(3) by (simp add: answer_tokens_def unanswered_def)
  moreover have "answer_tokens owner (f r) = answer_tokens owner r" for r
    using assms(2) [OF f(2) [THEN spec], of r] by (simp add: answer_tokens_def)
  ultimately show ?thesis by (simp add: kept_tokens_def f(1) comp_def)
qed

lemma deliver_meters:
  assumes "jobs_ok d"
  shows "\<exists>new. mset (tenant_tokens (snd (deliver owner i m taker now d))) = mset (tenant_tokens d) + mset new
    \<and> mset (kept_tokens owner (snd (deliver owner i m taker now d))) = mset (kept_tokens owner d) + mset new"
proof (cases "seen_delivery i taker d")
  case (Some v)
  then show ?thesis by (intro exI [of _ "[]"]) (simp add: deliver_def)
next
  case None
  let ?p = "\<lambda>r. is_job i r \<and> mj_answer r = None" and ?f = "\<lambda>r. r\<lparr>mj_answer := Some m, mj_answered := Some now\<rparr>"
  let ?new = "if has_row ?p (pd_jobs d) then map cut_key (deliveryRows owner now m True) else []"
  have u: "pd_usage (keep_delivery i taker v now x) = pd_usage x" for v x by (simp add: keep_delivery_def split: option.split)
  have "tenant_tokens (snd (deliver owner i m taker now d)) = tenant_tokens d @ ?new"
    using metered_rows [of owner now m "has_row ?p (pd_jobs d)" "d\<lparr>pd_jobs := update_where ?p ?f (pd_jobs d)\<rparr>"]
    by (simp add: deliver_def None Let_def tenant_tokens_def u)
  moreover have "mset (concat (map (answer_tokens owner) (update_where ?p ?f rows)))
      = mset (concat (map (answer_tokens owner) rows)) + (if has_row ?p rows then mset (map cut_key (deliveryRows owner now m True)) else {#})"
    if "distinct (map mj_id rows)" for rows
    using that
  proof (induction rows)
    case (Cons r rows)
    have "\<not> has_row ?p rows" if "?p r" using Cons.prems that by (auto simp: has_row_iff is_job_def) (metis imageI)
    moreover from this have "update_where ?p ?f rows = rows" if "?p r" using that by (intro update_where_id) (auto simp: has_row_iff)
    ultimately show ?case using Cons by (auto simp: update_where_Cons answer_tokens_def has_row_def)
  qed (simp add: has_row_def)
  then have "mset (kept_tokens owner (snd (deliver owner i m taker now d))) = mset (kept_tokens owner d) + mset ?new"
    using assms by (simp add: kept_tokens_def deliver_jobs None jobs_ok_def)
  ultimately show ?thesis by (intro exI [of _ ?new]) simp
qed

lemma same_usage: "pd_usage d' = pd_usage d \<Longrightarrow> tenant_tokens d' = tenant_tokens d" by (simp add: tenant_tokens_def)

lemma commit_usage: "pd_usage (snd (pd_commit owner now breaks ws d)) = pd_usage d"
proof -
  have r: "pd_usage (fold (record_job now) ids x) = pd_usage x" for ids x
    by (induction ids arbitrary: x) (simp_all add: record_job_def split: option.split)
  have m: "pd_usage (fold (mark_job k b) ids x) = pd_usage x" for k b ids x by (induction ids arbitrary: x) (simp_all add: mark_job_def)
  have c: "pd_usage (snd (consume_jobs ms x)) = pd_usage x" for ms x
    by (induction ms x rule: consume_jobs.induct) (fastforce simp: mark_job_def split: option.split prod.splits)+
  have s: "pd_usage (recordSettledRuns now ws x) = pd_usage x" for x
    unfolding recordSettledRuns_def by (induction ws arbitrary: x) (auto split: pd_write.split bool.split)
  have t: "pd_usage (apply_tasks ws x) = pd_usage x" for x unfolding apply_tasks_def by (induction ws arbitrary: x) (auto split: pd_write.split)
  obtain jobs d2 where p: "consume_jobs (assistantMessages ws) (fold (record_job now) (pollHandles ws d) d) = (jobs, d2)" by fastforce
  have k: "cancelJob = mark_job Cancelled False" by (simp add: cancelJob_def fun_eq_iff)
  from c [of "assistantMessages ws" "fold (record_job now) (pollHandles ws d) d"] have "pd_usage d2 = pd_usage d" by (simp add: p r)
  then show ?thesis by (simp add: pd_commit_def bookCommit_def Let_def p s t k m)
qed

lemma event_meters:
  assumes "jobs_ok d" and "mset (tenant_tokens d) = mset (kept_tokens owner d)"
  shows "mset (tenant_tokens (pd_do owner now e d)) = mset (kept_tokens owner (pd_do owner now e d))"
proof (cases e)
  case (Ev_Deliver i m taker)
  from deliver_meters [OF assms(1), of owner i m taker now] assms(2) show ?thesis by (auto simp: Ev_Deliver)
next
  case (Ev_Usage rows)
  with assms(2) show ?thesis by (simp add: other_rows kept_tokens_def) (simp add: meter_def)
next
  case (Ev_Commit breaks ws)
  from kept_follows [OF pd_commit_marked, of owner owner now breaks ws d] assms(2) show ?thesis
    by (simp add: Ev_Commit same_usage [OF commit_usage] only_marks_def)
next
  case (Ev_Take i taker)
  let ?same = "\<lambda>r r'. mj_answer r' = mj_answer r \<and> mj_answered r' = mj_answered r"
  have "follows ?same unanswered (pd_jobs d) (pd_jobs (snd (takeJob i taker now d)))"
    by (auto simp: takeJob_def Let_def split: option.split intro!: follows_update follows_same)
  from kept_follows [OF this, of owner] assms(2) show ?thesis
    by (simp add: Ev_Take) (auto simp: takeJob_def Let_def tenant_tokens_def split: option.split)
next
  case (Ev_Sent i)
  have "kept_tokens owner (mark_sent now i d) = kept_tokens owner d"
    by (rule kept_follows [of "\<lambda>r r'. mj_answer r' = mj_answer r \<and> mj_answered r' = mj_answered r"])
      (auto simp: mark_sent_def intro!: follows_update)
  with assms(2) show ?thesis by (simp add: Ev_Sent dispatch_def) (simp add: tenant_tokens_def mark_sent_def)
next
  case (Ev_Release i w)
  have "kept_tokens owner (snd (releaseJob i w d)) = kept_tokens owner d"
    by (rule kept_follows [of "\<lambda>r r'. mj_answer r' = mj_answer r \<and> mj_answered r' = mj_answered r"])
      (auto simp: releaseJob_def Let_def intro!: follows_update)
  with assms(2) show ?thesis by (simp add: Ev_Release) (simp add: tenant_tokens_def releaseJob_def Let_def)
next
  case (Ev_Drop i)
  have "kept_tokens owner (dropJob i d) = kept_tokens owner d"
    by (rule kept_follows [of "\<lambda>r r'. mj_answer r' = mj_answer r \<and> mj_answered r' = mj_answered r"])
      (auto simp: dropJob_def cancelJob_def mark_job_def intro!: follows_update)
  with assms(2) show ?thesis by (simp add: Ev_Drop) (simp add: tenant_tokens_def dropJob_def cancelJob_def mark_job_def)
qed (use assms(2) in \<open>simp_all add: tenant_tokens_def kept_tokens_def startJob_def takeSettled_def\<close>)

lemma run_meters:
  assumes "jobs_ok d" and "mset (tenant_tokens d) = mset (kept_tokens owner d)"
  shows "mset (tenant_tokens (pd_run owner evs d)) = mset (kept_tokens owner (pd_run owner evs d))"
  using assms unfolding pd_run_def
proof (induction evs arbitrary: d)
  case (Cons ev evs)
  obtain t e where ev: "ev = (t, e)" by fastforce
  from Cons.IH [OF do_jobs_ok [OF Cons.prems(1)] event_meters [OF Cons.prems]] show ?case by (simp add: ev)
qed simp

end
