(* ===== verification/Model_Job_Runs.thy ===== *)
theory Model_Job_Runs
  imports Model_Jobs
begin

text \<open>
  Model calls over time: a delivery that is replayed, a job that nobody answers, a commit that does or does not land, the engine and the
  conversations of an agent; the properties of \<open>Model_Jobs\<close> on whole runs, with the runs they are tried on.
\<close>

section \<open>Replays\<close>

lemma get_row_kept: "get_row q rows = Some r \<Longrightarrow> \<not> p r \<Longrightarrow> get_row q (delete_where p rows) = Some r"
  by (induction rows) (auto simp: delete_where_def split: if_splits)

lemma deliver_deliveries:
  "pd_deliveries (snd (deliver owner i m taker now d)) =
    (if seen_delivery i taker d = None
     then (case taker of None \<Rightarrow> pd_deliveries d
       | Some w \<Rightarrow> delete_where (\<lambda>x. dv_at x < now - DELIVERIES_KEEP_MS) (pd_deliveries d)
           @ [\<lparr>dv_job = i, dv_taker = w, dv_verdict = fst (deliver owner i m taker now d), dv_at = now\<rparr>])
     else pd_deliveries d)"
  by (auto simp: deliver_def Let_def keep_delivery_def meter_def split: option.split)

lemma commit_deliveries: "pd_deliveries (snd (pd_commit owner now breaks ws d)) = pd_deliveries d"
proof -
  have r: "pd_deliveries (fold (record_job now) ids x) = pd_deliveries x" for ids x
    by (induction ids arbitrary: x) (simp_all add: record_job_def split: option.split)
  have m: "pd_deliveries (fold (mark_job k b) ids x) = pd_deliveries x" for k b ids x by (induction ids arbitrary: x) (simp_all add: mark_job_def)
  have c: "pd_deliveries (snd (consume_jobs ms x)) = pd_deliveries x" for ms x
    by (induction ms x rule: consume_jobs.induct) (fastforce simp: mark_job_def split: option.split prod.splits)+
  have s: "pd_deliveries (recordSettledRuns now ws x) = pd_deliveries x" for x
    unfolding recordSettledRuns_def by (induction ws arbitrary: x) (auto split: pd_write.split bool.split)
  have t: "pd_deliveries (apply_tasks ws x) = pd_deliveries x" for x
    unfolding apply_tasks_def by (induction ws arbitrary: x) (auto split: pd_write.split)
  obtain jobs d2 where p: "consume_jobs (assistantMessages ws) (fold (record_job now) (pollHandles ws d) d) = (jobs, d2)" by fastforce
  have k: "cancelJob = mark_job Cancelled False" by (simp add: cancelJob_def fun_eq_iff)
  from c [of "assistantMessages ws" "fold (record_job now) (pollHandles ws d) d"] have "pd_deliveries d2 = pd_deliveries d" by (simp add: p r)
  then show ?thesis by (simp add: pd_commit_def bookCommit_def Let_def p s t k m)
qed

lemma seen_stays:
  assumes "seen_delivery i (Some w) d = Some v" and "now \<le> dv_at v + DELIVERIES_KEEP_MS"
  shows "seen_delivery i (Some w) (pd_do owner now e d) = Some v"
proof (cases e)
  case (Ev_Deliver k m taker)
  have g: "get_row (\<lambda>x. dv_job x = i \<and> dv_taker x = w) (pd_deliveries d) = Some v" using assms(1) by (simp add: seen_delivery_def)
  then have "get_row (\<lambda>x. dv_job x = i \<and> dv_taker x = w) (delete_where (\<lambda>x. dv_at x < now - DELIVERIES_KEEP_MS) (pd_deliveries d)) = Some v"
    by (rule get_row_kept) (use assms(2) in simp)
  with g have "get_row (\<lambda>x. dv_job x = i \<and> dv_taker x = w) (pd_deliveries (snd (deliver owner k m taker now d))) = Some v"
    by (auto simp: deliver_deliveries get_row_append split: option.split)
  then show ?thesis by (simp add: seen_delivery_def Ev_Deliver)
next
  case (Ev_Commit breaks ws)
  with assms(1) show ?thesis by (simp add: seen_delivery_def commit_deliveries)
qed (use assms(1) in \<open>auto simp: seen_delivery_def startJob_def dispatch_def mark_sent_def takeJob_def releaseJob_def Let_def dropJob_def
      cancelJob_def mark_job_def takeSettled_def meter_def split: option.split\<close>)

lemma seen_run:
  assumes "seen_delivery i (Some w) d = Some v" and "\<forall>(u, e)\<in>set evs. u \<le> dv_at v + DELIVERIES_KEEP_MS"
  shows "seen_delivery i (Some w) (pd_run owner evs d) = Some v"
  using assms unfolding pd_run_def
proof (induction evs arbitrary: d)
  case (Cons ev evs)
  obtain t e where ev: "ev = (t, e)" by fastforce
  have "seen_delivery i (Some w) (pd_do owner t e d) = Some v" using Cons.prems ev by (intro seen_stays) auto
  with Cons.IH [OF this] Cons.prems(2) show ?case by (simp add: ev)
qed simp

lemma first_delivery_seen:
  assumes "seen_delivery i (Some w) d = None" and "deliver owner i m (Some w) t d = (v, d1)"
  shows "\<exists>x. seen_delivery i (Some w) d1 = Some x \<and> dv_verdict x = v \<and> dv_at x = t"
proof -
  let ?q = "\<lambda>x. dv_job x = i \<and> dv_taker x = w"
  have "get_row ?q (delete_where (\<lambda>x. dv_at x < t - DELIVERIES_KEEP_MS) (pd_deliveries d)) = None"
    using assms(1) by (auto simp: seen_delivery_def get_row_None_iff set_delete_where)
  with deliver_deliveries [of owner i m "Some w" t d] assms show ?thesis
    by (simp add: seen_delivery_def get_row_append)
qed

lemma replay_same:
  assumes "seen_delivery i (Some w) d = None" and "deliver owner i m (Some w) t d = (v, d1)"
    and "\<forall>(u, e)\<in>set evs. u \<le> t + DELIVERIES_KEEP_MS"
  shows "deliver owner i m' (Some w) now (pd_run owner evs d1) = (v, pd_run owner evs d1)"
proof -
  obtain x where x: "seen_delivery i (Some w) d1 = Some x" "dv_verdict x = v" "dv_at x = t" using first_delivery_seen [OF assms(1,2)] by blast
  from seen_run [OF x(1), of evs owner] assms(3) x(3) have "seen_delivery i (Some w) (pd_run owner evs d1) = Some x" by simp
  then show ?thesis by (simp add: deliver_def x(2))
qed

section \<open>Sent again\<close>

lemma redelivery_min:
  "fold (\<lambda>r due. Some (case due of None \<Rightarrow> redeliver_at now r | Some t \<Rightarrow> min t (redeliver_at now r))) rows due =
    (case due of None \<Rightarrow> if rows = [] then None else Some (Min (redeliver_at now ` set rows))
     | Some t \<Rightarrow> Some (Min (insert t (redeliver_at now ` set rows))))"
proof (induction rows arbitrary: due)
  case (Cons r rows)
  show ?case
  proof (cases due)
    case None
    then show ?thesis using Cons.IH [of "Some (redeliver_at now r)"] by simp
  next
    case (Some t)
    have "min t (redeliver_at now r) = Min {t, redeliver_at now r}" by simp
    then show ?thesis using Cons.IH [of "Some (min t (redeliver_at now r))"] Some
      by (cases "rows = []") (simp_all add: Min_insert min.assoc)
  qed
qed (simp split: option.split)

lemma redelivery_before:
  assumes "r \<in> set (pd_jobs d)" and "is_out r"
  obtains t where "redeliveryDue now d = Some t" "t \<le> redeliver_at now r" "now < t"
proof -
  let ?S = "redeliver_at now ` set (filter is_out (pd_jobs d))"
  have m: "redeliver_at now r \<in> ?S" using assms by simp
  then have "redeliveryDue now d = Some (Min ?S)" using assms by (auto simp: redeliveryDue_def redelivery_min filter_empty_conv)
  moreover have "Min ?S \<le> redeliver_at now r" using m by (intro Min_le) simp_all
  moreover have "Min ?S \<in> ?S" using m by (intro Min_in) auto
  then have "now < Min ?S" by (auto simp: redeliver_at_def Let_def REDELIVERY_MS_def split: if_splits)
  ultimately show ?thesis using that by blast
qed

text \<open>When a job may be sent again: its dispatch, and the take on it, have run out.\<close>

definition job_due :: "int \<Rightarrow> model_job \<Rightarrow> int" where
  "job_due now r = max now (max (case mj_dispatched r of None \<Rightarrow> now | Some t \<Rightarrow> t + REDELIVERY_MS)
     (case mj_taken_at r of None \<Rightarrow> now | Some t \<Rightarrow> t + TAKE_HOLD_MS))"

lemma sweep_due_iff: "is_out r \<Longrightarrow> sweep_due now r \<longleftrightarrow> job_due now r = now"
  by (auto simp: sweep_due_def untaken_def job_due_def split: option.splits)

lemma redeliver_due: "is_out r \<Longrightarrow> now < job_due now r \<Longrightarrow> redeliver_at now r = job_due now r"
  by (auto simp: redeliver_at_def job_due_def Let_def split: option.splits)

lemma job_due_later: "now \<le> t \<Longrightarrow> t \<le> job_due now r \<Longrightarrow> now < job_due now r \<Longrightarrow> job_due t r = job_due now r"
  by (auto simp: job_due_def split: option.splits)

definition resend :: "int \<Rightarrow> pd_db \<Rightarrow> pd_db" where
  "resend now d = snd (sweep (\<lambda>_. True) (\<lambda>_. now) now 20 d)"

text \<open>Passes of an object that parks: each sends what is due and sleeps until the next job is.\<close>

fun resend_rounds :: "nat \<Rightarrow> int \<Rightarrow> pd_db \<Rightarrow> int \<times> pd_db" where
  "resend_rounds 0 now d = (now, d)"
| "resend_rounds (Suc n) now d =
     (let d1 = resend now d in case redeliveryDue now d1 of None \<Rightarrow> (now, d1) | Some t \<Rightarrow> resend_rounds n t d1)"

lemma send_all_jobs:
  "pd_jobs (snd (send_all (\<lambda>_. True) (\<lambda>_. now) ids d)) = map (\<lambda>r. if mj_id r \<in> set ids then r\<lparr>mj_dispatched := Some now\<rparr> else r) (pd_jobs d)"
proof (induction ids arbitrary: d)
  case (Cons i ids)
  have "snd (send_all (\<lambda>_. True) (\<lambda>_. now) (i # ids) d) = snd (send_all (\<lambda>_. True) (\<lambda>_. now) ids (mark_sent now i d))"
    by (simp add: dispatch_def split_def)
  then show ?case by (simp add: Cons.IH mark_sent_def update_where_def is_job_def)
qed simp

lemma resend_jobs: "pd_jobs (resend now d) = map (\<lambda>r. if mj_id r \<in> set (sweep_ids now 20 d) then r\<lparr>mj_dispatched := Some now\<rparr> else r) (pd_jobs d)"
  by (simp add: resend_def sweep_def send_all_jobs)

lemma resend_out: "length (filter is_out (pd_jobs (resend now d))) = length (filter is_out (pd_jobs d))"
proof -
  have "is_out \<circ> (\<lambda>r. if mj_id r \<in> set (sweep_ids now 20 d) then r\<lparr>mj_dispatched := Some now\<rparr> else r) = is_out"
    by (auto simp: fun_eq_iff is_out_def)
  then show ?thesis by (simp add: resend_jobs filter_map)
qed

lemma resend_ok: "jobs_ok d \<Longrightarrow> jobs_ok (resend now d)"
  unfolding jobs_ok_def resend_jobs by (simp add: comp_def if_distrib cong: if_cong)

lemma in_sweep:
  assumes "length (filter is_out (pd_jobs d)) \<le> 20" and "r \<in> set (pd_jobs d)" and "sweep_due now r"
  shows "mj_id r \<in> set (sweep_ids now 20 d)"
proof -
  have "length (filter (sweep_due now) (pd_jobs d)) \<le> length (filter is_out (pd_jobs d))"
    by (induction "pd_jobs d" arbitrary: d) (auto simp: sweep_due_def filter_empty_conv length_filter_conv_card intro!: card_mono)
  with assms show ?thesis by (auto simp: sweep_ids_def)
qed

lemma sent_again:
  assumes "jobs_ok d" and "r \<in> set (pd_jobs d)" and "is_out r" and "length (filter is_out (pd_jobs d)) \<le> 20"
  shows "\<exists>n T d'. resend_rounds n now d = (T, d') \<and> mj_id r \<in> set (sweep_ids T 20 d') \<and> now \<le> T \<and> T = job_due now r"
  using assms
proof (induction "nat (job_due now r - now)" arbitrary: now d rule: less_induct)
  case less
  show ?case
  proof (cases "job_due now r = now")
    case True
    with less.prems in_sweep [of d r now] sweep_due_iff [of r now] show ?thesis
      by (intro exI [of _ 0] exI [of _ now] exI [of _ d]) simp
  next
    case False
    then have lt: "now < job_due now r" by (simp add: job_due_def)
    then have "\<not> sweep_due now r" using sweep_due_iff [OF less.prems(3)] by simp
    have "mj_id r \<notin> set (sweep_ids now 20 d)"
    proof
      assume "mj_id r \<in> set (sweep_ids now 20 d)"
      then obtain x where "x \<in> set (pd_jobs d)" "sweep_due now x" "mj_id x = mj_id r" unfolding sweep_ids_def by (auto dest!: in_set_takeD)
      with row_of_job [OF less.prems(1)] less.prems(2) \<open>\<not> sweep_due now r\<close> show False by (metis option.inject)
    qed
    then have in1: "r \<in> set (pd_jobs (resend now d))" using less.prems(2) by (auto simp: resend_jobs intro!: rev_image_eqI)
    obtain t where t: "redeliveryDue now (resend now d) = Some t" "t \<le> redeliver_at now r" "now < t"
      using redelivery_before [OF in1 less.prems(3)] by blast
    have tl: "t \<le> job_due now r" using t(2) redeliver_due [OF less.prems(3) lt] by simp
    then have jd: "job_due t r = job_due now r" using t(3) lt by (intro job_due_later) simp_all
    have "nat (job_due t r - t) < nat (job_due now r - now)" using t(3) tl jd lt by simp
    from less.hyps [OF this resend_ok [OF less.prems(1)] in1 less.prems(3)] less.prems(4)
    obtain n T d' where "resend_rounds n t (resend now d) = (T, d')" "mj_id r \<in> set (sweep_ids T 20 d')" "t \<le> T" "T = job_due t r"
      by (auto simp: resend_out)
    with t jd show ?thesis by (intro exI [of _ "Suc n"] exI [of _ T] exI [of _ d']) simp
  qed
qed
section \<open>A commit, and the jobs it sends\<close>

lemma fold_record_has:
  assumes "i \<in> fst ` set ids" and "\<forall>x\<in>set ids. map_of (pd_staged d) (fst x) \<noteq> None"
  shows "has_row (is_job i) (pd_jobs (fold (record_job now) ids d))"
  using assms
proof (induction ids arbitrary: d)
  case (Cons x ids)
  have st: "pd_staged (record_job now y e) = pd_staged e" for y e by (simp add: record_job_def split: option.split)
  show ?case
  proof (cases "i \<in> fst ` set ids")
    case True
    with Cons.IH [OF True, of "record_job now x d"] Cons.prems(2) show ?thesis by (simp add: st)
  next
    case False
    with Cons.prems have i: "i = fst x" and s: "map_of (pd_staged d) (fst x) \<noteq> None" by auto
    have "get_row (is_job i) (pd_jobs (record_job now x d)) \<noteq> None"
      using s by (auto simp: record_job_def i get_row_insert_ignore_same is_job_def)
    then obtain r where "get_row (is_job i) (pd_jobs (record_job now x d)) = Some r" by auto
    moreover have "marked (record_job now x d) (fold (record_job now) ids (record_job now x d))" by (rule marked_fold [OF record_job_marked])
    ultimately show ?thesis using follows_get kept_row_id by (fastforce simp: has_row_get_row only_marks_def)
  qed
qed simp

lemma commit_records:
  assumes "pd_commit owner now breaks ws d = (ids, d')"
  shows "(breaks \<longrightarrow> ids = [] \<and> d' = d) \<and> (\<forall>i\<in>set ids. has_row (is_job i) (pd_jobs d') \<and> map_of (pd_staged d) i \<noteq> None)"
proof (cases breaks)
  case False
  obtain jobs d2 where c: "consume_jobs (assistantMessages ws) (fold (record_job now) (pollHandles ws d) d) = (jobs, d2)" by fastforce
  let ?d1 = "fold (record_job now) (pollHandles ws d) d"
  let ?d4 = "fold (mark_job Consumed True) (endedSummaryPolls ws d) (fold cancelJob (unreadPolls ws d) d2)"
  have e: "ids = map fst (pollHandles ws d)" "pd_jobs d' = pd_jobs ?d4"
    using assms False by (auto simp: pd_commit_def bookCommit_def Let_def c)
  have st: "\<forall>x\<in>set (pollHandles ws d). map_of (pd_staged d) (fst x) \<noteq> None"
    by (auto simp: pollHandles_def split: pd_write.splits option.splits if_splits)
  have "marked ?d1 d2" using consume_marked [of ?d1 "assistantMessages ws"] c by simp
  moreover have "marked d2 (fold cancelJob (unreadPolls ws d) d2)" by (rule marked_fold) (simp add: cancelJob_def mark_job_marked)
  moreover have "marked (fold cancelJob (unreadPolls ws d) d2) ?d4" by (rule marked_fold [OF mark_job_marked])
  ultimately have m: "marked ?d1 ?d4" using marked_trans by blast
  have "has_row (is_job i) (pd_jobs d')" if "i \<in> set ids" for i
  proof -
    have "has_row (is_job i) (pd_jobs ?d1)" using fold_record_has [OF _ st] that by (simp add: e)
    then obtain r where "get_row (is_job i) (pd_jobs ?d1) = Some r" by (auto simp: has_row_get_row)
    from follows_get [OF m _ this] show ?thesis by (auto simp: e has_row_get_row only_marks_def keeps_def)
  qed
  with st e False show ?thesis by auto
qed (use assms in \<open>simp add: pd_commit_def\<close>)

section \<open>The engine and the conversations\<close>

lemma named_text [simp]: "engine_named (engine_text e) = Some e" by (cases e) (simp_all add: engine_named_def)

lemma map_of_upsert: "map_of (upsert (\<lambda>m. fst m = k) (k, v) (\<lambda>_. (k, v)) kvs) k' = (if k' = k then Some v else map_of kvs k')"
proof -
  have u: "map_of (update_where (\<lambda>m. fst m = k) (\<lambda>_. (k, v)) kvs) k' = (if k' = k then map_option (\<lambda>_. v) (map_of kvs k) else map_of kvs k')" for kvs
    by (induction kvs) (auto simp: update_where_def)
  have h: "has_row (\<lambda>m. fst m = k) kvs \<longleftrightarrow> map_of kvs k \<noteq> None" by (induction kvs) (auto simp: has_row_def)
  show ?thesis
  proof (cases "map_of kvs k")
    case None
    with h show ?thesis by (simp add: upsert_def map_add_def split: option.split)
  next
    case (Some x)
    with h show ?thesis by (simp add: upsert_def u)
  qed
qed

lemma map_of_delete: "map_of (delete_where (\<lambda>m. fst m = k) kvs) k' = (if k' = k then None else map_of kvs k')"
  by (induction kvs) (auto simp: delete_where_def)

lemma engine_is_set_once:
  assumes "engine_of d = Inr (Some e)"
  shows "setEngineOnce e' d = (Inr (Some e), d)"
proof -
  have "has_row (\<lambda>m. fst m = ''engine'') (pd_meta d)"
    using assms by (force simp: engine_of_def has_row_iff split: option.splits dest!: map_of_SomeD)
  then show ?thesis using assms by (simp add: setEngineOnce_def insert_ignore_def)
qed

lemma migration_rolls_back:
  assumes "engine_of d = Inr None \<or> engine_of d = Inr (Some Pi085)" and "migrateEngine Pi085 Pd d = (a, d1)"
  shows "engine_of d1 = Inr (Some Pd) \<and> migratedFrom d1 = Some ''pi085''
    \<and> fst (migrateEngine Pd Pi085 d1) = Inr (Some Pi085) \<and> migratedFrom (snd (migrateEngine Pd Pi085 d1)) = None"
proof -
  have "engine_text Pd = ''pd''" "engine_text Pi085 = ''pi085''" by simp_all
  note e = named_text [of Pd] named_text [of Pi085]
  from assms have d1: "d1 = set_meta ''migrated_from'' ''pi085'' (set_meta ''engine'' ''pd'' d)" by (auto simp: migrateEngine_def Let_def)
  have o1: "engine_of d1 = Inr (Some Pd)" using e by (simp add: d1 engine_of_def set_meta_def map_of_upsert)
  moreover have "migratedFrom d1 = Some ''pi085''" by (simp add: d1 migratedFrom_def set_meta_def map_of_upsert)
  ultimately show ?thesis using e
    by (simp add: migrateEngine_def Let_def) (simp add: engine_of_def set_meta_def map_of_upsert map_of_delete migratedFrom_def)
qed

lemma conversation_opens_once:
  assumes "openConversation c d = (Inr row, d1)"
  shows "conversation_of (ac_task c) d1 = Some row \<and> (conversation_of (ac_task c) d \<noteq> None \<longrightarrow> d1 = d)"
  using assms by (auto simp: openConversation_def Let_def conversation_of_def insert_ignore_def has_row_iff
      get_row_append get_row_None_iff split: if_splits option.splits dest!: get_row_SomeD)

end
