(* ===== verification/Model_Queue.thy ===== *)
theory Model_Queue
  imports Model_Job_Runs
begin

text \<open>
  The consumer of the queue of model calls (\<open>src/cf/src/model-queue.ts\<close>) against the tables of \<open>Model_Jobs\<close>, and the prewarm of a prompt
  cache that travels on the same queue (\<open>src/src/runtime/prewarm.ts\<close>, \<open>takePrewarm\<close> and \<open>prewarmDone\<close> of \<open>src/cf/src/runtime.ts\<close>). A call to
  the agent's object may be lost on its way there or on its way back; what the spend limit and the provider answer are parameters.
\<close>

section \<open>Messages and attempts\<close>

record queued_call =
  qc_job :: string
  qc_prewarm :: bool

datatype call_phase = Ph_Take | Ph_Admit | Ph_Call | Ph_Deliver

fun phase_text :: "call_phase \<Rightarrow> string" where
  "phase_text Ph_Take = ''take''"
| "phase_text Ph_Admit = ''admit''"
| "phase_text Ph_Call = ''call''"
| "phase_text Ph_Deliver = ''deliver''"

text \<open>
  What one attempt meets: its fresh name, how its calls to the object go, and when; what the spend limit says of the request (\<open>None\<close>: it
  throws; \<open>Some (Some m)\<close>: refused with the answer \<open>m\<close>), what the provider does (\<open>None\<close>: it throws), how the failure reads, and what
  else happens to the tables between the take and the delivery.
\<close>

datatype provider_outcome = O_Http int | O_Timeout | O_Transport string

record attempt_env =
  ae_taker :: string
  ae_take :: rpc
  ae_admit :: "json \<Rightarrow> model_answer option option"
  ae_call :: "json \<Rightarrow> model_answer option"
  ae_deliver :: rpc
  ae_release :: rpc
  ae_during :: "pd_db \<Rightarrow> pd_db"
  ae_started :: int
  ae_take_at :: int
  ae_call_at :: int
  ae_answer_at :: int
  ae_deliver_at :: int
  ae_failed_at :: int
  ae_outcome :: provider_outcome
  ae_delivery :: "int option"

text \<open>\<open>en_request\<close> is what the attempt took; \<open>en_called\<close> and \<open>en_answered\<close> say whether the provider was asked and answered.\<close>

record attempt_end =
  en_threw :: bool
  en_phase :: call_phase
  en_request :: "json option"
  en_called :: bool
  en_answered :: bool

definition model_of :: "json \<Rightarrow> string option" where
  "model_of request = (case request of JObj kvs \<Rightarrow> (case map_of kvs ''operatorModel'' of Some (JStr m) \<Rightarrow> if m = [] then None else Some (take 120 m) | _ \<Rightarrow> None)
     | _ \<Rightarrow> None)"

definition no_end :: attempt_end where
  "no_end = \<lparr>en_threw = False, en_phase = Ph_Take, en_request = None, en_called = False, en_answered = False\<rparr>"

text \<open>The answer of an attempt, delivered; a lost call throws.\<close>

definition deliver_rpc :: "string \<times> string \<Rightarrow> attempt_env \<Rightarrow> string \<Rightarrow> model_answer \<Rightarrow> pd_db \<Rightarrow> bool \<times> pd_db" where
  "deliver_rpc owner env i m d =
     (case rpc_call (ae_deliver env) (deliver owner i m (Some (ae_taker env)) (ae_deliver_at env)) d of (a, d') \<Rightarrow> (a = None, d'))"

text \<open>A job taken, used, and given back when its use throws. A take that throws is not given back: nothing says that it was made.\<close>

definition withTake :: "attempt_env \<Rightarrow> string \<Rightarrow> (json \<Rightarrow> pd_db \<Rightarrow> attempt_end \<times> pd_db) \<Rightarrow> pd_db \<Rightarrow> attempt_end \<times> pd_db" where
  "withTake env i use_job d =
     (case rpc_call (ae_take env) (takeJob i (Some (ae_taker env)) (ae_take_at env)) d of
        (None, d1) \<Rightarrow> (no_end\<lparr>en_threw := True\<rparr>, d1)
      | (Some (Some (Some request)), d1) \<Rightarrow>
          (case use_job request (ae_during env d1) of (end, d2) \<Rightarrow>
             (end\<lparr>en_request := Some request\<rparr>,
              if en_threw end then snd (rpc_call (ae_release env) (releaseJob i (ae_taker env)) d2) else d2))
      | (Some _, d1) \<Rightarrow> (no_end, d1))"

definition use_call :: "string \<times> string \<Rightarrow> attempt_env \<Rightarrow> string \<Rightarrow> json \<Rightarrow> pd_db \<Rightarrow> attempt_end \<times> pd_db" where
  "use_call owner env i request d =
     (case ae_admit env request of
        None \<Rightarrow> (no_end\<lparr>en_threw := True, en_phase := Ph_Admit\<rparr>, d)
      | Some (Some refused) \<Rightarrow>
          (case deliver_rpc owner env i refused d of (threw, d1) \<Rightarrow> (no_end\<lparr>en_threw := threw, en_phase := Ph_Admit\<rparr>, d1))
      | Some None \<Rightarrow>
          (case ae_call env request of
             None \<Rightarrow> (no_end\<lparr>en_threw := True, en_phase := Ph_Call, en_called := True\<rparr>, d)
           | Some m \<Rightarrow>
               (case deliver_rpc owner env i m d of (threw, d1) \<Rightarrow>
                  (no_end\<lparr>en_threw := threw, en_phase := Ph_Deliver, en_called := True, en_answered := True\<rparr>, d1))))"

definition runModelCall :: "string \<times> string \<Rightarrow> attempt_env \<Rightarrow> string \<Rightarrow> pd_db \<Rightarrow> attempt_end \<times> pd_db" where
  "runModelCall owner env i d = withTake env i (use_call owner env i) d"

definition failLoudly :: "string \<times> string \<Rightarrow> model_answer \<Rightarrow> attempt_env \<Rightarrow> string \<Rightarrow> pd_db \<Rightarrow> attempt_end \<times> pd_db" where
  "failLoudly owner given_up env i d =
     withTake env i (\<lambda>_ d. case deliver_rpc owner env i given_up d of (threw, d1) \<Rightarrow> (no_end\<lparr>en_threw := threw, en_phase := Ph_Deliver\<rparr>, d1)) d"

section \<open>The record of a failed attempt\<close>

record failed_attempt =
  fa_attempt :: "int option"
  fa_phase :: call_phase
  fa_outcome :: provider_outcome
  fa_ms :: int
  fa_provider_ms :: "int option"
  fa_model :: "string option"

definition failedAttempt :: "attempt_env \<Rightarrow> attempt_end \<Rightarrow> failed_attempt" where
  "failedAttempt env e =
     \<lparr>fa_attempt = (case ae_delivery env of Some n \<Rightarrow> if 0 < n then Some n else None | None \<Rightarrow> None), fa_phase = en_phase e, fa_outcome = ae_outcome env,
      fa_ms = max 0 (ae_failed_at env - ae_started env),
      fa_provider_ms = (if en_answered e then Some (max 0 (ae_answer_at env - ae_call_at env))
        else if en_phase e = Ph_Call then Some (max 0 (ae_failed_at env - ae_call_at env)) else None),
      fa_model = (case en_request e of None \<Rightarrow> None | Some r \<Rightarrow> model_of r)\<rparr>"

definition name_char :: "char list \<Rightarrow> char \<Rightarrow> bool" where
  "name_char extra c \<longleftrightarrow> (let n = (of_char c :: nat) in (48 \<le> n \<and> n \<le> 57) \<or> (65 \<le> n \<and> n \<le> 90) \<or> (97 \<le> n \<and> n \<le> 122)) \<or> c \<in> set extra"

definition error_class_ok :: "string \<Rightarrow> bool" where
  "error_class_ok s \<longleftrightarrow> (case s of [] \<Rightarrow> False
     | c # cs \<Rightarrow> name_char ''_$'' c \<and> \<not> (48 \<le> (of_char c :: nat) \<and> (of_char c :: nat) \<le> 57) \<and> length cs \<le> 63 \<and> list_all (name_char ''_$'') cs)"

definition model_name_ok :: "string \<Rightarrow> bool" where
  "model_name_ok s \<longleftrightarrow> s \<noteq> [] \<and> length s \<le> 120 \<and> list_all (name_char ''._:/@-'') s"

fun outcome_text :: "provider_outcome \<Rightarrow> string" where
  "outcome_text (O_Http _) = ''http''"
| "outcome_text O_Timeout = ''timeout''"
| "outcome_text (O_Transport _) = ''transport_error''"

definition modelAttemptRow :: "string \<times> string \<Rightarrow> string \<Rightarrow> int \<Rightarrow> failed_attempt \<Rightarrow> trace_row" where
  "modelAttemptRow owner i now a =
     \<lparr>tr_at = now, tr_tenant = fst owner, tr_agent = snd owner, tr_kind = ''model.attempt'', tr_span = i, tr_parent = None, tr_status = ''retried'',
      tr_verdict = VFailed, tr_ms = (if 0 \<le> fa_ms a then Some (fa_ms a) else None),
      tr_attrs = opt_num ''attempt'' (case fa_attempt a of Some n \<Rightarrow> if 0 < n then Some n else None | None \<Rightarrow> None)
        @ [(''phase'', JStr (phase_text (fa_phase a))), (''outcome'', JStr (outcome_text (fa_outcome a)))]
        @ opt_num ''httpStatus'' (case fa_outcome a of O_Http n \<Rightarrow> if 100 \<le> n \<and> n \<le> 599 then Some n else None | _ \<Rightarrow> None)
        @ opt_str ''errorClass'' (case fa_outcome a of O_Transport c \<Rightarrow> if error_class_ok c then Some c else None | _ \<Rightarrow> None)
        @ opt_num ''providerMs'' (case fa_provider_ms a of Some n \<Rightarrow> if 0 \<le> n then Some n else None | None \<Rightarrow> None)
        @ opt_str ''model'' (case fa_model a of Some m \<Rightarrow> if model_name_ok m then Some m else None | None \<Rightarrow> None)\<rparr>"

section \<open>A prewarm\<close>

datatype prewarm_state = Pw_Queued | Pw_Taken | Pw_Done

record prewarm_row =
  pw_migration :: string
  pw_state :: prewarm_state
  pw_queued :: int
  pw_taken :: "int option"
  pw_done :: "int option"
  pw_outcome :: "string option"

text \<open>The agent's one row, with what a prewarm that ends writes beside it.\<close>

record prewarm_db =
  pb_row :: "prewarm_row option"
  pb_usage :: usage_db
  pb_trace :: "trace_row list"

definition prewarmJobId :: "string \<Rightarrow> string" where "prewarmJobId migration = ''prewarm_'' @ migration"

definition isPrewarmJob :: "string \<Rightarrow> bool" where "isPrewarmJob i \<longleftrightarrow> starts_with ''prewarm_'' i"

lemma a_prewarm_is_told_by_its_name: "isPrewarmJob (prewarmJobId migration)"
  by (simp add: isPrewarmJob_def prewarmJobId_def starts_with_def)

definition queuePrewarm :: "string \<Rightarrow> int \<Rightarrow> prewarm_db \<Rightarrow> bool \<times> prewarm_db" where
  "queuePrewarm migration now d =
     (if pb_row d \<noteq> None then (False, d)
      else (True, d\<lparr>pb_row := Some \<lparr>pw_migration = migration, pw_state = Pw_Queued, pw_queued = now, pw_taken = None, pw_done = None, pw_outcome = None\<rparr>\<rparr>))"

definition takePrewarm_row :: "string \<Rightarrow> int \<Rightarrow> prewarm_db \<Rightarrow> bool \<times> prewarm_db" where
  "takePrewarm_row migration now d =
     (case pb_row d of None \<Rightarrow> (False, d)
      | Some r \<Rightarrow> if pw_migration r \<noteq> migration \<or> pw_state r \<noteq> Pw_Queued then (False, d)
          else (True, d\<lparr>pb_row := Some (r\<lparr>pw_state := Pw_Taken, pw_taken := Some now\<rparr>)\<rparr>))"

definition finishPrewarm :: "string \<Rightarrow> string \<Rightarrow> int \<Rightarrow> prewarm_db \<Rightarrow> bool \<times> prewarm_db" where
  "finishPrewarm migration outcome now d =
     (case pb_row d of None \<Rightarrow> (False, d)
      | Some r \<Rightarrow> if pw_migration r \<noteq> migration \<or> pw_state r = Pw_Done then (False, d)
          else (True, d\<lparr>pb_row := Some (r\<lparr>pw_state := Pw_Done, pw_done := Some now, pw_outcome := Some (take 200 outcome)\<rparr>)\<rparr>))"

definition prewarmToSend :: "prewarm_db \<Rightarrow> string option" where
  "prewarmToSend d = (case pb_row d of Some r \<Rightarrow> if pw_state r = Pw_Queued then Some (prewarmJobId (pw_migration r)) else None | None \<Rightarrow> None)"

text \<open>The report of how a prewarm ended: the model with its time and its tokens, when a call was made.\<close>

record prewarm_report =
  pr_model :: string
  pr_ms :: "int option"
  pr_usage :: "token_usage option"

definition prewarm_trace :: "string \<times> string \<Rightarrow> string \<Rightarrow> string \<Rightarrow> prewarm_report option \<Rightarrow> int \<Rightarrow> trace_row" where
  "prewarm_trace owner migration outcome report now =
     \<lparr>tr_at = now, tr_tenant = fst owner, tr_agent = snd owner, tr_kind = ''model.prewarm'', tr_span = prewarmJobId migration, tr_parent = None,
      tr_status = takeWhile (\<lambda>c. c \<noteq> CHR '':'') outcome, tr_verdict = (if starts_with ''failed'' outcome then VFailed else VOk),
      tr_ms = (case report of None \<Rightarrow> None | Some p \<Rightarrow> pr_ms p),
      tr_attrs = [(''outcome'', JStr outcome)] @ (case report of None \<Rightarrow> [] | Some p \<Rightarrow> [(''model'', JStr (pr_model p))]
        @ (case pr_usage p of None \<Rightarrow> [] | Some u \<Rightarrow> [(''inputTokens'', JNum (or_else (tu_input u) 0)), (''cacheReadTokens'', JNum (or_else (tu_cache_read u) 0)),
             (''outputTokens'', JNum (or_else (tu_output u) 0))]))\<rparr>"

definition prewarmEnded :: "string \<times> string \<Rightarrow> string \<Rightarrow> string \<Rightarrow> prewarm_report option \<Rightarrow> int \<Rightarrow> prewarm_db \<Rightarrow> bool \<times> prewarm_db" where
  "prewarmEnded owner migration outcome report now d =
     (case finishPrewarm migration outcome now d of
        (False, d1) \<Rightarrow> (False, d1)
      | (True, d1) \<Rightarrow>
          (True, d1\<lparr>pb_usage := (case report of Some p \<Rightarrow> (case pr_usage p of Some u \<Rightarrow>
                 appendUsage (modelTokenRows (now, fst owner, snd owner) (pr_model p) u False) (pb_usage d1) | None \<Rightarrow> pb_usage d1) | None \<Rightarrow> pb_usage d1),
              pb_trace := pb_trace d1 @ [prewarm_trace owner migration outcome report now]\<rparr>))"

text \<open>
  What the object answers a take with. \<open>skip\<close> is the reason not to make the call, when there is one, and \<open>build\<close> the request, or the error
  it threw with.
\<close>

definition takePrewarm :: "string \<times> string \<Rightarrow> string option \<Rightarrow> (string \<times> string) + json \<Rightarrow> string \<Rightarrow> int \<Rightarrow> prewarm_db \<Rightarrow> json option \<times> prewarm_db" where
  "takePrewarm owner skip build i now d =
     (case pb_row d of None \<Rightarrow> (None, d)
      | Some r \<Rightarrow>
          if prewarmJobId (pw_migration r) \<noteq> i then (None, d)
          else (case takePrewarm_row (pw_migration r) now d of
            (False, d1) \<Rightarrow> (None, d1)
          | (True, d1) \<Rightarrow>
              (case skip of
                 Some why \<Rightarrow> (None, snd (prewarmEnded owner (pw_migration r) (''skipped: '' @ why) None now d1))
               | None \<Rightarrow>
                   (case build of
                      Inr request \<Rightarrow> (Some request, d1)
                    | Inl (model, err) \<Rightarrow> (None, snd (prewarmEnded owner (pw_migration r) (''failed: '' @ take 160 err)
                        (Some \<lparr>pr_model = model, pr_ms = None, pr_usage = None\<rparr>) now d1))))))"

definition prewarmDone :: "string \<times> string \<Rightarrow> string \<Rightarrow> string \<Rightarrow> prewarm_report \<Rightarrow> int \<Rightarrow> prewarm_db \<Rightarrow> bool \<times> prewarm_db" where
  "prewarmDone owner i outcome report now d =
     (case pb_row d of None \<Rightarrow> (False, d)
      | Some r \<Rightarrow> if prewarmJobId (pw_migration r) \<noteq> i then (False, d) else prewarmEnded owner (pw_migration r) outcome (Some report) now d)"
text \<open>The consumer's side of a prewarm: taken, admitted, called, reported; nothing of it throws.\<close>

record prewarm_env =
  pe_take :: rpc
  pe_skip :: "string option"
  pe_build :: "(string \<times> string) + json"
  pe_admit :: "json \<Rightarrow> string + bool"      \<comment> \<open>an error, or whether it is refused\<close>
  pe_call :: "json \<Rightarrow> string + string \<times> prewarm_report"
  pe_done :: rpc
  pe_take_at :: int
  pe_done_at :: int

definition runPrewarm :: "string \<times> string \<Rightarrow> prewarm_env \<Rightarrow> string \<Rightarrow> prewarm_db \<Rightarrow> prewarm_db" where
  "runPrewarm owner env i d =
     (case rpc_call (pe_take env) (takePrewarm owner (pe_skip env) (pe_build env) i (pe_take_at env)) d of
        (Some (Some request), d1) \<Rightarrow>
          let unused = \<lparr>pr_model = (case request of JObj kvs \<Rightarrow> (case map_of kvs ''operatorModel'' of Some (JStr m) \<Rightarrow> m | _ \<Rightarrow> ''unknown'') | _ \<Rightarrow> ''unknown''),
                pr_ms = None, pr_usage = None\<rparr>;
              failed = (\<lambda>err. (''failed: '' @ take 160 err, unused));
              (outcome, report) = (case pe_admit env request of
                  Inl err \<Rightarrow> failed err
                | Inr True \<Rightarrow> (''skipped: a daily spend limit is reached'', unused)
                | Inr False \<Rightarrow> (case pe_call env request of Inl err \<Rightarrow> failed err | Inr r \<Rightarrow> r)) in
          snd (rpc_call (pe_done env) (prewarmDone owner i outcome report (pe_done_at env)) d1)
      | (_, d1) \<Rightarrow> d1)"

section \<open>A batch\<close>

record queue_world =
  qw_pd :: pd_db
  qw_prewarm :: prewarm_db

datatype settlement = Acked | Retried

record queue_message =
  qm_call :: queued_call
  qm_env :: attempt_env
  qm_prewarm :: prewarm_env
  qm_traced :: bool      \<comment> \<open>whether the record of a failed attempt is written in time\<close>

text \<open>The messages settled, whether the batch threw (what is left is the queue's to deliver again), and the tables.\<close>

fun consumeModelCalls :: "string \<times> string \<Rightarrow> bool \<Rightarrow> model_answer \<Rightarrow> queue_message list \<Rightarrow> queue_world \<Rightarrow> settlement list \<times> bool \<times> queue_world" where
  "consumeModelCalls owner dlq given_up [] w = ([], False, w)"
| "consumeModelCalls owner dlq given_up (m # ms) w =
     (let i = qc_job (qm_call m); env = qm_env m;
          next = (\<lambda>s w1. case consumeModelCalls owner dlq given_up ms w1 of (ss, threw, w2) \<Rightarrow> (s # ss, threw, w2)) in
      if qc_prewarm (qm_call m)
      then next Acked (if dlq then w else w\<lparr>qw_prewarm := runPrewarm owner (qm_prewarm m) i (qw_prewarm w)\<rparr>)
      else if dlq
      then (case failLoudly owner given_up env i (qw_pd w) of (e, d1) \<Rightarrow>
        if en_threw e then ([], True, w\<lparr>qw_pd := d1\<rparr>) else next Acked (w\<lparr>qw_pd := d1\<rparr>))
      else (case runModelCall owner env i (qw_pd w) of (e, d1) \<Rightarrow>
        if en_threw e
        then next Retried (w\<lparr>qw_pd := (if qm_traced m then d1\<lparr>pd_trace := pd_trace d1 @ [modelAttemptRow owner i (ae_failed_at env) (failedAttempt env e)]\<rparr> else d1)\<rparr>)
        else next Acked (w\<lparr>qw_pd := d1\<rparr>)))"

section \<open>Lemmas\<close>

definition throws_now :: "string \<times> string \<Rightarrow> queue_message \<Rightarrow> queue_world \<Rightarrow> bool" where
  "throws_now owner m w \<longleftrightarrow> \<not> qc_prewarm (qm_call m) \<and> en_threw (fst (runModelCall owner (qm_env m) (qc_job (qm_call m)) (qw_pd w)))"

lemma consume_step:
  "\<exists>w1. consumeModelCalls owner False given_up (m # ms) w =
     (case consumeModelCalls owner False given_up ms w1 of (ss, threw, w2) \<Rightarrow> ((if throws_now owner m w then Retried else Acked) # ss, threw, w2))"
proof (cases "qc_prewarm (qm_call m)")
  case True
  then show ?thesis by (auto simp: throws_now_def Let_def)
next
  case False
  obtain e d1 where r: "runModelCall owner (qm_env m) (qc_job (qm_call m)) (qw_pd w) = (e, d1)" by fastforce
  show ?thesis by (cases "en_threw e") (auto simp: throws_now_def False r Let_def)
qed

lemma consume_settles:
  "consumeModelCalls owner False given_up ms w = (ss, threw, w') \<Longrightarrow> \<not> threw \<and> length ss = length ms"
proof (induction ms arbitrary: w ss threw w')
  case (Cons m ms)
  obtain w1 where w1: "consumeModelCalls owner False given_up (m # ms) w =
     (case consumeModelCalls owner False given_up ms w1 of (ss, threw, w2) \<Rightarrow> ((if throws_now owner m w then Retried else Acked) # ss, threw, w2))"
    using consume_step by blast
  obtain ss1 threw1 w2 where c: "consumeModelCalls owner False given_up ms w1 = (ss1, threw1, w2)" by (metis prod_cases3)
  from Cons.IH [OF c] Cons.prems w1 c show ?case by auto
qed simp

lemma consume_append:
  "consumeModelCalls owner False given_up (ms @ rest) w =
    (case consumeModelCalls owner False given_up ms w of (ss, _, w1) \<Rightarrow>
      (case consumeModelCalls owner False given_up rest w1 of (ss', threw, w2) \<Rightarrow> (ss @ ss', threw, w2)))"
proof (induction ms arbitrary: w)
  case (Cons m ms)
  show ?case
  proof (cases "qc_prewarm (qm_call m)")
    case True
    with Cons.IH show ?thesis by (simp add: Let_def split: prod.splits)
  next
    case False
    obtain e d1 where r: "runModelCall owner (qm_env m) (qc_job (qm_call m)) (qw_pd w) = (e, d1)" by fastforce
    from Cons.IH show ?thesis by (simp add: False r Let_def split: prod.splits)
  qed
qed (simp split: prod.splits)

text \<open>An attempt calls the provider only with a job it took, and only when the spend limit lets it.\<close>

lemma withTake_request:
  assumes "withTake env i use_job d = (e, d')" and "en_request e = Some request"
  shows "ae_take env = Answers \<and> fst (takeJob i (Some (ae_taker env)) (ae_take_at env) d) = Some (Some request)"
  using assms by (auto simp: withTake_def rpc_call_def no_end_def split: rpc.splits option.splits prod.splits)

lemma called_needs_take:
  assumes "runModelCall owner env i d = (e, d')" and "en_called e"
  obtains request where "fst (takeJob i (Some (ae_taker env)) (ae_take_at env) d) = Some (Some request)" "ae_admit env request = Some None"
proof -
  obtain a d1 where t: "rpc_call (ae_take env) (takeJob i (Some (ae_taker env)) (ae_take_at env)) d = (a, d1)" by fastforce
  with assms obtain request where a: "a = Some (Some (Some request))"
    by (auto simp: runModelCall_def withTake_def no_end_def split: option.splits)
  then have "fst (takeJob i (Some (ae_taker env)) (ae_take_at env) d) = Some (Some request)"
    using t by (auto simp: rpc_call_def split: rpc.splits)
  moreover have "ae_admit env request = Some None"
    using assms t a by (auto simp: runModelCall_def withTake_def use_call_def no_end_def split: option.splits prod.splits)
  ultimately show ?thesis by (rule that)
qed

lemma delivered_row:
  assumes "get_row (is_job i) (pd_jobs d) = Some r" and "mj_answer r = None" and "seen_delivery i taker d = None"
  shows "\<exists>r'. get_row (is_job i) (pd_jobs (snd (deliver owner i m taker now d))) = Some r' \<and> mj_answer r' = Some m \<and> mj_answered r' = Some now"
proof -
  have i: "is_job i r" using assms(1) by (auto dest: get_row_SomeD)
  have "get_row (is_job i) (update_where (\<lambda>r. is_job i r \<and> mj_answer r = None) (\<lambda>r. r\<lparr>mj_answer := Some m, mj_answered := Some now\<rparr>) (pd_jobs d))
      = map_option (\<lambda>r. if is_job i r \<and> mj_answer r = None then r\<lparr>mj_answer := Some m, mj_answered := Some now\<rparr> else r) (get_row (is_job i) (pd_jobs d))"
    by (rule get_row_update_where) (simp add: is_job_def)
  with assms i show ?thesis by (simp add: deliver_jobs)
qed

lemma refused_second:
  assumes "jobs_ok d" and "get_row (is_job i) (pd_jobs d) = Some r" and "mj_answer r \<noteq> None" and "seen_delivery i taker d = None"
  shows "fst (deliver owner i m taker now d) = V_Refused"
proof -
  have "\<not> has_row (\<lambda>r. is_job i r \<and> mj_answer r = None) (pd_jobs d)"
    using get_row_where [OF assms(1), of i "\<lambda>r. mj_answer r = None"] assms(2,3) by (simp add: has_row_get_row)
  moreover from this have "update_where (\<lambda>r. is_job i r \<and> mj_answer r = None) f (pd_jobs d) = pd_jobs d" for f
    by (intro update_where_id) (auto simp: has_row_iff)
  moreover have "has_row (is_job i) (pd_jobs d)" using assms(2) by (simp add: has_row_get_row)
  ultimately show ?thesis using assms(4) by (simp add: deliver_def Let_def)
qed

text \<open>A refused call is answered with the refusal, and the provider is not asked.\<close>

lemma delivered_answer:
  assumes "jobs_ok d" and "get_row (is_job i) (pd_jobs d) = Some r" and "mj_answer r = None" and "seen_delivery i taker d = None"
  shows "fst (deliver owner i m taker now d) = V_Accepted
    \<and> (\<exists>r'. get_row (is_job i) (pd_jobs (snd (deliver owner i m taker now d))) = Some r' \<and> mj_answer r' = Some m)"
proof
  have i: "is_job i r" "r \<in> set (pd_jobs d)" using assms(2) by (auto dest: get_row_SomeD)
  then show "fst (deliver owner i m taker now d) = V_Accepted" using assms(3,4) by (auto simp: deliver_def Let_def has_row_iff)
  show "\<exists>r'. get_row (is_job i) (pd_jobs (snd (deliver owner i m taker now d))) = Some r' \<and> mj_answer r' = Some m"
    using delivered_row [OF assms(2,3,4), of owner m now] by blast
qed

lemma release_keeps_answer:
  assumes "get_row (is_job i) (pd_jobs d) = Some r" and "mj_answer r = Some m"
  shows "\<exists>r'. get_row (is_job i) (pd_jobs (snd (rpc_call how (releaseJob i w) d))) = Some r' \<and> mj_answer r' = Some m"
proof -
  have "snd (rpc_call how (releaseJob i w) d) \<in> {d, pd_run undefined [(0, Ev_Release i w)] d}"
    by (cases how) (simp_all add: rpc_call_def pd_run_def split_def)
  with answer_stays [OF assms(1), of undefined "[(0, Ev_Release i w)]"] assms show ?thesis by auto
qed

lemma refused_is_answered:
  assumes "jobs_ok d" and "takeJob i (Some (ae_taker env)) (ae_take_at env) d = (Some (Some request), d1)" and "ae_take env = Answers"
    and "ae_admit env request = Some (Some refused)" and "ae_during env = pd_run owner evs"
  defines "d2 \<equiv> pd_run owner evs d1"
  shows "case runModelCall owner env i d of (e, d') \<Rightarrow> \<not> en_called e \<and> (en_threw e \<longleftrightarrow> ae_deliver env \<noteq> Answers)
    \<and> (\<forall>r. get_row (is_job i) (pd_jobs d2) = Some r \<and> mj_answer r = None \<and> seen_delivery i (Some (ae_taker env)) d2 = None
        \<and> ae_deliver env \<noteq> Lost_Before \<longrightarrow> (\<exists>r'. get_row (is_job i) (pd_jobs d') = Some r' \<and> mj_answer r' = Some refused))"
proof -
  define dl where "dl = rpc_call (ae_deliver env) (deliver owner i refused (Some (ae_taker env)) (ae_deliver_at env)) d2"
  define d3 where "d3 = snd dl"
  have tk: "rpc_call (ae_take env) (takeJob i (Some (ae_taker env)) (ae_take_at env)) d = (Some (Some (Some request)), d1)"
    by (simp add: rpc_call_def assms(2,3))
  have run: "runModelCall owner env i d = (no_end\<lparr>en_threw := fst dl = None, en_phase := Ph_Admit, en_request := Some request\<rparr>,
      if fst dl = None then snd (rpc_call (ae_release env) (releaseJob i (ae_taker env)) d3) else d3)"
    by (simp add: runModelCall_def withTake_def tk assms(4,5) d2_def [symmetric] use_call_def deliver_rpc_def
        dl_def [symmetric] d3_def split_def no_end_def)
  have threw: "fst dl = None \<longleftrightarrow> ae_deliver env \<noteq> Answers"
    by (cases "ae_deliver env") (simp_all add: dl_def rpc_call_def split_def)
  have "jobs_ok d1" using do_jobs_ok [OF assms(1), of owner "ae_take_at env" "Ev_Take i (Some (ae_taker env))"] assms(2) by simp
  then have ok: "jobs_ok d2" unfolding d2_def by (rule run_jobs_ok)
  have kept: "\<exists>r'. get_row (is_job i) (pd_jobs (snd (runModelCall owner env i d))) = Some r' \<and> mj_answer r' = Some refused"
    if r: "get_row (is_job i) (pd_jobs d2) = Some r" "mj_answer r = None" "seen_delivery i (Some (ae_taker env)) d2 = None"
      and w: "ae_deliver env \<noteq> Lost_Before" for r
  proof -
    have "d3 = snd (deliver owner i refused (Some (ae_taker env)) (ae_deliver_at env) d2)"
      using w by (cases "ae_deliver env") (simp_all add: d3_def dl_def rpc_call_def split_def)
    with delivered_answer [OF ok r, of owner refused "ae_deliver_at env"]
    obtain r3 where "get_row (is_job i) (pd_jobs d3) = Some r3" "mj_answer r3 = Some refused" by auto
    with release_keeps_answer [OF this] show ?thesis unfolding run by auto
  qed
  have "\<not> en_called (fst (runModelCall owner env i d))" "en_threw (fst (runModelCall owner env i d)) \<longleftrightarrow> ae_deliver env \<noteq> Answers"
    unfolding run using threw by (simp_all add: no_end_def)
  with kept show ?thesis by (auto simp: split_def)
qed

text \<open>A failed attempt gives its take back, so another may take the job at once.\<close>

lemma release_frees:
  assumes "jobs_ok d" and "job_held i d = Some (w, u)" and "get_row (is_job i) (pd_jobs (snd (releaseJob i w d))) = Some r" and "is_out r"
  shows "took (fst (takeJob i (Some w') now (snd (releaseJob i w d))))"
proof -
  let ?mine = "\<lambda>r. is_job i r \<and> mj_taken_by r = Some w"
  obtain x where x: "get_row (is_job i) (pd_jobs d) = Some x" "mj_taken_by x = Some w" using assms(2) by (auto simp: job_held_def split: option.splits)
  have "is_job i x" using x(1) by (auto dest: get_row_SomeD)
  have "get_row (is_job i) (update_where ?mine (\<lambda>r. r\<lparr>mj_taken_at := None, mj_taken_by := None\<rparr>) (pd_jobs d))
      = map_option (\<lambda>r. if ?mine r then r\<lparr>mj_taken_at := None, mj_taken_by := None\<rparr> else r) (get_row (is_job i) (pd_jobs d))"
    by (rule get_row_update_where) (simp add: is_job_def)
  with x \<open>is_job i x\<close> assms(3) have "mj_taken_at r = None" by (auto simp: releaseJob_def Let_def)
  then have "untaken now r" by (simp add: untaken_def)
  moreover have "jobs_ok (snd (releaseJob i w d))" using do_jobs_ok [OF assms(1), of undefined 0 "Ev_Release i w"] by simp
  ultimately show ?thesis using take_hold_unfold [of "snd (releaseJob i w d)" i w' now] assms(3,4) by (simp add: took_def)
qed

lemma failed_is_free:
  assumes "jobs_ok d" and "runModelCall owner env i d = (e, d')" and "en_threw e" and "en_request e \<noteq> None" and "ae_release env = Answers"
    and "ae_during env = pd_run owner evs"
    and "\<forall>(u, ev)\<in>set evs. u < ae_take_at env + TAKE_HOLD_MS \<and> ev \<noteq> Ev_Release i (ae_taker env) \<and> ev \<noteq> Ev_Take i (Some (ae_taker env))"
    and "ae_deliver_at env < ae_take_at env + TAKE_HOLD_MS"
    and "get_row (is_job i) (pd_jobs d') = Some r" and "is_out r"
  shows "took (fst (takeJob i (Some w) now d'))"
proof -
  let ?t = "ae_taker env" and ?u = "ae_take_at env + TAKE_HOLD_MS"
  obtain request where req: "en_request e = Some request" using assms(4) by auto
  have tk: "ae_take env = Answers" "fst (takeJob i (Some ?t) (ae_take_at env) d) = Some (Some request)"
    using withTake_request [of env i "use_call owner env i" d e d' request] assms(2) req by (simp_all add: runModelCall_def)
  obtain d1 where d1: "takeJob i (Some ?t) (ae_take_at env) d = (Some (Some request), d1)" using tk(2) by (metis prod.collapse)
  then have "take_hold i (ae_take_at env) ?t d = (True, d1)" by (simp add: take_hold_def)
  then have h1: "jobs_ok d1" "job_held i d1 = Some (?t, ?u)"
    using call_hold.take_wins [OF assms(1)] call_hold.take_good [OF assms(1), of i "ae_take_at env" ?t] by simp_all
  have "list_all (call_hold.leaves_hold i ?t ?u) (map (\<lambda>(t, e). pd_do owner t e) evs)"
    unfolding list_all_iff
  proof
    fix f assume "f \<in> set (map (\<lambda>(t, e). pd_do owner t e) evs)"
    then obtain u ev where e: "(u, ev) \<in> set evs" "f = pd_do owner u ev" by auto
    with assms(7) have "u < ?u" "ev \<noteq> Ev_Release i ?t" "\<forall>v. ev = Ev_Take i (Some v) \<longrightarrow> v \<noteq> ?t" by auto
    from event_leaves_hold [OF this] show "call_hold.leaves_hold i ?t ?u f" by (simp only: e(2))
  qed
  from call_hold.hold_through [OF h1 this] have h2: "jobs_ok (pd_run owner evs d1)" "job_held i (pd_run owner evs d1) = Some (?t, ?u)"
    by (simp_all add: run_as_fold)
  obtain e2 d2 where u: "use_call owner env i request (pd_run owner evs d1) = (e2, d2)" by fastforce
  have "d2 = pd_run owner evs d1 \<or> (\<exists>m. d2 = snd (deliver owner i m (Some ?t) (ae_deliver_at env) (pd_run owner evs d1)))"
    using u by (auto simp: use_call_def deliver_rpc_def rpc_call_def split: option.splits rpc.splits)
  moreover have "call_hold.leaves_hold i ?t ?u (pd_do owner (ae_deliver_at env) (Ev_Deliver i m (Some ?t)))" for m
    by (rule event_leaves_hold) (use assms(8) in simp_all)
  ultimately have h3: "jobs_ok d2" "job_held i d2 = Some (?t, ?u)" using h2 by (auto simp: call_hold.leaves_hold_def)
  have "en_threw e2" "d' = snd (releaseJob i ?t d2)"
    using assms(2,3,5,6) tk(1) d1 u by (auto simp: runModelCall_def withTake_def rpc_call_def)
  with release_frees [OF h3] assms(9,10) show ?thesis by simp
qed

section \<open>A prewarm is taken once\<close>

definition prewarm_taken :: "prewarm_db \<Rightarrow> bool" where
  "prewarm_taken d \<longleftrightarrow> (case pb_row d of None \<Rightarrow> False | Some r \<Rightarrow> pw_state r \<noteq> Pw_Queued)"

interpretation prewarm_take: one_winner "takePrewarm_row migration" prewarm_taken for migration
proof
qed (auto simp: takePrewarm_row_def prewarm_taken_def split: option.splits if_splits)

definition prewarm_done :: "prewarm_db \<Rightarrow> bool" where
  "prewarm_done d \<longleftrightarrow> (case pb_row d of None \<Rightarrow> False | Some r \<Rightarrow> pw_state r = Pw_Done)"

definition end_prewarm :: "string \<times> string \<Rightarrow> string \<Rightarrow> string \<times> prewarm_report option \<times> int \<Rightarrow> prewarm_db \<Rightarrow> bool \<times> prewarm_db" where
  "end_prewarm owner migration c d = prewarmEnded owner migration (fst c) (fst (snd c)) (snd (snd c)) d"

interpretation prewarm_end: one_winner "end_prewarm owner migration" prewarm_done for owner migration
proof
qed (auto simp: end_prewarm_def prewarmEnded_def finishPrewarm_def prewarm_done_def split: option.splits if_splits prod.splits bool.splits)

end
