(* ===== verification/Model_Cases.thy ===== *)
theory Model_Cases
  imports Model_Queue
begin

text \<open>
  What the model calls of an agent promise, from the tables to the queue: the properties of \<open>Model_Jobs\<close> and \<open>Model_Queue\<close> with the runs
  they are tried on, and two runs in which the code does less than its comments say.
\<close>

section \<open>Runs\<close>

definition no_usage :: usage_db where
  "no_usage = \<lparr>usage_outbox = [], usage_seq = 0, do_activity = [], usage_active = [], usage_held = []\<rparr>"

definition pd_none :: pd_db where
  "pd_none = \<lparr>pd_meta = [], pd_jobs = [], pd_conversations = [], pd_settled = [], pd_deliveries = [], pd_usage = no_usage, pd_trace = [],
     pd_tasks = [], pd_staged = []\<rparr>"

definition call_owner :: "string \<times> string" where "call_owner = (''t'', ''a'')"

definition plain_answer :: model_answer where
  "plain_answer = \<lparr>an_role = ''assistant'', an_stop = SStop, an_content = None, an_error = None, an_provider_error = None, an_model = Some ''m'',
     an_usage = Some \<lparr>tu_input = Some 5, tu_output = Some 2, tu_cache_read = None, tu_cache_write = None, tu_cache_write_1h = None, tu_reasoning = None\<rparr>,
     an_payer_own = False, an_job = Some ''j''\<rparr>"

definition poll_of :: "string \<Rightarrow> task_state" where "poll_of i = \<lparr>ts_poll = Some i, ts_outcome = None\<rparr>"

text \<open>A job started at 1, whose commit landed at 2 and was sent.\<close>

definition job_events :: "(int \<times> pd_event) list" where
  "job_events = [(1, Ev_Start ''j'' (JObj [])), (2, Ev_Commit False [Task_Write 7 ''pi.generation'' 1 (poll_of ''j'')]), (2, Ev_Sent ''j'')]"

definition one_job :: pd_db where "one_job = pd_run call_owner job_events pd_none"

definition taken_job :: pd_db where "taken_job = snd (takeJob ''j'' (Some ''w1'') 10 one_job)"

definition answered_job :: pd_db where "answered_job = snd (deliver call_owner ''j'' plain_answer (Some ''w1'') 20 taken_job)"

lemma none_ok: "jobs_ok pd_none" by (simp add: jobs_ok_def pd_none_def)

lemma one_job_ok: "jobs_ok one_job" unfolding one_job_def by (rule run_jobs_ok [OF none_ok])

lemma taken_ok: "jobs_ok taken_job"
  using do_jobs_ok [OF one_job_ok, of undefined 10 "Ev_Take ''j'' (Some ''w1'')"] by (simp add: taken_job_def)

lemma taken_run: "takeJob ''j'' (Some ''w1'') 10 one_job = (Some (Some (JObj [])), taken_job)"
proof -
  have "fst (takeJob ''j'' (Some ''w1'') 10 one_job) = Some (Some (JObj []))" by code_simp
  then show ?thesis by (simp add: taken_job_def prod_eq_iff)
qed

lemma answered_run: "deliver call_owner ''j'' plain_answer (Some ''w1'') 20 taken_job = (V_Accepted, answered_job)"
proof -
  have "fst (deliver call_owner ''j'' plain_answer (Some ''w1'') 20 taken_job) = V_Accepted" by code_simp
  then show ?thesis by (simp add: answered_job_def prod_eq_iff)
qed

definition quiet_attempt :: attempt_env where
  "quiet_attempt = \<lparr>ae_taker = ''w1'', ae_take = Answers, ae_admit = (\<lambda>_. Some None), ae_call = (\<lambda>_. None), ae_deliver = Answers, ae_release = Answers,
     ae_during = pd_run call_owner [], ae_started = 9, ae_take_at = 10, ae_call_at = 11, ae_answer_at = 12, ae_deliver_at = 13, ae_failed_at = 14,
     ae_outcome = O_Timeout, ae_delivery = Some 1\<rparr>"

section \<open>Properties\<close>

text \<open>
  C23: From a take until its hold runs out, no other attempt is given the job to call the model with, whatever commits, deliveries, other
  takes and other workers' releases happen in between, unless the attempt that holds it gives it back.
\<close>
theorem a_job_is_called_by_one_attempt_at_a_time:
  assumes "jobs_ok d" and "takeJob i (Some w) t d = (Some (Some request), d')"
    and "\<forall>(u, e)\<in>set evs. u < t + TAKE_HOLD_MS \<and> e \<noteq> Ev_Release i w \<and> e \<noteq> Ev_Take i (Some w)"
    and "now < t + TAKE_HOLD_MS" and "w' \<noteq> w"
  shows "\<not> took (fst (takeJob i (Some w') now (pd_run owner evs d')))"
  using assms by (rule one_attempt)

theorem a_job_is_called_by_one_attempt_at_a_time_witness:
  "\<not> took (fst (takeJob ''j'' (Some ''w2'') 600000 (pd_run call_owner [(30, Ev_Sent ''j''), (40, Ev_Take ''j'' (Some ''w3''))] taken_job)))"
  by (rule a_job_is_called_by_one_attempt_at_a_time [OF one_job_ok taken_run]) (simp_all add: TAKE_HOLD_MS_def MODEL_CALL_DEADLINE_MS_def)

text \<open>
  C22: Whatever commits, takes, deliveries, replays and cancels there are, and in whatever order, the tokens metered as the tenant's are
  those of the answers that are kept, each once, at the time it was delivered.
\<close>
theorem a_kept_answer_is_metered_once:
  "mset (tenant_tokens (pd_run owner evs pd_none)) = mset (kept_tokens owner (pd_run owner evs pd_none))"
  by (rule run_meters [OF none_ok]) (simp add: tenant_tokens_def kept_tokens_def pd_none_def no_usage_def)

text \<open>
  C24: The first answer a job accepts is final: it is what every later poll reads (marked, when it is an error that the request does not fit the
  model, with the error that says so, and otherwise as it was delivered), the job is never given out or sent again, and no later delivery
  that is not a replay is accepted. This holds however the job's tables go on being used.
\<close>
theorem an_accepted_answer_is_final:
  assumes "jobs_ok d" and "deliver owner i m taker t d = (V_Accepted, d')" and "seen_delivery i taker d = None"
  shows "(\<exists>r. get_row (is_job i) (pd_jobs (pd_run owner evs d')) = Some r \<and> mj_answer r = Some m \<and> mj_answered r = Some t
        \<and> pollJob history i d' = pollJob history i (pd_run owner evs d')
        \<and> pollJob history i (pd_run owner evs d')
            = Some (if an_stop m = SError \<and> history m (mj_request r) then m\<lparr>an_error := Some PD_OVERFLOW_ERROR\<rparr> else m))
    \<and> \<not> took (fst (takeJob i w now (pd_run owner evs d'))) \<and> i \<notin> set (sweep_ids now limit (pd_run owner evs d'))
    \<and> (seen_delivery i v (pd_run owner evs d') = None \<longrightarrow> fst (deliver owner i m' v now (pd_run owner evs d')) = V_Refused)"
proof -
  have "has_row (\<lambda>r. is_job i r \<and> mj_answer r = None) (pd_jobs d)"
    using assms(2,3) by (auto simp: deliver_def Let_def split: if_splits)
  then obtain r where r: "get_row (is_job i) (pd_jobs d) = Some r" "mj_answer r = None"
    using get_row_where [OF assms(1), of i "\<lambda>r. mj_answer r = None"] by (auto simp: has_row_get_row split: option.splits if_splits)
  obtain r1 where r1: "get_row (is_job i) (pd_jobs d') = Some r1" "mj_answer r1 = Some m" "mj_answered r1 = Some t"
    using delivered_row [OF r assms(3), of owner m t] assms(2) by auto
  obtain r2 where r2: "get_row (is_job i) (pd_jobs (pd_run owner evs d')) = Some r2" "mj_answer r2 = Some m" "mj_answered r2 = Some t"
      "mj_request r2 = mj_request r1"
    using run_keeps [OF r1(1), of owner evs] r1(2,3) by (auto simp: keeps_def)
  have poll: "pollJob history i (pd_run owner evs d') = Some (markOverflow history m (mj_request r2))" "pollJob history i d' = Some (markOverflow history m (mj_request r1))"
    using r1 r2 by (simp_all add: pollJob_def)
  have ok: "jobs_ok d'" using do_jobs_ok [OF assms(1), of owner t "Ev_Deliver i m taker"] assms(2) by simp
  have "\<not> is_out r1" by (simp add: is_out_def r1)
  with ended_stays_ended [OF ok r1(1)] r2 refused_second [OF run_jobs_ok [OF ok] r2(1)] poll show ?thesis
    by (simp add: markOverflow_def)
qed

theorem an_accepted_answer_is_final_witness:
  "\<not> took (fst (takeJob ''j'' (Some ''w9'') 900000 (pd_run call_owner [(21, Ev_Drop ''j'')] answered_job)))"
proof -
  have "seen_delivery ''j'' (Some ''w1'') taken_job = None" by code_simp
  from an_accepted_answer_is_final [OF taken_ok answered_run this, of "[(21, Ev_Drop ''j'')]" "\<lambda>_ _. False" "Some ''w9''" 900000] show ?thesis by blast
qed

text \<open>
  A delivery replayed under its attempt's name within a day of the first gets the first one's verdict, changes nothing and meters
  nothing.
\<close>
theorem a_replayed_delivery_changes_nothing:
  assumes "seen_delivery i (Some w) d = None" and "deliver owner i m (Some w) t d = (v, d1)"
    and "\<forall>(u, e)\<in>set evs. u \<le> t + DELIVERIES_KEEP_MS"
  shows "deliver owner i m' (Some w) now (pd_run owner evs d1) = (v, pd_run owner evs d1)"
  using assms by (rule replay_same)

theorem a_replayed_delivery_changes_nothing_witness:
  "deliver call_owner ''j'' plain_answer (Some ''w1'') 99 (pd_run call_owner [(50, Ev_Drop ''j'')] answered_job)
    = (V_Accepted, pd_run call_owner [(50, Ev_Drop ''j'')] answered_job)"
proof -
  have "seen_delivery ''j'' (Some ''w1'') taken_job = None" by code_simp
  from a_replayed_delivery_changes_nothing [OF this answered_run] show ?thesis by (simp add: DELIVERIES_KEEP_MS_def)
qed

text \<open>
  C25: A job that is out, and that nobody takes or answers, is sent again: an object that parks until the time it computed for the
  earliest of its jobs, and sweeps when it comes back, sends it at the moment its dispatch and the take on it have run out. This is for at
  most 20 jobs out at a time (a sweep sends the 20 oldest due ones, the rest wait for the next), a queue that takes every send, and passes
  that take no time (\<open>a_job_due_during_a_step_waits_longer\<close> has a job that falls due while a pass runs).
\<close>
theorem an_unanswered_job_is_sent_again:
  assumes "jobs_ok d" and "r \<in> set (pd_jobs d)" and "is_out r" and "length (filter is_out (pd_jobs d)) \<le> 20"
  shows "\<exists>n T d'. resend_rounds n now d = (T, d') \<and> mj_id r \<in> set (sweep_ids T 20 d') \<and> now \<le> T \<and> T = job_due now r
    \<and> (\<exists>x\<in>set (pd_jobs (resend T d')). mj_id x = mj_id r \<and> mj_dispatched x = Some T)"
proof -
  obtain n T d' where s: "resend_rounds n now d = (T, d')" "mj_id r \<in> set (sweep_ids T 20 d')" "now \<le> T" "T = job_due now r"
    using sent_again [OF assms] by blast
  then obtain x where "x \<in> set (pd_jobs d')" "mj_id x = mj_id r" unfolding sweep_ids_def by (auto dest!: in_set_takeD)
  with s(2) have "\<exists>x\<in>set (pd_jobs (resend T d')). mj_id x = mj_id r \<and> mj_dispatched x = Some T"
    by (intro bexI [of _ "x\<lparr>mj_dispatched := Some T\<rparr>"]) (auto simp: resend_jobs intro!: rev_image_eqI [of x])
  with s show ?thesis by blast
qed

theorem an_unanswered_job_is_sent_again_witness:
  "\<exists>n T d'. resend_rounds n 15 taken_job = (T, d') \<and> ''j'' \<in> set (sweep_ids T 20 d') \<and> T = 660010"
proof -
  have j: "pd_jobs taken_job = [\<lparr>mj_id = ''j'', mj_conversation = Some 1, mj_request = JObj [], mj_answer = None, mj_created = 2, mj_dispatched = Some 2,
      mj_answered = None, mj_state = None, mj_taken_at = Some 10, mj_taken_by = Some ''w1''\<rparr>]" by code_simp
  let ?r = "hd (pd_jobs taken_job)"
  have "job_due 15 ?r = 660010" by (simp add: j job_due_def TAKE_HOLD_MS_def MODEL_CALL_DEADLINE_MS_def REDELIVERY_MS_def)
  with an_unanswered_job_is_sent_again [OF taken_ok, of ?r 15] show ?thesis by (auto simp: j is_out_def)
qed

text \<open>
  C26: A call that an attempt took and the spend limit refuses is answered, not sent: the provider is not asked, and the attempt throws, so that its message is
  delivered again, exactly when the delivery of the refusal gets no answer. Unless that delivery is lost before it arrives, or the job was
  answered or dropped while the limit was read, or this attempt's name has delivered before, the job has the refusal as its answer, also
  when the attempt then throws and gives its take back.
\<close>
theorem a_refused_call_is_answered_not_sent:
  assumes "jobs_ok d" and "takeJob i (Some (ae_taker env)) (ae_take_at env) d = (Some (Some request), d1)" and "ae_take env = Answers"
    and "ae_admit env request = Some (Some refused)" and "ae_during env = pd_run owner evs"
  shows "case runModelCall owner env i d of (e, d') \<Rightarrow> \<not> en_called e \<and> (en_threw e \<longleftrightarrow> ae_deliver env \<noteq> Answers)
    \<and> (\<forall>r. get_row (is_job i) (pd_jobs (pd_run owner evs d1)) = Some r \<and> mj_answer r = None
          \<and> seen_delivery i (Some (ae_taker env)) (pd_run owner evs d1) = None \<and> ae_deliver env \<noteq> Lost_Before
        \<longrightarrow> (\<exists>r'. get_row (is_job i) (pd_jobs d') = Some r' \<and> mj_answer r' = Some refused))"
  using assms by (rule refused_is_answered)

text \<open>The delivery is stored and its answer is lost: the attempt throws, and the refusal stays.\<close>

theorem a_refused_call_is_answered_not_sent_witness:
  "case runModelCall call_owner (quiet_attempt\<lparr>ae_admit := \<lambda>_. Some (Some plain_answer), ae_deliver := Lost_After\<rparr>) ''j'' one_job of (e, d') \<Rightarrow>
     \<not> en_called e \<and> en_threw e \<and> (\<exists>r'. get_row (is_job ''j'') (pd_jobs d') = Some r' \<and> mj_answer r' = Some plain_answer)"
proof -
  let ?env = "quiet_attempt\<lparr>ae_admit := \<lambda>_. Some (Some plain_answer), ae_deliver := Lost_After\<rparr>"
  have j: "get_row (is_job ''j'') (pd_jobs (pd_run call_owner [] taken_job)) = Some (hd (pd_jobs taken_job))" "mj_answer (hd (pd_jobs taken_job)) = None"
    "seen_delivery ''j'' (Some ''w1'') (pd_run call_owner [] taken_job) = None" by code_simp+
  from a_refused_call_is_answered_not_sent [OF one_job_ok, of "''j''" ?env "JObj []" taken_job plain_answer call_owner "[]"] j taken_run
  show ?thesis by (auto simp: quiet_attempt_def)
qed

text \<open>
  An attempt that took its job and then failed, and whose release arrived, leaves the job free: unless the job was answered or ended
  meanwhile, the next attempt takes it at once, without waiting for the hold to run out.
\<close>
theorem a_failed_attempt_leaves_its_job_free:
  assumes "jobs_ok d" and "runModelCall owner env i d = (e, d')" and "en_threw e" and "en_request e \<noteq> None" and "ae_release env = Answers"
    and "ae_during env = pd_run owner evs"
    and "\<forall>(u, ev)\<in>set evs. u < ae_take_at env + TAKE_HOLD_MS \<and> ev \<noteq> Ev_Release i (ae_taker env) \<and> ev \<noteq> Ev_Take i (Some (ae_taker env))"
    and "ae_deliver_at env < ae_take_at env + TAKE_HOLD_MS"
    and "get_row (is_job i) (pd_jobs d') = Some r" and "is_out r"
  shows "took (fst (takeJob i (Some w) now d'))"
  using assms by (rule failed_is_free)

theorem a_failed_attempt_leaves_its_job_free_witness:
  "took (fst (takeJob ''j'' (Some ''w2'') 14 (snd (runModelCall call_owner quiet_attempt ''j'' one_job))))"
proof -
  obtain e d' where r: "runModelCall call_owner quiet_attempt ''j'' one_job = (e, d')" by fastforce
  have e: "en_threw (fst (runModelCall call_owner quiet_attempt ''j'' one_job))" "en_request (fst (runModelCall call_owner quiet_attempt ''j'' one_job)) \<noteq> None"
    by code_simp+
  have g: "get_row (is_job ''j'') (pd_jobs (snd (runModelCall call_owner quiet_attempt ''j'' one_job))) = Some (hd (pd_jobs (snd (runModelCall call_owner quiet_attempt ''j'' one_job))))"
    "is_out (hd (pd_jobs (snd (runModelCall call_owner quiet_attempt ''j'' one_job))))" by code_simp+
  have "took (fst (takeJob ''j'' (Some ''w2'') 14 d'))"
    by (rule a_failed_attempt_leaves_its_job_free [OF one_job_ok r])
      (use e g r in \<open>auto simp: quiet_attempt_def TAKE_HOLD_MS_def MODEL_CALL_DEADLINE_MS_def\<close>)
  then show ?thesis by (simp add: r)
qed

text \<open>
  A batch settles every message it was given, each once: a prewarm is always acked, and a model call is acked, unless its attempt threw,
  and then it is retried.
\<close>
theorem a_batch_settles_every_message:
  assumes "consumeModelCalls owner False given_up (before @ m # after) w = (ss, threw, w')"
  shows "\<not> threw \<and> length ss = length before + Suc (length after)
    \<and> ss ! length before = (if throws_now owner m (snd (snd (consumeModelCalls owner False given_up before w))) then Retried else Acked)"
proof -
  obtain ss1 t1 w1 where b: "consumeModelCalls owner False given_up before w = (ss1, t1, w1)" by (metis prod_cases3)
  obtain w2 where s: "consumeModelCalls owner False given_up (m # after) w1 =
     (case consumeModelCalls owner False given_up after w2 of (ss, threw, w3) \<Rightarrow> ((if throws_now owner m w1 then Retried else Acked) # ss, threw, w3))"
    using consume_step by blast
  obtain ss2 t2 w3 where a: "consumeModelCalls owner False given_up after w2 = (ss2, t2, w3)" by (metis prod_cases3)
  have "ss = ss1 @ (if throws_now owner m w1 then Retried else Acked) # ss2" using assms by (simp add: consume_append b s a del: consumeModelCalls.simps)
  moreover have "length ss1 = length before" using consume_settles [OF b] by simp
  ultimately show ?thesis using consume_settles [OF assms] by (simp add: b nth_append)
qed

definition quiet_prewarm :: prewarm_env where
  "quiet_prewarm = \<lparr>pe_take = Answers, pe_skip = None, pe_build = Inr (JObj []), pe_admit = (\<lambda>_. Inr False),
     pe_call = (\<lambda>_. Inr (''warmed'', \<lparr>pr_model = ''m'', pr_ms = None, pr_usage = None\<rparr>)), pe_done = Answers, pe_take_at = 1, pe_done_at = 2\<rparr>"

definition failing_message :: queue_message where
  "failing_message = \<lparr>qm_call = \<lparr>qc_job = ''j'', qc_prewarm = False\<rparr>, qm_env = quiet_attempt, qm_prewarm = quiet_prewarm, qm_traced = True\<rparr>"

definition one_world :: queue_world where
  "one_world = \<lparr>qw_pd = one_job, qw_prewarm = \<lparr>pb_row = None, pb_usage = no_usage, pb_trace = []\<rparr>\<rparr>"

theorem a_batch_settles_every_message_witness:
  "length (fst (consumeModelCalls call_owner False plain_answer [failing_message] one_world)) = 1
   \<and> fst (consumeModelCalls call_owner False plain_answer [failing_message] one_world) ! 0 = Retried"
proof -
  obtain ss threw w' where c: "consumeModelCalls call_owner False plain_answer ([] @ failing_message # []) one_world = (ss, threw, w')" by (metis prod_cases3)
  have t: "throws_now call_owner failing_message one_world" by code_simp
  from a_batch_settles_every_message [OF c] t c show ?thesis by simp
qed

section \<open>Where the code does less than its comments say\<close>

text \<open>
  A job whose dispatch runs out while a step's harness settles was not due when that step swept, and is past due when the step computes
  when to come back: it is treated as one that was just tried and failed, and waits a whole interval more.
\<close>
lemma a_job_due_during_a_step_waits_longer:
  "sweep_ids 100000 20 one_job = [] \<and> redeliveryDue 125000 one_job = Some 245000 \<and> job_due 100000 (hd (pd_jobs one_job)) = 120002"
  by code_simp

text \<open>
  A take whose answer is lost is not given back: the attempt throws before it, the message delivered again finds the job under a live take
  and is acked, and nobody calls the model until the hold has run out.
\<close>
lemma a_lost_take_stalls_its_job:
  "let first = failing_message\<lparr>qm_env := quiet_attempt\<lparr>ae_take := Lost_After\<rparr>\<rparr>;
       again = failing_message\<lparr>qm_env := quiet_attempt\<lparr>ae_taker := ''w2'', ae_take_at := 60000, ae_call := \<lambda>_. Some plain_answer\<rparr>\<rparr>;
       (ss, _, w) = consumeModelCalls call_owner False plain_answer [first, again] one_world in
   ss = [Retried, Acked] \<and> map mj_answer (pd_jobs (qw_pd w)) = [None] \<and> sweep_ids 660009 20 (qw_pd w) = [] \<and> sweep_ids 660010 20 (qw_pd w) = [''j'']"
  by code_simp

end
