(* ===== verification/Store_Runs.thy ===== *)
theory Store_Runs
  imports Advance Outbox Operations Approvals Quotas Agent_State Plugin_Db Mounts Seed_Record
begin

text \<open>
  The operations of the store together: a step relation with one rule per operation that changes state, and what every run of them keeps,
  whatever the order and the arguments. The history is never rewritten, its numbering stays sound, counters never go back, and no task
  is lost or taken back to an earlier version, generation or fencing token. On top of it, the document table as a map from keys to
  entries, which its operations refine.
\<close>

section \<open>Steps\<close>

text \<open>The operations that leave the log, the tasks and the counters alone.\<close>

inductive side_step :: "store \<Rightarrow> store \<Rightarrow> bool" where
  createAgent: "createAgent now tn ag c s = Inr s' \<Longrightarrow> side_step s s'"
| updateAgentConfig: "side_step s (snd (updateAgentConfig tn ag c s))"
| putSnapshot: "side_step s (putSnapshot now tn tk through state ver s)"
| pruneSnapshots: "side_step s (snd (pruneSnapshots tn tk keep s))"
| releaseIfNoWork: "side_step s (snd (releaseIfNoWork tn tk fencing consumer s))"
| claimOutbox: "side_step s (snd (claimOutbox limit tenant s))"
| do_claimOutbox: "side_step s (snd (do_claimOutbox now limit tenant s))"
| markDispatched: "side_step s (markDispatched now command s)"
| settleAnswered: "side_step s (snd (settleAnswered s))"
| requeueStale: "side_step s (snd (requeueStale now older kinds s))"
| reclaimStuckClaims: "side_step s (snd (reclaimStuckClaims now older s))"
| claimRequest: "side_step s (snd (claimRequest now tn rq kind s))"
| finishRequest: "side_step s (finishRequest tn rq response s)"
| queueFollowUp: "side_step s (queueFollowUp now tn ag tk text s)"
| recordOperation: "side_step s (recordOperation now oid tn ag tk mt tool dedup digest s)"
| startOperation: "side_step s (snd (startOperation now tn oid s))"
| registerWait: "side_step s (snd (registerWait tn tk gen w s))"
| requireApproval: "side_step s (requireApproval now hr s)"
| holdApproval: "side_step s (snd (holdApproval now hr same s))"
| decideApproval: "side_step s (snd (decideApproval now tn oid decision approver by notice s))"
| claimApprovalRun: "side_step s (snd (claimApprovalRun tn oid at_time s))"
| finishApproval: "side_step s (snd (finishApproval tn oid how summary told s))"
| recordApprovalDelivery: "side_step s (snd (recordApprovalDelivery tn oid report s))"
| setQuota: "side_step s (setQuota now tn res limit_to window s)"
| consumeQuota: "side_step s (snd (consumeQuota now tn res amount s))"
| recordTrace: "side_step s (recordTrace rows s)"
| pruneTrace: "side_step s (pruneTrace through_seq s)"
| putState: "side_step s (putState now tn ag key entry s)"
| deleteState: "side_step s (snd (deleteState tn ag key s))"
| edit_document: "edit_document now tn ag key max_bytes max_total e s = Inr (size_now, s') \<Longrightarrow> side_step s s'"
| addMount: "addMount m s = Inr s' \<Longrightarrow> side_step s s'"
| change_mount: "side_step s (snd (change_mount tn ag al f s))"
| renameMount: "side_step s (snd (renameMount tn ag old new new_ref s))"
| removeMount: "side_step s (snd (removeMount tn ag al secret inst s))"
| setPluginChoice: "side_step s (setPluginChoice now tn ag plugin choice s)"
| putSecret: "side_step s (putSecret now tn ag name x s)"
| touchSecret: "side_step s (touchSecret tn ag name seen_at s)"
| removeSecret: "side_step s (snd (removeSecret tn ag name s))"
| setModelBinding: "side_step s (setModelBinding b s)"
| setVersion: "side_step s (setVersion now sc v s)"
| db_put: "side_step s (db_put now sc st k val idx s)"
| db_delete: "side_step s (db_delete sc st q s)"
| applySeedPass: "applySeedPass now tn ag pass t s = Inr (res, t', s') \<Longrightarrow> side_step s s'"

inductive store_step :: "store \<Rightarrow> store \<Rightarrow> bool" where
  side: "side_step s s' \<Longrightarrow> store_step s s'"
| createTask: "createTask now tn ag tk checkpoint ver s = Inr s' \<Longrightarrow> store_step s s'"
| appendEvent: "appendEvent now e s = Inr (r, s') \<Longrightarrow> store_step s s'"
| acquireLease: "store_step s (snd (acquireLease now tn tk holder ttl s))"
| commitAdvance: "store_step s (snd (commitAdvance now txn s))"
| interrupt: "interrupt now tn tk s = Inr (g, s') \<Longrightarrow> store_step s s'"
| interruptAgent: "store_step s (snd (interruptAgent now tn ag s))"
| reopenTask: "store_step s (snd (reopenTask now tn tk s))"
| completeOperation: "completeOperation redact now tn oid status ref result facts s = Inr s' \<Longrightarrow> store_step s s'"
| flushFollowUps: "store_step s (snd (flushFollowUps now tn ag tk s))"
| backfillStateBytes: "store_step s (snd (backfillStateBytes s))"

inductive_cases side_stepE: "side_step s s'"
inductive_cases store_stepE: "store_step s s'"

section \<open>What no step takes back\<close>

definition task_le :: "task_row \<Rightarrow> task_row \<Rightarrow> bool" where
  "task_le r r' \<longleftrightarrow> tk_tenant r' = tk_tenant r \<and> tk_id r' = tk_id r \<and> tk_agent r' = tk_agent r
     \<and> tk_version r \<le> tk_version r' \<and> tk_generation r \<le> tk_generation r' \<and> tk_fencing r \<le> tk_fencing r'"

definition tasks_grow :: "task_row list \<Rightarrow> task_row list \<Rightarrow> bool" where
  "tasks_grow rows rows' \<longleftrightarrow> (\<exists>kept new. rows' = kept @ new \<and> list_all2 task_le rows kept)"

definition grows :: "store \<Rightarrow> store \<Rightarrow> bool" where
  "grows s s' \<longleftrightarrow> (\<exists>new. events s' = events s @ new) \<and> (log_inv s \<longrightarrow> log_inv s') \<and> tasks_grow (tasks s) (tasks s')
     \<and> next_uuid s \<le> next_uuid s' \<and> (\<forall>name. counter_value name s \<le> counter_value name s')"

text \<open>The store's log, tasks and counters are as they were.\<close>

definition quiet :: "store \<Rightarrow> store \<Rightarrow> bool" where
  "quiet s s' \<longleftrightarrow> events s' = events s \<and> tasks s' = tasks s \<and> counters s' = counters s \<and> next_uuid s \<le> next_uuid s'"

lemma task_le_refl [simp]: "task_le r r"
  by (simp add: task_le_def)

lemma task_le_trans: "task_le a b \<Longrightarrow> task_le b c \<Longrightarrow> task_le a c"
  by (auto simp: task_le_def)

lemma tasks_grow_refl [simp]: "tasks_grow rows rows"
  unfolding tasks_grow_def by (rule exI [of _ rows]) (simp add: list_all2_refl)

lemma tasks_grow_trans:
  assumes "tasks_grow a b" and "tasks_grow b c"
  shows "tasks_grow a c"
proof -
  obtain k n where k: "b = k @ n" "list_all2 task_le a k" using assms(1) by (auto simp: tasks_grow_def)
  obtain k' n' where k': "c = k' @ n'" "list_all2 task_le b k'" using assms(2) by (auto simp: tasks_grow_def)
  from k'(2) k(1) obtain u v where u: "k' = u @ v" "list_all2 task_le k u" by (auto simp: list_all2_append1)
  have "list_all2 task_le a u" using list_all2_trans [of task_le task_le task_le, OF _ k(2) u(2)] task_le_trans by blast
  with k'(1) u(1) show ?thesis unfolding tasks_grow_def by (metis append_assoc)
qed

lemma tasks_grow_update: "(\<And>r. p r \<Longrightarrow> r \<in> set rows \<Longrightarrow> task_le r (f r)) \<Longrightarrow> tasks_grow rows (update_where p f rows)"
  unfolding tasks_grow_def update_where_def
  by (rule exI [of _ "map (\<lambda>r. if p r then f r else r) rows"]) (simp add: list_all2_conv_all_nth)

lemma tasks_grow_append: "tasks_grow rows (rows @ new)"
  unfolding tasks_grow_def by (metis list_all2_refl task_le_refl)

lemma grows_refl [simp]: "grows s s"
  by (simp add: grows_def)

lemma grows_trans: "grows s t \<Longrightarrow> grows t u \<Longrightarrow> grows s u"
  unfolding grows_def by (metis append_assoc order.trans tasks_grow_trans)

lemma quiet_grows: "quiet s s' \<Longrightarrow> grows s s'"
  using log_inv_cong [of s' s] by (simp add: quiet_def grows_def counter_value_def)

lemma tasks_only:
  assumes "events s' = events s" and "counters s' = counters s" and "next_uuid s \<le> next_uuid s'" and "tasks_grow (tasks s) (tasks s')"
  shows "grows s s'"
  using assms log_inv_cong [of s' s] by (simp add: grows_def counter_value_def)

lemma append_grows:
  assumes "insertEvent now e s = Inr (r, s')"
  shows "grows s s'"
proof -
  have "counter_value name s \<le> counter_value name s' \<and> next_uuid s \<le> next_uuid s'" for name
    using assms by (auto elim!: insertEvent_cases insert_freshE simp: counter_value_def)
  then show ?thesis
    using log_inv_insertEvent [OF _ assms] insertEvent_frame(1) [OF assms] insertEvent_appends [OF assms] by (auto simp: grows_def)
qed

lemma appendTrace_quiet [simp]:
  "events (appendTrace rows s) = events s" "tasks (appendTrace rows s) = tasks s" "counters (appendTrace rows s) = counters s"
  "next_uuid (appendTrace rows s) = next_uuid s"
proof -
  have "events (fold append_trace_row rows s) = events s \<and> tasks (fold append_trace_row rows s) = tasks s
      \<and> counters (fold append_trace_row rows s) = counters s \<and> next_uuid (fold append_trace_row rows s) = next_uuid s"
    by (induction rows arbitrary: s) (simp_all add: append_trace_row_def Let_def)
  then show "events (appendTrace rows s) = events s" "tasks (appendTrace rows s) = tasks s" "counters (appendTrace rows s) = counters s"
    "next_uuid (appendTrace rows s) = next_uuid s" by (simp_all add: appendTrace_def)
qed

lemmas quiet_defs = quiet_def createAgent_def updateAgentConfig_def putSnapshot_def pruneSnapshots_def releaseIfNoWork_def
  claimOutbox_def do_claimOutbox_def
  markDispatched_def settleAnswered_def requeueStale_def reclaimStuckClaims_def claimRequest_def finishRequest_def
  queueFollowUp_def recordOperation_def startOperation_def registerWait_def randomUUID_def
  requireApproval_def holdApproval_def decideApproval_def claimApprovalRun_def finishApproval_def recordApprovalDelivery_def
  setQuota_def write_usage_def consumeQuota_def recordTrace_def pruneTrace_def putState_def putStateRow_def deleteState_def
  addMount_def change_mount_def setPluginChoice_def putSecret_def touchSecret_def removeSecret_def setModelBinding_def
  setVersion_def db_put_def db_delete_def insert_row_def

lemma quiet_refl [simp]: "quiet s s"
  by (simp add: quiet_def)

lemma quiet_trans: "quiet s t \<Longrightarrow> quiet t u \<Longrightarrow> quiet s u"
  by (auto simp: quiet_def)

lemma recordApprovalDelivery_quiet: "quiet s (snd (recordApprovalDelivery tn oid report s))"
  by (cases "get_row (is_approval tn oid) (approvals s)")
    (simp_all add: recordApprovalDelivery_def quiet_def split: delivery_step.split)

lemma edit_document_quiet: "edit_document now tn ag key max_bytes max_total e s = Inr (sizes, s') \<Longrightarrow> quiet s s'"
  by (erule edit_writes, drule writeDocument_result) (simp add: quiet_def putStateRow_def)

lemma renameMount_quiet: "quiet s (snd (renameMount tn ag old new new_ref s))"
proof (cases "db_rename tn ag old new (s\<lparr>mounts := update_where (is_mount tn ag old) (\<lambda>m. m\<lparr>mt_alias := new\<rparr>) (mounts s)\<rparr>)")
  case (Inl e)
  then show ?thesis by (simp add: renameMount_def Let_def)
next
  case (Inr s2)
  then have "quiet s s2" by (auto simp: db_rename_def quiet_def Let_def split: if_splits)
  then show ?thesis using Inr by (auto simp: renameMount_def Let_def rename_secret_def quiet_def split: option.split)
qed

lemma removeMount_quiet: "quiet s (snd (removeMount tn ag al secret inst s))"
  by (simp add: removeMount_def db_remove_def quiet_def Let_def split: option.split)

lemma seed_entry_quiet: "seed_entry now tn ag creating prior p st = Inr st' \<Longrightarrow> quiet (pa_store st) (pa_store st')"
  by (auto simp: seed_entry_def record_entry_def quiet_def Let_def split: if_splits prod.splits option.splits sum.splits)

lemma applySeedPass_quiet:
  assumes "applySeedPass now tn ag pass t s = Inr (res, t', s')"
  shows "quiet s s'"
  using assms
proof (cases rule: pass_cases)
  case (ran st)
  have "seed_entries now tn ag creating prior ps st0 = Inr st1 \<Longrightarrow> quiet (pa_store st0) (pa_store st1)" for creating prior ps st0 st1
    by (induction ps arbitrary: st0) (auto split: sum.splits intro: quiet_trans seed_entry_quiet)
  from this [OF ran(1)] ran(3) show ?thesis by (simp add: start_pass_def)
qed simp

lemma side_step_quiet: "side_step s s' \<Longrightarrow> quiet s s'"
proof (induction rule: side_step.induct)
  case (createAgent now tn ag c s s')
  then show ?case by (auto simp: quiet_def createAgent_def insert_row_def split: option.splits if_splits)
next
  case (addMount m s s')
  then show ?case by (auto simp: quiet_def addMount_def split: if_splits)
next
  case (recordApprovalDelivery s tn oid report)
  show ?case by (rule recordApprovalDelivery_quiet)
next
  case (edit_document now tn ag key max_bytes max_total e s size_now s')
  then show ?case by (rule edit_document_quiet)
next
  case (renameMount s tn ag old new new_ref)
  show ?case by (rule renameMount_quiet)
next
  case (removeMount s tn ag al secret inst)
  show ?case by (rule removeMount_quiet)
next
  case (applySeedPass now tn ag pass t s res t' s')
  then show ?case by (rule applySeedPass_quiet)
qed (simp_all add: quiet_defs Let_def split_beta split: option.split)

section \<open>Every step grows the store\<close>

lemma createTask_grows: "createTask now tn ag tk checkpoint ver s = Inr s' \<Longrightarrow> grows s s'"
  by (rule tasks_only) (auto simp: createTask_def insert_row_def putSnapshot_def tasks_grow_append split: option.splits if_splits)

lemma acquireLease_grows: "grows s (snd (acquireLease now tn tk holder ttl s))"
proof -
  let ?s' = "snd (acquireLease now tn tk holder ttl s)"
  have e: "events ?s' = events s" "tasks ?s' = tasks s" "next_uuid ?s' = next_uuid s"
    and c: "counter_value name s \<le> counter_value name ?s'" for name
    by (auto simp: acquireLease_def nextCounter_def counter_value_def Let_def split: option.splits)
  with log_inv_cong [of ?s' s] show ?thesis by (simp add: grows_def)
qed

definition store_sound :: "store \<Rightarrow> bool" where
  "store_sound s \<longleftrightarrow> log_inv s \<and> distinct (map tk_id (tasks s))"

lemma commit_tasks:
  assumes "distinct (map tk_id (tasks s))" and "commitAdvance now txn s = (r, s')"
  shows "grows s s' \<and> map tk_id (tasks s') = map tk_id (tasks s)"
proof (cases r)
  case (Refused reason)
  with assms(2) have "s' = s" using commit_refused by blast
  then show ?thesis by simp
next
  case (Committed v)
  with assms(2) obtain t where t: "get_task (tx_tenant txn) (tx_task txn) s = Some t" "v = tk_version t + 1"
      "tk_fencing t \<le> tx_fencing txn" and s': "s' = commit_writes now txn v s" by (auto elim: commitE)
  let ?f = "\<lambda>r. r\<lparr>tk_status := tx_status txn, tk_checkpoint := tx_checkpoint txn, tk_version := v,
      tk_fencing := tx_fencing txn, tk_state_version := tx_state_version txn, tk_updated := now\<rparr>"
  have rows: "tasks s' = update_where (is_task (tx_tenant txn) (tx_task txn)) ?f (tasks s)"
    unfolding s' commit_writes_tasks by (simp add: commit_task_def)
  have only: "x = t" if "is_task (tx_tenant txn) (tx_task txn) x" "x \<in> set (tasks s)" for x
  proof -
    have "t \<in> set (tasks s) \<and> is_task (tx_tenant txn) (tx_task txn) t" using get_row_SomeD t(1) by (metis get_task_def)
    with that have "tk_id x = tk_id t" "t \<in> set (tasks s)" by (simp_all add: is_task_def)
    with that(2) assms(1) show ?thesis by (auto simp: distinct_map inj_on_def)
  qed
  have "tasks_grow (tasks s) (tasks s')"
    unfolding rows by (rule tasks_grow_update) (auto simp: task_le_def t(2,3) dest: only)
  then have "grows s s'" by (intro tasks_only) (simp_all add: s')
  moreover have "map tk_id (tasks s') = map tk_id (tasks s)" unfolding rows by (simp add: map_update_where)
  ultimately show ?thesis ..
qed

lemma interrupt_ids [simp]: "map tk_id (update_where p (interrupt_row now) rows) = map tk_id rows"
  by (rule map_update_where) (simp add: interrupt_row_def)

lemma interrupt_fold:
  "tasks_grow rows (fold (\<lambda>task. update_where (is_task tn task) (interrupt_row now)) ids rows)
   \<and> map tk_id (fold (\<lambda>task. update_where (is_task tn task) (interrupt_row now)) ids rows) = map tk_id rows"
proof (induction ids arbitrary: rows)
  case (Cons i ids)
  have "tasks_grow rows (update_where (is_task tn i) (interrupt_row now) rows)"
    by (rule tasks_grow_update) (simp add: task_le_def interrupt_row_def)
  with Cons.IH [of "update_where (is_task tn i) (interrupt_row now) rows"] show ?case
    using tasks_grow_trans by simp
qed simp

lemma reopen_tasks:
  "grows s (snd (reopenTask now tn tk s)) \<and> map tk_id (tasks (snd (reopenTask now tn tk s))) = map tk_id (tasks s)"
proof -
  have "grows s (set_runnable now tn tk s)"
    unfolding set_runnable_def by (rule tasks_only) (simp_all add: tasks_grow_update task_le_def)
  moreover have "map tk_id (tasks (set_runnable now tn tk s)) = map tk_id (tasks s)"
    by (simp add: set_runnable_def map_update_where)
  ultimately show ?thesis by (simp add: reopenTask_def split: option.split)
qed

lemma complete_tasks:
  assumes "completeOperation redact now tn oid status ref result facts s = Inr s'"
  shows "grows s s' \<and> tasks s' = tasks s"
proof -
  let ?s1 = "resolve_waits tn oid (set_status now tn oid status ref s)"
  have q: "quiet s ?s1" by (simp add: quiet_def resolve_waits_def set_status_def)
  show ?thesis
  proof (cases "get_op tn oid s")
    case None
    then have "s' = ?s1" using assms complete_unknown by fastforce
    with q show ?thesis by (simp add: quiet_grows)
  next
    case (Some op)
    with assms obtain r s2 where i: "insertEvent now (completed_event (completed_op now status ref op) oid
          (completedPayload oid status ref result facts)) ?s1 = Inr (r, s2)"
      and s': "s' = (if operationEnds (Some (op_status op)) status
         then appendTrace [toolCallRow redact (completed_op now status ref op) status now facts] s2 else s2)" by (rule completeE)
    have "grows s s2" using quiet_grows [OF q] append_grows [OF i] by (rule grows_trans)
    moreover have "quiet s2 s'" by (simp add: s' quiet_def)
    moreover have "tasks s2 = tasks s" using insertEvent_frame(1) [OF i] q by (simp add: quiet_def)
    ultimately show ?thesis using quiet_grows grows_trans by (simp add: quiet_def)
  qed
qed

lemma append_follow_ups_tasks:
  "append_follow_ups (\<lambda>_ s. s) now tn ag tk rows s = (e, s') \<Longrightarrow> grows s s' \<and> tasks s' = tasks s"
proof (induction rows arbitrary: s)
  case (Cons r rows)
  show ?case
  proof (cases "appendEvent now (follow_event tn ag tk (fu_text r)) s")
    case (Inr x)
    then obtain res s1 where i: "insertEvent now (follow_event tn ag tk (fu_text r)) s = Inr (res, s1)"
      by (cases x) (simp add: appendEvent_def)
    with Cons Inr append_grows [OF i] insertEvent_frame(1) [OF i] show ?thesis
      by (auto simp: appendEvent_def intro: grows_trans)
  qed (use Cons.prems in simp)
qed simp

lemma flush_tasks:
  "grows s (snd (flushFollowUps now tn ag tk s)) \<and> tasks (snd (flushFollowUps now tn ag tk s)) = tasks s"
proof -
  let ?rows = "order_by fu_created (filter (of_follow tn ag tk) (follow_ups s))"
  obtain e s1 where a: "append_follow_ups (\<lambda>_ s. s) now tn ag tk ?rows s = (e, s1)" by fastforce
  have g: "grows s s1" "tasks s1 = tasks s" using append_follow_ups_tasks [OF a] by simp_all
  have "quiet s1 (s1\<lparr>follow_ups := fs\<rparr>)" for fs by (simp add: quiet_def)
  then have "grows s (s1\<lparr>follow_ups := fs\<rparr>)" for fs using g(1) quiet_grows grows_trans by blast
  with a g show ?thesis by (auto simp: flushFollowUps_def flush_among_def Let_def split: option.split)
qed

lemma backfill_grows: "grows s (snd (backfillStateBytes s))"
proof -
  let ?s' = "snd (backfillStateBytes s)"
  have e: "events ?s' = events s" "tasks ?s' = tasks s" "next_uuid ?s' = next_uuid s"
    and c: "counter_value name s \<le> counter_value name ?s'" for name
    by (auto simp: backfillStateBytes_def counter_value_def Let_def)
  with log_inv_cong [of ?s' s] show ?thesis by (simp add: grows_def)
qed

lemma step_grows:
  assumes "store_step s s'" and "distinct (map tk_id (tasks s))"
  shows "grows s s' \<and> distinct (map tk_id (tasks s'))"
  using assms
proof (induction rule: store_step.induct)
  case (side s s')
  then show ?case using side_step_quiet [OF side(1)] by (simp add: quiet_grows) (simp add: quiet_def)
next
  case (createTask now tn ag tk checkpoint ver s s')
  then show ?case using createTask_grows [OF createTask(1)]
    by (auto simp: createTask_def insert_row_def putSnapshot_def has_row_iff split: option.splits if_splits)
next
  case (appendEvent now e s r s')
  then have i: "insertEvent now e s = Inr (r, s')" by (simp add: appendEvent_def)
  show ?case using append_grows [OF i] insertEvent_frame(1) [OF i] appendEvent by simp
next
  case (acquireLease s now tn tk holder ttl)
  moreover have "tasks (snd (acquireLease now tn tk holder ttl s)) = tasks s"
    by (auto simp: acquireLease_def nextCounter_def Let_def split: option.splits)
  ultimately show ?case using acquireLease_grows by simp
next
  case (commitAdvance s now txn)
  then show ?case using commit_tasks [of s now txn] by (cases "Advance.commitAdvance now txn s") simp
next
  case (interrupt now tn tk s g s')
  then obtain t where s': "s' = s\<lparr>tasks := update_where (is_task tn tk) (interrupt_row now) (tasks s)\<rparr>"
    by (auto elim: interrupt_cases)
  show ?case using interrupt(2) unfolding s'
    by (intro conjI tasks_only) (simp_all add: tasks_grow_update task_le_def interrupt_row_def map_update_where)
next
  case (interruptAgent s now tn ag)
  then show ?case using interrupt_fold [of "tasks s" tn now]
    by (intro conjI tasks_only) (simp_all add: interruptAgent_def Let_def)
next
  case (reopenTask s now tn tk)
  then show ?case using reopen_tasks [of s now tn tk] by simp
next
  case (completeOperation redact now tn oid status ref result facts s s')
  then show ?case using complete_tasks [OF completeOperation(1)] by simp
next
  case (flushFollowUps s now tn ag tk)
  then show ?case using flush_tasks [of s now tn ag tk] by simp
next
  case (backfillStateBytes s)
  moreover have "tasks (snd (Agent_State.backfillStateBytes s)) = tasks s" by (simp add: backfillStateBytes_def Let_def)
  ultimately show ?case using backfill_grows by simp
qed

lemma run_grows: "store_step\<^sup>*\<^sup>* s s' \<Longrightarrow> distinct (map tk_id (tasks s)) \<Longrightarrow> grows s s' \<and> distinct (map tk_id (tasks s'))"
  by (induction rule: rtranclp_induct) (auto dest: step_grows intro: grows_trans)

interpretation store_log: append_only events "\<lambda>s s'. store_step s s' \<and> distinct (map tk_id (tasks s))"
  by unfold_locales (use step_grows in \<open>auto simp: grows_def\<close>)

section \<open>What every run keeps\<close>

definition reachable :: "store \<Rightarrow> bool" where
  "reachable s \<longleftrightarrow> store_step\<^sup>*\<^sup>* init_store s"

lemma reachable_sound: "reachable s \<Longrightarrow> store_sound s"
  using run_grows [of init_store s] log_inv_init by (auto simp: reachable_def store_sound_def grows_def) (simp_all add: init_store_def)

lemma run_within:
  assumes "store_step\<^sup>*\<^sup>* s s'" and "distinct (map tk_id (tasks s))"
  shows "(\<lambda>s s'. store_step s s' \<and> distinct (map tk_id (tasks s)))\<^sup>*\<^sup>* s s'"
  using assms
proof (induction rule: rtranclp_induct)
  case (step t u)
  have "distinct (map tk_id (tasks t))" using run_grows [OF step.hyps(1) step.prems] by simp
  then show ?case using step.hyps(2) by (intro rtranclp.rtrancl_into_rtrancl [OF step.IH [OF step.prems]] conjI)
qed simp

text \<open>
  C1: Whatever the operations of the store are called with and in whatever order, the history is append-only and soundly numbered: in a store
  any run from a fresh one reaches, the sequence numbers of an agent's events rise without repeating, no de-duplication key of a tenant is
  in the log twice, and every event an earlier store of the run held is still at its place, unchanged.
\<close>

theorem history_is_never_rewritten:
  assumes "reachable s" and "store_step\<^sup>*\<^sup>* s s'" and "i < length (events s)"
  shows "events s' ! i = events s ! i \<and> i < length (events s') \<and> sorted_wrt later_than (events s')"
proof -
  have s: "store_sound s" using assms(1) by (rule reachable_sound)
  have "reachable s'" using assms(1,2) unfolding reachable_def by (rule rtranclp_trans)
  then have "log_inv s'" using reachable_sound by (auto simp: store_sound_def)
  moreover have r: "(\<lambda>s s'. store_step s s' \<and> distinct (map tk_id (tasks s)))\<^sup>*\<^sup>* s s'"
    using assms(2) s by (intro run_within) (simp_all add: store_sound_def)
  moreover have "i < length (events s')" using store_log.run_appends [OF r] assms(3) by auto
  ultimately show ?thesis using store_log.entry_stays [OF r assms(3)] by (simp add: log_inv_def)
qed

theorem history_is_never_rewritten_witness:
  "\<exists>r s. appendEvent 5 ev_example log_example = Inr (r, s) \<and> events (snd (flushFollowUps 9 ''t'' ''a'' ''k'' s)) ! 0 = events s ! 0"
proof -
  have "store_step init_store log_example"
    by (rule store_step.createTask [of 0 "''t''" "''a''" "''k''" JNull 0])
      (simp add: log_example_def createTask_def insert_row_def init_store_def has_row_iff)
  moreover obtain r s where a: "appendEvent 5 ev_example log_example = Inr (r, s)" and i: "inserted r" using log_example_append by blast
  moreover from a have "store_step log_example s" by (rule store_step.appendEvent)
  ultimately have "reachable s" by (simp add: reachable_def rtranclp.rtrancl_into_rtrancl)
  moreover have "store_step\<^sup>*\<^sup>* s (snd (flushFollowUps 9 ''t'' ''a'' ''k'' s))" using store_step.flushFollowUps by blast
  moreover have "0 < length (events s)" using a i insertEvent_appends by (fastforce simp: appendEvent_def)
  ultimately have "events (snd (flushFollowUps 9 ''t'' ''a'' ''k'' s)) ! 0 = events s ! 0"
    using history_is_never_rewritten by blast
  with a show ?thesis by blast
qed

lemma task_le_kept:
  assumes "tasks_grow rows rows'" and "get_row (is_task tn tk) rows = Some t"
  shows "\<exists>t'. get_row (is_task tn tk) rows' = Some t' \<and> task_le t t'"
proof -
  obtain kept new where k: "rows' = kept @ new" and l: "list_all2 task_le rows kept" using assms(1) by (auto simp: tasks_grow_def)
  from l assms(2) have "\<exists>t'. get_row (is_task tn tk) kept = Some t' \<and> task_le t t'"
  proof (induction rule: list_all2_induct)
    case (Cons r rows r' kept)
    then show ?case by (cases "is_task tn tk r") (auto simp: is_task_def task_le_def split: if_splits)
  qed simp
  then show ?thesis by (auto simp: k get_row_append)
qed

text \<open>
  C2: No run loses a task or takes it back: a task a reachable store has is in every later one, with the same agent, and its version, its
  generation and the fencing token of its last commit are never lower than they were; so what a commit, an interrupt or a newer token
  has once shut out stays shut out.
\<close>

theorem no_task_goes_back:
  assumes "reachable s" and "store_step\<^sup>*\<^sup>* s s'" and "get_task tn tk s = Some t"
  shows "\<exists>t'. get_task tn tk s' = Some t' \<and> tk_agent t' = tk_agent t \<and> tk_version t \<le> tk_version t'
    \<and> tk_generation t \<le> tk_generation t' \<and> tk_fencing t \<le> tk_fencing t'"
proof -
  have "tasks_grow (tasks s) (tasks s')"
    using run_grows [OF assms(2)] reachable_sound [OF assms(1)] by (simp add: grows_def store_sound_def)
  from task_le_kept [OF this assms(3) [unfolded get_task_def]] show ?thesis by (auto simp: get_task_def task_le_def)
qed

theorem no_task_goes_back_witness:
  "\<exists>t t'. get_task ''t'' ''k'' log_example = Some t
     \<and> get_task ''t'' ''k'' (snd (interruptAgent 5 ''t'' ''a'' log_example)) = Some t' \<and> tk_generation t \<le> tk_generation t'"
proof -
  have "store_step init_store log_example"
    by (rule store_step.createTask [of 0 "''t''" "''a''" "''k''" JNull 0])
      (simp add: log_example_def createTask_def insert_row_def init_store_def has_row_iff)
  then have "reachable log_example" by (simp add: reachable_def r_into_rtranclp)
  moreover have "store_step\<^sup>*\<^sup>* log_example (snd (interruptAgent 5 ''t'' ''a'' log_example))" using store_step.interruptAgent by blast
  moreover obtain t where "get_task ''t'' ''k'' log_example = Some t" using log_example_task by blast
  ultimately show ?thesis using no_task_goes_back by blast
qed

section \<open>Documents as a map\<close>

text \<open>What an edit makes of the entry a key has, on its own: the text to keep, or the refusal.\<close>

definition doc_edit :: "string \<Rightarrow> nat \<Rightarrow> document_edit \<Rightarrow> state_entry option \<Rightarrow> doc_error + string" where
  "doc_edit key max_bytes e entry =
     (let prior = map_option (\<lambda>x. (en_value x, en_ref x)) entry in
      case e of
        EAppend text how \<Rightarrow>
          (case documentText key prior AppendTo of Inl err \<Rightarrow> Inl err
           | Inr before \<Rightarrow> map_sum id fst (appendLines key before text max_bytes how))
      | ERevise old next_text \<Rightarrow>
          (if entry = None then Inl (NothingToRevise key)
           else (case documentText key prior Revise of Inl err \<Rightarrow> Inl err
             | Inr doc \<Rightarrow> map_sum id rv_kept (reviseText key doc old next_text max_bytes)))
      | EInsert after_line text \<Rightarrow>
          (case documentText key prior InsertInto of Inl err \<Rightarrow> Inl err
           | Inr before \<Rightarrow> map_sum id fst (insertLines key before after_line text max_bytes)))"

lemma getStateRow_get: "map_option fst (getStateRow tn ag key s) = state_get s (tn, ag, key)"
  by (simp add: state_get_def getState_def)

lemma prior_of_get: "prior_of (getStateRow tn ag key s) = map_option (\<lambda>x. (en_value x, en_ref x)) (state_get s (tn, ag, key))"
  unfolding prior_of_def getStateRow_get [symmetric] by (simp add: option.map_comp comp_def case_prod_unfold)

text \<open>The refusal of a text that would put the agent's documents over its total, if it has one.\<close>

definition over_total :: "string \<Rightarrow> string \<Rightarrow> string \<Rightarrow> int option \<Rightarrow> string \<Rightarrow> store \<Rightarrow> doc_error option" where
  "over_total tn ag key max_total kept s =
     (case max_total of
        None \<Rightarrow> None
      | Some m \<Rightarrow> (case stateBytes tn ag key s of (total_bytes, own) \<Rightarrow> totalRefusal total_bytes own (storedBytes (Some (JStr kept))) m))"

definition put_text :: "string \<Rightarrow> string \<Rightarrow> string \<Rightarrow> int option \<Rightarrow> store \<Rightarrow> doc_error + string
    \<Rightarrow> doc_error + (string \<times> string \<times> string \<Rightarrow> state_entry option)" where
  "put_text tn ag key max_total s r =
     (case r of
        Inl err \<Rightarrow> Inl err
      | Inr kept \<Rightarrow> (case over_total tn ag key max_total kept s of
            Some err \<Rightarrow> Inl err
          | None \<Rightarrow> Inr ((state_get s)((tn, ag, key) \<mapsto> text_entry kept))))"

lemma put_text_simps [simp]:
  "put_text tn ag key max_total s (Inl err) = Inl err"
  by (simp add: put_text_def)

lemma writeDocument_get:
  "map_sum id (\<lambda>x. state_get (snd x)) (writeDocument now tn ag key kept max_total s) = put_text tn ag key max_total s (Inr kept)"
proof -
  have "state_get (putStateRow now tn ag key (text_entry kept) s) = (state_get s)((tn, ag, key) \<mapsto> text_entry kept)"
  proof (rule ext)
    fix k :: "string \<times> string \<times> string"
    obtain t a x where k: "k = (t, a, x)" by (cases k)
    show "state_get (putStateRow now tn ag key (text_entry kept) s) k = ((state_get s)((tn, ag, key) \<mapsto> text_entry kept)) k"
    proof (cases "k = (tn, ag, key)")
      case True
      then show ?thesis by (simp add: state_get_put)
    next
      case False
      then show ?thesis using state_get_put_other [of t a x tn ag key] by (auto simp: k)
    qed
  qed
  then show ?thesis by (auto simp: writeDocument_def Let_def text_entry_def put_text_def over_total_def split: option.splits prod.splits)
qed


lemma edit_shape:
  "map_sum id (\<lambda>x. state_get (snd x)) (map_sum id (apfst fst)
     (case r of Inl err \<Rightarrow> Inl err
      | Inr y \<Rightarrow> (case writeDocument now tn ag key (f y) max_total s of Inl err \<Rightarrow> Inl err | Inr (sizes, s') \<Rightarrow> Inr ((sizes, g y), s'))))
   = put_text tn ag key max_total s (map_sum id f r)"
proof (cases r)
  case (Inr y)
  then show ?thesis using writeDocument_get [of now tn ag key "f y" max_total s]
    by (cases "writeDocument now tn ag key (f y) max_total s") (auto simp: id_def)
qed simp

lemma edit_document_get:
  "map_sum id (\<lambda>x. state_get (snd x)) (edit_document now tn ag key max_bytes max_total e s)
   = put_text tn ag key max_total s (doc_edit key max_bytes e (state_get s (tn, ag, key)))"
proof -
  note prior = prior_of_get [of tn ag key s]
  show ?thesis
  proof (cases e)
    case (EAppend t how)
    show ?thesis
    proof (cases "documentText key (map_option (\<lambda>x. (en_value x, en_ref x)) (state_get s (tn, ag, key))) AppendTo")
      case (Inr doc)
      then show ?thesis
        using edit_shape [where now = now and tn = tn and ag = ag and key = key and f = fst and s = s and g = snd and r = "appendLines key doc t max_bytes how"]
        unfolding EAppend edit_document_def doc_edit_def appendState_def prior Let_def case_prod_unfold document_edit.case by simp
    qed (simp add: EAppend edit_document_def doc_edit_def appendState_def prior Let_def)
  next
    case (ERevise old next_text)
    show ?thesis
    proof (cases "getStateRow tn ag key s")
      case None
      then show ?thesis using getStateRow_get [of tn ag key s]
        by (simp add: ERevise edit_document_def doc_edit_def reviseState_def Let_def)
    next
      case (Some p)
      then have n: "state_get s (tn, ag, key) \<noteq> None" using getStateRow_get [of tn ag key s] by (metis option.map_disc_iff option.distinct(1))
      show ?thesis
      proof (cases "documentText key (map_option (\<lambda>x. (en_value x, en_ref x)) (state_get s (tn, ag, key))) Revise")
        case (Inr doc)
        then show ?thesis
          using n edit_shape [where now = now and tn = tn and ag = ag and key = key and f = rv_kept and s = s and g = "\<lambda>y. y" and r = "reviseText key doc old next_text max_bytes"]
          unfolding ERevise edit_document_def doc_edit_def reviseState_def prior [unfolded Some] Some Let_def document_edit.case
            if_not_P [OF n] by (simp add: prior [unfolded Some])
      qed (use n in \<open>auto simp: ERevise edit_document_def doc_edit_def reviseState_def prior [unfolded Some] Some Let_def\<close>)
    qed
  next
    case (EInsert after_line t)
    show ?thesis
    proof (cases "documentText key (map_option (\<lambda>x. (en_value x, en_ref x)) (state_get s (tn, ag, key))) InsertInto")
      case (Inr doc)
      then show ?thesis
        using edit_shape [where now = now and tn = tn and ag = ag and key = key and f = fst and s = s and g = snd and r = "insertLines key doc after_line t max_bytes"]
        unfolding EInsert edit_document_def doc_edit_def insertState_def prior Let_def case_prod_unfold document_edit.case by simp
    qed (simp add: EInsert edit_document_def doc_edit_def insertState_def prior Let_def)
  qed
qed

text \<open>
  C35: The document table implements a map from tenant, agent and key to entries: a fresh store is the empty map, putting an entry is an
  update of the map, deleting one takes its key out and says whether it was there, and appending to, revising or inserting into a document
  changes the map at its key alone, to exactly the text that edit makes of the entry it held; it refuses, and writes nothing, just where that
  edit does, with the edit's error, or where that text would put the agent's documents over the total it may keep, whatever the total is.
\<close>

theorem documents_refine_a_map:
  "state_get init_store = Map.empty
   \<and> state_get (putState now tn ag key entry s) = (state_get s)((tn, ag, key) \<mapsto> entry)
   \<and> state_get (snd (deleteState tn ag key s)) = (state_get s)((tn, ag, key) := None)
   \<and> (fst (deleteState tn ag key s) \<longleftrightarrow> state_get s (tn, ag, key) \<noteq> None)
   \<and> map_sum id (\<lambda>x. state_get (snd x)) (edit_document now tn ag key max_bytes max_total e s)
     = (case doc_edit key max_bytes e (state_get s (tn, ag, key)) of
          Inl err \<Rightarrow> Inl err
        | Inr kept \<Rightarrow> (case over_total tn ag key max_total kept s of
              Some err \<Rightarrow> Inl err
            | None \<Rightarrow> Inr ((state_get s)((tn, ag, key) \<mapsto> text_entry kept))))"
proof (intro conjI edit_document_get [unfolded put_text_def])
  show "state_get init_store = Map.empty"
    by (rule ext) (auto simp: state_get_def getState_def getStateRow_def init_store_def)
  show "state_get (putState now tn ag key entry s) = (state_get s)((tn, ag, key) \<mapsto> entry)"
  proof (rule ext)
    fix k
    show "state_get (putState now tn ag key entry s) k = ((state_get s)((tn, ag, key) \<mapsto> entry)) k"
      using state_table.get_put_same [where k = "(tn, ag, key)" and v = entry and s = s and now = now]
        state_table.get_put_other [where k = "(tn, ag, key)" and k' = k and v = entry and s = s and now = now]
      by (simp add: state_put_def)
  qed
  show "state_get (snd (deleteState tn ag key s)) = (state_get s)((tn, ag, key) := None)"
  proof (rule ext)
    fix k
    show "state_get (snd (deleteState tn ag key s)) k = ((state_get s)((tn, ag, key) := None)) k"
      using state_table.get_del_same [where k = "(tn, ag, key)" and s = s] state_table.get_del_other [where k = "(tn, ag, key)" and k' = k and s = s]
      by (simp add: state_del_def)
  qed
  show "fst (deleteState tn ag key s) \<longleftrightarrow> state_get s (tn, ag, key) \<noteq> None"
    by (simp add: deleteState_def state_get_row has_row_get_row)
qed

end
