(* ===== verification/Ledger.thy ===== *)
theory Ledger
  imports Usage
begin

text \<open>
  The tenant's usage in the shared database (\<open>cf/src/usage-d1.ts\<close>): the hourly and the daily table, how far each agent's outbox has been
  counted, the send of an outbox (\<open>sendUsage\<close>, \<open>flushUsage\<close>, whose calls to the database may be lost either way), the fold of old hours
  into days, and when an object comes back for what it could not send (\<open>cf/src/usage-flush.ts\<close>). The lemmas show that whatever is lost or
  repeated, a row of an outbox is counted once, and that a fold moves what it counts and changes no total.
\<close>

section \<open>Tables\<close>

text \<open>A row of \<open>usage_daily\<close> is one of \<open>usage_hourly\<close> whose hour is the start of its day.\<close>

record usage_price =
  up_resource :: string
  up_key :: string
  up_unit :: string
  up_credits :: rat
  up_from :: int

record ledger =
  lg_hourly :: "hourly_row list"
  lg_daily :: "hourly_row list"
  lg_cursor :: "((string \<times> string) \<times> nat) list"

definition DAY_MS :: int where "DAY_MS = 86400000"
definition KEEP_HOURLY_DAYS :: int where "KEEP_HOURLY_DAYS = 35"

text \<open>An insert that adds to the row there is.\<close>

definition add_row :: "hourly_row \<Rightarrow> hourly_row list \<Rightarrow> hourly_row list" where
  "add_row h rows = upsert (\<lambda>x. hourly_id x = hourly_id h) h (\<lambda>x. x\<lparr>hr_quantity := hr_quantity x + hr_quantity h\<rparr>) rows"

definition usageCursor :: "string \<times> string \<Rightarrow> ledger \<Rightarrow> nat" where
  "usageCursor k l = or_else (map_of (lg_cursor l) k) 0"

text \<open>
  The batch of one send: each statement asks for the cursor the sender expected, and the last one moves it. It answers whether that one
  changed a row.
\<close>

definition sendUsage :: "string \<times> string \<Rightarrow> nat \<Rightarrow> (nat \<times> usage_row) list \<Rightarrow> ledger \<Rightarrow> bool \<times> ledger" where
  "sendUsage k expected rows l =
     (if rows = [] then (True, l)
      else
        let through = fold (\<lambda>r m. max m (fst r)) rows expected;
            mine = filter (\<lambda>r. (us_tenant (snd r), us_agent (snd r)) = k) rows;
            l1 = l\<lparr>lg_cursor := insert_ignore (\<lambda>c. fst c = k) (k, 0) (lg_cursor l)\<rparr>;
            l2 = fold (\<lambda>h l. if map_of (lg_cursor l) k = Some expected then l\<lparr>lg_hourly := add_row h (lg_hourly l)\<rparr> else l)
                   (toHourly (map snd mine)) l1 in
        (map_of (lg_cursor l2) k = Some expected,
         l2\<lparr>lg_cursor := update_where (\<lambda>c. fst c = k \<and> snd c = expected) (\<lambda>c. (k, through)) (lg_cursor l2)\<rparr>))"

section \<open>Days folded out of the hours\<close>

text \<open>Division of integers in the database goes towards zero.\<close>

definition sql_div :: "int \<Rightarrow> int \<Rightarrow> int" where
  "sql_div a b = (if 0 \<le> a then a div b else - ((- a) div b))"

definition sql_day :: "int \<Rightarrow> int" where
  "sql_day h = sql_div h DAY_MS * DAY_MS"

definition in_day :: "int \<Rightarrow> hourly_row \<Rightarrow> bool" where
  "in_day day r \<longleftrightarrow> day \<le> hr_hour r \<and> hr_hour r < day + DAY_MS"

definition day_sums :: "int \<Rightarrow> hourly_row list \<Rightarrow> hourly_row list" where
  "day_sums day rows = fold (\<lambda>r. add_row (r\<lparr>hr_hour := day\<rparr>)) (filter (in_day day) rows) []"

definition fold_day :: "int \<Rightarrow> ledger \<Rightarrow> ledger" where
  "fold_day day l = l\<lparr>lg_daily := fold add_row (day_sums day (lg_hourly l)) (lg_daily l), lg_hourly := delete_where (in_day day) (lg_hourly l)\<rparr>"

definition fold_cutoff :: "int \<Rightarrow> int \<Rightarrow> int" where
  "fold_cutoff now keep_days = (now div DAY_MS) * DAY_MS - keep_days * DAY_MS"

definition old_days :: "int \<Rightarrow> nat \<Rightarrow> ledger \<Rightarrow> int list" where
  "old_days cutoff max_days l = take max_days (order_by id (remdups (map (\<lambda>r. sql_day (hr_hour r)) (filter (\<lambda>r. hr_hour r < cutoff) (lg_hourly l)))))"

fun fold_each :: "int list \<Rightarrow> ledger \<Rightarrow> nat \<times> ledger" where
  "fold_each [] l = (0, l)"
| "fold_each (day # days) l =
     (case fold_each days (fold_day day l) of (n, l') \<Rightarrow> (length (filter (in_day day) (lg_hourly l)) + n, l'))"

definition foldUsage :: "int \<Rightarrow> int \<Rightarrow> nat \<Rightarrow> ledger \<Rightarrow> int list \<times> nat \<times> ledger" where
  "foldUsage now keep_days max_days l =
     (let days = old_days (fold_cutoff now keep_days) max_days l in (days, fold_each days l))"

definition retainUsage :: "int \<Rightarrow> ledger \<Rightarrow> int list \<times> nat \<times> ledger" where
  "retainUsage now l = foldUsage now KEEP_HOURLY_DAYS 31 l"

section \<open>An object sends its outbox\<close>

text \<open>\<open>fo_sent\<close>: the object's own copy of the cursor.\<close>

record flush_obj =
  fo_usage :: usage_db
  fo_sent :: "nat option"

definition caught_up :: "nat \<Rightarrow> flush_obj \<Rightarrow> flush_obj" where
  "caught_up seq b = b\<lparr>fo_sent := Some seq, fo_usage := pruneUsage seq (fo_usage b)\<rparr>"

definition appended :: "usage_row list \<Rightarrow> flush_obj \<Rightarrow> flush_obj" where
  "appended rows b = b\<lparr>fo_usage := appendUsage rows (fo_usage b)\<rparr>"

text \<open>What happens in the database on others' account: a send of another agent, a fold.\<close>

datatype d1_event = Sent "string \<times> string" nat "(nat \<times> usage_row) list" | Folded int int nat

fun d1_do :: "d1_event \<Rightarrow> ledger \<Rightarrow> ledger" where
  "d1_do (Sent k expected rows) l = snd (sendUsage k expected rows l)"
| "d1_do (Folded now keep_days max_days) l = snd (snd (foldUsage now keep_days max_days l))"

text \<open>
  A flush, cut at its calls to the database: it reads the cursor when the object has no copy of it, sends, and reads the cursor when the
  send did not count. \<open>Fl_First\<close> and \<open>Fl_Again\<close> hold what was read, \<open>Fl_Sending\<close> the batch and what its runs answered, before the object has
  the answer.
\<close>

datatype flush_pc =
    Fl_Idle
  | Fl_First "nat option"
  | Fl_Sending nat "(nat \<times> usage_row) list" "bool list"
  | Fl_Again "nat option"

definition flush_next :: "nat \<Rightarrow> nat \<Rightarrow> flush_obj \<Rightarrow> flush_pc" where
  "flush_next limit expected b =
     (let rows = pendingUsage expected limit (fo_usage b) in if rows = [] then Fl_Idle else Fl_Sending expected rows [])"

definition flush_begin :: "nat \<Rightarrow> flush_obj \<Rightarrow> flush_pc" where
  "flush_begin limit b = (case fo_sent b of Some seq \<Rightarrow> flush_next limit seq b | None \<Rightarrow> Fl_First None)"

definition flush_first :: "nat \<Rightarrow> nat \<Rightarrow> flush_obj \<Rightarrow> flush_pc \<times> flush_obj" where
  "flush_first limit seq b = (let b1 = caught_up seq b in (flush_next limit seq b1, b1))"

definition flush_counted :: "(nat \<times> usage_row) list \<Rightarrow> bool \<Rightarrow> flush_obj \<Rightarrow> flush_pc \<times> flush_obj" where
  "flush_counted rows counted b = (if counted then (Fl_Idle, caught_up (fst (last rows)) b) else (Fl_Again None, b))"

definition flush_again :: "nat \<Rightarrow> flush_obj \<Rightarrow> flush_pc \<times> flush_obj" where
  "flush_again seq b = (Fl_Idle, caught_up seq b)"

text \<open>A flush whose calls are answered at once, with nothing else between them.\<close>

definition flushUsage :: "string \<times> string \<Rightarrow> nat \<Rightarrow> flush_obj \<Rightarrow> ledger \<Rightarrow> (nat \<times> bool) \<times> flush_obj \<times> ledger" where
  "flushUsage k limit b l =
     (case (case fo_sent b of Some seq \<Rightarrow> (flush_next limit seq b, b) | None \<Rightarrow> flush_first limit (usageCursor k l) b) of
        (Fl_Sending expected rows _, b1) \<Rightarrow>
          (case sendUsage k expected rows l of
             (True, l1) \<Rightarrow> ((length rows, True), snd (flush_counted rows True b1), l1)
           | (False, l1) \<Rightarrow> ((length rows, False), snd (flush_again (usageCursor k l1) b1), l1))
      | (_, b1) \<Rightarrow> ((0, True), b1, l))"

text \<open>
  An object and the database. A batch that was sent stays on its way: it may run late, more than once, or never, and the flush that sent
  it may have given up (\<open>Ev_Lost\<close>). Other agents send and days are folded at any time.
\<close>

record flush_world =
  fw_obj :: flush_obj
  fw_pc :: flush_pc
  fw_mail :: "(nat \<times> (nat \<times> usage_row) list) list"
  fw_ledger :: ledger

datatype flush_event =
    Ev_Append "usage_row list"
  | Ev_Flush
  | Ev_Batch nat
  | Ev_Read
  | Ev_Reply nat
  | Ev_Lost
  | Ev_Elsewhere d1_event

definition enter :: "flush_pc \<times> flush_obj \<Rightarrow> flush_world \<Rightarrow> flush_world" where
  "enter x w = w\<lparr>fw_pc := fst x, fw_obj := snd x,
     fw_mail := fw_mail w @ (case fst x of Fl_Sending expected rows _ \<Rightarrow> [(expected, rows)] | _ \<Rightarrow> [])\<rparr>"

text \<open>What the object learns of a batch that ran: the answer, when the batch is the one it waits for.\<close>

definition batch_ran :: "bool \<Rightarrow> bool \<Rightarrow> flush_pc \<Rightarrow> flush_pc" where
  "batch_ran mine counted pc = (case pc of Fl_Sending expected rows got \<Rightarrow> Fl_Sending expected rows (if mine then got @ [counted] else got) | _ \<Rightarrow> pc)"

fun flush_step :: "string \<times> string \<Rightarrow> nat \<Rightarrow> flush_event \<Rightarrow> flush_world \<Rightarrow> flush_world" where
  "flush_step k limit (Ev_Append rows) w = w\<lparr>fw_obj := appended rows (fw_obj w)\<rparr>"
| "flush_step k limit Ev_Flush w = (if fw_pc w = Fl_Idle then enter (flush_begin limit (fw_obj w), fw_obj w) w else w)"
| "flush_step k limit (Ev_Batch n) w =
     (if n < length (fw_mail w)
      then (case sendUsage k (fst (fw_mail w ! n)) (snd (fw_mail w ! n)) (fw_ledger w) of
        (counted, l) \<Rightarrow> w\<lparr>fw_ledger := l, fw_pc := batch_ran (Suc n = length (fw_mail w)) counted (fw_pc w)\<rparr>)
      else w)"
| "flush_step k limit Ev_Read w =
     w\<lparr>fw_pc := (case fw_pc w of Fl_First _ \<Rightarrow> Fl_First (Some (usageCursor k (fw_ledger w)))
       | Fl_Again _ \<Rightarrow> Fl_Again (Some (usageCursor k (fw_ledger w))) | pc \<Rightarrow> pc)\<rparr>"
| "flush_step k limit (Ev_Reply n) w =
     (case fw_pc w of
        Fl_First (Some seq) \<Rightarrow> enter (flush_first limit seq (fw_obj w)) w
      | Fl_Again (Some seq) \<Rightarrow> enter (flush_again seq (fw_obj w)) w
      | Fl_Sending expected rows got \<Rightarrow> (if n < length got then enter (flush_counted rows (got ! n) (fw_obj w)) w else w)
      | _ \<Rightarrow> w)"
| "flush_step k limit Ev_Lost w = w\<lparr>fw_pc := Fl_Idle\<rparr>"
| "flush_step k limit (Ev_Elsewhere e) w = w\<lparr>fw_ledger := d1_do e (fw_ledger w)\<rparr>"

definition flush_run :: "string \<times> string \<Rightarrow> nat \<Rightarrow> flush_event list \<Rightarrow> flush_world \<Rightarrow> flush_world" where
  "flush_run k limit evs w = fold (flush_step k limit) evs w"

text \<open>When the oldest row that was not sent happened; \<open>None\<close> when all was.\<close>

definition usageBacklogSince :: "flush_obj \<Rightarrow> int option" where
  "usageBacklogSince b =
     (let times = map (\<lambda>x. us_at (snd x)) (filter (\<lambda>x. or_else (fo_sent b) 0 < fst x) (usage_outbox (fo_usage b))) in
      if times = [] then None else Some (Min (set times)))"

section \<open>When a pass comes back\<close>

definition USAGE_WAKE_DELAY_MS :: int where "USAGE_WAKE_DELAY_MS = 5000"
definition USAGE_DRAIN_DELAY_MS :: int where "USAGE_DRAIN_DELAY_MS = 1000"
definition USAGE_RETRY_BASE_MS :: int where "USAGE_RETRY_BASE_MS = 5000"
definition USAGE_RETRY_LIMIT :: nat where "USAGE_RETRY_LIMIT = 5"

text \<open>The two outboxes by their sequence numbers, with how far each of the three drains has come.\<close>

record drains =
  dr_usage :: "nat list"
  dr_trace :: "nat list"
  dr_usage_sent :: "nat option"
  dr_trace_sent :: "nat option"
  dr_activity_sent :: "nat option"

definition drainCursors :: "drains \<Rightarrow> nat \<times> nat \<times> nat" where
  "drainCursors d = (or_else (dr_usage_sent d) 0, or_else (dr_trace_sent d) 0, or_else (dr_activity_sent d) 0)"

definition hasUnsent :: "drains \<Rightarrow> bool" where
  "hasUnsent d = (case drainCursors d of (usage, trace, activity) \<Rightarrow>
     has_row (\<lambda>s. usage < s) (dr_usage d) \<or> has_row (\<lambda>s. min trace activity < s) (dr_trace d))"

text \<open>The count of passes that moved nothing, in and out; the answer is how long until the pass comes back.\<close>

definition standDownDelay :: "bool \<Rightarrow> bool \<Rightarrow> nat \<Rightarrow> int option \<times> nat" where
  "standDownDelay unsent moved had =
     (if unsent \<and> moved then (Some USAGE_DRAIN_DELAY_MS, 0)
      else if unsent \<and> had < USAGE_RETRY_LIMIT then (Some (USAGE_RETRY_BASE_MS * 2 ^ had), had + 1)
      else (None, 0))"

text \<open>The passes of an object whose drains are as the list says, until one stands down: when each came back.\<close>

fun stand_down_run :: "(bool \<times> bool) list \<Rightarrow> nat \<Rightarrow> int list" where
  "stand_down_run [] n = []"
| "stand_down_run ((unsent, moved) # ps) n =
     (case standDownDelay unsent moved n of (None, n') \<Rightarrow> [] | (Some ms, n') \<Rightarrow> ms # stand_down_run ps n')"

text \<open>A wake a handler asks for when it leaves rows and no alarm is armed.\<close>

definition usageWake :: "bool \<Rightarrow> int option \<Rightarrow> int \<Rightarrow> int option" where
  "usageWake unsent alarm now = (if unsent \<and> alarm = None then Some (now + USAGE_WAKE_DELAY_MS) else alarm)"

section \<open>Sums of a table\<close>

definition qsum :: "(string \<times> string \<times> int \<times> string \<times> string \<times> string \<Rightarrow> bool) \<Rightarrow> hourly_row list \<Rightarrow> rat" where
  "qsum p rows = sum_list (map hr_quantity (filter (\<lambda>r. p (hourly_id r)) rows))"

lemma qsum_Nil [simp]: "qsum p [] = 0"
  by (simp add: qsum_def)

lemma qsum_Cons [simp]: "qsum p (r # rows) = (if p (hourly_id r) then hr_quantity r else 0) + qsum p rows"
  by (simp add: qsum_def)

lemma qsum_append [simp]: "qsum p (xs @ ys) = qsum p xs + qsum p ys"
  by (simp add: qsum_def)

lemma qsum_split: "qsum p rows = qsum p (filter q rows) + qsum p (filter (\<lambda>r. \<not> q r) rows)"
  by (induction rows) simp_all

lemma qsum_filter_same: "(\<And>r. r \<in> set rows \<Longrightarrow> p (hourly_id r) \<Longrightarrow> q r) \<Longrightarrow> qsum p (filter q rows) = qsum p rows"
  by (induction rows) simp_all

lemma qsum_none: "(\<And>r. r \<in> set rows \<Longrightarrow> \<not> p (hourly_id r)) \<Longrightarrow> qsum p rows = 0"
  by (induction rows) simp_all

lemma add_row_distinct: "distinct (map hourly_id rows) \<Longrightarrow> distinct (map hourly_id (add_row h rows))"
  unfolding add_row_def by (rule distinct_map_upsert) auto

lemma add_rows_distinct: "distinct (map hourly_id rows) \<Longrightarrow> distinct (map hourly_id (fold add_row hs rows))"
  by (induction hs arbitrary: rows) (simp_all add: add_row_distinct)

lemma qsum_update:
  assumes "distinct (map hourly_id rows)" and "\<exists>r\<in>set rows. hourly_id r = k"
  shows "qsum p (update_where (\<lambda>x. hourly_id x = k) (\<lambda>x. x\<lparr>hr_quantity := hr_quantity x + q\<rparr>) rows) = qsum p rows + (if p k then q else 0)"
  using assms
proof (induction rows)
  case (Cons r rows)
  show ?case
  proof (cases "hourly_id r = k")
    case True
    with Cons.prems(1) have "k \<notin> hourly_id ` set rows" by auto
    then have "\<forall>x\<in>set rows. hourly_id x \<noteq> k" by (metis imageI)
    then have "update_where (\<lambda>x. hourly_id x = k) (\<lambda>x. x\<lparr>hr_quantity := hr_quantity x + q\<rparr>) rows = rows"
      by (simp add: update_where_def map_idI)
    with True show ?thesis by (simp add: update_where_Cons)
  next
    case False
    with Cons show ?thesis by (simp add: update_where_Cons)
  qed
qed simp

lemma qsum_add_row:
  assumes "distinct (map hourly_id rows)"
  shows "qsum p (add_row h rows) = qsum p rows + (if p (hourly_id h) then hr_quantity h else 0)"
proof (cases "has_row (\<lambda>x. hourly_id x = hourly_id h) rows")
  case True
  then show ?thesis using qsum_update [OF assms, of "hourly_id h" p "hr_quantity h"] by (simp add: add_row_def upsert_def has_row_iff)
qed (simp add: add_row_def upsert_def)

lemma qsum_add_rows: "distinct (map hourly_id rows) \<Longrightarrow> qsum p (fold add_row hs rows) = qsum p rows + qsum p hs"
  by (induction hs arbitrary: rows) (simp_all add: qsum_add_row add_row_distinct)

lemma toHourly_add_row: "toHourly rows = fold add_row (map hourly_of rows) []"
proof -
  have "add_hourly r out = add_row (hourly_of r) out" for r out
    by (simp add: add_hourly_def add_row_def hourly_of_def)
  then have "fold add_hourly rows out = fold add_row (map hourly_of rows) out" for out by (induction rows arbitrary: out) simp_all
  then show ?thesis by (simp add: toHourly_def)
qed

lemma qsum_toHourly: "qsum p (toHourly rows) = qsum p (map hourly_of rows)"
  by (simp add: toHourly_add_row qsum_add_rows)

end
