(* ===== verification/Ledger_Runs.thy ===== *)
theory Ledger_Runs
  imports Ledger
begin

text \<open>
  What the operations of \<open>Ledger\<close> keep: the tables' keys, the order of an outbox, and the account of an agent's usage, which is what the
  tables hold of it with what its outbox has not sent. Nothing that happens to a flush changes the account.
\<close>

section \<open>Tables that are well formed\<close>

definition ledger_ok :: "ledger \<Rightarrow> bool" where
  "ledger_ok l \<longleftrightarrow> distinct (map hourly_id (lg_hourly l)) \<and> distinct (map hourly_id (lg_daily l)) \<and> (\<forall>r\<in>set (lg_hourly l). 0 \<le> hr_hour r)"

definition rows_ok :: "(nat \<times> usage_row) list \<Rightarrow> bool" where
  "rows_ok rows \<longleftrightarrow> (\<forall>x\<in>set rows. 0 \<le> us_at (snd x))"

lemma hour_nonneg: "0 \<le> t \<Longrightarrow> 0 \<le> hour_of t"
  by (simp add: hour_of_def HOUR_MS_def)

lemma add_row_hours: "\<forall>r\<in>set rows. 0 \<le> hr_hour r \<Longrightarrow> 0 \<le> hr_hour h \<Longrightarrow> \<forall>r\<in>set (add_row h rows). 0 \<le> hr_hour r"
  by (auto simp: add_row_def upsert_def update_where_def)

lemma add_rows_hours: "\<forall>r\<in>set rows. 0 \<le> hr_hour r \<Longrightarrow> \<forall>h\<in>set hs. 0 \<le> hr_hour h \<Longrightarrow> \<forall>r\<in>set (fold add_row hs rows). 0 \<le> hr_hour r"
proof (induction hs arbitrary: rows)
  case (Cons h hs)
  then have "\<forall>r\<in>set (add_row h rows). 0 \<le> hr_hour r" by (intro add_row_hours) simp_all
  from Cons.IH [OF this] Cons.prems(2) show ?case by simp
qed simp

lemma toHourly_hours: "\<forall>r\<in>set rows. 0 \<le> us_at r \<Longrightarrow> \<forall>h\<in>set (toHourly rows). 0 \<le> hr_hour h"
  unfolding toHourly_add_row by (rule add_rows_hours) (auto simp: hourly_of_def hour_nonneg)

section \<open>A send\<close>

definition through_of :: "nat \<Rightarrow> (nat \<times> usage_row) list \<Rightarrow> nat" where
  "through_of expected rows = fold (\<lambda>r m. max m (fst r)) rows expected"

definition own_rows :: "string \<times> string \<Rightarrow> (nat \<times> usage_row) list \<Rightarrow> usage_row list" where
  "own_rows k rows = map snd (filter (\<lambda>r. (us_tenant (snd r), us_agent (snd r)) = k) rows)"

lemma guarded_adds:
  "fold (\<lambda>h l. if map_of (lg_cursor l) k = Some e then l\<lparr>lg_hourly := add_row h (lg_hourly l)\<rparr> else l) hs l
   = (if map_of (lg_cursor l) k = Some e then l\<lparr>lg_hourly := fold add_row hs (lg_hourly l)\<rparr> else l)"
  by (induction hs arbitrary: l) simp_all

lemma cursor_made: "map_of (insert_ignore (\<lambda>c. fst c = k) (k, 0) cs) k = Some (or_else (map_of cs k) 0)"
proof (cases "map_of cs k")
  case None
  then have "k \<notin> fst ` set cs" by (simp add: map_of_eq_None_iff)
  then have "\<not> has_row (\<lambda>c. fst c = k) cs" by (force simp: has_row_iff)
  with None show ?thesis by (simp add: insert_ignore_def map_add_def)
next
  case (Some n)
  then have "has_row (\<lambda>c. fst c = k) cs" by (force simp: has_row_iff dest: map_of_SomeD)
  with Some show ?thesis by (simp add: insert_ignore_def)
qed

lemma cursor_made_other: "k' \<noteq> k \<Longrightarrow> map_of (insert_ignore (\<lambda>c. fst c = k) (k, v) cs) k' = map_of cs k'"
  by (simp add: insert_ignore_def map_add_def split: option.split)

lemma cursor_moved: "map_of cs k = Some e \<Longrightarrow> map_of (update_where (\<lambda>c. fst c = k \<and> snd c = e) (\<lambda>c. (k, n)) cs) k = Some n"
  by (induction cs) (auto simp: update_where_Cons split: if_splits)

lemma cursor_not_moved: "map_of cs k \<noteq> Some e \<Longrightarrow> map_of (update_where (\<lambda>c. fst c = k \<and> snd c = e) (\<lambda>c. (k, n)) cs) k = map_of cs k"
  by (induction cs) (auto simp: update_where_Cons split: if_splits)

lemma cursor_moved_other: "k' \<noteq> k \<Longrightarrow> map_of (update_where (\<lambda>c. fst c = k \<and> snd c = e) (\<lambda>c. (k, n)) cs) k' = map_of cs k'"
  by (induction cs) (auto simp: update_where_Cons)

text \<open>A send that finds the cursor it expected adds its rows and moves it; any other changes no total and no cursor.\<close>

lemma send_counts:
  assumes "rows \<noteq> []" and "usageCursor k l = e"
  shows "fst (sendUsage k e rows l)"
    and "lg_hourly (snd (sendUsage k e rows l)) = fold add_row (toHourly (own_rows k rows)) (lg_hourly l)"
    and "lg_daily (snd (sendUsage k e rows l)) = lg_daily l"
    and "usageCursor k (snd (sendUsage k e rows l)) = through_of e rows"
  using assms by (simp_all add: sendUsage_def Let_def guarded_adds cursor_made usageCursor_def own_rows_def through_of_def cursor_moved)

lemma send_refused:
  assumes "usageCursor k l \<noteq> e"
  shows "lg_hourly (snd (sendUsage k e rows l)) = lg_hourly l"
    and "lg_daily (snd (sendUsage k e rows l)) = lg_daily l"
    and "usageCursor k (snd (sendUsage k e rows l)) = usageCursor k l"
    and "rows \<noteq> [] \<Longrightarrow> \<not> fst (sendUsage k e rows l)"
  using assms by (simp_all add: sendUsage_def Let_def guarded_adds cursor_made usageCursor_def cursor_not_moved)

lemma send_nothing [simp]: "sendUsage k e [] l = (True, l)"
  by (simp add: sendUsage_def)

lemma send_other_cursor:
  assumes "k' \<noteq> k"
  shows "usageCursor k' (snd (sendUsage k e rows l)) = usageCursor k' l"
  using assms by (simp add: sendUsage_def Let_def guarded_adds usageCursor_def cursor_made_other cursor_moved_other)

lemma own_rows_nonneg: "rows_ok rows \<Longrightarrow> \<forall>r\<in>set (own_rows k rows). 0 \<le> us_at r"
  by (auto simp: own_rows_def rows_ok_def)

lemma send_ok:
  assumes "ledger_ok l" and "rows_ok rows"
  shows "ledger_ok (snd (sendUsage k e rows l))"
proof (cases "rows = [] \<or> usageCursor k l \<noteq> e")
  case True
  then show ?thesis using assms(1) send_refused [of k l e rows] by (auto simp: ledger_ok_def)
next
  case False
  have "\<forall>h\<in>set (toHourly (own_rows k rows)). 0 \<le> hr_hour h" by (rule toHourly_hours [OF own_rows_nonneg [OF assms(2)]])
  from add_rows_hours [OF _ this, of "lg_hourly l"] show ?thesis
    using assms(1) False by (simp add: ledger_ok_def send_counts add_rows_distinct)
qed

section \<open>The account of an agent\<close>

text \<open>Usage by the day: what was used, of which tenant and agent, on which day.\<close>

type_synonym day_id = "string \<times> string \<times> int \<times> string \<times> string \<times> string"

definition day_key :: "string \<times> string \<times> int \<times> string \<times> string \<times> string \<Rightarrow> day_id" where
  "day_key x = (case x of (t, a, h, r, key, u) \<Rightarrow> (t, a, sql_day h, r, key, u))"

definition agent_of :: "day_id \<Rightarrow> string \<times> string" where
  "agent_of i = (fst i, fst (snd i))"

definition in_ledger :: "day_id \<Rightarrow> ledger \<Rightarrow> rat" where
  "in_ledger i l = qsum (\<lambda>x. day_key x = i) (lg_hourly l) + qsum (\<lambda>x. x = i) (lg_daily l)"

definition of_day :: "day_id \<Rightarrow> usage_row list \<Rightarrow> rat" where
  "of_day i rows = qsum (\<lambda>x. day_key x = i) (map hourly_of rows)"

lemma of_day_append [simp]: "of_day i (xs @ ys) = of_day i xs + of_day i ys"
  by (simp add: of_day_def)

lemma of_day_Nil [simp]: "of_day i [] = 0"
  by (simp add: of_day_def)

lemma day_key_agent: "day_key (hourly_id (hourly_of r)) = i \<Longrightarrow> agent_of i = (us_tenant r, us_agent r)"
  by (auto simp: day_key_def hourly_id_def hourly_of_def agent_of_def)

lemma of_day_own: "agent_of i = k \<Longrightarrow> of_day i (own_rows k rows) = of_day i (map snd rows)"
proof (induction rows)
  case (Cons x rows)
  have "(us_tenant (snd x), us_agent (snd x)) = k" if "day_key (hourly_id (hourly_of (snd x))) = i"
    using day_key_agent [OF that] Cons.prems by simp
  with Cons show ?case by (cases "(us_tenant (snd x), us_agent (snd x)) = k") (auto simp: of_day_def own_rows_def)
qed (simp add: own_rows_def)

lemma of_day_others: "agent_of i \<noteq> k \<Longrightarrow> of_day i (own_rows k rows) = 0"
  unfolding of_day_def by (rule qsum_none) (auto simp: own_rows_def day_key_agent [OF refl])

lemma in_ledger_sent:
  assumes "ledger_ok l" and "rows \<noteq> []" and "usageCursor k l = e"
  shows "in_ledger i (snd (sendUsage k e rows l)) = in_ledger i l + of_day i (own_rows k rows)"
  using assms(1) by (simp add: in_ledger_def send_counts [OF assms(2,3)] qsum_add_rows ledger_ok_def qsum_toHourly of_day_def)

lemma in_ledger_refused: "usageCursor k l \<noteq> e \<Longrightarrow> in_ledger i (snd (sendUsage k e rows l)) = in_ledger i l"
  by (simp add: in_ledger_def send_refused)

lemma in_ledger_other_agent:
  assumes "ledger_ok l" and "agent_of i \<noteq> k"
  shows "in_ledger i (snd (sendUsage k e rows l)) = in_ledger i l"
proof (cases "rows = [] \<or> usageCursor k l \<noteq> e")
  case True
  then show ?thesis using in_ledger_refused [of k l e i rows] by fastforce
next
  case False
  then show ?thesis using in_ledger_sent [OF assms(1), of rows k e i] of_day_others [OF assms(2)] by simp
qed

section \<open>A fold\<close>

definition is_day :: "int \<Rightarrow> bool" where
  "is_day d \<longleftrightarrow> 0 \<le> d \<and> d mod DAY_MS = 0"

lemma sql_day_is_day: "0 \<le> h \<Longrightarrow> is_day (sql_day h)"
  by (simp add: is_day_def sql_day_def sql_div_def DAY_MS_def)

lemma in_day_iff:
  assumes "is_day d" and "0 \<le> hr_hour r"
  shows "in_day d r \<longleftrightarrow> sql_day (hr_hour r) = d"
proof -
  have "d = (d div DAY_MS) * DAY_MS" using assms(1) by (simp add: is_day_def minus_mod_eq_div_mult [symmetric])
  then obtain n where n: "d = n * DAY_MS" by blast
  have "hr_hour r div DAY_MS = n \<longleftrightarrow> n * DAY_MS \<le> hr_hour r \<and> hr_hour r < (n + 1) * DAY_MS"
    by (auto simp: DAY_MS_def)
  then show ?thesis using assms(2) by (simp add: in_day_def sql_day_def sql_div_def n algebra_simps DAY_MS_def)
qed

lemma day_sums_add: "day_sums d rows = fold add_row (map (\<lambda>r. r\<lparr>hr_hour := d\<rparr>) (filter (in_day d) rows)) []"
  by (simp add: day_sums_def fold_map comp_def)

lemma day_moved:
  assumes "is_day d" and "\<forall>r\<in>set rows. 0 \<le> hr_hour r"
  shows "qsum (\<lambda>x. x = i) (map (\<lambda>r. r\<lparr>hr_hour := d\<rparr>) (filter (in_day d) rows)) = qsum (\<lambda>x. day_key x = i) (filter (in_day d) rows)"
  using assms(2)
proof (induction rows)
  case (Cons r rows)
  have "hourly_id (r\<lparr>hr_hour := d\<rparr>) = day_key (hourly_id r)" if "in_day d r"
    using that in_day_iff [OF assms(1), of r] Cons.prems by (simp add: hourly_id_def day_key_def)
  with Cons show ?case by auto
qed simp

lemma fold_day_account:
  assumes "ledger_ok l" and "is_day d"
  shows "in_ledger i (fold_day d l) = in_ledger i l" and "ledger_ok (fold_day d l)"
    and "lg_hourly (fold_day d l) = filter (\<lambda>r. sql_day (hr_hour r) \<noteq> d) (lg_hourly l)" and "lg_cursor (fold_day d l) = lg_cursor l"
proof -
  have h: "\<forall>r\<in>set (lg_hourly l). 0 \<le> hr_hour r" and dd: "distinct (map hourly_id (lg_daily l))" using assms(1) by (simp_all add: ledger_ok_def)
  have "qsum (\<lambda>x. x = i) (lg_daily (fold_day d l)) = qsum (\<lambda>x. x = i) (lg_daily l) + qsum (\<lambda>x. day_key x = i) (filter (in_day d) (lg_hourly l))"
    using day_moved [OF assms(2) h] by (simp add: fold_day_def qsum_add_rows [OF dd] day_sums_add qsum_add_rows)
  then show "in_ledger i (fold_day d l) = in_ledger i l"
    using qsum_split [of "\<lambda>x. day_key x = i" "lg_hourly l" "in_day d"] by (simp add: in_ledger_def fold_day_def delete_where_def)
  show "lg_hourly (fold_day d l) = filter (\<lambda>r. sql_day (hr_hour r) \<noteq> d) (lg_hourly l)"
    using h in_day_iff [OF assms(2)] by (auto simp: fold_day_def delete_where_def intro: filter_cong)
  have "distinct (map hourly_id (filter p rows))" if "distinct (map hourly_id rows)" for p rows
    using that by (rule distinct_map_filter)
  then show "ledger_ok (fold_day d l)"
    using assms(1) add_rows_distinct [OF dd] by (auto simp: ledger_ok_def fold_day_def delete_where_def)
qed (simp add: fold_day_def)

lemma fold_each_account:
  assumes "ledger_ok l" and "\<forall>d\<in>set days. is_day d"
  shows "in_ledger i (snd (fold_each days l)) = in_ledger i l \<and> ledger_ok (snd (fold_each days l))
    \<and> lg_hourly (snd (fold_each days l)) = filter (\<lambda>r. sql_day (hr_hour r) \<notin> set days) (lg_hourly l)
    \<and> lg_cursor (snd (fold_each days l)) = lg_cursor l"
  using assms
proof (induction days arbitrary: l)
  case (Cons d days)
  have d: "is_day d" using Cons.prems(2) by simp
  note f = fold_day_account [OF Cons.prems(1) d]
  from Cons.IH [OF f(2)] Cons.prems(2) have "in_ledger i (snd (fold_each days (fold_day d l))) = in_ledger i (fold_day d l)
     \<and> ledger_ok (snd (fold_each days (fold_day d l)))
     \<and> lg_hourly (snd (fold_each days (fold_day d l))) = filter (\<lambda>r. sql_day (hr_hour r) \<notin> set days) (lg_hourly (fold_day d l))
     \<and> lg_cursor (snd (fold_each days (fold_day d l))) = lg_cursor (fold_day d l)" by simp
  then show ?case using f by (auto simp: conj_commute split: prod.split)
qed simp

lemma old_days_are_days: "ledger_ok l \<Longrightarrow> \<forall>d\<in>set (old_days cutoff n l). is_day d"
  by (auto simp: old_days_def ledger_ok_def dest!: in_set_takeD) (blast intro: sql_day_is_day)

lemma foldUsage_account:
  assumes "ledger_ok l" and "foldUsage now keep_days n l = (days, hours, l')"
  shows "in_ledger i l' = in_ledger i l" and "ledger_ok l'" and "lg_cursor l' = lg_cursor l"
    and "lg_hourly l' = filter (\<lambda>r. sql_day (hr_hour r) \<notin> set days) (lg_hourly l)" and "days = old_days (fold_cutoff now keep_days) n l"
proof -
  have d: "days = old_days (fold_cutoff now keep_days) n l" and l: "l' = snd (fold_each days l)"
    using assms(2) by (auto simp: foldUsage_def Let_def)
  note a = fold_each_account [OF assms(1) old_days_are_days [OF assms(1), of "fold_cutoff now keep_days" n, folded d], folded l]
  show "in_ledger i l' = in_ledger i l" using a [of i] by blast
  show "ledger_ok l'" "lg_cursor l' = lg_cursor l" "lg_hourly l' = filter (\<lambda>r. sql_day (hr_hour r) \<notin> set days) (lg_hourly l)"
    "days = old_days (fold_cutoff now keep_days) n l" using a d by blast+
qed

text \<open>The days there are to fold, and that each fold leaves fewer.\<close>

definition days_left :: "int \<Rightarrow> ledger \<Rightarrow> int set" where
  "days_left cutoff l = (\<lambda>r. sql_day (hr_hour r)) ` {r \<in> set (lg_hourly l). hr_hour r < cutoff}"

lemma old_days_length: "length (old_days cutoff n l) = min n (card (days_left cutoff l))"
proof -
  have "days_left cutoff l = set (map (\<lambda>r. sql_day (hr_hour r)) (filter (\<lambda>r. hr_hour r < cutoff) (lg_hourly l)))" by (auto simp: days_left_def)
  then have "card (days_left cutoff l) = length (remdups (map (\<lambda>r. sql_day (hr_hour r)) (filter (\<lambda>r. hr_hour r < cutoff) (lg_hourly l))))"
    by (simp only: length_remdups_card_conv)
  then show ?thesis by (simp add: old_days_def)
qed

lemma old_days_distinct: "distinct (old_days cutoff n l)"
  by (simp add: old_days_def order_by_def)

lemma old_days_left: "set (old_days cutoff n l) \<subseteq> days_left cutoff l"
  by (auto simp: old_days_def days_left_def dest!: in_set_takeD)

lemma fold_leaves_fewer:
  assumes "ledger_ok l" and "foldUsage now keep_days n l = (days, hours, l')" and "c = fold_cutoff now keep_days"
  shows "card (days_left c l') = card (days_left c l) - n"
proof -
  note f = foldUsage_account [OF assms(1,2)]
  have "days_left c l' = days_left c l - set days" by (auto simp: days_left_def f(4))
  moreover have "card (set days) = min n (card (days_left c l))"
    using f(5) old_days_length [of c n l] old_days_distinct [of c n l] assms(3) by (simp add: distinct_card)
  moreover have "set days \<subseteq> days_left c l" using f(5) old_days_left assms(3) by simp
  moreover have "finite (days_left c l)" by (simp add: days_left_def)
  ultimately show ?thesis by (simp add: card_Diff_subset finite_subset min_def)
qed

text \<open>Days are folded whole when the cutoff is the start of one.\<close>

lemma fold_nothing_old:
  assumes "ledger_ok l" and "days_left (fold_cutoff now keep_days) l = {}"
  shows "foldUsage now keep_days n l = ([], 0, l)"
proof -
  have "length (old_days (fold_cutoff now keep_days) n l) = 0" using assms(2) by (simp add: old_days_length)
  then show ?thesis by (simp add: foldUsage_def)
qed

fun folds :: "nat \<Rightarrow> int \<Rightarrow> int \<Rightarrow> nat \<Rightarrow> ledger \<Rightarrow> ledger" where
  "folds 0 now keep_days n l = l"
| "folds (Suc m) now keep_days n l = folds m now keep_days n (snd (snd (foldUsage now keep_days n l)))"

lemma folds_account:
  assumes "ledger_ok l"
  shows "ledger_ok (folds m now keep_days n l) \<and> in_ledger i (folds m now keep_days n l) = in_ledger i l
    \<and> card (days_left (fold_cutoff now keep_days) (folds m now keep_days n l)) = card (days_left (fold_cutoff now keep_days) l) - m * n"
  using assms
proof (induction m arbitrary: l)
  case (Suc m)
  obtain days hours l' where f: "foldUsage now keep_days n l = (days, hours, l')" by (metis prod_cases3)
  note a = foldUsage_account [OF Suc.prems f]
  from Suc.IH [OF a(2)] a(1) fold_leaves_fewer [OF Suc.prems f refl] f show ?case by (simp add: algebra_simps)
qed simp

section \<open>An outbox\<close>

definition outbox_ok :: "usage_db \<Rightarrow> bool" where
  "outbox_ok u \<longleftrightarrow> sorted_wrt (<) (map fst (usage_outbox u)) \<and> (\<forall>x\<in>set (usage_outbox u). fst x \<le> usage_seq u) \<and> rows_ok (usage_outbox u)"

text \<open>The rows an append keeps: those with a quantity, their keys cut.\<close>

definition kept_rows :: "usage_row list \<Rightarrow> usage_row list" where
  "kept_rows rows = map (\<lambda>r. r\<lparr>us_key := take USAGE_KEY_MAX (us_key r)\<rparr>) (filter (\<lambda>r. us_quantity r \<noteq> 0) rows)"

lemma append_one:
  assumes "outbox_ok u" and "0 \<le> us_at r"
  shows "outbox_ok (append_usage_row r u)" and "usage_seq u \<le> usage_seq (append_usage_row r u)"
    and "\<exists>new. usage_outbox (append_usage_row r u) = usage_outbox u @ new \<and> map snd new = kept_rows [r] \<and> (\<forall>x\<in>set new. usage_seq u < fst x)"
  using assms by (auto simp: append_usage_row_def outbox_ok_def rows_ok_def kept_rows_def sorted_wrt_append le_imp_less_Suc le_SucI)

lemma outbox_append_rows:
  assumes "outbox_ok u" and "\<forall>r\<in>set rows. 0 \<le> us_at r"
  shows "outbox_ok (appendUsage rows u) \<and> usage_seq u \<le> usage_seq (appendUsage rows u)
    \<and> (\<exists>new. usage_outbox (appendUsage rows u) = usage_outbox u @ new \<and> map snd new = kept_rows rows \<and> (\<forall>x\<in>set new. usage_seq u < fst x))"
  using assms
proof (induction rows arbitrary: u)
  case Nil
  then show ?case by (simp add: appendUsage_def kept_rows_def)
next
  case (Cons r rows)
  have r: "0 \<le> us_at r" using Cons.prems(2) by simp
  note a = append_one [OF Cons.prems(1) r]
  obtain n1 where n1: "usage_outbox (append_usage_row r u) = usage_outbox u @ n1" "map snd n1 = kept_rows [r]" "\<forall>x\<in>set n1. usage_seq u < fst x"
    using a(3) by blast
  have step: "appendUsage (r # rows) u = appendUsage rows (append_usage_row r u)" by (simp add: appendUsage_def)
  obtain n2 where n2: "usage_outbox (appendUsage (r # rows) u) = (usage_outbox u @ n1) @ n2" "map snd n2 = kept_rows rows"
      "\<forall>x\<in>set n2. usage_seq (append_usage_row r u) < fst x" and ok: "outbox_ok (appendUsage (r # rows) u)"
      and seq: "usage_seq (append_usage_row r u) \<le> usage_seq (appendUsage (r # rows) u)"
    using Cons.IH [OF a(1)] Cons.prems(2) n1(1) unfolding step by auto
  have "map snd (n1 @ n2) = kept_rows (r # rows)" using n1(2) n2(2) by (simp add: kept_rows_def split: if_splits)
  moreover have "\<forall>x\<in>set (n1 @ n2). usage_seq u < fst x" using n1(3) n2(3) a(2) by (auto intro: le_less_trans)
  ultimately show ?case using ok seq a(2) n2(1) by (metis append_assoc order_trans)
qed

lemma pending_in_order:
  assumes "outbox_ok u"
  shows "pendingUsage after limit u = take limit (filter (\<lambda>x. after < fst x) (usage_outbox u))"
proof -
  have "sorted (map fst (usage_outbox u))" using assms by (simp add: outbox_ok_def strict_sorted_imp_sorted)
  then have "sorted (map fst (filter (\<lambda>x. after < fst x) (usage_outbox u)))" by (rule sorted_filter)
  then show ?thesis by (simp add: pendingUsage_def order_by_sorted)
qed

text \<open>The first rows past a number are those up to the last of them.\<close>

lemma take_is_a_range:
  assumes "sorted_wrt (<) (map fst xs)" and "ys = take n (filter (\<lambda>x. a < fst x) xs)" and "ys \<noteq> []"
  shows "ys = filter (\<lambda>x. a < fst x \<and> fst x \<le> (fst (last ys) :: nat)) xs"
proof -
  let ?zs = "filter (\<lambda>x. a < fst x) xs"
  have s: "sorted_wrt (<) (map fst ?zs)" using assms(1) by (simp add: sorted_wrt_map sorted_wrt_filter)
  have split: "?zs = ys @ drop n ?zs" using assms(2) by simp
  have ysl: "\<forall>x\<in>set ys. fst x \<le> fst (last ys)"
  proof -
    have "sorted_wrt (<) (map fst ys)" using s split by (metis map_append sorted_wrt_append)
    then have "sorted_wrt (<) (map fst (butlast ys @ [last ys]))" using assms(3) by simp
    then have "\<forall>x\<in>set (butlast ys). fst x < fst (last ys)" by (simp add: sorted_wrt_append)
    moreover have "set ys = set (butlast ys) \<union> {last ys}" using assms(3) by (metis append_butlast_last_id set_append list.set(1,2))
    ultimately show ?thesis by auto
  qed
  have "\<forall>x\<in>set (drop n ?zs). fst (last ys) < fst x"
  proof -
    have "sorted_wrt (<) (map fst ys @ map fst (drop n ?zs))" using s split by (metis map_append)
    then show ?thesis using assms(3) by (auto simp: sorted_wrt_append)
  qed
  then have "filter (\<lambda>x. fst x \<le> fst (last ys)) (drop n ?zs) = []" by (auto simp: filter_empty_conv)
  then have "filter (\<lambda>x. fst x \<le> fst (last ys)) ?zs = ys" using ysl split by (metis filter_True filter_append append_Nil2)
  then show ?thesis by (simp add: conj_commute)
qed

lemma through_is_last:
  assumes "rows \<noteq> []" and "sorted_wrt (<) (map fst rows)" and "\<forall>x\<in>set rows. e < fst x"
  shows "through_of e rows = fst (last rows)"
  using assms
proof (induction rows arbitrary: e)
  case (Cons r rows)
  show ?case
  proof (cases "rows = []")
    case False
    have "\<forall>x\<in>set rows. max e (fst r) < fst x" using Cons.prems by simp
    from Cons.IH [OF False _ this] Cons.prems False show ?thesis by (simp add: through_of_def max.commute)
  qed (use Cons.prems in \<open>simp add: through_of_def\<close>)
qed simp

section \<open>An object and the database\<close>

text \<open>A batch on its way: either the cursor has passed what it expects, or it has just the rows of the outbox in its range.\<close>

definition batch_ok :: "nat \<Rightarrow> usage_db \<Rightarrow> nat \<times> (nat \<times> usage_row) list \<Rightarrow> bool" where
  "batch_ok c u m \<longleftrightarrow> snd m \<noteq> [] \<and> rows_ok (snd m)
     \<and> (fst m < c \<or> snd m = filter (\<lambda>x. fst m < fst x \<and> fst x \<le> fst (last (snd m))) (usage_outbox u))"

definition pc_ok :: "nat \<Rightarrow> (nat \<times> (nat \<times> usage_row) list) list \<Rightarrow> flush_pc \<Rightarrow> bool" where
  "pc_ok c mail pc \<longleftrightarrow> (case pc of
     Fl_Idle \<Rightarrow> True
   | Fl_First s \<Rightarrow> (\<forall>n. s = Some n \<longrightarrow> n \<le> c)
   | Fl_Again s \<Rightarrow> (\<forall>n. s = Some n \<longrightarrow> n \<le> c)
   | Fl_Sending e rows got \<Rightarrow> mail \<noteq> [] \<and> last mail = (e, rows) \<and> (True \<in> set got \<longrightarrow> fst (last rows) \<le> c))"

definition world_ok :: "string \<times> string \<Rightarrow> flush_world \<Rightarrow> bool" where
  "world_ok k w \<longleftrightarrow> ledger_ok (fw_ledger w) \<and> outbox_ok (fo_usage (fw_obj w)) \<and> usageCursor k (fw_ledger w) \<le> usage_seq (fo_usage (fw_obj w))
     \<and> (\<forall>m\<in>set (fw_mail w). batch_ok (usageCursor k (fw_ledger w)) (fo_usage (fw_obj w)) m)
     \<and> pc_ok (usageCursor k (fw_ledger w)) (fw_mail w) (fw_pc w)"

definition unsent :: "string \<times> string \<Rightarrow> flush_world \<Rightarrow> usage_row list" where
  "unsent k w = map snd (filter (\<lambda>x. usageCursor k (fw_ledger w) < fst x) (usage_outbox (fo_usage (fw_obj w))))"

definition account :: "day_id \<Rightarrow> flush_world \<Rightarrow> rat" where
  "account i w = in_ledger i (fw_ledger w) + of_day i (unsent (agent_of i) w)"

text \<open>What may happen: time goes forward from 1970, and nobody else sends for this agent.\<close>

fun event_ok :: "string \<times> string \<Rightarrow> flush_event \<Rightarrow> bool" where
  "event_ok k (Ev_Append rows) \<longleftrightarrow> (\<forall>r\<in>set rows. 0 \<le> us_at r)"
| "event_ok k (Ev_Elsewhere (Sent k' expected rows)) \<longleftrightarrow> k' \<noteq> k \<and> rows_ok rows"
| "event_ok k _ \<longleftrightarrow> True"

fun rows_of :: "flush_event \<Rightarrow> usage_row list" where
  "rows_of (Ev_Append rows) = kept_rows rows"
| "rows_of _ = []"

definition step_fine :: "string \<times> string \<Rightarrow> flush_world \<Rightarrow> flush_world \<Rightarrow> usage_row list \<Rightarrow> bool" where
  "step_fine k w w' rows \<longleftrightarrow> world_ok k w' \<and> (\<forall>i. agent_of i = k \<longrightarrow> account i w' = account i w + of_day i rows)"

lemma batch_ok_more:
  assumes "batch_ok c u m" and "usage_outbox u' = usage_outbox u @ new" and "\<forall>x\<in>set new. usage_seq u < fst x" and "outbox_ok u"
  shows "batch_ok c u' m"
proof (cases "fst m < c")
  case False
  then have r: "snd m = filter (\<lambda>x. fst m < fst x \<and> fst x \<le> fst (last (snd m))) (usage_outbox u)" and "snd m \<noteq> []" using assms(1) by (auto simp: batch_ok_def)
  then have "last (snd m) \<in> set (usage_outbox u)" by (metis (no_types, lifting) filter_is_subset last_in_set subsetD)
  then have "fst (last (snd m)) \<le> usage_seq u" using assms(4) by (simp add: outbox_ok_def)
  then have "filter (\<lambda>x. fst m < fst x \<and> fst x \<le> fst (last (snd m))) new = []" using assms(3) by (auto simp: filter_empty_conv)
  with r assms(1,2) show ?thesis by (simp add: batch_ok_def)
qed (use assms(1) in \<open>simp add: batch_ok_def\<close>)

lemma append_fine:
  assumes "world_ok k w" and "\<forall>r\<in>set rows. 0 \<le> us_at r"
  shows "step_fine k w (flush_step k limit (Ev_Append rows) w) (kept_rows rows)"
proof -
  let ?u = "fo_usage (fw_obj w)"
  have o: "outbox_ok ?u" and c: "usageCursor k (fw_ledger w) \<le> usage_seq ?u" using assms(1) by (simp_all add: world_ok_def)
  obtain new where new: "usage_outbox (appendUsage rows ?u) = usage_outbox ?u @ new" "map snd new = kept_rows rows" "\<forall>x\<in>set new. usage_seq ?u < fst x"
      and o': "outbox_ok (appendUsage rows ?u)" and s: "usage_seq ?u \<le> usage_seq (appendUsage rows ?u)"
    using outbox_append_rows [OF o assms(2)] by blast
  have "filter (\<lambda>x. usageCursor k (fw_ledger w) < fst x) new = new" using new(3) c by (auto intro!: filter_True)
  then have "unsent k (flush_step k limit (Ev_Append rows) w) = unsent k w @ kept_rows rows" by (simp add: unsent_def appended_def new(1,2))
  moreover have "\<forall>m\<in>set (fw_mail w). batch_ok (usageCursor k (fw_ledger w)) (appendUsage rows ?u) m"
    using assms(1) batch_ok_more [OF _ new(1,3) o] by (simp add: world_ok_def)
  ultimately show ?thesis using assms(1) o' s by (auto simp: step_fine_def world_ok_def account_def appended_def)
qed

lemma caught_up_outbox: "usage_outbox (fo_usage (caught_up seq b)) = filter (\<lambda>x. seq < fst x) (usage_outbox (fo_usage b))"
  by (simp add: caught_up_def pruneUsage_def delete_where_def not_le)

lemma caught_up_seq [simp]: "usage_seq (fo_usage (caught_up seq b)) = usage_seq (fo_usage b)"
  by (simp add: caught_up_def pruneUsage_def)

lemma caught_up_ok: "outbox_ok (fo_usage b) \<Longrightarrow> outbox_ok (fo_usage (caught_up seq b))"
  by (auto simp: outbox_ok_def caught_up_outbox sorted_wrt_map sorted_wrt_filter rows_ok_def)

lemma caught_up_batch:
  assumes "batch_ok c (fo_usage b) m" and "seq \<le> c"
  shows "batch_ok c (fo_usage (caught_up seq b)) m"
proof (cases "fst m < c")
  case False
  with assms(2) have "seq < fst x" if "fst m < fst x" for x :: "nat \<times> usage_row" using that by simp
  then have "filter (\<lambda>x. fst m < fst x \<and> fst x \<le> fst (last (snd m))) (usage_outbox (fo_usage (caught_up seq b)))
     = filter (\<lambda>x. fst m < fst x \<and> fst x \<le> fst (last (snd m))) (usage_outbox (fo_usage b))"
    by (auto simp: caught_up_outbox intro: filter_cong)
  with assms(1) show ?thesis by (simp add: batch_ok_def)
qed (use assms(1) in \<open>simp add: batch_ok_def\<close>)

lemma next_batch_ok:
  assumes "outbox_ok (fo_usage b)" and "flush_next limit e b = Fl_Sending e' rows got"
  shows "batch_ok c (fo_usage b) (e', rows) \<and> got = []"
proof -
  have r: "rows = take limit (filter (\<lambda>x. e < fst x) (usage_outbox (fo_usage b)))" and n: "rows \<noteq> []" "e' = e" "got = []"
    using assms(2) by (auto simp: flush_next_def Let_def pending_in_order [OF assms(1)] split: if_splits)
  have "rows_ok rows" using assms(1) r by (auto simp: rows_ok_def outbox_ok_def dest!: in_set_takeD)
  then show ?thesis using take_is_a_range [OF _ r n(1)] assms(1) n by (simp add: batch_ok_def outbox_ok_def)
qed

definition fresh_pc :: "nat \<Rightarrow> usage_db \<Rightarrow> flush_pc \<Rightarrow> bool" where
  "fresh_pc c u pc \<longleftrightarrow> (case pc of Fl_Sending e rows got \<Rightarrow> batch_ok c u (e, rows) \<and> got = [] | Fl_First s \<Rightarrow> s = None | Fl_Again s \<Rightarrow> s = None | Fl_Idle \<Rightarrow> True)"

lemma next_fresh: "outbox_ok (fo_usage b) \<Longrightarrow> fresh_pc c (fo_usage b) (flush_next limit e b)"
  using next_batch_ok by (cases "flush_next limit e b") (auto simp: fresh_pc_def flush_next_def Let_def split: if_splits)

lemma enter_fine:
  assumes w: "world_ok k w" and b: "b = fw_obj w \<or> (\<exists>seq \<le> usageCursor k (fw_ledger w). b = caught_up seq (fw_obj w))"
    and pc: "fresh_pc (usageCursor k (fw_ledger w)) (fo_usage b) pc"
  shows "step_fine k w (enter (pc, b) w) []"
proof -
  let ?c = "usageCursor k (fw_ledger w)"
  have o: "outbox_ok (fo_usage b)" and s: "usage_seq (fo_usage b) = usage_seq (fo_usage (fw_obj w))"
    and m: "\<forall>m\<in>set (fw_mail w). batch_ok ?c (fo_usage b) m"
    using w b caught_up_ok caught_up_batch by (auto simp: world_ok_def)
  have u: "filter (\<lambda>x. ?c < fst x) (usage_outbox (fo_usage b)) = filter (\<lambda>x. ?c < fst x) (usage_outbox (fo_usage (fw_obj w)))"
  proof -
    have "filter (\<lambda>x. seq < fst x \<and> ?c < fst x) xs = filter (\<lambda>x. ?c < fst x) xs" if "seq \<le> ?c" for seq and xs :: "(nat \<times> usage_row) list"
      using that by (intro filter_cong) auto
    then show ?thesis using b by (auto simp: caught_up_outbox)
  qed
  have "world_ok k (enter (pc, b) w)"
    using w o s m pc by (cases pc) (auto simp: world_ok_def enter_def pc_ok_def fresh_pc_def)
  moreover have "unsent k (enter (pc, b) w) = unsent k w" by (simp add: unsent_def enter_def u)
  ultimately show ?thesis by (simp add: step_fine_def account_def) (simp add: enter_def)
qed

lemma begin_fine:
  assumes "world_ok k w"
  shows "step_fine k w (flush_step k limit Ev_Flush w) []"
proof (cases "fw_pc w = Fl_Idle")
  case True
  have "fresh_pc c (fo_usage (fw_obj w)) (flush_begin limit (fw_obj w))" for c
    using assms next_fresh [of "fw_obj w"] by (auto simp: world_ok_def flush_begin_def fresh_pc_def split: option.split)
  from enter_fine [OF assms _ this] True show ?thesis by simp
qed (use assms in \<open>simp add: step_fine_def\<close>)

lemma same_fine: "world_ok k w \<Longrightarrow> pc_ok (usageCursor k (fw_ledger w)) (fw_mail w) pc \<Longrightarrow> step_fine k w (w\<lparr>fw_pc := pc\<rparr>) []"
  by (simp add: step_fine_def world_ok_def account_def unsent_def)

lemma read_fine: "world_ok k w \<Longrightarrow> step_fine k w (flush_step k limit Ev_Read w) []"
  unfolding flush_step.simps by (rule same_fine, assumption) (auto simp: world_ok_def pc_ok_def split: flush_pc.splits)

lemma lost_fine: "world_ok k w \<Longrightarrow> step_fine k w (flush_step k limit Ev_Lost w) []"
  unfolding flush_step.simps by (rule same_fine, assumption) (simp add: pc_ok_def)

lemma reply_fine:
  assumes w: "world_ok k w"
  shows "step_fine k w (flush_step k limit (Ev_Reply n) w) []"
proof (cases "fw_pc w")
  case Fl_Idle
  with w show ?thesis by (simp add: step_fine_def)
next
  case (Fl_First s)
  show ?thesis
  proof (cases s)
    case (Some seq)
    have "outbox_ok (fo_usage (caught_up seq (fw_obj w)))" using w caught_up_ok by (simp add: world_ok_def)
    moreover have "seq \<le> usageCursor k (fw_ledger w)" using w Fl_First Some by (simp add: world_ok_def pc_ok_def)
    ultimately have "step_fine k w (enter (flush_next limit seq (caught_up seq (fw_obj w)), caught_up seq (fw_obj w)) w) []"
      using enter_fine [OF w _ next_fresh] by blast
    then show ?thesis by (simp add: Fl_First Some flush_first_def Let_def)
  qed (use w Fl_First in \<open>simp add: step_fine_def\<close>)
next
  case (Fl_Again s)
  show ?thesis
  proof (cases s)
    case (Some seq)
    have "seq \<le> usageCursor k (fw_ledger w)" using w Fl_Again Some by (simp add: world_ok_def pc_ok_def)
    then have "step_fine k w (enter (Fl_Idle, caught_up seq (fw_obj w)) w) []"
      using enter_fine [OF w, of "caught_up seq (fw_obj w)" Fl_Idle] by (auto simp: fresh_pc_def)
    then show ?thesis by (simp add: Fl_Again Some flush_again_def)
  qed (use w Fl_Again in \<open>simp add: step_fine_def\<close>)
next
  case (Fl_Sending e rows got)
  show ?thesis
  proof (cases "n < length got")
    case True
    have "got ! n \<Longrightarrow> fst (last rows) \<le> usageCursor k (fw_ledger w)"
      using w True by (auto simp: world_ok_def pc_ok_def Fl_Sending in_set_conv_nth)
    then have "step_fine k w (enter (flush_counted rows (got ! n) (fw_obj w)) w) []"
      using enter_fine [OF w, of "caught_up (fst (last rows)) (fw_obj w)" Fl_Idle] enter_fine [OF w, of "fw_obj w" "Fl_Again None"]
      by (cases "got ! n") (auto simp: flush_counted_def fresh_pc_def)
    with True show ?thesis by (simp add: Fl_Sending)
  qed (use w Fl_Sending in \<open>simp add: step_fine_def\<close>)
qed

text \<open>A batch that runs moves what it adds out of what waits.\<close>

lemma batch_moves:
  assumes "batch_ok c u (c, rows)" and "outbox_ok u"
  shows "filter (\<lambda>x. c < fst x) (usage_outbox u) = rows @ filter (\<lambda>x. through_of c rows < fst x) (usage_outbox u)"
    and "through_of c rows = fst (last rows)" and "c < fst (last rows)" and "fst (last rows) \<le> usage_seq u"
proof -
  have r: "rows = filter (\<lambda>x. c < fst x \<and> fst x \<le> fst (last rows)) (usage_outbox u)" and n: "rows \<noteq> []" using assms(1) by (auto simp: batch_ok_def)
  have s: "sorted_wrt (<) (map fst (usage_outbox u))" using assms(2) by (simp add: outbox_ok_def)
  have "sorted_wrt (<) (map fst rows)" using s by (subst r) (simp add: sorted_wrt_map sorted_wrt_filter)
  moreover have g: "\<forall>x\<in>set rows. c < fst x" by (subst r) simp
  ultimately show t: "through_of c rows = fst (last rows)" using through_is_last n by blast
  show l: "c < fst (last rows)" using g n by simp
  have "last rows \<in> set (usage_outbox u)" using r n by (metis (no_types, lifting) filter_is_subset last_in_set subsetD)
  then show "fst (last rows) \<le> usage_seq u" using assms(2) by (simp add: outbox_ok_def)
  have "sorted (map fst (filter (\<lambda>x. c < fst x) (usage_outbox u)))" using s by (simp add: sorted_filter strict_sorted_imp_sorted)
  from sorted_split_at [OF this, of "fst (last rows)"] have "filter (\<lambda>x. c < fst x) (usage_outbox u)
     = filter (\<lambda>x. c < fst x \<and> fst x \<le> fst (last rows)) (usage_outbox u) @ filter (\<lambda>x. c < fst x \<and> fst (last rows) < fst x) (usage_outbox u)"
    by (simp add: conj_commute)
  moreover have "filter (\<lambda>x. c < fst x \<and> fst (last rows) < fst x) (usage_outbox u) = filter (\<lambda>x. fst (last rows) < fst x) (usage_outbox u)"
    using l by (intro filter_cong) auto
  ultimately show "filter (\<lambda>x. c < fst x) (usage_outbox u) = rows @ filter (\<lambda>x. through_of c rows < fst x) (usage_outbox u)"
    using r by (simp add: t)
qed

lemma batch_fine:
  assumes w: "world_ok k w"
  shows "step_fine k w (flush_step k limit (Ev_Batch n) w) []"
proof (cases "n < length (fw_mail w)")
  case True
  let ?c = "usageCursor k (fw_ledger w)" and ?u = "fo_usage (fw_obj w)"
  obtain e rows where m: "fw_mail w ! n = (e, rows)" by fastforce
  have mem: "(e, rows) \<in> set (fw_mail w)" using True m by (metis nth_mem)
  have b: "batch_ok ?c ?u (e, rows)" and o: "outbox_ok ?u" and l: "ledger_ok (fw_ledger w)" using w mem by (auto simp: world_ok_def)
  obtain counted l' where s: "sendUsage k e rows (fw_ledger w) = (counted, l')" by fastforce
  have rows: "rows \<noteq> []" "rows_ok rows" using b by (simp_all add: batch_ok_def)
  have l': "ledger_ok l'" using send_ok [OF l rows(2), of k e] s by simp
  have mine: "rows' = rows" if "fw_pc w = Fl_Sending e' rows' got" and "Suc n = length (fw_mail w)" for e' rows' got
  proof -
    have "fw_mail w \<noteq> []" and "last (fw_mail w) = (e', rows')" using w that(1) by (simp_all add: world_ok_def pc_ok_def)
    moreover have "length (fw_mail w) - 1 = n" using that(2) by simp
    ultimately show ?thesis using m last_conv_nth [of "fw_mail w"] by simp
  qed
  let ?w' = "w\<lparr>fw_ledger := l', fw_pc := batch_ran (Suc n = length (fw_mail w)) counted (fw_pc w)\<rparr>"
  have step: "flush_step k limit (Ev_Batch n) w = ?w'" using True by (simp add: m s)
  show ?thesis
  proof (cases "?c = e")
    case False
    have c: "usageCursor k l' = ?c" "\<not> counted" using send_refused [OF False, of rows] rows(1) s by simp_all
    have "in_ledger i l' = in_ledger i (fw_ledger w)" for i using in_ledger_refused [OF False, of i rows] s by simp
    moreover have "pc_ok ?c (fw_mail w) (fw_pc ?w')" using w c(2) by (auto simp: world_ok_def pc_ok_def batch_ran_def split: flush_pc.splits)
    ultimately show ?thesis using w l' c(1) unfolding step by (simp add: step_fine_def world_ok_def account_def unsent_def)
  next
    case eq: True
    note mv = batch_moves [OF b [folded eq] o, folded eq]
    note sc = send_counts [OF rows(1) eq]
    have c: "usageCursor k l' = through_of ?c rows" using sc(4) s eq by simp
    have up: "?c < usageCursor k l'" using c mv(2,3) by simp
    have acc: "in_ledger i l' + of_day i (unsent k ?w') = in_ledger i (fw_ledger w) + of_day i (unsent k w)" if "agent_of i = k" for i
    proof -
      have "of_day i (unsent k w) = of_day i (map snd rows) + of_day i (unsent k ?w')"
        using mv(1) by (simp add: unsent_def c)
      moreover have "in_ledger i l' = in_ledger i (fw_ledger w) + of_day i (map snd rows)"
        using in_ledger_sent [OF l rows(1) eq, of i] of_day_own [OF that, of rows] s by simp
      ultimately show ?thesis by simp
    qed
    have "pc_ok (usageCursor k l') (fw_mail w) (fw_pc ?w')"
      using w mine c mv(2) up by (auto simp: world_ok_def pc_ok_def batch_ran_def split: flush_pc.splits)
    moreover have "\<forall>m\<in>set (fw_mail w). batch_ok (usageCursor k l') ?u m" using w up by (auto simp: world_ok_def batch_ok_def)
    moreover have "usageCursor k l' \<le> usage_seq ?u" using c mv(2,4) by simp
    ultimately show ?thesis using w l' acc unfolding step by (simp add: step_fine_def world_ok_def account_def)
  qed
qed (use w in \<open>simp add: step_fine_def\<close>)

lemma elsewhere_fine:
  assumes w: "world_ok k w" and e: "event_ok k (Ev_Elsewhere ev)"
  shows "step_fine k w (flush_step k limit (Ev_Elsewhere ev) w) []"
proof -
  let ?l = "fw_ledger w"
  have l: "ledger_ok ?l" using w by (simp add: world_ok_def)
  have "ledger_ok (d1_do ev ?l) \<and> usageCursor k (d1_do ev ?l) = usageCursor k ?l \<and> (\<forall>i. agent_of i = k \<longrightarrow> in_ledger i (d1_do ev ?l) = in_ledger i ?l)"
  proof (cases ev)
    case (Sent k' expected rows)
    with e have k: "k' \<noteq> k" and r: "rows_ok rows" by simp_all
    have "agent_of i = k \<Longrightarrow> in_ledger i (snd (sendUsage k' expected rows ?l)) = in_ledger i ?l" for i
      using in_ledger_other_agent [OF l, of i k'] k by simp
    then show ?thesis using send_ok [OF l r, of k' expected] send_other_cursor [of k k' expected rows ?l] k unfolding Sent d1_do.simps by simp
  next
    case (Folded now keep_days n)
    obtain days hours l' where f: "foldUsage now keep_days n ?l = (days, hours, l')" by (metis prod_cases3)
    then show ?thesis using foldUsage_account [OF l f] by (simp add: Folded usageCursor_def)
  qed
  then show ?thesis using w by (simp add: step_fine_def world_ok_def account_def unsent_def)
qed

lemma flush_step_fine:
  assumes "world_ok k w" and "event_ok k ev"
  shows "step_fine k w (flush_step k limit ev w) (rows_of ev)"
proof (cases ev)
  case (Ev_Append rows)
  with assms show ?thesis using append_fine by simp
next
  case (Ev_Elsewhere e)
  with assms show ?thesis using elsewhere_fine [OF assms(1), of e limit] by simp
qed (use assms begin_fine batch_fine read_fine reply_fine lost_fine in simp_all)

lemma flush_run_fine:
  assumes "world_ok k w" and "\<forall>ev\<in>set evs. event_ok k ev"
  shows "step_fine k w (flush_run k limit evs w) (concat (map rows_of evs))"
  using assms
proof (induction evs arbitrary: w)
  case Nil
  then show ?case by (simp add: step_fine_def flush_run_def)
next
  case (Cons ev evs)
  have s: "step_fine k w (flush_step k limit ev w) (rows_of ev)" using flush_step_fine Cons.prems by simp
  then have "step_fine k (flush_step k limit ev w) (flush_run k limit evs (flush_step k limit ev w)) (concat (map rows_of evs))"
    using Cons by (simp add: step_fine_def)
  with s show ?case by (simp add: step_fine_def flush_run_def)
qed

section \<open>A flush that is answered\<close>

definition left_of :: "string \<times> string \<Rightarrow> flush_obj \<Rightarrow> ledger \<Rightarrow> (nat \<times> usage_row) list" where
  "left_of k b l = filter (\<lambda>x. usageCursor k l < fst x) (usage_outbox (fo_usage b))"

lemma flush_behind:
  assumes "fo_sent b = Some s" and "s < usageCursor k l" and "outbox_ok (fo_usage b)" and "flushUsage k limit b l = (r, b', l')"
  shows "usageCursor k l' = usageCursor k l \<and> (pendingUsage s limit (fo_usage b) = [] \<and> b' = b \<or> b' = caught_up (usageCursor k l) b)"
proof (cases "flush_next limit s b")
  case (Fl_Sending e rows got)
  then have e: "e = s" "rows \<noteq> []" by (auto simp: flush_next_def Let_def split: if_splits)
  have "usageCursor k l \<noteq> e" using assms(2) e by simp
  note rf = send_refused [OF this, of rows]
  obtain l1 where "sendUsage k e rows l = (False, l1)" using rf(4) [OF e(2)] by (metis prod.collapse)
  then show ?thesis using rf(3) assms(1,4) Fl_Sending by (auto simp: flushUsage_def flush_again_def)
qed (use assms in \<open>auto simp: flushUsage_def flush_next_def Let_def split: if_splits\<close>)

lemma flush_begins: "fo_sent b = None \<Longrightarrow> flushUsage k limit b l = flushUsage k limit (caught_up (usageCursor k l) b) l"
  by (simp add: flushUsage_def flush_first_def Let_def caught_up_def)

section \<open>A pass that stands down\<close>

text \<open>Passes that move nothing come back at most five times in a row, within 155 seconds in all.\<close>

lemma stand_down_from:
  assumes "\<forall>p\<in>set ps. \<not> snd p" and "n \<le> 5"
  shows "length (stand_down_run ps n) \<le> 5 - n \<and> sum_list (stand_down_run ps n) \<le> 5000 * (32 - 2 ^ n)"
  using assms
proof (induction ps arbitrary: n)
  case (Cons p ps)
  obtain unsent where p: "p = (unsent, False)" using Cons.prems(1) by (cases p) simp
  show ?case
  proof (cases "unsent \<and> n < 5")
    case True
    then have "length (stand_down_run ps (n + 1)) \<le> 5 - (n + 1) \<and> sum_list (stand_down_run ps (n + 1)) \<le> 5000 * (32 - 2 ^ (n + 1))"
      by (intro Cons.IH) (use Cons.prems(1) True in simp_all)
    then show ?thesis using True by (auto simp: p standDownDelay_def USAGE_RETRY_LIMIT_def USAGE_RETRY_BASE_MS_def)
  next
    case False
    have "(2 :: int) ^ n \<le> 2 ^ 5" using Cons.prems(2) by (intro power_increasing) simp_all
    then show ?thesis using False by (auto simp: p standDownDelay_def USAGE_RETRY_LIMIT_def)
  qed
next
  case Nil
  have "(2 :: int) ^ n \<le> 2 ^ 5" using Nil.prems(2) by (intro power_increasing) simp_all
  then show ?case by simp
qed

end
