(* ===== verification/Ledger_Read.thy ===== *)
theory Ledger_Read
  imports Ledger_Runs Model_Jobs
begin

text \<open>
  What is read of the tenant's usage (\<open>cf/src/usage-d1.ts\<close>, \<open>usage-windows.ts\<close>): the window a page asks for, its rows in buckets and
  groups, the price of a row, the share of the cached tokens, an agent's own ledger, and the costs by period. Quantities and prices are
  rationals; the rounding of a shown figure is written out. The lemmas show that a fold of old days changes no page, that the split of the
  cached tokens moves cost and makes none, and how far a rounded total is from the exact one.
\<close>

section \<open>Windows and groups\<close>

datatype usage_by = By_Total | By_Agent | By_Model | By_Tool

record usage_query =
  uq_window :: string
  uq_from :: "int option"
  uq_to :: int
  uq_daily :: bool
  uq_by :: usage_by

definition USAGE_WINDOWS :: "(string \<times> int) list" where
  "USAGE_WINDOWS = [(''24h'', DAY_MS), (''7d'', 7 * DAY_MS), (''30d'', 30 * DAY_MS)]"

definition WINDOW_NAMES :: "string list" where "WINDOW_NAMES = map fst USAGE_WINDOWS"

definition by_named :: "string \<Rightarrow> usage_by option" where
  "by_named s = map_of [(''total'', By_Total), (''agent'', By_Agent), (''model'', By_Model), (''tool'', By_Tool)] s"

text \<open>
  \<open>q\<close> is the query string's parameters; \<open>Inl\<close> says what is wrong. The windows are looked up as the properties of an object, which has those
  of its prototype as well: their values are functions, and the window then starts at no number (\<open>uq_from\<close> is \<open>None\<close>).
\<close>

definition inherited_names :: "string list" where
  "inherited_names = [''constructor'', ''toString'', ''toLocaleString'', ''valueOf'', ''hasOwnProperty'', ''isPrototypeOf'', ''propertyIsEnumerable'',
     ''__proto__'', ''__defineGetter__'', ''__defineSetter__'', ''__lookupGetter__'', ''__lookupSetter__'']"

definition span_of :: "string \<Rightarrow> int option option" where
  "span_of window = (case map_of USAGE_WINDOWS window of Some ms \<Rightarrow> Some (Some ms)
     | None \<Rightarrow> if window \<in> set inherited_names then Some None else None)"

definition parseUsageQuery :: "(string \<Rightarrow> string option) \<Rightarrow> int \<Rightarrow> string + usage_query" where
  "parseUsageQuery q now =
     (let window = or_else (q ''window'') ''24h'' in
      case span_of window of
        None \<Rightarrow> Inl (''window is one of '' @ join_with '', '' WINDOW_NAMES)
      | Some ms \<Rightarrow>
          let bucket = or_else (q ''bucket'') (if ends_with ''d'' window then ''1d'' else ''1h'') in
          if bucket \<noteq> ''1h'' \<and> bucket \<noteq> ''1d'' then Inl ''bucket is 1h or 1d''
          else (case by_named (or_else (q ''by'') ''total'') of
              None \<Rightarrow> Inl ''by is total, agent, model or tool''
            | Some by_what \<Rightarrow> Inr \<lparr>uq_window = window, uq_from = map_option (\<lambda>n. now - n) ms, uq_to = now, uq_daily = (bucket = ''1d''), uq_by = by_what\<rparr>))"

definition before_last_colon :: "string \<Rightarrow> string" where
  "before_last_colon s = (if CHR '':'' \<in> set s then rev (drop 1 (dropWhile (\<lambda>c. c \<noteq> CHR '':'') (rev s))) else [])"

definition usageGroup :: "usage_by \<Rightarrow> string \<Rightarrow> string \<Rightarrow> string \<Rightarrow> string" where
  "usageGroup by_what agent resource key =
     (case by_what of
        By_Total \<Rightarrow> ''total''
      | By_Agent \<Rightarrow> agent
      | By_Model \<Rightarrow> if resource = ''model.tokens'' then before_last_colon key else []
      | By_Tool \<Rightarrow> if resource \<in> {''tool.call'', ''js.run'', ''sandbox.container''} then key else [])"

section \<open>Prices\<close>

definition newest_price :: "usage_price list \<Rightarrow> string \<Rightarrow> string \<Rightarrow> string \<Rightarrow> int \<Rightarrow> usage_price option" where
  "newest_price prices resource key unit bucket =
     (case order_by (\<lambda>p. - up_from p) (filter (\<lambda>p. up_resource p = resource \<and> up_key p = key \<and> up_unit p = unit \<and> up_from p \<le> bucket) prices) of
        [] \<Rightarrow> None | p # _ \<Rightarrow> Some p)"

definition priceFor :: "usage_price list \<Rightarrow> int \<Rightarrow> string \<Rightarrow> string \<Rightarrow> string \<Rightarrow> rat option" where
  "priceFor prices bucket resource key unit =
     (if starts_with OWN_KEY_PREFIX key then Some 0
      else map_option up_credits (case newest_price prices resource key unit bucket of
          Some p \<Rightarrow> Some p | None \<Rightarrow> newest_price prices resource ''*'' unit bucket))"

definition row_price :: "usage_price list \<Rightarrow> hourly_row \<Rightarrow> rat option" where
  "row_price prices r = priceFor prices (hr_hour r) (hr_resource r) (hr_key r) (hr_unit r)"

section \<open>A page\<close>

definition in_window :: "int option \<Rightarrow> int \<Rightarrow> hourly_row \<Rightarrow> bool" where
  "in_window start end r \<longleftrightarrow> (case start of None \<Rightarrow> False | Some t \<Rightarrow> t \<le> hr_hour r) \<and> hr_hour r < end"

definition window_rows :: "(hourly_row \<Rightarrow> bool) \<Rightarrow> int option \<Rightarrow> int \<Rightarrow> ledger \<Rightarrow> hourly_row list" where
  "window_rows p start end l = filter (\<lambda>r. p r \<and> in_window start end r) (lg_hourly l) @ filter (\<lambda>r. p r \<and> in_window start end r) (lg_daily l)"

text \<open>\<open>GROUP BY\<close> with \<open>SUM(quantity)\<close>, and the order of a reading.\<close>

definition grouped :: "hourly_row list \<Rightarrow> hourly_row list" where
  "grouped rows = fold add_row rows []"

definition in_order :: "hourly_row list \<Rightarrow> hourly_row list" where
  "in_order rows = order_by hr_hour (order_by hr_resource (order_by hr_key (order_by hr_unit rows)))"

definition bucketed :: "int \<Rightarrow> bool \<Rightarrow> hourly_row \<Rightarrow> hourly_row" where
  "bucketed bucket_size with_agent r = r\<lparr>hr_hour := sql_div (hr_hour r) bucket_size * bucket_size, hr_agent := (if with_agent then hr_agent r else [])\<rparr>"

text \<open>\<open>rr_cost\<close>: absent, or \<open>null\<close>, or a cost.\<close>

record read_row =
  rr_bucket :: int
  rr_group :: string
  rr_resource :: string
  rr_key :: string
  rr_quantity :: rat
  rr_unit :: string
  rr_cost :: "rat option option"
  rr_own :: bool

definition read_row_of :: "usage_price list \<Rightarrow> usage_by \<Rightarrow> hourly_row \<Rightarrow> read_row" where
  "read_row_of prices by_what r =
     (let own = starts_with OWN_KEY_PREFIX (hr_key r) in
      \<lparr>rr_bucket = hr_hour r, rr_group = usageGroup by_what (hr_agent r) (hr_resource r) (hr_key r), rr_resource = hr_resource r, rr_key = hr_key r,
       rr_quantity = hr_quantity r, rr_unit = hr_unit r,
       rr_cost = (if own \<or> prices = [] then None else Some (map_option (\<lambda>p. p * hr_quantity r) (row_price prices r))), rr_own = own\<rparr>)"

text \<open>The input rate's share of the cached tokens, moved from a bucket's input row to its cache row, row by row.\<close>

definition same_place :: "read_row \<Rightarrow> string \<Rightarrow> read_row \<Rightarrow> bool" where
  "same_place r key x \<longleftrightarrow> rr_bucket x = rr_bucket r \<and> rr_group x = rr_group r \<and> rr_resource x = rr_resource r \<and> rr_key x = key \<and> rr_unit x = rr_unit r"

definition input_places :: "read_row \<Rightarrow> read_row list \<Rightarrow> nat list" where
  "input_places r rows =
     (let key = take (length (rr_key r) - length '':cache_read'') (rr_key r) @ '':input'' in
      filter (\<lambda>i. rr_resource (rows ! i) = ''model.tokens'' \<and> ends_with '':input'' (rr_key (rows ! i)) \<and> same_place r key (rows ! i)) [0..<length rows])"

definition input_of :: "read_row \<Rightarrow> read_row list \<Rightarrow> nat option" where
  "input_of r rows = (if input_places r rows = [] then None else Some (last (input_places r rows)))"

definition cache_share :: "usage_price list \<Rightarrow> nat \<Rightarrow> read_row list \<Rightarrow> read_row list" where
  "cache_share prices i rows =
     (let r = rows ! i in
      if rr_resource r \<noteq> ''model.tokens'' \<or> \<not> ends_with '':cache_read'' (rr_key r) then rows
      else (case rr_cost r of
        Some (Some c) \<Rightarrow>
          (case input_of r rows of
             None \<Rightarrow> rows
           | Some n \<Rightarrow>
               (case rr_cost (rows ! n) of
                  Some (Some input_cost) \<Rightarrow>
                    (case priceFor prices (rr_bucket (rows ! n)) (rr_resource (rows ! n)) (rr_key (rows ! n)) (rr_unit (rows ! n)) of
                       None \<Rightarrow> rows
                     | Some rate \<Rightarrow>
                         let share = rate * rr_quantity r in
                         (rows[i := r\<lparr>rr_cost := Some (Some (c + share))\<rparr>])[n := (rows ! n)\<lparr>rr_cost := Some (Some (input_cost - share))\<rparr>])
                | _ \<Rightarrow> rows))
      | _ \<Rightarrow> rows))"

definition foldCacheReadCost :: "usage_price list \<Rightarrow> read_row list \<Rightarrow> read_row list" where
  "foldCacheReadCost prices rows = fold (cache_share prices) [0..<length rows] rows"

definition usageFirstHours :: "string \<Rightarrow> ledger \<Rightarrow> (string \<times> int) list" where
  "usageFirstHours tenant l =
     (let rows = filter (\<lambda>r. hr_tenant r = tenant \<and> hr_resource r \<noteq> UNACCEPTED_TOKENS) (lg_hourly l @ lg_daily l) in
      map (\<lambda>res. (res, Min (hr_hour ` {r \<in> set rows. hr_resource r = res}))) (remdups (map hr_resource rows)))"

record usage_page =
  up_rows :: "read_row list"
  up_priced :: bool
  up_first :: "(string \<times> int) list"
  up_partial :: bool

definition bucket_size_of :: "usage_query \<Rightarrow> int" where
  "bucket_size_of q = (if uq_daily q then DAY_MS else 3600000)"

definition page_from :: "usage_query \<Rightarrow> int option" where
  "page_from q = map_option (\<lambda>t. (t div bucket_size_of q) * bucket_size_of q) (uq_from q)"

definition page_ledger :: "string \<Rightarrow> usage_query \<Rightarrow> ledger \<Rightarrow> hourly_row list" where
  "page_ledger tenant q l = in_order (grouped (map (bucketed (bucket_size_of q) (uq_by q = By_Agent))
     (window_rows (\<lambda>r. hr_tenant r = tenant \<and> hr_resource r \<noteq> UNACCEPTED_TOKENS) (page_from q) (uq_to q) l)))"

definition readUsage :: "usage_price list \<Rightarrow> string \<Rightarrow> usage_query \<Rightarrow> ledger \<Rightarrow> usage_page" where
  "readUsage prices tenant q l =
     (let rows = map (read_row_of prices (uq_by q)) (page_ledger tenant q l) in
      \<lparr>up_rows = (if prices \<noteq> [] then foldCacheReadCost prices rows else rows), up_priced = (prices \<noteq> []),
       up_first = usageFirstHours tenant l,
       up_partial = (window_rows (\<lambda>r. hr_tenant r = tenant \<and> hr_unit r = ''unreadable'') (page_from q) (uq_to q) l \<noteq> [])\<rparr>)"

text \<open>One agent's rows in buckets.\<close>

definition readAgentLedger :: "string \<times> string \<Rightarrow> int \<Rightarrow> int \<Rightarrow> int \<Rightarrow> ledger \<Rightarrow> hourly_row list" where
  "readAgentLedger k start end bucket_size l = in_order (grouped (map (bucketed bucket_size False)
     (window_rows (\<lambda>r. (hr_tenant r, hr_agent r) = k \<and> hr_resource r \<noteq> UNACCEPTED_TOKENS) (Some start) end l)))"

section \<open>Costs by period\<close>

text \<open>A figure rounded to ten decimals.\<close>

definition tidy :: "rat \<Rightarrow> rat" where
  "tidy n = of_int \<lfloor>n * 10000000000 + 1 / 2\<rfloor> / 10000000000"

record resource_cost =
  rc_resource :: string
  rc_cost :: rat
  rc_unpriced :: "string list"

record period_cost =
  pc_start :: int
  pc_total :: rat
  pc_resources :: "resource_cost list"

definition period_day :: "int \<Rightarrow> int" where
  "period_day t = (t div DAY_MS) * DAY_MS"

definition resource_of :: "usage_price list \<Rightarrow> hourly_row list \<Rightarrow> string \<Rightarrow> resource_cost" where
  "resource_of prices rows res =
     (let mine = filter (\<lambda>r. hr_resource r = res) rows in
      \<lparr>rc_resource = res, rc_cost = tidy (sum_list (map (\<lambda>r. or_else (row_price prices r) 0 * hr_quantity r) mine)),
       rc_unpriced = order_by id (remdups (map (\<lambda>r. hr_key r @ '' '' @ hr_unit r) (filter (\<lambda>r. row_price prices r = None) mine)))\<rparr>)"

definition period_of :: "usage_price list \<Rightarrow> hourly_row list \<Rightarrow> int \<Rightarrow> period_cost" where
  "period_of prices rows start =
     (let rs = map (resource_of prices rows) (order_by id (remdups (map hr_resource rows))) in
      \<lparr>pc_start = start, pc_total = tidy (sum_list (map rc_cost rs)), pc_resources = rs\<rparr>)"

text \<open>\<open>start\<close> is where the period of a time begins: its day, or its month.\<close>

definition costsByPeriod :: "(int \<Rightarrow> int) \<Rightarrow> usage_price list \<Rightarrow> hourly_row list \<Rightarrow> rat \<times> period_cost list" where
  "costsByPeriod start prices rows =
     (let ps = map (\<lambda>s. period_of prices (filter (\<lambda>r. start (hr_hour r) = s) rows) s) (order_by id (remdups (map (\<lambda>r. start (hr_hour r)) rows))) in
      (tidy (sum_list (map pc_total ps)), ps))"

record own_costs =
  oc_total :: rat
  oc_periods :: "period_cost list"
  oc_agents :: "(string \<times> rat) list"
  oc_days :: "(string \<times> bool \<times> (int \<times> rat) list) list option"

definition cost_of :: "usage_price list \<Rightarrow> hourly_row \<Rightarrow> rat" where
  "cost_of prices r = or_else (row_price prices r) 0 * hr_quantity r"

definition agent_costs :: "usage_price list \<Rightarrow> hourly_row list \<Rightarrow> (string \<times> rat) list" where
  "agent_costs prices rows =
     order_by (\<lambda>x. - snd x) (order_by fst (map (\<lambda>a. (a, tidy (sum_list (map (cost_of prices) (filter (\<lambda>r. hr_agent r = a) rows)))))
       (remdups (map hr_agent rows))))"

text \<open>\<open>provisioned_agents\<close>, as far as it is read here.\<close>

record provisioned =
  pv_tenant :: string
  pv_agent :: string
  pv_raft :: string
  pv_budget :: "string option"

definition onboarding_row :: "provisioned list \<Rightarrow> hourly_row \<Rightarrow> bool" where
  "onboarding_row prov r \<longleftrightarrow> has_row (\<lambda>p. pv_tenant p = hr_tenant r \<and> pv_agent p = hr_agent r \<and> pv_budget p = Some ''onboarding'') prov"

text \<open>Each provisioned agent's cost by the day: its name elsewhere, whether it is on the onboarding budget, and its days.\<close>

definition agent_days :: "usage_price list \<Rightarrow> provisioned list \<Rightarrow> hourly_row list \<Rightarrow> (string \<times> bool \<times> (int \<times> rat) list) list" where
  "agent_days prices named rows = order_by fst (concat (map (\<lambda>a.
     case get_row (\<lambda>p. pv_agent p = a) (rev named) of
       None \<Rightarrow> []
     | Some p \<Rightarrow>
         let mine = filter (\<lambda>r. hr_agent r = a) rows in
         [(pv_raft p, pv_budget p = Some ''onboarding'',
           map (\<lambda>s. (s, tidy (sum_list (map (cost_of prices) (filter (\<lambda>r. period_day (hr_hour r) = s) mine)))))
             (order_by id (remdups (map (\<lambda>r. period_day (hr_hour r)) mine))))])
     (remdups (map hr_agent rows))))"

definition tenant_rows :: "string \<Rightarrow> int \<Rightarrow> int \<Rightarrow> ledger \<Rightarrow> hourly_row list" where
  "tenant_rows tenant start end l =
     order_by hr_hour (order_by hr_resource (order_by hr_key (order_by hr_unit (order_by hr_agent
       (grouped (window_rows (\<lambda>r. hr_tenant r = tenant \<and> hr_resource r \<noteq> UNACCEPTED_TOKENS) (Some start) end l))))))"

definition readTenantCosts :: "(int \<Rightarrow> int) \<Rightarrow> bool \<Rightarrow> usage_price list \<Rightarrow> provisioned list \<Rightarrow> string \<Rightarrow> int \<Rightarrow> int \<Rightarrow> ledger \<Rightarrow> own_costs" where
  "readTenantCosts period by_agent prices prov tenant start end l =
     (let rows = tenant_rows tenant start end l in
      case costsByPeriod period prices rows of (all_costs, ps) \<Rightarrow>
        \<lparr>oc_total = all_costs, oc_periods = ps, oc_agents = agent_costs prices rows,
         oc_days = (if by_agent then Some (agent_days prices (filter (\<lambda>p. pv_tenant p = tenant) prov) rows) else None)\<rparr>)"

text \<open>Every tenant's, with the part its onboarding agents spent; here \<open>hr_agent\<close> says only whether it is that part.\<close>

definition every_row :: "provisioned list \<Rightarrow> int \<Rightarrow> int \<Rightarrow> ledger \<Rightarrow> hourly_row list" where
  "every_row prov start end l =
     order_by hr_tenant (in_order (grouped (map (\<lambda>r. r\<lparr>hr_agent := (if onboarding_row prov r then ''1'' else ''0'')\<rparr>)
       (window_rows (\<lambda>_. True) (Some start) end l))))"

definition readUsageCosts :: "(int \<Rightarrow> int) \<Rightarrow> usage_price list \<Rightarrow> provisioned list \<Rightarrow> int \<Rightarrow> int \<Rightarrow> ledger
    \<Rightarrow> (string \<times> (rat \<times> period_cost list) \<times> (rat \<times> period_cost list) option) list" where
  "readUsageCosts period prices prov start end l =
     (let rows = every_row prov start end l in
      map (\<lambda>t. let mine = filter (\<lambda>r. hr_tenant r = t) rows; onb = filter (\<lambda>r. hr_agent r = ''1'') mine in
          (t, costsByPeriod period prices mine, if onb = [] then None else Some (costsByPeriod period prices onb)))
        (remdups (map hr_tenant rows)))"

section \<open>Keys of the owner\<close>

text \<open>What is paid with the owner's own key costs nothing here, whatever the table of prices says, and a page shows no cost for it.\<close>

lemma own_key_is_free: "starts_with OWN_KEY_PREFIX (hr_key r) \<Longrightarrow> row_price prices r = Some 0"
  by (simp add: row_price_def priceFor_def)

lemma own_row_shows_no_cost: "starts_with OWN_KEY_PREFIX (hr_key r) \<Longrightarrow> rr_cost (read_row_of prices by_what r) = None \<and> rr_own (read_row_of prices by_what r)"
  by (simp add: read_row_of_def)

section \<open>A fold changes no page\<close>

lemma sql_day_le: "0 \<le> h \<Longrightarrow> sql_day h \<le> h"
  by (simp add: sql_day_def sql_div_def DAY_MS_def)

lemma old_days_before:
  assumes "ledger_ok l" and "d \<in> set (old_days c n l)"
  shows "d < c"
proof -
  obtain r where "r \<in> set (lg_hourly l)" "hr_hour r < c" "d = sql_day (hr_hour r)"
    using old_days_left [of c n l] assms(2) by (auto simp: days_left_def)
  then show ?thesis using assms(1) sql_day_le [of "hr_hour r"] by (auto simp: ledger_ok_def intro: le_less_trans)
qed

lemma filter_update_out:
  assumes "\<And>x. q x \<Longrightarrow> \<not> p x" and "\<And>x. q x \<Longrightarrow> q (f x)"
  shows "filter p (update_where q f rows) = filter p rows"
  using assms by (induction rows) (simp_all add: update_where_Cons)

lemma filter_add_row:
  assumes "\<And>x. hourly_id x = hourly_id h \<Longrightarrow> \<not> p x"
  shows "filter p (add_row h rows) = filter p rows"
proof (cases "has_row (\<lambda>x. hourly_id x = hourly_id h) rows")
  case True
  have "filter p (update_where (\<lambda>x. hourly_id x = hourly_id h) (\<lambda>x. x\<lparr>hr_quantity := hr_quantity x + hr_quantity h\<rparr>) rows) = filter p rows"
    by (rule filter_update_out [OF assms]) simp_all
  with True show ?thesis by (simp add: add_row_def upsert_def)
next
  case False
  have "\<not> p h" by (rule assms [OF refl])
  with False show ?thesis by (simp add: add_row_def upsert_def)
qed

lemma filter_add_rows:
  assumes "\<And>h x. h \<in> set hs \<Longrightarrow> hourly_id x = hourly_id h \<Longrightarrow> \<not> p x"
  shows "filter p (fold add_row hs rows) = filter p rows"
  using assms
proof (induction hs arbitrary: rows)
  case (Cons h hs)
  have "filter p (fold add_row hs (add_row h rows)) = filter p (add_row h rows)"
    by (rule Cons.IH) (rule Cons.prems, rule list.set_intros(2))
  also have "\<dots> = filter p rows" by (rule filter_add_row) (rule Cons.prems, rule list.set_intros(1))
  finally show ?case by simp
qed simp

lemma hour_of_id: "hourly_id x = hourly_id h \<Longrightarrow> hr_hour x = hr_hour h"
  by (simp add: hourly_id_def)

lemma add_row_hour: "\<forall>r\<in>set rows. P (hr_hour r) \<Longrightarrow> P (hr_hour h) \<Longrightarrow> \<forall>r\<in>set (add_row h rows). P (hr_hour r)"
  by (auto simp: add_row_def upsert_def update_where_def)

lemma add_rows_hour: "\<forall>r\<in>set rows. P (hr_hour r) \<Longrightarrow> \<forall>h\<in>set hs. P (hr_hour h) \<Longrightarrow> \<forall>r\<in>set (fold add_row hs rows). P (hr_hour r)"
proof (induction hs arbitrary: rows)
  case (Cons h hs)
  have "\<forall>r\<in>set (add_row h rows). P (hr_hour r)" by (rule add_row_hour [OF Cons.prems(1)]) (use Cons.prems(2) in simp)
  from Cons.IH [OF this] Cons.prems(2) show ?case by simp
qed simp

lemma day_sums_hours: "\<forall>h\<in>set (day_sums d rows). hr_hour h = d"
  unfolding day_sums_add by (rule add_rows_hour) simp_all

lemma days_apart:
  assumes "d < c" and "d mod DAY_MS = 0" and "c mod DAY_MS = 0"
  shows "d + DAY_MS \<le> c"
proof -
  obtain a b where ab: "d = DAY_MS * a" "c = DAY_MS * b" using assms(2,3) by (auto simp: mod_eq_0_iff_dvd elim!: dvdE)
  with assms(1) have "a < b" by (simp add: DAY_MS_def)
  then show ?thesis by (simp add: ab DAY_MS_def)
qed

lemma fold_day_window:
  assumes "\<And>x. p x \<Longrightarrow> c \<le> hr_hour x" and "d < c" and "d mod DAY_MS = 0" and "c mod DAY_MS = 0"
  shows "filter p (lg_hourly (fold_day d l)) = filter p (lg_hourly l)" and "filter p (lg_daily (fold_day d l)) = filter p (lg_daily l)"
proof -
  have e: "d + DAY_MS \<le> c" by (rule days_apart [OF assms(2-4)])
  have "\<not> in_day d x" if "p x" for x using assms(1) [OF that] e by (simp add: in_day_def)
  then show "filter p (lg_hourly (fold_day d l)) = filter p (lg_hourly l)"
    by (auto simp: fold_day_def delete_where_def intro!: filter_cong)
  have "\<not> p x" if "h \<in> set (day_sums d (lg_hourly l))" and "hourly_id x = hourly_id h" for h x
  proof -
    have "hr_hour x = d" using day_sums_hours that(1) hour_of_id [OF that(2)] by auto
    with assms(1) [of x] assms(2) show ?thesis by auto
  qed
  from filter_add_rows [OF this] show "filter p (lg_daily (fold_day d l)) = filter p (lg_daily l)" by (simp add: fold_day_def)
qed

lemma fold_each_window:
  assumes "\<And>x. p x \<Longrightarrow> c \<le> hr_hour x" and "c mod DAY_MS = 0" and "\<forall>d\<in>set days. d < c \<and> d mod DAY_MS = 0"
  shows "filter p (lg_hourly (snd (fold_each days l))) = filter p (lg_hourly l) \<and> filter p (lg_daily (snd (fold_each days l))) = filter p (lg_daily l)"
  using assms(3)
proof (induction days arbitrary: l)
  case (Cons d days)
  have d: "d < c" "d mod DAY_MS = 0" using Cons.prems by simp_all
  from Cons.IH [of "fold_day d l"] Cons.prems fold_day_window [OF assms(1) d assms(2), of p l]
  show ?case by (cases "fold_each days (fold_day d l)") simp
qed simp

lemma cutoff_is_day: "fold_cutoff now keep_days mod DAY_MS = 0"
  by (simp add: fold_cutoff_def left_diff_distrib [symmetric])

lemma foldUsage_window:
  assumes "ledger_ok l" and "\<And>x. p x \<Longrightarrow> fold_cutoff now keep_days \<le> hr_hour x" and "foldUsage now keep_days n l = (days, hours, l')"
  shows "filter p (lg_hourly l') = filter p (lg_hourly l)" and "filter p (lg_daily l') = filter p (lg_daily l)"
proof -
  have d: "days = old_days (fold_cutoff now keep_days) n l" and l': "l' = snd (fold_each days l)"
    using assms(3) by (auto simp: foldUsage_def Let_def)
  have "\<forall>d\<in>set days. d < fold_cutoff now keep_days \<and> d mod DAY_MS = 0"
    using old_days_before [OF assms(1)] old_days_are_days [OF assms(1)] by (auto simp: d is_day_def)
  from fold_each_window [OF assms(2) cutoff_is_day this, of p l]
  show "filter p (lg_hourly l') = filter p (lg_hourly l)" "filter p (lg_daily l') = filter p (lg_daily l)" by (simp_all add: l')
qed

text \<open>Every window a page offers begins after the hours that are folded.\<close>

lemma window_after_cutoff:
  assumes "parseUsageQuery q now = Inr u" and "page_from u = Some t" and "now0 \<le> now"
  shows "fold_cutoff now0 KEEP_HOURLY_DAYS \<le> t"
proof -
  obtain ms where ms: "uq_from u = Some (now - ms)" "ms \<le> 30 * DAY_MS" and t: "t = ((now - ms) div bucket_size_of u) * bucket_size_of u"
    using assms(1,2) by (auto simp: parseUsageQuery_def Let_def span_of_def USAGE_WINDOWS_def page_from_def DAY_MS_def split: if_splits option.splits)
  have day: "((now - ms) div DAY_MS) * DAY_MS \<le> t"
  proof (cases "uq_daily u")
    case False
    have "(((now - ms) div DAY_MS) * 24) * 3600000 \<le> now - ms" by (simp add: DAY_MS_def)
    then have "((now - ms) div DAY_MS) * 24 \<le> (now - ms) div 3600000" by linarith
    then show ?thesis using False by (simp add: t bucket_size_of_def DAY_MS_def)
  qed (simp add: t bucket_size_of_def)
  have "(now0 div DAY_MS - 30) * DAY_MS \<le> now - ms"
    using ms(2) assms(3) by (simp add: DAY_MS_def)
  from zdiv_mono1 [OF this, of DAY_MS] have "now0 div DAY_MS - 30 \<le> (now - ms) div DAY_MS" by (simp add: DAY_MS_def)
  then have "(now0 div DAY_MS - 35) * DAY_MS \<le> ((now - ms) div DAY_MS) * DAY_MS" by (simp add: DAY_MS_def)
  with day show ?thesis by (simp add: fold_cutoff_def KEEP_HOURLY_DAYS_def left_diff_distrib)
qed

lemma fold_keeps_page:
  assumes "ledger_ok l" and "parseUsageQuery q now = Inr u" and "now0 \<le> now" and "retainUsage now0 l = (days, hours, l')"
  shows "window_rows p (page_from u) (uq_to u) l' = window_rows p (page_from u) (uq_to u) l"
proof -
  have "fold_cutoff now0 KEEP_HOURLY_DAYS \<le> hr_hour x" if "p x \<and> in_window (page_from u) (uq_to u) x" for x
    using that window_after_cutoff [OF assms(2) _ assms(3)] by (auto simp: in_window_def intro: order_trans split: option.splits)
  from foldUsage_window [OF assms(1) this assms(4) [unfolded retainUsage_def]] show ?thesis by (simp add: window_rows_def)
qed

section \<open>The cached tokens' share\<close>

definition cost_in :: "read_row \<Rightarrow> rat" where
  "cost_in r = (case rr_cost r of Some (Some c) \<Rightarrow> c | _ \<Rightarrow> 0)"

lemma sum_list_set2:
  assumes "i < length xs" and "n < length xs" and "i \<noteq> n" and "f x + f y = f (xs ! i) + (f (xs ! n) :: rat)"
  shows "sum_list (map f (xs[i := x, n := y])) = sum_list (map f xs)"
proof -
  have u: "sum_list (map f (ys[m := z])) = sum_list (map f ys) + f z - f (ys ! m)" if "m < length ys" for ys m z
    using that by (induction ys arbitrary: m) (auto split: nat.split)
  show ?thesis using assms by (simp add: u nth_list_update)
qed

lemma input_of_SomeD:
  assumes "input_of r rows = Some n"
  shows "n < length rows" and "ends_with '':input'' (rr_key (rows ! n))"
proof -
  have "n \<in> set (input_places r rows)" using assms by (auto simp: input_of_def split: if_splits)
  then show "n < length rows" and "ends_with '':input'' (rr_key (rows ! n))" by (simp_all add: input_places_def Let_def)
qed

lemma cache_and_input: "ends_with '':cache_read'' k \<Longrightarrow> \<not> ends_with '':input'' k"
  by (cases "rev k") (auto simp: ends_with_def starts_with_def)

lemma cache_share_sum:
  assumes "i < length rows"
  shows "length (cache_share prices i rows) = length rows \<and> sum_list (map cost_in (cache_share prices i rows)) = sum_list (map cost_in rows)"
proof (cases "cache_share prices i rows = rows")
  case False
  then obtain c n ic rate where key: "ends_with '':cache_read'' (rr_key (rows ! i))" and c: "rr_cost (rows ! i) = Some (Some c)"
      and n: "input_of (rows ! i) rows = Some n" and ic: "rr_cost (rows ! n) = Some (Some ic)"
      and s: "cache_share prices i rows = rows[i := (rows ! i)\<lparr>rr_cost := Some (Some (c + rate * rr_quantity (rows ! i)))\<rparr>,
        n := (rows ! n)\<lparr>rr_cost := Some (Some (ic - rate * rr_quantity (rows ! i)))\<rparr>]"
    by (auto simp: cache_share_def Let_def split: if_splits option.splits)
  have "i \<noteq> n" using input_of_SomeD(2) [OF n] cache_and_input [OF key] by auto
  from sum_list_set2 [OF assms input_of_SomeD(1) [OF n] this, of cost_in] show ?thesis
    unfolding s by (simp add: cost_in_def c ic)
qed simp

lemma cache_shares_sum:
  assumes "\<forall>i\<in>set is. i < length rows"
  shows "sum_list (map cost_in (fold (cache_share prices) is rows)) = sum_list (map cost_in rows)"
  using assms
proof (induction "is" arbitrary: rows)
  case (Cons i js)
  from cache_share_sum [of i rows prices] Cons.prems Cons.IH [of "cache_share prices i rows"] show ?case by simp
qed simp

section \<open>Rounded totals\<close>

text \<open>Half a unit of the tenth decimal.\<close>

definition half_unit :: rat where "half_unit = 1 / 20000000000"

lemma tidy_close: "\<bar>tidy x - x\<bar> \<le> half_unit"
proof -
  let ?y = "x * 10000000000 + 1 / 2"
  have "of_int \<lfloor>?y\<rfloor> \<le> ?y" and "?y < of_int \<lfloor>?y\<rfloor> + 1" by linarith+
  then have "\<bar>of_int \<lfloor>?y\<rfloor> - x * 10000000000\<bar> \<le> 1 / 2" by linarith
  moreover have e: "tidy x - x = (of_int \<lfloor>?y\<rfloor> - x * 10000000000) / 10000000000" by (simp add: tidy_def diff_divide_distrib)
  ultimately show ?thesis unfolding e abs_divide half_unit_def by simp
qed

lemma tidied_sum: "\<bar>sum_list (map (\<lambda>x. tidy (f x)) xs) - sum_list (map f xs)\<bar> \<le> of_nat (length xs) * half_unit"
proof (induction xs)
  case (Cons x xs)
  have "of_nat (length (x # xs)) * half_unit = half_unit + of_nat (length xs) * half_unit" by (simp add: distrib_right)
  with tidy_close [of "f x"] Cons.IH show ?case by (simp only: list.map sum_list.Cons)
qed simp

lemma distinct_order_by: "distinct (order_by k xs) = distinct xs"
  by (simp add: order_by_def)

lemma sum_groups:
  fixes f :: "'a \<Rightarrow> rat" and g :: "'a \<Rightarrow> 'k::linorder"
  shows "sum_list (map (\<lambda>s. sum_list (map f (filter (\<lambda>x. g x = s) xs))) (order_by id (remdups (map g xs)))) = sum_list (map f xs)"
proof -
  have s: "(\<Sum>s\<in>A. sum_list (map f (filter (\<lambda>x. g x = s) ys))) = sum_list (map f ys)" if "finite A" and "g ` set ys \<subseteq> A" for A ys
    using that(2)
  proof (induction ys)
    case (Cons y ys)
    have "(\<Sum>s\<in>A. sum_list (map f (filter (\<lambda>x. g x = s) (y # ys))))
      = (\<Sum>s\<in>A. (if s = g y then f y else 0) + sum_list (map f (filter (\<lambda>x. g x = s) ys)))" by (rule sum.cong) auto
    also have "\<dots> = f y + sum_list (map f ys)" using Cons that(1) by (simp add: sum.distrib)
    finally show ?case by simp
  qed simp
  have "sum_list (map (\<lambda>s. sum_list (map f (filter (\<lambda>x. g x = s) xs))) (order_by id (remdups (map g xs))))
    = (\<Sum>s\<in>g ` set xs. sum_list (map f (filter (\<lambda>x. g x = s) xs)))"
    by (simp add: sum_list_distinct_conv_sum_set distinct_order_by)
  then show ?thesis using s [of "g ` set xs" xs] by simp
qed

lemma close_sums:
  assumes "\<And>x. x \<in> set xs \<Longrightarrow> \<bar>f x - g x\<bar> \<le> of_nat (n x) * e"
  shows "\<bar>sum_list (map f xs) - sum_list (map g xs)\<bar> \<le> of_nat (sum_list (map n xs)) * (e :: rat)"
  using assms
proof (induction xs)
  case (Cons x xs)
  have "\<bar>f x - g x\<bar> \<le> of_nat (n x) * e" and "\<bar>sum_list (map f xs) - sum_list (map g xs)\<bar> \<le> of_nat (sum_list (map n xs)) * e"
    using Cons by simp_all
  moreover have "of_nat (sum_list (map n (x # xs))) * e = of_nat (n x) * e + of_nat (sum_list (map n xs)) * e" by (simp add: distrib_right)
  ultimately show ?case by (simp only: list.map sum_list.Cons)
qed simp

lemma tidy_from: "\<bar>x - y\<bar> \<le> of_nat n * half_unit \<Longrightarrow> \<bar>tidy x - y\<bar> \<le> of_nat (Suc n) * half_unit"
proof -
  assume "\<bar>x - y\<bar> \<le> of_nat n * half_unit"
  moreover have "of_nat (Suc n) * half_unit = half_unit + of_nat n * half_unit" by (simp add: distrib_right)
  ultimately show ?thesis using tidy_close [of x] by linarith
qed

definition figures_of :: "period_cost \<Rightarrow> nat" where
  "figures_of p = Suc (length (pc_resources p))"

lemma cost_of_alt: "(\<lambda>r. or_else (row_price prices r) 0 * hr_quantity r) = cost_of prices"
  by (simp add: fun_eq_iff cost_of_def)

lemma period_close: "\<bar>pc_total (period_of prices rows s) - sum_list (map (cost_of prices) rows)\<bar> \<le> of_nat (figures_of (period_of prices rows s)) * half_unit"
proof -
  let ?names = "order_by id (remdups (map hr_resource rows))"
  have "\<bar>sum_list (map (\<lambda>res. rc_cost (resource_of prices rows res)) ?names) - sum_list (map (\<lambda>res. sum_list (map (cost_of prices) (filter (\<lambda>r. hr_resource r = res) rows))) ?names)\<bar>
    \<le> of_nat (sum_list (map (\<lambda>_. 1) ?names)) * half_unit"
    by (rule close_sums) (simp add: resource_of_def Let_def cost_of_alt tidy_close)
  then have "\<bar>sum_list (map (\<lambda>res. rc_cost (resource_of prices rows res)) ?names) - sum_list (map (cost_of prices) rows)\<bar> \<le> of_nat (length ?names) * half_unit"
    unfolding sum_groups by (simp add: sum_list_triv)
  from tidy_from [OF this] show ?thesis by (simp add: period_of_def Let_def figures_of_def comp_def)
qed

text \<open>The total shown is what the rows cost, but for half a unit of the tenth decimal for each figure it is added from.\<close>

lemma costs_close:
  assumes "costsByPeriod start prices rows = (shown_total, ps)"
  shows "\<bar>shown_total - sum_list (map (cost_of prices) rows)\<bar> \<le> of_nat (Suc (sum_list (map figures_of ps))) * half_unit"
proof -
  let ?starts = "order_by id (remdups (map (\<lambda>r. start (hr_hour r)) rows))"
  let ?p = "\<lambda>s. period_of prices (filter (\<lambda>r. start (hr_hour r) = s) rows) s"
  have ps: "ps = map ?p ?starts" and t: "shown_total = tidy (sum_list (map pc_total ps))"
    using assms by (auto simp: costsByPeriod_def Let_def)
  have "\<bar>sum_list (map (\<lambda>s. pc_total (?p s)) ?starts) - sum_list (map (\<lambda>s. sum_list (map (cost_of prices) (filter (\<lambda>r. start (hr_hour r) = s) rows))) ?starts)\<bar>
    \<le> of_nat (sum_list (map (\<lambda>s. figures_of (?p s)) ?starts)) * half_unit"
    by (rule close_sums) (rule period_close)
  then have "\<bar>sum_list (map pc_total ps) - sum_list (map (cost_of prices) rows)\<bar> \<le> of_nat (sum_list (map figures_of ps)) * half_unit"
    unfolding sum_groups [where g = "\<lambda>r. start (hr_hour r)"] by (simp add: ps comp_def)
  from tidy_from [OF this] show ?thesis by (simp add: t)
qed

text \<open>Grouping rows before they are priced changes no cost: what a row costs depends on what it is grouped by.\<close>

lemma price_of_id: "hourly_id x = hourly_id y \<Longrightarrow> row_price prices x = row_price prices y"
  by (simp add: hourly_id_def row_price_def)

text \<open>A weight that depends on a row's key and is linear in its quantity is the same summed before or after rows are grouped.\<close>

definition linear_weight :: "(hourly_row \<Rightarrow> rat) \<Rightarrow> bool" where
  "linear_weight w \<longleftrightarrow> (\<forall>x h. hourly_id x = hourly_id h \<longrightarrow> w (x\<lparr>hr_quantity := hr_quantity x + hr_quantity h\<rparr>) = w x + w h)"

lemma weight_add_row:
  assumes w: "linear_weight w" and "distinct (map hourly_id rows)"
  shows "sum_list (map w (add_row h rows)) = sum_list (map w rows) + w h"
proof (cases "has_row (\<lambda>x. hourly_id x = hourly_id h) rows")
  case False
  then show ?thesis by (simp add: add_row_def upsert_def)
next
  case True
  let ?f = "\<lambda>x. x\<lparr>hr_quantity := hr_quantity x + hr_quantity h\<rparr>"
  have "sum_list (map w (update_where (\<lambda>x. hourly_id x = hourly_id h) ?f rows)) = sum_list (map w rows) + w h"
    using True assms(2)
  proof (induction rows)
    case (Cons r rows)
    show ?case
    proof (cases "hourly_id r = hourly_id h")
      case True
      with Cons.prems(2) have "hourly_id h \<notin> hourly_id ` set rows" by auto
      then have "\<forall>x\<in>set rows. hourly_id x \<noteq> hourly_id h" by (metis imageI)
      then have "update_where (\<lambda>x. hourly_id x = hourly_id h) ?f rows = rows" by (simp add: update_where_def map_idI)
      moreover have "w (?f r) = w r + w h" using w True by (simp only: linear_weight_def)
      ultimately show ?thesis using True by (simp add: update_where_Cons)
    next
      case False
      with Cons show ?thesis by (simp add: update_where_Cons has_row_iff)
    qed
  qed (simp add: has_row_iff)
  with True show ?thesis by (simp add: add_row_def upsert_def)
qed

lemma weight_grouped:
  assumes "linear_weight w"
  shows "sum_list (map w (grouped rows)) = sum_list (map w rows)"
proof -
  have "distinct (map hourly_id out) \<Longrightarrow> sum_list (map w (fold add_row rows out)) = sum_list (map w out) + sum_list (map w rows)" for out
    by (induction rows arbitrary: out) (simp_all add: weight_add_row [OF assms] add_row_distinct)
  from this [of "[]"] show ?thesis by (simp add: grouped_def)
qed

lemma cost_linear: "linear_weight (\<lambda>r. if p (hourly_id r) then cost_of prices r else 0)"
proof -
  have c: "cost_of prices (x\<lparr>hr_quantity := hr_quantity x + hr_quantity h\<rparr>) = cost_of prices x + cost_of prices h" if "hourly_id x = hourly_id h" for x h
  proof -
    have "row_price prices (x\<lparr>hr_quantity := hr_quantity x + hr_quantity h\<rparr>) = row_price prices h" and "row_price prices x = row_price prices h"
      using price_of_id [of "x\<lparr>hr_quantity := hr_quantity x + hr_quantity h\<rparr>" h] price_of_id [OF that] that by simp_all
    then show ?thesis by (simp add: cost_of_def distrib_left)
  qed
  show ?thesis unfolding linear_weight_def
  proof (intro allI impI)
    fix x h :: hourly_row
    assume e: "hourly_id x = hourly_id h"
    show "(if p (hourly_id (x\<lparr>hr_quantity := hr_quantity x + hr_quantity h\<rparr>)) then cost_of prices (x\<lparr>hr_quantity := hr_quantity x + hr_quantity h\<rparr>) else 0)
      = (if p (hourly_id x) then cost_of prices x else 0) + (if p (hourly_id h) then cost_of prices h else 0)"
      using c [OF e] by (simp add: e)
  qed
qed

lemma cost_grouped: "sum_list (map (cost_of prices) (grouped rows)) = sum_list (map (cost_of prices) rows)"
  using weight_grouped [OF cost_linear [of "\<lambda>_. True"]] by simp

end
