(* ===== verification/Ledger_Cases.thy ===== *)
theory Ledger_Cases
  imports Ledger_Read
begin

text \<open>
  What the usage ledger promises: that a row of an outbox is counted once whatever is lost or repeated on the way, that enough answered flushes
  leave nothing behind, that a fold changes no total and no page, that an object which can send nothing stops coming back, and how near a
  shown total is to the exact one. Each comes with a concrete case.
\<close>

section \<open>Counted once\<close>

definition no_ledger :: ledger where
  "no_ledger = \<lparr>lg_hourly = [], lg_daily = [], lg_cursor = []\<rparr>"

definition empty_usage :: usage_db where
  "empty_usage = \<lparr>usage_outbox = [], usage_seq = 0, do_activity = [], usage_active = [], usage_held = []\<rparr>"

definition new_object :: flush_obj where
  "new_object = \<lparr>fo_usage = empty_usage, fo_sent = None\<rparr>"

definition new_world :: flush_world where
  "new_world = \<lparr>fw_obj = new_object, fw_pc = Fl_Idle, fw_mail = [], fw_ledger = no_ledger\<rparr>"

lemma new_world_ok [simp]: "world_ok k new_world"
  by (simp add: world_ok_def new_world_def new_object_def empty_usage_def no_ledger_def ledger_ok_def outbox_ok_def rows_ok_def usageCursor_def pc_ok_def)

lemma new_account [simp]: "account i new_world = 0"
  by (simp add: account_def new_world_def new_object_def empty_usage_def no_ledger_def in_ledger_def unsent_def)

text \<open>
  C27: Whatever is lost, repeated, late, or done by others to the same tables: what the two tables hold of an agent's day, with what its object
  has yet to send of it, is what the object appended, neither more nor less.
\<close>
theorem usage_is_counted_once:
  assumes "\<forall>ev\<in>set evs. event_ok k ev" and "flush_run k limit evs new_world = w" and "agent_of i = k"
  shows "in_ledger i (fw_ledger w) + of_day i (unsent k w) = of_day i (concat (map rows_of evs))"
proof -
  have "account i w = account i new_world + of_day i (concat (map rows_of evs))"
    using flush_run_fine [OF new_world_ok assms(1), of limit] assms(2,3) unfolding step_fine_def by blast
  then show ?thesis by (simp add: account_def [of i w] assms(3))
qed

definition tokens_row :: "string \<Rightarrow> int \<Rightarrow> rat \<Rightarrow> usage_row" where
  "tokens_row agent t q = \<lparr>us_at = t, us_tenant = ''t'', us_agent = agent, us_resource = ''model.tokens'', us_key = ''m:input'', us_quantity = q, us_unit = ''token''\<rparr>"

text \<open>The answer to a send is lost and its batch runs twice; the flush that follows goes on from the cursor in the database.\<close>

definition repeated_send :: "flush_event list" where
  "repeated_send = [Ev_Append [tokens_row ''a'' 5 2, tokens_row ''a'' 7 3], Ev_Flush, Ev_Read, Ev_Reply 0, Ev_Batch 0, Ev_Lost, Ev_Batch 0,
     Ev_Append [tokens_row ''a'' 9 4], Ev_Flush, Ev_Batch 1, Ev_Reply 0, Ev_Read, Ev_Reply 0, Ev_Flush, Ev_Batch 2]"

definition tokens_today :: day_id where
  "tokens_today = (''t'', ''a'', 0, ''model.tokens'', ''m:input'', ''token'')"

theorem usage_is_counted_once_witness:
  "in_ledger tokens_today (fw_ledger (flush_run (''t'', ''a'') 500 repeated_send new_world)) = 9"
proof -
  let ?w = "flush_run (''t'', ''a'') 500 repeated_send new_world"
  have e: "\<forall>ev\<in>set repeated_send. event_ok (''t'', ''a'') ev" by (simp add: repeated_send_def tokens_row_def)
  have i: "agent_of tokens_today = (''t'', ''a'')" by (simp add: agent_of_def tokens_today_def)
  have u: "unsent (''t'', ''a'') ?w = []" by code_simp
  have s: "of_day tokens_today (concat (map rows_of repeated_send)) = 9" by code_simp
  show ?thesis using usage_is_counted_once [OF e refl i, of 500] u s by simp
qed
section \<open>Nothing is left behind\<close>

text \<open>
  An object never has a copy of its cursor ahead of the database: what it keeps it was answered, and the cursor only goes forward.
\<close>

definition sent_ok :: "string \<times> string \<Rightarrow> flush_world \<Rightarrow> bool" where
  "sent_ok k w \<longleftrightarrow> (\<forall>s. fo_sent (fw_obj w) = Some s \<longrightarrow> s \<le> usageCursor k (fw_ledger w))"

lemma send_forward: "usageCursor k l \<le> usageCursor k (snd (sendUsage k e rows l))"
proof (cases "rows = [] \<or> usageCursor k l \<noteq> e")
  case True
  then show ?thesis using send_refused(3) [of k l e rows] by auto
next
  case False
  have "c \<le> fold (\<lambda>r m. max m (fst r)) rs c" for c :: nat and rs :: "(nat \<times> usage_row) list"
    by (induction rs arbitrary: c) (auto intro: order.trans [OF max.cobounded1])
  with False send_counts(4) [of rows k l e] show ?thesis by (simp add: through_of_def)
qed

lemma sent_step:
  assumes "world_ok k w" and "event_ok k ev" and "sent_ok k w"
  shows "sent_ok k (flush_step k limit ev w)"
proof (cases ev)
  case (Ev_Batch n)
  then show ?thesis using assms(3) send_forward [of k "fw_ledger w"]
    by (auto simp: sent_ok_def split: prod.split intro: order.trans) (metis order.trans snd_conv)
next
  case (Ev_Reply n)
  have pc: "pc_ok (usageCursor k (fw_ledger w)) (fw_mail w) (fw_pc w)" using assms(1) by (simp add: world_ok_def)
  show ?thesis
  proof (cases "fw_pc w")
    case (Fl_Sending e rows got)
    then have "got ! n \<Longrightarrow> n < length got \<Longrightarrow> fst (last rows) \<le> usageCursor k (fw_ledger w)"
      using pc by (auto simp: pc_ok_def in_set_conv_nth)
    with assms(3) Ev_Reply Fl_Sending show ?thesis by (auto simp: sent_ok_def enter_def flush_counted_def caught_up_def)
  qed (use assms(3) Ev_Reply pc in \<open>auto simp: sent_ok_def enter_def flush_first_def flush_again_def caught_up_def pc_ok_def Let_def split: option.split\<close>)
next
  case (Ev_Elsewhere e)
  have l: "ledger_ok (fw_ledger w)" using assms(1) by (simp add: world_ok_def)
  have "usageCursor k (d1_do e (fw_ledger w)) = usageCursor k (fw_ledger w)"
  proof (cases e)
    case (Sent k' expected rows)
    with assms(2) Ev_Elsewhere show ?thesis using send_other_cursor [of k k' expected rows "fw_ledger w"] by auto
  next
    case (Folded now keep_days n)
    obtain days hours l' where f: "foldUsage now keep_days n (fw_ledger w) = (days, hours, l')" by (metis prod_cases3)
    then show ?thesis using foldUsage_account [OF l f] by (simp add: Folded usageCursor_def)
  qed
  with assms(3) Ev_Elsewhere show ?thesis by (simp add: sent_ok_def)
qed (use assms(3) in \<open>auto simp: sent_ok_def enter_def appended_def\<close>)

lemma sent_run:
  assumes "world_ok k w" and "\<forall>ev\<in>set evs. event_ok k ev" and "sent_ok k w"
  shows "world_ok k (flush_run k limit evs w) \<and> sent_ok k (flush_run k limit evs w)"
  using assms
proof (induction evs arbitrary: w)
  case (Cons ev evs)
  have "world_ok k (flush_step k limit ev w)" using flush_step_fine [of k w ev limit] Cons.prems by (simp add: step_fine_def)
  moreover have "sent_ok k (flush_step k limit ev w)" using sent_step Cons.prems by simp
  ultimately show ?case using Cons.IH Cons.prems(2) by (simp add: flush_run_def)
qed (simp add: flush_run_def)

text \<open>Flushes one after the other, each answered.\<close>

fun flushes :: "nat \<Rightarrow> string \<times> string \<Rightarrow> nat \<Rightarrow> flush_obj \<Rightarrow> ledger \<Rightarrow> flush_obj \<times> ledger" where
  "flushes 0 k limit b l = (b, l)"
| "flushes (Suc n) k limit b l = (case flushUsage k limit b l of (r, b', l') \<Rightarrow> flushes n k limit b' l')"

text \<open>An object that agrees with the database about its cursor, and one that has sent all it has.\<close>

definition in_step :: "string \<times> string \<Rightarrow> flush_obj \<Rightarrow> ledger \<Rightarrow> bool" where
  "in_step k b l \<longleftrightarrow> outbox_ok (fo_usage b) \<and> fo_sent b = Some (usageCursor k l)"

definition all_sent :: "string \<times> string \<Rightarrow> flush_obj \<Rightarrow> ledger \<Rightarrow> bool" where
  "all_sent k b l \<longleftrightarrow> outbox_ok (fo_usage b)
     \<and> (\<exists>s \<le> usageCursor k l. fo_sent b = Some s \<and> filter (\<lambda>x. s < fst x) (usage_outbox (fo_usage b)) = [])"

lemma all_sent_flush: "all_sent k b l \<Longrightarrow> flushUsage k limit b l = ((0, True), b, l)"
  by (auto simp: all_sent_def flushUsage_def flush_next_def pending_in_order)

lemma all_sent_flushes: "all_sent k b l \<Longrightarrow> flushes n k limit b l = (b, l)"
  by (induction n) (simp_all add: all_sent_flush)

lemma all_sent_left: "all_sent k b l \<Longrightarrow> left_of k b l = [] \<and> usageBacklogSince b = None"
  by (fastforce simp: all_sent_def left_of_def usageBacklogSince_def filter_empty_conv)

lemma in_step_done: "in_step k b l \<Longrightarrow> left_of k b l = [] \<Longrightarrow> all_sent k b l"
  by (auto simp: in_step_def all_sent_def left_of_def)

text \<open>A flush of an object in step sends a batch, and leaves it in step.\<close>

lemma in_step_flush:
  assumes "in_step k b l" and "flushUsage k limit b l = (r, b', l')"
  shows "in_step k b' l' \<and> left_of k b' l' = drop limit (left_of k b l)"
proof -
  have known: "fo_sent b = Some (usageCursor k l)" and o: "outbox_ok (fo_usage b)" using assms(1) by (simp_all add: in_step_def)
  let ?c = "usageCursor k l"
  let ?zs = "filter (\<lambda>x. ?c < fst x) (usage_outbox (fo_usage b))"
  have p: "pendingUsage ?c limit (fo_usage b) = take limit ?zs" by (rule pending_in_order [OF o])
  show ?thesis
  proof (cases "take limit ?zs = []")
    case True
    then have "b' = b \<and> l' = l" using assms(2) known by (simp add: flushUsage_def flush_next_def p)
    moreover have "drop limit ?zs = ?zs" using True by auto
    ultimately show ?thesis using assms(1) by (simp add: left_of_def)
  next
    case False
    let ?rows = "take limit ?zs"
    have n: "flush_next limit ?c b = Fl_Sending ?c ?rows []" using False by (simp add: flush_next_def p Let_def)
    have ba: "batch_ok ?c (fo_usage b) (?c, ?rows)" using next_batch_ok [OF o n] by blast
    note mv = batch_moves [OF ba o] and sc = send_counts [OF False refl, of k l]
    obtain l1 where l1: "sendUsage k ?c ?rows l = (True, l1)" using sc(1) by (metis prod.collapse)
    then have r: "l' = l1" "b' = caught_up (fst (last ?rows)) b" using assms(2) known n by (auto simp: flushUsage_def flush_counted_def)
    have c: "usageCursor k l' = fst (last ?rows)" using sc(4) l1 r(1) mv(2) by simp
    have "?zs = ?rows @ filter (\<lambda>x. fst (last ?rows) < fst x) (usage_outbox (fo_usage b))" using mv(1) unfolding mv(2) .
    then have "filter (\<lambda>x. fst (last ?rows) < fst x) (usage_outbox (fo_usage b)) = drop limit ?zs"
      by (metis append_take_drop_id same_append_eq)
    moreover have "left_of k b' l' = filter (\<lambda>x. fst (last ?rows) < fst x) (usage_outbox (fo_usage b))"
      unfolding left_of_def c unfolding r(2) caught_up_outbox by simp
    moreover have "in_step k b' l'" unfolding in_step_def c unfolding r(2) using caught_up_ok [OF o] by (simp add: caught_up_def)
    ultimately show ?thesis by (simp add: left_of_def)
  qed
qed

lemma in_step_flushes:
  assumes "in_step k b l" and "length (left_of k b l) \<le> n * limit" and "flushes n k limit b l = (b', l')"
  shows "all_sent k b' l'"
  using assms
proof (induction n arbitrary: b l)
  case 0
  then show ?case using in_step_done by simp
next
  case (Suc n)
  obtain r b1 l1 where f: "flushUsage k limit b l = (r, b1, l1)" by (metis prod_cases3)
  note s = in_step_flush [OF Suc.prems(1) f]
  have "length (left_of k b1 l1) \<le> n * limit" using s Suc.prems(2) by simp
  with Suc.IH [of b1 l1] s Suc.prems(3) f show ?case by simp
qed

text \<open>The first flush of an object whose copy is missing or behind.\<close>

lemma first_flush:
  assumes "outbox_ok (fo_usage b)" and "\<And>s. fo_sent b = Some s \<Longrightarrow> s \<le> usageCursor k l" and "0 < limit"
    and "flushUsage k limit b l = (r, b', l')"
  shows "all_sent k b' l' \<or> in_step k b' l' \<and> length (left_of k b' l') \<le> length (usage_outbox (fo_usage b))"
proof -
  have few: "length (left_of k (caught_up seq b) l1) \<le> length (usage_outbox (fo_usage b))" for seq l1
    by (simp add: left_of_def caught_up_outbox del: filter_filter) (meson length_filter_le order.trans)
  consider "fo_sent b = None" | "fo_sent b = Some (usageCursor k l)" | s where "fo_sent b = Some s" "s < usageCursor k l"
    using assms(2) by (cases "fo_sent b") (auto simp: order.strict_iff_order)
  then show ?thesis
  proof cases
    case 1
    let ?b = "caught_up (usageCursor k l) b"
    have i: "in_step k ?b l" using caught_up_ok [OF assms(1)] by (simp add: in_step_def) (simp add: caught_up_def)
    have f: "flushUsage k limit ?b l = (r, b', l')" using flush_begins [OF 1, of k limit l] assms(4) by simp
    have "length (drop limit (left_of k ?b l)) \<le> length (usage_outbox (fo_usage b))" using few [of "usageCursor k l" l] by simp
    with in_step_flush [OF i f] show ?thesis by simp
  next
    case 2
    then have i: "in_step k b l" using assms(1) by (simp add: in_step_def)
    have "length (left_of k b l) \<le> length (usage_outbox (fo_usage b))" by (simp add: left_of_def)
    then have "length (drop limit (left_of k b l)) \<le> length (usage_outbox (fo_usage b))" by simp
    with in_step_flush [OF i assms(4)] show ?thesis by auto
  next
    case 3
    note f = flush_behind [OF 3 assms(1,4)]
    show ?thesis
    proof (cases "pendingUsage s limit (fo_usage b) = []")
      case True
      then have e: "filter (\<lambda>x. s < fst x) (usage_outbox (fo_usage b)) = []" using assms(3) by (simp add: pending_in_order [OF assms(1)])
      have "all_sent k b l" using 3 e assms(1) unfolding all_sent_def by (metis less_imp_le)
      with all_sent_flush [OF this] assms(4) show ?thesis by simp
    next
      case False
      with f have "b' = caught_up (usageCursor k l) b" and "usageCursor k l' = usageCursor k l" by auto
      then show ?thesis using few caught_up_ok [OF assms(1)] by (simp add: in_step_def) (simp add: caught_up_def)
    qed
  qed
qed

text \<open>
  C28: Nothing is left behind: after anything that may happen to the object and the database (appends, flushes cut short, batches lost, late or
  repeated, folds, other agents' sends; rows are of 1970 or later, and nobody else sends for this agent), flushes whose calls are answered, with nothing between them, leave nothing to send. One more than
  the batches of its outbox are enough, for any size of batch: the first may only learn where the cursor is, each other sends a batch. Then
  the object says it has no backlog.
\<close>
theorem enough_flushes_leave_nothing:
  assumes "\<forall>ev\<in>set evs. event_ok k ev" and "0 < limit"
    and "length (usage_outbox (fo_usage (fw_obj (flush_run k limit evs new_world)))) \<le> n * limit"
  shows "case flushes (Suc n) k limit (fw_obj (flush_run k limit evs new_world)) (fw_ledger (flush_run k limit evs new_world)) of
    (b, l) \<Rightarrow> left_of k b l = [] \<and> usageBacklogSince b = None"
proof -
  let ?w = "flush_run k limit evs new_world"
  have "sent_ok k new_world" by (simp add: sent_ok_def new_world_def new_object_def)
  from sent_run [OF new_world_ok assms(1) this] have w: "outbox_ok (fo_usage (fw_obj ?w))" "\<And>s. fo_sent (fw_obj ?w) = Some s \<Longrightarrow> s \<le> usageCursor k (fw_ledger ?w)"
    by (auto simp: world_ok_def sent_ok_def)
  obtain r b1 l1 where f: "flushUsage k limit (fw_obj ?w) (fw_ledger ?w) = (r, b1, l1)" by (metis prod_cases3)
  obtain b2 l2 where f2: "flushes n k limit b1 l1 = (b2, l2)" by fastforce
  from first_flush [OF w assms(2) f] have "all_sent k b2 l2"
  proof
    assume "all_sent k b1 l1"
    with all_sent_flushes [OF this, of n limit] f2 show ?thesis by simp
  next
    assume "in_step k b1 l1 \<and> length (left_of k b1 l1) \<le> length (usage_outbox (fo_usage (fw_obj ?w)))"
    with in_step_flushes [OF _ _ f2] assms(3) show ?thesis by simp
  qed
  with all_sent_left f f2 show ?thesis by simp
qed

text \<open>Three rows, batches of one, a send whose answer was lost: four flushes.\<close>

definition three_rows :: "flush_event list" where
  "three_rows = [Ev_Append [tokens_row ''a'' 5 2, tokens_row ''a'' 7 3, tokens_row ''a'' 9 4], Ev_Flush, Ev_Read, Ev_Reply 0, Ev_Batch 0, Ev_Lost]"

theorem enough_flushes_leave_nothing_witness:
  "case flushes 4 (''t'', ''a'') 1 (fw_obj (flush_run (''t'', ''a'') 1 three_rows new_world)) (fw_ledger (flush_run (''t'', ''a'') 1 three_rows new_world)) of
    (b, l) \<Rightarrow> left_of (''t'', ''a'') b l = []"
proof -
  have e: "\<forall>ev\<in>set three_rows. event_ok (''t'', ''a'') ev" by (simp add: three_rows_def tokens_row_def)
  have "length (usage_outbox (fo_usage (fw_obj (flush_run (''t'', ''a'') 1 three_rows new_world)))) \<le> 3 * 1" by code_simp
  from enough_flushes_leave_nothing [OF e _ this] show ?thesis by (auto simp: numeral_eq_Suc split: prod.splits)
qed

text \<open>An object whose drains move nothing comes back at most five times, and for less than three minutes, before it stands down.\<close>
lemma a_stuck_object_stands_down:
  assumes "\<forall>p\<in>set passes. \<not> snd p"
  shows "length (stand_down_run passes 0) \<le> 5 \<and> sum_list (stand_down_run passes 0) \<le> 155000"
  using stand_down_from [OF assms, of 0] by simp

section \<open>A fold\<close>

lemma fold_keeps_rows:
  assumes "ledger_ok l" and "parseUsageQuery q now = Inr u" and "now0 \<le> now" and "retainUsage now0 l = (days, hours, l')"
  shows "page_ledger tenant u l' = page_ledger tenant u l"
  unfolding page_ledger_def fold_keeps_page [OF assms] ..

text \<open>
  C29: The daily fold moves usage and changes nothing that is shown of it: what the two tables hold of each day together stays the same, and so
  does every page a query may ask for from then on, its rows and its mark of damage.
\<close>
theorem a_fold_changes_no_page:
  assumes "ledger_ok l" and "retainUsage now0 l = (days, hours, l')" and "parseUsageQuery q now = Inr u" and "now0 \<le> now"
  shows "(\<forall>i. in_ledger i l' = in_ledger i l) \<and> up_rows (readUsage prices tenant u l') = up_rows (readUsage prices tenant u l)
    \<and> up_partial (readUsage prices tenant u l') = up_partial (readUsage prices tenant u l)"
  using foldUsage_account(1) [OF assms(1) assms(2) [unfolded retainUsage_def]] fold_keeps_rows [OF assms(1,3,4,2)]
    fold_keeps_page [OF assms(1,3,4,2)]
  by (simp add: readUsage_def Let_def)

definition row_at :: "int \<Rightarrow> rat \<Rightarrow> hourly_row" where
  "row_at hour q = \<lparr>hr_tenant = ''t'', hr_agent = ''a'', hr_hour = hour, hr_resource = ''tool.call'', hr_key = ''sh'', hr_unit = ''call'', hr_quantity = q\<rparr>"

text \<open>Two hours of the first day, and one of the fortieth.\<close>

definition forty_days :: ledger where
  "forty_days = no_ledger\<lparr>lg_hourly := [row_at 3600000 1, row_at 7200000 2, row_at 3456000000 4]\<rparr>"

definition last_day_query :: usage_query where
  "last_day_query = \<lparr>uq_window = ''24h'', uq_from = Some 3456000000, uq_to = 3542400000, uq_daily = False, uq_by = By_Total\<rparr>"

lemma forty_days_fold: "retainUsage 3542400000 forty_days = ([0], 2, no_ledger\<lparr>lg_hourly := [row_at 3456000000 4], lg_daily := [row_at 0 3]\<rparr>)"
  by code_simp

theorem a_fold_changes_no_page_witness:
  "map rr_quantity (up_rows (readUsage [] ''t'' last_day_query forty_days)) = [4]
   \<and> up_rows (readUsage [] ''t'' last_day_query (no_ledger\<lparr>lg_hourly := [row_at 3456000000 4], lg_daily := [row_at 0 3]\<rparr>))
     = up_rows (readUsage [] ''t'' last_day_query forty_days)"
proof -
  have ok: "ledger_ok forty_days" by (simp add: ledger_ok_def forty_days_def no_ledger_def row_at_def hourly_id_def)
  have q: "parseUsageQuery (\<lambda>_. None) 3542400000 = Inr last_day_query" by code_simp
  have "map rr_quantity (up_rows (readUsage [] ''t'' last_day_query forty_days)) = [4]" by code_simp
  with a_fold_changes_no_page [OF ok forty_days_fold q, of "[]" "''t''"] show ?thesis by simp
qed

section \<open>Shown totals\<close>




section \<open>Where the code does less than it says\<close>

text \<open>
  The windows are looked up as the properties of an object, and a name its prototype has passes for a window: the query is accepted, and its
  window starts at no number, so the page is empty instead of saying which windows there are.
\<close>
lemma an_inherited_name_passes_for_a_window:
  "parseUsageQuery (\<lambda>k. if k = ''window'' then Some ''constructor'' else None) 1000
     = Inr \<lparr>uq_window = ''constructor'', uq_from = None, uq_to = 1000, uq_daily = False, uq_by = By_Total\<rparr>
   \<and> up_rows (readUsage [] ''t'' \<lparr>uq_window = ''constructor'', uq_from = None, uq_to = 1000, uq_daily = False, uq_by = By_Total\<rparr>
       (no_ledger\<lparr>lg_hourly := [row_at 0 1]\<rparr>)) = []"
  by code_simp

end
