(* ===== verification/Spend_Limit.thy ===== *)
theory Spend_Limit
  imports Ledger_Read Tool_Policy
begin

text \<open>
  Daily spend limits (\<open>cf/src/spend-limit.ts\<close>): the figures an operator sets, the day's spend as one reading of the ledger, where a limit
  comes from, the verdict on a model call, the gate that keeps its readings, and the tables of overrides and plans with their audit rows.
  Amounts are rationals. \<open>num\<close> reads a text as a finite number and \<open>fixed\<close> prints an amount with two decimals.
\<close>

section \<open>Figures\<close>

definition DEFAULT_DAILY_LIMIT_USD :: rat where "DEFAULT_DAILY_LIMIT_USD = 5"
definition DEFAULT_FREE_DAILY_LIMIT_USD :: rat where "DEFAULT_FREE_DAILY_LIMIT_USD = 3"
definition DEFAULT_PRO_DAILY_LIMIT_USD :: rat where "DEFAULT_PRO_DAILY_LIMIT_USD = 10"
definition DEFAULT_PLATFORM_DAILY_LIMIT_USD :: rat where "DEFAULT_PLATFORM_DAILY_LIMIT_USD = 2000"
definition DEFAULT_ONBOARDING_DAILY_LIMIT_USD :: rat where "DEFAULT_ONBOARDING_DAILY_LIMIT_USD = 30"
definition DEFAULT_ONBOARDING_TENANT_DAILY_LIMIT_USD :: rat where "DEFAULT_ONBOARDING_TENANT_DAILY_LIMIT_USD = 1"
definition DEFAULT_EXEMPT_TENANTS :: "string list" where "DEFAULT_EXEMPT_TENANTS = [''bench'']"
definition SPEND_CACHE_MS :: int where "SPEND_CACHE_MS = 30000"
definition SPEND_CACHE_NEAR_MS :: int where "SPEND_CACHE_NEAR_MS = 5000"
definition NEAR_FRACTION :: rat where "NEAR_FRACTION = 4 / 5"
definition MAX_BUDGET_CENTS :: int where "MAX_BUDGET_CENTS = 1000000"

definition PLATFORM_LIMIT_TEXT :: string where "PLATFORM_LIMIT_TEXT = ''Platform daily usage limit reached; resets at 00:00 UTC.''"
definition ONBOARDING_LIMIT_TEXT :: string where "ONBOARDING_LIMIT_TEXT = ''Onboarding daily usage limit reached; resets at 00:00 UTC.''"

definition onboardingTenantLimitText :: "(rat \<Rightarrow> string) \<Rightarrow> rat \<Rightarrow> rat \<Rightarrow> string" where
  "onboardingTenantLimitText fixed spent limit = ''This server'' @ [CHR 0x27] @ ''s onboarding daily usage limit reached ($'' @ fixed spent @ '' of $''
     @ fixed limit @ ''); resets at 00:00 UTC.''"

definition tenantLimitText :: "(rat \<Rightarrow> string) \<Rightarrow> rat \<Rightarrow> rat \<Rightarrow> string" where
  "tenantLimitText fixed spent limit = ''Daily usage limit reached ($'' @ fixed spent @ '' of $'' @ fixed limit @ ''); resets at 00:00 UTC.''"

record spend_env =
  ev_daily :: "string option"
  ev_free :: "string option"
  ev_pro :: "string option"
  ev_platform :: "string option"
  ev_onboarding :: "string option"
  ev_onboarding_tenant :: "string option"
  ev_exempt :: "string option"

text \<open>\<open>None\<close>: no limit.\<close>

record spend_limits =
  sl_tenant :: "rat option"
  sl_free :: "rat option"
  sl_pro :: "rat option"
  sl_platform :: "rat option"
  sl_onboarding :: "rat option"
  sl_onboarding_tenant :: "rat option"
  sl_exempt :: "string list"

definition usdVar :: "(string \<Rightarrow> rat option) \<Rightarrow> string option \<Rightarrow> rat \<Rightarrow> rat option" where
  "usdVar num v fallback =
     (let s = map to_lower (trim (or_else v [])) in
      if s = [] then Some fallback
      else if s = ''off'' then None
      else (case num s of Some n \<Rightarrow> if 0 \<le> n then Some n else Some fallback | None \<Rightarrow> Some fallback))"

definition limitsOf :: "(string \<Rightarrow> rat option) \<Rightarrow> spend_env \<Rightarrow> spend_limits" where
  "limitsOf num e =
     \<lparr>sl_tenant = usdVar num (ev_daily e) DEFAULT_DAILY_LIMIT_USD, sl_free = usdVar num (ev_free e) DEFAULT_FREE_DAILY_LIMIT_USD,
      sl_pro = usdVar num (ev_pro e) DEFAULT_PRO_DAILY_LIMIT_USD, sl_platform = usdVar num (ev_platform e) DEFAULT_PLATFORM_DAILY_LIMIT_USD,
      sl_onboarding = usdVar num (ev_onboarding e) DEFAULT_ONBOARDING_DAILY_LIMIT_USD,
      sl_onboarding_tenant = usdVar num (ev_onboarding_tenant e) DEFAULT_ONBOARDING_TENANT_DAILY_LIMIT_USD,
      sl_exempt = (case ev_exempt e of None \<Rightarrow> DEFAULT_EXEMPT_TENANTS | Some s \<Rightarrow> filter (\<lambda>t. t \<noteq> []) (map trim (split_at (CHR '','') s)))\<rparr>"

section \<open>The day's spend\<close>

datatype plan = Free | Pro
datatype spend_pool = Pool_Tenant | Pool_Onboarding
datatype limit_source = Src_Raft | Src_Plan | Src_Default | Src_Override

record raft_budget =
  rb_daily :: "int option"
  rb_onboarding :: "int option"

text \<open>An override: \<open>None\<close> there is none, \<open>Some None\<close> it says no limit.\<close>

record day_spend =
  ds_day :: int
  ds_tenant :: rat
  ds_platform :: rat
  ds_onboarding :: rat
  ds_tenant_onboarding :: rat
  ds_override :: "rat option option"
  ds_plan :: "plan option"
  ds_onboarding_override :: "rat option option"
  ds_onboarding_tenant_override :: "rat option option"
  ds_budget :: "raft_budget option"

definition dayOf :: "int \<Rightarrow> int" where
  "dayOf t = (t div DAY_MS) * DAY_MS"

datatype audit_action = Act_Set | Act_Clear

text \<open>The pool's own row has the empty tenant. \<open>previous\<close> of an audit row: \<open>None\<close> there was none.\<close>

record limit_row =
  li_pool :: string
  li_tenant :: string
  li_usd :: "rat option"
  li_by :: string
  li_at :: int

record limit_event =
  le_pool :: string
  le_of :: string
  le_action :: audit_action
  le_usd :: "rat option"
  le_previous :: "rat option option"
  le_by :: string
  le_at :: int

record plan_row =
  pl_tenant :: string
  pl_plan :: string
  pl_by :: string
  pl_at :: int
  pl_daily :: "int option"
  pl_onboarding :: "int option"

text \<open>Overrides of a tenant's own limit are in \<open>sd_limits\<close>, with no pool; those of a pool in \<open>sd_pools\<close>.\<close>

record spend_db =
  sd_limits :: "limit_row list"
  sd_limit_events :: "limit_event list"
  sd_pools :: "limit_row list"
  sd_pool_events :: "limit_event list"
  sd_plans :: "plan_row list"
  sd_agents :: "provisioned list"
  sd_prices :: "usage_price list"

definition is_limit :: "string \<Rightarrow> string \<Rightarrow> limit_row \<Rightarrow> bool" where
  "is_limit pool tenant r \<longleftrightarrow> li_pool r = pool \<and> li_tenant r = tenant"

definition limitRow :: "limit_row option \<Rightarrow> rat option option" where
  "limitRow r = map_option li_usd r"

definition centsOf :: "int option \<Rightarrow> int option" where
  "centsOf v = (case v of None \<Rightarrow> None | Some n \<Rightarrow> if 0 \<le> n \<and> n \<le> MAX_BUDGET_CENTS then Some n else None)"

definition plan_named :: "string \<Rightarrow> plan option" where
  "plan_named s = (if s = ''free'' then Some Free else if s = ''pro'' then Some Pro else None)"

text \<open>\<open>GROUP BY mine, onboarding, hour, resource, key, unit\<close>: \<open>hr_tenant\<close> and \<open>hr_agent\<close> say only the first two.\<close>

definition mine_text :: string where "mine_text = ''1''"
definition other_text :: string where "other_text = ''0''"

definition split_row :: "provisioned list \<Rightarrow> string \<Rightarrow> hourly_row \<Rightarrow> hourly_row" where
  "split_row prov tenant r = r\<lparr>hr_tenant := (if hr_tenant r = tenant then mine_text else other_text),
     hr_agent := (if onboarding_row prov r then mine_text else other_text)\<rparr>"

definition day_ledger :: "bool \<Rightarrow> int \<Rightarrow> ledger \<Rightarrow> hourly_row list" where
  "day_ledger folded day l = filter (in_day day) (lg_hourly l) @ (if folded then filter (in_day day) (lg_daily l) else [])"

fun day_sum :: "usage_price list \<Rightarrow> hourly_row list \<Rightarrow> day_spend \<Rightarrow> day_spend" where
  "day_sum prices [] s = s"
| "day_sum prices (r # rows) s =
     (case row_price prices r of
        None \<Rightarrow> day_sum prices rows s
      | Some p \<Rightarrow>
          let cost = p * hr_quantity r;
              ours = hr_resource r \<noteq> UNACCEPTED_TOKENS;
              mine = hr_tenant r = mine_text in
          day_sum prices rows (if hr_agent r = mine_text
            then s\<lparr>ds_onboarding := ds_onboarding s + cost, ds_tenant_onboarding := ds_tenant_onboarding s + (if mine \<and> ours then cost else 0)\<rparr>
            else s\<lparr>ds_platform := ds_platform s + cost, ds_tenant := ds_tenant s + (if mine \<and> ours then cost else 0)\<rparr>))"

definition readDaySpend :: "spend_db \<Rightarrow> ledger \<Rightarrow> string \<Rightarrow> int \<Rightarrow> bool \<Rightarrow> day_spend" where
  "readDaySpend d l tenant now folded =
     (let day = dayOf now;
          rows = grouped (map (split_row (sd_agents d) tenant) (day_ledger folded day l));
          the_plan = get_row (\<lambda>p. pl_tenant p = tenant) (sd_plans d) in
      day_sum (sd_prices d) rows
        \<lparr>ds_day = day, ds_tenant = 0, ds_platform = 0, ds_onboarding = 0, ds_tenant_onboarding = 0,
         ds_override = limitRow (get_row (is_limit [] tenant) (sd_limits d)),
         ds_plan = (case the_plan of None \<Rightarrow> None | Some p \<Rightarrow> plan_named (pl_plan p)),
         ds_onboarding_override = limitRow (get_row (is_limit ''onboarding'' []) (sd_pools d)),
         ds_onboarding_tenant_override = limitRow (get_row (is_limit ''onboarding'' tenant) (sd_pools d)),
         ds_budget = map_option (\<lambda>p. \<lparr>rb_daily = centsOf (pl_daily p), rb_onboarding = centsOf (pl_onboarding p)\<rparr>) the_plan\<rparr>)"

definition readAgentPool :: "spend_db \<Rightarrow> string \<Rightarrow> string \<Rightarrow> spend_pool" where
  "readAgentPool d tenant agent =
     (case get_row (\<lambda>p. pv_tenant p = tenant \<and> pv_agent p = agent) (sd_agents d) of
        Some p \<Rightarrow> if pv_budget p = Some ''onboarding'' then Pool_Onboarding else Pool_Tenant
      | None \<Rightarrow> Pool_Tenant)"

section \<open>The verdict\<close>

type_synonym sourced_limit = "rat option \<times> limit_source"

definition lowered :: "sourced_limit \<Rightarrow> rat option option \<Rightarrow> sourced_limit" where
  "lowered base override =
     (case override of
        Some (Some o_usd) \<Rightarrow> (case fst base of Some b \<Rightarrow> if b \<le> o_usd then base else (Some o_usd, Src_Override) | None \<Rightarrow> (Some o_usd, Src_Override))
      | _ \<Rightarrow> base)"

definition tenantBaseOf :: "plan option \<Rightarrow> raft_budget option \<Rightarrow> spend_limits \<Rightarrow> sourced_limit" where
  "tenantBaseOf p budget limits =
     (case (case budget of Some b \<Rightarrow> rb_daily b | None \<Rightarrow> None) of
        Some cents \<Rightarrow> (Some (of_int cents / 100), Src_Raft)
      | None \<Rightarrow> (case p of Some Pro \<Rightarrow> sl_pro limits | Some Free \<Rightarrow> sl_free limits | None \<Rightarrow> sl_tenant limits, Src_Plan))"

definition onboardingTenantBaseOf :: "raft_budget option \<Rightarrow> spend_limits \<Rightarrow> sourced_limit" where
  "onboardingTenantBaseOf budget limits =
     (case (case budget of Some b \<Rightarrow> rb_onboarding b | None \<Rightarrow> None) of
        Some cents \<Rightarrow> (Some (of_int cents / 100), Src_Raft)
      | None \<Rightarrow> (sl_onboarding_tenant limits, Src_Default))"

definition tenantLimitDetail :: "day_spend \<Rightarrow> spend_limits \<Rightarrow> sourced_limit" where
  "tenantLimitDetail s limits = lowered (tenantBaseOf (ds_plan s) (ds_budget s) limits) (ds_override s)"

definition tenantLimitOf :: "day_spend \<Rightarrow> spend_limits \<Rightarrow> rat option" where
  "tenantLimitOf s limits = fst (tenantLimitDetail s limits)"

definition onboardingLimitOf :: "day_spend \<Rightarrow> spend_limits \<Rightarrow> rat option" where
  "onboardingLimitOf s limits = (case ds_onboarding_override s of Some o_usd \<Rightarrow> o_usd | None \<Rightarrow> sl_onboarding limits)"

definition onboardingTenantLimitDetail :: "day_spend \<Rightarrow> spend_limits \<Rightarrow> sourced_limit" where
  "onboardingTenantLimitDetail s limits = lowered (onboardingTenantBaseOf (ds_budget s) limits) (ds_onboarding_tenant_override s)"

definition onboardingTenantLimitOf :: "day_spend \<Rightarrow> spend_limits \<Rightarrow> rat option" where
  "onboardingTenantLimitOf s limits = fst (onboardingTenantLimitDetail s limits)"

text \<open>A limit is reached at its figure.\<close>

definition at_limit :: "rat \<Rightarrow> rat option \<Rightarrow> bool" where
  "at_limit spent limit \<longleftrightarrow> (case limit of None \<Rightarrow> False | Some n \<Rightarrow> n \<le> spent)"

definition platformReached :: "day_spend \<Rightarrow> spend_limits \<Rightarrow> bool" where
  "platformReached s limits \<longleftrightarrow> at_limit (ds_platform s) (sl_platform limits)"

definition isExempt :: "string \<Rightarrow> spend_limits \<Rightarrow> bool" where
  "isExempt tenant limits \<longleftrightarrow> tenant \<in> set (sl_exempt limits)"

datatype limit_name = L_Platform | L_Tenant | L_Onboarding | L_Onboarding_Tenant
datatype admitted = Exempt | Under | Read_Failed
datatype admission = Admit admitted | Refuse limit_name string

definition judge :: "(rat \<Rightarrow> string) \<Rightarrow> day_spend \<Rightarrow> spend_limits \<Rightarrow> spend_pool \<Rightarrow> admission" where
  "judge fixed s limits pool =
     (case pool of
        Pool_Onboarding \<Rightarrow>
          let share = onboardingTenantLimitOf s limits in
          if at_limit (ds_onboarding s) (onboardingLimitOf s limits) then Refuse L_Onboarding ONBOARDING_LIMIT_TEXT
          else if at_limit (ds_tenant_onboarding s) share
          then Refuse L_Onboarding_Tenant (onboardingTenantLimitText fixed (ds_tenant_onboarding s) (the share))
          else Admit Under
      | Pool_Tenant \<Rightarrow>
          let limit = tenantLimitOf s limits in
          if platformReached s limits then Refuse L_Platform PLATFORM_LIMIT_TEXT
          else if at_limit (ds_tenant s) limit then Refuse L_Tenant (tenantLimitText fixed (ds_tenant s) (the limit))
          else Admit Under)"

definition admits :: "admission \<Rightarrow> bool" where
  "admits a \<longleftrightarrow> (case a of Admit _ \<Rightarrow> True | Refuse _ _ \<Rightarrow> False)"

record standing =
  st_spent :: rat
  st_limit :: "rat option"
  st_source :: "limit_source option"
  st_plan :: "plan option"
  st_onboarding :: rat
  st_onboarding_limit :: "rat option"
  st_onboarding_source :: "limit_source option"
  st_onboarding_refusing :: bool
  st_exempt :: bool
  st_platform_reached :: bool
  st_refusing :: bool

definition standing_of :: "(rat \<Rightarrow> string) \<Rightarrow> string \<Rightarrow> day_spend \<Rightarrow> spend_limits \<Rightarrow> standing" where
  "standing_of fixed tenant s limits =
     (let ex = isExempt tenant limits; own = tenantLimitDetail s limits; share = onboardingTenantLimitDetail s limits in
      \<lparr>st_spent = ds_tenant s, st_limit = (if ex then None else fst own), st_source = (if ex then None else Some (snd own)), st_plan = ds_plan s,
       st_onboarding = ds_tenant_onboarding s, st_onboarding_limit = (if ex then None else fst share),
       st_onboarding_source = (if ex then None else Some (snd share)),
       st_onboarding_refusing = (\<not> ex \<and> \<not> admits (judge fixed s limits Pool_Onboarding)), st_exempt = ex,
       st_platform_reached = platformReached s limits, st_refusing = (\<not> ex \<and> \<not> admits (judge fixed s limits Pool_Tenant))\<rparr>)"

definition near_limit :: "rat \<Rightarrow> rat option \<Rightarrow> bool" where
  "near_limit spent limit \<longleftrightarrow> (case limit of None \<Rightarrow> False | Some n \<Rightarrow> n * NEAR_FRACTION \<le> spent)"

definition near_pool :: "day_spend \<Rightarrow> spend_limits \<Rightarrow> spend_pool \<Rightarrow> bool" where
  "near_pool s limits pool \<longleftrightarrow> (case pool of
     Pool_Onboarding \<Rightarrow> near_limit (ds_onboarding s) (onboardingLimitOf s limits) \<or> near_limit (ds_tenant_onboarding s) (onboardingTenantLimitOf s limits)
   | Pool_Tenant \<Rightarrow> near_limit (ds_platform s) (sl_platform limits) \<or> near_limit (ds_tenant s) (tenantLimitOf s limits))"

definition near :: "day_spend \<Rightarrow> spend_limits \<Rightarrow> spend_pool option \<Rightarrow> bool" where
  "near s limits pool \<longleftrightarrow> (case pool of None \<Rightarrow> near_pool s limits Pool_Tenant \<or> near_pool s limits Pool_Onboarding | Some p \<Rightarrow> near_pool s limits p)"

section \<open>The gate\<close>

text \<open>An isolate's readings by tenant, each with the time it was made, and the pools of the agents it has seen.\<close>

record spend_gate =
  sg_cache :: "(string \<times> (int \<times> day_spend)) list"
  sg_pools :: "((string \<times> string) \<times> spend_pool) list"

text \<open>What one admission meets: the two reads (\<open>None\<close>: it threw) and what other admissions do to the gate while it waits for them.\<close>

record gate_env =
  ge_pool :: "spend_pool option"
  ge_spend :: "day_spend option"
  ge_during :: "spend_gate \<Rightarrow> spend_gate"

definition CACHE_MAX :: nat where "CACHE_MAX = 10000"

definition put_key :: "'k \<Rightarrow> 'v \<Rightarrow> ('k \<times> 'v) list \<Rightarrow> ('k \<times> 'v) list" where
  "put_key k v m = upsert (\<lambda>x. fst x = k) (k, v) (\<lambda>_. (k, v)) m"

definition kept_map :: "('k \<times> 'v) list \<Rightarrow> ('k \<times> 'v) list" where
  "kept_map m = (if CACHE_MAX \<le> length m then [] else m)"

definition fresh_reading :: "spend_limits \<Rightarrow> int \<Rightarrow> spend_pool option \<Rightarrow> int \<times> day_spend \<Rightarrow> bool" where
  "fresh_reading limits now pool hit \<longleftrightarrow> ds_day (snd hit) = dayOf now
     \<and> now - fst hit < (if near (snd hit) limits pool then SPEND_CACHE_NEAR_MS else SPEND_CACHE_MS)"

definition gate_admit :: "(rat \<Rightarrow> string) \<Rightarrow> spend_limits \<Rightarrow> gate_env \<Rightarrow> int \<Rightarrow> string \<Rightarrow> string option \<Rightarrow> spend_gate \<Rightarrow> admission \<times> spend_gate" where
  "gate_admit fixed limits env now tenant agent g =
     (if isExempt tenant limits then (Admit Exempt, g)
      else
        let known = (case agent of None \<Rightarrow> Some Pool_Tenant | Some a \<Rightarrow> map_of (sg_pools g) (tenant, a));
            hit = (case map_of (sg_cache g) tenant of Some h \<Rightarrow> if fresh_reading limits now known h then Some h else None | None \<Rightarrow> None) in
        case (known, hit) of
          (Some pool, Some h) \<Rightarrow> (judge fixed (snd h) limits pool, g)
        | _ \<Rightarrow>
            (case (case known of Some p \<Rightarrow> Some p | None \<Rightarrow> ge_pool env, case hit of Some h \<Rightarrow> Some h | None \<Rightarrow> map_option (\<lambda>s. (now, s)) (ge_spend env)) of
               (Some pool, Some h) \<Rightarrow>
                 let g1 = ge_during env g;
                     g2 = g1\<lparr>sg_cache := kept_map (sg_cache g1), sg_pools := kept_map (sg_pools g1)\<rparr>;
                     g3 = (if hit = None then g2\<lparr>sg_cache := put_key tenant h (sg_cache g2)\<rparr> else g2) in
                 (judge fixed (snd h) limits pool,
                  case agent of None \<Rightarrow> g3 | Some a \<Rightarrow> g3\<lparr>sg_pools := put_key (tenant, a) pool (sg_pools g3)\<rparr>)
             | _ \<Rightarrow> (Admit Read_Failed, ge_during env g)))"

text \<open>The gate's answer to the queue consumer: nothing, or the refusal to deliver.\<close>

definition refusalAnswer :: "string \<Rightarrow> string \<Rightarrow> string \<Rightarrow> model_answer" where
  "refusalAnswer refusal i model =
     \<lparr>an_role = ''assistant'', an_stop = SError, an_content = Some [], an_error = Some SPEND_LIMIT_ERROR, an_provider_error = Some refusal,
      an_model = Some model,
      an_usage = Some \<lparr>tu_input = Some 0, tu_output = Some 0, tu_cache_read = Some 0, tu_cache_write = Some 0, tu_cache_write_1h = None, tu_reasoning = None\<rparr>,
      an_payer_own = False, an_job = Some i\<rparr>"

definition ownKeySpendPrefix :: "string option \<Rightarrow> string" where
  "ownKeySpendPrefix label = ''This is this deployment'' @ [CHR 0x27] @ ''s daily limit on the compute it pays for (this agent'' @ [CHR 0x27]
     @ ''s turns, tools and containers), not your '' @ or_else label ''your model provider''
     @ '' quota: the model calls on your key cost it nothing, but the work around them does.''"

text \<open>\<open>own\<close>: the call is on the owner's own key, of the provider with that label.\<close>

definition spendAdmit :: "admission \<Rightarrow> string option option \<Rightarrow> string \<Rightarrow> string \<Rightarrow> model_answer option" where
  "spendAdmit verdict own i model =
     (case verdict of
        Admit _ \<Rightarrow> None
      | Refuse _ why \<Rightarrow> Some (refusalAnswer ((case own of None \<Rightarrow> [] | Some label \<Rightarrow> ownKeySpendPrefix label @ '' '') @ why) i model))"

section \<open>Overrides and plans\<close>

definition put_limit :: "limit_row \<Rightarrow> limit_row list \<Rightarrow> limit_row list" where
  "put_limit r rows = upsert (is_limit (li_pool r) (li_tenant r)) r (\<lambda>x. x\<lparr>li_usd := li_usd r, li_by := li_by r, li_at := li_at r\<rparr>) rows"

definition set_in :: "limit_row \<Rightarrow> limit_row list \<times> limit_event list \<Rightarrow> limit_row list \<times> limit_event list" where
  "set_in r t = (put_limit r (fst t), snd t @ [\<lparr>le_pool = li_pool r, le_of = li_tenant r, le_action = Act_Set, le_usd = li_usd r,
     le_previous = limitRow (get_row (is_limit (li_pool r) (li_tenant r)) (fst t)), le_by = li_by r, le_at = li_at r\<rparr>])"

definition clear_in :: "string \<Rightarrow> string \<Rightarrow> string \<Rightarrow> int \<Rightarrow> limit_row list \<times> limit_event list \<Rightarrow> bool \<times> limit_row list \<times> limit_event list" where
  "clear_in pool tenant by_whom now t =
     (case get_row (is_limit pool tenant) (fst t) of
        None \<Rightarrow> (False, t)
      | Some r \<Rightarrow> (True, delete_where (is_limit pool tenant) (fst t), snd t @ [\<lparr>le_pool = pool, le_of = tenant, le_action = Act_Clear, le_usd = None,
          le_previous = Some (li_usd r), le_by = by_whom, le_at = now\<rparr>]))"

definition setLimit :: "string \<Rightarrow> rat option \<Rightarrow> string \<Rightarrow> int \<Rightarrow> spend_db \<Rightarrow> spend_db" where
  "setLimit tenant usd by_whom now d =
     (case set_in \<lparr>li_pool = [], li_tenant = tenant, li_usd = usd, li_by = by_whom, li_at = now\<rparr> (sd_limits d, sd_limit_events d) of
        (rows, evs) \<Rightarrow> d\<lparr>sd_limits := rows, sd_limit_events := evs\<rparr>)"

definition clearLimit :: "string \<Rightarrow> string \<Rightarrow> int \<Rightarrow> spend_db \<Rightarrow> bool \<times> spend_db" where
  "clearLimit tenant by_whom now d =
     (case clear_in [] tenant by_whom now (sd_limits d, sd_limit_events d) of
        (was, rows, evs) \<Rightarrow> (was, d\<lparr>sd_limits := rows, sd_limit_events := evs\<rparr>))"

definition setPool :: "string \<Rightarrow> string option \<Rightarrow> rat option \<Rightarrow> string \<Rightarrow> int \<Rightarrow> spend_db \<Rightarrow> spend_db" where
  "setPool pool tenant usd by_whom now d =
     (case set_in \<lparr>li_pool = pool, li_tenant = or_else tenant [], li_usd = usd, li_by = by_whom, li_at = now\<rparr> (sd_pools d, sd_pool_events d) of
        (rows, evs) \<Rightarrow> d\<lparr>sd_pools := rows, sd_pool_events := evs\<rparr>)"

definition clearPool :: "string \<Rightarrow> string option \<Rightarrow> string \<Rightarrow> int \<Rightarrow> spend_db \<Rightarrow> bool \<times> spend_db" where
  "clearPool pool tenant by_whom now d =
     (case clear_in pool (or_else tenant []) by_whom now (sd_pools d, sd_pool_events d) of
        (was, rows, evs) \<Rightarrow> (was, d\<lparr>sd_pools := rows, sd_pool_events := evs\<rparr>))"

text \<open>A budget of a write: \<open>None\<close> it is left out, \<open>Some None\<close> it is cleared.\<close>

definition setPlan :: "string \<Rightarrow> plan \<Rightarrow> string \<Rightarrow> int \<Rightarrow> int option option \<Rightarrow> int option option \<Rightarrow> spend_db \<Rightarrow> spend_db" where
  "setPlan tenant p by_whom now daily onboarding d =
     (let name = (case p of Free \<Rightarrow> ''free'' | Pro \<Rightarrow> ''pro'') in
      d\<lparr>sd_plans := upsert (\<lambda>x. pl_tenant x = tenant)
          \<lparr>pl_tenant = tenant, pl_plan = name, pl_by = by_whom, pl_at = now, pl_daily = or_else daily None, pl_onboarding = or_else onboarding None\<rparr>
          (\<lambda>x. x\<lparr>pl_plan := name, pl_by := by_whom, pl_at := now, pl_daily := or_else daily (pl_daily x), pl_onboarding := or_else onboarding (pl_onboarding x)\<rparr>)
          (sd_plans d)\<rparr>)"

definition listPlans :: "spend_db \<Rightarrow> plan_row list" where
  "listPlans d = map (\<lambda>p. p\<lparr>pl_daily := centsOf (pl_daily p), pl_onboarding := centsOf (pl_onboarding p)\<rparr>)
     (filter (\<lambda>p. plan_named (pl_plan p) \<noteq> None) (order_by pl_tenant (sd_plans d)))"

section \<open>The operator's route\<close>

datatype admin_method = M_Get | M_Put | M_Delete | M_Other

text \<open>The body of a request: its keys in order. A limit may be a number, \<open>null\<close>, or something else.\<close>

datatype body_value = V_Text string | V_Number rat | V_Null | V_Else

definition tenant_id_ok :: "string \<Rightarrow> bool" where
  "tenant_id_ok s \<longleftrightarrow> s \<noteq> [] \<and> length s \<le> 128 \<and> list_all (\<lambda>c. word_char c \<or> c \<in> set ''.:-'') s"

datatype admin_reply = Reply_Read | Reply_Kept "string option" "string option" "rat option" | Reply_Cleared | Reply_Refused int string

definition named_text :: "(string \<times> body_value) list \<Rightarrow> string \<Rightarrow> string option" where
  "named_text body k = (case map_of body k of Some (V_Text s) \<Rightarrow> Some s | _ \<Rightarrow> None)"

definition adminSpendLimits :: "admin_method \<Rightarrow> (string \<times> body_value) list \<Rightarrow> string \<Rightarrow> int \<Rightarrow> spend_db \<Rightarrow> admin_reply \<times> spend_db" where
  "adminSpendLimits mth body actor now d =
     (if mth = M_Get then (Reply_Read, d)
      else if mth = M_Other then (Reply_Refused 405 ''method'', d)
      else
        let has = (\<lambda>k. map_of body k \<noteq> None);
            is_pool = has ''pool'';
            allowed = (if is_pool then [''pool''] else []) @ [''tenantId''] @ (if mth = M_Put then [''limitUsd''] else []);
            pool = named_text body ''pool'';
            tenant = named_text body ''tenantId'' in
        if \<not> list_all (\<lambda>k. k \<in> set allowed) (map fst body) then (Reply_Refused 400 ''unknown_field'', d)
        else if is_pool \<and> pool \<noteq> Some ''onboarding'' then (Reply_Refused 422 ''invalid'', d)
        else if (has ''tenantId'' \<or> \<not> is_pool) \<and> (case tenant of None \<Rightarrow> True | Some t \<Rightarrow> \<not> tenant_id_ok t) then (Reply_Refused 422 ''invalid'', d)
        else if mth = M_Delete
        then (case (case pool of None \<Rightarrow> clearLimit (the tenant) actor now d | Some p \<Rightarrow> clearPool p tenant actor now d) of
               (True, d') \<Rightarrow> (Reply_Cleared, d') | (False, d') \<Rightarrow> (Reply_Refused 404 ''not_found'', d'))
        else
          let keep = (\<lambda>usd. (Reply_Kept pool tenant usd,
                 case pool of None \<Rightarrow> setLimit (the tenant) usd actor now d | Some p \<Rightarrow> setPool p tenant usd actor now d)) in
          (case map_of body ''limitUsd'' of
             Some V_Null \<Rightarrow> keep None
           | Some (V_Number n) \<Rightarrow> if 0 \<le> n then keep (Some n) else (Reply_Refused 422 ''invalid'', d)
           | _ \<Rightarrow> (Reply_Refused 422 ''invalid'', d)))"

end
