(* ===== verification/Spend_Cases.thy ===== *)
theory Spend_Cases
  imports Spend_Limit Model_Queue
begin

text \<open>
  What the ledger and the limits on it promise: that usage is counted once, that a fold and a rounding change nothing that is shown, that the
  limits judge what was used, by a fresh reading and under the right pool, and that the audit says how each override came to be.
\<close>

section \<open>The day's spend\<close>

definition spent_by :: "usage_price list \<Rightarrow> (hourly_row \<Rightarrow> bool) \<Rightarrow> int \<Rightarrow> ledger \<Rightarrow> rat" where
  "spent_by prices p day l = sum_list (map (cost_of prices) (filter (\<lambda>r. in_day day r \<and> p r) (lg_hourly l)))"

lemma day_sum_adds:
  "ds_tenant (day_sum prices rows s) = ds_tenant s + sum_list (map (\<lambda>r. if hr_agent r \<noteq> mine_text \<and> hr_tenant r = mine_text \<and> hr_resource r \<noteq> UNACCEPTED_TOKENS then cost_of prices r else 0) rows)
   \<and> ds_platform (day_sum prices rows s) = ds_platform s + sum_list (map (\<lambda>r. if hr_agent r \<noteq> mine_text then cost_of prices r else 0) rows)
   \<and> ds_onboarding (day_sum prices rows s) = ds_onboarding s + sum_list (map (\<lambda>r. if hr_agent r = mine_text then cost_of prices r else 0) rows)
   \<and> ds_tenant_onboarding (day_sum prices rows s) = ds_tenant_onboarding s + sum_list (map (\<lambda>r. if hr_agent r = mine_text \<and> hr_tenant r = mine_text \<and> hr_resource r \<noteq> UNACCEPTED_TOKENS then cost_of prices r else 0) rows)"
proof (induction prices rows s rule: day_sum.induct)
  case (2 prices r rows s)
  show ?case
  proof (cases "row_price prices r")
    case None
    with 2(1) [OF None] show ?thesis by (simp add: cost_of_def)
  next
    case (Some p)
    have "cost_of prices r = p * hr_quantity r" by (simp add: cost_of_def Some)
    with 2(2) [OF Some refl refl refl] show ?thesis by (simp add: Some Let_def)
  qed
qed simp

lemma day_sum_rest:
  "ds_day (day_sum prices rows s) = ds_day s \<and> ds_override (day_sum prices rows s) = ds_override s \<and> ds_plan (day_sum prices rows s) = ds_plan s
   \<and> ds_onboarding_override (day_sum prices rows s) = ds_onboarding_override s
   \<and> ds_onboarding_tenant_override (day_sum prices rows s) = ds_onboarding_tenant_override s \<and> ds_budget (day_sum prices rows s) = ds_budget s"
  by (induction prices rows s rule: day_sum.induct) (auto simp: Let_def split: option.split)

lemma weight_of_split:
  assumes "\<And>x. q (hourly_id x) \<longleftrightarrow> p (hr_tenant x) (hr_agent x) (hr_resource x)"
  shows "sum_list (map (\<lambda>r. if p (hr_tenant r) (hr_agent r) (hr_resource r) then cost_of prices r else 0) (grouped (map (split_row prov tenant) rows)))
    = sum_list (map (cost_of prices) (filter (\<lambda>r. p (if hr_tenant r = tenant then mine_text else other_text) (if onboarding_row prov r then mine_text else other_text) (hr_resource r)) rows))"
proof -
  have "linear_weight (\<lambda>r. if p (hr_tenant r) (hr_agent r) (hr_resource r) then cost_of prices r else 0)"
    using cost_linear [of q prices] by (simp only: assms)
  note g = weight_grouped [OF this]
  have c: "cost_of prices (split_row prov tenant r) = cost_of prices r" for r by (simp add: cost_of_def row_price_def split_row_def)
  have "sum_list (map (\<lambda>r. if p (hr_tenant r) (hr_agent r) (hr_resource r) then cost_of prices r else 0) (map (split_row prov tenant) rows))
    = sum_list (map (cost_of prices) (filter (\<lambda>r. p (if hr_tenant r = tenant then mine_text else other_text) (if onboarding_row prov r then mine_text else other_text) (hr_resource r)) rows))"
    by (induction rows) (simp_all only: list.map sum_list.Cons sum_list.Nil filter.simps c, simp_all add: split_row_def)
  with g show ?thesis by simp
qed

lemma day_spend_is:
  shows "ds_tenant (readDaySpend d l tenant now False)
      = spent_by (sd_prices d) (\<lambda>r. \<not> onboarding_row (sd_agents d) r \<and> hr_tenant r = tenant \<and> hr_resource r \<noteq> UNACCEPTED_TOKENS) (dayOf now) l"
    and "ds_platform (readDaySpend d l tenant now False) = spent_by (sd_prices d) (\<lambda>r. \<not> onboarding_row (sd_agents d) r) (dayOf now) l"
    and "ds_onboarding (readDaySpend d l tenant now False) = spent_by (sd_prices d) (onboarding_row (sd_agents d)) (dayOf now) l"
    and "ds_tenant_onboarding (readDaySpend d l tenant now False)
      = spent_by (sd_prices d) (\<lambda>r. onboarding_row (sd_agents d) r \<and> hr_tenant r = tenant \<and> hr_resource r \<noteq> UNACCEPTED_TOKENS) (dayOf now) l"
proof -
  have m: "(if b then mine_text else other_text) = mine_text \<longleftrightarrow> b" for b by (simp add: mine_text_def other_text_def)
  note s = day_sum_adds [of "sd_prices d" "grouped (map (split_row (sd_agents d) tenant) (day_ledger False (dayOf now) l))"]
  have w: "sum_list (map (\<lambda>r. if hr_agent r \<noteq> mine_text \<and> hr_tenant r = mine_text \<and> hr_resource r \<noteq> UNACCEPTED_TOKENS then cost_of (sd_prices d) r else 0) (grouped (map (split_row (sd_agents d) tenant) (day_ledger False (dayOf now) l))))
    = spent_by (sd_prices d) (\<lambda>r. \<not> onboarding_row (sd_agents d) r \<and> hr_tenant r = tenant \<and> hr_resource r \<noteq> UNACCEPTED_TOKENS) (dayOf now) l"
    using weight_of_split [of "\<lambda>i. fst (snd i) \<noteq> mine_text \<and> fst i = mine_text \<and> fst (snd (snd (snd i))) \<noteq> UNACCEPTED_TOKENS" "\<lambda>t a res. a \<noteq> mine_text \<and> t = mine_text \<and> res \<noteq> UNACCEPTED_TOKENS" "sd_prices d" "sd_agents d" tenant "day_ledger False (dayOf now) l"]
    by (simp add: m hourly_id_def spent_by_def day_ledger_def conj_commute)
  show "ds_tenant (readDaySpend d l tenant now False) = spent_by (sd_prices d) (\<lambda>r. \<not> onboarding_row (sd_agents d) r \<and> hr_tenant r = tenant \<and> hr_resource r \<noteq> UNACCEPTED_TOKENS) (dayOf now) l"
    by (simp add: readDaySpend_def Let_def s w)
  have w: "sum_list (map (\<lambda>r. if hr_agent r \<noteq> mine_text then cost_of (sd_prices d) r else 0) (grouped (map (split_row (sd_agents d) tenant) (day_ledger False (dayOf now) l))))
    = spent_by (sd_prices d) (\<lambda>r. \<not> onboarding_row (sd_agents d) r) (dayOf now) l"
    using weight_of_split [of "\<lambda>i. fst (snd i) \<noteq> mine_text" "\<lambda>t a res. a \<noteq> mine_text" "sd_prices d" "sd_agents d" tenant "day_ledger False (dayOf now) l"]
    by (simp add: m hourly_id_def spent_by_def day_ledger_def conj_commute)
  show "ds_platform (readDaySpend d l tenant now False) = spent_by (sd_prices d) (\<lambda>r. \<not> onboarding_row (sd_agents d) r) (dayOf now) l"
    by (simp add: readDaySpend_def Let_def s w)
  have w: "sum_list (map (\<lambda>r. if hr_agent r = mine_text then cost_of (sd_prices d) r else 0) (grouped (map (split_row (sd_agents d) tenant) (day_ledger False (dayOf now) l))))
    = spent_by (sd_prices d) (onboarding_row (sd_agents d)) (dayOf now) l"
    using weight_of_split [of "\<lambda>i. fst (snd i) = mine_text" "\<lambda>t a res. a = mine_text" "sd_prices d" "sd_agents d" tenant "day_ledger False (dayOf now) l"]
    by (simp add: m hourly_id_def spent_by_def day_ledger_def conj_commute)
  show "ds_onboarding (readDaySpend d l tenant now False) = spent_by (sd_prices d) (onboarding_row (sd_agents d)) (dayOf now) l"
    by (simp add: readDaySpend_def Let_def s w)
  have w: "sum_list (map (\<lambda>r. if hr_agent r = mine_text \<and> hr_tenant r = mine_text \<and> hr_resource r \<noteq> UNACCEPTED_TOKENS then cost_of (sd_prices d) r else 0) (grouped (map (split_row (sd_agents d) tenant) (day_ledger False (dayOf now) l))))
    = spent_by (sd_prices d) (\<lambda>r. onboarding_row (sd_agents d) r \<and> hr_tenant r = tenant \<and> hr_resource r \<noteq> UNACCEPTED_TOKENS) (dayOf now) l"
    using weight_of_split [of "\<lambda>i. fst (snd i) = mine_text \<and> fst i = mine_text \<and> fst (snd (snd (snd i))) \<noteq> UNACCEPTED_TOKENS" "\<lambda>t a res. a = mine_text \<and> t = mine_text \<and> res \<noteq> UNACCEPTED_TOKENS" "sd_prices d" "sd_agents d" tenant "day_ledger False (dayOf now) l"]
    by (simp add: m hourly_id_def spent_by_def day_ledger_def conj_commute)
  show "ds_tenant_onboarding (readDaySpend d l tenant now False) = spent_by (sd_prices d) (\<lambda>r. onboarding_row (sd_agents d) r \<and> hr_tenant r = tenant \<and> hr_resource r \<noteq> UNACCEPTED_TOKENS) (dayOf now) l"
    by (simp add: readDaySpend_def Let_def s w)
qed

lemma spent_split: "spent_by prices p day l = spent_by prices (\<lambda>r. p r \<and> q r) day l + spent_by prices (\<lambda>r. p r \<and> \<not> q r) day l"
proof -
  have "sum_list (map f (filter (\<lambda>r. a r \<and> p r) xs)) = sum_list (map f (filter (\<lambda>r. a r \<and> p r \<and> q r) xs)) + sum_list (map f (filter (\<lambda>r. a r \<and> p r \<and> \<not> q r) xs))"
    for f :: "hourly_row \<Rightarrow> rat" and a xs by (induction xs) auto
  then show ?thesis by (simp add: spent_by_def)
qed

section \<open>A verdict\<close>





section \<open>The gate\<close>

definition cache_ok :: "(string \<times> int \<times> day_spend) set \<Rightarrow> (string \<times> int \<times> day_spend) list \<Rightarrow> bool" where
  "cache_ok readings m \<longleftrightarrow> set m \<subseteq> readings"

definition pools_ok :: "(string \<Rightarrow> string \<Rightarrow> spend_pool) \<Rightarrow> ((string \<times> string) \<times> spend_pool) list \<Rightarrow> bool" where
  "pools_ok pool_of m \<longleftrightarrow> (\<forall>x\<in>set m. snd x = pool_of (fst (fst x)) (snd (fst x)))"

definition gate_ok :: "(string \<times> int \<times> day_spend) set \<Rightarrow> (string \<Rightarrow> string \<Rightarrow> spend_pool) \<Rightarrow> spend_gate \<Rightarrow> bool" where
  "gate_ok readings pool_of g \<longleftrightarrow> cache_ok readings (sg_cache g) \<and> pools_ok pool_of (sg_pools g)"

lemma put_key_set: "set (put_key k v m) \<subseteq> insert (k, v) (set m)"
  by (auto simp: put_key_def upsert_def update_where_def)

lemma kept_map_set: "set (kept_map m) \<subseteq> set m"
  by (simp add: kept_map_def)

lemma gate_verdict:
  assumes "gate_admit fixed limits env now tenant agent g = (verdict, g')" and "gate_ok readings pool_of g"
    and "\<And>s. ge_spend env = Some s \<Longrightarrow> (tenant, now, s) \<in> readings \<and> ds_day s = dayOf now"
    and "\<And>a p. agent = Some a \<Longrightarrow> ge_pool env = Some p \<Longrightarrow> p = pool_of tenant a"
    and "verdict \<noteq> Admit Exempt" and "verdict \<noteq> Admit Read_Failed"
  shows "\<exists>at_ms s. (tenant, at_ms, s) \<in> readings \<and> ds_day s = dayOf now \<and> now - at_ms < SPEND_CACHE_MS
    \<and> verdict = judge fixed s limits (case agent of None \<Rightarrow> Pool_Tenant | Some a \<Rightarrow> pool_of tenant a)"
proof -
  let ?pool = "case agent of None \<Rightarrow> Pool_Tenant | Some a \<Rightarrow> pool_of tenant a"
  define known where "known = (case agent of None \<Rightarrow> Some Pool_Tenant | Some a \<Rightarrow> map_of (sg_pools g) (tenant, a))"
  define hit where "hit = (case map_of (sg_cache g) tenant of Some h \<Rightarrow> if fresh_reading limits now known h then Some h else None | None \<Rightarrow> None)"
  have k: "p = ?pool" if "known = Some p" for p
    using that assms(2) by (force simp: known_def gate_ok_def pools_ok_def split: option.splits dest: map_of_SomeD)
  have h: "(tenant, fst x, snd x) \<in> readings \<and> ds_day (snd x) = dayOf now \<and> now - fst x < SPEND_CACHE_MS" if "hit = Some x" for x
  proof -
    have "map_of (sg_cache g) tenant = Some x" and f: "fresh_reading limits now known x" using that by (auto simp: hit_def split: option.splits if_splits)
    then have "(tenant, x) \<in> readings" using assms(2) map_of_SomeD by (force simp: gate_ok_def cache_ok_def)
    with f show ?thesis by (auto simp: fresh_reading_def SPEND_CACHE_MS_def SPEND_CACHE_NEAR_MS_def split: if_splits)
  qed
  have notex: "\<not> isExempt tenant limits" using assms(1,5) by (auto simp: gate_admit_def)
  obtain p x where v: "verdict = judge fixed (snd x) limits p" and p: "known = Some p \<or> known = None \<and> ge_pool env = Some p"
      and x: "hit = Some x \<or> hit = None \<and> map_option (\<lambda>s. (now, s)) (ge_spend env) = Some x"
    using assms(1,6) notex unfolding gate_admit_def Let_def known_def [symmetric] hit_def [symmetric]
    by (auto split: option.splits)
  have "p = ?pool" using p k assms(4) by (cases agent) (auto simp: known_def)
  moreover have "(tenant, fst x, snd x) \<in> readings \<and> ds_day (snd x) = dayOf now \<and> now - fst x < SPEND_CACHE_MS"
    using x
  proof
    assume "hit = Some x"
    then show ?thesis by (rule h)
  next
    assume "hit = None \<and> map_option (\<lambda>s. (now, s)) (ge_spend env) = Some x"
    then obtain s where "ge_spend env = Some s" "x = (now, s)" by auto
    with assms(3) show ?thesis by (simp add: SPEND_CACHE_MS_def)
  qed
  ultimately show ?thesis using v by blast
qed
text \<open>What one admission meets: its readings are among the readings, of its day, and the pool it reads is the agent's own.\<close>

record gate_call =
  gc_env :: gate_env
  gc_now :: int
  gc_tenant :: string
  gc_agent :: "string option"

definition call_ok :: "(string \<times> int \<times> day_spend) set \<Rightarrow> (string \<Rightarrow> string \<Rightarrow> spend_pool) \<Rightarrow> gate_call \<Rightarrow> bool" where
  "call_ok readings pool_of c \<longleftrightarrow>
     (\<forall>s. ge_spend (gc_env c) = Some s \<longrightarrow> (gc_tenant c, gc_now c, s) \<in> readings \<and> ds_day s = dayOf (gc_now c))
     \<and> (\<forall>a p. gc_agent c = Some a \<longrightarrow> ge_pool (gc_env c) = Some p \<longrightarrow> p = pool_of (gc_tenant c) a)
     \<and> (\<forall>g. gate_ok readings pool_of g \<longrightarrow> gate_ok readings pool_of (ge_during (gc_env c) g))"

text \<open>The admissions of one isolate, in the order they end; what others did meanwhile is each one's \<open>ge_during\<close>.\<close>

fun gate_run :: "(rat \<Rightarrow> string) \<Rightarrow> spend_limits \<Rightarrow> gate_call list \<Rightarrow> spend_gate \<Rightarrow> admission list \<times> spend_gate" where
  "gate_run fixed limits [] g = ([], g)"
| "gate_run fixed limits (c # cs) g =
     (case gate_admit fixed limits (gc_env c) (gc_now c) (gc_tenant c) (gc_agent c) g of (v, g1) \<Rightarrow>
        case gate_run fixed limits cs g1 of (vs, g2) \<Rightarrow> (v # vs, g2))"

definition new_gate :: spend_gate where
  "new_gate = \<lparr>sg_cache = [], sg_pools = []\<rparr>"

lemma gate_ok_new [simp]: "gate_ok readings pool_of new_gate"
  by (simp add: gate_ok_def cache_ok_def pools_ok_def new_gate_def)

lemma cache_ok_put: "cache_ok readings m \<Longrightarrow> (tenant, h) \<in> readings \<Longrightarrow> cache_ok readings (put_key tenant h m)"
  using put_key_set [of tenant h m] by (auto simp: cache_ok_def)

lemma pools_ok_put: "pools_ok pool_of m \<Longrightarrow> p = pool_of tenant a \<Longrightarrow> pools_ok pool_of (put_key (tenant, a) p m)"
  using put_key_set [of "(tenant, a)" p m] by (fastforce simp: pools_ok_def)

lemma cache_ok_kept: "cache_ok readings m \<Longrightarrow> cache_ok readings (kept_map m)"
  using kept_map_set [of m] by (auto simp: cache_ok_def)

lemma pools_ok_kept: "pools_ok pool_of m \<Longrightarrow> pools_ok pool_of (kept_map m)"
  using kept_map_set [of m] by (auto simp: pools_ok_def)

lemma known_pool:
  assumes "gate_ok readings pool_of g" and "map_of (sg_pools g) (tenant, a) = Some p"
  shows "p = pool_of tenant a"
  using assms by (force simp: gate_ok_def pools_ok_def dest: map_of_SomeD)

lemma gate_keeps:
  assumes "gate_ok readings pool_of g" and "call_ok readings pool_of c"
  shows "gate_ok readings pool_of (snd (gate_admit fixed limits (gc_env c) (gc_now c) (gc_tenant c) (gc_agent c) g))"
proof -
  have d: "cache_ok readings (sg_cache (ge_during (gc_env c) g))" "pools_ok pool_of (sg_pools (ge_during (gc_env c) g))"
    using assms by (auto simp: call_ok_def gate_ok_def)
  have r: "ge_spend (gc_env c) = Some s \<Longrightarrow> (gc_tenant c, gc_now c, s) \<in> readings" for s using assms(2) by (simp add: call_ok_def)
  have p: "gc_agent c = Some a \<Longrightarrow> ge_pool (gc_env c) = Some q \<Longrightarrow> q = pool_of (gc_tenant c) a" for a q using assms(2) by (simp add: call_ok_def)
  have k: "map_of (sg_cache g) tenant = Some h \<Longrightarrow> (tenant, h) \<in> readings" for tenant h
    using assms(1) map_of_SomeD by (force simp: gate_ok_def cache_ok_def)
  show ?thesis
    using assms(1) r p known_pool [OF assms(1)] k d unfolding gate_admit_def Let_def gate_ok_def
    by (auto split: option.split intro!: cache_ok_put pools_ok_put cache_ok_kept pools_ok_kept)
qed
lemma gate_run_each:
  assumes "gate_run fixed limits calls g = (verdicts, g')" and "gate_ok readings pool_of g" and "\<forall>c\<in>set calls. call_ok readings pool_of c" and "i < length calls"
  shows "\<exists>g1. gate_ok readings pool_of g1
    \<and> verdicts ! i = fst (gate_admit fixed limits (gc_env (calls ! i)) (gc_now (calls ! i)) (gc_tenant (calls ! i)) (gc_agent (calls ! i)) g1)"
  using assms
proof (induction calls arbitrary: g verdicts i)
  case (Cons c cs)
  obtain v g1 where a: "gate_admit fixed limits (gc_env c) (gc_now c) (gc_tenant c) (gc_agent c) g = (v, g1)" by fastforce
  obtain vs where r: "gate_run fixed limits cs g1 = (vs, g')" and v: "verdicts = v # vs" using Cons.prems(1) a by (auto split: prod.splits)
  show ?case
  proof (cases i)
    case 0
    then show ?thesis using Cons.prems(2) a v by auto
  next
    case (Suc n)
    have "gate_ok readings pool_of g1" using gate_keeps [OF Cons.prems(2), of c fixed limits] Cons.prems(3) a by simp
    from Cons.IH [OF r this, of n] Cons.prems(3,4) Suc v show ?thesis by simp
  qed
qed simp

lemma gate_exempt: "fst (gate_admit fixed limits env now tenant agent g) = Admit Exempt \<Longrightarrow> isExempt tenant limits"
  by (auto simp: gate_admit_def Let_def judge_def split: if_splits option.splits spend_pool.splits)

lemma gate_failed: "fst (gate_admit fixed limits env now tenant agent g) = Admit Read_Failed \<Longrightarrow> ge_pool env = None \<or> ge_spend env = None"
  by (auto simp: gate_admit_def Let_def judge_def split: if_splits option.splits spend_pool.splits)

text \<open>
  C31: Every call of a tenant that is not exempt is judged by a reading of this tenant made less than thirty seconds before, on the same UTC day,
  and under the pool of its own agent, whatever other calls did meanwhile; only when a read fails is it let through unjudged.
\<close>
theorem a_verdict_is_fresh_and_of_its_pool:
  assumes "gate_run fixed limits calls new_gate = (verdicts, g)" and "\<forall>c\<in>set calls. call_ok readings pool_of c" and "i < length calls" and "calls ! i = c"
  shows "isExempt (gc_tenant c) limits \<and> verdicts ! i = Admit Exempt
    \<or> (ge_pool (gc_env c) = None \<or> ge_spend (gc_env c) = None) \<and> verdicts ! i = Admit Read_Failed
    \<or> (\<exists>at_ms s. (gc_tenant c, at_ms, s) \<in> readings \<and> ds_day s = dayOf (gc_now c) \<and> gc_now c - at_ms < 30000
        \<and> verdicts ! i = judge fixed s limits (case gc_agent c of None \<Rightarrow> Pool_Tenant | Some a \<Rightarrow> pool_of (gc_tenant c) a))"
proof -
  have ok: "call_ok readings pool_of c" using assms(2-4) by auto
  obtain g1 v g2 where g1: "gate_ok readings pool_of g1" and v: "gate_admit fixed limits (gc_env c) (gc_now c) (gc_tenant c) (gc_agent c) g1 = (v, g2)"
      and i: "verdicts ! i = v"
    using gate_run_each [OF assms(1) gate_ok_new assms(2,3)] assms(4) by (metis prod.collapse)
  have e: "v = Admit Exempt \<Longrightarrow> isExempt (gc_tenant c) limits" using gate_exempt v by (metis fst_conv)
  have f: "v = Admit Read_Failed \<Longrightarrow> ge_pool (gc_env c) = None \<or> ge_spend (gc_env c) = None" using gate_failed v by (metis fst_conv)
  have s: "ge_spend (gc_env c) = Some s \<Longrightarrow> (gc_tenant c, gc_now c, s) \<in> readings \<and> ds_day s = dayOf (gc_now c)" for s using ok by (simp add: call_ok_def)
  have p: "gc_agent c = Some a \<Longrightarrow> ge_pool (gc_env c) = Some q \<Longrightarrow> q = pool_of (gc_tenant c) a" for a q using ok by (simp add: call_ok_def)
  show ?thesis
  proof (cases "v = Admit Exempt \<or> v = Admit Read_Failed")
    case True
    then show ?thesis using e f i by auto
  next
    case False
    from gate_verdict [OF v g1 s p] False show ?thesis unfolding i SPEND_CACHE_MS_def by blast
  qed
qed

section \<open>Cases\<close>

definition plain_text :: "rat \<Rightarrow> string" where "plain_text _ = ''x''"

definition no_vars :: spend_env where
  "no_vars = \<lparr>ev_daily = None, ev_free = None, ev_pro = None, ev_platform = None, ev_onboarding = None, ev_onboarding_tenant = None, ev_exempt = None\<rparr>"

definition default_limits :: spend_limits where
  "default_limits = limitsOf (\<lambda>_. None) no_vars"

definition spent_six :: day_spend where
  "spent_six = \<lparr>ds_day = 0, ds_tenant = 6, ds_platform = 6, ds_onboarding = 0, ds_tenant_onboarding = 0, ds_override = None, ds_plan = None,
     ds_onboarding_override = None, ds_onboarding_tenant_override = None, ds_budget = None\<rparr>"

text \<open>Two calls four seconds apart: the second one's own reads would fail, and it needs none.\<close>

definition two_calls :: "gate_call list" where
  "two_calls = [\<lparr>gc_env = \<lparr>ge_pool = Some Pool_Tenant, ge_spend = Some spent_six, ge_during = id\<rparr>, gc_now = 1000, gc_tenant = ''t'', gc_agent = Some ''a''\<rparr>,
     \<lparr>gc_env = \<lparr>ge_pool = None, ge_spend = None, ge_during = id\<rparr>, gc_now = 5000, gc_tenant = ''t'', gc_agent = Some ''a''\<rparr>]"

theorem a_verdict_is_fresh_and_of_its_pool_witness:
  "\<exists>at_ms s. (''t'', at_ms, s) \<in> {(''t'', 1000, spent_six)} \<and> 5000 - at_ms < (30000 :: int)
     \<and> fst (gate_run plain_text default_limits two_calls new_gate) ! 1 = judge plain_text s default_limits Pool_Tenant
     \<and> \<not> admits (judge plain_text s default_limits Pool_Tenant)"
proof -
  obtain vs g where r: "gate_run plain_text default_limits two_calls new_gate = (vs, g)" by fastforce
  let ?c = "two_calls ! 1"
  have ok: "\<forall>c\<in>set two_calls. call_ok {(''t'', 1000, spent_six)} (\<lambda>_ _. Pool_Tenant) c"
    by (simp add: two_calls_def call_ok_def spent_six_def dayOf_def DAY_MS_def)
  have v: "fst (gate_run plain_text default_limits two_calls new_gate) ! 1 \<noteq> Admit Exempt"
    "fst (gate_run plain_text default_limits two_calls new_gate) ! 1 \<noteq> Admit Read_Failed" by code_simp+
  have a: "\<not> admits (judge plain_text spent_six default_limits Pool_Tenant)" by code_simp
  have "1 < length two_calls" and "gc_tenant ?c = ''t''" and "gc_now ?c = 5000" and "gc_agent ?c = Some ''a''" by (simp_all add: two_calls_def)
  with a_verdict_is_fresh_and_of_its_pool [OF r ok this(1) refl] v a show ?thesis by (auto simp: r)
qed
section \<open>What a limit judges\<close>

text \<open>
  The enforcer's reading is the day's hours at their prices: the platform's figure and the onboarding pool's divide all of them by the budget
  of the agent they are of, and a tenant's two figures are its own part of each, less the answers no job accepted.
\<close>
theorem limits_judge_what_was_used:
  "ds_platform (readDaySpend d l tenant now False) = spent_by (sd_prices d) (\<lambda>r. \<not> onboarding_row (sd_agents d) r) (dayOf now) l
   \<and> ds_onboarding (readDaySpend d l tenant now False) = spent_by (sd_prices d) (onboarding_row (sd_agents d)) (dayOf now) l
   \<and> ds_platform (readDaySpend d l tenant now False) + ds_onboarding (readDaySpend d l tenant now False) = spent_by (sd_prices d) (\<lambda>_. True) (dayOf now) l
   \<and> ds_tenant (readDaySpend d l tenant now False) = spent_by (sd_prices d)
       (\<lambda>r. \<not> onboarding_row (sd_agents d) r \<and> hr_tenant r = tenant \<and> hr_resource r \<noteq> UNACCEPTED_TOKENS) (dayOf now) l
   \<and> ds_tenant_onboarding (readDaySpend d l tenant now False) = spent_by (sd_prices d)
       (\<lambda>r. onboarding_row (sd_agents d) r \<and> hr_tenant r = tenant \<and> hr_resource r \<noteq> UNACCEPTED_TOKENS) (dayOf now) l"
  using spent_split [of "sd_prices d" "\<lambda>_. True" "dayOf now" l "onboarding_row (sd_agents d)"] by (simp add: day_spend_is)

text \<open>The rows a pool's limits are about.\<close>

definition pool_row :: "provisioned list \<Rightarrow> spend_pool \<Rightarrow> hourly_row \<Rightarrow> bool" where
  "pool_row prov pool r \<longleftrightarrow> (case pool of Pool_Onboarding \<Rightarrow> onboarding_row prov r | Pool_Tenant \<Rightarrow> \<not> onboarding_row prov r)"

lemma spent_by_same:
  assumes "filter q (lg_hourly l') = filter q (lg_hourly l)" and "\<And>r. p r \<Longrightarrow> q r"
  shows "spent_by prices p day l' = spent_by prices p day l"
proof -
  have "filter (\<lambda>r. in_day day r \<and> p r) rows = filter (\<lambda>r. in_day day r \<and> p r) (filter q rows)" for rows
    using assms(2) by (induction rows) auto
  then show ?thesis using assms(1) by (metis spent_by_def)
qed

lemma day_spend_rest:
  "ds_override (readDaySpend d l' tenant now False) = ds_override (readDaySpend d l tenant now False)
   \<and> ds_plan (readDaySpend d l' tenant now False) = ds_plan (readDaySpend d l tenant now False)
   \<and> ds_onboarding_override (readDaySpend d l' tenant now False) = ds_onboarding_override (readDaySpend d l tenant now False)
   \<and> ds_onboarding_tenant_override (readDaySpend d l' tenant now False) = ds_onboarding_tenant_override (readDaySpend d l tenant now False)
   \<and> ds_budget (readDaySpend d l' tenant now False) = ds_budget (readDaySpend d l tenant now False)"
  by (simp add: readDaySpend_def Let_def day_sum_rest)

text \<open>
  C32: The pools do not mix: what the agents of one budget use, in any tenant, changes no verdict on an agent of the other.
\<close>
theorem one_pool_never_refuses_the_other:
  assumes "filter (pool_row (sd_agents d) pool) (lg_hourly l') = filter (pool_row (sd_agents d) pool) (lg_hourly l)"
  shows "judge fixed (readDaySpend d l' tenant now False) limits pool = judge fixed (readDaySpend d l tenant now False) limits pool"
proof (cases pool)
  case Pool_Tenant
  have a: "spent_by (sd_prices d) (\<lambda>r. \<not> onboarding_row (sd_agents d) r) (dayOf now) l' = spent_by (sd_prices d) (\<lambda>r. \<not> onboarding_row (sd_agents d) r) (dayOf now) l"
    by (rule spent_by_same [OF assms]) (simp add: Pool_Tenant pool_row_def)
  have b: "spent_by (sd_prices d) (\<lambda>r. \<not> onboarding_row (sd_agents d) r \<and> hr_tenant r = tenant \<and> hr_resource r \<noteq> UNACCEPTED_TOKENS) (dayOf now) l' = spent_by (sd_prices d) (\<lambda>r. \<not> onboarding_row (sd_agents d) r \<and> hr_tenant r = tenant \<and> hr_resource r \<noteq> UNACCEPTED_TOKENS) (dayOf now) l"
    by (rule spent_by_same [OF assms]) (simp add: Pool_Tenant pool_row_def)
  show ?thesis using day_spend_rest [of d l' tenant now l]
    by (simp add: Pool_Tenant judge_def platformReached_def Let_def tenantLimitOf_def tenantLimitDetail_def day_spend_is a b)
next
  case Pool_Onboarding
  have a: "spent_by (sd_prices d) (onboarding_row (sd_agents d)) (dayOf now) l' = spent_by (sd_prices d) (onboarding_row (sd_agents d)) (dayOf now) l"
    by (rule spent_by_same [OF assms]) (simp add: Pool_Onboarding pool_row_def)
  have b: "spent_by (sd_prices d) (\<lambda>r. onboarding_row (sd_agents d) r \<and> hr_tenant r = tenant \<and> hr_resource r \<noteq> UNACCEPTED_TOKENS) (dayOf now) l' = spent_by (sd_prices d) (\<lambda>r. onboarding_row (sd_agents d) r \<and> hr_tenant r = tenant \<and> hr_resource r \<noteq> UNACCEPTED_TOKENS) (dayOf now) l"
    by (rule spent_by_same [OF assms]) (simp add: Pool_Onboarding pool_row_def)
  show ?thesis using day_spend_rest [of d l' tenant now l]
    by (simp add: Pool_Onboarding judge_def Let_def onboardingLimitOf_def onboardingTenantLimitOf_def onboardingTenantLimitDetail_def day_spend_is a b)
qed

definition one_onboarding :: spend_db where
  "one_onboarding = \<lparr>sd_limits = [], sd_limit_events = [], sd_pools = [], sd_pool_events = [], sd_plans = [],
     sd_agents = [\<lparr>pv_tenant = ''t'', pv_agent = ''o'', pv_raft = ''r'', pv_budget = Some ''onboarding''\<rparr>],
     sd_prices = [\<lparr>up_resource = ''tool.call'', up_key = ''*'', up_unit = ''call'', up_credits = 1, up_from = 0\<rparr>]\<rparr>"

definition onboarding_hour :: hourly_row where
  "onboarding_hour = \<lparr>hr_tenant = ''t'', hr_agent = ''o'', hr_hour = 3600000, hr_resource = ''tool.call'', hr_key = ''sh'', hr_unit = ''call'', hr_quantity = 100\<rparr>"

text \<open>A hundred dollars of an onboarding agent's: its own next call is refused, an agent on the tenant's budget goes on.\<close>

theorem one_pool_never_refuses_the_other_witness:
  "let l = \<lparr>lg_hourly = [], lg_daily = [], lg_cursor = []\<rparr>; l' = l\<lparr>lg_hourly := [onboarding_hour]\<rparr> in
   judge plain_text (readDaySpend one_onboarding l' ''t'' 3600001 False) default_limits Pool_Tenant
     = judge plain_text (readDaySpend one_onboarding l ''t'' 3600001 False) default_limits Pool_Tenant
   \<and> \<not> admits (judge plain_text (readDaySpend one_onboarding l' ''t'' 3600001 False) default_limits Pool_Onboarding)"
proof -
  let ?l = "\<lparr>lg_hourly = [], lg_daily = [], lg_cursor = []\<rparr>" and ?l' = "\<lparr>lg_hourly = [onboarding_hour], lg_daily = [], lg_cursor = []\<rparr>"
  have "filter (pool_row (sd_agents one_onboarding) Pool_Tenant) (lg_hourly ?l') = filter (pool_row (sd_agents one_onboarding) Pool_Tenant) (lg_hourly ?l)"
    by code_simp
  moreover have "\<not> admits (judge plain_text (readDaySpend one_onboarding ?l' ''t'' 3600001 False) default_limits Pool_Onboarding)" by code_simp
  ultimately show ?thesis using one_pool_never_refuses_the_other [of one_onboarding Pool_Tenant ?l' ?l] by (simp add: Let_def)
qed
section \<open>What an operator may change\<close>








section \<open>The audit\<close>

type_synonym overrides = "string \<times> string \<Rightarrow> rat option option"

definition overrides_of :: "limit_row list \<Rightarrow> overrides" where
  "overrides_of rows k = limitRow (get_row (is_limit (fst k) (snd k)) rows)"

text \<open>What the audit rows say, read from the first to the last.\<close>

definition replayed :: "limit_event \<Rightarrow> overrides \<Rightarrow> overrides" where
  "replayed e m = m((le_pool e, le_of e) := (case le_action e of Act_Set \<Rightarrow> Some (le_usd e) | Act_Clear \<Rightarrow> None))"

definition replay :: "limit_event list \<Rightarrow> overrides" where
  "replay evs = fold replayed evs (\<lambda>_. None)"

fun previous_ok :: "limit_event list \<Rightarrow> overrides \<Rightarrow> bool" where
  "previous_ok [] m \<longleftrightarrow> True"
| "previous_ok (e # evs) m \<longleftrightarrow> le_previous e = m (le_pool e, le_of e) \<and> previous_ok evs (replayed e m)"

definition audited :: "limit_row list \<times> limit_event list \<Rightarrow> bool" where
  "audited t \<longleftrightarrow> overrides_of (fst t) = replay (snd t) \<and> previous_ok (snd t) (\<lambda>_. None)"

lemma previous_ok_snoc: "previous_ok (evs @ [e]) m \<longleftrightarrow> previous_ok evs m \<and> le_previous e = fold replayed evs m (le_pool e, le_of e)"
  by (induction evs arbitrary: m) auto

lemma replay_snoc: "replay (evs @ [e]) = replayed e (replay evs)"
  by (simp add: replay_def)

lemma is_limit_updated [simp]: "is_limit pool tenant (x\<lparr>li_usd := u, li_by := b, li_at := t\<rparr>) = is_limit pool tenant x"
  by (simp add: is_limit_def)

lemma is_limit_unique: "is_limit pool tenant x \<Longrightarrow> is_limit pool' tenant' x \<longleftrightarrow> pool' = pool \<and> tenant' = tenant"
  by (auto simp: is_limit_def)

lemma get_updated_limit:
  "get_row (is_limit pool tenant) (update_where (is_limit (li_pool r) (li_tenant r)) (\<lambda>x. x\<lparr>li_usd := li_usd r, li_by := li_by r, li_at := li_at r\<rparr>) rows)
   = (if pool = li_pool r \<and> tenant = li_tenant r
      then map_option (\<lambda>x. x\<lparr>li_usd := li_usd r, li_by := li_by r, li_at := li_at r\<rparr>) (get_row (is_limit pool tenant) rows)
      else get_row (is_limit pool tenant) rows)"
proof (induction rows)
  case (Cons x rows)
  then show ?case
    using is_limit_unique [of pool tenant x "li_pool r" "li_tenant r"] by (cases "is_limit pool tenant x") (auto simp: update_where_Cons)
qed simp

lemma overrides_put: "overrides_of (put_limit r rows) = (overrides_of rows)((li_pool r, li_tenant r) := Some (li_usd r))"
proof (rule ext)
  fix k :: "string \<times> string"
  show "overrides_of (put_limit r rows) k = ((overrides_of rows)((li_pool r, li_tenant r) := Some (li_usd r))) k"
  proof (cases "has_row (is_limit (li_pool r) (li_tenant r)) rows")
    case True
    then obtain x where "get_row (is_limit (li_pool r) (li_tenant r)) rows = Some x"
      by (metis get_row_None_iff has_row_iff not_None_eq)
    then show ?thesis using True
      by (cases k) (auto simp: overrides_of_def put_limit_def upsert_def get_updated_limit limitRow_def)
  next
    case False
    then have "get_row (is_limit (li_pool r) (li_tenant r)) rows = None" by (metis get_row_None_iff has_row_iff)
    moreover have "get_row p (rows @ [r]) = (case get_row p rows of None \<Rightarrow> if p r then Some r else None | Some x \<Rightarrow> Some x)" for p
      by (induction rows) auto
    ultimately show ?thesis using False
      by (cases k) (auto simp: overrides_of_def put_limit_def upsert_def limitRow_def is_limit_def split: option.split)
  qed
qed

lemma overrides_delete: "overrides_of (delete_where (is_limit pool tenant) rows) = (overrides_of rows)((pool, tenant) := None)"
proof -
  have "get_row (is_limit a b) (delete_where (is_limit pool tenant) rows) = (if a = pool \<and> b = tenant then None else get_row (is_limit a b) rows)" for a b
  proof (induction rows)
    case (Cons x rows)
    then show ?case using is_limit_unique [of a b x pool tenant] by (cases "is_limit a b x") (auto simp: delete_where_def)
  qed (simp add: delete_where_def)
  then show ?thesis by (auto simp: fun_eq_iff overrides_of_def limitRow_def)
qed

lemma set_in_audited:
  assumes "audited t"
  shows "audited (set_in r t)"
proof -
  have "limitRow (get_row (is_limit (li_pool r) (li_tenant r)) (fst t)) = overrides_of (fst t) (li_pool r, li_tenant r)" by (simp add: overrides_of_def)
  then show ?thesis using assms by (simp add: audited_def set_in_def overrides_put replay_snoc replayed_def previous_ok_snoc replay_def [symmetric])
qed

lemma clear_in_audited:
  assumes "audited t"
  shows "audited (snd (clear_in pool tenant by_whom now t))"
proof (cases "get_row (is_limit pool tenant) (fst t)")
  case (Some x)
  then have "overrides_of (fst t) (pool, tenant) = Some (li_usd x)" by (simp add: overrides_of_def limitRow_def)
  then show ?thesis using assms Some
    by (simp add: audited_def clear_in_def overrides_delete replay_snoc replayed_def previous_ok_snoc replay_def [symmetric])
qed (use assms in \<open>simp add: clear_in_def\<close>)

definition db_audited :: "spend_db \<Rightarrow> bool" where
  "db_audited d \<longleftrightarrow> audited (sd_limits d, sd_limit_events d) \<and> audited (sd_pools d, sd_pool_events d)"

lemma set_limit_audited: "db_audited d \<Longrightarrow> db_audited (setLimit tenant usd by_whom now d)"
  unfolding db_audited_def setLimit_def by (auto split: prod.split) (metis set_in_audited)

lemma set_pool_audited: "db_audited d \<Longrightarrow> db_audited (setPool pool tenant usd by_whom now d)"
  unfolding db_audited_def setPool_def by (auto split: prod.split) (metis set_in_audited)

lemma clear_limit_audited: "db_audited d \<Longrightarrow> db_audited (snd (clearLimit tenant by_whom now d))"
  unfolding db_audited_def clearLimit_def by (auto split: prod.split) (metis clear_in_audited snd_conv)

lemma clear_pool_audited: "db_audited d \<Longrightarrow> db_audited (snd (clearPool pool tenant by_whom now d))"
  unfolding db_audited_def clearPool_def by (auto split: prod.split) (metis clear_in_audited snd_conv)

lemmas audited_writes = set_limit_audited set_pool_audited clear_limit_audited clear_pool_audited
lemma left_db_if: "db_audited (snd a) \<Longrightarrow> db_audited (snd b) \<Longrightarrow> db_audited (snd (if c then a else b))"
  by simp

lemma left_db_body:
  "\<lbrakk>\<And>n. v = Some (V_Number n) \<Longrightarrow> db_audited (snd (f n)); db_audited (snd a); db_audited (snd b)\<rbrakk>
   \<Longrightarrow> db_audited (snd (case v of Some V_Null \<Rightarrow> a | Some (V_Number n) \<Rightarrow> f n | _ \<Rightarrow> b))"
  by (auto split: option.split body_value.split)

lemma left_db_cleared: "snd (case x of (True, d') \<Rightarrow> (Reply_Cleared, d') | (False, d') \<Rightarrow> (Reply_Refused n why, d')) = snd x"
  by (auto split: prod.split bool.split)

lemma admin_audited:
  assumes "db_audited d"
  shows "db_audited (snd (adminSpendLimits mth body actor now d))"
proof -
  have c: "db_audited (snd (case p of None \<Rightarrow> clearLimit t actor now d | Some q \<Rightarrow> clearPool q t' actor now d))" for p t t'
    using assms by (auto simp: audited_writes split: option.split)
  have k: "db_audited (case p of None \<Rightarrow> setLimit t usd actor now d | Some q \<Rightarrow> setPool q t' usd actor now d)" for p t t' usd
    using assms by (auto simp: audited_writes split: option.split)
  show ?thesis unfolding adminSpendLimits_def Let_def
    by (intro left_db_if left_db_body) (simp_all only: left_db_cleared snd_conv assms c k)
qed

definition no_overrides :: "provisioned list \<Rightarrow> plan_row list \<Rightarrow> usage_price list \<Rightarrow> spend_db" where
  "no_overrides prov ps prices = \<lparr>sd_limits = [], sd_limit_events = [], sd_pools = [], sd_pool_events = [], sd_plans = ps,
     sd_agents = prov, sd_prices = prices\<rparr>"

definition admin_run :: "(admin_method \<times> (string \<times> body_value) list \<times> string \<times> int) list \<Rightarrow> spend_db \<Rightarrow> spend_db" where
  "admin_run asked d = fold (\<lambda>(mth, body, actor, now) d. snd (adminSpendLimits mth body actor now d)) asked d"

text \<open>
  C34: The audit tells every override: whatever requests an operator sends, one after the other, the rows of the audit read in order give the
  overrides there are, and each row says what was there before it.
\<close>
theorem the_audit_tells_every_override:
  "let d = admin_run asked (no_overrides prov ps prices) in
   overrides_of (sd_limits d) = replay (sd_limit_events d) \<and> overrides_of (sd_pools d) = replay (sd_pool_events d)
   \<and> previous_ok (sd_limit_events d) (\<lambda>_. None) \<and> previous_ok (sd_pool_events d) (\<lambda>_. None)"
proof -
  have "db_audited d \<Longrightarrow> db_audited (admin_run asked d)" for d
    unfolding admin_run_def by (induction asked arbitrary: d) (auto simp: admin_audited split: prod.split)
  moreover have "db_audited (no_overrides prov ps prices)"
    by (simp add: db_audited_def audited_def no_overrides_def overrides_of_def replay_def limitRow_def fun_eq_iff)
  ultimately show ?thesis by (auto simp: db_audited_def audited_def Let_def)
qed

text \<open>A call is answered without a provider exactly when it is refused, and the answer bills nothing.\<close>
lemma a_refusal_is_delivered: "spendAdmit verdict own i model = None \<longleftrightarrow> admits verdict"
  by (cases verdict) (simp_all add: spendAdmit_def admits_def)
section \<open>Where a comment and the code differ\<close>

text \<open>A tenant with no plan has a limit of its own, which is not the free plan's.\<close>
lemma no_plan_is_not_the_free_plan:
  "tenantBaseOf None None default_limits = (Some 5, Src_Plan) \<and> tenantBaseOf (Some Free) None default_limits = (Some 3, Src_Plan)"
  by code_simp

end
