(* ===== verification/Spec2Isabelle.thy ===== *)
theory Spec2Isabelle
  imports Event_Log Advance Outbox Trace Operations Approvals Quotas State_Lines Doc_Edits Agent_State Plugin_Db Mounts Seed_Record Usage Usage_Held Idle_Lease Idle_Pass Background_Jobs Gateway_Approvals Subagent_Cases Inbound_Cases Workspace_Cases Model_Cases Store_Runs Ledger_Cases Spend_Cases
begin

text \<open>
  The durable core of an agent runtime, verified.

  \<^bold>\<open>The program.\<close> An agent is a set of tasks (conversations) kept in a store. What happens to it arrives as events of an append-only
  log; a worker takes a task under a lease, reads the events after its cursor, and commits an advance: a new checkpoint, new events,
  commands for the outside world, waits. Commands leave through an outbox and answers come back as completions of operations, each of
  which is an event again. Tool calls go through one gateway, which resolves the mount a name belongs to, asks the mount's policy, holds a
  call for a person, runs it in a plugin and records how it ended. Around this run passes of the object that hosts an agent: expiring
  and running held calls and telling the agent, checking background jobs, warning of and releasing idle resources, counting usage.

  \<^bold>\<open>Ground.\<close> \<^theory_text>\<open>Prelude\<close> has SQL's statements as functions on lists of rows (\<open>get_row\<close>, \<open>insert_ignore\<close>, \<open>upsert\<close>,
  \<open>update_where\<close>, \<open>delete_where\<close>, \<open>order_by\<close>) and their lemmas. \<^theory_text>\<open>Json\<close> is JSON with \<open>stringify\<close> and \<open>canonJson\<close>
  (\<open>src/src/core/canon-json.ts\<close>), \<^theory_text>\<open>Js_String\<close> the string operations. \<^theory_text>\<open>Store_Types\<close> has the types of
  \<open>src/src/core/types.ts\<close> and one record per table; \<open>store\<close> is a record of all tables, passed explicitly. \<^theory_text>\<open>Interfaces\<close> has the
  contracts as locales: \<open>keyed_table\<close> (interpreted on the agent documents, the secrets and the plugin databases), \<open>one_winner\<close> (on
  commits, attempts, decisions, runs of approved calls, notices of decisions, outbox claims of both stores, requests, seed notices and
  answers to questions) and \<open>append_only\<close> (on every run of the store).

  \<^bold>\<open>The store\<close> (\<open>src/src/store/sqlite.ts\<close>, \<open>src/src/store/durable-object.ts\<close>; the prefix \<open>do_\<close> marks the second where the two differ).
  \<^theory_text>\<open>Event_Log\<close>: counters, agents, tasks, events, cursors, snapshots. \<^theory_text>\<open>Advance\<close>: leases with fencing tokens, \<open>commitAdvance\<close>,
  parking, interrupts, reopening, the queries of the scheduler. \<^theory_text>\<open>Outbox\<close>: commands, claims, repairs, requests, follow-ups.
  \<^theory_text>\<open>Operations\<close>: attempts, completions with their event, waits. \<^theory_text>\<open>Approvals\<close>: holds, decisions, runs, delivery reports and the upgrade of
  old tables (\<open>approvals-schema.ts\<close>). \<^theory_text>\<open>Quotas\<close>: budgets. \<^theory_text>\<open>Trace\<close>: the trace outbox and the rows of \<open>src/src/trace/seams.ts\<close>.
  \<^theory_text>\<open>State_Lines\<close>, \<^theory_text>\<open>Doc_Edits\<close>, \<^theory_text>\<open>Agent_State\<close>: an agent's documents, edits by line, and their accounts (\<open>state-lines.ts\<close>).
  \<^theory_text>\<open>Plugin_Db\<close>: plugin databases (\<open>plugin-db.ts\<close>). \<^theory_text>\<open>Mounts\<close>: mounts, choices, secrets, model bindings. \<^theory_text>\<open>Seed_Record\<close>: the
  pass that gives an agent its seeded mounts (\<open>seed-record.ts\<close>). \<^theory_text>\<open>Store_Runs\<close> composes them: an inductive step relation with one
  rule per operation, and what every run keeps (the log is only appended to, no task goes back in version, generation or fencing
  token, documents refine a map).

  \<^bold>\<open>Around the store.\<close> \<^theory_text>\<open>Usage\<close> and \<^theory_text>\<open>Usage_Held\<close>: rows of usage, activity and held time, each counted once
  (\<open>src/src/usage\<close>). \<^theory_text>\<open>Idle_Lease\<close> and \<^theory_text>\<open>Idle_Pass\<close>: when a held thing is released, and the pass that warns and takes it
  (\<open>idle-lease.ts\<close>, \<open>held.ts\<close>, \<open>#idlePass\<close> of \<open>cf/src/runtime.ts\<close>). \<^theory_text>\<open>Background_Jobs\<close>: jobs that outlive a turn
  (\<open>background-jobs.ts\<close>), with the life of a job as an inductive relation. \<^theory_text>\<open>Questions\<close>: what waits for the model's answer and
  whether an answer is of the kind asked for (\<open>run-js-resume.ts\<close>).

  \<^bold>\<open>Subagents\<close> (\<open>src/src/runtime/subagents.ts\<close> and its handlers in \<open>cf/src/runtime.ts\<close>). \<^theory_text>\<open>Subagents\<close>: the table of children, its
  operations, the limits, the keys and the messages; \<open>sub_step\<close> is one statement on the tables. \<^theory_text>\<open>Subagent_Runs\<close>: the send, the post
  that lands once, the wake, the pass over reports, stops, the sweep and retention; \<open>sub_handler\<close> is one of them, with whatever runs
  while it awaits, or a crash inside it. They show the cap, that a report reaches its parent at most once and, when it can be posted,
  does, that a send run again starts nothing, and what a stop leaves. \<^theory_text>\<open>Subagent_Cases\<close>: concrete runs, among them two where the code
  does less than it says. Replay and the single report of pi085 rest on its transcript holding the key; only pd's request id, where
  a key is found exactly when it was posted, is used for the at-most-once theorem.

  \<^bold>\<open>Pushed events\<close> (\<open>src/src/runtime/inbound.ts\<close>, \<open>receiveHook\<close> and \<open>deliverPendingInbound\<close> of \<open>cf/src/runtime.ts\<close>). \<^theory_text>\<open>Inbound\<close>: what
  is read, the labels, the queue, the record, the rate, the repeat, the wakes of plugins (\<open>plugin-wakes.ts\<close>) and the wait for an import.
  \<^theory_text>\<open>Inbound_Pass\<close>: a push from its arrival to its row, and the pass cut at its awaits; \<open>inbound_step\<close> lets pushes arrive, holds lift and
  the object die at each of them. \<^theory_text>\<open>Inbound_Cases\<close>: that a push is posted at most once and in order, a key once a day, that the queue and
  the age are bounded, where every push ends, and that a pass with nothing in its way hands all over within seven moves a push; and
  runs in which the code does not do what its comments say. That a post which throws wrote nothing is the engine's rule.

  \<^bold>\<open>Seeding and importing\<close> (\<open>src/src/store/seed-files.ts\<close>, \<open>workspace-import.ts\<close>, \<open>seedWrite\<close> and \<open>importWorkspace\<close> of
  \<open>cf/src/runtime.ts\<close>). \<^theory_text>\<open>Workspace\<close>: the files an evaluation gives an agent before it runs, the seal with its manifest and hash, the
  tool choice the hash covers (\<open>tool-config.ts\<close>), and the one import of a workspace with the wait for it; \<open>ws_step\<close> is one of these, a push,
  or anything else that leaves the seal alone. \<^theory_text>\<open>Workspace_Cases\<close>: that a sealed window stays closed and its hash can be recomputed, that
  a written file and an imported one read back, that an import happens once and whole or not at all, leaving no object behind, and a
  run in which a push the model never sees keeps an import out.

  \<^bold>\<open>Model calls of the durable engine\<close>. \<^theory_text>\<open>Model_Jobs\<close>: the tables of \<open>src/src/store/ap-store.ts\<close> (the engine of an agent, its
  conversations, jobs, deliveries), what the commit hook of \<open>pd-outbox.ts\<close> writes with a batch of the harness, and what \<open>PdHost\<close> of
  \<open>durable-agent.ts\<close> does with a job: staged, recorded by a commit, sent, swept, taken under a hold of eleven minutes, released, answered
  and metered. \<^theory_text>\<open>Model_Job_Runs\<close>: rounds of sending, commits and the choice of the engine. \<^theory_text>\<open>Model_Queue\<close>: the consumer of the queue
  (\<open>cf/src/model-queue.ts\<close>), whose calls to the agent's object may be lost either way, the record of a failed attempt, and the prewarm of a
  prompt cache (\<open>prewarm.ts\<close>, \<open>takePrewarm\<close> and \<open>prewarmDone\<close> of \<open>cf/src/runtime.ts\<close>). \<^theory_text>\<open>Model_Cases\<close> states what follows for a job
  from its start to its bill. A batch of the harness is the list of its writes; what the provider, the spend limit and the reading of a
  refusal as an overflow answer are parameters.

  \<^bold>\<open>The usage ledger\<close> (\<open>cf/src/usage-d1.ts\<close>, \<open>usage-flush.ts\<close>, \<open>usage-windows.ts\<close>). \<^theory_text>\<open>Ledger\<close>: the hourly and the daily table every tenant
  shares, how far each outbox has been counted, the guarded send, the fold of old hours into days, and the flush of an outbox cut at its calls
  to the database, any of which may be lost, late or repeated (\<open>flush_step\<close>). \<^theory_text>\<open>Ledger_Runs\<close>: that none of this counts a row twice or drops one.
  \<^theory_text>\<open>Ledger_Read\<close>: windows, groups, prices, pages and costs by period. \<^theory_text>\<open>Ledger_Cases\<close> states what follows, down to how near a rounded total is
  to the exact one. \<^bold>\<open>Spend limits\<close> (\<open>cf/src/spend-limit.ts\<close>). \<^theory_text>\<open>Spend_Limit\<close>: the figures, the reading of a day by budget, where a limit comes
  from, the verdict, the gate of an isolate with its kept readings, and the operator's overrides with their audit. \<^theory_text>\<open>Spend_Cases\<close>: that a
  verdict rests on a fresh reading of today under the agent's own pool, that the pools do not mix, that no plan and no override of a tenant's
  limit lets through what a limit without it or a spent budget refuses, and that the audit tells every override; two operators who write the same override at once are not in it.

  \<^bold>\<open>The gateway\<close> (\<open>src/src/runtime/gateway.ts\<close>). \<^theory_text>\<open>Tool_Policy\<close>: policies, policy keys, refusals, the route table of a bridge, paths,
  redaction (also \<open>src/src/plugins/types.ts\<close>). \<^theory_text>\<open>Gateway\<close>: \<open>resolve\<close>, admission, the verdict, the hold, the run and its ends, the
  resume of a question; \<open>invoke\<close> is \<open>#invoke\<close>, a function of the store that gives the answer (\<open>None\<close> when it throws) and the store it
  leaves. \<^theory_text>\<open>Gateway_Calls\<close> and \<^theory_text>\<open>Gateway_Approvals\<close> have what becomes of calls and of holds (also \<open>approval-notice.ts\<close> and
  \<open>#approvalPass\<close>, \<open>#tellApprovals\<close> of \<open>cf/src/runtime.ts\<close>).

  \<^bold>\<open>What the lemmas show.\<close> Of races, that one caller wins (commits, leases, claims, attempts, decisions, runs, notices, answers). Of
  failures, that what was begun is ended or comes back (lost claims, due holds, runs of approved calls, background jobs past their
  ceiling, idle things). Of records, that nothing is told, billed, warned of or added twice, that a repeated write never reaches its
  plugin again, that a refusal is never lifted, and that a redacted answer has no credential left. Some properties state what the code
  does against its own comments: a follow-up queued during a flush is lost; a message that could not be delivered is never sent; an
  approved call that goes on in the background is recorded as failed; a key whose hold has expired is told that it waits; a credential
  that cannot be read leaves its call pending.

  \<^bold>\<open>Modelling.\<close> Times are whole milliseconds as \<open>int\<close>, quantities of usage are rational, counters and sequence numbers are unbounded.
  A string is a list of 8-bit characters standing for UTF-16 units; the ellipsis and the dash the messages use are single characters
  of it. A transaction is one function; a statement that throws is a value of \<open>store_error\<close> and leaves the store as it was. An
  \<open>await\<close> on a plugin, a message or a service is a function parameter that may change the store in any way a property's hypotheses
  allow; where a pass reads the clock again after such an await, that reading is a parameter too. Loops over rows are structural
  recursions; \<open>idle_run\<close> has the number of its passes as fuel, and four are proved enough; the checks of schemas
  and the cutting of spans into hours end by a measure. Random identifiers, hashes, JSON parsing and the UTF-8
  length of a text are parameters.

  \<^bold>\<open>Not modelled.\<close> The engines that drive a model's turn (\<open>pi-agent.ts\<close>, \<open>engine.ts\<close>, and of \<open>durable-agent.ts\<close> what is not a job's) rest on
  a vendored loop.
  Plugins and model providers are requests to services. The worker, its pages and its HTTP routes (\<open>cf/src\<close>) beyond the passes named
  above are hosting and rendering. Of the store, threads; of the trace, the export of pending rows; of the gateway, the queues of
  exclusive mounts, usage and leases counted inside a run, prompt paragraphs, polls of background work, the call of \<open>receive\<close> and the listing
  of a mount's tools. Of a commit of the harness, the records of rebuilds and of failed
  trace writes. Benchmarks, vendored code and data files are not the program.
\<close>

end
